(* ===== verification/Prelude.thy ===== *)
theory Prelude
  imports Main "HOL-Library.Word" "HOL-Library.Monad_Syntax"
begin

text \<open>
  Shared vocabulary of the development: bytes and byte strings, the constants of
  \<^verbatim>\<open>src/src/shr/config.h\<close>, the C library calls the sources use on byte
  strings (\<open>memcmp\<close>, reading a digit string), the source of randomness, and the generic lemmas the
  components share.

  Two conventions hold everywhere.  A C function that may touch memory it must not touch, spin
  forever or call \<open>fail\<close> returns an \<open>option\<close>, and \<open>None\<close> means that it does not return
  normally; the \<open>do\<close> notation of the option monad then reads like the C statement sequence.
  A pointer is a natural number, the null pointer is \<open>None\<close> of type \<open>ptr option\<close>.
\<close>

unbundle bit_operations_syntax

named_theorems list_rules \<open>laws of the linked list of list.c\<close>
named_theorems hash_rules \<open>laws of the hash table of hash.c\<close>
named_theorems ben_rules \<open>facts on bencoded data\<close>

subsection \<open>Types and constants\<close>

type_synonym UCHAR = "8 word"
type_synonym bytes = "UCHAR list"
type_synonym ptr = nat
type_synonym time_t = int

abbreviation SHA1_SIZE :: nat where "SHA1_SIZE \<equiv> 20"
abbreviation BUF_SIZE :: nat where "BUF_SIZE \<equiv> 1024"
abbreviation INT_MAX :: int where "INT_MAX \<equiv> 2147483647"
abbreviation LONG_MAX :: int where "LONG_MAX \<equiv> 9223372036854775807"
abbreviation TID_SIZE :: nat where "TID_SIZE \<equiv> 4"
abbreviation TID_SIZE_MAX :: nat where "TID_SIZE_MAX \<equiv> 20"
abbreviation UDP_BUF :: nat where "UDP_BUF \<equiv> 1460"

text \<open>A character of a C source literal, as the byte it denotes, and a string literal.\<close>

definition chr :: "char \<Rightarrow> UCHAR" where
  "chr c = of_char c"

definition lit :: "string \<Rightarrow> bytes" where
  "lit s = map chr s"

lemma length_lit [simp]: "length (lit s) = length s"
  by (simp add: lit_def)

lemma lit_Nil [simp]: "lit [] = []"
  and lit_Cons [simp]: "lit (c # s) = chr c # lit s"
  by (simp_all add: lit_def)

subsection \<open>Byte strings as numbers\<close>

text \<open>The C library's \<open>memcmp\<close> on two regions of the same length; only the sign of its result
  is specified, and only the sign is used by the sources.\<close>

fun memcmp :: "bytes \<Rightarrow> bytes \<Rightarrow> int" where
  "memcmp (x # xs) (y # ys) =
     (if x = y then memcmp xs ys else if x < y then - 1 else 1)"
| "memcmp _ _ = 0"

text \<open>The big-endian value of a byte string.\<close>

fun be :: "bytes \<Rightarrow> nat" where
  "be [] = 0"
| "be (x # xs) = unat x * 256 ^ length xs + be xs"

lemma unat_byte_lt [simp]: "unat (x :: UCHAR) < 256"
  using unsigned_less [of x] by simp

lemma be_lt: "be xs < 256 ^ length xs"
proof (induction xs)
  case (Cons x xs)
  have "unat x \<le> 255" using unat_byte_lt [of x] by linarith
  then have "unat x * 256 ^ length xs \<le> 255 * 256 ^ length xs"
    by (rule mult_le_mono1)
  then have "unat x * 256 ^ length xs + be xs < 255 * 256 ^ length xs + 256 ^ length xs"
    using Cons by (rule add_le_less_mono)
  then show ?case by simp
qed simp

lemma be_append: "be (xs @ ys) = be xs * 256 ^ length ys + be ys"
  by (induction xs) (simp_all add: algebra_simps power_add)

lemma be_inj: "length xs = length ys \<Longrightarrow> be xs = be ys \<Longrightarrow> xs = ys"
proof (induction xs ys rule: list_induct2)
  case (Cons x xs y ys)
  let ?B = "256 ^ length xs :: nat"
  have eq: "unat x * ?B + be xs = unat y * ?B + be ys"
    using Cons.prems Cons.hyps by simp
  have lt: "be xs < ?B" "be ys < ?B"
    using be_lt [of xs] be_lt [of ys] Cons.hyps by simp_all
  have "unat x = (unat x * ?B + be xs) div ?B" using lt by simp
  also have "\<dots> = unat y" using lt by (simp add: eq)
  finally have "x = y" by (simp add: word_unat_eq_iff)
  with eq Cons.IH show ?case by simp
qed simp

lemma memcmp_be:
  "length xs = length ys \<Longrightarrow>
   memcmp xs ys = (if be xs < be ys then - 1 else if be xs = be ys then 0 else 1)"
proof (induction xs ys rule: list_induct2)
  case (Cons x xs y ys)
  let ?B = "256 ^ length xs :: nat"
  have lt: "be xs < ?B" "be ys < ?B"
    using be_lt [of xs] be_lt [of ys] Cons.hyps by simp_all
  have step: "unat a * ?B + be as < unat b * ?B + be bs"
    if "a < b" "be as < ?B" for a b :: UCHAR and as bs
  proof -
    have "Suc (unat a) * ?B \<le> unat b * ?B"
      using that(1) by (intro mult_le_mono1) (simp add: word_less_nat_alt)
    with that(2) show ?thesis by simp
  qed
  consider "x = y" | "x < y" | "y < x" by (meson linorder_less_linear)
  then show ?case
  proof cases
    case 1
    with Cons show ?thesis by simp
  next
    case 2
    with step [OF 2 lt(1), of ys] Cons.hyps show ?thesis by auto
  next
    case 3
    with step [OF 3 lt(2), of xs] Cons.hyps show ?thesis by auto
  qed
qed simp

lemma memcmp_eq_0_iff: "length xs = length ys \<Longrightarrow> memcmp xs ys = 0 \<longleftrightarrow> xs = ys"
  by (auto simp: memcmp_be dest: be_inj)

lemma memcmp_neg_iff: "length xs = length ys \<Longrightarrow> memcmp xs ys < 0 \<longleftrightarrow> be xs < be ys"
  by (simp add: memcmp_be)

subsection \<open>Randomness\<close>

text \<open>
  \<open>random()\<close> and \<^verbatim>\<open>/dev/urandom\<close> are outside the program.  A run is given the
  values they will deliver: \<open>r_random\<close> numbers the calls of \<open>random\<close>, \<open>r_urandom\<close> the
  calls of \<open>rand_urandom\<close> with the size asked for, and the two counters say how many were made.
\<close>

record rng =
  r_random :: "nat \<Rightarrow> nat"
  r_urandom :: "nat \<Rightarrow> nat \<Rightarrow> bytes"
  r_i :: nat
  r_j :: nat

definition random :: "rng \<Rightarrow> nat \<times> rng" where
  "random g = (r_random g (r_i g), g\<lparr>r_i := Suc (r_i g)\<rparr>)"

definition rand_urandom :: "rng \<Rightarrow> nat \<Rightarrow> bytes \<times> rng" where
  "rand_urandom g n = (r_urandom g (r_j g) n, g\<lparr>r_j := Suc (r_j g)\<rparr>)"

text \<open>The device delivers as many bytes as asked for (\<open>rand_urandom\<close> fails otherwise).\<close>

definition rng_ok :: "rng \<Rightarrow> bool" where
  "rng_ok g \<longleftrightarrow> (\<forall>j n. length (r_urandom g j n) = n)"

text \<open>A random source for examples.\<close>

definition ex_rng :: rng where
  "ex_rng = \<lparr>r_random = id, r_urandom = (\<lambda>j n. replicate n (of_nat j)), r_i = 0, r_j = 0\<rparr>"

lemma rng_ok_random [simp]: "rng_ok (snd (random g)) = rng_ok g"
  by (simp add: rng_ok_def random_def)

lemma rng_ok_urandom [simp]: "rng_ok (snd (rand_urandom g n)) = rng_ok g"
  by (simp add: rng_ok_def rand_urandom_def)

subsection \<open>Generic lemmas\<close>

lemma bind_eq_Some_conv': "(m \<bind> f) = Some y \<longleftrightarrow> (\<exists>x. m = Some x \<and> f x = Some y)"
  by (cases m) auto

lemma distinct_map_fst_split:
  "distinct (map fst (xs @ (p, v) # ys)) \<Longrightarrow>
   p \<notin> fst ` set xs \<and> p \<notin> fst ` set ys \<and> fst ` set xs \<inter> fst ` set ys = {}"
  by auto

lemma map_of_split:
  "distinct (map fst (xs @ (p, v) # ys)) \<Longrightarrow> map_of (xs @ (p, v) # ys) p = Some v"
  by (rule map_of_is_SomeI) auto

lemma in_fst_split: "p \<in> fst ` set xs \<Longrightarrow> \<exists>ys v zs. xs = ys @ (p, v) # zs"
  by (metis imageE prod.collapse split_list)

lemma distinct_map_split:
  "distinct (map f (xs @ x # ys)) \<longleftrightarrow>
   distinct (map f (xs @ ys)) \<and> (\<forall>y \<in> set (xs @ ys). f y \<noteq> f x)"
  by (force simp: image_iff)

lemma map_of_mid: "k \<notin> fst ` set xs \<Longrightarrow> map_of (xs @ (k, v) # ys) = (map_of (xs @ ys))(k \<mapsto> v)"
  by (induction xs) auto

lemma map_of_mid_del:
  "k \<notin> fst ` set xs \<Longrightarrow> k \<notin> fst ` set ys \<Longrightarrow>
   map_of (xs @ ys) = (map_of (xs @ (k, v) # ys))(k := None)"
  by (induction xs) (auto simp: fun_upd_twist fun_upd_idem map_of_eq_None_iff)

end
