(* ===== verification/Inet.thy ===== *)
theory Inet
  imports Prelude
begin

text \<open>
  Socket addresses, \<^verbatim>\<open>src/src/shr/ip.c\<close>.  The program is built for one of the two protocols;
  the model takes the choice as an argument.  Addresses and ports are kept in network byte order.
  The family is fixed by the build; what else a socket address holds (flow label and scope) is
  carried along as \<open>ip_rest\<close>.
\<close>

datatype ipver = IPV4 | IPV6

fun IP_SIZE :: "ipver \<Rightarrow> nat" where
  "IP_SIZE IPV4 = 4"
| "IP_SIZE IPV6 = 16"

definition IP_SIZE_META_PAIR :: "ipver \<Rightarrow> nat" where
  "IP_SIZE_META_PAIR v = IP_SIZE v + 2"

definition IP_SIZE_META_PAIR8 :: "ipver \<Rightarrow> nat" where
  "IP_SIZE_META_PAIR8 v = 8 * IP_SIZE_META_PAIR v"

definition IP_SIZE_META_TRIPLE :: "ipver \<Rightarrow> nat" where
  "IP_SIZE_META_TRIPLE v = SHA1_SIZE + IP_SIZE_META_PAIR v"

definition IP_SIZE_META_TRIPLE8 :: "ipver \<Rightarrow> nat" where
  "IP_SIZE_META_TRIPLE8 v = 8 * IP_SIZE_META_TRIPLE v"

record IP =
  ip_addr :: bytes
  ip_port :: bytes
  ip_rest :: nat

definition ip_ok :: "ipver \<Rightarrow> IP \<Rightarrow> bool" where
  "ip_ok v sin \<longleftrightarrow> length (ip_addr sin) = IP_SIZE v \<and> length (ip_port sin) = 2"

definition ip_is_localhost :: "ipver \<Rightarrow> IP \<Rightarrow> bool" where
  "ip_is_localhost v from =
     (case v of
        IPV6 \<Rightarrow> memcmp (ip_addr from) [0, 0, 0, 0, 0, 0, 0, 0, 0, 0, 0, 0, 0, 0, 0, 1] = 0
      | IPV4 \<Rightarrow> memcmp (ip_addr from) [0x7f, 0, 0, 1] = 0)"

definition ip_is_linklocal :: "ipver \<Rightarrow> IP \<Rightarrow> bool" where
  "ip_is_linklocal v from =
     (case v of
        IPV6 \<Rightarrow> memcmp (take 8 (ip_addr from)) [0xfe, 0x80, 0, 0, 0, 0, 0, 0] = 0
      | IPV4 \<Rightarrow> False)"

text \<open>Reading a compact address returns the rest of the buffer; a short buffer is read past its end.\<close>

definition ip_tuple_to_sin :: "ipver \<Rightarrow> bytes \<Rightarrow> (IP \<times> bytes) option" where
  "ip_tuple_to_sin v p =
     (if length p < IP_SIZE v + 2 then None
      else Some (\<lparr>ip_addr = take (IP_SIZE v) p, ip_port = take 2 (drop (IP_SIZE v) p), ip_rest = 0\<rparr>,
        drop (IP_SIZE v + 2) p))"

definition ip_sin_to_tuple :: "IP \<Rightarrow> bytes" where
  "ip_sin_to_tuple sin = ip_addr sin @ ip_port sin"

definition ip_bytes_to_sin :: "ipver \<Rightarrow> bytes \<Rightarrow> (IP \<times> bytes) option" where
  "ip_bytes_to_sin v p =
     (if length p < IP_SIZE v then None
      else Some (\<lparr>ip_addr = take (IP_SIZE v) p, ip_port = [0, 0], ip_rest = 0\<rparr>, drop (IP_SIZE v) p))"

definition htons :: "16 word \<Rightarrow> bytes" where
  "htons port = [ucast (drop_bit 8 port), ucast port]"

definition ntohs :: "bytes \<Rightarrow> 16 word" where
  "ntohs p = push_bit 8 (ucast (p ! 0)) OR ucast (p ! 1)"

definition ip_merge_port_to_sin :: "IP \<Rightarrow> 16 word \<Rightarrow> IP" where
  "ip_merge_port_to_sin sin port = sin\<lparr>ip_port := htons port\<rparr>"

definition ip_sin_to_port :: "IP \<Rightarrow> 16 word" where
  "ip_sin_to_port sin = ntohs (ip_port sin)"

section \<open>Laws\<close>

lemma ntohs_htons: "ntohs (htons port) = port"
  by (simp add: ntohs_def htons_def)
    (rule bit_word_eqI; auto simp: bit_simps)

lemma port_roundtrip: "ip_sin_to_port (ip_merge_port_to_sin sin port) = port"
  by (simp add: ip_sin_to_port_def ip_merge_port_to_sin_def ntohs_htons)

lemma ip_ok_merge: "ip_ok v sin \<Longrightarrow> ip_ok v (ip_merge_port_to_sin sin port)"
  by (simp add: ip_ok_def ip_merge_port_to_sin_def htons_def)

lemma tuple_length: "ip_ok v sin \<Longrightarrow> length (ip_sin_to_tuple sin) = IP_SIZE_META_PAIR v"
  by (simp add: ip_ok_def ip_sin_to_tuple_def IP_SIZE_META_PAIR_def)

lemma tuple_roundtrip:
  "ip_ok v sin \<Longrightarrow> ip_tuple_to_sin v (ip_sin_to_tuple sin @ rest) = Some (sin\<lparr>ip_rest := 0\<rparr>, rest)"
  by (simp add: ip_ok_def ip_tuple_to_sin_def ip_sin_to_tuple_def)

lemma ip_ok_tuple: "ip_tuple_to_sin v p = Some (sin, q) \<Longrightarrow> ip_ok v sin \<and> length p = length q + IP_SIZE_META_PAIR v"
  by (auto simp: ip_tuple_to_sin_def ip_ok_def IP_SIZE_META_PAIR_def split: if_splits)

lemma ip_is_localhost_iff:
  "ip_ok IPV4 sin \<Longrightarrow> ip_is_localhost IPV4 sin \<longleftrightarrow> ip_addr sin = [0x7f, 0, 0, 1]"
  "ip_ok IPV6 sin \<Longrightarrow> ip_is_localhost IPV6 sin \<longleftrightarrow> ip_addr sin = [0, 0, 0, 0, 0, 0, 0, 0, 0, 0, 0, 0, 0, 0, 0, 1]"
  by (simp_all add: ip_is_localhost_def ip_ok_def memcmp_eq_0_iff)

text \<open>A documentation address, for examples.\<close>

definition ex_ip :: IP where
  "ex_ip = \<lparr>ip_addr = [192, 0, 2, 1], ip_port = [26, 225], ip_rest = 0\<rparr>"

lemma ex_ip_ok: "ip_ok IPV4 ex_ip"
  by (simp add: ex_ip_def ip_ok_def)

lemma ex_port: "htons 6881 = [26, 225]"
  by code_simp

end
