(* ===== verification/Times.thy ===== *)
theory Times
  imports Prelude
begin

text \<open>
  \<^verbatim>\<open>src/src/p2p/time.c\<close>: the deadlines of the program, computed from the clock
  that \<open>p2p_cron\<close> reads (\<open>now\<close>) and, for the approximate ones, from \<open>random()\<close>.
\<close>

definition time_add_1_min :: "time_t \<Rightarrow> time_t" where
  "time_add_1_min now = now + 60"

definition time_add_30_min :: "time_t \<Rightarrow> time_t" where
  "time_add_30_min now = now + 1800"

definition time_add_5_sec_approx :: "time_t \<Rightarrow> rng \<Rightarrow> time_t \<times> rng" where
  "time_add_5_sec_approx now g =
     (let (r, g') = random g in (now + 4 + int (r mod 3), g'))"

definition time_add_1_min_approx :: "time_t \<Rightarrow> rng \<Rightarrow> time_t \<times> rng" where
  "time_add_1_min_approx now g =
     (let (r, g') = random g in (now + 50 + int (r mod 20), g'))"

definition time_add_5_min_approx :: "time_t \<Rightarrow> rng \<Rightarrow> time_t \<times> rng" where
  "time_add_5_min_approx now g =
     (let (r, g') = random g in (now + 240 + int (r mod 120), g'))"

text \<open>Each deadline lies in the window its name promises.\<close>

lemma time_windows:
  "now + 4 \<le> fst (time_add_5_sec_approx now g)" "fst (time_add_5_sec_approx now g) \<le> now + 6"
  "now + 50 \<le> fst (time_add_1_min_approx now g)" "fst (time_add_1_min_approx now g) \<le> now + 69"
  "now + 240 \<le> fst (time_add_5_min_approx now g)" "fst (time_add_5_min_approx now g) \<le> now + 359"
proof -
  have mod: "int (n mod k) \<le> int k - 1" if "0 < k" for n k :: nat
    using mod_less_divisor [OF that, of n] by linarith
  have "int (fst (random g) mod 3) \<le> 2" using mod [of 3 "fst (random g)"] by simp
  moreover have "int (fst (random g) mod 20) \<le> 19" using mod [of 20 "fst (random g)"] by simp
  moreover have "int (fst (random g) mod 120) \<le> 119" using mod [of 120 "fst (random g)"] by simp
  ultimately show
    "now + 4 \<le> fst (time_add_5_sec_approx now g)" "fst (time_add_5_sec_approx now g) \<le> now + 6"
    "now + 50 \<le> fst (time_add_1_min_approx now g)" "fst (time_add_1_min_approx now g) \<le> now + 69"
    "now + 240 \<le> fst (time_add_5_min_approx now g)" "fst (time_add_5_min_approx now g) \<le> now + 359"
    by (auto simp: time_add_5_sec_approx_def time_add_1_min_approx_def time_add_5_min_approx_def
        split: prod.splits)
qed

lemma rng_ok_time [simp]:
  "rng_ok (snd (time_add_5_sec_approx now g)) = rng_ok g"
  "rng_ok (snd (time_add_1_min_approx now g)) = rng_ok g"
  "rng_ok (snd (time_add_5_min_approx now g)) = rng_ok g"
  by (simp_all add: time_add_5_sec_approx_def time_add_1_min_approx_def time_add_5_min_approx_def
      random_def rng_ok_def)

end
