(* ===== verification/Node_Udp.thy ===== *)
theory Node_Udp
  imports Inet Times
begin

text \<open>
  A known peer, \<^verbatim>\<open>src/src/p2p/node_udp.c\<close>: its identifier and address, when it is due for a
  ping or a find_node request, and how many pings it has left unanswered.
\<close>

record UDP_NODE =
  n_id :: bytes
  c_addr :: IP
  time_ping :: time_t
  time_find :: time_t
  pinged :: int

definition node_update :: "UDP_NODE \<Rightarrow> IP \<Rightarrow> UDP_NODE" where
  "node_update n sa = (if c_addr n \<noteq> sa then n\<lparr>c_addr := sa\<rparr> else n)"

text \<open>The memory of a new node is zeroed, so its address differs from any real one before the update.\<close>

definition node_init :: "bytes \<Rightarrow> IP \<Rightarrow> UDP_NODE" where
  "node_init node_id sa =
     node_update \<lparr>n_id = take SHA1_SIZE node_id, c_addr = \<lparr>ip_addr = [], ip_port = [], ip_rest = 0\<rparr>,
       time_ping = 0, time_find = 0, pinged = 0\<rparr> sa"

definition node_equal :: "bytes \<Rightarrow> bytes \<Rightarrow> bool" where
  "node_equal node_a node_b = (memcmp (take SHA1_SIZE node_a) (take SHA1_SIZE node_b) = 0)"

definition node_me :: "bytes \<Rightarrow> bytes \<Rightarrow> bool" where
  "node_me my_id node_id = node_equal node_id my_id"

definition node_ok :: "UDP_NODE \<Rightarrow> bool" where
  "node_ok n \<longleftrightarrow> pinged n \<le> 1"

definition node_bad :: "UDP_NODE \<Rightarrow> bool" where
  "node_bad n \<longleftrightarrow> pinged n \<ge> 4"

text \<open>
  The counter is an \<open>int\<close> of 32 bits, which is counted without a check; the sum is taken modulo \<open>2 ^ 32\<close>, as the machine does.  By \<open>paced_fits\<close> below
  that never matters: a node is pinged only when its time has come.
\<close>

definition int_add :: "int \<Rightarrow> int \<Rightarrow> int" where
  "int_add a b = sint (word_of_int (a + b) :: 32 word)"

definition node_pinged :: "UDP_NODE \<Rightarrow> time_t \<Rightarrow> rng \<Rightarrow> UDP_NODE \<times> rng" where
  "node_pinged n now g =
     (let n = n\<lparr>pinged := int_add (pinged n) 1\<rparr>; (t, g') = time_add_5_min_approx now g in
      (n\<lparr>time_ping := t\<rparr>, g'))"

definition node_ponged :: "UDP_NODE \<Rightarrow> IP \<Rightarrow> time_t \<Rightarrow> rng \<Rightarrow> UDP_NODE \<times> rng" where
  "node_ponged n from now g =
     (let n = n\<lparr>pinged := 0\<rparr>; (t, g') = time_add_5_min_approx now g in
      (node_update (n\<lparr>time_ping := t\<rparr>) from, g'))"

lemma node_update_simps [simp]:
  "n_id (node_update n sa) = n_id n" "c_addr (node_update n sa) = sa" "pinged (node_update n sa) = pinged n"
  "time_ping (node_update n sa) = time_ping n" "time_find (node_update n sa) = time_find n"
  by (simp_all add: node_update_def)

lemma node_init_simps [simp]:
  "length i = SHA1_SIZE \<Longrightarrow> n_id (node_init i sa) = i"
  "c_addr (node_init i sa) = sa" "pinged (node_init i sa) = 0"
  by (simp_all add: node_init_def)

lemma node_equal_iff: "length a = SHA1_SIZE \<Longrightarrow> length b = SHA1_SIZE \<Longrightarrow> node_equal a b \<longleftrightarrow> a = b"
  by (simp add: node_equal_def memcmp_eq_0_iff)

lemma node_pinged_simps [simp]:
  "n_id (fst (node_pinged n now g)) = n_id n" "c_addr (fst (node_pinged n now g)) = c_addr n"
  "pinged (fst (node_pinged n now g)) = int_add (pinged n) 1" "time_ping (fst (node_pinged n now g)) = fst (time_add_5_min_approx now g)"
  by (simp_all add: node_pinged_def Let_def case_prod_beta)

lemma node_ponged_simps [simp]:
  "n_id (fst (node_ponged n from now g)) = n_id n" "c_addr (fst (node_ponged n from now g)) = from"
  "pinged (fst (node_ponged n from now g)) = 0" "time_ping (fst (node_ponged n from now g)) = fst (time_add_5_min_approx now g)"
  by (simp_all add: node_ponged_def Let_def case_prod_beta)

text \<open>
  Every ping moves the time of the next one by four minutes or more, so the number of unanswered pings is bounded by the clock: before the clock reads
  \<open>240 * INT_MAX\<close> seconds, some sixteen thousand years, the counter does not wrap.
\<close>

definition paced :: "UDP_NODE \<Rightarrow> bool" where
  "paced n \<longleftrightarrow> 0 \<le> pinged n \<and> 240 * pinged n \<le> time_ping n"

lemma int_add_exact: "0 \<le> a \<Longrightarrow> a < INT_MAX \<Longrightarrow> int_add a 1 = a + 1"
  unfolding int_add_def int_word_sint by simp

lemma paced_fits: "paced n \<Longrightarrow> time_ping n < now \<Longrightarrow> now \<le> 240 * INT_MAX \<Longrightarrow> pinged n < INT_MAX"
  by (simp add: paced_def)

lemma paced_kept:
  "paced (node_init i sa)"
  "paced n \<Longrightarrow> paced (node_update n sa)"
  "paced n \<Longrightarrow> time_ping n < now \<Longrightarrow> now \<le> 240 * INT_MAX \<Longrightarrow> paced (fst (node_pinged n now g))"
  "0 \<le> now \<Longrightarrow> paced (fst (node_ponged n from now g))"
proof -
  show "paced (node_init i sa)" by (simp add: paced_def node_init_def)
  show "paced n \<Longrightarrow> paced (node_update n sa)" by (simp add: paced_def)
  show "0 \<le> now \<Longrightarrow> paced (fst (node_ponged n from now g))" using time_windows(5) [of now g] by (simp add: paced_def)
  assume n: "paced n" "time_ping n < now" "now \<le> 240 * INT_MAX"
  have "int_add (pinged n) 1 = pinged n + 1" by (rule int_add_exact) (use n paced_fits [OF n] in \<open>simp_all add: paced_def\<close>)
  then show "paced (fst (node_pinged n now g))" using n time_windows(5) [of now g] by (simp add: paced_def)
qed

end
