(* ===== verification/Bucket.thy ===== *)
theory Bucket
  imports Node_Udp
begin

text \<open>
  The routing table of \<^verbatim>\<open>src/src/p2p/bucket.c\<close>: a list of buckets sorted by identifier, each with the
  nodes whose identifiers lie between its own and that of the next bucket.  The lists of this
  component are only changed by \<open>list_put\<close>, \<open>list_add\<close> and \<open>list_del\<close>, after which \<open>list->item\<close> is
  always the first item, so they are modelled by the sequences they represent and an \<open>ITEM\<close> by its position.
  Node objects are shared with the hash table of the neighbourhood and live in the memory \<open>mem\<close>.
\<close>

section \<open>Buckets\<close>

abbreviation BCKT_SIZE_MAX :: nat where "BCKT_SIZE_MAX \<equiv> 20"

type_synonym node_mem = "ptr \<rightharpoonup> UDP_NODE"

record BUCK =
  b_id :: bytes
  b_nodes :: "ptr list"

definition bckt_init :: "BUCK list" where
  "bckt_init = [\<lparr>b_id = replicate SHA1_SIZE 0, b_nodes = []\<rparr>]"

text \<open>The position of the best bucket; an empty list of buckets is dereferenced.\<close>

fun bckt_find_best_match :: "BUCK list \<Rightarrow> bytes \<Rightarrow> nat option" where
  "bckt_find_best_match [] i = None"
| "bckt_find_best_match [b] i = Some 0"
| "bckt_find_best_match (b # b' # bs) i =
     (if memcmp i (b_id b') < 0 then Some 0
      else map_option Suc (bckt_find_best_match (b' # bs) i))"

fun any_loop :: "BUCK list \<Rightarrow> nat \<Rightarrow> nat option" where
  "any_loop bs 0 = (if b_nodes (bs ! 0) \<noteq> [] then Some 0 else None)"
| "any_loop bs (Suc i) = (if b_nodes (bs ! Suc i) \<noteq> [] then Some (Suc i) else any_loop bs i)"

definition bckt_find_any_match :: "BUCK list \<Rightarrow> bytes \<Rightarrow> nat option option" where
  "bckt_find_any_match bs i = do {
     k \<leftarrow> bckt_find_best_match bs i;
     if b_nodes (bs ! k) \<noteq> [] then Some (Some k) else Some (any_loop bs k)
   }"

fun find_node_loop :: "node_mem \<Rightarrow> ptr list \<Rightarrow> bytes \<Rightarrow> nat option option" where
  "find_node_loop mem [] i = Some None"
| "find_node_loop mem (p # ps) i = do {
     n \<leftarrow> mem p;
     if node_equal (n_id n) i then Some (Some 0)
     else do { r \<leftarrow> find_node_loop mem ps i; Some (map_option Suc r) }
   }"

definition bckt_find_node :: "node_mem \<Rightarrow> BUCK list \<Rightarrow> bytes \<Rightarrow> nat option option" where
  "bckt_find_node mem bs i = do {
     k \<leftarrow> bckt_find_best_match bs i;
     find_node_loop mem (b_nodes (bs ! k)) i
   }"

definition bckt_put :: "node_mem \<Rightarrow> BUCK list \<Rightarrow> ptr option \<Rightarrow> (BUCK list \<times> bool) option" where
  "bckt_put mem bs n =
     (case n of None \<Rightarrow> Some (bs, False)
      | Some p \<Rightarrow> do {
          nd \<leftarrow> mem p;
          k \<leftarrow> bckt_find_best_match bs (n_id nd);
          let b = bs ! k;
          found \<leftarrow> bckt_find_node mem bs (n_id nd);
          if found \<noteq> None then Some (bs, False)
          else if length (b_nodes b) \<ge> BCKT_SIZE_MAX then Some (bs, False)
          else Some (bs[k := b\<lparr>b_nodes := b_nodes b @ [p]\<rparr>], True)
        })"

definition bckt_del :: "node_mem \<Rightarrow> BUCK list \<Rightarrow> ptr option \<Rightarrow> BUCK list option" where
  "bckt_del mem bs n =
     (case n of None \<Rightarrow> Some bs
      | Some p \<Rightarrow> do {
          nd \<leftarrow> mem p;
          k \<leftarrow> bckt_find_best_match bs (n_id nd);
          let b = bs ! k;
          found \<leftarrow> bckt_find_node mem bs (n_id nd);
          case found of None \<Rightarrow> Some bs
          | Some j \<Rightarrow> Some (bs[k := b\<lparr>b_nodes := take j (b_nodes b) @ drop (Suc j) (b_nodes b)\<rparr>])
        })"

section \<open>Splitting\<close>

text \<open>The index of the last non-zero byte below \<open>n\<close>, and of the last set bit of a byte, counted from the left.\<close>

fun sig_byte :: "bytes \<Rightarrow> nat \<Rightarrow> int" where
  "sig_byte i 0 = - 1"
| "sig_byte i (Suc n) = (if i ! n \<noteq> 0 then int n else sig_byte i n)"

fun sig_bit :: "UCHAR \<Rightarrow> nat \<Rightarrow> int" where
  "sig_bit c 0 = - 1"
| "sig_bit c (Suc n) = (if c AND drop_bit n 0x80 \<noteq> 0 then int n else sig_bit c n)"

definition bckt_significant_bit :: "bytes \<Rightarrow> int" where
  "bckt_significant_bit i =
     (let k = sig_byte i 20 in
      if k < 0 then - 1 else 8 * k + sig_bit (i ! nat k) 8)"

definition bckt_compute_id :: "BUCK list \<Rightarrow> nat \<Rightarrow> bytes option" where
  "bckt_compute_id bs k =
     (let b = bs ! k;
          bit1 = bckt_significant_bit (b_id b);
          bit2 = (if Suc k < length bs then bckt_significant_bit (b_id (bs ! Suc k)) else - 1);
          bit = (if bit1 \<ge> bit2 then bit1 else bit2) + 1
      in if bit \<ge> 160 then None
         else Some ((b_id b)[nat bit div 8 := (b_id b ! (nat bit div 8)) OR drop_bit (nat bit mod 8) 0x80]))"

fun spread :: "node_mem \<Rightarrow> BUCK list \<Rightarrow> ptr list \<Rightarrow> BUCK list option" where
  "spread mem bs [] = Some bs"
| "spread mem bs (p # ps) = do {
     n \<leftarrow> mem p;
     k \<leftarrow> bckt_find_best_match bs (n_id n);
     spread mem (bs[k := (bs ! k)\<lparr>b_nodes := b_nodes (bs ! k) @ [p]\<rparr>]) ps
   }"

definition bckt_split :: "node_mem \<Rightarrow> BUCK list \<Rightarrow> bytes \<Rightarrow> (BUCK list \<times> bool) option" where
  "bckt_split mem bs target = do {
     k \<leftarrow> bckt_find_best_match bs target;
     let b = bs ! k;
     if length (b_nodes b) \<le> 8 then Some (bs, False)
     else (case bckt_compute_id bs k of
         None \<Rightarrow> Some (bs, False)
       | Some id_new \<Rightarrow> do {
           let b_new = \<lparr>b_id = id_new, b_nodes = []\<rparr>;
           let bs1 = take k bs @ [b\<lparr>b_nodes := []\<rparr>, b_new] @ drop (Suc k) bs;
           bs2 \<leftarrow> spread mem bs1 (b_nodes b);
           Some (bs2, True)
         })
   }"

partial_function (option) bckt_split_loop :: "node_mem \<Rightarrow> BUCK list \<Rightarrow> bytes \<Rightarrow> BUCK list option" where
  "bckt_split_loop mem bs target =
     (case bckt_split mem bs target of None \<Rightarrow> None
      | Some (bs', split) \<Rightarrow> if split then bckt_split_loop mem bs' target else Some bs')"

section \<open>Reading\<close>

definition bckt_is_empty :: "BUCK list \<Rightarrow> bool" where
  "bckt_is_empty bs = list_all (\<lambda>b. b_nodes b = []) bs"

text \<open>The walk through a bucket that copies at most \<open>j\<close> more compact nodes.\<close>

fun compact_loop :: "node_mem \<Rightarrow> nat \<Rightarrow> ptr list \<Rightarrow> bytes option" where
  "compact_loop mem 0 ps = Some []"
| "compact_loop mem (Suc j) [] = Some []"
| "compact_loop mem (Suc j) (p # ps) = do {
     n \<leftarrow> mem p;
     if \<not> node_ok n then compact_loop mem (Suc j) ps
     else do {
       rest \<leftarrow> compact_loop mem j ps;
       Some (n_id n @ ip_sin_to_tuple (c_addr n) @ rest)
     }
   }"

definition bckt_compact_list :: "node_mem \<Rightarrow> BUCK list \<Rightarrow> bytes \<Rightarrow> bytes option" where
  "bckt_compact_list mem bs target = do {
     k \<leftarrow> bckt_find_any_match bs target;
     case k of None \<Rightarrow> Some []
     | Some k \<Rightarrow> compact_loop mem 8 (b_nodes (bs ! k))
   }"

section \<open>The invariant\<close>

definition all_nodes :: "BUCK list \<Rightarrow> ptr list" where
  "all_nodes bs = concat (map b_nodes bs)"

definition nid :: "node_mem \<Rightarrow> ptr \<Rightarrow> bytes" where
  "nid mem p = (case mem p of None \<Rightarrow> [] | Some n \<Rightarrow> n_id n)"

definition ids_ok :: "BUCK list \<Rightarrow> bool" where
  "ids_ok bs \<longleftrightarrow> bs \<noteq> [] \<and> be (b_id (hd bs)) = 0 \<and> (\<forall>b \<in> set bs. length (b_id b) = SHA1_SIZE) \<and>
     sorted_wrt (\<lambda>a b. be (b_id a) < be (b_id b)) bs"

definition placed :: "node_mem \<Rightarrow> BUCK list \<Rightarrow> bool" where
  "placed mem bs \<longleftrightarrow>
     (\<forall>b \<in> set bs. \<forall>p \<in> set (b_nodes b). be (b_id b) \<le> be (nid mem p)) \<and>
     sorted_wrt (\<lambda>a b. \<forall>p \<in> set (b_nodes a). be (nid mem p) < be (b_id b)) bs"

definition nodes_ok :: "node_mem \<Rightarrow> BUCK list \<Rightarrow> bool" where
  "nodes_ok mem bs \<longleftrightarrow> distinct (all_nodes bs) \<and> inj_on (nid mem) (set (all_nodes bs)) \<and>
     (\<forall>p \<in> set (all_nodes bs). \<exists>n. mem p = Some n \<and> length (n_id n) = SHA1_SIZE) \<and>
     (\<forall>b \<in> set bs. length (b_nodes b) \<le> BCKT_SIZE_MAX)"

definition buckets_ok :: "node_mem \<Rightarrow> BUCK list \<Rightarrow> bool" where
  "buckets_ok mem bs \<longleftrightarrow> ids_ok bs \<and> placed mem bs \<and> nodes_ok mem bs"

lemma be_zeros: "be (replicate n 0) = 0"
  by (induction n) auto

lemma buckets_ok_init: "buckets_ok mem bckt_init"
  by (simp add: buckets_ok_def bckt_init_def ids_ok_def placed_def nodes_ok_def all_nodes_def be_zeros)

subsection \<open>The best bucket\<close>

lemma best_at:
  assumes "ids_ok (xs @ b # ys)" and "length i = SHA1_SIZE"
    and "be (b_id b) \<le> be i" and "\<forall>c \<in> set ys. be i < be (b_id c)"
  shows "bckt_find_best_match (xs @ b # ys) i = Some (length xs)"
proof -
  let ?ok = "\<lambda>bs. (\<forall>b \<in> set bs. length (b_id b) = 20) \<and> sorted_wrt (\<lambda>a b. be (b_id a) < be (b_id b)) bs"
  have "?ok (xs @ b # ys)" using assms(1) by (simp add: ids_ok_def)
  then show ?thesis
  proof (induction xs)
    case Nil
    with assms(2-4) show ?case by (cases ys) (simp_all add: memcmp_neg_iff)
  next
    case (Cons x xs)
    then have IH: "bckt_find_best_match (xs @ b # ys) i = Some (length xs)" by simp
    obtain c cs where c: "xs @ b # ys = c # cs" by (cases xs) auto
    have "be (b_id c) \<le> be (b_id b)"
      using Cons.prems c by (cases xs) (auto simp: less_imp_le)
    moreover have "length (b_id c) = 20" using Cons.prems c by (cases xs) auto
    ultimately have "\<not> memcmp i (b_id c) < 0"
      using assms(2,3) by (simp add: memcmp_neg_iff)
    with IH show ?case by (simp add: c)
  qed
qed

lemma best_split:
  assumes "ids_ok bs" and "length i = SHA1_SIZE"
  obtains xs b ys where "bs = xs @ b # ys" and "be (b_id b) \<le> be i"
    and "\<forall>c \<in> set ys. be i < be (b_id c)" and "bckt_find_best_match bs i = Some (length xs)"
proof -
  let ?P = "\<lambda>b. be (b_id b) \<le> be i"
  have "\<exists>b \<in> set bs. ?P b" using assms(1) by (cases bs) (auto simp: ids_ok_def)
  then obtain xs b ys where s: "bs = xs @ b # ys" "?P b" "\<forall>c \<in> set ys. \<not> ?P c"
    using split_list_last_prop [of bs ?P] by blast
  then have g: "\<forall>c \<in> set ys. be i < be (b_id c)" by auto
  from best_at [OF assms(1) [unfolded s(1)] assms(2) s(2) g] that [OF s(1,2) g] show thesis
    by (simp add: s(1))
qed

subsection \<open>Bits of an identifier\<close>

lemma bit_of_0x80: "n < 8 \<Longrightarrow> drop_bit n (0x80 :: UCHAR) = push_bit (7 - n) 1"
proof -
  assume "n < 8"
  then have "n \<in> {0, 1, 2, 3, 4, 5, 6, 7}" by auto
  then show ?thesis by (auto simp: push_bit_eq_mult drop_bit_eq_div)
qed

lemma and_0x80: "n < 8 \<Longrightarrow> c AND drop_bit n (0x80 :: UCHAR) \<noteq> 0 \<longleftrightarrow> bit c (7 - n)"
  by (simp add: bit_of_0x80 bit_iff_and_push_bit_not_eq_0)

lemma bit_unat_byte: "bit (unat (c :: UCHAR)) m \<longleftrightarrow> bit c m"
  by (auto simp: bit_simps dest: bit_imp_le_length)

lemma sig_byte_spec:
  "(sig_byte i n = - 1 \<and> (\<forall>k < n. i ! k = 0)) \<or>
   (\<exists>k < n. sig_byte i n = int k \<and> i ! k \<noteq> 0 \<and> (\<forall>j. k < j \<and> j < n \<longrightarrow> i ! j = 0))"
  by (induction n) (auto simp: less_Suc_eq)

lemma sig_bit_spec:
  "n \<le> 8 \<Longrightarrow> \<exists>m < n. bit c (7 - m) \<Longrightarrow>
   \<exists>j < n. sig_bit c n = int j \<and> bit c (7 - j) \<and> (\<forall>m. j < m \<and> m < n \<longrightarrow> \<not> bit c (7 - m))"
proof (induction n)
  case (Suc n)
  show ?case
  proof (cases "bit c (7 - n)")
    case True
    then show ?thesis using Suc.prems by (auto simp: and_0x80)
  next
    case False
    with Suc.prems have "\<exists>m < n. bit c (7 - m)" by (metis less_Suc_eq)
    with Suc False obtain j where "j < n" "sig_bit c n = int j" "bit c (7 - j)"
      "\<forall>m. j < m \<and> m < n \<longrightarrow> \<not> bit c (7 - m)" by auto
    then show ?thesis using False Suc.prems(1) by (auto simp: and_0x80 less_Suc_eq intro!: exI [of _ j])
  qed
qed simp

lemma byte_low_bit:
  assumes "c \<noteq> (0 :: UCHAR)"
  shows "\<exists>j < 8. sig_bit c 8 = int j \<and> 2 ^ (7 - j) dvd unat c \<and> \<not> 2 ^ (8 - j) dvd unat c"
proof -
  have "\<exists>m < 8. bit c (7 - m)"
  proof -
    obtain k where "bit c k" using assms bit_word_eqI [of c 0] by auto
    moreover from this have "k < 8" using bit_imp_le_length [of c k] by simp
    ultimately show ?thesis by (intro exI [of _ "7 - k"]) auto
  qed
  from sig_bit_spec [OF _ this] obtain j where j: "j < 8" "sig_bit c 8 = int j" "bit c (7 - j)"
    "\<forall>m. j < m \<and> m < 8 \<longrightarrow> \<not> bit c (7 - m)" by auto
  have low: "\<not> bit c m" if "m < 7 - j" for m
  proof -
    from that have "j < 7 - m \<and> 7 - m < 8" "7 - (7 - m) = m" by linarith+
    with j(4) show ?thesis by metis
  qed
  have "take_bit (7 - j) (unat c) = 0"
    by (rule bit_eqI) (use low in \<open>auto simp: bit_take_bit_iff bit_unat_byte\<close>)
  then have "2 ^ (7 - j) dvd unat c" by (simp add: take_bit_eq_0_iff)
  moreover have "\<not> 2 ^ (8 - j) dvd unat c"
  proof
    assume "2 ^ (8 - j) dvd unat c"
    then have "take_bit (8 - j) (unat c) = 0" by (simp add: take_bit_eq_0_iff)
    then have "\<not> bit (take_bit (8 - j) (unat c)) (7 - j)" by simp
    with j show False by (auto simp: bit_take_bit_iff bit_unat_byte)
  qed
  ultimately show ?thesis using j by blast
qed

lemma be_split: "k < length i \<Longrightarrow>
  be i = (be (take k i) * 256 + unat (i ! k)) * 256 ^ (length i - Suc k) + be (drop (Suc k) i)"
proof -
  assume k: "k < length i"
  have "be i = be (take k i @ (i ! k) # drop (Suc k) i)" using k by (simp add: id_take_nth_drop [symmetric])
  then show ?thesis using k by (simp add: be_append algebra_simps)
qed

lemma be_zero: "(\<forall>c \<in> set xs. c = 0) \<Longrightarrow> be xs = 0"
  by (induction xs) auto

text \<open>The position of the lowest set bit: the number is divisible by exactly that power of two.\<close>

lemma significant_bit_spec:
  assumes "length i = SHA1_SIZE"
  shows "be i = 0 \<and> bckt_significant_bit i = - 1 \<or>
    (\<exists>s < 160. bckt_significant_bit i = int s \<and> 2 ^ (159 - s) dvd be i \<and> \<not> 2 ^ (160 - s) dvd be i)"
  using sig_byte_spec [of i 20]
proof
  assume "sig_byte i 20 = - 1 \<and> (\<forall>k < 20. i ! k = 0)"
  then show ?thesis using assms by (auto simp: bckt_significant_bit_def in_set_conv_nth intro!: be_zero)
next
  assume "\<exists>k < 20. sig_byte i 20 = int k \<and> i ! k \<noteq> 0 \<and> (\<forall>j. k < j \<and> j < 20 \<longrightarrow> i ! j = 0)"
  then obtain k where k: "k < 20" "sig_byte i 20 = int k" "i ! k \<noteq> 0" "\<forall>j. k < j \<and> j < 20 \<longrightarrow> i ! j = 0"
    by blast
  from byte_low_bit [OF k(3)] obtain j where j: "j < 8" "sig_bit (i ! k) 8 = int j"
    "2 ^ (7 - j) dvd unat (i ! k)" "\<not> 2 ^ (8 - j) dvd unat (i ! k)" by blast
  let ?X = "be (take k i) * 256 + unat (i ! k)"
  have "be (drop (Suc k) i) = 0"
    using k(4) assms by (intro be_zero) (auto simp: in_set_conv_nth)
  then have b: "be i = ?X * 2 ^ (8 * (19 - k))"
    using be_split [of k i] k(1) assms by (simp add: power_mult)
  have "(256 :: nat) = 2 ^ (8 - j) * 2 ^ j" "(256 :: nat) = 2 ^ (7 - j) * 2 ^ (j + 1)"
    using j(1) by (simp_all flip: power_add)
  then have d256: "2 ^ (8 - j) dvd (256 :: nat)" "2 ^ (7 - j) dvd (256 :: nat)" by (metis dvd_triv_left)+
  then have X: "2 ^ (7 - j) dvd ?X" "\<not> 2 ^ (8 - j) dvd ?X"
    using j(3,4) by (auto simp: dvd_add_right_iff)
  let ?s = "8 * k + j"
  have e: "159 - ?s = 7 - j + 8 * (19 - k)" "160 - ?s = 8 - j + 8 * (19 - k)" using k(1) j(1) by auto
  have "2 ^ (159 - ?s) dvd be i" "\<not> 2 ^ (160 - ?s) dvd be i"
    using X unfolding b e power_add by simp_all
  moreover have "bckt_significant_bit i = int ?s" "?s < 160"
    using k(1,2) j(1,2) by (simp_all add: bckt_significant_bit_def)
  ultimately show ?thesis by blast
qed

lemma pow2_dvd_le: "2 ^ a dvd (x :: nat) \<Longrightarrow> b \<le> a \<Longrightarrow> 2 ^ b dvd x"
  by (meson dvd_trans le_imp_power_dvd)

lemma significant_dvd:
  assumes "length i = SHA1_SIZE" and "bckt_significant_bit i < int t" and "t \<le> 160"
  shows "2 ^ (160 - t) dvd be i"
  using significant_bit_spec [OF assms(1)]
proof
  assume "\<exists>s < 160. bckt_significant_bit i = int s \<and> 2 ^ (159 - s) dvd be i \<and> \<not> 2 ^ (160 - s) dvd be i"
  then obtain s where "bckt_significant_bit i = int s" "2 ^ (159 - s) dvd be i" by blast
  moreover from this have "160 - t \<le> 159 - s" using assms(2,3) by auto
  ultimately show ?thesis using pow2_dvd_le by blast
qed simp

lemma significant_eq:
  assumes "length i = SHA1_SIZE" and "t < 160" and "2 ^ (159 - t) dvd be i" "\<not> 2 ^ (160 - t) dvd be i"
  shows "bckt_significant_bit i = int t"
  using significant_bit_spec [OF assms(1)]
proof
  assume "\<exists>s < 160. bckt_significant_bit i = int s \<and> 2 ^ (159 - s) dvd be i \<and> \<not> 2 ^ (160 - s) dvd be i"
  then obtain s where s: "s < 160" "bckt_significant_bit i = int s" "2 ^ (159 - s) dvd be i"
    "\<not> 2 ^ (160 - s) dvd be i" by blast
  have "\<not> s < t"
  proof
    assume "s < t"
    then have "160 - t \<le> 159 - s" using s(1) by linarith
    with pow2_dvd_le s(3) assms(4) show False by blast
  qed
  moreover have "\<not> t < s"
  proof
    assume "t < s"
    then have "160 - s \<le> 159 - t" using s(1) by linarith
    with pow2_dvd_le s(4) assms(3) show False by blast
  qed
  ultimately show ?thesis using s(2) by simp
qed (use assms(4) in simp)

lemma unat_or_bit:
  assumes "\<not> bit c m" and "m < 8"
  shows "unat (c OR push_bit m (1 :: UCHAR)) = unat c + 2 ^ m"
proof -
  have "m \<in> {0, 1, 2, 3, 4, 5, 6, 7}" using assms(2) by auto
  then have "unat (push_bit m (1 :: UCHAR)) = 2 ^ m" by (auto simp: push_bit_eq_mult)
  then have "unat (c OR push_bit m 1) = unat c OR 2 ^ m" by (simp add: unsigned_or_eq)
  also have "\<dots> = unat c + 2 ^ m"
  proof -
    have "unat c AND 2 ^ m = 0"
      by (rule bit_eqI) (use assms(1) in \<open>auto simp: bit_simps bit_unat_byte\<close>)
    then show ?thesis by (simp add: disjunctive_add_eq_or)
  qed
  finally show ?thesis .
qed

text \<open>Setting bit \<open>t\<close> of an identifier that has no bit set from there on adds that power of two.\<close>

lemma be_set_bit:
  assumes "length i = SHA1_SIZE" and t: "t < 160" and d: "2 ^ (160 - t) dvd be i"
  shows "be (i[t div 8 := (i ! (t div 8)) OR drop_bit (t mod 8) 0x80]) = be i + 2 ^ (159 - t)"
proof -
  let ?k = "t div 8" and ?m = "7 - t mod 8"
  let ?q = "19 - ?k" and ?c = "i ! ?k"
  let ?X = "be (take ?k i) * 256 + unat ?c" and ?R = "be (drop (Suc ?k) i)"
  have k: "?k < 20" using t by auto
  have R: "?R < 256 ^ ?q" using be_lt [of "drop (Suc ?k) i"] assms(1) by simp
  have bi: "be i = ?X * 256 ^ ?q + ?R" using be_split [of ?k i] k assms(1) by simp
  have e: "159 - t = ?m + 8 * ?q" "160 - t = Suc (?m + 8 * ?q)"
    using t div_mult_mod_eq [of t 8] by linarith+
  have p256: "(256 :: nat) ^ ?q = 2 ^ (8 * ?q)" by (simp add: power_mult)
  have "even (be i div 2 ^ (159 - t))" using d unfolding e by (auto elim!: dvdE)
  moreover have "be i div 2 ^ (159 - t) = ?X div 2 ^ ?m"
  proof -
    have "be i div 2 ^ (159 - t) = be i div 2 ^ (8 * ?q) div 2 ^ ?m"
      unfolding e power_add by (metis div_mult2_eq mult.commute)
    also have "be i div 2 ^ (8 * ?q) = ?X" using bi R unfolding p256 by simp
    finally show ?thesis .
  qed
  moreover have "odd (?X div 2 ^ ?m) \<longleftrightarrow> bit ?c ?m"
  proof -
    have "odd (?X div 2 ^ ?m) \<longleftrightarrow> bit ?X ?m" by (simp add: bit_iff_odd)
    also have "\<dots> \<longleftrightarrow> bit (take_bit 8 ?X) ?m" unfolding bit_take_bit_iff by auto
    also have "take_bit 8 ?X = unat ?c" using unat_byte_lt [of ?c] by (simp add: take_bit_eq_mod)
    finally show ?thesis by (simp add: bit_unat_byte)
  qed
  ultimately have nb: "\<not> bit ?c ?m" by simp
  let ?i' = "i[?k := ?c OR drop_bit (t mod 8) 0x80]"
  have "be ?i' = (be (take ?k i) * 256 + unat (?c OR push_bit ?m 1)) * 256 ^ ?q + ?R"
    using be_split [of ?k ?i'] k assms(1) by (simp add: bit_of_0x80)
  also have "\<dots> = be i + 2 ^ ?m * 256 ^ ?q"
    using unat_or_bit [OF nb] bi by (simp add: algebra_simps)
  also have "2 ^ ?m * 256 ^ ?q = (2 ^ (159 - t) :: nat)" unfolding e(1) p256 power_add by (rule refl)
  finally show ?thesis .
qed

subsection \<open>The identifier of a new bucket\<close>

lemma dvd_gap:
  fixes d a b :: nat
  assumes "d dvd a" and "d dvd b" and "a < b"
  shows "a + d \<le> b"
proof -
  obtain k l where "a = d * k" "b = d * l" using assms(1,2) by (auto elim!: dvdE)
  with assms(3) have "d * Suc k \<le> d * l" by (intro mult_le_mono2) auto
  then show ?thesis by (simp add: \<open>a = d * k\<close> \<open>b = d * l\<close>)
qed

text \<open>The bit that \<open>bckt_compute_id\<close> sets, less one; the measure of the split loop.\<close>

definition depth :: "BUCK list \<Rightarrow> nat \<Rightarrow> int" where
  "depth bs k = max (bckt_significant_bit (b_id (bs ! k)))
     (if Suc k < length bs then bckt_significant_bit (b_id (bs ! Suc k)) else - 1)"

lemma depth_bounds: "length (b_id (bs ! k)) = SHA1_SIZE \<Longrightarrow> - 1 \<le> depth bs k"
  using significant_bit_spec [of "b_id (bs ! k)"] by (auto simp: depth_def)

text \<open>The new identifier lies strictly between that of the bucket and that of its successor, and the bit set is
  its last one.\<close>

lemma compute_id_spec:
  assumes ok: "ids_ok (xs @ b # ys)" and c: "bckt_compute_id (xs @ b # ys) (length xs) = Some j"
  shows "length j = SHA1_SIZE \<and> be (b_id b) < be j \<and> (\<forall>d \<in> set ys. be j < be (b_id d)) \<and>
    bckt_significant_bit j = depth (xs @ b # ys) (length xs) + 1"
proof -
  let ?bs = "xs @ b # ys" and ?D = "depth (xs @ b # ys) (length xs)"
  have len: "length (b_id b) = 20" using ok by (simp add: ids_ok_def)
  let ?t = "nat (?D + 1)"
  have D: "- 1 \<le> ?D" using depth_bounds [of ?bs "length xs"] len by simp
  have "(let b' = ?bs ! length xs; bit1 = bckt_significant_bit (b_id b');
     bit2 = (if Suc (length xs) < length ?bs then bckt_significant_bit (b_id (?bs ! Suc (length xs))) else - 1)
     in (if bit1 \<ge> bit2 then bit1 else bit2) + 1) = ?D + 1"
    by (simp add: depth_def Let_def max_def)
  then have t: "?t < 160"
    and j: "j = (b_id b)[?t div 8 := (b_id b ! (?t div 8)) OR drop_bit (?t mod 8) 0x80]"
    using c D unfolding bckt_compute_id_def Let_def by (auto split: if_splits)
  have "bckt_significant_bit (b_id b) < int ?t" using D by (simp add: depth_def)
  then have db: "2 ^ (160 - ?t) dvd be (b_id b)" using significant_dvd [OF len] t by simp
  have bj: "be j = be (b_id b) + 2 ^ (159 - ?t)" unfolding j by (rule be_set_bit [OF len t db])
  have p: "(2 :: nat) ^ (160 - ?t) = 2 * 2 ^ (159 - ?t)"
  proof -
    have "160 - ?t = Suc (159 - ?t)" using t by linarith
    then show ?thesis by (metis power_Suc)
  qed
  have lt: "be j < be (b_id d)" if d: "d \<in> set ys" for d
  proof -
    obtain e es where ys: "ys = e # es" using d by (cases ys) auto
    have lene: "length (b_id e) = 20" and be: "be (b_id b) < be (b_id e)" and de: "be (b_id e) \<le> be (b_id d)"
      using ok d ys by (auto simp: ids_ok_def sorted_wrt_append intro: less_imp_le)
    have "bckt_significant_bit (b_id e) < int ?t"
      using D by (simp add: depth_def ys nth_append)
    then have "2 ^ (160 - ?t) dvd be (b_id e)" using significant_dvd [OF lene] t by simp
    with db be have "be (b_id b) + 2 ^ (160 - ?t) \<le> be (b_id e)" using dvd_gap by blast
    with bj de p show ?thesis using zero_less_power [of "2 :: nat" "159 - ?t"] by linarith
  qed
  have "2 ^ (159 - ?t) dvd be j" using db bj unfolding p by (auto elim!: dvdE)
  moreover have "\<not> 2 ^ (160 - ?t) dvd be j"
  proof
    assume "2 ^ (160 - ?t) dvd be j"
    then have "2 ^ (160 - ?t) dvd (2 ^ (159 - ?t) :: nat)" using db bj by (simp add: dvd_add_right_iff)
    then have "(2 :: nat) ^ (160 - ?t) \<le> 2 ^ (159 - ?t)" by (rule dvd_imp_le) simp
    then show False using p by simp
  qed
  ultimately have "bckt_significant_bit j = int ?t"
    using significant_eq [of j ?t] t len j by simp
  with bj lt len D show ?thesis by (auto simp: j)
qed

subsection \<open>Looking up, adding and removing a node\<close>

lemma buckets_okD:
  assumes "buckets_ok mem bs"
  shows "ids_ok bs" "placed mem bs" "nodes_ok mem bs"
  using assms by (simp_all add: buckets_ok_def)

lemma all_nodes_append [simp]: "all_nodes (xs @ ys) = all_nodes xs @ all_nodes ys"
  and all_nodes_Cons [simp]: "all_nodes (b # bs) = b_nodes b @ all_nodes bs"
  and all_nodes_Nil [simp]: "all_nodes [] = []"
  by (simp_all add: all_nodes_def)

lemma nid_Some: "mem p = Some n \<Longrightarrow> nid mem p = n_id n"
  by (simp add: nid_def)

lemma find_node_loop_spec:
  assumes "\<forall>p \<in> set ps. \<exists>n. mem p = Some n \<and> length (n_id n) = SHA1_SIZE" and "length i = SHA1_SIZE"
  shows "(\<forall>p \<in> set ps. nid mem p \<noteq> i) \<and> find_node_loop mem ps i = Some None \<or>
    (\<exists>us p vs. ps = us @ p # vs \<and> nid mem p = i \<and> find_node_loop mem ps i = Some (Some (length us)))"
  using assms(1)
proof (induction ps)
  case (Cons p ps)
  then obtain n where n: "mem p = Some n" "length (n_id n) = SHA1_SIZE" by auto
  show ?case
  proof (cases "n_id n = i")
    case True
    then have "find_node_loop mem (p # ps) i = Some (Some 0)"
      using n assms(2) by (simp add: node_equal_iff)
    moreover have "p # ps = [] @ p # ps" "nid mem p = i" using n True by (simp_all add: nid_Some)
    ultimately show ?thesis by (metis list.size(3))
  next
    case False
    then have step: "find_node_loop mem (p # ps) i =
        do { r \<leftarrow> find_node_loop mem ps i; Some (map_option Suc r) }"
      using n assms(2) by (simp add: node_equal_iff)
    have ne: "nid mem p \<noteq> i" using n False by (simp add: nid_Some)
    from Cons have "(\<forall>p \<in> set ps. nid mem p \<noteq> i) \<and> find_node_loop mem ps i = Some None \<or>
      (\<exists>us q vs. ps = us @ q # vs \<and> nid mem q = i \<and> find_node_loop mem ps i = Some (Some (length us)))"
      by auto
    then show ?thesis
    proof (elim disjE conjE exE)
      assume "\<forall>p \<in> set ps. nid mem p \<noteq> i" "find_node_loop mem ps i = Some None"
      then show ?thesis using step ne by auto
    next
      fix us q vs
      assume "ps = us @ q # vs" "nid mem q = i" "find_node_loop mem ps i = Some (Some (length us))"
      then have "p # ps = (p # us) @ q # vs \<and> nid mem q = i \<and>
        find_node_loop mem (p # ps) i = Some (Some (length (p # us)))" using step by simp
      then show ?thesis by blast
    qed
  qed
qed simp

text \<open>A node that is anywhere in the table is in the best bucket for its identifier.\<close>

lemma placed_best:
  assumes "placed mem (xs @ b # ys)" and "be (b_id b) \<le> be i" and "\<forall>c \<in> set ys. be i < be (b_id c)"
    and "p \<in> set (all_nodes (xs @ b # ys))" and "nid mem p = i"
  shows "p \<in> set (b_nodes b)"
proof -
  have "p \<notin> set (b_nodes a)" if "a \<in> set xs" for a
    using assms(1,2,5) that by (fastforce simp: placed_def sorted_wrt_append)
  moreover have "p \<notin> set (b_nodes c)" if "c \<in> set ys" for c
    using assms(1,3,5) that by (fastforce simp: placed_def)
  ultimately show ?thesis using assms(4) by (auto simp: all_nodes_def)
qed

lemma bckt_find_node_spec:
  assumes ok: "buckets_ok mem bs" and i: "length i = SHA1_SIZE"
  obtains (none) xs b ys where "bs = xs @ b # ys" "bckt_find_best_match bs i = Some (length xs)"
      "be (b_id b) \<le> be i" "\<forall>c \<in> set ys. be i < be (b_id c)"
      "bckt_find_node mem bs i = Some None" "\<forall>p \<in> set (all_nodes bs). nid mem p \<noteq> i"
  | (some) xs b ys us p vs where "bs = xs @ b # ys" "bckt_find_best_match bs i = Some (length xs)"
      "be (b_id b) \<le> be i" "\<forall>c \<in> set ys. be i < be (b_id c)"
      "b_nodes b = us @ p # vs" "nid mem p = i" "bckt_find_node mem bs i = Some (Some (length us))"
proof -
  obtain xs b ys where s: "bs = xs @ b # ys" and lo: "be (b_id b) \<le> be i"
    and hi: "\<forall>c \<in> set ys. be i < be (b_id c)" and best: "bckt_find_best_match bs i = Some (length xs)"
    using best_split [OF buckets_okD(1) [OF ok] i] by metis
  have f: "bckt_find_node mem bs i = find_node_loop mem (b_nodes b) i"
    by (simp add: bckt_find_node_def best) (simp add: s)
  have m: "\<forall>p \<in> set (b_nodes b). \<exists>n. mem p = Some n \<and> length (n_id n) = SHA1_SIZE"
    using buckets_okD(3) [OF ok] by (simp add: nodes_ok_def s)
  from find_node_loop_spec [OF m i] show thesis
  proof (elim disjE exE conjE)
    assume no: "\<forall>p \<in> set (b_nodes b). nid mem p \<noteq> i" and "find_node_loop mem (b_nodes b) i = Some None"
    moreover have "\<forall>p \<in> set (all_nodes bs). nid mem p \<noteq> i"
      using placed_best [OF buckets_okD(2) [OF ok, unfolded s] lo hi] no unfolding s by blast
    ultimately show thesis using none [OF s best lo hi] f by simp
  next
    fix us p vs
    assume "b_nodes b = us @ p # vs" "nid mem p = i" "find_node_loop mem (b_nodes b) i = Some (Some (length us))"
    then show thesis using some [OF s best lo hi] f by simp
  qed
qed

lemma ids_ok_nodes: "ids_ok (xs @ b\<lparr>b_nodes := ns\<rparr> # ys) = ids_ok (xs @ b # ys)"
  by (cases xs) (simp_all add: ids_ok_def sorted_wrt_append)

lemma placed_nodes:
  "placed mem (xs @ b # ys) \<Longrightarrow>
   (\<forall>p \<in> set ns. be (b_id b) \<le> be (nid mem p) \<and> (\<forall>c \<in> set ys. be (nid mem p) < be (b_id c))) \<Longrightarrow>
   placed mem (xs @ b\<lparr>b_nodes := ns\<rparr> # ys)"
  by (auto simp: placed_def sorted_wrt_append)

lemma placed_range:
  "placed mem (xs @ b # ys) \<Longrightarrow> p \<in> set (b_nodes b) \<Longrightarrow>
   be (b_id b) \<le> be (nid mem p) \<and> (\<forall>c \<in> set ys. be (nid mem p) < be (b_id c))"
  by (auto simp: placed_def sorted_wrt_append)

text \<open>\<open>bckt_put\<close> adds a new node to its bucket unless the identifier is known or the bucket full.\<close>

lemma bckt_put_ok:
  assumes ok: "buckets_ok mem bs" and p: "mem p = Some n" "length (n_id n) = SHA1_SIZE"
    and new: "p \<notin> set (all_nodes bs)"
  obtains (known) q where "bckt_put mem bs (Some p) = Some (bs, False)" "q \<in> set (all_nodes bs)" "nid mem q = n_id n"
  | (full) b where "bckt_put mem bs (Some p) = Some (bs, False)" "b \<in> set bs" "length (b_nodes b) = BCKT_SIZE_MAX"
  | (added) bs' where "bckt_put mem bs (Some p) = Some (bs', True)" "buckets_ok mem bs'"
      "set (all_nodes bs') = insert p (set (all_nodes bs))" "\<forall>q \<in> set (all_nodes bs). nid mem q \<noteq> n_id n"
proof (rule bckt_find_node_spec [OF ok p(2)])
  fix xs b ys us q vs
  assume s: "bs = xs @ b # ys" "bckt_find_best_match bs (n_id n) = Some (length xs)"
    "b_nodes b = us @ q # vs" "nid mem q = n_id n" "bckt_find_node mem bs (n_id n) = Some (Some (length us))"
  then have "bckt_put mem bs (Some p) = Some (bs, False)" using p by (simp add: bckt_put_def)
  then show thesis using known [of q] s by simp
next
  fix xs b ys
  assume s: "bs = xs @ b # ys" "bckt_find_best_match bs (n_id n) = Some (length xs)"
    and r: "be (b_id b) \<le> be (n_id n)" "\<forall>c \<in> set ys. be (n_id n) < be (b_id c)"
    and f: "bckt_find_node mem bs (n_id n) = Some None" and no: "\<forall>q \<in> set (all_nodes bs). nid mem q \<noteq> n_id n"
  have len: "length (b_nodes b) \<le> 20" using buckets_okD(3) [OF ok] by (simp add: nodes_ok_def s)
  have bk: "bs ! length xs = b" by (simp add: s)
  show thesis
  proof (cases "length (b_nodes b) \<ge> 20")
    case True
    then have "bckt_put mem bs (Some p) = Some (bs, False)" using p s(2) f bk by (simp add: bckt_put_def)
    then show thesis using full [of b] s True len by simp
  next
    case False
    let ?bs = "xs @ b\<lparr>b_nodes := b_nodes b @ [p]\<rparr> # ys"
    have put: "bckt_put mem bs (Some p) = Some (?bs, True)"
      using p s(2) f bk False by (simp add: bckt_put_def) (simp add: s(1))
    have "placed mem ?bs"
      using buckets_okD(2) [OF ok] placed_range r p nid_Some [of mem p n, OF p(1)]
      unfolding s(1) by (intro placed_nodes) (auto simp: s(1))
    moreover have "nodes_ok mem ?bs" unfolding nodes_ok_def
    proof (intro conjI)
      note nk = buckets_okD(3) [OF ok, unfolded nodes_ok_def]
      have A: "set (all_nodes ?bs) = insert p (set (all_nodes bs))" by (auto simp: s(1))
      show "distinct (all_nodes ?bs)" using nk new by (auto simp: s(1))
      have "nid mem p \<notin> nid mem ` (set (all_nodes bs) - {p})"
        using no nid_Some [of mem p n, OF p(1)] by auto
      then show "inj_on (nid mem) (set (all_nodes ?bs))" unfolding A inj_on_insert using nk by blast
      show "\<forall>q \<in> set (all_nodes ?bs). \<exists>n. mem q = Some n \<and> length (n_id n) = SHA1_SIZE"
        unfolding A using nk p by blast
      show "\<forall>b \<in> set ?bs. length (b_nodes b) \<le> BCKT_SIZE_MAX" using nk False by (auto simp: s(1))
    qed
    ultimately have "buckets_ok mem ?bs"
      using buckets_okD(1) [OF ok] by (simp add: buckets_ok_def ids_ok_nodes s(1))
    moreover have "set (all_nodes ?bs) = insert p (set (all_nodes bs))" by (auto simp: s(1))
    ultimately show thesis using added [OF put] no by blast
  qed
qed

text \<open>\<open>bckt_del\<close> removes exactly the given node.\<close>

lemma bckt_del_ok:
  assumes ok: "buckets_ok mem bs" and p: "mem p = Some n" "length (n_id n) = SHA1_SIZE"
    and "in": "p \<in> set (all_nodes bs)"
  obtains xs b ys us vs where "bs = xs @ b # ys" "b_nodes b = us @ p # vs"
    "bckt_del mem bs (Some p) = Some (xs @ b\<lparr>b_nodes := us @ vs\<rparr> # ys)"
    "buckets_ok mem (xs @ b\<lparr>b_nodes := us @ vs\<rparr> # ys)"
proof (rule bckt_find_node_spec [OF ok p(2)])
  assume "\<forall>q \<in> set (all_nodes bs). nid mem q \<noteq> n_id n"
  then show thesis using "in" nid_Some [of mem p n, OF p(1)] by blast
next
  fix xs b ys us q vs
  assume s: "bs = xs @ b # ys" "bckt_find_best_match bs (n_id n) = Some (length xs)"
    and q: "b_nodes b = us @ q # vs" "nid mem q = n_id n"
    and f: "bckt_find_node mem bs (n_id n) = Some (Some (length us))"
  have "q = p"
    using buckets_okD(3) [OF ok] "in" q nid_Some [of mem p n, OF p(1)] s(1)
    by (auto simp: nodes_ok_def inj_on_def)
  note q = q [unfolded this]
  have bk: "bs ! length xs = b" by (simp add: s)
  let ?bs = "xs @ b\<lparr>b_nodes := us @ vs\<rparr> # ys"
  have "bckt_del mem bs (Some p) = Some ?bs"
    using p s(2) f bk q by (simp add: bckt_del_def) (simp add: s(1))
  moreover have "placed mem ?bs"
    using buckets_okD(2) [OF ok] placed_range [of mem xs b ys] q
    unfolding s(1) by (intro placed_nodes) (auto simp: s(1))
  moreover have "nodes_ok mem ?bs"
    using buckets_okD(3) [OF ok] q by (auto simp: nodes_ok_def s(1) inj_on_def)
  ultimately show thesis
    using that [OF s(1) q(1)] buckets_okD(1) [OF ok] by (simp add: buckets_ok_def ids_ok_nodes s(1))
qed

subsection \<open>Splitting keeps the table\<close>

lemma spread_two:
  assumes ok: "ids_ok (xs @ b # c # ys)"
    and "\<forall>p \<in> set ps. (\<exists>n. mem p = Some n \<and> length (n_id n) = SHA1_SIZE) \<and> be (b_id b) \<le> be (nid mem p) \<and>
      (\<forall>d \<in> set ys. be (nid mem p) < be (b_id d))"
  shows "spread mem (xs @ b\<lparr>b_nodes := us\<rparr> # c\<lparr>b_nodes := vs\<rparr> # ys) ps =
    Some (xs @ b\<lparr>b_nodes := us @ filter (\<lambda>p. be (nid mem p) < be (b_id c)) ps\<rparr> #
      c\<lparr>b_nodes := vs @ filter (\<lambda>p. \<not> be (nid mem p) < be (b_id c)) ps\<rparr> # ys)"
  using assms(2)
proof (induction ps arbitrary: us vs)
  case (Cons p ps)
  from Cons.prems obtain n where n: "mem p = Some n" "length (n_id n) = SHA1_SIZE" by auto
  then have np: "nid mem p = n_id n" by (simp add: nid_def)
  let ?b = "b\<lparr>b_nodes := us\<rparr>" and ?c = "c\<lparr>b_nodes := vs\<rparr>"
  have ok': "ids_ok (xs @ ?b # ?c # ys)"
    using ok ids_ok_nodes [of xs us b "?c # ys"] ids_ok_nodes [of "xs @ [b]" vs c ys] by simp
  have r: "be (b_id b) \<le> be (n_id n)" "\<forall>d \<in> set ys. be (n_id n) < be (b_id d)"
    using Cons.prems np by auto
  show ?case
  proof (cases "be (n_id n) < be (b_id c)")
    case True
    then have "bckt_find_best_match (xs @ ?b # ?c # ys) (n_id n) = Some (length xs)"
      using r by (intro best_at [OF ok' n(2)]) auto
    then show ?thesis using Cons.IH [of "us @ [p]" vs] Cons.prems n np True by simp
  next
    case False
    have "ids_ok ((xs @ [?b]) @ ?c # ys)" using ok' by simp
    from best_at [OF this n(2)] False r
    have "bckt_find_best_match (xs @ ?b # ?c # ys) (n_id n) = Some (Suc (length xs))" by simp
    then show ?thesis using Cons.IH [of us "vs @ [p]"] Cons.prems n np False
      by (simp add: nth_append list_update_append)
  qed
qed simp

lemma ids_ok_insert:
  assumes "ids_ok (xs @ b # ys)" and "length (b_id c) = SHA1_SIZE" and "be (b_id b) < be (b_id c)"
    and "\<forall>d \<in> set ys. be (b_id c) < be (b_id d)"
  shows "ids_ok (xs @ b # c # ys)"
  using assms by (cases xs) (auto simp: ids_ok_def sorted_wrt_append intro: order.strict_trans)

lemma split_tables:
  assumes ok: "buckets_ok mem (xs @ b # ys)" and len: "length (b_id c) = SHA1_SIZE"
    and lo: "be (b_id b) < be (b_id c)" and hi: "\<forall>d \<in> set ys. be (b_id c) < be (b_id d)"
    and c: "b_nodes c = filter (\<lambda>p. \<not> be (nid mem p) < be (b_id c)) (b_nodes b)"
    and bs: "bs = xs @ b\<lparr>b_nodes := filter (\<lambda>p. be (nid mem p) < be (b_id c)) (b_nodes b)\<rparr> # c # ys"
  shows "buckets_ok mem bs" and "set (all_nodes bs) = set (all_nodes (xs @ b # ys))"
proof -
  show same: "set (all_nodes bs) = set (all_nodes (xs @ b # ys))" by (auto simp: bs c)
  have "ids_ok (xs @ b # c # ys)" by (rule ids_ok_insert [OF buckets_okD(1) [OF ok] len lo hi])
  then have "ids_ok bs" by (simp add: bs ids_ok_nodes)
  moreover have "placed mem bs"
  proof -
    have "be (nid mem p) < be (b_id c)" if "x \<in> set xs" "p \<in> set (b_nodes x)" for x p
      using buckets_okD(2) [OF ok] that
      by (intro order.strict_trans [OF _ lo]) (simp add: placed_def sorted_wrt_append)
    then show ?thesis
      using buckets_okD(2) [OF ok] by (auto simp: placed_def sorted_wrt_append bs c)
  qed
  moreover have "nodes_ok mem bs"
  proof -
    note nk = buckets_okD(3) [OF ok, unfolded nodes_ok_def]
    have "length (b_nodes b) \<le> 20" using nk by simp
    then have len: "length (filter P (b_nodes b)) \<le> 20" for P
      by (rule order_trans [OF length_filter_le])
    show ?thesis unfolding nodes_ok_def
    proof (intro conjI)
      show "distinct (all_nodes bs)" using nk by (auto simp: bs c)
      show "inj_on (nid mem) (set (all_nodes bs))" unfolding same using nk by blast
      show "\<forall>p \<in> set (all_nodes bs). \<exists>n. mem p = Some n \<and> length (n_id n) = SHA1_SIZE"
        unfolding same using nk by blast
      show "\<forall>b \<in> set bs. length (b_nodes b) \<le> BCKT_SIZE_MAX" using nk len by (simp add: bs c)
    qed
  qed
  ultimately show "buckets_ok mem bs" by (simp add: buckets_ok_def)
qed

text \<open>A split that happens keeps the invariant and the nodes and increases the depth at the target.\<close>

definition at_depth :: "BUCK list \<Rightarrow> bytes \<Rightarrow> int" where
  "at_depth bs target = (case bckt_find_best_match bs target of None \<Rightarrow> - 1 | Some k \<Rightarrow> depth bs k)"

lemma at_depth_split:
  assumes ok: "ids_ok (xs @ b # c # ys)" and t: "length target = SHA1_SIZE"
    and "be (b_id b) \<le> be target" "\<forall>d \<in> set ys. be target < be (b_id d)"
  shows "bckt_significant_bit (b_id c) \<le> at_depth (xs @ b # c # ys) target"
proof (cases "be target < be (b_id c)")
  case True
  then have "bckt_find_best_match (xs @ b # c # ys) target = Some (length xs)"
    using assms by (intro best_at [OF ok t]) auto
  then show ?thesis by (simp add: at_depth_def depth_def nth_append)
next
  case False
  have "ids_ok ((xs @ [b]) @ c # ys)" using ok by simp
  from best_at [OF this t] False assms(4)
  have "bckt_find_best_match (xs @ b # c # ys) target = Some (Suc (length xs))" by simp
  then show ?thesis by (simp add: at_depth_def depth_def nth_append)
qed

lemma bckt_split_ok:
  assumes ok: "buckets_ok mem bs" and t: "length target = SHA1_SIZE"
  obtains (stop) "bckt_split mem bs target = Some (bs, False)"
  | (split) bs' where "bckt_split mem bs target = Some (bs', True)" "buckets_ok mem bs'"
      "set (all_nodes bs') = set (all_nodes bs)" "at_depth bs target < at_depth bs' target"
      "at_depth bs target < 159" "length bs' = Suc (length bs)"
proof -
  obtain xs b ys where s: "bs = xs @ b # ys" and lo: "be (b_id b) \<le> be target"
    and hi: "\<forall>c \<in> set ys. be target < be (b_id c)" and best: "bckt_find_best_match bs target = Some (length xs)"
    using best_split [OF buckets_okD(1) [OF ok] t] by metis
  have bk: "bs ! length xs = b" by (simp add: s)
  show thesis
  proof (cases "length (b_nodes b) \<le> 8 \<or> bckt_compute_id bs (length xs) = None")
    case True
    then show thesis using best bk by (intro stop) (auto simp: bckt_split_def)
  next
    case False
    then obtain j where big: "\<not> length (b_nodes b) \<le> 8" and j: "bckt_compute_id bs (length xs) = Some j" by auto
    from compute_id_spec [of xs b ys j] buckets_okD(1) [OF ok] j have js: "length j = SHA1_SIZE" "be (b_id b) < be j"
      "\<forall>d \<in> set ys. be j < be (b_id d)" "bckt_significant_bit j = depth bs (length xs) + 1"
      by (auto simp: s)
    let ?c = "\<lparr>b_id = j, b_nodes = filter (\<lambda>p. \<not> be (nid mem p) < be j) (b_nodes b)\<rparr>"
    let ?b = "b\<lparr>b_nodes := filter (\<lambda>p. be (nid mem p) < be j) (b_nodes b)\<rparr>"
    let ?bs = "xs @ ?b # ?c # ys"
    have st: "buckets_ok mem ?bs" "set (all_nodes ?bs) = set (all_nodes bs)"
      using split_tables [of mem xs b ys ?c ?bs] ok js by (simp_all add: s)
    have ids: "ids_ok (xs @ b # \<lparr>b_id = j, b_nodes = []\<rparr> # ys)"
      using buckets_okD(1) [OF ok] js by (intro ids_ok_insert) (simp_all add: s)
    have "\<forall>p \<in> set (b_nodes b). (\<exists>n. mem p = Some n \<and> length (n_id n) = SHA1_SIZE) \<and>
        be (b_id b) \<le> be (nid mem p) \<and> (\<forall>d \<in> set ys. be (nid mem p) < be (b_id d))"
      using placed_range [OF buckets_okD(2) [OF ok, unfolded s]] buckets_okD(3) [OF ok]
      by (simp add: nodes_ok_def s)
    from spread_two [OF ids this, of "[]" "[]"]
    have "spread mem (xs @ b\<lparr>b_nodes := []\<rparr> # \<lparr>b_id = j, b_nodes = []\<rparr> # ys) (b_nodes b) = Some ?bs" by simp
    then have "bckt_split mem bs target = Some (?bs, True)"
      using best bk big j by (simp add: bckt_split_def) (simp add: s)
    moreover have "at_depth bs target = depth bs (length xs)" by (simp add: at_depth_def best)
    moreover have "depth bs (length xs) + 1 \<le> at_depth ?bs target"
      using at_depth_split [of xs ?b ?c ys target] buckets_okD(1) [OF st(1)] t lo hi js by simp
    moreover have "depth bs (length xs) < 159"
      using significant_bit_spec [OF js(1)] js(4) by auto
    ultimately show thesis using st by (intro split [of ?bs]) (simp_all add: s)
  qed
qed

text \<open>So the loop ends, after at most as many splits as an identifier has bits.\<close>

lemma bckt_split_loop_ok:
  assumes "buckets_ok mem bs" and t: "length target = SHA1_SIZE"
  shows "\<exists>bs'. bckt_split_loop mem bs target = Some bs' \<and> buckets_ok mem bs' \<and>
    set (all_nodes bs') = set (all_nodes bs) \<and> bckt_split mem bs' target = Some (bs', False) \<and>
    int (length bs') \<le> int (length bs) + 159 - at_depth bs target"
  using assms(1)
proof (induction "nat (159 - at_depth bs target)" arbitrary: bs rule: less_induct)
  case less
  from less.prems t show ?case
  proof (cases rule: bckt_split_ok)
    case stop
    have "at_depth bs target \<le> 159"
    proof -
      have "bckt_significant_bit i \<le> 159" if "length i = 20" for i
        using significant_bit_spec [of i] that by auto
      moreover have "\<forall>b \<in> set bs. length (b_id b) = 20"
        using buckets_okD(1) [OF less.prems] by (simp add: ids_ok_def)
      moreover obtain xs b ys where "bs = xs @ b # ys" "bckt_find_best_match bs target = Some (length xs)"
        using best_split [OF buckets_okD(1) [OF less.prems] t] by blast
      ultimately show ?thesis by (cases ys) (auto simp: at_depth_def depth_def nth_append)
    qed
    with stop less.prems show ?thesis by (subst bckt_split_loop.simps) simp
  next
    case (split bs1)
    have "nat (159 - at_depth bs1 target) < nat (159 - at_depth bs target)" using split by linarith
    from less.hyps [OF this split(2)] obtain bs' where
      "bckt_split_loop mem bs1 target = Some bs'" "buckets_ok mem bs'"
      "set (all_nodes bs') = set (all_nodes bs1)" "bckt_split mem bs' target = Some (bs', False)"
      "int (length bs') \<le> int (length bs1) + 159 - at_depth bs1 target" by blast
    with split show ?thesis by (subst bckt_split_loop.simps) simp
  qed
qed

end
