(* ===== verification/Lists.thy ===== *)
theory Lists
  imports Prelude
begin

text \<open>
  The doubly linked list of \<^verbatim>\<open>src/src/shr/list.c\<close>, pointer by pointer.  A
  \<open>LIST\<close> carries the memory of its own items, so that following a pointer to an item that was
  freed is visible: it makes the operation \<open>None\<close>.  \<open>list->item\<close> is not always the first
  item: \<open>list_ins\<close> in front of it leaves it where it is, and \<open>list_start\<close> moves it back.

  \<open>dl L xs\<close> says that the list represents the sequence \<open>xs\<close> of item addresses with their
  payloads, \<open>dlc L xs\<close> that in addition \<open>list->item\<close> is the first item.  Each operation is
  then described by what it does to the sequence.  The \<open>LIST\<close> pointer itself is never
  null where the program calls these functions; item pointers may be, and that guard is modelled.
\<close>

section \<open>Memory of a list\<close>

record 'a ITEM =
  i_val :: 'a
  i_next :: "ptr option"
  i_prev :: "ptr option"

record 'a LIST =
  l_mem :: "ptr \<rightharpoonup> 'a ITEM"
  l_brk :: ptr
  l_item :: "ptr option"
  l_size :: int

text \<open>The statements \<open>p->next = q\<close> and \<open>p->prev = q\<close>; \<open>myalloc\<close> and \<open>myfree\<close> of an item.\<close>

definition set_next :: "'a LIST \<Rightarrow> ptr \<Rightarrow> ptr option \<Rightarrow> 'a LIST option" where
  "set_next L p q =
     map_option (\<lambda>it. L\<lparr>l_mem := (l_mem L)(p \<mapsto> it\<lparr>i_next := q\<rparr>)\<rparr>) (l_mem L p)"

definition set_prev :: "'a LIST \<Rightarrow> ptr \<Rightarrow> ptr option \<Rightarrow> 'a LIST option" where
  "set_prev L p q =
     map_option (\<lambda>it. L\<lparr>l_mem := (l_mem L)(p \<mapsto> it\<lparr>i_prev := q\<rparr>)\<rparr>) (l_mem L p)"

definition item_alloc :: "'a LIST \<Rightarrow> 'a \<Rightarrow> 'a LIST \<times> ptr" where
  "item_alloc L v =
     (L\<lparr>l_mem := (l_mem L)(l_brk L \<mapsto> \<lparr>i_val = v, i_next = None, i_prev = None\<rparr>),
        l_brk := Suc (l_brk L)\<rparr>, l_brk L)"

definition item_free :: "'a LIST \<Rightarrow> ptr \<Rightarrow> 'a LIST" where
  "item_free L p = L\<lparr>l_mem := (l_mem L)(p := None)\<rparr>"

text \<open>An assignment through a payload pointer, where the payload is an object of its own item.\<close>

definition set_val :: "'a LIST \<Rightarrow> ptr \<Rightarrow> 'a \<Rightarrow> 'a LIST option" where
  "set_val L p v =
     map_option (\<lambda>it. L\<lparr>l_mem := (l_mem L)(p \<mapsto> it\<lparr>i_val := v\<rparr>)\<rparr>) (l_mem L p)"

section \<open>The operations of list.c\<close>

definition list_init :: "'a LIST" where
  "list_init = \<lparr>l_mem = Map.empty, l_brk = 0, l_item = None, l_size = 0\<rparr>"

definition list_size :: "'a LIST \<Rightarrow> int" where
  "list_size L = l_size L"

definition list_next :: "'a LIST \<Rightarrow> ptr option \<Rightarrow> ptr option option" where
  "list_next L i =
     (case i of None \<Rightarrow> Some None | Some p \<Rightarrow> map_option i_next (l_mem L p))"

definition list_prev :: "'a LIST \<Rightarrow> ptr option \<Rightarrow> ptr option option" where
  "list_prev L i =
     (case i of None \<Rightarrow> Some None | Some p \<Rightarrow> map_option i_prev (l_mem L p))"

definition list_value :: "'a LIST \<Rightarrow> ptr option \<Rightarrow> 'a option option" where
  "list_value L i =
     (case i of None \<Rightarrow> Some None | Some p \<Rightarrow> map_option (\<lambda>it. Some (i_val it)) (l_mem L p))"

text \<open>The loops \<open>while (item->prev != NULL)\<close> and \<open>while (item->next != NULL)\<close>.\<close>

partial_function (option) walk_prev :: "(ptr \<rightharpoonup> 'a ITEM) \<Rightarrow> ptr \<Rightarrow> ptr option" where
  "walk_prev m p =
     (case m p of None \<Rightarrow> None
      | Some it \<Rightarrow> (case i_prev it of None \<Rightarrow> Some p | Some q \<Rightarrow> walk_prev m q))"

partial_function (option) walk_next :: "(ptr \<rightharpoonup> 'a ITEM) \<Rightarrow> ptr \<Rightarrow> ptr option" where
  "walk_next m p =
     (case m p of None \<Rightarrow> None
      | Some it \<Rightarrow> (case i_next it of None \<Rightarrow> Some p | Some q \<Rightarrow> walk_next m q))"

definition list_start :: "'a LIST \<Rightarrow> ('a LIST \<times> ptr option) option" where
  "list_start L =
     (case l_item L of None \<Rightarrow> Some (L, None)
      | Some p \<Rightarrow> do {
          s \<leftarrow> walk_prev (l_mem L) p;
          Some (L\<lparr>l_item := Some s\<rparr>, Some s)
        })"

definition list_stop :: "'a LIST \<Rightarrow> ptr option option" where
  "list_stop L =
     (case l_item L of None \<Rightarrow> Some None
      | Some p \<Rightarrow> map_option Some (walk_next (l_mem L) p))"

definition list_put :: "'a LIST \<Rightarrow> 'a \<Rightarrow> ('a LIST \<times> ptr option) option" where
  "list_put L v =
     (if list_size L = LONG_MAX then Some (L, None)
      else let (L1, p) = item_alloc L v in
        (case l_item L1 of
           None \<Rightarrow> Some (L1\<lparr>l_item := Some p, l_size := 1\<rparr>, Some p)
         | Some _ \<Rightarrow> do {
             stop \<leftarrow> list_stop L1;
             L2 \<leftarrow> set_prev L1 p stop;
             L3 \<leftarrow> (case stop of None \<Rightarrow> None | Some s \<Rightarrow> set_next L2 s (Some p));
             Some (L3\<lparr>l_size := l_size L3 + 1\<rparr>, Some p)
           }))"

definition list_ins :: "'a LIST \<Rightarrow> ptr option \<Rightarrow> 'a \<Rightarrow> ('a LIST \<times> ptr option) option" where
  "list_ins L here v =
     (if list_size L = LONG_MAX then Some (L, None)
      else if list_size L = 0 then list_put L v
      else let (L1, p) = item_alloc L v in
        (case here of None \<Rightarrow> None | Some h \<Rightarrow> do {
           prev \<leftarrow> list_prev L1 here;
           L2 \<leftarrow> set_next L1 p here;
           L3 \<leftarrow> set_prev L2 p prev;
           L4 \<leftarrow> set_prev L3 h (Some p);
           L5 \<leftarrow> (case prev of None \<Rightarrow> Some L4 | Some q \<Rightarrow> set_next L4 q (Some p));
           Some (L5\<lparr>l_size := l_size L5 + 1\<rparr>, Some p)
         }))"

definition list_add :: "'a LIST \<Rightarrow> ptr option \<Rightarrow> 'a \<Rightarrow> ('a LIST \<times> ptr option) option" where
  "list_add L here v =
     (if list_size L = LONG_MAX then Some (L, None)
      else if list_size L = 0 then list_put L v
      else let (L1, p) = item_alloc L v in
        (case here of None \<Rightarrow> None | Some h \<Rightarrow> do {
           nxt \<leftarrow> list_next L1 here;
           L2 \<leftarrow> set_next L1 p nxt;
           L3 \<leftarrow> set_prev L2 p here;
           L4 \<leftarrow> set_next L3 h (Some p);
           L5 \<leftarrow> (case nxt of None \<Rightarrow> Some L4 | Some q \<Rightarrow> set_prev L4 q (Some p));
           Some (L5\<lparr>l_size := l_size L5 + 1\<rparr>, Some p)
         }))"

text \<open>Unlinking an item: the four cases of \<open>list_del\<close>.\<close>

definition list_unlink :: "'a LIST \<Rightarrow> ptr \<Rightarrow> 'a ITEM \<Rightarrow> 'a LIST option" where
  "list_unlink L p it =
     (case (i_next it, i_prev it) of
        (None, None) \<Rightarrow> Some (L\<lparr>l_item := None\<rparr>)
      | (None, Some q) \<Rightarrow> set_next L q None
      | (Some n, None) \<Rightarrow> set_prev (L\<lparr>l_item := Some n\<rparr>) n None
      | (Some n, Some q) \<Rightarrow> do {
          L1 \<leftarrow> set_next L q (Some n);
          set_prev L1 n (Some q)
        })"

definition list_del :: "'a LIST \<Rightarrow> ptr option \<Rightarrow> ('a LIST \<times> ptr option) option" where
  "list_del L i =
     (case i of None \<Rightarrow> Some (L, None)
      | Some p \<Rightarrow> do {
          it \<leftarrow> l_mem L p;
          L1 \<leftarrow> list_unlink L p it;
          let L2 = item_free L1 p;
          list_start (L2\<lparr>l_size := l_size L2 - 1\<rparr>)
        })"

text \<open>\<open>list_clear\<close> frees every payload: the model returns the payloads it freed, in order.\<close>

partial_function (option) clear_loop :: "'a LIST \<Rightarrow> ptr option \<Rightarrow> 'a list option" where
  "clear_loop L i =
     (case i of None \<Rightarrow> Some []
      | Some p \<Rightarrow> (case l_mem L p of None \<Rightarrow> None
          | Some it \<Rightarrow> do { vs \<leftarrow> clear_loop L (i_next it); Some (i_val it # vs) }))"

definition list_clear :: "'a LIST \<Rightarrow> ('a LIST \<times> 'a list) option" where
  "list_clear L = do {
     (L1, i) \<leftarrow> list_start L;
     freed \<leftarrow> clear_loop L1 i;
     Some (L1, freed)
   }"

partial_function (option) list_free :: "'a LIST \<Rightarrow> 'a LIST option" where
  "list_free L =
     (case l_item L of None \<Rightarrow> Some L
      | Some p \<Rightarrow> do {
          (L1, _) \<leftarrow> list_del L (Some p);
          list_free L1
        })"

definition list_rotate :: "'a LIST \<Rightarrow> 'a LIST option" where
  "list_rotate L =
     (if list_size L \<le> 1 then Some L
      else do {
        (L1, start) \<leftarrow> list_start L;
        stop \<leftarrow> list_stop L1;
        s \<leftarrow> start;
        it \<leftarrow> l_mem L1 s;
        n \<leftarrow> i_next it;
        let L2 = L1\<lparr>l_item := Some n\<rparr>;
        L3 \<leftarrow> set_prev L2 n None;
        L4 \<leftarrow> set_next L3 s None;
        L5 \<leftarrow> set_prev L4 s stop;
        t \<leftarrow> stop;
        set_next L5 t (Some s)
      })"

section \<open>What a list represents\<close>

definition first :: "(ptr \<times> 'a) list \<Rightarrow> ptr option \<Rightarrow> ptr option" where
  "first xs b = (case xs of [] \<Rightarrow> b | x # _ \<Rightarrow> Some (fst x))"

definition final :: "(ptr \<times> 'a) list \<Rightarrow> ptr option \<Rightarrow> ptr option" where
  "final xs a = (if xs = [] then a else Some (fst (last xs)))"

fun seg :: "(ptr \<rightharpoonup> 'a ITEM) \<Rightarrow> ptr option \<Rightarrow> (ptr \<times> 'a) list \<Rightarrow> ptr option \<Rightarrow> bool" where
  "seg m a [] b = True"
| "seg m a (x # xs) b =
     (m (fst x) = Some \<lparr>i_val = snd x, i_next = first xs b, i_prev = a\<rparr> \<and>
      seg m (Some (fst x)) xs b)"

definition dl :: "'a LIST \<Rightarrow> (ptr \<times> 'a) list \<Rightarrow> bool" where
  "dl L xs \<longleftrightarrow>
     seg (l_mem L) None xs None \<and> distinct (map fst xs) \<and>
     dom (l_mem L) = fst ` set xs \<and> (\<forall>p \<in> fst ` set xs. p < l_brk L) \<and>
     l_size L = int (length xs) \<and>
     (case l_item L of None \<Rightarrow> xs = [] | Some p \<Rightarrow> p \<in> fst ` set xs)"

definition dlc :: "'a LIST \<Rightarrow> (ptr \<times> 'a) list \<Rightarrow> bool" where
  "dlc L xs \<longleftrightarrow> dl L xs \<and> l_item L = first xs None"

lemma first_simps [simp]:
  "first [] b = b" "first (x # xs) b = Some (fst x)"
  "first (xs @ ys) b = first xs (first ys b)"
  by (auto simp: first_def split: list.splits)

lemma final_simps [simp]:
  "final [] a = a" "final (xs @ [x]) a = Some (fst x)" "final [x] a = Some (fst x)"
  "final (xs @ ys) a = final ys (final xs a)"
  "final (x # xs) a = final xs (Some (fst x))"
  by (auto simp: final_def)

lemma dlc_dl [simp]: "dlc L xs \<Longrightarrow> dl L xs"
  by (simp add: dlc_def)

lemma seg_append [simp]:
  "seg m a (xs @ ys) b \<longleftrightarrow> seg m a xs (first ys b) \<and> seg m (final xs a) ys b"
  by (induction xs arbitrary: a) auto

lemma seg_frame: "p \<notin> fst ` set xs \<Longrightarrow> seg (m(p := z)) a xs b = seg m a xs b"
  by (induction xs arbitrary: a) auto

lemma seg_cong: "(\<And>p. p \<in> fst ` set xs \<Longrightarrow> m p = m' p) \<Longrightarrow> seg m a xs b = seg m' a xs b"
  by (induction xs arbitrary: a) auto

lemma seg_lookup:
  "seg m a (xs @ (p, v) # ys) b \<Longrightarrow>
   m p = Some \<lparr>i_val = v, i_next = first ys b, i_prev = final xs a\<rparr>"
  by simp

lemma seg_unique:
  "seg m a xs None \<Longrightarrow> seg m a ys None \<Longrightarrow> first xs None = first ys None \<Longrightarrow> xs = ys"
proof (induction xs arbitrary: a ys)
  case Nil
  then show ?case by (cases ys) auto
next
  case (Cons x xs)
  then obtain y ys' where ys: "ys = y # ys'" by (cases ys) auto
  with Cons have "first xs None = first ys' None" "snd x = snd y" by auto
  with Cons ys show ?case by (auto intro: prod_eqI)
qed

lemma walk_prev_seg: "seg m None (xs @ [x]) b \<Longrightarrow> walk_prev m (fst x) = first (xs @ [x]) None"
proof (induction xs arbitrary: x b rule: rev_induct)
  case Nil
  then show ?case by (simp add: walk_prev.simps)
next
  case (snoc y ys)
  from snoc.prems have "seg m None (ys @ [y]) (Some (fst x))" by simp
  from snoc.IH [OF this] snoc.prems show ?case
    by (subst walk_prev.simps) simp
qed

lemma walk_next_seg: "seg m a (x # xs) None \<Longrightarrow> walk_next m (fst x) = final (x # xs) None"
proof (induction xs arbitrary: a x)
  case Nil
  then show ?case by (simp add: walk_next.simps)
next
  case (Cons y ys)
  from Cons.prems have "seg m (Some (fst x)) (y # ys) None" by simp
  from Cons.IH [OF this] Cons.prems show ?case
    by (subst walk_next.simps) simp
qed

lemma dl_split:
  assumes "dl L xs" and "p \<in> fst ` set xs"
  obtains ys v zs where "xs = ys @ (p, v) # zs"
    and "l_mem L p = Some \<lparr>i_val = v, i_next = first zs None, i_prev = final ys None\<rparr>"
proof -
  from in_fst_split [OF assms(2)] obtain ys v zs where xs: "xs = ys @ (p, v) # zs" by blast
  with assms(1) have "seg (l_mem L) None (ys @ (p, v) # zs) None" by (simp only: dl_def)
  with xs that show thesis by simp
qed

lemma dl_walk_prev:
  assumes "dl L xs" and "l_item L = Some p"
  shows "walk_prev (l_mem L) p = first xs None"
proof -
  from assms have "p \<in> fst ` set xs" by (simp add: dl_def)
  then obtain ys v zs where xs: "xs = ys @ (p, v) # zs" by (metis in_fst_split)
  with assms(1) have "seg (l_mem L) None (ys @ [(p, v)]) (first zs None)" by (simp add: dl_def)
  from walk_prev_seg [OF this] xs show ?thesis by simp
qed

lemma dl_walk_next:
  assumes "dl L xs" and "l_item L = Some p"
  shows "walk_next (l_mem L) p = final xs None"
proof -
  from assms have "p \<in> fst ` set xs" by (simp add: dl_def)
  then obtain ys v zs where xs: "xs = ys @ (p, v) # zs" by (metis in_fst_split)
  with assms(1) have "seg (l_mem L) (final ys None) ((p, v) # zs) None" by (simp add: dl_def)
  from walk_next_seg [OF this] xs show ?thesis by simp
qed

text \<open>A list represents one sequence.\<close>

lemma dl_unique:
  assumes "dl L xs" and "dl L ys"
  shows "xs = ys"
proof (cases "l_item L")
  case None
  with assms show ?thesis by (simp add: dl_def)
next
  case (Some p)
  have "first xs None = first ys None" using dl_walk_prev [OF assms(1) Some] dl_walk_prev [OF assms(2) Some] by simp
  moreover have "seg (l_mem L) None xs None" "seg (l_mem L) None ys None" using assms by (simp_all add: dl_def)
  ultimately show ?thesis by (intro seg_unique)
qed

lemma first_None_iff [simp]: "first xs None = None \<longleftrightarrow> xs = []"
  by (cases xs) auto

lemma final_None_iff [simp]: "final xs None = None \<longleftrightarrow> xs = []"
  by (simp add: final_def)

section \<open>Laws of the operations\<close>

lemma list_init_dlc [list_rules]: "dlc list_init []"
  by (simp add: dlc_def dl_def list_init_def)

lemma dl_item_None: "dl L xs \<Longrightarrow> l_item L = None \<longleftrightarrow> xs = []"
  by (auto simp: dl_def split: option.splits)

lemma list_size_dl [list_rules]: "dl L xs \<Longrightarrow> list_size L = int (length xs)"
  by (simp add: dl_def list_size_def)

lemma list_start_dl [list_rules]:
  assumes "dl L xs"
  shows "list_start L = Some (L\<lparr>l_item := first xs None\<rparr>, first xs None)"
proof (cases "l_item L")
  case None
  with assms have "xs = []" by (simp add: dl_item_None)
  with None show ?thesis by (simp add: list_start_def)
next
  case (Some p)
  with dl_walk_prev [OF assms Some] dl_item_None [OF assms] show ?thesis
    by (cases xs) (simp_all add: list_start_def)
qed

lemma dlc_start [list_rules]: "dl L xs \<Longrightarrow> dlc (L\<lparr>l_item := first xs None\<rparr>) xs"
  by (cases xs) (auto simp: dlc_def dl_def)

lemma dlc_start_same: "dlc L xs \<Longrightarrow> L\<lparr>l_item := first xs None\<rparr> = L"
  by (simp add: dlc_def)

lemma list_stop_dl [list_rules]:
  assumes "dl L xs"
  shows "list_stop L = Some (final xs None)"
proof (cases "l_item L")
  case None
  with dl_item_None [OF assms] show ?thesis by (simp add: list_stop_def)
next
  case (Some p)
  with dl_walk_next [OF assms Some] dl_item_None [OF assms] show ?thesis
    by (cases xs) (auto simp: list_stop_def final_def)
qed

lemma list_value_dl [list_rules]:
  "dl L (xs @ (p, v) # ys) \<Longrightarrow> list_value L (Some p) = Some (Some v)"
  by (simp add: dl_def list_value_def)

lemma list_next_dl [list_rules]:
  "dl L (xs @ (p, v) # ys) \<Longrightarrow> list_next L (Some p) = Some (first ys None)"
  by (simp add: dl_def list_next_def)

lemma list_prev_dl [list_rules]:
  "dl L (xs @ (p, v) # ys) \<Longrightarrow> list_prev L (Some p) = Some (final xs None)"
  by (simp add: dl_def list_prev_def)

lemma list_value_None [simp]: "list_value L None = Some None"
  and list_next_None [simp]: "list_next L None = Some None"
  and list_prev_None [simp]: "list_prev L None = Some None"
  by (simp_all add: list_value_def list_next_def list_prev_def)

text \<open>Appending.  The new item is not yet linked when \<open>list_stop\<close> walks to the last one.\<close>

lemma fresh_brk: "dl L xs \<Longrightarrow> l_brk L \<notin> fst ` set xs"
  by (auto simp: dl_def)

lemma list_stop_alloc:
  assumes "dl L xs" and "xs \<noteq> []"
  shows "list_stop (fst (item_alloc L v)) = Some (final xs None)"
proof -
  from assms obtain p where it: "l_item L = Some p" and p: "p \<in> fst ` set xs"
    by (auto simp: dl_def split: option.splits)
  from p obtain ys w zs where xs: "xs = ys @ (p, w) # zs" by (metis in_fst_split)
  let ?m = "(l_mem L)(l_brk L \<mapsto> \<lparr>i_val = v, i_next = None, i_prev = None\<rparr>)"
  have "seg ?m None xs None"
    using assms(1) by (subst seg_frame) (auto simp: dl_def)
  then have "seg ?m (final ys None) ((p, w) # zs) None" unfolding xs seg_append by blast
  from walk_next_seg [OF this] have "walk_next ?m p = final xs None" by (simp add: xs)
  with it assms(2) show ?thesis by (simp add: list_stop_def item_alloc_def final_def)
qed

lemma list_put_dl [list_rules]:
  assumes "dl L xs" and "int (length xs) < LONG_MAX"
  shows "\<exists>L'. list_put L v = Some (L', Some (l_brk L)) \<and> dl L' (xs @ [(l_brk L, v)]) \<and>
    l_item L' = (if xs = [] then Some (l_brk L) else l_item L) \<and> l_brk L' = Suc (l_brk L)"
proof (cases xs rule: rev_cases)
  case Nil
  with assms dl_item_None [OF assms(1)] show ?thesis
    by (auto simp: list_put_def item_alloc_def list_size_def dl_def)
next
  case (snoc ys x)
  have ne: "xs \<noteq> []" by (simp add: snoc)
  have it: "l_item L \<noteq> None" using dl_item_None [OF assms(1)] ne by simp
  have fr: "l_brk L \<notin> fst ` set ys" "l_brk L \<noteq> fst x"
    using fresh_brk [OF assms(1)] by (auto simp: snoc)
  note st = list_stop_alloc [OF assms(1) ne, of v]
  show ?thesis
    using assms it st fr
    by (auto simp: list_put_def list_size_def item_alloc_def set_next_def set_prev_def
        dl_def snoc seg_frame less_SucI split: option.splits)
qed

lemma list_put_dlc [list_rules]:
  assumes "dlc L xs" and "int (length xs) < LONG_MAX"
  shows "\<exists>L'. list_put L v = Some (L', Some (l_brk L)) \<and> dlc L' (xs @ [(l_brk L, v)])"
proof -
  from list_put_dl [OF dlc_dl [OF assms(1)] assms(2)] obtain L' where
    "list_put L v = Some (L', Some (l_brk L))" "dl L' (xs @ [(l_brk L, v)])"
    "l_item L' = (if xs = [] then Some (l_brk L) else l_item L)" by blast
  moreover have "l_item L = first xs None" using assms(1) by (simp add: dlc_def)
  ultimately show ?thesis by (cases xs) (auto simp: dlc_def)
qed

lemma list_ins_dl [list_rules]:
  assumes "dl L (xs @ (h, w) # ys)" and "int (length (xs @ (h, w) # ys)) < LONG_MAX"
  shows "\<exists>L'. list_ins L (Some h) v = Some (L', Some (l_brk L)) \<and>
    dl L' (xs @ (l_brk L, v) # (h, w) # ys) \<and> l_item L' = l_item L \<and> l_brk L' = Suc (l_brk L)"
proof -
  let ?zs = "xs @ (h, w) # ys"
  have dist: "h \<notin> fst ` set xs" "h \<notin> fst ` set ys" "fst ` set xs \<inter> fst ` set ys = {}"
    using assms(1) by (auto simp: dl_def)
  have fr: "l_brk L \<notin> fst ` set xs" "l_brk L \<notin> fst ` set ys" "h \<noteq> l_brk L" "l_brk L \<noteq> h"
    using fresh_brk [OF assms(1)] by auto
  show ?thesis
  proof (cases xs rule: rev_cases)
    case Nil
    with assms dist fr show ?thesis
      by (auto simp: list_ins_def list_size_def item_alloc_def list_prev_def set_next_def
          set_prev_def dl_def seg_frame less_SucI split: option.splits)
  next
    case (snoc us x)
    with dist fr have "fst x \<noteq> h" "h \<noteq> fst x" "fst x \<noteq> l_brk L" "l_brk L \<noteq> fst x"
      "fst x \<notin> fst ` set ys" "fst x \<notin> fst ` set us" "l_brk L \<notin> fst ` set us" "h \<notin> fst ` set us"
      using assms(1) by (auto simp: dl_def)
    with assms dist fr snoc show ?thesis
      by (auto simp: list_ins_def list_size_def item_alloc_def list_prev_def set_next_def
          set_prev_def dl_def seg_frame less_SucI split: option.splits)
  qed
qed

lemma list_ins_nil_dlc [list_rules]:
  assumes "dl L []"
  shows "\<exists>L'. list_ins L here v = Some (L', Some (l_brk L)) \<and> dlc L' [(l_brk L, v)]"
proof -
  have "dlc L []" using assms dl_item_None [OF assms] by (simp add: dlc_def)
  from list_put_dlc [OF this, of v] show ?thesis
    using assms by (simp add: list_ins_def list_size_def dl_def)
qed

lemma list_add_dl [list_rules]:
  assumes "dl L (xs @ (h, w) # ys)" and "int (length (xs @ (h, w) # ys)) < LONG_MAX"
  shows "\<exists>L'. list_add L (Some h) v = Some (L', Some (l_brk L)) \<and>
    dl L' (xs @ (h, w) # (l_brk L, v) # ys) \<and> l_item L' = l_item L \<and> l_brk L' = Suc (l_brk L)"
proof -
  have dist: "h \<notin> fst ` set xs" "h \<notin> fst ` set ys" "fst ` set xs \<inter> fst ` set ys = {}"
    using assms(1) by (auto simp: dl_def)
  have fr: "l_brk L \<notin> fst ` set xs" "l_brk L \<notin> fst ` set ys" "h \<noteq> l_brk L" "l_brk L \<noteq> h"
    using fresh_brk [OF assms(1)] by auto
  show ?thesis
  proof (cases ys)
    case Nil
    with assms dist fr show ?thesis
      by (auto simp: list_add_def list_size_def item_alloc_def list_next_def set_next_def
          set_prev_def dl_def seg_frame less_SucI split: option.splits)
  next
    case (Cons x us)
    with dist fr have "fst x \<noteq> h" "h \<noteq> fst x" "fst x \<noteq> l_brk L" "l_brk L \<noteq> fst x"
      "fst x \<notin> fst ` set xs" "fst x \<notin> fst ` set us" "l_brk L \<notin> fst ` set us" "h \<notin> fst ` set us"
      using assms(1) by (auto simp: dl_def)
    with assms dist fr Cons show ?thesis
      by (auto simp: list_add_def list_size_def item_alloc_def list_next_def set_next_def
          set_prev_def dl_def seg_frame less_SucI split: option.splits)
  qed
qed

text \<open>
  Deleting.  \<open>list_unlink\<close> moves \<open>list->item\<close> only when the deleted item is the first one.
  If \<open>list->item\<close> points to the deleted item and that item has a predecessor, the final
  \<open>list_start\<close> follows a pointer into freed memory.
\<close>

definition del_safe :: "'a LIST \<Rightarrow> (ptr \<times> 'a) list \<Rightarrow> ptr \<Rightarrow> bool" where
  "del_safe L xs p \<longleftrightarrow> l_item L \<noteq> Some p \<or> first xs None = Some p"

lemma first_in: "first xs b = Some p \<Longrightarrow> xs \<noteq> [] \<Longrightarrow> p \<in> fst ` set xs"
  by (cases xs) auto

lemma del_safe_later: "del_safe L (xs @ (p, v) # ys) p \<Longrightarrow> p \<notin> fst ` set xs \<Longrightarrow> xs \<noteq> [] \<Longrightarrow>
  l_item L \<noteq> Some p"
  using first_in [of xs _ p] by (auto simp: del_safe_def)

lemma list_unlink_dl:
  assumes "dl L (xs @ (p, v) # ys)" and "del_safe L (xs @ (p, v) # ys) p"
    and it: "it = \<lparr>i_val = v, i_next = first ys None, i_prev = final xs None\<rparr>"
  shows "\<exists>L1. list_unlink L p it = Some L1 \<and>
    dl ((item_free L1 p)\<lparr>l_size := l_size (item_free L1 p) - 1\<rparr>) (xs @ ys) \<and> l_brk L1 = l_brk L"
proof -
  have dist: "p \<notin> fst ` set xs" "p \<notin> fst ` set ys" "fst ` set xs \<inter> fst ` set ys = {}"
    using assms(1) by (auto simp: dl_def)
  consider (single) "xs = []" "ys = []" | (frst) y zs where "xs = []" "ys = y # zs"
    | (lst) us x where "xs = us @ [x]" "ys = []" | (mid) us x y zs where "xs = us @ [x]" "ys = y # zs"
    by (metis neq_Nil_conv rev_exhaust)
  then show ?thesis
  proof cases
    case single
    with assms dist show ?thesis
      by (auto simp: list_unlink_def item_free_def dl_def)
  next
    case frst
    with dist have "fst y \<noteq> p" "p \<notin> fst ` set zs" "fst y \<notin> fst ` set zs"
      using assms(1) by (auto simp: dl_def)
    with assms dist frst show ?thesis
      by (auto simp: list_unlink_def item_free_def dl_def set_prev_def seg_frame)
  next
    case lst
    with dist have "fst x \<noteq> p" "p \<notin> fst ` set us" "fst x \<notin> fst ` set us"
      using assms(1) by (auto simp: dl_def)
    moreover have "l_item L \<noteq> Some p"
      using del_safe_later [OF assms(2) dist(1)] lst by simp
    ultimately show ?thesis
      using assms dist lst
      by (auto simp: list_unlink_def item_free_def dl_def set_next_def seg_frame
          split: option.splits)
  next
    case mid
    with dist have "fst x \<noteq> p" "p \<notin> fst ` set us" "fst x \<notin> fst ` set us"
      "fst y \<noteq> p" "p \<notin> fst ` set zs" "fst y \<notin> fst ` set zs" "fst x \<noteq> fst y" "fst y \<noteq> fst x"
      "fst x \<notin> fst ` set zs" "fst y \<notin> fst ` set us"
      using assms(1) by (auto simp: dl_def)
    moreover have "l_item L \<noteq> Some p"
      using del_safe_later [OF assms(2) dist(1)] mid by simp
    ultimately show ?thesis
      using assms dist mid
      by (auto simp: list_unlink_def item_free_def dl_def set_next_def set_prev_def seg_frame
          split: option.splits)
  qed
qed

lemma list_del_dl [list_rules]:
  assumes "dl L (xs @ (p, v) # ys)" and "del_safe L (xs @ (p, v) # ys) p"
  shows "\<exists>L'. list_del L (Some p) = Some (L', first (xs @ ys) None) \<and> dlc L' (xs @ ys) \<and>
    l_brk L' = l_brk L"
proof -
  let ?it = "\<lparr>i_val = v, i_next = first ys None, i_prev = final xs None\<rparr>"
  from list_unlink_dl [OF assms refl] obtain L1 where L1: "list_unlink L p ?it = Some L1"
    and d: "dl ((item_free L1 p)\<lparr>l_size := l_size (item_free L1 p) - 1\<rparr>) (xs @ ys)"
    and b: "l_brk L1 = l_brk L" by blast
  have m: "l_mem L p = Some ?it" using assms(1) by (simp add: dl_def)
  from m L1 list_start_dl [OF d] dlc_start [OF d] b show ?thesis
    by (simp add: list_del_def item_free_def)
qed

text \<open>The other half: outside \<open>del_safe\<close> the deletion reads freed memory.\<close>

lemma walk_prev_freed: "m p = None \<Longrightarrow> walk_prev m p = None"
  by (simp add: walk_prev.simps)

lemma list_unlink_item:
  "list_unlink L p it = Some L1 \<Longrightarrow> i_prev it = Some q \<Longrightarrow> l_item L1 = l_item L"
  by (auto simp: list_unlink_def set_next_def set_prev_def bind_eq_Some_conv'
      split: option.splits)

lemma list_del_dangling:
  assumes "dl L (xs @ (p, v) # ys)" and "\<not> del_safe L (xs @ (p, v) # ys) p"
  shows "list_del L (Some p) = None"
proof -
  from assms(2) have it: "l_item L = Some p" and ne: "xs \<noteq> []"
    by (auto simp: del_safe_def)
  obtain q where q: "final xs None = Some q" using ne by (auto simp: final_def)
  have m: "l_mem L p = Some \<lparr>i_val = v, i_next = first ys None, i_prev = Some q\<rparr>"
    using assms(1) q by (simp add: dl_def)
  let ?it = "\<lparr>i_val = v, i_next = first ys None, i_prev = Some q\<rparr>"
  show ?thesis
  proof (cases "list_unlink L p ?it")
    case None
    with m show ?thesis by (simp add: list_del_def)
  next
    case (Some L1)
    have "list_start ((item_free L1 p)\<lparr>l_size := n\<rparr>) = None" for n
      using list_unlink_item [OF Some] it
      by (simp add: list_start_def item_free_def walk_prev_freed)
    with m Some show ?thesis by (simp add: list_del_def)
  qed
qed

text \<open>Freeing.  \<open>list_free\<close> deletes \<open>list->item\<close> until there is none, which needs it to be the
  first item at the start; \<open>list_clear\<close> frees every payload once.\<close>

lemma list_free_dlc [list_rules]:
  assumes "dlc L xs"
  shows "\<exists>L'. list_free L = Some L' \<and> dlc L' [] \<and> l_mem L' = Map.empty"
  using assms
proof (induction xs arbitrary: L)
  case Nil
  then show ?case by (subst list_free.simps) (auto simp: dlc_def dl_def)
next
  case (Cons x xs)
  obtain p v where x: "x = (p, v)" by (cases x)
  have it: "l_item L = Some p" using Cons.prems by (simp add: dlc_def x)
  have "dl L ([] @ (p, v) # xs)" "del_safe L ([] @ (p, v) # xs) p"
    using Cons.prems by (simp_all add: x del_safe_def)
  from list_del_dl [OF this] obtain L' where
    L': "list_del L (Some p) = Some (L', first xs None)" "dlc L' xs" by auto
  from Cons.IH [OF L'(2)] L'(1) it show ?case
    by (subst list_free.simps) simp
qed

lemma clear_loop_seg: "seg (l_mem L) a xs None \<Longrightarrow> clear_loop L (first xs None) = Some (map snd xs)"
proof (induction xs arbitrary: a)
  case Nil
  then show ?case by (simp add: clear_loop.simps)
next
  case (Cons x xs)
  from Cons.prems have "seg (l_mem L) (Some (fst x)) xs None" by simp
  from Cons.IH [OF this] Cons.prems show ?case by (subst clear_loop.simps) simp
qed

lemma list_clear_dl [list_rules]:
  assumes "dl L xs"
  shows "\<exists>L'. list_clear L = Some (L', map snd xs) \<and> dlc L' xs"
proof -
  have "seg (l_mem (L\<lparr>l_item := first xs None\<rparr>)) None xs None" using assms by (simp add: dl_def)
  from clear_loop_seg [OF this] dlc_start [OF assms] list_start_dl [OF assms] show ?thesis
    by (simp add: list_clear_def)
qed

text \<open>Rotating moves the first item to the end.\<close>

lemma list_rotate_dl [list_rules]:
  assumes "dl L (x # xs)" and "xs \<noteq> []"
  shows "\<exists>L'. list_rotate L = Some L' \<and> dlc L' (xs @ [x]) \<and> l_brk L' = l_brk L"
proof -
  obtain y where "xs = [y] \<or> (\<exists>zs z. xs = y # zs @ [z])"
    using assms(2) by (metis neq_Nil_conv rev_exhaust)
  moreover note start = list_start_dl [OF assms(1)] and d = dlc_start [OF assms(1)]
  moreover note stop = list_stop_dl [OF dlc_dl [OF d]]
  ultimately show ?thesis
    using assms
    apply (elim disjE exE)
     apply (auto simp: list_rotate_def list_size_def dlc_def dl_def set_next_def set_prev_def seg_frame)
    done
qed

lemma list_rotate_short: "dl L xs \<Longrightarrow> length xs \<le> 1 \<Longrightarrow> list_rotate L = Some L"
  by (simp add: list_rotate_def list_size_dl)

section \<open>The loop over a list\<close>

text \<open>
  The loop that every database of the program runs over its list:
  \<open>item = list_start(list); while (item != NULL) { val = list_value(item);
  next = list_next(item); ...; item = next; }\<close>.  The body may delete the item it is at.
  \<open>lst\<close> selects the list from the state the body changes.
\<close>

partial_function (option) list_each ::
  "('s \<Rightarrow> 'a LIST) \<Rightarrow> ('s \<Rightarrow> ptr \<Rightarrow> 'a \<Rightarrow> 's option) \<Rightarrow> 's \<Rightarrow> ptr option \<Rightarrow> 's option" where
  "list_each lst body s item =
     (case item of None \<Rightarrow> Some s
      | Some p \<Rightarrow>
         (case l_mem (lst s) p of None \<Rightarrow> None
          | Some it \<Rightarrow> (case body s p (i_val it) of None \<Rightarrow> None
              | Some s' \<Rightarrow> list_each lst body s' (i_next it))))"

text \<open>
  The contract of a loop body: on a state that represents a sequence it returns, and it deletes exactly
  the items that are not to be kept, leaving or updating the others.
\<close>

locale sweeper =
  fixes lst :: "'s \<Rightarrow> 'a LIST" and rep :: "'s \<Rightarrow> (ptr \<times> 'a) list \<Rightarrow> bool"
    and body :: "'s \<Rightarrow> ptr \<Rightarrow> 'a \<Rightarrow> 's option"
    and keep :: "'a \<Rightarrow> bool" and upd :: "'a \<Rightarrow> 'a"
  assumes rep_dl: "rep s xs \<Longrightarrow> dl (lst s) xs"
    and body_keep: "rep s (xs @ (p, v) # ys) \<Longrightarrow> keep v \<Longrightarrow>
      \<exists>s'. body s p v = Some s' \<and> rep s' (xs @ (p, upd v) # ys)"
    and body_drop: "rep s (xs @ (p, v) # ys) \<Longrightarrow> \<not> keep v \<Longrightarrow>
      \<exists>s'. body s p v = Some s' \<and> rep s' (xs @ ys)"
begin

lemma sweep_from:
  "rep s (xs @ ys) \<Longrightarrow>
   \<exists>s'. list_each lst body s (first ys None) = Some s' \<and>
     rep s' (xs @ map (\<lambda>(p, v). (p, upd v)) (filter (\<lambda>x. keep (snd x)) ys))"
proof (induction ys arbitrary: s xs)
  case Nil
  then show ?case by (simp add: list_each.simps)
next
  case (Cons y ys)
  obtain p v where y: "y = (p, v)" by (cases y)
  with Cons.prems have r: "rep s (xs @ (p, v) # ys)" by simp
  have m: "l_mem (lst s) p = Some \<lparr>i_val = v, i_next = first ys None, i_prev = final xs None\<rparr>"
    using rep_dl [OF r] by (simp add: dl_def)
  show ?case
  proof (cases "keep v")
    case True
    from body_keep [OF r True] obtain s1 where
      s1: "body s p v = Some s1" "rep s1 ((xs @ [(p, upd v)]) @ ys)" by auto
    from Cons.IH [OF s1(2)] s1(1) m True show ?thesis
      by (subst list_each.simps) (simp add: y)
  next
    case False
    from body_drop [OF r False] obtain s1 where
      s1: "body s p v = Some s1" "rep s1 (xs @ ys)" by auto
    from Cons.IH [OF s1(2)] s1(1) m False show ?thesis
      by (subst list_each.simps) (simp add: y)
  qed
qed

lemma sweep:
  "rep s xs \<Longrightarrow>
   \<exists>s'. list_each lst body s (first xs None) = Some s' \<and>
     rep s' (map (\<lambda>(p, v). (p, upd v)) (filter (\<lambda>x. keep (snd x)) xs))"
  using sweep_from [of s "[]" xs] by simp

end

text \<open>
  The same loop when its bodies change objects the payloads point to: \<open>rep\<close> tells the part of the list that has
  been visited from the rest.
\<close>

locale walker =
  fixes lst :: "'s \<Rightarrow> 'a LIST" and rep :: "'s \<Rightarrow> (ptr \<times> 'a) list \<Rightarrow> (ptr \<times> 'a) list \<Rightarrow> bool"
    and body :: "'s \<Rightarrow> ptr \<Rightarrow> 'a \<Rightarrow> 's option" and keep :: "'a \<Rightarrow> bool"
  assumes rep_dl: "rep s xs ys \<Longrightarrow> dl (lst s) (xs @ ys)"
    and body_step: "rep s xs ((p, v) # ys) \<Longrightarrow>
      \<exists>s'. body s p v = Some s' \<and> rep s' (if keep v then xs @ [(p, v)] else xs) ys"
begin

lemma walk:
  "rep s xs ys \<Longrightarrow>
   \<exists>s'. list_each lst body s (first ys None) = Some s' \<and> rep s' (xs @ filter (\<lambda>x. keep (snd x)) ys) []"
proof (induction ys arbitrary: s xs)
  case Nil
  then show ?case by (simp add: list_each.simps)
next
  case (Cons y ys)
  obtain p v where y: "y = (p, v)" by (cases y)
  have m: "l_mem (lst s) p = Some \<lparr>i_val = v, i_next = first ys None, i_prev = final xs None\<rparr>"
    using rep_dl [OF Cons.prems] by (simp add: dl_def y)
  from body_step [of s xs p v ys] Cons.prems obtain s1 where
    s1: "body s p v = Some s1" "rep s1 (if keep v then xs @ [(p, v)] else xs) ys" by (auto simp: y)
  from Cons.IH [OF s1(2)] s1(1) m show ?case
    by (subst list_each.simps) (cases "keep v"; simp add: y)
qed

end

lemma dlc_del_safe: "dlc L xs \<Longrightarrow> del_safe L xs p"
  by (simp add: dlc_def del_safe_def)

lemma list_del_dlc [list_rules]:
  "dlc L (xs @ (p, v) # ys) \<Longrightarrow>
   \<exists>L'. list_del L (Some p) = Some (L', first (xs @ ys) None) \<and> dlc L' (xs @ ys) \<and> l_brk L' = l_brk L"
  using list_del_dl [of L xs p v ys] by (simp add: dlc_del_safe)

lemma set_val_dlc [list_rules]:
  assumes "dlc L (xs @ (p, v) # ys)"
  shows "\<exists>L'. set_val L p w = Some L' \<and> dlc L' (xs @ (p, w) # ys) \<and> l_brk L' = l_brk L"
proof -
  have n: "p \<notin> fst ` set xs" "p \<notin> fst ` set ys" using assms by (auto simp: dlc_def dl_def)
  with assms show ?thesis
    by (cases xs) (auto simp: set_val_def dlc_def dl_def seg_frame split: option.splits)
qed

section \<open>Refinement of sequences with a cursor\<close>

text \<open>
  The abstract list: the items in order, the item \<open>list->item\<close> points to, and the next address
  the allocator hands out.  An operation on an item that is not in the list has no defined
  outcome, nor has deleting the item under the cursor when it is not the first one.
\<close>

datatype 'a list_op = LPut 'a | LIns ptr 'a | LAdd ptr 'a | LDel ptr | LStart | LRotate

type_synonym 'a aseq = "(ptr \<times> 'a) list \<times> ptr option \<times> ptr"

definition list_do :: "'a list_op \<Rightarrow> 'a LIST \<Rightarrow> 'a LIST option" where
  "list_do op L = (case op of
     LPut v \<Rightarrow> do { (L', _) \<leftarrow> list_put L v; Some L' }
   | LIns h v \<Rightarrow> do { (L', _) \<leftarrow> list_ins L (Some h) v; Some L' }
   | LAdd h v \<Rightarrow> do { (L', _) \<leftarrow> list_add L (Some h) v; Some L' }
   | LDel p \<Rightarrow> do { (L', _) \<leftarrow> list_del L (Some p); Some L' }
   | LStart \<Rightarrow> do { (L', _) \<leftarrow> list_start L; Some L' }
   | LRotate \<Rightarrow> list_rotate L)"

definition before :: "ptr \<Rightarrow> (ptr \<times> 'a) list \<Rightarrow> (ptr \<times> 'a) list" where
  "before p xs = takeWhile (\<lambda>x. fst x \<noteq> p) xs"

definition after :: "ptr \<Rightarrow> (ptr \<times> 'a) list \<Rightarrow> (ptr \<times> 'a) list" where
  "after p xs = dropWhile (\<lambda>x. fst x \<noteq> p) xs"

fun seq_do :: "'a list_op \<Rightarrow> 'a aseq \<Rightarrow> 'a aseq option" where
  "seq_do (LPut v) (xs, c, b) = Some (xs @ [(b, v)], if xs = [] then Some b else c, Suc b)"
| "seq_do (LIns h v) (xs, c, b) =
     (if xs = [] then Some ([(b, v)], Some b, Suc b)
      else if h \<in> fst ` set xs then Some (before h xs @ (b, v) # after h xs, c, Suc b)
      else None)"
| "seq_do (LAdd h v) (xs, c, b) =
     (if xs = [] then Some ([(b, v)], Some b, Suc b)
      else if h \<in> fst ` set xs
        then Some (before h xs @ hd (after h xs) # (b, v) # tl (after h xs), c, Suc b)
      else None)"
| "seq_do (LDel p) (xs, c, b) =
     (if p \<notin> fst ` set xs \<or> c = Some p \<and> first xs None \<noteq> Some p then None
      else let ys = before p xs @ tl (after p xs) in Some (ys, first ys None, b))"
| "seq_do LStart (xs, c, b) = Some (xs, first xs None, b)"
| "seq_do LRotate (xs, c, b) =
     (if length xs \<le> 1 then Some (xs, c, b) else Some (tl xs @ [hd xs], first (tl xs) None, b))"

fun list_run :: "'a list_op list \<Rightarrow> 'a LIST \<Rightarrow> 'a LIST option" where
  "list_run [] L = Some L"
| "list_run (op # ops) L = do { L' \<leftarrow> list_do op L; list_run ops L' }"

fun seq_run :: "'a list_op list \<Rightarrow> 'a aseq \<Rightarrow> 'a aseq option" where
  "seq_run [] a = Some a"
| "seq_run (op # ops) a = do { a' \<leftarrow> seq_do op a; seq_run ops a' }"

definition lrep :: "'a LIST \<Rightarrow> 'a aseq \<Rightarrow> bool" where
  "lrep L a = (case a of (xs, c, b) \<Rightarrow> dl L xs \<and> l_item L = c \<and> l_brk L = b)"

lemma before_after [simp]:
  "p \<notin> fst ` set xs \<Longrightarrow> before p (xs @ (p, v) # ys) = xs"
  "p \<notin> fst ` set xs \<Longrightarrow> after p (xs @ (p, v) # ys) = (p, v) # ys"
  by (induction xs) (auto simp: before_def after_def)

lemma dl_fresh_split: "dl L (xs @ (p, v) # ys) \<Longrightarrow> p \<notin> fst ` set xs \<and> p \<notin> fst ` set ys"
  by (auto simp: dl_def)

lemma list_do_refines:
  assumes "lrep L (xs, c, b)" and "int (length xs) < LONG_MAX" and "seq_do op (xs, c, b) = Some a"
  shows "\<exists>L'. list_do op L = Some L' \<and> lrep L' a"
proof -
  from assms(1) have d: "dl L xs" and c: "l_item L = c" and b: "l_brk L = b"
    by (simp_all add: lrep_def)
  have nil: "list_ins L h v = list_put L v \<and> list_add L h v = list_put L v" if "xs = []" for h v
    using d assms(2) that by (simp add: list_ins_def list_add_def list_size_dl)
  have at: "\<exists>ys w zs. xs = ys @ (h, w) # zs \<and> dl L (ys @ (h, w) # zs) \<and> h \<notin> fst ` set ys"
    if h: "h \<in> fst ` set xs" for h
    using in_fst_split [OF h] d dl_fresh_split by metis
  show ?thesis
  proof (cases op)
    case (LPut v)
    with list_put_dl [OF d assms(2), of v] c b assms(3) show ?thesis by (auto simp: list_do_def lrep_def)
  next
    case (LIns h v)
    show ?thesis
    proof (cases "xs = []")
      case True
      with list_put_dl [OF d assms(2), of v] nil b assms(3) show ?thesis
        by (auto simp: LIns list_do_def lrep_def)
    next
      case False
      with assms(3) at [of h] obtain ys w zs where xs: "xs = ys @ (h, w) # zs"
        and d': "dl L (ys @ (h, w) # zs)" and "h \<notin> fst ` set ys" by (auto simp: LIns split: if_splits)
      with assms(3) list_ins_dl [OF d' assms(2) [unfolded xs], of v] c b show ?thesis
        by (auto simp: LIns list_do_def lrep_def)
    qed
  next
    case (LAdd h v)
    show ?thesis
    proof (cases "xs = []")
      case True
      with list_put_dl [OF d assms(2), of v] nil b assms(3) show ?thesis
        by (auto simp: LAdd list_do_def lrep_def)
    next
      case False
      with assms(3) at [of h] obtain ys w zs where xs: "xs = ys @ (h, w) # zs"
        and d': "dl L (ys @ (h, w) # zs)" and "h \<notin> fst ` set ys" by (auto simp: LAdd split: if_splits)
      with assms(3) list_add_dl [OF d' assms(2) [unfolded xs], of v] c b show ?thesis
        by (auto simp: LAdd list_do_def lrep_def)
    qed
  next
    case (LDel p)
    with assms(3) at [of p] obtain ys w zs where xs: "xs = ys @ (p, w) # zs"
      and d': "dl L (ys @ (p, w) # zs)" and n: "p \<notin> fst ` set ys" by (auto split: if_splits)
    have "del_safe L (ys @ (p, w) # zs) p"
      using assms(3) c by (auto simp: LDel xs del_safe_def split: if_splits)
    with list_del_dl [OF d'] assms(3) n b show ?thesis
      by (auto simp: xs LDel list_do_def lrep_def dlc_def Let_def split: if_splits)
  next
    case LStart
    with list_start_dl [OF d] dlc_start [OF d] b assms(3) show ?thesis
      by (auto simp: list_do_def lrep_def dlc_def)
  next
    case LRotate
    show ?thesis
    proof (cases "length xs \<le> 1")
      case True
      with list_rotate_short [OF d True] assms(1,3) show ?thesis
        by (simp add: LRotate list_do_def)
    next
      case False
      then obtain x ys where xs: "xs = x # ys" "ys \<noteq> []" by (cases xs) auto
      from list_rotate_dl [OF d [unfolded xs] xs(2)] b c xs assms(3) show ?thesis
        by (cases ys) (auto simp: LRotate list_do_def lrep_def dlc_def)
    qed
  qed
qed

lemma seq_do_length: "seq_do op (xs, c, b) = Some (xs', c', b') \<Longrightarrow> length xs' \<le> Suc (length xs)"
proof -
  have "length (before h xs) + length (after h xs) = length xs" for h
    unfolding before_def after_def by (metis length_append takeWhile_dropWhile_id)
  moreover have "after h xs \<noteq> []" if "h \<in> fst ` set xs" for h
    using that by (force simp: after_def dropWhile_eq_Nil_conv)
  moreover assume "seq_do op (xs, c, b) = Some (xs', c', b')"
  ultimately show ?thesis
    by (cases op) (fastforce simp: Let_def Suc_le_eq split: if_splits)+
qed

lemma list_run_refines:
  "lrep L (xs, c, b) \<Longrightarrow> int (length xs + length ops) < LONG_MAX \<Longrightarrow>
   seq_run ops (xs, c, b) = Some a \<Longrightarrow> \<exists>L'. list_run ops L = Some L' \<and> lrep L' a"
proof (induction ops arbitrary: L xs c b)
  case (Cons op ops)
  then obtain xs' c' b' where s: "seq_do op (xs, c, b) = Some (xs', c', b')"
    and r: "seq_run ops (xs', c', b') = Some a" by (auto simp: bind_eq_Some_conv')
  from list_do_refines [OF Cons.prems(1) _ s] Cons.prems(2) obtain L' where
    "list_do op L = Some L'" "lrep L' (xs', c', b')" by auto
  with Cons.IH [of L' xs' c' b'] Cons.prems(2) seq_do_length [OF s] r show ?case by simp
qed simp

text \<open>
  C16: The pointer manipulations of list.c implement sequences.  Any sequence of list_put, list_ins, list_add, list_del, list_start and
  list_rotate calls that is defined for the abstract list with a cursor runs on the linked list without touching memory outside it,
  and the linked list then represents exactly the abstract result, with list->item at the abstract cursor.
\<close>

theorem list_refines_sequence:
  assumes "int (length ops) < LONG_MAX" and "seq_run ops ([], None, 0) = Some a"
  shows "\<exists>L. list_run ops list_init = Some L \<and> lrep L a"
  using list_run_refines [of list_init "[]" None 0 ops a] assms
  by (simp add: lrep_def list_init_def dl_def)

theorem list_refines_sequence_witness:
  "\<exists>L. list_run [LPut (10 :: nat), LPut 11, LIns 0 12, LAdd 1 13, LRotate, LDel 1] list_init = Some L \<and>
       lrep L ([(0, 10), (3, 13), (2, 12)], Some 0, 4)"
  by (rule list_refines_sequence) (simp_all add: before_def after_def Let_def)

text \<open>
  C32: What list_del does on every branch.  Deleting an item of the list returns the first remaining item, keeps the order of the
  others and resets the cursor, exactly when list->item does not point to the deleted item or that item is the
  first one; otherwise the function follows list->item into the item it has just freed.
\<close>

theorem list_del_exact:
  assumes "dl L (xs @ (p, v) # ys)"
  shows "(case list_del L (Some p) of
      None \<Rightarrow> l_item L = Some p \<and> xs \<noteq> []
    | Some (L', r) \<Rightarrow> (l_item L = Some p \<longrightarrow> xs = []) \<and> dlc L' (xs @ ys) \<and> r = first (xs @ ys) None)"
proof (cases "l_item L = Some p \<and> xs \<noteq> []")
  case True
  with dl_fresh_split [OF assms] have "\<not> del_safe L (xs @ (p, v) # ys) p"
    by (cases xs) (auto simp: del_safe_def)
  with True list_del_dangling [OF assms] show ?thesis by simp
next
  case False
  then have "del_safe L (xs @ (p, v) # ys) p" by (auto simp: del_safe_def)
  with False list_del_dl [OF assms] show ?thesis by auto
qed

definition ex_L :: "nat LIST" where
  "ex_L = \<lparr>l_mem = [0 \<mapsto> \<lparr>i_val = 7, i_next = None, i_prev = Some 1\<rparr>,
                    1 \<mapsto> \<lparr>i_val = 8, i_next = Some 0, i_prev = None\<rparr>],
          l_brk = 2, l_item = Some 0, l_size = 2\<rparr>"

theorem list_del_exact_witness:
  "list_del ex_L (Some 0) = None \<and> (\<exists>L'. list_del ex_L (Some 1) = Some (L', Some 0) \<and> dlc L' [(0, 7)])"
proof -
  have "dl ex_L ([(1, 8)] @ (0, 7) # [])" "dl ex_L ([] @ (1, 8) # [(0, 7)])"
    by (auto simp: ex_L_def dl_def)
  from this [THEN list_del_exact] show ?thesis
    by (auto simp: ex_L_def split: option.splits)
qed

end
