(* ===== verification/Hash.thy ===== *)
theory Hash
  imports Lists
begin

text \<open>
  The hash table of \<^verbatim>\<open>src/src/shr/hash.c\<close>: a fixed number of buckets, each an array
  of pairs, and the djb2 hash of the key.  The key of a pair is modelled by the bytes it points to; every
  caller stores a key that lives in the object it maps to and removes the pair before it frees
  that object.  The locale \<open>hash_map\<close> is what the callers rely on; the locale \<open>index\<close> adds
  the contract every database of the program builds on it, a table that maps
  the key of each object of a list to the list item of that object.
\<close>

section \<open>The table\<close>

type_synonym 'v PAIR = "bytes \<times> 'v"
type_synonym 'v BUCKET = "'v PAIR list"

record 'v HASH =
  buckets :: "'v BUCKET list"

definition hash_init :: "nat \<Rightarrow> 'v HASH" where
  "hash_init capacity = \<lparr>buckets = replicate capacity []\<rparr>"

fun hash_loop :: "64 word \<Rightarrow> bytes \<Rightarrow> 64 word" where
  "hash_loop result [] = result"
| "hash_loop result (c # key) = hash_loop ((push_bit 5 result + result) + ucast c) key"

definition hash_this :: "bytes \<Rightarrow> 64 word" where
  "hash_this key = hash_loop 5381 key"

text \<open>The index of the first pair with this key; sizes are compared before the bytes.\<close>

fun hash_getpair :: "'v BUCKET \<Rightarrow> bytes \<Rightarrow> nat option" where
  "hash_getpair [] key = None"
| "hash_getpair (pair # ps) key =
     (if length (fst pair) = length key \<and> memcmp (fst pair) key = 0 then Some 0
      else map_option Suc (hash_getpair ps key))"

definition hash_index :: "'v HASH \<Rightarrow> bytes \<Rightarrow> nat" where
  "hash_index h key = unat (hash_this key) mod length (buckets h)"

definition hash_get :: "'v HASH \<Rightarrow> bytes \<Rightarrow> 'v option" where
  "hash_get h key =
     (let bucket = buckets h ! hash_index h key in
      case hash_getpair bucket key of None \<Rightarrow> None | Some i \<Rightarrow> Some (snd (bucket ! i)))"

definition hash_exists :: "'v HASH \<Rightarrow> bytes \<Rightarrow> bool" where
  "hash_exists h key = (hash_get h key \<noteq> None)"

text \<open>The value is \<open>None\<close> when the caller hands over a null pointer.\<close>

definition hash_put :: "'v HASH \<Rightarrow> bytes \<Rightarrow> 'v option \<Rightarrow> 'v HASH \<times> bool" where
  "hash_put h key value =
     (case value of None \<Rightarrow> (h, False)
      | Some v \<Rightarrow>
        let index = hash_index h key; bucket = buckets h ! index in
        (case hash_getpair bucket key of
           Some i \<Rightarrow> (h\<lparr>buckets := (buckets h)[index := bucket[i := (fst (bucket ! i), v)]]\<rparr>, True)
         | None \<Rightarrow>
             if length bucket = 0 then
               (h\<lparr>buckets := (buckets h)[index := [(key, v)]]\<rparr>, True)
             else if int (length bucket) = LONG_MAX then (h, False)
             else (h\<lparr>buckets := (buckets h)[index := bucket @ [(key, v)]]\<rparr>, True)))"

text \<open>The copy loop of \<open>hash_del\<close>: every pair but the one at the index found.\<close>

definition hash_copy :: "'v BUCKET \<Rightarrow> nat \<Rightarrow> 'v BUCKET" where
  "hash_copy bucket i = take i bucket @ drop (Suc i) bucket"

definition hash_del :: "'v HASH \<Rightarrow> bytes \<Rightarrow> 'v HASH" where
  "hash_del h key =
     (let index = hash_index h key; bucket = buckets h ! index in
      case hash_getpair bucket key of None \<Rightarrow> h
      | Some i \<Rightarrow>
          if length bucket = 1 then h\<lparr>buckets := (buckets h)[index := []]\<rparr>
          else h\<lparr>buckets := (buckets h)[index := hash_copy bucket i]\<rparr>)"

text \<open>
  The do-while loop of \<open>tkn_create\<close> and \<open>tdb_create_random_id\<close>: draw \<open>k\<close> bytes until they are not in the table; \<open>n\<close> is the
  number of further attempts.
\<close>

fun create_loop :: "nat \<Rightarrow> 'v HASH \<Rightarrow> nat \<Rightarrow> rng \<Rightarrow> bytes \<times> rng" where
  "create_loop k h 0 g = rand_urandom g k"
| "create_loop k h (Suc n) g =
     (let (i, g') = rand_urandom g k in
      if hash_exists h i then create_loop k h n g' else (i, g'))"

section \<open>The contract of a hash table\<close>

locale hash_map =
  fixes hinit :: "'h" and hget :: "'h \<Rightarrow> 'k \<Rightarrow> 'v option"
    and hput :: "'h \<Rightarrow> 'k \<Rightarrow> 'v option \<Rightarrow> 'h \<times> bool"
    and hdel :: "'h \<Rightarrow> 'k \<Rightarrow> 'h" and hinv :: "'h \<Rightarrow> bool"
  assumes hinv_init: "hinv hinit"
    and hget_init: "hget hinit k = None"
    and hfin: "hinv h \<Longrightarrow> finite (dom (hget h))"
    and hput_null: "hput h k None = (h, False)"
    and hput_room: "hinv h \<Longrightarrow> int (card (dom (hget h))) < LONG_MAX \<Longrightarrow> snd (hput h k (Some v))"
    and hget_put: "hinv h \<Longrightarrow> snd (hput h k (Some v)) \<Longrightarrow>
      hget (fst (hput h k (Some v))) = (hget h)(k \<mapsto> v)"
    and hget_full: "hinv h \<Longrightarrow> \<not> snd (hput h k (Some v)) \<Longrightarrow> fst (hput h k (Some v)) = h"
    and hinv_put: "hinv h \<Longrightarrow> hinv (fst (hput h k (Some v)))"
    and hget_del: "hinv h \<Longrightarrow> hget (hdel h k) = (hget h)(k := None)"
    and hinv_del: "hinv h \<Longrightarrow> hinv (hdel h k)"
begin

lemma hput_hdel: "hinv h \<Longrightarrow> hget h k = None \<Longrightarrow> snd (hput h k (Some v)) \<Longrightarrow>
  hget (hdel (fst (hput h k (Some v))) k) = hget h"
  by (auto simp: hget_del hinv_put hget_put)

lemma hput_other: "hinv h \<Longrightarrow> k' \<noteq> k \<Longrightarrow> hget (fst (hput h k (Some v))) k' = hget h k'"
  by (cases "snd (hput h k (Some v))") (auto simp: hget_put hget_full)

end

section \<open>Lists with an index\<close>

text \<open>
  \<open>sound m key xs\<close>: every entry of the table leads to an item of the list whose object has that
  key, so no lookup returns a dangling item.  \<open>indexes m key xs\<close>: moreover keys are unique and every object can be found.
\<close>

definition sound :: "('k \<Rightarrow> ptr option) \<Rightarrow> ('a \<Rightarrow> 'k) \<Rightarrow> (ptr \<times> 'a) list \<Rightarrow> bool" where
  "sound m key xs \<longleftrightarrow> (\<forall>k p. m k = Some p \<longrightarrow> (\<exists>v. (p, v) \<in> set xs \<and> key v = k))"

definition indexes :: "('k \<Rightarrow> ptr option) \<Rightarrow> ('a \<Rightarrow> 'k) \<Rightarrow> (ptr \<times> 'a) list \<Rightarrow> bool" where
  "indexes m key xs \<longleftrightarrow>
     distinct (map (\<lambda>x. key (snd x)) xs) \<and>
     (\<forall>k p. m k = Some p \<longleftrightarrow> (\<exists>v. (p, v) \<in> set xs \<and> key v = k))"

lemma indexes_sound: "indexes m key xs \<Longrightarrow> sound m key xs"
  by (simp add: indexes_def sound_def)

lemma soundD: "sound m key xs \<Longrightarrow> m k = Some p \<Longrightarrow> \<exists>v. (p, v) \<in> set xs \<and> key v = k"
  by (simp add: sound_def)

lemma sound_card:
  assumes "sound m key xs"
  shows "card (dom m) \<le> length xs"
proof -
  let ?K = "(\<lambda>x. key (snd x)) ` set xs"
  have "dom m \<subseteq> ?K" using assms by (force simp: sound_def)
  then have "card (dom m) \<le> card ?K" by (rule card_mono [rotated]) simp
  also have "\<dots> \<le> card (set xs)" by (rule card_image_le) simp
  also have "\<dots> \<le> length xs" by (rule card_length)
  finally show ?thesis .
qed

lemma indexes_None: "indexes m key xs \<Longrightarrow> m k = None \<longleftrightarrow> (\<forall>x \<in> set xs. key (snd x) \<noteq> k)"
  unfolding indexes_def by (metis not_Some_eq prod.collapse snd_conv)

lemma indexes_get: "indexes m key xs \<Longrightarrow> (p, v) \<in> set xs \<Longrightarrow> m (key v) = Some p"
  by (auto simp: indexes_def)

lemma indexes_distinct: "indexes m key xs \<Longrightarrow> distinct (map (\<lambda>x. key (snd x)) xs)"
  by (simp add: indexes_def)

lemma indexes_update:
  "indexes m key (xs @ (p, v) # ys) \<Longrightarrow> key v' = key v \<Longrightarrow> indexes m key (xs @ (p, v') # ys)"
  unfolding indexes_def by (simp; metis)

lemma sound_update:
  "sound m key (xs @ (p, v) # ys) \<Longrightarrow> key v' = key v \<Longrightarrow> sound m key (xs @ (p, v') # ys)"
  unfolding sound_def by fastforce

locale index = hash_map hinit hget hput hdel hinv
  for hinit :: "'h" and hget :: "'h \<Rightarrow> 'k \<Rightarrow> ptr option"
    and hput :: "'h \<Rightarrow> 'k \<Rightarrow> ptr option \<Rightarrow> 'h \<times> bool"
    and hdel :: "'h \<Rightarrow> 'k \<Rightarrow> 'h" and hinv :: "'h \<Rightarrow> bool" +
  fixes key :: "'a \<Rightarrow> 'k"
begin

lemma index_init: "indexes (hget hinit) key []"
  by (simp add: indexes_def sound_def hget_init)

lemma index_put_ok:
  assumes "hinv h" and "sound (hget h) key xs" and "int (length xs) < LONG_MAX"
  shows "hget (fst (hput h k (Some p))) = (hget h)(k \<mapsto> p)"
proof -
  have "int (card (dom (hget h))) < LONG_MAX" using sound_card(1) [OF assms(2)] assms(3) by linarith
  with assms(1) show ?thesis by (simp add: hput_room hget_put)
qed

lemma sound_put:
  assumes "hinv h" and "sound (hget h) key xs" and "int (length xs) < LONG_MAX"
    and "set ys = insert (p, v) (set xs)"
  shows "sound (hget (fst (hput h (key v) (Some p)))) key ys"
  using assms(2,4) unfolding index_put_ok [OF assms(1-3)] by (auto simp: sound_def)

lemma index_put:
  assumes "hinv h" and "indexes (hget h) key (xs @ ys)" and "int (length (xs @ ys)) < LONG_MAX"
    and "hget h (key v) = None"
  shows "indexes (hget (fst (hput h (key v) (Some p)))) key (xs @ (p, v) # ys)"
proof -
  have s: "sound (hget h) key (xs @ ys)" using assms(2) by (rule indexes_sound)
  have n: "\<forall>x \<in> set (xs @ ys). key (snd x) \<noteq> key v"
    using assms(4) indexes_None [OF assms(2)] by simp
  show ?thesis
    unfolding indexes_def index_put_ok [OF assms(1) s assms(3)]
  proof (intro conjI allI)
    show "distinct (map (\<lambda>x. key (snd x)) (xs @ (p, v) # ys))"
      using n indexes_distinct [OF assms(2)] unfolding distinct_map_split by simp
    show "((hget h)(key v \<mapsto> p)) k = Some q \<longleftrightarrow> (\<exists>w. (q, w) \<in> set (xs @ (p, v) # ys) \<and> key w = k)"
      for k q
    proof (cases "k = key v")
      case True
      then have "(\<exists>w. (q, w) \<in> set (xs @ (p, v) # ys) \<and> key w = k) \<longleftrightarrow> q = p" using n by force
      with True show ?thesis by auto
    next
      case False
      then show ?thesis using assms(2) by (auto simp: indexes_def)
    qed
  qed
qed

lemma sound_del:
  assumes "hinv h" and "sound (hget h) key (xs @ (p, v) # ys)"
  shows "sound (hget (hdel h (key v))) key (xs @ ys)"
  unfolding sound_def
proof (intro allI impI)
  fix k q assume "hget (hdel h (key v)) k = Some q"
  then have "k \<noteq> key v" "hget h k = Some q" using assms(1) by (auto simp: hget_del split: if_splits)
  with soundD [OF assms(2)] show "\<exists>w. (q, w) \<in> set (xs @ ys) \<and> key w = k" by fastforce
qed

lemma index_del:
  assumes "hinv h" and "indexes (hget h) key (xs @ (p, v) # ys)"
  shows "indexes (hget (hdel h (key v))) key (xs @ ys)"
  unfolding indexes_def
proof (intro conjI allI)
  have n: "\<forall>x \<in> set (xs @ ys). key (snd x) \<noteq> key v"
    using indexes_distinct [OF assms(2)] unfolding distinct_map_split by simp
  show "distinct (map (\<lambda>x. key (snd x)) (xs @ ys))"
    using indexes_distinct [OF assms(2)] unfolding distinct_map_split by simp
  show "hget (hdel h (key v)) k = Some q \<longleftrightarrow> (\<exists>w. (q, w) \<in> set (xs @ ys) \<and> key w = k)" for k q
  proof (cases "k = key v")
    case True
    then have "\<not> (\<exists>w. (q, w) \<in> set (xs @ ys) \<and> key w = k)" using n by force
    with True assms(1) show ?thesis by (simp add: hget_del)
  next
    case False
    then show ?thesis using assms by (auto simp: indexes_def hget_del)
  qed
qed

end

section \<open>hash.c keeps the contract\<close>

definition hash_ok :: "'v HASH \<Rightarrow> bool" where
  "hash_ok h \<longleftrightarrow> buckets h \<noteq> [] \<and>
     (\<forall>i < length (buckets h). distinct (map fst (buckets h ! i)) \<and>
        (\<forall>k \<in> fst ` set (buckets h ! i). hash_index h k = i))"

lemma hash_getpair_None: "hash_getpair b k = None \<longleftrightarrow> k \<notin> fst ` set b"
  by (induction b) (auto simp: memcmp_eq_0_iff)

lemma hash_getpair_Some:
  "hash_getpair b k = Some i \<Longrightarrow> \<exists>xs w ys. b = xs @ (k, w) # ys \<and> length xs = i"
proof (induction b arbitrary: i)
  case (Cons a b)
  show ?case
  proof (cases "fst a = k")
    case True
    with Cons.prems show ?thesis by (cases a) (auto simp: memcmp_eq_0_iff)
  next
    case False
    with Cons.prems obtain j where "hash_getpair b k = Some j" "i = Suc j"
      by (auto simp: memcmp_eq_0_iff split: if_splits)
    with Cons.IH [of j] show ?thesis by (metis append_Cons length_Cons)
  qed
qed simp

lemma hash_get_map_of:
  "hash_get h k = map_of (buckets h ! hash_index h k) k"
proof -
  have "(case hash_getpair b k of None \<Rightarrow> None | Some i \<Rightarrow> Some (snd (b ! i))) = map_of b k"
    for b :: "'a BUCKET"
    by (induction b) (auto simp: memcmp_eq_0_iff split: option.splits)
  then show ?thesis by (simp add: hash_get_def Let_def)
qed

lemma hash_index_less: "hash_ok h \<Longrightarrow> hash_index h k < length (buckets h)"
  by (simp add: hash_ok_def hash_index_def)

text \<open>Replacing the bucket of a key by one that maps the key as wanted and the rest as before.\<close>

lemma hash_get_upd:
  assumes "hash_ok h" and "map_of b = (map_of (buckets h ! hash_index h k))(k := z)"
  shows "hash_get (h\<lparr>buckets := (buckets h)[hash_index h k := b]\<rparr>) = (hash_get h)(k := z)"
proof
  fix k'
  have "hash_index (h\<lparr>buckets := (buckets h)[hash_index h k := b]\<rparr>) k' = hash_index h k'"
    by (simp add: hash_index_def)
  then show "hash_get (h\<lparr>buckets := (buckets h)[hash_index h k := b]\<rparr>) k' = ((hash_get h)(k := z)) k'"
    using assms hash_index_less [OF assms(1), of k]
    by (cases "hash_index h k' = hash_index h k") (auto simp: hash_get_map_of)
qed

lemma hash_home:
  "hash_ok h \<Longrightarrow> k' \<in> fst ` set (buckets h ! hash_index h k) \<Longrightarrow> hash_index h k' = hash_index h k"
  using hash_index_less [of h k] unfolding hash_ok_def by metis

lemma hash_ok_upd:
  assumes "hash_ok h" and "distinct (map fst b)"
    and "fst ` set b \<subseteq> insert k (fst ` set (buckets h ! hash_index h k))"
  shows "hash_ok (h\<lparr>buckets := (buckets h)[hash_index h k := b]\<rparr>)"
  unfolding hash_ok_def
proof (intro conjI allI impI)
  let ?h = "h\<lparr>buckets := (buckets h)[hash_index h k := b]\<rparr>"
  show "buckets ?h \<noteq> []" using assms(1) by (simp add: hash_ok_def)
  fix i assume "i < length (buckets ?h)"
  then have i: "i < length (buckets h)" by simp
  note * = assms(1) [unfolded hash_ok_def, THEN conjunct2, rule_format, OF i]
  have same: "hash_index ?h k' = hash_index h k'" for k' by (simp add: hash_index_def)
  have home: "\<forall>k' \<in> fst ` set b. hash_index h k' = hash_index h k"
    using assms(3) hash_home [OF assms(1), of _ k] by blast
  show "distinct (map fst (buckets ?h ! i))"
    using * assms(2) i by (cases "i = hash_index h k") simp_all
  show "\<forall>k' \<in> fst ` set (buckets ?h ! i). hash_index ?h k' = i"
    unfolding same using * home i by (cases "i = hash_index h k") simp_all
qed

lemma hash_bucket_distinct: "hash_ok h \<Longrightarrow> distinct (map fst (buckets h ! hash_index h k))"
  using hash_index_less [of h k] by (simp add: hash_ok_def)

lemma hash_put_upd:
  assumes "hash_ok h" and "hash_put h k (Some v) = (h', True)"
  obtains b where "h' = h\<lparr>buckets := (buckets h)[hash_index h k := b]\<rparr>"
    and "map_of b = (map_of (buckets h ! hash_index h k))(k \<mapsto> v)"
    and "distinct (map fst b)" and "fst ` set b \<subseteq> insert k (fst ` set (buckets h ! hash_index h k))"
proof (cases "hash_getpair (buckets h ! hash_index h k) k")
  case None
  let ?b = "buckets h ! hash_index h k"
  from None have "k \<notin> fst ` set ?b" by (simp add: hash_getpair_None)
  moreover have "h' = h\<lparr>buckets := (buckets h)[hash_index h k := ?b @ [(k, v)]]\<rparr>"
    using assms(2) None by (auto simp: hash_put_def Let_def split: if_splits)
  ultimately show thesis
    using hash_bucket_distinct [OF assms(1), of k] map_of_mid [of k ?b v "[]"]
    by (intro that [of "?b @ [(k, v)]"]) auto
next
  case (Some i)
  from hash_getpair_Some [OF Some] obtain xs w ys where
    b: "buckets h ! hash_index h k = xs @ (k, w) # ys" "length xs = i" by blast
  then have d: "distinct (map fst (xs @ (k, w) # ys))"
    using hash_bucket_distinct [OF assms(1), of k] by simp
  have "h' = h\<lparr>buckets := (buckets h)[hash_index h k := xs @ (k, v) # ys]\<rparr>"
    using assms(2) Some b by (auto simp: hash_put_def Let_def)
  moreover have "map_of (xs @ (k, v) # ys) = (map_of (xs @ (k, w) # ys))(k \<mapsto> v)"
    using d by (subst (1 2) map_of_mid) auto
  ultimately show thesis
    using d by (intro that [of "xs @ (k, v) # ys"]) (auto simp: b)
qed

lemma hash_del_upd:
  assumes "hash_ok h" and "hash_get h k \<noteq> None"
  obtains b where "hash_del h k = h\<lparr>buckets := (buckets h)[hash_index h k := b]\<rparr>"
    and "map_of b = (map_of (buckets h ! hash_index h k))(k := None)"
    and "distinct (map fst b)" and "fst ` set b \<subseteq> fst ` set (buckets h ! hash_index h k)"
proof -
  let ?b = "buckets h ! hash_index h k"
  from assms(2) obtain i where Some: "hash_getpair ?b k = Some i"
    by (auto simp: hash_get_def Let_def split: option.splits)
  from hash_getpair_Some [OF Some] obtain xs w ys where
    b: "?b = xs @ (k, w) # ys" "length xs = i" by blast
  then have d: "distinct (map fst (xs @ (k, w) # ys))"
    using hash_bucket_distinct [OF assms(1), of k] by simp
  have "hash_del h k = h\<lparr>buckets := (buckets h)[hash_index h k := xs @ ys]\<rparr>"
    using Some b by (auto simp: hash_del_def hash_copy_def Let_def)
  moreover have "map_of (xs @ ys) = (map_of (xs @ (k, w) # ys))(k := None)"
    using d by (intro map_of_mid_del) auto
  ultimately show thesis
    using d by (intro that [of "xs @ ys"]) (auto simp: b)
qed

lemma hash_ok_init: "0 < n \<Longrightarrow> hash_ok (hash_init n)"
  by (simp add: hash_ok_def hash_init_def)

lemma hash_get_init: "0 < n \<Longrightarrow> hash_get (hash_init n) k = None"
  by (simp add: hash_get_map_of hash_init_def hash_index_def)

lemma hash_dom:
  assumes "hash_ok h"
  shows "finite (dom (hash_get h))"
    and "length (buckets h ! hash_index h k) \<le> card (dom (hash_get h))"
proof -
  let ?A = "\<Union>i < length (buckets h). fst ` set (buckets h ! i)"
  have "dom (hash_get h) \<subseteq> ?A"
  proof
    fix x assume "x \<in> dom (hash_get h)"
    then have "x \<in> fst ` set (buckets h ! hash_index h x)"
      by (force simp: hash_get_map_of dest: map_of_SomeD)
    with hash_index_less [OF assms, of x] show "x \<in> ?A" by blast
  qed
  then show fin: "finite (dom (hash_get h))" by (rule finite_subset) simp
  have "fst ` set (buckets h ! hash_index h k) \<subseteq> dom (hash_get h)"
  proof
    fix x assume x: "x \<in> fst ` set (buckets h ! hash_index h k)"
    with hash_home [OF assms x] show "x \<in> dom (hash_get h)"
      by (simp add: hash_get_map_of domIff map_of_eq_None_iff)
  qed
  then have "card (set (map fst (buckets h ! hash_index h k))) \<le> card (dom (hash_get h))"
    using fin by (intro card_mono) auto
  then show "length (buckets h ! hash_index h k) \<le> card (dom (hash_get h))"
    using distinct_card [OF hash_bucket_distinct [OF assms, of k]] by simp
qed

lemma hash_put_room:
  "hash_ok h \<Longrightarrow> int (card (dom (hash_get h))) < LONG_MAX \<Longrightarrow> snd (hash_put h k (Some v))"
  using hash_dom(2) [of h k] by (auto simp: hash_put_def Let_def split: option.splits)

lemma hash_put_get:
  assumes "hash_ok h" and "snd (hash_put h k (Some v))"
  shows "hash_get (fst (hash_put h k (Some v))) = (hash_get h)(k \<mapsto> v)"
    and "hash_ok (fst (hash_put h k (Some v)))"
proof -
  from assms(2) have *: "hash_put h k (Some v) = (fst (hash_put h k (Some v)), True)"
    by (cases "hash_put h k (Some v)") simp
  obtain b where "fst (hash_put h k (Some v)) = h\<lparr>buckets := (buckets h)[hash_index h k := b]\<rparr>"
    and "map_of b = (map_of (buckets h ! hash_index h k))(k \<mapsto> v)"
    and "distinct (map fst b)" and "fst ` set b \<subseteq> insert k (fst ` set (buckets h ! hash_index h k))"
    by (rule hash_put_upd [OF assms(1) *])
  with assms(1) show "hash_get (fst (hash_put h k (Some v))) = (hash_get h)(k \<mapsto> v)"
    and "hash_ok (fst (hash_put h k (Some v)))"
    by (simp_all add: hash_get_upd hash_ok_upd)
qed

lemma hash_put_full:
  "\<not> snd (hash_put h k v) \<Longrightarrow> fst (hash_put h k v) = h"
  by (auto simp: hash_put_def Let_def split: option.splits if_splits)

lemma hash_del_none: "hash_get h k = None \<Longrightarrow> hash_del h k = h"
  by (auto simp: hash_get_def hash_del_def Let_def split: option.splits)

lemma hash_del_get:
  assumes "hash_ok h"
  shows "hash_get (hash_del h k) = (hash_get h)(k := None)" and "hash_ok (hash_del h k)"
proof -
  show "hash_get (hash_del h k) = (hash_get h)(k := None)"
  proof (cases "hash_get h k = None")
    case True
    then show ?thesis by (simp add: hash_del_none fun_upd_idem)
  next
    case False
    then show ?thesis by (rule hash_del_upd [OF assms]) (simp add: hash_get_upd [OF assms])
  qed
  show "hash_ok (hash_del h k)"
  proof (cases "hash_get h k = None")
    case True
    then show ?thesis using assms by (simp add: hash_del_none)
  next
    case False
    then show ?thesis by (rule hash_del_upd [OF assms]) (auto intro!: hash_ok_upd [OF assms])
  qed
qed

text \<open>The capacities the program creates its tables with are positive; the laws hold for each.\<close>

lemma hash_map_laws:
  assumes "0 < n"
  shows "hash_map (hash_init n) hash_get hash_put hash_del hash_ok"
proof unfold_locales
  show "hash_ok (hash_init n)" "hash_get (hash_init n) k = None" for k
    using assms by (simp_all add: hash_ok_init hash_get_init)
  show "hash_put h k None = (h, False)" for h k by (simp add: hash_put_def)
  show "hash_ok (fst (hash_put h k (Some v)))" if "hash_ok h" for h k v
    using that hash_put_get(2) [OF that] hash_put_full [of h k "Some v"] by metis
qed (simp_all add: hash_dom(1) hash_put_room hash_put_get(1) hash_put_full hash_del_get)

interpretation hm1000: hash_map "hash_init 1000" hash_get hash_put hash_del hash_ok
  by (rule hash_map_laws) simp

section \<open>Runs\<close>

datatype 'v hash_op = HPut bytes "'v option" | HDel bytes

fun hash_do :: "'v hash_op \<Rightarrow> 'v HASH \<Rightarrow> 'v HASH" where
  "hash_do (HPut k v) h = fst (hash_put h k v)"
| "hash_do (HDel k) h = hash_del h k"

fun map_do :: "'v hash_op \<Rightarrow> (bytes \<rightharpoonup> 'v) \<Rightarrow> (bytes \<rightharpoonup> 'v)" where
  "map_do (HPut k v) m = (case v of None \<Rightarrow> m | Some x \<Rightarrow> m(k \<mapsto> x))"
| "map_do (HDel k) m = m(k := None)"

lemma hash_do_refines:
  assumes "hash_ok h" and "int (card (dom (hash_get h))) < LONG_MAX"
  shows "hash_ok (hash_do op h) \<and> hash_get (hash_do op h) = map_do op (hash_get h) \<and>
    card (dom (hash_get (hash_do op h))) \<le> Suc (card (dom (hash_get h)))"
proof (cases op)
  case (HPut k v)
  with assms show ?thesis
    by (cases v) (auto simp: hm1000.hput_null hash_put_get hash_put_room hash_dom(1) card_insert_if)
next
  case (HDel k)
  with assms show ?thesis
    by (auto simp: hash_del_get hash_dom(1) card_Diff_insert intro: le_SucI card_Diff1_le)
qed

lemma hash_run_refines:
  "hash_ok h \<Longrightarrow> int (card (dom (hash_get h)) + length ops) < LONG_MAX \<Longrightarrow>
   hash_ok (fold hash_do ops h) \<and> hash_get (fold hash_do ops h) = fold map_do ops (hash_get h)"
proof (induction ops arbitrary: h)
  case (Cons op ops)
  have "int (card (dom (hash_get h))) < LONG_MAX" using Cons.prems(2) by simp
  note step = hash_do_refines [OF Cons.prems(1) this, of op]
  have "int (card (dom (hash_get (hash_do op h))) + length ops) < LONG_MAX"
    using Cons.prems(2) step [THEN conjunct2, THEN conjunct2] by simp
  with Cons.IH [of "hash_do op h"] step show ?case by simp
qed simp

text \<open>The id drawn is new unless all draws failed, and it has the size asked for.\<close>

lemma create_loop_fresh:
  assumes "\<exists>j \<le> n. hash_get h (r_urandom g (r_j g + j) k) = None"
  shows "hash_get h (fst (create_loop k h n g)) = None"
  using assms
proof (induction n arbitrary: g)
  case 0
  then show ?case by (simp add: rand_urandom_def)
next
  case (Suc n)
  let ?g = "g\<lparr>r_j := Suc (r_j g)\<rparr>"
  show ?case
  proof (cases "hash_get h (r_urandom g (r_j g) k)")
    case None
    then show ?thesis by (simp add: rand_urandom_def hash_exists_def)
  next
    case (Some q)
    with Suc.prems obtain j where j: "j \<le> Suc n" "hash_get h (r_urandom g (r_j g + j) k) = None"
      by blast
    with Some have "0 < j" by (cases j) auto
    with j have "\<exists>j \<le> n. hash_get h (r_urandom ?g (r_j ?g + j) k) = None"
      by (intro exI [of _ "j - 1"]) auto
    from Suc.IH [OF this] Some show ?thesis by (simp add: rand_urandom_def hash_exists_def)
  qed
qed

lemma create_loop_length: "rng_ok g \<Longrightarrow> length (fst (create_loop k h n g)) = k \<and>
   rng_ok (snd (create_loop k h n g))"
proof (induction n arbitrary: g)
  case (Suc n)
  have "rng_ok (snd (rand_urandom g k))" using Suc.prems by simp
  from Suc.IH [OF this] Suc.prems show ?case
    by (auto simp: rand_urandom_def rng_ok_def split: prod.splits)
qed (simp add: rand_urandom_def rng_ok_def)

text \<open>
  C17: The hash table is a finite map.  After any sequence of hash_put and hash_del calls on a new table of any positive capacity,
  hash_get returns for every key what the map built by the same updates holds: the last value
  put under a key with the same length and bytes that was not deleted since; a put of a null pointer changes nothing.
\<close>

theorem hash_is_map:
  assumes "0 < capacity" and "int (length ops) < LONG_MAX"
  shows "hash_get (fold hash_do ops (hash_init capacity)) = fold map_do ops Map.empty"
proof -
  have e: "hash_get (hash_init capacity :: 'a HASH) = Map.empty"
    using assms(1) by (auto simp: hash_get_init)
  with hash_run_refines [OF hash_ok_init [OF assms(1)], of ops] assms(2) show ?thesis by simp
qed

theorem hash_is_map_witness:
  "hash_get (fold hash_do [HPut [1, 2] (Some 3), HPut [1] (Some 4), HDel [1, 2], HPut [1] None] (hash_init 2))
     = [[1 :: UCHAR] \<mapsto> (4 :: nat)]"
  by (subst hash_is_map) (simp_all add: fun_eq_iff)

end
