(* ===== verification/Neighbourhood.thy ===== *)
theory Neighbourhood
  imports Bucket Hash
begin

text \<open>
  The neighbourhood of \<^verbatim>\<open>src/src/p2p/neighbourhood.c\<close>: the routing table, a hash table for fast access to
  its nodes, and the memory the nodes live in.  The invariant ties the three together: every node in
  memory is in exactly one bucket and is found under its identifier, so nothing leaks and
  nothing dangles.
\<close>

section \<open>State and operations\<close>

record NBHD =
  nb_bucket :: "BUCK list"
  nb_hash :: "ptr HASH"
  nb_mem :: node_mem
  nb_brk :: ptr

definition nbhd_init :: NBHD where
  "nbhd_init = \<lparr>nb_bucket = bckt_init, nb_hash = hash_init 4096, nb_mem = Map.empty, nb_brk = 0\<rparr>"

definition nbhd_put :: "ipver \<Rightarrow> bytes \<Rightarrow> NBHD \<Rightarrow> bytes \<Rightarrow> IP \<Rightarrow> NBHD option" where
  "nbhd_put v my_id nb i sa =
     (if node_me my_id i then Some nb
      else if ip_is_localhost v sa then Some nb
      else case hash_get (nb_hash nb) i of
        Some p \<Rightarrow> do {
          n \<leftarrow> nb_mem nb p;
          Some (nb\<lparr>nb_mem := (nb_mem nb)(p \<mapsto> node_update n sa)\<rparr>)
        }
      | None \<Rightarrow> do {
          let p = nb_brk nb;
          let n = node_init i sa;
          let mem = (nb_mem nb)(p \<mapsto> n);
          (bs, ok) \<leftarrow> bckt_put mem (nb_bucket nb) (Some p);
          if \<not> ok then Some (nb\<lparr>nb_bucket := bs, nb_mem := mem(p := None), nb_brk := Suc p\<rparr>)
          else Some \<lparr>nb_bucket = bs, nb_hash = fst (hash_put (nb_hash nb) (n_id n) (Some p)),
                     nb_mem = mem, nb_brk = Suc p\<rparr>
        })"

definition nbhd_del :: "NBHD \<Rightarrow> ptr \<Rightarrow> NBHD option" where
  "nbhd_del nb p = do {
     n \<leftarrow> nb_mem nb p;
     bs \<leftarrow> bckt_del (nb_mem nb) (nb_bucket nb) (Some p);
     Some (nb\<lparr>nb_bucket := bs, nb_hash := hash_del (nb_hash nb) (n_id n), nb_mem := (nb_mem nb)(p := None)\<rparr>)
   }"

definition nbhd_pinged :: "NBHD \<Rightarrow> bytes \<Rightarrow> time_t \<Rightarrow> rng \<Rightarrow> (NBHD \<times> rng) option" where
  "nbhd_pinged nb i now g =
     (case hash_get (nb_hash nb) i of None \<Rightarrow> Some (nb, g)
      | Some p \<Rightarrow> do {
          n \<leftarrow> nb_mem nb p;
          let (n', g') = node_pinged n now g;
          Some (nb\<lparr>nb_mem := (nb_mem nb)(p \<mapsto> n')\<rparr>, g')
        })"

definition nbhd_ponged :: "NBHD \<Rightarrow> bytes \<Rightarrow> IP \<Rightarrow> time_t \<Rightarrow> rng \<Rightarrow> (NBHD \<times> rng) option" where
  "nbhd_ponged nb i from now g =
     (case hash_get (nb_hash nb) i of None \<Rightarrow> Some (nb, g)
      | Some p \<Rightarrow> do {
          n \<leftarrow> nb_mem nb p;
          let (n', g') = node_ponged n from now g;
          Some (nb\<lparr>nb_mem := (nb_mem nb)(p \<mapsto> n')\<rparr>, g')
        })"

text \<open>
  The two loops of \<open>nbhd_expire\<close>.  The successor of an item is read before its node may be deleted, and the deletion
  removes that item only, so the inner loop visits the nodes the bucket had at its start.
\<close>

fun expire_nodes :: "NBHD \<Rightarrow> ptr list \<Rightarrow> NBHD option" where
  "expire_nodes nb [] = Some nb"
| "expire_nodes nb (p # ps) = do {
     n \<leftarrow> nb_mem nb p;
     nb' \<leftarrow> (if node_bad n then nbhd_del nb p else Some nb);
     expire_nodes nb' ps
   }"

fun expire_buckets :: "NBHD \<Rightarrow> nat list \<Rightarrow> NBHD option" where
  "expire_buckets nb [] = Some nb"
| "expire_buckets nb (k # ks) = do {
     nb' \<leftarrow> expire_nodes nb (b_nodes (nb_bucket nb ! k));
     expire_buckets nb' ks
   }"

definition nbhd_expire :: "NBHD \<Rightarrow> NBHD option" where
  "nbhd_expire nb = expire_buckets nb [0..<length (nb_bucket nb)]"

definition nbhd_split :: "NBHD \<Rightarrow> bytes \<Rightarrow> NBHD option" where
  "nbhd_split nb target = do {
     bs \<leftarrow> bckt_split_loop (nb_mem nb) (nb_bucket nb) target;
     Some (nb\<lparr>nb_bucket := bs\<rparr>)
   }"

definition nbhd_is_empty :: "NBHD \<Rightarrow> bool" where
  "nbhd_is_empty nb = bckt_is_empty (nb_bucket nb)"

section \<open>The invariant\<close>

definition nbhd_ok :: "NBHD \<Rightarrow> bool" where
  "nbhd_ok nb \<longleftrightarrow> buckets_ok (nb_mem nb) (nb_bucket nb) \<and> hash_ok (nb_hash nb) \<and>
     dom (nb_mem nb) = set (all_nodes (nb_bucket nb)) \<and> (\<forall>p \<in> dom (nb_mem nb). p < nb_brk nb) \<and>
     (\<forall>k p. hash_get (nb_hash nb) k = Some p \<longleftrightarrow> (\<exists>n. nb_mem nb p = Some n \<and> n_id n = k))"

interpretation nh: hash_map "hash_init 4096" hash_get hash_put hash_del hash_ok
  by (rule hash_map_laws) simp

lemma nbhd_okD:
  assumes "nbhd_ok nb"
  shows "buckets_ok (nb_mem nb) (nb_bucket nb)" "hash_ok (nb_hash nb)"
    "dom (nb_mem nb) = set (all_nodes (nb_bucket nb))" "\<And>p n. nb_mem nb p = Some n \<Longrightarrow> p < nb_brk nb"
    "\<And>k p. hash_get (nb_hash nb) k = Some p \<longleftrightarrow> (\<exists>n. nb_mem nb p = Some n \<and> n_id n = k)"
  using assms by (auto simp: nbhd_ok_def)

lemma nbhd_okI:
  assumes "buckets_ok (nb_mem nb) (nb_bucket nb)" "hash_ok (nb_hash nb)"
    "dom (nb_mem nb) = set (all_nodes (nb_bucket nb))" "\<And>p n. nb_mem nb p = Some n \<Longrightarrow> p < nb_brk nb"
    "\<And>k p. hash_get (nb_hash nb) k = Some p \<longleftrightarrow> (\<exists>n. nb_mem nb p = Some n \<and> n_id n = k)"
  shows "nbhd_ok nb"
  using assms by (auto simp: nbhd_ok_def)

lemma nbhd_ok_init: "nbhd_ok nbhd_init"
  by (simp add: nbhd_ok_def nbhd_init_def buckets_ok_init nh.hinv_init nh.hget_init)
    (simp add: bckt_init_def)

text \<open>The routing table only depends on the identifiers of the nodes.\<close>

lemma buckets_ok_cong:
  assumes "buckets_ok mem bs"
    and "\<And>p. p \<in> set (all_nodes bs) \<Longrightarrow> nid mem' p = nid mem p \<and> mem' p \<noteq> None"
  shows "buckets_ok mem' bs"
proof -
  have sub: "p \<in> set (all_nodes bs)" if "b \<in> set bs" "p \<in> set (b_nodes b)" for b p
    using that by (auto simp: all_nodes_def)
  have "placed mem' bs"
  proof -
    have "sorted_wrt (\<lambda>a b. \<forall>p \<in> set (b_nodes a). be (nid mem' p) < be (b_id b)) bs"
      using buckets_okD(2) [OF assms(1)] assms(2) sub
      unfolding placed_def by (auto elim!: sorted_wrt_mono_rel [rotated])
    then show ?thesis using buckets_okD(2) [OF assms(1)] assms(2) sub by (auto simp: placed_def)
  qed
  moreover have "nodes_ok mem' bs"
  proof -
    note nk = buckets_okD(3) [OF assms(1), unfolded nodes_ok_def]
    have "inj_on (nid mem') (set (all_nodes bs))"
      using nk assms(2) by (auto simp: inj_on_def)
    moreover have "\<exists>n. mem' p = Some n \<and> length (n_id n) = SHA1_SIZE" if p: "p \<in> set (all_nodes bs)" for p
    proof -
      obtain n where "mem p = Some n" "length (n_id n) = SHA1_SIZE" using nk p by blast
      with assms(2) [OF p] show ?thesis by (auto simp: nid_def)
    qed
    ultimately show ?thesis using nk by (simp add: nodes_ok_def)
  qed
  ultimately show ?thesis using buckets_okD(1) [OF assms(1)] by (simp add: buckets_ok_def)
qed

lemma nbhd_ok_update:
  assumes ok: "nbhd_ok nb" and p: "nb_mem nb p = Some n" and "n_id n' = n_id n"
  shows "nbhd_ok (nb\<lparr>nb_mem := (nb_mem nb)(p \<mapsto> n')\<rparr>)"
proof -
  have "buckets_ok ((nb_mem nb)(p \<mapsto> n')) (nb_bucket nb)"
    by (rule buckets_ok_cong [OF nbhd_okD(1) [OF ok]])
      (use nbhd_okD(3) [OF ok] p assms(3) in \<open>auto simp: nid_def\<close>)
  then show ?thesis
    using ok p assms(3) by (auto simp: nbhd_ok_def)
qed

lemma node_length: "nbhd_ok nb \<Longrightarrow> nb_mem nb p = Some n \<Longrightarrow> length (n_id n) = SHA1_SIZE"
  using buckets_okD(3) [OF nbhd_okD(1)] nbhd_okD(3) [of nb] by (force simp: nodes_ok_def)

section \<open>Every operation keeps it\<close>

lemma nbhd_pinged_ok:
  assumes "nbhd_ok nb"
  shows "\<exists>nb' g'. nbhd_pinged nb i now g = Some (nb', g') \<and> nbhd_ok nb' \<and>
    nb_bucket nb' = nb_bucket nb \<and> dom (nb_mem nb') = dom (nb_mem nb)"
proof (cases "hash_get (nb_hash nb) i")
  case None
  then show ?thesis using assms by (simp add: nbhd_pinged_def)
next
  case (Some p)
  then obtain n where n: "nb_mem nb p = Some n" using nbhd_okD(5) [OF assms] by blast
  from nbhd_ok_update [OF assms n, of "fst (node_pinged n now g)"] n Some show ?thesis
    by (auto simp: nbhd_pinged_def case_prod_beta)
qed

lemma nbhd_ponged_ok:
  assumes "nbhd_ok nb"
  shows "\<exists>nb' g'. nbhd_ponged nb i from now g = Some (nb', g') \<and> nbhd_ok nb' \<and>
    nb_bucket nb' = nb_bucket nb \<and> dom (nb_mem nb') = dom (nb_mem nb)"
proof (cases "hash_get (nb_hash nb) i")
  case None
  then show ?thesis using assms by (simp add: nbhd_ponged_def)
next
  case (Some p)
  then obtain n where n: "nb_mem nb p = Some n" using nbhd_okD(5) [OF assms] by blast
  from nbhd_ok_update [OF assms n, of "fst (node_ponged n from now g)"] n Some show ?thesis
    by (auto simp: nbhd_ponged_def case_prod_beta)
qed

lemma nbhd_split_ok:
  assumes "nbhd_ok nb" and "length target = SHA1_SIZE"
  shows "\<exists>nb'. nbhd_split nb target = Some nb' \<and> nbhd_ok nb' \<and> nb_mem nb' = nb_mem nb"
proof -
  from bckt_split_loop_ok [OF nbhd_okD(1) [OF assms(1)] assms(2)] obtain bs' where
    "bckt_split_loop (nb_mem nb) (nb_bucket nb) target = Some bs'" "buckets_ok (nb_mem nb) bs'"
    "set (all_nodes bs') = set (all_nodes (nb_bucket nb))" by blast
  with assms(1) show ?thesis by (auto simp: nbhd_split_def nbhd_ok_def)
qed

lemma nbhd_del_ok:
  assumes ok: "nbhd_ok nb" and p: "nb_mem nb p = Some n"
  obtains xs b ys us vs where "nb_bucket nb = xs @ b # ys" "b_nodes b = us @ p # vs"
    "nbhd_del nb p = Some (nb\<lparr>nb_bucket := xs @ b\<lparr>b_nodes := us @ vs\<rparr> # ys,
       nb_hash := hash_del (nb_hash nb) (n_id n), nb_mem := (nb_mem nb)(p := None)\<rparr>)"
    "nbhd_ok (nb\<lparr>nb_bucket := xs @ b\<lparr>b_nodes := us @ vs\<rparr> # ys,
       nb_hash := hash_del (nb_hash nb) (n_id n), nb_mem := (nb_mem nb)(p := None)\<rparr>)"
proof -
  have "p \<in> set (all_nodes (nb_bucket nb))" using nbhd_okD(3) [OF ok] p by auto
  from bckt_del_ok [OF nbhd_okD(1) [OF ok] p node_length [OF ok p] this] obtain xs b ys us vs where
    s: "nb_bucket nb = xs @ b # ys" "b_nodes b = us @ p # vs"
    and d: "bckt_del (nb_mem nb) (nb_bucket nb) (Some p) = Some (xs @ b\<lparr>b_nodes := us @ vs\<rparr> # ys)"
    and o1: "buckets_ok (nb_mem nb) (xs @ b\<lparr>b_nodes := us @ vs\<rparr> # ys)" by blast
  let ?nb = "nb\<lparr>nb_bucket := xs @ b\<lparr>b_nodes := us @ vs\<rparr> # ys,
       nb_hash := hash_del (nb_hash nb) (n_id n), nb_mem := (nb_mem nb)(p := None)\<rparr>"
  have dist: "distinct (all_nodes (xs @ b # ys))"
    using buckets_okD(3) [OF nbhd_okD(1) [OF ok]] by (simp add: nodes_ok_def s(1))
  then have np: "p \<notin> set (all_nodes (xs @ b\<lparr>b_nodes := us @ vs\<rparr> # ys))" using s(2) by auto
  have inj: "q = p" if "nb_mem nb q = Some m" "n_id m = n_id n" for q m
    using nbhd_okD(5) [OF ok, of "n_id n" p] nbhd_okD(5) [OF ok, of "n_id n" q] p that by auto
  have "buckets_ok (nb_mem ?nb) (nb_bucket ?nb)"
    by (simp, rule buckets_ok_cong [OF o1])
      (use np nbhd_okD(3) [OF ok] s in \<open>auto simp: nid_def dom_def set_eq_iff\<close>)
  moreover have "dom (nb_mem ?nb) = set (all_nodes (nb_bucket ?nb))"
    using nbhd_okD(3) [OF ok] s np by auto
  moreover have "hash_get (nb_hash ?nb) k = Some q \<longleftrightarrow> (\<exists>n. nb_mem ?nb q = Some n \<and> n_id n = k)" for k q
  proof -
    have hd: "hash_get (nb_hash ?nb) k = (if k = n_id n then None else hash_get (nb_hash nb) k)"
      by (simp add: nh.hget_del [OF nbhd_okD(2) [OF ok]])
    show ?thesis
    proof (cases "k = n_id n")
      case True
      then show ?thesis unfolding hd using inj by auto
    next
      case False
      then show ?thesis unfolding hd using nbhd_okD(5) [OF ok, of k q] p by auto
    qed
  qed
  moreover have "q < nb_brk ?nb" if "nb_mem ?nb q = Some m" for q m
    using nbhd_okD(4) [OF ok, of q m] that by (simp split: if_splits)
  moreover have "hash_ok (nb_hash ?nb)" using nh.hinv_del [OF nbhd_okD(2) [OF ok]] by simp
  ultimately have "nbhd_ok ?nb" by (intro nbhd_okI)
  with that [OF s] d p show thesis by (simp add: nbhd_del_def)
qed

lemma nbhd_put_new:
  assumes ok: "nbhd_ok nb" and i: "length i = SHA1_SIZE" and new: "hash_get (nb_hash nb) i = None"
    and guard: "\<not> node_me my_id i" "\<not> ip_is_localhost v sa" and room: "int (card (dom (nb_mem nb))) < LONG_MAX"
  shows "\<exists>nb'. nbhd_put v my_id nb i sa = Some nb' \<and> nbhd_ok nb' \<and>
    (nb_mem nb' = nb_mem nb \<or> nb_mem nb' = (nb_mem nb)(nb_brk nb \<mapsto> node_init i sa))"
proof -
  let ?p = "nb_brk nb" and ?n = "node_init i sa"
  let ?mem = "(nb_mem nb)(?p \<mapsto> ?n)"
  have fr: "nb_mem nb ?p = None" using nbhd_okD(4) [OF ok, of ?p] by (cases "nb_mem nb ?p") auto
  then have fr': "?p \<notin> set (all_nodes (nb_bucket nb))"
    unfolding nbhd_okD(3) [OF ok, symmetric] by (simp add: domIff)
  have ok1: "buckets_ok ?mem (nb_bucket nb)"
    by (rule buckets_ok_cong [OF nbhd_okD(1) [OF ok]])
      (use fr' nbhd_okD(3) [OF ok] in \<open>auto simp: nid_def dom_def set_eq_iff\<close>)
  have m: "?mem ?p = Some ?n" "length (n_id ?n) = SHA1_SIZE" using i by simp_all
  have put: "nbhd_put v my_id nb i sa = do {
      (bs, ok) \<leftarrow> bckt_put ?mem (nb_bucket nb) (Some ?p);
      if \<not> ok then Some (nb\<lparr>nb_bucket := bs, nb_mem := ?mem(?p := None), nb_brk := Suc ?p\<rparr>)
      else Some \<lparr>nb_bucket = bs, nb_hash = fst (hash_put (nb_hash nb) (n_id ?n) (Some ?p)), nb_mem = ?mem, nb_brk = Suc ?p\<rparr>}"
    using guard new by (simp add: nbhd_put_def Let_def)
  have same: "(nb_mem nb)(?p := None) = nb_mem nb" using fr by (simp add: fun_upd_idem)
  have keep: "nbhd_ok (nb\<lparr>nb_bucket := nb_bucket nb, nb_mem := ?mem(?p := None), nb_brk := Suc ?p\<rparr>)"
    using ok same by (auto simp: nbhd_ok_def less_SucI)
  have refused: ?thesis if "bckt_put ?mem (nb_bucket nb) (Some ?p) = Some (nb_bucket nb, False)"
    unfolding put that using keep same by simp
  show ?thesis
  proof (rule bckt_put_ok [OF ok1 m fr'])
    fix bs'
    assume b: "bckt_put ?mem (nb_bucket nb) (Some ?p) = Some (bs', True)" "buckets_ok ?mem bs'"
      and al: "set (all_nodes bs') = insert ?p (set (all_nodes (nb_bucket nb)))"
    have "dom (hash_get (nb_hash nb)) \<subseteq> (\<lambda>p. nid (nb_mem nb) p) ` dom (nb_mem nb)"
      using nbhd_okD(5) [OF ok] by (force simp: nid_def)
    moreover have fin: "finite (dom (nb_mem nb))" using nbhd_okD(3) [OF ok] by simp
    ultimately have "card (dom (hash_get (nb_hash nb))) \<le> card (dom (nb_mem nb))"
      by (meson card_image_le card_mono finite_imageI order_trans)
    then have "snd (hash_put (nb_hash nb) i (Some ?p))"
      using room by (intro nh.hput_room [OF nbhd_okD(2) [OF ok]]) linarith
    note hg = nh.hget_put [OF nbhd_okD(2) [OF ok] this]
    let ?nb = "\<lparr>nb_bucket = bs', nb_hash = fst (hash_put (nb_hash nb) i (Some ?p)), nb_mem = ?mem, nb_brk = Suc ?p\<rparr>"
    have "hash_get (nb_hash ?nb) k = Some q \<longleftrightarrow> (\<exists>n. nb_mem ?nb q = Some n \<and> n_id n = k)" for k q
      using hg nbhd_okD(5) [OF ok, of k q] new fr i by (cases "k = i"; cases "q = ?p") auto
    moreover have "dom (nb_mem ?nb) = set (all_nodes (nb_bucket ?nb))"
      using al nbhd_okD(3) [OF ok] by simp
    moreover have "q < nb_brk ?nb" if "nb_mem ?nb q = Some m" for q m
      using nbhd_okD(4) [OF ok, of q m] that by (auto simp: less_SucI split: if_splits)
    moreover have "hash_ok (nb_hash ?nb)" using nh.hinv_put [OF nbhd_okD(2) [OF ok]] by simp
    moreover have "buckets_ok (nb_mem ?nb) (nb_bucket ?nb)" using b(2) by simp
    ultimately have "nbhd_ok ?nb" by (intro nbhd_okI)
    then show ?thesis using put b(1) i by simp
  qed (erule refused)+
qed

lemma nbhd_put_ok:
  assumes ok: "nbhd_ok nb" and i: "length i = SHA1_SIZE" and room: "int (card (dom (nb_mem nb))) < LONG_MAX"
  shows "\<exists>nb'. nbhd_put v my_id nb i sa = Some nb' \<and> nbhd_ok nb' \<and>
    card (dom (nb_mem nb')) \<le> Suc (card (dom (nb_mem nb))) \<and>
    (\<forall>p n. nb_mem nb' p = Some n \<longrightarrow>
       nb_mem nb p = Some n \<or> n_id n = i \<and> c_addr n = sa \<and> \<not> node_me my_id i \<and> \<not> ip_is_localhost v sa)"
proof -
  have fin: "finite (dom (nb_mem nb))" using nbhd_okD(3) [OF ok] by simp
  consider (guard) "node_me my_id i \<or> ip_is_localhost v sa"
    | (known) p where "\<not> node_me my_id i" "\<not> ip_is_localhost v sa" "hash_get (nb_hash nb) i = Some p"
    | (new) "\<not> node_me my_id i" "\<not> ip_is_localhost v sa" "hash_get (nb_hash nb) i = None" by fastforce
  then show ?thesis
  proof cases
    case guard
    then show ?thesis using ok by (auto simp: nbhd_put_def)
  next
    case known
    then obtain n where n: "nb_mem nb p = Some n" "n_id n = i" using nbhd_okD(5) [OF ok] by blast
    then have "nbhd_put v my_id nb i sa = Some (nb\<lparr>nb_mem := (nb_mem nb)(p \<mapsto> node_update n sa)\<rparr>)"
      using known by (simp add: nbhd_put_def)
    moreover have "nbhd_ok (nb\<lparr>nb_mem := (nb_mem nb)(p \<mapsto> node_update n sa)\<rparr>)"
      using n by (intro nbhd_ok_update [OF ok]) auto
    moreover have "insert p (dom (nb_mem nb)) = dom (nb_mem nb)" using n by auto
    ultimately show ?thesis using known n by auto
  next
    case new
    from nbhd_put_new [OF ok i new(3) new(1,2) room] fin new i show ?thesis
      by (auto simp: card_insert_if split: if_splits)
  qed
qed

section \<open>Expiry\<close>

definition keep :: "node_mem \<Rightarrow> ptr set \<Rightarrow> node_mem" where
  "keep mem A = (\<lambda>p. case mem p of None \<Rightarrow> None
     | Some n \<Rightarrow> if p \<in> A \<and> node_bad n then None else Some n)"

definition shrunk :: "NBHD \<Rightarrow> NBHD \<Rightarrow> bool" where
  "shrunk nb nb' \<longleftrightarrow> length (nb_bucket nb') = length (nb_bucket nb) \<and>
     (\<forall>j < length (nb_bucket nb). b_nodes (nb_bucket nb' ! j) =
        filter (\<lambda>p. nb_mem nb' p \<noteq> None) (b_nodes (nb_bucket nb ! j)))"

lemma keep_step: "keep (keep mem A) B = keep mem (A \<union> B)"
  by (rule ext) (auto simp: keep_def split: option.splits)

lemma keep_empty [simp]: "keep mem {} = mem"
  by (rule ext) (auto simp: keep_def split: option.splits)

lemma nodes_in_mem:
  "nbhd_ok nb \<Longrightarrow> j < length (nb_bucket nb) \<Longrightarrow> p \<in> set (b_nodes (nb_bucket nb ! j)) \<Longrightarrow> nb_mem nb p \<noteq> None"
  using nbhd_okD(3) [of nb] by (fastforce simp: all_nodes_def dom_def set_eq_iff)

lemma shrunk_refl: "nbhd_ok nb \<Longrightarrow> shrunk nb nb"
  using nodes_in_mem [of nb] by (auto simp: shrunk_def intro!: filter_True [symmetric])

lemma shrunk_trans:
  assumes "shrunk nb nb1" and "shrunk nb1 nb2" and "\<And>p. nb_mem nb1 p = None \<Longrightarrow> nb_mem nb2 p = None"
  shows "shrunk nb nb2"
proof -
  have "\<exists>y. nb_mem nb1 p = Some y" if "nb_mem nb2 p = Some z" for p z
    using assms(3) [of p] that by (cases "nb_mem nb1 p") auto
  with assms(1,2) show ?thesis unfolding shrunk_def by (auto intro!: filter_cong)
qed

lemma nbhd_del_shrunk:
  assumes ok: "nbhd_ok nb" and p: "nb_mem nb p = Some n"
  shows "\<exists>nb'. nbhd_del nb p = Some nb' \<and> nbhd_ok nb' \<and> nb_mem nb' = (nb_mem nb)(p := None) \<and> shrunk nb nb'"
proof (rule nbhd_del_ok [OF ok p])
  fix xs b ys us vs
  assume s: "nb_bucket nb = xs @ b # ys" "b_nodes b = us @ p # vs"
  let ?nb = "nb\<lparr>nb_bucket := xs @ b\<lparr>b_nodes := us @ vs\<rparr> # ys,
       nb_hash := hash_del (nb_hash nb) (n_id n), nb_mem := (nb_mem nb)(p := None)\<rparr>"
  assume d: "nbhd_del nb p = Some ?nb" and ok': "nbhd_ok ?nb"
  have inm: "nb_mem nb q \<noteq> None" if "q \<in> set (all_nodes (xs @ b # ys))" for q
    using nbhd_okD(3) [OF ok] that s by (auto simp: dom_def set_eq_iff)
  have dist: "distinct (all_nodes (xs @ b # ys))"
    using buckets_okD(3) [OF nbhd_okD(1) [OF ok]] by (simp add: nodes_ok_def s(1))
  have rest: "filter (\<lambda>q. nb_mem ?nb q \<noteq> None) ns = ns"
    if "set ns \<subseteq> set (all_nodes (xs @ b # ys)) - {p}" for ns
    using inm that by (intro filter_True) auto
  have "b_nodes (nb_bucket ?nb ! j) = filter (\<lambda>q. nb_mem ?nb q \<noteq> None) (b_nodes (nb_bucket nb ! j))"
    if j: "j < length (nb_bucket nb)" for j
  proof (cases "j = length xs")
    case True
    let ?Q = "\<lambda>q. nb_mem ?nb q \<noteq> None"
    have "filter ?Q (us @ p # vs) = filter ?Q us @ filter ?Q vs" by simp
    also have "filter ?Q us = us" by (rule rest) (use dist s(2) in auto)
    also have "filter ?Q vs = vs" by (rule rest) (use dist s(2) in auto)
    finally show ?thesis using True s by simp
  next
    case False
    then have same: "nb_bucket ?nb ! j = nb_bucket nb ! j" by (simp add: s nth_append nth_Cons')
    let ?a = "nb_bucket nb ! j"
    have "?a \<in> set xs \<union> set ys" using False j by (auto simp: s nth_append nth_Cons')
    then have "set (b_nodes ?a) \<subseteq> set (all_nodes (xs @ b # ys)) - {p}"
      using dist s(2) by (auto simp: all_nodes_def)
    from rest [OF this] same show ?thesis by simp
  qed
  then have "shrunk nb ?nb" by (simp add: shrunk_def s(1))
  with d ok' show ?thesis by auto
qed

lemma expire_nodes_ok:
  assumes "nbhd_ok nb" and "distinct ps" and "\<forall>p \<in> set ps. nb_mem nb p \<noteq> None"
  shows "\<exists>nb'. expire_nodes nb ps = Some nb' \<and> nbhd_ok nb' \<and> nb_mem nb' = keep (nb_mem nb) (set ps) \<and> shrunk nb nb'"
  using assms
proof (induction ps arbitrary: nb)
  case Nil
  then show ?case by (simp add: shrunk_refl)
next
  case (Cons p ps)
  then obtain n where n: "nb_mem nb p = Some n" by auto
  show ?case
  proof (cases "node_bad n")
    case False
    then have "keep (nb_mem nb) (set (p # ps)) = keep (nb_mem nb) (set ps)"
      using n by (auto simp: keep_def fun_eq_iff split: option.splits)
    with Cons.IH [of nb] Cons.prems n False show ?thesis by simp
  next
    case True
    from nbhd_del_shrunk [OF Cons.prems(1) n] obtain nb1 where
      n1: "nbhd_del nb p = Some nb1" "nbhd_ok nb1" "nb_mem nb1 = (nb_mem nb)(p := None)" "shrunk nb nb1" by blast
    have k: "keep (nb_mem nb) (set (p # ps)) = keep (nb_mem nb1) (set ps)"
      using n True by (auto simp: keep_def n1(3) fun_eq_iff split: option.splits)
    have "distinct ps" "\<forall>q \<in> set ps. nb_mem nb1 q \<noteq> None" using Cons.prems(2,3) by (auto simp: n1(3))
    from Cons.IH [OF n1(2) this] obtain nb2 where
      n2: "expire_nodes nb1 ps = Some nb2" "nbhd_ok nb2" "nb_mem nb2 = keep (nb_mem nb1) (set ps)" "shrunk nb1 nb2"
      by blast
    have "shrunk nb nb2" by (rule shrunk_trans [OF n1(4) n2(4)]) (simp add: n2(3) keep_def)
    with n1 n2 n True k show ?thesis by simp
  qed
qed

lemma expire_buckets_ok:
  assumes "nbhd_ok nb" and "distinct ks" and "\<forall>k \<in> set ks. k < length (nb_bucket nb)"
  shows "\<exists>nb'. expire_buckets nb ks = Some nb' \<and> nbhd_ok nb' \<and>
    nb_mem nb' = keep (nb_mem nb) (\<Union>k \<in> set ks. set (b_nodes (nb_bucket nb ! k)))"
  using assms
proof (induction ks arbitrary: nb)
  case (Cons k ks)
  let ?N = "\<lambda>nb k. set (b_nodes (nb_bucket nb ! k))"
  have d: "distinct (b_nodes (nb_bucket nb ! k))"
    using buckets_okD(3) [OF nbhd_okD(1) [OF Cons.prems(1)]] Cons.prems(3)
    by (auto simp: nodes_ok_def all_nodes_def distinct_concat_iff)
  from expire_nodes_ok [OF Cons.prems(1) d] nodes_in_mem [OF Cons.prems(1)] Cons.prems(3) obtain nb1 where
    n1: "expire_nodes nb (b_nodes (nb_bucket nb ! k)) = Some nb1" "nbhd_ok nb1"
      "nb_mem nb1 = keep (nb_mem nb) (?N nb k)" "shrunk nb nb1" by auto
  have "\<forall>j \<in> set ks. j < length (nb_bucket nb1)" using n1(4) Cons.prems(3) by (simp add: shrunk_def)
  with Cons.IH [OF n1(2)] Cons.prems(2) obtain nb2 where
    n2: "expire_buckets nb1 ks = Some nb2" "nbhd_ok nb2" "nb_mem nb2 = keep (nb_mem nb1) (\<Union>j \<in> set ks. ?N nb1 j)"
    by auto
  have "keep (nb_mem nb1) (\<Union>j \<in> set ks. ?N nb1 j) = keep (nb_mem nb1) (\<Union>j \<in> set ks. ?N nb j)"
  proof (rule ext)
    fix p
    have "p \<in> ?N nb1 j \<longleftrightarrow> p \<in> ?N nb j" if "nb_mem nb1 p \<noteq> None" "j \<in> set ks" for j
      using n1(4) Cons.prems(3) that by (auto simp: shrunk_def)
    then show "keep (nb_mem nb1) (\<Union>j \<in> set ks. ?N nb1 j) p = keep (nb_mem nb1) (\<Union>j \<in> set ks. ?N nb j) p"
      by (cases "nb_mem nb1 p") (auto simp: keep_def)
  qed
  then have "nb_mem nb2 = keep (nb_mem nb) (\<Union>j \<in> set (k # ks). ?N nb j)"
    by (simp add: n2(3) n1(3) keep_step)
  with n1(1) n2(1,2) show ?case by simp
qed simp

lemma nbhd_expire_ok:
  assumes "nbhd_ok nb"
  shows "\<exists>nb'. nbhd_expire nb = Some nb' \<and> nbhd_ok nb' \<and> nb_mem nb' = keep (nb_mem nb) UNIV"
proof -
  let ?A = "\<Union>k \<in> set [0..<length (nb_bucket nb)]. set (b_nodes (nb_bucket nb ! k))"
  have "?A = dom (nb_mem nb)"
  proof -
    have "set (nb_bucket nb) = (!) (nb_bucket nb) ` {0..<length (nb_bucket nb)}"
      by (auto simp: set_conv_nth)
    then show ?thesis unfolding nbhd_okD(3) [OF assms] all_nodes_def by simp
  qed
  then have "keep (nb_mem nb) ?A = keep (nb_mem nb) UNIV"
    by (auto simp: keep_def fun_eq_iff split: option.splits)
  with expire_buckets_ok [OF assms, of "[0..<length (nb_bucket nb)]"] show ?thesis
    by (simp add: nbhd_expire_def)
qed

section \<open>Runs\<close>

text \<open>The calls the rest of the program makes on the neighbourhood, in any order.\<close>

datatype nbhd_op = NPut bytes IP | NPinged bytes time_t rng | NPonged bytes IP time_t rng | NExpire | NSplit

definition nbhd_do :: "ipver \<Rightarrow> bytes \<Rightarrow> nbhd_op \<Rightarrow> NBHD \<Rightarrow> NBHD option" where
  "nbhd_do v my_id op nb = (case op of
     NPut i sa \<Rightarrow> nbhd_put v my_id nb i sa
   | NPinged i now g \<Rightarrow> do { (nb', _) \<leftarrow> nbhd_pinged nb i now g; Some nb' }
   | NPonged i from now g \<Rightarrow> do { (nb', _) \<leftarrow> nbhd_ponged nb i from now g; Some nb' }
   | NExpire \<Rightarrow> nbhd_expire nb
   | NSplit \<Rightarrow> nbhd_split nb my_id)"

fun nbhd_run :: "ipver \<Rightarrow> bytes \<Rightarrow> nbhd_op list \<Rightarrow> NBHD \<Rightarrow> NBHD option" where
  "nbhd_run v my_id [] nb = Some nb"
| "nbhd_run v my_id (op # ops) nb = do { nb' \<leftarrow> nbhd_do v my_id op nb; nbhd_run v my_id ops nb' }"

text \<open>Identifiers come from the protocol parser, which only passes on those of 20 bytes.\<close>

definition valid_op :: "nbhd_op \<Rightarrow> bool" where
  "valid_op op = (case op of NPut i _ \<Rightarrow> length i = SHA1_SIZE | _ \<Rightarrow> True)"

definition strangers :: "bytes \<Rightarrow> NBHD \<Rightarrow> bool" where
  "strangers my_id nb \<longleftrightarrow> (\<forall>p n. nb_mem nb p = Some n \<longrightarrow> n_id n \<noteq> my_id)"

lemma strangers_ids:
  assumes "\<And>k. (\<exists>p n. nb_mem nb' p = Some n \<and> n_id n = k) \<Longrightarrow> (\<exists>p n. nb_mem nb p = Some n \<and> n_id n = k)"
    and "strangers my_id nb"
  shows "strangers my_id nb'"
  using assms unfolding strangers_def by blast

lemma nbhd_do_ok:
  assumes ok: "nbhd_ok nb" and st: "strangers my_id nb" and me: "length my_id = SHA1_SIZE" and v: "valid_op op"
    and room: "int (card (dom (nb_mem nb))) < LONG_MAX"
  shows "\<exists>nb'. nbhd_do v my_id op nb = Some nb' \<and> nbhd_ok nb' \<and> strangers my_id nb' \<and>
    card (dom (nb_mem nb')) \<le> Suc (card (dom (nb_mem nb)))"
proof (cases op)
  case (NPut i sa)
  have i: "length i = SHA1_SIZE" using v by (simp add: NPut valid_op_def)
  from nbhd_put_ok [OF ok i room, of v my_id sa] obtain nb' where
    "nbhd_put v my_id nb i sa = Some nb'" "nbhd_ok nb'" "card (dom (nb_mem nb')) \<le> Suc (card (dom (nb_mem nb)))"
    and h: "\<forall>p n. nb_mem nb' p = Some n \<longrightarrow>
       nb_mem nb p = Some n \<or> n_id n = i \<and> c_addr n = sa \<and> \<not> node_me my_id i \<and> \<not> ip_is_localhost v sa"
    by blast
  moreover have "strangers my_id nb'"
    using h st i me by (auto simp: strangers_def node_me_def node_equal_iff)
  ultimately show ?thesis by (simp add: NPut nbhd_do_def)
next
  case (NPinged i now g)
  from nbhd_pinged_ok [OF ok, of i now g] obtain nb' g' where
    n: "nbhd_pinged nb i now g = Some (nb', g')" "nbhd_ok nb'" "dom (nb_mem nb') = dom (nb_mem nb)" by blast
  have "nid (nb_mem nb') p = nid (nb_mem nb) p" for p
    using n(1) by (auto simp: nbhd_pinged_def nid_def bind_eq_Some_conv' case_prod_beta
        split: option.splits if_splits)
  then have "strangers my_id nb'" using st n(3)
    by (intro strangers_ids [OF _ st]) (metis domIff nid_Some not_Some_eq)
  with n show ?thesis by (simp add: NPinged nbhd_do_def)
next
  case (NPonged i frm now g)
  from nbhd_ponged_ok [OF ok, of i frm now g] obtain nb' g' where
    n: "nbhd_ponged nb i frm now g = Some (nb', g')" "nbhd_ok nb'" "dom (nb_mem nb') = dom (nb_mem nb)" by blast
  have "nid (nb_mem nb') p = nid (nb_mem nb) p" for p
    using n(1) by (auto simp: nbhd_ponged_def nid_def bind_eq_Some_conv' case_prod_beta
        split: option.splits if_splits)
  then have "strangers my_id nb'" using st n(3)
    by (intro strangers_ids [OF _ st]) (metis domIff nid_Some not_Some_eq)
  with n show ?thesis by (simp add: NPonged nbhd_do_def)
next
  case NExpire
  from nbhd_expire_ok [OF ok] obtain nb' where
    n: "nbhd_expire nb = Some nb'" "nbhd_ok nb'" "nb_mem nb' = keep (nb_mem nb) UNIV" by blast
  have "dom (nb_mem nb') \<subseteq> dom (nb_mem nb)" by (auto simp: n(3) keep_def split: option.splits)
  moreover have "finite (dom (nb_mem nb))" using nbhd_okD(3) [OF ok] by simp
  ultimately have "card (dom (nb_mem nb')) \<le> Suc (card (dom (nb_mem nb)))" by (simp add: card_mono le_SucI)
  moreover have "strangers my_id nb'"
    using st by (auto simp: strangers_def n(3) keep_def split: option.splits if_splits)
  ultimately show ?thesis using n by (simp add: NExpire nbhd_do_def)
next
  case NSplit
  from nbhd_split_ok [OF ok me] obtain nb' where "nbhd_split nb my_id = Some nb'" "nbhd_ok nb'" "nb_mem nb' = nb_mem nb"
    by blast
  then show ?thesis using st by (simp add: NSplit nbhd_do_def strangers_def)
qed

lemma nbhd_run_ok:
  assumes "nbhd_ok nb" and "strangers my_id nb" and "length my_id = SHA1_SIZE" and "\<forall>op \<in> set ops. valid_op op"
    and "int (card (dom (nb_mem nb)) + length ops) < LONG_MAX"
  shows "\<exists>nb'. nbhd_run v my_id ops nb = Some nb' \<and> nbhd_ok nb' \<and> strangers my_id nb'"
  using assms(1,2,4,5)
proof (induction ops arbitrary: nb)
  case (Cons op ops)
  have "valid_op op" "int (card (dom (nb_mem nb))) < LONG_MAX" using Cons.prems by simp_all
  from nbhd_do_ok [OF Cons.prems(1,2) assms(3) this, of v] obtain nb1 where
    n1: "nbhd_do v my_id op nb = Some nb1" "nbhd_ok nb1" "strangers my_id nb1"
      "card (dom (nb_mem nb1)) \<le> Suc (card (dom (nb_mem nb)))" by blast
  then have "int (card (dom (nb_mem nb1)) + length ops) < LONG_MAX" using Cons.prems(4) by simp
  with Cons.IH [OF n1(2,3)] Cons.prems(3) n1(1) show ?case by simp
qed simp

section \<open>Properties\<close>

text \<open>
  C13: Whatever peers are announced, pinged, answering, expired and whenever buckets are split, in any order, no call of the neighbourhood fails, and
  afterwards: the buckets are sorted, start with identifier zero, hold at most 20 nodes each, and every node is in the bucket
  whose range contains its identifier; no identifier occurs twice and our own not at all; the hash table finds exactly the nodes
  of the buckets; and the node objects in memory are exactly those nodes, so none is leaked and none is used after it was freed.
\<close>

theorem nbhd_invariant:
  assumes "length my_id = SHA1_SIZE" and "\<forall>op \<in> set ops. valid_op op" and "int (length ops) < LONG_MAX"
  shows "\<exists>nb. nbhd_run v my_id ops nbhd_init = Some nb \<and> nbhd_ok nb \<and> strangers my_id nb"
proof (rule nbhd_run_ok [OF nbhd_ok_init _ assms(1,2)])
  show "strangers my_id nbhd_init" by (simp add: strangers_def nbhd_init_def)
  show "int (card (dom (nb_mem nbhd_init)) + length ops) < LONG_MAX" using assms(3) by (simp add: nbhd_init_def)
qed

theorem nbhd_invariant_witness:
  "\<exists>nb. nbhd_run IPV4 (replicate 20 1)
     [NPut (replicate 20 2) ex_ip, NPut (replicate 20 1) ex_ip, NSplit, NPonged (replicate 20 2) ex_ip 7 ex_rng,
      NPinged (replicate 20 2) 8 ex_rng, NExpire] nbhd_init = Some nb \<and> nbhd_ok nb \<and> strangers (replicate 20 1) nb"
  by (rule nbhd_invariant) (simp_all add: valid_op_def)

text \<open>A table with one good and one bad node, for the witnesses.\<close>

definition ex_node :: "UCHAR \<Rightarrow> int \<Rightarrow> UDP_NODE" where
  "ex_node c k = \<lparr>n_id = replicate 20 c, c_addr = ex_ip, time_ping = 0, time_find = 0, pinged = k\<rparr>"

definition ex_nb :: NBHD where
  "ex_nb = \<lparr>nb_bucket = [\<lparr>b_id = replicate 20 0, b_nodes = [0, 1]\<rparr>],
     nb_hash = fst (hash_put (fst (hash_put (hash_init 4096) (replicate 20 2) (Some 0))) (replicate 20 3) (Some 1)),
     nb_mem = [0 \<mapsto> ex_node 2 0, 1 \<mapsto> ex_node 3 4], nb_brk = 2\<rparr>"

lemma ex_nb_ok: "nbhd_ok ex_nb"
proof (rule nbhd_okI)
  let ?h1 = "fst (hash_put (hash_init 4096) (replicate 20 2) (Some (0 :: ptr)))"
  have e: "hash_get (hash_init 4096 :: ptr HASH) = Map.empty" by (auto simp: nh.hget_init)
  have "snd (hash_put (hash_init 4096) (replicate 20 2) (Some (0 :: ptr)))"
    by (rule nh.hput_room [OF nh.hinv_init]) (simp add: e)
  from nh.hget_put [OF nh.hinv_init this] have h1: "hash_get ?h1 = [replicate 20 2 \<mapsto> 0]" by (simp only: e)
  have k1: "hash_ok ?h1" by (rule nh.hinv_put [OF nh.hinv_init])
  have "snd (hash_put ?h1 (replicate 20 3) (Some 1))"
    by (rule nh.hput_room [OF k1]) (simp add: h1)
  from nh.hget_put [OF k1 this] have "hash_get (nb_hash ex_nb) = [replicate 20 2 \<mapsto> 0, replicate 20 3 \<mapsto> 1]"
    by (simp only: ex_nb_def NBHD.select_convs h1)
  moreover have hk: "hash_ok (nb_hash ex_nb)"
    unfolding ex_nb_def NBHD.select_convs by (rule nh.hinv_put [OF k1])
  moreover have "replicate 20 2 \<noteq> replicate 20 (3 :: UCHAR)" by (simp add: replicate_eq_replicate)
  ultimately show "hash_get (nb_hash ex_nb) k = Some p \<longleftrightarrow> (\<exists>n. nb_mem ex_nb p = Some n \<and> n_id n = k)" for k p
    by (auto simp: ex_nb_def ex_node_def split: if_splits)
  show "hash_ok (nb_hash ex_nb)" by (rule hk)
qed (auto simp: ex_nb_def buckets_ok_def ids_ok_def placed_def nodes_ok_def be_zeros ex_node_def nid_def
      replicate_eq_replicate split: if_splits)

text \<open>
  nbhd_expire deletes exactly the nodes that left four pings unanswered.  In every state that satisfies the invariant it returns, the invariant still holds,
  and a node object is in memory afterwards, unchanged, if and only if it was there before and was not bad.
\<close>

theorem nbhd_expire_exact:
  assumes "nbhd_ok nb"
  shows "\<exists>nb'. nbhd_expire nb = Some nb' \<and> nbhd_ok nb' \<and>
    (\<forall>p n. nb_mem nb' p = Some n \<longleftrightarrow> nb_mem nb p = Some n \<and> pinged n < 4)"
proof -
  from nbhd_expire_ok [OF assms] obtain nb' where
    "nbhd_expire nb = Some nb'" "nbhd_ok nb'" "nb_mem nb' = keep (nb_mem nb) UNIV" by blast
  moreover have "keep (nb_mem nb) UNIV p = Some n \<longleftrightarrow> nb_mem nb p = Some n \<and> pinged n < 4" for p n
    by (auto simp: keep_def node_bad_def split: option.splits)
  ultimately show ?thesis by simp
qed

theorem nbhd_expire_exact_witness:
  "\<exists>nb'. nbhd_expire ex_nb = Some nb' \<and> nbhd_ok nb' \<and> nb_mem nb' 0 \<noteq> None \<and> nb_mem nb' 1 = None"
proof -
  from nbhd_expire_exact [OF ex_nb_ok] obtain nb' where "nbhd_expire ex_nb = Some nb'" "nbhd_ok nb'"
    and h: "\<forall>p n. nb_mem nb' p = Some n \<longleftrightarrow> nb_mem ex_nb p = Some n \<and> pinged n < 4" by blast
  moreover from h have "nb_mem nb' 0 \<noteq> None" by (simp add: ex_nb_def ex_node_def)
  moreover from h have "nb_mem nb' 1 = None" by (cases "nb_mem nb' 1") (auto simp: ex_nb_def ex_node_def)
  ultimately show ?thesis by blast
qed

text \<open>
  C23: Splitting terminates.  From every state that satisfies the invariant the split loop ends, after adding at most 160 buckets, with all nodes kept and every one
  in the bucket of its range, and then the bucket of the target has at most eight nodes or
  can not be divided any further.
\<close>

theorem split_loop_terminates:
  assumes "buckets_ok mem bs" and "length target = SHA1_SIZE"
  shows "\<exists>bs'. bckt_split_loop mem bs target = Some bs' \<and> buckets_ok mem bs' \<and>
    set (all_nodes bs') = set (all_nodes bs) \<and> length bs' \<le> length bs + 160 \<and>
    bckt_split mem bs' target = Some (bs', False)"
proof -
  obtain xs b ys where s: "bs = xs @ b # ys" "bckt_find_best_match bs target = Some (length xs)"
    using best_split [OF buckets_okD(1) [OF assms(1)] assms(2)] by blast
  have "length (b_id b) = SHA1_SIZE" using buckets_okD(1) [OF assms(1)] by (simp add: ids_ok_def s(1))
  then have "- 1 \<le> at_depth bs target"
    using depth_bounds [of bs "length xs"] s by (simp add: at_depth_def)
  with bckt_split_loop_ok [OF assms] show ?thesis by force
qed

theorem split_loop_terminates_witness:
  "\<exists>bs'. bckt_split_loop Map.empty bckt_init (replicate 20 9) = Some bs' \<and> length bs' \<le> 161"
  using split_loop_terminates [OF buckets_ok_init, of "replicate 20 9" Map.empty] by (auto simp: bckt_init_def)

lemma compact_loop_length:
  assumes "\<forall>p \<in> set ps. \<exists>n. mem p = Some n \<and> length (n_id n) = SHA1_SIZE \<and> ip_ok v (c_addr n)"
  shows "\<exists>c k. compact_loop mem j ps = Some c \<and> k \<le> j \<and> length c = k * IP_SIZE_META_TRIPLE v"
  using assms
proof (induction mem j ps rule: compact_loop.induct)
  case (3 mem j p ps)
  then obtain n where n: "mem p = Some n" "length (n_id n) = SHA1_SIZE" "ip_ok v (c_addr n)" by auto
  show ?case
  proof (cases "node_ok n")
    case True
    with 3 n obtain c k where c: "compact_loop mem j ps = Some c" "k \<le> j" "length c = k * IP_SIZE_META_TRIPLE v"
      by auto
    then have "compact_loop mem (Suc j) (p # ps) = Some (n_id n @ ip_sin_to_tuple (c_addr n) @ c)"
      using n True by simp
    moreover have "length (n_id n @ ip_sin_to_tuple (c_addr n) @ c) = Suc k * IP_SIZE_META_TRIPLE v"
      using n c(3) by (simp add: tuple_length IP_SIZE_META_TRIPLE_def)
    ultimately show ?thesis using c(2) by blast
  next
    case False
    with 3 n show ?thesis by auto
  qed
qed auto

lemma any_loop_less: "k < length bs \<Longrightarrow> any_loop bs k = Some j \<Longrightarrow> j < length bs"
  by (induction bs k rule: any_loop.induct) (auto split: if_splits)

lemma find_any_match_less:
  assumes "ids_ok bs" and "length i = SHA1_SIZE"
  obtains "bckt_find_any_match bs i = Some None"
  | k where "bckt_find_any_match bs i = Some (Some k)" "k < length bs"
proof -
  obtain xs b ys where s: "bs = xs @ b # ys" "bckt_find_best_match bs i = Some (length xs)"
    using best_split [OF assms] by blast
  then have less: "length xs < length bs" by simp
  let ?r = "if b_nodes (bs ! length xs) \<noteq> [] then Some (length xs) else any_loop bs (length xs)"
  have e: "bckt_find_any_match bs i = Some ?r" by (simp add: bckt_find_any_match_def s(2))
  show thesis
  proof (cases ?r)
    case None
    with e that(1) show thesis by simp
  next
    case (Some k)
    then have "k < length bs" using less any_loop_less [OF less] by (auto split: if_splits)
    with e Some that(2) show thesis by simp
  qed
qed

lemma compact_list_ok:
  assumes "nbhd_ok nb" and "length target = SHA1_SIZE" and "\<forall>n \<in> ran (nb_mem nb). ip_ok v (c_addr n)"
  shows "\<exists>c k. bckt_compact_list (nb_mem nb) (nb_bucket nb) target = Some c \<and>
    length c = k * IP_SIZE_META_TRIPLE v \<and> length c \<le> IP_SIZE_META_TRIPLE8 v"
proof (rule find_any_match_less [OF buckets_okD(1) [OF nbhd_okD(1) [OF assms(1)]] assms(2)])
  assume "bckt_find_any_match (nb_bucket nb) target = Some None"
  then show ?thesis by (simp add: bckt_compact_list_def)
next
  fix j assume j: "bckt_find_any_match (nb_bucket nb) target = Some (Some j)" "j < length (nb_bucket nb)"
  have "\<exists>n. nb_mem nb p = Some n \<and> length (n_id n) = SHA1_SIZE \<and> ip_ok v (c_addr n)"
    if "p \<in> set (b_nodes (nb_bucket nb ! j))" for p
    using nodes_in_mem [OF assms(1) j(2) that] node_length [OF assms(1), of p] assms(3) by (auto intro: ranI)
  then obtain c k where "compact_loop (nb_mem nb) 8 (b_nodes (nb_bucket nb ! j)) = Some c" "k \<le> 8"
    "length c = k * IP_SIZE_META_TRIPLE v"
    using compact_loop_length [of "b_nodes (nb_bucket nb ! j)" "nb_mem nb" v 8] by blast
  then show ?thesis using j(1) by (auto simp: bckt_compact_list_def IP_SIZE_META_TRIPLE8_def)
qed

text \<open>
  The compact node list of a reply fits its buffer.  In every state that satisfies the invariant and whose addresses are complete, bckt_compact_list
  returns whole entries of identifier, address and port, at most eight of them.
\<close>

theorem compact_list_fits:
  assumes "nbhd_ok nb" and "length target = SHA1_SIZE" and "\<forall>n \<in> ran (nb_mem nb). ip_ok v (c_addr n)"
  shows "\<exists>c k. bckt_compact_list (nb_mem nb) (nb_bucket nb) target = Some c \<and>
    length c = k * IP_SIZE_META_TRIPLE v \<and> length c \<le> IP_SIZE_META_TRIPLE8 v"
  by (rule compact_list_ok [OF assms])

theorem compact_list_fits_witness:
  "\<exists>c. bckt_compact_list (nb_mem ex_nb) (nb_bucket ex_nb) (replicate 20 5) = Some c \<and> length c \<le> 208"
proof -
  have "\<forall>n \<in> ran (nb_mem ex_nb). ip_ok IPV4 (c_addr n)"
    by (auto simp: ex_nb_def ex_node_def ran_def ex_ip_def ip_ok_def)
  from compact_list_fits [OF ex_nb_ok _ this, of "replicate 20 5"] show ?thesis
    by (auto simp: IP_SIZE_META_TRIPLE8_def IP_SIZE_META_TRIPLE_def IP_SIZE_META_PAIR_def)
qed

end
