(* ===== verification/Mru.thy ===== *)
theory Mru
  imports Hash
begin

text \<open>
  The value database and the cache keep, for each target, a list of nodes with the most recent one first and a hash
  table from a key of the node to its list item.  \<^verbatim>\<open>value.c\<close> and \<^verbatim>\<open>cache.c\<close> spell out the same steps
  for it; here the steps are named once, with the laws both components use.  \<open>mru_touch\<close> is the place where
  \<open>list_del\<close> may follow a dangling \<open>list->item\<close>: the law says exactly when.
\<close>

section \<open>The steps\<close>

type_synonym 'a mru = "'a LIST \<times> ptr HASH"

definition mru_del :: "('a \<Rightarrow> bytes) \<Rightarrow> 'a mru \<Rightarrow> ptr option \<Rightarrow> 'a mru option" where
  "mru_del key = (\<lambda>(L, h) i. do {
     v \<leftarrow> list_value L i;
     node \<leftarrow> v;
     let h' = hash_del h (key node);
     (L', _) \<leftarrow> list_del L i;
     Some (L', h')
   })"

definition mru_put :: "('a \<Rightarrow> bytes) \<Rightarrow> nat \<Rightarrow> 'a mru \<Rightarrow> 'a \<Rightarrow> 'a mru option" where
  "mru_put key mx = (\<lambda>(L, h) node. do {
     (L1, s) \<leftarrow> list_start L;
     (L2, i) \<leftarrow> list_ins L1 s node;
     let h' = fst (hash_put h (key node) i);
     if list_size L2 > int mx then do {
       s \<leftarrow> list_stop L2;
       mru_del key (L2, h') s
     } else Some (L2, h')
   })"

definition mru_touch :: "('a \<Rightarrow> bytes) \<Rightarrow> 'a mru \<Rightarrow> ptr \<Rightarrow> 'a \<Rightarrow> 'a mru option" where
  "mru_touch key = (\<lambda>(L, h) i node. do {
     (L1, _) \<leftarrow> list_del L (Some i);
     (L2, s) \<leftarrow> list_start L1;
     (L3, j) \<leftarrow> list_ins L2 s node;
     Some (L3, fst (hash_put h (key node) j))
   })"

definition mru_expire_body :: "('a \<Rightarrow> bytes) \<Rightarrow> ('a \<Rightarrow> bool) \<Rightarrow> 'a mru \<Rightarrow> ptr \<Rightarrow> 'a \<Rightarrow> 'a mru option" where
  "mru_expire_body key old T i node = (if old node then mru_del key T (Some i) else Some T)"

definition mru_expire :: "('a \<Rightarrow> bytes) \<Rightarrow> ('a \<Rightarrow> bool) \<Rightarrow> 'a mru \<Rightarrow> 'a mru option" where
  "mru_expire key old = (\<lambda>(L, h). do {
     (L1, i) \<leftarrow> list_start L;
     list_each fst (mru_expire_body key old) (L1, h) i
   })"

text \<open>Copying the payloads of the first \<open>j\<close> items.\<close>

fun copy_loop :: "('a \<Rightarrow> bytes) \<Rightarrow> 'a LIST \<Rightarrow> nat \<Rightarrow> ptr option \<Rightarrow> bytes option" where
  "copy_loop pr L 0 i = Some []"
| "copy_loop pr L (Suc j) i =
     (case i of None \<Rightarrow> Some []
      | Some p \<Rightarrow> do {
          v \<leftarrow> list_value L i;
          node \<leftarrow> v;
          n \<leftarrow> list_next L i;
          rest \<leftarrow> copy_loop pr L j n;
          Some (pr node @ rest)
        })"

section \<open>Laws\<close>

definition mru :: "('a \<Rightarrow> bytes) \<Rightarrow> 'a mru \<Rightarrow> (ptr \<times> 'a) list \<Rightarrow> bool" where
  "mru key T xs \<longleftrightarrow> dl (fst T) xs \<and> hash_ok (snd T) \<and> indexes (hash_get (snd T)) key xs"

definition mruc :: "('a \<Rightarrow> bytes) \<Rightarrow> 'a mru \<Rightarrow> (ptr \<times> 'a) list \<Rightarrow> bool" where
  "mruc key T xs \<longleftrightarrow> mru key T xs \<and> dlc (fst T) xs"

lemma index_laws: "index (hash_init 11) hash_get hash_put hash_del hash_ok"
  unfolding index_def by (rule hash_map_laws) simp

lemmas ix_put = index.index_put [OF index_laws]
  and ix_del = index.index_del [OF index_laws]
  and ix_put_ok = index.index_put_ok [OF index_laws]
  and ix_hinv_put = hm1000.hinv_put
  and ix_hinv_del = hm1000.hinv_del

lemma mruc_mru: "mruc key T xs \<Longrightarrow> mru key T xs"
  by (simp add: mruc_def)

lemma mru_start: "mru key (L, h) xs \<Longrightarrow> mruc key (L\<lparr>l_item := first xs None\<rparr>, h) xs"
  using dlc_start [of L xs] by (simp add: mruc_def mru_def)

text \<open>Inserting at the front leaves \<open>list->item\<close> at what was the first item.\<close>

lemma front_ins:
  assumes "dlc L xs" and "int (length xs) < LONG_MAX"
  shows "\<exists>L'. list_ins L (first xs None) v = Some (L', Some (l_brk L)) \<and> dl L' ((l_brk L, v) # xs) \<and>
    l_item L' = (if xs = [] then Some (l_brk L) else first xs None) \<and> l_brk L' = Suc (l_brk L)"
proof (cases xs)
  case Nil
  have d: "dl L []" using assms(1) Nil by simp
  from list_put_dl [OF d, of v] obtain L' where "list_put L v = Some (L', Some (l_brk L))" "dl L' [(l_brk L, v)]"
    "l_item L' = Some (l_brk L)" "l_brk L' = Suc (l_brk L)" by auto
  moreover have "list_ins L None v = list_put L v" using d by (simp add: list_ins_def list_size_dl)
  ultimately show ?thesis by (simp add: Nil)
next
  case (Cons x ys)
  obtain p w where x: "x = (p, w)" by (cases x)
  have "dl L ([] @ (p, w) # ys)" "int (length ([] @ (p, w) # ys)) < LONG_MAX"
    using assms by (simp_all add: Cons x)
  from list_ins_dl [OF this, of v] assms(1) show ?thesis by (auto simp: Cons x dlc_def)
qed

lemma mru_del_ok:
  assumes "mru key (L, h) (xs @ (p, v) # ys)" and "del_safe L (xs @ (p, v) # ys) p"
  shows "\<exists>T'. mru_del key (L, h) (Some p) = Some T' \<and> mruc key T' (xs @ ys)"
proof -
  from assms(1) have d: "dl L (xs @ (p, v) # ys)" and h: "hash_ok h"
    and i: "indexes (hash_get h) key (xs @ (p, v) # ys)" by (simp_all add: mru_def)
  from list_del_dl [OF d assms(2)] obtain L' where
    "list_del L (Some p) = Some (L', first (xs @ ys) None)" "dlc L' (xs @ ys)" by blast
  with list_value_dl [OF d] ix_del [OF h i] ix_hinv_del [OF h] show ?thesis
    by (simp add: mru_del_def mruc_def mru_def)
qed

lemma first_take: "0 < n \<Longrightarrow> first (take n xs) b = first xs b"
  by (cases xs; cases n) simp_all

text \<open>A new node goes to the front, and the last one is dropped when there are too many.\<close>

lemma mru_put_ok:
  assumes T: "mru key (L, h) xs" and new: "hash_get h (key v) = None" and len: "length xs \<le> mx"
    and mx: "1 < mx" "int mx < LONG_MAX"
  shows "\<exists>T'. mru_put key mx (L, h) v = Some T' \<and> mru key T' (take mx ((l_brk L, v) # xs)) \<and>
    l_item (fst T') = (if length xs = mx then Some (l_brk L) else first (xs @ [(l_brk L, v)]) None)"
proof -
  let ?L = "L\<lparr>l_item := first xs None\<rparr>" and ?b = "l_brk L"
  from T have d: "dl L xs" and h: "hash_ok h" and i: "indexes (hash_get h) key xs" by (simp_all add: mru_def)
  have room: "int (length xs) < LONG_MAX" using len mx by linarith
  from front_ins [OF dlc_start [OF d] room, of v] obtain L2 where
    ins: "list_ins ?L (first xs None) v = Some (L2, Some ?b)" and d2: "dl L2 ((?b, v) # xs)"
    and it: "l_item L2 = (if xs = [] then Some ?b else first xs None)" by auto
  let ?h = "fst (hash_put h (key v) (Some ?b))"
  have i2: "indexes (hash_get ?h) key ([] @ (?b, v) # xs)"
    by (rule ix_put [OF h]) (use i room new in simp_all)
  have T2: "mru key (L2, ?h) ((?b, v) # xs)" using d2 i2 ix_hinv_put [OF h] by (simp add: mru_def)
  have put: "mru_put key mx (L, h) v = (if list_size L2 > int mx then do {
      s \<leftarrow> list_stop L2; mru_del key (L2, ?h) s } else Some (L2, ?h))"
    using list_start_dl [OF d] ins by (simp add: mru_put_def)
  show ?thesis
  proof (cases "length xs = mx")
    case False
    then have "mru_put key mx (L, h) v = Some (L2, ?h)"
      using put list_size_dl [OF d2] len by simp
    with T2 it False len show ?thesis by (cases xs) simp_all
  next
    case True
    then obtain ys q w where xs: "xs = ys @ [(q, w)]" using mx by (cases xs rule: rev_cases) auto
    have ys: "ys \<noteq> []" "length ys = mx - 1" using True mx by (auto simp: xs)
    have T3: "mru key (L2, ?h) (((?b, v) # ys) @ (q, w) # [])" using T2 by (simp add: xs)
    have "del_safe L2 (((?b, v) # ys) @ (q, w) # []) q"
      using it ys d by (cases ys) (auto simp: xs del_safe_def dl_def)
    from mru_del_ok [OF T3 this] obtain T' where T': "mru_del key (L2, ?h) (Some q) = Some T'"
      "mruc key T' ((?b, v) # ys)" by auto
    moreover have "list_stop L2 = Some (Some q)" using list_stop_dl [OF d2] by (simp add: xs)
    moreover have "list_size L2 > int mx" using list_size_dl [OF d2] True by simp
    moreover have "take mx ((?b, v) # xs) = (?b, v) # ys" using ys mx by (cases mx) (simp_all add: xs)
    ultimately show ?thesis using put True by (auto simp: mruc_def dlc_def)
  qed
qed

lemma indexes_front:
  assumes "indexes m key (xs @ (p, v) # ys)" and "key w = key v"
  shows "indexes (m(key v \<mapsto> q)) key ((q, w) # xs @ ys)"
proof -
  have n: "\<forall>x \<in> set (xs @ ys). key (snd x) \<noteq> key v"
    using indexes_distinct [OF assms(1)] unfolding distinct_map_split by simp
  have "distinct (map (\<lambda>x. key (snd x)) (xs @ ys))"
    using indexes_distinct [OF assms(1)] unfolding distinct_map_split by simp
  then have "distinct (map (\<lambda>x. key (snd x)) ([] @ (q, w) # (xs @ ys)))"
    unfolding distinct_map_split using n assms(2) by simp
  moreover have "(m(key v \<mapsto> q)) k = Some r \<longleftrightarrow> (\<exists>u. (r, u) \<in> set ((q, w) # xs @ ys) \<and> key u = k)" for k r
  proof (cases "k = key v")
    case True
    have "(\<exists>u. (r, u) \<in> set ((q, w) # xs @ ys) \<and> key u = key v) \<longleftrightarrow> r = q" using n assms(2) by force
    with True show ?thesis by auto
  next
    case False
    then show ?thesis using assms by (auto simp: indexes_def)
  qed
  ultimately show ?thesis unfolding indexes_def by simp
qed

text \<open>Moving a node to the front works unless \<open>list->item\<close> points to it and it is not already the first.\<close>

lemma mru_touch_ok:
  assumes T: "mru key (L, h) (xs @ (p, v) # ys)" and key: "key w = key v"
    and room: "int (length (xs @ (p, v) # ys)) < LONG_MAX" and safe: "del_safe L (xs @ (p, v) # ys) p"
  shows "\<exists>T'. mru_touch key (L, h) p w = Some T' \<and> mru key T' ((l_brk L, w) # xs @ ys) \<and>
    l_item (fst T') = first (xs @ ys) (Some (l_brk L))"
proof -
  from T have d: "dl L (xs @ (p, v) # ys)" and h: "hash_ok h"
    and i: "indexes (hash_get h) key (xs @ (p, v) # ys)" by (simp_all add: mru_def)
  from list_del_dl [OF d safe] obtain L1 where
    del: "list_del L (Some p) = Some (L1, first (xs @ ys) None)" and d1: "dlc L1 (xs @ ys)" and b: "l_brk L1 = l_brk L"
    by blast
  have st: "list_start L1 = Some (L1, first (xs @ ys) None)"
    using list_start_dl [OF dlc_dl [OF d1]] dlc_start_same [OF d1] by simp
  have "int (length (xs @ ys)) < LONG_MAX" using room by simp
  from front_ins [OF d1 this, of w] obtain L3 where
    ins: "list_ins L1 (first (xs @ ys) None) w = Some (L3, Some (l_brk L))" and d3: "dl L3 ((l_brk L, w) # xs @ ys)"
    and it: "l_item L3 = (if xs @ ys = [] then Some (l_brk L) else first (xs @ ys) None)" by (auto simp: b)
  have "hash_get (fst (hash_put h (key v) (Some (l_brk L)))) = (hash_get h)(key v \<mapsto> l_brk L)"
    by (rule ix_put_ok [OF h indexes_sound [OF i] room])
  with indexes_front [OF i key, of "l_brk L"]
  have "indexes (hash_get (fst (hash_put h (key w) (Some (l_brk L))))) key ((l_brk L, w) # xs @ ys)"
    by (simp add: key)
  moreover have "l_item L3 = first (xs @ ys) (Some (l_brk L))" using it by (cases "xs @ ys") auto
  ultimately show ?thesis
    using del st ins d3 ix_hinv_put [OF h] by (simp add: mru_touch_def mru_def)
qed

lemma mru_touch_dangling:
  assumes "mru key (L, h) (xs @ (p, v) # ys)" and "\<not> del_safe L (xs @ (p, v) # ys) p"
  shows "mru_touch key (L, h) p w = None"
  using list_del_dangling [of L xs p v ys] assms by (simp add: mru_touch_def mru_def)

interpretation mru_sweep: sweeper fst "mruc key" "mru_expire_body key old" "\<lambda>n. \<not> old n" "\<lambda>n. n" for key old
proof
  fix s xs p v ys
  assume r: "mruc key s (xs @ (p, v) # ys)"
  show "\<exists>s'. mru_expire_body key old s p v = Some s' \<and> mruc key s' (xs @ (p, v) # ys)" if "\<not> old v"
    using that r by (simp add: mru_expire_body_def)
  show "\<exists>s'. mru_expire_body key old s p v = Some s' \<and> mruc key s' (xs @ ys)" if "\<not> \<not> old v"
    using that mru_del_ok [of key "fst s" "snd s" xs p v ys] r
    by (simp add: mru_expire_body_def mruc_def dlc_del_safe)
qed (simp add: mruc_def)

lemma mru_expire_ok:
  assumes "mru key (L, h) xs"
  shows "\<exists>T'. mru_expire key old (L, h) = Some T' \<and> mruc key T' (filter (\<lambda>x. \<not> old (snd x)) xs)"
proof -
  have "dl L xs" using assms by (simp add: mru_def)
  from list_start_dl [OF this] mru_sweep.sweep [OF mru_start [OF assms], of old] show ?thesis
    by (simp add: mru_expire_def case_prod_beta)
qed

lemma copy_loop_seg:
  "dl L (ws @ xs) \<Longrightarrow> copy_loop pr L j (first xs None) = Some (concat (map (pr \<circ> snd) (take j xs)))"
proof (induction j arbitrary: ws xs)
  case (Suc j)
  show ?case
  proof (cases xs)
    case (Cons x ys)
    obtain p v where x: "x = (p, v)" by (cases x)
    have "dl L (ws @ (p, v) # ys)" "dl L ((ws @ [(p, v)]) @ ys)" using Suc.prems by (simp_all add: Cons x)
    with Suc.IH [of "ws @ [(p, v)]" ys] list_value_dl [of L ws p v ys] list_next_dl [of L ws p v ys] show ?thesis
      by (simp add: Cons x)
  qed simp
qed simp

text \<open>
  Both steps together: a node is new or known under its key.  The sequence of nodes becomes the new one
  followed by the others, cut after \<open>mx\<close>.
\<close>

definition mru_stale :: "'a mru \<Rightarrow> bytes \<Rightarrow> bool" where
  "mru_stale T k = (case hash_get (snd T) k of None \<Rightarrow> False
     | Some i \<Rightarrow> l_item (fst T) = Some i \<and> list_prev (fst T) (Some i) \<noteq> Some None)"

definition recent :: "('a \<Rightarrow> bytes) \<Rightarrow> nat \<Rightarrow> 'a \<Rightarrow> 'a list \<Rightarrow> 'a list" where
  "recent key mx w ns = take mx (w # filter (\<lambda>n. key n \<noteq> key w) ns)"

lemma mru_find:
  assumes "mru key T xs" and "hash_get (snd T) k = Some p"
  shows "\<exists>us n vs. xs = us @ (p, n) # vs \<and> key n = k \<and> list_value (fst T) (Some p) = Some (Some n) \<and>
    (mru_stale T k \<longleftrightarrow> l_item (fst T) = Some p \<and> us \<noteq> [])"
proof -
  from assms have "\<exists>n. (p, n) \<in> set xs \<and> key n = k" by (auto simp: mru_def indexes_def)
  then obtain n us vs where x: "xs = us @ (p, n) # vs" "key n = k" by (auto dest!: split_list)
  have d: "dl (fst T) (us @ (p, n) # vs)" using assms(1) by (simp add: mru_def x)
  from list_value_dl [OF d] list_prev_dl [OF d] x assms(2) show ?thesis by (auto simp: mru_stale_def)
qed

lemma recent_new:
  assumes "mru key T xs" and "hash_get (snd T) (key w) = None"
  shows "recent key mx w (map snd xs) = take mx (w # map snd xs)"
proof -
  have "\<forall>x \<in> set xs. key (snd x) \<noteq> key w" using assms indexes_None by (fastforce simp: mru_def)
  then have "filter (\<lambda>n. key n \<noteq> key w) (map snd xs) = map snd xs" by (simp add: filter_id_conv)
  then show ?thesis unfolding recent_def by (simp only:)
qed

lemma recent_known:
  assumes "mru key T (us @ (p, n) # vs)" and "key w = key n" and "length (us @ (p, n) # vs) \<le> mx"
  shows "recent key mx w (map snd (us @ (p, n) # vs)) = w # map snd (us @ vs)"
proof -
  have "distinct (map (\<lambda>x. key (snd x)) (us @ (p, n) # vs))" using assms(1) unfolding mru_def by (blast intro: indexes_distinct)
  then have "\<forall>x \<in> set (us @ vs). key (snd x) \<noteq> key n" unfolding distinct_map_split by simp
  then have "filter (\<lambda>m. key m \<noteq> key n) (map snd us) = map snd us" "filter (\<lambda>m. key m \<noteq> key n) (map snd vs) = map snd vs"
    by (simp_all add: filter_id_conv)
  then show ?thesis using assms(3) by (cases mx) (simp_all add: recent_def assms(2))
qed

lemma mru_put_rep:
  assumes "mru key T xs" and "hash_get (snd T) (key w) = None" and "length xs \<le> mx" "1 < mx" "int mx < LONG_MAX"
  shows "\<exists>T' zs. mru_put key mx T w = Some T' \<and> mru key T' zs \<and> map snd zs = recent key mx w (map snd xs) \<and>
    l_item (fst T') = (if length xs = mx then first zs None else first (tl zs) (first zs None))"
proof -
  from mru_put_ok [of key "fst T" "snd T" xs w mx] assms obtain T' where
    T': "mru_put key mx T w = Some T'" "mru key T' (take mx ((l_brk (fst T), w) # xs))"
    "l_item (fst T') = (if length xs = mx then Some (l_brk (fst T)) else first (xs @ [(l_brk (fst T), w)]) None)" by auto
  have "map snd (take mx ((l_brk (fst T), w) # xs)) = recent key mx w (map snd xs)"
    unfolding recent_new [OF assms(1,2)] by (simp add: take_map [symmetric])
  moreover have "l_item (fst T') = (if length xs = mx then first (take mx ((l_brk (fst T), w) # xs)) None
      else first (tl (take mx ((l_brk (fst T), w) # xs))) (first (take mx ((l_brk (fst T), w) # xs)) None))"
    using T'(3) assms(3,4) by (cases mx; cases xs) (auto simp: take_Cons' first_take)
  ultimately show ?thesis using T'(1,2) by blast
qed

lemma mru_touch_rep:
  assumes "mru key T xs" and "hash_get (snd T) (key w) = Some p" and "length xs \<le> mx" "int mx < LONG_MAX"
  shows "if mru_stale T (key w) then mru_touch key T p w = None
    else \<exists>T' zs. mru_touch key T p w = Some T' \<and> mru key T' zs \<and> map snd zs = recent key mx w (map snd xs) \<and>
      l_item (fst T') = first (tl zs) (first zs None)"
proof -
  from mru_find [OF assms(1,2)] obtain us n vs where x: "xs = us @ (p, n) # vs" "key n = key w"
    "mru_stale T (key w) \<longleftrightarrow> l_item (fst T) = Some p \<and> us \<noteq> []" by blast
  have m: "mru key (fst T, snd T) (us @ (p, n) # vs)" using assms(1) x(1) by simp
  then have "p \<notin> fst ` set us" using dl_fresh_split by (fastforce simp: mru_def)
  then have safe: "del_safe (fst T) (us @ (p, n) # vs) p \<longleftrightarrow> \<not> mru_stale T (key w)"
    unfolding x(3) by (cases us) (auto simp: del_safe_def)
  show ?thesis
  proof (cases "mru_stale T (key w)")
    case True
    with mru_touch_dangling [OF m] safe show ?thesis by simp
  next
    case False
    from mru_touch_ok [OF m, of w] x(2) assms(3,4) safe False obtain T' where
      T': "mru_touch key T p w = Some T'" "mru key T' ((l_brk (fst T), w) # us @ vs)"
      "l_item (fst T') = first (us @ vs) (Some (l_brk (fst T)))" by (auto simp: x(1))
    have "map snd ((l_brk (fst T), w) # us @ vs) = recent key mx w (map snd xs)"
      using recent_known [of key T us p n vs w mx] assms(1,3) x(1,2) by simp
    moreover have "l_item (fst T') = first (tl ((l_brk (fst T), w) # us @ vs)) (first ((l_brk (fst T), w) # us @ vs) None)"
      using T'(3) by simp
    ultimately have "\<exists>T' zs. mru_touch key T p w = Some T' \<and> mru key T' zs \<and> map snd zs = recent key mx w (map snd xs) \<and>
      l_item (fst T') = first (tl zs) (first zs None)" using T'(1,2) by blast
    with False show ?thesis by simp
  qed
qed

section \<open>Shelves of objects\<close>

text \<open>
  The level above: a list of pointers to objects and a hash table from a key of an object to its pointer.  The
  objects live in a memory \<open>M\<close> with next free address \<open>b\<close>; the list and the table always lead to the
  same live objects, whose keys differ.
\<close>

definition objs :: "(ptr \<rightharpoonup> 'a) \<Rightarrow> (ptr \<times> ptr) list \<Rightarrow> (ptr \<times> 'a) list" where
  "objs M xs = map (\<lambda>x. (snd x, the (M (snd x)))) xs"

definition shelf :: "('a \<Rightarrow> bytes) \<Rightarrow> ptr LIST \<Rightarrow> ptr HASH \<Rightarrow> (ptr \<rightharpoonup> 'a) \<Rightarrow> ptr \<Rightarrow> (ptr \<times> ptr) list \<Rightarrow> bool" where
  "shelf key L h M b xs \<longleftrightarrow> dl L xs \<and> hash_ok h \<and> distinct (map snd xs) \<and> dom M = snd ` set xs \<and>
     (\<forall>q \<in> dom M. q < b) \<and> indexes (hash_get h) key (objs M xs)"

lemma objs_simps [simp]:
  "objs M [] = []" "objs M (x # xs) = (snd x, the (M (snd x))) # objs M xs"
  "objs M (xs @ ys) = objs M xs @ objs M ys" "length (objs M xs) = length xs"
  by (simp_all add: objs_def)

lemma objs_frame: "q \<notin> snd ` set xs \<Longrightarrow> objs (M(q := z)) xs = objs M xs"
  by (auto simp: objs_def)

lemma shelf_dl: "shelf key L h M b xs \<Longrightarrow> dl L xs"
  by (simp add: shelf_def)

lemma shelf_list: "shelf key L h M b xs \<Longrightarrow> dl L' xs \<Longrightarrow> shelf key L' h M b xs"
  by (simp add: shelf_def)

lemma shelf_mem: "shelf key L h M b xs \<Longrightarrow> (p, q) \<in> set xs \<Longrightarrow> \<exists>t. M q = Some t"
  by (force simp: shelf_def)

lemma shelf_find:
  assumes "shelf key L h M b xs"
  shows "hash_get h k = Some q \<longleftrightarrow> (\<exists>p t. (p, q) \<in> set xs \<and> M q = Some t \<and> key t = k)"
proof -
  have "hash_get h k = Some q \<longleftrightarrow> (\<exists>t. (q, t) \<in> set (objs M xs) \<and> key t = k)"
    using assms by (simp add: shelf_def indexes_def)
  also have "\<dots> \<longleftrightarrow> (\<exists>p t. (p, q) \<in> set xs \<and> M q = Some t \<and> key t = k)"
    using shelf_mem [OF assms] by (force simp: objs_def)
  finally show ?thesis .
qed

lemma shelf_fresh:
  "shelf key L h M b (xs @ (p, q) # ys) \<Longrightarrow> q \<notin> snd ` set xs \<and> q \<notin> snd ` set ys"
  by (auto simp: shelf_def)

lemma shelf_brk: "shelf key L h M b xs \<Longrightarrow> b \<notin> snd ` set xs"
  by (force simp: shelf_def)

lemma shelf_ins:
  assumes s: "shelf key L h M b (xs @ ys)" and new: "hash_get h (key t) = None"
    and room: "int (length (xs @ ys)) < LONG_MAX" and d: "dl L' (xs @ (p, b) # ys)"
  shows "shelf key L' (fst (hash_put h (key t) (Some b))) (M(b \<mapsto> t)) (Suc b) (xs @ (p, b) # ys)"
proof -
  have b: "b \<notin> snd ` set xs" "b \<notin> snd ` set ys" using shelf_brk [OF s] by auto
  have h: "hash_ok h" and i: "indexes (hash_get h) key (objs M xs @ objs M ys)" using s by (simp_all add: shelf_def)
  from ix_put [OF h i _ new] room
  have "indexes (hash_get (fst (hash_put h (key t) (Some b)))) key (objs M xs @ (b, t) # objs M ys)" by simp
  then have "indexes (hash_get (fst (hash_put h (key t) (Some b)))) key (objs (M(b \<mapsto> t)) (xs @ (p, b) # ys))"
    by (simp add: objs_frame [OF b(1)] objs_frame [OF b(2)])
  with s d b ix_hinv_put [OF h] show ?thesis by (auto simp: shelf_def less_SucI simp del: objs_simps)
qed

lemma shelf_del:
  assumes s: "shelf key L h M b (xs @ (p, q) # ys)" and q: "M q = Some t" and d: "dl L' (xs @ ys)"
  shows "shelf key L' (hash_del h (key t)) (M(q := None)) b (xs @ ys)"
proof -
  have n: "q \<notin> snd ` set xs" "q \<notin> snd ` set ys" using s by (auto simp: shelf_def)
  have h: "hash_ok h" and i: "indexes (hash_get h) key (objs M xs @ (q, t) # objs M ys)"
    using s q by (simp_all add: shelf_def)
  from ix_del [OF h i]
  have "indexes (hash_get (hash_del h (key t))) key (objs (M(q := None)) (xs @ ys))"
    by (simp add: objs_frame [OF n(1)] objs_frame [OF n(2)])
  moreover have "dom (M(q := None)) = snd ` set (xs @ ys)" using s n by (auto simp: shelf_def)
  ultimately show ?thesis using s d ix_hinv_del [OF h] by (simp add: shelf_def)
qed

lemma shelf_upd:
  assumes s: "shelf key L h M b xs" and x: "(p, q) \<in> set xs" and q: "M q = Some t" and k: "key t' = key t"
  shows "shelf key L h (M(q \<mapsto> t')) b xs"
proof -
  from x obtain us vs where xs: "xs = us @ (p, q) # vs" by (auto dest: split_list)
  have n: "q \<notin> snd ` set us" "q \<notin> snd ` set vs" using s by (auto simp: shelf_def xs)
  have "indexes (hash_get h) key (objs M us @ (q, t) # objs M vs)" using s q by (simp add: shelf_def xs)
  from indexes_update [OF this k] have "indexes (hash_get h) key (objs (M(q \<mapsto> t')) xs)"
    by (simp add: xs objs_frame [OF n(1)] objs_frame [OF n(2)])
  moreover have "dom (M(q \<mapsto> t')) = dom M" using q by auto
  ultimately show ?thesis using s by (simp add: shelf_def)
qed

text \<open>What the objects hold, in the order of the list: \<open>R t a\<close> relates an object to its abstraction.\<close>

definition holds :: "('a \<Rightarrow> 'b \<Rightarrow> bool) \<Rightarrow> (ptr \<rightharpoonup> 'a) \<Rightarrow> (ptr \<times> ptr) list \<Rightarrow> 'b list \<Rightarrow> bool" where
  "holds R M xs ts \<longleftrightarrow> list_all2 (\<lambda>x a. \<exists>t. M (snd x) = Some t \<and> R t a) xs ts"

lemma holds_simps [simp]:
  "holds R M [] ts \<longleftrightarrow> ts = []"
  "holds R M (x # xs) ts \<longleftrightarrow> (\<exists>t a as. ts = a # as \<and> M (snd x) = Some t \<and> R t a \<and> holds R M xs as)"
  by (auto simp: holds_def list_all2_Cons1)

lemma holds_append_iff [simp]:
  "holds R M (xs @ ys) ts \<longleftrightarrow> (\<exists>us vs. ts = us @ vs \<and> holds R M xs us \<and> holds R M ys vs)"
proof
  assume "holds R M (xs @ ys) ts"
  then show "\<exists>us vs. ts = us @ vs \<and> holds R M xs us \<and> holds R M ys vs"
    unfolding holds_def list_all2_append1 by blast
qed (auto simp: holds_def intro: list_all2_appendI)

lemma holds_length: "holds R M xs ts \<Longrightarrow> length xs = length ts"
  by (simp add: holds_def list_all2_lengthD)

lemma holds_split:
  assumes "holds R M (us @ x # vs) ts"
  shows "\<exists>as a bs t. ts = as @ a # bs \<and> length as = length us \<and> M (snd x) = Some t \<and> R t a \<and>
    holds R M us as \<and> holds R M vs bs"
proof -
  from assms obtain as a bs t where h: "ts = as @ a # bs" "M (snd x) = Some t" "R t a" "holds R M us as" "holds R M vs bs"
    by auto
  from holds_length [OF h(4)] have "length as = length us" by simp
  with h show ?thesis by blast
qed

lemma holds_appendD:
  "holds R M (us @ vs) (as @ bs) \<Longrightarrow> length as = length us \<Longrightarrow> holds R M us as \<and> holds R M vs bs"
  by (simp add: holds_def list_all2_append)

lemma holds_frame: "q \<notin> snd ` set xs \<Longrightarrow> holds R (M(q := z)) xs ts = holds R M xs ts"
  by (induction xs arbitrary: ts) auto

lemma holds_append:
  assumes "holds R M xs us" and "holds R M ys vs"
  shows "holds R M (xs @ ys) (us @ vs)"
  using assms by auto

section \<open>Stocks\<close>

text \<open>A shelf together with what its objects hold; \<open>R\<close> makes the key of an object that of its abstraction.\<close>

definition stock :: "('a \<Rightarrow> bytes) \<Rightarrow> ('a \<Rightarrow> bytes \<times> 'b \<Rightarrow> bool) \<Rightarrow> ptr LIST \<Rightarrow> ptr HASH \<Rightarrow> (ptr \<rightharpoonup> 'a) \<Rightarrow> ptr \<Rightarrow>
    (ptr \<times> ptr) list \<Rightarrow> (bytes \<times> 'b) list \<Rightarrow> bool" where
  "stock key R L h M b xs ts \<longleftrightarrow> shelf key L h M b xs \<and> holds R M xs ts \<and> (\<forall>t e. R t e \<longrightarrow> key t = fst e)"

lemma stock_dl: "stock key R L h M b xs ts \<Longrightarrow> dl L xs"
  and stock_length: "stock key R L h M b xs ts \<Longrightarrow> length xs = length ts"
  and stock_list: "stock key R L h M b xs ts \<Longrightarrow> dl L' xs \<Longrightarrow> stock key R L' h M b xs ts"
  by (auto simp: stock_def shelf_def dest: holds_length)

lemma stock_keys:
  assumes "stock key R L h M b xs ts"
  shows "map (\<lambda>x. key (snd x)) (objs M xs) = map fst ts"
proof -
  from assms have R: "\<And>t e. R t e \<Longrightarrow> key t = fst e" and "holds R M xs ts" unfolding stock_def by blast+
  from this(2) show ?thesis by (induction xs arbitrary: ts) (auto dest: R)
qed

lemma stock_distinct: "stock key R L h M b xs ts \<Longrightarrow> distinct (map fst ts)"
  using stock_keys [of key R L h M b xs ts] indexes_distinct [of "hash_get h" key "objs M xs"]
  by (simp add: stock_def shelf_def)

lemma stock_find_None:
  assumes "stock key R L h M b xs ts"
  shows "hash_get h k = None \<longleftrightarrow> k \<notin> fst ` set ts"
proof -
  have "indexes (hash_get h) key (objs M xs)" using assms by (simp add: stock_def shelf_def)
  from indexes_None [OF this, of k] have "hash_get h k = None \<longleftrightarrow> k \<notin> set (map (\<lambda>x. key (snd x)) (objs M xs))" by auto
  also have "\<dots> \<longleftrightarrow> k \<notin> fst ` set ts" unfolding stock_keys [OF assms] by simp
  finally show ?thesis .
qed

lemma stock_find:
  assumes s: "stock key R L h M b xs ts" and q: "hash_get h k = Some q"
  shows "\<exists>us p vs as c bs t. xs = us @ (p, q) # vs \<and> ts = as @ (k, c) # bs \<and> length as = length us \<and>
    M q = Some t \<and> R t (k, c)"
proof -
  from s have sh: "shelf key L h M b xs" and ho: "holds R M xs ts" and R: "\<forall>t e. R t e \<longrightarrow> key t = fst e"
    by (simp_all add: stock_def)
  from q obtain p t where x: "(p, q) \<in> set xs" and t: "M q = Some t" "key t = k" using shelf_find [OF sh] by blast
  from x obtain us vs where xs: "xs = us @ (p, q) # vs" by (auto dest: split_list)
  from holds_split [OF ho [unfolded xs]] t(1) obtain as a bs where
    ts: "ts = as @ a # bs" "length as = length us" "R t a" by auto
  then have "a = (k, snd a)" using R t(2) by (cases a) auto
  with xs ts t(1) show ?thesis by metis
qed

lemma stock_upd:
  assumes s: "stock key R L h M b (us @ (p, q) # vs) (as @ a # bs)" and l: "length as = length us"
    and t: "M q = Some t" and r: "R t' e" and k: "key t' = key t"
  shows "stock key R L h (M(q \<mapsto> t')) b (us @ (p, q) # vs) (as @ e # bs)"
proof -
  from s have sh: "shelf key L h M b (us @ (p, q) # vs)" and ho: "holds R M (us @ (p, q) # vs) (as @ a # bs)"
    and R: "\<forall>t e. R t e \<longrightarrow> key t = fst e" by (simp_all add: stock_def)
  from holds_appendD [OF ho l] have h: "holds R M us as" "holds R M vs bs" by auto
  with shelf_fresh [OF sh] r have "holds R (M(q \<mapsto> t')) (us @ (p, q) # vs) (as @ e # bs)"
    by (intro holds_append) (simp_all add: holds_frame)
  with shelf_upd [OF sh _ t k, of p] R show ?thesis unfolding stock_def by auto
qed

lemma stock_del:
  assumes s: "stock key R L h M b (us @ (p, q) # vs) (as @ a # bs)" and l: "length as = length us"
    and t: "M q = Some t" and d: "dl L' (us @ vs)"
  shows "stock key R L' (hash_del h (key t)) (M(q := None)) b (us @ vs) (as @ bs)"
proof -
  from s have sh: "shelf key L h M b (us @ (p, q) # vs)" and ho: "holds R M (us @ (p, q) # vs) (as @ a # bs)"
    and R: "\<forall>t e. R t e \<longrightarrow> key t = fst e" by (simp_all add: stock_def)
  from holds_appendD [OF ho l] have h: "holds R M us as" "holds R M vs bs" by auto
  with shelf_fresh [OF sh] have "holds R (M(q := None)) (us @ vs) (as @ bs)"
    by (intro holds_append) (simp_all add: holds_frame)
  with shelf_del [OF sh t d] R show ?thesis unfolding stock_def by auto
qed

lemma stock_ins_front:
  assumes s: "stock key R L h M b xs ts" and new: "fst e \<notin> fst ` set ts" and r: "R t e"
    and room: "int (length xs) < LONG_MAX" and d: "dl L' ((p, b) # xs)"
  shows "stock key R L' (fst (hash_put h (key t) (Some b))) (M(b \<mapsto> t)) (Suc b) ((p, b) # xs) (e # ts)"
proof -
  from s have sh: "shelf key L h M b xs" and ho: "holds R M xs ts" and R: "\<forall>t e. R t e \<longrightarrow> key t = fst e"
    by (simp_all add: stock_def)
  have k: "key t = fst e" using R r by blast
  have "hash_get h (key t) = None" using stock_find_None [OF s] new by (simp add: k)
  from shelf_ins [of key L h M b "[]" xs t L' p] sh this room d
  have "shelf key L' (fst (hash_put h (key t) (Some b))) (M(b \<mapsto> t)) (Suc b) ((p, b) # xs)" by simp
  moreover have "holds R (M(b \<mapsto> t)) ((p, b) # xs) (e # ts)"
    using ho r shelf_brk [OF sh] by (simp add: holds_frame)
  ultimately show ?thesis using R unfolding stock_def by blast
qed

end
