(* ===== verification/Bencode.thy ===== *)
theory Bencode
  imports Prelude
begin

text \<open>
  The bencode codec of \<^verbatim>\<open>src/src/p2p/ben.c\<close>.  A decoder works on the receive buffer
  \<open>buf\<close> and a position \<open>p\<close> in it; \<open>size\<close> is the number of bytes received, which may be
  less than the buffer.  The ways in which a call does not return normally are values: reading or
  writing outside a buffer (\<open>OOB\<close>), a loop that makes no progress (\<open>Spin\<close>), the call of \<open>fail\<close>
  (\<open>Failed\<close>), and running out of the model's fuel (\<open>NoFuel\<close>), which is shown not to happen.

  Shown here: the encoder writes exactly the number of bytes it allocates; decoding an encoded value gives it back;
  the validator accepts every encoded value within the protocol's limits; a validated list or dictionary
  is decoded without reading past the received bytes; and the one kind of input where
  validator and decoder disagree.
\<close>

section \<open>Data\<close>

datatype BEN =
    BEN_STR bytes
  | BEN_INT int
  | BEN_LIST "BEN list"
  | BEN_DICT "(bytes \<times> BEN) list"

datatype stop = OOB | Spin | Failed | NoFuel

definition bindE :: "'e + 'a \<Rightarrow> ('a \<Rightarrow> 'e + 'b) \<Rightarrow> 'e + 'b" where
  "bindE m f = (case m of Inl e \<Rightarrow> Inl e | Inr x \<Rightarrow> f x)"

lemma bindE_simps [simp]: "bindE (Inl e) f = Inl e" "bindE (Inr x) f = f x"
  by (simp_all add: bindE_def)

lemma bindE_Inr_conv: "bindE m f = Inr y \<longleftrightarrow> (\<exists>x. m = Inr x \<and> f x = Inr y)"
  by (cases m) simp_all

lemma bindE_Inl_conv: "bindE m f = Inl e \<longleftrightarrow> m = Inl e \<or> (\<exists>x. m = Inr x \<and> f x = Inl e)"
  by (cases m) auto

lemma bindE_cong [fundef_cong]:
  "m = m' \<Longrightarrow> (\<And>x. m' = Inr x \<Longrightarrow> f x = f' x) \<Longrightarrow> bindE m f = bindE m' f'"
  by (cases m') simp_all

text \<open>\<open>*p\<close>: reading the buffer.\<close>

definition rd :: "bytes \<Rightarrow> nat \<Rightarrow> stop + UCHAR" where
  "rd buf p = (if p < length buf then Inr (buf ! p) else Inl OOB)"

definition isdigit :: "UCHAR \<Rightarrow> bool" where
  "isdigit c \<longleftrightarrow> 48 \<le> c \<and> c \<le> 57"

text \<open>\<open>strtol\<close> on a string of digits, and \<open>snprintf\<close> with \<open>%li\<close>.\<close>

fun digits_val :: "bytes \<Rightarrow> nat" where
  "digits_val ds = fold (\<lambda>c v. v * 10 + (unat c - 48)) ds 0"

definition strtol :: "bytes \<Rightarrow> int" where
  "strtol ds = min LONG_MAX (int (digits_val ds))"

fun nat_digits :: "nat \<Rightarrow> bytes" where
  "nat_digits n =
     (if n < 10 then [of_nat (48 + n)] else nat_digits (n div 10) @ [of_nat (48 + n mod 10)])"

definition long_digits :: "int \<Rightarrow> bytes" where
  "long_digits i = (if i < 0 then 45 # nat_digits (nat (- i)) else nat_digits (nat i))"

declare nat_digits.simps [simp del]

section \<open>Building\<close>

text \<open>\<open>ben_dict\<close> and \<open>ben_list\<close> append to a node; a null argument or a wrong type ends the program.\<close>

definition ben_dict :: "BEN option \<Rightarrow> BEN option \<Rightarrow> BEN option \<Rightarrow> stop + BEN" where
  "ben_dict node key val =
     (case node of Some (BEN_DICT d) \<Rightarrow>
        (case key of Some (BEN_STR k) \<Rightarrow>
           (case val of Some v \<Rightarrow>
              if int (length d) = LONG_MAX then Inl Failed else Inr (BEN_DICT (d @ [(k, v)]))
            | None \<Rightarrow> Inl Failed)
         | _ \<Rightarrow> Inl Failed)
      | _ \<Rightarrow> Inl Failed)"

definition ben_list :: "BEN option \<Rightarrow> BEN option \<Rightarrow> stop + BEN" where
  "ben_list node val =
     (case node of Some (BEN_LIST l) \<Rightarrow>
        (case val of Some v \<Rightarrow>
           if int (length l) = LONG_MAX then Inl Failed else Inr (BEN_LIST (l @ [v]))
         | None \<Rightarrow> Inl Failed)
      | _ \<Rightarrow> Inl Failed)"

section \<open>Encoding\<close>

fun ben_enc_size :: "BEN \<Rightarrow> nat" and enc_size_l :: "BEN list \<Rightarrow> nat"
  and enc_size_d :: "(bytes \<times> BEN) list \<Rightarrow> nat" where
  "ben_enc_size (BEN_DICT d) = 2 + enc_size_d d"
| "ben_enc_size (BEN_LIST l) = 2 + enc_size_l l"
| "ben_enc_size (BEN_INT i) = length (105 # long_digits i @ [101])"
| "ben_enc_size (BEN_STR s) = length (long_digits (int (length s)) @ [58]) + length s"
| "enc_size_l [] = 0"
| "enc_size_l (b # bs) = ben_enc_size b + enc_size_l bs"
| "enc_size_d [] = 0"
| "enc_size_d ((k, v) # kvs) = ben_enc_size (BEN_STR k) + ben_enc_size v + enc_size_d kvs"

text \<open>\<open>ben_enc_rec\<close> returns the advanced write position; the model returns the bytes written.\<close>

fun ben_enc_rec :: "BEN \<Rightarrow> bytes" and enc_l :: "BEN list \<Rightarrow> bytes"
  and enc_d :: "(bytes \<times> BEN) list \<Rightarrow> bytes" where
  "ben_enc_rec (BEN_DICT d) = 100 # enc_d d @ [101]"
| "ben_enc_rec (BEN_LIST l) = 108 # enc_l l @ [101]"
| "ben_enc_rec (BEN_INT i) = 105 # long_digits i @ [101]"
| "ben_enc_rec (BEN_STR s) = long_digits (int (length s)) @ [58] @ s"
| "enc_l [] = []"
| "enc_l (b # bs) = ben_enc_rec b @ enc_l bs"
| "enc_d [] = []"
| "enc_d ((k, v) # kvs) = ben_enc_rec (BEN_STR k) @ ben_enc_rec v @ enc_d kvs"

text \<open>\<open>ben_enc\<close> allocates the computed size, writes, and gives up when the two differ.\<close>

definition ben_enc :: "BEN \<Rightarrow> bytes option" where
  "ben_enc node =
     (let sz = ben_enc_size node in
      if sz = 0 then None
      else let code = ben_enc_rec node in
        if length code \<noteq> sz then None else Some code)"

section \<open>Decoding\<close>

text \<open>The loop of \<open>ben_dec_s\<close>: \<open>i\<close> digits were read since \<open>start\<close>.  Any byte that is
  neither a digit nor a colon leaves the loop where it is for ever.  The digits are copied to a
  buffer of \<open>BUF_SIZE\<close> bytes with a terminating zero.\<close>

function ben_dec_s_loop :: "bytes \<Rightarrow> nat \<Rightarrow> nat \<Rightarrow> nat \<Rightarrow> stop + BEN option \<times> nat" where
  "ben_dec_s_loop buf start i p =
     bindE (rd buf p) (\<lambda>c.
       if isdigit c then ben_dec_s_loop buf start (i + 1) (p + 1)
       else if c = 58 then
         (if BUF_SIZE \<le> i then Inl OOB
          else let l = nat (strtol (take i (drop start buf))); p = p + 1 in
            if p + l \<le> length buf then Inr (Some (BEN_STR (take l (drop p buf))), p + l)
            else Inl OOB)
       else Inl Spin)"
  by pat_completeness auto
termination
  by (relation "measure (\<lambda>(buf, start, i, p). length buf - p)") (auto simp: rd_def split: if_splits)

definition ben_dec_s :: "bytes \<Rightarrow> nat \<Rightarrow> stop + BEN option \<times> nat" where
  "ben_dec_s buf p = ben_dec_s_loop buf p 0 p"

function ben_dec_i_loop :: "bytes \<Rightarrow> int \<Rightarrow> nat \<Rightarrow> nat \<Rightarrow> nat \<Rightarrow> stop + BEN option \<times> nat" where
  "ben_dec_i_loop buf prefix start i p =
     bindE (rd buf p) (\<lambda>c.
       if isdigit c then ben_dec_i_loop buf prefix start (i + 1) (p + 1)
       else if c = 101 then
         (if BUF_SIZE \<le> i then Inl OOB
          else Inr (Some (BEN_INT (prefix * strtol (take i (drop start buf)))), p + 1))
       else Inl Spin)"
  by pat_completeness auto
termination
  by (relation "measure (\<lambda>(buf, prefix, start, i, p). length buf - p)")
    (auto simp: rd_def split: if_splits)

definition ben_dec_i :: "bytes \<Rightarrow> nat \<Rightarrow> stop + BEN option \<times> nat" where
  "ben_dec_i buf p =
     bindE (rd buf (p + 1)) (\<lambda>c.
       if c = 45 then ben_dec_i_loop buf (- 1) (p + 2) 0 (p + 2)
       else ben_dec_i_loop buf 1 (p + 1) 0 (p + 1))"

declare ben_dec_s_loop.simps [simp del] ben_dec_i_loop.simps [simp del]

text \<open>The recursive part carries fuel; \<open>ben_dec_d\<close> and \<open>ben_dec_l\<close> consist of their first
  increment and the loop.\<close>

function (sequential) ben_dec_r :: "nat \<Rightarrow> bytes \<Rightarrow> nat \<Rightarrow> stop + BEN option \<times> nat"
  and ben_dec_d :: "nat \<Rightarrow> bytes \<Rightarrow> BEN \<Rightarrow> nat \<Rightarrow> stop + BEN option \<times> nat"
  and ben_dec_l :: "nat \<Rightarrow> bytes \<Rightarrow> BEN \<Rightarrow> nat \<Rightarrow> stop + BEN option \<times> nat" where
  "ben_dec_r 0 buf p = Inl NoFuel"
| "ben_dec_r (Suc n) buf p =
     bindE (rd buf p) (\<lambda>c.
       if c = 100 then ben_dec_d n buf (BEN_DICT []) (p + 1)
       else if c = 108 then ben_dec_l n buf (BEN_LIST []) (p + 1)
       else if c = 105 then ben_dec_i buf p
       else if isdigit c then ben_dec_s buf p
       else Inr (None, p))"
| "ben_dec_d 0 buf dict p = Inl NoFuel"
| "ben_dec_d (Suc n) buf dict p =
     bindE (rd buf p) (\<lambda>c.
       if c = 101 then Inr (Some dict, p + 1)
       else bindE (ben_dec_s buf p) (\<lambda>(key, p1).
         bindE (ben_dec_r n buf p1) (\<lambda>(val, p2).
           bindE (ben_dict (Some dict) key val) (\<lambda>dict'. ben_dec_d n buf dict' p2))))"
| "ben_dec_l 0 buf list p = Inl NoFuel"
| "ben_dec_l (Suc n) buf list p =
     bindE (rd buf p) (\<lambda>c.
       if c = 101 then Inr (Some list, p + 1)
       else bindE (ben_dec_r n buf p) (\<lambda>(val, p1).
         bindE (ben_list (Some list) val) (\<lambda>list'. ben_dec_l n buf list' p1)))"
  by pat_completeness auto

termination
  by (relation "measure (case_sum (\<lambda>(n, _). n) (case_sum (\<lambda>(n, _). n) (\<lambda>(n, _). n)))") auto

definition ben_fuel :: "bytes \<Rightarrow> nat" where
  "ben_fuel buf = 2 * length buf + 2"

definition ben_dec :: "bytes \<Rightarrow> nat \<Rightarrow> stop + BEN option" where
  "ben_dec buf bensize = bindE (ben_dec_r (ben_fuel buf) buf 0) (\<lambda>(node, _). Inr node)"

section \<open>Validating\<close>

text \<open>Digits only, so \<open>strtol\<close> consumes the whole string and sets no error below its limits.\<close>

abbreviation BEN_STR_MAXLEN :: nat where "BEN_STR_MAXLEN \<equiv> 4"
abbreviation BEN_STR_MAXSIZE :: int where "BEN_STR_MAXSIZE \<equiv> 1023"
abbreviation BEN_INT_MAXLEN :: nat where "BEN_INT_MAXLEN \<equiv> 10"
abbreviation BEN_INT_MAXSIZE :: int where "BEN_INT_MAXSIZE \<equiv> 2147483647"

function ben_validate_s_loop :: "bytes \<Rightarrow> nat \<Rightarrow> nat \<Rightarrow> nat \<Rightarrow> nat \<Rightarrow> stop + bool \<times> nat" where
  "ben_validate_s_loop buf bensize start i p =
     (if bensize \<le> p then Inr (\<not> bensize < p, p)
      else bindE (rd buf p) (\<lambda>c.
        if isdigit c then ben_validate_s_loop buf bensize start (i + 1) (p + 1)
        else if c = 58 then
          (if i \<le> 0 \<or> BEN_STR_MAXLEN < i then Inr (False, p)
           else let l = strtol (take i (drop start buf)) in
             if l < 0 \<or> BEN_STR_MAXSIZE < l then Inr (False, p)
             else let p = p + nat l + 1 in Inr (\<not> bensize < p, p))
        else Inr (False, p)))"
  by pat_completeness auto
termination
  by (relation "measure (\<lambda>(buf, bensize, start, i, p). bensize - p)") auto

definition ben_validate_s :: "bytes \<Rightarrow> nat \<Rightarrow> nat \<Rightarrow> stop + bool \<times> nat" where
  "ben_validate_s buf bensize p =
     (if bensize \<le> p then Inr (False, p) else ben_validate_s_loop buf bensize p 0 p)"

function ben_validate_i_loop :: "bytes \<Rightarrow> nat \<Rightarrow> nat \<Rightarrow> nat \<Rightarrow> nat \<Rightarrow> stop + bool \<times> nat" where
  "ben_validate_i_loop buf bensize start i p =
     (if bensize \<le> p then Inr (\<not> bensize < p, p)
      else bindE (rd buf p) (\<lambda>c.
        if isdigit c then ben_validate_i_loop buf bensize start (i + 1) (p + 1)
        else if c = 101 then
          (if i \<le> 0 \<or> BEN_INT_MAXLEN < i then Inr (False, p)
           else let result = strtol (take i (drop start buf)) in
             if result < 0 \<or> BEN_INT_MAXSIZE < result then Inr (False, p)
             else Inr (\<not> bensize < p + 1, p + 1))
        else Inr (False, p)))"
  by pat_completeness auto
termination
  by (relation "measure (\<lambda>(buf, bensize, start, i, p). bensize - p)") auto

definition ben_validate_i :: "bytes \<Rightarrow> nat \<Rightarrow> nat \<Rightarrow> stop + bool \<times> nat" where
  "ben_validate_i buf bensize p =
     (if bensize \<le> p + 1 then Inr (False, p + 1)
      else bindE (rd buf (p + 1)) (\<lambda>c.
        if c = 45 then
          (if bensize \<le> p + 2 then Inr (False, p + 2)
           else ben_validate_i_loop buf bensize (p + 2) 0 (p + 2))
        else ben_validate_i_loop buf bensize (p + 1) 0 (p + 1)))"

declare ben_validate_s_loop.simps [simp del] ben_validate_i_loop.simps [simp del]

text \<open>As in the decoder, the first increment of \<open>ben_validate_d\<close> and \<open>ben_validate_l\<close>, with
  its bound check, stands at the call, and the functions are the loops.\<close>

function (sequential) ben_validate_r :: "nat \<Rightarrow> bytes \<Rightarrow> nat \<Rightarrow> nat \<Rightarrow> stop + bool \<times> nat"
  and ben_validate_d :: "nat \<Rightarrow> bytes \<Rightarrow> nat \<Rightarrow> nat \<Rightarrow> stop + bool \<times> nat"
  and ben_validate_l :: "nat \<Rightarrow> bytes \<Rightarrow> nat \<Rightarrow> nat \<Rightarrow> stop + bool \<times> nat" where
  "ben_validate_r 0 buf bensize p = Inl NoFuel"
| "ben_validate_r (Suc n) buf bensize p =
     (if bensize < 1 then Inr (False, p)
      else if bensize \<le> p then Inr (False, p)
      else bindE (rd buf p) (\<lambda>c.
        if c = 100 then
          (if bensize \<le> p + 1 then Inr (False, p + 1) else ben_validate_d n buf bensize (p + 1))
        else if c = 108 then
          (if bensize \<le> p + 1 then Inr (False, p + 1) else ben_validate_l n buf bensize (p + 1))
        else if c = 105 then ben_validate_i buf bensize p
        else if isdigit c then ben_validate_s buf bensize p
        else Inr (False, p)))"
| "ben_validate_d 0 buf bensize p = Inl NoFuel"
| "ben_validate_d (Suc n) buf bensize p =
     bindE (rd buf p) (\<lambda>c.
       if c = 101 then Inr (\<not> bensize < p + 1, p + 1)
       else bindE (ben_validate_s buf bensize p) (\<lambda>(ok, p1).
         if \<not> ok then Inr (False, p1)
         else bindE (ben_validate_r n buf bensize p1) (\<lambda>(ok, p2).
           if \<not> ok then Inr (False, p2)
           else if bensize \<le> p2 then Inr (False, p2)
           else ben_validate_d n buf bensize p2)))"
| "ben_validate_l 0 buf bensize p = Inl NoFuel"
| "ben_validate_l (Suc n) buf bensize p =
     bindE (rd buf p) (\<lambda>c.
       if c = 101 then Inr (\<not> bensize < p + 1, p + 1)
       else bindE (ben_validate_r n buf bensize p) (\<lambda>(ok, p1).
         if \<not> ok then Inr (False, p1)
         else if bensize \<le> p1 then Inr (False, p1)
         else ben_validate_l n buf bensize p1))"
  by pat_completeness auto

termination
  by (relation "measure (case_sum (\<lambda>(n, _). n) (case_sum (\<lambda>(n, _). n) (\<lambda>(n, _). n)))") auto

definition ben_validate :: "bytes \<Rightarrow> nat \<Rightarrow> stop + bool" where
  "ben_validate buf bensize = bindE (ben_validate_r (ben_fuel buf) buf bensize 0) (\<lambda>(ok, _). Inr ok)"

section \<open>Access\<close>

definition ben_is_dict :: "BEN option \<Rightarrow> bool" where
  "ben_is_dict node = (case node of Some (BEN_DICT _) \<Rightarrow> True | _ \<Rightarrow> False)"

definition ben_is_list :: "BEN option \<Rightarrow> bool" where
  "ben_is_list node = (case node of Some (BEN_LIST _) \<Rightarrow> True | _ \<Rightarrow> False)"

definition ben_is_str :: "BEN option \<Rightarrow> bool" where
  "ben_is_str node = (case node of Some (BEN_STR _) \<Rightarrow> True | _ \<Rightarrow> False)"

definition ben_is_int :: "BEN option \<Rightarrow> bool" where
  "ben_is_int node = (case node of Some (BEN_INT _) \<Rightarrow> True | _ \<Rightarrow> False)"

fun search_loop :: "(bytes \<times> BEN) list \<Rightarrow> bytes \<Rightarrow> BEN option" where
  "search_loop [] key = None"
| "search_loop (tuple # d) key =
     (if length (fst tuple) = length key \<and> memcmp (fst tuple) key = 0 then Some (snd tuple)
      else search_loop d key)"

definition ben_dict_search_key :: "BEN option \<Rightarrow> BEN option \<Rightarrow> BEN option" where
  "ben_dict_search_key node key =
     (case (node, key) of (Some (BEN_DICT d), Some (BEN_STR k)) \<Rightarrow> search_loop d k | _ \<Rightarrow> None)"

definition ben_dict_search_str :: "BEN option \<Rightarrow> string \<Rightarrow> BEN option" where
  "ben_dict_search_str node buffer = ben_dict_search_key node (Some (BEN_STR (lit buffer)))"

text \<open>The bytes of a string node; applied to anything else the C code reads the wrong union member.\<close>

definition ben_str_s :: "BEN option \<Rightarrow> bytes option" where
  "ben_str_s node = (case node of Some (BEN_STR s) \<Rightarrow> Some s | _ \<Rightarrow> None)"

definition ben_str_i :: "BEN option \<Rightarrow> nat option" where
  "ben_str_i node = map_option length (ben_str_s node)"

section \<open>Digits\<close>

lemma rd_drop: "drop p buf = c # rest \<Longrightarrow> rd buf p = Inr c"
proof -
  assume d: "drop p buf = c # rest"
  then have "p < length buf" using not_less_eq_eq by fastforce
  with d show ?thesis by (simp add: rd_def flip: Cons_nth_drop_Suc)
qed

lemma drop_step: "drop p buf = c # rest \<Longrightarrow> drop (Suc p) buf = rest"
  by (metis drop_Suc list.sel(3) tl_drop)

lemma drop_append_step: "drop p buf = xs @ rest \<Longrightarrow> drop (p + length xs) buf = rest"
  by (metis add.commute append_eq_conv_conj drop_drop)

lemma unat_digit: "d < 10 \<Longrightarrow> unat (of_nat (48 + d) :: UCHAR) = 48 + d"
  by (simp add: unat_of_nat take_bit_nat_eq_self del: of_nat_add)

lemma isdigit_of_nat: "d < 10 \<Longrightarrow> isdigit (of_nat (48 + d))"
  using unat_digit [of d] by (simp add: isdigit_def word_le_nat_alt del: of_nat_add)

lemma nat_digits_digits: "c \<in> set (nat_digits n) \<Longrightarrow> isdigit c"
proof (induction n rule: nat_digits.induct)
  case (1 n)
  then show ?case
    using isdigit_of_nat [of n] isdigit_of_nat [of "n mod 10"]
    by (subst (asm) (2) nat_digits.simps) (auto split: if_splits)
qed

lemma nat_digits_val: "digits_val (nat_digits n) = n"
proof (induction n rule: nat_digits.induct)
  case (1 n)
  then show ?case
    using unat_digit [of n] unat_digit [of "n mod 10"]
    by (subst nat_digits.simps) (auto simp del: of_nat_add)
qed

lemma nat_digits_length: "0 < k \<Longrightarrow> n < 10 ^ k \<Longrightarrow> length (nat_digits n) \<le> k"
proof (induction k arbitrary: n)
  case (Suc k)
  show ?case
  proof (cases "n < 10")
    case True
    then show ?thesis by (subst nat_digits.simps) simp
  next
    case False
    then have "0 < k" using Suc.prems by (cases k) auto
    moreover have "n div 10 < 10 ^ k" using Suc.prems(2) by (simp add: div_less_iff_less_mult mult.commute)
    ultimately show ?thesis using Suc.IH [of "n div 10"] False by (subst nat_digits.simps) simp
  qed
qed simp

lemma nat_digits_ne: "0 < length (nat_digits n)"
  by (subst nat_digits.simps) simp

lemma strtol_digits: "int n \<le> LONG_MAX \<Longrightarrow> strtol (nat_digits n) = int n"
  by (simp add: strtol_def nat_digits_val del: digits_val.simps)

section \<open>The encoder\<close>

lemma enc_size:
  "length (ben_enc_rec b) = ben_enc_size b" "length (enc_l l) = enc_size_l l"
  "length (enc_d d) = enc_size_d d"
  by (induction b and l and d rule: ben_enc_rec_enc_l_enc_d.induct) simp_all

lemma ben_enc_Some: "ben_enc b = Some (ben_enc_rec b)"
  by (cases b) (simp_all add: ben_enc_def Let_def enc_size)

text \<open>The largest magnitude of an integer and the longest string in a value.\<close>

fun ints_le :: "int \<Rightarrow> BEN \<Rightarrow> bool" and ints_le_l :: "int \<Rightarrow> BEN list \<Rightarrow> bool"
  and ints_le_d :: "int \<Rightarrow> (bytes \<times> BEN) list \<Rightarrow> bool" where
  "ints_le m (BEN_DICT d) = ints_le_d m d"
| "ints_le m (BEN_LIST l) = ints_le_l m l"
| "ints_le m (BEN_INT i) = (\<bar>i\<bar> \<le> m)"
| "ints_le m (BEN_STR s) = True"
| "ints_le_l m [] = True"
| "ints_le_l m (b # bs) = (ints_le m b \<and> ints_le_l m bs)"
| "ints_le_d m [] = True"
| "ints_le_d m ((k, v) # kvs) = (ints_le m v \<and> ints_le_d m kvs)"

fun strs_le :: "nat \<Rightarrow> BEN \<Rightarrow> bool" and strs_le_l :: "nat \<Rightarrow> BEN list \<Rightarrow> bool"
  and strs_le_d :: "nat \<Rightarrow> (bytes \<times> BEN) list \<Rightarrow> bool" where
  "strs_le m (BEN_DICT d) = strs_le_d m d"
| "strs_le m (BEN_LIST l) = strs_le_l m l"
| "strs_le m (BEN_INT i) = True"
| "strs_le m (BEN_STR s) = (length s \<le> m)"
| "strs_le_l m [] = True"
| "strs_le_l m (b # bs) = (strs_le m b \<and> strs_le_l m bs)"
| "strs_le_d m [] = True"
| "strs_le_d m ((k, v) # kvs) = (length k \<le> m \<and> strs_le m v \<and> strs_le_d m kvs)"

section \<open>Decoding what was encoded\<close>

lemma dec_s_digits:
  "drop p buf = ds @ 58 # rest \<Longrightarrow> (\<forall>c \<in> set ds. isdigit c) \<Longrightarrow>
   ben_dec_s_loop buf start i p =
     (if BUF_SIZE \<le> i + length ds then Inl OOB
      else let l = nat (strtol (take (i + length ds) (drop start buf))) in
        if l \<le> length rest then Inr (Some (BEN_STR (take l rest)), p + length ds + 1 + l) else Inl OOB)"
proof (induction ds arbitrary: i p)
  case Nil
  then have r: "rd buf p = Inr 58" and d: "drop (Suc p) buf = rest"
    by (auto intro: rd_drop dest: drop_step)
  from d have "length buf - Suc p = length rest" by (metis length_drop)
  moreover have "Suc p \<le> length buf" using r by (auto simp: rd_def split: if_splits)
  moreover have "\<not> isdigit 58" by (simp add: isdigit_def)
  ultimately show ?case using r d
    by (subst ben_dec_s_loop.simps) (auto simp: Let_def)
next
  case (Cons c ds)
  then have "rd buf p = Inr c" "drop (p + 1) buf = ds @ 58 # rest" "isdigit c"
    by (auto intro: rd_drop dest: drop_step)
  with Cons.IH [of "p + 1" "i + 1"] Cons.prems show ?case
    by (subst ben_dec_s_loop.simps) (simp add: Let_def)
qed

lemma dec_i_digits:
  "drop p buf = ds @ 101 # rest \<Longrightarrow> (\<forall>c \<in> set ds. isdigit c) \<Longrightarrow>
   ben_dec_i_loop buf prefix start i p =
     (if BUF_SIZE \<le> i + length ds then Inl OOB
      else Inr (Some (BEN_INT (prefix * strtol (take (i + length ds) (drop start buf)))),
        p + length ds + 1))"
proof (induction ds arbitrary: i p)
  case Nil
  then have r: "rd buf p = Inr 101" by (auto intro: rd_drop)
  moreover have "\<not> isdigit 101" by (simp add: isdigit_def)
  ultimately show ?case
    by (subst ben_dec_i_loop.simps) (auto simp: Let_def)
next
  case (Cons c ds)
  then have "rd buf p = Inr c" "drop (p + 1) buf = ds @ 101 # rest" "isdigit c"
    by (auto intro: rd_drop dest: drop_step)
  with Cons.IH [of "p + 1" "i + 1"] Cons.prems show ?case
    by (subst ben_dec_i_loop.simps) simp
qed

lemma long_digits_len: "\<bar>i\<bar> \<le> LONG_MAX \<Longrightarrow> length (nat_digits (nat \<bar>i\<bar>)) \<le> 19"
  by (rule nat_digits_length) auto

lemma dec_s_enc:
  assumes "drop p buf = ben_enc_rec (BEN_STR s) @ rest" and "int (length s) \<le> LONG_MAX"
  shows "ben_dec_s buf p = Inr (Some (BEN_STR s), p + length (ben_enc_rec (BEN_STR s)))"
proof -
  let ?ds = "nat_digits (length s)"
  from assms(1) have d: "drop p buf = ?ds @ 58 # (s @ rest)" by (simp add: long_digits_def)
  have "length ?ds \<le> 19" using long_digits_len [of "int (length s)"] assms(2) by simp
  moreover have "take (length ?ds) (drop p buf) = ?ds" by (simp add: d)
  ultimately show ?thesis
    using dec_s_digits [OF d, of p 0] nat_digits_digits strtol_digits [OF assms(2)]
    by (simp add: ben_dec_s_def Let_def long_digits_def)
qed

lemma dec_i_enc:
  assumes "drop p buf = ben_enc_rec (BEN_INT i) @ rest" and "\<bar>i\<bar> \<le> LONG_MAX"
  shows "ben_dec_i buf p = Inr (Some (BEN_INT i), p + length (ben_enc_rec (BEN_INT i)))"
proof (cases "i < 0")
  case True
  let ?ds = "nat_digits (nat (- i))"
  from assms(1) True have d: "drop p buf = 105 # 45 # ?ds @ 101 # rest" by (simp add: long_digits_def)
  from drop_step [OF d] have d1: "drop (p + 1) buf = 45 # ?ds @ 101 # rest" by simp
  from drop_step [OF d1] have d2: "drop (p + 2) buf = ?ds @ 101 # rest" by simp
  have "length ?ds \<le> 19" using long_digits_len [OF assms(2)] True by simp
  moreover have "strtol ?ds = - i" using strtol_digits [of "nat (- i)"] True assms(2) by simp
  ultimately show ?thesis
    using dec_i_digits [OF d2, of "-1" "p + 2" 0] nat_digits_digits rd_drop [OF d1] True d2
    by (simp add: ben_dec_i_def long_digits_def)
next
  case False
  let ?ds = "nat_digits (nat i)"
  from assms(1) False have d: "drop p buf = 105 # ?ds @ 101 # rest" by (simp add: long_digits_def)
  from drop_step [OF d] have d1: "drop (p + 1) buf = ?ds @ 101 # rest" by simp
  obtain c cs where ds: "?ds = c # cs" using nat_digits_ne [of "nat i"] by (cases ?ds) auto
  then have "isdigit c" using nat_digits_digits [of c "nat i"] by simp
  then have "c \<noteq> 45" by (auto simp: isdigit_def)
  moreover have "rd buf (p + 1) = Inr c" using d1 ds by (auto intro: rd_drop)
  moreover have "length ?ds \<le> 19" using long_digits_len [OF assms(2)] False by simp
  moreover have "strtol ?ds = i" using strtol_digits [of "nat i"] False assms(2) by simp
  ultimately show ?thesis
    using dec_i_digits [OF d1, of 1 "p + 1" 0] nat_digits_digits False d1
    by (simp add: ben_dec_i_def long_digits_def)
qed

lemma enc_nonempty: "1 \<le> length (ben_enc_rec b)"
  by (cases b) simp_all

lemma enc_head:
  "\<exists>c cs. ben_enc_rec b = c # cs \<and> c \<noteq> 101 \<and>
     (case b of BEN_DICT _ \<Rightarrow> c = 100 | BEN_LIST _ \<Rightarrow> c = 108 | BEN_INT _ \<Rightarrow> c = 105
      | BEN_STR _ \<Rightarrow> isdigit c)"
proof (cases b)
  case (BEN_STR s)
  obtain c cs where ds: "nat_digits (length s) = c # cs"
    using nat_digits_ne [of "length s"] by (cases "nat_digits (length s)") auto
  then have "isdigit c" using nat_digits_digits [of c "length s"] by simp
  with ds BEN_STR show ?thesis by (auto simp: long_digits_def isdigit_def)
qed auto

lemma isdigit_not: "isdigit c \<Longrightarrow> c \<noteq> 100 \<and> c \<noteq> 108 \<and> c \<noteq> 105 \<and> c \<noteq> 101"
  by (auto simp: isdigit_def)

text \<open>Fuel of the length of the encoding is enough.\<close>

lemma dec_enc:
  "drop p buf = ben_enc_rec b @ rest \<Longrightarrow> ints_le LONG_MAX b \<Longrightarrow> int (length (ben_enc_rec b)) < LONG_MAX \<Longrightarrow>
   length (ben_enc_rec b) \<le> n \<Longrightarrow> ben_dec_r n buf p = Inr (Some b, p + length (ben_enc_rec b))"
  "drop p buf = enc_l l @ 101 # rest \<Longrightarrow> ints_le_l LONG_MAX l \<Longrightarrow>
   int (length l0 + length (enc_l l)) < LONG_MAX \<Longrightarrow> length (enc_l l) < n \<Longrightarrow>
   ben_dec_l n buf (BEN_LIST l0) p = Inr (Some (BEN_LIST (l0 @ l)), p + length (enc_l l) + 1)"
  "drop p buf = enc_d d @ 101 # rest \<Longrightarrow> ints_le_d LONG_MAX d \<Longrightarrow>
   int (length d0 + length (enc_d d)) < LONG_MAX \<Longrightarrow> length (enc_d d) < n \<Longrightarrow>
   ben_dec_d n buf (BEN_DICT d0) p = Inr (Some (BEN_DICT (d0 @ d)), p + length (enc_d d) + 1)"
proof (induction b and l and d arbitrary: n p rest and n p rest l0 and n p rest d0
    rule: ben_enc_rec_enc_l_enc_d.induct)
  case (1 d)
  from "1.prems"(1) have d: "drop p buf = 100 # enc_d d @ 101 # rest" by simp
  obtain m where n: "n = Suc m" using "1.prems"(4) by (cases n) auto
  have "ben_dec_d m buf (BEN_DICT []) (p + 1) = Inr (Some (BEN_DICT ([] @ d)), p + 1 + length (enc_d d) + 1)"
    using "1.prems" drop_step [OF d] n by (intro "1.IH") auto
  then show ?case using rd_drop [OF d] n by simp
next
  case (2 l)
  from "2.prems"(1) have d: "drop p buf = 108 # enc_l l @ 101 # rest" by simp
  obtain m where n: "n = Suc m" using "2.prems"(4) by (cases n) auto
  have "ben_dec_l m buf (BEN_LIST []) (p + 1) = Inr (Some (BEN_LIST ([] @ l)), p + 1 + length (enc_l l) + 1)"
    using "2.prems" drop_step [OF d] n by (intro "2.IH") auto
  then show ?case using rd_drop [OF d] n by simp
next
  case (3 i)
  obtain m where n: "n = Suc m" using "3.prems"(4) by (cases n) auto
  from "3.prems"(1) have "rd buf p = Inr 105" by (auto intro: rd_drop)
  with dec_i_enc [OF "3.prems"(1)] "3.prems"(2) n show ?case by simp
next
  case (4 s)
  obtain m where n: "n = Suc m" using "4.prems"(4) enc_nonempty [of "BEN_STR s"] by (cases n) auto
  obtain c cs where c: "ben_enc_rec (BEN_STR s) = c # cs" "isdigit c"
    using enc_head [of "BEN_STR s"] by auto
  then have "rd buf p = Inr c" using "4.prems"(1) by (auto intro: rd_drop simp del: ben_enc_rec.simps)
  with dec_s_enc [OF "4.prems"(1)] "4.prems"(3) n c(2) isdigit_not [OF c(2)] show ?case by simp
next
  case 5
  then have "rd buf p = Inr 101" by (auto intro: rd_drop)
  with 5 show ?case by (cases n) simp_all
next
  case (6 b bs)
  obtain m where n: "n = Suc m" using "6.prems"(4) by (cases n) auto
  from "6.prems"(1) have d: "drop p buf = ben_enc_rec b @ enc_l bs @ 101 # rest" by simp
  obtain c cs where c: "ben_enc_rec b = c # cs" "c \<noteq> 101" using enc_head [of b] by auto
  have r: "rd buf p = Inr c" using d c by (auto intro: rd_drop)
  have "ben_dec_r m buf p = Inr (Some b, p + length (ben_enc_rec b))"
    using "6.prems" d n by (intro "6.IH"(1)) auto
  moreover have "ben_dec_l m buf (BEN_LIST (l0 @ [b])) (p + length (ben_enc_rec b)) =
    Inr (Some (BEN_LIST ((l0 @ [b]) @ bs)), p + length (ben_enc_rec b) + length (enc_l bs) + 1)"
    using "6.prems" drop_append_step [OF d] n enc_nonempty [of b] by (intro "6.IH"(2)) auto
  ultimately show ?case using r c n "6.prems"(3) by (simp add: ben_list_def)
next
  case 7
  then have "rd buf p = Inr 101" by (auto intro: rd_drop)
  with 7 show ?case by (cases n) simp_all
next
  case (8 k v kvs)
  obtain m where n: "n = Suc m" using "8.prems"(4) by (cases n) auto
  let ?k = "ben_enc_rec (BEN_STR k)"
  from "8.prems"(1) have d: "drop p buf = ?k @ ben_enc_rec v @ enc_d kvs @ 101 # rest" by simp
  note d1 = drop_append_step [OF d]
  obtain c cs where c: "?k = c # cs" "c \<noteq> 101" using enc_head [of "BEN_STR k"] by auto
  have r: "rd buf p = Inr c" using d c by (auto intro: rd_drop simp del: ben_enc_rec.simps)
  have kv: "int (length k) \<le> LONG_MAX" using "8.prems"(3) by simp
  have "ben_dec_r m buf (p + length ?k) = Inr (Some v, p + length ?k + length (ben_enc_rec v))"
    using "8.prems" d1 n by (intro "8.IH"(2)) auto
  moreover have "ben_dec_d m buf (BEN_DICT (d0 @ [(k, v)])) (p + length ?k + length (ben_enc_rec v)) =
    Inr (Some (BEN_DICT ((d0 @ [(k, v)]) @ kvs)), p + length ?k + length (ben_enc_rec v) + length (enc_d kvs) + 1)"
    using "8.prems" drop_append_step [OF d1] n enc_nonempty [of v] by (intro "8.IH"(3)) auto
  ultimately show ?case
    using r c n "8.prems"(3) dec_s_enc [OF d kv]
    by (simp add: ben_dict_def add.assoc del: ben_enc_rec.simps)
qed

section \<open>Validating what was encoded\<close>

lemma validate_s_digits:
  "drop p buf = ds @ 58 # rest \<Longrightarrow> (\<forall>c \<in> set ds. isdigit c) \<Longrightarrow> p + length ds < bensize \<Longrightarrow>
   ben_validate_s_loop buf bensize start i p =
     (let l = strtol (take (i + length ds) (drop start buf)); q = p + length ds + nat l + 1 in
      if i + length ds = 0 \<or> BEN_STR_MAXLEN < i + length ds \<or> l < 0 \<or> BEN_STR_MAXSIZE < l
      then Inr (False, p + length ds) else Inr (\<not> bensize < q, q))"
proof (induction ds arbitrary: i p)
  case Nil
  then have "rd buf p = Inr 58" by (auto intro: rd_drop)
  moreover have "\<not> isdigit 58" by (simp add: isdigit_def)
  ultimately show ?case using Nil.prems
    by (subst ben_validate_s_loop.simps) (auto simp: Let_def)
next
  case (Cons c ds)
  then have "rd buf p = Inr c" "drop (p + 1) buf = ds @ 58 # rest" "isdigit c"
    by (auto intro: rd_drop dest: drop_step)
  with Cons.IH [of "p + 1" "i + 1"] Cons.prems show ?case
    by (subst ben_validate_s_loop.simps) (simp add: Let_def)
qed

lemma validate_i_digits:
  "drop p buf = ds @ 101 # rest \<Longrightarrow> (\<forall>c \<in> set ds. isdigit c) \<Longrightarrow> p + length ds < bensize \<Longrightarrow>
   ben_validate_i_loop buf bensize start i p =
     (let l = strtol (take (i + length ds) (drop start buf)); q = p + length ds + 1 in
      if i + length ds = 0 \<or> BEN_INT_MAXLEN < i + length ds \<or> l < 0 \<or> BEN_INT_MAXSIZE < l
      then Inr (False, p + length ds) else Inr (\<not> bensize < q, q))"
proof (induction ds arbitrary: i p)
  case Nil
  then have "rd buf p = Inr 101" by (auto intro: rd_drop)
  moreover have "\<not> isdigit 101" by (simp add: isdigit_def)
  ultimately show ?case using Nil.prems
    by (subst ben_validate_i_loop.simps) (auto simp: Let_def)
next
  case (Cons c ds)
  then have "rd buf p = Inr c" "drop (p + 1) buf = ds @ 101 # rest" "isdigit c"
    by (auto intro: rd_drop dest: drop_step)
  with Cons.IH [of "p + 1" "i + 1"] Cons.prems show ?case
    by (subst ben_validate_i_loop.simps) (simp add: Let_def)
qed

lemma validate_s_enc:
  assumes "drop p buf = ben_enc_rec (BEN_STR s) @ rest" and "length s \<le> 1023"
    and "p + length (ben_enc_rec (BEN_STR s)) \<le> bensize"
  shows "ben_validate_s buf bensize p = Inr (True, p + length (ben_enc_rec (BEN_STR s)))"
proof -
  let ?ds = "nat_digits (length s)"
  from assms(1) have d: "drop p buf = ?ds @ 58 # (s @ rest)" by (simp add: long_digits_def)
  have "length ?ds \<le> 4" by (rule nat_digits_length) (use assms(2) in auto)
  moreover have "take (length ?ds) (drop p buf) = ?ds" by (simp add: d)
  moreover have "p + length ?ds < bensize" using assms(3) by (simp add: long_digits_def)
  ultimately show ?thesis
    using validate_s_digits [OF d, of bensize p 0] nat_digits_digits strtol_digits [of "length s"] assms
      nat_digits_ne [of "length s"]
    by (simp add: ben_validate_s_def Let_def long_digits_def)
qed

lemma validate_i_enc:
  assumes "drop p buf = ben_enc_rec (BEN_INT i) @ rest" and "\<bar>i\<bar> \<le> BEN_INT_MAXSIZE"
    and "p + length (ben_enc_rec (BEN_INT i)) \<le> bensize"
  shows "ben_validate_i buf bensize p = Inr (True, p + length (ben_enc_rec (BEN_INT i)))"
proof (cases "i < 0")
  case True
  let ?ds = "nat_digits (nat (- i))"
  from assms(1) True have d: "drop p buf = 105 # 45 # ?ds @ 101 # rest" by (simp add: long_digits_def)
  from drop_step [OF d] have d1: "drop (p + 1) buf = 45 # ?ds @ 101 # rest" by simp
  from drop_step [OF d1] have d2: "drop (p + 2) buf = ?ds @ 101 # rest" by simp
  have "length ?ds \<le> 10" by (rule nat_digits_length) (use True assms(2) in auto)
  moreover have "strtol ?ds = - i" using strtol_digits [of "nat (- i)"] True assms(2) by simp
  moreover have "p + 2 + length ?ds < bensize" using assms(3) True by (simp add: long_digits_def)
  ultimately show ?thesis
    using validate_i_digits [OF d2, of bensize "p + 2" 0] nat_digits_digits rd_drop [OF d1] True d2
      nat_digits_ne [of "nat (- i)"] assms(2)
    by (simp add: ben_validate_i_def long_digits_def Let_def)
next
  case False
  let ?ds = "nat_digits (nat i)"
  from assms(1) False have d: "drop p buf = 105 # ?ds @ 101 # rest" by (simp add: long_digits_def)
  from drop_step [OF d] have d1: "drop (p + 1) buf = ?ds @ 101 # rest" by simp
  obtain c cs where ds: "?ds = c # cs" using nat_digits_ne [of "nat i"] by (cases ?ds) auto
  then have "isdigit c" using nat_digits_digits [of c "nat i"] by simp
  then have "c \<noteq> 45" by (auto simp: isdigit_def)
  moreover have "rd buf (p + 1) = Inr c" using d1 ds by (auto intro: rd_drop)
  moreover have "length ?ds \<le> 10" by (rule nat_digits_length) (use False assms(2) in auto)
  moreover have "strtol ?ds = i" using strtol_digits [of "nat i"] False assms(2) by simp
  moreover have "p + 1 + length ?ds < bensize" using assms(3) False by (simp add: long_digits_def)
  ultimately show ?thesis
    using validate_i_digits [OF d1, of bensize "p + 1" 0] nat_digits_digits False d1
      nat_digits_ne [of "nat i"] assms(2)
    by (simp add: ben_validate_i_def long_digits_def Let_def)
qed

lemma validate_enc:
  "drop p buf = ben_enc_rec b @ rest \<Longrightarrow> ints_le BEN_INT_MAXSIZE b \<Longrightarrow> strs_le 1023 b \<Longrightarrow>
   p + length (ben_enc_rec b) \<le> bensize \<Longrightarrow> length (ben_enc_rec b) \<le> n \<Longrightarrow>
   ben_validate_r n buf bensize p = Inr (True, p + length (ben_enc_rec b))"
  "drop p buf = enc_l l @ 101 # rest \<Longrightarrow> ints_le_l BEN_INT_MAXSIZE l \<Longrightarrow> strs_le_l 1023 l \<Longrightarrow>
   p + length (enc_l l) < bensize \<Longrightarrow> length (enc_l l) < n \<Longrightarrow>
   ben_validate_l n buf bensize p = Inr (True, p + length (enc_l l) + 1)"
  "drop p buf = enc_d d @ 101 # rest \<Longrightarrow> ints_le_d BEN_INT_MAXSIZE d \<Longrightarrow> strs_le_d 1023 d \<Longrightarrow>
   p + length (enc_d d) < bensize \<Longrightarrow> length (enc_d d) < n \<Longrightarrow>
   ben_validate_d n buf bensize p = Inr (True, p + length (enc_d d) + 1)"
proof (induction b and l and d arbitrary: n p rest and n p rest and n p rest
    rule: ben_enc_rec_enc_l_enc_d.induct)
  case (1 d)
  from "1.prems"(1) have d: "drop p buf = 100 # enc_d d @ 101 # rest" by simp
  obtain m where n: "n = Suc m" using "1.prems"(5) by (cases n) auto
  have "ben_validate_d m buf bensize (p + 1) = Inr (True, p + 1 + length (enc_d d) + 1)"
    using "1.prems" drop_step [OF d] n by (intro "1.IH") auto
  then show ?case using rd_drop [OF d] n "1.prems"(4) by simp
next
  case (2 l)
  from "2.prems"(1) have d: "drop p buf = 108 # enc_l l @ 101 # rest" by simp
  obtain m where n: "n = Suc m" using "2.prems"(5) by (cases n) auto
  have "ben_validate_l m buf bensize (p + 1) = Inr (True, p + 1 + length (enc_l l) + 1)"
    using "2.prems" drop_step [OF d] n by (intro "2.IH") auto
  then show ?case using rd_drop [OF d] n "2.prems"(4) by simp
next
  case (3 i)
  obtain m where n: "n = Suc m" using "3.prems"(5) by (cases n) auto
  from "3.prems"(1) have "rd buf p = Inr 105" by (auto intro: rd_drop)
  with validate_i_enc [OF "3.prems"(1) _ "3.prems"(4)] "3.prems" n show ?case by simp
next
  case (4 s)
  obtain m where n: "n = Suc m" using "4.prems"(5) enc_nonempty [of "BEN_STR s"] by (cases n) auto
  obtain c cs where c: "ben_enc_rec (BEN_STR s) = c # cs" "isdigit c"
    using enc_head [of "BEN_STR s"] by auto
  then have "rd buf p = Inr c" using "4.prems"(1) by (auto intro: rd_drop simp del: ben_enc_rec.simps)
  with validate_s_enc [OF "4.prems"(1) _ "4.prems"(4)] "4.prems"(3,4) n c(2) isdigit_not [OF c(2)]
  show ?case by simp
next
  case 5
  then have "rd buf p = Inr 101" by (auto intro: rd_drop)
  with 5 show ?case by (cases n) simp_all
next
  case (6 b bs)
  obtain m where n: "n = Suc m" using "6.prems"(5) by (cases n) auto
  from "6.prems"(1) have d: "drop p buf = ben_enc_rec b @ enc_l bs @ 101 # rest" by simp
  obtain c cs where c: "ben_enc_rec b = c # cs" "c \<noteq> 101" using enc_head [of b] by auto
  have r: "rd buf p = Inr c" using d c by (auto intro: rd_drop)
  have "ben_validate_r m buf bensize p = Inr (True, p + length (ben_enc_rec b))"
    using "6.prems" d n by (intro "6.IH"(1)) auto
  moreover have "ben_validate_l m buf bensize (p + length (ben_enc_rec b)) =
    Inr (True, p + length (ben_enc_rec b) + length (enc_l bs) + 1)"
    using "6.prems" drop_append_step [OF d] n enc_nonempty [of b] by (intro "6.IH"(2)) auto
  ultimately show ?case using r c n "6.prems"(4) by simp
next
  case 7
  then have "rd buf p = Inr 101" by (auto intro: rd_drop)
  with 7 show ?case by (cases n) simp_all
next
  case (8 k v kvs)
  obtain m where n: "n = Suc m" using "8.prems"(5) by (cases n) auto
  let ?k = "ben_enc_rec (BEN_STR k)"
  from "8.prems"(1) have d: "drop p buf = ?k @ ben_enc_rec v @ enc_d kvs @ 101 # rest" by simp
  note d1 = drop_append_step [OF d]
  obtain c cs where c: "?k = c # cs" "c \<noteq> 101" using enc_head [of "BEN_STR k"] by auto
  have r: "rd buf p = Inr c" using d c by (auto intro: rd_drop simp del: ben_enc_rec.simps)
  have "ben_validate_s buf bensize p = Inr (True, p + length ?k)"
    by (rule validate_s_enc [OF d]) (use "8.prems" in auto)
  moreover have "ben_validate_r m buf bensize (p + length ?k) = Inr (True, p + length ?k + length (ben_enc_rec v))"
    using "8.prems" d1 n by (intro "8.IH"(2)) auto
  moreover have "ben_validate_d m buf bensize (p + length ?k + length (ben_enc_rec v)) =
    Inr (True, p + length ?k + length (ben_enc_rec v) + length (enc_d kvs) + 1)"
    using "8.prems" drop_append_step [OF d1] n enc_nonempty [of v] by (intro "8.IH"(3)) auto
  ultimately show ?case
    using r c(2) n "8.prems"(4) by (simp add: add.assoc del: ben_enc_rec.simps)
qed

section \<open>Decoding what was validated\<close>

text \<open>What the loops of \<open>ben_validate_s\<close> and \<open>ben_validate_i\<close> accept: a number with its end mark and
  a content that fits, which the decoder then reads in the same way, or digits up to the end of the
  received bytes.\<close>

definition digits_from :: "bytes \<Rightarrow> nat \<Rightarrow> nat \<Rightarrow> bool" where
  "digits_from buf p q \<longleftrightarrow> (\<forall>j. p \<le> j \<and> j < q \<longrightarrow> isdigit (buf ! j))"

lemma digits_from_Suc: "isdigit (buf ! p) \<Longrightarrow> digits_from buf (Suc p) q \<Longrightarrow> digits_from buf p q"
  unfolding digits_from_def by (metis Suc_le_eq le_neq_implies_less)

lemma rd_in: "p < bensize \<Longrightarrow> bensize \<le> length buf \<Longrightarrow> rd buf p = Inr (buf ! p)"
  by (simp add: rd_def)

lemma validate_s_loop_sound:
  "bensize \<le> length buf \<Longrightarrow> p \<le> bensize \<Longrightarrow>
   \<exists>ok q. ben_validate_s_loop buf bensize start i p = Inr (ok, q) \<and>
     (ok \<longrightarrow> p \<le> q \<and> q \<le> bensize \<and> (p < bensize \<longrightarrow> p < q) \<and>
       ((\<exists>s. ben_dec_s_loop buf start i p = Inr (Some (BEN_STR s), q) \<and> length s \<le> 1023) \<or>
        q = bensize \<and> digits_from buf p bensize))"
proof (induction buf bensize start i p rule: ben_validate_s_loop.induct)
  case (1 buf bensize start i p)
  show ?case
  proof (cases "bensize \<le> p")
    case True
    then have "ben_validate_s_loop buf bensize start i p = Inr (True, p)"
      using "1.prems" by (subst ben_validate_s_loop.simps) simp
    moreover have "digits_from buf p bensize" using True by (auto simp: digits_from_def)
    ultimately show ?thesis using True "1.prems" by auto
  next
    case False
    then have r: "rd buf p = Inr (buf ! p)" using "1.prems" by (simp add: rd_def)
    consider (dig) "isdigit (buf ! p)" | (col) "\<not> isdigit (buf ! p)" "buf ! p = 58"
      | (bad) "\<not> isdigit (buf ! p)" "buf ! p \<noteq> 58" by blast
    then show ?thesis
    proof cases
      case dig
      from "1.IH" [OF False r dig] False "1.prems" obtain ok q where
        v: "ben_validate_s_loop buf bensize start (i + 1) (p + 1) = Inr (ok, q)"
        and h: "ok \<longrightarrow> p + 1 \<le> q \<and> q \<le> bensize \<and>
          ((\<exists>s. ben_dec_s_loop buf start (i + 1) (p + 1) = Inr (Some (BEN_STR s), q) \<and> length s \<le> 1023) \<or>
           q = bensize \<and> digits_from buf (p + 1) bensize)" by auto
      have "ben_validate_s_loop buf bensize start i p = Inr (ok, q)"
        using v r dig False by (subst ben_validate_s_loop.simps) simp
      moreover have "ben_dec_s_loop buf start i p = ben_dec_s_loop buf start (i + 1) (p + 1)"
        using r dig by (subst ben_dec_s_loop.simps) simp
      ultimately show ?thesis using h digits_from_Suc [OF dig] by auto
    next
      case col
      let ?l = "strtol (take i (drop start buf))"
      have d: "drop p buf = [] @ 58 # drop (Suc p) buf"
        using False "1.prems"(1) col Cons_nth_drop_Suc [of p buf] by simp
      note V = validate_s_digits [OF d, of bensize start i] and D = dec_s_digits [OF d, of start i]
      show ?thesis
      proof (cases "i = 0 \<or> 4 < i \<or> ?l < 0 \<or> 1023 < ?l")
        case True
        with V False show ?thesis by (auto simp: Let_def)
      next
        case ok: False
        let ?q = "p + nat ?l + 1"
        have "ben_validate_s_loop buf bensize start i p = Inr (\<not> bensize < ?q, ?q)"
          using V False ok by (simp add: Let_def)
        moreover have "ben_dec_s_loop buf start i p = Inr (Some (BEN_STR (take (nat ?l) (drop (Suc p) buf))), ?q)"
          if "\<not> bensize < ?q"
          using D ok that "1.prems"(1) by (simp add: Let_def)
        moreover have "nat ?l \<le> 1023" using ok by linarith
        ultimately show ?thesis by (auto simp: min_le_iff_disj)
      qed
    next
      case bad
      then have "ben_validate_s_loop buf bensize start i p = Inr (False, p)"
        using r False by (subst ben_validate_s_loop.simps) simp
      then show ?thesis by auto
    qed
  qed
qed

lemma validate_i_loop_sound:
  "bensize \<le> length buf \<Longrightarrow> p \<le> bensize \<Longrightarrow> \<bar>prefix\<bar> = 1 \<Longrightarrow>
   \<exists>ok q. ben_validate_i_loop buf bensize start i p = Inr (ok, q) \<and>
     (ok \<longrightarrow> p \<le> q \<and> q \<le> bensize \<and>
       ((\<exists>v. ben_dec_i_loop buf prefix start i p = Inr (Some (BEN_INT v), q) \<and> \<bar>v\<bar> \<le> BEN_INT_MAXSIZE) \<or>
        q = bensize \<and> digits_from buf p bensize))"
proof (induction buf bensize start i p rule: ben_validate_i_loop.induct)
  case (1 buf bensize start i p)
  show ?case
  proof (cases "bensize \<le> p")
    case True
    then have "ben_validate_i_loop buf bensize start i p = Inr (True, p)"
      using "1.prems" by (subst ben_validate_i_loop.simps) simp
    moreover have "digits_from buf p bensize" using True by (auto simp: digits_from_def)
    ultimately show ?thesis using True "1.prems" by auto
  next
    case False
    then have r: "rd buf p = Inr (buf ! p)" using "1.prems" by (simp add: rd_def)
    consider (dig) "isdigit (buf ! p)" | (col) "\<not> isdigit (buf ! p)" "buf ! p = 101"
      | (bad) "\<not> isdigit (buf ! p)" "buf ! p \<noteq> 101" by blast
    then show ?thesis
    proof cases
      case dig
      from "1.IH" [OF False r dig] False "1.prems" obtain ok q where
        v: "ben_validate_i_loop buf bensize start (i + 1) (p + 1) = Inr (ok, q)"
        and h: "ok \<longrightarrow> p + 1 \<le> q \<and> q \<le> bensize \<and>
          ((\<exists>v. ben_dec_i_loop buf prefix start (i + 1) (p + 1) = Inr (Some (BEN_INT v), q) \<and>
              \<bar>v\<bar> \<le> BEN_INT_MAXSIZE) \<or>
           q = bensize \<and> digits_from buf (p + 1) bensize)" by auto
      have "ben_validate_i_loop buf bensize start i p = Inr (ok, q)"
        using v r dig False by (subst ben_validate_i_loop.simps) simp
      moreover have "ben_dec_i_loop buf prefix start i p = ben_dec_i_loop buf prefix start (i + 1) (p + 1)"
        using r dig by (subst ben_dec_i_loop.simps) simp
      ultimately show ?thesis using h digits_from_Suc [OF dig] by auto
    next
      case col
      let ?l = "strtol (take i (drop start buf))"
      have d: "drop p buf = [] @ 101 # drop (Suc p) buf"
        using False "1.prems"(1) col Cons_nth_drop_Suc [of p buf] by simp
      note V = validate_i_digits [OF d, of bensize start i] and D = dec_i_digits [OF d, of prefix start i]
      show ?thesis
      proof (cases "i = 0 \<or> 10 < i \<or> ?l < 0 \<or> BEN_INT_MAXSIZE < ?l")
        case True
        with V False show ?thesis by (auto simp: Let_def)
      next
        case ok: False
        have "ben_validate_i_loop buf bensize start i p = Inr (True, p + 1)"
          using V False ok by (simp add: Let_def)
        moreover have "ben_dec_i_loop buf prefix start i p = Inr (Some (BEN_INT (prefix * ?l)), p + 1)"
          using D ok by simp
        moreover have "\<bar>prefix * ?l\<bar> \<le> BEN_INT_MAXSIZE" using ok "1.prems"(3) by (simp add: abs_mult)
        ultimately show ?thesis using False by auto
      qed
    next
      case bad
      then have "ben_validate_i_loop buf bensize start i p = Inr (False, p)"
        using r False by (subst ben_validate_i_loop.simps) simp
      then show ?thesis by auto
    qed
  qed
qed

text \<open>The received bytes are an unterminated string or integer: digits up to their end.\<close>

definition open_ended :: "bytes \<Rightarrow> nat \<Rightarrow> nat \<Rightarrow> bool" where
  "open_ended buf bensize p \<longleftrightarrow>
     isdigit (buf ! p) \<and> digits_from buf p bensize \<or>
     buf ! p = 105 \<and> (digits_from buf (p + 1) bensize \<or> buf ! (p + 1) = 45 \<and> digits_from buf (p + 2) bensize)"

definition in_limits :: "BEN \<Rightarrow> bool" where
  "in_limits b \<longleftrightarrow> ints_le BEN_INT_MAXSIZE b \<and> strs_le 1023 b"

lemma validate_s_sound:
  assumes "bensize \<le> length buf"
  shows "\<exists>ok q. ben_validate_s buf bensize p = Inr (ok, q) \<and>
    (ok \<longrightarrow> p < q \<and> q \<le> bensize \<and>
      ((\<exists>s. ben_dec_s buf p = Inr (Some (BEN_STR s), q) \<and> length s \<le> 1023) \<or>
       q = bensize \<and> digits_from buf p bensize))"
proof (cases "bensize \<le> p")
  case True
  then show ?thesis by (auto simp: ben_validate_s_def)
next
  case False
  with validate_s_loop_sound [OF assms, of p p 0] show ?thesis
    by (auto simp: ben_validate_s_def ben_dec_s_def)
qed

lemma validate_i_sound:
  assumes "bensize \<le> length buf"
  shows "\<exists>ok q. ben_validate_i buf bensize p = Inr (ok, q) \<and>
    (ok \<longrightarrow> p < q \<and> q \<le> bensize \<and>
      ((\<exists>v. ben_dec_i buf p = Inr (Some (BEN_INT v), q) \<and> \<bar>v\<bar> \<le> BEN_INT_MAXSIZE) \<or>
       q = bensize \<and> (digits_from buf (p + 1) bensize \<or> buf ! (p + 1) = 45 \<and> digits_from buf (p + 2) bensize)))"
proof (cases "bensize \<le> p + 1")
  case True
  then show ?thesis by (auto simp: ben_validate_i_def)
next
  case False
  then have r: "rd buf (p + 1) = Inr (buf ! (p + 1))" using assms by (simp add: rd_def)
  show ?thesis
  proof (cases "buf ! (p + 1) = 45")
    case True
    show ?thesis
    proof (cases "bensize \<le> p + 2")
      case t: True
      with True r False show ?thesis by (auto simp: ben_validate_i_def)
    next
      case f: False
      then have "ben_validate_i buf bensize p = ben_validate_i_loop buf bensize (p + 2) 0 (p + 2)"
        "ben_dec_i buf p = ben_dec_i_loop buf (- 1) (p + 2) 0 (p + 2)"
        using True r False by (simp_all add: ben_validate_i_def ben_dec_i_def)
      with validate_i_loop_sound [OF assms, of "p + 2" "- 1" "p + 2" 0] f True show ?thesis
        by fastforce
    qed
  next
    case ne: False
    then have "ben_validate_i buf bensize p = ben_validate_i_loop buf bensize (p + 1) 0 (p + 1)"
      "ben_dec_i buf p = ben_dec_i_loop buf 1 (p + 1) 0 (p + 1)"
      using r False by (simp_all add: ben_validate_i_def ben_dec_i_def)
    with validate_i_loop_sound [OF assms, of "p + 1" 1 "p + 1" 0] False show ?thesis
      by fastforce
  qed
qed

lemma ints_le_l_append [simp]: "ints_le_l m (xs @ ys) = (ints_le_l m xs \<and> ints_le_l m ys)"
  by (induction xs) auto

lemma ints_le_d_append [simp]: "ints_le_d m (xs @ ys) = (ints_le_d m xs \<and> ints_le_d m ys)"
  by (induction xs) auto

lemma strs_le_l_append [simp]: "strs_le_l m (xs @ ys) = (strs_le_l m xs \<and> strs_le_l m ys)"
  by (induction xs) auto

lemma strs_le_d_append [simp]: "strs_le_d m (xs @ ys) = (strs_le_d m xs \<and> strs_le_d m ys)"
  by (induction xs) auto

text \<open>The three claims of the mutual induction.\<close>

definition sound_r :: "bytes \<Rightarrow> nat \<Rightarrow> nat \<Rightarrow> nat \<Rightarrow> bool" where
  "sound_r buf bensize n p \<longleftrightarrow> (\<exists>ok q. ben_validate_r n buf bensize p = Inr (ok, q) \<and>
     (ok \<longrightarrow> p < q \<and> q \<le> bensize \<and>
       ((\<exists>b. ben_dec_r n buf p = Inr (Some b, q) \<and> in_limits b) \<or>
        q = bensize \<and> open_ended buf bensize p)))"

definition sound_l :: "bytes \<Rightarrow> nat \<Rightarrow> nat \<Rightarrow> nat \<Rightarrow> BEN list \<Rightarrow> bool" where
  "sound_l buf bensize n p l0 \<longleftrightarrow> (\<exists>ok q. ben_validate_l n buf bensize p = Inr (ok, q) \<and>
     (ok \<longrightarrow> p < q \<and> q \<le> bensize \<and>
       (\<exists>l. ben_dec_l n buf (BEN_LIST l0) p = Inr (Some (BEN_LIST l), q) \<and> in_limits (BEN_LIST l))))"

definition sound_d :: "bytes \<Rightarrow> nat \<Rightarrow> nat \<Rightarrow> nat \<Rightarrow> (bytes \<times> BEN) list \<Rightarrow> bool" where
  "sound_d buf bensize n p d0 \<longleftrightarrow> (\<exists>ok q. ben_validate_d n buf bensize p = Inr (ok, q) \<and>
     (ok \<longrightarrow> p < q \<and> q \<le> bensize \<and>
       (\<exists>d. ben_dec_d n buf (BEN_DICT d0) p = Inr (Some (BEN_DICT d), q) \<and> in_limits (BEN_DICT d))))"

lemma sound_r_step:
  assumes b: "bensize \<le> length buf"
    and l: "p + 1 < bensize \<Longrightarrow> sound_l buf bensize n (p + 1) []"
    and d: "p + 1 < bensize \<Longrightarrow> sound_d buf bensize n (p + 1) []"
  shows "sound_r buf bensize (Suc n) p"
proof (cases "bensize \<le> p")
  case True
  then show ?thesis by (auto simp: sound_r_def)
next
  case False
  then have r: "rd buf p = Inr (buf ! p)" using b by (simp add: rd_def)
  consider (d) "buf ! p = 100" | (l) "buf ! p = 108" | (i) "buf ! p = 105"
    | (s) "isdigit (buf ! p)" | (o) "\<not> isdigit (buf ! p)" "buf ! p \<noteq> 100" "buf ! p \<noteq> 108" "buf ! p \<noteq> 105"
    by blast
  then show ?thesis
  proof cases
    case d
    with r False \<open>p + 1 < bensize \<Longrightarrow> sound_d buf bensize n (p + 1) []\<close> show ?thesis
      by (cases "bensize \<le> p + 1") (fastforce simp: sound_r_def sound_d_def)+
  next
    case l
    with r False \<open>p + 1 < bensize \<Longrightarrow> sound_l buf bensize n (p + 1) []\<close> show ?thesis
      by (cases "bensize \<le> p + 1") (fastforce simp: sound_r_def sound_l_def)+
  next
    case i
    with r False validate_i_sound [OF b, of p] show ?thesis
      by (fastforce simp: sound_r_def open_ended_def in_limits_def)
  next
    case s
    with r False validate_s_sound [OF b, of p] isdigit_not [OF s] show ?thesis
      by (fastforce simp: sound_r_def open_ended_def in_limits_def)
  next
    case o
    with r False show ?thesis by (auto simp: sound_r_def)
  qed
qed

lemma sound_l_step:
  assumes b: "bensize \<le> length buf" and p: "p < bensize"
    and room: "int (length l0) < LONG_MAX" and lim: "in_limits (BEN_LIST l0)"
    and r: "sound_r buf bensize n p"
    and l: "\<And>q v. p < q \<Longrightarrow> q < bensize \<Longrightarrow> in_limits v \<Longrightarrow> sound_l buf bensize n q (l0 @ [v])"
  shows "sound_l buf bensize (Suc n) p l0"
proof (cases "buf ! p = 101")
  case True
  with rd_in [OF p b] p lim show ?thesis by (auto simp: sound_l_def)
next
  case False
  note rd = rd_in [OF p b]
  from r obtain ok q where v: "ben_validate_r n buf bensize p = Inr (ok, q)"
    and h: "ok \<longrightarrow> p < q \<and> q \<le> bensize \<and>
       ((\<exists>b. ben_dec_r n buf p = Inr (Some b, q) \<and> in_limits b) \<or> q = bensize \<and> open_ended buf bensize p)"
    by (auto simp: sound_r_def)
  show ?thesis
  proof (cases "ok \<and> q < bensize")
    case True
    with h obtain w where w: "ben_dec_r n buf p = Inr (Some w, q)" "in_limits w" and q: "p < q" "q < bensize"
      by auto
    from l [OF q w(2)] show ?thesis
      using True False rd v w(1) q room by (fastforce simp: sound_l_def ben_list_def)
  next
    case no: False
    with False rd v show ?thesis by (auto simp: sound_l_def)
  qed
qed

lemma sound_d_step:
  assumes b: "bensize \<le> length buf" and p: "p < bensize"
    and room: "int (length d0) < LONG_MAX" and lim: "in_limits (BEN_DICT d0)"
    and r: "\<And>q. p < q \<Longrightarrow> q \<le> bensize \<Longrightarrow> sound_r buf bensize n q"
    and d: "\<And>q k v. p < q \<Longrightarrow> q < bensize \<Longrightarrow> length k \<le> 1023 \<Longrightarrow> in_limits v \<Longrightarrow>
      sound_d buf bensize n q (d0 @ [(k, v)])"
    and n: "0 < n"
  shows "sound_d buf bensize (Suc n) p d0"
proof (cases "buf ! p = 101")
  case True
  with rd_in [OF p b] p lim show ?thesis by (auto simp: sound_d_def)
next
  case False
  note rd = rd_in [OF p b]
  from validate_s_sound [OF b, of p] obtain ok q where s: "ben_validate_s buf bensize p = Inr (ok, q)"
    and hs: "ok \<longrightarrow> p < q \<and> q \<le> bensize \<and>
      ((\<exists>s. ben_dec_s buf p = Inr (Some (BEN_STR s), q) \<and> length s \<le> 1023) \<or>
       q = bensize \<and> digits_from buf p bensize)" by auto
  show ?thesis
  proof (cases ok)
    case no: False
    with False rd s show ?thesis by (auto simp: sound_d_def)
  next
    case ok: True
    with hs have q: "p < q" "q \<le> bensize" by auto
    from r [OF q] obtain ok' q' where v: "ben_validate_r n buf bensize q = Inr (ok', q')"
      and h: "ok' \<longrightarrow> q < q' \<and> q' \<le> bensize \<and>
         ((\<exists>b. ben_dec_r n buf q = Inr (Some b, q') \<and> in_limits b) \<or> q' = bensize \<and> open_ended buf bensize q)"
      by (auto simp: sound_r_def)
    show ?thesis
    proof (cases "ok' \<and> q' < bensize")
      case True
      with h obtain w where w: "ben_dec_r n buf q = Inr (Some w, q')" "in_limits w"
        and q': "q < q'" "q' < bensize" by auto
      with hs ok obtain k where k: "ben_dec_s buf p = Inr (Some (BEN_STR k), q)" "length k \<le> 1023" by auto
      have pq: "p < q'" using q q' by simp
      from d [OF pq q'(2) k(2) w(2)] show ?thesis
        using True ok False rd s v w(1) k(1) q q' room by (fastforce simp: sound_d_def ben_dict_def)
    next
      case no: False
      with False rd s ok v show ?thesis by (auto simp: sound_d_def)
    qed
  qed
qed

text \<open>Two units of fuel for each byte left are enough.\<close>

lemma validate_sound:
  assumes b: "bensize \<le> length buf" and small: "int bensize < LONG_MAX"
  shows "(0 < n \<longrightarrow> 2 * (bensize - p) \<le> n \<longrightarrow> sound_r buf bensize n p) \<and>
    (p < bensize \<longrightarrow> 2 * (bensize - p) < n \<longrightarrow> length l0 \<le> p \<longrightarrow> in_limits (BEN_LIST l0) \<longrightarrow>
      sound_l buf bensize n p l0) \<and>
    (p < bensize \<longrightarrow> 2 * (bensize - p) < n \<longrightarrow> length d0 \<le> p \<longrightarrow> in_limits (BEN_DICT d0) \<longrightarrow>
      sound_d buf bensize n p d0)"
proof (induction n arbitrary: p l0 d0)
  case (Suc n)
  show ?case
  proof (intro conjI impI)
    assume f: "2 * (bensize - p) \<le> Suc n"
    show "sound_r buf bensize (Suc n) p"
      by (rule sound_r_step [OF b]) (use Suc.IH [of "p + 1" "[]" "[]"] f in \<open>auto simp: in_limits_def\<close>)
  next
    assume p: "p < bensize" and f: "2 * (bensize - p) < Suc n" and len: "length l0 \<le> p"
      and lim: "in_limits (BEN_LIST l0)"
    show "sound_l buf bensize (Suc n) p l0"
    proof (rule sound_l_step [OF b p _ lim])
      show "int (length l0) < LONG_MAX" using len p small by linarith
      show "sound_r buf bensize n p" using Suc.IH [of p "[]" "[]"] f p by auto
      show "sound_l buf bensize n q (l0 @ [v])" if "p < q" "q < bensize" "in_limits v" for q v
        using Suc.IH [of q "l0 @ [v]" "[]"] that f len lim by (auto simp: in_limits_def)
    qed
  next
    assume p: "p < bensize" and f: "2 * (bensize - p) < Suc n" and len: "length d0 \<le> p"
      and lim: "in_limits (BEN_DICT d0)"
    show "sound_d buf bensize (Suc n) p d0"
    proof (rule sound_d_step [OF b p _ lim])
      show "int (length d0) < LONG_MAX" using len p small by linarith
      show "sound_r buf bensize n q" if "p < q" "q \<le> bensize" for q
        using Suc.IH [of q "[]" "[]"] that f p by auto
      show "sound_d buf bensize n q (d0 @ [(k, v)])"
        if "p < q" "q < bensize" "length k \<le> 1023" "in_limits v" for q k v
        using Suc.IH [of q "[]" "d0 @ [(k, v)]"] that f len lim by (auto simp: in_limits_def)
      show "0 < n" using f p by auto
    qed
  qed
qed simp

section \<open>Properties\<close>

lemma ben_fuel_ge: "bensize \<le> length buf \<Longrightarrow> 2 * bensize \<le> ben_fuel buf \<and> 0 < ben_fuel buf"
  by (simp add: ben_fuel_def)

lemma ben_dec_enc:
  assumes "ints_le LONG_MAX b" and "int (length (ben_enc_rec b)) < LONG_MAX"
  shows "\<exists>code. ben_enc b = Some code \<and> length code = ben_enc_size b \<and>
    ben_dec (code @ rest) (length code) = Inr (Some b)"
proof -
  have "length (ben_enc_rec b) \<le> ben_fuel (ben_enc_rec b @ rest)" by (simp add: ben_fuel_def)
  then have "ben_dec_r (ben_fuel (ben_enc_rec b @ rest)) (ben_enc_rec b @ rest) 0 =
    Inr (Some b, 0 + length (ben_enc_rec b))"
    by (intro dec_enc(1) [OF _ assms]) simp_all
  then show ?thesis by (simp add: ben_enc_Some ben_dec_def enc_size)
qed

text \<open>
  C14: Bencode round trip.  Whatever value is encoded, ben_enc allocates exactly the bytes it writes, and ben_dec
  reads the same value back from a buffer that starts with them, whatever follows.
  The only condition on the value is that no integer is LONG_MIN, whose magnitude does not fit a LONG.
\<close>

theorem ben_roundtrip:
  assumes "ints_le LONG_MAX b" and "int (length (ben_enc_rec b)) < LONG_MAX"
  shows "\<exists>code. ben_enc b = Some code \<and> length code = ben_enc_size b \<and>
    ben_dec (code @ rest) (length code) = Inr (Some b)"
  by (rule ben_dec_enc [OF assms])

definition ex_ben :: BEN where
  "ex_ben = BEN_DICT [([105, 100], BEN_STR [1, 2, 3]), ([108], BEN_LIST [BEN_INT (- 42), BEN_DICT []])]"

theorem ben_roundtrip_witness:
  "\<exists>code. ben_enc ex_ben = Some code \<and> length code = ben_enc_size ex_ben \<and>
     ben_dec (code @ [0, 0]) (length code) = Inr (Some ex_ben)"
  by (rule ben_roundtrip) (simp_all add: ex_ben_def long_digits_def nat_digits.simps)

lemma ben_validate_enc:
  assumes "in_limits b" and "ben_enc b = Some code"
  shows "ben_validate (code @ rest) (length code) = Inr True"
proof -
  have code: "code = ben_enc_rec b" using assms(2) by (simp add: ben_enc_Some)
  have "ben_validate_r (ben_fuel (code @ rest)) (code @ rest) (length code) 0 = Inr (True, 0 + length code)"
    unfolding code
    by (rule validate_enc(1)) (use assms(1) in \<open>simp_all add: in_limits_def ben_fuel_def\<close>)
  then show ?thesis by (simp add: ben_validate_def)
qed

text \<open>
  The validator accepts what peers of this program send: every encoded value whose strings have at most 1023 bytes and whose
  integers fit 31 bits passes ben_validate, whatever bytes follow it in the receive buffer.
\<close>

theorem ben_validate_complete:
  assumes "in_limits b" and "ben_enc b = Some code"
  shows "ben_validate (code @ rest) (length code) = Inr True"
  by (rule ben_validate_enc [OF assms])

theorem ben_validate_complete_witness:
  "\<exists>code. ben_enc ex_ben = Some code \<and> ben_validate (code @ [7]) (length code) = Inr True"
proof -
  have "in_limits ex_ben" by (simp add: ex_ben_def in_limits_def)
  from ben_validate_complete [OF this ben_enc_Some, of "[7]"] show ?thesis by (simp add: ben_enc_Some)
qed

lemma ben_dec_validated:
  assumes "bensize \<le> length buf" and "int bensize < LONG_MAX"
  shows "\<exists>ok. ben_validate buf bensize = Inr ok \<and>
    (ok \<longrightarrow> (\<exists>b. ben_dec buf bensize = Inr (Some b) \<and> in_limits b) \<or> open_ended buf bensize 0)"
proof -
  have "sound_r buf bensize (ben_fuel buf) 0"
    using validate_sound [OF assms, of "ben_fuel buf" 0] ben_fuel_ge [OF assms(1)] by simp
  then show ?thesis by (fastforce simp: sound_r_def ben_validate_def ben_dec_def)
qed

text \<open>
  C15: Decoding after validation is memory safe.  On any received datagram the validator returns without reading outside the received bytes, and
  when it accepts, the decoder returns a value within the protocol's limits, unless the datagram
  is nothing but an unterminated string length or an unterminated integer.
\<close>

theorem ben_decode_after_validate:
  assumes "bensize \<le> length buf" and "int bensize < LONG_MAX"
  shows "\<exists>ok. ben_validate buf bensize = Inr ok \<and>
    (ok \<longrightarrow> (\<exists>b. ben_dec buf bensize = Inr (Some b) \<and> in_limits b) \<or> open_ended buf bensize 0)"
  by (rule ben_dec_validated [OF assms])

theorem ben_decode_after_validate_witness:
  "\<exists>ok. ben_validate [108, 105, 55, 101, 101, 0] 5 = Inr ok \<and>
    (ok \<longrightarrow> (\<exists>b. ben_dec [108, 105, 55, 101, 101, 0] 5 = Inr (Some b) \<and> in_limits b) \<or>
      open_ended [108, 105, 55, 101, 101, 0] 5 0)"
  by (rule ben_decode_after_validate) simp_all

lemma dec_s_spin:
  "drop p buf = ds @ c # rest \<Longrightarrow> (\<forall>c \<in> set ds. isdigit c) \<Longrightarrow> \<not> isdigit c \<Longrightarrow> c \<noteq> 58 \<Longrightarrow>
   ben_dec_s_loop buf start i p = Inl Spin"
proof (induction ds arbitrary: i p)
  case Nil
  then have "rd buf p = Inr c" by (auto intro: rd_drop)
  with Nil.prems show ?case by (subst ben_dec_s_loop.simps) simp
next
  case (Cons d ds)
  then have "rd buf p = Inr d" "drop (p + 1) buf = ds @ c # rest" "isdigit d"
    by (auto intro: rd_drop dest: drop_step)
  with Cons.IH [of "p + 1" "i + 1"] Cons.prems show ?case by (subst ben_dec_s_loop.simps) simp
qed

lemma validate_s_open:
  "drop p buf = ds @ rest \<Longrightarrow> (\<forall>c \<in> set ds. isdigit c) \<Longrightarrow> bensize = p + length ds \<Longrightarrow>
   ben_validate_s_loop buf bensize start i p = Inr (True, bensize)"
proof (induction ds arbitrary: i p)
  case Nil
  then show ?case by (subst ben_validate_s_loop.simps) simp
next
  case (Cons d ds)
  then have "rd buf p = Inr d" "drop (p + 1) buf = ds @ rest" "isdigit d"
    by (auto intro: rd_drop dest: drop_step)
  with Cons.IH [of "p + 1" "i + 1"] Cons.prems show ?case by (subst ben_validate_s_loop.simps) simp
qed

text \<open>
  C37: The exception is real.  A datagram that consists of digits only is accepted by ben_validate, and ben_dec then
  never leaves its loop, because the receive buffer is zero behind the datagram and the loop has no case for that byte.
\<close>

theorem ben_dec_hangs_on_digits:
  assumes "ds \<noteq> []" and "\<forall>c \<in> set ds. isdigit c"
  shows "ben_validate (ds @ 0 # rest) (length ds) = Inr True \<and> ben_dec (ds @ 0 # rest) (length ds) = Inl Spin"
proof -
  let ?buf = "ds @ 0 # rest"
  obtain c cs where c: "ds = c # cs" "isdigit c" using assms by (cases ds) auto
  obtain n where n: "ben_fuel ?buf = Suc n" by (simp add: ben_fuel_def)
  have r: "rd ?buf 0 = Inr c" by (simp add: c rd_def)
  have "ben_validate_s ?buf (length ds) 0 = Inr (True, length ds)"
    using validate_s_open [of 0 ?buf ds "0 # rest" "length ds" 0 0] assms by (simp add: ben_validate_s_def)
  moreover have "ben_dec_s ?buf 0 = Inl Spin"
    unfolding ben_dec_s_def
    by (rule dec_s_spin [of 0 ?buf ds 0 rest]) (use assms(2) in \<open>simp_all add: isdigit_def\<close>)
  ultimately show ?thesis
    using r isdigit_not [OF c(2)] c n assms(1) by (simp add: ben_validate_def ben_dec_def)
qed

theorem ben_dec_hangs_on_digits_witness:
  "ben_validate ([53] @ 0 # [0]) 1 = Inr True \<and> ben_dec ([53] @ 0 # [0]) 1 = Inl Spin"
  using ben_dec_hangs_on_digits [of "[53]" "[0]"] by (simp add: isdigit_def)

end
