(* ===== verification/Strings.thy ===== *)
theory Strings
  imports Bencode
begin

text \<open>
  The string helpers of \<^verbatim>\<open>src/src/shr/str.c\<close> that decide something, and the hexadecimal encoding of
  \<^verbatim>\<open>src/src/p2p/hex.c\<close>.  A C string is the list of its bytes before the terminating zero.  Dates
  and sizes in readable form are in the theory Cstring.
\<close>

section \<open>The string in a byte array\<close>

definition cstr :: "bytes \<Rightarrow> bytes" where
  "cstr buf = takeWhile (\<lambda>c. c \<noteq> 0) buf"

lemma cstr_no_zero [simp]: "0 \<notin> set s \<Longrightarrow> cstr s = s"
  unfolding cstr_def by (rule takeWhile_eq_all_conv [THEN iffD2]) blast

lemma length_cstr: "length (cstr s) \<le> length s"
  by (simp add: cstr_def length_takeWhile_le)

section \<open>Character classes\<close>

definition str_isNumber :: "bytes \<Rightarrow> bool" where
  "str_isNumber s = list_all isdigit s"

text \<open>The number of a port, or zero for anything that is not one.  \<open>strtol\<close> reports an overflow
  through \<open>errno\<close> and an empty number through its end pointer.\<close>

definition str_safe_port :: "bytes \<Rightarrow> int" where
  "str_safe_port s =
     (if str_isNumber s then
        (if int (digits_val s) > LONG_MAX then 0
         else if s = [] then 0
         else let number = strtol s in
           if number < 1 \<or> number > 65535 then 0 else number)
      else 0)"

definition host_char :: "UCHAR \<Rightarrow> bool" where
  "host_char c \<longleftrightarrow> 48 \<le> c \<and> c \<le> 57 \<or> 65 \<le> c \<and> c \<le> 90 \<or> 97 \<le> c \<and> c \<le> 122 \<or> c = 45 \<or> c = 95 \<or> c = 46"

definition str_isValidFilename :: "bytes \<Rightarrow> bool" where
  "str_isValidFilename s = list_all host_char s"

definition str_valid_hostname :: "bytes \<Rightarrow> nat \<Rightarrow> bool" where
  "str_valid_hostname hostname hostsize = list_all host_char (take hostsize hostname)"

text \<open>The part behind the last dot: each \<open>strchr\<close> jumps behind the next one.\<close>

function last_label :: "bytes \<Rightarrow> bytes" where
  "last_label p0 =
     (case dropWhile (\<lambda>c. c \<noteq> 46) p0 of [] \<Rightarrow> p0 | p1 # rest \<Rightarrow> last_label rest)"
  by pat_completeness auto
termination
proof (relation "measure length", goal_cases)
  case (2 p0 c rest)
  have "length (dropWhile (\<lambda>c. c \<noteq> 46) p0) \<le> length p0" by (rule length_dropWhile_le)
  with 2 show ?case by simp
qed simp

declare last_label.simps [simp del]

definition str_valid_tld :: "bytes \<Rightarrow> nat \<Rightarrow> bytes \<Rightarrow> bool" where
  "str_valid_tld hostname hostsize domain =
     (if hostsize < 5 then False else last_label hostname = domain)"

section \<open>UTF-8\<close>

text \<open>
  \<open>string[i] < 0x80\<close> compares a \<open>char\<close> promoted to \<open>int\<close>; whether that type is signed is up to the
  platform and is a parameter here.  The loop of the continuation bytes is \<open>utf8_tail\<close>.
\<close>

definition char_lt_0x80 :: "bool \<Rightarrow> UCHAR \<Rightarrow> bool" where
  "char_lt_0x80 char_is_signed c = (if char_is_signed then sint c < 128 else uint c < 128)"

definition utf8_n :: "bool \<Rightarrow> UCHAR \<Rightarrow> nat option" where
  "utf8_n sc c =
     (if char_lt_0x80 sc c then Some 0
      else if c AND 0xE0 = 0xC0 then Some 1
      else if c AND 0xF0 = 0xE0 then Some 2
      else if c AND 0xF8 = 0xF0 then Some 3
      else if c AND 0xFC = 0xF8 then Some 4
      else if c AND 0xFE = 0xFC then Some 5
      else None)"

fun utf8_tail :: "nat \<Rightarrow> bytes \<Rightarrow> bytes option" where
  "utf8_tail 0 s = Some s"
| "utf8_tail (Suc n) [] = None"
| "utf8_tail (Suc n) (c # s) = (if c AND 0xC0 \<noteq> 0x80 then None else utf8_tail n s)"

lemma utf8_tail_length: "utf8_tail n s = Some t \<Longrightarrow> length t \<le> length s"
  by (induction n s rule: utf8_tail.induct) (auto split: if_splits)

function str_isValidUTF8 :: "bool \<Rightarrow> bytes \<Rightarrow> bool" where
  "str_isValidUTF8 sc [] = True"
| "str_isValidUTF8 sc (c # s) =
     (case utf8_n sc c of None \<Rightarrow> False
      | Some n \<Rightarrow> (case utf8_tail n s of None \<Rightarrow> False | Some t \<Rightarrow> str_isValidUTF8 sc t))"
  by pat_completeness auto
termination
  by (relation "measure (\<lambda>(_, s). length s)") (auto dest: utf8_tail_length)

section \<open>Counting substrings\<close>

fun strstr :: "bytes \<Rightarrow> bytes \<Rightarrow> bytes option" where
  "strstr [] search = (if search = [] then Some [] else None)"
| "strstr (c # p) search =
     (if take (length search) (c # p) = search then Some (c # p) else strstr p search)"

partial_function (option) count_loop :: "bytes \<Rightarrow> nat \<Rightarrow> bytes \<Rightarrow> nat option" where
  "count_loop search counter p =
     (case strstr p search of None \<Rightarrow> Some counter
      | Some q \<Rightarrow> count_loop search (counter + 1) (drop (length search) q))"

definition str_count :: "bytes \<Rightarrow> bytes \<Rightarrow> nat option" where
  "str_count buffer search = count_loop search 0 buffer"

section \<open>Distance\<close>

fun str_sha1_compare :: "bytes \<Rightarrow> bytes \<Rightarrow> bytes \<Rightarrow> int" where
  "str_sha1_compare (a # id1) (b # id2) (t # target) =
     (if a = b then str_sha1_compare id1 id2 target
      else if a XOR t < b XOR t then - 1 else 1)"
| "str_sha1_compare _ _ _ = 0"

section \<open>Hexadecimal\<close>

definition hex_digit :: "UCHAR \<Rightarrow> UCHAR" where
  "hex_digit d = (if d < 10 then 48 + d else 87 + d)"

definition hex_hash_encode :: "bytes \<Rightarrow> bytes" where
  "hex_hash_encode xs = concat (map (\<lambda>c. [hex_digit (drop_bit 4 c), hex_digit (c AND 15)]) (take SHA1_SIZE xs))"

section \<open>Laws\<close>

lemma str_safe_port_range: "0 \<le> str_safe_port s \<and> str_safe_port s \<le> 65535"
  by (simp add: str_safe_port_def Let_def del: digits_val.simps)

lemma last_label_no_dot: "46 \<notin> set (last_label s)"
proof (induction s rule: last_label.induct)
  case (1 s)
  show ?case
  proof (cases "dropWhile (\<lambda>c. c \<noteq> 46) s")
    case Nil
    moreover have "46 \<notin> set s" using Nil by (auto simp: dropWhile_eq_Nil_conv)
    ultimately show ?thesis by (subst last_label.simps) (simp del: dropWhile_eq_Nil_conv)
  next
    case (Cons c t)
    with 1 [OF Cons] show ?thesis by (subst last_label.simps) simp
  qed
qed

lemma last_label_split: "46 \<notin> set t \<Longrightarrow> last_label (s @ 46 # t) = t"
proof (induction "length s" arbitrary: s rule: less_induct)
  case less
  have "dropWhile (\<lambda>c. c \<noteq> 46) t = []"
    using less.prems unfolding dropWhile_eq_Nil_conv by blast
  then have no: "last_label t = t" by (subst last_label.simps) (simp del: dropWhile_eq_Nil_conv)
  show ?case
  proof (cases "46 \<in> set s")
    case False
    then have "dropWhile (\<lambda>c. c \<noteq> 46) (s @ 46 # t) = 46 # t" by (subst dropWhile_append2) auto
    then show ?thesis by (subst last_label.simps) (simp add: no)
  next
    case True
    then obtain u v where s: "s = u @ 46 # v" "46 \<notin> set u" by (metis split_list_first)
    then have "dropWhile (\<lambda>c. c \<noteq> 46) (s @ 46 # t) = 46 # v @ 46 # t"
      by (simp, subst dropWhile_append2) auto
    then show ?thesis using less.hyps [of v] less.prems s by (subst last_label.simps) simp
  qed
qed

lemma utf8_signed: "str_isValidUTF8 True s"
proof -
  have "sint c < 128" for c :: UCHAR using sint_lt [of c] by simp
  then show ?thesis
    by (induction s) (auto simp: utf8_n_def char_lt_0x80_def)
qed

lemma strstr_length: "strstr p search = Some q \<Longrightarrow> length search \<le> length q \<and> length q \<le> length p"
  by (induction p) (auto split: if_splits dest!: arg_cong [where f = length])

text \<open>A non-empty pattern is counted in finitely many steps.\<close>

lemma count_loop_total:
  "search \<noteq> [] \<Longrightarrow>
   \<exists>n. count_loop search c p = Some n \<and> c \<le> n \<and> (n - c) * length search \<le> length p"
proof (induction "length p" arbitrary: p c rule: less_induct)
  case less
  show ?case
  proof (cases "strstr p search")
    case None
    then show ?thesis by (subst count_loop.simps) simp
  next
    case (Some q)
    from strstr_length [OF Some] less.prems have q: "length search \<le> length q" "length q \<le> length p"
      "0 < length search" by auto
    then have "length (drop (length search) q) < length p" unfolding length_drop by linarith
    from less.hyps [OF this less.prems, of "c + 1"] obtain n where
      n: "count_loop search (c + 1) (drop (length search) q) = Some n" "c + 1 \<le> n"
        "(n - (c + 1)) * length search \<le> length q - length search" by auto
    then have "(n - c) * length search = (n - (c + 1)) * length search + length search"
      by (metis Suc_diff_Suc Suc_eq_plus1 Suc_le_eq add.commute mult_Suc)
    with n q Some show ?thesis by (subst count_loop.simps) simp
  qed
qed

lemma xor_less: "(a :: UCHAR) XOR t = b XOR t \<longleftrightarrow> a = b"
  by (metis xor.assoc xor.right_neutral xor_self_eq)

lemma str_sha1_compare_memcmp:
  "length id1 = length id2 \<Longrightarrow> length id2 = length target \<Longrightarrow>
   str_sha1_compare id1 id2 target = memcmp (map2 (XOR) id1 target) (map2 (XOR) id2 target)"
  by (induction id1 id2 target rule: list_induct3) (auto simp: xor_less)

text \<open>The distance itself, as a number.\<close>

definition xor_dist :: "bytes \<Rightarrow> bytes \<Rightarrow> nat" where
  "xor_dist target k = be (map2 (XOR) k target)"

lemma sha1_compare_less:
  "length id1 = SHA1_SIZE \<Longrightarrow> length id2 = SHA1_SIZE \<Longrightarrow> length target = SHA1_SIZE \<Longrightarrow>
   str_sha1_compare id1 id2 target < 0 \<longleftrightarrow> xor_dist target id1 < xor_dist target id2"
  by (simp add: str_sha1_compare_memcmp memcmp_be xor_dist_def)

lemma xor_dist_inj:
  assumes "length id1 = SHA1_SIZE" and "length id2 = SHA1_SIZE" and "length target = SHA1_SIZE"
    and "xor_dist target id1 = xor_dist target id2"
  shows "id1 = id2"
proof -
  have eq: "map2 (XOR) id1 target = map2 (XOR) id2 target"
    by (rule be_inj) (use assms in \<open>simp_all add: xor_dist_def\<close>)
  have "id1 ! i = id2 ! i" if "i < SHA1_SIZE" for i
  proof -
    have "map2 (XOR) id1 target ! i = map2 (XOR) id2 target ! i" by (simp only: eq)
    then have "id1 ! i XOR target ! i = id2 ! i XOR target ! i" using that assms by simp
    then show ?thesis by (simp only: xor_less)
  qed
  then show ?thesis using assms by (auto intro: nth_equalityI)
qed

lemma hex_length: "length xs = 20 \<Longrightarrow> length (hex_hash_encode xs) = 40"
proof -
  have "length (concat (map (\<lambda>c. [hex_digit (drop_bit 4 c), hex_digit (c AND 15)]) ys)) = 2 * length ys"
    for ys by (induction ys) auto
  then show "length xs = 20 \<Longrightarrow> length (hex_hash_encode xs) = 40" by (simp add: hex_hash_encode_def)
qed

section \<open>Properties\<close>

text \<open>
  str_sha1_compare orders identifiers by the Kademlia metric: it returns a negative number, zero or a
  positive number exactly as the distance of the first identifier from the target, the XOR of the two read as a 160-bit
  number, is less than, equal to or greater than that of the second.
\<close>

theorem sha1_compare_is_xor_metric:
  assumes "length id1 = SHA1_SIZE" and "length id2 = SHA1_SIZE" and "length target = SHA1_SIZE"
  shows "str_sha1_compare id1 id2 target =
    (if be (map2 (XOR) id1 target) < be (map2 (XOR) id2 target) then - 1
     else if be (map2 (XOR) id1 target) = be (map2 (XOR) id2 target) then 0 else 1)"
  using assms by (simp add: str_sha1_compare_memcmp memcmp_be)

theorem sha1_compare_is_xor_metric_witness:
  "str_sha1_compare (1 # replicate 19 0) (2 # replicate 19 0) (3 # replicate 19 0) = 1"
  by (subst sha1_compare_is_xor_metric) simp_all

end
