(* ===== verification/Value.thy ===== *)
theory Value
  imports Mru Strings Inet Times
begin

text \<open>
  The database of announced values, \<^verbatim>\<open>src/src/p2p/value.c\<close>: at most 50 targets, those closest to our own
  identifier, each with the at most 10 nodes that announced themselves last.  A target object is
  shared between the list and the hash table and lives in the memory \<open>v_mem\<close>; the nodes of a target are the
  payloads of its list.
\<close>

section \<open>Nodes of a target\<close>

abbreviation VALUE_SIZE_MAX :: int where "VALUE_SIZE_MAX \<equiv> 50"
abbreviation TGT_V_SIZE_MAX :: int where "TGT_V_SIZE_MAX \<equiv> 10"

record NODE_V =
  nv_id :: bytes
  nv_pair :: bytes
  nv_eol :: time_t

record TARGET_V =
  tv_target :: bytes
  tv_list :: "NODE_V LIST"
  tv_hash :: "ptr HASH"

text \<open>\<open>node_v_update\<close> writes the announced port into the caller's socket address before it copies it.\<close>

definition node_v_update :: "NODE_V \<Rightarrow> bytes \<Rightarrow> IP \<Rightarrow> int \<Rightarrow> time_t \<Rightarrow> NODE_V \<times> IP" where
  "node_v_update node_v node_id from port now =
     (let from = ip_merge_port_to_sin from (word_of_int port) in
      (node_v\<lparr>nv_pair := ip_sin_to_tuple from, nv_id := take SHA1_SIZE node_id, nv_eol := time_add_30_min now\<rparr>, from))"

definition node_v_init :: "bytes \<Rightarrow> IP \<Rightarrow> int \<Rightarrow> time_t \<Rightarrow> NODE_V \<times> IP" where
  "node_v_init node_id from port now =
     node_v_update \<lparr>nv_id = [], nv_pair = [], nv_eol = 0\<rparr> node_id from port now"

definition tgt_v_init :: "bytes \<Rightarrow> TARGET_V" where
  "tgt_v_init target_id = \<lparr>tv_target = take SHA1_SIZE target_id, tv_list = list_init, tv_hash = hash_init 11\<rparr>"

definition tgt_v_free :: "TARGET_V \<Rightarrow> NODE_V LIST option" where
  "tgt_v_free target = do { (L, _) \<leftarrow> list_clear (tv_list target); list_free L }"

definition tgt_v_find :: "TARGET_V \<Rightarrow> bytes \<Rightarrow> ptr option" where
  "tgt_v_find target node_id = hash_get (tv_hash target) (take SHA1_SIZE node_id)"

definition tgt_v_del :: "TARGET_V \<Rightarrow> ptr option \<Rightarrow> TARGET_V option" where
  "tgt_v_del target i = do {
     v \<leftarrow> list_value (tv_list target) i;
     node_v \<leftarrow> v;
     let h = hash_del (tv_hash target) (nv_id node_v);
     (L, _) \<leftarrow> list_del (tv_list target) i;
     Some (target\<lparr>tv_list := L, tv_hash := h\<rparr>)
   }"

definition tgt_v_put :: "TARGET_V \<Rightarrow> bytes \<Rightarrow> IP \<Rightarrow> int \<Rightarrow> time_t \<Rightarrow> (TARGET_V \<times> IP) option" where
  "tgt_v_put target node_id from port now = do {
     let (node, from) = node_v_init node_id from port now;
     (L, s) \<leftarrow> list_start (tv_list target);
     (L, i) \<leftarrow> list_ins L s node;
     let h = fst (hash_put (tv_hash target) (nv_id node) i);
     let target = target\<lparr>tv_list := L, tv_hash := h\<rparr>;
     if list_size (tv_list target) > TGT_V_SIZE_MAX then do {
       s \<leftarrow> list_stop (tv_list target);
       target \<leftarrow> tgt_v_del target s;
       Some (target, from)
     } else Some (target, from)
   }"

definition tgt_v_update :: "TARGET_V \<Rightarrow> bytes \<Rightarrow> IP \<Rightarrow> int \<Rightarrow> time_t \<Rightarrow> (TARGET_V \<times> IP) option" where
  "tgt_v_update target node_id from port now =
     (case tgt_v_find target node_id of
        None \<Rightarrow> tgt_v_put target node_id from port now
      | Some i \<Rightarrow> do {
          v \<leftarrow> list_value (tv_list target) (Some i);
          node \<leftarrow> v;
          let (node, from) = node_v_update node node_id from port now;
          (L, _) \<leftarrow> list_del (tv_list target) (Some i);
          (L, s) \<leftarrow> list_start L;
          (L, i) \<leftarrow> list_ins L s node;
          let h = fst (hash_put (tv_hash target) (nv_id node) i);
          Some (target\<lparr>tv_list := L, tv_hash := h\<rparr>, from)
        })"

definition tgt_v_expire_body :: "time_t \<Rightarrow> TARGET_V \<Rightarrow> ptr \<Rightarrow> NODE_V \<Rightarrow> TARGET_V option" where
  "tgt_v_expire_body now target i node =
     (if now > nv_eol node then tgt_v_del target (Some i) else Some target)"

definition tgt_v_expire :: "TARGET_V \<Rightarrow> time_t \<Rightarrow> TARGET_V option" where
  "tgt_v_expire target now = do {
     (L, i) \<leftarrow> list_start (tv_list target);
     list_each tv_list (tgt_v_expire_body now) (target\<lparr>tv_list := L\<rparr>) i
   }"

text \<open>Printing a target walks its list, which moves \<open>list->item\<close> to the start.\<close>

definition tgt_v_print :: "TARGET_V \<Rightarrow> TARGET_V option" where
  "tgt_v_print target = do { (L, _) \<leftarrow> list_start (tv_list target); Some (target\<lparr>tv_list := L\<rparr>) }"

section \<open>Targets\<close>

record VALUE =
  v_list :: "ptr LIST"
  v_hash :: "ptr HASH"
  v_mem :: "ptr \<rightharpoonup> TARGET_V"
  v_brk :: ptr

definition val_init :: VALUE where
  "val_init = \<lparr>v_list = list_init, v_hash = hash_init 51, v_mem = Map.empty, v_brk = 0\<rparr>"

definition val_find :: "VALUE \<Rightarrow> bytes \<Rightarrow> ptr option" where
  "val_find value target_id = hash_get (v_hash value) (take SHA1_SIZE target_id)"

definition val_del :: "VALUE \<Rightarrow> ptr option \<Rightarrow> VALUE option" where
  "val_del value i = do {
     v \<leftarrow> list_value (v_list value) i;
     q \<leftarrow> v;
     target \<leftarrow> v_mem value q;
     let h = hash_del (v_hash value) (tv_target target);
     (L, _) \<leftarrow> list_del (v_list value) i;
     _ \<leftarrow> tgt_v_free target;
     Some (value\<lparr>v_list := L, v_hash := h, v_mem := (v_mem value)(q := None)\<rparr>)
   }"

definition val_print_body :: "VALUE \<Rightarrow> ptr \<Rightarrow> ptr \<Rightarrow> VALUE option" where
  "val_print_body value i q = do {
     target \<leftarrow> v_mem value q;
     target \<leftarrow> tgt_v_print target;
     Some (value\<lparr>v_mem := (v_mem value)(q \<mapsto> target)\<rparr>)
   }"

definition val_print :: "bool \<Rightarrow> VALUE \<Rightarrow> VALUE option" where
  "val_print log_verbosely value =
     (if log_verbosely then Some value
      else do {
        (L, i) \<leftarrow> list_start (v_list value);
        list_each v_list val_print_body (value\<lparr>v_list := L\<rparr>) i
      })"

text \<open>The search of \<open>val_ins_sort\<close> for the first target that is farther away from our own identifier.\<close>

definition tgt_closer :: "bytes \<Rightarrow> bytes \<Rightarrow> VALUE \<Rightarrow> ptr \<Rightarrow> bool option" where
  "tgt_closer my_id target_id value q =
     map_option (\<lambda>old. str_sha1_compare target_id (tv_target old) my_id < 0) (v_mem value q)"

partial_function (option) ins_pos :: "(ptr \<Rightarrow> bool option) \<Rightarrow> ptr LIST \<Rightarrow> ptr option \<Rightarrow> ptr option option" where
  "ins_pos closer L i =
     (case i of None \<Rightarrow> Some None
      | Some p \<Rightarrow>
         (case l_mem L p of None \<Rightarrow> None
          | Some it \<Rightarrow>
             (case closer (i_val it) of None \<Rightarrow> None
              | Some c \<Rightarrow> if c then Some (Some p) else ins_pos closer L (i_next it))))"

definition val_ins_pos :: "bytes \<Rightarrow> bytes \<Rightarrow> VALUE \<Rightarrow> ptr option \<Rightarrow> ptr option option" where
  "val_ins_pos my_id target_id value i = ins_pos (tgt_closer my_id target_id value) (v_list value) i"

definition tgt_v_alloc :: "VALUE \<Rightarrow> bytes \<Rightarrow> VALUE \<times> ptr" where
  "tgt_v_alloc value target_id =
     (value\<lparr>v_mem := (v_mem value)(v_brk value \<mapsto> tgt_v_init target_id), v_brk := Suc (v_brk value)\<rparr>, v_brk value)"

definition val_ins_sort :: "bool \<Rightarrow> bytes \<Rightarrow> VALUE \<Rightarrow> bytes \<Rightarrow> (VALUE \<times> ptr option) option" where
  "val_ins_sort log_verbosely my_id value target_id = do {
     (L, i) \<leftarrow> list_start (v_list value);
     let value = value\<lparr>v_list := L\<rparr>;
     pos \<leftarrow> val_ins_pos my_id target_id value i;
     (value, new) \<leftarrow> (case pos of
         Some p \<Rightarrow> do {
           let (value, q) = tgt_v_alloc value target_id;
           (L, _) \<leftarrow> list_ins (v_list value) (Some p) q;
           let h = fst (hash_put (v_hash value) (take SHA1_SIZE target_id) (Some q));
           Some (value\<lparr>v_list := L, v_hash := h\<rparr>, Some q)
         }
       | None \<Rightarrow>
           if list_size (v_list value) < VALUE_SIZE_MAX then do {
             let (value, q) = tgt_v_alloc value target_id;
             (L, _) \<leftarrow> list_put (v_list value) q;
             let h = fst (hash_put (v_hash value) (take SHA1_SIZE target_id) (Some q));
             Some (value\<lparr>v_list := L, v_hash := h\<rparr>, Some q)
           } else Some (value, None));
     value \<leftarrow> (if list_size (v_list value) > VALUE_SIZE_MAX then do {
         s \<leftarrow> list_stop (v_list value);
         val_del value s
       } else Some value);
     value \<leftarrow> (if new \<noteq> None then val_print log_verbosely value else Some value);
     Some (value, new)
   }"

definition val_put :: "bool \<Rightarrow> bytes \<Rightarrow> VALUE \<Rightarrow> bytes \<Rightarrow> bytes \<Rightarrow> int \<Rightarrow> IP \<Rightarrow> time_t \<Rightarrow> (VALUE \<times> IP) option" where
  "val_put log_verbosely my_id value target_id node_id port from now = do {
     (value, q) \<leftarrow> (case val_find value target_id of
         None \<Rightarrow> val_ins_sort log_verbosely my_id value target_id
       | Some q \<Rightarrow> Some (value, Some q));
     case q of None \<Rightarrow> Some (value, from)
     | Some q \<Rightarrow> do {
         target \<leftarrow> v_mem value q;
         (target, from) \<leftarrow> tgt_v_update target node_id from port now;
         Some (value\<lparr>v_mem := (v_mem value)(q \<mapsto> target)\<rparr>, from)
       }
   }"

definition val_expire_body :: "time_t \<Rightarrow> VALUE \<Rightarrow> ptr \<Rightarrow> ptr \<Rightarrow> VALUE option" where
  "val_expire_body now value i q = do {
     target \<leftarrow> v_mem value q;
     target \<leftarrow> tgt_v_expire target now;
     let value = value\<lparr>v_mem := (v_mem value)(q \<mapsto> target)\<rparr>;
     if list_size (tv_list target) = 0 then val_del value (Some i) else Some value
   }"

definition val_expire :: "VALUE \<Rightarrow> time_t \<Rightarrow> VALUE option" where
  "val_expire value now = do {
     (L, i) \<leftarrow> list_start (v_list value);
     list_each v_list (val_expire_body now) (value\<lparr>v_list := L\<rparr>) i
   }"

definition val_compact_list :: "VALUE \<Rightarrow> bytes \<Rightarrow> (VALUE \<times> bytes) option" where
  "val_compact_list value target_id =
     (case val_find value target_id of None \<Rightarrow> Some (value, [])
      | Some q \<Rightarrow> do {
          target \<leftarrow> v_mem value q;
          (L, item) \<leftarrow> list_start (tv_list target);
          c \<leftarrow> copy_loop nv_pair L 8 item;
          Some (value\<lparr>v_mem := (v_mem value)(q \<mapsto> target\<lparr>tv_list := L\<rparr>)\<rparr>, c)
        })"

text \<open>Shutdown: \<open>val_clean\<close> deletes \<open>list->item\<close> until there is none.\<close>

partial_function (option) val_clean :: "VALUE \<Rightarrow> VALUE option" where
  "val_clean value =
     (case l_item (v_list value) of None \<Rightarrow> Some value
      | Some p \<Rightarrow> (case val_del value (Some p) of None \<Rightarrow> None | Some value' \<Rightarrow> val_clean value'))"

section \<open>One target\<close>

definition tmru :: "TARGET_V \<Rightarrow> NODE_V mru" where
  "tmru t = (tv_list t, tv_hash t)"

definition with_mru :: "TARGET_V \<Rightarrow> NODE_V mru \<Rightarrow> TARGET_V" where
  "with_mru t T = t\<lparr>tv_list := fst T, tv_hash := snd T\<rparr>"

lemma with_mru_simps [simp]:
  "tmru (with_mru t T) = T" "tv_target (with_mru t T) = tv_target t"
  "with_mru (with_mru t T) T' = with_mru t T'" "tv_list (with_mru t T) = fst T" "tv_hash (with_mru t T) = snd T"
  "with_mru t (tmru t) = t"
  by (simp_all add: tmru_def with_mru_def)

lemma tgt_v_del_mru: "tgt_v_del t i = map_option (with_mru t) (mru_del nv_id (tmru t) i)"
  by (cases "list_value (tv_list t) i") 
    (auto simp: tgt_v_del_def mru_del_def tmru_def with_mru_def split: bind_splits)

lemma tgt_v_put_mru:
  "tgt_v_put t node_id from port now =
     map_option (\<lambda>T. (with_mru t T, snd (node_v_init node_id from port now)))
       (mru_put nv_id 10 (tmru t) (fst (node_v_init node_id from port now)))"
  by (auto simp: tgt_v_put_def mru_put_def tgt_v_del_mru tmru_def with_mru_def case_prod_beta Let_def
      split: bind_splits)

lemma tgt_v_update_touch:
  assumes "tgt_v_find t node_id = Some i" and "list_value (tv_list t) (Some i) = Some (Some n)"
  shows "tgt_v_update t node_id from port now =
    map_option (\<lambda>T. (with_mru t T, snd (node_v_update n node_id from port now)))
      (mru_touch nv_id (tmru t) i (fst (node_v_update n node_id from port now)))"
  using assms
  by (auto simp: tgt_v_update_def mru_touch_def tmru_def with_mru_def case_prod_beta Let_def split: bind_splits)

text \<open>The sequence a target represents, with the bounds of its entries.\<close>

definition node_v_ok :: "ipver \<Rightarrow> NODE_V \<Rightarrow> bool" where
  "node_v_ok v n \<longleftrightarrow> length (nv_id n) = SHA1_SIZE \<and> length (nv_pair n) = IP_SIZE_META_PAIR v"

definition tgt_ok :: "ipver \<Rightarrow> TARGET_V \<Rightarrow> (ptr \<times> NODE_V) list \<Rightarrow> bool" where
  "tgt_ok v t xs \<longleftrightarrow> mru nv_id (tmru t) xs \<and> length xs \<le> 10 \<and> (\<forall>x \<in> set xs. node_v_ok v (snd x))"

definition fresh_node :: "bytes \<Rightarrow> IP \<Rightarrow> int \<Rightarrow> time_t \<Rightarrow> NODE_V" where
  "fresh_node node_id from port now =
     \<lparr>nv_id = node_id, nv_pair = ip_sin_to_tuple (ip_merge_port_to_sin from (word_of_int port)), nv_eol = now + 1800\<rparr>"

lemma node_v_update_fresh:
  "length node_id = SHA1_SIZE \<Longrightarrow> node_v_update n node_id from port now =
     (fresh_node node_id from port now, ip_merge_port_to_sin from (word_of_int port))"
  by (simp add: node_v_update_def fresh_node_def time_add_30_min_def Let_def)

lemma fresh_node_ok: "length node_id = SHA1_SIZE \<Longrightarrow> ip_ok v from \<Longrightarrow> node_v_ok v (fresh_node node_id from port now)"
  by (simp add: node_v_ok_def fresh_node_def tuple_length [OF ip_ok_merge])

lemma tgt_ok_init: "tgt_ok v (tgt_v_init target_id) []"
proof -
  have "hash_ok (hash_init 11 :: ptr HASH)" "indexes (hash_get (hash_init 11)) nv_id []"
    by (simp_all add: hash_ok_init indexes_def hash_get_init)
  then show ?thesis
    using dlc_dl [OF list_init_dlc] by (simp add: tgt_ok_def mru_def tmru_def tgt_v_init_def)
qed

lemma tgt_v_find_item:
  assumes "tgt_ok v t xs" and "length node_id = SHA1_SIZE"
  shows "(case tgt_v_find t node_id of
      None \<Rightarrow> (\<forall>x \<in> set xs. nv_id (snd x) \<noteq> node_id)
    | Some i \<Rightarrow> (\<exists>us n vs. xs = us @ (i, n) # vs \<and> nv_id n = node_id))"
proof -
  have ix: "indexes (hash_get (tv_hash t)) nv_id xs" using assms(1) by (simp add: tgt_ok_def mru_def tmru_def)
  show ?thesis
  proof (cases "tgt_v_find t node_id")
    case None
    then have "hash_get (tv_hash t) node_id = None" using assms(2) by (simp add: tgt_v_find_def)
    with indexes_None [OF ix] None show ?thesis by simp
  next
    case (Some i)
    then obtain n where "(i, n) \<in> set xs" "nv_id n = node_id"
      using ix assms(2) by (auto simp: tgt_v_find_def indexes_def)
    moreover from this(1) obtain us vs where "xs = us @ (i, n) # vs" by (auto dest: split_list)
    ultimately show ?thesis using Some by auto
  qed
qed

lemma tgt_v_update_new:
  assumes ok: "tgt_ok v t xs" and i: "length node_id = SHA1_SIZE" and f: "ip_ok v from"
    and new: "tgt_v_find t node_id = None"
  shows "\<exists>t' p. tgt_v_update t node_id from port now = Some (t', ip_merge_port_to_sin from (word_of_int port)) \<and>
    tv_target t' = tv_target t \<and> tgt_ok v t' (take 10 ((p, fresh_node node_id from port now) # xs)) \<and>
    l_item (tv_list t') = (if length xs = 10 then Some p else first xs (Some p))"
proof -
  let ?n = "fresh_node node_id from port now"
  have T: "mru nv_id (tv_list t, tv_hash t) xs" using ok by (simp add: tgt_ok_def tmru_def)
  have "hash_get (tv_hash t) (nv_id ?n) = None" using new i by (simp add: tgt_v_find_def fresh_node_def)
  from mru_put_ok [OF T this, of 10] ok obtain T' where
    T': "mru_put nv_id 10 (tmru t) ?n = Some T'" "mru nv_id T' (take 10 ((l_brk (tv_list t), ?n) # xs))"
    "l_item (fst T') = (if length xs = 10 then Some (l_brk (tv_list t)) else first xs (Some (l_brk (tv_list t))))"
    by (cases xs) (auto simp: tgt_ok_def tmru_def)
  have "tgt_ok v (with_mru t T') (take 10 ((l_brk (tv_list t), ?n) # xs))"
    using T'(2) ok fresh_node_ok [OF i f] by (auto simp: tgt_ok_def dest!: in_set_takeD)
  moreover have "tgt_v_update t node_id from port now = tgt_v_put t node_id from port now"
    using new by (simp add: tgt_v_update_def)
  ultimately show ?thesis
    using T'(1,3) by (auto simp: tgt_v_put_mru node_v_init_def node_v_update_fresh [OF i])
qed

lemma tgt_v_update_known:
  assumes ok: "tgt_ok v t xs" and i: "length node_id = SHA1_SIZE" and f: "ip_ok v from"
    and xs: "xs = us @ (p, n) # vs" and n: "nv_id n = node_id"
  shows "if l_item (tv_list t) = Some p \<and> us \<noteq> [] then tgt_v_update t node_id from port now = None
    else \<exists>t' q. tgt_v_update t node_id from port now = Some (t', ip_merge_port_to_sin from (word_of_int port)) \<and>
      tv_target t' = tv_target t \<and> tgt_ok v t' ((q, fresh_node node_id from port now) # us @ vs)"
proof -
  let ?n = "fresh_node node_id from port now"
  have T: "mru nv_id (tv_list t, tv_hash t) (us @ (p, n) # vs)" using ok by (simp add: tgt_ok_def tmru_def xs)
  then have d: "dl (tv_list t) (us @ (p, n) # vs)" by (simp add: mru_def)
  have "hash_get (tv_hash t) node_id = Some p"
    using T n indexes_get [of "hash_get (tv_hash t)" nv_id "us @ (p, n) # vs" p n] by (simp add: mru_def)
  then have find: "tgt_v_find t node_id = Some p" using i by (simp add: tgt_v_find_def)
  note upd = tgt_v_update_touch [OF find list_value_dl [OF d], unfolded node_v_update_fresh [OF i]]
  have fst: "first (us @ (p, n) # vs) None \<noteq> Some p \<longleftrightarrow> us \<noteq> []"
    using dl_fresh_split [OF d] by (cases us) auto
  show ?thesis
  proof (cases "l_item (tv_list t) = Some p \<and> us \<noteq> []")
    case True
    then have "\<not> del_safe (tv_list t) (us @ (p, n) # vs) p" using fst by (simp add: del_safe_def)
    from mru_touch_dangling [OF T this] True show ?thesis by (simp add: upd tmru_def)
  next
    case False
    then have "del_safe (tv_list t) (us @ (p, n) # vs) p" using fst by (auto simp: del_safe_def)
    from mru_touch_ok [OF T _ _ this, of ?n] ok obtain T' where
      T': "mru_touch nv_id (tmru t) p ?n = Some T'" "mru nv_id T' ((l_brk (tv_list t), ?n) # us @ vs)"
      by (auto simp: n xs tgt_ok_def tmru_def fresh_node_def)
    have "tgt_ok v (with_mru t T') ((l_brk (tv_list t), ?n) # us @ vs)"
      using T'(2) ok fresh_node_ok [OF i f] by (auto simp: tgt_ok_def xs)
    with T'(1) show ?thesis unfolding upd using False by auto
  qed
qed

lemma tgt_v_del_ok:
  assumes "mruc nv_id (tmru t) (xs @ (p, n) # ys)"
  shows "\<exists>t'. tgt_v_del t (Some p) = Some t' \<and> mruc nv_id (tmru t') (xs @ ys) \<and> tv_target t' = tv_target t"
  using mru_del_ok [of nv_id "tv_list t" "tv_hash t" xs p n ys] assms
  by (auto simp: tgt_v_del_mru mruc_def tmru_def dlc_del_safe)

interpretation tv_sweep: sweeper tv_list "\<lambda>t xs. mruc nv_id (tmru t) xs \<and> tv_target t = k"
  "tgt_v_expire_body now" "\<lambda>n. \<not> now > nv_eol n" "\<lambda>n. n" for k now
proof
  fix s xs p v ys
  assume r: "mruc nv_id (tmru s) (xs @ (p, v) # ys) \<and> tv_target s = k"
  show "\<exists>s'. tgt_v_expire_body now s p v = Some s' \<and> mruc nv_id (tmru s') (xs @ (p, v) # ys) \<and> tv_target s' = k"
    if "\<not> now > nv_eol v" using that r by (simp add: tgt_v_expire_body_def)
  show "\<exists>s'. tgt_v_expire_body now s p v = Some s' \<and> mruc nv_id (tmru s') (xs @ ys) \<and> tv_target s' = k"
    if "\<not> \<not> now > nv_eol v" using that r tgt_v_del_ok [of s xs p v ys] by (simp add: tgt_v_expire_body_def)
qed (simp add: mruc_def mru_def tmru_def)

lemma tgt_start: "tgt_ok v t xs \<Longrightarrow> list_start (tv_list t) = Some ((tv_list t)\<lparr>l_item := first xs None\<rparr>, first xs None) \<and>
    mruc nv_id (tmru (t\<lparr>tv_list := (tv_list t)\<lparr>l_item := first xs None\<rparr>\<rparr>)) xs"
  using list_start_dl [of "tv_list t" xs] mru_start [of nv_id "tv_list t" "tv_hash t" xs]
  by (simp add: tgt_ok_def tmru_def mru_def)

lemma tgt_v_expire_ok:
  assumes "tgt_ok v t xs"
  shows "\<exists>t'. tgt_v_expire t now = Some t' \<and> tv_target t' = tv_target t \<and>
    tgt_ok v t' (filter (\<lambda>x. now \<le> nv_eol (snd x)) xs)"
proof -
  let ?t = "t\<lparr>tv_list := (tv_list t)\<lparr>l_item := first xs None\<rparr>\<rparr>"
  have "mruc nv_id (tmru ?t) xs \<and> tv_target ?t = tv_target t" using tgt_start [OF assms] by simp
  from tv_sweep.sweep [OF this, of now] obtain t' where
    t': "list_each tv_list (tgt_v_expire_body now) ?t (first xs None) = Some t'" "tv_target t' = tv_target t"
      "mruc nv_id (tmru t') (filter (\<lambda>x. now \<le> nv_eol (snd x)) xs)" by (auto simp: case_prod_beta not_less)
  have "length (filter (\<lambda>x. now \<le> nv_eol (snd x)) xs) \<le> 10"
    using assms order_trans [OF length_filter_le, of xs 10] by (simp add: tgt_ok_def)
  then have "tgt_ok v t' (filter (\<lambda>x. now \<le> nv_eol (snd x)) xs)"
    using t'(3) assms by (auto simp: tgt_ok_def mruc_def)
  with t'(1,2) tgt_start [OF assms] show ?thesis by (simp add: tgt_v_expire_def)
qed

lemma tgt_v_free_ok: "tgt_ok v t xs \<Longrightarrow> \<exists>L. tgt_v_free t = Some L"
  using list_clear_dl [of "tv_list t" xs] list_free_dlc
  by (fastforce simp: tgt_ok_def mru_def tmru_def tgt_v_free_def)

lemma tgt_v_print_ok: "tgt_ok v t xs \<Longrightarrow> \<exists>t'. tgt_v_print t = Some t' \<and> tgt_ok v t' xs \<and> tv_target t' = tv_target t"
  using tgt_start [of v t xs] by (simp add: tgt_v_print_def tgt_ok_def mruc_def)

text \<open>
  C33: What an announcement does to the nodes stored under a target.  A new node goes to the front and the
  eleventh is dropped; a known node moves to the front with its new address and lifetime; in both cases the caller's socket address now has the announced port.
  The only exception: when list->item points to the known node and that node is not the first one, the update reads memory
  it has just freed.
\<close>

theorem tgt_v_update_exact:
  assumes "tgt_ok v t xs" and "length node_id = SHA1_SIZE" and "ip_ok v from"
  shows "(case tgt_v_find t node_id of
      None \<Rightarrow> (\<exists>t' p. tgt_v_update t node_id from port now = Some (t', ip_merge_port_to_sin from (word_of_int port)) \<and>
        tgt_ok v t' (take 10 ((p, fresh_node node_id from port now) # xs)))
    | Some i \<Rightarrow> (\<exists>us n vs. xs = us @ (i, n) # vs \<and> nv_id n = node_id \<and>
        (if l_item (tv_list t) = Some i \<and> us \<noteq> [] then tgt_v_update t node_id from port now = None
         else \<exists>t' p. tgt_v_update t node_id from port now = Some (t', ip_merge_port_to_sin from (word_of_int port)) \<and>
           tgt_ok v t' ((p, fresh_node node_id from port now) # us @ vs))))"
proof (cases "tgt_v_find t node_id")
  case None
  with tgt_v_update_new [OF assms None, of port now] show ?thesis by auto
next
  case (Some i)
  with tgt_v_find_item [OF assms(1,2)] obtain us n vs where x: "xs = us @ (i, n) # vs" "nv_id n = node_id" by auto
  have "if l_item (tv_list t) = Some i \<and> us \<noteq> [] then tgt_v_update t node_id from port now = None
    else \<exists>t' p. tgt_v_update t node_id from port now = Some (t', ip_merge_port_to_sin from (word_of_int port)) \<and>
      tgt_ok v t' ((p, fresh_node node_id from port now) # us @ vs)"
    using tgt_v_update_known [OF assms x, of port now] by (auto split: if_splits)
  with x have "\<exists>us n vs. xs = us @ (i, n) # vs \<and> nv_id n = node_id \<and>
    (if l_item (tv_list t) = Some i \<and> us \<noteq> [] then tgt_v_update t node_id from port now = None
     else \<exists>t' p. tgt_v_update t node_id from port now = Some (t', ip_merge_port_to_sin from (word_of_int port)) \<and>
       tgt_ok v t' ((p, fresh_node node_id from port now) # us @ vs))" by blast
  then show ?thesis unfolding Some option.case .
qed

text \<open>Two nodes announce themselves, then the first one again.\<close>

lemma ex_announced_twice:
  "\<exists>t1 t2 p q. tgt_v_update (tgt_v_init (replicate 20 1)) (replicate 20 2) ex_ip 6881 100 = Some (t1, ip_merge_port_to_sin ex_ip 6881) \<and>
     tgt_v_update t1 (replicate 20 3) ex_ip 6881 101 = Some (t2, ip_merge_port_to_sin ex_ip 6881) \<and>
     tgt_ok IPV4 t2 [(p, fresh_node (replicate 20 3) ex_ip 6881 101), (q, fresh_node (replicate 20 2) ex_ip 6881 100)] \<and>
     l_item (tv_list t2) = Some q"
proof -
  let ?t0 = "tgt_v_init (replicate 20 1)" and ?n = "fresh_node (replicate 20 2) ex_ip 6881 100"
  have "tgt_v_find ?t0 (replicate 20 2) = None" by (simp add: tgt_v_find_def tgt_v_init_def hash_get_init)
  from tgt_v_update_new [OF tgt_ok_init _ ex_ip_ok this, of 6881 100] obtain t1 q where
    t1: "tgt_v_update ?t0 (replicate 20 2) ex_ip 6881 100 = Some (t1, ip_merge_port_to_sin ex_ip 6881)"
    "tgt_ok IPV4 t1 [(q, ?n)]" by auto
  have "tgt_v_find t1 (replicate 20 3) = None"
    using tgt_v_find_item [OF t1(2), of "replicate 20 3"] by (auto simp: fresh_node_def Cons_eq_append_conv split: option.splits)
  from tgt_v_update_new [OF t1(2) _ ex_ip_ok this, of 6881 101] t1(1) show ?thesis by auto
qed

theorem tgt_v_update_exact_witness:
  "\<exists>t1 t2 f1 f2. tgt_v_update (tgt_v_init (replicate 20 1)) (replicate 20 2) ex_ip 6881 100 = Some (t1, f1) \<and>
     tgt_v_update t1 (replicate 20 3) ex_ip 6881 101 = Some (t2, f2) \<and>
     tgt_v_update t2 (replicate 20 2) ex_ip 6881 102 = None"
proof -
  from ex_announced_twice obtain t1 t2 p q where
    t1: "tgt_v_update (tgt_v_init (replicate 20 1)) (replicate 20 2) ex_ip 6881 100 = Some (t1, ip_merge_port_to_sin ex_ip 6881)"
    "tgt_v_update t1 (replicate 20 3) ex_ip 6881 101 = Some (t2, ip_merge_port_to_sin ex_ip 6881)"
    and ok: "tgt_ok IPV4 t2 [(p, fresh_node (replicate 20 3) ex_ip 6881 101), (q, fresh_node (replicate 20 2) ex_ip 6881 100)]"
    and it: "l_item (tv_list t2) = Some q" by blast
  have f: "\<not> tgt_v_find t2 (replicate 20 2) = None"
    using tgt_v_find_item [OF ok, of "replicate 20 2"] by (auto simp: fresh_node_def split: option.splits)
  from tgt_v_update_exact [OF ok _ ex_ip_ok, of "replicate 20 2" 6881 102] f it
  have "tgt_v_update t2 (replicate 20 2) ex_ip 6881 102 = None"
    by (cases "tgt_v_update t2 (replicate 20 2) ex_ip 6881 102")
      (auto simp: fresh_node_def Cons_eq_append_conv split: option.splits if_splits)
  with t1 show ?thesis by blast
qed

end
