(* ===== verification/Value_Db.thy ===== *)
theory Value_Db
  imports Value
begin

text \<open>
  What the database of announced values stores, seen from outside: the targets in the order of their distance to our
  own identifier, each with its nodes, most recent first.  The operations of \<^verbatim>\<open>value.c\<close> are shown to implement
  simple functions on that.
\<close>

section \<open>The abstract database\<close>

type_synonym entry = "bytes \<times> NODE_V list"

definition ins_sorted :: "bytes \<Rightarrow> bytes \<Rightarrow> entry list \<Rightarrow> entry list" where
  "ins_sorted my_id k ts =
     (let near = (\<lambda>e. \<not> xor_dist my_id k < xor_dist my_id (fst e))
      in takeWhile near ts @ (k, []) # dropWhile near ts)"

definition announced :: "NODE_V \<Rightarrow> NODE_V list \<Rightarrow> NODE_V list" where
  "announced n ns = take 10 (n # filter (\<lambda>m. nv_id m \<noteq> nv_id n) ns)"

definition with_target :: "bytes \<Rightarrow> bytes \<Rightarrow> entry list \<Rightarrow> entry list" where
  "with_target my_id k ts = (if k \<in> fst ` set ts then ts else take 50 (ins_sorted my_id k ts))"

definition announce :: "bytes \<Rightarrow> bytes \<Rightarrow> NODE_V \<Rightarrow> entry list \<Rightarrow> entry list" where
  "announce my_id k n ts = map (\<lambda>e. if fst e = k then (k, announced n (snd e)) else e) (with_target my_id k ts)"

definition alive :: "time_t \<Rightarrow> entry list \<Rightarrow> entry list" where
  "alive now ts = filter (\<lambda>e. snd e \<noteq> []) (map (\<lambda>e. (fst e, filter (\<lambda>n. now \<le> nv_eol n) (snd e))) ts)"

definition peers :: "entry list \<Rightarrow> bytes \<Rightarrow> bytes" where
  "peers ts k = (case map_of ts k of None \<Rightarrow> [] | Some ns \<Rightarrow> concat (map nv_pair (take 8 ns)))"

section \<open>Representation\<close>

definition tgt_rep :: "ipver \<Rightarrow> TARGET_V \<Rightarrow> entry \<Rightarrow> bool" where
  "tgt_rep v t e \<longleftrightarrow> tv_target t = fst e \<and> (\<exists>zs. tgt_ok v t zs \<and> map snd zs = snd e)"

definition val_sh :: "ipver \<Rightarrow> VALUE \<Rightarrow> (ptr \<times> ptr) list \<Rightarrow> entry list \<Rightarrow> bool" where
  "val_sh v value xs ts \<longleftrightarrow>
     shelf tv_target (v_list value) (v_hash value) (v_mem value) (v_brk value) xs \<and> holds (tgt_rep v) (v_mem value) xs ts"

definition entries_ok :: "bytes \<Rightarrow> entry list \<Rightarrow> bool" where
  "entries_ok my_id ts \<longleftrightarrow> length ts \<le> 50 \<and> (\<forall>e \<in> set ts. length (fst e) = SHA1_SIZE) \<and>
     sorted_wrt (\<lambda>d e. xor_dist my_id (fst d) < xor_dist my_id (fst e)) ts"

definition val_rep :: "ipver \<Rightarrow> bytes \<Rightarrow> VALUE \<Rightarrow> entry list \<Rightarrow> bool" where
  "val_rep v my_id value ts \<longleftrightarrow> (\<exists>xs. val_sh v value xs ts) \<and> entries_ok my_id ts"

lemma val_init_rep: "val_rep v my_id val_init []"
proof -
  have "dl (list_init :: ptr LIST) []" using dlc_dl [OF list_init_dlc] .
  then have "val_sh v val_init [] []"
    by (simp add: val_sh_def shelf_def val_init_def hash_ok_init indexes_def hash_get_init)
  then show ?thesis unfolding val_rep_def by (auto simp: entries_ok_def)
qed

lemma entries_distinct: "entries_ok my_id ts \<Longrightarrow> distinct (map fst ts)"
proof -
  assume "entries_ok my_id ts"
  then have "sorted_wrt (\<lambda>d e. xor_dist my_id (fst d) < xor_dist my_id (fst e)) ts" by (simp add: entries_ok_def)
  then show ?thesis by (induction ts) auto
qed

text \<open>Where a target is.\<close>

lemma holds_keys:
  assumes "holds (tgt_rep v) M xs ts"
  shows "k \<in> fst ` set ts \<longleftrightarrow> (\<exists>p q t. (p, q) \<in> set xs \<and> M q = Some t \<and> tv_target t = k)"
  using assms
proof (induction xs arbitrary: ts)
  case (Cons x xs)
  then obtain t a as where ts: "ts = a # as" "M (snd x) = Some t" "tgt_rep v t a" "holds (tgt_rep v) M xs as" by auto
  with Cons.IH [OF ts(4)] show ?case by (cases x) (auto simp: tgt_rep_def)
qed simp

lemma val_find_rep:
  assumes "val_sh v value xs ts" and "length k = SHA1_SIZE"
  shows "val_find value k = Some q \<longleftrightarrow> (\<exists>p t. (p, q) \<in> set xs \<and> v_mem value q = Some t \<and> tv_target t = k)"
proof -
  have "shelf tv_target (v_list value) (v_hash value) (v_mem value) (v_brk value) xs"
    using assms(1) by (simp add: val_sh_def)
  from shelf_find [OF this, of k q] show ?thesis using assms(2) by (simp add: val_find_def)
qed

lemma val_find_None:
  assumes "val_sh v value xs ts" and "length k = SHA1_SIZE"
  shows "val_find value k = None \<longleftrightarrow> k \<notin> fst ` set ts"
proof -
  have "holds (tgt_rep v) (v_mem value) xs ts" using assms(1) by (simp add: val_sh_def)
  then show ?thesis
    using val_find_rep [OF assms] unfolding holds_keys [OF \<open>holds (tgt_rep v) (v_mem value) xs ts\<close>]
    by (metis not_None_eq)
qed

section \<open>Deleting and printing\<close>

lemma val_del_ok:
  assumes s: "val_sh v value (us @ (p, q) # vs) ts" and safe: "del_safe (v_list value) (us @ (p, q) # vs) p"
  shows "\<exists>value'. val_del value (Some p) = Some value' \<and> dlc (v_list value') (us @ vs) \<and>
    val_sh v value' (us @ vs) (take (length us) ts @ drop (Suc (length us)) ts)"
proof -
  let ?M = "v_mem value"
  from s have sh: "shelf tv_target (v_list value) (v_hash value) ?M (v_brk value) (us @ (p, q) # vs)"
    and ho: "holds (tgt_rep v) ?M (us @ (p, q) # vs) ts" by (simp_all add: val_sh_def)
  from holds_split [OF ho] obtain as a bs t where ts: "ts = as @ a # bs" "length as = length us"
    "?M q = Some t" "tgt_rep v t a" "holds (tgt_rep v) ?M us as" "holds (tgt_rep v) ?M vs bs"
    unfolding snd_conv by blast
  from shelf_dl [OF sh] have d: "dl (v_list value) (us @ (p, q) # vs)" .
  from list_del_dl [OF d safe] obtain L' where
    L': "list_del (v_list value) (Some p) = Some (L', first (us @ vs) None)" "dlc L' (us @ vs)" by blast
  from ts(4) obtain L2 where fr: "tgt_v_free t = Some L2" using tgt_v_free_ok unfolding tgt_rep_def by blast
  note fresh = shelf_fresh [OF sh]
  have "holds (tgt_rep v) (?M(q := None)) (us @ vs) (as @ bs)"
    using ts(5,6) fresh by (intro holds_append) (simp_all add: holds_frame)
  moreover note shelf_del [OF sh ts(3) dlc_dl [OF L'(2)]]
  moreover have "take (length us) ts @ drop (Suc (length us)) ts = as @ bs" using ts(1,2) by simp
  ultimately show ?thesis
    using L' fr ts(3) list_value_dl [OF d] by (simp add: val_del_def val_sh_def)
qed

text \<open>Replacing the object of one target.\<close>

lemma val_sh_upd:
  assumes s: "val_sh v value (us @ (p, q) # vs) (as @ a # bs)" and l: "length as = length us"
    and t: "v_mem value q = Some t" and r: "tgt_rep v t' e" and k: "tv_target t' = tv_target t"
  shows "val_sh v (value\<lparr>v_mem := (v_mem value)(q \<mapsto> t')\<rparr>) (us @ (p, q) # vs) (as @ e # bs)"
proof -
  let ?M = "v_mem value"
  from s have sh: "shelf tv_target (v_list value) (v_hash value) ?M (v_brk value) (us @ (p, q) # vs)"
    and ho: "holds (tgt_rep v) ?M (us @ (p, q) # vs) (as @ a # bs)" by (simp_all add: val_sh_def)
  from holds_split [OF ho] l have "holds (tgt_rep v) ?M us as" "holds (tgt_rep v) ?M vs bs"
    by (metis append_eq_append_conv list.inject)+
  moreover note shelf_fresh [OF sh]
  ultimately have "holds (tgt_rep v) (?M(q \<mapsto> t')) (us @ (p, q) # vs) (as @ e # bs)"
    using r by (intro holds_append) (simp_all add: holds_frame)
  with shelf_upd [OF sh _ t k, of p] show ?thesis by (simp add: val_sh_def del: holds_append_iff)
qed

interpretation print_walk: walker v_list "\<lambda>s xs ys. val_sh v s (xs @ ys) ts" val_print_body "\<lambda>_. True" for v ts
proof
  fix s xs ys p q
  show "dl (v_list s) (xs @ ys)" if "val_sh v s (xs @ ys) ts" using that by (simp add: val_sh_def shelf_def)
  assume sh: "val_sh v s (xs @ (p, q) # ys) ts"
  then have "holds (tgt_rep v) (v_mem s) (xs @ (p, q) # ys) ts" by (simp add: val_sh_def)
  from holds_split [OF this] obtain as a bs t where
    ts: "ts = as @ a # bs" "length as = length xs" "v_mem s q = Some t" "tgt_rep v t a" unfolding snd_conv by blast
  from ts(4) obtain t' where t': "tgt_v_print t = Some t'" "tgt_rep v t' a" "tv_target t' = tv_target t"
    using tgt_v_print_ok unfolding tgt_rep_def by metis
  from val_sh_upd [OF sh [unfolded ts(1)] ts(2,3) t'(2,3)] t'(1) ts
  show "\<exists>s'. val_print_body s p q = Some s' \<and> val_sh v s' ((if True then xs @ [(p, q)] else xs) @ ys) ts"
    by (simp add: val_print_body_def)
qed

lemma val_sh_list: "val_sh v value xs ts \<Longrightarrow> dl L xs \<Longrightarrow> val_sh v (value\<lparr>v_list := L\<rparr>) xs ts"
  by (simp add: val_sh_def shelf_def)

lemma val_start:
  assumes "val_sh v value xs ts"
  shows "list_start (v_list value) = Some ((v_list value)\<lparr>l_item := first xs None\<rparr>, first xs None)"
    and "val_sh v (value\<lparr>v_list := (v_list value)\<lparr>l_item := first xs None\<rparr>\<rparr>) xs ts"
    and "dlc ((v_list value)\<lparr>l_item := first xs None\<rparr>) xs"
proof -
  have d: "dl (v_list value) xs" using assms by (simp add: val_sh_def shelf_def)
  from list_start_dl [OF d] show "list_start (v_list value) = Some ((v_list value)\<lparr>l_item := first xs None\<rparr>, first xs None)" .
  from dlc_start [OF d] show c: "dlc ((v_list value)\<lparr>l_item := first xs None\<rparr>) xs" .
  from val_sh_list [OF assms dlc_dl [OF c]]
  show "val_sh v (value\<lparr>v_list := (v_list value)\<lparr>l_item := first xs None\<rparr>\<rparr>) xs ts" .
qed

lemma val_print_ok:
  assumes "val_sh v value xs ts"
  shows "\<exists>value'. val_print b value = Some value' \<and> val_sh v value' xs ts"
  using print_walk.walk [of v "value\<lparr>v_list := (v_list value)\<lparr>l_item := first xs None\<rparr>\<rparr>" "[]" xs ts] val_start [OF assms] assms
  by (simp add: val_print_def)

section \<open>Sorted insertion\<close>

lemma ins_pos_seg:
  "dl L (ws @ xs) \<Longrightarrow> (\<forall>x \<in> set xs. closer (snd x) = Some (c (snd x))) \<Longrightarrow>
   ins_pos closer L (first xs None) = Some (first (dropWhile (\<lambda>x. \<not> c (snd x)) xs) None)"
proof (induction xs arbitrary: ws)
  case Nil
  then show ?case by (simp add: ins_pos.simps)
next
  case (Cons x xs)
  obtain p q where x: "x = (p, q)" by (cases x)
  have "l_mem L p = Some \<lparr>i_val = q, i_next = first xs None, i_prev = final ws None\<rparr>"
    using Cons.prems(1) by (simp add: dl_def x)
  with Cons.IH [of "ws @ [x]"] Cons.prems show ?case by (subst ins_pos.simps) (simp add: x)
qed

lemma holds_while:
  "holds R M xs ts \<Longrightarrow> (\<And>q t a. M q = Some t \<Longrightarrow> R t a \<Longrightarrow> P q = Q a) \<Longrightarrow>
   holds R M (takeWhile (\<lambda>x. P (snd x)) xs) (takeWhile Q ts) \<and> holds R M (dropWhile (\<lambda>x. P (snd x)) xs) (dropWhile Q ts)"
proof (induction xs arbitrary: ts)
  case (Cons x xs)
  from Cons.prems(1) obtain t a as where
    ts: "ts = a # as" "M (snd x) = Some t" "R t a" "holds R M xs as" by auto
  have "P (snd x) = Q a" by (rule Cons.prems(2) [OF ts(2,3)])
  with Cons.IH [OF ts(4) Cons.prems(2)] ts show ?case by auto
qed simp

lemma val_sh_ins:
  assumes s: "val_sh v value (us @ vs) (as @ bs)" and l: "length as = length us"
    and new: "hash_get (v_hash value) k = None" and k: "length k = SHA1_SIZE"
    and room: "length (us @ vs) \<le> 50" and d: "dl L (us @ (p, v_brk value) # vs)"
  shows "val_sh v (fst (tgt_v_alloc value k)\<lparr>v_list := L,
      v_hash := fst (hash_put (v_hash value) (take SHA1_SIZE k) (Some (v_brk value)))\<rparr>)
    (us @ (p, v_brk value) # vs) (as @ (k, []) # bs)"
proof -
  let ?M = "v_mem value" and ?b = "v_brk value" and ?t = "tgt_v_init k"
  from s have sh: "shelf tv_target (v_list value) (v_hash value) ?M ?b (us @ vs)"
    and ho: "holds (tgt_rep v) ?M (us @ vs) (as @ bs)" by (simp_all add: val_sh_def)
  from holds_appendD [OF ho l] have h: "holds (tgt_rep v) ?M us as" "holds (tgt_rep v) ?M vs bs" by blast+
  have b: "?b \<notin> snd ` set us" "?b \<notin> snd ` set vs" using shelf_brk [OF sh] by auto
  have t: "tv_target ?t = k" using k by (simp add: tgt_v_init_def)
  then have "tgt_rep v ?t (k, [])" using tgt_ok_init by (auto simp: tgt_rep_def)
  then have "holds (tgt_rep v) (?M(?b \<mapsto> ?t)) (us @ (p, ?b) # vs) (as @ (k, []) # bs)"
    using h b by (intro holds_append) (simp_all add: holds_frame)
  moreover have "shelf tv_target L (fst (hash_put (v_hash value) (tv_target ?t) (Some ?b))) (?M(?b \<mapsto> ?t)) (Suc ?b)
      (us @ (p, ?b) # vs)"
    by (rule shelf_ins [OF sh]) (use new t room d in simp_all)
  ultimately show ?thesis using t k by (simp add: val_sh_def tgt_v_alloc_def del: holds_append_iff)
qed

text \<open>One of the two insertions of \<open>val_ins_sort\<close> happens, or none when the target would be the 51st.\<close>

definition ins_step :: "VALUE \<Rightarrow> bytes \<Rightarrow> ptr option \<Rightarrow> (VALUE \<times> ptr option) option" where
  "ins_step value target_id pos = (case pos of
         Some p \<Rightarrow> do {
           let (value, q) = tgt_v_alloc value target_id;
           (L, _) \<leftarrow> list_ins (v_list value) (Some p) q;
           let h = fst (hash_put (v_hash value) (take SHA1_SIZE target_id) (Some q));
           Some (value\<lparr>v_list := L, v_hash := h\<rparr>, Some q)
         }
       | None \<Rightarrow>
           if list_size (v_list value) < VALUE_SIZE_MAX then do {
             let (value, q) = tgt_v_alloc value target_id;
             (L, _) \<leftarrow> list_put (v_list value) q;
             let h = fst (hash_put (v_hash value) (take SHA1_SIZE target_id) (Some q));
             Some (value\<lparr>v_list := L, v_hash := h\<rparr>, Some q)
           } else Some (value, None))"

lemma if_not_ex: "\<not> b \<Longrightarrow> Q \<Longrightarrow> if b then P else Q"
  by simp

lemma ins_step_ok:
  assumes s: "val_sh v value (us @ vs) (as @ bs)" and l: "length as = length us"
    and new: "hash_get (v_hash value) k = None" and k: "length k = SHA1_SIZE"
    and room: "length (us @ vs) \<le> 50" and c: "dlc (v_list value) (us @ vs)"
  shows "if vs = [] \<and> length us = 50 then ins_step value k (first vs None) = Some (value, None)
    else \<exists>value' p. ins_step value k (first vs None) = Some (value', Some (v_brk value)) \<and>
      val_sh v value' (us @ (p, v_brk value) # vs) (as @ (k, []) # bs) \<and>
      l_item (v_list value') = first (us @ vs) (Some p)"
proof -
  have d: "dl (v_list value) (us @ vs)" using c by simp
  have sz: "list_size (v_list value) = int (length (us @ vs))" by (rule list_size_dl [OF d])
  let ?p = "l_brk (v_list value)" and ?b = "v_brk value"
    and ?new = "\<lambda>L. fst (tgt_v_alloc value k)\<lparr>v_list := L,
      v_hash := fst (hash_put (v_hash value) (take SHA1_SIZE k) (Some (v_brk value)))\<rparr>"
  have a: "snd (tgt_v_alloc value k) = ?b" "v_list (fst (tgt_v_alloc value k)) = v_list value"
    "v_hash (fst (tgt_v_alloc value k)) = v_hash value" by (simp_all add: tgt_v_alloc_def)
  show ?thesis
  proof (cases vs)
    case (Cons x ws)
    obtain r w where x: "x = (r, w)" by (cases x)
    have "dl (v_list value) (us @ (r, w) # ws)" "int (length (us @ (r, w) # ws)) < LONG_MAX"
      using d room by (simp_all add: Cons x)
    from list_ins_dl [OF this, of ?b] obtain L where L: "list_ins (v_list value) (Some r) ?b = Some (L, Some ?p)"
      "dl L (us @ (?p, ?b) # vs)" "l_item L = l_item (v_list value)" by (auto simp: Cons x)
    have "l_item L = first (us @ vs) (Some ?p)" using c L(3) by (cases us) (auto simp: dlc_def Cons)
    moreover have "ins_step value k (first vs None) = Some (?new L, Some ?b)"
      using L(1) by (simp add: ins_step_def Cons x case_prod_beta a)
    moreover have "\<not> (vs = [] \<and> length us = 50)" by (simp add: Cons)
    ultimately show ?thesis using val_sh_ins [OF s l new k room L(2)] by (intro if_not_ex) auto
  next
    case Nil
    show ?thesis
    proof (cases "length us = 50")
      case True
      then show ?thesis using sz by (simp add: ins_step_def Nil)
    next
      case False
      have "dl (v_list value) us" "int (length us) < LONG_MAX" using d room by (simp_all add: Nil)
      from list_put_dl [OF this, of ?b] obtain L where L: "list_put (v_list value) ?b = Some (L, Some ?p)"
        "dl L (us @ (?p, ?b) # vs)" "l_item L = (if us = [] then Some ?p else l_item (v_list value))"
        by (auto simp: Nil)
      have "l_item L = first (us @ vs) (Some ?p)" using c L(3) by (cases us) (auto simp: dlc_def Nil)
      moreover have "ins_step value k (first vs None) = Some (?new L, Some ?b)"
        using L(1) sz room False by (simp add: ins_step_def Nil case_prod_beta a)
      moreover have "\<not> (vs = [] \<and> length us = 50)" using False by simp
      ultimately show ?thesis using val_sh_ins [OF s l new k room L(2)] by (intro if_not_ex) auto
    qed
  qed
qed

text \<open>Dropping the last target of 51.\<close>

lemma trim_ok:
  assumes s: "val_sh v value xs ts" and it: "length xs = 51 \<Longrightarrow> l_item (v_list value) \<noteq> final xs None"
    and len: "length xs \<le> 51"
  shows "\<exists>value'. (if list_size (v_list value) > VALUE_SIZE_MAX then do {
      s \<leftarrow> list_stop (v_list value); val_del value s } else Some value) = Some value' \<and>
    val_sh v value' (take 50 xs) (take 50 ts)"
proof -
  have d: "dl (v_list value) xs" using s by (simp add: val_sh_def shelf_def)
  have lt: "length ts = length xs" using s by (auto simp: val_sh_def dest: holds_length)
  show ?thesis
  proof (cases "length xs = 51")
    case False
    then have "length xs \<le> 50" using len by simp
    then show ?thesis using s lt by (simp add: list_size_dl [OF d])
  next
    case True
    then obtain us p q where xs: "xs = us @ [(p, q)]" by (cases xs rule: rev_cases) auto
    have "l_item (v_list value) \<noteq> Some p" using it [OF True] by (simp add: xs)
    then have "del_safe (v_list value) (us @ (p, q) # []) p" by (simp add: del_safe_def)
    from val_del_ok [OF s [unfolded xs] this] obtain value' where
      "val_del value (Some p) = Some value'" "val_sh v value' us (take (length us) ts @ drop (Suc (length us)) ts)" by auto
    moreover have "length us = 50" using True by (simp add: xs)
    ultimately show ?thesis using lt True by (simp add: list_size_dl [OF d] list_stop_dl [OF d] xs)
  qed
qed

lemma val_ins_sort_steps:
  "val_ins_sort b my_id value k = do {
     (L, i) \<leftarrow> list_start (v_list value);
     pos \<leftarrow> val_ins_pos my_id k (value\<lparr>v_list := L\<rparr>) i;
     (value, new) \<leftarrow> ins_step (value\<lparr>v_list := L\<rparr>) k pos;
     value \<leftarrow> (if list_size (v_list value) > VALUE_SIZE_MAX then do {
         s \<leftarrow> list_stop (v_list value);
         val_del value s
       } else Some value);
     value \<leftarrow> (if new \<noteq> None then val_print b value else Some value);
     Some (value, new)
   }"
  by (simp add: val_ins_sort_def ins_step_def Let_def)

lemma val_ins_sort_ok:
  assumes s: "val_sh v value xs ts" and e: "entries_ok my_id ts" and k: "length k = SHA1_SIZE"
    and my: "length my_id = SHA1_SIZE" and new: "k \<notin> fst ` set ts"
  shows "\<exists>value' new ys. val_ins_sort b my_id value k = Some (value', new) \<and>
    val_sh v value' ys (take 50 (ins_sorted my_id k ts)) \<and> (new = None \<longleftrightarrow> k \<notin> fst ` set (take 50 (ins_sorted my_id k ts))) \<and>
    (new \<noteq> None \<longrightarrow> val_find value' k = new)"
proof -
  let ?near = "\<lambda>e. \<not> xor_dist my_id k < xor_dist my_id (fst e)"
  let ?V = "value\<lparr>v_list := (v_list value)\<lparr>l_item := first xs None\<rparr>\<rparr>"
  let ?c = "\<lambda>q. xor_dist my_id k < xor_dist my_id (tv_target (the (v_mem value q)))"
  note st = val_start [OF s]
  have ho: "holds (tgt_rep v) (v_mem value) xs ts" using s by (simp add: val_sh_def)
  have keys: "length (tv_target t) = SHA1_SIZE" if "(p, q) \<in> set xs" "v_mem value q = Some t" for p q t
    using holds_keys [OF ho, of "tv_target t"] that e by (fastforce simp: entries_ok_def)
  have "\<forall>x \<in> set xs. tgt_closer my_id k ?V (snd x) = Some (?c (snd x))"
  proof
    fix x assume x: "x \<in> set xs"
    obtain p q where pq: "x = (p, q)" by (cases x)
    with x s shelf_mem obtain t where t: "v_mem value q = Some t" unfolding val_sh_def by metis
    show "tgt_closer my_id k ?V (snd x) = Some (?c (snd x))"
      using sha1_compare_less [OF k keys my] x t by (auto simp: tgt_closer_def pq)
  qed
  from ins_pos_seg [of "(v_list value)\<lparr>l_item := first xs None\<rparr>" "[]" xs, OF _ this] st(3)
  have pos: "val_ins_pos my_id k ?V (first xs None) = Some (first (dropWhile (\<lambda>x. \<not> ?c (snd x)) xs) None)"
    by (simp add: val_ins_pos_def)
  define us vs as bs where d: "us = takeWhile (\<lambda>x. \<not> ?c (snd x)) xs" "vs = dropWhile (\<lambda>x. \<not> ?c (snd x)) xs"
    "as = takeWhile ?near ts" "bs = dropWhile ?near ts"
  have "holds (tgt_rep v) (v_mem value) us as \<and> holds (tgt_rep v) (v_mem value) vs bs"
    unfolding d by (rule holds_while [OF ho]) (simp add: tgt_rep_def)
  then have l: "length as = length us" "length bs = length vs" by (auto dest: holds_length)
  have split: "xs = us @ vs" "ts = as @ bs" "ins_sorted my_id k ts = as @ (k, []) # bs"
    by (simp_all add: d ins_sorted_def Let_def)
  have room: "length (us @ vs) \<le> 50" using e l by (simp add: entries_ok_def split(2))
  have none: "hash_get (v_hash ?V) k = None" using val_find_None [OF s k] new k by (simp add: val_find_def)
  note pos' = pos [folded d]
  note run = val_ins_sort_steps [of b my_id "value" k, unfolded st(1) Option.bind.simps prod.case pos']
  note step = ins_step_ok [of v ?V us vs as bs k, OF _ l(1) none k room, folded split(1,2)]
  show ?thesis
  proof (cases "vs = [] \<and> length us = 50")
    case True
    with step st have i: "ins_step ?V k (first vs None) = Some (?V, None)" by simp
    have "dl (v_list ?V) xs" using st(3) by simp
    from list_size_dl [OF this] True have sz: "list_size (v_list ?V) = 50" by (simp add: split(1))
    have "val_ins_sort b my_id value k = Some (?V, None)"
      unfolding run i Option.bind.simps prod.case sz by simp
    moreover have "take 50 (ins_sorted my_id k ts) = ts" unfolding split(3) using True l by (simp add: split(2))
    ultimately show ?thesis using st(2) new by auto
  next
    case False
    with step st obtain V2 p where i: "ins_step ?V k (first vs None) = Some (V2, Some (v_brk value))"
      and s2: "val_sh v V2 (us @ (p, v_brk value) # vs) (as @ (k, []) # bs)"
      and it: "l_item (v_list V2) = first xs (Some p)" by auto
    have "l_item (v_list V2) \<noteq> final (us @ (p, v_brk value) # vs) None"
      if "length (us @ (p, v_brk value) # vs) = 51"
    proof -
      have vs: "vs \<noteq> []" using False that by auto
      then obtain w r where w: "vs = w @ [r]" by (cases vs rule: rev_cases) auto
      have "distinct (map fst (us @ (p, v_brk value) # vs))" using s2 by (simp add: val_sh_def shelf_def dl_def)
      moreover have "us @ w \<noteq> []" using that w by auto
      ultimately show ?thesis using it by (cases us; cases w) (auto simp: split(1) w)
    qed
    from trim_ok [OF s2 this] room obtain V3 where t: "(if list_size (v_list V2) > VALUE_SIZE_MAX then do {
        s \<leftarrow> list_stop (v_list V2); val_del V2 s } else Some V2) = Some V3"
      and s3: "val_sh v V3 (take 50 (us @ (p, v_brk value) # vs)) (take 50 (as @ (k, []) # bs))" by auto
    from val_print_ok [OF s3, of b] obtain V4 where p4: "val_print b V3 = Some V4"
      and s4: "val_sh v V4 (take 50 (us @ (p, v_brk value) # vs)) (take 50 (as @ (k, []) # bs))" by blast
    have "length us < 50" using False room by (cases vs) auto
    then have tk: "take 50 (as @ (k, []) # bs) = as @ (k, []) # take (49 - length us) bs"
      "take 50 (us @ (p, v_brk value) # vs) = us @ (p, v_brk value) # take (49 - length us) vs"
      using l(1) by (simp_all add: take_Cons' )
    have "holds (tgt_rep v) (v_mem V4) (us @ (p, v_brk value) # take (49 - length us) vs) (as @ (k, []) # take (49 - length us) bs)"
      using s4 unfolding val_sh_def tk by blast
    from holds_split [OF this] l(1) obtain t where "v_mem V4 (v_brk value) = Some t" "tgt_rep v t (k, [])"
      by (auto simp: append_eq_append_conv)
    then have "val_find V4 k = Some (v_brk value)"
      unfolding val_find_rep [OF s4 k] tk by (auto simp: tgt_rep_def)
    moreover have "val_ins_sort b my_id value k = Some (V4, Some (v_brk value))"
      by (simp add: run i t p4)
    moreover have "k \<in> fst ` set (take 50 (ins_sorted my_id k ts))" unfolding split(3) tk by simp
    ultimately show ?thesis using s4 unfolding split(3) by auto
  qed
qed

section \<open>Announcing\<close>

text \<open>
  The situation in which \<open>tgt_v_update\<close> frees the item it still needs: the node is known, \<open>list->item\<close> points to
  its item and another item precedes it.
\<close>

definition stale :: "TARGET_V \<Rightarrow> bytes \<Rightarrow> bool" where
  "stale t node_id = (case tgt_v_find t node_id of None \<Rightarrow> False
     | Some i \<Rightarrow> l_item (tv_list t) = Some i \<and> list_prev (tv_list t) (Some i) \<noteq> Some None)"

definition val_stale :: "VALUE \<Rightarrow> bytes \<Rightarrow> bytes \<Rightarrow> bool" where
  "val_stale value target_id node_id = (case val_find value target_id of None \<Rightarrow> False
     | Some q \<Rightarrow> (case v_mem value q of None \<Rightarrow> False | Some t \<Rightarrow> stale t node_id))"

lemma fresh_node_id [simp]: "nv_id (fresh_node node_id from port now) = node_id"
  by (simp add: fresh_node_def)

lemma tgt_v_update_rep:
  assumes r: "tgt_rep v t (k, ns)" and i: "length node_id = SHA1_SIZE" and f: "ip_ok v from"
  shows "if stale t node_id then tgt_v_update t node_id from port now = None
    else \<exists>t'. tgt_v_update t node_id from port now = Some (t', ip_merge_port_to_sin from (word_of_int port)) \<and>
      tv_target t' = tv_target t \<and> tgt_rep v t' (k, announced (fresh_node node_id from port now) ns)"
proof -
  let ?n = "fresh_node node_id from port now"
  from r obtain zs where zs: "tgt_ok v t zs" "map snd zs = ns" and k: "tv_target t = k" by (auto simp: tgt_rep_def)
  have d: "dl (tv_list t) zs" using zs(1) by (simp add: tgt_ok_def mru_def tmru_def)
  show ?thesis
  proof (cases "tgt_v_find t node_id")
    case None
    from tgt_v_find_item [OF zs(1) i] have "\<forall>m \<in> set ns. nv_id m \<noteq> node_id" by (auto simp: None zs(2) [symmetric])
    then have "announced ?n ns = take 10 (?n # ns)" by (simp add: announced_def filter_id_conv)
    then have an: "announced ?n ns = map snd (take 10 ((p, ?n) # zs))" for p by (simp add: zs(2) [symmetric] take_map)
    from tgt_v_update_new [OF zs(1) i f None, of port now] obtain t' p where
      "tgt_v_update t node_id from port now = Some (t', ip_merge_port_to_sin from (word_of_int port))"
      "tv_target t' = tv_target t" "tgt_ok v t' (take 10 ((p, ?n) # zs))" by blast
    moreover from this(2,3) have "tgt_rep v t' (k, announced ?n ns)" unfolding tgt_rep_def an [of p] k by auto
    ultimately show ?thesis by (simp add: stale_def None)
  next
    case (Some p)
    from tgt_v_find_item [OF zs(1) i] obtain us n vs where z: "zs = us @ (p, n) # vs" "nv_id n = node_id"
      by (auto simp: Some)
    have st: "stale t node_id \<longleftrightarrow> l_item (tv_list t) = Some p \<and> us \<noteq> []"
      using list_prev_dl [OF d [unfolded z(1)]] by (auto simp: stale_def Some)
    have "distinct (map nv_id ns)"
      using zs indexes_distinct [of "hash_get (tv_hash t)" nv_id zs] by (auto simp: tgt_ok_def mru_def tmru_def comp_def)
    then have "nv_id n \<notin> nv_id ` set (map snd us)" "nv_id n \<notin> nv_id ` set (map snd vs)"
      by (auto simp: zs(2) [symmetric] z(1))
    then have "\<forall>m \<in> set (map snd us). nv_id m \<noteq> node_id" "\<forall>m \<in> set (map snd vs). nv_id m \<noteq> node_id"
      using z(2) by (metis imageI)+
    then have "filter (\<lambda>m. nv_id m \<noteq> node_id) ns = map snd (us @ vs)"
      using z(2) unfolding zs(2) [symmetric] z(1) by (simp add: filter_id_conv)
    moreover have "length (us @ vs) \<le> 9" using zs(1) by (simp add: tgt_ok_def z(1))
    ultimately have "announced ?n ns = ?n # map snd (us @ vs)" by (simp add: announced_def)
    then have an: "announced ?n ns = map snd ((q, ?n) # us @ vs)" for q by simp
    have rep: "tgt_rep v t' (k, announced ?n ns)" if "tgt_ok v t' ((q, ?n) # us @ vs)" "tv_target t' = tv_target t" for t' q
      using that unfolding an [of q] tgt_rep_def k fst_conv snd_conv by blast
    show ?thesis unfolding st using tgt_v_update_known [OF zs(1) i f z, of port now] rep
      by (auto split: if_splits)
  qed
qed

lemma not_stale_empty: "tgt_rep v t (k, []) \<Longrightarrow> length node_id = SHA1_SIZE \<Longrightarrow> \<not> stale t node_id"
  using tgt_v_find_item [of v t "[]" node_id] by (auto simp: tgt_rep_def stale_def split: option.splits)

text \<open>The second half of \<open>val_put\<close>, on a database that has the target or not.\<close>

definition put_node :: "VALUE \<Rightarrow> ptr option \<Rightarrow> bytes \<Rightarrow> int \<Rightarrow> IP \<Rightarrow> time_t \<Rightarrow> (VALUE \<times> IP) option" where
  "put_node value q node_id port from now = (case q of None \<Rightarrow> Some (value, from)
     | Some q \<Rightarrow> do {
         target \<leftarrow> v_mem value q;
         (target, from) \<leftarrow> tgt_v_update target node_id from port now;
         Some (value\<lparr>v_mem := (v_mem value)(q \<mapsto> target)\<rparr>, from)
       })"

lemma map_at:
  assumes "distinct (map fst (as @ (k, ns) # bs))"
  shows "map (\<lambda>e. if fst e = k then (k, f (snd e)) else e) (as @ (k, ns) # bs) = as @ (k, f ns) # bs"
  using assms by (force intro: map_idI)

lemma put_node_known:
  assumes s: "val_sh v value xs ts" and dt: "distinct (map fst ts)" and q: "val_find value k = Some q" and k: "length k = SHA1_SIZE"
    and i: "length node_id = SHA1_SIZE" and f: "ip_ok v from"
  shows "if val_stale value k node_id then put_node value (Some q) node_id port from now = None
    else \<exists>value'. put_node value (Some q) node_id port from now =
        Some (value', ip_merge_port_to_sin from (word_of_int port)) \<and>
      val_sh v value' xs (map (\<lambda>e. if fst e = k then (k, announced (fresh_node node_id from port now) (snd e)) else e) ts)"
proof -
  let ?n = "fresh_node node_id from port now"
  from q obtain p t where x: "(p, q) \<in> set xs" and t: "v_mem value q = Some t" "tv_target t = k"
    using val_find_rep [OF s k] by blast
  from x obtain us vs where xs: "xs = us @ (p, q) # vs" by (auto dest: split_list)
  have "holds (tgt_rep v) (v_mem value) (us @ (p, q) # vs) ts" using s by (simp add: val_sh_def xs)
  from holds_split [OF this] t obtain as a bs where ts: "ts = as @ a # bs" "length as = length us" "tgt_rep v t a"
    by auto
  then obtain ns where a: "a = (k, ns)" using t(2) by (cases a) (auto simp: tgt_rep_def)
  have st: "val_stale value k node_id = stale t node_id" by (simp add: val_stale_def q t)
  have new: "map (\<lambda>e. if fst e = k then (k, announced ?n (snd e)) else e) ts = as @ (k, announced ?n ns) # bs"
    using map_at [of as k ns bs] dt by (simp add: ts(1) a)
  note u = tgt_v_update_rep [OF ts(3) [unfolded a] i f, of port now]
  show ?thesis
  proof (cases "stale t node_id")
    case True
    with u show ?thesis by (simp add: st put_node_def t)
  next
    case False
    with u obtain t' where t': "tgt_v_update t node_id from port now = Some (t', ip_merge_port_to_sin from (word_of_int port))"
      "tv_target t' = tv_target t" "tgt_rep v t' (k, announced ?n ns)" by auto
    from val_sh_upd [OF s [unfolded xs ts(1)] ts(2) t(1) t'(3,2)] t' False show ?thesis
      by (simp add: st put_node_def t(1) new xs)
  qed
qed

lemma val_put_steps:
  "val_put b my_id value k node_id port from now = do {
     (value, q) \<leftarrow> (case val_find value k of None \<Rightarrow> val_ins_sort b my_id value k | Some q \<Rightarrow> Some (value, Some q));
     put_node value q node_id port from now
   }"
  by (simp add: val_put_def put_node_def)

lemma sorted_wrt_mid:
  "sorted_wrt r (as @ bs) \<Longrightarrow> (\<forall>a \<in> set as. r a x) \<Longrightarrow> (\<forall>b \<in> set bs. r x b) \<Longrightarrow> sorted_wrt r (as @ x # bs)"
  by (simp add: sorted_wrt_append)

lemma sorted_wrt_take_le: "sorted_wrt r xs \<Longrightarrow> sorted_wrt r (take n xs)"
  by (metis append_take_drop_id sorted_wrt_append)

lemma with_target_ok:
  assumes e: "entries_ok my_id ts" and k: "length k = SHA1_SIZE" and my: "length my_id = SHA1_SIZE"
  shows "entries_ok my_id (with_target my_id k ts)"
proof (cases "k \<in> fst ` set ts")
  case False
  let ?r = "\<lambda>d e. xor_dist my_id (fst d) < xor_dist my_id (fst e)"
  let ?near = "\<lambda>e. \<not> xor_dist my_id k < xor_dist my_id (fst e)"
  have so: "sorted_wrt ?r ts" using e by (simp add: entries_ok_def)
  have lt: "xor_dist my_id (fst a) < xor_dist my_id k" if a: "a \<in> set (takeWhile ?near ts)" for a
  proof -
    have "a \<in> set ts" "\<not> xor_dist my_id k < xor_dist my_id (fst a)" using a by (auto dest: set_takeWhileD)
    moreover from this have "xor_dist my_id (fst a) \<noteq> xor_dist my_id k"
      using xor_dist_inj [of "fst a" k my_id] False e k my by (auto simp: entries_ok_def)
    ultimately show ?thesis by simp
  qed
  have gt: "xor_dist my_id k < xor_dist my_id (fst b)" if b: "b \<in> set (dropWhile ?near ts)" for b
  proof (cases "dropWhile ?near ts")
    case (Cons c cs)
    have "xor_dist my_id k < xor_dist my_id (fst c)" using hd_dropWhile [of ?near ts] Cons by simp
    moreover have "sorted_wrt ?r (takeWhile ?near ts @ dropWhile ?near ts)" using so by simp
    then have "sorted_wrt ?r (c # cs)" unfolding Cons sorted_wrt_append by blast
    ultimately show ?thesis using b Cons by force
  next
    case Nil
    then show ?thesis using b by (metis empty_iff list.set(1))
  qed
  have "sorted_wrt ?r (ins_sorted my_id k ts)"
    unfolding ins_sorted_def Let_def
  proof (rule sorted_wrt_mid)
    show "sorted_wrt ?r (takeWhile ?near ts @ dropWhile ?near ts)" using so by simp
    show "\<forall>a \<in> set (takeWhile ?near ts). ?r a (k, [])" unfolding fst_conv using lt by blast
    show "\<forall>b \<in> set (dropWhile ?near ts). ?r (k, []) b" unfolding fst_conv using gt by blast
  qed
  then have "sorted_wrt ?r (take 50 (ins_sorted my_id k ts))" by (rule sorted_wrt_take_le)
  moreover have "length (fst x) = SHA1_SIZE" if "x \<in> set (ins_sorted my_id k ts)" for x
    using that e k by (auto simp: entries_ok_def ins_sorted_def Let_def dest: set_takeWhileD set_dropWhileD)
  ultimately show ?thesis using False by (auto simp: with_target_def entries_ok_def dest: in_set_takeD)
qed (use e in \<open>simp add: with_target_def\<close>)

lemma entries_ok_keys:
  "entries_ok my_id ts \<longleftrightarrow> length (map fst ts) \<le> 50 \<and> (\<forall>k \<in> set (map fst ts). length k = SHA1_SIZE) \<and>
     sorted_wrt (\<lambda>a b. xor_dist my_id a < xor_dist my_id b) (map fst ts)"
  by (simp add: entries_ok_def sorted_wrt_map)

lemma announce_ok:
  assumes "entries_ok my_id ts" and "length k = SHA1_SIZE" and "length my_id = SHA1_SIZE"
  shows "entries_ok my_id (announce my_id k n ts)"
proof -
  have "map fst (announce my_id k n ts) = map fst (with_target my_id k ts)" by (simp add: announce_def)
  with with_target_ok [OF assms] show ?thesis unfolding entries_ok_keys by simp
qed

lemma val_put_ok:
  assumes "val_rep v my_id value ts" and "length k = SHA1_SIZE" and "length my_id = SHA1_SIZE"
    and "length node_id = SHA1_SIZE" and "ip_ok v from"
  shows "if val_stale value k node_id then val_put b my_id value k node_id port from now = None
    else \<exists>value'. val_put b my_id value k node_id port from now =
        Some (value', if k \<in> fst ` set (with_target my_id k ts) then ip_merge_port_to_sin from (word_of_int port) else from) \<and>
      val_rep v my_id value' (announce my_id k (fresh_node node_id from port now) ts)"
proof -
  let ?n = "fresh_node node_id from port now"
  note k = assms(2) and my = assms(3) and i = assms(4) and f = assms(5)
  from assms(1) obtain xs where s: "val_sh v value xs ts" and e: "entries_ok my_id ts" by (auto simp: val_rep_def)
  note an = announce_ok [OF e k my, of ?n]
  show ?thesis
  proof (cases "val_find value k")
    case (Some q)
    have "with_target my_id k ts = ts" "k \<in> fst ` set ts"
      using val_find_None [OF s k] Some by (auto simp: with_target_def)
    with put_node_known [OF s entries_distinct [OF e] Some k i f, of port now] an show ?thesis
      by (auto simp: val_put_steps Some val_rep_def announce_def split: if_splits)
  next
    case None
    then have nk: "k \<notin> fst ` set ts" using val_find_None [OF s k] by simp
    then have wt: "with_target my_id k ts = take 50 (ins_sorted my_id k ts)" by (simp add: with_target_def)
    have ns: "\<not> val_stale value k node_id" by (simp add: val_stale_def None)
    from val_ins_sort_ok [OF s e k my nk, of b, folded wt] obtain V new ys where
      V: "val_ins_sort b my_id value k = Some (V, new)" "val_sh v V ys (with_target my_id k ts)"
      "new = None \<longleftrightarrow> k \<notin> fst ` set (with_target my_id k ts)" "new \<noteq> None \<longrightarrow> val_find V k = new" by blast
    have run: "val_put b my_id value k node_id port from now = put_node V new node_id port from now"
      by (simp add: val_put_steps None V(1))
    show ?thesis
    proof (cases new)
      case None
      then have "announce my_id k ?n ts = with_target my_id k ts"
        unfolding announce_def using V(3) by (force intro: map_idI)
      with V(2,3) None an show ?thesis by (auto simp: run ns put_node_def val_rep_def)
    next
      case (Some q)
      have q: "val_find V k = Some q" using V(4) Some by simp
      have st: "\<not> val_stale V k node_id"
      proof -
        have "\<forall>e \<in> set (with_target my_id k ts). fst e = k \<longrightarrow> snd e = []"
          using nk by (fastforce simp: wt ins_sorted_def Let_def dest: in_set_takeD set_takeWhileD set_dropWhileD)
        moreover from q obtain p t where pt: "(p, q) \<in> set ys" "v_mem V q = Some t" "tv_target t = k"
          using val_find_rep [OF V(2) k] by blast
        moreover from pt(1) V(2) obtain a where "a \<in> set (with_target my_id k ts)" "tgt_rep v t a"
          unfolding val_sh_def holds_def list_all2_conv_all_nth by (metis in_set_conv_nth pt(2) option.inject snd_conv)
        ultimately have "tgt_rep v t (k, [])" by (metis prod.collapse tgt_rep_def)
        from not_stale_empty [OF this i] show ?thesis by (simp add: val_stale_def q pt(2))
      qed
      with put_node_known [OF V(2) entries_distinct [OF with_target_ok [OF e k my]] q k i f, of port now] an V(3) Some show ?thesis
        by (auto simp: run ns val_rep_def announce_def)
    qed
  qed
qed

text \<open>
  C19: Announcing implements its specification.  In every state that represents a sorted table of targets, val_put puts the
  announcing node in front of the nodes of its target (at most ten are kept), creating the target at its place in the order of the XOR distance to our own identifier
  when it is not there yet and dropping the farthest target beyond fifty; a target that is farther away than fifty others is ignored and the socket
  address stays as it was.  The result represents a sorted table again.  The only way not to return is the stale list
  pointer.
\<close>

theorem val_put_refines:
  assumes "val_rep v my_id value ts" and "length k = SHA1_SIZE" and "length my_id = SHA1_SIZE"
    and "length node_id = SHA1_SIZE" and "ip_ok v from"
  shows "if val_stale value k node_id then val_put b my_id value k node_id port from now = None
    else \<exists>value'. val_put b my_id value k node_id port from now =
        Some (value', if k \<in> fst ` set (with_target my_id k ts) then ip_merge_port_to_sin from (word_of_int port) else from) \<and>
      val_rep v my_id value' (announce my_id k (fresh_node node_id from port now) ts)"
  by (rule val_put_ok [OF assms])

section \<open>Expiry and lookup\<close>

lemma tgt_v_expire_rep:
  assumes "tgt_rep v t e"
  shows "\<exists>t'. tgt_v_expire t now = Some t' \<and> tv_target t' = tv_target t \<and>
    tgt_rep v t' (fst e, filter (\<lambda>n. now \<le> nv_eol n) (snd e)) \<and>
    (list_size (tv_list t') = 0 \<longleftrightarrow> filter (\<lambda>n. now \<le> nv_eol n) (snd e) = [])"
proof -
  from assms obtain zs where zs: "tgt_ok v t zs" "map snd zs = snd e" and k: "tv_target t = fst e" by (auto simp: tgt_rep_def)
  let ?zs = "filter (\<lambda>x. now \<le> nv_eol (snd x)) zs"
  from tgt_v_expire_ok [OF zs(1), of now] obtain t' where
    t': "tgt_v_expire t now = Some t'" "tv_target t' = tv_target t" "tgt_ok v t' ?zs" by blast
  have m: "map snd ?zs = filter (\<lambda>n. now \<le> nv_eol n) (snd e)" by (simp add: zs(2) [symmetric] filter_map comp_def)
  have "list_size (tv_list t') = int (length ?zs)"
    by (rule list_size_dl) (use t'(3) in \<open>simp add: tgt_ok_def mru_def tmru_def\<close>)
  then have "list_size (tv_list t') = 0 \<longleftrightarrow> map snd ?zs = []" by simp
  moreover have "tgt_rep v t' (fst e, map snd ?zs)" using t'(2,3) k unfolding tgt_rep_def by auto
  ultimately show ?thesis using t'(1,2) unfolding m by blast
qed

definition live :: "time_t \<Rightarrow> entry \<Rightarrow> entry" where
  "live now e = (fst e, filter (\<lambda>n. now \<le> nv_eol n) (snd e))"

text \<open>\<open>c\<close> says what each target object held when the loop started.\<close>

interpretation expire_walk: walker v_list
  "\<lambda>s xs ys. dlc (v_list s) (xs @ ys) \<and> val_sh v s (xs @ ys) (map (\<lambda>x. live now (c (snd x))) xs @ map (\<lambda>x. c (snd x)) ys)"
  "val_expire_body now" "\<lambda>q. snd (live now (c q)) \<noteq> []" for v now c
proof
  fix s and xs ys :: "(ptr \<times> ptr) list" and p q
  let ?as = "map (\<lambda>x. live now (c (snd x))) xs" and ?bs = "map (\<lambda>x. c (snd x)) ys"
  show "dl (v_list s) (xs @ ys)" if "dlc (v_list s) (xs @ ys) \<and> val_sh v s (xs @ ys) (?as @ ?bs)" using that by simp
  assume "dlc (v_list s) (xs @ (p, q) # ys) \<and> val_sh v s (xs @ (p, q) # ys) (?as @ map (\<lambda>x. c (snd x)) ((p, q) # ys))"
  then have dc: "dlc (v_list s) (xs @ (p, q) # ys)" and sh: "val_sh v s (xs @ (p, q) # ys) (?as @ c q # ?bs)" by simp_all
  then have "holds (tgt_rep v) (v_mem s) (xs @ (p, q) # ys) (?as @ c q # ?bs)" by (simp add: val_sh_def)
  from holds_split [OF this] obtain t where t: "v_mem s q = Some t" "tgt_rep v t (c q)"
    by (auto simp: append_eq_append_conv)
  from tgt_v_expire_rep [OF t(2), of now] obtain t' where t': "tgt_v_expire t now = Some t'" "tv_target t' = tv_target t"
    "tgt_rep v t' (live now (c q))" "list_size (tv_list t') = 0 \<longleftrightarrow> snd (live now (c q)) = []" by (auto simp: live_def)
  let ?s = "s\<lparr>v_mem := (v_mem s)(q \<mapsto> t')\<rparr>"
  have sh': "val_sh v ?s (xs @ (p, q) # ys) (?as @ live now (c q) # ?bs)"
    by (rule val_sh_upd [OF sh _ t(1) t'(3,2)]) simp
  have body: "val_expire_body now s p q = (if snd (live now (c q)) = [] then val_del ?s (Some p) else Some ?s)"
    using t(1) t'(1,4) by (simp add: val_expire_body_def)
  show "\<exists>s'. val_expire_body now s p q = Some s' \<and>
    dlc (v_list s') ((if snd (live now (c q)) \<noteq> [] then xs @ [(p, q)] else xs) @ ys) \<and>
    val_sh v s' ((if snd (live now (c q)) \<noteq> [] then xs @ [(p, q)] else xs) @ ys)
      (map (\<lambda>x. live now (c (snd x))) (if snd (live now (c q)) \<noteq> [] then xs @ [(p, q)] else xs) @ ?bs)"
  proof (cases "snd (live now (c q)) = []")
    case True
    have "del_safe (v_list ?s) (xs @ (p, q) # ys) p" using dlc_del_safe [OF dc] by simp
    from val_del_ok [OF sh' this] True show ?thesis unfolding body by simp
  next
    case False
    then show ?thesis using sh' dc unfolding body by simp
  qed
qed

lemma val_expire_sh:
  assumes s: "val_sh v value xs ts"
  shows "\<exists>value' ys. val_expire value now = Some value' \<and> val_sh v value' ys (alive now ts)"
proof -
  let ?c = "\<lambda>q. the (map_of (zip (map snd xs) ts) q)"
  let ?V = "value\<lparr>v_list := (v_list value)\<lparr>l_item := first xs None\<rparr>\<rparr>"
  have l: "length xs = length ts" and d: "distinct (map snd xs)" using s by (auto simp: val_sh_def shelf_def dest: holds_length)
  have c: "map (\<lambda>x. ?c (snd x)) xs = ts"
  proof (rule nth_equalityI)
    fix i assume "i < length (map (\<lambda>x. ?c (snd x)) xs)"
    with map_of_zip_nth [of "map snd xs" ts i] l d show "map (\<lambda>x. ?c (snd x)) xs ! i = ts ! i" by simp
  qed (use l in simp)
  note st = val_start [OF s]
  have "dlc (v_list ?V) ([] @ xs) \<and> val_sh v ?V ([] @ xs) (map (\<lambda>x. live now (?c (snd x))) [] @ map (\<lambda>x. ?c (snd x)) xs)"
    using st(2,3) unfolding c by simp
  from expire_walk.walk [OF this] obtain V' where
    V': "list_each v_list (val_expire_body now) ?V (first xs None) = Some V'"
      "val_sh v V' (filter (\<lambda>x. snd (live now (?c (snd x))) \<noteq> []) xs)
        (map (\<lambda>x. live now (?c (snd x))) (filter (\<lambda>x. snd (live now (?c (snd x))) \<noteq> []) xs))" by auto
  have "map (\<lambda>x. live now (?c (snd x))) (filter (\<lambda>x. snd (live now (?c (snd x))) \<noteq> []) xs) =
      filter (\<lambda>e. snd e \<noteq> []) (map (live now) (map (\<lambda>x. ?c (snd x)) xs))" by (simp add: filter_map comp_def)
  also have "\<dots> = alive now ts" unfolding c by (simp add: alive_def live_def [abs_def])
  finally show ?thesis using V' st(1) unfolding val_expire_def by auto
qed

lemma alive_ok: "entries_ok my_id ts \<Longrightarrow> entries_ok my_id (alive now ts)"
proof -
  assume e: "entries_ok my_id ts"
  let ?ts = "map (\<lambda>e. (fst e, filter (\<lambda>n. now \<le> nv_eol n) (snd e))) ts"
  have "entries_ok my_id ?ts" using e by (simp add: entries_ok_keys comp_def)
  then show ?thesis
    using order_trans [OF length_filter_le, of ?ts 50] by (auto simp: alive_def entries_ok_def sorted_wrt_filter)
qed

text \<open>
  Expiry implements its specification.  In every state that represents a sorted table val_expire returns; afterwards the table holds exactly the
  announcements that are not older than their lifetime, in the same order, and the targets without any are gone.
\<close>

theorem val_expire_refines:
  assumes "val_rep v my_id value ts"
  shows "\<exists>value'. val_expire value now = Some value' \<and> val_rep v my_id value' (alive now ts)"
proof -
  from assms obtain xs where s: "val_sh v value xs ts" and e: "entries_ok my_id ts" by (auto simp: val_rep_def)
  from val_expire_sh [OF s, of now] alive_ok [OF e, of now] show ?thesis by (auto simp: val_rep_def)
qed

lemma tgt_rep_start:
  assumes "tgt_rep v t e"
  shows "\<exists>L. list_start (tv_list t) = Some L \<and> tgt_rep v (t\<lparr>tv_list := fst L\<rparr>) e \<and>
    copy_loop nv_pair (fst L) 8 (snd L) = Some (concat (map nv_pair (take 8 (snd e))))"
proof -
  from assms obtain zs where zs: "tgt_ok v t zs" "map snd zs = snd e" and k: "tv_target t = fst e" by (auto simp: tgt_rep_def)
  let ?L = "(tv_list t)\<lparr>l_item := first zs None\<rparr>"
  from tgt_start [OF zs(1)] have st: "list_start (tv_list t) = Some (?L, first zs None)"
    and m: "mruc nv_id (tmru (t\<lparr>tv_list := ?L\<rparr>)) zs" by simp_all
  then have d: "dl ?L ([] @ zs)" by (simp add: mruc_def mru_def tmru_def)
  have "tgt_ok v (t\<lparr>tv_list := ?L\<rparr>) zs" using m zs(1) by (simp add: tgt_ok_def mruc_def)
  then have "tgt_rep v (t\<lparr>tv_list := ?L\<rparr>) e" using zs(2) k by (auto simp: tgt_rep_def)
  with st copy_loop_seg [OF d, of nv_pair 8] show ?thesis by (simp add: zs(2) [symmetric] take_map)
qed

lemma val_compact_list_ok:
  assumes "val_rep v my_id value ts" and k: "length k = SHA1_SIZE"
  shows "\<exists>value'. val_compact_list value k = Some (value', peers ts k) \<and> val_rep v my_id value' ts"
proof -
  from assms(1) obtain xs where s: "val_sh v value xs ts" and e: "entries_ok my_id ts" by (auto simp: val_rep_def)
  show ?thesis
  proof (cases "val_find value k")
    case None
    then have "map_of ts k = None" using val_find_None [OF s k] by (simp add: map_of_eq_None_iff)
    with None assms(1) show ?thesis by (simp add: val_compact_list_def peers_def)
  next
    case (Some q)
    then obtain p t where x: "(p, q) \<in> set xs" and t: "v_mem value q = Some t" "tv_target t = k"
      using val_find_rep [OF s k] by blast
    from x obtain us vs where xs: "xs = us @ (p, q) # vs" by (auto dest: split_list)
    have "holds (tgt_rep v) (v_mem value) (us @ (p, q) # vs) ts" using s by (simp add: val_sh_def xs)
    from holds_split [OF this] t obtain as a bs where ts: "ts = as @ a # bs" "length as = length us" "tgt_rep v t a" by auto
    have a: "map_of ts k = Some (snd a)"
      using entries_distinct [OF e] ts(3) t(2) by (intro map_of_is_SomeI) (auto simp: ts(1) tgt_rep_def)
    from tgt_rep_start [OF ts(3)] obtain L where L: "list_start (tv_list t) = Some L" "tgt_rep v (t\<lparr>tv_list := fst L\<rparr>) a"
      "copy_loop nv_pair (fst L) 8 (snd L) = Some (concat (map nv_pair (take 8 (snd a))))" by blast
    let ?V = "value\<lparr>v_mem := (v_mem value)(q \<mapsto> t\<lparr>tv_list := fst L\<rparr>)\<rparr>"
    have "val_sh v ?V xs ts"
      unfolding xs ts(1) by (rule val_sh_upd [OF s [unfolded xs ts(1)] ts(2) t(1) L(2)]) simp
    then have "val_rep v my_id ?V ts" using e by (auto simp: val_rep_def)
    moreover have "val_compact_list value k = Some (?V, peers ts k)"
      using L(1,3) t(1) a by (cases L) (simp add: val_compact_list_def Some peers_def)
    ultimately show ?thesis by blast
  qed
qed

lemma concat_pairs_le: "(\<forall>n \<in> set ns. length (nv_pair n) = m) \<Longrightarrow> length (concat (map nv_pair (take j ns))) \<le> j * m"
proof -
  assume "\<forall>n \<in> set ns. length (nv_pair n) = m"
  then have "length (concat (map nv_pair (take j ns))) = length (take j ns) * m"
    by (induction ns arbitrary: j) (auto simp: take_Cons' split: if_splits)
  then show ?thesis by simp
qed

lemma val_rep_pairs:
  assumes "val_rep v my_id value ts" and "e \<in> set ts" and "n \<in> set (snd e)"
  shows "length (nv_pair n) = IP_SIZE_META_PAIR v"
proof -
  from assms(1) obtain xs where h: "holds (tgt_rep v) (v_mem value) xs ts" by (auto simp: val_rep_def val_sh_def)
  then obtain t where "tgt_rep v t e"
    using assms(2) unfolding holds_def list_all2_conv_all_nth by (metis in_set_conv_nth)
  then obtain zs where "tgt_ok v t zs" "map snd zs = snd e" by (auto simp: tgt_rep_def)
  with assms(3) show ?thesis by (auto simp: tgt_ok_def node_v_ok_def) (metis image_iff list.set_map)
qed

lemma announce_peers:
  assumes "k \<in> fst ` set (announce my_id k n ts)" and "distinct (map fst (announce my_id k n ts))"
  shows "\<exists>rest. peers (announce my_id k n ts) k = nv_pair n @ rest"
proof -
  from assms(1) obtain ns where "(k, announced n ns) \<in> set (announce my_id k n ts)" by (force simp: announce_def)
  then have "map_of (announce my_id k n ts) k = Some (announced n ns)" by (rule map_of_is_SomeI [OF assms(2)])
  then show ?thesis by (simp add: peers_def announced_def)
qed

text \<open>
  What a peer is told about a target.  val_compact_list returns the addresses of the at most eight most recent announcements of that target, or
  nothing for an unknown target; the result fits the buffer of eight compact addresses the caller reserves, and the table
  is unchanged.
\<close>

theorem val_compact_list_exact:
  assumes "val_rep v my_id value ts" and "length k = SHA1_SIZE"
  shows "\<exists>value'. val_compact_list value k = Some (value', peers ts k) \<and> val_rep v my_id value' ts \<and>
    length (peers ts k) \<le> IP_SIZE_META_PAIR8 v"
proof -
  have "length (peers ts k) \<le> 8 * IP_SIZE_META_PAIR v"
  proof (cases "map_of ts k")
    case (Some ns)
    then have "\<forall>n \<in> set ns. length (nv_pair n) = IP_SIZE_META_PAIR v"
      using val_rep_pairs [OF assms(1) map_of_SomeD [OF Some]] by simp
    from concat_pairs_le [OF this, of 8] show ?thesis by (simp add: peers_def Some)
  qed (simp add: peers_def)
  with val_compact_list_ok [OF assms] show ?thesis by (simp add: IP_SIZE_META_PAIR8_def)
qed

section \<open>Examples\<close>

lemma ex_announce: "announce (replicate 20 0) (replicate 20 1) (fresh_node (replicate 20 2) ex_ip 6881 100) [] =
    [(replicate 20 1, [fresh_node (replicate 20 2) ex_ip 6881 100])]"
  by (simp add: announce_def with_target_def ins_sorted_def announced_def)

lemma val_init_not_stale: "\<not> val_stale val_init k node_id"
  by (simp add: val_stale_def val_find_def val_init_def hash_get_init)

lemma ex_put: "\<exists>value. val_put False (replicate 20 0) val_init (replicate 20 1) (replicate 20 2) 6881 ex_ip 100 =
      Some (value, ip_merge_port_to_sin ex_ip 6881) \<and>
    val_rep IPV4 (replicate 20 0) value [(replicate 20 1, [fresh_node (replicate 20 2) ex_ip 6881 100])]"
  using val_put_ok [OF val_init_rep [of IPV4], of "replicate 20 1" "replicate 20 0" "replicate 20 2" ex_ip False 6881 100]
  by (simp add: val_init_not_stale ex_announce ex_ip_ok with_target_def ins_sorted_def)

theorem val_put_refines_witness:
  "\<exists>value. val_put False (replicate 20 0) val_init (replicate 20 1) (replicate 20 2) 6881 ex_ip 100 =
      Some (value, ip_merge_port_to_sin ex_ip 6881) \<and>
    val_rep IPV4 (replicate 20 0) value [(replicate 20 1, [fresh_node (replicate 20 2) ex_ip 6881 100])]"
  using val_put_refines [OF val_init_rep [of IPV4], of "replicate 20 1" "replicate 20 0" "replicate 20 2" ex_ip False 6881 100]
  by (simp add: val_init_not_stale ex_announce ex_ip_ok with_target_def ins_sorted_def)

theorem val_expire_refines_witness:
  "\<exists>value from value' value''.
     val_put False (replicate 20 0) val_init (replicate 20 1) (replicate 20 2) 6881 ex_ip 100 = Some (value, from) \<and>
     val_expire value 1900 = Some value' \<and>
     val_rep IPV4 (replicate 20 0) value' [(replicate 20 1, [fresh_node (replicate 20 2) ex_ip 6881 100])] \<and>
     val_expire value 1901 = Some value'' \<and> val_rep IPV4 (replicate 20 0) value'' []"
proof -
  from ex_put obtain "value" where v: "val_put False (replicate 20 0) val_init (replicate 20 1) (replicate 20 2) 6881 ex_ip 100 =
      Some (value, ip_merge_port_to_sin ex_ip 6881)"
    "val_rep IPV4 (replicate 20 0) value [(replicate 20 1, [fresh_node (replicate 20 2) ex_ip 6881 100])]" by blast
  from val_expire_refines [OF v(2), of 1900] val_expire_refines [OF v(2), of 1901] v(1) show ?thesis
    by (auto simp: alive_def fresh_node_def)
qed

theorem val_compact_list_exact_witness:
  "\<exists>value from value'.
     val_put False (replicate 20 0) val_init (replicate 20 1) (replicate 20 2) 6881 ex_ip 100 = Some (value, from) \<and>
     val_compact_list value (replicate 20 1) = Some (value', [192, 0, 2, 1, 26, 225])"
proof -
  from ex_put obtain "value" where v: "val_put False (replicate 20 0) val_init (replicate 20 1) (replicate 20 2) 6881 ex_ip 100 =
      Some (value, ip_merge_port_to_sin ex_ip 6881)"
    "val_rep IPV4 (replicate 20 0) value [(replicate 20 1, [fresh_node (replicate 20 2) ex_ip 6881 100])]" by blast
  have "peers [(replicate 20 1, [fresh_node (replicate 20 2) ex_ip 6881 100])] (replicate 20 1) = [192, 0, 2, 1, 26, 225]"
    by (simp add: peers_def fresh_node_def ex_ip_def ip_sin_to_tuple_def ip_merge_port_to_sin_def ex_port)
  with val_compact_list_exact [OF v(2), of "replicate 20 1"] v(1) show ?thesis by auto
qed

end
