(* ===== verification/Cache.thy ===== *)
theory Cache
  imports Mru Strings Inet Times
begin

text \<open>
  The cache of lookup results, \<^verbatim>\<open>src/src/p2p/cache.c\<close>: at most 50 targets, each with the at most 10 addresses that
  were reported last.  The nodes are keyed by their compact address.  A target has a lifetime, extended by new
  addresses and by requests, and a deadline for the next lookup of its own.
\<close>

section \<open>Addresses of a target\<close>

abbreviation CACHE_SIZE_MAX :: int where "CACHE_SIZE_MAX \<equiv> 50"
abbreviation TGT_C_SIZE_MAX :: int where "TGT_C_SIZE_MAX \<equiv> 10"

record NODE_C =
  nc_pair :: bytes
  nc_eol :: time_t

record TARGET_C =
  tc_target :: bytes
  tc_list :: "NODE_C LIST"
  tc_hash :: "ptr HASH"
  tc_lifetime :: time_t
  tc_refresh :: time_t

definition node_c_update :: "ipver \<Rightarrow> NODE_C \<Rightarrow> bytes \<Rightarrow> time_t \<Rightarrow> NODE_C" where
  "node_c_update v node_c pair now =
     node_c\<lparr>nc_pair := take (IP_SIZE_META_PAIR v) pair, nc_eol := time_add_30_min now\<rparr>"

definition node_c_init :: "ipver \<Rightarrow> bytes \<Rightarrow> time_t \<Rightarrow> NODE_C" where
  "node_c_init v pair now = node_c_update v \<lparr>nc_pair = [], nc_eol = 0\<rparr> pair now"

definition tgt_c_init :: "bytes \<Rightarrow> TARGET_C" where
  "tgt_c_init target_id =
     \<lparr>tc_target = take SHA1_SIZE target_id, tc_list = list_init, tc_hash = hash_init 11, tc_lifetime = 0, tc_refresh = 0\<rparr>"

definition tgt_c_free :: "TARGET_C \<Rightarrow> NODE_C LIST option" where
  "tgt_c_free target = do { (L, _) \<leftarrow> list_clear (tc_list target); list_free L }"

definition tgt_c_find :: "ipver \<Rightarrow> TARGET_C \<Rightarrow> bytes \<Rightarrow> ptr option" where
  "tgt_c_find v target pair = hash_get (tc_hash target) (take (IP_SIZE_META_PAIR v) pair)"

definition tgt_c_del :: "TARGET_C \<Rightarrow> ptr option \<Rightarrow> TARGET_C option" where
  "tgt_c_del target i = do {
     v \<leftarrow> list_value (tc_list target) i;
     node_c \<leftarrow> v;
     let h = hash_del (tc_hash target) (nc_pair node_c);
     (L, _) \<leftarrow> list_del (tc_list target) i;
     Some (target\<lparr>tc_list := L, tc_hash := h\<rparr>)
   }"

definition tgt_c_put :: "ipver \<Rightarrow> TARGET_C \<Rightarrow> bytes \<Rightarrow> time_t \<Rightarrow> rng \<Rightarrow> (TARGET_C \<times> rng) option" where
  "tgt_c_put v target pair now g = do {
     let node = node_c_init v pair now;
     (L, s) \<leftarrow> list_start (tc_list target);
     (L, i) \<leftarrow> list_ins L s node;
     let h = fst (hash_put (tc_hash target) (nc_pair node) i);
     let (refresh, g) = time_add_5_min_approx now g;
     let target = target\<lparr>tc_list := L, tc_hash := h, tc_lifetime := time_add_30_min now, tc_refresh := refresh\<rparr>;
     if list_size (tc_list target) > TGT_C_SIZE_MAX then do {
       s \<leftarrow> list_stop (tc_list target);
       target \<leftarrow> tgt_c_del target s;
       Some (target, g)
     } else Some (target, g)
   }"

definition tgt_c_update :: "ipver \<Rightarrow> TARGET_C \<Rightarrow> bytes \<Rightarrow> time_t \<Rightarrow> rng \<Rightarrow> (TARGET_C \<times> rng) option" where
  "tgt_c_update v target pair now g =
     (case tgt_c_find v target pair of
        None \<Rightarrow> tgt_c_put v target pair now g
      | Some i \<Rightarrow> do {
          w \<leftarrow> list_value (tc_list target) (Some i);
          node \<leftarrow> w;
          let node = node_c_update v node pair now;
          (L, _) \<leftarrow> list_del (tc_list target) (Some i);
          (L, s) \<leftarrow> list_start L;
          (L, i) \<leftarrow> list_ins L s node;
          let h = fst (hash_put (tc_hash target) (nc_pair node) i);
          Some (target\<lparr>tc_list := L, tc_hash := h\<rparr>, g)
        })"

definition tgt_c_expire_body :: "time_t \<Rightarrow> TARGET_C \<Rightarrow> ptr \<Rightarrow> NODE_C \<Rightarrow> TARGET_C option" where
  "tgt_c_expire_body now target i node =
     (if now > nc_eol node then tgt_c_del target (Some i) else Some target)"

definition tgt_c_expire :: "TARGET_C \<Rightarrow> time_t \<Rightarrow> TARGET_C option" where
  "tgt_c_expire target now = do {
     (L, i) \<leftarrow> list_start (tc_list target);
     list_each tc_list (tgt_c_expire_body now) (target\<lparr>tc_list := L\<rparr>) i
   }"

definition tgt_c_print :: "TARGET_C \<Rightarrow> TARGET_C option" where
  "tgt_c_print target = do { (L, _) \<leftarrow> list_start (tc_list target); Some (target\<lparr>tc_list := L\<rparr>) }"

section \<open>Targets\<close>

record CACHE =
  ch_list :: "ptr LIST"
  ch_hash :: "ptr HASH"
  ch_mem :: "ptr \<rightharpoonup> TARGET_C"
  ch_brk :: ptr

definition cache_init :: CACHE where
  "cache_init = \<lparr>ch_list = list_init, ch_hash = hash_init 51, ch_mem = Map.empty, ch_brk = 0\<rparr>"

definition cache_find :: "CACHE \<Rightarrow> bytes \<Rightarrow> ptr option" where
  "cache_find cache target_id = hash_get (ch_hash cache) (take SHA1_SIZE target_id)"

definition cache_del :: "CACHE \<Rightarrow> ptr option \<Rightarrow> CACHE option" where
  "cache_del cache i = do {
     v \<leftarrow> list_value (ch_list cache) i;
     q \<leftarrow> v;
     target \<leftarrow> ch_mem cache q;
     let h = hash_del (ch_hash cache) (tc_target target);
     (L, _) \<leftarrow> list_del (ch_list cache) i;
     _ \<leftarrow> tgt_c_free target;
     Some (cache\<lparr>ch_list := L, ch_hash := h, ch_mem := (ch_mem cache)(q := None)\<rparr>)
   }"

definition tgt_c_alloc :: "CACHE \<Rightarrow> bytes \<Rightarrow> CACHE \<times> ptr" where
  "tgt_c_alloc cache target_id =
     (cache\<lparr>ch_mem := (ch_mem cache)(ch_brk cache \<mapsto> tgt_c_init target_id), ch_brk := Suc (ch_brk cache)\<rparr>, ch_brk cache)"

text \<open>\<open>list_ins\<close> returns NULL when the list has reached \<open>LONG_MAX\<close> items; the new target is then freed again.\<close>

definition cache_prepare :: "CACHE \<Rightarrow> bytes \<Rightarrow> (CACHE \<times> ptr option) option" where
  "cache_prepare cache target_id =
     (case cache_find cache target_id of
        Some q \<Rightarrow> Some (cache, Some q)
      | None \<Rightarrow> do {
          let (cache, q) = tgt_c_alloc cache target_id;
          (L, s) \<leftarrow> list_start (ch_list cache);
          (L, i) \<leftarrow> list_ins L s q;
          let cache = cache\<lparr>ch_list := L\<rparr>;
          (case i of
             None \<Rightarrow> do {
               target \<leftarrow> ch_mem cache q;
               _ \<leftarrow> tgt_c_free target;
               Some (cache\<lparr>ch_mem := (ch_mem cache)(q := None)\<rparr>, None)
             }
           | Some _ \<Rightarrow>
               Some (cache\<lparr>ch_hash := fst (hash_put (ch_hash cache) (take SHA1_SIZE target_id) (Some q))\<rparr>, Some q))
        })"

text \<open>The loop of \<open>cache_put\<close> over the compact addresses; a buffer whose size is no multiple of one is read past its end.\<close>

fun put_pairs :: "ipver \<Rightarrow> TARGET_C \<Rightarrow> bytes list \<Rightarrow> time_t \<Rightarrow> rng \<Rightarrow> (TARGET_C \<times> rng) option" where
  "put_pairs v target [] now g = Some (target, g)"
| "put_pairs v target (pair # ps) now g = do {
     (target, g) \<leftarrow> tgt_c_update v target pair now g;
     put_pairs v target ps now g
   }"

function pairs_of :: "nat \<Rightarrow> bytes \<Rightarrow> bytes list option" where
  "pairs_of k xs =
     (if xs = [] then Some [] else if length xs < k \<or> k = 0 then None
      else map_option ((#) (take k xs)) (pairs_of k (drop k xs)))"
  by pat_completeness auto
termination
  by (relation "measure (\<lambda>(k, xs). length xs)") auto

declare pairs_of.simps [simp del]

definition cache_put :: "ipver \<Rightarrow> CACHE \<Rightarrow> bytes \<Rightarrow> bytes \<Rightarrow> time_t \<Rightarrow> rng \<Rightarrow> (CACHE \<times> rng) option" where
  "cache_put v cache target_id nodes_compact_list now g = do {
     (cache, q) \<leftarrow> cache_prepare cache target_id;
     case q of None \<Rightarrow> Some (cache, g)
     | Some q \<Rightarrow> do {
         ps \<leftarrow> pairs_of (IP_SIZE_META_PAIR v) nodes_compact_list;
         target \<leftarrow> ch_mem cache q;
         (target, g) \<leftarrow> put_pairs v target ps now g;
         let cache = cache\<lparr>ch_mem := (ch_mem cache)(q \<mapsto> target)\<rparr>;
         if list_size (ch_list cache) > CACHE_SIZE_MAX then do {
           s \<leftarrow> list_stop (ch_list cache);
           cache \<leftarrow> cache_del cache s;
           Some (cache, g)
         } else Some (cache, g)
       }
   }"

definition cache_expire_body :: "time_t \<Rightarrow> CACHE \<Rightarrow> ptr \<Rightarrow> ptr \<Rightarrow> CACHE option" where
  "cache_expire_body now cache i q = do {
     target \<leftarrow> ch_mem cache q;
     target \<leftarrow> tgt_c_expire target now;
     let cache = cache\<lparr>ch_mem := (ch_mem cache)(q \<mapsto> target)\<rparr>;
     if now > tc_lifetime target then cache_del cache (Some i) else Some cache
   }"

definition cache_expire :: "CACHE \<Rightarrow> time_t \<Rightarrow> CACHE option" where
  "cache_expire cache now = do {
     (L, i) \<leftarrow> list_start (ch_list cache);
     list_each ch_list (cache_expire_body now) (cache\<lparr>ch_list := L\<rparr>) i
   }"

definition cache_print_body :: "CACHE \<Rightarrow> ptr \<Rightarrow> ptr \<Rightarrow> CACHE option" where
  "cache_print_body cache i q = do {
     target \<leftarrow> ch_mem cache q;
     target \<leftarrow> tgt_c_print target;
     Some (cache\<lparr>ch_mem := (ch_mem cache)(q \<mapsto> target)\<rparr>)
   }"

definition cache_print :: "bool \<Rightarrow> CACHE \<Rightarrow> CACHE option" where
  "cache_print log_verbosely cache =
     (if log_verbosely then Some cache
      else do {
        (L, i) \<leftarrow> list_start (ch_list cache);
        list_each ch_list cache_print_body (cache\<lparr>ch_list := L\<rparr>) i
      })"

text \<open>
  \<open>cache_renew\<close> starts a lookup for every target whose deadline has passed.  The lookup (\<open>p2p_cron_lookup\<close>) changes
  other parts of the program, not the cache: they are the state \<open>'s\<close> it threads, with the random numbers inside.
\<close>

definition cache_renew_body :: "('s \<Rightarrow> bytes \<Rightarrow> 's option) \<Rightarrow> ('s \<Rightarrow> time_t \<times> 's) \<Rightarrow> time_t \<Rightarrow>
    CACHE \<times> 's \<times> bool \<Rightarrow> ptr \<Rightarrow> ptr \<Rightarrow> (CACHE \<times> 's \<times> bool) option" where
  "cache_renew_body lookup next_refresh now = (\<lambda>(cache, s, changes) i q. do {
     t \<leftarrow> ch_mem cache q;
     if now > tc_refresh t then do {
       s \<leftarrow> lookup s (tc_target t);
       let (refresh, s) = next_refresh s;
       Some (cache\<lparr>ch_mem := (ch_mem cache)(q \<mapsto> t\<lparr>tc_refresh := refresh\<rparr>)\<rparr>, s, True)
     } else Some (cache, s, changes)
   })"

definition cache_renew :: "bool \<Rightarrow> ('s \<Rightarrow> bytes \<Rightarrow> 's option) \<Rightarrow> ('s \<Rightarrow> time_t \<times> 's) \<Rightarrow> time_t \<Rightarrow>
    CACHE \<Rightarrow> 's \<Rightarrow> (CACHE \<times> 's) option" where
  "cache_renew log_verbosely lookup next_refresh now cache s = do {
     (L, i) \<leftarrow> list_start (ch_list cache);
     (cache, s, changes) \<leftarrow>
       list_each (\<lambda>x. ch_list (fst x)) (cache_renew_body lookup next_refresh now) (cache\<lparr>ch_list := L\<rparr>, s, False) i;
     cache \<leftarrow> (if changes then cache_print log_verbosely cache else Some cache);
     Some (cache, s)
   }"

definition cache_compact_list :: "CACHE \<Rightarrow> bytes \<Rightarrow> time_t \<Rightarrow> (CACHE \<times> bytes) option" where
  "cache_compact_list cache target_id now =
     (case cache_find cache target_id of None \<Rightarrow> Some (cache, [])
      | Some q \<Rightarrow> do {
          target \<leftarrow> ch_mem cache q;
          (L, item) \<leftarrow> list_start (tc_list target);
          c \<leftarrow> copy_loop nc_pair L 8 item;
          Some (cache\<lparr>ch_mem := (ch_mem cache)(q \<mapsto>
            target\<lparr>tc_list := L, tc_lifetime := time_add_30_min now\<rparr>)\<rparr>, c)
        })"

text \<open>Shutdown.\<close>

partial_function (option) cache_clean :: "CACHE \<Rightarrow> CACHE option" where
  "cache_clean cache =
     (case l_item (ch_list cache) of None \<Rightarrow> Some cache
      | Some p \<Rightarrow> (case cache_del cache (Some p) of None \<Rightarrow> None | Some cache' \<Rightarrow> cache_clean cache'))"

end
