(* ===== verification/Cache_Db.thy ===== *)
theory Cache_Db
  imports Cache
begin

text \<open>
  What the cache stores, seen from outside: the targets, newest first, each with its addresses (most recent first), its
  lifetime and its deadline for the next lookup.
\<close>

section \<open>The abstract cache\<close>

type_synonym centry = "NODE_C list \<times> time_t \<times> time_t"

definition fresh_pair :: "bytes \<Rightarrow> time_t \<Rightarrow> NODE_C" where
  "fresh_pair pair now = \<lparr>nc_pair = pair, nc_eol = now + 1800\<rparr>"

definition noted1 :: "time_t \<Rightarrow> bytes \<Rightarrow> centry \<Rightarrow> rng \<Rightarrow> centry \<times> rng" where
  "noted1 now pair = (\<lambda>(ns, life, refr) g.
     let ns' = recent nc_pair 10 (fresh_pair pair now) ns in
     if pair \<in> nc_pair ` set ns then ((ns', life, refr), g)
     else let (refr', g') = time_add_5_min_approx now g in ((ns', now + 1800, refr'), g'))"

fun noted :: "time_t \<Rightarrow> bytes list \<Rightarrow> centry \<Rightarrow> rng \<Rightarrow> centry \<times> rng" where
  "noted now [] e g = (e, g)"
| "noted now (p # ps) e g = (let (e', g') = noted1 now p e g in noted now ps e' g')"

definition with_entry :: "bytes \<Rightarrow> (bytes \<times> centry) list \<Rightarrow> (bytes \<times> centry) list" where
  "with_entry k ts = (if k \<in> fst ` set ts then ts else (k, [], 0, 0) # ts)"

definition reported :: "time_t \<Rightarrow> bytes \<Rightarrow> bytes list \<Rightarrow> rng \<Rightarrow> (bytes \<times> centry) list \<Rightarrow> (bytes \<times> centry) list" where
  "reported now k ps g ts =
     take 50 (map (\<lambda>e. if fst e = k then (k, fst (noted now ps (snd e) g)) else e) (with_entry k ts))"

definition c_alive :: "time_t \<Rightarrow> (bytes \<times> centry) list \<Rightarrow> (bytes \<times> centry) list" where
  "c_alive now ts = filter (\<lambda>(k, ns, life, refr). now \<le> life)
     (map (\<lambda>(k, ns, life, refr). (k, filter (\<lambda>n. now \<le> nc_eol n) ns, life, refr)) ts)"

section \<open>One target\<close>

definition cmru :: "TARGET_C \<Rightarrow> NODE_C mru" where
  "cmru t = (tc_list t, tc_hash t)"

definition with_cmru :: "TARGET_C \<Rightarrow> NODE_C mru \<Rightarrow> TARGET_C" where
  "with_cmru t T = t\<lparr>tc_list := fst T, tc_hash := snd T\<rparr>"

lemma with_cmru_simps [simp]:
  "cmru (with_cmru t T) = T" "tc_target (with_cmru t T) = tc_target t" "tc_lifetime (with_cmru t T) = tc_lifetime t"
  "tc_refresh (with_cmru t T) = tc_refresh t" "with_cmru (with_cmru t T) T' = with_cmru t T'"
  by (simp_all add: cmru_def with_cmru_def)

lemma tgt_c_del_mru: "tgt_c_del t i = map_option (with_cmru t) (mru_del nc_pair (cmru t) i)"
  by (cases "list_value (tc_list t) i")
    (auto simp: tgt_c_del_def mru_del_def cmru_def with_cmru_def split: bind_splits)

lemma tgt_c_put_mru:
  "tgt_c_put v t pair now g =
     map_option (\<lambda>T. ((with_cmru t T)\<lparr>tc_lifetime := time_add_30_min now, tc_refresh := fst (time_add_5_min_approx now g)\<rparr>,
         snd (time_add_5_min_approx now g)))
       (mru_put nc_pair 10 (cmru t) (node_c_init v pair now))"
  by (auto simp: tgt_c_put_def mru_put_def tgt_c_del_mru cmru_def with_cmru_def case_prod_beta Let_def
      split: bind_splits)

lemma tgt_c_update_touch:
  assumes "tgt_c_find v t pair = Some i" and "list_value (tc_list t) (Some i) = Some (Some n)"
  shows "tgt_c_update v t pair now g =
    map_option (\<lambda>T. (with_cmru t T, g)) (mru_touch nc_pair (cmru t) i (node_c_update v n pair now))"
  using assms
  by (auto simp: tgt_c_update_def mru_touch_def cmru_def with_cmru_def case_prod_beta Let_def split: bind_splits)

definition tgtc_ok :: "ipver \<Rightarrow> TARGET_C \<Rightarrow> (ptr \<times> NODE_C) list \<Rightarrow> bool" where
  "tgtc_ok v t xs \<longleftrightarrow> mru nc_pair (cmru t) xs \<and> length xs \<le> 10 \<and>
     (\<forall>x \<in> set xs. length (nc_pair (snd x)) = IP_SIZE_META_PAIR v)"

definition tgtc_rep :: "ipver \<Rightarrow> TARGET_C \<Rightarrow> bytes \<times> centry \<Rightarrow> bool" where
  "tgtc_rep v t e \<longleftrightarrow> (\<exists>zs. tgtc_ok v t zs \<and> e = (tc_target t, map snd zs, tc_lifetime t, tc_refresh t))"

lemma node_c_fresh: "length pair = IP_SIZE_META_PAIR v \<Longrightarrow> node_c_update v n pair now = fresh_pair pair now"
  "length pair = IP_SIZE_META_PAIR v \<Longrightarrow> node_c_init v pair now = fresh_pair pair now"
  by (simp_all add: node_c_init_def node_c_update_def fresh_pair_def time_add_30_min_def)

lemma nc_pair_fresh [simp]: "nc_pair (fresh_pair pair now) = pair"
  by (simp add: fresh_pair_def)

lemma set_recent: "set (recent key mx w ns) \<subseteq> insert w (set ns)"
  by (auto simp: recent_def dest!: in_set_takeD)

lemma tgtc_ok_recent:
  assumes "tgtc_ok v t xs" and "length pair = IP_SIZE_META_PAIR v" and "mru nc_pair (cmru t') zs"
    and "map snd zs = recent nc_pair 10 (fresh_pair pair now) (map snd xs)"
  shows "tgtc_ok v t' zs"
proof -
  have "length (map snd zs) \<le> 10" unfolding assms(4) recent_def length_take by simp
  then have "length zs \<le> 10" by simp
  moreover have "length (nc_pair (snd x)) = IP_SIZE_META_PAIR v" if "x \<in> set zs" for x
  proof -
    have "snd x \<in> set (map snd zs)" using that by simp
    then have "snd x \<in> insert (fresh_pair pair now) (set (map snd xs))" unfolding assms(4) by (rule subsetD [OF set_recent])
    with assms(1,2) show ?thesis by (auto simp: tgtc_ok_def)
  qed
  ultimately show ?thesis using assms(3) by (simp add: tgtc_ok_def)
qed

lemma mru_known:
  assumes "mru key T xs"
  shows "hash_get (snd T) k = None \<longleftrightarrow> k \<notin> key ` set (map snd xs)"
  using assms indexes_None [of "hash_get (snd T)" key xs k] by (auto simp: mru_def)

lemma tgt_c_update_rep:
  assumes r: "tgtc_rep v t (k, c)" and p: "length pair = IP_SIZE_META_PAIR v"
  shows "if mru_stale (cmru t) pair then tgt_c_update v t pair now g = None
    else \<exists>t'. tgt_c_update v t pair now g = Some (t', snd (noted1 now pair c g)) \<and>
      tc_target t' = tc_target t \<and> tgtc_rep v t' (k, fst (noted1 now pair c g))"
proof -
  let ?n = "fresh_pair pair now"
  from r obtain zs where zs: "tgtc_ok v t zs" and c: "c = (map snd zs, tc_lifetime t, tc_refresh t)" "k = tc_target t"
    by (auto simp: tgtc_rep_def)
  have m: "mru nc_pair (cmru t) zs" and len: "length zs \<le> 10" using zs by (simp_all add: tgtc_ok_def)
  have find: "tgt_c_find v t pair = hash_get (snd (cmru t)) pair" using p by (simp add: tgt_c_find_def cmru_def)
  show ?thesis
  proof (cases "hash_get (snd (cmru t)) pair")
    case None
    have st: "\<not> mru_stale (cmru t) pair" by (simp add: mru_stale_def None)
    from mru_put_rep [OF m, of ?n 10] None len obtain T' zs' where
      T': "mru_put nc_pair 10 (cmru t) ?n = Some T'" "mru nc_pair T' zs'" "map snd zs' = recent nc_pair 10 ?n (map snd zs)" by auto
    let ?t = "(with_cmru t T')\<lparr>tc_lifetime := time_add_30_min now, tc_refresh := fst (time_add_5_min_approx now g)\<rparr>"
    have "mru nc_pair (cmru ?t) zs'" using T'(2) by (simp add: cmru_def with_cmru_def)
    from tgtc_ok_recent [OF zs p this T'(3)] have ok: "tgtc_ok v ?t zs'" .
    have "pair \<notin> nc_pair ` set (map snd zs)" using mru_known [OF m] None by simp
    then have n: "noted1 now pair c g = ((map snd zs', now + 1800, fst (time_add_5_min_approx now g)), snd (time_add_5_min_approx now g))"
      by (simp add: noted1_def c(1) T'(3) Let_def case_prod_beta)
    have "tgt_c_update v t pair now g = Some (?t, snd (time_add_5_min_approx now g))"
      using T'(1) find None by (simp add: tgt_c_update_def tgt_c_put_mru node_c_fresh [OF p])
    moreover have "tgtc_rep v ?t (k, fst (noted1 now pair c g))"
      using ok unfolding n by (auto simp: tgtc_rep_def c(2) time_add_30_min_def)
    ultimately show ?thesis using st n by simp
  next
    case (Some i)
    from mru_find [OF m Some] obtain n where v: "list_value (tc_list t) (Some i) = Some (Some n)" by (auto simp: cmru_def)
    note upd = tgt_c_update_touch [OF find [unfolded Some] v, of now g, unfolded node_c_fresh [OF p]]
    have "pair \<in> nc_pair ` set (map snd zs)" using mru_known [OF m, of pair] Some by auto
    then have n: "noted1 now pair c g = ((recent nc_pair 10 ?n (map snd zs), tc_lifetime t, tc_refresh t), g)"
      by (simp add: noted1_def c(1) Let_def)
    note touch = mru_touch_rep [OF m, of ?n i 10]
    show ?thesis
    proof (cases "mru_stale (cmru t) pair")
      case True
      with touch Some len show ?thesis by (simp add: upd)
    next
      case False
      with touch Some len obtain T' zs' where T': "mru_touch nc_pair (cmru t) i ?n = Some T'" "mru nc_pair T' zs'"
        "map snd zs' = recent nc_pair 10 ?n (map snd zs)" by auto
      have "mru nc_pair (cmru (with_cmru t T')) zs'" using T'(2) by simp
      from tgtc_ok_recent [OF zs p this T'(3)] have "tgtc_rep v (with_cmru t T') (k, fst (noted1 now pair c g))"
        unfolding n by (auto simp: tgtc_rep_def c(2) T'(3))
      with T'(1) False show ?thesis unfolding upd n by simp
    qed
  qed
qed

text \<open>A reply with several addresses: the freed item is read exactly when one of the steps meets the stale pointer.\<close>

fun run_stale :: "ipver \<Rightarrow> TARGET_C \<Rightarrow> bytes list \<Rightarrow> time_t \<Rightarrow> rng \<Rightarrow> bool" where
  "run_stale v t [] now g = False"
| "run_stale v t (p # ps) now g = (mru_stale (cmru t) p \<or>
     (case tgt_c_update v t p now g of None \<Rightarrow> False | Some (t', g') \<Rightarrow> run_stale v t' ps now g'))"

lemma put_pairs_rep:
  "tgtc_rep v t (k, c) \<Longrightarrow> \<forall>p \<in> set ps. length p = IP_SIZE_META_PAIR v \<Longrightarrow>
   if run_stale v t ps now g then put_pairs v t ps now g = None
   else \<exists>t'. put_pairs v t ps now g = Some (t', snd (noted now ps c g)) \<and>
     tc_target t' = tc_target t \<and> tgtc_rep v t' (k, fst (noted now ps c g))"
proof (induction ps arbitrary: t c g)
  case (Cons p ps)
  have p: "length p = IP_SIZE_META_PAIR v" using Cons.prems(2) by simp
  note u = tgt_c_update_rep [OF Cons.prems(1) p, of now g]
  show ?case
  proof (cases "mru_stale (cmru t) p")
    case True
    with u show ?thesis by simp
  next
    case False
    with u obtain t1 where t1: "tgt_c_update v t p now g = Some (t1, snd (noted1 now p c g))" "tc_target t1 = tc_target t"
      "tgtc_rep v t1 (k, fst (noted1 now p c g))" by auto
    from Cons.IH [OF t1(3), of "snd (noted1 now p c g)"] Cons.prems(2) t1(1,2) False show ?thesis
      by (simp add: case_prod_beta Let_def split: if_splits)
  qed
qed simp

lemma tgtc_ok_init: "tgtc_rep v (tgt_c_init k) (take SHA1_SIZE k, [], 0, 0)"
proof -
  have "hash_ok (hash_init 11 :: ptr HASH)" "indexes (hash_get (hash_init 11)) nc_pair []"
    by (simp_all add: hash_ok_init indexes_def hash_get_init)
  then have "tgtc_ok v (tgt_c_init k) []"
    using dlc_dl [OF list_init_dlc] by (simp add: tgtc_ok_def mru_def cmru_def tgt_c_init_def)
  then show ?thesis unfolding tgtc_rep_def by (intro exI [of _ "[]"]) (simp add: tgt_c_init_def)
qed

lemma tgtc_start:
  assumes "tgtc_ok v t xs"
  shows "list_start (tc_list t) = Some ((tc_list t)\<lparr>l_item := first xs None\<rparr>, first xs None)"
    and "mruc nc_pair (cmru (t\<lparr>tc_list := (tc_list t)\<lparr>l_item := first xs None\<rparr>\<rparr>)) xs"
  using list_start_dl [of "tc_list t" xs] mru_start [of nc_pair "tc_list t" "tc_hash t" xs] assms
  by (simp_all add: tgtc_ok_def cmru_def mru_def)

lemma tgt_c_del_ok:
  assumes "mruc nc_pair (cmru t) (xs @ (p, n) # ys)"
  shows "\<exists>T. tgt_c_del t (Some p) = Some (with_cmru t T) \<and> mruc nc_pair T (xs @ ys)"
  using mru_del_ok [of nc_pair "tc_list t" "tc_hash t" xs p n ys] assms
  by (auto simp: tgt_c_del_mru mruc_def cmru_def dlc_del_safe)

interpretation tc_sweep: sweeper tc_list "\<lambda>t xs. mruc nc_pair (cmru t) xs \<and> t = with_cmru t0 (cmru t)"
  "tgt_c_expire_body now" "\<lambda>n. \<not> now > nc_eol n" "\<lambda>n. n" for t0 now
proof
  fix s xs p v ys
  assume r: "mruc nc_pair (cmru s) (xs @ (p, v) # ys) \<and> s = with_cmru t0 (cmru s)"
  show "\<exists>s'. tgt_c_expire_body now s p v = Some s' \<and> mruc nc_pair (cmru s') (xs @ (p, v) # ys) \<and> s' = with_cmru t0 (cmru s')"
    if "\<not> now > nc_eol v" using that r by (simp add: tgt_c_expire_body_def)
  show "\<exists>s'. tgt_c_expire_body now s p v = Some s' \<and> mruc nc_pair (cmru s') (xs @ ys) \<and> s' = with_cmru t0 (cmru s')"
    if "\<not> \<not> now > nc_eol v" using that r tgt_c_del_ok [of s xs p v ys] by (auto simp: tgt_c_expire_body_def) (metis with_cmru_simps(5))
qed (simp add: mruc_def mru_def cmru_def)

lemma tgt_c_expire_rep:
  assumes "tgtc_rep v t (k, ns, life, refr)"
  shows "\<exists>t'. tgt_c_expire t now = Some t' \<and> tc_target t' = tc_target t \<and> tc_lifetime t' = life \<and>
    tgtc_rep v t' (k, filter (\<lambda>n. now \<le> nc_eol n) ns, life, refr)"
proof -
  from assms obtain zs where zs: "tgtc_ok v t zs" and e: "k = tc_target t" "ns = map snd zs" "life = tc_lifetime t" "refr = tc_refresh t"
    by (auto simp: tgtc_rep_def)
  let ?t = "t\<lparr>tc_list := (tc_list t)\<lparr>l_item := first zs None\<rparr>\<rparr>"
  have "?t = with_cmru t (cmru ?t)" by (simp add: with_cmru_def cmru_def)
  with tgtc_start(2) [OF zs] have "mruc nc_pair (cmru ?t) zs \<and> ?t = with_cmru t (cmru ?t)" by blast
  from tc_sweep.sweep [OF this, of now] obtain t' where
    t': "list_each tc_list (tgt_c_expire_body now) ?t (first zs None) = Some t'" "t' = with_cmru t (cmru t')"
      "mruc nc_pair (cmru t') (filter (\<lambda>x. now \<le> nc_eol (snd x)) zs)" by (auto simp: case_prod_beta not_less)
  have f: "tc_target t' = tc_target t" "tc_lifetime t' = tc_lifetime t" "tc_refresh t' = tc_refresh t"
    using arg_cong [OF t'(2), of tc_target] arg_cong [OF t'(2), of tc_lifetime] arg_cong [OF t'(2), of tc_refresh] by simp_all
  have "length (filter (\<lambda>x. now \<le> nc_eol (snd x)) zs) \<le> 10"
    using zs order_trans [OF length_filter_le, of zs 10] by (simp add: tgtc_ok_def)
  then have "tgtc_ok v t' (filter (\<lambda>x. now \<le> nc_eol (snd x)) zs)" using t'(3) zs by (auto simp: tgtc_ok_def mruc_def)
  moreover have "map snd (filter (\<lambda>x. now \<le> nc_eol (snd x)) zs) = filter (\<lambda>n. now \<le> nc_eol n) ns"
    by (simp add: e(2) filter_map comp_def)
  ultimately have "tgtc_rep v t' (k, filter (\<lambda>n. now \<le> nc_eol n) ns, life, refr)"
    using e f unfolding tgtc_rep_def by force
  with t'(1) f tgtc_start(1) [OF zs] e show ?thesis by (simp add: tgt_c_expire_def)
qed

lemma tgt_c_free_ok: "tgtc_rep v t e \<Longrightarrow> \<exists>L. tgt_c_free t = Some L"
  using list_clear_dl list_free_dlc
  by (fastforce simp: tgtc_rep_def tgtc_ok_def mru_def cmru_def tgt_c_free_def)

lemma tgt_c_restart:
  assumes "tgtc_rep v t e"
  shows "\<exists>L. list_start (tc_list t) = Some L \<and> tgtc_rep v (t\<lparr>tc_list := fst L\<rparr>) e \<and>
    tgtc_rep v (t\<lparr>tc_list := fst L, tc_lifetime := l\<rparr>) (fst e, fst (snd e), l, snd (snd (snd e))) \<and>
    copy_loop nc_pair (fst L) 8 (snd L) = Some (concat (map nc_pair (take 8 (fst (snd e)))))"
proof -
  from assms obtain zs where zs: "tgtc_ok v t zs" and e: "e = (tc_target t, map snd zs, tc_lifetime t, tc_refresh t)"
    by (auto simp: tgtc_rep_def)
  let ?L = "(tc_list t)\<lparr>l_item := first zs None\<rparr>"
  have m: "mruc nc_pair (?L, tc_hash t) zs" using tgtc_start(2) [OF zs] by (simp add: cmru_def)
  then have d: "dl ?L ([] @ zs)" by (simp add: mruc_def mru_def)
  have "tgtc_ok v (t\<lparr>tc_list := ?L\<rparr>) zs" "tgtc_ok v (t\<lparr>tc_list := ?L, tc_lifetime := l\<rparr>) zs"
    using m zs by (simp_all add: tgtc_ok_def cmru_def mruc_def)
  then have "tgtc_rep v (t\<lparr>tc_list := ?L\<rparr>) e" "tgtc_rep v (t\<lparr>tc_list := ?L, tc_lifetime := l\<rparr>) (fst e, fst (snd e), l, snd (snd (snd e)))"
    unfolding tgtc_rep_def e by force+
  with tgtc_start(1) [OF zs] copy_loop_seg [OF d, of nc_pair 8] show ?thesis by (simp add: e take_map)
qed

section \<open>The cache\<close>

definition cache_st :: "ipver \<Rightarrow> CACHE \<Rightarrow> (ptr \<times> ptr) list \<Rightarrow> (bytes \<times> centry) list \<Rightarrow> bool" where
  "cache_st v cache xs ts \<longleftrightarrow>
     stock tc_target (tgtc_rep v) (ch_list cache) (ch_hash cache) (ch_mem cache) (ch_brk cache) xs ts"

definition cache_rep :: "ipver \<Rightarrow> CACHE \<Rightarrow> (bytes \<times> centry) list \<Rightarrow> bool" where
  "cache_rep v cache ts \<longleftrightarrow> (\<exists>xs. cache_st v cache xs ts) \<and> length ts \<le> 50 \<and> (\<forall>e \<in> set ts. length (fst e) = SHA1_SIZE)"

lemma cache_init_rep: "cache_rep v cache_init []"
proof -
  have "dl (list_init :: ptr LIST) []" using dlc_dl [OF list_init_dlc] .
  then have "cache_st v cache_init [] []"
    by (auto simp: cache_st_def stock_def shelf_def cache_init_def hash_ok_init indexes_def hash_get_init tgtc_rep_def)
  then show ?thesis unfolding cache_rep_def by auto
qed

lemma cache_find_iff:
  assumes "cache_st v cache xs ts" and "length k = SHA1_SIZE"
  shows "cache_find cache k = None \<longleftrightarrow> k \<notin> fst ` set ts"
  using stock_find_None [OF assms(1) [unfolded cache_st_def]] assms(2) by (simp add: cache_find_def)

lemma cache_find_at:
  assumes "cache_st v cache xs ts" and "length k = SHA1_SIZE" and "cache_find cache k = Some q"
  shows "\<exists>us p vs as c bs t. xs = us @ (p, q) # vs \<and> ts = as @ (k, c) # bs \<and> length as = length us \<and>
    ch_mem cache q = Some t \<and> tgtc_rep v t (k, c)"
  using stock_find [OF assms(1) [unfolded cache_st_def], of k q] assms(2,3) by (simp add: cache_find_def)

lemma cache_st_upd:
  assumes "cache_st v cache (us @ (p, q) # vs) (as @ a # bs)" and "length as = length us"
    and "ch_mem cache q = Some t" and "tgtc_rep v t' e" and "tc_target t' = tc_target t"
  shows "cache_st v (cache\<lparr>ch_mem := (ch_mem cache)(q \<mapsto> t')\<rparr>) (us @ (p, q) # vs) (as @ e # bs)"
  using stock_upd [OF assms(1) [unfolded cache_st_def] assms(2-5)] by (simp add: cache_st_def)

lemma cache_del_ok:
  assumes s: "cache_st v cache (us @ (p, q) # vs) (as @ a # bs)" and l: "length as = length us"
    and safe: "del_safe (ch_list cache) (us @ (p, q) # vs) p"
  shows "\<exists>cache'. cache_del cache (Some p) = Some cache' \<and> dlc (ch_list cache') (us @ vs) \<and> cache_st v cache' (us @ vs) (as @ bs)"
proof -
  note st = s [unfolded cache_st_def]
  from st have "holds (tgtc_rep v) (ch_mem cache) (us @ (p, q) # vs) (as @ a # bs)" by (simp add: stock_def)
  from holds_split [OF this] l obtain t where t: "ch_mem cache q = Some t" "tgtc_rep v t a" by (auto simp: append_eq_append_conv)
  have d: "dl (ch_list cache) (us @ (p, q) # vs)" by (rule stock_dl [OF st])
  from list_del_dl [OF d safe] obtain L' where
    L': "list_del (ch_list cache) (Some p) = Some (L', first (us @ vs) None)" "dlc L' (us @ vs)" by blast
  from tgt_c_free_ok [OF t(2)] obtain L2 where "tgt_c_free t = Some L2" ..
  with stock_del [OF st l t(1) dlc_dl [OF L'(2)]] L' t(1) list_value_dl [OF d] show ?thesis
    by (simp add: cache_del_def cache_st_def)
qed

lemma cache_start:
  assumes "cache_st v cache xs ts"
  shows "list_start (ch_list cache) = Some ((ch_list cache)\<lparr>l_item := first xs None\<rparr>, first xs None)"
    and "cache_st v (cache\<lparr>ch_list := (ch_list cache)\<lparr>l_item := first xs None\<rparr>\<rparr>) xs ts"
    and "dlc ((ch_list cache)\<lparr>l_item := first xs None\<rparr>) xs"
proof -
  have d: "dl (ch_list cache) xs" using assms stock_dl by (auto simp: cache_st_def)
  from list_start_dl [OF d] show "list_start (ch_list cache) = Some ((ch_list cache)\<lparr>l_item := first xs None\<rparr>, first xs None)" .
  from dlc_start [OF d] show c: "dlc ((ch_list cache)\<lparr>l_item := first xs None\<rparr>) xs" .
  from stock_list [OF assms [unfolded cache_st_def] dlc_dl [OF c]]
  show "cache_st v (cache\<lparr>ch_list := (ch_list cache)\<lparr>l_item := first xs None\<rparr>\<rparr>) xs ts" by (simp add: cache_st_def)
qed

lemma cache_prepare_ok:
  assumes s: "cache_st v cache xs ts" and l: "length ts \<le> 50" and k: "length k = SHA1_SIZE"
  shows "\<exists>cache' q ys. cache_prepare cache k = Some (cache', Some q) \<and> cache_st v cache' ys (with_entry k ts) \<and>
    cache_find cache' k = Some q \<and> (length ys = 51 \<longrightarrow> l_item (ch_list cache') \<noteq> final ys None)"
proof (cases "cache_find cache k")
  case (Some q)
  then have "with_entry k ts = ts" using cache_find_iff [OF s k] by (auto simp: with_entry_def)
  moreover have "length xs \<noteq> 51" using stock_length [OF s [unfolded cache_st_def]] l by simp
  ultimately show ?thesis using s Some by (auto simp: cache_prepare_def)
next
  case None
  let ?b = "ch_brk cache" and ?L = "(ch_list cache)\<lparr>l_item := first xs None\<rparr>" and ?t = "tgt_c_init k"
  have nk: "k \<notin> fst ` set ts" using cache_find_iff [OF s k] None by simp
  note st = s [unfolded cache_st_def]
  have len: "length xs = length ts" by (rule stock_length [OF st])
  have room: "int (length xs) < LONG_MAX" using len l by simp
  from front_ins [OF cache_start(3) [OF s] room, of ?b] obtain L' where
    L': "list_ins ?L (first xs None) ?b = Some (L', Some (l_brk ?L))" "dl L' ((l_brk ?L, ?b) # xs)"
      "l_item L' = (if xs = [] then Some (l_brk ?L) else first xs None)" by blast
  have t: "tgtc_rep v ?t (k, [], 0, 0)" "tc_target ?t = k" using tgtc_ok_init [of v k] k by (simp_all add: tgt_c_init_def)
  let ?c = "fst (tgt_c_alloc cache k)\<lparr>ch_list := L', ch_hash := fst (hash_put (ch_hash cache) k (Some ?b))\<rparr>"
  from stock_ins_front [OF st _ t(1) room L'(2)] nk
  have cs: "cache_st v ?c ((l_brk ?L, ?b) # xs) (with_entry k ts)"
    by (simp add: cache_st_def t(2) with_entry_def tgt_c_alloc_def)
  have run: "cache_prepare cache k = Some (?c, Some ?b)"
    using None cache_start(1) [OF s] L'(1) k by (simp add: cache_prepare_def tgt_c_alloc_def)
  have "k \<in> fst ` set (with_entry k ts)" by (simp add: with_entry_def)
  then obtain q where q: "cache_find ?c k = Some q" using cache_find_iff [OF cs k] by (cases "cache_find ?c k") auto
  have "q = ?b"
  proof -
    from cache_find_at [OF cs k q] obtain us p vs as c bs where
      x: "(l_brk ?L, ?b) # xs = us @ (p, q) # vs" "with_entry k ts = as @ (k, c) # bs" "length as = length us" by blast
    have "as = []"
    proof (cases as)
      case (Cons a as')
      then have "k \<in> fst ` set ts" using x(2) nk by (simp add: with_entry_def)
      then show ?thesis using nk by simp
    qed simp
    then show ?thesis using x by simp
  qed
  moreover have "l_item (ch_list ?c) \<noteq> final ((l_brk ?L, ?b) # xs) None" if "length ((l_brk ?L, ?b) # xs) = 51"
  proof -
    have "xs \<noteq> []" using that by auto
    then obtain w r where w: "xs = w @ [r]" by (cases xs rule: rev_cases) auto
    have "distinct (map fst ((l_brk ?L, ?b) # xs))" using L'(2) by (simp add: dl_def)
    moreover have "w \<noteq> []" using that w by auto
    ultimately show ?thesis using L'(3) by (cases w) (auto simp: w)
  qed
  ultimately show ?thesis using run cs q by blast
qed

lemma pairs_of_concat: "0 < k \<Longrightarrow> \<forall>p \<in> set ps. length p = k \<Longrightarrow> pairs_of k (concat ps) = Some ps"
proof (induction ps)
  case Nil
  then show ?case by (subst pairs_of.simps) simp
next
  case (Cons p ps)
  then have "p @ concat ps \<noteq> []" "\<not> length (p @ concat ps) < k" by auto
  with Cons show ?case by (simp, subst pairs_of.simps) simp
qed

lemma cache_trim_ok:
  assumes s: "cache_st v cache xs ts" and it: "length xs = 51 \<longrightarrow> l_item (ch_list cache) \<noteq> final xs None"
    and len: "length ts \<le> 51"
  shows "\<exists>cache' ys. (if list_size (ch_list cache) > CACHE_SIZE_MAX then do {
      s \<leftarrow> list_stop (ch_list cache); cache \<leftarrow> cache_del cache s; Some (cache, g) } else Some (cache, g)) = Some (cache', g) \<and>
    cache_st v cache' ys (take 50 ts)"
proof -
  note st = s [unfolded cache_st_def]
  have d: "dl (ch_list cache) xs" by (rule stock_dl [OF st])
  have lt: "length xs = length ts" by (rule stock_length [OF st])
  show ?thesis
  proof (cases "length xs = 51")
    case False
    then have "length ts \<le> 50" using len lt by simp
    then show ?thesis using s lt by (auto simp: list_size_dl [OF d])
  next
    case True
    then obtain us p q where xs: "xs = us @ [(p, q)]" by (cases xs rule: rev_cases) auto
    obtain as a where ts: "ts = as @ [a]" using True lt by (cases ts rule: rev_cases) auto
    have l: "length as = length us" using lt by (simp add: xs ts)
    have "l_item (ch_list cache) \<noteq> Some p" using it True by (simp add: xs)
    then have "del_safe (ch_list cache) (us @ (p, q) # []) p" by (simp add: del_safe_def)
    from cache_del_ok [of v cache us p q "[]" as a "[]", OF _ l this] s obtain cache' where
      "cache_del cache (Some p) = Some cache'" "cache_st v cache' us as" by (auto simp: xs ts)
    moreover have "take 50 ts = as" using True lt by (simp add: ts)
    ultimately show ?thesis using True by (auto simp: list_size_dl [OF d] list_stop_dl [OF d] xs)
  qed
qed

text \<open>The target a reply is stored under is stale for one of the reported addresses.\<close>

definition cache_stale :: "ipver \<Rightarrow> CACHE \<Rightarrow> bytes \<Rightarrow> bytes list \<Rightarrow> time_t \<Rightarrow> rng \<Rightarrow> bool" where
  "cache_stale v cache k ps now g = (case cache_find cache k of None \<Rightarrow> run_stale v (tgt_c_init k) ps now g
     | Some q \<Rightarrow> (case ch_mem cache q of None \<Rightarrow> False | Some t \<Rightarrow> run_stale v t ps now g))"

lemma cache_prepare_target:
  assumes "cache_prepare cache k = Some (cache', Some q)" and "ch_mem cache' q = Some t"
  shows "cache_stale v cache k ps now g = run_stale v t ps now g"
  using assms
  by (auto simp: cache_prepare_def cache_stale_def tgt_c_alloc_def Let_def split: option.splits bind_splits prod.splits)

lemma take_map_at:
  assumes "distinct (map fst (as @ (k, c) # bs))"
  shows "map (\<lambda>e. if fst e = k then (k, f (snd e)) else e) (as @ (k, c) # bs) = as @ (k, f c) # bs"
  using assms by (force intro: map_idI)

lemma META_PAIR_pos: "0 < IP_SIZE_META_PAIR v"
  by (simp add: IP_SIZE_META_PAIR_def)

lemma cache_put_ok:
  assumes r: "cache_rep v cache ts" and k: "length k = SHA1_SIZE" and ps: "\<forall>p \<in> set ps. length p = IP_SIZE_META_PAIR v"
  shows "if cache_stale v cache k ps now g then cache_put v cache k (concat ps) now g = None
    else \<exists>cache' g'. cache_put v cache k (concat ps) now g = Some (cache', g') \<and> cache_rep v cache' (reported now k ps g ts)"
proof -
  from r obtain xs where s: "cache_st v cache xs ts" and l: "length ts \<le> 50" and ks: "\<forall>e \<in> set ts. length (fst e) = SHA1_SIZE"
    by (auto simp: cache_rep_def)
  from cache_prepare_ok [OF s l k] obtain C q ys where C: "cache_prepare cache k = Some (C, Some q)"
    "cache_st v C ys (with_entry k ts)" "cache_find C k = Some q"
    "length ys = 51 \<longrightarrow> l_item (ch_list C) \<noteq> final ys None" by blast
  from cache_find_at [OF C(2) k C(3)] obtain us p vs as c bs t where
    x: "ys = us @ (p, q) # vs" "with_entry k ts = as @ (k, c) # bs" "length as = length us" "ch_mem C q = Some t"
    "tgtc_rep v t (k, c)" by blast
  have dist: "distinct (map fst (as @ (k, c) # bs))"
    using stock_distinct [OF C(2) [unfolded cache_st_def]] by (simp add: x(2))
  have st: "cache_stale v cache k ps now g = run_stale v t ps now g" by (rule cache_prepare_target [OF C(1) x(4)])
  note pp = put_pairs_rep [OF x(5) ps, of now g]
  show ?thesis
  proof (cases "run_stale v t ps now g")
    case True
    with pp st show ?thesis by (simp add: cache_put_def C(1) x(4) pairs_of_concat [OF META_PAIR_pos ps])
  next
    case False
    with pp obtain t' where t': "put_pairs v t ps now g = Some (t', snd (noted now ps c g))" "tc_target t' = tc_target t"
      "tgtc_rep v t' (k, fst (noted now ps c g))" by auto
    let ?C = "C\<lparr>ch_mem := (ch_mem C)(q \<mapsto> t')\<rparr>"
    let ?ts = "as @ (k, fst (noted now ps c g)) # bs"
    have sC: "cache_st v ?C ys ?ts"
      unfolding x(1) by (rule cache_st_upd [OF C(2) [unfolded x(1,2)] x(3,4) t'(3,2)])
    have "length (with_entry k ts) \<le> 51" using l by (simp add: with_entry_def)
    then have "length ?ts \<le> 51" by (simp add: x(2))
    from cache_trim_ok [OF sC _ this, of "snd (noted now ps c g)"] C(4) obtain C' zs where
      C': "(if list_size (ch_list ?C) > CACHE_SIZE_MAX then do {
        s \<leftarrow> list_stop (ch_list ?C); cache \<leftarrow> cache_del ?C s; Some (cache, snd (noted now ps c g)) }
        else Some (?C, snd (noted now ps c g))) = Some (C', snd (noted now ps c g))"
      "cache_st v C' zs (take 50 ?ts)" by auto
    have rp: "reported now k ps g ts = take 50 ?ts"
      using take_map_at [OF dist, of "\<lambda>x. fst (noted now ps x g)"] by (simp only: reported_def x(2))
    have "\<forall>j \<in> fst ` set (with_entry k ts). length j = SHA1_SIZE" using ks k by (simp add: with_entry_def)
    moreover have "fst ` set (with_entry k ts) = fst ` set ?ts" unfolding x(2) by simp
    ultimately have "\<forall>e \<in> set ?ts. length (fst e) = SHA1_SIZE" by (metis imageI)
    then have "\<forall>e \<in> set (take 50 ?ts). length (fst e) = SHA1_SIZE" by (blast dest: in_set_takeD)
    moreover have "length (take 50 ?ts) \<le> 50" by simp
    ultimately have "cache_rep v C' (reported now k ps g ts)"
      using C'(2) unfolding rp cache_rep_def by blast
    moreover have "cache_put v cache k (concat ps) now g = Some (C', snd (noted now ps c g))"
      using C'(1) by (simp add: cache_put_def C(1) x(4) t'(1) pairs_of_concat [OF META_PAIR_pos ps])
    ultimately show ?thesis using False st by auto
  qed
qed

text \<open>A reply that repeats its first address behind another one.\<close>

lemma tgt_c_update_new_cursor:
  assumes "tgtc_ok v t zs" and "length zs < 10" and p: "length pair = IP_SIZE_META_PAIR v" and "pair \<notin> nc_pair ` snd ` set zs"
  shows "\<exists>t' g' q. tgt_c_update v t pair now g = Some (t', g') \<and> tgtc_ok v t' ((q, fresh_pair pair now) # zs) \<and>
    l_item (tc_list t') = first zs (Some q)"
proof -
  let ?n = "fresh_pair pair now" and ?b = "l_brk (tc_list t)"
  have m: "mru nc_pair (tc_list t, tc_hash t) zs" using assms(1) by (simp add: tgtc_ok_def cmru_def)
  have none: "hash_get (tc_hash t) pair = None" using mru_known [OF m, of pair] assms(4) by (simp add: image_image)
  from mru_put_ok [OF m, of ?n 10] none assms(2) obtain T' where T': "mru_put nc_pair 10 (cmru t) ?n = Some T'"
    "mru nc_pair T' ((?b, ?n) # zs)" "l_item (fst T') = first zs (Some ?b)" by (auto simp: cmru_def)
  let ?t = "(with_cmru t T')\<lparr>tc_lifetime := time_add_30_min now, tc_refresh := fst (time_add_5_min_approx now g)\<rparr>"
  have "tgt_c_update v t pair now g = Some (?t, snd (time_add_5_min_approx now g))"
    using T'(1) none p by (simp add: tgt_c_update_def tgt_c_find_def tgt_c_put_mru node_c_fresh [OF p])
  moreover have "tgtc_ok v ?t ((?b, ?n) # zs)" using T'(2) assms(1,2) p by (simp add: tgtc_ok_def cmru_def with_cmru_def)
  moreover have "l_item (tc_list ?t) = first zs (Some ?b)" using T'(3) by (simp add: with_cmru_def)
  ultimately show ?thesis by blast
qed

lemma run_stale_aba:
  assumes a: "length a = IP_SIZE_META_PAIR v" and b: "length b = IP_SIZE_META_PAIR v" and "a \<noteq> b"
  shows "run_stale v (tgt_c_init k) (a # b # a # ps) now g"
proof -
  have "tgtc_ok v (tgt_c_init k) []" using tgtc_ok_init [of v k] by (auto simp: tgtc_rep_def)
  from tgt_c_update_new_cursor [OF this _ a, of now g] obtain t1 g1 p where
    t1: "tgt_c_update v (tgt_c_init k) a now g = Some (t1, g1)" "tgtc_ok v t1 [(p, fresh_pair a now)]" by auto
  from tgt_c_update_new_cursor [OF t1(2) _ b, of now g1] \<open>a \<noteq> b\<close> obtain t2 g2 q where
    t2: "tgt_c_update v t1 b now g1 = Some (t2, g2)" "tgtc_ok v t2 [(q, fresh_pair b now), (p, fresh_pair a now)]"
      "l_item (tc_list t2) = Some p" by auto
  have m: "mru nc_pair (cmru t2) [(q, fresh_pair b now), (p, fresh_pair a now)]" using t2(2) by (simp add: tgtc_ok_def)
  have h: "hash_get (snd (cmru t2)) a = Some p"
    using m indexes_get [of "hash_get (snd (cmru t2))" nc_pair _ p "fresh_pair a now"] by (auto simp: mru_def)
  from mru_find [OF m h] have "mru_stale (cmru t2) a"
    using t2(3) \<open>a \<noteq> b\<close> by (auto simp: cmru_def Cons_eq_append_conv)
  then show ?thesis by (simp add: t1(1) t2(1))
qed

section \<open>Expiry, lookup and renewal\<close>

definition c_live :: "time_t \<Rightarrow> bytes \<times> centry \<Rightarrow> bytes \<times> centry" where
  "c_live now = (\<lambda>(k, ns, life, refr). (k, filter (\<lambda>n. now \<le> nc_eol n) ns, life, refr))"

interpretation cache_expire_walk: walker ch_list
  "\<lambda>s xs ys. dlc (ch_list s) (xs @ ys) \<and> cache_st v s (xs @ ys) (map (\<lambda>x. c_live now (c (snd x))) xs @ map (\<lambda>x. c (snd x)) ys)"
  "cache_expire_body now" "\<lambda>q. now \<le> fst (snd (snd (c q)))" for v now c
proof
  fix s and xs ys :: "(ptr \<times> ptr) list" and p q
  let ?as = "map (\<lambda>x. c_live now (c (snd x))) xs" and ?bs = "map (\<lambda>x. c (snd x)) ys" and ?keep = "now \<le> fst (snd (snd (c q)))"
  show "dl (ch_list s) (xs @ ys)" if "dlc (ch_list s) (xs @ ys) \<and> cache_st v s (xs @ ys) (?as @ ?bs)" using that by simp
  assume "dlc (ch_list s) (xs @ (p, q) # ys) \<and> cache_st v s (xs @ (p, q) # ys) (?as @ map (\<lambda>x. c (snd x)) ((p, q) # ys))"
  then have dc: "dlc (ch_list s) (xs @ (p, q) # ys)" and sh: "cache_st v s (xs @ (p, q) # ys) (?as @ c q # ?bs)" by simp_all
  then have "holds (tgtc_rep v) (ch_mem s) (xs @ (p, q) # ys) (?as @ c q # ?bs)" by (simp add: cache_st_def stock_def)
  from holds_split [OF this] obtain t where t: "ch_mem s q = Some t" "tgtc_rep v t (c q)" by (auto simp: append_eq_append_conv)
  obtain k ns life refr where cq: "c q = (k, ns, life, refr)" by (cases "c q") auto
  from tgt_c_expire_rep [OF t(2) [unfolded cq], of now] obtain t' where t': "tgt_c_expire t now = Some t'" "tc_target t' = tc_target t"
    "tgtc_rep v t' (c_live now (c q))" "tc_lifetime t' = life" by (auto simp: c_live_def cq)
  let ?s = "s\<lparr>ch_mem := (ch_mem s)(q \<mapsto> t')\<rparr>"
  have sh': "cache_st v ?s (xs @ (p, q) # ys) (?as @ c_live now (c q) # ?bs)"
    by (rule cache_st_upd [OF sh _ t(1) t'(3,2)]) simp
  have body: "cache_expire_body now s p q = (if ?keep then Some ?s else cache_del ?s (Some p))"
    using t(1) t'(1,4) by (simp add: cache_expire_body_def cq)
  show "\<exists>s'. cache_expire_body now s p q = Some s' \<and>
    dlc (ch_list s') ((if ?keep then xs @ [(p, q)] else xs) @ ys) \<and>
    cache_st v s' ((if ?keep then xs @ [(p, q)] else xs) @ ys)
      (map (\<lambda>x. c_live now (c (snd x))) (if ?keep then xs @ [(p, q)] else xs) @ ?bs)"
  proof (cases ?keep)
    case False
    have "del_safe (ch_list ?s) (xs @ (p, q) # ys) p" using dlc_del_safe [OF dc] by simp
    from cache_del_ok [OF sh' _ this] False show ?thesis unfolding body by simp
  next
    case True
    then show ?thesis using sh' dc unfolding body by simp
  qed
qed

lemma stock_contents:
  assumes "stock key R L h M b xs ts"
  shows "map (\<lambda>x. the (map_of (zip (map snd xs) ts) (snd x))) xs = ts"
proof (rule nth_equalityI)
  have l: "length xs = length ts" and d: "distinct (map snd xs)"
    using stock_length [OF assms] assms by (auto simp: stock_def shelf_def)
  show "length (map (\<lambda>x. the (map_of (zip (map snd xs) ts) (snd x))) xs) = length ts" using l by simp
  fix i assume "i < length (map (\<lambda>x. the (map_of (zip (map snd xs) ts) (snd x))) xs)"
  with map_of_zip_nth [of "map snd xs" ts i] l d
  show "map (\<lambda>x. the (map_of (zip (map snd xs) ts) (snd x))) xs ! i = ts ! i" by simp
qed

lemma cache_expire_ok:
  assumes "cache_rep v cache ts"
  shows "\<exists>cache'. cache_expire cache now = Some cache' \<and> cache_rep v cache' (c_alive now ts)"
proof -
  from assms obtain xs where s: "cache_st v cache xs ts" and l: "length ts \<le> 50" and ks: "\<forall>e \<in> set ts. length (fst e) = SHA1_SIZE"
    by (auto simp: cache_rep_def)
  let ?c = "\<lambda>q. the (map_of (zip (map snd xs) ts) q)"
  let ?V = "cache\<lparr>ch_list := (ch_list cache)\<lparr>l_item := first xs None\<rparr>\<rparr>"
  have c: "map (\<lambda>x. ?c (snd x)) xs = ts" by (rule stock_contents [OF s [unfolded cache_st_def]])
  note st = cache_start [OF s]
  have "dlc (ch_list ?V) ([] @ xs) \<and> cache_st v ?V ([] @ xs) (map (\<lambda>x. c_live now (?c (snd x))) [] @ map (\<lambda>x. ?c (snd x)) xs)"
    using st(2,3) unfolding c by simp
  from cache_expire_walk.walk [OF this] obtain V' where
    V': "list_each ch_list (cache_expire_body now) ?V (first xs None) = Some V'"
      "cache_st v V' (filter (\<lambda>x. now \<le> fst (snd (snd (?c (snd x))))) xs)
        (map (\<lambda>x. c_live now (?c (snd x))) (filter (\<lambda>x. now \<le> fst (snd (snd (?c (snd x))))) xs))" by auto
  have "map (\<lambda>x. c_live now (?c (snd x))) (filter (\<lambda>x. now \<le> fst (snd (snd (?c (snd x))))) xs) =
      filter (\<lambda>e. now \<le> fst (snd (snd e))) (map (c_live now) (map (\<lambda>x. ?c (snd x)) xs))"
    by (simp add: filter_map comp_def c_live_def case_prod_beta)
  also have "\<dots> = c_alive now ts" unfolding c by (simp add: c_alive_def c_live_def case_prod_unfold)
  finally have "\<exists>ys. cache_st v V' ys (c_alive now ts)" using V'(2) by auto
  moreover have "length (c_alive now ts) \<le> 50" using l order_trans [OF length_filter_le] by (auto simp: c_alive_def)
  moreover have "\<forall>e \<in> set (c_alive now ts). length (fst e) = SHA1_SIZE" using ks by (auto simp: c_alive_def)
  ultimately have "cache_rep v V' (c_alive now ts)" unfolding cache_rep_def by blast
  with V'(1) st(1) show ?thesis by (simp add: cache_expire_def)
qed

definition c_used :: "time_t \<Rightarrow> bytes \<Rightarrow> (bytes \<times> centry) list \<Rightarrow> (bytes \<times> centry) list" where
  "c_used now k ts = map (\<lambda>e. if fst e = k then (k, fst (snd e), now + 1800, snd (snd (snd e))) else e) ts"

definition c_peers :: "(bytes \<times> centry) list \<Rightarrow> bytes \<Rightarrow> bytes" where
  "c_peers ts k = (case map_of ts k of None \<Rightarrow> [] | Some e \<Rightarrow> concat (map nc_pair (take 8 (fst e))))"

lemma cache_compact_list_ok:
  assumes r: "cache_rep v cache ts" and k: "length k = SHA1_SIZE"
  shows "\<exists>cache'. cache_compact_list cache k now = Some (cache', c_peers ts k) \<and> cache_rep v cache' (c_used now k ts)"
proof -
  from r obtain xs where s: "cache_st v cache xs ts" and l: "length ts \<le> 50" and ks: "\<forall>e \<in> set ts. length (fst e) = SHA1_SIZE"
    by (auto simp: cache_rep_def)
  show ?thesis
  proof (cases "cache_find cache k")
    case None
    then have nk: "k \<notin> fst ` set ts" using cache_find_iff [OF s k] by simp
    then have "map_of ts k = None" "c_used now k ts = ts"
      by (simp add: map_of_eq_None_iff) (use nk in \<open>force simp: c_used_def intro: map_idI\<close>)
    with None r show ?thesis by (simp add: cache_compact_list_def c_peers_def)
  next
    case (Some q)
    from cache_find_at [OF s k Some] obtain us p vs as c bs t where
      x: "xs = us @ (p, q) # vs" "ts = as @ (k, c) # bs" "length as = length us" "ch_mem cache q = Some t" "tgtc_rep v t (k, c)" by blast
    have dist: "distinct (map fst (as @ (k, c) # bs))" using stock_distinct [OF s [unfolded cache_st_def]] by (simp add: x(2))
    have m: "map_of ts k = Some c" by (rule map_of_is_SomeI) (use dist in \<open>simp_all add: x(2)\<close>)
    from tgt_c_restart [OF x(5), of "time_add_30_min now"] obtain L where L: "list_start (tc_list t) = Some L"
      "tgtc_rep v (t\<lparr>tc_list := fst L, tc_lifetime := time_add_30_min now\<rparr>) (k, fst c, time_add_30_min now, snd (snd c))"
      "copy_loop nc_pair (fst L) 8 (snd L) = Some (concat (map nc_pair (take 8 (fst c))))" by auto
    let ?C = "cache\<lparr>ch_mem := (ch_mem cache)(q \<mapsto> t\<lparr>tc_list := fst L, tc_lifetime := time_add_30_min now\<rparr>)\<rparr>"
    have cu: "c_used now k ts = as @ (k, fst c, time_add_30_min now, snd (snd c)) # bs"
      using take_map_at [OF dist, of "\<lambda>c. (fst c, now + 1800, snd (snd c))"] by (simp add: c_used_def x(2) time_add_30_min_def)
    have "cache_st v ?C xs (c_used now k ts)"
      unfolding cu x(1) by (rule cache_st_upd [OF s [unfolded x(1,2)] x(3,4) L(2)]) simp
    moreover have "length (c_used now k ts) \<le> 50" "\<forall>e \<in> set (c_used now k ts). length (fst e) = SHA1_SIZE"
      using l ks k by (auto simp: c_used_def)
    ultimately have "cache_rep v ?C (c_used now k ts)" by (auto simp: cache_rep_def)
    moreover have "cache_compact_list cache k now = Some (?C, c_peers ts k)"
      using L(1,3) x(4) m by (cases L) (simp add: cache_compact_list_def Some c_peers_def)
    ultimately show ?thesis by blast
  qed
qed

lemma cache_pairs_length:
  assumes "cache_rep v cache ts" and "e \<in> set ts" and "n \<in> set (fst (snd e))"
  shows "length (nc_pair n) = IP_SIZE_META_PAIR v"
proof -
  from assms(1) obtain xs where "holds (tgtc_rep v) (ch_mem cache) xs ts" by (auto simp: cache_rep_def cache_st_def stock_def)
  then obtain t where "tgtc_rep v t e"
    using assms(2) unfolding holds_def list_all2_conv_all_nth by (metis in_set_conv_nth)
  with assms(3) show ?thesis by (auto simp: tgtc_rep_def tgtc_ok_def)
qed

lemma c_peers_split:
  assumes "cache_rep v cache ts"
  shows "\<exists>ps. c_peers ts k = concat ps \<and> length ps \<le> 8 \<and> (\<forall>p \<in> set ps. length p = IP_SIZE_META_PAIR v)"
proof (cases "map_of ts k")
  case (Some e)
  then have "\<forall>p \<in> set (map nc_pair (take 8 (fst e))). length p = IP_SIZE_META_PAIR v"
    using cache_pairs_length [OF assms map_of_SomeD [OF Some]] by (auto dest: in_set_takeD)
  then show ?thesis by (intro exI [of _ "map nc_pair (take 8 (fst e))"]) (simp add: c_peers_def Some)
next
  case None
  then show ?thesis by (intro exI [of _ "[]"]) (simp add: c_peers_def)
qed

lemma concat_length: "\<forall>p \<in> set ps. length p = m \<Longrightarrow> length (concat ps) = length ps * m"
  by (induction ps) auto

text \<open>Printing and renewal keep the contents; renewal calls the lookup for each overdue target.\<close>

interpretation cache_print_walk: walker ch_list "\<lambda>s xs ys. cache_st v s (xs @ ys) ts" cache_print_body "\<lambda>_. True" for v ts
proof
  fix s xs ys p q
  show "dl (ch_list s) (xs @ ys)" if "cache_st v s (xs @ ys) ts" using that stock_dl by (auto simp: cache_st_def)
  assume sh: "cache_st v s (xs @ (p, q) # ys) ts"
  then have "holds (tgtc_rep v) (ch_mem s) (xs @ (p, q) # ys) ts" by (simp add: cache_st_def stock_def)
  from holds_split [OF this] obtain as a bs t where
    ts: "ts = as @ a # bs" "length as = length xs" "ch_mem s q = Some t" "tgtc_rep v t a" unfolding snd_conv by blast
  from tgt_c_restart [OF ts(4), of 0] obtain L where L: "list_start (tc_list t) = Some L" "tgtc_rep v (t\<lparr>tc_list := fst L\<rparr>) a" by blast
  from cache_st_upd [OF sh [unfolded ts(1)] ts(2,3) L(2)] L(1) ts
  show "\<exists>s'. cache_print_body s p q = Some s' \<and> cache_st v s' ((if True then xs @ [(p, q)] else xs) @ ys) ts"
    by (cases L) (simp add: cache_print_body_def tgt_c_print_def)
qed

lemma cache_print_ok:
  assumes "cache_st v cache xs ts"
  shows "\<exists>cache'. cache_print b cache = Some cache' \<and> cache_st v cache' xs ts"
  using cache_print_walk.walk [of v "cache\<lparr>ch_list := (ch_list cache)\<lparr>l_item := first xs None\<rparr>\<rparr>" "[]" xs ts] cache_start [OF assms] assms
  by (simp add: cache_print_def)

definition same_content :: "(bytes \<times> centry) list \<Rightarrow> (bytes \<times> centry) list \<Rightarrow> bool" where
  "same_content ts ts' \<longleftrightarrow> map (\<lambda>(k, ns, life, refr). (k, ns, life)) ts' = map (\<lambda>(k, ns, life, refr). (k, ns, life)) ts"

lemma same_content_refl [simp]: "same_content ts ts"
  by (simp add: same_content_def)

lemma same_content_mid:
  "same_content ts (as @ (k, ns, life, refr) # bs) \<Longrightarrow> same_content ts (as @ (k, ns, life, refr') # bs)"
  by (simp add: same_content_def)

text \<open>
  The contract of the lookup that renewal calls: it returns on 20-byte targets and keeps an invariant of the rest of the program, which may say
  for how many more lookups there is room.
\<close>

locale renewal =
  fixes lookup :: "'s \<Rightarrow> bytes \<Rightarrow> 's option" and next_refresh :: "'s \<Rightarrow> time_t \<times> 's" and I :: "nat \<Rightarrow> 's \<Rightarrow> bool"
  assumes lookup_ok: "I (Suc n) s \<Longrightarrow> length k = SHA1_SIZE \<Longrightarrow> \<exists>s'. lookup s k = Some s' \<and> I n s'"
    and refresh_ok: "I n s \<Longrightarrow> I n (snd (next_refresh s))"
    and unused: "I (Suc n) s \<Longrightarrow> I n s"
begin

definition renew_inv :: "ipver \<Rightarrow> (bytes \<times> centry) list \<Rightarrow> nat \<Rightarrow> CACHE \<times> 's \<times> bool \<Rightarrow> (ptr \<times> ptr) list \<Rightarrow> bool" where
  "renew_inv v ts n x xs \<longleftrightarrow> I n (fst (snd x)) \<and> (\<exists>ts'. cache_st v (fst x) xs ts' \<and> same_content ts ts')"

lemma renew_body:
  assumes ks: "\<forall>e \<in> set ts. length (fst e) = SHA1_SIZE" and inv: "renew_inv v ts (Suc n) x (xs @ (p, q) # ys)"
  shows "\<exists>x'. cache_renew_body lookup next_refresh now x p q = Some x' \<and> renew_inv v ts n x' (xs @ (p, q) # ys)"
proof -
  obtain C s ch where x: "x = (C, s, ch)" by (cases x) auto
  from inv obtain ts' where I: "I (Suc n) s" and sh: "cache_st v C (xs @ (p, q) # ys) ts'" and sc: "same_content ts ts'"
    by (auto simp: renew_inv_def x)
  from sh have "holds (tgtc_rep v) (ch_mem C) (xs @ (p, q) # ys) ts'" by (simp add: cache_st_def stock_def)
  from holds_split [OF this] obtain as a bs t where
    ts: "ts' = as @ a # bs" "length as = length xs" "ch_mem C q = Some t" "tgtc_rep v t a" unfolding snd_conv by blast
  show ?thesis
  proof (cases "now > tc_refresh t")
    case False
    then show ?thesis using inv unused ts(3) by (auto simp: cache_renew_body_def x renew_inv_def)
  next
    case True
    obtain zs where zs: "tgtc_ok v t zs" and a: "a = (tc_target t, map snd zs, tc_lifetime t, tc_refresh t)"
      using ts(4) by (auto simp: tgtc_rep_def)
    have "map fst ts' = map fst ts"
      using arg_cong [OF sc [unfolded same_content_def], of "map fst"] by (simp add: comp_def case_prod_beta)
    moreover have "tc_target t \<in> set (map fst ts')" unfolding ts(1) a by simp
    ultimately have "tc_target t \<in> fst ` set ts" by simp
    then have "length (tc_target t) = SHA1_SIZE" using ks by auto
    from lookup_ok [OF I this] obtain s1 where s1: "lookup s (tc_target t) = Some s1" "I n s1" by blast
    let ?t = "t\<lparr>tc_refresh := fst (next_refresh s1)\<rparr>"
    have "tgtc_ok v ?t zs" using zs by (simp add: tgtc_ok_def cmru_def)
    then have "tgtc_rep v ?t (tc_target t, map snd zs, tc_lifetime t, fst (next_refresh s1))" by (auto simp: tgtc_rep_def)
    from cache_st_upd [OF sh [unfolded ts(1)] ts(2,3) this]
    have "cache_st v (C\<lparr>ch_mem := (ch_mem C)(q \<mapsto> ?t)\<rparr>) (xs @ (p, q) # ys)
        (as @ (tc_target t, map snd zs, tc_lifetime t, fst (next_refresh s1)) # bs)" by simp
    moreover have "same_content ts (as @ (tc_target t, map snd zs, tc_lifetime t, fst (next_refresh s1)) # bs)"
      using sc same_content_mid by (simp add: ts(1) a)
    ultimately show ?thesis using True ts(3) s1 refresh_ok [OF s1(2)]
      by (auto simp: cache_renew_body_def x renew_inv_def case_prod_beta)
  qed
qed

lemma renew_walk:
  assumes "\<forall>e \<in> set ts. length (fst e) = SHA1_SIZE"
  shows "walker (\<lambda>x. ch_list (fst x)) (\<lambda>x xs ys. renew_inv v ts (n + length ys) x (xs @ ys))
    (cache_renew_body lookup next_refresh now) (\<lambda>_. True)"
proof
  fix x xs ys p q
  show "dl (ch_list (fst x)) (xs @ ys)" if "renew_inv v ts (n + length ys) x (xs @ ys)"
    using that stock_dl by (auto simp: renew_inv_def cache_st_def)
  show "\<exists>x'. cache_renew_body lookup next_refresh now x p q = Some x' \<and>
      renew_inv v ts (n + length ys) x' ((if True then xs @ [(p, q)] else xs) @ ys)"
    if "renew_inv v ts (n + length ((p, q) # ys)) x (xs @ (p, q) # ys)"
    using renew_body [OF assms, of v "n + length ys" x xs p q ys now] that by simp
qed

lemma cache_renew_ok:
  assumes r: "cache_rep v cache ts" and I: "I (n + length ts) s"
  shows "\<exists>cache' s' ts'. cache_renew b lookup next_refresh now cache s = Some (cache', s') \<and> I n s' \<and>
    cache_rep v cache' ts' \<and> same_content ts ts'"
proof -
  from r obtain xs where sh: "cache_st v cache xs ts" and l: "length ts \<le> 50" and ks: "\<forall>e \<in> set ts. length (fst e) = SHA1_SIZE"
    by (auto simp: cache_rep_def)
  let ?C = "cache\<lparr>ch_list := (ch_list cache)\<lparr>l_item := first xs None\<rparr>\<rparr>"
  note st = cache_start [OF sh]
  have "length xs = length ts" using sh by (auto simp: cache_st_def stock_def dest: holds_length)
  then have "renew_inv v ts (n + length xs) (?C, s, False) ([] @ xs)" using st(2) I by (auto simp: renew_inv_def)
  from walker.walk [OF renew_walk [OF ks] this, of now] obtain C' s' ch where
    w: "list_each (\<lambda>x. ch_list (fst x)) (cache_renew_body lookup next_refresh now) (?C, s, False) (first xs None) = Some (C', s', ch)"
      "renew_inv v ts n (C', s', ch) xs" by auto
  from w(2) obtain ts' where I': "I n s'" and c: "cache_st v C' xs ts'" and sc: "same_content ts ts'" by (auto simp: renew_inv_def)
  have keys: "map fst ts' = map fst ts"
    using arg_cong [OF sc [unfolded same_content_def], of "map fst"] by (simp add: comp_def case_prod_beta)
  from cache_print_ok [OF c, of b] obtain C2 where c2: "cache_print b C' = Some C2" "cache_st v C2 xs ts'" by blast
  let ?D = "if ch then C2 else C'"
  have kk: "\<forall>k \<in> set (map fst ts'). length k = SHA1_SIZE" unfolding keys using ks by simp
  have "cache_st v ?D xs ts'" using c c2 by simp
  moreover have "length ts' \<le> 50" using l arg_cong [OF keys, of length] by simp
  moreover have "\<forall>e \<in> set ts'. length (fst e) = SHA1_SIZE" using kk by simp
  ultimately have "cache_rep v ?D ts'" unfolding cache_rep_def by blast
  moreover have "cache_renew b lookup next_refresh now cache s = Some (?D, s')"
    using st(1) w(1) c2(1) by (simp add: cache_renew_def)
  ultimately show ?thesis using I' sc by blast
qed

end

section \<open>Properties\<close>

text \<open>
  C20: Storing a reply.  In every state that represents a cache, cache_put puts the reported addresses in front of those of their target, at most ten of them,
  restarts the lifetime of the target when an address is new, and drops the oldest target beyond fifty.  The only exception: when
  one of the addresses meets the stale list pointer, the function reads freed memory.
\<close>

theorem cache_put_refines:
  assumes "cache_rep v cache ts" and "length k = SHA1_SIZE" and "\<forall>p \<in> set ps. length p = IP_SIZE_META_PAIR v"
  shows "if cache_stale v cache k ps now g then cache_put v cache k (concat ps) now g = None
    else \<exists>cache' g'. cache_put v cache k (concat ps) now g = Some (cache', g') \<and> cache_rep v cache' (reported now k ps g ts)"
  by (rule cache_put_ok [OF assms])

text \<open>
  C38: The exception can be caused by one reply.  For a target that is not cached yet, a reply that lists an address, another one and the first one
  again makes cache_put read freed memory.
\<close>

theorem cache_put_repeated:
  assumes "cache_rep v cache ts" and "length k = SHA1_SIZE" and "k \<notin> fst ` set ts"
    and "length a = IP_SIZE_META_PAIR v" and "length b = IP_SIZE_META_PAIR v" and "a \<noteq> b"
  shows "cache_put v cache k (a @ b @ a) now g = None"
proof -
  from assms(1) obtain xs where s: "cache_st v cache xs ts" by (auto simp: cache_rep_def)
  have "cache_find cache k = None" using cache_find_iff [OF s assms(2)] assms(3) by simp
  then have "cache_stale v cache k [a, b, a] now g" using run_stale_aba [OF assms(4-6), of k "[]"] by (simp add: cache_stale_def)
  with cache_put_ok [OF assms(1,2), of "[a, b, a]" now g] assms(4,5) show ?thesis by simp
qed

text \<open>
  Expiry of the cache.  In every state that represents a cache, cache_expire returns; it drops the addresses and the targets whose time is over, and nothing else.
\<close>

theorem cache_expire_refines:
  assumes "cache_rep v cache ts"
  shows "\<exists>cache'. cache_expire cache now = Some cache' \<and> cache_rep v cache' (c_alive now ts)"
  by (rule cache_expire_ok [OF assms])

text \<open>
  Answers from the cache.  cache_compact_list returns the at most eight most recent addresses of a target, complete and within the buffer of eight, or nothing for an unknown
  target; using an entry extends its lifetime and changes nothing else.
\<close>

theorem cache_compact_list_exact:
  assumes "cache_rep v cache ts" and "length k = SHA1_SIZE"
  shows "\<exists>cache'. cache_compact_list cache k now = Some (cache', c_peers ts k) \<and> cache_rep v cache' (c_used now k ts) \<and>
    length (c_peers ts k) \<le> IP_SIZE_META_PAIR8 v \<and> IP_SIZE_META_PAIR v dvd length (c_peers ts k)"
proof -
  from c_peers_split [OF assms(1), of k] obtain ps where
    ps: "c_peers ts k = concat ps" "length ps \<le> 8" "\<forall>p \<in> set ps. length p = IP_SIZE_META_PAIR v" by blast
  have "length (c_peers ts k) = length ps * IP_SIZE_META_PAIR v" unfolding ps(1) by (rule concat_length [OF ps(3)])
  with ps(2) cache_compact_list_ok [OF assms, of now] show ?thesis by (simp add: IP_SIZE_META_PAIR8_def)
qed

section \<open>Examples\<close>

lemma init_not_stale: "cache_stale v cache_init k [p] now g = False"
  by (simp add: cache_stale_def cache_find_def cache_init_def hash_get_init mru_stale_def cmru_def tgt_c_init_def split: option.split prod.split)

lemma ex_reported: "reported 100 (replicate 20 1) [[192, 0, 2, 1, 26, 225]] ex_rng [] =
    [(replicate 20 1, [fresh_pair [192, 0, 2, 1, 26, 225] 100], 1900, 340)]"
  by (simp add: reported_def with_entry_def noted1_def recent_def time_add_5_min_approx_def random_def ex_rng_def)

lemma ex_cache:
  "\<exists>cache g. cache_put IPV4 cache_init (replicate 20 1) [192, 0, 2, 1, 26, 225] 100 ex_rng = Some (cache, g) \<and>
     cache_rep IPV4 cache [(replicate 20 1, [fresh_pair [192, 0, 2, 1, 26, 225] 100], 1900, 340)]"
  using cache_put_ok [OF cache_init_rep, of "replicate 20 1" "[[192, 0, 2, 1, 26, 225]]" IPV4 100 ex_rng]
  by (simp add: init_not_stale ex_reported IP_SIZE_META_PAIR_def)

theorem cache_put_refines_witness:
  "\<exists>cache g. cache_put IPV4 cache_init (replicate 20 1) [192, 0, 2, 1, 26, 225] 100 ex_rng = Some (cache, g) \<and>
     cache_rep IPV4 cache [(replicate 20 1, [fresh_pair [192, 0, 2, 1, 26, 225] 100], 1900, 340)]"
  using cache_put_refines [OF cache_init_rep, of "replicate 20 1" "[[192, 0, 2, 1, 26, 225]]" IPV4 100 ex_rng]
  by (simp add: init_not_stale ex_reported IP_SIZE_META_PAIR_def)

theorem cache_put_repeated_witness:
  "cache_put IPV4 cache_init (replicate 20 1) [192, 0, 2, 1, 26, 225, 192, 0, 2, 2, 26, 225, 192, 0, 2, 1, 26, 225] 100 ex_rng = None"
  using cache_put_repeated [OF cache_init_rep, of "replicate 20 1" "[192, 0, 2, 1, 26, 225]" IPV4 "[192, 0, 2, 2, 26, 225]" 100 ex_rng]
  by (simp add: IP_SIZE_META_PAIR_def)

theorem cache_expire_refines_witness:
  "\<exists>cache g cache' cache''. cache_put IPV4 cache_init (replicate 20 1) [192, 0, 2, 1, 26, 225] 100 ex_rng = Some (cache, g) \<and>
     cache_expire cache 1900 = Some cache' \<and>
     cache_rep IPV4 cache' [(replicate 20 1, [fresh_pair [192, 0, 2, 1, 26, 225] 100], 1900, 340)] \<and>
     cache_expire cache 1901 = Some cache'' \<and> cache_rep IPV4 cache'' []"
proof -
  from ex_cache obtain cache g where c: "cache_put IPV4 cache_init (replicate 20 1) [192, 0, 2, 1, 26, 225] 100 ex_rng = Some (cache, g)"
    "cache_rep IPV4 cache [(replicate 20 1, [fresh_pair [192, 0, 2, 1, 26, 225] 100], 1900, 340)]" by blast
  from cache_expire_refines [OF c(2), of 1900] cache_expire_refines [OF c(2), of 1901] c(1) show ?thesis
    by (auto simp: c_alive_def fresh_pair_def)
qed

theorem cache_compact_list_exact_witness:
  "\<exists>cache g cache'. cache_put IPV4 cache_init (replicate 20 1) [192, 0, 2, 1, 26, 225] 100 ex_rng = Some (cache, g) \<and>
     cache_compact_list cache (replicate 20 1) 200 = Some (cache', [192, 0, 2, 1, 26, 225])"
proof -
  from ex_cache obtain cache g where c: "cache_put IPV4 cache_init (replicate 20 1) [192, 0, 2, 1, 26, 225] 100 ex_rng = Some (cache, g)"
    "cache_rep IPV4 cache [(replicate 20 1, [fresh_pair [192, 0, 2, 1, 26, 225] 100], 1900, 340)]" by blast
  from cache_compact_list_exact [OF c(2), of "replicate 20 1" 200] c(1) show ?thesis
    by (auto simp: c_peers_def)
qed

end
