(* ===== verification/Token.thy ===== *)
theory Token
  imports Hash Times
begin

text \<open>
  The tokens of \<^verbatim>\<open>src/src/p2p/token.c\<close>.  A peer must present a token we gave
  out in the last half hour before it may announce itself.
\<close>

section \<open>State and operations\<close>

abbreviation TOKEN_SIZE :: nat where "TOKEN_SIZE \<equiv> 8"

record obj_tkn =
  tkn_id :: bytes
  tkn_time :: time_t

record obj_token =
  tk_list :: "obj_tkn LIST"
  tk_hash :: "ptr HASH"

definition tkn_init :: obj_token where
  "tkn_init = \<lparr>tk_list = list_init, tk_hash = hash_init 10\<rparr>"

definition tkn_create :: "obj_token \<Rightarrow> rng \<Rightarrow> bytes \<times> rng" where
  "tkn_create token g = create_loop TOKEN_SIZE (tk_hash token) 999 g"

definition tkn_put :: "obj_token \<Rightarrow> time_t \<Rightarrow> rng \<Rightarrow> (obj_token \<times> rng) option" where
  "tkn_put token now g = do {
     let (i, g') = tkn_create token g;
     let tkn = \<lparr>tkn_id = i, tkn_time = time_add_30_min now\<rparr>;
     (L, item_tkn) \<leftarrow> list_put (tk_list token) tkn;
     let (h, _) = hash_put (tk_hash token) (tkn_id tkn) item_tkn;
     Some (\<lparr>tk_list = L, tk_hash = h\<rparr>, g')
   }"

definition tkn_del :: "obj_token \<Rightarrow> ptr option \<Rightarrow> obj_token option" where
  "tkn_del token item_tkn = do {
     v \<leftarrow> list_value (tk_list token) item_tkn;
     tkn \<leftarrow> v;
     let h = hash_del (tk_hash token) (tkn_id tkn);
     (L, _) \<leftarrow> list_del (tk_list token) item_tkn;
     Some \<lparr>tk_list = L, tk_hash = h\<rparr>
   }"

definition tkn_expire_body :: "time_t \<Rightarrow> obj_token \<Rightarrow> ptr \<Rightarrow> obj_tkn \<Rightarrow> obj_token option" where
  "tkn_expire_body now token item_tkn tkn =
     (if now > tkn_time tkn then tkn_del token (Some item_tkn) else Some token)"

definition tkn_expire :: "obj_token \<Rightarrow> time_t \<Rightarrow> obj_token option" where
  "tkn_expire token now = do {
     (L, item_tkn) \<leftarrow> list_start (tk_list token);
     list_each tk_list (tkn_expire_body now) (token\<lparr>tk_list := L\<rparr>) item_tkn
   }"

definition tkn_validate :: "obj_token \<Rightarrow> bytes \<Rightarrow> bool" where
  "tkn_validate token i = (hash_get (tk_hash token) i \<noteq> None)"

text \<open>The newest token; on an empty list the C code follows a null pointer.\<close>

definition tkn_read :: "obj_token \<Rightarrow> bytes option" where
  "tkn_read token = do {
     item_tkn \<leftarrow> list_stop (tk_list token);
     v \<leftarrow> list_value (tk_list token) item_tkn;
     tkn \<leftarrow> v;
     Some (tkn_id tkn)
   }"

definition tkn_free :: "obj_token \<Rightarrow> (obj_tkn LIST \<times> obj_tkn list) option" where
  "tkn_free token = do {
     (L, freed) \<leftarrow> list_clear (tk_list token);
     L' \<leftarrow> list_free L;
     Some (L', freed)
   }"

section \<open>Invariant and laws\<close>

text \<open>
  \<open>tokens T xs\<close>: the list represents \<open>xs\<close>, the table is well formed and every entry of it
  leads to a listed token with that id.
\<close>

definition tokens :: "obj_token \<Rightarrow> (ptr \<times> obj_tkn) list \<Rightarrow> bool" where
  "tokens T xs \<longleftrightarrow> dlc (tk_list T) xs \<and> hash_ok (tk_hash T) \<and> sound (hash_get (tk_hash T)) tkn_id xs"

interpretation th: index "hash_init 10" hash_get hash_put hash_del hash_ok tkn_id
  unfolding index_def by (rule hash_map_laws) simp

lemma tokens_init: "tokens tkn_init []"
  by (simp add: tokens_def tkn_init_def list_init_dlc th.hinv_init indexes_sound th.index_init)

lemma tkn_put_tokens:
  assumes "tokens T xs" and "int (length xs) < LONG_MAX"
  shows "\<exists>T'. tkn_put T now g = Some (T', snd (tkn_create T g)) \<and>
    tokens T' (xs @ [(l_brk (tk_list T), \<lparr>tkn_id = fst (tkn_create T g), tkn_time = now + 1800\<rparr>)]) \<and>
    hash_get (tk_hash T') = (hash_get (tk_hash T))(fst (tkn_create T g) \<mapsto> l_brk (tk_list T))"
proof -
  obtain i g' where c: "tkn_create T g = (i, g')" by fastforce
  let ?t = "\<lparr>tkn_id = i, tkn_time = now + 1800\<rparr>"
  from assms(1) have d: "dlc (tk_list T) xs" and h: "hash_ok (tk_hash T)"
    and s: "sound (hash_get (tk_hash T)) tkn_id xs" by (simp_all add: tokens_def)
  from list_put_dlc [OF d assms(2), of ?t] obtain L' where
    L: "list_put (tk_list T) ?t = Some (L', Some (l_brk (tk_list T)))"
       "dlc L' (xs @ [(l_brk (tk_list T), ?t)])" by blast
  let ?h = "fst (hash_put (tk_hash T) i (Some (l_brk (tk_list T))))"
  have "sound (hash_get ?h) tkn_id (xs @ [(l_brk (tk_list T), ?t)])"
    using th.sound_put [OF h s assms(2), of _ "l_brk (tk_list T)" ?t] by simp
  moreover have "hash_get ?h = (hash_get (tk_hash T))(i \<mapsto> l_brk (tk_list T))"
    by (rule th.index_put_ok [OF h s assms(2)])
  ultimately show ?thesis
    using L c th.hinv_put [OF h]
    by (simp add: tkn_put_def time_add_30_min_def tokens_def case_prod_beta)
qed

lemma tkn_del_tokens:
  assumes "tokens T (xs @ (p, t) # ys)"
  shows "\<exists>T'. tkn_del T (Some p) = Some T' \<and> tokens T' (xs @ ys)"
proof -
  from assms have d: "dlc (tk_list T) (xs @ (p, t) # ys)" and h: "hash_ok (tk_hash T)"
    and s: "sound (hash_get (tk_hash T)) tkn_id (xs @ (p, t) # ys)" by (simp_all add: tokens_def)
  from list_del_dlc [OF d] obtain L' where
    "list_del (tk_list T) (Some p) = Some (L', first (xs @ ys) None)" "dlc L' (xs @ ys)" by auto
  with list_value_dl [OF dlc_dl [OF d]] th.sound_del [OF h s] th.hinv_del [OF h] show ?thesis
    by (simp add: tkn_del_def tokens_def)
qed

interpretation tkn_sweep: sweeper tk_list tokens "tkn_expire_body now"
  "\<lambda>t. \<not> now > tkn_time t" "\<lambda>t. t" for now
  by unfold_locales (auto simp: tokens_def tkn_expire_body_def intro: tkn_del_tokens [unfolded tokens_def])

lemma tkn_expire_tokens:
  assumes "tokens T xs"
  shows "\<exists>T'. tkn_expire T now = Some T' \<and> tokens T' (filter (\<lambda>x. now \<le> tkn_time (snd x)) xs)"
proof -
  have d: "dlc (tk_list T) xs" using assms by (simp add: tokens_def)
  have "T\<lparr>tk_list := (tk_list T)\<lparr>l_item := first xs None\<rparr>\<rparr> = T"
    by (simp add: dlc_start_same [OF d])
  with tkn_sweep.sweep [OF assms, of now] list_start_dl [OF dlc_dl [OF d]] show ?thesis
    by (simp add: tkn_expire_def case_prod_beta not_less)
qed

lemma tkn_read_tokens: "tokens T (xs @ [(p, t)]) \<Longrightarrow> tkn_read T = Some (tkn_id t)"
  using list_stop_dl [of "tk_list T" "xs @ [(p, t)]"] list_value_dl [of "tk_list T" xs p t "[]"]
  by (simp add: tkn_read_def tokens_def)

lemma tkn_read_empty: "tokens T [] \<Longrightarrow> tkn_read T = None"
  using list_stop_dl [of "tk_list T" "[]"] by (simp add: tkn_read_def tokens_def)

lemma tkn_validate_listed:
  "tokens T xs \<Longrightarrow> tkn_validate T i \<Longrightarrow> \<exists>(p, t) \<in> set xs. tkn_id t = i"
  by (auto simp: tkn_validate_def tokens_def dest: soundD)

lemma tkn_free_all:
  assumes "tokens T xs"
  shows "\<exists>L. tkn_free T = Some (L, map snd xs) \<and> l_mem L = Map.empty"
proof -
  have "dl (tk_list T) xs" using assms by (simp add: tokens_def)
  from list_clear_dl [OF this] list_free_dlc show ?thesis by (fastforce simp: tkn_free_def)
qed

section \<open>Runs\<close>

text \<open>The calls the rest of the program makes on the database, in any order.\<close>

datatype tkn_op = TknPut time_t rng | TknExpire time_t

definition tkn_do :: "tkn_op \<Rightarrow> obj_token \<Rightarrow> obj_token option" where
  "tkn_do op T = (case op of
     TknPut now g \<Rightarrow> do { (T', _) \<leftarrow> tkn_put T now g; Some T' }
   | TknExpire now \<Rightarrow> tkn_expire T now)"

fun tkn_run :: "tkn_op list \<Rightarrow> obj_token \<Rightarrow> obj_token option" where
  "tkn_run [] T = Some T"
| "tkn_run (op # ops) T = do { T' \<leftarrow> tkn_do op T; tkn_run ops T' }"

text \<open>
  The token was issued by some call of the run: it has the id which that call created in the database as it was then, its time is half an hour
  later, and no later expiry found it too old.
\<close>

definition issued :: "tkn_op list \<Rightarrow> obj_tkn \<Rightarrow> bool" where
  "issued ops t \<longleftrightarrow> (\<exists>us now g vs T. ops = us @ TknPut now g # vs \<and> tkn_run us tkn_init = Some T \<and>
     tkn_id t = fst (tkn_create T g) \<and> tkn_time t = time_add_30_min now \<and>
     (\<forall>n. TknExpire n \<in> set vs \<longrightarrow> n \<le> tkn_time t))"

lemma issued_snoc:
  assumes "issued ops t" and "\<And>n. op = TknExpire n \<Longrightarrow> n \<le> tkn_time t"
  shows "issued (ops @ [op]) t"
proof -
  from assms(1) obtain us now g vs T where "ops = us @ TknPut now g # vs" "tkn_run us tkn_init = Some T" "tkn_id t = fst (tkn_create T g)"
    "tkn_time t = time_add_30_min now" "\<forall>n. TknExpire n \<in> set vs \<longrightarrow> n \<le> tkn_time t" by (auto simp: issued_def)
  with assms(2) show ?thesis
    unfolding issued_def by (intro exI [of _ us] exI [of _ now] exI [of _ g] exI [of _ "vs @ [op]"] exI [of _ T]) auto
qed

lemma issued_new:
  assumes "tkn_run ops tkn_init = Some T"
  shows "issued (ops @ [TknPut now g]) \<lparr>tkn_id = fst (tkn_create T g), tkn_time = now + 1800\<rparr>"
  unfolding issued_def using assms
  by (intro exI [of _ ops] exI [of _ now] exI [of _ g] exI [of _ "[]"] exI [of _ T]) (simp add: time_add_30_min_def)

lemma tkn_run_snoc: "tkn_run (ops @ [op]) T = do { T' \<leftarrow> tkn_run ops T; tkn_do op T' }"
proof (induction ops arbitrary: T)
  case Nil
  show ?case by (cases "tkn_do op T") simp_all
next
  case (Cons a ops)
  then show ?case by (cases "tkn_do a T") simp_all
qed

lemma tkn_run_tokens:
  "int (length ops) < LONG_MAX \<Longrightarrow>
   \<exists>T xs. tkn_run ops tkn_init = Some T \<and> tokens T xs \<and> length xs \<le> length ops \<and>
     (\<forall>x \<in> set xs. issued ops (snd x))"
proof (induction ops rule: rev_induct)
  case Nil
  then show ?case using tokens_init by force
next
  case (snoc op ops)
  then obtain T xs where T: "tkn_run ops tkn_init = Some T" "tokens T xs"
    and len: "length xs \<le> length ops" and iss: "\<forall>x \<in> set xs. issued ops (snd x)" by auto
  show ?case
  proof (cases op)
    case (TknPut now g)
    have "int (length xs) < LONG_MAX" using len snoc.prems by simp
    from tkn_put_tokens [OF T(2) this, of now g] obtain T' where
      T': "tkn_put T now g = Some (T', snd (tkn_create T g))"
      and tk: "tokens T' (xs @ [(l_brk (tk_list T), \<lparr>tkn_id = fst (tkn_create T g), tkn_time = now + 1800\<rparr>)])"
      by blast
    show ?thesis
      by (rule exI [of _ T'], rule exI, intro conjI, rule_tac [2] tk)
        (use T T' len iss in \<open>auto simp: tkn_run_snoc tkn_do_def TknPut issued_new [OF T(1)] intro!: issued_snoc\<close>)
  next
    case (TknExpire now)
    from tkn_expire_tokens [OF T(2), of now] obtain T' where
      T': "tkn_expire T now = Some T'" "tokens T' (filter (\<lambda>x. now \<le> tkn_time (snd x)) xs)" by blast
    moreover have "length (filter (\<lambda>x. now \<le> tkn_time (snd x)) xs) \<le> length ops"
      using len length_filter_le order_trans by blast
    ultimately show ?thesis
      using T iss by (auto simp: tkn_run_snoc tkn_do_def TknExpire le_SucI intro!: exI issued_snoc)
  qed
qed

text \<open>
  C30: Whatever sequence of token creations and expiry runs the program performs, the token database never follows a dangling pointer, and
  an announcement is accepted only with the id of a token that was issued earlier in that sequence (the very bytes that one of the creations drew for
  the database as it was then) and that no expiry run since found to be older than thirty minutes.
\<close>

theorem token_accepts_only_issued:
  assumes "int (length ops) < LONG_MAX"
  shows "\<exists>T. tkn_run ops tkn_init = Some T \<and>
    (\<forall>i. tkn_validate T i \<longrightarrow> (\<exists>t. tkn_id t = i \<and> issued ops t))"
proof -
  from tkn_run_tokens [OF assms] obtain T xs where
    T: "tkn_run ops tkn_init = Some T" "tokens T xs" "\<forall>x \<in> set xs. issued ops (snd x)" by blast
  with tkn_validate_listed [OF T(2)] show ?thesis by fastforce
qed

text \<open>With one token of sevens, an id of eights is not accepted.\<close>

lemma create_loop_const: "r_urandom g = (\<lambda>j n. replicate n b) \<Longrightarrow> fst (create_loop k h n g) = replicate k b"
  by (induction n arbitrary: g) (simp_all add: rand_urandom_def)

lemma ex_issued:
  assumes "issued (TknPut now \<lparr>r_random = id, r_urandom = (\<lambda>j n. replicate n 7), r_i = 0, r_j = 0\<rparr> # map TknExpire ns) t"
  shows "tkn_id t = replicate 8 7 \<and> (\<forall>n \<in> set ns. n \<le> now + 1800)"
  using assms
  by (auto simp: issued_def Cons_eq_append_conv map_eq_append_conv time_add_30_min_def tkn_create_def create_loop_const)

theorem token_accepts_only_issued_witness:
  "\<exists>T. tkn_run [TknPut 5 \<lparr>r_random = id, r_urandom = (\<lambda>j n. replicate n 7), r_i = 0, r_j = 0\<rparr>,
                TknExpire 1805] tkn_init = Some T \<and> \<not> tkn_validate T (replicate 8 8)"
proof -
  let ?ops = "TknPut 5 \<lparr>r_random = id, r_urandom = (\<lambda>j n. replicate n (7 :: UCHAR)), r_i = 0, r_j = 0\<rparr> # map TknExpire [1805]"
  have "int (length ?ops) < LONG_MAX" by simp
  from token_accepts_only_issued [OF this] obtain T where
    T: "tkn_run ?ops tkn_init = Some T" "\<forall>i. tkn_validate T i \<longrightarrow> (\<exists>t. tkn_id t = i \<and> issued ?ops t)"
    by blast
  moreover have "\<not> tkn_validate T (replicate 8 8)"
    using T(2) ex_issued [of 5 "[1805]"] by fastforce
  ultimately show ?thesis by auto
qed

end
