(* ===== verification/Dns.thy ===== *)
theory Dns
  imports Strings Inet
begin

text \<open>
  The DNS messages of \<^verbatim>\<open>src/src/dns/dns.c\<close>: decoding a query, building the reply and encoding it.  Reading behind the end of
  the received buffer and writing behind the sixteen answers give \<open>None\<close>.  A name is a pointer into the \<open>qName_buffer\<close> of some message, kept as the
  address of that message and an offset.  A message lies in the frame of a call of \<open>r_parse\<close> or in the search of a transaction; what the buffers
  hold that exist at some point is \<open>names\<close>, so that a pointer into a message that is gone has no value.
\<close>

section \<open>Messages\<close>

type_synonym USHORT = "16 word"
datatype place = Frame ptr | Search ptr

type_synonym nref = "place \<times> nat"
type_synonym names = "place \<Rightarrow> bytes option"

abbreviation DNS_TTL :: USHORT where "DNS_TTL \<equiv> 300"
abbreviation QR_MASK :: USHORT where "QR_MASK \<equiv> 0x8000"
abbreviation OPCODE_MASK :: USHORT where "OPCODE_MASK \<equiv> 0x7800"
abbreviation AA_MASK :: USHORT where "AA_MASK \<equiv> 0x0400"
abbreviation TC_MASK :: USHORT where "TC_MASK \<equiv> 0x0200"
abbreviation RD_MASK :: USHORT where "RD_MASK \<equiv> 0x0100"
abbreviation RA_MASK :: USHORT where "RA_MASK \<equiv> 0x8000"
abbreviation RCODE_MASK :: USHORT where "RCODE_MASK \<equiv> 0x000F"
abbreviation A_Resource_RecordType :: USHORT where "A_Resource_RecordType \<equiv> 1"
abbreviation AAAA_Resource_RecordType :: USHORT where "AAAA_Resource_RecordType \<equiv> 28"
abbreviation SRV_Resource_RecordType :: USHORT where "SRV_Resource_RecordType \<equiv> 33"

datatype DNS_RD = X_record bytes | Srv_record USHORT USHORT USHORT nref

record DNS_RR =
  rr_name :: nref
  rr_type :: USHORT
  rr_class :: USHORT
  rr_ttl :: USHORT
  rr_length :: USHORT
  rr_data :: DNS_RD

record DNS_Q =
  qName :: nref
  qType :: USHORT
  qClass :: USHORT

record DNS_MSG =
  m_id :: USHORT
  m_qr :: USHORT
  m_opcode :: USHORT
  m_aa :: USHORT
  m_tc :: USHORT
  m_rd :: USHORT
  m_ra :: USHORT
  m_rcode :: USHORT
  qdCount :: USHORT
  anCount :: USHORT
  nsCount :: USHORT
  arCount :: USHORT
  question :: DNS_Q
  answer :: "DNS_RR list"
  qName_buffer :: bytes

text \<open>The C string at an address.\<close>

definition name_at :: "names \<Rightarrow> nref \<Rightarrow> bytes option" where
  "name_at names r = map_option (\<lambda>b. drop (snd r) (cstr b)) (names (fst r))"

section \<open>Decoding\<close>

definition byte_at :: "bytes \<Rightarrow> nat \<Rightarrow> UCHAR option" where
  "byte_at buf p = (if p < length buf then Some (buf ! p) else None)"

definition p_get16bits :: "bytes \<Rightarrow> nat \<Rightarrow> (USHORT \<times> nat) option" where
  "p_get16bits buf p = do {
     a \<leftarrow> byte_at buf p;
     b \<leftarrow> byte_at buf (p + 1);
     Some (push_bit 8 (ucast a) + ucast b, p + 2)
   }"

definition p_put16bits :: "USHORT \<Rightarrow> bytes" where
  "p_put16bits w = [ucast (drop_bit 8 (w AND 0xFF00)), ucast (w AND 0xFF)]"

text \<open>\<open>p_put32bits\<close> stores eight bytes and advances by four; the next field overwrites the other four.\<close>

definition p_put32bits :: "USHORT \<Rightarrow> bytes" where
  "p_put32bits w = [0, 0, ucast (drop_bit 8 w), ucast w]"

text \<open>The loop of \<open>p_decode_domain\<close>: \<open>Some None\<close> is the return value \<open>-1\<close>.\<close>

function domain_loop :: "bytes \<Rightarrow> nat \<Rightarrow> nat \<Rightarrow> bytes \<Rightarrow> (bytes \<times> nat) option option" where
  "domain_loop buf sz p domain =
     (if length buf \<le> p then None
      else if buf ! p = 0 then Some (Some (domain, p))
      else
        let domain = (if domain \<noteq> [] then domain @ [46] else domain);
            len = unat (buf ! p)
        in if length domain + len \<ge> 256 \<or> length domain + len \<ge> sz then Some None
           else if length buf < p + 1 + len then None
           else domain_loop buf sz (p + 1 + len) (domain @ take len (drop (p + 1) buf)))"
  by pat_completeness auto
termination
  by (relation "measure (\<lambda>(buf, sz, p, domain). length buf - p)") auto

declare domain_loop.simps [simp del]

definition p_decode_domain :: "bytes \<Rightarrow> nat \<Rightarrow> nat \<Rightarrow> (bytes \<times> nat) option option" where
  "p_decode_domain buf p sz =
     map_option (map_option (\<lambda>(domain, q). (domain, q + 1))) (domain_loop buf sz p [])"

definition p_decode_header :: "DNS_MSG \<Rightarrow> bytes \<Rightarrow> (DNS_MSG \<times> nat) option" where
  "p_decode_header msg buf = do {
     (i, p) \<leftarrow> p_get16bits buf 0;
     (fields, p) \<leftarrow> p_get16bits buf p;
     (qd, p) \<leftarrow> p_get16bits buf p;
     (an, p) \<leftarrow> p_get16bits buf p;
     (ns, p) \<leftarrow> p_get16bits buf p;
     (ar, p) \<leftarrow> p_get16bits buf p;
     Some (msg\<lparr>m_id := i,
       m_qr := drop_bit 15 (fields AND QR_MASK),
       m_opcode := drop_bit 11 (fields AND OPCODE_MASK),
       m_aa := drop_bit 10 (fields AND AA_MASK),
       m_tc := drop_bit 9 (fields AND TC_MASK),
       m_rd := drop_bit 8 (fields AND RD_MASK),
       m_ra := drop_bit 7 (fields AND RA_MASK),
       m_rcode := fields AND RCODE_MASK,
       qdCount := qd, anCount := an, nsCount := ns, arCount := ar\<rparr>, p)
   }"

text \<open>\<open>self\<close> is the address of the message that is filled.  The \<open>int\<close> result is the return value of the function.\<close>

definition p_decode_query :: "place \<Rightarrow> DNS_MSG \<Rightarrow> bytes \<Rightarrow> nat \<Rightarrow> (int \<times> DNS_MSG) option" where
  "p_decode_query self msg buf sz = do {
     (msg, p) \<leftarrow> p_decode_header msg buf;
     let s = int sz - 12;
     if anCount msg \<noteq> 0 then Some (- 1, msg)
     else if nsCount msg \<noteq> 0 then Some (- 2, msg)
     else if qdCount msg \<noteq> 1 then Some (- 3, msg)
     else do {
       d \<leftarrow> p_decode_domain buf p (nat s);
       case d of None \<Rightarrow> Some (- 4, msg)
       | Some (domain, q) \<Rightarrow> do {
           let msg = msg\<lparr>qName_buffer := domain @ [0]\<rparr>;
           let s = s - int (q - p);
           if s < 4 then Some (- 5, msg)
           else do {
             (ty, q) \<leftarrow> p_get16bits buf q;
             (cl, q) \<leftarrow> p_get16bits buf q;
             Some (1, msg\<lparr>question := \<lparr>qName = (self, 0), qType = ty, qClass = cl\<rparr>\<rparr>)
           }
         }
     }
   }"

section \<open>Encoding\<close>

function p_encode_domain :: "bytes \<Rightarrow> bytes" where
  "p_encode_domain domain =
     (let label = takeWhile (\<lambda>c. c \<noteq> 46) domain in
      case dropWhile (\<lambda>c. c \<noteq> 46) domain of
        [] \<Rightarrow> of_nat (length label) # label @ [0]
      | dot # rest \<Rightarrow> of_nat (length label) # label @ p_encode_domain rest)"
  by pat_completeness auto
termination
proof (relation "measure length", goal_cases)
  case (2 domain label dot rest)
  have "length (dropWhile (\<lambda>c. c \<noteq> 46) domain) \<le> length domain" by (rule length_dropWhile_le)
  with 2 show ?case by simp
qed simp

declare p_encode_domain.simps [simp del]

definition p_encode_header :: "DNS_MSG \<Rightarrow> bytes" where
  "p_encode_header msg =
     p_put16bits (m_id msg) @
     p_put16bits ((push_bit 15 (m_qr msg) AND QR_MASK) OR (m_rcode msg AND RCODE_MASK)) @
     p_put16bits (qdCount msg) @ p_put16bits (anCount msg) @ p_put16bits (nsCount msg) @ p_put16bits (arCount msg)"

definition encode_rr :: "names \<Rightarrow> DNS_RR \<Rightarrow> bytes option" where
  "encode_rr names rr = do {
     n \<leftarrow> name_at names (rr_name rr);
     d \<leftarrow> (case rr_data rr of
         Srv_record priority weight port target \<Rightarrow> do {
           t \<leftarrow> name_at names target;
           Some (p_put16bits priority @ p_put16bits weight @ p_put16bits port @ p_encode_domain t)
         }
       | X_record addr \<Rightarrow> Some addr);
     Some (p_encode_domain n @ p_put16bits (rr_type rr) @ p_put16bits (rr_class rr) @ p_put32bits (rr_ttl rr) @
       p_put16bits (rr_length rr) @ d)
   }"

fun encode_rrs :: "names \<Rightarrow> DNS_RR list \<Rightarrow> bytes option" where
  "encode_rrs names [] = Some []"
| "encode_rrs names (rr # rrs) = do {
     x \<leftarrow> encode_rr names rr;
     y \<leftarrow> encode_rrs names rrs;
     Some (x @ y)
   }"

definition p_encode_response :: "names \<Rightarrow> DNS_MSG \<Rightarrow> bytes option" where
  "p_encode_response names msg = do {
     n \<leftarrow> name_at names (qName (question msg));
     let head = p_encode_header msg @ p_encode_domain n @ p_put16bits (qType (question msg)) @ p_put16bits (qClass (question msg));
     if anCount msg = 0 then Some head
     else do {
       let count = unat (anCount msg) + unat (arCount msg);
       if length (answer msg) < count then None
       else do {
         x \<leftarrow> encode_rrs names (take count (answer msg));
         Some (head @ x)
       }
     }
   }"

definition p_prepare_msg :: "DNS_MSG \<Rightarrow> USHORT \<Rightarrow> DNS_MSG" where
  "p_prepare_msg msg n = msg\<lparr>m_rcode := 0, m_qr := 1, m_aa := 1, m_ra := 0,
     qdCount := 1, anCount := n, nsCount := 0, arCount := 0\<rparr>"

definition find_sub :: "bytes \<Rightarrow> bytes \<Rightarrow> nat option" where
  "find_sub name pat = map_option (\<lambda>s. length name - length s) (strstr name pat)"

definition p_get_domain_from_srv_record :: "names \<Rightarrow> nref \<Rightarrow> nref option" where
  "p_get_domain_from_srv_record names r = do {
     name \<leftarrow> name_at names r;
     Some (case find_sub name (lit ''._tcp.'') of
         Some i \<Rightarrow> (fst r, snd r + i + 6)
       | None \<Rightarrow>
          (case find_sub name (lit ''._udp.'') of
             Some i \<Rightarrow> (fst r, snd r + i + 6)
           | None \<Rightarrow> r))
   }"

definition p_put_srv :: "ipver \<Rightarrow> names \<Rightarrow> DNS_Q \<Rightarrow> bytes \<Rightarrow> nref \<Rightarrow> DNS_RR option" where
  "p_put_srv v names qu p name = do {
     (port, _) \<leftarrow> p_get16bits p (IP_SIZE v);
     n \<leftarrow> name_at names name;
     Some \<lparr>rr_name = qName qu, rr_type = SRV_Resource_RecordType, rr_class = 1, rr_ttl = DNS_TTL,
       rr_length = of_nat (6 + length n + 2), rr_data = Srv_record 0 0 port name\<rparr>
   }"

definition p_put_addr :: "ipver \<Rightarrow> DNS_Q \<Rightarrow> bytes \<Rightarrow> nref \<Rightarrow> DNS_RR option" where
  "p_put_addr v qu p name =
     (if length p < IP_SIZE v then None
      else Some \<lparr>rr_name = name, rr_type = (case v of IPV6 \<Rightarrow> AAAA_Resource_RecordType | IPV4 \<Rightarrow> A_Resource_RecordType),
        rr_class = qClass qu, rr_ttl = DNS_TTL, rr_length = of_nat (IP_SIZE v), rr_data = X_record (take (IP_SIZE v) p)\<rparr>)"

text \<open>The loops of \<open>p_reply_msg\<close> over the compact addresses.\<close>

fun put_loop :: "ipver \<Rightarrow> (bytes \<Rightarrow> DNS_RR option) \<Rightarrow> nat \<Rightarrow> bytes \<Rightarrow> DNS_RR list option" where
  "put_loop v put 0 p = Some []"
| "put_loop v put (Suc n) p = do {
     rr \<leftarrow> put p;
     rrs \<leftarrow> put_loop v put n (drop (IP_SIZE_META_PAIR v) p);
     Some (rr # rrs)
   }"

definition p_reply_msg :: "ipver \<Rightarrow> names \<Rightarrow> DNS_MSG \<Rightarrow> bytes \<Rightarrow> DNS_MSG option" where
  "p_reply_msg v names msg nodes = do {
     let qu = question msg;
     let n = length nodes div IP_SIZE_META_PAIR v;
     let msg = p_prepare_msg msg (of_nat n);
     if qType qu = SRV_Resource_RecordType then do {
       let msg = msg\<lparr>arCount := anCount msg\<rparr>;
       domain \<leftarrow> p_get_domain_from_srv_record names (qName qu);
       srv \<leftarrow> put_loop v (\<lambda>p. p_put_srv v names qu p domain) (unat (anCount msg)) nodes;
       addr \<leftarrow> put_loop v (\<lambda>p. p_put_addr v qu p domain) (unat (arCount msg)) nodes;
       if 16 < length (srv @ addr) then None else Some (msg\<lparr>answer := srv @ addr\<rparr>)
     } else do {
       addr \<leftarrow> put_loop v (\<lambda>p. p_put_addr v qu p (qName qu)) (unat (anCount msg)) nodes;
       if 16 < length addr then None else Some (msg\<lparr>answer := addr\<rparr>)
     }
   }"

definition p_reset_msg :: "DNS_MSG \<Rightarrow> DNS_MSG" where
  "p_reset_msg msg =
     (let qu = question msg;
          rr = \<lparr>rr_name = qName qu, rr_type = 0, rr_class = qClass qu, rr_ttl = DNS_TTL, rr_length = 0, rr_data = X_record []\<rparr>
      in (p_prepare_msg msg 0)\<lparr>answer := [rr]\<rparr>)"

section \<open>Laws\<close>

text \<open>
  The domain decoder checks the length of a label against what is left of the datagram before it copies it, and looks at
  most at the byte behind the datagram.
\<close>

lemma domain_loop_safe:
  "b + s < length buf \<Longrightarrow> p = (if d = [] then b else b + length d + 1) \<Longrightarrow> length d \<le> 255 \<Longrightarrow> (d \<noteq> [] \<longrightarrow> length d < s) \<Longrightarrow>
   \<exists>r. domain_loop buf s p d = Some r \<and>
     (\<forall>e q. r = Some (e, q) \<longrightarrow> length e \<le> 255 \<and> q = (if e = [] then b else b + length e + 1) \<and> q \<le> b + s)"
proof (induction buf s p d rule: domain_loop.induct)
  case (1 buf s p d)
  have p: "p \<le> b + s" "p < length buf" using "1.prems" by (auto split: if_splits)
  let ?d = "if d \<noteq> [] then d @ [46] else d" and ?len = "unat (buf ! p)"
  show ?case
  proof (cases "buf ! p = 0")
    case True
    with p(2) have "domain_loop buf s p d = Some (Some (d, p))" by (subst domain_loop.simps) simp
    then show ?thesis using "1.prems" p by auto
  next
    case False
    then have len: "0 < ?len" by (simp add: unat_gt_0)
    show ?thesis
    proof (cases "length ?d + ?len \<ge> 256 \<or> length ?d + ?len \<ge> s")
      case True
      then show ?thesis using False p by (subst domain_loop.simps) (auto simp: Let_def)
    next
      case fits: False
      let ?e = "?d @ take ?len (drop (p + 1) buf)"
      have q: "p + 1 + ?len \<le> b + s" using fits "1.prems"(2) by (auto split: if_splits)
      then have room: "\<not> length buf < p + 1 + ?len" using "1.prems"(1) by linarith
      have e: "length ?e = length ?d + ?len" using room by simp
      then have "length ?e \<noteq> 0" using len by linarith
      then have ne: "?e \<noteq> []" by (simp only: length_0_conv not_False_eq_True)
      have "p + 1 + ?len = b + length ?e + 1" using "1.prems"(2) e by (auto split: if_splits)
      then have pe: "p + 1 + ?len = (if ?e = [] then b else b + length ?e + 1)" by (simp only: ne if_False)
      have le: "length ?e \<le> 255" and lt: "?e \<noteq> [] \<longrightarrow> length ?e < s" using fits e by auto
      have run: "domain_loop buf s p d = domain_loop buf s (p + 1 + ?len) ?e"
        using p(2) False fits room by (subst domain_loop.simps) (simp add: Let_def)
      have "\<not> length buf \<le> p" using p(2) by simp
      from "1.IH" [OF this False refl refl fits room "1.prems"(1) pe le lt] show ?thesis unfolding run .
    qed
  qed
qed

lemma get16_ok: "p + 1 < length buf \<Longrightarrow> \<exists>x. p_get16bits buf p = Some (x, p + 2)"
  by (simp add: p_get16bits_def byte_at_def)

lemma p_decode_header_ok:
  assumes "12 \<le> length buf"
  shows "\<exists>msg'. p_decode_header msg buf = Some (msg', 12)"
proof -
  obtain a where a: "p_get16bits buf 0 = Some (a, 2)" using get16_ok [of 0 buf] assms by (auto simp: numeral_2_eq_2)
  obtain b c d e f where "p_get16bits buf 2 = Some (b, 4)" "p_get16bits buf 4 = Some (c, 6)" "p_get16bits buf 6 = Some (d, 8)"
    "p_get16bits buf 8 = Some (e, 10)" "p_get16bits buf 10 = Some (f, 12)"
    using get16_ok [of 2 buf] get16_ok [of 4 buf] get16_ok [of 6 buf] get16_ok [of 8 buf] get16_ok [of 10 buf] assms by auto
  with a show ?thesis by (simp add: p_decode_header_def)
qed

lemma p_encode_domain_length: "length (p_encode_domain d) = length d + 2"
proof (induction d rule: p_encode_domain.induct)
  case (1 d)
  have l: "length d = length (takeWhile (\<lambda>c. c \<noteq> 46) d) + length (dropWhile (\<lambda>c. c \<noteq> 46) d)"
    by (metis length_append takeWhile_dropWhile_id)
  show ?case
  proof (cases "dropWhile (\<lambda>c. c \<noteq> 46) d")
    case Nil
    then show ?thesis using l by (subst p_encode_domain.simps) (simp add: Let_def del: dropWhile_eq_Nil_conv)
  next
    case (Cons c rest)
    then show ?thesis using l 1 [OF refl Cons] by (subst p_encode_domain.simps) (simp add: Let_def)
  qed
qed

text \<open>Names that DNS can represent: no label is empty.\<close>

function labels_ok :: "bytes \<Rightarrow> bool" where
  "labels_ok d = (takeWhile (\<lambda>c. c \<noteq> 46) d \<noteq> [] \<and>
     (case dropWhile (\<lambda>c. c \<noteq> 46) d of [] \<Rightarrow> True | dot # rest \<Rightarrow> labels_ok rest))"
  by pat_completeness auto
termination
proof (relation "measure length", goal_cases)
  case (2 d dot rest)
  have "length (dropWhile (\<lambda>c. c \<noteq> 46) d) \<le> length d" by (rule length_dropWhile_le)
  with 2 show ?case by simp
qed simp

declare labels_ok.simps [simp del]

lemma domain_loop_label:
  assumes "l \<noteq> []" and "length l \<le> 255" and "buf = pre @ of_nat (length l) # l @ rest"
    and "length (if acc \<noteq> [] then acc @ [46] else acc) + length l < 256" and "length (if acc \<noteq> [] then acc @ [46] else acc) + length l < s"
  shows "domain_loop buf s (length pre) acc = domain_loop buf s (length pre + 1 + length l) ((if acc \<noteq> [] then acc @ [46] else acc) @ l)"
proof -
  have u: "unat (of_nat (length l) :: UCHAR) = length l" using assms(2) by (simp add: unat_of_nat)
  then have "(of_nat (length l) :: UCHAR) \<noteq> 0" using assms(1) by (metis length_0_conv unat_0)
  then show ?thesis
    unfolding assms(3) using u assms(4,5) by (subst domain_loop.simps) (simp add: nth_append Let_def)
qed

lemma domain_roundtrip_loop:
  "labels_ok d \<Longrightarrow> length (if acc \<noteq> [] then acc @ [46] else acc) + length d < 256 \<Longrightarrow>
   length (if acc \<noteq> [] then acc @ [46] else acc) + length d < s \<Longrightarrow> buf = pre @ p_encode_domain d @ rest \<Longrightarrow>
   domain_loop buf s (length pre) acc = Some (Some ((if acc \<noteq> [] then acc @ [46] else acc) @ d, length pre + length d + 1))"
proof (induction d arbitrary: acc pre rule: p_encode_domain.induct)
  case (1 d)
  let ?l = "takeWhile (\<lambda>c. c \<noteq> 46) d" and ?a = "if acc \<noteq> [] then acc @ [46] else acc"
  have d: "d = ?l @ dropWhile (\<lambda>c. c \<noteq> 46) d" by simp
  have ne: "?l \<noteq> []" using "1.prems"(1) by (subst (asm) labels_ok.simps) simp
  have ll: "length ?l \<le> length d" by (rule length_takeWhile_le)
  show ?case
  proof (cases "dropWhile (\<lambda>c. c \<noteq> 46) d")
    case Nil
    then have dl: "?l = d" using d by (metis append_Nil2)
    have "buf = pre @ of_nat (length ?l) # ?l @ 0 # rest"
      unfolding "1.prems"(4) using Nil by (subst p_encode_domain.simps) (simp add: Let_def del: dropWhile_eq_Nil_conv takeWhile_eq_all_conv)
    from domain_loop_label [OF ne _ this, of acc s] "1.prems"(2,3) ll
    have "domain_loop buf s (length pre) acc = domain_loop buf s (length pre + 1 + length d) (?a @ d)" unfolding dl by simp
    also have "\<dots> = Some (Some (?a @ d, length pre + length d + 1))"
      unfolding \<open>buf = pre @ of_nat (length ?l) # ?l @ 0 # rest\<close> dl by (subst domain_loop.simps) (simp add: nth_append)
    finally show ?thesis .
  next
    case (Cons dot r)
    then have dot: "dot = 46" using hd_dropWhile [of "\<lambda>c. c \<noteq> 46" d] by simp
    then have dd: "d = ?l @ 46 # r" using d Cons by metis
    have "labels_ok r" using "1.prems"(1) Cons by (subst (asm) labels_ok.simps) simp
    have b: "buf = pre @ of_nat (length ?l) # ?l @ (p_encode_domain r @ rest)"
      unfolding "1.prems"(4) using Cons by (subst p_encode_domain.simps) (simp add: Let_def)
    then have b2: "buf = (pre @ of_nat (length ?l) # ?l) @ p_encode_domain r @ rest" by simp
    have len: "length d = length ?l + 1 + length r" using arg_cong [OF dd, of length] by simp
    have step: "domain_loop buf s (length pre) acc = domain_loop buf s (length pre + 1 + length ?l) (?a @ ?l)"
      by (rule domain_loop_label [OF ne _ b]) (use "1.prems"(2,3) len in simp_all)
    have ne2: "?a @ ?l \<noteq> []" using ne by simp
    from "1.IH" [OF refl Cons \<open>labels_ok r\<close> _ _ b2, of "?a @ ?l"] "1.prems"(2,3) len ne2
    have "domain_loop buf s (length pre + 1 + length ?l) (?a @ ?l) =
        Some (Some ((?a @ ?l @ [46]) @ r, length pre + 1 + length ?l + length r + 1))" by simp
    moreover have "(?a @ ?l @ [46]) @ r = ?a @ d" by (subst dd) simp
    moreover have "length pre + 1 + length ?l + length r + 1 = length pre + length d + 1" using len by simp
    ultimately show ?thesis unfolding step by (simp only:)
  qed
qed

lemma p_decode_domain_safe:
  assumes "p + sz < length buf"
  shows "\<exists>r. p_decode_domain buf p sz = Some r \<and> (\<forall>e q. r = Some (e, q) \<longrightarrow> length e \<le> 255 \<and> p < q \<and> q \<le> p + sz + 1)"
  using domain_loop_safe [OF assms, of p "[]"] by (fastforce simp: p_decode_domain_def split: if_splits)

text \<open>Size and content of a reply with addresses.\<close>

lemma put16_length [simp]: "length (p_put16bits w) = 2"
  and put32_length [simp]: "length (p_put32bits w) = 4"
  by (simp_all add: p_put16bits_def p_put32bits_def)

lemma put_addr_loop:
  "length nodes = n * IP_SIZE_META_PAIR v \<Longrightarrow>
   \<exists>rrs. put_loop v (\<lambda>p. p_put_addr v qu p r) n nodes = Some rrs \<and> length rrs = n \<and>
     (\<forall>i < n. rr_name (rrs ! i) = r \<and> rr_data (rrs ! i) = X_record (take (IP_SIZE v) (drop (i * IP_SIZE_META_PAIR v) nodes)))"
proof (induction n arbitrary: nodes)
  case (Suc n)
  let ?k = "IP_SIZE_META_PAIR v"
  have k: "IP_SIZE v \<le> ?k" by (simp add: IP_SIZE_META_PAIR_def)
  from Suc.prems have len: "length (drop ?k nodes) = n * ?k" "?k \<le> length nodes" by simp_all
  from Suc.IH [OF len(1)] obtain rrs where r: "put_loop v (\<lambda>p. p_put_addr v qu p r) n (drop ?k nodes) = Some rrs" "length rrs = n"
    "\<forall>i < n. rr_name (rrs ! i) = r \<and> rr_data (rrs ! i) = X_record (take (IP_SIZE v) (drop (i * ?k) (drop ?k nodes)))" by blast
  obtain rr where rr: "p_put_addr v qu nodes r = Some rr" "rr_name rr = r" "rr_data rr = X_record (take (IP_SIZE v) nodes)"
    using len(2) k by (auto simp: p_put_addr_def)
  have "rr_name ((rr # rrs) ! i) = r \<and> rr_data ((rr # rrs) ! i) = X_record (take (IP_SIZE v) (drop (i * ?k) nodes))" if "i < Suc n" for i
    using that rr r(3) by (cases i) (auto simp: algebra_simps)
  with r(1,2) rr(1) show ?case by (auto simp del: nth_Cons_Suc)
qed simp

lemma encode_rrs_length:
  assumes "\<forall>rr \<in> set rrs. \<exists>a. name_at names (rr_name rr) = Some nm \<and> rr_data rr = X_record a \<and> length a = k"
  shows "\<exists>x. encode_rrs names rrs = Some x \<and> length x = length rrs * (length nm + 12 + k)"
  using assms
proof (induction rrs)
  case (Cons rr rrs)
  then obtain x a where "encode_rrs names rrs = Some x" "length x = length rrs * (length nm + 12 + k)"
    "name_at names (rr_name rr) = Some nm" "rr_data rr = X_record a" "length a = k" by auto
  then show ?case by (simp add: encode_rr_def p_encode_domain_length)
qed simp

lemma encode_header_length [simp]: "length (p_encode_header msg) = 12"
  by (simp add: p_encode_header_def)

lemma reply_addr:
  assumes q: "qType (question msg) \<noteq> SRV_Resource_RecordType" and len: "length nodes = n * IP_SIZE_META_PAIR v" and n: "0 < n" "n \<le> 8"
    and nm: "name_at names (qName (question msg)) = Some nm"
  shows "\<exists>msg' x. p_reply_msg v names msg nodes = Some msg' \<and> p_encode_response names msg' = Some x \<and>
    length x = 18 + length nm + n * (length nm + 12 + IP_SIZE v) \<and> unat (anCount msg') = n \<and>
    (\<forall>i < n. rr_data (answer msg' ! i) = X_record (take (IP_SIZE v) (drop (i * IP_SIZE_META_PAIR v) nodes)))"
proof -
  let ?k = "IP_SIZE_META_PAIR v" and ?r = "qName (question msg)"
  have k: "0 < ?k" "IP_SIZE v \<le> ?k" by (simp_all add: IP_SIZE_META_PAIR_def)
  have div: "length nodes div ?k = n" using len k by simp
  have u: "unat (of_nat n :: USHORT) = n" using n by (simp add: unat_of_nat)
  from put_addr_loop [OF len, of "question msg" ?r] obtain rrs where
    r: "put_loop v (\<lambda>p. p_put_addr v (question msg) p ?r) n nodes = Some rrs" "length rrs = n"
    "\<forall>i < n. rr_name (rrs ! i) = ?r \<and> rr_data (rrs ! i) = X_record (take (IP_SIZE v) (drop (i * ?k) nodes))" by blast
  let ?m = "(p_prepare_msg msg (of_nat n))\<lparr>answer := rrs\<rparr>"
  have reply: "p_reply_msg v names msg nodes = Some ?m"
    using q r(1,2) n u div by (simp add: p_reply_msg_def p_prepare_msg_def Let_def)
  have "\<exists>a. name_at names (rr_name rr) = Some nm \<and> rr_data rr = X_record a \<and> length a = IP_SIZE v" if "rr \<in> set rrs" for rr
  proof -
    from that obtain i where i: "i < n" "rr = rrs ! i" using r(2) by (auto simp: in_set_conv_nth)
    have "Suc i * ?k \<le> n * ?k" using i(1) by (intro mult_le_mono1) simp
    then have "IP_SIZE v \<le> length (drop (i * ?k) nodes)" using len k by simp
    with r(3) i nm show ?thesis by simp
  qed
  then obtain x where x: "encode_rrs names rrs = Some x" "length x = n * (length nm + 12 + IP_SIZE v)"
    using encode_rrs_length [of rrs names nm "IP_SIZE v"] r(2) by auto
  have nz: "(of_nat n :: USHORT) \<noteq> 0" using n u by (metis less_numeral_extra(3) unat_0)
  have "p_encode_response names ?m = Some (p_encode_header ?m @ p_encode_domain nm @
      p_put16bits (qType (question msg)) @ p_put16bits (qClass (question msg)) @ x)"
    using x(1) nm nz u r(2) by (simp add: p_encode_response_def p_prepare_msg_def)
  with reply x(2) u r(3) show ?thesis by (simp add: p_prepare_msg_def p_encode_domain_length)
qed

section \<open>Properties\<close>

lemma p_decode_query_safe:
  assumes "12 \<le> length d"
  shows "\<exists>r msg'. p_decode_query self msg (d @ 0 # rest) (length d) = Some (r, msg') \<and> r \<in> {1, -1, -2, -3, -4, -5} \<and>
    (r = 1 \<longrightarrow> qName (question msg') = (self, 0) \<and> length (qName_buffer msg') \<le> 256 \<and> last (qName_buffer msg') = 0)"
proof -
  let ?buf = "d @ 0 # rest"
  from p_decode_header_ok [of ?buf msg] assms obtain m where h: "p_decode_header msg ?buf = Some (m, 12)" by auto
  let ?s = "length d - 12"
  have s: "nat (int (length d) - 12) = ?s" using assms by simp
  from p_decode_domain_safe [of 12 ?s ?buf] assms obtain r where r: "p_decode_domain ?buf 12 ?s = Some r"
    "\<forall>e q. r = Some (e, q) \<longrightarrow> length e \<le> 255 \<and> 12 < q \<and> q \<le> 12 + ?s + 1" by auto
  show ?thesis
  proof (cases "anCount m \<noteq> 0 \<or> nsCount m \<noteq> 0 \<or> qdCount m \<noteq> 1 \<or> r = None")
    case True
    then show ?thesis using h r(1) s
      by (cases "anCount m = 0"; cases "nsCount m = 0"; cases "qdCount m = 1") (auto simp: p_decode_query_def Let_def)
  next
    case False
    then obtain e q where e: "r = Some (e, q)" by auto
    with r(2) have l: "length e \<le> 255" "12 < q" "q \<le> 12 + ?s + 1" by auto
    show ?thesis
    proof (cases "int (length d) - 12 - int (q - 12) < 4")
      case True
      then show ?thesis using False h r(1) s e by (auto simp: p_decode_query_def)
    next
      case room: False
      then have "q + 3 < length ?buf" using l assms by simp
      with get16_ok [of q ?buf] get16_ok [of "q + 2" ?buf] obtain a b where
        "p_get16bits ?buf q = Some (a, q + 2)" "p_get16bits ?buf (q + 2) = Some (b, q + 4)" by auto
      then show ?thesis using room False h r(1) s e l by (simp add: p_decode_query_def)
    qed
  qed
qed

text \<open>
  Decoding a DNS query is memory safe.  On any datagram of at least 12 bytes in a buffer that has a zero byte behind it, p_decode_query returns
  one of its documented codes without reading behind that byte; when it succeeds, the name points to the message's own
  buffer and, with its terminating zero, fits its 256 bytes.
\<close>

theorem dns_decode_safe:
  assumes "12 \<le> length d"
  shows "\<exists>r msg'. p_decode_query self msg (d @ 0 # rest) (length d) = Some (r, msg') \<and> r \<in> {1, -1, -2, -3, -4, -5} \<and>
    (r = 1 \<longrightarrow> qName (question msg') = (self, 0) \<and> length (qName_buffer msg') \<le> 256 \<and> last (qName_buffer msg') = 0)"
  by (rule p_decode_query_safe [OF assms])

definition ex_msg :: DNS_MSG where
  "ex_msg = \<lparr>m_id = 0, m_qr = 0, m_opcode = 0, m_aa = 0, m_tc = 0, m_rd = 0, m_ra = 0, m_rcode = 0, qdCount = 1, anCount = 0,
    nsCount = 0, arCount = 0, question = \<lparr>qName = (Frame 0, 0), qType = 1, qClass = 1\<rparr>, answer = [], qName_buffer = [97, 0]\<rparr>"

definition ex_query :: bytes where
  "ex_query = [0, 7, 1, 0, 0, 1, 0, 0, 0, 0, 0, 0, 1, 97, 0, 0, 1, 0, 1]"

theorem dns_decode_safe_witness:
  "\<exists>r msg'. p_decode_query (Frame 0) ex_msg (ex_query @ [0]) (length ex_query) = Some (r, msg') \<and> r \<in> {1, -1, -2, -3, -4, -5}"
proof -
  have "12 \<le> length ex_query" by (simp add: ex_query_def)
  from dns_decode_safe [OF this, of "Frame 0" ex_msg "[]"] show ?thesis by blast
qed

text \<open>
  Names survive the wire format.  Decoding what p_encode_domain wrote gives the name back, for every name of at most 255 bytes without empty labels that is
  shorter than the rest of the datagram, and leaves the read position behind it.
\<close>

theorem dns_domain_roundtrip:
  assumes "labels_ok d" and "length d \<le> 255" and "length d < sz"
  shows "p_decode_domain (pre @ p_encode_domain d @ rest) (length pre) sz = Some (Some (d, length pre + length (p_encode_domain d)))"
  using domain_roundtrip_loop [of d "[]" sz _ pre rest] assms by (simp add: p_decode_domain_def p_encode_domain_length)

lemma ex_labels: "labels_ok (lit ''a.b'')"
  by (simp add: lit_def chr_def labels_ok.simps)

theorem dns_domain_roundtrip_witness:
  "p_decode_domain (p_encode_domain (lit ''a.b'') @ [7]) 0 10 = Some (Some (lit ''a.b'', 5))"
  using dns_domain_roundtrip [OF ex_labels, of 10 "[]" "[7]"] by (simp add: p_encode_domain_length)

text \<open>
  The answer to an address query.  For any number of compact addresses from one to eight, p_reply_msg fills one answer with each address, in order, and the encoded
  response is 18 + m + n (m + 12 + a) bytes long, with m the length of the name, n the number and a the size of the addresses.  With eight
  addresses and IPv4 that is more than the buffer of 1460 bytes exactly for names of more than 146 bytes.
\<close>

theorem dns_reply_exact:
  assumes "qType (question msg) \<noteq> SRV_Resource_RecordType" and "length nodes = n * IP_SIZE_META_PAIR v" and "0 < n" and "n \<le> 8"
    and "name_at names (qName (question msg)) = Some nm"
  shows "\<exists>msg' x. p_reply_msg v names msg nodes = Some msg' \<and> p_encode_response names msg' = Some x \<and>
    length x = 18 + length nm + n * (length nm + 12 + IP_SIZE v) \<and> unat (anCount msg') = n \<and>
    (\<forall>i < n. rr_data (answer msg' ! i) = X_record (take (IP_SIZE v) (drop (i * IP_SIZE_META_PAIR v) nodes))) \<and>
    (v = IPV4 \<and> n = 8 \<longrightarrow> (UDP_BUF < length x \<longleftrightarrow> 146 < length nm))"
  using reply_addr [OF assms] by fastforce

theorem dns_reply_exact_witness:
  "\<exists>msg' x. p_reply_msg IPV4 [Frame 0 \<mapsto> [97, 0]] ex_msg [192, 0, 2, 1, 26, 225] = Some msg' \<and>
     p_encode_response [Frame 0 \<mapsto> [97, 0]] msg' = Some x \<and> length x = 36 \<and> rr_data (answer msg' ! 0) = X_record [192, 0, 2, 1]"
proof -
  have "name_at [Frame 0 \<mapsto> [97, 0]] (qName (question ex_msg)) = Some [97]" by (simp add: name_at_def ex_msg_def cstr_def)
  from dns_reply_exact [of ex_msg "[192, 0, 2, 1, 26, 225]" 1 IPV4, OF _ _ _ _ this] show ?thesis
    by (auto simp: ex_msg_def IP_SIZE_META_PAIR_def)
qed

end
