(* ===== verification/Lookup.thy ===== *)
theory Lookup
  imports Hash Strings Inet Dns
begin

text \<open>
  The state of one iterative search, \<^verbatim>\<open>src/src/p2p/lookup.c\<close>: the nodes that have been asked, sorted by their
  distance to the target, and who wants to know.  A node object is shared between the list and the hash table and lives in
  the memory \<open>lk_mem\<close>; the list, from which nothing is ever deleted, is the sequence of its payloads.
\<close>

section \<open>State and operations\<close>

abbreviation (input) TOKEN_SIZE_MAX :: nat where "TOKEN_SIZE_MAX \<equiv> 20"

record NODE_L =
  nl_id :: bytes
  nl_addr :: IP
  nl_token :: bytes

record LOOKUP =
  lk_target :: bytes
  lk_list :: "ptr list"
  lk_hash :: "ptr HASH"
  lk_mem :: "ptr \<rightharpoonup> NODE_L"
  lk_brk :: ptr
  lk_caller :: "(IP \<times> DNS_MSG) option"
  lk_responses :: int

text \<open>
  \<open>lk_caller\<close> holds the fields \<open>c_addr\<close> and \<open>msg\<close>, which have a meaning only when \<open>send_response_to_initiator\<close> is set: it is \<open>Some\<close> exactly
  then.  The copy of the message keeps its \<open>qName\<close> pointer, so it still points into the original.
\<close>

definition ldb_init :: "bytes \<Rightarrow> (IP \<times> DNS_MSG) option \<Rightarrow> LOOKUP" where
  "ldb_init target caller =
     \<lparr>lk_target = take SHA1_SIZE target, lk_list = [], lk_hash = hash_init 1000, lk_mem = Map.empty, lk_brk = 0,
      lk_caller = caller, lk_responses = 0\<rparr>"

fun ldb_pos :: "(ptr \<rightharpoonup> NODE_L) \<Rightarrow> bytes \<Rightarrow> bytes \<Rightarrow> ptr list \<Rightarrow> nat option" where
  "ldb_pos mem target node_id [] = Some 0"
| "ldb_pos mem target node_id (p # ps) = do {
     n \<leftarrow> mem p;
     if str_sha1_compare node_id (nl_id n) target < 0 then Some 0
     else map_option Suc (ldb_pos mem target node_id ps)
   }"

definition ldb_put :: "LOOKUP \<Rightarrow> bytes \<Rightarrow> IP \<Rightarrow> (LOOKUP \<times> nat) option" where
  "ldb_put l node_id from =
     (if 32767 \<le> length (lk_list l) then Some (l, 32767)
      else do {
        let new = \<lparr>nl_id = take SHA1_SIZE node_id, nl_addr = from, nl_token = []\<rparr>;
        let p = lk_brk l;
        index \<leftarrow> ldb_pos (lk_mem l) (lk_target l) node_id (lk_list l);
        Some (l\<lparr>lk_list := take index (lk_list l) @ p # drop index (lk_list l),
          lk_hash := fst (hash_put (lk_hash l) (nl_id new) (Some p)),
          lk_mem := (lk_mem l)(p \<mapsto> new), lk_brk := Suc p\<rparr>, index)
      })"

definition ldb_find :: "LOOKUP \<Rightarrow> bytes \<Rightarrow> ptr option" where
  "ldb_find l node_id = hash_get (lk_hash l) (take SHA1_SIZE node_id)"

text \<open>The token is copied into an array of \<open>TOKEN_SIZE_MAX\<close> bytes.\<close>

definition ldb_update :: "LOOKUP \<Rightarrow> bytes \<Rightarrow> bytes \<Rightarrow> IP \<Rightarrow> LOOKUP option" where
  "ldb_update l node_id token from =
     (case hash_get (lk_hash l) (take SHA1_SIZE node_id) of None \<Rightarrow> Some l
      | Some p \<Rightarrow> do {
          n \<leftarrow> lk_mem l p;
          if TOKEN_SIZE_MAX < length token then None
          else Some (l\<lparr>lk_mem := (lk_mem l)(p \<mapsto> n\<lparr>nl_addr := from, nl_token := token\<rparr>)\<rparr>)
        })"

text \<open>The counter is an \<open>int\<close>; counting beyond its largest value is undefined.\<close>

definition ldb_number_of_dns_responses :: "LOOKUP \<Rightarrow> (LOOKUP \<times> int) option" where
  "ldb_number_of_dns_responses l =
     (if lk_responses l = INT_MAX then None else Some (l\<lparr>lk_responses := lk_responses l + 1\<rparr>, lk_responses l))"

section \<open>Invariant\<close>

definition lobjs :: "(ptr \<rightharpoonup> NODE_L) \<Rightarrow> ptr list \<Rightarrow> (ptr \<times> NODE_L) list" where
  "lobjs M ps = map (\<lambda>p. (p, the (M p))) ps"

definition node_l_ok :: "ipver \<Rightarrow> NODE_L \<Rightarrow> bool" where
  "node_l_ok v n \<longleftrightarrow> length (nl_id n) = SHA1_SIZE \<and> length (nl_token n) \<le> TOKEN_SIZE_MAX \<and> ip_ok v (nl_addr n)"

definition ldb_dist :: "LOOKUP \<Rightarrow> ptr \<Rightarrow> nat" where
  "ldb_dist l p = xor_dist (lk_target l) (nl_id (the (lk_mem l p)))"

definition ldb_ok :: "ipver \<Rightarrow> LOOKUP \<Rightarrow> bool" where
  "ldb_ok v l \<longleftrightarrow> length (lk_target l) = SHA1_SIZE \<and> length (lk_list l) \<le> 32767 \<and>
     distinct (lk_list l) \<and> dom (lk_mem l) = set (lk_list l) \<and> (\<forall>p \<in> set (lk_list l). p < lk_brk l) \<and>
     (\<forall>n \<in> ran (lk_mem l). node_l_ok v n) \<and>
     sorted (map (ldb_dist l) (lk_list l)) \<and>
     hash_ok (lk_hash l) \<and> sound (hash_get (lk_hash l)) nl_id (lobjs (lk_mem l) (lk_list l)) \<and>
     (\<forall>n \<in> ran (lk_mem l). hash_get (lk_hash l) (nl_id n) \<noteq> None)"

lemma ldb_okD:
  assumes "ldb_ok v l"
  shows "length (lk_target l) = SHA1_SIZE" "length (lk_list l) \<le> 32767" "distinct (lk_list l)" "dom (lk_mem l) = set (lk_list l)"
    "\<forall>p \<in> set (lk_list l). p < lk_brk l" "\<forall>n \<in> ran (lk_mem l). node_l_ok v n" "sorted (map (ldb_dist l) (lk_list l))"
    "hash_ok (lk_hash l)" "sound (hash_get (lk_hash l)) nl_id (lobjs (lk_mem l) (lk_list l))"
    "\<forall>n \<in> ran (lk_mem l). hash_get (lk_hash l) (nl_id n) \<noteq> None"
  using assms unfolding ldb_ok_def by blast+

lemma lobjs_simps [simp]:
  "lobjs M [] = []" "lobjs M (p # ps) = (p, the (M p)) # lobjs M ps" "lobjs M (ps @ qs) = lobjs M ps @ lobjs M qs"
  "length (lobjs M ps) = length ps"
  by (simp_all add: lobjs_def)

lemma lobjs_frame: "p \<notin> set ps \<Longrightarrow> lobjs (M(p := z)) ps = lobjs M ps"
  by (auto simp: lobjs_def)

interpretation lh: index "hash_init 1000" hash_get hash_put hash_del hash_ok nl_id
  unfolding index_def by (rule hash_map_laws) simp

lemma ldb_init_ok: "length target = SHA1_SIZE \<Longrightarrow> ldb_ok v (ldb_init target caller)"
  by (simp add: ldb_ok_def ldb_init_def hash_ok_init sound_def hash_get_init)

lemma ldb_pos_exact:
  assumes "length target = SHA1_SIZE" "length node_id = SHA1_SIZE"
  shows "set ps \<subseteq> dom M \<Longrightarrow> \<forall>n \<in> ran M. length (nl_id n) = SHA1_SIZE \<Longrightarrow>
   ldb_pos M target node_id ps =
     Some (length (takeWhile (\<lambda>p. xor_dist target (nl_id (the (M p))) \<le> xor_dist target node_id) ps))"
proof (induction ps)
  case (Cons p ps)
  then obtain n where n: "M p = Some n" by auto
  then have "length (nl_id n) = SHA1_SIZE" using Cons.prems(2) by (auto intro: ranI)
  from sha1_compare_less [OF assms(2) this assms(1)] n Cons show ?case by auto
qed simp

lemma sorted_insert_at:
  fixes f :: "'a \<Rightarrow> nat"
  assumes "sorted (map f xs)"
  shows "sorted (map f (takeWhile (\<lambda>y. f y \<le> f x) xs @ x # dropWhile (\<lambda>y. f y \<le> f x) xs))"
  using assms by (induction xs) (auto simp: order_trans dest: order.strict_implies_order set_takeWhileD set_dropWhileD)

lemma takeWhile_filter_sorted:
  fixes f :: "'a \<Rightarrow> nat"
  shows "sorted (map f xs) \<Longrightarrow> takeWhile (\<lambda>y. f y \<le> k) xs = filter (\<lambda>y. f y \<le> k) xs"
proof (induction xs)
  case (Cons x xs)
  then have "\<not> f x \<le> k \<Longrightarrow> filter (\<lambda>y. f y \<le> k) xs = []" by (force simp: filter_empty_conv)
  with Cons show ?case by auto
qed simp

lemma ldb_put_ok:
  assumes ok: "ldb_ok v l" and i: "length node_id = SHA1_SIZE" and f: "ip_ok v from" and room: "length (lk_list l) < 32767"
  shows "\<exists>l' k. ldb_put l node_id from = Some (l', k) \<and> ldb_ok v l' \<and> lk_target l' = lk_target l \<and> lk_caller l' = lk_caller l \<and>
    lk_responses l' = lk_responses l \<and>
    k = length (filter (\<lambda>p. ldb_dist l p \<le> xor_dist (lk_target l) node_id) (lk_list l)) \<and>
    lk_list l' = take k (lk_list l) @ lk_brk l # drop k (lk_list l) \<and>
    lk_mem l' = (lk_mem l)(lk_brk l \<mapsto> \<lparr>nl_id = node_id, nl_addr = from, nl_token = []\<rparr>) \<and>
    hash_get (lk_hash l') = (hash_get (lk_hash l))(node_id \<mapsto> lk_brk l)"
proof -
  note D = ldb_okD [OF ok]
  let ?p = "lk_brk l" and ?new = "\<lparr>nl_id = node_id, nl_addr = from, nl_token = []\<rparr>" and ?d = "xor_dist (lk_target l) node_id"
  let ?M = "(lk_mem l)(?p \<mapsto> ?new)" and ?h = "fst (hash_put (lk_hash l) node_id (Some ?p))"
  define k where "k = length (takeWhile (\<lambda>p. ldb_dist l p \<le> ?d) (lk_list l))"
  have pos: "ldb_pos (lk_mem l) (lk_target l) node_id (lk_list l) = Some k"
    using ldb_pos_exact [OF D(1) i, of "lk_list l" "lk_mem l"] D(4,6) by (auto simp: k_def ldb_dist_def node_l_ok_def)
  have tk: "take k (lk_list l) = takeWhile (\<lambda>p. ldb_dist l p \<le> ?d) (lk_list l)" "drop k (lk_list l) = dropWhile (\<lambda>p. ldb_dist l p \<le> ?d) (lk_list l)"
    unfolding k_def by (metis takeWhile_eq_take) (metis dropWhile_eq_drop)
  let ?ps = "take k (lk_list l) @ ?p # drop k (lk_list l)"
  let ?l = "l\<lparr>lk_list := ?ps, lk_hash := ?h, lk_mem := ?M, lk_brk := Suc ?p\<rparr>"
  have new: "?p \<notin> set (lk_list l)" using D(5) by auto
  then have nt: "?p \<notin> set (take k (lk_list l))" "?p \<notin> set (drop k (lk_list l))" by (auto dest: in_set_takeD in_set_dropD)
  have st: "set ?ps = insert ?p (set (lk_list l))" by (metis append_take_drop_id list.simps(15) set_append Un_insert_right)
  have hg: "hash_get ?h = (hash_get (lk_hash l))(node_id \<mapsto> ?p)"
    by (rule lh.index_put_ok [OF D(8,9)]) (use D(2) in simp)
  have dist: "ldb_dist ?l = (\<lambda>p. if p = ?p then ?d else ldb_dist l p)" by (auto simp: ldb_dist_def)
  have "map (ldb_dist ?l) (lk_list l) = map (ldb_dist l) (lk_list l)" using new by (auto simp: dist)
  then have "sorted (map (ldb_dist ?l) (lk_list l))" using D(7) by (simp only:)
  moreover have "takeWhile (\<lambda>y. ldb_dist ?l y \<le> ldb_dist ?l ?p) (lk_list l) = take k (lk_list l)"
    "dropWhile (\<lambda>y. ldb_dist ?l y \<le> ldb_dist ?l ?p) (lk_list l) = drop k (lk_list l)"
    unfolding dist unfolding tk using new by (auto intro!: takeWhile_cong dropWhile_cong)
  ultimately have so: "sorted (map (ldb_dist ?l) ?ps)" using sorted_insert_at [of "ldb_dist ?l" "lk_list l" ?p] by simp
  have ob: "lobjs ?M ?ps = lobjs (lk_mem l) (take k (lk_list l)) @ (?p, ?new) # lobjs (lk_mem l) (drop k (lk_list l))"
    by (simp add: lobjs_frame [OF nt(1)] lobjs_frame [OF nt(2)])
  have "set (lobjs ?M ?ps) = insert (?p, ?new) (set (lobjs (lk_mem l) (lk_list l)))"
    unfolding ob by (subst (3) append_take_drop_id [of k "lk_list l", symmetric]) (simp only: lobjs_simps, auto)
  then have so2: "sound (hash_get ?h) nl_id (lobjs ?M ?ps)"
    using lh.sound_put [OF D(8,9), of "lobjs ?M ?ps" ?p ?new] D(2) by simp
  have rn: "ran ?M \<subseteq> insert ?new (ran (lk_mem l))" by (auto simp: ran_def)
  have "distinct ?ps" using D(3) new by (simp add: distinct_append [symmetric] flip: append_take_drop_id) (metis D(3) append_take_drop_id distinct_append disjoint_insert(1) insert_disjoint(1) nt)
  then have "ldb_ok v ?l"
    unfolding ldb_ok_def using D room so so2 st rn f i hm1000.hinv_put [OF D(8)] hg
    by (auto simp: node_l_ok_def less_SucI)
  moreover have "ldb_put l node_id from = Some (?l, k)"
    using room pos i by (simp add: ldb_put_def Let_def)
  moreover have "k = length (filter (\<lambda>p. ldb_dist l p \<le> ?d) (lk_list l))"
    using takeWhile_filter_sorted [OF D(7)] by (simp add: k_def)
  ultimately show ?thesis using hg by simp
qed

lemma ldb_put_total:
  assumes "ldb_ok v l" and "length node_id = SHA1_SIZE" and "ip_ok v from"
  shows "\<exists>l' k. ldb_put l node_id from = Some (l', k) \<and> ldb_ok v l' \<and> lk_target l' = lk_target l \<and> lk_caller l' = lk_caller l \<and>
    lk_responses l' = lk_responses l"
proof (cases "length (lk_list l) < 32767")
  case True
  from ldb_put_ok [OF assms True] show ?thesis by blast
next
  case False
  with assms(1) show ?thesis by (simp add: ldb_put_def)
qed

lemma ldb_update_ok:
  assumes ok: "ldb_ok v l" and i: "length node_id = SHA1_SIZE" and f: "ip_ok v from" and t: "length token \<le> TOKEN_SIZE_MAX"
  shows "\<exists>M. ldb_update l node_id token from = Some (l\<lparr>lk_mem := M\<rparr>) \<and> ldb_ok v (l\<lparr>lk_mem := M\<rparr>) \<and>
    M = (case ldb_find l node_id of None \<Rightarrow> lk_mem l
         | Some p \<Rightarrow> (lk_mem l)(p \<mapsto> \<lparr>nl_id = node_id, nl_addr = from, nl_token = token\<rparr>))"
proof (cases "hash_get (lk_hash l) node_id")
  case None
  with assms show ?thesis by (simp add: ldb_update_def ldb_find_def)
next
  case (Some p)
  note D = ldb_okD [OF ok]
  have p: "p \<in> set (lk_list l)" and id': "nl_id (the (lk_mem l p)) = node_id"
    using soundD [OF D(9) Some] by (auto simp: lobjs_def)
  then obtain n where n: "lk_mem l p = Some n" using D(4) by blast
  with id' have id: "nl_id n = node_id" by simp
  let ?new = "n\<lparr>nl_addr := from, nl_token := token\<rparr>" and ?M = "(lk_mem l)(p \<mapsto> n\<lparr>nl_addr := from, nl_token := token\<rparr>)"
  let ?l = "l\<lparr>lk_mem := ?M\<rparr>"
  have key: "nl_id (the (?M q)) = nl_id (the (lk_mem l q))" for q using n by simp
  have rn: "ran ?M \<subseteq> insert ?new (ran (lk_mem l))" by (auto simp: ran_def)
  have new: "?new = \<lparr>nl_id = node_id, nl_addr = from, nl_token = token\<rparr>" using id by (cases n) simp
  have "ldb_dist ?l = ldb_dist l" by (rule ext) (simp add: ldb_dist_def n)
  moreover have "sound (hash_get (lk_hash l)) nl_id (lobjs ?M (lk_list l))"
    using D(9) key unfolding sound_def lobjs_def by fastforce
  moreover have "\<forall>n \<in> ran ?M. node_l_ok v n" using rn D(6) i f t unfolding new by (auto simp: node_l_ok_def)
  moreover have "\<forall>n \<in> ran ?M. hash_get (lk_hash l) (nl_id n) \<noteq> None" using rn D(10) Some id by auto
  moreover have "dom ?M = set (lk_list l)" using D(4) p by auto
  ultimately have "ldb_ok v ?l" unfolding ldb_ok_def using D by simp
  with Some n t i new show ?thesis by (simp add: ldb_update_def ldb_find_def)
qed

section \<open>The order of a search\<close>

text \<open>
  C28: A search keeps every node it hears of once in the order of the distance to its target.  ldb_put returns the number of nodes already known
  that are at least as close as the new one, which is the place where the new one is inserted, so the list stays sorted; the
  node can be found by its id afterwards and nothing else changes.  With 32767 nodes the new one is refused,
  and the answer is 32767.
\<close>

theorem ldb_put_exact:
  assumes "ldb_ok v l" and "length node_id = SHA1_SIZE" and "ip_ok v from"
  shows "\<exists>l' k. ldb_put l node_id from = Some (l', k) \<and> ldb_ok v l' \<and>
    (if length (lk_list l) = 32767 then l' = l \<and> k = 32767
     else k = length (filter (\<lambda>p. ldb_dist l p \<le> xor_dist (lk_target l) node_id) (lk_list l)) \<and>
       lk_list l' = take k (lk_list l) @ lk_brk l # drop k (lk_list l) \<and>
       lk_mem l' (lk_brk l) = Some \<lparr>nl_id = node_id, nl_addr = from, nl_token = []\<rparr> \<and>
       ldb_find l' node_id = Some (lk_brk l) \<and>
       (\<forall>p \<in> set (lk_list l). lk_mem l' p = lk_mem l p))"
proof (cases "length (lk_list l) = 32767")
  case True
  with assms(1) show ?thesis by (simp add: ldb_put_def)
next
  case False
  note D = ldb_okD [OF assms(1)]
  have "lk_brk l \<notin> set (lk_list l)" using D(5) by auto
  moreover have "length (lk_list l) < 32767" using False D(2) by simp
  note ldb_put_ok [OF assms this]
  ultimately show ?thesis using False assms(2) by (auto simp: ldb_find_def)
qed

theorem ldb_put_exact_witness:
  "\<exists>l1 l2. ldb_put (ldb_init (replicate 20 0) None) (5 # replicate 19 0) ex_ip = Some (l1, 0) \<and>
     ldb_put l1 (7 # replicate 19 0) ex_ip = Some (l2, 1)"
proof -
  let ?l = "ldb_init (replicate 20 0) None"
  have e: "lk_list ?l = []" "lk_target ?l = replicate 20 0" "lk_brk ?l = 0" by (simp_all add: ldb_init_def)
  from ldb_put_exact [of IPV4 ?l "5 # replicate 19 0" ex_ip]
  obtain l1 where l1: "ldb_put ?l (5 # replicate 19 0) ex_ip = Some (l1, 0)" "ldb_ok IPV4 l1" "lk_list l1 = [0]"
    "lk_mem l1 0 = Some \<lparr>nl_id = 5 # replicate 19 0, nl_addr = ex_ip, nl_token = []\<rparr>"
    by (auto simp: ldb_init_ok ex_ip_ok e)
  have "lk_target l1 = lk_target ?l" using l1(1) by (auto simp: ldb_put_def Let_def e bind_eq_Some_conv)
  moreover have r: "replicate 20 (0 :: UCHAR) = 0 # replicate 19 0" using replicate_Suc [of 19 "0 :: UCHAR"] by simp
  have "be (map2 (XOR) (5 # replicate 19 0) (replicate 20 0)) \<le> be (map2 (XOR) (7 # replicate 19 0) (replicate 20 0))"
    unfolding r by simp
  ultimately have "ldb_dist l1 0 \<le> xor_dist (lk_target l1) (7 # replicate 19 0)"
    by (simp add: ldb_dist_def l1(4) e xor_dist_def)
  with ldb_put_exact [of IPV4 l1 "7 # replicate 19 0" ex_ip] l1 show ?thesis
    by (auto simp: ex_ip_ok)
qed

end
