(* ===== verification/Transaction.thy ===== *)
theory Transaction
  imports Lookup Times
begin

text \<open>
  The outstanding requests, \<^verbatim>\<open>src/src/p2p/transaction.c\<close>.  A \<open>TID\<close> owns the search that is linked to it: no other object
  points to that \<open>LOOKUP\<close>, so it is part of the record and freed with it.  \<open>tdb_expire\<close>, which announces when a search
  is over, is in the theory \<open>Cron\<close>.
\<close>

section \<open>State and operations\<close>

abbreviation (input) P2P_TYPE_UNKNOWN :: nat where "P2P_TYPE_UNKNOWN \<equiv> 0"
abbreviation (input) P2P_PING :: nat where "P2P_PING \<equiv> 1"
abbreviation (input) P2P_PING_MULTICAST :: nat where "P2P_PING_MULTICAST \<equiv> 2"
abbreviation (input) P2P_FIND_NODE :: nat where "P2P_FIND_NODE \<equiv> 3"
abbreviation (input) P2P_GET_PEERS :: nat where "P2P_GET_PEERS \<equiv> 4"
abbreviation (input) P2P_ANNOUNCE_START :: nat where "P2P_ANNOUNCE_START \<equiv> 5"
abbreviation (input) P2P_ANNOUNCE_ENGAGE :: nat where "P2P_ANNOUNCE_ENGAGE \<equiv> 6"

record TID =
  t_id :: bytes
  t_time :: time_t
  t_type :: nat
  t_lookup :: "LOOKUP option"

record TDB =
  td_list :: "TID LIST"
  td_hash :: "ptr HASH"

definition tdb_init :: TDB where
  "tdb_init = \<lparr>td_list = list_init, td_hash = hash_init 1000\<rparr>"

definition tdb_create_random_id :: "TDB \<Rightarrow> rng \<Rightarrow> bytes \<times> rng" where
  "tdb_create_random_id T g = create_loop TID_SIZE (td_hash T) 999 g"

definition tdb_put :: "TDB \<Rightarrow> nat \<Rightarrow> time_t \<Rightarrow> rng \<Rightarrow> (TDB \<times> ptr option \<times> rng) option" where
  "tdb_put T type now g = do {
     let (i, g') = tdb_create_random_id T g;
     let tid = \<lparr>t_id = i, t_time = time_add_1_min now, t_type = type, t_lookup = None\<rparr>;
     (L, item) \<leftarrow> list_put (td_list T) tid;
     let (h, _) = hash_put (td_hash T) (t_id tid) item;
     Some (\<lparr>td_list = L, td_hash = h\<rparr>, item, g')
   }"

text \<open>\<open>tid->...\<close> for the payload of an item: following a null item or one that was freed is not defined.\<close>

definition tid_at :: "TDB \<Rightarrow> ptr option \<Rightarrow> TID option" where
  "tid_at T i = do { v \<leftarrow> list_value (td_list T) i; v }"

definition tdb_type :: "TDB \<Rightarrow> ptr option \<Rightarrow> nat option" where
  "tdb_type T i = (case i of None \<Rightarrow> Some P2P_TYPE_UNKNOWN | Some p \<Rightarrow> map_option t_type (tid_at T i))"

definition tdb_ldb :: "TDB \<Rightarrow> ptr option \<Rightarrow> LOOKUP option option" where
  "tdb_ldb T i = map_option t_lookup (tid_at T i)"

definition tdb_tid :: "TDB \<Rightarrow> ptr option \<Rightarrow> bytes option" where
  "tdb_tid T i = map_option t_id (tid_at T i)"

definition tdb_item :: "TDB \<Rightarrow> bytes \<Rightarrow> ptr option" where
  "tdb_item T i = hash_get (td_hash T) i"

definition tdb_link_ldb :: "TDB \<Rightarrow> ptr option \<Rightarrow> LOOKUP option \<Rightarrow> TDB option" where
  "tdb_link_ldb T i l = do {
     tid \<leftarrow> tid_at T i;
     p \<leftarrow> i;
     L \<leftarrow> set_val (td_list T) p (tid\<lparr>t_lookup := l\<rparr>);
     Some (T\<lparr>td_list := L\<rparr>)
   }"

definition tdb_del :: "TDB \<Rightarrow> ptr option \<Rightarrow> TDB option" where
  "tdb_del T i =
     (case i of None \<Rightarrow> Some T
      | Some p \<Rightarrow> do {
          tid \<leftarrow> tid_at T i;
          let h = hash_del (td_hash T) (t_id tid);
          (L, _) \<leftarrow> list_del (td_list T) i;
          Some \<lparr>td_list = L, td_hash = h\<rparr>
        })"

partial_function (option) tdb_clean :: "TDB \<Rightarrow> TDB option" where
  "tdb_clean T =
     (case l_item (td_list T) of None \<Rightarrow> Some T
      | Some p \<Rightarrow> (case tdb_del T (Some p) of None \<Rightarrow> None | Some T' \<Rightarrow> tdb_clean T'))"

definition tdb_free :: "TDB \<Rightarrow> (TID LIST \<times> TID list) option" where
  "tdb_free T = do {
     T' \<leftarrow> tdb_clean T;
     (L, freed) \<leftarrow> list_clear (td_list T');
     L' \<leftarrow> list_free L;
     Some (L', freed)
   }"

section \<open>Invariant and laws\<close>

definition tids :: "TDB \<Rightarrow> (ptr \<times> TID) list \<Rightarrow> bool" where
  "tids T xs \<longleftrightarrow> dlc (td_list T) xs \<and> hash_ok (td_hash T) \<and> sound (hash_get (td_hash T)) t_id xs"

interpretation tdh: index "hash_init 1000" hash_get hash_put hash_del hash_ok t_id
  unfolding index_def by (rule hash_map_laws) simp

definition new_tid :: "TDB \<Rightarrow> nat \<Rightarrow> time_t \<Rightarrow> rng \<Rightarrow> TID" where
  "new_tid T type now g = \<lparr>t_id = fst (tdb_create_random_id T g), t_time = now + 60, t_type = type, t_lookup = None\<rparr>"

lemma tids_init: "tids tdb_init []"
  by (simp add: tids_def tdb_init_def list_init_dlc hash_ok_init sound_def hash_get_init)

lemma tdb_put_tids:
  assumes "tids T xs" and "int (length xs) < LONG_MAX"
  shows "\<exists>T' p. tdb_put T type now g = Some (T', Some p, snd (tdb_create_random_id T g)) \<and>
    tids T' (xs @ [(p, new_tid T type now g)]) \<and> p = l_brk (td_list T) \<and>
    hash_get (td_hash T') = (hash_get (td_hash T))(t_id (new_tid T type now g) \<mapsto> p)"
proof -
  let ?t = "new_tid T type now g" and ?p = "l_brk (td_list T)"
  from assms(1) have d: "dlc (td_list T) xs" and h: "hash_ok (td_hash T)"
    and s: "sound (hash_get (td_hash T)) t_id xs" by (simp_all add: tids_def)
  from list_put_dlc [OF d assms(2), of ?t] obtain L' where
    L: "list_put (td_list T) ?t = Some (L', Some ?p)" "dlc L' (xs @ [(?p, ?t)])" by blast
  let ?h = "fst (hash_put (td_hash T) (t_id ?t) (Some ?p))"
  have "sound (hash_get ?h) t_id (xs @ [(?p, ?t)])"
    using tdh.sound_put [OF h s assms(2), of _ ?p ?t] by simp
  moreover have "hash_get ?h = (hash_get (td_hash T))(t_id ?t \<mapsto> ?p)"
    by (rule tdh.index_put_ok [OF h s assms(2)])
  ultimately show ?thesis
    using L hm1000.hinv_put [OF h]
    by (simp add: tdb_put_def time_add_1_min_def tids_def case_prod_beta new_tid_def)
qed

lemma tid_at_tids: "tids T (xs @ (p, t) # ys) \<Longrightarrow> tid_at T (Some p) = Some t"
  using list_value_dl [of "td_list T" xs p t ys] by (simp add: tid_at_def tids_def)

lemma tid_access:
  assumes "tids T (xs @ (p, t) # ys)"
  shows "tdb_type T (Some p) = Some (t_type t)" "tdb_ldb T (Some p) = Some (t_lookup t)" "tdb_tid T (Some p) = Some (t_id t)"
  using tid_at_tids [OF assms] by (simp_all add: tdb_type_def tdb_ldb_def tdb_tid_def)

lemma tdb_item_tids:
  assumes "tids T xs" and "tdb_item T i = Some p"
  obtains ys t zs where "xs = ys @ (p, t) # zs" and "t_id t = i"
proof -
  from assms obtain t where t: "(p, t) \<in> set xs" "t_id t = i" unfolding tids_def tdb_item_def using soundD by metis
  from split_list [OF t(1)] t(2) that show thesis by blast
qed

lemma sound_same_key:
  assumes "sound m key (xs @ (p, v) # ys)" and "key w = key v"
  shows "sound m key (xs @ (p, w) # ys)"
  using assms unfolding sound_def by fastforce

lemma tdb_link_tids:
  assumes "tids T (xs @ (p, t) # ys)"
  shows "\<exists>T'. tdb_link_ldb T (Some p) l = Some T' \<and> tids T' (xs @ (p, t\<lparr>t_lookup := l\<rparr>) # ys) \<and> td_hash T' = td_hash T"
proof -
  from assms have d: "dlc (td_list T) (xs @ (p, t) # ys)" and s: "sound (hash_get (td_hash T)) t_id (xs @ (p, t) # ys)"
    by (simp_all add: tids_def)
  from set_val_dlc [OF d, of "t\<lparr>t_lookup := l\<rparr>"] obtain L where
    "set_val (td_list T) p (t\<lparr>t_lookup := l\<rparr>) = Some L" "dlc L (xs @ (p, t\<lparr>t_lookup := l\<rparr>) # ys)" by blast
  moreover have "sound (hash_get (td_hash T)) t_id (xs @ (p, t\<lparr>t_lookup := l\<rparr>) # ys)"
    by (rule sound_same_key [OF s]) simp
  ultimately show ?thesis using tid_at_tids [OF assms] assms by (simp add: tdb_link_ldb_def tids_def)
qed

lemma tdb_del_tids:
  assumes "tids T (xs @ (p, t) # ys)"
  shows "\<exists>T'. tdb_del T (Some p) = Some T' \<and> tids T' (xs @ ys) \<and>
    hash_get (td_hash T') = (hash_get (td_hash T))(t_id t := None)"
proof -
  from assms have d: "dlc (td_list T) (xs @ (p, t) # ys)" and h: "hash_ok (td_hash T)"
    and s: "sound (hash_get (td_hash T)) t_id (xs @ (p, t) # ys)" by (simp_all add: tids_def)
  from list_del_dlc [OF d] obtain L' where
    "list_del (td_list T) (Some p) = Some (L', first (xs @ ys) None)" "dlc L' (xs @ ys)" by auto
  with tid_at_tids [OF assms] tdh.sound_del [OF h s] hm1000.hinv_del [OF h] hm1000.hget_del [OF h] show ?thesis
    by (simp add: tdb_del_def tids_def)
qed

lemma tdb_clean_tids: "tids T xs \<Longrightarrow> \<exists>T'. tdb_clean T = Some T' \<and> tids T' []"
proof (induction xs arbitrary: T)
  case Nil
  then have "l_item (td_list T) = None" by (simp add: tids_def dlc_def)
  with Nil show ?case by (simp add: tdb_clean.simps)
next
  case (Cons x xs)
  obtain p t where x: "x = (p, t)" by (cases x)
  have "l_item (td_list T) = Some p" using Cons.prems by (simp add: tids_def dlc_def x)
  moreover from tdb_del_tids [of T "[]" p t xs] Cons.prems obtain T1 where
    "tdb_del T (Some p) = Some T1" "tids T1 xs" by (auto simp: x)
  ultimately show ?case using Cons.IH [of T1] by (subst tdb_clean.simps) simp
qed

lemma tdb_free_all:
  assumes "tids T xs"
  shows "\<exists>L. tdb_free T = Some (L, []) \<and> l_mem L = Map.empty"
proof -
  from tdb_clean_tids [OF assms] obtain T' where T': "tdb_clean T = Some T'" "dl (td_list T') []"
    by (auto simp: tids_def)
  from list_clear_dl [OF T'(2)] list_free_dlc T'(1) show ?thesis by (fastforce simp: tdb_free_def)
qed

end
