(* ===== verification/State.thy ===== *)
theory State
  imports Neighbourhood Value_Db Cache_Db Token Transaction Bencode
begin

text \<open>
  The state of the program: \<open>struct obj_main\<close> of \<^verbatim>\<open>src/src/p2p/torrentkino.h\<close> with the databases it points to, the configuration of
  \<^verbatim>\<open>src/src/p2p/conf.h\<close>, the deadlines of \<^verbatim>\<open>src/src/p2p/p2p.h\<close> and the host names of \<^verbatim>\<open>src/src/p2p/identity.h\<close>.  What the
  program sends is collected in \<open>s_out\<close> and \<open>s_dns_out\<close>, and the random numbers it will draw are in \<open>s_rng\<close>.

  \<open>WORLD\<close> holds what is fixed when the program is built and the code outside the sources it calls: the SHA and AES functions of
  PolarSSL, the name service and the multicast socket option.
\<close>

record WORLD =
  w_ver :: ipver
  w_polarssl :: bool
  w_sha1 :: "bytes \<Rightarrow> bytes"
  w_sha2 :: "bytes \<Rightarrow> bytes"
  w_setkey :: "bytes \<Rightarrow> bool"
  w_encrypt :: "bytes \<Rightarrow> bytes \<Rightarrow> bytes \<Rightarrow> bytes option"
  w_decrypt :: "bytes \<Rightarrow> bytes \<Rightarrow> bytes \<Rightarrow> bytes option"
  w_getaddrinfo :: "bytes \<Rightarrow> bytes \<Rightarrow> IP list option"
  w_join :: "time_t \<Rightarrow> bool"
  w_verbose :: bool

record CONF =
  c_realm :: bytes
  c_bootstrap_node :: bytes
  c_bootstrap_mode :: int
  c_bootstrap_lazy :: "bytes list"
  c_node_id :: bytes
  c_bool_realm :: bool
  c_p2p_port :: nat
  c_dns_port :: nat
  c_announce_port :: nat
  c_bootstrap_port :: nat
  c_key :: bytes
  c_bool_encryption :: bool

record P2P =
  pt_now :: time_t
  pt_maintainance :: time_t
  pt_multicast :: time_t
  pt_announce_host :: time_t
  pt_restart :: time_t
  pt_expire :: time_t
  pt_cache :: time_t
  pt_split :: time_t
  pt_token :: time_t
  pt_ping :: time_t
  pt_find :: time_t

record ID =
  id_hostname :: bytes
  id_host_id :: bytes
  id_time_announce_host :: time_t

record MAIN =
  s_conf :: CONF
  s_identity :: "ID list"
  s_nbhd :: NBHD
  s_value :: VALUE
  s_tdb :: TDB
  s_token :: obj_token
  s_cache :: CACHE
  s_p2p :: P2P
  s_sockfd :: int
  s_dns_sockfd :: int
  s_multicast :: bool
  s_rumble :: bool
  s_rng :: rng
  s_out :: "(IP \<times> bytes) list"
  s_dns_out :: "(IP \<times> bytes) list"

abbreviation me :: "MAIN \<Rightarrow> bytes" where "me m \<equiv> c_node_id (s_conf m)"
abbreviation clock :: "MAIN \<Rightarrow> time_t" where "clock m \<equiv> pt_now (s_p2p m)"

definition p2p_init :: "time_t \<Rightarrow> P2P" where
  "p2p_init now = \<lparr>pt_now = now, pt_maintainance = 0, pt_multicast = 0, pt_announce_host = 0, pt_restart = 0,
     pt_expire = 0, pt_cache = 0, pt_split = 0, pt_token = 0, pt_ping = 0, pt_find = 0\<rparr>"

text \<open>The calls of the databases with the parts of the state they use.\<close>

definition main_tdb_put :: "MAIN \<Rightarrow> nat \<Rightarrow> (MAIN \<times> ptr option) option" where
  "main_tdb_put m type = do {
     (T, ti, g) \<leftarrow> tdb_put (s_tdb m) type (clock m) (s_rng m);
     Some (m\<lparr>s_tdb := T, s_rng := g\<rparr>, ti)
   }"

definition main_nbhd_put :: "WORLD \<Rightarrow> MAIN \<Rightarrow> bytes \<Rightarrow> IP \<Rightarrow> MAIN option" where
  "main_nbhd_put W m node_id from = do {
     nb \<leftarrow> nbhd_put (w_ver W) (me m) (s_nbhd m) node_id from;
     Some (m\<lparr>s_nbhd := nb\<rparr>)
   }"

end
