(* ===== verification/Aes.thy ===== *)
theory Aes
  imports State
begin

text \<open>
  The encryption layer, \<^verbatim>\<open>src/src/p2p/aes.c\<close>.  SHA-256 and AES-CBC are PolarSSL's and are parameters (\<open>WORLD\<close>); padding, key
  derivation and the bounds are the program's.  A call that would write behind the local message buffer gives
  \<open>None\<close>; a null pointer result is \<open>Some None\<close>.
\<close>

section \<open>Operations\<close>

abbreviation (input) AES_IV_SIZE :: nat where "AES_IV_SIZE \<equiv> 16"
abbreviation (input) AES_KEY_SIZE :: nat where "AES_KEY_SIZE \<equiv> 32"
abbreviation (input) AES_MSG_SIZE :: nat where "AES_MSG_SIZE \<equiv> 1456"
abbreviation (input) AES_BLOCK_SIZE :: nat where "AES_BLOCK_SIZE \<equiv> 16"
abbreviation (input) AES_KEY_ROUNDS :: nat where "AES_KEY_ROUNDS \<equiv> 8"

fun key_rounds :: "WORLD \<Rightarrow> bytes \<Rightarrow> nat \<Rightarrow> bytes \<Rightarrow> bytes" where
  "key_rounds W key 0 digest = digest"
| "key_rounds W key (Suc n) digest = key_rounds W key n (w_sha2 W (digest @ key))"

definition aes_key_setup :: "WORLD \<Rightarrow> bytes \<Rightarrow> bytes \<Rightarrow> bytes" where
  "aes_key_setup W iv key =
     key_rounds W key AES_KEY_ROUNDS (take AES_IV_SIZE iv @ replicate (AES_KEY_SIZE - AES_IV_SIZE) 0)"

definition aes_encrypt :: "WORLD \<Rightarrow> bytes \<Rightarrow> bytes \<Rightarrow> bytes \<Rightarrow> bytes option" where
  "aes_encrypt W plain iv key =
     (let plainlen = length plain in
      if plainlen \<le> 0 \<or> AES_MSG_SIZE < plainlen then None
      else
        let i = plainlen mod AES_BLOCK_SIZE;
            plainlen_padded = (if i = 0 then plainlen else plainlen - i + AES_BLOCK_SIZE) in
        if plainlen_padded \<le> 0 \<or> AES_MSG_SIZE < plainlen_padded then None
        else
          let plain_padded = plain @ replicate (AES_MSG_SIZE - plainlen) 0;
              digest = aes_key_setup W iv key in
          if \<not> w_setkey W digest then None
          else w_encrypt W digest (take AES_IV_SIZE iv) (take plainlen_padded plain_padded))"

definition aes_decrypt :: "WORLD \<Rightarrow> bytes \<Rightarrow> bytes \<Rightarrow> bytes \<Rightarrow> bytes option option" where
  "aes_decrypt W cipher iv key =
     (let cipherlen = length cipher in
      if cipherlen mod AES_BLOCK_SIZE \<noteq> 0 then Some None
      else
        let digest = aes_key_setup W iv key in
        if \<not> w_setkey W digest then Some None
        else if AES_MSG_SIZE < cipherlen then None
        else Some (map_option (\<lambda>plaintext. take cipherlen (plaintext @ replicate AES_MSG_SIZE 0))
          (w_decrypt W digest (take AES_IV_SIZE iv) cipher)))"

section \<open>Round trip\<close>

text \<open>
  What the program relies on: a key of 32 bytes is accepted, decryption of whole blocks undoes encryption under the same key and vector, and
  neither changes the length.
\<close>

definition cbc_inverts :: "WORLD \<Rightarrow> bytes \<Rightarrow> bytes \<Rightarrow> bytes \<Rightarrow> bool" where
  "cbc_inverts W k iv x = (case w_encrypt W k iv x of None \<Rightarrow> False | Some y \<Rightarrow> length y = length x \<and> w_decrypt W k iv y = Some x)"

definition polarssl_laws :: "WORLD \<Rightarrow> bool" where
  "polarssl_laws W \<longleftrightarrow> (\<forall>x. length (w_sha2 W x) = AES_KEY_SIZE) \<and> (\<forall>k. length k = AES_KEY_SIZE \<longrightarrow> w_setkey W k) \<and>
     (\<forall>k iv x. length k = AES_KEY_SIZE \<longrightarrow> length iv = AES_IV_SIZE \<longrightarrow> length x mod AES_BLOCK_SIZE = 0 \<longrightarrow> cbc_inverts W k iv x)"

lemma polarssl_cbc:
  assumes "polarssl_laws W" and "length k = AES_KEY_SIZE" and "length iv = AES_IV_SIZE" and "length x mod AES_BLOCK_SIZE = 0"
  obtains y where "w_encrypt W k iv x = Some y" "length y = length x" "w_decrypt W k iv y = Some x"
proof -
  have "cbc_inverts W k iv x" using assms by (simp add: polarssl_laws_def)
  then show thesis using that by (cases "w_encrypt W k iv x") (simp_all add: cbc_inverts_def)
qed

lemma key_rounds_length: "polarssl_laws W \<Longrightarrow> length d = AES_KEY_SIZE \<Longrightarrow> length (key_rounds W key n d) = AES_KEY_SIZE"
  by (induction n arbitrary: d) (simp_all add: polarssl_laws_def)

lemma aes_key_length: "polarssl_laws W \<Longrightarrow> length iv = AES_IV_SIZE \<Longrightarrow> length (aes_key_setup W iv key) = AES_KEY_SIZE"
  unfolding aes_key_setup_def by (rule key_rounds_length) simp_all

lemma padded_length:
  fixes n :: nat
  assumes "0 < n" and "n \<le> AES_MSG_SIZE"
  obtains k where "(if n mod 16 = 0 then n else n - n mod 16 + 16) = n + k" "k < 16" "(n + k) mod 16 = 0" "0 < n + k" "n + k \<le> AES_MSG_SIZE"
proof (cases "n mod 16 = 0")
  case True
  with assms show thesis by (intro that [of 0]) simp_all
next
  case False
  have m: "n mod 16 < 16" "n = 16 * (n div 16) + n mod 16" by simp_all
  then have n: "n - n mod 16 + 16 = n + (16 - n mod 16)" by linarith
  have e: "n + (16 - n mod 16) = 16 * (n div 16 + 1)" unfolding n [symmetric] minus_mod_eq_mult_div by simp
  have "n \<noteq> 1456" using False by auto
  then have "n div 16 < 91" using assms(2) by (intro less_mult_imp_div_less) simp
  then have "n div 16 + 1 \<le> 91" by simp
  then have "n + (16 - n mod 16) \<le> AES_MSG_SIZE" "(n + (16 - n mod 16)) mod 16 = 0" unfolding e by simp_all
  with n assms(1) False show thesis by (intro that [of "16 - n mod 16"]) simp_all
qed

lemma aes_roundtrip_ok:
  assumes "polarssl_laws W" and "length iv = AES_IV_SIZE" and "0 < length plain" and "length plain \<le> AES_MSG_SIZE"
  shows "\<exists>cipher k. aes_encrypt W plain iv key = Some cipher \<and> k < AES_BLOCK_SIZE \<and> length cipher = length plain + k \<and>
    length cipher mod AES_BLOCK_SIZE = 0 \<and> length cipher \<le> AES_MSG_SIZE \<and>
    aes_decrypt W cipher iv key = Some (Some (plain @ replicate k 0))"
proof -
  obtain k where k: "(if length plain mod 16 = 0 then length plain else length plain - length plain mod 16 + 16) = length plain + k"
      "k < 16" "(length plain + k) mod 16 = 0" "0 < length plain + k" "length plain + k \<le> AES_MSG_SIZE"
    by (rule padded_length [OF assms(3,4)])
  let ?x = "plain @ replicate k 0" and ?d = "aes_key_setup W iv key"
  have x: "take (length plain + k) (plain @ replicate (AES_MSG_SIZE - length plain) 0) = ?x" using k(5) by simp
  have d: "length ?d = AES_KEY_SIZE" by (rule aes_key_length [OF assms(1,2)])
  then have "w_setkey W ?d" using assms(1) by (simp add: polarssl_laws_def)
  note key = this
  have m: "length ?x mod AES_BLOCK_SIZE = 0" using k(3) by simp
  obtain y where y: "w_encrypt W ?d iv ?x = Some y" "length y = length ?x" "w_decrypt W ?d iv y = Some ?x"
    by (rule polarssl_cbc [OF assms(1) d assms(2) m])
  have iv: "take AES_IV_SIZE iv = iv" using assms(2) by simp
  have "aes_encrypt W plain iv key = Some y"
    unfolding aes_encrypt_def Let_def k(1) x iv using assms(3,4) k(4,5) key y(1) by simp
  moreover have "aes_decrypt W y iv key = Some (Some ?x)"
    unfolding aes_decrypt_def Let_def iv y(2) m using key y(3) k(5) by simp
  moreover have "length y = length plain + k" using y(2) by simp
  ultimately show ?thesis using k(2,3,5) by (intro exI [of _ y] exI [of _ k]) simp
qed

lemma aes_decrypt_safe:
  assumes "length cipher \<le> AES_MSG_SIZE"
  shows "\<exists>r. aes_decrypt W cipher iv key = Some r \<and> (\<forall>plain. r = Some plain \<longrightarrow> length plain = length cipher)"
  using assms by (auto simp: aes_decrypt_def Let_def)

end
