(* ===== verification/Send.thy ===== *)
theory Send
  imports Aes
begin

text \<open>
  The messages the program sends, \<^verbatim>\<open>src/src/p2p/send_udp.c\<close>.  Each function builds a dictionary with \<open>ben_dict\<close> in the order of the code,
  encodes it and hands it to the socket, encrypted or not.  A string that is shorter than the size it is sent with is read past its
  end, a dictionary that cannot be built ends the program: both give \<open>None\<close>.
\<close>

section \<open>Building\<close>

text \<open>\<open>ben_init(BEN_STR)\<close> with \<open>ben_str\<close>.\<close>

definition ben_str :: "bytes \<Rightarrow> nat \<Rightarrow> BEN option" where
  "ben_str str len = (if len \<le> length str then Some (BEN_STR (take len str)) else None)"

text \<open>A sequence of \<open>ben_dict\<close> calls with literal keys on a new dictionary.\<close>

fun dict_add :: "BEN \<Rightarrow> (string \<times> BEN option) list \<Rightarrow> BEN option" where
  "dict_add dict [] = Some dict"
| "dict_add dict ((key, val) # kvs) =
     (case ben_dict (Some dict) (ben_str (lit key) (length key)) val of Inl _ \<Rightarrow> None | Inr dict' \<Rightarrow> dict_add dict' kvs)"

abbreviation new_dict :: "(string \<times> BEN option) list \<Rightarrow> BEN option" where
  "new_dict kvs \<equiv> dict_add (BEN_DICT []) kvs"

abbreviation lit_str :: "string \<Rightarrow> BEN option" where
  "lit_str s \<equiv> ben_str (lit s) (length s)"

section \<open>Sending\<close>

definition send_udp :: "MAIN \<Rightarrow> IP \<Rightarrow> bytes \<Rightarrow> MAIN" where
  "send_udp m sa raw = (if s_sockfd m < 0 then m else m\<lparr>s_out := s_out m @ [(sa, raw)]\<rparr>)"

definition send_aes :: "WORLD \<Rightarrow> MAIN \<Rightarrow> IP \<Rightarrow> bytes \<Rightarrow> MAIN option" where
  "send_aes W m sa raw =
     (let (salt, g) = rand_urandom (s_rng m) AES_IV_SIZE; m = m\<lparr>s_rng := g\<rparr> in
      case aes_encrypt W raw salt (c_key (s_conf m)) of
        None \<Rightarrow> Some m
      | Some aes \<Rightarrow> do {
          dict \<leftarrow> new_dict [(''a'', ben_str aes (length aes)), (''s'', ben_str salt AES_IV_SIZE)];
          enc \<leftarrow> ben_enc dict;
          Some (send_udp m sa enc)
        })"

text \<open>The common end of every function: encode, encrypt if configured, send.\<close>

definition send_dict :: "WORLD \<Rightarrow> MAIN \<Rightarrow> IP \<Rightarrow> BEN option \<Rightarrow> MAIN option" where
  "send_dict W m sa dict = do {
     d \<leftarrow> dict;
     raw \<leftarrow> ben_enc d;
     if w_polarssl W \<and> c_bool_encryption (s_conf m) then send_aes W m sa raw
     else Some (send_udp m sa raw)
   }"

definition send_ping :: "WORLD \<Rightarrow> MAIN \<Rightarrow> IP \<Rightarrow> bytes \<Rightarrow> MAIN option" where
  "send_ping W m sa tid =
     send_dict W m sa (new_dict
       [(''a'', new_dict [(''id'', ben_str (me m) SHA1_SIZE)]),
        (''q'', lit_str ''ping''),
        (''t'', ben_str tid TID_SIZE),
        (''y'', lit_str ''q'')])"

definition send_pong :: "WORLD \<Rightarrow> MAIN \<Rightarrow> IP \<Rightarrow> bytes \<Rightarrow> nat \<Rightarrow> MAIN option" where
  "send_pong W m sa tid tid_size =
     send_dict W m sa (new_dict
       [(''r'', new_dict [(''id'', ben_str (me m) SHA1_SIZE)]),
        (''t'', ben_str tid tid_size),
        (''y'', lit_str ''r'')])"

definition send_find_node_request :: "WORLD \<Rightarrow> MAIN \<Rightarrow> IP \<Rightarrow> bytes \<Rightarrow> bytes \<Rightarrow> MAIN option" where
  "send_find_node_request W m sa node_id tid =
     send_dict W m sa (new_dict
       [(''a'', new_dict [(''id'', ben_str (me m) SHA1_SIZE), (''target'', ben_str node_id SHA1_SIZE)]),
        (''q'', lit_str ''find_node''),
        (''t'', ben_str tid TID_SIZE),
        (''y'', lit_str ''q'')])"

definition nodes_key :: "ipver \<Rightarrow> string" where
  "nodes_key v = (case v of IPV6 \<Rightarrow> ''nodes6'' | IPV4 \<Rightarrow> ''nodes'')"

definition send_find_node_reply :: "WORLD \<Rightarrow> MAIN \<Rightarrow> IP \<Rightarrow> bytes \<Rightarrow> bytes \<Rightarrow> nat \<Rightarrow> MAIN option" where
  "send_find_node_reply W m sa nodes_compact_list tid tid_size =
     send_dict W m sa (new_dict
       [(''r'', new_dict
          [(''id'', ben_str (me m) SHA1_SIZE),
           (nodes_key (w_ver W), ben_str nodes_compact_list (length nodes_compact_list))]),
        (''t'', ben_str tid tid_size),
        (''y'', lit_str ''r'')])"

definition send_get_peers_request :: "WORLD \<Rightarrow> MAIN \<Rightarrow> IP \<Rightarrow> bytes \<Rightarrow> bytes \<Rightarrow> MAIN option" where
  "send_get_peers_request W m sa node_id tid =
     send_dict W m sa (new_dict
       [(''a'', new_dict [(''id'', ben_str (me m) SHA1_SIZE), (''info_hash'', ben_str node_id SHA1_SIZE)]),
        (''q'', lit_str ''get_peers''),
        (''t'', ben_str tid TID_SIZE),
        (''y'', lit_str ''q'')])"

definition send_get_peers_nodes :: "WORLD \<Rightarrow> MAIN \<Rightarrow> IP \<Rightarrow> bytes \<Rightarrow> bytes \<Rightarrow> nat \<Rightarrow> MAIN option" where
  "send_get_peers_nodes W m sa nodes_compact_list tid tid_size = do {
     token \<leftarrow> tkn_read (s_token m);
     send_dict W m sa (new_dict
       [(''r'', new_dict
          [(''id'', ben_str (me m) SHA1_SIZE),
           (nodes_key (w_ver W), ben_str nodes_compact_list (length nodes_compact_list)),
           (''token'', ben_str token TOKEN_SIZE)]),
        (''t'', ben_str tid tid_size),
        (''y'', lit_str ''r'')])
   }"

text \<open>A sequence of \<open>ben_list\<close> calls; the loop cuts the compact list into the strings of the \<open>values\<close> list.\<close>

fun ben_list_add :: "BEN \<Rightarrow> BEN option list \<Rightarrow> BEN option" where
  "ben_list_add list [] = Some list"
| "ben_list_add list (val # vs) =
     (case ben_list (Some list) val of Inl _ \<Rightarrow> None | Inr list' \<Rightarrow> ben_list_add list' vs)"

definition send_get_peers_values :: "WORLD \<Rightarrow> MAIN \<Rightarrow> IP \<Rightarrow> bytes \<Rightarrow> bytes \<Rightarrow> nat \<Rightarrow> MAIN option" where
  "send_get_peers_values W m sa nodes_compact_list tid tid_size = do {
     ps \<leftarrow> pairs_of (IP_SIZE_META_PAIR (w_ver W)) nodes_compact_list;
     list \<leftarrow> ben_list_add (BEN_LIST []) (map (\<lambda>p. ben_str p (IP_SIZE_META_PAIR (w_ver W))) ps);
     token \<leftarrow> tkn_read (s_token m);
     send_dict W m sa (new_dict
       [(''r'', new_dict
          [(''id'', ben_str (me m) SHA1_SIZE),
           (''token'', ben_str token TOKEN_SIZE),
           (''values'', Some list)]),
        (''t'', ben_str tid tid_size),
        (''y'', lit_str ''r'')])
   }"

definition send_announce_request :: "WORLD \<Rightarrow> MAIN \<Rightarrow> IP \<Rightarrow> bytes \<Rightarrow> bytes \<Rightarrow> bytes \<Rightarrow> nat \<Rightarrow> MAIN option" where
  "send_announce_request W m sa tid target token token_size =
     send_dict W m sa (new_dict
       [(''a'', new_dict
          [(''id'', ben_str (me m) SHA1_SIZE),
           (''info_hash'', ben_str target SHA1_SIZE),
           (''port'', Some (BEN_INT (int (c_announce_port (s_conf m))))),
           (''token'', ben_str token token_size)]),
        (''q'', lit_str ''announce_peer''),
        (''t'', ben_str tid TID_SIZE),
        (''y'', lit_str ''q'')])"

definition send_announce_reply :: "WORLD \<Rightarrow> MAIN \<Rightarrow> IP \<Rightarrow> bytes \<Rightarrow> nat \<Rightarrow> MAIN option" where
  "send_announce_reply W m sa tid tid_size =
     send_dict W m sa (new_dict
       [(''r'', new_dict [(''id'', ben_str (me m) SHA1_SIZE)]),
        (''t'', ben_str tid tid_size),
        (''y'', lit_str ''r'')])"

section \<open>Laws\<close>

text \<open>Sending changes what was sent and, with encryption, the random numbers: nothing else.\<close>

definition sent :: "MAIN \<Rightarrow> MAIN \<Rightarrow> bool" where
  "sent m m' \<longleftrightarrow> (\<exists>out g. m' = m\<lparr>s_out := s_out m @ out, s_rng := g\<rparr> \<and> rng_ok g)"

lemma sent_refl: "rng_ok (s_rng m) \<Longrightarrow> sent m m"
  unfolding sent_def by (rule exI [of _ "[]"]) (rule exI [of _ "s_rng m"], simp)

lemma sent_trans: "sent m m1 \<Longrightarrow> sent m1 m2 \<Longrightarrow> sent m m2"
  unfolding sent_def by fastforce

lemma sent_frame:
  assumes "sent m m'"
  shows "s_conf m' = s_conf m" "s_identity m' = s_identity m" "s_nbhd m' = s_nbhd m" "s_value m' = s_value m" "s_tdb m' = s_tdb m"
    "s_token m' = s_token m" "s_cache m' = s_cache m" "s_p2p m' = s_p2p m" "s_sockfd m' = s_sockfd m" "s_dns_sockfd m' = s_dns_sockfd m"
    "s_multicast m' = s_multicast m" "s_rumble m' = s_rumble m" "s_dns_out m' = s_dns_out m" "rng_ok (s_rng m')"
  using assms by (auto simp: sent_def)

lemma send_udp_sent:
  assumes "rng_ok (s_rng m)"
  shows "sent m (send_udp m sa raw)"
proof -
  have "send_udp m sa raw = m\<lparr>s_out := s_out m @ (if s_sockfd m < 0 then [] else [(sa, raw)]), s_rng := s_rng m\<rparr>"
    by (simp add: send_udp_def)
  with assms show ?thesis unfolding sent_def by blast
qed

lemma send_aes_sent:
  assumes "rng_ok (s_rng m)"
  shows "\<exists>m'. send_aes W m sa raw = Some m' \<and> sent m m'"
proof -
  obtain salt g where r: "rand_urandom (s_rng m) AES_IV_SIZE = (salt, g)" by fastforce
  then have s: "length salt = AES_IV_SIZE" and g: "rng_ok g" using assms by (auto simp: rand_urandom_def rng_ok_def)
  let ?m = "m\<lparr>s_rng := g\<rparr>"
  have m: "sent m ?m" unfolding sent_def using g by (intro exI [of _ "[]"] exI [of _ g]) simp
  show ?thesis
  proof (cases "aes_encrypt W raw salt (c_key (s_conf m))")
    case None
    then show ?thesis using m by (simp add: send_aes_def r)
  next
    case (Some aes)
    have "sent ?m (send_udp ?m sa x)" for x by (rule send_udp_sent) (simp add: g)
    with m have "sent m (send_udp ?m sa x)" for x by (rule sent_trans)
    with Some s show ?thesis by (simp add: send_aes_def r ben_str_def ben_dict_def ben_enc_Some)
  qed
qed

lemma send_dict_sent:
  assumes "rng_ok (s_rng m)" and "dict = Some d"
  shows "\<exists>m'. send_dict W m sa dict = Some m' \<and> sent m m'"
  using send_aes_sent [OF assms(1)] send_udp_sent [OF assms(1)] assms(2) by (simp add: send_dict_def ben_enc_Some)

lemmas ben_build = ben_str_def ben_dict_def ben_list_def lit_def

text \<open>No message is ever cut short: with identifiers of their size and a token in the database every function returns.\<close>

lemma send_requests:
  assumes "rng_ok (s_rng m)" and "length (me m) = SHA1_SIZE" and "length tid = TID_SIZE" and "length target = SHA1_SIZE"
  shows "\<exists>m'. send_ping W m sa tid = Some m' \<and> sent m m'"
    "\<exists>m'. send_find_node_request W m sa target tid = Some m' \<and> sent m m'"
    "\<exists>m'. send_get_peers_request W m sa target tid = Some m' \<and> sent m m'"
    "\<exists>m'. send_announce_request W m sa tid target token (length token) = Some m' \<and> sent m m'"
  unfolding send_ping_def send_find_node_request_def send_get_peers_request_def send_announce_request_def
  by (rule send_dict_sent [OF assms(1)], use assms in \<open>simp add: ben_build\<close>)+

lemma send_replies:
  assumes "rng_ok (s_rng m)" and "length (me m) = SHA1_SIZE"
  shows "\<exists>m'. send_pong W m sa tid (length tid) = Some m' \<and> sent m m'"
    "\<exists>m'. send_find_node_reply W m sa nodes tid (length tid) = Some m' \<and> sent m m'"
    "\<exists>m'. send_announce_reply W m sa tid (length tid) = Some m' \<and> sent m m'"
    "tkn_read (s_token m) = Some token \<Longrightarrow> length token = TOKEN_SIZE \<Longrightarrow>
       \<exists>m'. send_get_peers_nodes W m sa nodes tid (length tid) = Some m' \<and> sent m m'"
proof -
  show "\<exists>m'. send_pong W m sa tid (length tid) = Some m' \<and> sent m m'"
    "\<exists>m'. send_find_node_reply W m sa nodes tid (length tid) = Some m' \<and> sent m m'"
    "\<exists>m'. send_announce_reply W m sa tid (length tid) = Some m' \<and> sent m m'"
    unfolding send_pong_def send_find_node_reply_def send_announce_reply_def
    by (rule send_dict_sent [OF assms(1)], use assms in \<open>simp add: ben_build\<close>)+
  assume t: "tkn_read (s_token m) = Some token" "length token = TOKEN_SIZE"
  show "\<exists>m'. send_get_peers_nodes W m sa nodes tid (length tid) = Some m' \<and> sent m m'"
    unfolding send_get_peers_nodes_def t bind.bind_lunit
    by (rule send_dict_sent [OF assms(1)]) (use assms t in \<open>simp add: ben_build\<close>)
qed

lemma pairs_of_length:
  assumes "0 < k" and "length xs = n * k"
  shows "\<exists>ps. pairs_of k xs = Some ps \<and> length ps = n \<and> (\<forall>p \<in> set ps. length p = k) \<and> concat ps = xs"
  using assms
proof (induction n arbitrary: xs)
  case 0
  then show ?case by (simp add: pairs_of.simps)
next
  case (Suc n)
  then have "length (drop k xs) = n * k" "\<not> length xs < k" "xs \<noteq> []" by auto
  with Suc.IH [OF Suc.prems(1), of "drop k xs"] obtain ps where
    "pairs_of k (drop k xs) = Some ps" "length ps = n" "\<forall>p \<in> set ps. length p = k" "concat ps = drop k xs" by blast
  with \<open>\<not> length xs < k\<close> \<open>xs \<noteq> []\<close> Suc.prems show ?case
    by (subst pairs_of.simps) (auto simp: min_def)
qed

lemma ben_list_add_strs:
  assumes "\<forall>p \<in> set ps. length p = k" and "int (length vs + length ps) < LONG_MAX"
  shows "ben_list_add (BEN_LIST vs) (map (\<lambda>p. ben_str p k) ps) = Some (BEN_LIST (vs @ map BEN_STR ps))"
  using assms
proof (induction ps arbitrary: vs)
  case (Cons p ps)
  with Cons.IH [of "vs @ [BEN_STR p]"] show ?case by (simp add: ben_str_def ben_list_def)
qed simp

lemma send_values:
  assumes "rng_ok (s_rng m)" and "length (me m) = SHA1_SIZE" and "tkn_read (s_token m) = Some token" and "length token = TOKEN_SIZE"
    and "length nodes = n * IP_SIZE_META_PAIR (w_ver W)" and "n \<le> 8"
  shows "\<exists>m'. send_get_peers_values W m sa nodes tid (length tid) = Some m' \<and> sent m m'"
proof -
  from pairs_of_length [OF META_PAIR_pos assms(5)] obtain ps where
    ps: "pairs_of (IP_SIZE_META_PAIR (w_ver W)) nodes = Some ps" "length ps = n" "\<forall>p \<in> set ps. length p = IP_SIZE_META_PAIR (w_ver W)" by blast
  have "ben_list_add (BEN_LIST []) (map (\<lambda>p. ben_str p (IP_SIZE_META_PAIR (w_ver W))) ps) = Some (BEN_LIST (map BEN_STR ps))"
    using ben_list_add_strs [OF ps(3), of "[]"] ps(2) assms(6) by simp
  note l = this
  show ?thesis unfolding send_get_peers_values_def ps(1) l assms(3) bind.bind_lunit
    by (rule send_dict_sent [OF assms(1)]) (use assms in \<open>simp add: ben_build\<close>)
qed

end
