(* ===== verification/Identity.thy ===== *)
theory Identity
  imports State
begin

text \<open>
  The names this node announces, \<^verbatim>\<open>src/src/p2p/identity.c\<close>.  SHA-1 comes from PolarSSL or a vendored library and is the
  parameter \<open>w_sha1\<close>.  Host names are C strings without their terminating zero.
\<close>

definition id_hostid :: "WORLD \<Rightarrow> bytes \<Rightarrow> bytes \<Rightarrow> bool \<Rightarrow> bytes" where
  "id_hostid W hostname realm b =
     (if b then map2 (XOR) (w_sha1 W hostname) (w_sha1 W realm) else w_sha1 W hostname)"

text \<open>A bad name or a clash with the node's own id ends the program.\<close>

definition id_put :: "WORLD \<Rightarrow> ID list \<Rightarrow> bytes \<Rightarrow> bytes \<Rightarrow> bytes \<Rightarrow> bool \<Rightarrow> ID list option" where
  "id_put W ids hostname node_id realm bool_realm =
     (if \<not> str_valid_hostname hostname (length hostname) then None
      else
        let h = \<lparr>id_hostname = take (BUF_SIZE - 1) hostname, id_host_id = id_hostid W hostname realm bool_realm,
                 id_time_announce_host = 0\<rparr> in
        if memcmp (id_host_id h) (take SHA1_SIZE node_id) = 0 then None
        else Some (ids @ [h]))"

definition sha1_law :: "WORLD \<Rightarrow> bool" where
  "sha1_law W \<longleftrightarrow> (\<forall>x. length (w_sha1 W x) = SHA1_SIZE)"

lemma id_hostid_length: "sha1_law W \<Longrightarrow> length (id_hostid W hostname realm b) = SHA1_SIZE"
  by (simp add: id_hostid_def sha1_law_def)

text \<open>A realm separates names: two hosts share an id inside a realm exactly when their hashes agree.\<close>

lemma xor_bytes_inj: "length xs = length ks \<Longrightarrow> length ys = length ks \<Longrightarrow> map2 (XOR) xs ks = map2 (XOR) ys ks \<Longrightarrow> xs = (ys :: bytes)"
proof (induction ks arbitrary: xs ys)
  case (Cons k ks)
  then obtain x xs' y ys' where e: "xs = x # xs'" "ys = y # ys'" by (metis length_Suc_conv)
  have "x XOR k = y XOR k" using Cons.prems(3) by (simp add: e)
  then have "(x XOR k) XOR k = (y XOR k) XOR k" by simp
  then have "x = y" by (simp add: xor.assoc)
  moreover have "xs' = ys'" using Cons.IH [of xs' ys'] Cons.prems by (simp add: e)
  ultimately show ?case by (simp add: e)
qed simp

lemma id_hostid_inj:
  assumes "sha1_law W"
  shows "id_hostid W h1 realm b = id_hostid W h2 realm b \<longleftrightarrow> w_sha1 W h1 = w_sha1 W h2"
  using xor_bytes_inj [of "w_sha1 W h1" "w_sha1 W realm" "w_sha1 W h2"] assms by (auto simp: id_hostid_def sha1_law_def)

lemma id_put_ok:
  assumes "sha1_law W" and "\<forall>i \<in> set ids. length (id_host_id i) = SHA1_SIZE" and "id_put W ids hostname node_id realm b = Some ids'"
  shows "\<forall>i \<in> set ids'. length (id_host_id i) = SHA1_SIZE"
  using assms id_hostid_length [OF assms(1)] by (auto simp: id_put_def Let_def split: if_splits)

end
