(* ===== verification/Resolver.thy ===== *)
theory Resolver
  imports Send Identity
begin

text \<open>
  The DNS front end, \<^verbatim>\<open>src/src/p2p/resolver.c\<close>.  \<open>r_parse\<close> decodes the query into a message on its stack, at the address \<open>self\<close> with
  undefined content \<open>junk\<close>, and the name in it points into that message: it can be read while \<open>r_parse\<close> runs and not after.
\<close>

section \<open>Answers\<close>

definition send_dns :: "MAIN \<Rightarrow> IP \<Rightarrow> bytes \<Rightarrow> MAIN" where
  "send_dns m from x = m\<lparr>s_dns_out := s_dns_out m @ [(from, x)]\<rparr>"

text \<open>The response is written into a buffer of \<open>UDP_BUF\<close> bytes without a check.\<close>

definition r_success :: "WORLD \<Rightarrow> names \<Rightarrow> MAIN \<Rightarrow> IP \<Rightarrow> DNS_MSG \<Rightarrow> bytes \<Rightarrow> MAIN option" where
  "r_success W names m from msg nodes_compact_list =
     (if nodes_compact_list = [] then Some m
      else do {
        msg \<leftarrow> p_reply_msg (w_ver W) names msg nodes_compact_list;
        x \<leftarrow> p_encode_response names msg;
        if UDP_BUF < length x then None else Some (send_dns m from x)
      })"

definition r_failure :: "names \<Rightarrow> MAIN \<Rightarrow> IP \<Rightarrow> DNS_MSG \<Rightarrow> MAIN option" where
  "r_failure names m from msg = do {
     x \<leftarrow> p_encode_response names (p_reset_msg msg);
     if UDP_BUF < length x then None else Some (send_dns m from x)
   }"

section \<open>Remote searches\<close>

text \<open>
  The nodes of a compact list, as the loops \<open>for (i = 0; i < size; i += IP_SIZE_META_TRIPLE)\<close> read them.
\<close>

function triples_of :: "ipver \<Rightarrow> bytes \<Rightarrow> (bytes \<times> IP) list option" where
  "triples_of v p =
     (if p = [] then Some []
      else case ip_tuple_to_sin v (drop SHA1_SIZE p) of
        None \<Rightarrow> None
      | Some (sin, q) \<Rightarrow> map_option ((#) (take SHA1_SIZE p, sin)) (triples_of v q))"
  by pat_completeness auto
termination
  by (relation "measure (\<lambda>(v, p). length p)") (auto simp: ip_tuple_to_sin_def split: if_splits)

declare triples_of.simps [simp del]

text \<open>
  The loop that \<open>r_lookup_remote\<close> and \<open>p2p_cron_lookup\<close> share: remember each node in the search and ask it.
\<close>

fun query_loop :: "WORLD \<Rightarrow> MAIN \<Rightarrow> ptr option \<Rightarrow> bytes \<Rightarrow> LOOKUP \<Rightarrow> (bytes \<times> IP) list \<Rightarrow> (MAIN \<times> LOOKUP) option" where
  "query_loop W m ti target l [] = Some (m, l)"
| "query_loop W m ti target l ((i, sin) # ns) = do {
     (l, _) \<leftarrow> ldb_put l i sin;
     tid \<leftarrow> tdb_tid (s_tdb m) ti;
     m \<leftarrow> send_get_peers_request W m sin target tid;
     query_loop W m ti target l ns
   }"

text \<open>The search is linked to its transaction first; the loop then changes it through the pointer.\<close>

definition start_search :: "WORLD \<Rightarrow> MAIN \<Rightarrow> bytes \<Rightarrow> nat \<Rightarrow> (IP \<times> DNS_MSG) option \<Rightarrow> MAIN option" where
  "start_search W m target type caller = do {
     nodes_compact_list \<leftarrow> bckt_compact_list (nb_mem (s_nbhd m)) (nb_bucket (s_nbhd m)) target;
     (m, ti) \<leftarrow> main_tdb_put m type;
     let l = ldb_init target caller;
     T \<leftarrow> tdb_link_ldb (s_tdb m) ti (Some l);
     let m = m\<lparr>s_tdb := T\<rparr>;
     ns \<leftarrow> triples_of (w_ver W) nodes_compact_list;
     (m, l) \<leftarrow> query_loop W m ti target l ns;
     T \<leftarrow> tdb_link_ldb (s_tdb m) ti (Some l);
     Some (m\<lparr>s_tdb := T\<rparr>)
   }"

definition r_lookup_remote :: "WORLD \<Rightarrow> MAIN \<Rightarrow> bytes \<Rightarrow> nat \<Rightarrow> IP \<Rightarrow> DNS_MSG \<Rightarrow> MAIN option" where
  "r_lookup_remote W m target type from msg = start_search W m target type (Some (from, msg))"

section \<open>Queries\<close>

definition r_lookup_cache_db :: "WORLD \<Rightarrow> names \<Rightarrow> MAIN \<Rightarrow> bytes \<Rightarrow> IP \<Rightarrow> DNS_MSG \<Rightarrow> (MAIN \<times> bool) option" where
  "r_lookup_cache_db W names m target from msg = do {
     (c, nodes_compact_list) \<leftarrow> cache_compact_list (s_cache m) target (clock m);
     let m = m\<lparr>s_cache := c\<rparr>;
     if nodes_compact_list = [] then Some (m, False)
     else do { m \<leftarrow> r_success W names m from msg nodes_compact_list; Some (m, True) }
   }"

definition r_lookup_local_db :: "WORLD \<Rightarrow> names \<Rightarrow> MAIN \<Rightarrow> bytes \<Rightarrow> IP \<Rightarrow> DNS_MSG \<Rightarrow> (MAIN \<times> bool) option" where
  "r_lookup_local_db W names m target from msg = do {
     (val, nodes_compact_list) \<leftarrow> val_compact_list (s_value m) target;
     let m = m\<lparr>s_value := val\<rparr>;
     if nodes_compact_list = [] then Some (m, False)
     else do { m \<leftarrow> r_success W names m from msg nodes_compact_list; Some (m, True) }
   }"

definition r_lookup :: "WORLD \<Rightarrow> names \<Rightarrow> MAIN \<Rightarrow> bytes \<Rightarrow> IP \<Rightarrow> DNS_MSG \<Rightarrow> MAIN option" where
  "r_lookup W names m hostname from msg = do {
     let target = id_hostid W hostname (c_realm (s_conf m)) (c_bool_realm (s_conf m));
     (m, result) \<leftarrow> r_lookup_cache_db W names m target from msg;
     if result then Some m
     else do {
       (m, result) \<leftarrow> r_lookup_local_db W names m target from msg;
       if result then Some m
       else r_lookup_remote W m target P2P_GET_PEERS from msg
     }
   }"

definition looked_up :: "ipver \<Rightarrow> USHORT \<Rightarrow> bool" where
  "looked_up v ty \<longleftrightarrow> ty = (case v of IPV6 \<Rightarrow> AAAA_Resource_RecordType | IPV4 \<Rightarrow> A_Resource_RecordType) \<or>
     ty = SRV_Resource_RecordType"

definition r_parse :: "WORLD \<Rightarrow> ptr \<Rightarrow> DNS_MSG \<Rightarrow> MAIN \<Rightarrow> bytes \<Rightarrow> nat \<Rightarrow> IP \<Rightarrow> MAIN option" where
  "r_parse W self junk m buffer bufsize from =
     (if bufsize < 12 then Some m
      else if 512 < bufsize then Some m
      else if ip_is_linklocal (w_ver W) from then Some m
      else do {
        (result, msg) \<leftarrow> p_decode_query (Frame self) junk buffer bufsize;
        if result \<noteq> 1 then Some m
        else do {
          let names = [Frame self \<mapsto> qName_buffer msg];
          hostname \<leftarrow> name_at names (qName (question msg));
          if 255 < length hostname then Some m
          else if \<not> str_valid_hostname hostname (length hostname) then Some m
          else if looked_up (w_ver W) (qType (question msg)) then r_lookup W names m hostname from msg
          else r_failure names m from msg
        }
      })"

end
