(* ===== verification/P2p.thy ===== *)
theory P2p
  imports Resolver
begin

text \<open>
  The message handlers of \<^verbatim>\<open>src/src/p2p/p2p.c\<close>.  A handler takes the state of the program and returns the new one with what it sent; \<open>None\<close>
  is undefined behaviour or a call that does not return.  Messages for the log are left out.
\<close>

section \<open>Checks\<close>

definition p2p_is_hash :: "BEN option \<Rightarrow> bool" where
  "p2p_is_hash node \<longleftrightarrow> node \<noteq> None \<and> ben_is_str node \<and> ben_str_i node = Some SHA1_SIZE"

definition p2p_is_ip :: "ipver \<Rightarrow> BEN option \<Rightarrow> bool" where
  "p2p_is_ip v node \<longleftrightarrow> node \<noteq> None \<and> ben_is_str node \<and> ben_str_i node = Some (IP_SIZE v)"

definition p2p_is_port :: "BEN option \<Rightarrow> bool" where
  "p2p_is_port node \<longleftrightarrow> node \<noteq> None \<and> ben_is_str node \<and> ben_str_i node = Some 2"

definition p2p_packet_from_myself :: "MAIN \<Rightarrow> bytes \<Rightarrow> bool" where
  "p2p_packet_from_myself m node_id = node_me (me m) node_id"

text \<open>Nodes that are never stored: this one and those with a link-local address.\<close>

definition p2p_ignored :: "WORLD \<Rightarrow> MAIN \<Rightarrow> bytes \<Rightarrow> IP \<Rightarrow> bool" where
  "p2p_ignored W m i sin \<longleftrightarrow> node_me (me m) i \<or> ip_is_linklocal (w_ver W) sin"

section \<open>Ping\<close>

definition p2p_ping :: "WORLD \<Rightarrow> MAIN \<Rightarrow> bytes \<Rightarrow> IP \<Rightarrow> MAIN option" where
  "p2p_ping W m tid from = send_pong W m from tid (length tid)"

definition p2p_pong :: "MAIN \<Rightarrow> bytes \<Rightarrow> IP \<Rightarrow> MAIN option" where
  "p2p_pong m node_id from = do {
     (nb, g) \<leftarrow> nbhd_ponged (s_nbhd m) node_id from (clock m) (s_rng m);
     Some (m\<lparr>s_nbhd := nb, s_rng := g\<rparr>)
   }"

section \<open>Find node\<close>

definition p2p_find_node_get_request :: "WORLD \<Rightarrow> MAIN \<Rightarrow> BEN option \<Rightarrow> bytes \<Rightarrow> IP \<Rightarrow> MAIN option" where
  "p2p_find_node_get_request W m arg tid from =
     (let target = ben_dict_search_str arg ''target'' in
      if \<not> p2p_is_hash target then Some m
      else do {
        target \<leftarrow> ben_str_s target;
        nodes_compact_list \<leftarrow> bckt_compact_list (nb_mem (s_nbhd m)) (nb_bucket (s_nbhd m)) target;
        if nodes_compact_list \<noteq> [] then send_find_node_reply W m from nodes_compact_list tid (length tid)
        else Some m
      })"

fun store_nodes :: "WORLD \<Rightarrow> MAIN \<Rightarrow> (bytes \<times> IP) list \<Rightarrow> MAIN option" where
  "store_nodes W m [] = Some m"
| "store_nodes W m ((i, sin) # ns) =
     (if p2p_ignored W m i sin then store_nodes W m ns
      else do { m \<leftarrow> main_nbhd_put W m i sin; store_nodes W m ns })"

definition p2p_find_node_get_reply :: "WORLD \<Rightarrow> MAIN \<Rightarrow> BEN option \<Rightarrow> MAIN option" where
  "p2p_find_node_get_reply W m arg =
     (let nodes = ben_dict_search_str arg (nodes_key (w_ver W)) in
      if \<not> ben_is_str nodes then Some m
      else do {
        p \<leftarrow> ben_str_s nodes;
        if length p mod IP_SIZE_META_TRIPLE (w_ver W) \<noteq> 0 then Some m
        else do { ns \<leftarrow> triples_of (w_ver W) p; store_nodes W m ns }
      })"

section \<open>Get peers\<close>

definition p2p_get_peers_get_request :: "WORLD \<Rightarrow> MAIN \<Rightarrow> BEN option \<Rightarrow> bytes \<Rightarrow> IP \<Rightarrow> MAIN option" where
  "p2p_get_peers_get_request W m arg tid from =
     (let info_hash = ben_dict_search_str arg ''info_hash'' in
      if \<not> p2p_is_hash info_hash then Some m
      else do {
        info_hash \<leftarrow> ben_str_s info_hash;
        (val, nodes_compact_list) \<leftarrow> val_compact_list (s_value m) info_hash;
        let m = m\<lparr>s_value := val\<rparr>;
        if nodes_compact_list \<noteq> [] then send_get_peers_values W m from nodes_compact_list tid (length tid)
        else do {
          nodes_compact_list \<leftarrow> bckt_compact_list (nb_mem (s_nbhd m)) (nb_bucket (s_nbhd m)) info_hash;
          if nodes_compact_list \<noteq> [] then send_get_peers_nodes W m from nodes_compact_list tid (length tid)
          else Some m
        }
      })"

text \<open>The loop over the nodes of a reply: store each, and ask it when it is new to the search and among the eight best.\<close>

fun search_nodes :: "WORLD \<Rightarrow> MAIN \<Rightarrow> ptr option \<Rightarrow> bytes \<Rightarrow> LOOKUP \<Rightarrow> (bytes \<times> IP) list \<Rightarrow> (MAIN \<times> LOOKUP) option" where
  "search_nodes W m ti target l [] = Some (m, l)"
| "search_nodes W m ti target l ((i, sin) # ns) =
     (if p2p_ignored W m i sin then search_nodes W m ti target l ns
      else do {
        m \<leftarrow> main_nbhd_put W m i sin;
        if ldb_find l i \<noteq> None then search_nodes W m ti target l ns
        else do {
          (l, index) \<leftarrow> ldb_put l i sin;
          if 8 \<le> index then search_nodes W m ti target l ns
          else do {
            tid \<leftarrow> tdb_tid (s_tdb m) ti;
            m \<leftarrow> send_get_peers_request W m sin target tid;
            search_nodes W m ti target l ns
          }
        }
      })"

definition p2p_get_peers_get_nodes :: "WORLD \<Rightarrow> MAIN \<Rightarrow> bytes \<Rightarrow> bytes \<Rightarrow> ptr option \<Rightarrow> bytes \<Rightarrow> IP \<Rightarrow> MAIN option" where
  "p2p_get_peers_get_nodes W m nodes node_id ti token from = do {
     l \<leftarrow> tdb_ldb (s_tdb m) ti;
     case l of None \<Rightarrow> Some m
     | Some l \<Rightarrow> do {
         l \<leftarrow> ldb_update l node_id token from;
         ns \<leftarrow> triples_of (w_ver W) nodes;
         (m, l) \<leftarrow> search_nodes W m ti (lk_target l) l ns;
         T \<leftarrow> tdb_link_ldb (s_tdb m) ti (Some l);
         Some (m\<lparr>s_tdb := T\<rparr>)
       }
   }"

text \<open>At most \<open>j\<close> values are copied; \<open>None\<close> is the early return on a value of the wrong size.\<close>

fun collect_values :: "nat \<Rightarrow> nat \<Rightarrow> BEN list \<Rightarrow> bytes option" where
  "collect_values k 0 vs = Some []"
| "collect_values k (Suc j) [] = Some []"
| "collect_values k (Suc j) (val # vs) =
     (case val of
        BEN_STR s \<Rightarrow> if length s \<noteq> k then None else map_option ((@) s) (collect_values k j vs)
      | _ \<Rightarrow> None)"

text \<open>
  The message that exists when a peer answers is the copy that lies in the search; that of \<open>r_parse\<close>, which started the search, went with its
  frame.
\<close>

definition search_names :: "ptr option \<Rightarrow> DNS_MSG \<Rightarrow> names" where
  "search_names ti msg = (case ti of None \<Rightarrow> Map.empty | Some p \<Rightarrow> [Search p \<mapsto> qName_buffer msg])"

definition p2p_get_peers_get_values :: "WORLD \<Rightarrow> MAIN \<Rightarrow> BEN list \<Rightarrow> bytes \<Rightarrow> ptr option \<Rightarrow> bytes \<Rightarrow> IP \<Rightarrow> MAIN option" where
  "p2p_get_peers_get_values W m vals node_id ti token from = do {
     l \<leftarrow> tdb_ldb (s_tdb m) ti;
     case l of None \<Rightarrow> Some m
     | Some l \<Rightarrow> do {
         l \<leftarrow> ldb_update l node_id token from;
         T \<leftarrow> tdb_link_ldb (s_tdb m) ti (Some l);
         let m = m\<lparr>s_tdb := T\<rparr>;
         case collect_values (IP_SIZE_META_PAIR (w_ver W)) 8 vals of None \<Rightarrow> Some m
         | Some nodes_compact_list \<Rightarrow>
             if nodes_compact_list = [] then Some m
             else case lk_caller l of None \<Rightarrow> Some m
             | Some (caller, msg) \<Rightarrow> do {
                 (c, g) \<leftarrow> cache_put (w_ver W) (s_cache m) (lk_target l) nodes_compact_list (clock m) (s_rng m);
                 let m = m\<lparr>s_cache := c, s_rng := g\<rparr>;
                 (l, n) \<leftarrow> ldb_number_of_dns_responses l;
                 T \<leftarrow> tdb_link_ldb (s_tdb m) ti (Some l);
                 let m = m\<lparr>s_tdb := T\<rparr>;
                 if 1 \<le> n then Some m
                 else do {
                   (c, nodes_compact_list) \<leftarrow> cache_compact_list (s_cache m) (lk_target l) (clock m);
                   let m = m\<lparr>s_cache := c\<rparr>;
                   if nodes_compact_list = [] then Some m
                   else r_success W (search_names ti msg) m caller msg nodes_compact_list
                 }
               }
       }
   }"

definition p2p_get_peers_get_reply :: "WORLD \<Rightarrow> MAIN \<Rightarrow> BEN option \<Rightarrow> bytes \<Rightarrow> ptr option \<Rightarrow> IP \<Rightarrow> MAIN option" where
  "p2p_get_peers_get_reply W m arg node_id ti from =
     (case ben_dict_search_str arg ''token'' of
        Some (BEN_STR token) \<Rightarrow>
          if TOKEN_SIZE_MAX < length token then Some m
          else if length token \<le> 0 then Some m
          else (case ben_dict_search_str arg ''values'' of
              Some (BEN_LIST vals) \<Rightarrow> p2p_get_peers_get_values W m vals node_id ti token from
            | Some _ \<Rightarrow> Some m
            | None \<Rightarrow>
               (case ben_dict_search_str arg (nodes_key (w_ver W)) of
                  Some (BEN_STR nodes) \<Rightarrow>
                    if length nodes mod IP_SIZE_META_TRIPLE (w_ver W) \<noteq> 0 then Some m
                    else p2p_get_peers_get_nodes W m nodes node_id ti token from
                | _ \<Rightarrow> Some m))
      | _ \<Rightarrow> Some m)"

section \<open>Announce\<close>

text \<open>
  \<open>tkn_validate\<close> looks at \<open>TOKEN_SIZE\<close> bytes of the token, whatever its length; the string of a decoded token is
  followed by one zero byte.
\<close>

definition token_key :: "bytes \<Rightarrow> bytes option" where
  "token_key token = (if TOKEN_SIZE \<le> length token + 1 then Some (take TOKEN_SIZE (token @ [0])) else None)"

text \<open>\<open>val_put\<close> writes the announced port into the sender's address, and the answer goes to that address.\<close>

definition p2p_announce_get_request :: "WORLD \<Rightarrow> MAIN \<Rightarrow> BEN option \<Rightarrow> bytes \<Rightarrow> bytes \<Rightarrow> IP \<Rightarrow> MAIN option" where
  "p2p_announce_get_request W m arg node_id tid from =
     (let info_hash = ben_dict_search_str arg ''info_hash'' in
      if \<not> p2p_is_hash info_hash then Some m
      else case ben_dict_search_str arg ''token'' of
        Some (BEN_STR token) \<Rightarrow>
          if TOKEN_SIZE_MAX < length token then Some m
          else do {
            key \<leftarrow> token_key token;
            if \<not> tkn_validate (s_token m) key then Some m
            else case ben_dict_search_str arg ''port'' of
              Some (BEN_INT port) \<Rightarrow>
                if port < 1 \<or> 65535 < port then Some m
                else do {
                  info_hash \<leftarrow> ben_str_s info_hash;
                  (val, from) \<leftarrow> val_put (w_verbose W) (me m) (s_value m) info_hash node_id port from (clock m);
                  send_announce_reply W (m\<lparr>s_value := val\<rparr>) from tid (length tid)
                }
            | _ \<Rightarrow> Some m
          }
      | _ \<Rightarrow> Some m)"

section \<open>Dispatch\<close>

definition p2p_request :: "WORLD \<Rightarrow> MAIN \<Rightarrow> BEN option \<Rightarrow> IP \<Rightarrow> MAIN option" where
  "p2p_request W m packet from =
     (let q = ben_dict_search_str packet ''q''; a = ben_dict_search_str packet ''a''; i = ben_dict_search_str a ''id'' in
      if \<not> ben_is_str q then Some m
      else if \<not> ben_is_dict a then Some m
      else if \<not> p2p_is_hash i then Some m
      else do {
        node_id \<leftarrow> ben_str_s i;
        if p2p_packet_from_myself m node_id then Some m
        else case ben_dict_search_str packet ''t'' of
          Some (BEN_STR t) \<Rightarrow>
            if TID_SIZE_MAX < length t then Some m
            else do {
              m \<leftarrow> main_nbhd_put W m node_id from;
              q \<leftarrow> ben_str_s q;
              if q = lit ''ping'' then p2p_ping W m t from
              else if q = lit ''find_node'' then p2p_find_node_get_request W m a t from
              else if q = lit ''get_peers'' then p2p_get_peers_get_request W m a t from
              else if q = lit ''announce_peer'' then p2p_announce_get_request W m a node_id t from
              else Some m
            }
        | _ \<Rightarrow> Some m
      })"

text \<open>What happens to the transaction after its reply was handled.\<close>

definition p2p_reply_done :: "MAIN \<Rightarrow> ptr option \<Rightarrow> MAIN option" where
  "p2p_reply_done m ti = do {
     type \<leftarrow> tdb_type (s_tdb m) ti;
     if type = P2P_PING \<or> type = P2P_FIND_NODE \<or> type = P2P_ANNOUNCE_ENGAGE
     then do { T \<leftarrow> tdb_del (s_tdb m) ti; Some (m\<lparr>s_tdb := T\<rparr>) }
     else Some m
   }"

definition p2p_reply :: "WORLD \<Rightarrow> MAIN \<Rightarrow> BEN option \<Rightarrow> IP \<Rightarrow> MAIN option" where
  "p2p_reply W m packet from =
     (let r = ben_dict_search_str packet ''r''; i = ben_dict_search_str r ''id'' in
      if \<not> ben_is_dict r then Some m
      else if \<not> p2p_is_hash i then Some m
      else do {
        node_id \<leftarrow> ben_str_s i;
        if p2p_packet_from_myself m node_id then Some m
        else case ben_dict_search_str packet ''t'' of
          Some (BEN_STR t) \<Rightarrow>
            if length t \<noteq> TID_SIZE then Some m
            else do {
              m \<leftarrow> main_nbhd_put W m node_id from;
              let ti = tdb_item (s_tdb m) t;
              type \<leftarrow> tdb_type (s_tdb m) ti;
              if type = P2P_PING \<or> type = P2P_PING_MULTICAST then do {
                m \<leftarrow> p2p_pong m node_id from; p2p_reply_done m ti
              } else if type = P2P_FIND_NODE then do {
                m \<leftarrow> p2p_find_node_get_reply W m r; p2p_reply_done m ti
              } else if type = P2P_GET_PEERS \<or> type = P2P_ANNOUNCE_START then do {
                m \<leftarrow> p2p_get_peers_get_reply W m r node_id ti from; p2p_reply_done m ti
              } else if type = P2P_ANNOUNCE_ENGAGE then p2p_reply_done m ti
              else Some m
            }
        | _ \<Rightarrow> Some m
      })"

text \<open>An error message is only logged: its code and text.\<close>

definition p2p_error :: "BEN option \<Rightarrow> (int \<times> bytes) option" where
  "p2p_error packet =
     (case ben_dict_search_str packet ''e'' of
        Some (BEN_LIST e) \<Rightarrow>
          (if e = [] then None
           else case (hd e, last e) of
             (BEN_INT code, BEN_STR msg) \<Rightarrow> if 100 < length msg then None else Some (code, msg)
           | _ \<Rightarrow> None)
      | _ \<Rightarrow> None)"

definition p2p_decode :: "WORLD \<Rightarrow> MAIN \<Rightarrow> bytes \<Rightarrow> nat \<Rightarrow> IP \<Rightarrow> MAIN option" where
  "p2p_decode W m bencode bensize from =
     (case ben_dec bencode bensize of
        Inl _ \<Rightarrow> None
      | Inr packet \<Rightarrow>
          if \<not> ben_is_dict packet then Some m
          else case ben_dict_search_str packet ''y'' of
            Some (BEN_STR [y]) \<Rightarrow>
              if y = chr CHR ''q'' then p2p_request W m packet from
              else if y = chr CHR ''r'' then p2p_reply W m packet from
              else Some m
          | _ \<Rightarrow> Some m)"

definition p2p_decrypt :: "WORLD \<Rightarrow> MAIN \<Rightarrow> bytes \<Rightarrow> nat \<Rightarrow> IP \<Rightarrow> MAIN option" where
  "p2p_decrypt W m bencode bensize from =
     (case ben_dec bencode bensize of
        Inl _ \<Rightarrow> None
      | Inr packet \<Rightarrow>
          if \<not> ben_is_dict packet then Some m
          else case ben_dict_search_str packet ''s'' of
            Some (BEN_STR salt) \<Rightarrow>
              if length salt \<noteq> AES_IV_SIZE then Some m
              else (case ben_dict_search_str packet ''a'' of
                Some (BEN_STR aes) \<Rightarrow>
                  if length aes \<le> 2 then Some m
                  else do {
                    plain \<leftarrow> aes_decrypt W aes salt (c_key (s_conf m));
                    case plain of None \<Rightarrow> Some m
                    | Some plain \<Rightarrow>
                        if length plain < SHA1_SIZE then Some m
                        else (case ben_validate (plain @ [0]) (length plain) of
                          Inl _ \<Rightarrow> None
                        | Inr ok \<Rightarrow> if ok then p2p_decode W m (plain @ [0]) (length plain) from else Some m)
                  }
              | _ \<Rightarrow> Some m)
          | _ \<Rightarrow> Some m)"

definition p2p_parse :: "WORLD \<Rightarrow> MAIN \<Rightarrow> bytes \<Rightarrow> nat \<Rightarrow> IP \<Rightarrow> time_t \<Rightarrow> MAIN option" where
  "p2p_parse W m bencode bensize from now =
     (let m = m\<lparr>s_p2p := (s_p2p m)\<lparr>pt_now := now\<rparr>\<rparr> in
      if bensize < 1 then Some m
      else if ip_is_linklocal (w_ver W) from then Some m
      else case ben_validate bencode bensize of
        Inl _ \<Rightarrow> None
      | Inr ok \<Rightarrow>
          if \<not> ok then Some m
          else if w_polarssl W \<and> c_bool_encryption (s_conf m) \<and> \<not> ip_is_localhost (w_ver W) from
          then p2p_decrypt W m bencode bensize from
          else p2p_decode W m bencode bensize from)"

end
