(* ===== verification/Cron.thy ===== *)
theory Cron
  imports P2p
begin

text \<open>
  The periodic work of \<^verbatim>\<open>src/src/p2p/p2p.c\<close>: bootstrapping, the deadlines of \<open>p2p_cron\<close> and what it starts; and \<open>tdb_expire\<close> of
  \<^verbatim>\<open>src/src/p2p/transaction.c\<close>, which announces when a search is over.
\<close>

section \<open>Bootstrap\<close>

abbreviation (input) BOOTSTRAP_LOCAL :: int where "BOOTSTRAP_LOCAL \<equiv> 0"
abbreviation (input) BOOTSTRAP_LAZY :: int where "BOOTSTRAP_LAZY \<equiv> 1"
abbreviation (input) BOOTSTRAP_HOST :: int where "BOOTSTRAP_HOST \<equiv> 2"
abbreviation (input) BOOTSTRAP_SIZE :: nat where "BOOTSTRAP_SIZE \<equiv> 3"
abbreviation (input) P2P_MAX_BOOTSTRAP_NODES :: nat where "P2P_MAX_BOOTSTRAP_NODES \<equiv> 20"

definition BOOTSTRAP_MCAST :: "ipver \<Rightarrow> bytes" where
  "BOOTSTRAP_MCAST v = lit (case v of IPV6 \<Rightarrow> ''ff0e::1'' | IPV4 \<Rightarrow> ''224.0.0.252'')"

fun ping_addresses :: "WORLD \<Rightarrow> MAIN \<Rightarrow> nat \<Rightarrow> IP list \<Rightarrow> MAIN option" where
  "ping_addresses W m 0 as = Some m"
| "ping_addresses W m (Suc i) [] = Some m"
| "ping_addresses W m (Suc i) (a # as) = do {
     (m, ti) \<leftarrow> main_tdb_put m
       (if c_bootstrap_node (s_conf m) = BOOTSTRAP_MCAST (w_ver W) then P2P_PING_MULTICAST else P2P_PING);
     tid \<leftarrow> tdb_tid (s_tdb m) ti;
     m \<leftarrow> send_ping W m a tid;
     ping_addresses W m i as
   }"

text \<open>The port is printed into six bytes.\<close>

definition p2p_bootstrap_this :: "WORLD \<Rightarrow> MAIN \<Rightarrow> bytes \<Rightarrow> nat \<Rightarrow> MAIN option" where
  "p2p_bootstrap_this W m bootstrap_node bootstrap_port =
     (case w_getaddrinfo W bootstrap_node (take 5 (long_digits (int bootstrap_port))) of
        None \<Rightarrow> Some m
      | Some addrinfo \<Rightarrow> ping_addresses W m P2P_MAX_BOOTSTRAP_NODES addrinfo)"

fun bootstrap_each :: "WORLD \<Rightarrow> MAIN \<Rightarrow> bytes list \<Rightarrow> MAIN option" where
  "bootstrap_each W m [] = Some m"
| "bootstrap_each W m (node # nodes) = do {
     m \<leftarrow> p2p_bootstrap_this W m node (c_bootstrap_port (s_conf m));
     bootstrap_each W m nodes
   }"

definition p2p_bootstrap :: "WORLD \<Rightarrow> MAIN \<Rightarrow> MAIN option" where
  "p2p_bootstrap W m =
     (let mode = c_bootstrap_mode (s_conf m) in
      if \<not> nbhd_is_empty (s_nbhd m) then Some m
      else if mode = BOOTSTRAP_LOCAL \<or> mode = BOOTSTRAP_HOST
      then p2p_bootstrap_this W m (c_bootstrap_node (s_conf m)) (c_bootstrap_port (s_conf m))
      else if mode = BOOTSTRAP_LAZY then bootstrap_each W m (take BOOTSTRAP_SIZE (c_bootstrap_lazy (s_conf m)))
      else None)"

section \<open>Announcing\<close>

text \<open>The eight best nodes of the search that have sent a token; \<open>j\<close> more are to be asked.\<close>

fun announce_loop :: "WORLD \<Rightarrow> MAIN \<Rightarrow> LOOKUP \<Rightarrow> nat \<Rightarrow> ptr list \<Rightarrow> MAIN option" where
  "announce_loop W m l 0 ps = Some m"
| "announce_loop W m l (Suc j) [] = Some m"
| "announce_loop W m l (Suc j) (p # ps) = do {
     n \<leftarrow> lk_mem l p;
     if nl_token n \<noteq> [] then do {
       (m, t_new) \<leftarrow> main_tdb_put m P2P_ANNOUNCE_ENGAGE;
       tid \<leftarrow> tdb_tid (s_tdb m) t_new;
       m \<leftarrow> send_announce_request W m (nl_addr n) tid (lk_target l) (nl_token n) (length (nl_token n));
       announce_loop W m l j ps
     } else announce_loop W m l (Suc j) ps
   }"

definition p2p_cron_announce :: "WORLD \<Rightarrow> MAIN \<Rightarrow> ptr option \<Rightarrow> MAIN option" where
  "p2p_cron_announce W m ti = do {
     lookup \<leftarrow> tdb_ldb (s_tdb m) ti;
     l \<leftarrow> lookup;
     announce_loop W m l 8 (lk_list l)
   }"

definition tdb_expire_body :: "WORLD \<Rightarrow> time_t \<Rightarrow> MAIN \<Rightarrow> ptr \<Rightarrow> TID \<Rightarrow> MAIN option" where
  "tdb_expire_body W now m item tid =
     (if now > t_time tid \<or> \<not> s_rumble m then do {
        m \<leftarrow> (if t_type tid = P2P_ANNOUNCE_START then p2p_cron_announce W m (Some item) else Some m);
        T \<leftarrow> tdb_del (s_tdb m) (Some item);
        Some (m\<lparr>s_tdb := T\<rparr>)
      } else Some m)"

definition tdb_expire :: "WORLD \<Rightarrow> MAIN \<Rightarrow> time_t \<Rightarrow> MAIN option" where
  "tdb_expire W m now = do {
     (L, item) \<leftarrow> list_start (td_list (s_tdb m));
     list_each (\<lambda>m. td_list (s_tdb m)) (tdb_expire_body W now) (m\<lparr>s_tdb := (s_tdb m)\<lparr>td_list := L\<rparr>\<rparr>) item
   }"

section \<open>Pinging and finding nodes\<close>

definition main_pinged :: "MAIN \<Rightarrow> bytes \<Rightarrow> MAIN option" where
  "main_pinged m i = do {
     (nb, g) \<leftarrow> nbhd_pinged (s_nbhd m) i (clock m) (s_rng m);
     Some (m\<lparr>s_nbhd := nb, s_rng := g\<rparr>)
   }"

text \<open>The nodes of one bucket, the \<open>j\<close>-th of which is next.\<close>

fun ping_nodes :: "WORLD \<Rightarrow> MAIN \<Rightarrow> nat \<Rightarrow> ptr list \<Rightarrow> MAIN option" where
  "ping_nodes W m j [] = Some m"
| "ping_nodes W m j (p # ps) = do {
     n \<leftarrow> nb_mem (s_nbhd m) p;
     m \<leftarrow> (if clock m > UDP_NODE.time_ping n then
             (if j < 8 then do {
                (m, ti) \<leftarrow> main_tdb_put m P2P_PING;
                tid \<leftarrow> tdb_tid (s_tdb m) ti;
                m \<leftarrow> send_ping W m (c_addr n) tid;
                main_pinged m (n_id n)
              } else main_pinged m (n_id n))
           else Some m);
     ping_nodes W m (Suc j) ps
   }"

text \<open>A ping changes nodes, never a bucket, so the loop runs over the buckets there were at its start.\<close>

fun ping_buckets :: "WORLD \<Rightarrow> MAIN \<Rightarrow> BUCK list \<Rightarrow> MAIN option" where
  "ping_buckets W m [] = Some m"
| "ping_buckets W m (b # bs) = do {
     m \<leftarrow> ping_nodes W m 0 (b_nodes b);
     ping_buckets W m bs
   }"

definition p2p_cron_ping :: "WORLD \<Rightarrow> MAIN \<Rightarrow> MAIN option" where
  "p2p_cron_ping W m = ping_buckets W m (nb_bucket (s_nbhd m))"

fun find_nodes :: "WORLD \<Rightarrow> MAIN \<Rightarrow> bytes \<Rightarrow> nat \<Rightarrow> ptr list \<Rightarrow> MAIN option" where
  "find_nodes W m target 0 ps = Some m"
| "find_nodes W m target (Suc j) [] = Some m"
| "find_nodes W m target (Suc j) (p # ps) = do {
     n \<leftarrow> nb_mem (s_nbhd m) p;
     m \<leftarrow> (if clock m > UDP_NODE.time_find n then do {
             (m, ti) \<leftarrow> main_tdb_put m P2P_FIND_NODE;
             tid \<leftarrow> tdb_tid (s_tdb m) ti;
             m \<leftarrow> send_find_node_request W m (c_addr n) target tid;
             let (t, g) = time_add_5_min_approx (clock m) (s_rng m);
             Some (m\<lparr>s_nbhd := (s_nbhd m)\<lparr>nb_mem := (nb_mem (s_nbhd m))(p \<mapsto> n\<lparr>time_find := t\<rparr>)\<rparr>, s_rng := g\<rparr>)
           } else Some m);
     find_nodes W m target j ps
   }"

definition p2p_cron_find :: "WORLD \<Rightarrow> MAIN \<Rightarrow> bytes \<Rightarrow> MAIN option" where
  "p2p_cron_find W m target = do {
     item_b \<leftarrow> bckt_find_any_match (nb_bucket (s_nbhd m)) target;
     case item_b of None \<Rightarrow> Some m
     | Some k \<Rightarrow> find_nodes W m target 8 (b_nodes (nb_bucket (s_nbhd m) ! k))
   }"

definition p2p_cron_find_myself :: "WORLD \<Rightarrow> MAIN \<Rightarrow> MAIN option" where
  "p2p_cron_find_myself W m = p2p_cron_find W m (me m)"

definition p2p_cron_find_random :: "WORLD \<Rightarrow> MAIN \<Rightarrow> MAIN option" where
  "p2p_cron_find_random W m =
     (let (node_id, g) = rand_urandom (s_rng m) SHA1_SIZE in p2p_cron_find W (m\<lparr>s_rng := g\<rparr>) node_id)"

section \<open>Searching\<close>

definition p2p_cron_lookup :: "WORLD \<Rightarrow> MAIN \<Rightarrow> bytes \<Rightarrow> nat \<Rightarrow> MAIN option" where
  "p2p_cron_lookup W m target type = start_search W m target type None"

fun lookup_ids :: "WORLD \<Rightarrow> MAIN \<Rightarrow> ID list \<Rightarrow> (MAIN \<times> ID list) option" where
  "lookup_ids W m [] = Some (m, [])"
| "lookup_ids W m (i # ids) = do {
     (m, i) \<leftarrow> (if clock m > id_time_announce_host i then do {
                  m \<leftarrow> p2p_cron_lookup W m (id_host_id i) P2P_ANNOUNCE_START;
                  let (t, g) = time_add_5_min_approx (clock m) (s_rng m);
                  Some (m\<lparr>s_rng := g\<rparr>, i\<lparr>id_time_announce_host := t\<rparr>)
                } else Some (m, i));
     (m, ids) \<leftarrow> lookup_ids W m ids;
     Some (m, i # ids)
   }"

definition p2p_cron_lookup_all :: "WORLD \<Rightarrow> MAIN \<Rightarrow> MAIN option" where
  "p2p_cron_lookup_all W m = do {
     (m, ids) \<leftarrow> lookup_ids W m (s_identity m);
     Some (m\<lparr>s_identity := ids\<rparr>)
   }"

definition main_cache_renew :: "WORLD \<Rightarrow> MAIN \<Rightarrow> MAIN option" where
  "main_cache_renew W m = do {
     (c, m) \<leftarrow> cache_renew (w_verbose W) (\<lambda>m target. p2p_cron_lookup W m target P2P_GET_PEERS)
       (\<lambda>m. let (t, g) = time_add_5_min_approx (clock m) (s_rng m) in (t, m\<lparr>s_rng := g\<rparr>)) (clock m) (s_cache m) m;
     Some (m\<lparr>s_cache := c\<rparr>)
   }"

section \<open>The clockwork\<close>

text \<open>\<open>if (time_now.tv_sec > deadline) { work; time_add_..._approx(&deadline); }\<close>\<close>

definition every :: "(P2P \<Rightarrow> time_t) \<Rightarrow> ((time_t \<Rightarrow> time_t) \<Rightarrow> P2P \<Rightarrow> P2P) \<Rightarrow> (time_t \<Rightarrow> rng \<Rightarrow> time_t \<times> rng) \<Rightarrow>
    (MAIN \<Rightarrow> MAIN option) \<Rightarrow> MAIN \<Rightarrow> MAIN option" where
  "every deadline set_deadline next_time work m =
     (if clock m > deadline (s_p2p m) then do {
        m \<leftarrow> work m;
        let (t, g) = next_time (clock m) (s_rng m);
        Some (m\<lparr>s_rng := g, s_p2p := set_deadline (\<lambda>_. t) (s_p2p m)\<rparr>)
      } else Some m)"

definition main_tkn_put :: "MAIN \<Rightarrow> MAIN option" where
  "main_tkn_put m = do {
     (T, g) \<leftarrow> tkn_put (s_token m) (clock m) (s_rng m);
     Some (m\<lparr>s_token := T, s_rng := g\<rparr>)
   }"

definition main_expire :: "WORLD \<Rightarrow> MAIN \<Rightarrow> MAIN option" where
  "main_expire W m = do {
     m \<leftarrow> tdb_expire W m (clock m);
     nb \<leftarrow> nbhd_expire (s_nbhd m);
     val \<leftarrow> val_expire (s_value m) (clock m);
     tkn \<leftarrow> tkn_expire (s_token m) (clock m);
     c \<leftarrow> cache_expire (s_cache m) (clock m);
     Some (m\<lparr>s_nbhd := nb, s_value := val, s_token := tkn, s_cache := c\<rparr>)
   }"

definition main_split :: "MAIN \<Rightarrow> MAIN option" where
  "main_split m = do { nb \<leftarrow> nbhd_split (s_nbhd m) (me m); Some (m\<lparr>s_nbhd := nb\<rparr>) }"

text \<open>\<open>udp_multicast\<close> of \<^verbatim>\<open>src/src/p2p/udp.c\<close>; whether the socket option can be set is up to the system.\<close>

definition udp_multicast :: "WORLD \<Rightarrow> MAIN \<Rightarrow> bool \<Rightarrow> bool \<Rightarrow> MAIN" where
  "udp_multicast W m enabled start =
     (if \<not> enabled then m else if \<not> w_join W (clock m) then m else m\<lparr>s_multicast := start\<rparr>)"

definition p2p_cron_busy :: "WORLD \<Rightarrow> MAIN \<Rightarrow> MAIN option" where
  "p2p_cron_busy W m = do {
     m \<leftarrow> every pt_token pt_token_update time_add_5_min_approx main_tkn_put m;
     m \<leftarrow> every pt_expire pt_expire_update time_add_1_min_approx (main_expire W) m;
     m \<leftarrow> every pt_split pt_split_update time_add_5_sec_approx main_split m;
     m \<leftarrow> every pt_find pt_find_update time_add_5_sec_approx (p2p_cron_find_myself W) m;
     m \<leftarrow> every pt_maintainance pt_maintainance_update time_add_5_sec_approx (p2p_cron_find_random W) m;
     m \<leftarrow> every pt_announce_host pt_announce_host_update time_add_5_sec_approx (p2p_cron_lookup_all W) m;
     m \<leftarrow> every pt_ping pt_ping_update time_add_5_sec_approx (p2p_cron_ping W) m;
     every pt_cache pt_cache_update time_add_5_sec_approx (main_cache_renew W) m
   }"

definition p2p_cron :: "WORLD \<Rightarrow> MAIN \<Rightarrow> time_t \<Rightarrow> MAIN option" where
  "p2p_cron W m now = do {
     let m = m\<lparr>s_p2p := (s_p2p m)\<lparr>pt_now := now\<rparr>\<rparr>;
     m \<leftarrow> (if nbhd_is_empty (s_nbhd m)
           then every pt_restart pt_restart_update time_add_1_min_approx (p2p_bootstrap W) m
           else p2p_cron_busy W m);
     if \<not> s_multicast m
     then every pt_multicast pt_multicast_update time_add_5_min_approx (\<lambda>m. Some (udp_multicast W m True True)) m
     else Some m
   }"

end
