(* ===== verification/Table.thy ===== *)
theory Table
  imports Neighbourhood
begin

text \<open>
  The size of the routing table.  Only the bucket that covers the own identifier is split, and every split sets the next bit, so
  there are never more buckets than an identifier has bits, and one.
\<close>

section \<open>Identifiers of buckets\<close>

lemma best_match_ids: "map b_id bs = map b_id cs \<Longrightarrow> bckt_find_best_match bs i = bckt_find_best_match cs i"
proof (induction bs arbitrary: cs)
  case (Cons b bs)
  then obtain c cs' where c: "cs = c # cs'" "map b_id bs = map b_id cs'" by (metis list.simps(9) map_eq_Cons_conv)
  then show ?case using Cons.IH [OF c(2)] by (cases bs; cases cs') auto
qed simp

lemma at_depth_ids:
  assumes "map b_id bs = map b_id cs" and "ids_ok bs" and "length t = SHA1_SIZE"
  shows "at_depth bs t = at_depth cs t"
proof -
  have l: "length bs = length cs" by (rule map_eq_imp_length_eq [OF assms(1)])
  have n: "j < length bs \<Longrightarrow> b_id (bs ! j) = b_id (cs ! j)" for j
    using assms(1) l by (metis nth_map)
  obtain xs b ys where s: "bs = xs @ b # ys" "bckt_find_best_match bs t = Some (length xs)"
    by (rule best_split [OF assms(2,3)])
  define k where "k = length xs"
  have k: "bckt_find_best_match bs t = Some k" "k < length bs" using s(2) by (simp_all add: k_def) (simp add: s(1))
  then have "bckt_find_best_match cs t = Some k" using best_match_ids [OF assms(1), of t] by simp
  with k n [of k] n [of "Suc k"] l show ?thesis by (simp add: at_depth_def depth_def)
qed

definition grown :: "bytes \<Rightarrow> BUCK list \<Rightarrow> bool" where
  "grown my_id bs \<longleftrightarrow> int (length bs) \<le> at_depth bs my_id + 2"

lemma grown_ids: "map b_id cs = map b_id bs \<Longrightarrow> ids_ok bs \<Longrightarrow> length my_id = SHA1_SIZE \<Longrightarrow> grown my_id bs \<Longrightarrow> grown my_id cs"
  using at_depth_ids [of bs cs my_id] map_eq_imp_length_eq [of b_id cs b_id bs] by (simp add: grown_def)

lemma grown_init: "grown my_id bckt_init"
proof -
  have "sig_byte (replicate SHA1_SIZE 0) n = - 1" if "n \<le> SHA1_SIZE" for n
    using that by (induction n) simp_all
  then have "bckt_significant_bit (replicate SHA1_SIZE 0) = - 1" by (simp add: bckt_significant_bit_def)
  then show ?thesis by (simp add: grown_def bckt_init_def at_depth_def depth_def)
qed

lemma at_depth_le:
  assumes "ids_ok bs" and "length t = SHA1_SIZE"
  shows "at_depth bs t \<le> 159"
proof -
  have "bckt_significant_bit i \<le> 159" if "length i = SHA1_SIZE" for i
    using significant_bit_spec [OF that] by auto
  moreover have "\<forall>b \<in> set bs. length (b_id b) = SHA1_SIZE" using assms(1) by (simp add: ids_ok_def)
  moreover obtain xs b ys where "bs = xs @ b # ys" "bckt_find_best_match bs t = Some (length xs)"
    using best_split [OF assms] by blast
  ultimately show ?thesis by (cases ys) (auto simp: at_depth_def depth_def nth_append)
qed

lemma grown_length: "grown my_id bs \<Longrightarrow> ids_ok bs \<Longrightarrow> length my_id = SHA1_SIZE \<Longrightarrow> length bs \<le> 161"
  using at_depth_le [of bs my_id] by (simp add: grown_def)

section \<open>Every operation keeps it\<close>

lemma same_id: "(map b_id bs)[k := b_id (bs ! k)] = map b_id bs"
  by (cases "k < length bs") (simp_all flip: map_update)

lemma bckt_put_ids: "bckt_put mem bs p = Some (bs', r) \<Longrightarrow> map b_id bs' = map b_id bs"
  by (auto simp: bckt_put_def Let_def map_update same_id split: option.splits bind_splits if_splits)

lemma bckt_del_ids: "bckt_del mem bs p = Some bs' \<Longrightarrow> map b_id bs' = map b_id bs"
  by (auto simp: bckt_del_def Let_def map_update same_id split: option.splits bind_splits if_splits)

lemma nbhd_put_ids: "nbhd_put v my_id nb i sa = Some nb' \<Longrightarrow> map b_id (nb_bucket nb') = map b_id (nb_bucket nb)"
  by (auto simp: nbhd_put_def Let_def dest!: bckt_put_ids split: if_splits option.splits bind_splits)

lemma nbhd_del_ids: "nbhd_del nb p = Some nb' \<Longrightarrow> map b_id (nb_bucket nb') = map b_id (nb_bucket nb)"
  by (auto simp: nbhd_del_def dest: bckt_del_ids split: bind_splits)

lemma expire_nodes_ids: "expire_nodes nb ps = Some nb' \<Longrightarrow> map b_id (nb_bucket nb') = map b_id (nb_bucket nb)"
proof (induction ps arbitrary: nb)
  case (Cons p ps)
  then show ?case by (auto split: bind_splits if_splits dest: nbhd_del_ids)
qed simp

lemma expire_buckets_ids: "expire_buckets nb ks = Some nb' \<Longrightarrow> map b_id (nb_bucket nb') = map b_id (nb_bucket nb)"
proof (induction ks arbitrary: nb)
  case (Cons k ks)
  then show ?case by (auto split: bind_splits) (metis expire_nodes_ids)
qed simp

lemma nbhd_expire_ids: "nbhd_expire nb = Some nb' \<Longrightarrow> map b_id (nb_bucket nb') = map b_id (nb_bucket nb)"
  unfolding nbhd_expire_def by (rule expire_buckets_ids)

lemma split_loop_grown:
  assumes t: "length t = SHA1_SIZE"
  shows "buckets_ok mem bs \<Longrightarrow> grown t bs \<Longrightarrow> bckt_split_loop mem bs t = Some bs' \<Longrightarrow> grown t bs'"
proof (induction "nat (159 - at_depth bs t)" arbitrary: bs rule: less_induct)
  case less
  from less.prems(1) t show ?case
  proof (cases rule: bckt_split_ok)
    case stop
    with less.prems show ?thesis by (subst (asm) bckt_split_loop.simps) simp
  next
    case (split cs)
    have "nat (159 - at_depth cs t) < nat (159 - at_depth bs t)" using split by linarith
    moreover have "grown t cs" using less.prems(2) split by (simp add: grown_def)
    moreover have "bckt_split_loop mem cs t = Some bs'" using less.prems(3) split by (subst (asm) bckt_split_loop.simps) simp
    ultimately show ?thesis using less.hyps split(2) by blast
  qed
qed

lemma nbhd_split_grown:
  "nbhd_split nb t = Some nb' \<Longrightarrow> nbhd_ok nb \<Longrightarrow> length t = SHA1_SIZE \<Longrightarrow> grown t (nb_bucket nb) \<Longrightarrow> grown t (nb_bucket nb')"
  using split_loop_grown [OF _ nbhd_okD(1)] by (auto simp: nbhd_split_def split: bind_splits)

section \<open>The bound\<close>

lemma all_nodes_le: "\<forall>b \<in> set bs. length (b_nodes b) \<le> k \<Longrightarrow> length (all_nodes bs) \<le> length bs * k"
  by (induction bs) (auto simp: all_nodes_def)

lemma nodes_le:
  assumes ok: "nbhd_ok nb" and "grown my_id (nb_bucket nb)" and "length my_id = SHA1_SIZE"
  shows "length (nb_bucket nb) \<le> 161" "card (dom (nb_mem nb)) \<le> 3220"
proof -
  note b = nbhd_okD(1) [OF ok]
  show l: "length (nb_bucket nb) \<le> 161" by (rule grown_length [OF assms(2) buckets_okD(1) [OF b] assms(3)])
  have "card (dom (nb_mem nb)) \<le> length (all_nodes (nb_bucket nb))" unfolding nbhd_okD(3) [OF ok] by (rule card_length)
  also have "\<dots> \<le> length (nb_bucket nb) * BCKT_SIZE_MAX"
    by (rule all_nodes_le) (use buckets_okD(3) [OF b] in \<open>simp add: nodes_ok_def\<close>)
  also have "\<dots> \<le> 161 * BCKT_SIZE_MAX" using l by (intro mult_le_mono) simp_all
  finally show "card (dom (nb_mem nb)) \<le> 3220" by simp
qed

lemma nbhd_touch_bucket:
  "nbhd_pinged nb i now g = Some (nb', g') \<Longrightarrow> nb_bucket nb' = nb_bucket nb"
  "nbhd_ponged nb i from now g = Some (nb', g') \<Longrightarrow> nb_bucket nb' = nb_bucket nb"
  by (auto simp: nbhd_pinged_def nbhd_ponged_def case_prod_beta split: option.splits bind_splits)

lemma nbhd_do_grown:
  assumes "nbhd_do v my_id op nb = Some nb'" and ok: "nbhd_ok nb" and me: "length my_id = SHA1_SIZE" and g: "grown my_id (nb_bucket nb)"
  shows "grown my_id (nb_bucket nb')"
proof (cases "op = NSplit")
  case True
  with assms nbhd_split_grown [OF _ ok me g] show ?thesis by (simp add: nbhd_do_def)
next
  case False
  then have "map b_id (nb_bucket nb') = map b_id (nb_bucket nb)"
    using assms(1) by (auto simp: nbhd_do_def dest: nbhd_put_ids nbhd_expire_ids nbhd_touch_bucket split: nbhd_op.splits bind_splits)
  from grown_ids [OF this buckets_okD(1) [OF nbhd_okD(1) [OF ok]] me g] show ?thesis .
qed

lemma nbhd_run_grown:
  assumes "nbhd_ok nb" and "strangers my_id nb" and me: "length my_id = SHA1_SIZE" and "\<forall>op \<in> set ops. valid_op op"
    and "grown my_id (nb_bucket nb)"
  shows "\<exists>nb'. nbhd_run v my_id ops nb = Some nb' \<and> nbhd_ok nb' \<and> grown my_id (nb_bucket nb')"
  using assms(1,2,4,5)
proof (induction ops arbitrary: nb)
  case (Cons op ops)
  have v: "valid_op op" using Cons.prems by simp
  have "int (card (dom (nb_mem nb))) < LONG_MAX" using nodes_le(2) [OF Cons.prems(1,4) me] by simp
  from nbhd_do_ok [OF Cons.prems(1,2) me v this, of v] obtain nb1 where
    n1: "nbhd_do v my_id op nb = Some nb1" "nbhd_ok nb1" "strangers my_id nb1" by blast
  have "grown my_id (nb_bucket nb1)" by (rule nbhd_do_grown [OF n1(1) Cons.prems(1) me Cons.prems(4)])
  with Cons.IH [OF n1(2,3)] Cons.prems n1(1) show ?case by simp
qed simp

text \<open>
  C24: The routing table is bounded.  However long the program runs and whatever peers it hears of, it never keeps more than 161 buckets
  and 3220 nodes, and no run of calls of any length fails.
\<close>

theorem nbhd_bounded:
  assumes "length my_id = SHA1_SIZE" and "\<forall>op \<in> set ops. valid_op op"
  shows "\<exists>nb. nbhd_run v my_id ops nbhd_init = Some nb \<and> length (nb_bucket nb) \<le> 161 \<and> card (dom (nb_mem nb)) \<le> 3220"
proof -
  have s: "strangers my_id nbhd_init" by (simp add: strangers_def nbhd_init_def)
  have g: "grown my_id (nb_bucket nbhd_init)" by (simp add: nbhd_init_def grown_init)
  from nbhd_run_grown [OF nbhd_ok_init s assms g] nodes_le [OF _ _ assms(1)] show ?thesis by blast
qed

theorem nbhd_bounded_witness:
  "\<exists>nb. nbhd_run IPV4 (replicate 20 1) [NPut (replicate 20 2) ex_ip, NSplit, NExpire] nbhd_init = Some nb \<and>
     length (nb_bucket nb) \<le> 161 \<and> card (dom (nb_mem nb)) \<le> 3220"
  by (rule nbhd_bounded) (simp_all add: valid_op_def)

end
