(* ===== verification/Invariant.thy ===== *)
theory Invariant
  imports Cron Table
begin

text \<open>
  The invariant of the whole program and that every handler keeps it.  \<open>main_ok W k m\<close> says that every database of the state \<open>m\<close>
  satisfies its own invariant, that every outstanding search is linked to its transaction, that there is a token to give out
  which will still be valid when the next one is due, and that the lists are so far from the largest \<open>LONG\<close> that \<open>k\<close> more objects fit.
\<close>

section \<open>Parts\<close>

definition nb_part :: "ipver \<Rightarrow> bytes \<Rightarrow> NBHD \<Rightarrow> nat \<Rightarrow> bool" where
  "nb_part v my_id nb a \<longleftrightarrow> nbhd_ok nb \<and> grown my_id (nb_bucket nb) \<and> (\<forall>n \<in> ran (nb_mem nb). ip_ok v (c_addr n)) \<and> card (dom (nb_mem nb)) \<le> a"

definition tid_ok :: "ipver \<Rightarrow> TID \<Rightarrow> bool" where
  "tid_ok v t \<longleftrightarrow> length (t_id t) = TID_SIZE \<and> (\<forall>l. t_lookup t = Some l \<longrightarrow> ldb_ok v l) \<and>
     (t_type t = P2P_ANNOUNCE_START \<longrightarrow> t_lookup t \<noteq> None)"

text \<open>A search that announces at its end will turn into at most eight announcements.\<close>

definition t_weight :: "TID \<Rightarrow> nat" where
  "t_weight t = (if t_type t = P2P_ANNOUNCE_START then 9 else 1)"

definition weight :: "(ptr \<times> TID) list \<Rightarrow> nat" where
  "weight xs = sum_list (map (\<lambda>x. t_weight (snd x)) xs)"

definition tdb_part :: "ipver \<Rightarrow> TDB \<Rightarrow> nat \<Rightarrow> bool" where
  "tdb_part v T b \<longleftrightarrow> (\<exists>xs. tids T xs \<and> (\<forall>x \<in> set xs. tid_ok v (snd x)) \<and> weight xs \<le> b)"

definition tkn_part :: "obj_token \<Rightarrow> time_t \<Rightarrow> nat \<Rightarrow> bool" where
  "tkn_part T d c \<longleftrightarrow> (\<exists>xs. tokens T xs \<and> (\<forall>x \<in> set xs. length (tkn_id (snd x)) = TOKEN_SIZE) \<and>
     (\<exists>x \<in> set xs. d \<le> tkn_time (snd x)) \<and> length xs \<le> c)"

definition conf_ok :: "CONF \<Rightarrow> bool" where
  "conf_ok c \<longleftrightarrow> length (c_node_id c) = SHA1_SIZE \<and> c_bootstrap_mode c \<in> {BOOTSTRAP_LOCAL, BOOTSTRAP_LAZY, BOOTSTRAP_HOST}"

text \<open>The host names are given on the command line, and the system does not pass on two million bytes of those.\<close>

abbreviation (input) ID_MAX :: nat where "ID_MAX \<equiv> 1048576"

definition names_ok :: "ID list \<Rightarrow> bool" where
  "names_ok ids \<longleftrightarrow> length ids \<le> ID_MAX \<and> (\<forall>i \<in> set ids. length (id_host_id i) = SHA1_SIZE)"

definition main_ok :: "WORLD \<Rightarrow> nat \<Rightarrow> MAIN \<Rightarrow> bool" where
  "main_ok W k m \<longleftrightarrow> conf_ok (s_conf m) \<and> rng_ok (s_rng m) \<and>
     (\<exists>ts. val_rep (w_ver W) (me m) (s_value m) ts) \<and> (\<exists>ts. cache_rep (w_ver W) (s_cache m) ts) \<and>
     names_ok (s_identity m) \<and>
     (\<exists>a b c. nb_part (w_ver W) (me m) (s_nbhd m) a \<and> tdb_part (w_ver W) (s_tdb m) b \<and> tkn_part (s_token m) (pt_token (s_p2p m)) c \<and>
        int (a + b + c + k) < LONG_MAX)"

lemma main_okD:
  assumes "main_ok W k m"
  shows "length (me m) = SHA1_SIZE" "rng_ok (s_rng m)" "\<exists>ts. val_rep (w_ver W) (me m) (s_value m) ts"
    "\<exists>ts. cache_rep (w_ver W) (s_cache m) ts" "names_ok (s_identity m)"
    "\<exists>a. nb_part (w_ver W) (me m) (s_nbhd m) a" "\<exists>b. tdb_part (w_ver W) (s_tdb m) b" "\<exists>c. tkn_part (s_token m) (pt_token (s_p2p m)) c"
    "conf_ok (s_conf m)"
  using assms unfolding main_ok_def conf_ok_def by blast+

lemma main_ok_parts:
  assumes "main_ok W k m"
  obtains a b c where "nb_part (w_ver W) (me m) (s_nbhd m) a" "tdb_part (w_ver W) (s_tdb m) b" "tkn_part (s_token m) (pt_token (s_p2p m)) c"
    "int (a + b + c + k) < LONG_MAX"
  using assms unfolding main_ok_def by blast

lemma main_okI:
  assumes "conf_ok (s_conf m)" "rng_ok (s_rng m)" "\<exists>ts. val_rep (w_ver W) (me m) (s_value m) ts"
    "\<exists>ts. cache_rep (w_ver W) (s_cache m) ts" "names_ok (s_identity m)"
    "nb_part (w_ver W) (me m) (s_nbhd m) a" "tdb_part (w_ver W) (s_tdb m) b" "tkn_part (s_token m) (pt_token (s_p2p m)) c"
    "int (a + b + c + k) < LONG_MAX"
  shows "main_ok W k m"
  using assms unfolding main_ok_def by blast

lemma main_ok_mono:
  assumes "main_ok W k m" and "j \<le> k"
  shows "main_ok W j m"
proof -
  obtain a b c where p: "nb_part (w_ver W) (me m) (s_nbhd m) a" "tdb_part (w_ver W) (s_tdb m) b" "tkn_part (s_token m) (pt_token (s_p2p m)) c"
    "int (a + b + c + k) < LONG_MAX" by (rule main_ok_parts [OF assms(1)])
  show ?thesis by (rule main_okI [OF main_okD(9,2-5) [OF assms(1)] p(1-3)]) (use p(4) assms(2) in simp)
qed

text \<open>Replacing one part.\<close>

lemma main_ok_rng: "main_ok W k m \<Longrightarrow> rng_ok g \<Longrightarrow> main_ok W k (m\<lparr>s_rng := g\<rparr>)"
  by (simp add: main_ok_def)

lemma main_ok_sent:
  assumes "main_ok W k m" and "sent m m'"
  shows "main_ok W k m'"
proof -
  from assms(2) obtain out g where "m' = m\<lparr>s_out := s_out m @ out, s_rng := g\<rparr>" "rng_ok g" by (auto simp: sent_def)
  with assms(1) show ?thesis by (simp add: main_ok_def)
qed

lemma main_ok_out: "main_ok W k (m\<lparr>s_dns_out := x\<rparr>) = main_ok W k m"
  by (simp add: main_ok_def)

lemma main_ok_value:
  "main_ok W k m \<Longrightarrow> val_rep (w_ver W) (me m) val ts \<Longrightarrow> main_ok W k (m\<lparr>s_value := val\<rparr>)"
  by (auto simp: main_ok_def)

lemma main_ok_cache:
  "main_ok W k m \<Longrightarrow> cache_rep (w_ver W) c ts \<Longrightarrow> main_ok W k (m\<lparr>s_cache := c\<rparr>)"
  by (auto simp: main_ok_def)

lemma main_ok_nbhd:
  assumes "main_ok W (k + j) m" and "\<And>a. nb_part (w_ver W) (me m) (s_nbhd m) a \<Longrightarrow> int a + int j < LONG_MAX \<Longrightarrow> nb_part (w_ver W) (me m) nb (a + j)"
  shows "main_ok W k (m\<lparr>s_nbhd := nb\<rparr>)"
proof -
  obtain a b c where p: "nb_part (w_ver W) (me m) (s_nbhd m) a" "tdb_part (w_ver W) (s_tdb m) b" "tkn_part (s_token m) (pt_token (s_p2p m)) c"
    "int (a + b + c + (k + j)) < LONG_MAX" by (rule main_ok_parts [OF assms(1)])
  have "nb_part (w_ver W) (me m) nb (a + j)" by (rule assms(2) [OF p(1)]) (use p(4) in simp)
  with p main_okD [OF assms(1)] show ?thesis
    by (intro main_okI [where a = "a + j" and b = b and c = c]) simp_all
qed

lemma main_ok_tdb:
  assumes "main_ok W (k + j) m" and "\<And>b. tdb_part (w_ver W) (s_tdb m) b \<Longrightarrow> int b + int j < LONG_MAX \<Longrightarrow> tdb_part (w_ver W) T (b + j)"
  shows "main_ok W k (m\<lparr>s_tdb := T\<rparr>)"
proof -
  obtain a b c where p: "nb_part (w_ver W) (me m) (s_nbhd m) a" "tdb_part (w_ver W) (s_tdb m) b" "tkn_part (s_token m) (pt_token (s_p2p m)) c"
    "int (a + b + c + (k + j)) < LONG_MAX" by (rule main_ok_parts [OF assms(1)])
  have "tdb_part (w_ver W) T (b + j)" by (rule assms(2) [OF p(2)]) (use p(4) in simp)
  with p main_okD [OF assms(1)] show ?thesis
    by (intro main_okI [where a = a and b = "b + j" and c = c]) simp_all
qed

lemma weight_simps [simp]: "weight [] = 0" "weight (x # xs) = t_weight (snd x) + weight xs" "weight (xs @ ys) = weight xs + weight ys"
  by (simp_all add: weight_def)

lemma weight_length: "length xs \<le> weight xs"
  by (induction xs) (simp_all add: t_weight_def)

lemma main_update_order [simp]:
  "m\<lparr>s_rng := g, s_tdb := T\<rparr> = m\<lparr>s_tdb := T, s_rng := g\<rparr>"
  "m\<lparr>s_rng := g, s_cache := c\<rparr> = m\<lparr>s_cache := c, s_rng := g\<rparr>"
  "m\<lparr>s_rng := g, s_nbhd := nb\<rparr> = m\<lparr>s_nbhd := nb, s_rng := g\<rparr>"
  by (cases m; simp)+

section \<open>The neighbourhood\<close>

lemma nb_part_update:
  assumes "nb_part v my nb a" and "nb_mem nb p = Some n" and "n_id n' = n_id n" and "ip_ok v (c_addr n')"
  shows "nb_part v my (nb\<lparr>nb_mem := (nb_mem nb)(p \<mapsto> n')\<rparr>) a"
proof -
  have "ran ((nb_mem nb)(p \<mapsto> n')) \<subseteq> insert n' (ran (nb_mem nb))" by (auto simp: ran_def)
  moreover have "dom ((nb_mem nb)(p \<mapsto> n')) = dom (nb_mem nb)" using assms(2) by auto
  ultimately show ?thesis using assms nbhd_ok_update [of nb p n n'] by (auto simp: nb_part_def)
qed

lemma main_nbhd_put_ok:
  assumes ok: "main_ok W (Suc k) m" and i: "length i = SHA1_SIZE" and f: "ip_ok (w_ver W) sin"
  shows "\<exists>nb. main_nbhd_put W m i sin = Some (m\<lparr>s_nbhd := nb\<rparr>) \<and> main_ok W k (m\<lparr>s_nbhd := nb\<rparr>)"
proof -
  obtain a b c where p: "nb_part (w_ver W) (me m) (s_nbhd m) a" "int (a + b + c + Suc k) < LONG_MAX" by (rule main_ok_parts [OF ok])
  then have n: "nbhd_ok (s_nbhd m)" and r: "int (card (dom (nb_mem (s_nbhd m)))) < LONG_MAX" by (auto simp: nb_part_def)
  from nbhd_put_ok [OF n i r, of "w_ver W" "me m" sin] obtain nb where
    nb: "nbhd_put (w_ver W) (me m) (s_nbhd m) i sin = Some nb" "nbhd_ok nb" "card (dom (nb_mem nb)) \<le> Suc (card (dom (nb_mem (s_nbhd m))))"
    "\<forall>p n. nb_mem nb p = Some n \<longrightarrow> nb_mem (s_nbhd m) p = Some n \<or> n_id n = i \<and> c_addr n = sin \<and> \<not> node_me (me m) i \<and> \<not> ip_is_localhost (w_ver W) sin"
    by blast
  have g: "grown (me m) (nb_bucket nb)"
    by (rule grown_ids [OF nbhd_put_ids [OF nb(1)] buckets_okD(1) [OF nbhd_okD(1) [OF n]] main_okD(1) [OF ok]]) (use p(1) in \<open>simp add: nb_part_def\<close>)
  have "nb_part (w_ver W) (me m) nb (x + 1)" if "nb_part (w_ver W) (me m) (s_nbhd m) x" for x
    using that nb(2,3,4) f g by (fastforce simp: nb_part_def ran_def)
  then have "main_ok W k (m\<lparr>s_nbhd := nb\<rparr>)" by (intro main_ok_nbhd [where j = 1]) (use ok in simp_all)
  with nb(1) show ?thesis by (auto simp: main_nbhd_put_def)
qed

lemma rng_ok_node [simp]:
  "rng_ok (snd (node_pinged n now g)) = rng_ok g" "rng_ok (snd (node_ponged n from now g)) = rng_ok g"
  by (simp_all add: node_pinged_def node_ponged_def Let_def case_prod_beta)

lemma node_touch [simp]:
  "n_id (fst (node_pinged n now g)) = n_id n" "c_addr (fst (node_pinged n now g)) = c_addr n"
  "n_id (fst (node_ponged n from now g)) = n_id n" "c_addr (fst (node_ponged n from now g)) = from"
  by (simp_all add: node_pinged_def node_ponged_def Let_def case_prod_beta)

lemma main_ok_touch:
  assumes ok: "main_ok W k m" and p: "nb_mem (s_nbhd m) p = Some n" and n': "n_id n' = n_id n" "ip_ok (w_ver W) (c_addr n')" and g: "rng_ok g"
  shows "main_ok W k (m\<lparr>s_nbhd := (s_nbhd m)\<lparr>nb_mem := (nb_mem (s_nbhd m))(p \<mapsto> n')\<rparr>, s_rng := g\<rparr>)"
proof -
  have "main_ok W k (m\<lparr>s_nbhd := (s_nbhd m)\<lparr>nb_mem := (nb_mem (s_nbhd m))(p \<mapsto> n')\<rparr>\<rparr>)"
    by (rule main_ok_nbhd [where j = 0]) (use ok nb_part_update [OF _ p n'] in simp_all)
  from main_ok_rng [OF this g] show ?thesis by simp
qed

lemma nb_addr: "main_ok W k m \<Longrightarrow> nb_mem (s_nbhd m) p = Some n \<Longrightarrow> ip_ok (w_ver W) (c_addr n)"
  using main_okD(6) [of W k m] by (auto simp: nb_part_def intro: ranI)

lemma nb_nbhd_ok: "main_ok W k m \<Longrightarrow> nbhd_ok (s_nbhd m)"
  using main_okD(6) [of W k m] by (auto simp: nb_part_def)

lemma hash_node: "nbhd_ok nb \<Longrightarrow> hash_get (nb_hash nb) i = Some p \<Longrightarrow> \<exists>n. nb_mem nb p = Some n"
  by (auto simp: nbhd_okD(5))

lemma p2p_pong_ok:
  assumes ok: "main_ok W k m" and f: "ip_ok (w_ver W) from"
  shows "\<exists>nb g. p2p_pong m i from = Some (m\<lparr>s_nbhd := nb, s_rng := g\<rparr>) \<and> main_ok W k (m\<lparr>s_nbhd := nb, s_rng := g\<rparr>)"
proof (cases "hash_get (nb_hash (s_nbhd m)) i")
  case None
  then have "p2p_pong m i from = Some (m\<lparr>s_nbhd := s_nbhd m, s_rng := s_rng m\<rparr>)" by (simp add: p2p_pong_def nbhd_ponged_def)
  with ok show ?thesis by fastforce
next
  case (Some p)
  from hash_node [OF nb_nbhd_ok [OF ok] Some] obtain n where n: "nb_mem (s_nbhd m) p = Some n" by blast
  let ?r = "node_ponged n from (clock m) (s_rng m)"
  have "main_ok W k (m\<lparr>s_nbhd := (s_nbhd m)\<lparr>nb_mem := (nb_mem (s_nbhd m))(p \<mapsto> fst ?r)\<rparr>, s_rng := snd ?r\<rparr>)"
    by (rule main_ok_touch [OF ok n]) (use f main_okD(2) [OF ok] in simp_all)
  with Some n show ?thesis by (auto simp: p2p_pong_def nbhd_ponged_def case_prod_beta)
qed

lemma main_pinged_ok:
  assumes ok: "main_ok W k m"
  shows "\<exists>nb g. main_pinged m i = Some (m\<lparr>s_nbhd := nb, s_rng := g\<rparr>) \<and> main_ok W k (m\<lparr>s_nbhd := nb, s_rng := g\<rparr>) \<and>
    nb_bucket nb = nb_bucket (s_nbhd m) \<and> dom (nb_mem nb) = dom (nb_mem (s_nbhd m))"
proof (cases "hash_get (nb_hash (s_nbhd m)) i")
  case None
  then have "main_pinged m i = Some (m\<lparr>s_nbhd := s_nbhd m, s_rng := s_rng m\<rparr>)" by (simp add: main_pinged_def nbhd_pinged_def)
  with ok show ?thesis by fastforce
next
  case (Some p)
  from hash_node [OF nb_nbhd_ok [OF ok] Some] obtain n where n: "nb_mem (s_nbhd m) p = Some n" by blast
  let ?r = "node_pinged n (clock m) (s_rng m)"
  have "main_ok W k (m\<lparr>s_nbhd := (s_nbhd m)\<lparr>nb_mem := (nb_mem (s_nbhd m))(p \<mapsto> fst ?r)\<rparr>, s_rng := snd ?r\<rparr>)"
    by (rule main_ok_touch [OF ok n]) (use nb_addr [OF ok n] main_okD(2) [OF ok] in simp_all)
  with Some n show ?thesis
    by (intro exI [of _ "(s_nbhd m)\<lparr>nb_mem := (nb_mem (s_nbhd m))(p \<mapsto> fst ?r)\<rparr>"] exI [of _ "snd ?r"])
      (auto simp: main_pinged_def nbhd_pinged_def case_prod_beta)
qed

lemma main_compact_list:
  assumes "main_ok W k m" and "length target = SHA1_SIZE"
  shows "\<exists>c j. bckt_compact_list (nb_mem (s_nbhd m)) (nb_bucket (s_nbhd m)) target = Some c \<and>
    length c = j * IP_SIZE_META_TRIPLE (w_ver W) \<and> j \<le> 8"
proof -
  from main_okD(6) [OF assms(1)] have "nbhd_ok (s_nbhd m)" "\<forall>n \<in> ran (nb_mem (s_nbhd m)). ip_ok (w_ver W) (c_addr n)"
    by (auto simp: nb_part_def)
  from compact_list_ok [OF this(1) assms(2) this(2)] show ?thesis
    by (cases "w_ver W") (auto simp: IP_SIZE_META_TRIPLE_def IP_SIZE_META_TRIPLE8_def IP_SIZE_META_PAIR_def)
qed

section \<open>Transactions\<close>

lemma tid_ok_search: "tid_ok v t \<Longrightarrow> ldb_ok v l \<Longrightarrow> tid_ok v (t\<lparr>t_lookup := Some l\<rparr>)"
  by (simp add: tid_ok_def)

lemma new_tid_ok:
  assumes "rng_ok g"
  shows "length (t_id (new_tid T type now g)) = TID_SIZE" and "rng_ok (snd (tdb_create_random_id T g))"
  using create_loop_length [OF assms, of TID_SIZE "td_hash T" 999] by (simp_all add: new_tid_def tdb_create_random_id_def)

lemma tdb_room:
  assumes "main_ok W k m"
  shows "\<exists>xs. tids (s_tdb m) xs \<and> (\<forall>x \<in> set xs. tid_ok (w_ver W) (snd x)) \<and> int (weight xs + k) < LONG_MAX"
proof -
  obtain a b c where "tdb_part (w_ver W) (s_tdb m) b" "int (a + b + c + k) < LONG_MAX" by (rule main_ok_parts [OF assms])
  then show ?thesis by (fastforce simp: tdb_part_def)
qed

lemma tids_unique: "tids T xs \<Longrightarrow> tids T ys \<Longrightarrow> ys = xs"
  by (rule dl_unique [of "td_list T"]) (simp_all add: tids_def)

lemma main_tdb_step:
  assumes ok: "main_ok W (k + j) m" and xs: "tids (s_tdb m) xs" and ys: "tids T ys"
    and tok: "(\<forall>x \<in> set xs. tid_ok (w_ver W) (snd x)) \<Longrightarrow> (\<forall>x \<in> set ys. tid_ok (w_ver W) (snd x))"
    and w: "weight ys + i \<le> weight xs + j"
  shows "main_ok W (k + i) (m\<lparr>s_tdb := T\<rparr>)"
proof -
  obtain a b c where p: "nb_part (w_ver W) (me m) (s_nbhd m) a" "tdb_part (w_ver W) (s_tdb m) b" "tkn_part (s_token m) (pt_token (s_p2p m)) c"
    "int (a + b + c + (k + j)) < LONG_MAX" by (rule main_ok_parts [OF ok])
  from p(2) obtain us where us: "tids (s_tdb m) us" "\<forall>x \<in> set us. tid_ok (w_ver W) (snd x)" "weight us \<le> b" by (auto simp: tdb_part_def)
  have us': "us = xs" by (rule tids_unique [OF xs us(1)])
  with us tok have "\<forall>x \<in> set ys. tid_ok (w_ver W) (snd x)" by simp
  with ys have "tdb_part (w_ver W) T (weight ys)" unfolding tdb_part_def by blast
  with p main_okD [OF ok] us(3) us' w show ?thesis
    by (intro main_okI [where a = a and b = "weight ys" and c = c]) simp_all
qed

lemma main_tdb_put_ok:
  assumes ok: "main_ok W (Suc k) m" and ty: "type \<noteq> P2P_ANNOUNCE_START"
  shows "\<exists>T g p tid. main_tdb_put m type = Some (m\<lparr>s_tdb := T, s_rng := g\<rparr>, Some p) \<and> main_ok W k (m\<lparr>s_tdb := T, s_rng := g\<rparr>) \<and>
    tdb_tid T (Some p) = Some tid \<and> length tid = TID_SIZE \<and>
    (\<forall>us. tids (s_tdb m) us \<longrightarrow> (\<exists>t. tids T (us @ [(p, t)]) \<and> t_weight t = 1))"
proof -
  note D = main_okD [OF ok]
  from tdb_room [OF ok] obtain xs where xs: "tids (s_tdb m) xs" "int (weight xs + Suc k) < LONG_MAX" by blast
  let ?t = "new_tid (s_tdb m) type (clock m) (s_rng m)" and ?g = "snd (tdb_create_random_id (s_tdb m) (s_rng m))"
  have "int (length xs) < LONG_MAX" using weight_length [of xs] xs(2) by linarith
  from tdb_put_tids [OF xs(1) this, of type "clock m" "s_rng m"] obtain T p where
    T: "tdb_put (s_tdb m) type (clock m) (s_rng m) = Some (T, Some p, ?g)" "tids T (xs @ [(p, ?t)])" by blast
  have t: "tid_ok (w_ver W) ?t" using new_tid_ok [OF D(2)] ty by (simp add: tid_ok_def new_tid_def)
  have "main_ok W (k + 0) (m\<lparr>s_tdb := T\<rparr>)"
    by (rule main_tdb_step [where j = 1, OF _ xs(1) T(2)]) (use ok t ty in \<open>auto simp: t_weight_def new_tid_def\<close>)
  then have "main_ok W k (m\<lparr>s_tdb := T\<rparr>)" by simp
  from main_ok_rng [OF this, of ?g] new_tid_ok(2) [OF D(2)] have "main_ok W k (m\<lparr>s_tdb := T, s_rng := ?g\<rparr>)" by simp
  moreover have "tdb_tid T (Some p) = Some (t_id ?t)" using tid_access(3) [of T xs p ?t "[]"] T(2) by simp
  moreover have "main_tdb_put m type = Some (m\<lparr>s_tdb := T, s_rng := ?g\<rparr>, Some p)" by (simp add: main_tdb_put_def T(1))
  moreover note new_tid_ok(1) [OF D(2), of "s_tdb m" type "clock m"]
  moreover have "\<exists>t. tids T (us @ [(p, t)]) \<and> t_weight t = 1" if "tids (s_tdb m) us" for us
    using tids_unique [OF that xs(1)] T(2) ty by (intro exI [of _ ?t]) (simp add: t_weight_def new_tid_def)
  ultimately show ?thesis by blast
qed

lemma tid_at_split:
  assumes "tids T xs" and "tid_at T (Some p) = Some t"
  obtains ys zs where "xs = ys @ (p, t) # zs"
proof -
  have "l_mem (td_list T) p \<noteq> None" using assms(2) by (cases "l_mem (td_list T) p") (simp_all add: tid_at_def list_value_def)
  moreover have "dom (l_mem (td_list T)) = fst ` set xs" using assms(1) by (simp add: tids_def dlc_def dl_def)
  ultimately have "p \<in> fst ` set xs" by blast
  from in_fst_split [OF this] obtain ys t' zs where xs: "xs = ys @ (p, t') # zs" by blast
  with tid_at_tids [of T ys p t' zs] assms have "t' = t" by simp
  with xs that show thesis by blast
qed

lemma main_tid_ok:
  assumes "main_ok W k m" and "tid_at (s_tdb m) (Some p) = Some t"
  shows "tid_ok (w_ver W) t"
proof -
  from main_okD(7) [OF assms(1)] obtain xs where xs: "tids (s_tdb m) xs" "\<forall>x \<in> set xs. tid_ok (w_ver W) (snd x)" by (auto simp: tdb_part_def)
  from tid_at_split [OF xs(1) assms(2)] obtain ys zs where "xs = ys @ (p, t) # zs" by blast
  with xs(2) show ?thesis by simp
qed

lemma main_link_ok:
  assumes ok: "main_ok W k m" and t: "tid_at (s_tdb m) (Some p) = Some t" and l: "ldb_ok (w_ver W) l"
  shows "\<exists>T. tdb_link_ldb (s_tdb m) (Some p) (Some l) = Some T \<and> main_ok W k (m\<lparr>s_tdb := T\<rparr>) \<and>
    tid_at T (Some p) = Some (t\<lparr>t_lookup := Some l\<rparr>)"
proof -
  from main_okD(7) [OF ok] obtain xs where xs: "tids (s_tdb m) xs" by (auto simp: tdb_part_def)
  obtain ys zs where s: "xs = ys @ (p, t) # zs" by (rule tid_at_split [OF xs t])
  from tdb_link_tids [OF xs [unfolded s], of "Some l"] obtain T where
    T: "tdb_link_ldb (s_tdb m) (Some p) (Some l) = Some T" "tids T (ys @ (p, t\<lparr>t_lookup := Some l\<rparr>) # zs)" by blast
  have "main_ok W (k + 0) (m\<lparr>s_tdb := T\<rparr>)"
    by (rule main_tdb_step [where j = 0, OF _ xs T(2)]) (use ok l in \<open>auto simp: s tid_ok_search t_weight_def\<close>)
  then have "main_ok W k (m\<lparr>s_tdb := T\<rparr>)" by simp
  with T tid_at_tids [OF T(2)] show ?thesis by blast
qed

lemma main_del_ok:
  assumes ok: "main_ok W k m" and t: "tid_at (s_tdb m) (Some p) = Some t"
  shows "\<exists>T. tdb_del (s_tdb m) (Some p) = Some T \<and> main_ok W (k + t_weight t) (m\<lparr>s_tdb := T\<rparr>) \<and>
    (\<forall>us ws. tids (s_tdb m) (us @ (p, t) # ws) \<longrightarrow> tids T (us @ ws))"
proof -
  from main_okD(7) [OF ok] obtain xs where xs: "tids (s_tdb m) xs" by (auto simp: tdb_part_def)
  obtain ys zs where s: "xs = ys @ (p, t) # zs" by (rule tid_at_split [OF xs t])
  from tdb_del_tids [OF xs [unfolded s]] obtain T where T: "tdb_del (s_tdb m) (Some p) = Some T" "tids T (ys @ zs)" by blast
  have ok': "main_ok W (k + t_weight t) (m\<lparr>s_tdb := T\<rparr>)"
    by (rule main_tdb_step [where j = 0, OF _ xs T(2)]) (use ok in \<open>auto simp: s\<close>)
  have "tids T (us @ ws)" if "tids (s_tdb m) (us @ (p, t) # ws)" for us ws
    using tdb_del_tids [OF that] T(1) by auto
  with T ok' show ?thesis by blast
qed

lemma main_item:
  assumes "main_ok W k m" and "tdb_item (s_tdb m) i = Some p"
  shows "\<exists>t. tid_at (s_tdb m) (Some p) = Some t \<and> t_id t = i"
proof -
  from main_okD(7) [OF assms(1)] obtain xs where xs: "tids (s_tdb m) xs" by (auto simp: tdb_part_def)
  obtain ys t zs where "xs = ys @ (p, t) # zs" "t_id t = i" by (rule tdb_item_tids [OF xs assms(2)])
  with tid_at_tids [of "s_tdb m" ys p t zs] xs show ?thesis by blast
qed

section \<open>Searching\<close>

lemma triples_of_ok:
  assumes "length p = n * IP_SIZE_META_TRIPLE v"
  shows "\<exists>ns. triples_of v p = Some ns \<and> length ns = n \<and> (\<forall>(i, sin) \<in> set ns. length i = SHA1_SIZE \<and> ip_ok v sin)"
  using assms
proof (induction n arbitrary: p)
  case 0
  then show ?case by (simp add: triples_of.simps)
next
  case (Suc n)
  then have l: "SHA1_SIZE \<le> length p" "length (drop SHA1_SIZE p) = IP_SIZE_META_PAIR v + n * IP_SIZE_META_TRIPLE v"
    by (auto simp: IP_SIZE_META_TRIPLE_def)
  then obtain sin q where s: "ip_tuple_to_sin v (drop SHA1_SIZE p) = Some (sin, q)"
    by (auto simp: ip_tuple_to_sin_def IP_SIZE_META_PAIR_def)
  from ip_ok_tuple [OF s] l(2) have q: "ip_ok v sin" "length q = n * IP_SIZE_META_TRIPLE v" by auto
  from Suc.IH [OF q(2)] obtain ns where "triples_of v q = Some ns" "length ns = n"
    "\<forall>(i, sin) \<in> set ns. length i = SHA1_SIZE \<and> ip_ok v sin" by blast
  with s l(1) q(1) show ?case by (subst triples_of.simps) auto
qed

text \<open>What a search step may change: the tables of other components stay as they are.\<close>

definition same_but_search :: "MAIN \<Rightarrow> MAIN \<Rightarrow> bool" where
  "same_but_search m m' \<longleftrightarrow> s_conf m' = s_conf m \<and> s_identity m' = s_identity m \<and> s_nbhd m' = s_nbhd m \<and> s_value m' = s_value m \<and>
     s_token m' = s_token m \<and> s_cache m' = s_cache m \<and> s_p2p m' = s_p2p m \<and> s_rumble m' = s_rumble m"

text \<open>The transaction \<open>p\<close> carries a search for \<open>target\<close> on behalf of a DNS client that has not been answered.\<close>

definition searching :: "MAIN \<Rightarrow> ptr \<Rightarrow> bytes \<Rightarrow> (IP \<times> DNS_MSG) option \<Rightarrow> bool" where
  "searching m p target caller =
     (case tid_at (s_tdb m) (Some p) of None \<Rightarrow> False
      | Some t \<Rightarrow> (case t_lookup t of None \<Rightarrow> False
        | Some l \<Rightarrow> lk_target l = target \<and> lk_caller l = caller \<and> lk_responses l = 0))"

lemma same_but_search_sent: "same_but_search m m1 \<Longrightarrow> sent m1 m2 \<Longrightarrow> same_but_search m m2"
  by (auto simp: same_but_search_def sent_frame)

lemma query_loop_ok:
  assumes "main_ok W k m" and "tid_at (s_tdb m) (Some p) = Some t" and "ldb_ok (w_ver W) l" and "length target = SHA1_SIZE"
    and "\<forall>(i, sin) \<in> set ns. length i = SHA1_SIZE \<and> ip_ok (w_ver W) sin" and "length (t_id t) = TID_SIZE"
  shows "\<exists>m' l'. query_loop W m (Some p) target l ns = Some (m', l') \<and> sent m m' \<and> ldb_ok (w_ver W) l' \<and>
    lk_target l' = lk_target l \<and> lk_caller l' = lk_caller l \<and> lk_responses l' = lk_responses l"
  using assms
proof (induction ns arbitrary: m l)
  case Nil
  then show ?case using sent_refl main_okD(2) by auto
next
  case (Cons x ns)
  obtain i sin where x: "x = (i, sin)" by (cases x)
  note D = main_okD [OF Cons.prems(1)]
  have i: "length i = SHA1_SIZE" "ip_ok (w_ver W) sin" using Cons.prems(5) x by auto
  obtain l1 j where l1: "ldb_put l i sin = Some (l1, j)" "ldb_ok (w_ver W) l1"
    "lk_target l1 = lk_target l" "lk_caller l1 = lk_caller l" "lk_responses l1 = lk_responses l"
    using ldb_put_total [OF Cons.prems(3) i] by blast
  have tid: "tdb_tid (s_tdb m) (Some p) = Some (t_id t)" using Cons.prems(2) by (simp add: tdb_tid_def)
  from send_requests(3) [OF D(2,1) Cons.prems(6,4), of W sin] obtain m1 where
    m1: "send_get_peers_request W m sin target (t_id t) = Some m1" "sent m m1" by blast
  have "main_ok W k m1" by (rule main_ok_sent [OF Cons.prems(1) m1(2)])
  moreover have "tid_at (s_tdb m1) (Some p) = Some t" using Cons.prems(2) sent_frame(5) [OF m1(2)] by simp
  ultimately obtain m2 l2 where "query_loop W m1 (Some p) target l1 ns = Some (m2, l2)" "sent m1 m2" "ldb_ok (w_ver W) l2"
    "lk_target l2 = lk_target l1" "lk_caller l2 = lk_caller l1" "lk_responses l2 = lk_responses l1"
    using Cons.IH [of m1 l1] l1(2) Cons.prems(4,5,6) by auto
  with l1 tid m1 x sent_trans [OF m1(2)] show ?case by simp
qed

lemma start_search_tid:
  assumes ok: "main_ok W (k + 9) m" and k: "length target = SHA1_SIZE"
  shows "\<exists>m'. start_search W m target type caller = Some m' \<and> main_ok W k m' \<and> same_but_search m m' \<and> (\<exists>p. searching m' p target caller)"
proof -
  note D = main_okD [OF ok]
  from main_compact_list [OF ok k] obtain c n where
    c: "bckt_compact_list (nb_mem (s_nbhd m)) (nb_bucket (s_nbhd m)) target = Some c" "length c = n * IP_SIZE_META_TRIPLE (w_ver W)" by blast
  from triples_of_ok [OF c(2)] obtain ns where
    ns: "triples_of (w_ver W) c = Some ns" "\<forall>(i, sin) \<in> set ns. length i = SHA1_SIZE \<and> ip_ok (w_ver W) sin" by blast
  from tdb_room [OF ok] obtain xs where xs: "tids (s_tdb m) xs" "int (weight xs + (k + 9)) < LONG_MAX" by blast
  let ?t = "new_tid (s_tdb m) type (clock m) (s_rng m)" and ?g = "snd (tdb_create_random_id (s_tdb m) (s_rng m))"
  let ?l = "ldb_init target caller"
  let ?t1 = "?t\<lparr>t_lookup := Some ?l\<rparr>"
  have "int (length xs) < LONG_MAX" using weight_length [of xs] xs(2) by linarith
  from tdb_put_tids [OF xs(1) this, of type "clock m" "s_rng m"] obtain T p where
    T: "tdb_put (s_tdb m) type (clock m) (s_rng m) = Some (T, Some p, ?g)" "tids T (xs @ (p, ?t) # [])" by blast
  from tdb_link_tids [OF T(2), of "Some ?l"] obtain T1 where
    T1: "tdb_link_ldb T (Some p) (Some ?l) = Some T1" "tids T1 (xs @ (p, ?t1) # [])" by blast
  have l: "ldb_ok (w_ver W) ?l" by (rule ldb_init_ok [OF k])
  have id: "length (t_id ?t1) = TID_SIZE" using new_tid_ok(1) [OF D(2)] by simp
  let ?m = "m\<lparr>s_tdb := T1, s_rng := ?g\<rparr>"
  have t1: "tid_ok (w_ver W) ?t1" using id l by (simp add: tid_ok_def)
  have "main_ok W (k + 0) (m\<lparr>s_tdb := T1\<rparr>)"
    by (rule main_tdb_step [where j = 9, OF ok xs(1) T1(2)]) (use t1 in \<open>auto simp: t_weight_def\<close>)
  then have "main_ok W k (m\<lparr>s_tdb := T1\<rparr>)" by simp
  from main_ok_rng [OF this new_tid_ok(2) [OF D(2)]] have m: "main_ok W k ?m" by simp
  have at: "tid_at (s_tdb ?m) (Some p) = Some ?t1" using tid_at_tids [OF T1(2)] by simp
  from query_loop_ok [OF m at l k ns(2) id] obtain m1 l1 where
    m1: "query_loop W ?m (Some p) target ?l ns = Some (m1, l1)" "sent ?m m1" "ldb_ok (w_ver W) l1"
      "lk_target l1 = lk_target ?l" "lk_caller l1 = lk_caller ?l" "lk_responses l1 = lk_responses ?l" by blast
  have ok1: "main_ok W k m1" by (rule main_ok_sent [OF m m1(2)])
  have "tid_at (s_tdb m1) (Some p) = Some ?t1" using at sent_frame(5) [OF m1(2)] by simp
  from main_link_ok [OF ok1 this m1(3)] obtain T2 where
    T2: "tdb_link_ldb (s_tdb m1) (Some p) (Some l1) = Some T2" "main_ok W k (m1\<lparr>s_tdb := T2\<rparr>)"
      "tid_at T2 (Some p) = Some (?t1\<lparr>t_lookup := Some l1\<rparr>)" by blast
  have "start_search W m target type caller = Some (m1\<lparr>s_tdb := T2\<rparr>)"
    using c(1) T(1) T1(1) ns(1) m1(1) T2(1) by (simp add: start_search_def main_tdb_put_def Let_def)
  moreover have "same_but_search m (m1\<lparr>s_tdb := T2\<rparr>)"
    using sent_frame [OF m1(2)] by (simp add: same_but_search_def)
  moreover have "searching (m1\<lparr>s_tdb := T2\<rparr>) p target caller"
    using T2(3) m1(4-6) k by (simp add: searching_def ldb_init_def)
  ultimately show ?thesis using T2(2) by blast
qed

lemma start_search_ok:
  assumes "main_ok W (k + 9) m" and "length target = SHA1_SIZE"
  shows "\<exists>m'. start_search W m target type caller = Some m' \<and> main_ok W k m' \<and> same_but_search m m'"
  using start_search_tid [OF assms] by blast

section \<open>Handlers\<close>

lemma store_nodes_ok:
  "main_ok W (k + length ns) m \<Longrightarrow> \<forall>(i, sin) \<in> set ns. length i = SHA1_SIZE \<and> ip_ok (w_ver W) sin \<Longrightarrow>
   \<exists>nb. store_nodes W m ns = Some (m\<lparr>s_nbhd := nb\<rparr>) \<and> main_ok W k (m\<lparr>s_nbhd := nb\<rparr>)"
proof (induction ns arbitrary: m)
  case Nil
  then have "store_nodes W m [] = Some (m\<lparr>s_nbhd := s_nbhd m\<rparr>)" "main_ok W k (m\<lparr>s_nbhd := s_nbhd m\<rparr>)" by simp_all
  then show ?case by blast
next
  case (Cons x ns)
  obtain i sin where x: "x = (i, sin)" by (cases x)
  show ?case
  proof (cases "p2p_ignored W m i sin")
    case True
    have "main_ok W (k + length ns) m" by (rule main_ok_mono [OF Cons.prems(1)]) simp
    with Cons.IH [of m] Cons.prems(2) True x show ?thesis by simp
  next
    case False
    have "main_ok W (Suc (k + length ns)) m" using Cons.prems(1) by simp
    from main_nbhd_put_ok [OF this, of i sin] Cons.prems(2) x obtain nb where
      nb: "main_nbhd_put W m i sin = Some (m\<lparr>s_nbhd := nb\<rparr>)" "main_ok W (k + length ns) (m\<lparr>s_nbhd := nb\<rparr>)" by auto
    from Cons.IH [OF nb(2)] Cons.prems(2) nb(1) False x show ?thesis by auto
  qed
qed

lemma main_tkn_read:
  assumes "main_ok W k m"
  shows "\<exists>token. tkn_read (s_token m) = Some token \<and> length token = TOKEN_SIZE"
proof -
  from main_okD(8) [OF assms] obtain xs where xs: "tokens (s_token m) xs" "\<forall>x \<in> set xs. length (tkn_id (snd x)) = TOKEN_SIZE" "xs \<noteq> []"
    by (fastforce simp: tkn_part_def)
  then obtain us p t where "xs = us @ [(p, t)]" by (metis append_butlast_last_id prod.collapse)
  with tkn_read_tokens [of "s_token m" us p t] xs show ?thesis by auto
qed

lemma concat_pairs_length: "\<forall>n \<in> set ns. length (f n) = j \<Longrightarrow> length (concat (map f ns)) = length ns * j"
  by (induction ns) simp_all

lemma main_value_list:
  assumes "main_ok W k m" and "length h = SHA1_SIZE"
  shows "\<exists>val c n. val_compact_list (s_value m) h = Some (val, c) \<and> main_ok W k (m\<lparr>s_value := val\<rparr>) \<and>
    length c = n * IP_SIZE_META_PAIR (w_ver W) \<and> n \<le> 8"
proof -
  from main_okD(3) [OF assms(1)] obtain ts where ts: "val_rep (w_ver W) (me m) (s_value m) ts" by blast
  from val_compact_list_ok [OF ts assms(2)] obtain val where
    val: "val_compact_list (s_value m) h = Some (val, peers ts h)" "val_rep (w_ver W) (me m) val ts" by blast
  have "\<exists>n. length (peers ts h) = n * IP_SIZE_META_PAIR (w_ver W) \<and> n \<le> 8"
  proof (cases "map_of ts h")
    case (Some ns)
    then have "\<forall>n \<in> set ns. length (nv_pair n) = IP_SIZE_META_PAIR (w_ver W)"
      using val_rep_pairs [OF ts map_of_SomeD [OF Some]] by simp
    then have "\<forall>n \<in> set (take 8 ns). length (nv_pair n) = IP_SIZE_META_PAIR (w_ver W)" by (auto dest: in_set_takeD)
    from concat_pairs_length [OF this] show ?thesis
      using Some by (intro exI [of _ "length (take 8 ns)"]) (simp add: peers_def)
  next
    case None
    then show ?thesis by (intro exI [of _ 0]) (simp add: peers_def)
  qed
  with val main_ok_value [OF assms(1) val(2)] show ?thesis by blast
qed

lemma p2p_is_hashE: "p2p_is_hash x \<Longrightarrow> (\<And>h. x = Some (BEN_STR h) \<Longrightarrow> length h = SHA1_SIZE \<Longrightarrow> P) \<Longrightarrow> P"
  by (auto simp: p2p_is_hash_def ben_is_str_def ben_str_i_def ben_str_s_def split: option.splits BEN.splits)

lemma find_node_request_ok:
  assumes ok: "main_ok W k m"
  shows "\<exists>m'. p2p_find_node_get_request W m arg tid from = Some m' \<and> main_ok W k m'"
proof (cases "p2p_is_hash (ben_dict_search_str arg ''target'')")
  case True
  then obtain h where h: "ben_dict_search_str arg ''target'' = Some (BEN_STR h)" "length h = SHA1_SIZE" by (rule p2p_is_hashE)
  from main_compact_list [OF ok h(2)] obtain c where
    c: "bckt_compact_list (nb_mem (s_nbhd m)) (nb_bucket (s_nbhd m)) h = Some c" by blast
  from send_replies(2) [OF main_okD(2) [OF ok] main_okD(1) [OF ok]] obtain m' where
    "send_find_node_reply W m from c tid (length tid) = Some m'" "sent m m'" by blast
  with True h c ok main_ok_sent [OF ok] show ?thesis by (simp add: p2p_find_node_get_request_def ben_str_s_def)
qed (use ok in \<open>simp add: p2p_find_node_get_request_def\<close>)

lemma find_node_reply_ok:
  assumes ok: "main_ok W (k + 60) m" and lim: "\<And>s. ben_dict_search_str arg (nodes_key (w_ver W)) = Some (BEN_STR s) \<Longrightarrow> length s \<le> 1023"
  shows "\<exists>nb. p2p_find_node_get_reply W m arg = Some (m\<lparr>s_nbhd := nb\<rparr>) \<and> main_ok W k (m\<lparr>s_nbhd := nb\<rparr>)"
proof -
  have triv: "\<exists>nb. Some m = Some (m\<lparr>s_nbhd := nb\<rparr>) \<and> main_ok W k (m\<lparr>s_nbhd := nb\<rparr>)"
    by (rule exI [of _ "s_nbhd m"]) (use main_ok_mono [OF ok, of k] in simp)
  show ?thesis
  proof (cases "ben_is_str (ben_dict_search_str arg (nodes_key (w_ver W)))")
    case True
    then obtain s where s: "ben_dict_search_str arg (nodes_key (w_ver W)) = Some (BEN_STR s)"
      by (auto simp: ben_is_str_def split: option.splits BEN.splits)
    show ?thesis
    proof (cases "length s mod IP_SIZE_META_TRIPLE (w_ver W) = 0")
      case div: True
      then obtain n where n: "length s = n * IP_SIZE_META_TRIPLE (w_ver W)" by (metis mod_0_imp_dvd dvd_def mult.commute)
      from triples_of_ok [OF n] obtain ns where
        ns: "triples_of (w_ver W) s = Some ns" "length ns = n" "\<forall>(i, sin) \<in> set ns. length i = SHA1_SIZE \<and> ip_ok (w_ver W) sin" by blast
      have "n \<le> 60" using n lim [OF s] by (cases "w_ver W") (simp_all add: IP_SIZE_META_TRIPLE_def IP_SIZE_META_PAIR_def)
      then have "main_ok W (k + length ns) m" by (intro main_ok_mono [OF ok]) (simp add: ns(2))
      from store_nodes_ok [OF this ns(3)] div s ns(1) show ?thesis
        by (simp add: p2p_find_node_get_reply_def ben_is_str_def ben_str_s_def)
    qed (use s triv in \<open>simp add: p2p_find_node_get_reply_def ben_is_str_def ben_str_s_def\<close>)
  qed (use triv in \<open>simp add: p2p_find_node_get_reply_def\<close>)
qed

lemma get_peers_request_ok:
  assumes ok: "main_ok W k m"
  shows "\<exists>m'. p2p_get_peers_get_request W m arg tid from = Some m' \<and> main_ok W k m'"
proof (cases "p2p_is_hash (ben_dict_search_str arg ''info_hash'')")
  case True
  then obtain h where h: "ben_dict_search_str arg ''info_hash'' = Some (BEN_STR h)" "length h = SHA1_SIZE" by (rule p2p_is_hashE)
  from main_value_list [OF ok h(2)] obtain val c n where
    c: "val_compact_list (s_value m) h = Some (val, c)" "main_ok W k (m\<lparr>s_value := val\<rparr>)" "length c = n * IP_SIZE_META_PAIR (w_ver W)" "n \<le> 8" by blast
  let ?m = "m\<lparr>s_value := val\<rparr>"
  note D = main_okD [OF c(2)]
  from main_tkn_read [OF c(2)] obtain token where t: "tkn_read (s_token ?m) = Some token" "length token = TOKEN_SIZE" by blast
  from main_compact_list [OF c(2) h(2)] obtain d where
    d: "bckt_compact_list (nb_mem (s_nbhd ?m)) (nb_bucket (s_nbhd ?m)) h = Some d" by blast
  from send_values [OF D(2,1) t c(3,4)] obtain m1 where m1: "send_get_peers_values W ?m from c tid (length tid) = Some m1" "sent ?m m1" by blast
  from send_replies(4) [OF D(2,1) t] obtain m2 where m2: "send_get_peers_nodes W ?m from d tid (length tid) = Some m2" "sent ?m m2" by blast
  show ?thesis
    using True h c d m1 m2 main_ok_sent [OF c(2) m1(2)] main_ok_sent [OF c(2) m2(2)]
    by (simp add: p2p_get_peers_get_request_def ben_str_s_def Let_def)
qed (use ok in \<open>simp add: p2p_get_peers_get_request_def\<close>)

lemma search_nodes_ok:
  "main_ok W (k + length ns) m \<Longrightarrow> tid_at (s_tdb m) (Some p) = Some t \<Longrightarrow> ldb_ok (w_ver W) l \<Longrightarrow> length target = SHA1_SIZE \<Longrightarrow>
   length (t_id t) = TID_SIZE \<Longrightarrow> \<forall>(i, sin) \<in> set ns. length i = SHA1_SIZE \<and> ip_ok (w_ver W) sin \<Longrightarrow>
   \<exists>m' l'. search_nodes W m (Some p) target l ns = Some (m', l') \<and> main_ok W k m' \<and> s_tdb m' = s_tdb m \<and> ldb_ok (w_ver W) l'"
proof (induction ns arbitrary: m l)
  case Nil
  then show ?case by simp
next
  case (Cons x ns)
  obtain i sin where x: "x = (i, sin)" by (cases x)
  have i: "length i = SHA1_SIZE" "ip_ok (w_ver W) sin" using Cons.prems(6) x by auto
  have ns: "\<forall>(i, sin) \<in> set ns. length i = SHA1_SIZE \<and> ip_ok (w_ver W) sin" using Cons.prems(6) by simp
  show ?case
  proof (cases "p2p_ignored W m i sin")
    case True
    have "main_ok W (k + length ns) m" by (rule main_ok_mono [OF Cons.prems(1)]) simp
    from Cons.IH [OF this Cons.prems(2-5) ns] True x show ?thesis by simp
  next
    case False
    have "main_ok W (Suc (k + length ns)) m" using Cons.prems(1) by simp
    from main_nbhd_put_ok [OF this i] obtain nb where
      nb: "main_nbhd_put W m i sin = Some (m\<lparr>s_nbhd := nb\<rparr>)" "main_ok W (k + length ns) (m\<lparr>s_nbhd := nb\<rparr>)" by blast
    let ?m = "m\<lparr>s_nbhd := nb\<rparr>"
    have at: "tid_at (s_tdb ?m) (Some p) = Some t" using Cons.prems(2) by simp
    obtain l1 j where l1: "ldb_put l i sin = Some (l1, j)" "ldb_ok (w_ver W) l1"
      using ldb_put_total [OF Cons.prems(3) i] by blast
    have tid: "tdb_tid (s_tdb ?m) (Some p) = Some (t_id t)" using at by (simp add: tdb_tid_def)
    from send_requests(3) [OF main_okD(2,1) [OF nb(2)] Cons.prems(5,4)] obtain m1 where
      m1: "send_get_peers_request W ?m sin target (t_id t) = Some m1" "sent ?m m1" by blast
    have ok1: "main_ok W (k + length ns) m1" by (rule main_ok_sent [OF nb(2) m1(2)])
    have at1: "tid_at (s_tdb m1) (Some p) = Some t" using at sent_frame(5) [OF m1(2)] by simp
    consider "ldb_find l i \<noteq> None" | "ldb_find l i = None" "8 \<le> j" | "ldb_find l i = None" "\<not> 8 \<le> j" by blast
    then show ?thesis
    proof cases
      case 1
      with Cons.IH [OF nb(2) at Cons.prems(3-5) ns] False nb(1) x show ?thesis by simp
    next
      case 2
      with Cons.IH [OF nb(2) at l1(2) Cons.prems(4,5) ns] False nb(1) x l1(1) show ?thesis by simp
    next
      case 3
      with Cons.IH [OF ok1 at1 l1(2) Cons.prems(4,5) ns] False nb(1) x l1(1) tid m1 sent_frame(5) [OF m1(2)] show ?thesis by simp
    qed
  qed
qed

text \<open>After a reply to a search the transaction is still there, with its type.\<close>

definition keeps_tid :: "MAIN \<Rightarrow> MAIN \<Rightarrow> ptr \<Rightarrow> bool" where
  "keeps_tid m m' p \<longleftrightarrow> map_option t_type (tid_at (s_tdb m') (Some p)) = map_option t_type (tid_at (s_tdb m) (Some p))"

lemma search_of_tid:
  assumes ok: "main_ok W k m" and at: "tid_at (s_tdb m) (Some p) = Some t" and l: "t_lookup t = Some l"
  shows "ldb_ok (w_ver W) l" "length (t_id t) = TID_SIZE" "tdb_ldb (s_tdb m) (Some p) = Some (Some l)"
  using main_tid_ok [OF ok at] l at by (simp_all add: tid_ok_def tdb_ldb_def)

lemma get_nodes_ok:
  assumes ok: "main_ok W (k + 60) m" and at: "tid_at (s_tdb m) (Some p) = Some t" and i: "length node_id = SHA1_SIZE"
    and tok: "length token \<le> TOKEN_SIZE_MAX" and f: "ip_ok (w_ver W) from"
    and n: "length nodes mod IP_SIZE_META_TRIPLE (w_ver W) = 0" "length nodes \<le> 1023"
  shows "\<exists>m'. p2p_get_peers_get_nodes W m nodes node_id (Some p) token from = Some m' \<and> main_ok W k m' \<and> keeps_tid m m' p"
proof (cases "t_lookup t")
  case None
  then show ?thesis using at main_ok_mono [OF ok, of k] by (simp add: p2p_get_peers_get_nodes_def tdb_ldb_def keeps_tid_def)
next
  case (Some l)
  note S = search_of_tid [OF ok at Some]
  obtain j where j: "length nodes = j * IP_SIZE_META_TRIPLE (w_ver W)" using n(1) by (metis mod_0_imp_dvd dvd_def mult.commute)
  from triples_of_ok [OF j] obtain ns where
    ns: "triples_of (w_ver W) nodes = Some ns" "length ns = j" "\<forall>(i, sin) \<in> set ns. length i = SHA1_SIZE \<and> ip_ok (w_ver W) sin" by blast
  have "j \<le> 60" using j n(2) by (cases "w_ver W") (simp_all add: IP_SIZE_META_TRIPLE_def IP_SIZE_META_PAIR_def)
  then have ok': "main_ok W (k + length ns) m" by (intro main_ok_mono [OF ok]) (simp add: ns(2))
  from ldb_update_ok [OF S(1) i f tok] obtain M where
    u: "ldb_update l node_id token from = Some (l\<lparr>lk_mem := M\<rparr>)" "ldb_ok (w_ver W) (l\<lparr>lk_mem := M\<rparr>)" by blast
  have tl: "length (lk_target (l\<lparr>lk_mem := M\<rparr>)) = SHA1_SIZE" using ldb_okD(1) [OF u(2)] by simp
  from search_nodes_ok [OF ok' at u(2) tl S(2) ns(3)] obtain m1 l1 where
    m1: "search_nodes W m (Some p) (lk_target (l\<lparr>lk_mem := M\<rparr>)) (l\<lparr>lk_mem := M\<rparr>) ns = Some (m1, l1)" "main_ok W k m1"
      "s_tdb m1 = s_tdb m" "ldb_ok (w_ver W) l1" by blast
  have at1: "tid_at (s_tdb m1) (Some p) = Some t" using at m1(3) by simp
  from main_link_ok [OF m1(2) at1 m1(4)] obtain T where
    T: "tdb_link_ldb (s_tdb m1) (Some p) (Some l1) = Some T" "main_ok W k (m1\<lparr>s_tdb := T\<rparr>)" "tid_at T (Some p) = Some (t\<lparr>t_lookup := Some l1\<rparr>)" by blast
  have "p2p_get_peers_get_nodes W m nodes node_id (Some p) token from = Some (m1\<lparr>s_tdb := T\<rparr>)"
    using S(3) u(1) ns(1) m1(1) T(1) by (simp add: p2p_get_peers_get_nodes_def)
  moreover have "keeps_tid m (m1\<lparr>s_tdb := T\<rparr>) p" using at T(3) by (simp add: keeps_tid_def)
  ultimately show ?thesis using T(2) by blast
qed

lemma get_values_ok:
  assumes ok: "main_ok W k m" and at: "tid_at (s_tdb m) (Some p) = Some t" and i: "length node_id = SHA1_SIZE"
    and tok: "length token \<le> TOKEN_SIZE_MAX" and f: "ip_ok (w_ver W) from" and own: "\<And>l. t_lookup t = Some l \<Longrightarrow> lk_caller l = None"
  shows "\<exists>m'. p2p_get_peers_get_values W m vals node_id (Some p) token from = Some m' \<and> main_ok W k m' \<and> keeps_tid m m' p"
proof (cases "t_lookup t")
  case None
  then show ?thesis using at ok by (simp add: p2p_get_peers_get_values_def tdb_ldb_def keeps_tid_def)
next
  case (Some l)
  note S = search_of_tid [OF ok at Some]
  from ldb_update_ok [OF S(1) i f tok] obtain M where
    u: "ldb_update l node_id token from = Some (l\<lparr>lk_mem := M\<rparr>)" "ldb_ok (w_ver W) (l\<lparr>lk_mem := M\<rparr>)" by blast
  from main_link_ok [OF ok at u(2)] obtain T where
    T: "tdb_link_ldb (s_tdb m) (Some p) (Some (l\<lparr>lk_mem := M\<rparr>)) = Some T" "main_ok W k (m\<lparr>s_tdb := T\<rparr>)"
      "tid_at T (Some p) = Some (t\<lparr>t_lookup := Some (l\<lparr>lk_mem := M\<rparr>)\<rparr>)" by blast
  have "p2p_get_peers_get_values W m vals node_id (Some p) token from = Some (m\<lparr>s_tdb := T\<rparr>)"
    using S(3) u(1) T(1) own [OF Some] by (simp add: p2p_get_peers_get_values_def Let_def split: option.split)
  moreover have "keeps_tid m (m\<lparr>s_tdb := T\<rparr>) p" using at T(3) by (simp add: keeps_tid_def)
  ultimately show ?thesis using T(2) by blast
qed

lemma search_limits:
  assumes "\<And>b. x = Some b \<Longrightarrow> in_limits b" and "ben_dict_search_str x k = Some y"
  shows "in_limits y"
proof -
  obtain d where x: "x = Some (BEN_DICT d)" and s: "search_loop d (lit k) = Some y"
    using assms(2) by (auto simp: ben_dict_search_str_def ben_dict_search_key_def split: option.splits BEN.splits)
  have "search_loop d key = Some y \<Longrightarrow> in_limits (BEN_DICT d) \<Longrightarrow> in_limits y" for key
    by (induction d key rule: search_loop.induct) (auto simp: in_limits_def split: if_splits)
  with s assms(1) [OF x] show ?thesis by blast
qed

text \<open>The one reply after which the program reads freed memory: addresses for a search that a DNS client waits for.\<close>

definition reply_safe :: "TDB \<Rightarrow> BEN option \<Rightarrow> bool" where
  "reply_safe T packet =
     (case ben_dict_search_str packet ''t'' of
        Some (BEN_STR t) \<Rightarrow>
          (case tdb_item T t of None \<Rightarrow> True
           | Some p \<Rightarrow>
              (case tdb_ldb T (Some p) of
                 Some (Some l) \<Rightarrow> lk_caller l = None \<or> \<not> ben_is_list (ben_dict_search_str (ben_dict_search_str packet ''r'') ''values'')
               | _ \<Rightarrow> True))
      | _ \<Rightarrow> True)"

text \<open>
  The announcements that are not handled safely: a token so short that the comparison reads behind it, and a node that is
  announced again while the list of its target is positioned on it.
\<close>

definition announce_safe :: "VALUE \<Rightarrow> BEN option \<Rightarrow> bool" where
  "announce_safe val a =
     (case (ben_dict_search_str a ''info_hash'', ben_dict_search_str a ''token'', ben_dict_search_str a ''id'') of
        (Some (BEN_STR h), Some (BEN_STR token), Some (BEN_STR i)) \<Rightarrow>
          TOKEN_SIZE \<le> length token + 1 \<and> \<not> val_stale val h i
      | _ \<Rightarrow> True)"

lemma get_reply_ok:
  assumes ok: "main_ok W (k + 60) m" and at: "tid_at (s_tdb m) (Some p) = Some t" and i: "length node_id = SHA1_SIZE"
    and f: "ip_ok (w_ver W) from" and lim: "\<And>b. arg = Some b \<Longrightarrow> in_limits b"
    and own: "\<And>l. t_lookup t = Some l \<Longrightarrow> lk_caller l = None \<or> \<not> ben_is_list (ben_dict_search_str arg ''values'')"
  shows "\<exists>m'. p2p_get_peers_get_reply W m arg node_id (Some p) from = Some m' \<and> main_ok W k m' \<and> keeps_tid m m' p"
proof -
  have ok0: "main_ok W k m" by (rule main_ok_mono [OF ok]) simp
  have triv: "\<exists>m'. Some m = Some m' \<and> main_ok W k m' \<and> keeps_tid m m' p" using ok0 by (simp add: keeps_tid_def)
  show ?thesis
  proof (cases "\<exists>token. ben_dict_search_str arg ''token'' = Some (BEN_STR token) \<and> length token \<le> TOKEN_SIZE_MAX \<and> 0 < length token")
    case False
    then show ?thesis using triv unfolding p2p_get_peers_get_reply_def by (auto split: option.splits BEN.splits)
  next
    case True
    then obtain token where t: "ben_dict_search_str arg ''token'' = Some (BEN_STR token)" "length token \<le> TOKEN_SIZE_MAX" "0 < length token" by blast
    show ?thesis
    proof (cases "ben_dict_search_str arg ''values''")
      case (Some vb)
      show ?thesis
      proof (cases vb)
        case (BEN_LIST vals)
        with Some own have "\<And>l. t_lookup t = Some l \<Longrightarrow> lk_caller l = None" by (auto simp: ben_is_list_def)
        from get_values_ok [OF ok0 at i t(2) f this, of vals] t Some BEN_LIST show ?thesis
          by (simp add: p2p_get_peers_get_reply_def)
      qed (use t Some triv in \<open>simp_all add: p2p_get_peers_get_reply_def\<close>)
    next
      case None
      show ?thesis
      proof (cases "\<exists>nodes. ben_dict_search_str arg (nodes_key (w_ver W)) = Some (BEN_STR nodes) \<and> length nodes mod IP_SIZE_META_TRIPLE (w_ver W) = 0")
        case False
        then show ?thesis using triv t None unfolding p2p_get_peers_get_reply_def by (auto split: option.splits BEN.splits)
      next
        case True
        then obtain nodes where n: "ben_dict_search_str arg (nodes_key (w_ver W)) = Some (BEN_STR nodes)"
          "length nodes mod IP_SIZE_META_TRIPLE (w_ver W) = 0" by (elim exE conjE)
        have "in_limits (BEN_STR nodes)" by (rule search_limits [OF lim n(1)])
        then have "length nodes \<le> 1023" by (simp add: in_limits_def)
        from get_nodes_ok [OF ok at i t(2) f n(2) this] t None n show ?thesis by (simp add: p2p_get_peers_get_reply_def)
      qed
    qed
  qed
qed

lemma announce_request_ok:
  assumes ok: "main_ok W k m" and i: "ben_dict_search_str a ''id'' = Some (BEN_STR node_id)" "length node_id = SHA1_SIZE"
    and f: "ip_ok (w_ver W) from" and safe: "announce_safe (s_value m) a"
  shows "\<exists>m'. p2p_announce_get_request W m a node_id tid from = Some m' \<and> main_ok W k m'"
proof -
  let ?thesis' = "\<exists>m'. p2p_announce_get_request W m a node_id tid from = Some m' \<and> main_ok W k m'"
  have accepted: ?thesis' if h: "ben_dict_search_str a ''info_hash'' = Some (BEN_STR h)" "length h = SHA1_SIZE"
    and t: "ben_dict_search_str a ''token'' = Some (BEN_STR token)" "length token \<le> TOKEN_SIZE_MAX"
      "tkn_validate (s_token m) (take TOKEN_SIZE (token @ [0]))"
    and pt: "ben_dict_search_str a ''port'' = Some (BEN_INT port)" "1 \<le> port" "port \<le> 65535" for h token port
  proof -
    from safe h t i have tk: "token_key token = Some (take TOKEN_SIZE (token @ [0]))" and st: "\<not> val_stale (s_value m) h node_id"
      by (simp_all add: announce_safe_def token_key_def)
    from main_okD(3) [OF ok] obtain ts where ts: "val_rep (w_ver W) (me m) (s_value m) ts" by blast
    let ?from = "if h \<in> fst ` set (with_target (me m) h ts) then ip_merge_port_to_sin from (word_of_int port) else from"
    from val_put_ok [OF ts h(2) main_okD(1) [OF ok] i(2) f, of "w_verbose W" port "clock m"] st obtain val where
      v: "val_put (w_verbose W) (me m) (s_value m) h node_id port from (clock m) = Some (val, ?from)"
        "val_rep (w_ver W) (me m) val (announce (me m) h (fresh_node node_id from port (clock m)) ts)" by auto
    have ok1: "main_ok W k (m\<lparr>s_value := val\<rparr>)" by (rule main_ok_value [OF ok v(2)])
    from send_replies(3) [OF main_okD(2,1) [OF ok1]] obtain m' where
      m': "send_announce_reply W (m\<lparr>s_value := val\<rparr>) ?from tid (length tid) = Some m'" "sent (m\<lparr>s_value := val\<rparr>) m'" by blast
    have "p2p_is_hash (Some (BEN_STR h))" using h(2) by (simp add: p2p_is_hash_def ben_is_str_def ben_str_i_def ben_str_s_def)
    then have "p2p_announce_get_request W m a node_id tid from = Some m'"
      using h t tk pt v(1) m'(1) by (simp add: p2p_announce_get_request_def ben_str_s_def del: take_append)
    with main_ok_sent [OF ok1 m'(2)] show ?thesis by blast
  qed
  show ?thesis
  proof (cases "p2p_is_hash (ben_dict_search_str a ''info_hash'')")
    case False
    with ok show ?thesis by (simp add: p2p_announce_get_request_def)
  next
    case hash: True
    then obtain h where h: "ben_dict_search_str a ''info_hash'' = Some (BEN_STR h)" "length h = SHA1_SIZE" by (rule p2p_is_hashE)
    show ?thesis
    proof (cases "\<exists>token. ben_dict_search_str a ''token'' = Some (BEN_STR token) \<and> length token \<le> TOKEN_SIZE_MAX")
      case False
      show ?thesis
      proof (cases "ben_dict_search_str a ''token''")
        case (Some tb)
        with False ok hash show ?thesis by (cases tb) (auto simp: p2p_announce_get_request_def not_le)
      qed (use ok hash in \<open>simp add: p2p_announce_get_request_def\<close>)
    next
      case True
      then obtain token where t: "ben_dict_search_str a ''token'' = Some (BEN_STR token)" "length token \<le> TOKEN_SIZE_MAX" by blast
      have tk: "token_key token = Some (take TOKEN_SIZE (token @ [0]))"
        using safe h t i by (simp add: announce_safe_def token_key_def)
      show ?thesis
      proof (cases "tkn_validate (s_token m) (take TOKEN_SIZE (token @ [0]))")
        case False
        with ok hash t tk show ?thesis by (simp add: p2p_announce_get_request_def)
      next
        case valid: True
        show ?thesis
        proof (cases "\<exists>port. ben_dict_search_str a ''port'' = Some (BEN_INT port) \<and> 1 \<le> port \<and> port \<le> 65535")
          case True
          with accepted [OF h t valid] show ?thesis by blast
        next
          case False
          with ok hash t tk show ?thesis
            by (cases "ben_dict_search_str a ''port''") (auto simp: p2p_announce_get_request_def not_le not_less split: BEN.split)
        qed
      qed
    qed
  qed
qed

section \<open>Datagrams\<close>

lemma request_ok:
  assumes ok: "main_ok W (k + 61) m" and f: "ip_ok (w_ver W) from"
    and safe: "announce_safe (s_value m) (ben_dict_search_str packet ''a'')"
  shows "\<exists>m'. p2p_request W m packet from = Some m' \<and> main_ok W k m'"
proof -
  let ?a = "ben_dict_search_str packet ''a''" and ?q = "ben_dict_search_str packet ''q''"
  have ok0: "main_ok W k m" by (rule main_ok_mono [OF ok]) simp
  show ?thesis
  proof (cases "ben_is_str ?q \<and> ben_is_dict ?a \<and> p2p_is_hash (ben_dict_search_str ?a ''id'')")
    case False
    with ok0 show ?thesis by (auto simp: p2p_request_def Let_def)
  next
    case guards: True
    then obtain i where i: "ben_dict_search_str ?a ''id'' = Some (BEN_STR i)" "length i = SHA1_SIZE" by (auto elim: p2p_is_hashE)
    obtain q where q: "ben_str_s ?q = Some q" using guards by (auto simp: ben_is_str_def ben_str_s_def split: option.splits BEN.splits)
    show ?thesis
    proof (cases "\<not> p2p_packet_from_myself m i \<and> (\<exists>t. ben_dict_search_str packet ''t'' = Some (BEN_STR t) \<and> length t \<le> TID_SIZE_MAX)")
      case False
      with ok0 guards i show ?thesis
        by (cases "ben_dict_search_str packet ''t''") (auto simp: p2p_request_def Let_def ben_str_s_def not_le split: BEN.split)
    next
      case True
      then obtain t where me: "\<not> p2p_packet_from_myself m i" and t: "ben_dict_search_str packet ''t'' = Some (BEN_STR t)" "length t \<le> TID_SIZE_MAX" by blast
      have "main_ok W (Suc k) m" by (rule main_ok_mono [OF ok]) simp
      from main_nbhd_put_ok [OF this i(2) f] obtain nb where
        nb: "main_nbhd_put W m i from = Some (m\<lparr>s_nbhd := nb\<rparr>)" "main_ok W k (m\<lparr>s_nbhd := nb\<rparr>)" by blast
      let ?m = "m\<lparr>s_nbhd := nb\<rparr>"
      have sf: "announce_safe (s_value ?m) ?a" using safe by simp
      from send_replies(1) [OF main_okD(2,1) [OF nb(2)]] obtain m1 where
        m1: "p2p_ping W ?m t from = Some m1" "sent ?m m1" unfolding p2p_ping_def by blast
      from find_node_request_ok [OF nb(2)] obtain m2 where m2: "p2p_find_node_get_request W ?m ?a t from = Some m2" "main_ok W k m2" by blast
      from get_peers_request_ok [OF nb(2)] obtain m3 where m3: "p2p_get_peers_get_request W ?m ?a t from = Some m3" "main_ok W k m3" by blast
      from announce_request_ok [OF nb(2) i f sf] obtain m4 where m4: "p2p_announce_get_request W ?m ?a i t from = Some m4" "main_ok W k m4" by blast
      note m1' = main_ok_sent [OF nb(2) m1(2)]
      have i': "ben_str_s (ben_dict_search_str ?a ''id'') = Some i" by (simp add: i ben_str_s_def)
      have eq: "p2p_request W m packet from =
        (if q = lit ''ping'' then Some m1 else if q = lit ''find_node'' then Some m2 else if q = lit ''get_peers'' then Some m3
         else if q = lit ''announce_peer'' then Some m4 else Some ?m)"
        unfolding p2p_request_def Let_def using guards i' me t nb(1) q m1(1) m2(1) m3(1) m4(1) by simp
      show ?thesis unfolding eq using m1' m2(2) m3(2) m4(2) nb(2) by simp
    qed
  qed
qed

lemma reply_done_ok:
  assumes ok: "main_ok W k m" and "ti = None \<or> (\<exists>p t. ti = Some p \<and> tid_at (s_tdb m) (Some p) = Some t)"
  shows "\<exists>m'. p2p_reply_done m ti = Some m' \<and> main_ok W k m'"
  using assms(2)
proof (elim disjE exE conjE)
  assume "ti = None"
  with ok show ?thesis by (simp add: p2p_reply_done_def tdb_type_def)
next
  fix p t assume p: "ti = Some p" "tid_at (s_tdb m) (Some p) = Some t"
  from main_del_ok [OF ok p(2)] obtain T where T: "tdb_del (s_tdb m) (Some p) = Some T" "main_ok W (k + t_weight t) (m\<lparr>s_tdb := T\<rparr>)" by blast
  have "main_ok W k (m\<lparr>s_tdb := T\<rparr>)" by (rule main_ok_mono [OF T(2)]) simp
  with ok p T(1) show ?thesis by (simp add: p2p_reply_done_def tdb_type_def)
qed

lemma keeps_tidD: "keeps_tid m m' p \<Longrightarrow> tid_at (s_tdb m) (Some p) = Some t \<Longrightarrow> \<exists>t'. tid_at (s_tdb m') (Some p) = Some t'"
  by (cases "tid_at (s_tdb m') (Some p)") (auto simp: keeps_tid_def)

lemma reply_dispatch_ok:
  assumes ok: "main_ok W (k + 60) m" and i: "length i = SHA1_SIZE" and f: "ip_ok (w_ver W) from"
    and lim: "\<And>b. r = Some b \<Longrightarrow> in_limits b" and at: "tid_at (s_tdb m) (Some p) = Some t"
    and own: "\<And>l. t_lookup t = Some l \<Longrightarrow> lk_caller l = None \<or> \<not> ben_is_list (ben_dict_search_str r ''values'')"
  shows "\<exists>m'. p2p_pong m i from \<bind> (\<lambda>m. p2p_reply_done m (Some p)) = Some m' \<and> main_ok W k m'"
    "\<exists>m'. p2p_find_node_get_reply W m r \<bind> (\<lambda>m. p2p_reply_done m (Some p)) = Some m' \<and> main_ok W k m'"
    "\<exists>m'. p2p_get_peers_get_reply W m r i (Some p) from \<bind> (\<lambda>m. p2p_reply_done m (Some p)) = Some m' \<and> main_ok W k m'"
    "\<exists>m'. p2p_reply_done m (Some p) = Some m' \<and> main_ok W k m'"
proof -
  have ok0: "main_ok W k m" by (rule main_ok_mono [OF ok]) simp
  have "\<exists>t'. tid_at (s_tdb m1) (Some p) = Some t' \<Longrightarrow> main_ok W k m1 \<Longrightarrow> \<exists>m'. p2p_reply_done m1 (Some p) = Some m' \<and> main_ok W k m'" for m1
    by (rule reply_done_ok) auto
  note rd = this
  from p2p_pong_ok [OF ok0 f, of i] obtain nb g where
    m1: "p2p_pong m i from = Some (m\<lparr>s_nbhd := nb, s_rng := g\<rparr>)" "main_ok W k (m\<lparr>s_nbhd := nb, s_rng := g\<rparr>)" by blast
  show "\<exists>m'. p2p_pong m i from \<bind> (\<lambda>m. p2p_reply_done m (Some p)) = Some m' \<and> main_ok W k m'"
    using rd [OF _ m1(2)] m1(1) at by simp
  have "length s \<le> 1023" if "ben_dict_search_str r (nodes_key (w_ver W)) = Some (BEN_STR s)" for s
    using search_limits [OF lim that] by (simp add: in_limits_def)
  from find_node_reply_ok [OF ok this] obtain nb where
    m2: "p2p_find_node_get_reply W m r = Some (m\<lparr>s_nbhd := nb\<rparr>)" "main_ok W k (m\<lparr>s_nbhd := nb\<rparr>)" by blast
  show "\<exists>m'. p2p_find_node_get_reply W m r \<bind> (\<lambda>m. p2p_reply_done m (Some p)) = Some m' \<and> main_ok W k m'"
    using rd [OF _ m2(2)] m2(1) at by simp
  from get_reply_ok [OF ok at i f lim own] obtain m3 where
    m3: "p2p_get_peers_get_reply W m r i (Some p) from = Some m3" "main_ok W k m3" "keeps_tid m m3 p" by blast
  show "\<exists>m'. p2p_get_peers_get_reply W m r i (Some p) from \<bind> (\<lambda>m. p2p_reply_done m (Some p)) = Some m' \<and> main_ok W k m'"
    using rd [OF keeps_tidD [OF m3(3) at] m3(2)] m3(1) by simp
  show "\<exists>m'. p2p_reply_done m (Some p) = Some m' \<and> main_ok W k m'"
    using rd [OF _ ok0] at by blast
qed

lemma reply_ok:
  assumes ok: "main_ok W (k + 61) m" and f: "ip_ok (w_ver W) from" and safe: "reply_safe (s_tdb m) packet"
    and lim: "\<And>b. packet = Some b \<Longrightarrow> in_limits b"
  shows "\<exists>m'. p2p_reply W m packet from = Some m' \<and> main_ok W k m'"
proof -
  let ?r = "ben_dict_search_str packet ''r''"
  have ok0: "main_ok W k m" by (rule main_ok_mono [OF ok]) simp
  show ?thesis
  proof (cases "ben_is_dict ?r \<and> p2p_is_hash (ben_dict_search_str ?r ''id'')")
    case False
    with ok0 show ?thesis by (auto simp: p2p_reply_def Let_def)
  next
    case guards: True
    then obtain i where i: "ben_dict_search_str ?r ''id'' = Some (BEN_STR i)" "length i = SHA1_SIZE" by (auto elim: p2p_is_hashE)
    have i': "ben_str_s (ben_dict_search_str ?r ''id'') = Some i" by (simp add: i ben_str_s_def)
    show ?thesis
    proof (cases "\<not> p2p_packet_from_myself m i \<and> (\<exists>t. ben_dict_search_str packet ''t'' = Some (BEN_STR t) \<and> length t = TID_SIZE)")
      case False
      with ok0 guards i' show ?thesis
        by (cases "ben_dict_search_str packet ''t''") (auto simp: p2p_reply_def Let_def split: BEN.split)
    next
      case True
      then obtain t where me: "\<not> p2p_packet_from_myself m i" and t: "ben_dict_search_str packet ''t'' = Some (BEN_STR t)" "length t = TID_SIZE" by blast
      have "main_ok W (Suc (k + 60)) m" by (rule main_ok_mono [OF ok]) simp
      from main_nbhd_put_ok [OF this i(2) f] obtain nb where
        nb: "main_nbhd_put W m i from = Some (m\<lparr>s_nbhd := nb\<rparr>)" "main_ok W (k + 60) (m\<lparr>s_nbhd := nb\<rparr>)" by blast
      let ?m = "m\<lparr>s_nbhd := nb\<rparr>"
      have okm: "main_ok W k ?m" by (rule main_ok_mono [OF nb(2)]) simp
      have rl: "\<And>b. ?r = Some b \<Longrightarrow> in_limits b" by (rule search_limits [OF lim])
      show ?thesis
      proof (cases "tdb_item (s_tdb m) t")
        case None
        then show ?thesis unfolding p2p_reply_def Let_def using guards i' me t nb(1) okm by (simp add: tdb_type_def)
      next
        case (Some p)
        from main_item [OF ok Some] obtain td where td: "tid_at (s_tdb ?m) (Some p) = Some td" by auto
        have "lk_caller l = None \<or> \<not> ben_is_list (ben_dict_search_str ?r ''values'')" if "t_lookup td = Some l" for l
          using safe t(1) Some td that by (simp add: reply_safe_def tdb_ldb_def)
        note R = reply_dispatch_ok [OF nb(2) i(2) f rl td this]
        have "tdb_type (s_tdb ?m) (Some p) = Some (t_type td)" using td by (simp add: tdb_type_def)
        then show ?thesis unfolding p2p_reply_def Let_def using guards i' me t nb(1) Some R okm by simp
      qed
    qed
  qed
qed

text \<open>What a decoded packet must not be for the handlers to be safe.\<close>

definition packet_safe :: "VALUE \<Rightarrow> TDB \<Rightarrow> BEN option \<Rightarrow> bool" where
  "packet_safe val T packet \<longleftrightarrow> announce_safe val (ben_dict_search_str packet ''a'') \<and> reply_safe T packet"

lemma decode_ok:
  assumes ok: "main_ok W (k + 61) m" and f: "ip_ok (w_ver W) from" and d: "ben_dec buf sz = Inr (Some b)" "in_limits b"
    and safe: "packet_safe (s_value m) (s_tdb m) (Some b)"
  shows "\<exists>m'. p2p_decode W m buf sz from = Some m' \<and> main_ok W k m'"
proof -
  have ok0: "main_ok W k m" by (rule main_ok_mono [OF ok]) simp
  from safe have s: "announce_safe (s_value m) (ben_dict_search_str (Some b) ''a'')" "reply_safe (s_tdb m) (Some b)" by (simp_all add: packet_safe_def)
  from request_ok [OF ok f s(1)] obtain m1 where m1: "p2p_request W m (Some b) from = Some m1" "main_ok W k m1" by (elim exE conjE)
  from reply_ok [OF ok f s(2)] d(2) obtain m2 where m2: "p2p_reply W m (Some b) from = Some m2" "main_ok W k m2" by auto
  show ?thesis
    using ok0 d(1) m1 m2 by (auto simp: p2p_decode_def split: option.split BEN.split list.split)
qed

text \<open>
  The packet a datagram carries: with encryption the decrypted one.  \<open>None\<close> stands for a datagram that is dropped.
\<close>

definition carried :: "WORLD \<Rightarrow> bytes \<Rightarrow> BEN \<Rightarrow> (bytes \<times> nat) option" where
  "carried W key packet =
     (case (ben_dict_search_str (Some packet) ''s'', ben_dict_search_str (Some packet) ''a'') of
        (Some (BEN_STR salt), Some (BEN_STR aes)) \<Rightarrow>
          (case aes_decrypt W aes salt key of
             Some (Some plain) \<Rightarrow> Some (plain @ [0], length plain)
           | _ \<Rightarrow> None)
      | _ \<Rightarrow> None)"

definition bencode_safe :: "VALUE \<Rightarrow> TDB \<Rightarrow> bytes \<Rightarrow> nat \<Rightarrow> bool" where
  "bencode_safe val T buf sz \<longleftrightarrow> \<not> open_ended buf sz 0 \<and>
     (case ben_dec buf sz of Inr (Some b) \<Rightarrow> packet_safe val T (Some b) | _ \<Rightarrow> True)"

definition encrypted_safe :: "WORLD \<Rightarrow> bytes \<Rightarrow> VALUE \<Rightarrow> TDB \<Rightarrow> bytes \<Rightarrow> nat \<Rightarrow> bool" where
  "encrypted_safe W key val T buf sz \<longleftrightarrow> \<not> open_ended buf sz 0 \<and>
     (case ben_dec buf sz of
        Inr (Some b) \<Rightarrow> (case carried W key b of Some (plain, n) \<Rightarrow> bencode_safe val T plain n | None \<Rightarrow> True)
      | _ \<Rightarrow> True)"

definition encrypted :: "WORLD \<Rightarrow> CONF \<Rightarrow> IP \<Rightarrow> bool" where
  "encrypted W conf from \<longleftrightarrow> w_polarssl W \<and> c_bool_encryption conf \<and> \<not> ip_is_localhost (w_ver W) from"

definition datagram_safe :: "WORLD \<Rightarrow> MAIN \<Rightarrow> bytes \<Rightarrow> nat \<Rightarrow> IP \<Rightarrow> bool" where
  "datagram_safe W m buf sz from \<longleftrightarrow>
     (encrypted W (s_conf m) from \<longrightarrow> encrypted_safe W (c_key (s_conf m)) (s_value m) (s_tdb m) buf sz) \<and>
     (\<not> encrypted W (s_conf m) from \<longrightarrow> bencode_safe (s_value m) (s_tdb m) buf sz)"

lemma bencode_ok:
  assumes ok: "main_ok W (k + 61) m" and f: "ip_ok (w_ver W) from" and bound: "sz \<le> length buf" "int sz < LONG_MAX"
    and safe: "bencode_safe (s_value m) (s_tdb m) buf sz"
  obtains r where "ben_validate buf sz = Inr r" "r \<Longrightarrow> \<exists>m'. p2p_decode W m buf sz from = Some m' \<and> main_ok W k m'"
proof -
  from ben_dec_validated [OF bound] obtain r where r: "ben_validate buf sz = Inr r"
    "r \<longrightarrow> (\<exists>b. ben_dec buf sz = Inr (Some b) \<and> in_limits b) \<or> open_ended buf sz 0" by blast
  have "\<exists>m'. p2p_decode W m buf sz from = Some m' \<and> main_ok W k m'" if r
  proof -
    from that r(2) safe obtain b where b: "ben_dec buf sz = Inr (Some b)" "in_limits b" by (auto simp: bencode_safe_def)
    with safe have "packet_safe (s_value m) (s_tdb m) (Some b)" by (simp add: bencode_safe_def)
    with decode_ok [OF ok f b] show ?thesis by blast
  qed
  with r(1) that show thesis by blast
qed

lemma decrypt_ok:
  assumes ok: "main_ok W (k + 61) m" and f: "ip_ok (w_ver W) from" and d: "ben_dec buf sz = Inr (Some b)" "in_limits b"
    and safe: "case carried W (c_key (s_conf m)) b of Some (plain, n) \<Rightarrow> bencode_safe (s_value m) (s_tdb m) plain n | None \<Rightarrow> True"
  shows "\<exists>m'. p2p_decrypt W m buf sz from = Some m' \<and> main_ok W k m'"
proof -
  have ok0: "main_ok W k m" by (rule main_ok_mono [OF ok]) simp
  show ?thesis
  proof (cases "\<exists>salt aes. ben_dict_search_str (Some b) ''s'' = Some (BEN_STR salt) \<and> length salt = AES_IV_SIZE \<and>
      ben_dict_search_str (Some b) ''a'' = Some (BEN_STR aes) \<and> 2 < length aes")
    case False
    then show ?thesis using ok0 d(1) by (auto simp: p2p_decrypt_def split: option.split BEN.split)
  next
    case True
    then obtain salt aes where sa: "ben_dict_search_str (Some b) ''s'' = Some (BEN_STR salt)" "length salt = AES_IV_SIZE"
      "ben_dict_search_str (Some b) ''a'' = Some (BEN_STR aes)" "2 < length aes" by (elim exE conjE)
    have dict: "ben_is_dict (Some b)"
      using sa(1) by (auto simp: ben_dict_search_str_def ben_dict_search_key_def ben_is_dict_def split: BEN.splits)
    have "in_limits (BEN_STR aes)" by (rule search_limits [OF _ sa(3)]) (use d(2) in simp)
    then have al: "length aes \<le> 1023" by (simp add: in_limits_def)
    then obtain r where r: "aes_decrypt W aes salt (c_key (s_conf m)) = Some r" "\<forall>plain. r = Some plain \<longrightarrow> length plain = length aes"
      using aes_decrypt_safe [of aes W salt "c_key (s_conf m)"] by auto
    show ?thesis
    proof (cases r)
      case None
      then show ?thesis using ok0 d(1) dict sa r by (simp add: p2p_decrypt_def)
    next
      case (Some plain)
      have safe': "bencode_safe (s_value m) (s_tdb m) (plain @ [0]) (length plain)" using safe sa r Some by (simp add: carried_def)
      have pl: "length plain \<le> 1023" using r(2) Some al by simp
      have "length plain \<le> length (plain @ [0])" "int (length plain) < LONG_MAX" using pl by simp_all
      from bencode_ok [OF ok f this safe'] obtain ok' where
        v: "ben_validate (plain @ [0]) (length plain) = Inr ok'"
          "ok' \<Longrightarrow> \<exists>m'. p2p_decode W m (plain @ [0]) (length plain) from = Some m' \<and> main_ok W k m'" by blast
      then show ?thesis using ok0 d(1) dict sa r(1) Some by (cases ok') (simp_all add: p2p_decrypt_def)
    qed
  qed
qed

lemma main_ok_clock: "main_ok W k (m\<lparr>s_p2p := (s_p2p m)\<lparr>pt_now := now\<rparr>\<rparr>) = main_ok W k m"
  by (simp add: main_ok_def)

lemma parse_ok:
  assumes ok: "main_ok W (k + 61) m" and f: "ip_ok (w_ver W) from" and bound: "sz \<le> length buf" "int sz < LONG_MAX"
    and safe: "datagram_safe W m buf sz from"
  shows "\<exists>m'. p2p_parse W m buf sz from now = Some m' \<and> main_ok W k m'"
proof -
  let ?m = "m\<lparr>s_p2p := (s_p2p m)\<lparr>pt_now := now\<rparr>\<rparr>"
  have okm: "main_ok W (k + 61) ?m" using ok by (simp only: main_ok_clock)
  have ok0: "main_ok W k ?m" by (rule main_ok_mono [OF okm]) simp
  from ben_dec_validated [OF bound] obtain r where r: "ben_validate buf sz = Inr r"
    "r \<longrightarrow> (\<exists>b. ben_dec buf sz = Inr (Some b) \<and> in_limits b) \<or> open_ended buf sz 0" by blast
  show ?thesis
  proof (cases "sz < 1 \<or> ip_is_linklocal (w_ver W) from \<or> \<not> r")
    case True
    then show ?thesis using ok0 r(1) by (auto simp: p2p_parse_def Let_def)
  next
    case go: False
    show ?thesis
    proof (cases "encrypted W (s_conf m) from")
      case True
      with safe have s: "encrypted_safe W (c_key (s_conf m)) (s_value m) (s_tdb m) buf sz" by (simp add: datagram_safe_def)
      with go r(2) obtain b where b: "ben_dec buf sz = Inr (Some b)" "in_limits b" by (auto simp: encrypted_safe_def)
      have "case carried W (c_key (s_conf ?m)) b of Some (plain, n) \<Rightarrow> bencode_safe (s_value ?m) (s_tdb ?m) plain n | None \<Rightarrow> True"
        using s b(1) by (auto simp: encrypted_safe_def split: option.splits)
      from decrypt_ok [OF okm f b this] go r(1) True show ?thesis by (simp add: p2p_parse_def encrypted_def)
    next
      case False
      have s: "bencode_safe (s_value ?m) (s_tdb ?m) buf sz" using safe False by (simp add: datagram_safe_def)
      have "\<exists>m'. p2p_decode W ?m buf sz from = Some m' \<and> main_ok W k m'"
        by (rule bencode_ok [OF okm f bound s]) (use go r(1) in auto)
      with go r(1) False show ?thesis by (auto simp: p2p_parse_def encrypted_def)
    qed
  qed
qed

end
