(* ===== verification/Cron_Inv.thy ===== *)
theory Cron_Inv
  imports Invariant
begin

text \<open>
  Every part of \<open>p2p_cron\<close> keeps the invariant of the program.  How many objects a run may create is accounted for in
  the second argument of \<open>main_ok\<close>.
\<close>

section \<open>What periodic work leaves alone\<close>

definition calm :: "MAIN \<Rightarrow> MAIN \<Rightarrow> bool" where
  "calm m m' \<longleftrightarrow> s_conf m' = s_conf m \<and> clock m' = clock m \<and> pt_token (s_p2p m') = pt_token (s_p2p m)"

lemma calm_refl [simp]: "calm m m"
  by (simp add: calm_def)

lemma calm_trans: "calm m m1 \<Longrightarrow> calm m1 m2 \<Longrightarrow> calm m m2"
  by (auto simp: calm_def)

lemma calm_search: "same_but_search m m' \<Longrightarrow> calm m m'"
  by (simp add: calm_def same_but_search_def)

lemma same_but_search_refl [simp]: "same_but_search m m"
  by (simp add: same_but_search_def)

lemma same_but_search_trans: "same_but_search m m1 \<Longrightarrow> same_but_search m1 m2 \<Longrightarrow> same_but_search m m2"
  by (simp add: same_but_search_def)

section \<open>Requests\<close>

text \<open>A request is a new transaction and a message that carries its id.\<close>

lemma request_step:
  assumes ok: "main_ok W (Suc k) m" and ty: "type \<noteq> P2P_ANNOUNCE_START"
    and send: "\<And>m tid. rng_ok (s_rng m) \<Longrightarrow> length (me m) = SHA1_SIZE \<Longrightarrow> length tid = TID_SIZE \<Longrightarrow> \<exists>m'. send m tid = Some m' \<and> sent m m'"
  shows "\<exists>m1 ti tid m'. main_tdb_put m type = Some (m1, ti) \<and> tdb_tid (s_tdb m1) ti = Some tid \<and> send m1 tid = Some m' \<and>
    main_ok W k m' \<and> same_but_search m m' \<and>
    (\<forall>us. tids (s_tdb m) us \<longrightarrow> (\<exists>p t. tids (s_tdb m') (us @ [(p, t)]) \<and> t_weight t = 1))"
proof -
  from main_tdb_put_ok [OF ok ty] obtain T g p tid where
    m1: "main_tdb_put m type = Some (m\<lparr>s_tdb := T, s_rng := g\<rparr>, Some p)" "main_ok W k (m\<lparr>s_tdb := T, s_rng := g\<rparr>)"
      "tdb_tid T (Some p) = Some tid" "length tid = TID_SIZE" "\<forall>us. tids (s_tdb m) us \<longrightarrow> (\<exists>t. tids T (us @ [(p, t)]) \<and> t_weight t = 1)" by blast
  let ?m = "m\<lparr>s_tdb := T, s_rng := g\<rparr>"
  from send [OF main_okD(2,1) [OF m1(2)] m1(4)] obtain m' where m': "send ?m tid = Some m'" "sent ?m m'" by blast
  have "same_but_search m m'" by (rule same_but_search_sent [OF _ m'(2)]) (simp add: same_but_search_def)
  moreover have "main_ok W k m'" by (rule main_ok_sent [OF m1(2) m'(2)])
  moreover have "s_tdb m' = T" using sent_frame(5) [OF m'(2)] by simp
  then have "\<forall>us. tids (s_tdb m) us \<longrightarrow> (\<exists>p t. tids (s_tdb m') (us @ [(p, t)]) \<and> t_weight t = 1)" using m1(5) by blast
  moreover have "tdb_tid (s_tdb ?m) (Some p) = Some tid" using m1(3) by simp
  ultimately show ?thesis using m1(1) m'(1) by blast
qed

lemma request_cases:
  assumes "main_ok W (Suc k) m" and "type \<noteq> P2P_ANNOUNCE_START"
    and "\<And>m tid. rng_ok (s_rng m) \<Longrightarrow> length (me m) = SHA1_SIZE \<Longrightarrow> length tid = TID_SIZE \<Longrightarrow> \<exists>m'. send m tid = Some m' \<and> sent m m'"
  obtains m1 ti tid m' where "main_tdb_put m type = Some (m1, ti)" "tdb_tid (s_tdb m1) ti = Some tid" "send m1 tid = Some m'"
    "main_ok W k m'" "same_but_search m m'"
proof -
  have "\<exists>m1 ti tid m'. main_tdb_put m type = Some (m1, ti) \<and> tdb_tid (s_tdb m1) ti = Some tid \<and> send m1 tid = Some m' \<and>
    main_ok W k m' \<and> same_but_search m m' \<and>
    (\<forall>us. tids (s_tdb m) us \<longrightarrow> (\<exists>p t. tids (s_tdb m') (us @ [(p, t)]) \<and> t_weight t = 1))"
    by (rule request_step [OF assms])
  then show thesis by (elim exE conjE) (rule that)
qed

lemma send_ping_ok:
  "rng_ok (s_rng m) \<Longrightarrow> length (me m) = SHA1_SIZE \<Longrightarrow> length tid = TID_SIZE \<Longrightarrow> \<exists>m'. send_ping W m sa tid = Some m' \<and> sent m m'"
  by (rule send_requests(1) [where target = "replicate 20 0"]) simp_all

lemma ping_addresses_ok:
  "main_ok W (k + n) m \<Longrightarrow> \<exists>m'. ping_addresses W m n as = Some m' \<and> main_ok W k m' \<and> same_but_search m m'"
proof (induction n arbitrary: m as)
  case 0
  then show ?case by simp
next
  case (Suc n)
  show ?case
  proof (cases as)
    case Nil
    then show ?thesis using main_ok_mono [OF Suc.prems, of k] by simp
  next
    case (Cons a as')
    let ?ty = "if c_bootstrap_node (s_conf m) = BOOTSTRAP_MCAST (w_ver W) then P2P_PING_MULTICAST else P2P_PING"
    have "main_ok W (Suc (k + n)) m" using Suc.prems by simp
    moreover have "?ty \<noteq> P2P_ANNOUNCE_START" by simp
    ultimately obtain m1 ti tid m' where
      r: "main_tdb_put m ?ty = Some (m1, ti)" "tdb_tid (s_tdb m1) ti = Some tid" "send_ping W m1 a tid = Some m'"
        "main_ok W (k + n) m'" "same_but_search m m'" using request_step [where send = "\<lambda>m. send_ping W m a", OF _ _ send_ping_ok] by blast
    from Suc.IH [OF r(4), of as'] r same_but_search_trans [OF r(5)] show ?thesis by (auto simp: Cons)
  qed
qed

lemma bootstrap_this_ok:
  assumes "main_ok W (k + 20) m"
  shows "\<exists>m'. p2p_bootstrap_this W m node port = Some m' \<and> main_ok W k m' \<and> same_but_search m m'"
  using ping_addresses_ok [OF assms] main_ok_mono [OF assms, of k]
  by (cases "w_getaddrinfo W node (take 5 (long_digits (int port)))") (simp_all add: p2p_bootstrap_this_def)

lemma bootstrap_each_ok:
  "main_ok W (k + 20 * length ns) m \<Longrightarrow> \<exists>m'. bootstrap_each W m ns = Some m' \<and> main_ok W k m' \<and> same_but_search m m'"
proof (induction ns arbitrary: m)
  case (Cons n ns)
  have "main_ok W (k + 20 * length ns + 20) m" by (rule main_ok_mono [OF Cons.prems]) simp
  from bootstrap_this_ok [OF this] obtain m1 where
    m1: "p2p_bootstrap_this W m n (c_bootstrap_port (s_conf m)) = Some m1" "main_ok W (k + 20 * length ns) m1" "same_but_search m m1" by blast
  from Cons.IH [OF m1(2)] m1 same_but_search_trans [OF m1(3)] show ?case by auto
qed simp

lemma bootstrap_ok:
  assumes "main_ok W (k + 60) m"
  shows "\<exists>m'. p2p_bootstrap W m = Some m' \<and> main_ok W k m' \<and> calm m m'"
proof -
  have "main_ok W k m" by (rule main_ok_mono [OF assms]) simp
  moreover have "main_ok W (k + 20) m" by (rule main_ok_mono [OF assms]) simp
  note bootstrap_this_ok [OF this, of "c_bootstrap_node (s_conf m)" "c_bootstrap_port (s_conf m)"]
  moreover have "main_ok W (k + 20 * length (take 3 (c_bootstrap_lazy (s_conf m)))) m" by (rule main_ok_mono [OF assms]) simp
  note bootstrap_each_ok [OF this]
  moreover have "c_bootstrap_mode (s_conf m) \<in> {0, 1, 2}" using main_okD(9) [OF assms] by (simp add: conf_ok_def)
  ultimately show ?thesis by (auto simp: p2p_bootstrap_def Let_def dest: calm_search)
qed

section \<open>Expiring transactions\<close>

lemma announce_loop_ok:
  "main_ok W (k + j) m \<Longrightarrow> ldb_ok (w_ver W) l \<Longrightarrow> set ps \<subseteq> set (lk_list l) \<Longrightarrow> tids (s_tdb m) us \<Longrightarrow>
   \<exists>m' new. announce_loop W m l j ps = Some m' \<and> main_ok W k m' \<and> same_but_search m m' \<and> tids (s_tdb m') (us @ new) \<and> weight new \<le> j"
proof (induction ps arbitrary: m j us)
  case Nil
  have "main_ok W k m" by (rule main_ok_mono [OF Nil.prems(1)]) simp
  then show ?case using Nil.prems(4) by (cases j) (auto intro: exI [of _ "[]"])
next
  case (Cons p ps)
  show ?case
  proof (cases j)
    case 0
    then show ?thesis using Cons.prems by (auto intro: exI [of _ "[]"])
  next
    case (Suc i)
    obtain n where n: "lk_mem l p = Some n" using ldb_okD(4) [OF Cons.prems(2)] Cons.prems(3) by auto
    have ps: "set ps \<subseteq> set (lk_list l)" using Cons.prems(3) by simp
    show ?thesis
    proof (cases "nl_token n = []")
      case True
      from Cons.IH [OF Cons.prems(1,2) ps Cons.prems(4)] True n Suc show ?thesis by simp
    next
      case False
      have "main_ok W (Suc (k + i)) m" using Cons.prems(1) by (simp add: Suc)
      moreover have "rng_ok (s_rng m) \<Longrightarrow> length (me m) = SHA1_SIZE \<Longrightarrow> length tid = TID_SIZE \<Longrightarrow>
        \<exists>m'. send_announce_request W m (nl_addr n) tid (lk_target l) (nl_token n) (length (nl_token n)) = Some m' \<and> sent m m'" for m tid
        by (rule send_requests(4) [OF _ _ _ ldb_okD(1) [OF Cons.prems(2)]])
      ultimately obtain m1 ti tid m2 where
        m1: "main_tdb_put m P2P_ANNOUNCE_ENGAGE = Some (m1, ti)" "tdb_tid (s_tdb m1) ti = Some tid"
          "send_announce_request W m1 (nl_addr n) tid (lk_target l) (nl_token n) (length (nl_token n)) = Some m2"
          "main_ok W (k + i) m2" "same_but_search m m2" "\<forall>us. tids (s_tdb m) us \<longrightarrow> (\<exists>p t. tids (s_tdb m2) (us @ [(p, t)]) \<and> t_weight t = 1)"
        using request_step [of W "k + i" m P2P_ANNOUNCE_ENGAGE "\<lambda>m tid. send_announce_request W m (nl_addr n) tid (lk_target l) (nl_token n) (length (nl_token n))"]
        by auto
      from m1(6) Cons.prems(4) obtain q t where q: "tids (s_tdb m2) (us @ [(q, t)])" "t_weight t = 1" by blast
      from Cons.IH [OF m1(4) Cons.prems(2) ps q(1)] obtain m3 new where
        m3: "announce_loop W m2 l i ps = Some m3" "main_ok W k m3" "same_but_search m2 m3" "tids (s_tdb m3) ((us @ [(q, t)]) @ new)" "weight new \<le> i" by blast
      have "announce_loop W m l j (p # ps) = Some m3" using False n m1(1-3) m3(1) by (simp add: Suc)
      moreover have "tids (s_tdb m3) (us @ ((q, t) # new))" "weight ((q, t) # new) \<le> j" using m3(4,5) q(2) by (simp_all add: Suc)
      ultimately show ?thesis using m3(2) same_but_search_trans [OF m1(5) m3(3)] by blast
    qed
  qed
qed

lemma expire_step:
  assumes ok: "main_ok W (k + 8) m" and xs: "tids (s_tdb m) (xs @ (p, t) # ys)"
  shows "\<exists>m' new. tdb_expire_body W now m p t = Some m' \<and> main_ok W (k + 8) m' \<and> same_but_search m m' \<and>
    (tids (s_tdb m') (xs @ (p, t) # ys) \<and> new = [] \<or> tids (s_tdb m') (xs @ ys @ new)) \<and> weight new < t_weight t"
proof (cases "now > t_time t \<or> \<not> s_rumble m")
  case False
  have "0 < t_weight t" by (simp add: t_weight_def)
  with False ok xs show ?thesis by (auto simp: tdb_expire_body_def)
next
  case old: True
  have at: "tid_at (s_tdb m) (Some p) = Some t" by (rule tid_at_tids [OF xs])
  have ok0: "main_ok W k m" by (rule main_ok_mono [OF ok]) simp
  show ?thesis
  proof (cases "t_type t = P2P_ANNOUNCE_START")
    case False
    from main_del_ok [OF ok at] obtain T where
      T: "tdb_del (s_tdb m) (Some p) = Some T" "main_ok W (k + 8 + t_weight t) (m\<lparr>s_tdb := T\<rparr>)" "tids T (xs @ ys)" using xs by blast
    have "main_ok W (k + 8) (m\<lparr>s_tdb := T\<rparr>)" by (rule main_ok_mono [OF T(2)]) simp
    with old False T show ?thesis
      by (intro exI [of _ "m\<lparr>s_tdb := T\<rparr>"] exI [of _ "[]"]) (simp add: tdb_expire_body_def same_but_search_def t_weight_def)
  next
    case True
    from main_tid_ok [OF ok at] True obtain l where l: "t_lookup t = Some l" "ldb_ok (w_ver W) l" by (auto simp: tid_ok_def)
    from announce_loop_ok [OF ok l(2) subset_refl xs] obtain m1 new where
      m1: "announce_loop W m l 8 (lk_list l) = Some m1" "main_ok W k m1" "same_but_search m m1"
        "tids (s_tdb m1) ((xs @ (p, t) # ys) @ new)" "weight new \<le> 8" by blast
    have xs1: "tids (s_tdb m1) (xs @ (p, t) # (ys @ new))" using m1(4) by simp
    from main_del_ok [OF m1(2) tid_at_tids [OF xs1]] obtain T where
      T: "tdb_del (s_tdb m1) (Some p) = Some T" "main_ok W (k + t_weight t) (m1\<lparr>s_tdb := T\<rparr>)" "tids T (xs @ ys @ new)" using xs1 by blast
    have "main_ok W (k + 8) (m1\<lparr>s_tdb := T\<rparr>)" by (rule main_ok_mono [OF T(2)]) (simp add: t_weight_def True)
    moreover have "p2p_cron_announce W m (Some p) = Some m1" using at l(1) m1(1) by (simp add: p2p_cron_announce_def tdb_ldb_def)
    ultimately show ?thesis using old True T m1(3,5)
      by (intro exI [of _ "m1\<lparr>s_tdb := T\<rparr>"] exI [of _ new]) (simp add: tdb_expire_body_def same_but_search_def t_weight_def)
  qed
qed

text \<open>The loop ends although it may visit the announcements it has appended: they weigh less than the search that caused them.\<close>

lemma expire_loop:
  "weight ys \<le> n \<Longrightarrow> main_ok W (k + 8) m \<Longrightarrow> tids (s_tdb m) (xs @ ys) \<Longrightarrow>
   \<exists>m'. list_each (\<lambda>m. td_list (s_tdb m)) (tdb_expire_body W now) m (first ys None) = Some m' \<and> main_ok W (k + 8) m' \<and> same_but_search m m'"
proof (induction n arbitrary: m xs ys)
  case 0
  then have "ys = []" by (cases ys) (simp_all add: t_weight_def split: if_splits)
  with 0 show ?case by (simp add: list_each.simps)
next
  case (Suc n)
  show ?case
  proof (cases ys)
    case Nil
    with Suc.prems show ?thesis by (simp add: list_each.simps)
  next
    case (Cons y zs)
    obtain p t where y: "y = (p, t)" by (cases y)
    have xs: "tids (s_tdb m) (xs @ (p, t) # zs)" using Suc.prems(3) by (simp add: Cons y)
    have mem: "l_mem (td_list (s_tdb m)) p = Some \<lparr>i_val = t, i_next = first zs None, i_prev = final xs None\<rparr>"
      using xs by (simp add: tids_def dlc_def dl_def)
    from expire_step [OF Suc.prems(2) xs, of now] obtain m1 new where
      m1: "tdb_expire_body W now m p t = Some m1" "main_ok W (k + 8) m1" "same_but_search m m1"
        "tids (s_tdb m1) (xs @ (p, t) # zs) \<and> new = [] \<or> tids (s_tdb m1) (xs @ zs @ new)" "weight new < t_weight t" by blast
    have each: "list_each (\<lambda>m. td_list (s_tdb m)) (tdb_expire_body W now) m (first ys None) =
        list_each (\<lambda>m. td_list (s_tdb m)) (tdb_expire_body W now) m1 (first zs None)"
      using mem m1(1) by (subst list_each.simps) (simp add: Cons y)
    have w: "weight zs + weight new \<le> n" using Suc.prems(1) m1(5) by (simp add: Cons y)
    have "\<exists>m'. list_each (\<lambda>m. td_list (s_tdb m)) (tdb_expire_body W now) m1 (first zs None) = Some m' \<and> main_ok W (k + 8) m' \<and> same_but_search m1 m'"
    proof (cases "zs = []")
      case True
      with m1(2) show ?thesis by (simp add: list_each.simps)
    next
      case False
      from m1(4) show ?thesis
      proof (elim disjE conjE)
        assume "tids (s_tdb m1) (xs @ (p, t) # zs)"
        then show ?thesis using Suc.IH [of zs m1 "xs @ [(p, t)]"] w m1(2) by simp
      next
        assume "tids (s_tdb m1) (xs @ zs @ new)"
        moreover have "first (zs @ new) None = first zs None" using False by (cases zs) simp_all
        ultimately show ?thesis using Suc.IH [of "zs @ new" m1 xs] w m1(2) by simp
      qed
    qed
    with each same_but_search_trans [OF m1(3)] show ?thesis by auto
  qed
qed

lemma tdb_expire_ok:
  assumes ok: "main_ok W (k + 8) m"
  shows "\<exists>m'. tdb_expire W m now = Some m' \<and> main_ok W (k + 8) m' \<and> same_but_search m m'"
proof -
  from main_okD(7) [OF ok] obtain xs where xs: "tids (s_tdb m) xs" by (auto simp: tdb_part_def)
  then have d: "dlc (td_list (s_tdb m)) xs" by (simp add: tids_def)
  have "m\<lparr>s_tdb := (s_tdb m)\<lparr>td_list := (td_list (s_tdb m))\<lparr>l_item := first xs None\<rparr>\<rparr>\<rparr> = m"
    by (simp add: dlc_start_same [OF d])
  with expire_loop [of xs "weight xs" W k m "[]" now] ok xs list_start_dl [OF dlc_dl [OF d]] show ?thesis
    by (simp add: tdb_expire_def case_prod_beta)
qed

section \<open>Pinging and finding nodes\<close>

text \<open>The table of nodes as these loops change it: its buckets and which nodes there are stay the same.\<close>

definition same_nodes :: "MAIN \<Rightarrow> MAIN \<Rightarrow> bool" where
  "same_nodes m m' \<longleftrightarrow> s_conf m' = s_conf m \<and> s_p2p m' = s_p2p m \<and> s_identity m' = s_identity m \<and>
     nb_bucket (s_nbhd m') = nb_bucket (s_nbhd m) \<and> dom (nb_mem (s_nbhd m')) = dom (nb_mem (s_nbhd m))"

lemma same_nodes_refl [simp]: "same_nodes m m"
  by (simp add: same_nodes_def)

lemma same_nodes_trans: "same_nodes m m1 \<Longrightarrow> same_nodes m1 m2 \<Longrightarrow> same_nodes m m2"
  by (simp add: same_nodes_def)

lemma same_nodes_search: "same_but_search m m' \<Longrightarrow> same_nodes m m'"
  by (simp add: same_but_search_def same_nodes_def)

lemma calm_nodes: "same_nodes m m' \<Longrightarrow> calm m m'"
  by (simp add: same_nodes_def calm_def)

lemma pinged_same:
  assumes "main_ok W k m"
  shows "\<exists>m'. main_pinged m i = Some m' \<and> main_ok W k m' \<and> same_nodes m m'"
  using main_pinged_ok [OF assms, of i] by (auto simp: same_nodes_def)

lemma ping_nodes_ok:
  "main_ok W (k + length ps) m \<Longrightarrow> set ps \<subseteq> dom (nb_mem (s_nbhd m)) \<Longrightarrow>
   \<exists>m'. ping_nodes W m j ps = Some m' \<and> main_ok W k m' \<and> same_nodes m m'"
proof (induction ps arbitrary: m j)
  case Nil
  then show ?case by simp
next
  case (Cons p ps)
  obtain n where n: "nb_mem (s_nbhd m) p = Some n" using Cons.prems(2) by auto
  have ok: "main_ok W (Suc (k + length ps)) m" using Cons.prems(1) by simp
  have ok': "main_ok W (k + length ps) m" by (rule main_ok_mono [OF ok]) simp
  let ?step = "if clock m > UDP_NODE.time_ping n then
             (if j < 8 then do {
                (m, ti) \<leftarrow> main_tdb_put m P2P_PING;
                tid \<leftarrow> tdb_tid (s_tdb m) ti;
                m \<leftarrow> send_ping W m (c_addr n) tid;
                main_pinged m (n_id n)
              } else main_pinged m (n_id n))
           else Some m"
  have "\<exists>m1. ?step = Some m1 \<and> main_ok W (k + length ps) m1 \<and> same_nodes m m1"
  proof -
    have ty: "P2P_PING \<noteq> P2P_ANNOUNCE_START" by simp
    obtain m1 ti tid m2 where
      m1: "main_tdb_put m P2P_PING = Some (m1, ti)" "tdb_tid (s_tdb m1) ti = Some tid" "send_ping W m1 (c_addr n) tid = Some m2"
        "main_ok W (k + length ps) m2" "same_but_search m m2"
      by (rule request_cases [where send = "\<lambda>m. send_ping W m (c_addr n)", OF ok ty], rule send_ping_ok) (assumption | rule that)+
    from pinged_same [OF m1(4), of "n_id n"] obtain m3 where
      m3: "main_pinged m2 (n_id n) = Some m3" "main_ok W (k + length ps) m3" "same_nodes m2 m3" by blast
    have "same_nodes m m3" by (rule same_nodes_trans [OF same_nodes_search [OF m1(5)] m3(3)])
    with m1 m3 pinged_same [OF ok', of "n_id n"] ok' show ?thesis by auto
  qed
  then obtain m1 where m1: "?step = Some m1" "main_ok W (k + length ps) m1" "same_nodes m m1" by blast
  have "set ps \<subseteq> dom (nb_mem (s_nbhd m1))" using Cons.prems(2) m1(3) by (simp add: same_nodes_def)
  from Cons.IH [OF m1(2) this, of "Suc j"] obtain m2 where
    m2: "ping_nodes W m1 (Suc j) ps = Some m2" "main_ok W k m2" "same_nodes m1 m2" by blast
  have "ping_nodes W m j (p # ps) = Some m2" using n m1(1) m2(1) by simp
  with m2(2) same_nodes_trans [OF m1(3) m2(3)] show ?case by blast
qed

lemma ping_buckets_ok:
  "main_ok W (k + length (all_nodes bs)) m \<Longrightarrow> set (all_nodes bs) \<subseteq> dom (nb_mem (s_nbhd m)) \<Longrightarrow>
   \<exists>m'. ping_buckets W m bs = Some m' \<and> main_ok W k m' \<and> same_nodes m m'"
proof (induction bs arbitrary: m)
  case Nil
  then show ?case by (simp add: all_nodes_def)
next
  case (Cons b bs)
  have s: "all_nodes (b # bs) = b_nodes b @ all_nodes bs" by (simp add: all_nodes_def)
  have "main_ok W (k + length (all_nodes bs) + length (b_nodes b)) m" using Cons.prems(1) by (simp add: s add.commute add.left_commute)
  from ping_nodes_ok [OF this, of 0] Cons.prems(2) obtain m1 where
    m1: "ping_nodes W m 0 (b_nodes b) = Some m1" "main_ok W (k + length (all_nodes bs)) m1" "same_nodes m m1" by (auto simp: s)
  have "set (all_nodes bs) \<subseteq> dom (nb_mem (s_nbhd m1))" using Cons.prems(2) m1(3) by (simp add: s same_nodes_def)
  from Cons.IH [OF m1(2) this] m1 same_nodes_trans [OF m1(3)] show ?case by auto
qed

lemma all_nodes_card: "nbhd_ok nb \<Longrightarrow> length (all_nodes (nb_bucket nb)) = card (dom (nb_mem nb))"
  using distinct_card [of "all_nodes (nb_bucket nb)"] by (simp add: nbhd_ok_def buckets_ok_def nodes_ok_def)

lemma nodes_bound: "main_ok W k m \<Longrightarrow> card (dom (nb_mem (s_nbhd m))) \<le> 3220"
  using nodes_le(2) main_okD(1,6) [of W k m] by (auto simp: nb_part_def)

lemma cron_ping_ok:
  assumes ok: "main_ok W (k + 3220) m"
  shows "\<exists>m'. p2p_cron_ping W m = Some m' \<and> main_ok W k m' \<and> calm m m'"
proof -
  have n: "nbhd_ok (s_nbhd m)" by (rule nb_nbhd_ok [OF ok])
  have "main_ok W (k + length (all_nodes (nb_bucket (s_nbhd m)))) m"
    by (rule main_ok_mono [OF ok]) (use all_nodes_card [OF n] nodes_bound [OF ok] in simp)
  moreover have "set (all_nodes (nb_bucket (s_nbhd m))) \<subseteq> dom (nb_mem (s_nbhd m))" using nbhd_okD(3) [OF n] by simp
  ultimately show ?thesis using ping_buckets_ok calm_nodes unfolding p2p_cron_ping_def by blast
qed

lemma find_nodes_ok:
  "main_ok W (k + j) m \<Longrightarrow> set ps \<subseteq> dom (nb_mem (s_nbhd m)) \<Longrightarrow> length target = SHA1_SIZE \<Longrightarrow>
   \<exists>m'. find_nodes W m target j ps = Some m' \<and> main_ok W k m' \<and> same_nodes m m'"
proof (induction ps arbitrary: m j)
  case Nil
  then show ?case using main_ok_mono [OF Nil.prems(1), of k] by (cases j) simp_all
next
  case (Cons p ps)
  show ?case
  proof (cases j)
    case 0
    then show ?thesis using Cons.prems(1) by simp
  next
    case (Suc i)
    obtain n where n: "nb_mem (s_nbhd m) p = Some n" using Cons.prems(2) by auto
    have ok: "main_ok W (Suc (k + i)) m" using Cons.prems(1) by (simp add: Suc)
    have ok': "main_ok W (k + i) m" by (rule main_ok_mono [OF ok]) simp
    let ?step = "if clock m > UDP_NODE.time_find n then do {
             (m, ti) \<leftarrow> main_tdb_put m P2P_FIND_NODE;
             tid \<leftarrow> tdb_tid (s_tdb m) ti;
             m \<leftarrow> send_find_node_request W m (c_addr n) target tid;
             let (t, g) = time_add_5_min_approx (clock m) (s_rng m);
             Some (m\<lparr>s_nbhd := (s_nbhd m)\<lparr>nb_mem := (nb_mem (s_nbhd m))(p \<mapsto> n\<lparr>time_find := t\<rparr>)\<rparr>, s_rng := g\<rparr>)
           } else Some m"
    have "\<exists>m1. ?step = Some m1 \<and> main_ok W (k + i) m1 \<and> same_nodes m m1"
    proof -
      have "rng_ok (s_rng m) \<Longrightarrow> length (me m) = SHA1_SIZE \<Longrightarrow> length tid = TID_SIZE \<Longrightarrow>
        \<exists>m'. send_find_node_request W m (c_addr n) target tid = Some m' \<and> sent m m'" for m tid
        by (rule send_requests(2) [OF _ _ _ Cons.prems(3)])
      note send = this
      have ty: "P2P_FIND_NODE \<noteq> P2P_ANNOUNCE_START" by simp
      obtain m1 ti tid m2 where
        m1: "main_tdb_put m P2P_FIND_NODE = Some (m1, ti)" "tdb_tid (s_tdb m1) ti = Some tid" "send_find_node_request W m1 (c_addr n) target tid = Some m2"
          "main_ok W (k + i) m2" "same_but_search m m2"
        by (rule request_cases [where send = "\<lambda>m. send_find_node_request W m (c_addr n) target", OF ok ty], rule send) (assumption | rule that)+
      let ?r = "time_add_5_min_approx (clock m2) (s_rng m2)" and ?n = "n\<lparr>time_find := fst (time_add_5_min_approx (clock m2) (s_rng m2))\<rparr>"
      let ?m = "m2\<lparr>s_nbhd := (s_nbhd m2)\<lparr>nb_mem := (nb_mem (s_nbhd m2))(p \<mapsto> ?n)\<rparr>, s_rng := snd ?r\<rparr>"
      have n2: "nb_mem (s_nbhd m2) p = Some n" using n m1(5) by (simp add: same_but_search_def)
      have "main_ok W (k + i) ?m"
        by (rule main_ok_touch [OF m1(4) n2]) (use nb_addr [OF m1(4) n2] main_okD(2) [OF m1(4)] in simp_all)
      moreover have "same_nodes m ?m" using m1(5) n2 n by (auto simp: same_but_search_def same_nodes_def)
      ultimately show ?thesis using m1 ok' by (auto simp: case_prod_beta)
    qed
    then obtain m1 where m1: "?step = Some m1" "main_ok W (k + i) m1" "same_nodes m m1" by blast
    have "set ps \<subseteq> dom (nb_mem (s_nbhd m1))" using Cons.prems(2) m1(3) by (simp add: same_nodes_def)
    from Cons.IH [OF m1(2) this Cons.prems(3)] obtain m2 where
      m2: "find_nodes W m1 target i ps = Some m2" "main_ok W k m2" "same_nodes m1 m2" by blast
    have "find_nodes W m target j (p # ps) = Some m2" using n m1(1) m2(1) by (simp add: Suc)
    with m2(2) same_nodes_trans [OF m1(3) m2(3)] show ?thesis by blast
  qed
qed

lemma cron_find_ok:
  assumes ok: "main_ok W (k + 8) m" and t: "length target = SHA1_SIZE"
  shows "\<exists>m'. p2p_cron_find W m target = Some m' \<and> main_ok W k m' \<and> calm m m'"
proof (rule find_any_match_less [OF buckets_okD(1) [OF nbhd_okD(1) [OF nb_nbhd_ok [OF ok]]] t])
  assume "bckt_find_any_match (nb_bucket (s_nbhd m)) target = Some None"
  then show ?thesis using main_ok_mono [OF ok, of k] by (simp add: p2p_cron_find_def)
next
  fix j assume j: "bckt_find_any_match (nb_bucket (s_nbhd m)) target = Some (Some j)" "j < length (nb_bucket (s_nbhd m))"
  have "set (b_nodes (nb_bucket (s_nbhd m) ! j)) \<subseteq> dom (nb_mem (s_nbhd m))"
    using nodes_in_mem [OF nb_nbhd_ok [OF ok] j(2)] by auto
  from find_nodes_ok [OF ok this t] j(1) show ?thesis by (auto simp: p2p_cron_find_def dest: calm_nodes)
qed

lemma cron_find_random_ok:
  assumes ok: "main_ok W (k + 8) m"
  shows "\<exists>m'. p2p_cron_find_random W m = Some m' \<and> main_ok W k m' \<and> calm m m'"
proof -
  obtain i g where r: "rand_urandom (s_rng m) SHA1_SIZE = (i, g)" by fastforce
  then have i: "length i = SHA1_SIZE" and g: "rng_ok g" using main_okD(2) [OF ok] by (auto simp: rand_urandom_def rng_ok_def)
  from cron_find_ok [OF main_ok_rng [OF ok g] i] show ?thesis
    by (auto simp: p2p_cron_find_random_def r calm_def)
qed

section \<open>Searches\<close>

lemma cron_lookup_ok:
  assumes "main_ok W (k + 9) m" and "length target = SHA1_SIZE"
  shows "\<exists>m'. p2p_cron_lookup W m target type = Some m' \<and> main_ok W k m' \<and> same_but_search m m'"
  unfolding p2p_cron_lookup_def by (rule start_search_ok [OF assms])

lemma lookup_ids_ok:
  "main_ok W (k + 9 * length ids) m \<Longrightarrow> \<forall>i \<in> set ids. length (id_host_id i) = SHA1_SIZE \<Longrightarrow>
   \<exists>m' ids'. lookup_ids W m ids = Some (m', ids') \<and> main_ok W k m' \<and> same_but_search m m' \<and>
     map id_host_id ids' = map id_host_id ids"
proof (induction ids arbitrary: m)
  case Nil
  then show ?case by simp
next
  case (Cons i ids)
  have ok: "main_ok W (k + 9 * length ids + 9) m" by (rule main_ok_mono [OF Cons.prems(1)]) simp
  have i: "length (id_host_id i) = SHA1_SIZE" and ids: "\<forall>i \<in> set ids. length (id_host_id i) = SHA1_SIZE" using Cons.prems(2) by simp_all
  let ?step = "if clock m > id_time_announce_host i then do {
                  m \<leftarrow> p2p_cron_lookup W m (id_host_id i) P2P_ANNOUNCE_START;
                  let (t, g) = time_add_5_min_approx (clock m) (s_rng m);
                  Some (m\<lparr>s_rng := g\<rparr>, i\<lparr>id_time_announce_host := t\<rparr>)
                } else Some (m, i)"
  have "\<exists>m1 i'. ?step = Some (m1, i') \<and> main_ok W (k + 9 * length ids) m1 \<and> same_but_search m m1 \<and> id_host_id i' = id_host_id i"
  proof (cases "clock m > id_time_announce_host i")
    case False
    have "main_ok W (k + 9 * length ids) m" by (rule main_ok_mono [OF ok]) simp
    with False show ?thesis by simp
  next
    case True
    from cron_lookup_ok [OF ok i] obtain m1 where
      m1: "p2p_cron_lookup W m (id_host_id i) P2P_ANNOUNCE_START = Some m1" "main_ok W (k + 9 * length ids) m1" "same_but_search m m1" by blast
    have "rng_ok (snd (time_add_5_min_approx (clock m1) (s_rng m1)))" using main_okD(2) [OF m1(2)] by simp
    with main_ok_rng [OF m1(2) this] True m1 show ?thesis by (simp add: case_prod_beta same_but_search_def)
  qed
  then obtain m1 i' where m1: "?step = Some (m1, i')" "main_ok W (k + 9 * length ids) m1" "same_but_search m m1" "id_host_id i' = id_host_id i"
    by (elim exE conjE)
  from Cons.IH [OF m1(2) ids] obtain m2 ids' where
    m2: "lookup_ids W m1 ids = Some (m2, ids')" "main_ok W k m2" "same_but_search m1 m2" "map id_host_id ids' = map id_host_id ids" by blast
  have "lookup_ids W m (i # ids) = Some (m2, i' # ids')" using m1(1) m2(1) by simp
  with m1(4) m2(2,4) same_but_search_trans [OF m1(3) m2(3)] show ?case by simp
qed

lemma names_ok_map:
  assumes "map id_host_id ids' = map id_host_id ids"
  shows "names_ok ids' = names_ok ids"
proof -
  have e: "id_host_id ` set ids' = id_host_id ` set ids" using arg_cong [OF assms, of set] by simp
  have "(\<forall>i \<in> set ids'. length (id_host_id i) = SHA1_SIZE) \<longleftrightarrow> (\<forall>x \<in> id_host_id ` set ids'. length x = SHA1_SIZE)" by simp
  also have "\<dots> \<longleftrightarrow> (\<forall>i \<in> set ids. length (id_host_id i) = SHA1_SIZE)" unfolding e by simp
  finally show ?thesis using map_eq_imp_length_eq [OF assms] by (simp add: names_ok_def)
qed

lemma cron_lookup_all_ok:
  assumes ok: "main_ok W (k + 9 * ID_MAX) m"
  shows "\<exists>m'. p2p_cron_lookup_all W m = Some m' \<and> main_ok W k m' \<and> calm m m'"
proof -
  have n: "names_ok (s_identity m)" by (rule main_okD(5) [OF ok])
  have "main_ok W (k + 9 * length (s_identity m)) m" by (rule main_ok_mono [OF ok]) (use n in \<open>simp add: names_ok_def\<close>)
  from lookup_ids_ok [OF this] n obtain m1 ids where
    m1: "lookup_ids W m (s_identity m) = Some (m1, ids)" "main_ok W k m1" "same_but_search m m1"
      "map id_host_id ids = map id_host_id (s_identity m)" by (auto simp: names_ok_def)
  have "main_ok W k (m1\<lparr>s_identity := ids\<rparr>)" using m1(2) n names_ok_map [OF m1(4)] by (simp add: main_ok_def)
  moreover have "calm m (m1\<lparr>s_identity := ids\<rparr>)" using calm_search [OF m1(3)] by (simp add: calm_def)
  ultimately show ?thesis using m1(1) by (simp add: p2p_cron_lookup_all_def)
qed

text \<open>The searches that renewal starts honour the contract it asks for: every one of them takes room for nine transactions.\<close>

interpretation searches: renewal "\<lambda>m target. p2p_cron_lookup W m target P2P_GET_PEERS"
  "\<lambda>m. let (t, g) = time_add_5_min_approx (clock m) (s_rng m) in (t, m\<lparr>s_rng := g\<rparr>)"
  "\<lambda>n s. main_ok W (k + 9 * n) s \<and> same_but_search m s" for W k m
proof
  fix n s and key :: bytes
  assume I: "main_ok W (k + 9 * Suc n) s \<and> same_but_search m s" and key: "length key = SHA1_SIZE"
  have "main_ok W (k + 9 * n + 9) s" by (rule main_ok_mono [of W "k + 9 * Suc n"]) (use I in simp_all)
  from cron_lookup_ok [OF this key] I same_but_search_trans
  show "\<exists>s'. p2p_cron_lookup W s key P2P_GET_PEERS = Some s' \<and> main_ok W (k + 9 * n) s' \<and> same_but_search m s'" by blast
next
  fix n s
  assume I: "main_ok W (k + 9 * n) s \<and> same_but_search m s"
  then have "rng_ok (snd (time_add_5_min_approx (clock s) (s_rng s)))" using main_okD(2) [OF conjunct1 [OF I]] by simp
  with main_ok_rng [OF conjunct1 [OF I] this] I
  show "main_ok W (k + 9 * n) (snd (let (t, g) = time_add_5_min_approx (clock s) (s_rng s) in (t, s\<lparr>s_rng := g\<rparr>))) \<and>
      same_but_search m (snd (let (t, g) = time_add_5_min_approx (clock s) (s_rng s) in (t, s\<lparr>s_rng := g\<rparr>)))"
    by (simp add: case_prod_beta same_but_search_def)
next
  fix n s
  assume I: "main_ok W (k + 9 * Suc n) s \<and> same_but_search m s"
  have "main_ok W (k + 9 * n) s" by (rule main_ok_mono [of W "k + 9 * Suc n"]) (use I in simp_all)
  with I show "main_ok W (k + 9 * n) s \<and> same_but_search m s" by blast
qed

lemma cache_renew_step:
  assumes ok: "main_ok W (k + 450) m"
  shows "\<exists>m'. main_cache_renew W m = Some m' \<and> main_ok W k m' \<and> calm m m'"
proof -
  from main_okD(4) [OF ok] obtain ts where ts: "cache_rep (w_ver W) (s_cache m) ts" by blast
  then have "length ts \<le> 50" by (auto simp: cache_rep_def)
  then have "main_ok W (k + 9 * (0 + length ts)) m" by (intro main_ok_mono [OF ok]) simp
  then have I: "main_ok W (k + 9 * (0 + length ts)) m \<and> same_but_search m m" by simp
  from searches.cache_renew_ok [OF ts I, of "w_verbose W" "clock m"] obtain c m1 ts' where
    m1: "cache_renew (w_verbose W) (\<lambda>m target. p2p_cron_lookup W m target P2P_GET_PEERS)
       (\<lambda>m. let (t, g) = time_add_5_min_approx (clock m) (s_rng m) in (t, m\<lparr>s_rng := g\<rparr>)) (clock m) (s_cache m) m = Some (c, m1)"
      "main_ok W (k + 9 * 0) m1" "same_but_search m m1" "cache_rep (w_ver W) c ts'" by (elim exE conjE)
  have "main_ok W k m1" using m1(2) by simp
  from main_ok_cache [OF this m1(4)] calm_search [OF m1(3)] m1(1) show ?thesis
    by (simp add: main_cache_renew_def calm_def)
qed

section \<open>Tokens, expiry and buckets\<close>

lemma tkn_put_part:
  assumes p: "tkn_part T d c" and r: "rng_ok g" and c: "int c < LONG_MAX" and d': "d' \<le> now + 1800"
  shows "\<exists>T' g'. tkn_put T now g = Some (T', g') \<and> rng_ok g' \<and> tkn_part T' d (Suc c) \<and> tkn_part T' d' (Suc c)"
proof -
  from p obtain xs where xs: "tokens T xs" "\<forall>x \<in> set xs. length (tkn_id (snd x)) = TOKEN_SIZE" "\<exists>x \<in> set xs. d \<le> tkn_time (snd x)" "length xs \<le> c"
    by (auto simp: tkn_part_def)
  have "int (length xs) < LONG_MAX" using xs(4) c by linarith
  from tkn_put_tokens [OF xs(1) this, of now g] obtain T' where
    T': "tkn_put T now g = Some (T', snd (tkn_create T g))"
      "tokens T' (xs @ [(l_brk (tk_list T), \<lparr>tkn_id = fst (tkn_create T g), tkn_time = now + 1800\<rparr>)])" (is "tokens T' ?ys") by blast
  have l: "length (fst (tkn_create T g)) = TOKEN_SIZE" "rng_ok (snd (tkn_create T g))"
    using create_loop_length [OF r, of TOKEN_SIZE "tk_hash T" 999] by (simp_all add: tkn_create_def)
  have "\<forall>y \<in> set ?ys. length (tkn_id (snd y)) = TOKEN_SIZE" "length ?ys \<le> Suc c" using xs(2,4) l(1) by auto
  moreover have "\<exists>y \<in> set ?ys. d \<le> tkn_time (snd y)" "\<exists>y \<in> set ?ys. d' \<le> tkn_time (snd y)" using xs(3) d' by auto
  ultimately have "tkn_part T' d (Suc c)" "tkn_part T' d' (Suc c)" unfolding tkn_part_def using T'(2) by blast+
  with T'(1) l(2) show ?thesis by blast
qed

text \<open>After the first entry of the clockwork there is a token that is valid at least until the next one is due, and that is later than now.\<close>

lemma token_step:
  assumes ok: "main_ok W (Suc k) m"
  shows "\<exists>m'. every pt_token pt_token_update time_add_5_min_approx main_tkn_put m = Some m' \<and> main_ok W k m' \<and>
    clock m' = clock m \<and> clock m \<le> pt_token (s_p2p m') \<and> s_nbhd m' = s_nbhd m \<and> s_identity m' = s_identity m"
proof (cases "clock m > pt_token (s_p2p m)")
  case False
  have "main_ok W k m" by (rule main_ok_mono [OF ok]) simp
  with False show ?thesis by (simp add: every_def)
next
  case True
  obtain a b c where p: "nb_part (w_ver W) (me m) (s_nbhd m) a" "tdb_part (w_ver W) (s_tdb m) b" "tkn_part (s_token m) (pt_token (s_p2p m)) c"
    "int (a + b + c + Suc k) < LONG_MAX" by (rule main_ok_parts [OF ok])
  have c: "int c < LONG_MAX" using p(4) by linarith
  let ?g = "\<lambda>g. snd (time_add_5_min_approx (clock m) g)" and ?d = "\<lambda>g. fst (time_add_5_min_approx (clock m) g)"
  from tkn_put_part [OF p(3) main_okD(2) [OF ok] c order_refl, of "clock m"] obtain T g where
    T: "tkn_put (s_token m) (clock m) (s_rng m) = Some (T, g)" "rng_ok g" "tkn_part T (clock m + 1800) (Suc c)" by blast
  let ?m = "m\<lparr>s_token := T, s_rng := ?g g, s_p2p := pt_token_update (\<lambda>_. ?d g) (s_p2p m)\<rparr>"
  have d: "clock m \<le> ?d g" "?d g \<le> clock m + 1800" using time_windows(5,6) [of "clock m" g] by linarith+
  have "tkn_part T (?d g) (Suc c)" using T(3) d(2) unfolding tkn_part_def by (meson order_trans)
  then have "main_ok W k ?m"
    by (intro main_okI [where a = a and b = b and c = "Suc c"]) (use p T(2) main_okD [OF ok] in simp_all)
  with True T(1) d(1) show ?thesis by (simp add: every_def main_tkn_put_def case_prod_beta)
qed

lemma nbhd_expire_part:
  assumes ok: "main_ok W k m"
  shows "\<exists>nb. nbhd_expire (s_nbhd m) = Some nb \<and> (\<forall>a. nb_part (w_ver W) (me m) (s_nbhd m) a \<longrightarrow> nb_part (w_ver W) (me m) nb a)"
proof -
  have n: "nbhd_ok (s_nbhd m)" by (rule nb_nbhd_ok [OF ok])
  from nbhd_expire_ok [OF n] obtain nb where
    nb: "nbhd_expire (s_nbhd m) = Some nb" "nbhd_ok nb" "nb_mem nb = keep (nb_mem (s_nbhd m)) UNIV" by blast
  have sub: "nb_mem nb p = Some x \<Longrightarrow> nb_mem (s_nbhd m) p = Some x" for p x
    by (auto simp: nb(3) keep_def split: option.splits if_splits)
  then have "dom (nb_mem nb) \<subseteq> dom (nb_mem (s_nbhd m))" and r: "ran (nb_mem nb) \<subseteq> ran (nb_mem (s_nbhd m))" by (auto simp: ran_def)
  moreover have "finite (dom (nb_mem (s_nbhd m)))" using nbhd_okD(3) [OF n] by simp
  ultimately have c: "card (dom (nb_mem nb)) \<le> card (dom (nb_mem (s_nbhd m)))" by (simp add: card_mono)
  have "grown (me m) (nb_bucket nb)" if "grown (me m) (nb_bucket (s_nbhd m))"
    by (rule grown_ids [OF nbhd_expire_ids [OF nb(1)] buckets_okD(1) [OF nbhd_okD(1) [OF n]] main_okD(1) [OF ok] that])
  then have "nb_part (w_ver W) (me m) nb a" if "nb_part (w_ver W) (me m) (s_nbhd m) a" for a
    using that c r nb(2) by (auto simp: nb_part_def)
  with nb(1) show ?thesis by blast
qed

lemma expire_ok:
  assumes ok: "main_ok W (k + 8) m" and d: "clock m \<le> pt_token (s_p2p m)"
  shows "\<exists>m'. main_expire W m = Some m' \<and> main_ok W (k + 8) m' \<and> calm m m'"
proof -
  from tdb_expire_ok [OF ok, of "clock m"] obtain m1 where
    m1: "tdb_expire W m (clock m) = Some m1" "main_ok W (k + 8) m1" "same_but_search m m1" by blast
  note f = m1(3) [unfolded same_but_search_def]
  from nbhd_expire_part [OF m1(2)] obtain nb where
    nb: "nbhd_expire (s_nbhd m1) = Some nb" "\<forall>a. nb_part (w_ver W) (me m1) (s_nbhd m1) a \<longrightarrow> nb_part (w_ver W) (me m1) nb a" by blast
  from main_okD(3) [OF m1(2)] obtain ts xs where "val_sh (w_ver W) (s_value m1) xs ts" "entries_ok (me m1) ts" by (auto simp: val_rep_def)
  from val_expire_sh [OF this(1), of "clock m"] alive_ok [OF this(2), of "clock m"] obtain val where
    val: "val_expire (s_value m1) (clock m) = Some val" "val_rep (w_ver W) (me m1) val (alive (clock m) ts)" by (auto simp: val_rep_def)
  obtain a b c where p: "nb_part (w_ver W) (me m1) (s_nbhd m1) a" "tdb_part (w_ver W) (s_tdb m1) b" "tkn_part (s_token m1) (pt_token (s_p2p m1)) c"
    "int (a + b + c + (k + 8)) < LONG_MAX" by (rule main_ok_parts [OF m1(2)])
  from p(3) obtain ys where ys: "tokens (s_token m1) ys" "\<forall>x \<in> set ys. length (tkn_id (snd x)) = TOKEN_SIZE"
    "\<exists>x \<in> set ys. pt_token (s_p2p m) \<le> tkn_time (snd x)" "length ys \<le> c" using f by (auto simp: tkn_part_def)
  from tkn_expire_tokens [OF ys(1), of "clock m"] obtain T where
    T: "tkn_expire (s_token m1) (clock m) = Some T" "tokens T (filter (\<lambda>x. clock m \<le> tkn_time (snd x)) ys)" by blast
  have "tkn_part T (pt_token (s_p2p m)) c" unfolding tkn_part_def
  proof (intro exI [of _ "filter (\<lambda>x. clock m \<le> tkn_time (snd x)) ys"] conjI T(2))
    from ys(3) obtain x where "x \<in> set ys" "pt_token (s_p2p m) \<le> tkn_time (snd x)" by blast
    then show "\<exists>x \<in> set (filter (\<lambda>x. clock m \<le> tkn_time (snd x)) ys). pt_token (s_p2p m) \<le> tkn_time (snd x)"
      using d by (intro bexI [of _ x]) simp_all
  qed (use ys(2,4) in \<open>auto intro: order_trans [OF length_filter_le]\<close>)
  note T = T(1) this
  from main_okD(4) [OF m1(2)] obtain cs where "cache_rep (w_ver W) (s_cache m1) cs" by blast
  from cache_expire_ok [OF this, of "clock m"] obtain ca where
    ca: "cache_expire (s_cache m1) (clock m) = Some ca" "cache_rep (w_ver W) ca (c_alive (clock m) cs)" by blast
  let ?m = "m1\<lparr>s_nbhd := nb, s_value := val, s_token := T, s_cache := ca\<rparr>"
  have "main_ok W (k + 8) ?m"
    by (rule main_okI [where a = a and b = b and c = c]) (use p nb(2) val(2) T(2) ca(2) f main_okD [OF m1(2)] in auto)
  moreover have "calm m ?m" using f by (simp add: calm_def)
  moreover have "main_expire W m = Some ?m" using m1(1) nb(1) val(1) T(1) ca(1) f by (simp add: main_expire_def)
  ultimately show ?thesis by blast
qed

lemma split_ok:
  assumes ok: "main_ok W k m"
  shows "\<exists>m'. main_split m = Some m' \<and> main_ok W k m' \<and> calm m m'"
proof -
  from nbhd_split_ok [OF nb_nbhd_ok [OF ok] main_okD(1) [OF ok]] obtain nb where
    nb: "nbhd_split (s_nbhd m) (me m) = Some nb" "nbhd_ok nb" "nb_mem nb = nb_mem (s_nbhd m)" by blast
  have "main_ok W k (m\<lparr>s_nbhd := nb\<rparr>)"
    by (rule main_ok_nbhd [where j = 0])
      (use ok nb nbhd_split_grown [OF nb(1) nb_nbhd_ok [OF ok] main_okD(1) [OF ok]] in \<open>auto simp: nb_part_def\<close>)
  with nb show ?thesis by (simp add: main_split_def calm_def)
qed

section \<open>The clockwork\<close>

lemma every_ok:
  assumes ok: "main_ok W k m" and work: "\<exists>m'. work m = Some m' \<and> main_ok W j m' \<and> calm m m'" and jk: "j \<le> k"
    and upd: "\<And>f p. pt_now (upd f p) = pt_now p" "\<And>f p. pt_token (upd f p) = pt_token p" and "next": "\<And>t g. rng_ok (snd (next_time t g)) = rng_ok g"
  shows "\<exists>m'. every deadline upd next_time work m = Some m' \<and> main_ok W j m' \<and> calm m m'"
proof (cases "clock m > deadline (s_p2p m)")
  case False
  with main_ok_mono [OF ok jk] show ?thesis by (simp add: every_def)
next
  case True
  from work obtain m1 where m1: "work m = Some m1" "main_ok W j m1" "calm m m1" by blast
  let ?g = "snd (next_time (clock m1) (s_rng m1))"
  let ?m = "m1\<lparr>s_rng := ?g, s_p2p := upd (\<lambda>_. fst (next_time (clock m1) (s_rng m1))) (s_p2p m1)\<rparr>"
  have "main_ok W j ?m" using m1(2) main_okD(2) [OF m1(2)] by (simp add: main_ok_def upd "next")
  moreover have "calm m ?m" using m1(3) by (simp add: calm_def upd)
  ultimately show ?thesis using True m1(1) by (simp add: every_def case_prod_beta)
qed

text \<open>What one run of the clockwork may need.\<close>

abbreviation (input) cron_cost :: nat where "cron_cost \<equiv> 3695 + 9 * ID_MAX"

lemma busy_ok:
  assumes ok: "main_ok W (k + cron_cost) m"
  shows "\<exists>m'. p2p_cron_busy W m = Some m' \<and> main_ok W k m'"
proof -
  have "main_ok W (Suc (k + 474 + 9 * ID_MAX + 3220)) m" by (rule main_ok_mono [OF ok]) simp
  from token_step [OF this] obtain m1 where
    m1: "every pt_token pt_token_update time_add_5_min_approx main_tkn_put m = Some m1" "main_ok W (k + 474 + 9 * ID_MAX + 3220) m1"
      "clock m1 = clock m" "clock m \<le> pt_token (s_p2p m1)" "s_nbhd m1 = s_nbhd m" "s_identity m1 = s_identity m" by blast
  have ok1: "main_ok W ((k + 466 + 9 * ID_MAX + 3220) + 8) m1" using m1(2) by (simp add: add.commute add.left_commute)
  have d1: "clock m1 \<le> pt_token (s_p2p m1)" using m1(3,4) by simp
  from every_ok [where work = "main_expire W" and upd = pt_expire_update and next_time = time_add_1_min_approx and deadline = pt_expire,
    OF ok1 expire_ok [OF ok1 d1] order_refl] obtain m2 where
    m2: "every pt_expire pt_expire_update time_add_1_min_approx (main_expire W) m1 = Some m2" "main_ok W (k + 466 + 9 * ID_MAX + 3220 + 8) m2" "calm m1 m2" by auto
  from every_ok [where work = "main_split" and upd = pt_split_update and next_time = time_add_5_sec_approx and deadline = pt_split,
    OF m2(2) split_ok [OF m2(2)] order_refl] obtain m3 where
    m3: "every pt_split pt_split_update time_add_5_sec_approx main_split m2 = Some m3" "main_ok W (k + 466 + 9 * ID_MAX + 3220 + 8) m3" "calm m2 m3" by auto
  from every_ok [where work = "p2p_cron_find_myself W" and upd = pt_find_update and next_time = time_add_5_sec_approx and deadline = pt_find,
    OF m3(2) cron_find_ok [OF m3(2) main_okD(1) [OF m3(2)], folded p2p_cron_find_myself_def]]
  obtain m4 where m4: "every pt_find pt_find_update time_add_5_sec_approx (p2p_cron_find_myself W) m3 = Some m4"
    "main_ok W (k + 466 + 9 * ID_MAX + 3220) m4" "calm m3 m4" by auto
  have ok4: "main_ok W ((k + 458 + 9 * ID_MAX + 3220) + 8) m4" using m4(2) by (simp add: add.commute add.left_commute)
  from every_ok [where work = "p2p_cron_find_random W" and upd = pt_maintainance_update and next_time = time_add_5_sec_approx and deadline = pt_maintainance,
    OF ok4 cron_find_random_ok [OF ok4]] obtain m5 where
    m5: "every pt_maintainance pt_maintainance_update time_add_5_sec_approx (p2p_cron_find_random W) m4 = Some m5"
      "main_ok W (k + 458 + 9 * ID_MAX + 3220) m5" "calm m4 m5" by auto
  have ok5: "main_ok W ((k + 450 + 3220) + 9 * ID_MAX) m5" by (rule main_ok_mono [OF m5(2)]) simp
  from every_ok [where work = "p2p_cron_lookup_all W" and upd = pt_announce_host_update and next_time = time_add_5_sec_approx and deadline = pt_announce_host,
    OF ok5 cron_lookup_all_ok [OF ok5]] obtain m6 where
    m6: "every pt_announce_host pt_announce_host_update time_add_5_sec_approx (p2p_cron_lookup_all W) m5 = Some m6"
      "main_ok W (k + 450 + 3220) m6" "calm m5 m6" by auto
  have ok6: "main_ok W ((k + 450) + 3220) m6" by (rule m6(2))
  from every_ok [where work = "p2p_cron_ping W" and upd = pt_ping_update and next_time = time_add_5_sec_approx and deadline = pt_ping,
    OF ok6 cron_ping_ok [OF ok6]] obtain m7 where
    m7: "every pt_ping pt_ping_update time_add_5_sec_approx (p2p_cron_ping W) m6 = Some m7" "main_ok W (k + 450) m7" by auto
  from every_ok [where work = "main_cache_renew W" and upd = pt_cache_update and next_time = time_add_5_sec_approx and deadline = pt_cache,
    OF m7(2) cache_renew_step [OF m7(2)]] obtain m8 where
    m8: "every pt_cache pt_cache_update time_add_5_sec_approx (main_cache_renew W) m7 = Some m8" "main_ok W k m8" by auto
  show ?thesis using m1(1) m2(1) m3(1) m4(1) m5(1) m6(1) m7(1) m8 by (simp add: p2p_cron_busy_def)
qed

lemma multicast_ok: "main_ok W k m \<Longrightarrow> main_ok W k (udp_multicast W m e s) \<and> calm m (udp_multicast W m e s)"
  by (simp add: udp_multicast_def main_ok_def calm_def)

lemma cron_ok:
  assumes ok: "main_ok W (k + cron_cost) m"
  shows "\<exists>m'. p2p_cron W m now = Some m' \<and> main_ok W k m'"
proof -
  let ?m = "m\<lparr>s_p2p := (s_p2p m)\<lparr>pt_now := now\<rparr>\<rparr>"
  have okm: "main_ok W (k + cron_cost) ?m" using ok by (simp add: main_ok_clock)
  have "\<exists>m1. (if nbhd_is_empty (s_nbhd ?m) then every pt_restart pt_restart_update time_add_1_min_approx (p2p_bootstrap W) ?m
      else p2p_cron_busy W ?m) = Some m1 \<and> main_ok W k m1"
  proof (cases "nbhd_is_empty (s_nbhd ?m)")
    case False
    with busy_ok [OF okm] show ?thesis by simp
  next
    case True
    have ok60: "main_ok W (k + 60) ?m" by (rule main_ok_mono [OF okm]) simp
    from every_ok [where work = "p2p_bootstrap W" and upd = pt_restart_update and next_time = time_add_1_min_approx and deadline = pt_restart,
    OF ok60 bootstrap_ok [OF ok60]] True show ?thesis by auto
  qed
  then obtain m1 where m1: "(if nbhd_is_empty (s_nbhd ?m) then every pt_restart pt_restart_update time_add_1_min_approx (p2p_bootstrap W) ?m
      else p2p_cron_busy W ?m) = Some m1" "main_ok W k m1" by blast
  have "\<exists>m'. Some (udp_multicast W m1 True True) = Some m' \<and> main_ok W k m' \<and> calm m1 m'" using multicast_ok [OF m1(2)] by blast
  from every_ok [where work = "\<lambda>m. Some (udp_multicast W m True True)" and upd = pt_multicast_update and next_time = time_add_5_min_approx and deadline = pt_multicast,
    OF m1(2) this order_refl] m1 show ?thesis
    unfolding p2p_cron_def Let_def by auto
qed

end
