(* ===== verification/Resolver_Inv.thy ===== *)
theory Resolver_Inv
  imports Cron_Inv
begin

text \<open>
  The DNS front end keeps the invariant of the program, as long as the answer fits its buffer.
\<close>

section \<open>The size of an answer\<close>

lemma put_loop_all:
  assumes "\<And>p. IP_SIZE_META_PAIR v \<le> length p \<Longrightarrow> \<exists>rr. put p = Some rr \<and> P rr"
  shows "length ns = n * IP_SIZE_META_PAIR v \<Longrightarrow> \<exists>rrs. put_loop v put n ns = Some rrs \<and> length rrs = n \<and> (\<forall>rr \<in> set rrs. P rr)"
proof (induction n arbitrary: ns)
  case (Suc n)
  then have "IP_SIZE_META_PAIR v \<le> length ns" "length (drop (IP_SIZE_META_PAIR v) ns) = n * IP_SIZE_META_PAIR v" by simp_all
  with assms [of ns] Suc.IH [of "drop (IP_SIZE_META_PAIR v) ns"] show ?case by auto
qed simp

lemma encode_rrs_bound:
  assumes "\<And>rr. rr \<in> set rrs \<Longrightarrow> \<exists>x. encode_rr names rr = Some x \<and> length x \<le> b"
  shows "\<exists>x. encode_rrs names rrs = Some x \<and> length x \<le> length rrs * b"
  using assms
proof (induction rrs)
  case (Cons rr rrs)
  from Cons.IH obtain x where x: "encode_rrs names rrs = Some x" "length x \<le> length rrs * b" using Cons.prems by auto
  from Cons.prems [of rr] obtain y where "encode_rr names rr = Some y" "length y \<le> b" by auto
  with x show ?case by auto
qed simp

lemma name_at_shift:
  assumes "name_at names r = Some nm"
  shows "name_at names (fst r, snd r + i) = Some (drop i nm)"
  using assms by (auto simp: name_at_def drop_drop add.commute)

lemma srv_domain:
  assumes "name_at names r = Some nm"
  shows "\<exists>d nd. p_get_domain_from_srv_record names r = Some d \<and> name_at names d = Some nd \<and> length nd \<le> length nm"
proof -
  have "\<exists>nd. name_at names (fst r, snd r + i + 6) = Some nd \<and> length nd \<le> length nm" for i
    using name_at_shift [OF assms, of "i + 6"] by (simp add: add.assoc)
  with assms show ?thesis
    by (cases "find_sub nm (lit ''._tcp.'')"; cases "find_sub nm (lit ''._udp.'')") (auto simp: p_get_domain_from_srv_record_def)
qed

lemma put_srv_ok:
  assumes qu: "name_at names (qName qu) = Some nm" and d: "name_at names d = Some nd" "length nd \<le> length nm"
    and p: "IP_SIZE_META_PAIR v \<le> length p"
  shows "\<exists>rr. p_put_srv v names qu p d = Some rr \<and> (\<exists>x. encode_rr names rr = Some x \<and> length x \<le> 2 * length nm + 20)"
proof -
  have "IP_SIZE v + 1 < length p" using p by (simp add: IP_SIZE_META_PAIR_def)
  from get16_ok [OF this] qu d show ?thesis
    by (auto simp: p_put_srv_def encode_rr_def p_encode_domain_length)
qed

lemma put_addr_ok:
  assumes d: "name_at names d = Some nd" "length nd \<le> length nm" and p: "IP_SIZE_META_PAIR v \<le> length p"
  shows "\<exists>rr. p_put_addr v qu p d = Some rr \<and> (\<exists>x. encode_rr names rr = Some x \<and> length x \<le> length nm + 28)"
proof -
  have "IP_SIZE v \<le> length p" "IP_SIZE v \<le> 16" using p by (cases v; simp add: IP_SIZE_META_PAIR_def)+
  with d show ?thesis by (auto simp: p_put_addr_def encode_rr_def p_encode_domain_length)
qed

lemma encode_rrs_append:
  assumes "encode_rrs names xs = Some x" and "encode_rrs names ys = Some y"
  shows "encode_rrs names (xs @ ys) = Some (x @ y)"
  using assms
proof (induction xs arbitrary: x)
  case (Cons rr xs)
  then obtain a b where "encode_rr names rr = Some a" "encode_rrs names xs = Some b" "x = a @ b" by (auto split: bind_splits)
  with Cons show ?case by simp
qed simp

text \<open>Eight service records and eight addresses: with a name of up to 42 bytes they always fit.\<close>

lemma reply_fits:
  assumes len: "length ns = n * IP_SIZE_META_PAIR v" and n: "0 < n" "n \<le> 8"
    and nm: "name_at names (qName (question msg)) = Some nm" "length nm \<le> 42"
  shows "\<exists>msg' x. p_reply_msg v names msg ns = Some msg' \<and> p_encode_response names msg' = Some x \<and> length x \<le> UDP_BUF"
proof -
  have "0 < IP_SIZE_META_PAIR v" by (simp add: IP_SIZE_META_PAIR_def)
  then have div: "length ns div IP_SIZE_META_PAIR v = n" using len by simp
  have u: "unat (of_nat n :: USHORT) = n" using n by (simp add: unat_of_nat)
  then have u0: "(of_nat n :: USHORT) \<noteq> 0" using n by auto
  obtain d nd where d: "p_get_domain_from_srv_record names (qName (question msg)) = Some d" "name_at names d = Some nd" "length nd \<le> length nm"
    using srv_domain [OF nm(1)] by blast
  have "\<exists>srv. put_loop v (\<lambda>p. p_put_srv v names (question msg) p d) n ns = Some srv \<and> length srv = n \<and> (\<forall>rr \<in> set srv. \<exists>x. encode_rr names rr = Some x \<and> length x \<le> 2 * length nm + 20)"
    by (rule put_loop_all [OF _ len]) (rule put_srv_ok [OF nm(1) d(2,3)])
  then obtain srv where srv: "put_loop v (\<lambda>p. p_put_srv v names (question msg) p d) n ns = Some srv" "length srv = n" "\<forall>rr \<in> set srv. \<exists>x. encode_rr names rr = Some x \<and> length x \<le> 2 * length nm + 20" by (elim exE conjE)
  have "\<exists>ad. put_loop v (\<lambda>p. p_put_addr v (question msg) p d) n ns = Some ad \<and> length ad = n \<and> (\<forall>rr \<in> set ad. \<exists>x. encode_rr names rr = Some x \<and> length x \<le> length nm + 28)"
    by (rule put_loop_all [OF _ len]) (rule put_addr_ok [OF d(2,3)])
  then obtain ad where ad: "put_loop v (\<lambda>p. p_put_addr v (question msg) p d) n ns = Some ad" "length ad = n" "\<forall>rr \<in> set ad. \<exists>x. encode_rr names rr = Some x \<and> length x \<le> length nm + 28" by (elim exE conjE)
  have "\<exists>ad'. put_loop v (\<lambda>p. p_put_addr v (question msg) p (qName (question msg))) n ns = Some ad' \<and> length ad' = n \<and> (\<forall>rr \<in> set ad'. \<exists>x. encode_rr names rr = Some x \<and> length x \<le> length nm + 28)"
    by (rule put_loop_all [OF _ len]) (rule put_addr_ok [OF nm(1) order_refl])
  then obtain ad' where ad': "put_loop v (\<lambda>p. p_put_addr v (question msg) p (qName (question msg))) n ns = Some ad'" "length ad' = n" "\<forall>rr \<in> set ad'. \<exists>x. encode_rr names rr = Some x \<and> length x \<le> length nm + 28" by (elim exE conjE)
  from encode_rrs_bound [of srv names "2 * length nm + 20"] srv obtain x where
    x: "encode_rrs names srv = Some x" "length x \<le> n * (2 * length nm + 20)" by auto
  from encode_rrs_bound [of ad names "length nm + 28"] ad obtain y where
    y: "encode_rrs names ad = Some y" "length y \<le> n * (length nm + 28)" by auto
  from encode_rrs_bound [of ad' names "length nm + 28"] ad' obtain z where
    z: "encode_rrs names ad' = Some z" "length z \<le> n * (length nm + 28)" by auto
  have "n * (2 * length nm + 20) \<le> 8 * (2 * 42 + 20)" "n * (length nm + 28) \<le> 8 * (42 + 28)" using n(2) nm(2) by (intro mult_le_mono; simp)+
  then have b: "length x + length y + 18 + length nm \<le> UDP_BUF" "length z + 18 + length nm \<le> UDP_BUF" using x(2) y(2) z(2) nm(2) by simp_all
  note xy = encode_rrs_append [OF x(1) y(1)]
  show ?thesis
    using srv(1,2) ad(1,2) ad'(1,2) xy z(1) b d(1) n u u0 div nm(1)
    by (cases "qType (question msg) = SRV_Resource_RecordType")
      (simp_all add: p_reply_msg_def p_prepare_msg_def p_encode_response_def p_encode_domain_length Let_def)
qed

section \<open>Queries\<close>

lemma r_success_ok:
  assumes ok: "main_ok W k m" and nm: "name_at names (qName (question msg)) = Some nm" "length nm \<le> 42"
    and ns: "length ns = n * IP_SIZE_META_PAIR (w_ver W)" "n \<le> 8"
  shows "\<exists>m'. r_success W names m from msg ns = Some m' \<and> main_ok W k m'"
proof (cases "ns = []")
  case True
  then show ?thesis using ok by (simp add: r_success_def)
next
  case False
  then have "0 < n" using ns(1) by (cases n) simp_all
  from reply_fits [OF ns(1) this ns(2) nm] ok False show ?thesis by (auto simp: r_success_def send_dns_def main_ok_out)
qed

lemma lookup_cache_ok:
  assumes ok: "main_ok W k m" and nm: "name_at names (qName (question msg)) = Some nm" "length nm \<le> 42" and t: "length target = SHA1_SIZE"
  shows "\<exists>m' r. r_lookup_cache_db W names m target from msg = Some (m', r) \<and> main_ok W k m'"
proof -
  from main_okD(4) [OF ok] obtain ts where ts: "cache_rep (w_ver W) (s_cache m) ts" by blast
  from cache_compact_list_ok [OF ts t, of "clock m"] obtain c where
    c: "cache_compact_list (s_cache m) target (clock m) = Some (c, c_peers ts target)" "cache_rep (w_ver W) c (c_used (clock m) target ts)" by blast
  from c_peers_split [OF ts, of target] obtain ps where
    ps: "c_peers ts target = concat ps" "length ps \<le> 8" "\<forall>p \<in> set ps. length p = IP_SIZE_META_PAIR (w_ver W)" by blast
  have l: "length (c_peers ts target) = length ps * IP_SIZE_META_PAIR (w_ver W)" unfolding ps(1) by (rule concat_length [OF ps(3)])
  have ok': "main_ok W k (m\<lparr>s_cache := c\<rparr>)" by (rule main_ok_cache [OF ok c(2)])
  from r_success_ok [OF ok' nm l ps(2), of "from"] ok' c(1) show ?thesis by (auto simp: r_lookup_cache_db_def Let_def)
qed

lemma lookup_local_ok:
  assumes ok: "main_ok W k m" and nm: "name_at names (qName (question msg)) = Some nm" "length nm \<le> 42" and t: "length target = SHA1_SIZE"
  shows "\<exists>m' r. r_lookup_local_db W names m target from msg = Some (m', r) \<and> main_ok W k m'"
proof -
  from main_value_list [OF ok t] obtain val c n where
    val: "val_compact_list (s_value m) target = Some (val, c)" "main_ok W k (m\<lparr>s_value := val\<rparr>)"
      "length c = n * IP_SIZE_META_PAIR (w_ver W)" "n \<le> 8" by blast
  from r_success_ok [OF val(2) nm val(3,4), of "from"] val(1,2) show ?thesis by (auto simp: r_lookup_local_db_def Let_def)
qed

lemma r_lookup_ok:
  assumes ok: "main_ok W (k + 9) m" and nm: "name_at names (qName (question msg)) = Some nm" "length nm \<le> 42" and sha: "sha1_law W"
  shows "\<exists>m'. r_lookup W names m hostname from msg = Some m' \<and> main_ok W k m'"
proof -
  let ?t = "id_hostid W hostname (c_realm (s_conf m)) (c_bool_realm (s_conf m))"
  have t: "length ?t = SHA1_SIZE" by (rule id_hostid_length [OF sha])
  from lookup_cache_ok [OF ok nm t, of "from"] obtain m1 r where
    m1: "r_lookup_cache_db W names m ?t from msg = Some (m1, r)" "main_ok W (k + 9) m1" by blast
  from lookup_local_ok [OF m1(2) nm t, of "from"] obtain m2 s where
    m2: "r_lookup_local_db W names m1 ?t from msg = Some (m2, s)" "main_ok W (k + 9) m2" by blast
  from start_search_ok [OF m2(2) t, of P2P_GET_PEERS "Some (from, msg)"] obtain m3 where
    m3: "r_lookup_remote W m2 ?t P2P_GET_PEERS from msg = Some m3" "main_ok W k m3" by (auto simp: r_lookup_remote_def)
  have "main_ok W k m1" "main_ok W k m2" by (rule main_ok_mono [OF m1(2)] main_ok_mono [OF m2(2)], simp)+
  with m1 m2 m3 show ?thesis by (auto simp: r_lookup_def Let_def)
qed

text \<open>The queries whose answer might not fit.\<close>

definition query_safe :: "ptr \<Rightarrow> DNS_MSG \<Rightarrow> bytes \<Rightarrow> nat \<Rightarrow> bool" where
  "query_safe self junk buf sz =
     (case p_decode_query (Frame self) junk buf sz of Some (r, msg) \<Rightarrow> r = 1 \<longrightarrow> length (cstr (qName_buffer msg)) \<le> 42 | None \<Rightarrow> True)"

lemma r_parse_ok:
  assumes ok: "main_ok W (k + 9) m" and sha: "sha1_law W" and safe: "query_safe self junk (d @ 0 # rest) (length d)"
  shows "\<exists>m'. r_parse W self junk m (d @ 0 # rest) (length d) from = Some m' \<and> main_ok W k m'"
proof -
  have ok0: "main_ok W k m" by (rule main_ok_mono [OF ok]) simp
  show ?thesis
  proof (cases "length d < 12 \<or> 512 < length d \<or> ip_is_linklocal (w_ver W) from")
    case True
    then show ?thesis using ok0 by (auto simp: r_parse_def)
  next
    case False
    then have "12 \<le> length d" by simp
    from p_decode_query_safe [OF this, of "Frame self" junk rest] obtain r msg where
      q: "p_decode_query (Frame self) junk (d @ 0 # rest) (length d) = Some (r, msg)" "r = 1 \<Longrightarrow> qName (question msg) = (Frame self, 0)" by blast
    let ?names = "[Frame self \<mapsto> qName_buffer msg]" and ?nm = "cstr (qName_buffer msg)"
    show ?thesis
    proof (cases "r = 1")
      case 1: True
      then have nm: "name_at ?names (qName (question msg)) = Some ?nm" using q(2) by (simp add: name_at_def)
      have l: "length ?nm \<le> 42" using safe q(1) 1 by (simp add: query_safe_def)
      have "\<exists>m'. r_failure ?names m from msg = Some m' \<and> main_ok W k m'"
        using nm l ok0 by (simp add: r_failure_def p_reset_msg_def p_prepare_msg_def p_encode_response_def p_encode_domain_length Let_def send_dns_def main_ok_out)
      moreover note r_lookup_ok [OF ok nm l sha, of ?nm "from"]
      ultimately show ?thesis using False q(1) 1 nm ok0 by (auto simp: r_parse_def Let_def)
    qed (use False q(1) ok0 in \<open>auto simp: r_parse_def\<close>)
  qed
qed

end
