(* ===== verification/Daemon.thy ===== *)
theory Daemon
  imports Resolver_Inv
begin

text \<open>
  The program as it runs: \<^verbatim>\<open>src/src/p2p/torrentkino.c\<close> sets up the state and \<^verbatim>\<open>src/src/p2p/udp.c\<close> feeds it with datagrams.  One thread serves
  the P2P socket, one the DNS socket and one sends the first requests; the events of all three are
  interleaved in any order.
\<close>

section \<open>Start\<close>

text \<open>
  The databases that \<open>main\<close> sets up, with the first token and the group it joins on the P2P socket; \<open>conf_init\<close> has read the configuration and the host names, and the
  sockets are given.  The whole of \<open>main\<close>, in its order and with its system calls, is \<open>daemon_main_start\<close> in the theory Udp_Start.
\<close>

definition daemon_start :: "WORLD \<Rightarrow> CONF \<Rightarrow> ID list \<Rightarrow> int \<Rightarrow> int \<Rightarrow> time_t \<Rightarrow> rng \<Rightarrow> MAIN option" where
  "daemon_start W conf ids sockfd dns_sockfd now g = do {
     (T, g) \<leftarrow> tkn_put tkn_init now g;
     Some (udp_multicast W
       \<lparr>s_conf = conf, s_identity = ids, s_nbhd = nbhd_init, s_value = val_init, s_tdb = tdb_init, s_token = T,
        s_cache = cache_init, s_p2p = p2p_init now, s_sockfd = sockfd, s_dns_sockfd = dns_sockfd, s_multicast = False,
        s_rumble = True, s_rng = g, s_out = [], s_dns_out = []\<rparr> True True)
   }"

section \<open>Sockets\<close>

datatype udp_type = udp_dns_worker | udp_p2p_worker

text \<open>
  A datagram as \<open>recvfrom\<close> returns it, with the times the program reads from the clock while it handles it and the stack
  frame \<open>r_parse\<close> runs in.
\<close>

record RECV =
  rc_data :: bytes
  rc_from :: IP
  rc_now :: time_t
  rc_cron :: time_t
  rc_self :: ptr
  rc_junk :: DNS_MSG

definition udp_cron :: "WORLD \<Rightarrow> udp_type \<Rightarrow> MAIN \<Rightarrow> time_t \<Rightarrow> MAIN option" where
  "udp_cron W type m now = (if type \<noteq> udp_p2p_worker then Some m else p2p_cron W m now)"

definition udp_client :: "WORLD \<Rightarrow> udp_type \<Rightarrow> MAIN \<Rightarrow> MAIN option" where
  "udp_client W type m = (if type \<noteq> udp_p2p_worker then Some m else p2p_bootstrap W m)"

text \<open>The received bytes in the zeroed buffer of \<open>UDP_BUF + 1\<close> bytes.\<close>

definition udp_buffer :: "bytes \<Rightarrow> bytes" where
  "udp_buffer d = d @ replicate (Suc UDP_BUF - length d) 0"

definition udp_datagram :: "WORLD \<Rightarrow> udp_type \<Rightarrow> MAIN \<Rightarrow> RECV \<Rightarrow> MAIN option" where
  "udp_datagram W type m r =
     (let d = take UDP_BUF (rc_data r) in
      if type = udp_p2p_worker then do {
        m \<leftarrow> p2p_parse W m (udp_buffer d) (length d) (rc_from r) (rc_now r);
        udp_cron W type m (rc_cron r)
      } else r_parse W (rc_self r) (rc_junk r) m (udp_buffer d) (length d) (rc_from r))"

text \<open>The loop ends when the program stops, when there is nothing more to read and at an empty datagram.\<close>

fun udp_input :: "WORLD \<Rightarrow> udp_type \<Rightarrow> MAIN \<Rightarrow> RECV list \<Rightarrow> MAIN option" where
  "udp_input W type m [] = Some m"
| "udp_input W type m (r # rs) =
     (if \<not> s_rumble m then Some m
      else if rc_data r = [] then Some m
      else do {
        m \<leftarrow> udp_datagram W type m r;
        udp_input W type m rs
      })"

section \<open>Runs\<close>

datatype event = Datagram udp_type RECV | Timeout udp_type time_t | Client udp_type | Signal

definition handle :: "WORLD \<Rightarrow> MAIN \<Rightarrow> event \<Rightarrow> MAIN option" where
  "handle W m e = (case e of
     Datagram type r \<Rightarrow> udp_input W type m [r]
   | Timeout type now \<Rightarrow> udp_cron W type m now
   | Client type \<Rightarrow> udp_client W type m
   | Signal \<Rightarrow> Some (m\<lparr>s_rumble := False\<rparr>))"

text \<open>What is required of the world: addresses have the size of their family, and the exceptions the theories above have found do not occur.\<close>

definition event_safe :: "WORLD \<Rightarrow> MAIN \<Rightarrow> event \<Rightarrow> bool" where
  "event_safe W m e = (case e of
     Datagram type r \<Rightarrow>
       (let d = take UDP_BUF (rc_data r) in
        ip_ok (w_ver W) (rc_from r) \<and>
        (if type = udp_p2p_worker then datagram_safe W m (udp_buffer d) (length d) (rc_from r)
         else query_safe (rc_self r) (rc_junk r) (udp_buffer d) (length d)))
   | _ \<Rightarrow> True)"

inductive reached :: "WORLD \<Rightarrow> MAIN \<Rightarrow> nat \<Rightarrow> MAIN \<Rightarrow> bool" for W :: WORLD and m0 :: MAIN where
  reached_start: "reached W m0 0 m0"
| reached_step: "reached W m0 n m \<Longrightarrow> event_safe W m e \<Longrightarrow> handle W m e = Some m' \<Longrightarrow> reached W m0 (Suc n) m'"

text \<open>What one event may need.\<close>

abbreviation (input) event_cost :: nat where "event_cost \<equiv> 61 + cron_cost"

lemma udp_buffer_zero: "length d \<le> UDP_BUF \<Longrightarrow> udp_buffer d = d @ 0 # replicate (UDP_BUF - length d) 0"
  by (simp only: udp_buffer_def Suc_diff_le replicate_Suc)

lemma datagram_ok:
  assumes ok: "main_ok W (k + event_cost) m" and sha: "sha1_law W" and safe: "event_safe W m (Datagram type r)"
  shows "\<exists>m'. udp_datagram W type m r = Some m' \<and> main_ok W k m'"
proof -
  let ?d = "take UDP_BUF (rc_data r)"
  have b: "udp_buffer ?d = ?d @ 0 # replicate (UDP_BUF - length ?d) 0" by (rule udp_buffer_zero) simp
  show ?thesis
  proof (cases "type = udp_p2p_worker")
    case True
    have s: "ip_ok (w_ver W) (rc_from r)" "datagram_safe W m (udp_buffer ?d) (length ?d) (rc_from r)"
      using safe True by (simp_all add: event_safe_def Let_def)
    have l: "length ?d \<le> length (udp_buffer ?d)" "int (length ?d) < LONG_MAX" by (simp_all add: udp_buffer_def)
    have "main_ok W ((k + cron_cost) + 61) m" by (rule main_ok_mono [OF ok]) simp
    from parse_ok [OF this s(1) l s(2), of "rc_now r"] obtain m1 where
      m1: "p2p_parse W m (udp_buffer ?d) (length ?d) (rc_from r) (rc_now r) = Some m1" "main_ok W (k + cron_cost) m1" by blast
    from cron_ok [OF m1(2), of "rc_cron r"] m1(1) True show ?thesis by (simp add: udp_datagram_def udp_cron_def Let_def)
  next
    case False
    have q: "query_safe (rc_self r) (rc_junk r) (udp_buffer ?d) (length ?d)" using safe False by (simp add: event_safe_def Let_def)
    have "main_ok W (k + 9) m" by (rule main_ok_mono [OF ok]) simp
    from r_parse_ok [OF this sha q [unfolded b], of "rc_from r"] False show ?thesis by (simp add: udp_datagram_def b Let_def)
  qed
qed

lemma handle_ok:
  assumes ok: "main_ok W (k + event_cost) m" and sha: "sha1_law W" and safe: "event_safe W m e"
  shows "\<exists>m'. handle W m e = Some m' \<and> main_ok W k m'"
proof -
  have k: "main_ok W k m" "main_ok W (k + cron_cost) m" "main_ok W (k + 60) m" by (rule main_ok_mono [OF ok], simp)+
  show ?thesis
  proof (cases e)
    case (Datagram type r)
    from datagram_ok [OF ok sha safe [unfolded Datagram]] k(1) show ?thesis by (auto simp: handle_def Datagram)
  next
    case (Timeout type now)
    from cron_ok [OF k(2), of now] k(1) show ?thesis by (auto simp: handle_def Timeout udp_cron_def)
  next
    case (Client type)
    from bootstrap_ok [OF k(3)] k(1) show ?thesis by (auto simp: handle_def Client udp_client_def)
  next
    case Signal
    then show ?thesis using k(1) by (simp add: handle_def main_ok_def)
  qed
qed

lemma start_ok:
  assumes "conf_ok conf" and "names_ok ids" and "rng_ok g" and "0 \<le> now"
  shows "\<exists>m. daemon_start W conf ids sockfd dns_sockfd now g = Some m \<and> (\<forall>k. int k + 1 < LONG_MAX \<longrightarrow> main_ok W k m)"
proof -
  from tkn_put_tokens [OF tokens_init, of now g] obtain T where
    T: "tkn_put tkn_init now g = Some (T, snd (tkn_create tkn_init g))"
      "tokens T ([] @ [(l_brk (tk_list tkn_init), \<lparr>tkn_id = fst (tkn_create tkn_init g), tkn_time = now + 1800\<rparr>)])" by auto
  have l: "length (fst (tkn_create tkn_init g)) = TOKEN_SIZE" "rng_ok (snd (tkn_create tkn_init g))"
    using create_loop_length [OF assms(3), of TOKEN_SIZE "tk_hash tkn_init" 999] by (simp_all add: tkn_create_def)
  have t: "tkn_part T 0 1" unfolding tkn_part_def using T(2) l(1) assms(4) by (intro exI conjI) auto
  let ?m = "\<lparr>s_conf = conf, s_identity = ids, s_nbhd = nbhd_init, s_value = val_init, s_tdb = tdb_init, s_token = T,
        s_cache = cache_init, s_p2p = p2p_init now, s_sockfd = sockfd, s_dns_sockfd = dns_sockfd, s_multicast = False,
        s_rumble = True, s_rng = snd (tkn_create tkn_init g), s_out = [], s_dns_out = []\<rparr>"
  have "nb_part (w_ver W) (me ?m) nbhd_init 0"
    using nbhd_ok_init grown_init [of "me ?m"] by (simp add: nb_part_def) (simp add: nbhd_init_def)
  moreover have "tdb_part (w_ver W) tdb_init 0" unfolding tdb_part_def by (rule exI [of _ "[]"]) (simp add: tids_init)
  ultimately have "main_ok W k ?m" if "int k + 1 < LONG_MAX" for k
    by (intro main_okI [where a = 0 and b = 0 and c = 1])
      (use that assms l(2) t val_init_rep cache_init_rep in \<open>auto simp: p2p_init_def\<close>)
  with T(1) multicast_ok show ?thesis by (simp add: daemon_start_def)
qed

lemma start_fields:
  assumes "daemon_start W conf ids sockfd dns_sockfd now g = Some m"
  shows "s_conf m = conf" "s_identity m = ids" "s_nbhd m = nbhd_init" "s_value m = val_init" "s_tdb m = tdb_init" "s_cache m = cache_init"
    "s_sockfd m = sockfd" "s_out m = []"
  using assms by (auto simp: daemon_start_def udp_multicast_def split: bind_splits if_splits)

lemma reached_ok:
  assumes "reached W m0 n m" and "main_ok W (k + n * event_cost) m0" and "sha1_law W"
  shows "main_ok W k m"
  using assms(1,2)
proof (induction arbitrary: k rule: reached.induct)
  case reached_start
  then show ?case by simp
next
  case (reached_step n m e m')
  have "main_ok W ((k + event_cost) + n * event_cost) m0" using reached_step.prems by (simp add: algebra_simps)
  from handle_ok [OF reached_step.IH [OF this] assms(3) reached_step.hyps(2)] reached_step.hyps(3) show ?case by simp
qed

end
