(* ===== verification/Protocol.thy ===== *)
theory Protocol
  imports Daemon
begin

text \<open>
  Two nodes that talk to each other: what one sends with \<open>send_ping\<close> the other parses with \<open>p2p_parse\<close>, and back.
\<close>

section \<open>Packets\<close>

lemma search_empty [simp]: "ben_dict_search_str (Some (BEN_DICT [])) s = None"
  by (simp add: ben_dict_search_str_def ben_dict_search_key_def)

lemma search_cons [simp]:
  "ben_dict_search_str (Some (BEN_DICT ((k, v) # d))) s = (if k = lit s then Some v else ben_dict_search_str (Some (BEN_DICT d)) s)"
  by (auto simp: ben_dict_search_str_def ben_dict_search_key_def memcmp_eq_0_iff)

definition ping_packet :: "bytes \<Rightarrow> bytes \<Rightarrow> BEN" where
  "ping_packet i tid = BEN_DICT [(lit ''a'', BEN_DICT [(lit ''id'', BEN_STR i)]), (lit ''q'', BEN_STR (lit ''ping'')),
     (lit ''t'', BEN_STR tid), (lit ''y'', BEN_STR (lit ''q''))]"

definition pong_packet :: "bytes \<Rightarrow> bytes \<Rightarrow> BEN" where
  "pong_packet i tid = BEN_DICT [(lit ''r'', BEN_DICT [(lit ''id'', BEN_STR i)]), (lit ''t'', BEN_STR tid), (lit ''y'', BEN_STR (lit ''r''))]"

lemma packet_limits:
  assumes "length i = SHA1_SIZE" and "length tid \<le> 1000"
  shows "in_limits (ping_packet i tid)" "in_limits (pong_packet i tid)"
  using assms by (simp_all add: in_limits_def ping_packet_def pong_packet_def lit_def)

lemma digits_size: "0 \<le> n \<Longrightarrow> n \<le> 1000 \<Longrightarrow> int (length (long_digits n)) \<le> 19"
  using long_digits_len [of n] by (simp add: long_digits_def)

lemma packet_size:
  assumes "length i = SHA1_SIZE" and "length tid \<le> 1000"
  shows "int (length (ben_enc_rec (ping_packet i tid))) < LONG_MAX" "int (length (ben_enc_rec (pong_packet i tid))) < LONG_MAX"
  using assms digits_size [of 1] digits_size [of 2] digits_size [of 4] digits_size [of 20] digits_size [of "int (length tid)"]
  by (simp_all add: ping_packet_def pong_packet_def lit_def)

lemma ints_le_mono:
  "ints_le a b \<Longrightarrow> a \<le> c \<Longrightarrow> ints_le c b" "ints_le_l a l \<Longrightarrow> a \<le> c \<Longrightarrow> ints_le_l c l" "ints_le_d a d \<Longrightarrow> a \<le> c \<Longrightarrow> ints_le_d c d"
  by (induction a b and a l and a d rule: ints_le_ints_le_l_ints_le_d.induct) auto

text \<open>What a datagram with an encoded dictionary is dispatched to.\<close>

lemma parse_packet:
  assumes b: "in_limits (BEN_DICT d)" "int (length (ben_enc_rec (BEN_DICT d))) < LONG_MAX"
    and f: "\<not> ip_is_linklocal (w_ver W) from" "\<not> encrypted W (s_conf m) from"
  shows "ben_dict_search_str (Some (BEN_DICT d)) ''y'' = Some (BEN_STR (lit ''q'')) \<Longrightarrow>
      p2p_parse W m (ben_enc_rec (BEN_DICT d) @ rest) (length (ben_enc_rec (BEN_DICT d))) from now =
      p2p_request W (m\<lparr>s_p2p := (s_p2p m)\<lparr>pt_now := now\<rparr>\<rparr>) (Some (BEN_DICT d)) from"
    "ben_dict_search_str (Some (BEN_DICT d)) ''y'' = Some (BEN_STR (lit ''r'')) \<Longrightarrow>
      p2p_parse W m (ben_enc_rec (BEN_DICT d) @ rest) (length (ben_enc_rec (BEN_DICT d))) from now =
      p2p_reply W (m\<lparr>s_p2p := (s_p2p m)\<lparr>pt_now := now\<rparr>\<rparr>) (Some (BEN_DICT d)) from"
proof -
  let ?x = "ben_enc_rec (BEN_DICT d)"
  have v: "ben_validate (?x @ rest) (length ?x) = Inr True" by (rule ben_validate_enc [OF b(1) ben_enc_Some])
  have "ints_le LONG_MAX (BEN_DICT d)" by (rule ints_le_mono(1) [of BEN_INT_MAXSIZE]) (use b(1) in \<open>simp_all add: in_limits_def\<close>)
  from ben_dec_enc [OF this b(2), of rest] have dec: "ben_dec (?x @ rest) (length ?x) = Inr (Some (BEN_DICT d))"
    unfolding ben_enc_Some by blast
  have x: "\<not> length ?x < 1" by simp
  have e: "\<not> (w_polarssl W \<and> c_bool_encryption (s_conf m) \<and> \<not> ip_is_localhost (w_ver W) from)" using f(2) by (simp add: encrypted_def)
  have "p2p_parse W m (?x @ rest) (length ?x) from now = p2p_decode W (m\<lparr>s_p2p := (s_p2p m)\<lparr>pt_now := now\<rparr>\<rparr>) (?x @ rest) (length ?x) from"
    unfolding p2p_parse_def Let_def using v x f(1) e by auto
  then show "ben_dict_search_str (Some (BEN_DICT d)) ''y'' = Some (BEN_STR (lit ''q'')) \<Longrightarrow>
      p2p_parse W m (?x @ rest) (length ?x) from now = p2p_request W (m\<lparr>s_p2p := (s_p2p m)\<lparr>pt_now := now\<rparr>\<rparr>) (Some (BEN_DICT d)) from"
    "ben_dict_search_str (Some (BEN_DICT d)) ''y'' = Some (BEN_STR (lit ''r'')) \<Longrightarrow>
      p2p_parse W m (?x @ rest) (length ?x) from now = p2p_reply W (m\<lparr>s_p2p := (s_p2p m)\<lparr>pt_now := now\<rparr>\<rparr>) (Some (BEN_DICT d)) from"
    using dec by (simp_all add: p2p_decode_def ben_is_dict_def lit_def chr_def)
qed

section \<open>Ping and pong\<close>

text \<open>The program talks plain text over an open socket.\<close>

definition plain :: "WORLD \<Rightarrow> MAIN \<Rightarrow> bool" where
  "plain W m \<longleftrightarrow> \<not> (w_polarssl W \<and> c_bool_encryption (s_conf m)) \<and> 0 \<le> s_sockfd m"

lemma send_ping_out:
  assumes "plain W m" and "length (me m) = SHA1_SIZE" and "length tid = TID_SIZE"
  shows "send_ping W m sa tid = Some (m\<lparr>s_out := s_out m @ [(sa, ben_enc_rec (ping_packet (me m) tid))]\<rparr>)"
  using assms by (auto simp: plain_def send_ping_def send_dict_def ben_build ben_enc_Some send_udp_def ping_packet_def)

lemma send_pong_out:
  assumes "plain W m" and "length (me m) = SHA1_SIZE"
  shows "send_pong W m sa tid (length tid) = Some (m\<lparr>s_out := s_out m @ [(sa, ben_enc_rec (pong_packet (me m) tid))]\<rparr>)"
  using assms by (auto simp: plain_def send_pong_def send_dict_def ben_build ben_enc_Some send_udp_def pong_packet_def)

lemma is_hash_str: "p2p_is_hash (Some (BEN_STR i)) \<longleftrightarrow> length i = SHA1_SIZE"
  by (simp add: p2p_is_hash_def ben_is_str_def ben_str_i_def ben_str_s_def)

lemma not_me: "length i = SHA1_SIZE \<Longrightarrow> length (me m) = SHA1_SIZE \<Longrightarrow> i \<noteq> me m \<Longrightarrow> \<not> p2p_packet_from_myself m i"
  by (simp add: p2p_packet_from_myself_def node_me_def node_equal_iff)

lemma ping_answered_ok:
  assumes ok: "main_ok W (Suc k) m" and p: "plain W m" and f: "\<not> ip_is_linklocal (w_ver W) from" "ip_ok (w_ver W) from"
    and i: "length i = SHA1_SIZE" "i \<noteq> me m" and tid: "length tid = TID_SIZE"
  shows "\<exists>m'. p2p_parse W m (ben_enc_rec (ping_packet i tid) @ rest) (length (ben_enc_rec (ping_packet i tid))) from now = Some m' \<and>
    s_out m' = s_out m @ [(from, ben_enc_rec (pong_packet (me m) tid))] \<and> main_ok W k m' \<and> s_tdb m' = s_tdb m"
proof -
  let ?m = "m\<lparr>s_p2p := (s_p2p m)\<lparr>pt_now := now\<rparr>\<rparr>"
  have okm: "main_ok W (Suc k) ?m" using ok by (simp only: main_ok_clock)
  note me = main_okD(1) [OF okm]
  from main_nbhd_put_ok [OF okm i(1) f(2)] obtain nb where
    nb: "main_nbhd_put W ?m i from = Some (?m\<lparr>s_nbhd := nb\<rparr>)" "main_ok W k (?m\<lparr>s_nbhd := nb\<rparr>)" by blast
  have pl: "plain W (?m\<lparr>s_nbhd := nb\<rparr>)" using p by (simp add: plain_def)
  have "\<not> encrypted W (s_conf m) from" using p by (auto simp: plain_def encrypted_def)
  from parse_packet(1) [OF packet_limits(1) [OF i(1), of tid, unfolded ping_packet_def] _ f(1) this, of rest now]
    packet_size(1) [OF i(1), of tid] tid
  have "p2p_parse W m (ben_enc_rec (ping_packet i tid) @ rest) (length (ben_enc_rec (ping_packet i tid))) from now =
      p2p_request W ?m (Some (ping_packet i tid)) from"
    by (simp add: ping_packet_def chr_def del: ben_enc_rec.simps)
  also have "\<dots> = send_pong W (?m\<lparr>s_nbhd := nb\<rparr>) from tid (length tid)"
    using i not_me [OF i(1) _ i(2)] me nb(1) tid
    by (simp add: p2p_request_def ping_packet_def chr_def Let_def ben_is_str_def ben_is_dict_def is_hash_str ben_str_s_def p2p_ping_def p2p_packet_from_myself_def)
  also have "\<dots> = Some (?m\<lparr>s_nbhd := nb, s_out := s_out m @ [(from, ben_enc_rec (pong_packet (me m) tid))]\<rparr>)"
    using send_pong_out [OF pl] me by simp
  finally show ?thesis using nb(2) by (simp add: main_ok_def)
qed

lemma ponged_node:
  assumes "nbhd_ok nb" and "nbhd_ponged nb i from now g = Some (nb', g')" and "nb_mem nb' q = Some n" and "n_id n = i"
  shows "pinged n = 0 \<and> c_addr n = from"
proof (cases "hash_get (nb_hash nb) i")
  case None
  with assms nbhd_okD(5) [OF assms(1), of i q] show ?thesis by (auto simp: nbhd_ponged_def)
next
  case (Some p)
  from hash_node [OF assms(1) Some] obtain x where x: "nb_mem nb p = Some x" by blast
  have "q = p"
  proof (rule ccontr)
    assume "q \<noteq> p"
    then have "nb_mem nb q = Some n" using assms(2,3) Some x by (auto simp: nbhd_ponged_def case_prod_beta)
    then have "hash_get (nb_hash nb) i = Some q" using nbhd_okD(5) [OF assms(1), of i q] assms(4) by blast
    with Some \<open>q \<noteq> p\<close> show False by simp
  qed
  with assms(2,3) Some x show ?thesis by (auto simp: nbhd_ponged_def node_ponged_def node_update_def Let_def case_prod_beta)
qed

lemma pong_accepted_ok:
  assumes ok: "main_ok W (Suc k) m" and e: "\<not> encrypted W (s_conf m) from" and f: "\<not> ip_is_linklocal (w_ver W) from" "ip_ok (w_ver W) from"
    and i: "length i = SHA1_SIZE" "i \<noteq> me m" and tid: "length tid = TID_SIZE"
    and t: "tdb_item (s_tdb m) tid = Some p" "tdb_type (s_tdb m) (Some p) = Some P2P_PING"
  shows "\<exists>m'. p2p_parse W m (ben_enc_rec (pong_packet i tid) @ rest) (length (ben_enc_rec (pong_packet i tid))) from now = Some m' \<and>
    main_ok W k m' \<and> tdb_item (s_tdb m') tid = None \<and> s_out m' = s_out m \<and>
    (\<forall>q n. nb_mem (s_nbhd m') q = Some n \<and> n_id n = i \<longrightarrow> pinged n = 0 \<and> c_addr n = from)"
proof -
  let ?m = "m\<lparr>s_p2p := (s_p2p m)\<lparr>pt_now := now\<rparr>\<rparr>"
  have okm: "main_ok W (Suc k) ?m" using ok by (simp only: main_ok_clock)
  note me = main_okD(1) [OF okm]
  from main_nbhd_put_ok [OF okm i(1) f(2)] obtain nb where
    nb: "main_nbhd_put W ?m i from = Some (?m\<lparr>s_nbhd := nb\<rparr>)" "main_ok W k (?m\<lparr>s_nbhd := nb\<rparr>)" by blast
  let ?m1 = "?m\<lparr>s_nbhd := nb\<rparr>"
  from p2p_pong_ok [OF nb(2) f(2), of i] obtain nb2 g where
    m2: "p2p_pong ?m1 i from = Some (?m1\<lparr>s_nbhd := nb2, s_rng := g\<rparr>)" "main_ok W k (?m1\<lparr>s_nbhd := nb2, s_rng := g\<rparr>)" by blast
  let ?m2 = "?m1\<lparr>s_nbhd := nb2, s_rng := g\<rparr>"
  have "nbhd_ponged nb i from now (s_rng m) = Some (nb2, g)" using m2(1)
    by (auto simp: p2p_pong_def split: bind_splits dest!: arg_cong [where f = "\<lambda>m. (s_nbhd m, s_rng m)"])
  note ponged = this
  have "nbhd_ok nb" using nb_nbhd_ok [OF nb(2)] by simp
  from ponged_node [OF this ponged]
  have n: "\<forall>q n. nb_mem nb2 q = Some n \<and> n_id n = i \<longrightarrow> pinged n = 0 \<and> c_addr n = from" by blast
  from main_okD(7) [OF m2(2)] obtain xs where xs: "tids (s_tdb m) xs" by (auto simp: tdb_part_def)
  obtain us td vs where td: "xs = us @ (p, td) # vs" "t_id td = tid" by (rule tdb_item_tids [OF xs t(1)])
  from tdb_del_tids [OF xs [unfolded td(1)]] obtain T where
    T: "tdb_del (s_tdb m) (Some p) = Some T" "hash_get (td_hash T) = (hash_get (td_hash (s_tdb m)))(tid := None)" by (auto simp: td(2))
  have at: "tid_at (s_tdb ?m2) (Some p) = Some td" using tid_at_tids [OF xs [unfolded td(1)]] by simp
  have "main_ok W (k + t_weight td) (?m2\<lparr>s_tdb := T\<rparr>)" using main_del_ok [OF m2(2) at] T(1) by auto
  from main_ok_mono [OF this] have okT: "main_ok W k (?m2\<lparr>s_tdb := T\<rparr>)" by simp
  have "p2p_parse W m (ben_enc_rec (pong_packet i tid) @ rest) (length (ben_enc_rec (pong_packet i tid))) from now =
      p2p_reply W ?m (Some (pong_packet i tid)) from"
    using parse_packet(2) [OF packet_limits(2) [OF i(1), of tid, unfolded pong_packet_def] _ f(1) e, of rest now]
      packet_size(2) [OF i(1), of tid] tid by (simp add: pong_packet_def chr_def del: ben_enc_rec.simps)
  also have "\<dots> = p2p_reply_done ?m2 (Some p)"
    using i not_me [OF i(1) _ i(2)] me nb(1) m2(1) tid t
    by (simp add: p2p_reply_def pong_packet_def chr_def Let_def ben_is_dict_def is_hash_str ben_str_s_def p2p_packet_from_myself_def)
  also have "\<dots> = Some (?m2\<lparr>s_tdb := T\<rparr>)" using t(2) T(1) by (simp add: p2p_reply_done_def)
  finally show ?thesis using okT T(2) n by (simp add: tdb_item_def)
qed

text \<open>A ping opens its transaction under the id it carries.\<close>

lemma tdb_put_item:
  assumes ok: "main_ok W (Suc k) m"
  shows "\<exists>m1 p tid. main_tdb_put m P2P_PING = Some (m1, Some p) \<and> main_ok W k m1 \<and> tdb_tid (s_tdb m1) (Some p) = Some tid \<and>
    length tid = TID_SIZE \<and> tdb_item (s_tdb m1) tid = Some p \<and> tdb_type (s_tdb m1) (Some p) = Some P2P_PING \<and>
    s_conf m1 = s_conf m \<and> s_sockfd m1 = s_sockfd m \<and> s_out m1 = s_out m"
proof -
  note D = main_okD [OF ok]
  from tdb_room [OF ok] obtain xs where xs: "tids (s_tdb m) xs" "int (weight xs + Suc k) < LONG_MAX" by blast
  let ?t = "new_tid (s_tdb m) P2P_PING (clock m) (s_rng m)"
  have "int (length xs) < LONG_MAX" using weight_length [of xs] xs(2) by linarith
  from tdb_put_tids [OF xs(1) this, of P2P_PING "clock m" "s_rng m"] obtain T p where
    T: "tdb_put (s_tdb m) P2P_PING (clock m) (s_rng m) = Some (T, Some p, snd (tdb_create_random_id (s_tdb m) (s_rng m)))"
      "tids T (xs @ (p, ?t) # [])" "hash_get (td_hash T) = (hash_get (td_hash (s_tdb m)))(t_id ?t \<mapsto> p)" by blast
  from main_tdb_put_ok [OF ok, of P2P_PING] T(1) have "main_ok W k (m\<lparr>s_tdb := T, s_rng := snd (tdb_create_random_id (s_tdb m) (s_rng m))\<rparr>)"
    by (auto simp: main_tdb_put_def)
  with T tid_access [OF T(2)] new_tid_ok(1) [OF D(2), of "s_tdb m" P2P_PING "clock m"] show ?thesis
    by (auto simp: main_tdb_put_def tdb_item_def) (simp_all add: new_tid_def)
qed

section \<open>The name of a query that is answered late\<close>

lemma reported_peers:
  assumes r: "cache_rep v cache ts" and a: "length a = IP_SIZE_META_PAIR v"
  shows "c_peers (reported now k [a] g ts) k \<noteq> []"
proof -
  from r have l: "length ts \<le> 50" by (auto simp: cache_rep_def)
  let ?f = "\<lambda>e. if fst e = k then (k, fst (noted now [a] (snd e) g)) else e"
  have ne: "fst (fst (noted now [a] c g)) \<noteq> [] \<and> nc_pair (hd (fst (fst (noted now [a] c g)))) = a" for c
    by (cases c) (simp add: noted1_def recent_def fresh_pair_def Let_def case_prod_beta)
  have "\<exists>c. map_of (reported now k [a] g ts) k = Some (fst (noted now [a] c g))"
  proof (cases "k \<in> fst ` set ts")
    case True
    then have "reported now k [a] g ts = map ?f ts" using l by (simp add: reported_def with_entry_def)
    moreover have "map_of (map ?f ts) k = map_option (\<lambda>c. fst (noted now [a] c g)) (map_of ts k)" by (induction ts) auto
    ultimately show ?thesis using True by (cases "map_of ts k") (auto simp: map_of_eq_None_iff)
  next
    case False
    then show ?thesis by (simp add: reported_def with_entry_def take_Cons' del: noted.simps) blast
  qed
  then obtain c where c: "map_of (reported now k [a] g ts) k = Some (fst (noted now [a] c g))" by blast
  have "a \<noteq> []" using a by (cases v) (auto simp: IP_SIZE_META_PAIR_def)
  with ne [of c] c show ?thesis
    by (cases "fst (noted now [a] c g)"; cases "fst (fst (noted now [a] c g))") (auto simp: c_peers_def simp del: noted.simps)
qed

text \<open>The answer of a peer to a search for a client ends in the DNS reply, with the names there are then.\<close>

lemma answer_replies:
  assumes ok: "main_ok W k m" and s: "searching m p target (Some (caller, msg))"
    and i: "length node_id = SHA1_SIZE" and tok: "length token \<le> TOKEN_SIZE_MAX" and f: "ip_ok (w_ver W) from"
    and a: "length a = IP_SIZE_META_PAIR (w_ver W)" and st: "\<not> cache_stale (w_ver W) (s_cache m) target [a] (clock m) (s_rng m)"
  shows "\<exists>m1 ns n. p2p_get_peers_get_values W m [BEN_STR a] node_id (Some p) token from =
      r_success W (search_names (Some p) msg) m1 caller msg ns \<and> ns \<noteq> [] \<and>
      length ns = n * IP_SIZE_META_PAIR (w_ver W) \<and> n \<le> 8"
proof -
  from s obtain t l where at: "tid_at (s_tdb m) (Some p) = Some t" and
    l: "t_lookup t = Some l" "lk_target l = target" "lk_caller l = Some (caller, msg)" "lk_responses l = 0"
    by (auto simp: searching_def split: option.splits)
  note S = search_of_tid [OF ok at l(1)]
  from ldb_update_ok [OF S(1) i f tok] obtain M where
    u: "ldb_update l node_id token from = Some (l\<lparr>lk_mem := M\<rparr>)" "ldb_ok (w_ver W) (l\<lparr>lk_mem := M\<rparr>)" by blast
  let ?l = "l\<lparr>lk_mem := M\<rparr>"
  from main_link_ok [OF ok at u(2)] obtain T where
    T: "tdb_link_ldb (s_tdb m) (Some p) (Some ?l) = Some T" "main_ok W k (m\<lparr>s_tdb := T\<rparr>)" "tid_at T (Some p) = Some (t\<lparr>t_lookup := Some ?l\<rparr>)" by blast
  have "ldb_ok (w_ver W) (?l\<lparr>lk_responses := 1\<rparr>)" using u(2) by (simp add: ldb_ok_def ldb_dist_def [abs_def])
  from main_link_ok [OF T(2) _ this, of p] T(3) obtain T2 where
    T2: "tdb_link_ldb T (Some p) (Some (?l\<lparr>lk_responses := 1\<rparr>)) = Some T2" by auto
  have ne: "a \<noteq> []" using a by (cases "w_ver W") (auto simp: IP_SIZE_META_PAIR_def)
  have col: "collect_values (IP_SIZE_META_PAIR (w_ver W)) 8 [BEN_STR a] = Some a" using a by (simp add: numeral_eq_Suc)
  have tgt: "length target = SHA1_SIZE" using ldb_okD(1) [OF S(1)] l(2) by simp
  from main_okD(4) [OF ok] obtain ts where ts: "cache_rep (w_ver W) (s_cache m) ts" by blast
  let ?r = "reported (clock m) target [a] (s_rng m) ts"
  from cache_put_ok [OF ts tgt, of "[a]" "clock m" "s_rng m"] a st obtain c g where
    c: "cache_put (w_ver W) (s_cache m) target a (clock m) (s_rng m) = Some (c, g)" "cache_rep (w_ver W) c ?r" by auto
  from cache_compact_list_ok [OF c(2) tgt, of "clock m"] obtain c2 where
    c2: "cache_compact_list c target (clock m) = Some (c2, c_peers ?r target)" "cache_rep (w_ver W) c2 (c_used (clock m) target ?r)" by blast
  note peers = reported_peers [OF ts a, of "clock m" target "s_rng m"]
  from c_peers_split [OF c(2), of target] obtain ps where
    ps: "c_peers ?r target = concat ps" "length ps \<le> 8" "\<forall>p \<in> set ps. length p = IP_SIZE_META_PAIR (w_ver W)" by blast
  have len: "length (c_peers ?r target) = length ps * IP_SIZE_META_PAIR (w_ver W)" unfolding ps(1) by (rule concat_length [OF ps(3)])
  let ?m = "m\<lparr>s_tdb := T2, s_cache := c2, s_rng := g\<rparr>"
  have "p2p_get_peers_get_values W m [BEN_STR a] node_id (Some p) token from = r_success W (search_names (Some p) msg) ?m caller msg (c_peers ?r target)"
    using S(3) u(1) T(1) T2(1) l ne col c(1) c2(1) peers by (simp add: p2p_get_peers_get_values_def Let_def ldb_number_of_dns_responses_def)
  with peers len ps(2) show ?thesis by blast
qed

lemma reply_question: "p_reply_msg v names msg ns = Some msg' \<Longrightarrow> question msg' = question msg"
  by (auto simp: p_reply_msg_def p_prepare_msg_def Let_def split: bind_splits if_splits)

lemma reply_dead:
  assumes "name_at names (qName (question msg)) = None" and "ns \<noteq> []"
  shows "r_success W names m from msg ns = None"
proof (cases "p_reply_msg (w_ver W) names msg ns")
  case (Some msg')
  with assms reply_question [OF Some] show ?thesis by (simp add: r_success_def p_encode_response_def)
qed (use assms in \<open>simp add: r_success_def\<close>)

lemma late_answer:
  assumes "main_ok W k m" and "searching m p target (Some (caller, msg))"
    and "length node_id = SHA1_SIZE" and "length token \<le> TOKEN_SIZE_MAX" and "ip_ok (w_ver W) from"
    and "length a = IP_SIZE_META_PAIR (w_ver W)" and "\<not> cache_stale (w_ver W) (s_cache m) target [a] (clock m) (s_rng m)"
    and nm: "length (cstr (qName_buffer msg)) \<le> 42"
  shows "p2p_get_peers_get_values W m [BEN_STR a] node_id (Some p) token from = None \<longleftrightarrow> fst (qName (question msg)) \<noteq> Search p"
proof -
  from answer_replies [OF assms(1-7)] obtain m1 ns n where
    r: "p2p_get_peers_get_values W m [BEN_STR a] node_id (Some p) token from = r_success W (search_names (Some p) msg) m1 caller msg ns"
      "ns \<noteq> []" "length ns = n * IP_SIZE_META_PAIR (w_ver W)" "n \<le> 8" by blast
  show ?thesis
  proof (cases "fst (qName (question msg)) = Search p")
    case True
    let ?nm = "drop (snd (qName (question msg))) (cstr (qName_buffer msg))"
    have "name_at (search_names (Some p) msg) (qName (question msg)) = Some ?nm" "length ?nm \<le> 42"
      using True nm by (simp_all add: name_at_def search_names_def)
    moreover have "0 < n" using r(2,3) by (cases n) simp_all
    ultimately have "\<exists>m'. r_success W (search_names (Some p) msg) m1 caller msg ns = Some m'"
      using reply_fits [OF r(3) _ r(4), where names = "search_names (Some p) msg" and msg = msg] r(2) by (fastforce simp: r_success_def)
    with True r(1) show ?thesis by auto
  next
    case False
    then have "name_at (search_names (Some p) msg) (qName (question msg)) = None" by (simp add: name_at_def search_names_def)
    from reply_dead [OF this r(2)] False r(1) show ?thesis by simp
  qed
qed

text \<open>The message with its name in the buffer of the copy that lies in the search of \<open>p\<close>.\<close>

definition own_name :: "ptr \<Rightarrow> DNS_MSG \<Rightarrow> DNS_MSG" where
  "own_name p msg = msg\<lparr>question := (question msg)\<lparr>qName := (Search p, 0)\<rparr>\<rparr>"

lemma own_name_at: "fst (qName (question (own_name p msg))) = Search p" "qName_buffer (own_name p msg) = qName_buffer msg"
  by (simp_all add: own_name_def)

lemma own_name_neq: "fst (qName (question msg)) = Frame self \<Longrightarrow> own_name p msg \<noteq> msg"
  using own_name_at(1) [of p msg] by auto

lemma ex_query_decoded:
  "\<exists>msg. p_decode_query (Frame 0) ex_msg (ex_query @ [0]) (length ex_query) = Some (1, msg) \<and> qName_buffer msg = [97, 0]"
proof -
  have "case p_decode_query (Frame 0) ex_msg (ex_query @ [0]) (length ex_query) of None \<Rightarrow> False | Some (r, msg) \<Rightarrow> r = 1 \<and> qName_buffer msg = [97, 0]"
    by code_simp
  then show ?thesis by (auto split: option.splits)
qed

end
