(* ===== verification/Dht.thy ===== *)
theory Dht
  imports Protocol
begin

text \<open>
  What the network is for: a node announces its address under a target to another node, and whoever asks that node for the
  target is told the address.  The datagrams are the ones the nodes really build with \<open>send_announce_request\<close> and
  \<open>send_get_peers_request\<close>.
\<close>

section \<open>Requests\<close>

definition query_packet :: "string \<Rightarrow> (bytes \<times> BEN) list \<Rightarrow> bytes \<Rightarrow> BEN" where
  "query_packet q args tid = BEN_DICT [(lit ''a'', BEN_DICT args), (lit ''q'', BEN_STR (lit q)), (lit ''t'', BEN_STR tid), (lit ''y'', BEN_STR (lit ''q''))]"

definition announce_args :: "bytes \<Rightarrow> bytes \<Rightarrow> nat \<Rightarrow> bytes \<Rightarrow> (bytes \<times> BEN) list" where
  "announce_args i target port token = [(lit ''id'', BEN_STR i), (lit ''info_hash'', BEN_STR target), (lit ''port'', BEN_INT (int port)),
     (lit ''token'', BEN_STR token)]"

definition peers_args :: "bytes \<Rightarrow> bytes \<Rightarrow> (bytes \<times> BEN) list" where
  "peers_args i target = [(lit ''id'', BEN_STR i), (lit ''info_hash'', BEN_STR target)]"

definition values_packet :: "bytes \<Rightarrow> bytes \<Rightarrow> bytes list \<Rightarrow> bytes \<Rightarrow> BEN" where
  "values_packet i token ps tid = BEN_DICT [(lit ''r'', BEN_DICT [(lit ''id'', BEN_STR i), (lit ''token'', BEN_STR token),
     (lit ''values'', BEN_LIST (map BEN_STR ps))]), (lit ''t'', BEN_STR tid), (lit ''y'', BEN_STR (lit ''r''))]"

lemma send_announce_out:
  assumes "plain W m" and "length (me m) = SHA1_SIZE" and "length tid = TID_SIZE" and "length target = SHA1_SIZE"
  shows "send_announce_request W m sa tid target token (length token) =
    Some (m\<lparr>s_out := s_out m @ [(sa, ben_enc_rec (query_packet ''announce_peer'' (announce_args (me m) target (c_announce_port (s_conf m)) token) tid))]\<rparr>)"
  using assms by (auto simp: plain_def send_announce_request_def send_dict_def ben_build ben_enc_Some send_udp_def query_packet_def announce_args_def)

lemma send_peers_out:
  assumes "plain W m" and "length (me m) = SHA1_SIZE" and "length tid = TID_SIZE" and "length target = SHA1_SIZE"
  shows "send_get_peers_request W m sa target tid =
    Some (m\<lparr>s_out := s_out m @ [(sa, ben_enc_rec (query_packet ''get_peers'' (peers_args (me m) target) tid))]\<rparr>)"
  using assms by (auto simp: plain_def send_get_peers_request_def send_dict_def ben_build ben_enc_Some send_udp_def query_packet_def peers_args_def)

lemma args_limits:
  assumes "length i = SHA1_SIZE" and "length target = SHA1_SIZE" and "length tid = TID_SIZE" and "port \<le> 65535" and "length token \<le> 1000"
  shows "in_limits (query_packet ''announce_peer'' (announce_args i target port token) tid)"
    "in_limits (query_packet ''get_peers'' (peers_args i target) tid)"
  using assms by (simp_all add: in_limits_def query_packet_def announce_args_def peers_args_def lit_def)

lemma port_digits: "p \<le> 65535 \<Longrightarrow> int (length (long_digits (int p))) \<le> 19"
  using long_digits_len [of "int p"] by (simp add: long_digits_def)

lemma args_size:
  assumes "length i = SHA1_SIZE" and "length target = SHA1_SIZE" and "length tid = TID_SIZE" and "port \<le> 65535" and "length token \<le> 1000"
  shows "int (length (ben_enc_rec (query_packet ''announce_peer'' (announce_args i target port token) tid))) < LONG_MAX"
    "int (length (ben_enc_rec (query_packet ''get_peers'' (peers_args i target) tid))) < LONG_MAX"
  using assms digits_size [of 1] digits_size [of 2] digits_size [of 4] digits_size [of 5] digits_size [of 9] digits_size [of 13] digits_size [of 20]
    digits_size [of "int (length token)"] port_digits [OF assms(4)]
  by (simp_all add: query_packet_def announce_args_def peers_args_def lit_def)

text \<open>A request is handled after its sender was stored.\<close>

lemma query_handled:
  assumes ok: "main_ok W (Suc k) m" and p: "plain W m" and f: "\<not> ip_is_linklocal (w_ver W) from" "ip_ok (w_ver W) from"
    and i: "length i = SHA1_SIZE" "i \<noteq> me m" and tid: "length tid \<le> TID_SIZE_MAX"
    and args: "ben_dict_search_str (Some (BEN_DICT args)) ''id'' = Some (BEN_STR i)"
    and lim: "in_limits (query_packet q args tid)" "int (length (ben_enc_rec (query_packet q args tid))) < LONG_MAX"
  shows "\<exists>nb. main_ok W k (m\<lparr>s_p2p := (s_p2p m)\<lparr>pt_now := now\<rparr>, s_nbhd := nb\<rparr>) \<and>
    p2p_parse W m (ben_enc_rec (query_packet q args tid) @ rest) (length (ben_enc_rec (query_packet q args tid))) from now =
    (let m' = m\<lparr>s_p2p := (s_p2p m)\<lparr>pt_now := now\<rparr>, s_nbhd := nb\<rparr>; a = Some (BEN_DICT args) in
     if lit q = lit ''ping'' then p2p_ping W m' tid from
     else if lit q = lit ''find_node'' then p2p_find_node_get_request W m' a tid from
     else if lit q = lit ''get_peers'' then p2p_get_peers_get_request W m' a tid from
     else if lit q = lit ''announce_peer'' then p2p_announce_get_request W m' a i tid from
     else Some m')"
proof -
  let ?m = "m\<lparr>s_p2p := (s_p2p m)\<lparr>pt_now := now\<rparr>\<rparr>" and ?x = "query_packet q args tid"
  have okm: "main_ok W (Suc k) ?m" using ok by (simp only: main_ok_clock)
  note me = main_okD(1) [OF okm]
  from main_nbhd_put_ok [OF okm i(1) f(2)] obtain nb where
    nb: "main_nbhd_put W ?m i from = Some (?m\<lparr>s_nbhd := nb\<rparr>)" "main_ok W k (?m\<lparr>s_nbhd := nb\<rparr>)" by blast
  have e: "\<not> encrypted W (s_conf m) from" using p by (auto simp: plain_def encrypted_def)
  have s: "ben_dict_search_str (Some ?x) ''y'' = Some (BEN_STR (lit ''q''))" "ben_dict_search_str (Some ?x) ''q'' = Some (BEN_STR (lit q))"
    "ben_dict_search_str (Some ?x) ''a'' = Some (BEN_DICT args)" "ben_dict_search_str (Some ?x) ''t'' = Some (BEN_STR tid)"
    by (simp_all add: query_packet_def chr_def)
  have "p2p_parse W m (ben_enc_rec ?x @ rest) (length (ben_enc_rec ?x)) from now = p2p_request W ?m (Some ?x) from"
    using parse_packet(1) [OF lim [unfolded query_packet_def] f(1) e, of rest now] s(1) by (simp only: query_packet_def)
  moreover have "\<not> p2p_packet_from_myself ?m i" using not_me [OF i(1) _ i(2)] me by (simp add: p2p_packet_from_myself_def)
  ultimately show ?thesis using nb tid i(1) args s
    by (intro exI [of _ nb]) (simp add: p2p_request_def Let_def ben_is_str_def ben_is_dict_def is_hash_str ben_str_s_def del: lit_Cons)
qed

section \<open>Announcing and asking\<close>

text \<open>The table of \<open>b\<close> keeps the target: it has it already, or there is a place left.\<close>

definition has_place :: "bytes \<Rightarrow> entry list \<Rightarrow> bool" where
  "has_place target ts \<longleftrightarrow> target \<in> fst ` set ts \<or> length ts < 50"

lemma place_kept:
  assumes "has_place target ts"
  shows "target \<in> fst ` set (with_target my_id target ts)"
proof (cases "target \<in> fst ` set ts")
  case False
  have "length (takeWhile near ts) + length (dropWhile near ts) = length ts" for near :: "entry \<Rightarrow> bool"
    by (metis length_append takeWhile_dropWhile_id)
  with False assms have "length (ins_sorted my_id target ts) \<le> 50" by (simp add: has_place_def ins_sorted_def Let_def)
  then show ?thesis using False by (simp add: with_target_def ins_sorted_def Let_def)
qed (simp add: with_target_def)

lemma announced_first:
  assumes "has_place target ts"
  shows "\<exists>ns. map_of (announce my_id target n ts) target = Some (n # ns)"
proof -
  let ?ts = "with_target my_id target ts" and ?f = "\<lambda>e. if fst e = target then (target, announced n (snd e)) else e"
  have "map_of (map ?f us) target = map_option (announced n) (map_of us target)" for us by (induction us) auto
  moreover obtain ns where "map_of ?ts target = Some ns"
    using place_kept [OF assms, of my_id] by (cases "map_of ?ts target") (auto simp: map_of_eq_None_iff)
  ultimately show ?thesis by (simp add: announce_def announced_def take_Cons')
qed

lemma announce_accepted:
  assumes ok: "main_ok W k m" and p: "plain W m" and ts: "val_rep (w_ver W) (me m) (s_value m) ts" and place: "has_place target ts"
    and i: "length i = SHA1_SIZE" "length target = SHA1_SIZE" and stale: "\<not> val_stale (s_value m) target i"
    and tok: "length token = TOKEN_SIZE" "tkn_validate (s_token m) token" and port: "1 \<le> port" "port \<le> 65535" and f: "ip_ok (w_ver W) from"
  shows "\<exists>val. p2p_announce_get_request W m (Some (BEN_DICT (announce_args i target port token))) i tid from =
      Some (m\<lparr>s_value := val, s_out := s_out m @ [(ip_merge_port_to_sin from (of_nat port), ben_enc_rec (pong_packet (me m) tid))]\<rparr>) \<and>
    val_rep (w_ver W) (me m) val (announce (me m) target (fresh_node i from (int port) (clock m)) ts) \<and>
    main_ok W k (m\<lparr>s_value := val\<rparr>)"
proof -
  note me = main_okD(1) [OF ok]
  from val_put_ok [OF ts i(2) me i(1) f, of "w_verbose W" "int port" "clock m"] stale place_kept [OF place] obtain val where
    v: "val_put (w_verbose W) (me m) (s_value m) target i (int port) from (clock m) = Some (val, ip_merge_port_to_sin from (of_nat port))"
      "val_rep (w_ver W) (me m) val (announce (me m) target (fresh_node i from (int port) (clock m)) ts)" by auto
  have key: "token_key token = Some token" using tok(1) by (simp add: token_key_def)
  have "send_announce_reply W (m\<lparr>s_value := val\<rparr>) sa tid (length tid) =
      Some (m\<lparr>s_value := val, s_out := s_out m @ [(sa, ben_enc_rec (pong_packet (me m) tid))]\<rparr>)" for sa
    using send_pong_out [of W "m\<lparr>s_value := val\<rparr>" sa tid] p me by (simp add: send_announce_reply_def send_pong_def plain_def)
  then have "p2p_announce_get_request W m (Some (BEN_DICT (announce_args i target port token))) i tid from =
      Some (m\<lparr>s_value := val, s_out := s_out m @ [(ip_merge_port_to_sin from (of_nat port), ben_enc_rec (pong_packet (me m) tid))]\<rparr>)"
    using key tok port v(1) i(2)
    by (simp add: p2p_announce_get_request_def announce_args_def is_hash_str ben_str_s_def chr_def)
  with v(2) main_ok_value [OF ok v(2)] show ?thesis by blast
qed

lemma send_values_out:
  assumes p: "plain W m" and me: "length (me m) = SHA1_SIZE" and tok: "tkn_read (s_token m) = Some token" "length token = TOKEN_SIZE"
    and ps: "\<forall>x \<in> set ps. length x = IP_SIZE_META_PAIR (w_ver W)" "length ps \<le> 8"
  shows "send_get_peers_values W m sa (concat ps) tid (length tid) =
    Some (m\<lparr>s_out := s_out m @ [(sa, ben_enc_rec (values_packet (me m) token ps tid))]\<rparr>)"
proof -
  have "pairs_of (IP_SIZE_META_PAIR (w_ver W)) (concat ps) = Some ps" using ps(1)
  proof (induction ps)
    case (Cons x ps)
    then have "x \<noteq> []" "length x = IP_SIZE_META_PAIR (w_ver W)" using META_PAIR_pos [of "w_ver W"] by auto
    then show ?case using Cons META_PAIR_pos [of "w_ver W"] by (subst pairs_of.simps) simp
  qed (simp add: pairs_of.simps)
  moreover have "ben_list_add (BEN_LIST []) (map (\<lambda>p. ben_str p (IP_SIZE_META_PAIR (w_ver W))) ps) = Some (BEN_LIST (map BEN_STR ps))"
    using ben_list_add_strs [OF ps(1), of "[]"] ps(2) by simp
  ultimately show ?thesis using p me tok
    by (auto simp: plain_def send_get_peers_values_def send_dict_def ben_build ben_enc_Some send_udp_def values_packet_def)
qed

lemma peers_told:
  assumes ok: "main_ok W k m" and p: "plain W m" and ts: "val_rep (w_ver W) (me m) (s_value m) ts"
    and ns: "map_of ts target = Some ns" "ns \<noteq> []" and i: "length target = SHA1_SIZE"
  shows "\<exists>val token. tkn_read (s_token m) = Some token \<and>
    p2p_get_peers_get_request W m (Some (BEN_DICT (peers_args i target))) tid from =
      Some (m\<lparr>s_value := val, s_out := s_out m @ [(from, ben_enc_rec (values_packet (me m) token (map nv_pair (take 8 ns)) tid))]\<rparr>)"
proof -
  let ?ps = "map nv_pair (take 8 ns)"
  from val_compact_list_ok [OF ts i] obtain val where v: "val_compact_list (s_value m) target = Some (val, peers ts target)" by blast
  have ps: "\<forall>x \<in> set ?ps. length x = IP_SIZE_META_PAIR (w_ver W)" "length ?ps \<le> 8"
    using val_rep_pairs [OF ts map_of_SomeD [OF ns(1)]] by (auto dest: in_set_takeD)
  have c: "peers ts target = concat ?ps" by (simp add: peers_def ns(1))
  have "?ps \<noteq> []" using ns(2) by simp
  then obtain x xs where "?ps = x # xs" by (cases ?ps) auto
  then have ne: "concat ?ps \<noteq> []" using ps(1) META_PAIR_pos [of "w_ver W"] by auto
  from main_tkn_read [OF ok] obtain token where t: "tkn_read (s_token m) = Some token" "length token = TOKEN_SIZE" by blast
  from send_values_out [of W "m\<lparr>s_value := val\<rparr>" token ?ps "from" tid] p main_okD(1) [OF ok] t ps
  have "send_get_peers_values W (m\<lparr>s_value := val\<rparr>) from (concat ?ps) tid (length tid) =
      Some (m\<lparr>s_value := val, s_out := s_out m @ [(from, ben_enc_rec (values_packet (me m) token ?ps tid))]\<rparr>)" by (simp add: plain_def)
  then show ?thesis using t(1) v c ne i
    by (intro exI [of _ val] exI [of _ token]) (simp add: p2p_get_peers_get_request_def peers_args_def is_hash_str ben_str_s_def chr_def)
qed

text \<open>Both handlers, from the datagram on.\<close>

lemma announce_parsed:
  assumes "main_ok W (Suc k) b" and "plain W b"
    and "val_rep (w_ver W) (me b) (s_value b) ts" and "has_place target ts" and "\<not> val_stale (s_value b) target i"
    and "length i = SHA1_SIZE" and "i \<noteq> me b" and "length target = SHA1_SIZE"
    and "length token = TOKEN_SIZE" and "tkn_validate (s_token b) token" and "1 \<le> port" and "port \<le> 65535"
    and "ip_ok (w_ver W) from" and "\<not> ip_is_linklocal (w_ver W) from" and "length tid = TID_SIZE"
  shows "\<exists>b1. p2p_parse W b (ben_enc_rec (query_packet ''announce_peer'' (announce_args i target port token) tid) @ rest)
      (length (ben_enc_rec (query_packet ''announce_peer'' (announce_args i target port token) tid))) from now = Some b1 \<and>
    main_ok W k b1 \<and> s_conf b1 = s_conf b \<and> s_sockfd b1 = s_sockfd b \<and> s_token b1 = s_token b \<and>
    s_out b1 = s_out b @ [(ip_merge_port_to_sin from (of_nat port), ben_enc_rec (pong_packet (me b) tid))] \<and>
    val_rep (w_ver W) (me b) (s_value b1) (announce (me b) target (fresh_node i from (int port) now) ts)"
proof -
  let ?x = "ben_enc_rec (query_packet ''announce_peer'' (announce_args i target port token) tid)"
  have l: "length token \<le> 1000" "length tid \<le> TID_SIZE_MAX" using assms(9,15) by simp_all
  from query_handled [OF assms(1,2,14,13,6,7) l(2) _ args_limits(1) [OF assms(6,8,15,12) l(1)] args_size(1) [OF assms(6,8,15,12) l(1)],
      where rest = rest and now = now]
  obtain nb where nb: "main_ok W k (b\<lparr>s_p2p := (s_p2p b)\<lparr>pt_now := now\<rparr>, s_nbhd := nb\<rparr>)"
    "p2p_parse W b (?x @ rest) (length ?x) from now = p2p_announce_get_request W (b\<lparr>s_p2p := (s_p2p b)\<lparr>pt_now := now\<rparr>, s_nbhd := nb\<rparr>)
       (Some (BEN_DICT (announce_args i target port token))) i tid from"
    by (auto simp: announce_args_def chr_def Let_def simp del: ben_enc_rec.simps)
  let ?b = "b\<lparr>s_p2p := (s_p2p b)\<lparr>pt_now := now\<rparr>, s_nbhd := nb\<rparr>"
  have "plain W ?b" using assms(2) by (simp add: plain_def)
  from announce_accepted [OF nb(1) this, of ts target i token port "from" tid] assms obtain val where
    "p2p_parse W b (?x @ rest) (length ?x) from now = Some (?b\<lparr>s_value := val,
       s_out := s_out b @ [(ip_merge_port_to_sin from (of_nat port), ben_enc_rec (pong_packet (me b) tid))]\<rparr>)"
    "val_rep (w_ver W) (me b) val (announce (me b) target (fresh_node i from (int port) now) ts)" "main_ok W k (?b\<lparr>s_value := val\<rparr>)" unfolding nb(2) by auto
  then show ?thesis by (simp add: main_ok_def)
qed

lemma peers_parsed:
  assumes "main_ok W (Suc k) b" and "plain W b" and "val_rep (w_ver W) (me b) (s_value b) ts" and "map_of ts target = Some ns" and "ns \<noteq> []"
    and "length i = SHA1_SIZE" and "i \<noteq> me b" and "length target = SHA1_SIZE"
    and "ip_ok (w_ver W) from" and "\<not> ip_is_linklocal (w_ver W) from" and "length tid = TID_SIZE"
  shows "\<exists>b2 tok. p2p_parse W b (ben_enc_rec (query_packet ''get_peers'' (peers_args i target) tid) @ rest)
      (length (ben_enc_rec (query_packet ''get_peers'' (peers_args i target) tid))) from now = Some b2 \<and> tkn_read (s_token b) = Some tok \<and>
    s_out b2 = s_out b @ [(from, ben_enc_rec (values_packet (me b) tok (map nv_pair (take 8 ns)) tid))]"
proof -
  let ?y = "ben_enc_rec (query_packet ''get_peers'' (peers_args i target) tid)"
  have l: "length ([] :: bytes) \<le> 1000" "length tid \<le> TID_SIZE_MAX" using assms(11) by simp_all
  from query_handled [OF assms(1,2,10,9,6,7) l(2) _ args_limits(2) [OF assms(6,8,11) le_refl l(1)] args_size(2) [OF assms(6,8,11) le_refl l(1)],
      where rest = rest and now = now]
  obtain nb where nb: "main_ok W k (b\<lparr>s_p2p := (s_p2p b)\<lparr>pt_now := now\<rparr>, s_nbhd := nb\<rparr>)"
    "p2p_parse W b (?y @ rest) (length ?y) from now = p2p_get_peers_get_request W (b\<lparr>s_p2p := (s_p2p b)\<lparr>pt_now := now\<rparr>, s_nbhd := nb\<rparr>)
       (Some (BEN_DICT (peers_args i target))) tid from"
    by (auto simp: peers_args_def chr_def Let_def simp del: ben_enc_rec.simps)
  let ?b = "b\<lparr>s_p2p := (s_p2p b)\<lparr>pt_now := now\<rparr>, s_nbhd := nb\<rparr>"
  have "plain W ?b" using assms(2) by (simp add: plain_def)
  from peers_told [OF nb(1) this _ assms(4,5,8), of i tid "from"] assms(3) show ?thesis unfolding nb(2) by auto
qed

text \<open>The first token is accepted.\<close>

lemma start_token:
  assumes "daemon_start W conf ids sockfd dns_sockfd now g = Some m" and "rng_ok g"
  shows "\<exists>token. length token = TOKEN_SIZE \<and> tkn_validate (s_token m) token"
proof -
  from tkn_put_tokens [OF tokens_init, of now g] obtain T where
    T: "tkn_put tkn_init now g = Some (T, snd (tkn_create tkn_init g))"
      "hash_get (tk_hash T) = (hash_get (tk_hash tkn_init))(fst (tkn_create tkn_init g) \<mapsto> l_brk (tk_list tkn_init))" by auto
  have "length (fst (tkn_create tkn_init g)) = TOKEN_SIZE"
    using create_loop_length [OF assms(2), of TOKEN_SIZE "tk_hash tkn_init" 999] by (simp add: tkn_create_def)
  moreover have "s_token m = T" using assms(1) T(1) by (auto simp: daemon_start_def udp_multicast_def split: if_splits)
  ultimately show ?thesis using T(2) by (auto simp: tkn_validate_def)
qed

end
