(* ===== verification/Client.thy ===== *)
theory Client
  imports Dns
begin

text \<open>
  The other side of the DNS front end: the resolver of \<^verbatim>\<open>src/src/dns/client.c\<close> that asks the daemon, and the
  name service module of \<^verbatim>\<open>src/src/nss/nss.c\<close> that hands its answers to the C library.  The network is a function from the query to the
  answer, \<open>None\<close> when nothing arrives in time.  The buffer of 65536 bytes is on the stack; what it holds before is a
  parameter.  \<open>None\<close> means that memory is accessed out of bounds, or that a loop does not end.
\<close>

section \<open>Writing names\<close>

text \<open>The loop over the host name: \<open>lock\<close> is the label read so far.\<close>

fun dns_labels :: "bytes \<Rightarrow> bytes \<Rightarrow> bytes" where
  "dns_labels lock [] = []"
| "dns_labels lock (c # host) =
     (if c = 46 then of_nat (length lock) # lock @ dns_labels [] host else dns_labels (lock @ [c]) host)"

text \<open>\<open>strcat\<close> appends a dot to the string of the caller: \<open>room\<close> is what the caller's array has left behind the string.\<close>

definition ChangetoDnsNameFormat :: "nat \<Rightarrow> bytes \<Rightarrow> bytes option" where
  "ChangetoDnsNameFormat room host =
     (if room = 0 then None else Some (dns_labels [] (host @ [46]) @ [0]))"

section \<open>Reading names\<close>

text \<open>The first loop of \<open>ReadName\<close>: it follows compression pointers wherever they lead.  The name has 256 bytes.\<close>

partial_function (option) read_loop :: "bytes \<Rightarrow> nat \<Rightarrow> bytes \<Rightarrow> bool \<Rightarrow> nat \<Rightarrow> (bytes \<times> bool \<times> nat) option" where
  "read_loop buf reader name jumped count =
     (case byte_at buf reader of None \<Rightarrow> None
      | Some c \<Rightarrow>
        if c = 0 then Some (name, jumped, count)
        else if c \<ge> 192 then
          (case byte_at buf (reader + 1) of None \<Rightarrow> None
           | Some d \<Rightarrow> read_loop buf (unat c * 256 + unat d - 49152) name True count)
        else if 256 \<le> length name then None
        else read_loop buf (reader + 1) (name @ [c]) jumped (if jumped then count else count + 1))"

text \<open>The second loop turns the lengths into dots, in place.  \<open>shift_label\<close> is its inner loop.\<close>

fun shift_label :: "nat \<Rightarrow> bytes \<Rightarrow> nat \<Rightarrow> (bytes \<times> nat) option" where
  "shift_label 0 name i = Some (name, i)"
| "shift_label (Suc j) name i =
     (if length name \<le> i + 1 then None else shift_label j (name[i := name ! (i + 1)]) (i + 1))"

lemma shift_label_mono: "shift_label j name i = Some (name', i') \<Longrightarrow> i' = i + j \<and> length name' = length name"
  by (induction j name i rule: shift_label.induct) (auto split: if_splits)

function dots_loop :: "bytes \<Rightarrow> nat \<Rightarrow> (bytes \<times> nat) option" where
  "dots_loop name i =
     (if 0 \<notin> set name then None
      else if i \<ge> length (cstr name) then Some (name, i)
      else case shift_label (unat (name ! i)) name i of None \<Rightarrow> None
        | Some (name', i') \<Rightarrow>
            if length name' \<le> i' then None else dots_loop (name'[i' := 46]) (i' + 1))"
  by pat_completeness auto
termination
proof (relation "measure (\<lambda>(name, i). length name - i)", goal_cases)
  case (2 name i p name' i')
  then show ?case using shift_label_mono [of "unat (name ! i)" name i name' i'] by auto
qed simp

declare dots_loop.simps [simp del]

text \<open>The last dot is removed at \<open>i - 1\<close>, which is before the name when it is empty.  Only the number of bytes is used.\<close>

definition ReadName :: "bytes \<Rightarrow> nat \<Rightarrow> nat option" where
  "ReadName buf reader = do {
     (name, jumped, count) \<leftarrow> read_loop buf reader [] False 1;
     if 256 \<le> length name then None
     else do {
       (name', i) \<leftarrow> dots_loop (name @ replicate (256 - length name) 0) 0;
       if i = 0 then None else Some (if jumped then count + 1 else count)
     }
   }"

section \<open>One query\<close>

definition put_at :: "bytes \<Rightarrow> nat \<Rightarrow> bytes \<Rightarrow> bytes option" where
  "put_at buf p xs = (if p + length xs \<le> length buf then Some (take p buf @ xs @ drop (p + length xs) buf) else None)"

text \<open>Header: recursion is desired, one question.\<close>

definition query_header :: "USHORT \<Rightarrow> bytes" where
  "query_header pid = p_put16bits pid @ [1, 0] @ p_put16bits 1 @ p_put16bits 0 @ p_put16bits 0 @ p_put16bits 0"

definition strlen_at :: "bytes \<Rightarrow> nat \<Rightarrow> nat option" where
  "strlen_at buf p = (if 0 \<in> set (drop p buf) then Some (length (cstr (drop p buf))) else None)"

text \<open>The records of an answer, \<open>k\<close> of them: their addresses, or the inner \<open>None\<close> when one is not an address of the right
  kind.\<close>

definition record_type :: "ipver \<Rightarrow> USHORT" where
  "record_type v = (case v of IPV6 \<Rightarrow> AAAA_Resource_RecordType | IPV4 \<Rightarrow> A_Resource_RecordType)"

fun read_answers :: "ipver \<Rightarrow> bytes \<Rightarrow> nat \<Rightarrow> nat \<Rightarrow> bytes list option option" where
  "read_answers v buf 0 reader = Some (Some [])"
| "read_answers v buf (Suc k) reader = do {
     stop \<leftarrow> ReadName buf reader;
     let resource = reader + stop;
     (data_len, _) \<leftarrow> p_get16bits buf (resource + 8);
     (type, _) \<leftarrow> p_get16bits buf resource;
     if unat data_len \<noteq> IP_SIZE v then Some None
     else if type \<noteq> record_type v then Some None
     else if length buf < resource + 10 + IP_SIZE v then None
     else do {
       rest \<leftarrow> read_answers v buf k (resource + 10 + IP_SIZE v);
       Some (map_option ((#) (take (IP_SIZE v) (drop (resource + 10) buf))) rest)
     }
   }"

definition read_reply :: "ipver \<Rightarrow> bytes \<Rightarrow> bytes list option" where
  "read_reply v buf = do {
     (q_count, _) \<leftarrow> p_get16bits buf 4;
     (ans_count, _) \<leftarrow> p_get16bits buf 6;
     (auth_count, _) \<leftarrow> p_get16bits buf 8;
     (add_count, _) \<leftarrow> p_get16bits buf 10;
     if q_count \<noteq> 1 then Some []
     else if unat ans_count < 1 \<or> unat ans_count > 8 then Some []
     else if auth_count \<noteq> 0 then Some []
     else if add_count \<noteq> 0 then Some []
     else do {
       l \<leftarrow> strlen_at buf 12;
       r \<leftarrow> read_answers v buf (unat ans_count) (12 + l + 1 + 4);
       Some (case r of None \<Rightarrow> [] | Some as \<Rightarrow> as)
     }
   }"

text \<open>The result is the list of the addresses that were copied; no address for the return value zero.\<close>

definition ngethostbyname ::
    "ipver \<Rightarrow> USHORT \<Rightarrow> bytes \<Rightarrow> (bytes \<Rightarrow> bytes option) \<Rightarrow> nat \<Rightarrow> bytes \<Rightarrow> bytes list option" where
  "ngethostbyname v pid stack net room host = do {
     buf \<leftarrow> put_at stack 0 (query_header pid);
     qname \<leftarrow> ChangetoDnsNameFormat room host;
     buf \<leftarrow> put_at buf 12 qname;
     l \<leftarrow> strlen_at buf 12;
     buf \<leftarrow> put_at buf (12 + l + 1) (p_put16bits (record_type v) @ p_put16bits 1);
     case net (take (12 + l + 1 + 4) buf) of None \<Rightarrow> Some []
     | Some reply \<Rightarrow> do {
         buf \<leftarrow> put_at buf 0 (take 65536 reply);
         read_reply v buf
       }
   }"

section \<open>The name service module\<close>

datatype nss_status = NSS_STATUS_TRYAGAIN | NSS_STATUS_NOTFOUND | NSS_STATUS_SUCCESS

definition NSS_DOMAIN :: bytes where
  "NSS_DOMAIN = lit ''p2p''"

text \<open>
  Pointers into the caller's buffer are offsets.  \<open>he_cells\<close> are the pointers that were stored in the buffer, by their place; a null
  pointer is \<open>None\<close>.
\<close>

record HOSTENT =
  he_buffer :: bytes
  he_cells :: "nat \<Rightarrow> nat option option"
  h_name :: nat
  h_aliases :: nat
  h_length :: nat
  h_addr_list :: nat

abbreviation (input) PTR_SIZE :: nat where "PTR_SIZE \<equiv> 8"

text \<open>The loop that stores the addresses' pointers, \<open>result\<close> of them, and the null pointer behind them.\<close>

fun addr_cells :: "nat \<Rightarrow> nat \<Rightarrow> nat \<Rightarrow> nat \<Rightarrow> (nat \<Rightarrow> nat option option) \<Rightarrow> nat \<Rightarrow> nat option option" where
  "addr_cells 0 p p_idx n cells = cells(p := Some None)"
| "addr_cells (Suc j) p p_idx n cells = addr_cells j (p + PTR_SIZE) (p_idx + n) n (cells(p := Some (Some p_idx)))"

definition nss_valid :: "bytes \<Rightarrow> bool" where
  "nss_valid hostname \<longleftrightarrow>
     str_valid_hostname hostname (length hostname) \<and> str_valid_tld hostname (length hostname) NSS_DOMAIN"

definition nss_tk_hostent ::
    "ipver \<Rightarrow> USHORT \<Rightarrow> bytes \<Rightarrow> (bytes \<Rightarrow> bytes option) \<Rightarrow> nat \<Rightarrow> bytes \<Rightarrow> nat \<Rightarrow> (nss_status \<times> HOSTENT option) option" where
  "nss_tk_hostent v pid stack net room hostname buflen =
     (if \<not> nss_valid hostname then Some (NSS_STATUS_NOTFOUND, None)
      else do {
        address \<leftarrow> ngethostbyname v pid stack net room hostname;
        let result = length address;
        let n = IP_SIZE v;
        let hostsize = length hostname;
        if result = 0 then Some (NSS_STATUS_NOTFOUND, None)
        else if buflen < (hostsize + 1) + PTR_SIZE + result * n + (result + 1) * PTR_SIZE then Some (NSS_STATUS_TRYAGAIN, None)
        else do {
          let p_aliases = hostsize + 1;
          let p_addr = p_aliases + PTR_SIZE;
          let p_addr_list = p_addr + result * n;
          buffer \<leftarrow> put_at (replicate buflen 0) 0 hostname;
          buffer \<leftarrow> put_at buffer p_addr (concat address);
          Some (NSS_STATUS_SUCCESS, Some
            \<lparr>he_buffer = buffer,
             he_cells = addr_cells result p_addr_list p_addr n ((\<lambda>_. None)(p_aliases := Some None)),
             h_name = 0, h_aliases = p_aliases, h_length = n, h_addr_list = p_addr_list\<rparr>)
        }
      })"

text \<open>\<open>gethostbyname4_r\<close> fills a linked list of tuples in the buffer: the offset of each, its address and its successor.\<close>

record GAIH =
  g_at :: nat
  g_name :: nat
  g_addr :: bytes
  g_next :: "nat option"

abbreviation (input) GAIH_SIZE :: nat where "GAIH_SIZE \<equiv> 40"

fun gaih_loop :: "bytes list \<Rightarrow> nat \<Rightarrow> GAIH list" where
  "gaih_loop [] p = []"
| "gaih_loop (a # as) p =
     \<lparr>g_at = p, g_name = 0, g_addr = a, g_next = (if as = [] then None else Some (p + GAIH_SIZE))\<rparr> #
     gaih_loop as (p + GAIH_SIZE)"

definition nss_tk_gaih_tuple ::
    "ipver \<Rightarrow> USHORT \<Rightarrow> bytes \<Rightarrow> (bytes \<Rightarrow> bytes option) \<Rightarrow> nat \<Rightarrow> bytes \<Rightarrow> nat \<Rightarrow> (nss_status \<times> GAIH list) option" where
  "nss_tk_gaih_tuple v pid stack net room hostname buflen =
     (if \<not> nss_valid hostname then Some (NSS_STATUS_NOTFOUND, [])
      else do {
        address \<leftarrow> ngethostbyname v pid stack net room hostname;
        if address = [] then Some (NSS_STATUS_NOTFOUND, [])
        else if buflen < (length hostname + 1) + length address * GAIH_SIZE then Some (NSS_STATUS_TRYAGAIN, [])
        else Some (NSS_STATUS_SUCCESS, gaih_loop address (length hostname + 1))
      })"

section \<open>Names\<close>

text \<open>The client writes names as the server does, and both agree where they end.\<close>

definition dns_name :: "bytes \<Rightarrow> bytes" where
  "dns_name d = dns_labels [] (d @ [46])"

lemma dns_labels_label:
  "46 \<notin> set l \<Longrightarrow> dns_labels lock (l @ 46 # r) = of_nat (length (lock @ l)) # (lock @ l) @ dns_labels [] r"
  by (induction l arbitrary: lock) auto

text \<open>The first label of a name and the rest.\<close>

lemma label_cases [case_names last more]:
  assumes "46 \<notin> set d \<Longrightarrow> thesis" and "\<And>l r. d = l @ 46 # r \<Longrightarrow> 46 \<notin> set l \<Longrightarrow> thesis"
  shows thesis
  using assms split_list_first [of 46 d] by blast

lemma dns_name_last: "46 \<notin> set d \<Longrightarrow> dns_name d = of_nat (length d) # d"
  using dns_labels_label [of d "[]" "[]"] by (simp add: dns_name_def)

lemma dns_name_more: "46 \<notin> set l \<Longrightarrow> dns_name (l @ 46 # r) = of_nat (length l) # l @ dns_name r"
  using dns_labels_label [of l "[]" "r @ [46]"] by (simp add: dns_name_def)

lemma takeWhile_label: "46 \<notin> set d \<Longrightarrow> takeWhile (\<lambda>c. c \<noteq> 46) d = d \<and> dropWhile (\<lambda>c. c \<noteq> 46) d = []"
  and takeWhile_more: "46 \<notin> set l \<Longrightarrow>
    takeWhile (\<lambda>c. c \<noteq> 46) (l @ 46 # r) = l \<and> dropWhile (\<lambda>c. c \<noteq> 46) (l @ 46 # r) = 46 # r"
  by (induction d; auto) (induction l; auto)

lemma encode_is_name: "p_encode_domain d = dns_name d @ [0]"
proof (induction "length d" arbitrary: d rule: less_induct)
  case less
  show ?case
  proof (cases d rule: label_cases)
    case last
    then show ?thesis using takeWhile_label [OF last]
      by (subst p_encode_domain.simps) (simp add: dns_name_last Let_def del: takeWhile_eq_all_conv dropWhile_eq_Nil_conv)
  next
    case (more l r)
    then show ?thesis using takeWhile_more [OF more(2), of r] less [of r]
      by (subst p_encode_domain.simps) (simp add: dns_name_more Let_def)
  qed
qed

lemma labels_ok_last: "46 \<notin> set d \<Longrightarrow> labels_ok d \<longleftrightarrow> d \<noteq> []"
  using takeWhile_label [of d] by (subst labels_ok.simps) (simp del: takeWhile_eq_all_conv dropWhile_eq_Nil_conv)

lemma labels_ok_more: "46 \<notin> set l \<Longrightarrow> labels_ok (l @ 46 # r) \<longleftrightarrow> l \<noteq> [] \<and> labels_ok r"
  using takeWhile_more [of l r] by (subst labels_ok.simps) simp

text \<open>A name that can be written and read without a compression pointer or a zero.\<close>

definition plain_name :: "bytes \<Rightarrow> bool" where
  "plain_name d \<longleftrightarrow> labels_ok d \<and> length d < 192 \<and> (\<forall>c \<in> set d. c \<noteq> 0 \<and> c < 192)"

lemma label_length: "0 < k \<Longrightarrow> k < 192 \<Longrightarrow> (of_nat k :: UCHAR) \<noteq> 0 \<and> (of_nat k :: UCHAR) < 192 \<and> unat (of_nat k :: UCHAR) = k"
proof -
  assume k: "0 < k" "k < 192"
  then have "k mod 256 = k" by (intro mod_less) linarith
  then have u: "unat (of_nat k :: UCHAR) = k" by (simp only: unat_of_nat ) simp
  have "unat (192 :: UCHAR) = 192" by simp
  with u k(2) have "(of_nat k :: UCHAR) < 192" by (simp only: word_less_nat_alt)
  moreover have "(of_nat k :: UCHAR) \<noteq> 0" using u k(1) by (intro notI) simp
  ultimately show ?thesis using u by blast
qed

lemma plain_last: "plain_name d \<Longrightarrow> 46 \<notin> set d \<Longrightarrow> 0 < length d \<and> length d < 192 \<and> (\<forall>c \<in> set d. c \<noteq> 0 \<and> c < 192)"
  by (simp add: plain_name_def labels_ok_last)

lemma plain_more:
  "plain_name (l @ 46 # r) \<Longrightarrow> 46 \<notin> set l \<Longrightarrow>
   0 < length l \<and> length l < 192 \<and> plain_name r \<and> (\<forall>c \<in> set l. c \<noteq> 0 \<and> c < 192)"
  by (simp add: plain_name_def labels_ok_more)

lemma dns_name_bytes: "plain_name d \<Longrightarrow> \<forall>c \<in> set (dns_name d). c \<noteq> 0 \<and> c < 192"
proof (induction "length d" arbitrary: d rule: less_induct)
  case less
  show ?case
  proof (cases d rule: label_cases)
    case last
    then show ?thesis using plain_last [OF less.prems last] label_length [of "length d"] by (simp add: dns_name_last)
  next
    case (more l r)
    note p = plain_more [OF less.prems [unfolded more(1)] more(2)]
    have "\<forall>c \<in> set (dns_name r). c \<noteq> 0 \<and> c < 192" using less.hyps [of r] p more(1) by simp
    then show ?thesis using p label_length [of "length l"] by (simp add: more(1) dns_name_more [OF more(2)] ball_Un)
  qed
qed

lemma dns_name_length: "length (dns_name d) = length d + 1"
  using p_encode_domain_length [of d] by (simp add: encode_is_name)

section \<open>Reading what was written\<close>

lemma read_loop_plain:
  "\<forall>c \<in> set e. c \<noteq> 0 \<and> c < 192 \<Longrightarrow> length name + length e \<le> 256 \<Longrightarrow> buf = pre @ e @ 0 # rest \<Longrightarrow>
   read_loop buf (length pre) name False count = Some (name @ e, False, count + length e)"
proof (induction e arbitrary: pre name count)
  case Nil
  then show ?case by (subst read_loop.simps) (simp add: byte_at_def)
next
  case (Cons c e)
  from Cons.prems have c: "c \<noteq> 0" "\<not> c \<ge> 192" "length name < 256" by auto
  have b: "byte_at buf (length pre) = Some c" using Cons.prems(3) by (simp add: byte_at_def nth_append)
  have "read_loop buf (length (pre @ [c])) (name @ [c]) False (count + 1) = Some ((name @ [c]) @ e, False, count + 1 + length e)"
    by (rule Cons.IH) (use Cons.prems in auto)
  then show ?case using b c by (subst read_loop.simps) simp
qed

lemma shift_label_plain:
  "shift_label (length lab) (D @ x # lab @ R) (length D) = Some (D @ lab @ last (x # lab) # R, length D + length lab)"
proof (induction lab arbitrary: D x)
  case (Cons a lab)
  have "(D @ x # a # lab @ R)[length D := a] = (D @ [a]) @ a # lab @ R" by simp
  then show ?case using Cons.IH [of "D @ [a]" a] by (simp add: nth_append)
qed simp

lemma dots_loop_label:
  assumes "0 < length lab" and "length lab < 192" and "0 \<notin> set D" and "0 \<notin> set lab" and "0 \<in> set R"
  shows "dots_loop (D @ of_nat (length lab) # lab @ R) (length D) = dots_loop (D @ lab @ 46 # R) (length D + length lab + 1)"
proof -
  note l = label_length [OF assms(1,2)]
  let ?name = "D @ of_nat (length lab) # lab @ R"
  have z: "0 \<in> set ?name" using assms(5) by simp
  have "length D < length (cstr ?name)" using assms(3) l by (simp add: cstr_def takeWhile_append)
  moreover have "unat (?name ! length D) = length lab" using l by simp
  ultimately show ?thesis using z shift_label_plain [of lab D "of_nat (length lab)" R]
    by (subst dots_loop.simps) (auto simp: list_update_append)
qed

lemma dots_loop_end: "0 \<notin> set D \<Longrightarrow> 0 < k \<Longrightarrow> dots_loop (D @ replicate k 0) (length D) = Some (D @ replicate k 0, length D)"
  by (subst dots_loop.simps) (auto simp: cstr_def takeWhile_append)

lemma dots_loop_name:
  "plain_name d \<Longrightarrow> 0 \<notin> set D \<Longrightarrow> 0 < k \<Longrightarrow>
   \<exists>name. dots_loop (D @ dns_name d @ replicate k 0) (length D) = Some (name, length D + length d + 1)"
proof (induction "length d" arbitrary: d D rule: less_induct)
  case less
  have nz: "0 \<notin> set d" using less.prems(1) by (auto simp: plain_name_def)
  show ?case
  proof (cases d rule: label_cases)
    case last
    then have d: "0 < length d" "length d < 192" using plain_last [OF less.prems(1) last] by simp_all
    have "dots_loop (D @ of_nat (length d) # d @ replicate k 0) (length D) =
        dots_loop (D @ d @ 46 # replicate k 0) (length D + length d + 1)"
      by (rule dots_loop_label [OF d]) (use less.prems nz in auto)
    also have "\<dots> = Some ((D @ d @ [46]) @ replicate k 0, length D + length d + 1)"
      using dots_loop_end [of "D @ d @ [46]" k] less.prems nz by simp
    finally show ?thesis by (simp add: dns_name_last [OF last])
  next
    case (more l r)
    then have l: "0 < length l" "length l < 192" "plain_name r" "0 \<notin> set l"
      using plain_more [OF less.prems(1) [unfolded more(1)] more(2)] nz by auto
    have "dots_loop (D @ of_nat (length l) # l @ dns_name r @ replicate k 0) (length D) =
        dots_loop (D @ l @ 46 # dns_name r @ replicate k 0) (length D + length l + 1)"
      by (rule dots_loop_label [OF l(1,2)]) (use less.prems l in auto)
    moreover obtain name where "dots_loop ((D @ l @ [46]) @ dns_name r @ replicate k 0) (length (D @ l @ [46])) =
        Some (name, length (D @ l @ [46]) + length r + 1)"
      using less.hyps [of r "D @ l @ [46]"] less.prems l more by auto
    ultimately show ?thesis by (auto simp: dns_name_more [OF more(2)] more(1))
  qed
qed

lemma ReadName_plain:
  assumes "plain_name d" and "buf = pre @ p_encode_domain d @ rest"
  shows "ReadName buf (length pre) = Some (length d + 2)"
proof -
  have len: "length (dns_name d) < 256" using assms(1) by (simp add: dns_name_length plain_name_def)
  have r: "read_loop buf (length pre) [] False 1 = Some ([] @ dns_name d, False, 1 + length (dns_name d))"
    by (rule read_loop_plain [where rest = rest]) (use dns_name_bytes [OF assms(1)] len assms(2) in \<open>auto simp: encode_is_name\<close>)
  obtain name where "dots_loop (dns_name d @ replicate (256 - length (dns_name d)) 0) 0 = Some (name, length d + 1)"
    using dots_loop_name [OF assms(1), of "[]" "256 - length (dns_name d)"] len by auto
  with r len show ?thesis by (simp add: ReadName_def dns_name_length)
qed

lemma strlen_plain:
  assumes "plain_name d" and "buf = pre @ p_encode_domain d @ rest"
  shows "strlen_at buf (length pre) = Some (length d + 1)"
proof -
  have "0 \<notin> set (dns_name d)" using dns_name_bytes [OF assms(1)] by auto
  then have "cstr (dns_name d @ 0 # rest) = dns_name d" by (simp add: cstr_def takeWhile_append)
  then show ?thesis using assms(2) by (simp add: strlen_at_def encode_is_name dns_name_length)
qed

lemma put_at_ok: "p + length xs \<le> length buf \<Longrightarrow> put_at buf p xs = Some (take p buf @ xs @ drop (p + length xs) buf)"
  by (simp add: put_at_def)

section \<open>Numbers and records\<close>

lemma get_put16: "p_get16bits (pre @ p_put16bits w @ rest) (length pre) = Some (w, length pre + 2)"
proof -
  have "push_bit 8 (ucast (ucast (drop_bit 8 (w AND 0xFF00)) :: UCHAR)) + ucast (ucast (w AND 0xFF) :: UCHAR) = w"
    (is "?hi + ?lo = w")
  proof -
    have m: "(0xFF00 :: USHORT) = push_bit 8 (mask 8)" "(0xFF :: USHORT) = mask 8" by (simp_all add: mask_eq_exp_minus_1)
    have z: "?hi AND ?lo = 0" unfolding m by (rule bit_word_eqI) (auto simp: bit_simps)
    have "?hi OR ?lo = w" unfolding m by (rule bit_word_eqI) (auto simp: bit_simps)
    then show ?thesis using disjunctive_add_eq_or [OF z] by (simp only:)
  qed
  then show ?thesis by (simp add: p_get16bits_def p_put16bits_def byte_at_def nth_append)
qed

text \<open>The addresses of a compact list, without their ports.\<close>

fun addrs :: "ipver \<Rightarrow> nat \<Rightarrow> bytes \<Rightarrow> bytes list" where
  "addrs v 0 p = []"
| "addrs v (Suc n) p = take (IP_SIZE v) p # addrs v n (drop (IP_SIZE_META_PAIR v) p)"

definition addr_rr :: "ipver \<Rightarrow> DNS_Q \<Rightarrow> nref \<Rightarrow> bytes \<Rightarrow> DNS_RR" where
  "addr_rr v qu r a = \<lparr>rr_name = r, rr_type = record_type v, rr_class = qClass qu, rr_ttl = DNS_TTL,
     rr_length = of_nat (IP_SIZE v), rr_data = X_record a\<rparr>"

definition addr_bytes :: "ipver \<Rightarrow> DNS_Q \<Rightarrow> bytes \<Rightarrow> bytes \<Rightarrow> bytes" where
  "addr_bytes v qu nm a = p_encode_domain nm @ p_put16bits (record_type v) @ p_put16bits (qClass qu) @ p_put32bits DNS_TTL @
     p_put16bits (of_nat (IP_SIZE v)) @ a"

lemma length_addrs [simp]: "length (addrs v n p) = n"
  by (induction n arbitrary: p) auto

lemma addrs_size: "length p = n * IP_SIZE_META_PAIR v \<Longrightarrow> \<forall>a \<in> set (addrs v n p). length a = IP_SIZE v"
proof (induction n arbitrary: p)
  case (Suc n)
  then have l: "length (drop (IP_SIZE_META_PAIR v) p) = n * IP_SIZE_META_PAIR v" "IP_SIZE v \<le> length p"
    by (simp_all add: IP_SIZE_META_PAIR_def)
  have "length (take (IP_SIZE v) p) = IP_SIZE v" using l(2) by (rule length_take [THEN trans, OF min_absorb2])
  then show ?case using Suc.IH [OF l(1)] by (simp only: addrs.simps list.set ball_simps simp_thms)
qed simp

lemma put_loop_addrs:
  "length p = n * IP_SIZE_META_PAIR v \<Longrightarrow>
   put_loop v (\<lambda>p. p_put_addr v qu p r) n p = Some (map (addr_rr v qu r) (addrs v n p))"
proof (induction n arbitrary: p)
  case (Suc n)
  then have "length (drop (IP_SIZE_META_PAIR v) p) = n * IP_SIZE_META_PAIR v" "IP_SIZE v \<le> length p"
    by (simp_all add: IP_SIZE_META_PAIR_def)
  with Suc.IH show ?case by (simp add: p_put_addr_def addr_rr_def record_type_def)
qed simp

lemma encode_addrs:
  "name_at names r = Some nm \<Longrightarrow> encode_rrs names (map (addr_rr v qu r) as) = Some (concat (map (addr_bytes v qu nm) as))"
  by (induction as) (auto simp: encode_rr_def addr_rr_def addr_bytes_def)

lemma read_addr:
  assumes d: "plain_name nm" and a: "length a = IP_SIZE v" and buf: "buf = pre @ addr_bytes v qu nm a @ rest"
  shows "read_answers v buf (Suc k) (length pre) =
    map_option (map_option ((#) a)) (read_answers v buf k (length (pre @ addr_bytes v qu nm a)))"
proof -
  let ?e = "p_encode_domain nm"
  let ?p1 = "pre @ ?e" and ?p2 = "pre @ ?e @ p_put16bits (record_type v) @ p_put16bits (qClass qu) @ p_put32bits DNS_TTL"
  have stop: "ReadName buf (length pre) = Some (length nm + 2)"
    by (rule ReadName_plain [OF d]) (simp add: buf addr_bytes_def)
  have ty: "p_get16bits buf (length ?p1) = Some (record_type v, length ?p1 + 2)"
    using get_put16 [of ?p1 "record_type v"] by (simp add: buf addr_bytes_def)
  have "p_get16bits buf (length ?p2) = Some (of_nat (IP_SIZE v), length ?p2 + 2)"
    using get_put16 [of ?p2 "of_nat (IP_SIZE v)"] by (simp add: buf addr_bytes_def)
  moreover have p2: "length ?p2 = length pre + (length nm + 2) + 8" by (simp add: p_encode_domain_length)
  ultimately have dl: "p_get16bits buf (length pre + (length nm + 2) + 8) = Some (of_nat (IP_SIZE v), length pre + (length nm + 2) + 8 + 2)"
    by (simp only: p2)
  have ty': "p_get16bits buf (length pre + (length nm + 2)) = Some (record_type v, length pre + (length nm + 2) + 2)"
    using ty by (simp add: p_encode_domain_length)
  have u: "unat (of_nat (IP_SIZE v) :: USHORT) = IP_SIZE v" by (cases v) simp_all
  have rd: "take (IP_SIZE v) (drop (length pre + (length nm + 2) + 10) buf) = a"
    using a by (simp add: buf addr_bytes_def p_encode_domain_length)
  have nx: "length pre + (length nm + 2) + 10 + IP_SIZE v = length (pre @ addr_bytes v qu nm a)"
    using a by (simp add: addr_bytes_def p_encode_domain_length)
  have fits: "\<not> length buf < length pre + (length nm + 2) + 10 + IP_SIZE v" unfolding nx by (simp add: buf)
  show ?thesis
    by (simp only: read_answers.simps stop dl ty' u rd fits Let_def option.simps bind.bind_lunit prod.simps if_False not_True_eq_False refl nx)
       (use fits [unfolded nx] in \<open>simp add: map_option_case split: option.split\<close>)
qed

lemma read_addrs:
  "plain_name nm \<Longrightarrow> \<forall>a \<in> set as. length a = IP_SIZE v \<Longrightarrow> buf = pre @ concat (map (addr_bytes v qu nm) as) @ rest \<Longrightarrow>
   read_answers v buf (length as) (length pre) = Some (Some as)"
proof (induction as arbitrary: pre)
  case (Cons a as)
  have "read_answers v buf (length as) (length (pre @ addr_bytes v qu nm a)) = Some (Some as)"
    by (rule Cons.IH) (use Cons.prems in simp_all)
  with read_addr [of nm a v buf pre qu "concat (map (addr_bytes v qu nm) as) @ rest" "length as"] Cons.prems
  show ?case by simp
qed simp

section \<open>The query\<close>

definition query_bytes :: "ipver \<Rightarrow> USHORT \<Rightarrow> bytes \<Rightarrow> bytes" where
  "query_bytes v pid host = query_header pid @ p_encode_domain host @ p_put16bits (record_type v) @ p_put16bits 1"

lemma query_header_length [simp]: "length (query_header pid) = 12"
  by (simp add: query_header_def)

lemma query_bytes_length: "length (query_bytes v pid host) = 18 + length host"
  by (simp add: query_bytes_def p_encode_domain_length)

text \<open>What the client sends, and what it reads from what it gets: the reply is in front of whatever the buffer had.\<close>

lemma ngethostbyname_sends:
  assumes d: "plain_name host" and st: "length stack = 65536" and room: "0 < room"
  shows "\<exists>rest. length rest = 65536 - length (query_bytes v pid host) \<and> ngethostbyname v pid stack net room host =
    (case net (query_bytes v pid host) of None \<Rightarrow> Some []
     | Some reply \<Rightarrow> do { buf \<leftarrow> put_at (query_bytes v pid host @ rest) 0 (take 65536 reply); read_reply v buf })"
proof -
  let ?q = "p_encode_domain host" and ?h = "query_header pid" and ?t = "p_put16bits (record_type v) @ p_put16bits 1"
  let ?r = "drop (18 + length host) stack"
  have n: "length host < 192" using d by (simp add: plain_name_def)
  have c: "ChangetoDnsNameFormat room host = Some ?q"
    using room by (simp add: ChangetoDnsNameFormat_def encode_is_name dns_name_def)
  have a: "put_at stack 0 ?h = Some (?h @ drop 12 stack)" using st by (simp add: put_at_ok)
  have b: "put_at (?h @ drop 12 stack) 12 ?q = Some (?h @ ?q @ drop (14 + length host) stack)"
    using st n by (simp add: put_at_ok p_encode_domain_length add.commute)
  have l: "strlen_at (?h @ ?q @ drop (14 + length host) stack) 12 = Some (length host + 1)"
    using strlen_plain [OF d, of _ ?h] by simp
  have e: "put_at (?h @ ?q @ drop (14 + length host) stack) (12 + (length host + 1) + 1) ?t = Some (query_bytes v pid host @ ?r)"
    using st n by (simp add: put_at_ok p_encode_domain_length query_bytes_def)
  have t: "take (12 + (length host + 1) + 1 + 4) (query_bytes v pid host @ ?r) = query_bytes v pid host"
    by (simp add: query_bytes_length)
  have "ngethostbyname v pid stack net room host = (case net (query_bytes v pid host) of None \<Rightarrow> Some []
     | Some reply \<Rightarrow> do { buf \<leftarrow> put_at (query_bytes v pid host @ ?r) 0 (take 65536 reply); read_reply v buf })"
    by (simp only: ngethostbyname_def a b c l e t bind.bind_lunit)
  moreover have "length ?r = 65536 - length (query_bytes v pid host)" using st by (simp add: query_bytes_length)
  ultimately show ?thesis by blast
qed

end
