(* ===== verification/Naming.thy ===== *)
theory Naming
  imports Client Resolver Cache_Db
begin

text \<open>
  The name service module and the daemon together: the query of \<^verbatim>\<open>src/src/dns/client.c\<close> is what \<open>r_parse\<close> of
  \<^verbatim>\<open>src/src/p2p/resolver.c\<close> decodes, and the client reads the addresses the daemon wrote.
\<close>

section \<open>The daemon decodes the query\<close>

lemma header_reads:
  assumes "buf = p_put16bits a @ p_put16bits b @ p_put16bits c @ p_put16bits d @ p_put16bits e @ p_put16bits f @ rest"
  shows "p_get16bits buf 0 = Some (a, 2)" and "p_get16bits buf 2 = Some (b, 4)" and "p_get16bits buf 4 = Some (c, 6)"
    and "p_get16bits buf 6 = Some (d, 8)" and "p_get16bits buf 8 = Some (e, 10)" and "p_get16bits buf 10 = Some (f, 12)"
  using get_put16 [of "[]" a] get_put16 [of "p_put16bits a" b] get_put16 [of "p_put16bits a @ p_put16bits b" c]
    get_put16 [of "p_put16bits a @ p_put16bits b @ p_put16bits c" d]
    get_put16 [of "p_put16bits a @ p_put16bits b @ p_put16bits c @ p_put16bits d" e]
    get_put16 [of "p_put16bits a @ p_put16bits b @ p_put16bits c @ p_put16bits d @ p_put16bits e" f]
  unfolding assms by simp_all

lemma query_header_put: "query_header pid =
    p_put16bits pid @ p_put16bits 256 @ p_put16bits 1 @ p_put16bits 0 @ p_put16bits 0 @ p_put16bits 0"
  by (simp add: query_header_def p_put16bits_def)

lemma query_decoded:
  assumes d: "plain_name host"
  shows "\<exists>msg. p_decode_query self junk (query_bytes v pid host @ rest) (length (query_bytes v pid host)) = Some (1, msg) \<and>
    qName_buffer msg = host @ [0] \<and> question msg = \<lparr>qName = (self, 0), qType = record_type v, qClass = 1\<rparr>"
proof -
  let ?q = "query_bytes v pid host" and ?h = "query_header pid"
  let ?buf = "?q @ rest"
  have buf: "?buf = p_put16bits pid @ p_put16bits 256 @ p_put16bits 1 @ p_put16bits 0 @ p_put16bits 0 @ p_put16bits 0 @
      (p_encode_domain host @ p_put16bits (record_type v) @ p_put16bits 1 @ rest)"
    by (simp add: query_bytes_def query_header_put)
  obtain m where m: "p_decode_header junk ?buf = Some (m, 12)" "anCount m = 0" "nsCount m = 0" "qdCount m = 1"
    using header_reads [OF buf] by (simp add: p_decode_header_def)
  have s: "nat (int (length ?q) - 12) = 6 + length host" by (simp add: query_bytes_length)
  have dom: "p_decode_domain ?buf 12 (6 + length host) = Some (Some (host, 14 + length host))"
    using domain_roundtrip_loop [of host "[]" "6 + length host" ?buf ?h] d
    by (simp add: p_decode_domain_def query_bytes_def plain_name_def)
  let ?p1 = "?h @ p_encode_domain host"
  have "p_get16bits ?buf (length ?p1) = Some (record_type v, length ?p1 + 2)"
    "p_get16bits ?buf (length (?p1 @ p_put16bits (record_type v))) = Some (1, length (?p1 @ p_put16bits (record_type v)) + 2)"
    using get_put16 [of ?p1 "record_type v"] get_put16 [of "?p1 @ p_put16bits (record_type v)" 1] by (simp_all add: query_bytes_def)
  then have g: "p_get16bits ?buf (14 + length host) = Some (record_type v, 14 + length host + 2)"
    "p_get16bits ?buf (14 + length host + 2) = Some (1, 14 + length host + 2 + 2)"
    by (simp_all add: p_encode_domain_length)
  have l: "\<not> int (length ?q) - 12 - int (14 + length host - 12) < 4" by (simp add: query_bytes_length)
  show ?thesis using m g l by (simp add: p_decode_query_def s dom Let_def)
qed

section \<open>The client reads the answer\<close>

definition reply_bytes :: "ipver \<Rightarrow> DNS_MSG \<Rightarrow> bytes \<Rightarrow> nat \<Rightarrow> bytes \<Rightarrow> bytes" where
  "reply_bytes v msg host n nodes = p_encode_header (p_prepare_msg msg (of_nat n)) @ p_encode_domain host @
     p_put16bits (qType (question msg)) @ p_put16bits (qClass (question msg)) @ concat (map (addr_bytes v (question msg) host) (addrs v n nodes))"

lemma unat_small: "n \<le> 8 \<Longrightarrow> unat (of_nat n :: USHORT) = n"
  by (simp add: unat_of_nat)

lemma reply_written:
  assumes q: "qType (question msg) = record_type v" and len: "length nodes = n * IP_SIZE_META_PAIR v" and n: "0 < n" "n \<le> 8"
    and nm: "name_at names (qName (question msg)) = Some host"
  shows "\<exists>msg'. p_reply_msg v names msg nodes = Some msg' \<and> p_encode_response names msg' = Some (reply_bytes v msg host n nodes)"
proof -
  let ?rrs = "map (addr_rr v (question msg) (qName (question msg))) (addrs v n nodes)"
  let ?m = "(p_prepare_msg msg (of_nat n))\<lparr>answer := ?rrs\<rparr>"
  have k: "0 < IP_SIZE_META_PAIR v" by (simp add: IP_SIZE_META_PAIR_def)
  have div: "length nodes div IP_SIZE_META_PAIR v = n" using len k by simp
  have ty: "qType (question msg) \<noteq> SRV_Resource_RecordType" using q by (cases v) (simp_all add: record_type_def)
  note u = unat_small [OF n(2)]
  have nz: "(of_nat n :: USHORT) \<noteq> 0" using n(1) u by (intro notI) simp
  have "p_reply_msg v names msg nodes = Some ?m"
    using ty n u div put_loop_addrs [OF len] by (simp add: p_reply_msg_def p_prepare_msg_def Let_def)
  moreover have "p_encode_response names ?m = Some (reply_bytes v msg host n nodes)"
    using nm nz u encode_addrs [OF nm, of v "question msg" "addrs v n nodes"]
    by (simp add: p_encode_response_def p_prepare_msg_def reply_bytes_def p_encode_header_def)
  ultimately show ?thesis by blast
qed

lemma reply_read:
  assumes d: "plain_name host" and len: "length nodes = n * IP_SIZE_META_PAIR v" and n: "0 < n" "n \<le> 8"
  shows "read_reply v (reply_bytes v msg host n nodes @ rest) = Some (addrs v n nodes)"
proof -
  let ?m = "p_prepare_msg msg (of_nat n)" and ?qu = "question msg"
  let ?as = "concat (map (addr_bytes v ?qu host) (addrs v n nodes))"
  let ?buf = "reply_bytes v msg host n nodes @ rest" and ?t = "p_put16bits (qType ?qu) @ p_put16bits (qClass ?qu)"
  let ?fl = "(push_bit 15 (m_qr ?m) AND QR_MASK) OR (m_rcode ?m AND RCODE_MASK)"
  have buf: "?buf = p_put16bits (m_id ?m) @ p_put16bits ?fl @ p_put16bits 1 @ p_put16bits (of_nat n) @ p_put16bits 0 @ p_put16bits 0 @
      (p_encode_domain host @ ?t @ ?as @ rest)"
    by (simp add: reply_bytes_def p_encode_header_def p_prepare_msg_def)
  note h = header_reads [OF buf]
  note u = unat_small [OF n(2)]
  have l: "strlen_at ?buf 12 = Some (length host + 1)"
    using strlen_plain [OF d, of _ "p_encode_header ?m"] by (simp add: reply_bytes_def)
  let ?pre = "p_encode_header ?m @ p_encode_domain host @ ?t"
  have "read_answers v ?buf (length (addrs v n nodes)) (length ?pre) = Some (Some (addrs v n nodes))"
    by (rule read_addrs [OF d addrs_size [OF len], where rest = rest]) (simp add: reply_bytes_def)
  then have r: "read_answers v ?buf n (12 + (length host + 1) + 1 + 4) = Some (Some (addrs v n nodes))"
    by (simp add: p_encode_domain_length)
  have "\<not> (n < 1 \<or> n > 8)" using n by simp
  with h l r show ?thesis by (simp only: read_reply_def u bind.bind_lunit prod.simps option.simps if_False refl not_True_eq_False simp_thms)
qed

section \<open>Both ends\<close>

text \<open>
  The daemon as the client sees it: the query is in the receive buffer with a zero behind it, and the answer is the datagram that is sent
  while the query is parsed.  When nothing is sent at once, the client gives up after its timeout.
\<close>

definition daemon_net :: "WORLD \<Rightarrow> ptr \<Rightarrow> DNS_MSG \<Rightarrow> MAIN \<Rightarrow> IP \<Rightarrow> bytes \<Rightarrow> bytes option" where
  "daemon_net W self junk m from q =
     (case r_parse W self junk m (q @ replicate (Suc UDP_BUF - length q) 0) (length q) from of None \<Rightarrow> None
      | Some m' \<Rightarrow> (case drop (length (s_dns_out m)) (s_dns_out m') of [] \<Rightarrow> None | (to, x) # _ \<Rightarrow> Some x))"

lemma host_char_bytes: "host_char c \<Longrightarrow> c \<noteq> 0 \<and> c < 192"
  unfolding host_char_def word_less_nat_alt word_le_nat_alt word_unat_eq_iff by auto

lemma valid_plain:
  assumes "str_valid_hostname host (length host)" and "labels_ok host" and "length host < 192"
  shows "plain_name host"
  using assms host_char_bytes by (auto simp: plain_name_def str_valid_hostname_def list_all_iff)

lemma cstr_host: "plain_name host \<Longrightarrow> cstr (host @ 0 # rest) = host"
  by (auto simp: cstr_def plain_name_def takeWhile_append)

text \<open>How many bytes the answer takes.\<close>

definition reply_size :: "ipver \<Rightarrow> bytes \<Rightarrow> nat \<Rightarrow> nat" where
  "reply_size v host n = 18 + length host + n * (length host + 12 + IP_SIZE v)"

lemma reply_bytes_length:
  assumes "length nodes = n * IP_SIZE_META_PAIR v"
  shows "length (reply_bytes v msg host n nodes) = reply_size v host n"
proof -
  have "\<forall>a \<in> set (addrs v n nodes). length (addr_bytes v (question msg) host a) = length host + 12 + IP_SIZE v"
    using addrs_size [OF assms] by (auto simp: addr_bytes_def p_encode_domain_length)
  then have "length (concat (map (addr_bytes v (question msg) host) (addrs v n nodes))) = n * (length host + 12 + IP_SIZE v)"
    using concat_length [of "map (addr_bytes v (question msg) host) (addrs v n nodes)" "length host + 12 + IP_SIZE v"] by simp
  then show ?thesis by (simp add: reply_bytes_def reply_size_def p_encode_domain_length)
qed

lemma daemon_answers:
  assumes d: "plain_name host" "str_valid_hostname host (length host)" and len: "length nodes = n * IP_SIZE_META_PAIR (w_ver W)"
    and n: "0 < n" "n \<le> 8" and fits: "reply_size (w_ver W) host n \<le> UDP_BUF" and ll: "\<not> ip_is_linklocal (w_ver W) from"
    and c: "cache_compact_list (s_cache m) (id_hostid W host (c_realm (s_conf m)) (c_bool_realm (s_conf m))) (clock m) = Some (c, nodes)"
  shows "\<exists>msg. daemon_net W self junk m from (query_bytes (w_ver W) pid host) = Some (reply_bytes (w_ver W) msg host n nodes)"
proof -
  let ?v = "w_ver W" and ?q = "query_bytes (w_ver W) pid host"
  let ?buf = "?q @ replicate (Suc UDP_BUF - length ?q) 0"
  obtain msg where msg: "p_decode_query (Frame self) junk ?buf (length ?q) = Some (1, msg)" "qName_buffer msg = host @ [0]"
    "question msg = \<lparr>qName = (Frame self, 0), qType = record_type ?v, qClass = 1\<rparr>"
    using query_decoded [OF d(1)] by blast
  let ?names = "[Frame self \<mapsto> qName_buffer msg]"
  have nm: "name_at ?names (qName (question msg)) = Some host" by (simp add: name_at_def msg(2,3) cstr_host [OF d(1)])
  obtain msg' where rep: "p_reply_msg ?v ?names msg nodes = Some msg'" "p_encode_response ?names msg' = Some (reply_bytes ?v msg host n nodes)"
    using reply_written [OF _ len n nm] by (auto simp: msg(3))
  have ne: "nodes \<noteq> []" using len n by (auto simp: IP_SIZE_META_PAIR_def)
  have "length host < 192" using d(1) by (simp add: plain_name_def)
  then have sz: "\<not> length ?q < 12" "\<not> 512 < length ?q" "\<not> 255 < length host" by (simp_all add: query_bytes_length)
  have look: "looked_up ?v (qType (question msg))" by (simp add: looked_up_def msg(3) record_type_def)
  have "\<not> UDP_BUF < length (reply_bytes ?v msg host n nodes)" using fits by (simp add: reply_bytes_length [OF len])
  then have suc: "r_success W ?names (m\<lparr>s_cache := c\<rparr>) from msg nodes = Some (send_dns (m\<lparr>s_cache := c\<rparr>) from (reply_bytes ?v msg host n nodes))"
    using ne by (simp add: r_success_def rep)
  have "r_parse W self junk m ?buf (length ?q) from = Some (send_dns (m\<lparr>s_cache := c\<rparr>) from (reply_bytes ?v msg host n nodes))"
    using ll sz msg(1) nm d(2) look ne suc c
    by (simp add: r_parse_def r_lookup_def r_lookup_cache_db_def Let_def)
  then show ?thesis by (auto simp: daemon_net_def send_dns_def)
qed

lemma client_gets:
  assumes d: "plain_name host" and len: "length nodes = n * IP_SIZE_META_PAIR v" and n: "0 < n" "n \<le> 8"
    and fits: "reply_size v host n \<le> UDP_BUF" and st: "length stack = 65536" and room: "0 < room"
    and net: "net (query_bytes v pid host) = Some (reply_bytes v msg host n nodes)"
  shows "ngethostbyname v pid stack net room host = Some (addrs v n nodes)"
proof -
  let ?q = "query_bytes v pid host" and ?r = "reply_bytes v msg host n nodes"
  from ngethostbyname_sends [OF d st room] obtain rest where rest: "length rest = 65536 - length ?q"
    "ngethostbyname v pid stack net room host = (case net ?q of None \<Rightarrow> Some []
       | Some reply \<Rightarrow> do { buf \<leftarrow> put_at (?q @ rest) 0 (take 65536 reply); read_reply v buf })" by blast
  have l: "length ?r \<le> 1460" using fits by (simp add: reply_bytes_length [OF len])
  then have t: "take 65536 ?r = ?r" by simp
  have "length host < 192" using d by (simp add: plain_name_def)
  then have "length (?q @ rest) = 65536" using rest(1) by (simp add: query_bytes_length)
  then have "put_at (?q @ rest) 0 ?r = Some (?r @ drop (length ?r) (?q @ rest))" using l by (simp add: put_at_def)
  then show ?thesis unfolding rest(2) net using reply_read [OF d len n] by (simp only: option.simps t bind.bind_lunit)
qed

section \<open>The entry of the host\<close>

lemma addr_cells_below: "x < p \<Longrightarrow> addr_cells k p q n cells x = cells x"
  by (induction k arbitrary: p q cells) auto

lemma addr_cells_at: "i < k \<Longrightarrow> addr_cells k p q n cells (p + 8 * i) = Some (Some (q + i * n))"
proof (induction k arbitrary: p q i cells)
  case (Suc k)
  show ?case
  proof (cases i)
    case 0
    then show ?thesis by (simp add: addr_cells_below)
  next
    case (Suc j)
    then show ?thesis using Suc.IH [of j "p + 8" "q + n"] Suc.prems by (simp add: algebra_simps)
  qed
qed simp

lemma addr_cells_end: "addr_cells k p q n cells (p + 8 * k) = Some None"
proof (induction k arbitrary: p q cells)
  case (Suc k)
  show ?case using Suc.IH [of "p + 8" "q + n"] by (simp add: algebra_simps)
qed simp

lemma addr_cells_only: "addr_cells k p q n cells x \<noteq> cells x \<Longrightarrow> p \<le> x \<and> x \<le> p + 8 * k"
proof (induction k arbitrary: p q cells)
  case (Suc k)
  show ?case
  proof (cases "x = p")
    case False
    then have "addr_cells k (p + 8) (q + n) n (cells(p := Some (Some q))) x \<noteq> (cells(p := Some (Some q))) x" using Suc.prems by simp
    from Suc.IH [OF this] show ?thesis by simp
  qed simp
qed (auto split: if_splits)

lemma addrs_nth: "i < n \<Longrightarrow> addrs v n p ! i = take (IP_SIZE v) (drop (i * IP_SIZE_META_PAIR v) p)"
proof (induction n arbitrary: p i)
  case (Suc n)
  then show ?case by (cases i) (simp_all add: add.commute)
qed simp

lemma concat_slice:
  "\<forall>a \<in> set as. length a = k \<Longrightarrow> i < length as \<Longrightarrow> take k (drop (i * k) (concat as @ rest)) = as ! i"
proof (induction as arbitrary: i)
  case (Cons a as)
  then show ?case by (cases i) simp_all
qed simp

lemma addr_cells_value:
  "addr_cells k p q n cells x = Some (Some r) \<Longrightarrow> cells x = Some (Some r) \<or> (\<exists>i < k. r = q + i * n)"
proof (induction k arbitrary: p q cells)
  case (Suc k)
  from Suc.prems have "addr_cells k (p + 8) (q + n) n (cells(p := Some (Some q))) x = Some (Some r)" by simp
  from Suc.IH [OF this] consider "(cells(p := Some (Some q))) x = Some (Some r)" | i where "i < k" "r = q + n + i * n" by blast
  then show ?case
  proof cases
    case 1
    then show ?thesis by (cases "x = p") auto
  next
    case 2
    then show ?thesis by (intro disjI2 exI [of _ "Suc i"]) simp
  qed
qed (auto split: if_splits)

text \<open>
  What \<open>gethostbyname\<close> promises its caller: the name, the list of the addresses, everything inside the buffer of the caller, and no pointer on
  top of an address or of the name.
\<close>

definition hostent_for :: "ipver \<Rightarrow> bytes \<Rightarrow> bytes list \<Rightarrow> nat \<Rightarrow> HOSTENT \<Rightarrow> bool" where
  "hostent_for v host as buflen he \<longleftrightarrow>
     length (he_buffer he) = buflen \<and> cstr (drop (h_name he) (he_buffer he)) = host \<and> h_length he = IP_SIZE v \<and>
     he_cells he (h_aliases he) = Some None \<and>
     (\<forall>i < length as. \<exists>q. he_cells he (h_addr_list he + 8 * i) = Some (Some q) \<and> q + IP_SIZE v \<le> buflen \<and>
        take (IP_SIZE v) (drop q (he_buffer he)) = as ! i) \<and>
     he_cells he (h_addr_list he + 8 * length as) = Some None \<and>
     (\<forall>x. he_cells he x \<noteq> None \<longrightarrow> h_name he + length host < x \<and> x + 8 \<le> buflen) \<and>
     (\<forall>x y q. he_cells he x \<noteq> None \<and> he_cells he y = Some (Some q) \<longrightarrow> x + 8 \<le> q \<or> q + IP_SIZE v \<le> x)"

definition hostent_size :: "ipver \<Rightarrow> bytes \<Rightarrow> nat \<Rightarrow> nat" where
  "hostent_size v host n = (length host + 1) + 8 + n * IP_SIZE v + (n + 1) * 8"

lemma drop_behind: "length p = a \<Longrightarrow> drop (a + j) (p @ x) = drop j x"
  by auto

lemma hostent_filled:
  assumes d: "plain_name host" and as: "\<forall>a \<in> set as. length a = IP_SIZE v" and ne: "as \<noteq> []" and room: "hostent_size v host (length as) \<le> buflen"
    and ask: "ngethostbyname v pid stack net r host = Some as" and val: "nss_valid host"
  shows "\<exists>he. nss_tk_hostent v pid stack net r host buflen = Some (NSS_STATUS_SUCCESS, Some he) \<and> hostent_for v host as buflen he"
proof -
  let ?n = "length as" and ?k = "IP_SIZE v" and ?a = "length host + 1 + 8"
  let ?l = "?a + ?n * ?k" and ?none = "(\<lambda>_. None)(length host + 1 := Some None)"
  let ?c = "addr_cells ?n ?l ?a ?k ?none"
  let ?b = "host @ replicate 9 0 @ concat as @ replicate (buflen - ?l) 0"
  have sz: "?l + (?n + 1) * 8 \<le> buflen" using room by (simp add: hostent_size_def)
  have cl: "length (concat as) = ?n * ?k" by (rule concat_length [OF as])
  have b1: "put_at (replicate buflen 0) 0 host = Some (host @ replicate (buflen - length host) 0)"
    using sz by (simp add: put_at_def)
  have b2: "put_at (host @ replicate (buflen - length host) 0) ?a (concat as) = Some ?b"
    using sz cl by (simp add: put_at_def min_def add.assoc add.left_commute)
  have lb: "length ?b = buflen" using sz cl by simp
  let ?he = "\<lparr>he_buffer = ?b, he_cells = ?c, h_name = 0, h_aliases = length host + 1, h_length = ?k, h_addr_list = ?l\<rparr>"
  have "\<not> buflen < length host + 1 + 8 + ?n * ?k + (?n + 1) * 8" using sz by simp
  moreover have "\<not> ?n = 0" using ne by simp
  ultimately have run: "nss_tk_hostent v pid stack net r host buflen = Some (NSS_STATUS_SUCCESS, Some ?he)"
    by (simp only: nss_tk_hostent_def val ask b1 b2 Let_def bind.bind_lunit if_False not_True_eq_False simp_thms)
  have al: "?c (length host + 1) = Some None" by (subst addr_cells_below) simp_all
  have at: "?c (?l + 8 * i) = Some (Some (?a + i * ?k)) \<and> ?a + i * ?k + ?k \<le> ?l \<and> take ?k (drop (?a + i * ?k) ?b) = as ! i"
    if i: "i < ?n" for i
  proof -
    have "Suc i * ?k \<le> ?n * ?k" using i by (intro mult_le_mono1) simp
    moreover have "drop (?a + i * ?k) ?b = drop (i * ?k) (concat as @ replicate (buflen - ?l) 0)"
      using drop_behind [of "host @ replicate 9 0" ?a "i * ?k"] by simp
    ultimately show ?thesis using addr_cells_at [OF i] concat_slice [OF as i, of "replicate (buflen - ?l) 0"] cl
      by (simp del: take_append drop_append)
  qed
  have cells: "x = length host + 1 \<or> ?l \<le> x \<and> x \<le> ?l + 8 * ?n" if "?c x \<noteq> None" for x
    using that addr_cells_only [of ?n ?l ?a ?k ?none x] by (cases "x = length host + 1") auto
  have vals: "?a \<le> q \<and> q + ?k \<le> ?l" if "?c y = Some (Some q)" for y q
    using addr_cells_value [OF that] at by (auto split: if_splits)
  have nm: "cstr ?b = host" using cstr_host [OF d, of "replicate 8 0 @ concat as @ replicate (buflen - ?l) 0"]
    by (simp add: numeral_eq_Suc)
  have "hostent_for v host as buflen ?he" unfolding hostent_for_def
  proof (intro conjI allI impI)
    fix i assume "i < ?n"
    then show "\<exists>q. he_cells ?he (h_addr_list ?he + 8 * i) = Some (Some q) \<and> q + ?k \<le> buflen \<and> take ?k (drop q (he_buffer ?he)) = as ! i"
      using at [of i] sz by (intro exI [of _ "?a + i * ?k"]) simp
  next
    fix x assume "he_cells ?he x \<noteq> None"
    then have "?c x \<noteq> None" by simp
    from cells [OF this] sz show "h_name ?he + length host < x" "x + 8 \<le> buflen" by auto
  next
    fix x y q assume "he_cells ?he x \<noteq> None \<and> he_cells ?he y = Some (Some q)"
    then have "?c x \<noteq> None" "?c y = Some (Some q)" by simp_all
    from cells [OF this(1)] vals [OF this(2)] show "x + 8 \<le> q \<or> q + ?k \<le> x" by auto
  qed (use lb nm al addr_cells_end in simp_all)
  with run show ?thesis by blast
qed

lemma hostent_small:
  assumes "as \<noteq> []" and "buflen < hostent_size v host (length as)"
    and "ngethostbyname v pid stack net r host = Some as" and "nss_valid host"
  shows "nss_tk_hostent v pid stack net r host buflen = Some (NSS_STATUS_TRYAGAIN, None)"
  using assms by (simp add: nss_tk_hostent_def hostent_size_def Let_def)

text \<open>The tuples of \<open>gethostbyname4_r\<close> are chained in order.\<close>

definition tuples_for :: "bytes list \<Rightarrow> GAIH list \<Rightarrow> bool" where
  "tuples_for as ts \<longleftrightarrow> map g_addr ts = as \<and>
     (\<forall>i < length ts. g_next (ts ! i) = (if Suc i < length ts then Some (g_at (ts ! Suc i)) else None))"

lemma gaih_loop_at: "as \<noteq> [] \<Longrightarrow> g_at (gaih_loop as p ! 0) = p"
  by (cases as) simp_all

lemma gaih_loop_for: "tuples_for as (gaih_loop as p)"
proof (induction as arbitrary: p)
  case (Cons a as)
  let ?ts = "gaih_loop as (p + 40)"
  have l: "length ?ts = length as" using Cons.IH [of "p + 40"] unfolding tuples_for_def by (metis length_map)
  have "g_next (gaih_loop (a # as) p ! i) =
      (if Suc i < length (gaih_loop (a # as) p) then Some (g_at (gaih_loop (a # as) p ! Suc i)) else None)"
    if "i < length (gaih_loop (a # as) p)" for i
    using that Cons.IH [of "p + 40"] l gaih_loop_at [of as "p + 40"] by (cases i) (auto simp: tuples_for_def)
  then show ?case using Cons.IH [of "p + 40"] by (simp add: tuples_for_def)
qed (simp add: tuples_for_def)

lemma gaih_filled:
  assumes "as \<noteq> []" and "length host + 1 + length as * 40 \<le> buflen"
    and "ngethostbyname v pid stack net r host = Some as" and "nss_valid host"
  shows "\<exists>ts. nss_tk_gaih_tuple v pid stack net r host buflen = Some (NSS_STATUS_SUCCESS, ts) \<and> tuples_for as ts"
  using assms gaih_loop_for [of as "length host + 1"] by (simp add: nss_tk_gaih_tuple_def)

section \<open>Resolving a name\<close>

text \<open>The addresses the daemon gives out for an entry of its cache: the eight most recent ones.\<close>

definition given_out :: "ipver \<Rightarrow> centry \<Rightarrow> bytes list" where
  "given_out v e = map (\<lambda>n. take (IP_SIZE v) (nc_pair n)) (take 8 (fst e))"

lemma addrs_concat:
  "\<forall>p \<in> set ps. length p = IP_SIZE_META_PAIR v \<Longrightarrow> addrs v (length ps) (concat ps) = map (take (IP_SIZE v)) ps"
proof (induction ps)
  case (Cons p ps)
  then have "length p = IP_SIZE_META_PAIR v" by simp
  then have "take (IP_SIZE v) (p @ concat ps) = take (IP_SIZE v) p" "drop (IP_SIZE_META_PAIR v) (p @ concat ps) = concat ps"
    by (simp_all add: IP_SIZE_META_PAIR_def)
  then show ?case using Cons by simp
qed simp

lemma name_resolved:
  assumes cache: "cache_rep (w_ver W) (s_cache m) ts" and sha: "sha1_law W"
    and e: "map_of ts (id_hostid W host (c_realm (s_conf m)) (c_bool_realm (s_conf m))) = Some e" "fst e \<noteq> []"
    and host: "nss_valid host" "labels_ok host" "length host < 192"
    and fits: "reply_size (w_ver W) host (length (given_out (w_ver W) e)) \<le> UDP_BUF" and ll: "\<not> ip_is_linklocal (w_ver W) from"
    and st: "length stack = 65536" and room: "0 < room"
  shows "ngethostbyname (w_ver W) pid stack (daemon_net W self junk m from) room host = Some (given_out (w_ver W) e)"
    and "plain_name host" and "\<forall>a \<in> set (given_out (w_ver W) e). length a = IP_SIZE (w_ver W)"
proof -
  let ?v = "w_ver W" and ?k = "id_hostid W host (c_realm (s_conf m)) (c_bool_realm (s_conf m))"
  let ?ps = "map nc_pair (take 8 (fst e))" and ?n = "length (given_out (w_ver W) e)"
  have val: "str_valid_hostname host (length host)" using host(1) by (simp add: nss_valid_def)
  show pl: "plain_name host" by (rule valid_plain [OF val host(2,3)])
  have ps: "\<forall>p \<in> set ?ps. length p = IP_SIZE_META_PAIR ?v"
    using cache_pairs_length [OF cache map_of_SomeD [OF e(1)]] by (auto dest: in_set_takeD)
  have n: "?n = length ?ps" "0 < ?n" "?n \<le> 8" using e(2) by (simp_all add: given_out_def)
  have as: "addrs ?v ?n (concat ?ps) = given_out ?v e"
    using addrs_concat [OF ps] by (simp add: given_out_def comp_def)
  have len: "length (concat ?ps) = ?n * IP_SIZE_META_PAIR ?v" using concat_length [OF ps] n(1) by simp
  show "\<forall>a \<in> set (given_out ?v e). length a = IP_SIZE ?v" using addrs_size [OF len] by (simp only: as)
  have "c_peers ts ?k = concat ?ps" by (simp add: c_peers_def e(1))
  with cache_compact_list_ok [OF cache id_hostid_length [OF sha], of _ _ _ "clock m"] obtain c where
    "cache_compact_list (s_cache m) ?k (clock m) = Some (c, concat ?ps)" by metis
  from daemon_answers [OF pl val len n(2,3) fits ll this] obtain msg where
    "daemon_net W self junk m from (query_bytes ?v pid host) = Some (reply_bytes ?v msg host ?n (concat ?ps))" by blast
  from client_gets [where net = "daemon_net W self junk m from", OF pl len n(2,3) fits st room this] show
    "ngethostbyname ?v pid stack (daemon_net W self junk m from) room host = Some (given_out ?v e)" by (simp only: as)
qed

end
