(* ===== verification/Sha1.thy ===== *)
theory Sha1
  imports Prelude
begin

text \<open>
  The SHA-1 that is built in, \<^verbatim>\<open>src/src/ext/sha1-linus.c\<close> behind \<open>sha1_hash\<close> of \<^verbatim>\<open>src/src/p2p/sha1.c\<close>, with the registers
  that are renamed from call to call, the array of sixteen words that is used in a circle and the buffering of partial
  blocks; and the algorithm as FIPS 180-4 describes it, on whole messages.  The theorem at the end says that they agree.
\<close>

section \<open>Words and bytes\<close>

type_synonym word32 = "32 word"

definition get_be32 :: "bytes \<Rightarrow> nat \<Rightarrow> word32" where
  "get_be32 block p = push_bit 24 (ucast (block ! p)) OR push_bit 16 (ucast (block ! (p + 1))) OR
     push_bit 8 (ucast (block ! (p + 2))) OR ucast (block ! (p + 3))"

definition put_be32 :: "word32 \<Rightarrow> bytes" where
  "put_be32 v = [ucast (drop_bit 24 v), ucast (drop_bit 16 v), ucast (drop_bit 8 v), ucast v]"

section \<open>One block\<close>

record SHA_CTX =
  sha_size :: "64 word"
  sha_H :: "word32 list"
  sha_W :: bytes

definition SHA_SRC :: "bytes \<Rightarrow> nat \<Rightarrow> word32" where
  "SHA_SRC block t = get_be32 block (t * 4)"

definition SHA_MIX :: "word32 list \<Rightarrow> nat \<Rightarrow> word32" where
  "SHA_MIX array t = word_rotl 1
     (array ! ((t + 13) mod 16) XOR array ! ((t + 8) mod 16) XOR array ! ((t + 2) mod 16) XOR array ! (t mod 16))"

text \<open>
  The register that stands at place \<open>j\<close> of the call number \<open>t\<close>: \<open>A, B, C, D, E\<close>, then \<open>E, A, B, C, D\<close>, and so on.
\<close>

definition reg :: "nat \<Rightarrow> nat \<Rightarrow> nat" where
  "reg t j = (j + 4 * t) mod 5"

definition SHA_ROUND :: "nat \<Rightarrow> word32 \<Rightarrow> (word32 \<Rightarrow> word32 \<Rightarrow> word32 \<Rightarrow> word32) \<Rightarrow> word32 \<Rightarrow> word32 list \<times> word32 list \<Rightarrow>
    word32 list \<times> word32 list" where
  "SHA_ROUND t TEMP fn constant = (\<lambda>(array, R).
     let array = array[t mod 16 := TEMP];
         R = R[reg t 4 := R ! reg t 4 +
           (TEMP + word_rotl 5 (R ! reg t 0) + fn (R ! reg t 1) (R ! reg t 2) (R ! reg t 3) + constant)];
         R = R[reg t 1 := word_rotr 2 (R ! reg t 1)]
     in (array, R))"

definition T_0_15 :: "bytes \<Rightarrow> nat \<Rightarrow> word32 list \<times> word32 list \<Rightarrow> word32 list \<times> word32 list" where
  "T_0_15 block t S = SHA_ROUND t (SHA_SRC block t) (\<lambda>B C D. ((C XOR D) AND B) XOR D) 0x5a827999 S"

definition T_16_19 :: "nat \<Rightarrow> word32 list \<times> word32 list \<Rightarrow> word32 list \<times> word32 list" where
  "T_16_19 t S = SHA_ROUND t (SHA_MIX (fst S) t) (\<lambda>B C D. ((C XOR D) AND B) XOR D) 0x5a827999 S"

definition T_20_39 :: "nat \<Rightarrow> word32 list \<times> word32 list \<Rightarrow> word32 list \<times> word32 list" where
  "T_20_39 t S = SHA_ROUND t (SHA_MIX (fst S) t) (\<lambda>B C D. B XOR C XOR D) 0x6ed9eba1 S"

definition T_40_59 :: "nat \<Rightarrow> word32 list \<times> word32 list \<Rightarrow> word32 list \<times> word32 list" where
  "T_40_59 t S = SHA_ROUND t (SHA_MIX (fst S) t) (\<lambda>B C D. (B AND C) + (D AND (B XOR C))) 0x8f1bbcdc S"

definition T_60_79 :: "nat \<Rightarrow> word32 list \<times> word32 list \<Rightarrow> word32 list \<times> word32 list" where
  "T_60_79 t S = SHA_ROUND t (SHA_MIX (fst S) t) (\<lambda>B C D. B XOR C XOR D) 0xca62c1d6 S"

text \<open>The eighty calls.  The array is written before it is read, so what it holds at first does not matter.\<close>

definition blk_SHA1_Block :: "SHA_CTX \<Rightarrow> bytes \<Rightarrow> SHA_CTX" where
  "blk_SHA1_Block ctx block =
     (let S = (replicate 16 0, sha_H ctx);
          S = fold (T_0_15 block) [0..<16] S;
          S = fold T_16_19 [16..<20] S;
          S = fold T_20_39 [20..<40] S;
          S = fold T_40_59 [40..<60] S;
          S = fold T_60_79 [60..<80] S
      in ctx\<lparr>sha_H := map2 (+) (sha_H ctx) (snd S)\<rparr>)"

section \<open>Messages in pieces\<close>

definition H_magic :: "word32 list" where
  "H_magic = [0x67452301, 0xefcdab89, 0x98badcfe, 0x10325476, 0xc3d2e1f0]"

text \<open>The buffer is not initialised: \<open>junk\<close>.\<close>

definition blk_SHA1_Init :: "bytes \<Rightarrow> SHA_CTX" where
  "blk_SHA1_Init junk = \<lparr>sha_size = 0, sha_H = H_magic, sha_W = junk\<rparr>"

function block_loop :: "SHA_CTX \<Rightarrow> bytes \<Rightarrow> SHA_CTX \<times> bytes" where
  "block_loop ctx d =
     (if length d \<ge> 64 then block_loop (blk_SHA1_Block ctx (take 64 d)) (drop 64 d) else (ctx, d))"
  by pat_completeness auto
termination
  by (relation "measure (\<lambda>(ctx, d). length d)") auto

declare block_loop.simps [simp del]

definition memcpy_at :: "bytes \<Rightarrow> nat \<Rightarrow> bytes \<Rightarrow> bytes" where
  "memcpy_at W p d = take p W @ d @ drop (p + length d) W"

definition blk_SHA1_Update :: "SHA_CTX \<Rightarrow> bytes \<Rightarrow> SHA_CTX" where
  "blk_SHA1_Update ctx d =
     (let lenW = unat (sha_size ctx AND 63);
          ctx = ctx\<lparr>sha_size := sha_size ctx + of_nat (length d)\<rparr>;
          rest = (\<lambda>ctx d. let (ctx, d) = block_loop ctx d
            in if d = [] then ctx else ctx\<lparr>sha_W := memcpy_at (sha_W ctx) 0 d\<rparr>)
      in if lenW = 0 then rest ctx d
         else
           let left = min (length d) (64 - lenW);
               ctx = ctx\<lparr>sha_W := memcpy_at (sha_W ctx) lenW (take left d)\<rparr>
           in if (lenW + left) mod 64 \<noteq> 0 then ctx
              else rest (blk_SHA1_Block ctx (sha_W ctx)) (drop left d))"

text \<open>\<open>63 & (55 - i)\<close> is on \<open>int\<close>, and the second number may be negative.\<close>

definition blk_SHA1_Final :: "SHA_CTX \<Rightarrow> bytes" where
  "blk_SHA1_Final ctx =
     (let pad = 0x80 # replicate 63 0;
          padlen = put_be32 (ucast (drop_bit 29 (sha_size ctx))) @ put_be32 (ucast (push_bit 3 (sha_size ctx)));
          i = int (unat (sha_size ctx AND 63));
          ctx = blk_SHA1_Update ctx (take (1 + nat (63 AND (55 - i))) pad);
          ctx = blk_SHA1_Update ctx padlen
      in concat (map put_be32 (sha_H ctx)))"

definition sha1_hash :: "bytes \<Rightarrow> bytes \<Rightarrow> bytes" where
  "sha1_hash junk buffer = blk_SHA1_Final (blk_SHA1_Update (blk_SHA1_Init junk) buffer)"

section \<open>The standard\<close>

definition choice :: "word32 \<Rightarrow> word32 \<Rightarrow> word32 \<Rightarrow> word32" where
  "choice x y z = (x AND y) XOR (NOT x AND z)"

definition parity :: "word32 \<Rightarrow> word32 \<Rightarrow> word32 \<Rightarrow> word32" where
  "parity x y z = x XOR y XOR z"

definition majority :: "word32 \<Rightarrow> word32 \<Rightarrow> word32 \<Rightarrow> word32" where
  "majority x y z = (x AND y) XOR (x AND z) XOR (y AND z)"

definition std_f :: "nat \<Rightarrow> word32 \<Rightarrow> word32 \<Rightarrow> word32 \<Rightarrow> word32" where
  "std_f t = (if t < 20 then choice else if t < 40 then parity else if t < 60 then majority else parity)"

definition std_k :: "nat \<Rightarrow> word32" where
  "std_k t = (if t < 20 then 0x5a827999 else if t < 40 then 0x6ed9eba1 else if t < 60 then 0x8f1bbcdc else 0xca62c1d6)"

text \<open>The message schedule: sixteen words of the block, and sixty-four more.\<close>

fun expand :: "nat \<Rightarrow> word32 list \<Rightarrow> word32 list" where
  "expand 0 w = w"
| "expand (Suc n) w =
     (let t = length w in expand n (w @ [word_rotl 1 (w ! (t - 3) XOR w ! (t - 8) XOR w ! (t - 14) XOR w ! (t - 16))]))"

definition schedule :: "bytes \<Rightarrow> word32 list" where
  "schedule block = expand 64 (map (\<lambda>t. get_be32 block (4 * t)) [0..<16])"

type_synonym chain = "word32 \<times> word32 \<times> word32 \<times> word32 \<times> word32"

definition std_round :: "word32 list \<Rightarrow> nat \<Rightarrow> chain \<Rightarrow> chain" where
  "std_round w t = (\<lambda>(a, b, c, d, e). (word_rotl 5 a + std_f t b c d + e + std_k t + w ! t, a, word_rotl 30 b, c, d))"

definition std_block :: "chain \<Rightarrow> bytes \<Rightarrow> chain" where
  "std_block h block = (case h of (a, b, c, d, e) \<Rightarrow>
     (case fold (std_round (schedule block)) [0..<80] h of (a', b', c', d', e') \<Rightarrow> (a + a', b + b', c + c', d + d', e + e')))"

text \<open>
  All full blocks of a message, and the bytes behind them.
\<close>

function std_blocks :: "chain \<Rightarrow> bytes \<Rightarrow> chain \<times> bytes" where
  "std_blocks h m = (if length m \<ge> 64 then std_blocks (std_block h (take 64 m)) (drop 64 m) else (h, m))"
  by pat_completeness auto
termination
  by (relation "measure (\<lambda>(h, m). length m)") auto

declare std_blocks.simps [simp del]

text \<open>Padding: a one, as few zeros as possible, and the length in bits, as a number of 64 bits.\<close>

definition std_padded :: "bytes \<Rightarrow> bytes" where
  "std_padded m = m @ 0x80 # replicate ((119 - length m mod 64) mod 64) 0 @
     (let l = (of_nat (8 * length m) :: 64 word) in put_be32 (ucast (drop_bit 32 l)) @ put_be32 (ucast l))"

definition std_init :: chain where
  "std_init = (0x67452301, 0xefcdab89, 0x98badcfe, 0x10325476, 0xc3d2e1f0)"

definition std_sha1 :: "bytes \<Rightarrow> bytes" where
  "std_sha1 m = (case fst (std_blocks std_init (std_padded m)) of (a, b, c, d, e) \<Rightarrow> concat (map put_be32 [a, b, c, d, e]))"

section \<open>The rounds agree\<close>

lemma choice_code: "((c XOR d) AND b) XOR d = choice b c d"
  unfolding choice_def by (rule bit_word_eqI) (auto simp: bit_simps)

lemma majority_code: "(b AND c) + (d AND (b XOR c)) = majority b c d"
proof -
  have "(b AND c) AND (d AND (b XOR c)) = 0" by (rule bit_word_eqI) (auto simp: bit_simps)
  from disjunctive_add_eq_or [OF this] have "(b AND c) + (d AND (b XOR c)) = (b AND c) OR (d AND (b XOR c))" .
  also have "\<dots> = majority b c d" unfolding majority_def by (rule bit_word_eqI) (auto simp: bit_simps)
  finally show ?thesis .
qed

lemma rotate_code: "word_rotr 2 b = word_rotl 30 (b :: word32)"
  by (simp add: word_rotl_eq_word_rotr)

text \<open>The schedule.\<close>

lemma expand_length [simp]: "length (expand n w) = length w + n"
  by (induction n arbitrary: w) (auto simp: Let_def)

lemma expand_old: "i < length w \<Longrightarrow> expand n w ! i = w ! i"
  by (induction n arbitrary: w) (auto simp: Let_def nth_append)

lemma expand_new:
  "16 \<le> length w \<Longrightarrow> length w \<le> t \<Longrightarrow> t < length w + n \<Longrightarrow> expand n w ! t = word_rotl 1
     (expand n w ! (t - 3) XOR expand n w ! (t - 8) XOR expand n w ! (t - 14) XOR expand n w ! (t - 16))"
proof (induction n arbitrary: w)
  case (Suc n)
  let ?x = "word_rotl 1 (w ! (length w - 3) XOR w ! (length w - 8) XOR w ! (length w - 14) XOR w ! (length w - 16))"
  have e: "expand (Suc n) w = expand n (w @ [?x])" by (simp add: Let_def)
  show ?case
  proof (cases "t = length w")
    case True
    have "expand n (w @ [?x]) ! (length w - k) = w ! (length w - k)" if "0 < k" "k \<le> 16" for k
    proof -
      have "length w - k < length w" using that Suc.prems(1) by linarith
      then show ?thesis using expand_old [of "length w - k" "w @ [?x]" n] by (simp add: nth_append)
    qed
    moreover have "expand n (w @ [?x]) ! length w = ?x" using expand_old [of "length w" "w @ [?x]" n] by simp
    ultimately show ?thesis unfolding e True by simp
  next
    case False
    then show ?thesis unfolding e using Suc.prems by (intro Suc.IH) auto
  qed
qed simp

lemma schedule_length [simp]: "length (schedule block) = 80"
  by (simp add: schedule_def)

lemma schedule_first: "t < 16 \<Longrightarrow> schedule block ! t = SHA_SRC block t"
  by (simp add: schedule_def expand_old SHA_SRC_def mult.commute)

lemma schedule_next:
  "16 \<le> t \<Longrightarrow> t < 80 \<Longrightarrow> schedule block ! t = word_rotl 1
     (schedule block ! (t - 3) XOR schedule block ! (t - 8) XOR schedule block ! (t - 14) XOR schedule block ! (t - 16))"
  unfolding schedule_def by (rule expand_new) simp_all

text \<open>The array holds the last sixteen words, and the registers the chain, in the order of the next call.\<close>

definition array_ok :: "word32 list \<Rightarrow> nat \<Rightarrow> word32 list \<Rightarrow> bool" where
  "array_ok w t array \<longleftrightarrow> length array = 16 \<and> (\<forall>s < t. t \<le> s + 16 \<longrightarrow> array ! (s mod 16) = w ! s)"

definition regs_ok :: "nat \<Rightarrow> word32 list \<Rightarrow> chain \<Rightarrow> bool" where
  "regs_ok t R h \<longleftrightarrow> length R = 5 \<and> h = (R ! reg t 0, R ! reg t 1, R ! reg t 2, R ! reg t 3, R ! reg t 4)"

lemma array_step:
  assumes "array_ok w t array"
  shows "array_ok w (Suc t) (array[t mod 16 := w ! t])"
  unfolding array_ok_def
proof (intro conjI allI impI)
  fix s assume s: "s < Suc t" "Suc t \<le> s + 16"
  show "array[t mod 16 := w ! t] ! (s mod 16) = w ! s"
  proof (cases "s = t")
    case False
    then have "s mod 16 \<noteq> t mod 16" using s mod_eq_dvd_iff_nat [of s t 16] by (auto dest: dvd_imp_le)
    then show ?thesis using assms s False by (simp add: array_ok_def)
  qed (use assms in \<open>simp add: array_ok_def\<close>)
qed (use assms in \<open>simp add: array_ok_def\<close>)

lemma array_back:
  assumes "array_ok w t array" and "16 \<le> t" and "0 < k" and "k \<le> 16"
  shows "array ! ((t + (16 - k)) mod 16) = w ! (t - k)"
proof -
  have "(t + (16 - k)) mod 16 = (t - k + 16) mod 16" using assms by simp
  then have "(t + (16 - k)) mod 16 = (t - k) mod 16" by simp
  moreover have "array ! ((t - k) mod 16) = w ! (t - k)" using assms by (simp add: array_ok_def)
  ultimately show ?thesis by simp
qed

lemma mix_is_schedule:
  assumes "array_ok (schedule block) t array" and "16 \<le> t" and "t < 80"
  shows "SHA_MIX array t = schedule block ! t"
  using array_back [OF assms(1,2), of 3] array_back [OF assms(1,2), of 8] array_back [OF assms(1,2), of 14] array_back [OF assms(1,2), of 16]
    schedule_next [OF assms(2,3), of block] by (simp add: SHA_MIX_def)

lemma reg_next: "reg (Suc t) 0 = reg t 4" "reg (Suc t) (Suc j) = reg t j"
proof -
  have "Suc j + 4 * Suc t = j + 4 * t + 5" by simp
  then show "reg (Suc t) (Suc j) = reg t j" by (simp only: reg_def mod_add_self2)
qed (simp add: reg_def)

lemma mod_once: "(n :: nat) < 10 \<Longrightarrow> n mod 5 = (if n < 5 then n else n - 5)"
  by (cases "n < 5") (simp_all add: le_mod_geq)

lemma reg_differ: "i < 5 \<Longrightarrow> j < 5 \<Longrightarrow> reg t i = reg t j \<longleftrightarrow> i = j"
proof -
  assume ij: "i < 5" "j < 5"
  obtain y where y: "y < 5" "\<And>k. reg t k = (k + y) mod 5"
  proof
    show "4 * t mod 5 < 5" "reg t k = (k + 4 * t mod 5) mod 5" for k unfolding reg_def by (simp_all only: mod_add_right_eq mod_less_divisor)
  qed
  from ij y(1) have "i + y < 10" "j + y < 10" by simp_all
  then show ?thesis unfolding y(2) mod_once [OF \<open>i + y < 10\<close>] mod_once [OF \<open>j + y < 10\<close>] using ij y(1)
    by (cases "i + y < 5"; cases "j + y < 5") (simp_all, linarith)
qed

lemma reg_nexts: "reg (Suc t) (Suc 0) = reg t 0" "reg (Suc t) 2 = reg t (Suc 0)" "reg (Suc t) 3 = reg t 2" "reg (Suc t) 4 = reg t 3"
  using reg_next(2) [of t] by (simp_all add: numeral_eq_Suc)

lemma reg_less [simp]: "reg t j < 5"
  by (simp add: reg_def)

lemma round_step:
  assumes "array_ok w t array" and "regs_ok t R h"
  shows "\<exists>array' R'. SHA_ROUND t (w ! t) (std_f t) (std_k t) (array, R) = (array', R') \<and> array_ok w (Suc t) array' \<and>
    regs_ok (Suc t) R' (std_round w t h)"
proof -
  let ?e = "R ! reg t 4 + (w ! t + word_rotl 5 (R ! reg t 0) + std_f t (R ! reg t 1) (R ! reg t 2) (R ! reg t 3) + std_k t)"
  let ?R = "R[reg t 4 := ?e, reg t 1 := word_rotr 2 (R ! reg t 1)]"
  have l: "length R = 5" using assms(2) by (simp add: regs_ok_def)
  have "SHA_ROUND t (w ! t) (std_f t) (std_k t) (array, R) = (array[t mod 16 := w ! t], ?R)"
    by (simp add: SHA_ROUND_def Let_def reg_differ)
  moreover have "regs_ok (Suc t) ?R (std_round w t h)"
    using assms(2) l by (simp add: regs_ok_def reg_next(1) reg_nexts reg_differ std_round_def rotate_code algebra_simps)
  ultimately show ?thesis using array_step [OF assms(1)] by blast
qed

text \<open>Calls number \<open>i\<close> to \<open>j\<close> of the code against the rounds of the standard.\<close>

definition rounds_ok :: "bytes \<Rightarrow> nat \<Rightarrow> word32 list \<times> word32 list \<Rightarrow> chain \<Rightarrow> bool" where
  "rounds_ok block t S h \<longleftrightarrow> array_ok (schedule block) t (fst S) \<and> regs_ok t (snd S) h"

lemma rounds_fold:
  assumes "\<And>t S. i \<le> t \<Longrightarrow> t < j \<Longrightarrow> array_ok (schedule block) t (fst S) \<Longrightarrow> T t S = SHA_ROUND t (schedule block ! t) (std_f t) (std_k t) S"
    and "i \<le> j" and "rounds_ok block i S h"
  shows "rounds_ok block j (fold T [i..<j] S) (fold (std_round (schedule block)) [i..<j] h)"
  using assms(2,1)
proof (induction j rule: dec_induct)
  case base
  then show ?case using assms(3) by simp
next
  case (step j)
  let ?S = "fold T [i..<j] S" and ?h = "fold (std_round (schedule block)) [i..<j] h"
  have ok: "rounds_ok block j ?S ?h" by (rule step.IH) (use step.prems in auto)
  obtain array R where S: "?S = (array, R)" by fastforce
  have "T j ?S = SHA_ROUND j (schedule block ! j) (std_f j) (std_k j) ?S"
    by (rule step.prems) (use ok step.hyps in \<open>auto simp: rounds_ok_def\<close>)
  with round_step [of "schedule block" j array R ?h] ok
  have "rounds_ok block (Suc j) (T j ?S) (std_round (schedule block) j ?h)" by (auto simp: rounds_ok_def S)
  then show ?case using step.hyps by simp
qed

lemma std_f_cases: "t < 20 \<Longrightarrow> std_f t = choice" "20 \<le> t \<Longrightarrow> t < 40 \<Longrightarrow> std_f t = parity"
    "40 \<le> t \<Longrightarrow> t < 60 \<Longrightarrow> std_f t = majority" "60 \<le> t \<Longrightarrow> std_f t = parity"
  by (simp_all add: std_f_def)

lemma std_k_cases: "t < 20 \<Longrightarrow> std_k t = 0x5a827999" "20 \<le> t \<Longrightarrow> t < 40 \<Longrightarrow> std_k t = 0x6ed9eba1"
    "40 \<le> t \<Longrightarrow> t < 60 \<Longrightarrow> std_k t = 0x8f1bbcdc" "60 \<le> t \<Longrightarrow> std_k t = 0xca62c1d6"
  by (simp_all add: std_k_def)

lemmas code_rounds = choice_code majority_code parity_def [abs_def, symmetric]

definition chain_list :: "chain \<Rightarrow> word32 list" where
  "chain_list h = (case h of (a, b, c, d, e) \<Rightarrow> [a, b, c, d, e])"

lemma regs_end: "regs_ok 80 R h \<Longrightarrow> R = chain_list h"
proof -
  assume r: "regs_ok 80 R h"
  then have "length R = 5" by (simp add: regs_ok_def)
  then obtain a b c d e where "R = [a, b, c, d, e]" by (auto simp: length_Suc_conv numeral_eq_Suc)
  with r show "R = chain_list h" by (simp add: regs_ok_def reg_def chain_list_def)
qed

lemma std_block_list: "chain_list (std_block h block) = map2 (+) (chain_list h) (chain_list (fold (std_round (schedule block)) [0..<80] h))"
proof -
  obtain k where "fold (std_round (schedule block)) [0..<80] h = k" by blast
  then show ?thesis unfolding std_block_def by (cases h; cases k) (simp only: chain_list_def prod.case, simp)
qed

lemma block_is_standard:
  assumes "sha_H ctx = chain_list h"
  shows "blk_SHA1_Block ctx block = ctx\<lparr>sha_H := chain_list (std_block h block)\<rparr>"
proof -
  obtain a b c d e where h: "h = (a, b, c, d, e)" by (cases h)
  let ?w = "schedule block"
  let ?f = "\<lambda>i j. fold (std_round ?w) [i..<j]"
  let ?S0 = "(replicate 16 0, sha_H ctx)"
  have S0: "rounds_ok block 0 ?S0 h"
    using assms by (simp add: rounds_ok_def array_ok_def regs_ok_def reg_def h chain_list_def)
  have S1: "rounds_ok block 16 (fold (T_0_15 block) [0..<16] ?S0) (?f 0 16 h)" (is "rounds_ok block 16 ?S1 ?h1")
    by (rule rounds_fold [OF _ _ S0]) (simp_all add: T_0_15_def schedule_first std_f_cases std_k_cases code_rounds)
  have S2: "rounds_ok block 20 (fold T_16_19 [16..<20] ?S1) (?f 16 20 ?h1)" (is "rounds_ok block 20 ?S2 ?h2")
    by (rule rounds_fold [OF _ _ S1]) (simp_all add: T_16_19_def mix_is_schedule std_f_cases std_k_cases code_rounds)
  have S3: "rounds_ok block 40 (fold T_20_39 [20..<40] ?S2) (?f 20 40 ?h2)" (is "rounds_ok block 40 ?S3 ?h3")
    by (rule rounds_fold [OF _ _ S2]) (simp_all add: T_20_39_def mix_is_schedule std_f_cases std_k_cases code_rounds)
  have S4: "rounds_ok block 60 (fold T_40_59 [40..<60] ?S3) (?f 40 60 ?h3)" (is "rounds_ok block 60 ?S4 ?h4")
    by (rule rounds_fold [OF _ _ S3]) (simp_all add: T_40_59_def mix_is_schedule std_f_cases std_k_cases code_rounds)
  have S5: "rounds_ok block 80 (fold T_60_79 [60..<80] ?S4) (?f 60 80 ?h4)" (is "rounds_ok block 80 ?S5 ?h5")
    by (rule rounds_fold [OF _ _ S4]) (simp_all add: T_60_79_def mix_is_schedule std_f_cases std_k_cases code_rounds)
  have join: "?f j k (?f i j x) = ?f i k x" if "i \<le> j" "j \<le> k" for i j k x
    using that fold_append [of "std_round ?w" "[i..<j]" "[j..<k]"] upt_add_eq_append [of i j "k - j"] by simp
  have "?f 16 20 (?f 0 16 h) = ?f 0 20 h" "?f 20 40 (?f 0 20 h) = ?f 0 40 h" "?f 40 60 (?f 0 40 h) = ?f 0 60 h" "?f 60 80 (?f 0 60 h) = ?f 0 80 h"
    by (rule join, simp, simp)+
  then have h5: "?h5 = ?f 0 80 h" by (simp only:)
  have "snd ?S5 = chain_list (?f 0 80 h)" using S5 unfolding h5 rounds_ok_def by (blast intro: regs_end)
  then show ?thesis unfolding blk_SHA1_Block_def Let_def by (simp only: assms std_block_list)
qed

section \<open>The pieces agree\<close>

lemma std_blocks_short [simp]: "length m < 64 \<Longrightarrow> std_blocks h m = (h, m)"
  by (subst std_blocks.simps) simp

lemma std_blocks_long: "length b = 64 \<Longrightarrow> std_blocks h (b @ m) = std_blocks (std_block h b) m"
  by (subst std_blocks.simps) simp

lemma std_blocks_append: "std_blocks h m = (h', r) \<Longrightarrow> std_blocks h (m @ d) = std_blocks h' (r @ d)"
proof (induction h m rule: std_blocks.induct)
  case (1 h m)
  show ?case
  proof (cases "length m \<ge> 64")
    case True
    have "std_blocks (std_block h (take 64 m)) (drop 64 m) = (h', r)" using "1.prems" True by (subst (asm) std_blocks.simps) simp
    from "1.IH" [OF True this] show ?thesis
      using True std_blocks_long [of "take 64 m" h "drop 64 m @ d"] by (simp del: append_assoc add: append_assoc [symmetric])
  qed (use "1.prems" in simp)
qed

lemma std_blocks_rest: "std_blocks h m = (h', r) \<Longrightarrow> length r = length m mod 64 \<and> length r < 64"
proof (induction h m rule: std_blocks.induct)
  case (1 h m)
  show ?case
  proof (cases "length m \<ge> 64")
    case True
    have "std_blocks (std_block h (take 64 m)) (drop 64 m) = (h', r)" using "1.prems" True by (subst (asm) std_blocks.simps) simp
    from "1.IH" [OF True this] show ?thesis using True by (simp add: le_mod_geq)
  qed (use "1.prems" in auto)
qed

lemma block_loop_is_standard:
  "sha_H ctx = chain_list h \<Longrightarrow> std_blocks h d = (h', r) \<Longrightarrow> block_loop ctx d = (ctx\<lparr>sha_H := chain_list h'\<rparr>, r)"
proof (induction ctx d arbitrary: h rule: block_loop.induct)
  case (1 ctx d)
  show ?case
  proof (cases "length d \<ge> 64")
    case True
    let ?h = "std_block h (take 64 d)"
    have b: "blk_SHA1_Block ctx (take 64 d) = ctx\<lparr>sha_H := chain_list ?h\<rparr>" by (rule block_is_standard [OF "1.prems"(1)])
    have "std_blocks ?h (drop 64 d) = (h', r)" using "1.prems"(2) True by (subst (asm) std_blocks.simps) simp
    with "1.IH" [OF True, of ?h] show ?thesis using True b by (subst block_loop.simps) simp
  next
    case False
    then show ?thesis using "1.prems" by (subst block_loop.simps) (cases ctx, auto)
  qed
qed

text \<open>The context after some bytes: the chain over the full blocks, the number of bytes, and the rest in the buffer.\<close>

definition absorbed :: "SHA_CTX \<Rightarrow> bytes \<Rightarrow> bool" where
  "absorbed ctx m \<longleftrightarrow> sha_size ctx = of_nat (length m) \<and> length (sha_W ctx) = 64 \<and>
     (\<exists>h r. std_blocks std_init m = (h, r) \<and> sha_H ctx = chain_list h \<and> take (length r) (sha_W ctx) = r)"

lemma absorbed_init: "length junk = 64 \<Longrightarrow> absorbed (blk_SHA1_Init junk) []"
  by (simp add: absorbed_def blk_SHA1_Init_def H_magic_def std_init_def chain_list_def)

lemma size_low: "unat ((of_nat n :: 64 word) AND 63) = n mod 64"
proof -
  have "(of_nat n :: 64 word) AND 63 = take_bit 6 (of_nat n)" by (simp add: take_bit_eq_mask mask_eq_exp_minus_1)
  also have "\<dots> = of_nat (take_bit 6 n)" by (simp add: take_bit_of_nat)
  finally show ?thesis by (simp add: unat_of_nat take_bit_eq_mod)
qed

lemma memcpy_at_length: "p + length d \<le> length W \<Longrightarrow> length (memcpy_at W p d) = length W"
  by (simp add: memcpy_at_def)

lemma memcpy_at_take: "p \<le> length W \<Longrightarrow> take (p + length d) (memcpy_at W p d) = take p W @ d"
  by (simp add: memcpy_at_def)

lemma absorb_rest:
  assumes "sha_H ctx = chain_list h" and "length (sha_W ctx) = 64" and "sha_size ctx = of_nat (length m)"
    and "std_blocks std_init m = std_blocks h d"
  shows "absorbed (let (ctx, d) = block_loop ctx d in if d = [] then ctx else ctx\<lparr>sha_W := memcpy_at (sha_W ctx) 0 d\<rparr>) m"
proof -
  obtain h' r where r: "std_blocks h d = (h', r)" by fastforce
  have l: "length r < 64" using std_blocks_rest [OF r] by simp
  have "take (length r) (memcpy_at (sha_W ctx) 0 r) = r" using memcpy_at_take [of 0 "sha_W ctx" r] by simp
  then show ?thesis using assms r l by (simp add: block_loop_is_standard absorbed_def memcpy_at_length)
qed

lemma absorb_update:
  assumes "absorbed ctx m"
  shows "absorbed (blk_SHA1_Update ctx d) (m @ d)"
proof -
  from assms obtain h r where a: "sha_size ctx = of_nat (length m)" "length (sha_W ctx) = 64" "std_blocks std_init m = (h, r)"
    "sha_H ctx = chain_list h" "take (length r) (sha_W ctx) = r" unfolding absorbed_def by blast
  note rest = std_blocks_rest [OF a(3)] and app = std_blocks_append [OF a(3)]
  have lw: "unat (sha_size ctx AND 63) = length r" unfolding a(1) size_low using rest by simp
  have lw': "unat ((of_nat (length m) :: 64 word) AND 63) = length r" using lw unfolding a(1) .
  let ?c = "ctx\<lparr>sha_size := sha_size ctx + of_nat (length d)\<rparr>"
  have sz: "sha_size ctx + of_nat (length d) = of_nat (length (m @ d))" by (simp add: a(1))
  let ?k = "min (length d) (64 - length r)"
  let ?W = "memcpy_at (sha_W ctx) (length r) (take ?k d)"
  have W: "length ?W = 64" "take (length r + ?k) ?W = r @ take ?k d"
    using memcpy_at_length [of "length r" "take ?k d" "sha_W ctx"] memcpy_at_take [of "length r" "sha_W ctx" "take ?k d"] a(2,5) rest
    by simp_all
  consider "length r = 0" | "length r \<noteq> 0" "length r + ?k < 64" | "length r \<noteq> 0" "length r + ?k = 64" using rest by linarith
  then show ?thesis
  proof cases
    case 1
    then have "std_blocks std_init (m @ d) = std_blocks h d" using app [of d] by simp
    from absorb_rest [OF _ _ _ this, of ?c] 1 a(2,4) sz show ?thesis by (simp add: blk_SHA1_Update_def lw lw' Let_def)
  next
    case 2
    then have k: "take ?k d = d" by simp
    have "length (r @ d) < 64" using 2 by simp
    then have "std_blocks std_init (m @ d) = (h, r @ d)" using app [of d] by simp
    moreover have "(length r + ?k) mod 64 \<noteq> 0" using 2 by simp
    ultimately show ?thesis using 2 a(4) sz W k by (simp add: blk_SHA1_Update_def lw lw' Let_def absorbed_def)
  next
    case 3
    then have k: "length (r @ take ?k d) = 64" "?W = r @ take ?k d" using W by auto
    have "r @ d = (r @ take ?k d) @ drop ?k d" by simp
    then have e: "std_blocks std_init (m @ d) = std_blocks (std_block h (r @ take ?k d)) (drop ?k d)"
      using std_blocks_long [OF k(1), of h "drop ?k d"] app [of d] by simp
    let ?c' = "?c\<lparr>sha_W := ?W\<rparr>"
    have b: "blk_SHA1_Block ?c' ?W = ?c'\<lparr>sha_H := chain_list (std_block h (r @ take ?k d))\<rparr>"
      using block_is_standard [of ?c' h ?W] a(4) k(2) by simp
    have "absorbed (let (ctx, d) = block_loop (blk_SHA1_Block ?c' ?W) (drop ?k d) in
        if d = [] then ctx else ctx\<lparr>sha_W := memcpy_at (sha_W ctx) 0 d\<rparr>) (m @ d)"
      by (rule absorb_rest [OF _ _ _ e]) (use b W(1) sz in simp_all)
    then show ?thesis using 3 by (simp add: blk_SHA1_Update_def lw lw' Let_def)
  qed
qed

section \<open>The end of the message\<close>

lemma pad_count: "nat (63 AND (55 - int i)) = (119 - i) mod 64" if "i < 64" for i
proof -
  have "(63 :: int) AND (55 - int i) = take_bit 6 (55 - int i)" by (simp add: take_bit_eq_mask mask_eq_exp_minus_1 and.commute)
  also have "\<dots> = (55 - int i) mod 64" by (simp add: take_bit_eq_mod)
  also have "\<dots> = (55 - int i + 64) mod 64" by (simp only: mod_add_self2)
  also have "55 - int i + 64 = int (119 - i)" using that by simp
  finally show ?thesis by (simp add: nat_mod_distrib)
qed

lemma bit_count:
  fixes n :: nat
  shows "(ucast (drop_bit 29 (of_nat n :: 64 word)) :: word32) = ucast (drop_bit 32 (of_nat (8 * n) :: 64 word))"
    and "(ucast (push_bit 3 (of_nat n :: 64 word)) :: word32) = ucast (of_nat (8 * n) :: 64 word)"
proof -
  have p: "(of_nat (8 * n) :: 64 word) = push_bit 3 (of_nat n)" by (simp add: push_bit_eq_mult mult.commute)
  show "(ucast (drop_bit 29 (of_nat n :: 64 word)) :: word32) = ucast (drop_bit 32 (of_nat (8 * n) :: 64 word))"
    unfolding p by (rule bit_word_eqI) (auto simp: bit_simps)
  show "(ucast (push_bit 3 (of_nat n :: 64 word)) :: word32) = ucast (of_nat (8 * n) :: 64 word)" unfolding p ..
qed

lemma std_padded_length: "64 dvd length (std_padded m)"
proof -
  have "length m mod 64 < 64" by simp
  then obtain r where r: "r < 64" "length m mod 64 = r" by blast
  have l: "length (std_padded m) = length m + 9 + (119 - r) mod 64" by (simp add: std_padded_def Let_def put_be32_def r)
  have "(r + 9 + (119 - r) mod 64) mod 64 = (r + 9 + (119 - r)) mod 64" by (rule mod_add_right_eq)
  also have "\<dots> = 0" using r(1) by simp
  finally have "(length m mod 64 + 9 + (119 - r) mod 64) mod 64 = 0" unfolding r(2) .
  then show ?thesis unfolding l by (simp add: mod_eq_0_iff_dvd [symmetric] add.assoc mod_add_left_eq)
qed

lemma final_is_standard:
  assumes "absorbed ctx m"
  shows "blk_SHA1_Final ctx = std_sha1 m"
proof -
  let ?i = "length m mod 64"
  let ?pad = "take (1 + nat (63 AND (55 - int ?i))) (0x80 # replicate 63 0) :: bytes"
  let ?len = "put_be32 (ucast (drop_bit 29 (sha_size ctx))) @ put_be32 (ucast (push_bit 3 (sha_size ctx)))"
  have sz: "sha_size ctx = of_nat (length m)" using assms by (simp add: absorbed_def)
  have "(119 - ?i) mod 64 < 64" by (rule mod_less_divisor) simp
  then have "?pad = 0x80 # replicate ((119 - ?i) mod 64) 0" by (simp add: pad_count min_def)
  then have p: "(m @ ?pad) @ ?len = std_padded m" by (simp add: std_padded_def Let_def sz bit_count)
  let ?c = "blk_SHA1_Update (blk_SHA1_Update ctx ?pad) ?len"
  have "absorbed ?c (std_padded m)" using absorb_update [OF absorb_update [OF assms, of ?pad], of ?len] unfolding p .
  then obtain h r where "std_blocks std_init (std_padded m) = (h, r)" "sha_H ?c = chain_list h" unfolding absorbed_def by blast
  then show ?thesis
    by (simp only: blk_SHA1_Final_def Let_def sz size_low std_sha1_def fst_conv) (simp add: chain_list_def split: prod.split)
qed

lemma hash_is_standard: "length junk = 64 \<Longrightarrow> sha1_hash junk m = std_sha1 m"
  unfolding sha1_hash_def using absorb_update [OF absorbed_init, of junk m] by (intro final_is_standard) simp

lemma sha1_hash_length: "length junk = 64 \<Longrightarrow> length (sha1_hash junk m) = SHA1_SIZE"
  by (simp add: hash_is_standard std_sha1_def put_be32_def split: prod.split)

text \<open>
  C18: The built-in SHA-1 is SHA-1.  Whatever the context's buffer held before, sha1_hash of any message, with its renamed registers, its circular message schedule and its buffering, is the digest
  that FIPS 180-4 defines, and a message may be given in any number of pieces.
\<close>

theorem sha1_is_standard:
  assumes "length junk = 64"
  shows "sha1_hash junk m = std_sha1 m \<and> blk_SHA1_Final (fold (\<lambda>d ctx. blk_SHA1_Update ctx d) ds (blk_SHA1_Init junk)) = std_sha1 (concat ds)"
proof
  have "absorbed (fold (\<lambda>d ctx. blk_SHA1_Update ctx d) ds ctx) (m @ concat ds)" if "absorbed ctx m" for ctx m
    using that by (induction ds arbitrary: ctx m) (use absorb_update in fastforce)+
  from this [OF absorbed_init [OF assms]] final_is_standard
  show "blk_SHA1_Final (fold (\<lambda>d ctx. blk_SHA1_Update ctx d) ds (blk_SHA1_Init junk)) = std_sha1 (concat ds)" by fastforce
  show "sha1_hash junk m = std_sha1 m"
    by (rule hash_is_standard [OF assms])
qed

theorem sha1_is_standard_witness: "sha1_hash (replicate 64 7) (lit ''host.p2p'') = std_sha1 (lit ''host.p2p'')"
  using sha1_is_standard [of "replicate 64 7" "lit ''host.p2p''"] by simp


end
