(* ===== verification/List_Steps.thy ===== *)
theory List_Steps
  imports Lists
begin

text \<open>
  The list of \<^verbatim>\<open>src/src/shr/list.c\<close> once more, one memory access at a time, for lists that
  several threads share.  A program counter says which access comes next and holds the local variables of the C function;
  \<open>put_step\<close> and \<open>del_step\<close> perform one access.  A function that runs without
  interference does what the model of Lists says (\<open>list_put_steps\<close>, \<open>list_del_steps\<close>).
\<close>

section \<open>Running a machine alone\<close>

partial_function (option) exec ::
    "('q \<Rightarrow> 's \<Rightarrow> ('q \<times> 's) option) \<Rightarrow> ('q \<Rightarrow> bool) \<Rightarrow> 'q \<Rightarrow> 's \<Rightarrow> ('q \<times> 's) option" where
  "exec step fin q s =
     (if fin q then Some (q, s)
      else case step q s of None \<Rightarrow> None | Some r \<Rightarrow> exec step fin (fst r) (snd r))"

lemma exec_final: "fin q \<Longrightarrow> exec step fin q s = Some (q, s)"
  by (subst exec.simps) simp

lemma exec_step: "\<not> fin q \<Longrightarrow> step q s = Some (q', s') \<Longrightarrow> exec step fin q s = exec step fin q' s'"
  by (subst exec.simps) simp

lemma exec_defined: "exec step fin q s = Some r \<Longrightarrow> \<not> fin q \<Longrightarrow> \<exists>q' s'. step q s = Some (q', s')"
  by (subst (asm) exec.simps) (auto split: option.splits)

text \<open>Several steps of one thread.\<close>

inductive steps :: "('q \<Rightarrow> 's \<Rightarrow> ('q \<times> 's) option) \<Rightarrow> 'q \<times> 's \<Rightarrow> 'q \<times> 's \<Rightarrow> bool" for step where
  steps_refl: "steps step c c"
| steps_next: "steps step c (q, s) \<Longrightarrow> step q s = Some c' \<Longrightarrow> steps step c c'"

lemma steps_trans: "steps step b c \<Longrightarrow> steps step a b \<Longrightarrow> steps step a c"
  by (induction rule: steps.induct) (auto intro: steps.intros)

lemma steps_one: "step q s = Some c \<Longrightarrow> steps step c d \<Longrightarrow> steps step (q, s) d"
  by (rule steps_trans) (auto intro: steps.intros)

lemma steps_exec:
  assumes "steps step c d" and "\<And>q s. fin q \<Longrightarrow> step q s = None"
  shows "exec step fin (fst c) (snd c) = exec step fin (fst d) (snd d)"
  using assms(1)
proof (induction rule: steps.induct)
  case (steps_next c q s c')
  then have "\<not> fin q" using assms(2) by force
  with steps_next show ?case using exec_step [of fin q step s "fst c'" "snd c'"] by simp
qed simp

section \<open>Payloads\<close>

text \<open>What is stored in the items, apart from the links.\<close>

definition payload :: "'a LIST \<Rightarrow> ptr \<rightharpoonup> 'a" where
  "payload L p = map_option i_val (l_mem L p)"

lemma payload_links [simp]:
  "set_next L p q = Some L' \<Longrightarrow> payload L' = payload L"
  "set_prev L p q = Some L' \<Longrightarrow> payload L' = payload L"
  by (auto simp: set_next_def set_prev_def payload_def fun_eq_iff)

lemma payload_fields [simp]:
  "payload (L\<lparr>l_item := i\<rparr>) = payload L" "payload (L\<lparr>l_size := n\<rparr>) = payload L"
  "payload (item_free L p) = (payload L)(p := None)"
  "payload (fst (item_alloc L v)) = (payload L)(l_brk L \<mapsto> v)"
  by (auto simp: payload_def fun_eq_iff item_free_def item_alloc_def)

section \<open>list_put\<close>

text \<open>
  The new item is private until it is linked, so its allocation and initialisation are one step.  \<open>Stop_test\<close> to \<open>Stop_walk\<close>
  are \<open>list_stop\<close>; its loop reads \<open>item->next\<close> in the condition and again in \<open>list_next\<close>.
\<close>

datatype 'a put_pc =
    Put_size 'a | Put_alloc 'a | Put_test ptr | Put_first ptr | Put_one ptr
  | Stop_test ptr | Stop_load ptr | Stop_next ptr "ptr option" | Stop_walk ptr ptr
  | Put_prev ptr "ptr option" | Put_next ptr "ptr option" | Put_load ptr | Put_store ptr int
  | Put_ret "ptr option"

fun put_step :: "'a put_pc \<Rightarrow> 'a LIST \<Rightarrow> ('a put_pc \<times> 'a LIST) option" where
  "put_step (Put_size v) L = Some (if l_size L = LONG_MAX then Put_ret None else Put_alloc v, L)"
| "put_step (Put_alloc v) L = (case item_alloc L v of (L', p) \<Rightarrow> Some (Put_test p, L'))"
| "put_step (Put_test p) L = Some (case l_item L of None \<Rightarrow> Put_first p | Some _ \<Rightarrow> Stop_test p, L)"
| "put_step (Put_first p) L = Some (Put_one p, L\<lparr>l_item := Some p\<rparr>)"
| "put_step (Put_one p) L = Some (Put_ret (Some p), L\<lparr>l_size := 1\<rparr>)"
| "put_step (Stop_test p) L = Some (case l_item L of None \<Rightarrow> Put_prev p None | Some _ \<Rightarrow> Stop_load p, L)"
| "put_step (Stop_load p) L = Some (Stop_next p (l_item L), L)"
| "put_step (Stop_next p None) L = None"
| "put_step (Stop_next p (Some q)) L =
     map_option (\<lambda>it. (case i_next it of None \<Rightarrow> Put_prev p (Some q) | Some _ \<Rightarrow> Stop_walk p q, L)) (l_mem L q)"
| "put_step (Stop_walk p q) L = map_option (\<lambda>it. (Stop_next p (i_next it), L)) (l_mem L q)"
| "put_step (Put_prev p stop) L = map_option (\<lambda>L'. (Put_next p stop, L')) (set_prev L p stop)"
| "put_step (Put_next p None) L = None"
| "put_step (Put_next p (Some s)) L = map_option (\<lambda>L'. (Put_load p, L')) (set_next L s (Some p))"
| "put_step (Put_load p) L = Some (Put_store p (l_size L), L)"
| "put_step (Put_store p n) L = Some (Put_ret (Some p), L\<lparr>l_size := n + 1\<rparr>)"
| "put_step (Put_ret r) L = None"

definition put_done :: "'a put_pc \<Rightarrow> bool" where
  "put_done q = (case q of Put_ret _ \<Rightarrow> True | _ \<Rightarrow> False)"

lemma put_done_simps [simp]: "put_done (Put_ret r)"
  "\<not> put_done (Put_size v)" "\<not> put_done (Put_alloc v)" "\<not> put_done (Put_test p)" "\<not> put_done (Put_first p)" "\<not> put_done (Put_one p)"
  "\<not> put_done (Stop_test p)" "\<not> put_done (Stop_load p)" "\<not> put_done (Stop_next p i)" "\<not> put_done (Stop_walk p q)"
  "\<not> put_done (Put_prev p i)" "\<not> put_done (Put_next p i)" "\<not> put_done (Put_load p)" "\<not> put_done (Put_store p n)"
  by (simp_all add: put_done_def)

abbreviation put_exec :: "'a put_pc \<Rightarrow> 'a LIST \<Rightarrow> ('a put_pc \<times> 'a LIST) option" where
  "put_exec \<equiv> exec put_step put_done"

lemmas put_unfold = exec.simps [of put_step put_done]

lemma walk_steps: "walk_next (l_mem L) q = Some s \<Longrightarrow> steps put_step (Stop_next p (Some q), L) (Put_prev p (Some s), L)"
proof (rule walk_next.raw_induct [where P = "\<lambda>m q s. m = l_mem L \<longrightarrow> steps put_step (Stop_next p (Some q), L) (Put_prev p (Some s), L)",
    rule_format, of "l_mem L" q s])
  fix walk m q s
  assume IH: "\<And>m q s. walk m q = Some s \<Longrightarrow> m = l_mem L \<Longrightarrow> steps put_step (Stop_next p (Some q), L) (Put_prev p (Some s), L)"
    and body: "(case m q of None \<Rightarrow> None | Some it \<Rightarrow> (case i_next it of None \<Rightarrow> Some q | Some r \<Rightarrow> walk m r)) = Some s" and m: "m = l_mem L"
  then obtain it where it: "l_mem L q = Some it" by (auto split: option.splits)
  show "steps put_step (Stop_next p (Some q), L) (Put_prev p (Some s), L)"
  proof (cases "i_next it")
    case None
    with it body m show ?thesis by (auto intro!: steps_one steps_refl)
  next
    case (Some r)
    with it body m have "walk m r = Some s" by simp
    from IH [OF this m] it Some show ?thesis by (auto intro!: steps_one [where q = "Stop_next p (Some q)"] steps_one [where q = "Stop_walk p q"])
  qed
qed simp_all

lemma stop_steps: "list_stop L = Some (Some s) \<Longrightarrow> steps put_step (Stop_test p, L) (Put_prev p (Some s), L)"
  by (auto simp: list_stop_def split: option.splits intro!: steps_one walk_steps)

lemma put_exec_steps: "steps put_step (q, L) (q', L') \<Longrightarrow> put_exec q L = put_exec q' L'"
  using steps_exec [of put_step "(q, L)" "(q', L')" put_done] by (auto simp: put_done_def split: put_pc.splits)

theorem list_put_steps: 
  assumes put: "list_put L v = Some (L', r)"
  shows "put_exec (Put_size v) L = Some (Put_ret r, L')"
proof (cases "l_size L = LONG_MAX")
  case True
  then show ?thesis
    using put by (simp add: list_put_def list_size_def put_unfold [of "Put_size v"] exec_final)
next
  case False
  obtain L1 p where a: "item_alloc L v = (L1, p)" by fastforce
  then have start: "put_exec (Put_size v) L = put_exec (Put_test p) L1"
    using False by (simp add: put_unfold [of "Put_size v"] put_unfold [of "Put_alloc v"])
  show ?thesis
  proof (cases "l_item L1")
    case None
    with put a False have "r = Some p" "L' = L1\<lparr>l_item := Some p, l_size := 1\<rparr>" by (auto simp: list_put_def list_size_def)
    with None start show ?thesis
      by (simp add: put_unfold [of "Put_test p"] put_unfold [of "Put_first p"] put_unfold [of "Put_one p"] exec_final)
  next
    case (Some i)
    with put a False obtain s L2 L3 where s: "list_stop L1 = Some (Some s)" "set_prev L1 p (Some s) = Some L2" "set_next L2 s (Some p) = Some L3"
      "L' = L3\<lparr>l_size := l_size L3 + 1\<rparr>" "r = Some p"
      by (auto simp: list_put_def list_size_def bind_eq_Some_conv' split: option.splits)
    have "put_exec (Put_test p) L1 = put_exec (Put_prev p (Some s)) L1"
      using Some put_exec_steps [OF stop_steps [OF s(1)]] by (simp add: put_unfold [of "Put_test p"])
    also have "\<dots> = Some (Put_ret r, L')"
      using s(2-5) by (simp add: put_unfold [of "Put_prev p _"] put_unfold [of "Put_next p _"] put_unfold [of "Put_load p"] put_unfold [of "Put_store p _"] exec_final)
    finally show ?thesis using start by simp
  qed
qed

text \<open>The item under construction, and what a step does to the payloads.\<close>

fun put_item :: "'a put_pc \<Rightarrow> ptr option" where
  "put_item (Put_size v) = None"
| "put_item (Put_alloc v) = None"
| "put_item (Put_test p) = Some p"
| "put_item (Put_first p) = Some p"
| "put_item (Put_one p) = Some p"
| "put_item (Stop_test p) = Some p"
| "put_item (Stop_load p) = Some p"
| "put_item (Stop_next p i) = Some p"
| "put_item (Stop_walk p q) = Some p"
| "put_item (Put_prev p i) = Some p"
| "put_item (Put_next p i) = Some p"
| "put_item (Put_load p) = Some p"
| "put_item (Put_store p n) = Some p"
| "put_item (Put_ret r) = r"

lemma put_step_payload:
  assumes "put_step q L = Some (q', L')"
  shows "(\<exists>v. q = Put_size v \<and> (q' = Put_alloc v \<or> q' = Put_ret None) \<and> L' = L) \<or>
    (\<exists>v. q = Put_alloc v \<and> put_item q' = Some (l_brk L) \<and> payload L' = (payload L)(l_brk L \<mapsto> v) \<and> l_brk L' = Suc (l_brk L)) \<or>
    (\<exists>p. put_item q = Some p \<and> put_item q' = Some p \<and> payload L' = payload L \<and> l_brk L' = l_brk L)"
  using assms payload_fields(4) [of L]
  by (cases "(q, L)" rule: put_step.cases) (auto simp: item_alloc_def split: option.splits, auto simp: set_next_def set_prev_def)

section \<open>list_del\<close>

text \<open>
  The conditions read \<open>item->next\<close> and \<open>item->prev\<close> anew each time, as do the assignments.  \<open>Start_test\<close> to \<open>Start_set\<close>
  are \<open>list_start\<close>.
\<close>

datatype del_pc =
    Del_null "ptr option" | Del_and1 ptr | Del_and2 ptr | Del_else1 ptr | Del_else2 ptr
  | Del_only ptr | Del_last ptr | Del_last_set ptr "ptr option"
  | Del_first ptr | Del_first_item ptr "ptr option" | Del_first_next ptr | Del_first_set ptr "ptr option"
  | Del_mid ptr | Del_mid_prev ptr "ptr option" | Del_mid_set ptr "ptr option" "ptr option"
  | Del_mid2 ptr | Del_mid2_next ptr "ptr option" | Del_mid2_set ptr "ptr option" "ptr option"
  | Del_free ptr | Del_load | Del_store int
  | Start_test | Start_load | Start_prev "ptr option" | Start_walk ptr | Start_compare ptr | Start_set ptr
  | Del_ret "ptr option"

fun del_step :: "del_pc \<Rightarrow> 'a LIST \<Rightarrow> (del_pc \<times> 'a LIST) option" where
  "del_step (Del_null i) L = Some (case i of None \<Rightarrow> Del_ret None | Some p \<Rightarrow> Del_and1 p, L)"
| "del_step (Del_and1 p) L = map_option (\<lambda>it. (if i_next it = None then Del_and2 p else Del_else1 p, L)) (l_mem L p)"
| "del_step (Del_and2 p) L = map_option (\<lambda>it. (if i_prev it = None then Del_only p else Del_else1 p, L)) (l_mem L p)"
| "del_step (Del_else1 p) L = map_option (\<lambda>it. (if i_next it = None then Del_last p else Del_else2 p, L)) (l_mem L p)"
| "del_step (Del_else2 p) L = map_option (\<lambda>it. (if i_prev it = None then Del_first p else Del_mid p, L)) (l_mem L p)"
| "del_step (Del_only p) L = Some (Del_free p, L\<lparr>l_item := None\<rparr>)"
| "del_step (Del_last p) L = map_option (\<lambda>it. (Del_last_set p (i_prev it), L)) (l_mem L p)"
| "del_step (Del_last_set p None) L = None"
| "del_step (Del_last_set p (Some q)) L = map_option (\<lambda>L'. (Del_free p, L')) (set_next L q None)"
| "del_step (Del_first p) L = map_option (\<lambda>it. (Del_first_item p (i_next it), L)) (l_mem L p)"
| "del_step (Del_first_item p i) L = Some (Del_first_next p, L\<lparr>l_item := i\<rparr>)"
| "del_step (Del_first_next p) L = map_option (\<lambda>it. (Del_first_set p (i_next it), L)) (l_mem L p)"
| "del_step (Del_first_set p None) L = None"
| "del_step (Del_first_set p (Some n)) L = map_option (\<lambda>L'. (Del_free p, L')) (set_prev L n None)"
| "del_step (Del_mid p) L = map_option (\<lambda>it. (Del_mid_prev p (i_next it), L)) (l_mem L p)"
| "del_step (Del_mid_prev p n) L = map_option (\<lambda>it. (Del_mid_set p (i_prev it) n, L)) (l_mem L p)"
| "del_step (Del_mid_set p None n) L = None"
| "del_step (Del_mid_set p (Some q) n) L = map_option (\<lambda>L'. (Del_mid2 p, L')) (set_next L q n)"
| "del_step (Del_mid2 p) L = map_option (\<lambda>it. (Del_mid2_next p (i_prev it), L)) (l_mem L p)"
| "del_step (Del_mid2_next p q) L = map_option (\<lambda>it. (Del_mid2_set p (i_next it) q, L)) (l_mem L p)"
| "del_step (Del_mid2_set p None q) L = None"
| "del_step (Del_mid2_set p (Some n) q) L = map_option (\<lambda>L'. (Del_free p, L')) (set_prev L n q)"
| "del_step (Del_free p) L = map_option (\<lambda>_. (Del_load, item_free L p)) (l_mem L p)"
| "del_step Del_load L = Some (Del_store (l_size L), L)"
| "del_step (Del_store n) L = Some (Start_test, L\<lparr>l_size := n - 1\<rparr>)"
| "del_step Start_test L = Some (if l_item L = None then Del_ret None else Start_load, L)"
| "del_step Start_load L = Some (Start_prev (l_item L), L)"
| "del_step (Start_prev None) L = None"
| "del_step (Start_prev (Some q)) L = map_option (\<lambda>it. (if i_prev it = None then Start_compare q else Start_walk q, L)) (l_mem L q)"
| "del_step (Start_walk q) L = map_option (\<lambda>it. (Start_prev (i_prev it), L)) (l_mem L q)"
| "del_step (Start_compare q) L = Some (if l_item L = Some q then Del_ret (Some q) else Start_set q, L)"
| "del_step (Start_set q) L = Some (Del_ret (Some q), L\<lparr>l_item := Some q\<rparr>)"
| "del_step (Del_ret r) L = None"

definition del_done :: "del_pc \<Rightarrow> bool" where
  "del_done q = (case q of Del_ret _ \<Rightarrow> True | _ \<Rightarrow> False)"

abbreviation del_exec :: "del_pc \<Rightarrow> 'a LIST \<Rightarrow> (del_pc \<times> 'a LIST) option" where
  "del_exec \<equiv> exec del_step del_done"

lemma del_done_iff [simp]: "del_done q \<longleftrightarrow> (\<exists>r. q = Del_ret r)"
  by (cases q) (simp_all add: del_done_def)

lemmas del_unfold = exec.simps [of del_step del_done]

lemma back_steps: "walk_prev (l_mem L) q = Some s \<Longrightarrow> del_exec (Start_prev (Some q)) L = del_exec (Start_compare s) L"
proof (rule walk_prev.raw_induct [where P = "\<lambda>m q s. m = l_mem L \<longrightarrow> del_exec (Start_prev (Some q)) L = del_exec (Start_compare s) L",
    rule_format, of "l_mem L" q s])
  fix walk m q s
  assume IH: "\<And>m q s. walk m q = Some s \<Longrightarrow> m = l_mem L \<Longrightarrow> del_exec (Start_prev (Some q)) L = del_exec (Start_compare s) L"
    and body: "(case m q of None \<Rightarrow> None | Some it \<Rightarrow> (case i_prev it of None \<Rightarrow> Some q | Some r \<Rightarrow> walk m r)) = Some s" and m: "m = l_mem L"
  then show "del_exec (Start_prev (Some q)) L = del_exec (Start_compare s) L"
    by (subst del_unfold) (auto split: option.splits simp: del_unfold [of "Start_walk q"])
qed simp_all

lemma start_steps: "list_start L = Some (L', r) \<Longrightarrow> del_exec Start_test L = Some (Del_ret r, L')"
  by (auto simp: list_start_def bind_eq_Some_conv' back_steps del_unfold [of Start_test] del_unfold [of Start_load] del_unfold [of "Del_ret _"]
      del_unfold [of "Start_compare _"] del_unfold [of "Start_set _"] split: option.splits)

text \<open>Reads of the item's own fields, then one of the four cases.\<close>

lemma unlink_steps:
  assumes "l_mem L p = Some it" and "list_unlink L p it = Some L'"
  shows "del_exec (Del_and1 p) L = del_exec (Del_free p) L'"
proof (cases "i_next it"; cases "i_prev it")
  assume "i_next it = None" "i_prev it = None"
  then show ?thesis using assms
    by (simp add: list_unlink_def del_unfold [of "Del_and1 p"] del_unfold [of "Del_and2 p"] del_unfold [of "Del_only p"])
next
  fix q assume "i_next it = None" "i_prev it = Some q"
  then show ?thesis using assms
    by (simp add: list_unlink_def del_unfold [of "Del_and1 p"] del_unfold [of "Del_and2 p"] del_unfold [of "Del_else1 p"] del_unfold [of "Del_last p"]
        del_unfold [of "Del_last_set p _"])
next
  fix n assume "i_next it = Some n" "i_prev it = None"
  then show ?thesis using assms
    by (simp add: list_unlink_def del_unfold [of "Del_and1 p"] del_unfold [of "Del_else1 p"] del_unfold [of "Del_else2 p"] del_unfold [of "Del_first p"]
        del_unfold [of "Del_first_item p _"] del_unfold [of "Del_first_next p"] del_unfold [of "Del_first_set p _"])
next
  fix n q assume f: "i_next it = Some n" "i_prev it = Some q"
  then obtain L1 where L1: "set_next L q (Some n) = Some L1" "set_prev L1 n (Some q) = Some L'"
    using assms(2) by (auto simp: list_unlink_def bind_eq_Some_conv')
  then obtain it' where "l_mem L1 p = Some it'" "i_next it' = Some n" "i_prev it' = Some q"
    using assms(1) f by (cases "q = p") (auto simp: set_next_def)
  with f L1 assms(1) show ?thesis
    by (simp add: del_unfold [of "Del_and1 p"] del_unfold [of "Del_else1 p"] del_unfold [of "Del_else2 p"] del_unfold [of "Del_mid p"]
        del_unfold [of "Del_mid_prev p _"] del_unfold [of "Del_mid_set p _ _"] del_unfold [of "Del_mid2 p"] del_unfold [of "Del_mid2_next p _"]
        del_unfold [of "Del_mid2_set p _ _"])
qed

lemma unlink_keeps: "list_unlink L p it = Some L' \<Longrightarrow> payload L' = payload L"
  by (auto simp: list_unlink_def bind_eq_Some_conv' split: option.splits)

theorem list_del_steps:
  assumes "list_del L i = Some (L', r)"
  shows "del_exec (Del_null i) L = Some (Del_ret r, L')"
proof (cases i)
  case None
  then show ?thesis using assms by (simp add: list_del_def del_unfold [of "Del_null _"] del_unfold [of "Del_ret _"])
next
  case (Some p)
  then obtain it L1 where u: "l_mem L p = Some it" "list_unlink L p it = Some L1"
    "list_start ((item_free L1 p)\<lparr>l_size := l_size (item_free L1 p) - 1\<rparr>) = Some (L', r)"
    using assms by (auto simp: list_del_def bind_eq_Some_conv' Let_def)
  have "payload L1 p \<noteq> None" using u(1) unlink_keeps [OF u(2)] by (simp add: payload_def)
  then have "del_exec (Del_free p) L1 = del_exec Start_test ((item_free L1 p)\<lparr>l_size := l_size (item_free L1 p) - 1\<rparr>)"
    by (auto simp: payload_def del_unfold [of "Del_free p"] del_unfold [of Del_load] del_unfold [of "Del_store _"])
  then show ?thesis using Some unlink_steps [OF u(1,2)] start_steps [OF u(3)] by (simp add: del_unfold [of "Del_null _"])
qed

lemma del_step_payload:
  assumes "del_step q L = Some (q', L')"
  shows "l_brk L' = l_brk L \<and> (payload L' = payload L \<or> (\<exists>p. q = Del_free p \<and> payload L' = (payload L)(p := None)))"
  using assms by (cases "(q, L)" rule: del_step.cases) (auto split: option.splits, auto simp: set_next_def set_prev_def item_free_def)

text \<open>The item that will be freed.\<close>

fun del_item :: "del_pc \<Rightarrow> ptr option" where
  "del_item (Del_null i) = i"
| "del_item (Del_and1 p) = Some p"
| "del_item (Del_and2 p) = Some p"
| "del_item (Del_else1 p) = Some p"
| "del_item (Del_else2 p) = Some p"
| "del_item (Del_only p) = Some p"
| "del_item (Del_last p) = Some p"
| "del_item (Del_last_set p i) = Some p"
| "del_item (Del_first p) = Some p"
| "del_item (Del_first_item p i) = Some p"
| "del_item (Del_first_next p) = Some p"
| "del_item (Del_first_set p i) = Some p"
| "del_item (Del_mid p) = Some p"
| "del_item (Del_mid_prev p i) = Some p"
| "del_item (Del_mid_set p i j) = Some p"
| "del_item (Del_mid2 p) = Some p"
| "del_item (Del_mid2_next p i) = Some p"
| "del_item (Del_mid2_set p i j) = Some p"
| "del_item (Del_free p) = Some p"
| "del_item _ = None"

lemma del_step_item:
  "del_step q L = Some (q', L') \<Longrightarrow> del_item q' = del_item q \<or> del_item q' = None \<and> (\<exists>p. q = Del_free p)"
  by (cases "(q, L)" rule: del_step.cases) (auto split: option.splits if_splits)

lemma del_step_free: "del_step (Del_free p) L = Some (q', L') \<Longrightarrow> payload L' p = None"
  by auto

end
