(* ===== verification/Race.thy ===== *)
theory Race
  imports List_Steps
begin

text \<open>
  Two threads that change a list without a lock.  The P2P thread of the daemon holds \<open>_main->work->mutex\<close> while it handles a
  packet, but the DNS thread (\<open>r_parse\<close>) and the thread that sends the first requests (\<open>p2p_bootstrap\<close>) do not take it; all three
  append transactions to the same list with \<open>tdb_put\<close>.
\<close>

inductive interleaved ::
    "('q \<Rightarrow> 's \<Rightarrow> ('q \<times> 's) option) \<Rightarrow> 'q \<times> 'q \<times> 's \<Rightarrow> 'q \<times> 'q \<times> 's \<Rightarrow> bool" for step where
  il_start: "interleaved step c c"
| il_one: "interleaved step c (a, b, s) \<Longrightarrow> step a s = Some (a', s') \<Longrightarrow> interleaved step c (a', b, s')"
| il_two: "interleaved step c (a, b, s) \<Longrightarrow> step b s = Some (b', s') \<Longrightarrow> interleaved step c (a, b', s')"

lemma il_steps_one: "steps step x y \<Longrightarrow> interleaved step c (fst x, b, snd x) \<Longrightarrow> interleaved step c (fst y, b, snd y)"
  by (induction rule: steps.induct) (auto intro: il_one)

lemma il_steps_two: "steps step x y \<Longrightarrow> interleaved step c (a, fst x, snd x) \<Longrightarrow> interleaved step c (a, fst y, snd y)"
  by (induction rule: steps.induct) (auto intro: il_two)

text \<open>The sequence that a walk through the list sees.\<close>

definition seen :: "'a LIST \<Rightarrow> (ptr \<times> 'a) list \<Rightarrow> bool" where
  "seen L xs \<longleftrightarrow> l_item L = first xs None \<and> seg (l_mem L) None xs None"

lemma seen_stop: "seen L (xs @ [(s, u)]) \<Longrightarrow> list_stop L = Some (Some s)"
proof -
  assume a: "seen L (xs @ [(s, u)])"
  then obtain y ys where ys: "xs @ [(s, u)] = y # ys" by (cases xs) auto
  with a have "walk_next (l_mem L) (fst y) = final (xs @ [(s, u)]) None" using walk_next_seg [of "l_mem L" None y ys] by (simp add: seen_def)
  then have "walk_next (l_mem L) (fst y) = Some s" by simp
  with a ys show ?thesis by (simp add: seen_def list_stop_def)
qed

text \<open>The first half of \<open>list_put\<close>: the item is allocated, the last item is found, nothing is linked yet.\<close>

lemma put_half:
  assumes "seen L (xs @ [(s, u)])" and "l_brk L \<notin> fst ` set (xs @ [(s, u)])" and "l_size L \<noteq> LONG_MAX"
  shows "steps put_step (Put_size v, L) (Put_next (l_brk L) (Some s),
    L\<lparr>l_brk := Suc (l_brk L), l_mem := (l_mem L)(l_brk L \<mapsto> \<lparr>i_val = v, i_next = None, i_prev = Some s\<rparr>)\<rparr>)"
proof -
  let ?p = "l_brk L" and ?L1 = "fst (item_alloc L v)"
  have "seen ?L1 (xs @ [(s, u)])" using assms(1,2) by (simp add: seen_def item_alloc_def seg_frame)
  note stop = stop_steps [OF seen_stop [OF this], of ?p]
  have item: "l_item ?L1 \<noteq> None" using assms(1) by (cases xs) (simp_all add: seen_def item_alloc_def)
  have prev: "put_step (Put_prev ?p (Some s)) ?L1 = Some (Put_next ?p (Some s),
    L\<lparr>l_brk := Suc ?p, l_mem := (l_mem L)(?p \<mapsto> \<lparr>i_val = v, i_next = None, i_prev = Some s\<rparr>)\<rparr>)"
    by (simp add: item_alloc_def set_prev_def)
  have "steps put_step (Stop_test ?p, ?L1) (Put_next ?p (Some s),
    L\<lparr>l_brk := Suc ?p, l_mem := (l_mem L)(?p \<mapsto> \<lparr>i_val = v, i_next = None, i_prev = Some s\<rparr>)\<rparr>)"
    by (rule steps_next [where q = "Put_prev ?p (Some s)" and s = ?L1, OF stop prev])
  moreover have "put_step (Put_size v) L = Some (Put_alloc v, L)" "put_step (Put_alloc v) L = Some (Put_test ?p, ?L1)"
    "put_step (Put_test ?p) ?L1 = Some (Stop_test ?p, ?L1)"
    using assms(3) item by (auto simp: item_alloc_def split: option.splits)
  ultimately show ?thesis by (metis steps_one)
qed

text \<open>The second half: linking and counting.\<close>

lemma put_rest:
  assumes "l_mem L s = Some it"
  shows "steps put_step (Put_next p (Some s), L)
    (Put_ret (Some p), L\<lparr>l_mem := (l_mem L)(s \<mapsto> it\<lparr>i_next := Some p\<rparr>), l_size := l_size L + 1\<rparr>)"
proof (rule steps_one)
  let ?L = "L\<lparr>l_mem := (l_mem L)(s \<mapsto> it\<lparr>i_next := Some p\<rparr>)\<rparr>"
  show "put_step (Put_next p (Some s)) L = Some (Put_load p, ?L)" using assms by (simp add: set_next_def)
  show "steps put_step (Put_load p, ?L) (Put_ret (Some p), ?L\<lparr>l_size := l_size L + 1\<rparr>)"
    by (rule steps_one, simp, rule steps_one, simp, simp add: steps_refl)
qed

lemma seen_start: "seen L xs \<Longrightarrow> list_start L = Some (L, first xs None)"
  by (cases xs) (auto simp: seen_def list_start_def walk_prev.simps)

text \<open>
  C36: An unlocked list loses items.  Let two threads append to a list that is not empty.  There is an order of their memory accesses in which both calls return a
  new item, the size counts both, but a walk through the list finds only one of them.  When the lost item is deleted later, by the
  pointer that its caller kept, the other one is cut off as well.
\<close>

theorem unlocked_put_loses:
  assumes "dlc L (xs @ [(s, u)])" and "int (length xs) + 2 < LONG_MAX"
  shows "\<exists>p r L'. interleaved put_step (Put_size v, Put_size w, L) (Put_ret (Some p), Put_ret (Some r), L') \<and> p \<noteq> r \<and>
    payload L' p = Some v \<and> payload L' r = Some w \<and> list_size L' = int (length xs) + 3 \<and> seen L' (xs @ [(s, u), (p, v)]) \<and>
    (\<exists>L'' i. list_del L' (Some r) = Some (L'', i) \<and> payload L'' p = Some v \<and> seen L'' (xs @ [(s, u)]))"
proof -
  let ?ys = "xs @ [(s, u)]" and ?p = "l_brk L" and ?r = "Suc (l_brk L)"
  let ?new = "\<lambda>v. \<lparr>i_val = v, i_next = None, i_prev = Some s\<rparr>" and ?s = "\<lambda>n. \<lparr>i_val = u, i_next = n, i_prev = final xs None\<rparr>"
  let ?L2 = "L\<lparr>l_brk := ?r, l_mem := (l_mem L)(?p \<mapsto> ?new v)\<rparr>"
  let ?L3 = "L\<lparr>l_brk := Suc ?r, l_mem := (l_mem L)(?p \<mapsto> ?new v, ?r \<mapsto> ?new w)\<rparr>"
  let ?L4 = "L\<lparr>l_brk := Suc ?r, l_mem := (l_mem L)(?p \<mapsto> ?new v, ?r \<mapsto> ?new w, s \<mapsto> ?s (Some ?r)), l_size := l_size L + 1\<rparr>"
  let ?L5 = "L\<lparr>l_brk := Suc ?r, l_mem := (l_mem L)(?p \<mapsto> ?new v, ?r \<mapsto> ?new w, s \<mapsto> ?s (Some ?p)), l_size := 2 + l_size L\<rparr>"
  have L: "seen L ?ys" "l_size L = int (length ?ys)" "\<forall>q \<in> fst ` set ?ys. q < ?p" "distinct (map fst ?ys)"
    using assms(1) by (simp_all add: dlc_def dl_def seen_def)
  then have fresh: "?p \<notin> fst ` set ?ys" "?r \<notin> fst ` set ?ys" "s \<noteq> ?p" "s \<noteq> ?r" "s \<notin> fst ` set xs"
    by force+
  have s: "l_mem L s = Some (?s None)" using L(1) by (simp add: seen_def)
  have two: "seen ?L2 ?ys" "l_brk ?L2 \<notin> fst ` set ?ys" "l_size ?L2 \<noteq> LONG_MAX"
    using L(1,2) fresh assms(2) by (simp_all add: seen_def seg_frame)
  have a: "interleaved put_step (Put_size v, Put_size w, L) (Put_next ?p (Some s), Put_size w, ?L2)"
    using il_steps_one [OF put_half [OF L(1) fresh(1), of v] il_start] L(2) assms(2) by simp
  from il_steps_two [OF put_half [OF two, of w]] a
  have b: "interleaved put_step (Put_size v, Put_size w, L) (Put_next ?p (Some s), Put_next ?r (Some s), ?L3)" by simp
  from il_steps_two [OF put_rest [of ?L3 s "?s None" ?r]] b s fresh
  have "interleaved put_step (Put_size v, Put_size w, L) (Put_next ?p (Some s), Put_ret (Some ?r), ?L4)" by simp
  with il_steps_one [OF put_rest [of ?L4 s "?s (Some ?r)" ?p]]
  have "interleaved put_step (Put_size v, Put_size w, L) (Put_ret (Some ?p), Put_ret (Some ?r), ?L5)" by simp
  moreover have "seen ?L5 (xs @ [(s, u), (?p, v)])" using L(1) fresh by (simp add: seen_def seg_frame)
  moreover have "\<exists>L'' i. list_del ?L5 (Some ?r) = Some (L'', i) \<and> payload L'' ?p = Some v \<and> seen L'' ?ys"
  proof -
    let ?L6 = "L\<lparr>l_brk := Suc ?r, l_mem := (l_mem L)(?p \<mapsto> ?new v, s \<mapsto> ?s None, ?r := None), l_size := 1 + l_size L\<rparr>"
    have "seen ?L6 ?ys" using L(1) fresh by (simp add: seen_def seg_frame)
    moreover from seen_start [OF this] have "list_del ?L5 (Some ?r) = Some (?L6, first ?ys None)"
      using fresh by (simp add: list_del_def list_unlink_def set_next_def item_free_def fun_upd_twist)
    ultimately show ?thesis using fresh(3) by (simp add: payload_def)
  qed
  ultimately show ?thesis using L(2) fresh by (intro exI [of _ ?p] exI [of _ ?r] exI [of _ ?L5]) (simp add: payload_def list_size_def)
qed

theorem unlocked_put_loses_witness:
  "\<exists>L0 p r L'. list_put list_init (7 :: nat) = Some (L0, Some 0) \<and>
    interleaved put_step (Put_size 8, Put_size 9, L0) (Put_ret (Some p), Put_ret (Some r), L') \<and> p \<noteq> r \<and>
    list_size L' = 3 \<and> seen L' [(0, 7), (p, 8)] \<and> payload L' r = Some 9"
proof -
  from list_put_dlc [OF list_init_dlc, of "7 :: nat"] obtain L0 where
    "list_put list_init (7 :: nat) = Some (L0, Some 0)" "dlc L0 ([] @ [(0, 7)])" by (auto simp: list_init_def)
  with unlocked_put_loses [OF this(2), of 8 9] show ?thesis by auto
qed

end
