(* ===== verification/Mime_Race.thy ===== *)
theory Mime_Race
  imports Hash List_Steps
begin

text \<open>
  A lookup in a hash table and an insertion by another thread.  The threads of the web server look up mime types with \<open>hash_get\<close> and take no lock; \<open>mime_magic\<close> of
  \<^verbatim>\<open>src/src/web/mime.c\<close> adds a type under a mutex that the readers do not know.  One bucket of the table, with the address of its pairs as
  \<^verbatim>\<open>src/src/shr/hash.c\<close> has it: \<open>hash_getpair\<close> loads the address once and then reads pair after pair, and \<open>hash_put\<close> gives the pairs to \<open>realloc\<close>, which may move them.
\<close>

section \<open>A bucket in memory\<close>

record 'v BUCKET_MEM =
  bm_size :: nat
  bm_pairs :: "ptr option"
  bm_mem :: "ptr \<rightharpoonup> 'v PAIR list"
  bm_brk :: ptr

text \<open>The points of \<open>hash_getpair\<close>: the test for an empty bucket, the load of the address, the loop.  \<open>None\<close> is a read of memory that was freed.\<close>

datatype get_pc = Get_size | Get_pairs | Get_loop ptr nat | Get_ret "nat option"

fun get_step :: "bytes \<Rightarrow> get_pc \<Rightarrow> 'v BUCKET_MEM \<Rightarrow> (get_pc \<times> 'v BUCKET_MEM) option" where
  "get_step key Get_size B = Some (if bm_size B = 0 then Get_ret None else Get_pairs, B)"
| "get_step key Get_pairs B = map_option (\<lambda>a. (Get_loop a 0, B)) (bm_pairs B)"
| "get_step key (Get_loop a i) B =
     (if i \<ge> bm_size B then Some (Get_ret None, B)
      else case bm_mem B a of None \<Rightarrow> None
      | Some ps \<Rightarrow>
          if i \<ge> length ps then None
          else if length (fst (ps ! i)) = length key \<and> memcmp (fst (ps ! i)) key = 0 then Some (Get_ret (Some i), B)
          else Some (Get_loop a (Suc i), B))"
| "get_step key (Get_ret r) B = None"

text \<open>The end of \<open>hash_put\<close>, for a key that is new; \<open>realloc\<close> takes a new block and frees the old one.\<close>

definition pair_put :: "bytes \<Rightarrow> 'v \<Rightarrow> 'v BUCKET_MEM \<Rightarrow> 'v BUCKET_MEM option" where
  "pair_put key v B =
     (if bm_size B = 0 then Some \<lparr>bm_size = 1, bm_pairs = Some (bm_brk B), bm_mem = (bm_mem B)(bm_brk B \<mapsto> [(key, v)]), bm_brk = Suc (bm_brk B)\<rparr>
      else do {
        a \<leftarrow> bm_pairs B;
        ps \<leftarrow> bm_mem B a;
        Some \<lparr>bm_size = Suc (bm_size B), bm_pairs = Some (bm_brk B), bm_mem = (bm_mem B)(a := None, bm_brk B \<mapsto> ps @ [(key, v)]), bm_brk = Suc (bm_brk B)\<rparr>
      })"

definition bucket_at :: "'v BUCKET_MEM \<Rightarrow> 'v BUCKET \<Rightarrow> bool" where
  "bucket_at B ps \<longleftrightarrow> bm_size B = length ps \<and> (\<forall>a \<in> dom (bm_mem B). a < bm_brk B) \<and>
     (ps \<noteq> [] \<longrightarrow> (\<exists>a. bm_pairs B = Some a \<and> bm_mem B a = Some ps))"

section \<open>Alone\<close>

lemma get_loop_steps:
  assumes "bm_mem B a = Some ps" and "bm_size B = length ps" and "i \<le> length ps"
  shows "steps (get_step key) (Get_loop a i, B) (Get_ret (map_option (\<lambda>j. i + j) (hash_getpair (drop i ps) key)), B)"
  using assms(3)
proof (induction "length ps - i" arbitrary: i)
  case 0
  then have "get_step key (Get_loop a i) B = Some (Get_ret None, B)" "drop i ps = []" using assms(2) by simp_all
  then show ?case by (auto intro: steps_one [OF _ steps_refl])
next
  case (Suc n)
  then have i: "i < length ps" by simp
  then have d: "drop i ps = ps ! i # drop (Suc i) ps" by (simp add: Cons_nth_drop_Suc)
  show ?case
  proof (cases "length (fst (ps ! i)) = length key \<and> memcmp (fst (ps ! i)) key = 0")
    case True
    then have "get_step key (Get_loop a i) B = Some (Get_ret (Some i), B)" using assms(1,2) i by simp
    with True d show ?thesis by (auto intro: steps_one [OF _ steps_refl])
  next
    case False
    then have s: "get_step key (Get_loop a i) B = Some (Get_loop a (Suc i), B)" using assms(1,2) i by auto
    have e: "map_option (\<lambda>j. Suc i + j) r = map_option (\<lambda>j. i + j) (map_option Suc r)" for r by (cases r) simp_all
    have "steps (get_step key) (Get_loop a (Suc i), B) (Get_ret (map_option (\<lambda>j. Suc i + j) (hash_getpair (drop (Suc i) ps) key)), B)"
      by (rule Suc.hyps(1)) (use Suc.hyps(2) i in simp_all)
    from steps_one [OF s this] show ?thesis unfolding e d hash_getpair.simps if_not_P [OF False] .
  qed
qed

text \<open>Undisturbed, the steps are the lookup of the table, and the insertion appends the pair.\<close>

theorem getpair_steps:
  assumes "bucket_at B ps"
  shows "steps (get_step key) (Get_size, B) (Get_ret (hash_getpair ps key), B)"
proof (cases "ps = []")
  case True
  then show ?thesis using assms by (auto simp: bucket_at_def intro: steps_one [OF _ steps_refl])
next
  case False
  then obtain a where a: "bm_pairs B = Some a" "bm_mem B a = Some ps" "bm_size B = length ps" using assms by (auto simp: bucket_at_def)
  from get_loop_steps [OF a(2,3), of 0 key] have "steps (get_step key) (Get_loop a 0, B) (Get_ret (hash_getpair ps key), B)" by (simp add: option.map_ident)
  moreover have "get_step key Get_size B = Some (Get_pairs, B)" "get_step key Get_pairs B = Some (Get_loop a 0, B)" using a False by auto
  ultimately show ?thesis by (metis steps_one)
qed

lemma pair_put_ok:
  assumes "bucket_at B ps"
  shows "\<exists>B'. pair_put key v B = Some B' \<and> bucket_at B' (ps @ [(key, v)])"
  using assms by (cases "ps = []") (auto simp: bucket_at_def pair_put_def less_Suc_eq split: if_splits)

section \<open>Together\<close>

text \<open>
  An insertion takes the table away from under a reader.  In any bucket that is not empty, a lookup loads the address of the pairs; then another thread inserts a new key into the bucket.  The insertion
  does what it should, and the table is well-formed afterwards; but the next step of the lookup reads the block that was freed.
\<close>

theorem mime_race:
  assumes "bucket_at B ps" and "ps \<noteq> []"
  shows "\<exists>a B'. steps (get_step key) (Get_size, B) (Get_loop a 0, B) \<and> pair_put new v B = Some B' \<and> bucket_at B' (ps @ [(new, v)]) \<and>
    get_step key (Get_loop a 0) B' = None"
proof -
  obtain a where a: "bm_pairs B = Some a" "bm_mem B a = Some ps" "bm_size B = length ps" "a < bm_brk B"
    using assms by (auto simp: bucket_at_def)
  have "get_step key Get_size B = Some (Get_pairs, B)" "get_step key Get_pairs B = Some (Get_loop a 0, B)" using a assms(2) by auto
  then have "steps (get_step key) (Get_size, B) (Get_loop a 0, B)" by (metis steps_one steps_refl)
  moreover obtain B' where B': "pair_put new v B = Some B'" "bucket_at B' (ps @ [(new, v)])" using pair_put_ok [OF assms(1)] by blast
  moreover have "get_step key (Get_loop a 0) B' = None" using B'(1) a assms(2) by (auto simp: pair_put_def)
  ultimately show ?thesis by blast
qed

theorem mime_race_witness:
  "\<exists>B :: nat BUCKET_MEM. bucket_at B [(lit ''txt'', 5)] \<and> (\<exists>a B'. steps (get_step (lit ''txt'')) (Get_size, B) (Get_loop a 0, B) \<and>
     pair_put (lit ''foo'') 7 B = Some B' \<and> get_step (lit ''txt'') (Get_loop a 0) B' = None)"
proof -
  let ?B = "\<lparr>bm_size = 1, bm_pairs = Some 0, bm_mem = [0 \<mapsto> [(lit ''txt'', 5 :: nat)]], bm_brk = 1\<rparr>"
  have b: "bucket_at ?B [(lit ''txt'', 5)]" by (simp add: bucket_at_def)
  from mime_race [OF b, of "lit ''txt''" "lit ''foo''" 7] b show ?thesis by blast
qed

end
