(* ===== verification/Unix.thy ===== *)
theory Unix
  imports Prelude
begin

text \<open>
  Giving up root: \<open>unix_dropuid0\<close> of \<^verbatim>\<open>src/src/shr/unix.c\<close>, which both programs call before they start their threads, and
  \<open>unix_limits\<close>.  The process has real, effective and saved user and group ids and supplementary groups; the system calls are
  as POSIX describes them.  \<open>None\<close> means that the program ends.
\<close>

record PROC =
  ruid :: nat
  euid :: nat
  suid :: nat
  rgid :: nat
  egid :: nat
  sgid :: nat
  sup_groups :: "nat list"
  env_HOME :: bytes
  nofile :: int

record PASSWD =
  pw_uid :: nat
  pw_gid :: nat
  pw_dir :: bytes

text \<open>The result \<open>None\<close> of a system call is the return value \<open>-1\<close>.\<close>

definition setuid :: "nat \<Rightarrow> PROC \<Rightarrow> PROC option" where
  "setuid u p =
     (if euid p = 0 then Some (p\<lparr>ruid := u, euid := u, suid := u\<rparr>)
      else if u = ruid p \<or> u = suid p then Some (p\<lparr>euid := u\<rparr>)
      else None)"

definition setgid :: "nat \<Rightarrow> PROC \<Rightarrow> PROC option" where
  "setgid g p =
     (if euid p = 0 then Some (p\<lparr>rgid := g, egid := g, sgid := g\<rparr>)
      else if g = rgid p \<or> g = sgid p then Some (p\<lparr>egid := g\<rparr>)
      else None)"

definition CONF_USERNAME :: bytes where
  "CONF_USERNAME = lit ''nobody''"

text \<open>
  Every call may be refused: \<open>ok i\<close> says whether the \<open>i\<close>-th one is not, of \<open>getpwnam\<close>, \<open>setenv\<close>, \<open>setgid\<close>, \<open>setuid\<close> and the two attempts to become
  root again.  These attempts have to fail; a refused one does.
\<close>

definition unix_dropuid0 :: "(bytes \<Rightarrow> PASSWD option) \<Rightarrow> (nat \<Rightarrow> bool) \<Rightarrow> PROC \<Rightarrow> PROC option" where
  "unix_dropuid0 getpwnam ok p =
     (if ruid p \<noteq> 0 then Some p
      else do {
        pw \<leftarrow> (if ok 0 then getpwnam CONF_USERNAME else None);
        p \<leftarrow> (if ok 1 then Some (p\<lparr>env_HOME := pw_dir pw\<rparr>) else None);
        p \<leftarrow> (if ok 2 then setgid (pw_gid pw) p else None);
        p \<leftarrow> (if ok 3 then setuid (pw_uid pw) p else None);
        if (if ok 4 then setuid 0 p else None) \<noteq> None then None
        else if (if ok 5 then setgid 0 p else None) \<noteq> None then None
        else Some p
      })"

definition unix_limits :: "(int \<Rightarrow> bool) \<Rightarrow> int \<Rightarrow> int \<Rightarrow> PROC \<Rightarrow> PROC option" where
  "unix_limits setrlimit cores max_events p =
     (let guess = 2 * max_events * cores + 50;
          limit = (if guess < 4096 then 4096 else guess)
      in if ruid p \<noteq> 0 then Some p
         else if setrlimit limit then Some (p\<lparr>nofile := limit\<rparr>)
         else None)"

section \<open>Properties\<close>

text \<open>Without privileges, an id that is neither the real nor the saved one cannot be taken, whatever is called before.\<close>

inductive ids_step :: "PROC \<Rightarrow> PROC \<Rightarrow> bool" where
  step_uid: "setuid u p = Some p' \<Longrightarrow> ids_step p p'"
| step_gid: "setgid g p = Some p' \<Longrightarrow> ids_step p p'"

inductive ids_reach :: "PROC \<Rightarrow> PROC \<Rightarrow> bool" where
  reach_refl: "ids_reach p p"
| reach_step: "ids_reach p q \<Longrightarrow> ids_step q r \<Longrightarrow> ids_reach p r"

inductive_cases ids_stepE: "ids_step p p'"

definition no_root :: "PROC \<Rightarrow> bool" where
  "no_root p \<longleftrightarrow> ruid p \<noteq> 0 \<and> euid p \<noteq> 0 \<and> suid p \<noteq> 0 \<and> rgid p \<noteq> 0 \<and> egid p \<noteq> 0 \<and> sgid p \<noteq> 0"

lemma no_root_step: "ids_step p p' \<Longrightarrow> no_root p \<Longrightarrow> no_root p'"
  by (elim ids_stepE) (auto simp: no_root_def setuid_def setgid_def split: if_splits)

lemma no_root_reach: "ids_reach p q \<Longrightarrow> no_root p \<Longrightarrow> no_root q"
  by (induction rule: ids_reach.induct) (auto dest: no_root_step)

text \<open>The attempts are made, or nobody is not root anyway.\<close>

definition nobody_ok :: "(bytes \<Rightarrow> PASSWD option) \<Rightarrow> bool" where
  "nobody_ok getpwnam = (case getpwnam CONF_USERNAME of None \<Rightarrow> True | Some pw \<Rightarrow> pw_uid pw \<noteq> 0 \<and> pw_gid pw \<noteq> 0)"

lemma dropped:
  assumes "unix_dropuid0 getpwnam ok p = Some p'" and "ruid p = 0" and "euid p = 0" and "ok 4 \<and> ok 5 \<or> nobody_ok getpwnam"
  shows "\<exists>pw. getpwnam CONF_USERNAME = Some pw \<and> no_root p' \<and> p' = p\<lparr>env_HOME := pw_dir pw, rgid := pw_gid pw, egid := pw_gid pw, sgid := pw_gid pw,
    ruid := pw_uid pw, euid := pw_uid pw, suid := pw_uid pw\<rparr>"
  using assms by (auto simp: unix_dropuid0_def setuid_def setgid_def no_root_def nobody_ok_def Let_def bind_eq_Some_conv' split: if_splits)

text \<open>
  Root is given up for good.  Whatever calls are refused: when unix_dropuid0 returns in a process of root, all three user ids and all three group ids are those of the user nobody, and none of them is root's, provided that nobody is
  not root or that the two attempts to become root again were really made; no sequence of later setuid and setgid calls changes that.  The supplementary groups, however, are still those of root.
\<close>

theorem privileges_dropped:
  assumes "unix_dropuid0 getpwnam ok p = Some p'" and "ruid p = 0" and "euid p = 0" and "ids_reach p' q" and "ok 4 \<and> ok 5 \<or> nobody_ok getpwnam"
  shows "no_root p' \<and> no_root q \<and> (\<exists>pw. getpwnam CONF_USERNAME = Some pw \<and> ruid p' = pw_uid pw \<and> euid p' = pw_uid pw \<and> suid p' = pw_uid pw \<and>
    rgid p' = pw_gid pw \<and> egid p' = pw_gid pw \<and> sgid p' = pw_gid pw) \<and> sup_groups p' = sup_groups p"
  using dropped [OF assms(1-3,5)] no_root_reach [OF assms(4)] by auto

text \<open>A refused call before the attempts ends the program.\<close>

theorem drop_refused:
  assumes "ruid p = 0" and "\<not> ok i" and "i < 4"
  shows "unix_dropuid0 getpwnam ok p = None"
proof -
  from assms(3) consider "i = 0" | "i = 1" | "i = 2" | "i = 3" by linarith
  then show ?thesis by cases (use assms(1,2) in \<open>simp_all add: unix_dropuid0_def bind_eq_None_conv\<close>)
qed

definition ex_root :: PROC where
  "ex_root = \<lparr>ruid = 0, euid = 0, suid = 0, rgid = 0, egid = 0, sgid = 0, sup_groups = [0], env_HOME = lit ''/root'', nofile = 1024\<rparr>"

theorem privileges_dropped_witness:
  "\<exists>p'. unix_dropuid0 (\<lambda>_. Some \<lparr>pw_uid = 65534, pw_gid = 65534, pw_dir = lit ''/''\<rparr>) (\<lambda>i. i < 5) ex_root = Some p' \<and> no_root p' \<and> sup_groups p' = [0]"
proof -
  let ?pw = "\<lparr>pw_uid = 65534, pw_gid = 65534, pw_dir = lit ''/''\<rparr>"
  obtain p' where p: "unix_dropuid0 (\<lambda>_. Some ?pw) (\<lambda>i. i < 5) ex_root = Some p'"
    by (simp add: unix_dropuid0_def ex_root_def setuid_def setgid_def)
  have "nobody_ok (\<lambda>_. Some ?pw)" by (simp add: nobody_ok_def)
  with privileges_dropped [OF p _ _ reach_refl] p show ?thesis by (simp add: ex_root_def)
qed

end
