(* ===== verification/System.thy ===== *)
theory System
  imports Unix Inet
begin

text \<open>
  The operating system as the two programs use it at their start and at their end: descriptors, sockets, epoll, signals, threads and the ids of
  the process.  A call takes the state of the kernel and either returns, ends the program (\<open>fail\<close> of \<^verbatim>\<open>src/src/shr/fail.c\<close>) or is undefined.  Any call may be
  refused: \<open>k_fate\<close> says which ones are.  A call that is not refused does what POSIX and the Linux manual describe, and fails when they say it fails.
\<close>

unbundle bit_operations_syntax

section \<open>State\<close>

datatype sock_type = SOCK_STREAM | SOCK_DGRAM

record SOCKET =
  so_family :: ipver
  so_type :: sock_type
  so_flags :: int
  so_addr :: "IP option"
  so_v6only :: bool
  so_reuse :: bool
  so_backlog :: "int option"
  so_member :: bool
  so_shut :: bool

datatype eflag = E_IN | E_OUT | E_ET | E_ONESHOT

text \<open>An entry of an epoll instance; \<open>rg_armed\<close> is false after a one-shot event.\<close>

record REG =
  rg_events :: "eflag set"
  rg_data :: int
  rg_armed :: bool

datatype DESC = Terminal | Socket SOCKET | Epoll "int \<rightharpoonup> REG"

datatype signal = SIGINT | SIGALRM | SIGPIPE

datatype sig_action = Sig_stop | Sig_time | Sig_ign

text \<open>The start routines of the threads, with the ids the process has when they are created.\<close>

datatype routine = Udp_thread int | Udp_client int | Tcp_thread

record KERNEL =
  k_fds :: "DESC option list"
  k_proc :: PROC
  k_passwd :: "bytes \<Rightarrow> PASSWD option"
  k_signals :: "signal \<rightharpoonup> sig_action"
  k_daemon :: bool
  k_threads :: "(routine \<times> PROC) list"
  k_ended :: "nat set"
  k_joined :: nat
  k_fate :: "nat \<Rightarrow> bool"
  k_calls :: nat

text \<open>\<open>Blocked i\<close>: the caller waits for the thread \<open>i\<close>, which has not ended.\<close>

datatype 'a run = Go 'a KERNEL | Exit int KERNEL | Blocked nat KERNEL | Undefined

type_synonym 'a act = "KERNEL \<Rightarrow> 'a run"

definition ret :: "'a \<Rightarrow> 'a act" where
  "ret a k = Go a k"

definition fail :: "'a act" where
  "fail k = Exit 1 k"

definition andthen :: "'a act \<Rightarrow> ('a \<Rightarrow> 'b act) \<Rightarrow> 'b act" where
  "andthen f g k = (case f k of Go a k' \<Rightarrow> g a k' | Exit n k' \<Rightarrow> Exit n k' | Blocked i k' \<Rightarrow> Blocked i k' | Undefined \<Rightarrow> Undefined)"

text \<open>\<open>None\<close> of the other theories: what is undefined there is undefined here.\<close>

definition defined :: "'a option \<Rightarrow> 'a act" where
  "defined x k = (case x of None \<Rightarrow> Undefined | Some a \<Rightarrow> Go a k)"

text \<open>A call that returns a number, or \<open>-1\<close> when it is refused or not possible.\<close>

definition syscall :: "(KERNEL \<Rightarrow> (KERNEL \<times> int) option) \<Rightarrow> int act" where
  "syscall f k =
     (let k1 = k\<lparr>k_calls := Suc (k_calls k)\<rparr> in
      if \<not> k_fate k (k_calls k) then Go (- 1) k1
      else case f k1 of None \<Rightarrow> Go (- 1) k1 | Some (k2, r) \<Rightarrow> Go r k2)"

section \<open>Descriptors\<close>

definition desc :: "KERNEL \<Rightarrow> int \<Rightarrow> DESC option" where
  "desc k fd = (if 0 \<le> fd \<and> nat fd < length (k_fds k) then k_fds k ! nat fd else None)"

definition set_desc :: "int \<Rightarrow> DESC \<Rightarrow> KERNEL \<Rightarrow> KERNEL" where
  "set_desc fd d k = k\<lparr>k_fds := (k_fds k)[nat fd := Some d]\<rparr>"

text \<open>The lowest number that is not in use.\<close>

definition free_fd :: "KERNEL \<Rightarrow> nat" where
  "free_fd k = length (takeWhile (\<lambda>d. \<not> Option.is_none d) (k_fds k))"

definition new_desc :: "DESC \<Rightarrow> KERNEL \<Rightarrow> (KERNEL \<times> int) option" where
  "new_desc d k =
     (let n = free_fd k; fds = k_fds k
      in Some (k\<lparr>k_fds := (if n < length fds then fds[n := Some d] else fds @ [Some d])\<rparr>, int n))"

text \<open>A closed descriptor leaves the epoll instances it is registered with.\<close>

fun forget :: "int \<Rightarrow> DESC \<Rightarrow> DESC" where
  "forget fd (Epoll m) = Epoll (m(fd := None))"
| "forget fd d = d"

definition sys_close :: "int \<Rightarrow> int act" where
  "sys_close fd = syscall (\<lambda>k. map_option
     (\<lambda>d. (k\<lparr>k_fds := map (map_option (forget fd)) ((k_fds k)[nat fd := None])\<rparr>, 0)) (desc k fd))"

definition on_socket :: "int \<Rightarrow> (KERNEL \<Rightarrow> SOCKET \<Rightarrow> SOCKET option) \<Rightarrow> int act" where
  "on_socket fd f = syscall (\<lambda>k.
     case desc k fd of Some (Socket s) \<Rightarrow> map_option (\<lambda>s. (set_desc fd (Socket s) k, 0)) (f k s) | _ \<Rightarrow> None)"

section \<open>Sockets\<close>

definition O_NONBLOCK :: int where "O_NONBLOCK = 2048"

definition new_socket :: "ipver \<Rightarrow> sock_type \<Rightarrow> SOCKET" where
  "new_socket v t = \<lparr>so_family = v, so_type = t, so_flags = 2, so_addr = None, so_v6only = False, so_reuse = False,
     so_backlog = None, so_member = False, so_shut = False\<rparr>"

definition sys_socket :: "ipver \<Rightarrow> sock_type \<Rightarrow> int act" where
  "sys_socket v t = syscall (new_desc (Socket (new_socket v t)))"

text \<open>Ports below 1024 need root; a port is bound once for each type of socket.\<close>

definition takes_port :: "sock_type \<Rightarrow> 16 word \<Rightarrow> DESC option \<Rightarrow> bool" where
  "takes_port t port d = (case d of Some (Socket s) \<Rightarrow>
     so_type s = t \<and> (case so_addr s of None \<Rightarrow> False | Some a \<Rightarrow> ip_sin_to_port a = port) | _ \<Rightarrow> False)"

definition sys_bind :: "int \<Rightarrow> IP \<Rightarrow> int act" where
  "sys_bind fd addr = on_socket fd (\<lambda>k s.
     if so_addr s \<noteq> None then None
     else if ip_sin_to_port addr < 1024 \<and> euid (k_proc k) \<noteq> 0 then None
     else if list_ex (takes_port (so_type s) (ip_sin_to_port addr)) (k_fds k) then None
     else Some (s\<lparr>so_addr := Some addr\<rparr>))"

definition sys_v6only :: "int \<Rightarrow> int act" where
  "sys_v6only fd = on_socket fd (\<lambda>k s. if so_family s = IPV6 \<and> so_addr s = None then Some (s\<lparr>so_v6only := True\<rparr>) else None)"

definition sys_reuseaddr :: "int \<Rightarrow> int act" where
  "sys_reuseaddr fd = on_socket fd (\<lambda>k s. Some (s\<lparr>so_reuse := True\<rparr>))"

definition sys_listen :: "int \<Rightarrow> int \<Rightarrow> int act" where
  "sys_listen fd n = on_socket fd (\<lambda>k s. if so_type s = SOCK_STREAM \<and> so_addr s \<noteq> None then Some (s\<lparr>so_backlog := Some n\<rparr>) else None)"

definition sys_shutdown :: "int \<Rightarrow> int act" where
  "sys_shutdown fd = on_socket fd (\<lambda>k s. if so_backlog s \<noteq> None then Some (s\<lparr>so_shut := True\<rparr>) else None)"

definition sys_getfl :: "int \<Rightarrow> int act" where
  "sys_getfl fd = syscall (\<lambda>k. case desc k fd of Some (Socket s) \<Rightarrow> Some (k, so_flags s) | _ \<Rightarrow> None)"

definition sys_setfl :: "int \<Rightarrow> int \<Rightarrow> int act" where
  "sys_setfl fd flags = on_socket fd (\<lambda>k s. Some (s\<lparr>so_flags := flags\<rparr>))"

section \<open>Epoll\<close>

datatype epoll_op = EPOLL_CTL_ADD | EPOLL_CTL_MOD | EPOLL_CTL_DEL

definition sys_epoll_create :: "int act" where
  "sys_epoll_create = syscall (new_desc (Epoll Map.empty))"

definition sys_epoll_ctl :: "int \<Rightarrow> epoll_op \<Rightarrow> int \<Rightarrow> eflag set \<Rightarrow> int \<Rightarrow> int act" where
  "sys_epoll_ctl epfd op fd events data = syscall (\<lambda>k.
     case (desc k epfd, desc k fd) of
       (Some (Epoll m), Some (Socket s)) \<Rightarrow>
         (case (op, m fd) of
            (EPOLL_CTL_ADD, None) \<Rightarrow> Some (set_desc epfd (Epoll (m(fd \<mapsto> \<lparr>rg_events = events, rg_data = data, rg_armed = True\<rparr>))) k, 0)
          | (EPOLL_CTL_MOD, Some _) \<Rightarrow> Some (set_desc epfd (Epoll (m(fd \<mapsto> \<lparr>rg_events = events, rg_data = data, rg_armed = True\<rparr>))) k, 0)
          | (EPOLL_CTL_DEL, Some _) \<Rightarrow> Some (set_desc epfd (Epoll (m(fd := None))) k, 0)
          | _ \<Rightarrow> None)
     | _ \<Rightarrow> None)"

section \<open>The process\<close>

definition sys_sigaction :: "signal \<Rightarrow> sig_action \<Rightarrow> int act" where
  "sys_sigaction sig h = syscall (\<lambda>k. Some (k\<lparr>k_signals := (k_signals k)(sig \<mapsto> h)\<rparr>, 0))"

text \<open>The model follows the child, for which \<open>fork\<close> returns zero; the parent ends.\<close>

definition sys_fork :: "int act" where
  "sys_fork = syscall (\<lambda>k. Some (k, 0))"

definition sys_setsid :: "int act" where
  "sys_setsid = syscall (\<lambda>k. Some (k\<lparr>k_daemon := True\<rparr>, 0))"

definition sys_pthread_create :: "routine \<Rightarrow> int act" where
  "sys_pthread_create r = syscall (\<lambda>k. Some (k\<lparr>k_threads := k_threads k @ [(r, k_proc k)]\<rparr>, 0))"

text \<open>Returns when the start routine of the thread has returned, and waits until then; \<open>k_ended\<close> has the threads that are through.\<close>

definition sys_pthread_join :: "nat \<Rightarrow> int act" where
  "sys_pthread_join n k =
     (if n < length (k_threads k) \<and> n \<notin> k_ended k then Blocked n k
      else syscall (\<lambda>k. if n < length (k_threads k) then Some (k\<lparr>k_joined := Suc (k_joined k)\<rparr>, 0) else None) k)"

text \<open>\<^verbatim>\<open>src/src/shr/unix.c\<close>.\<close>

definition unix_signal :: "unit act" where
  "unix_signal =
     andthen (sys_sigaction SIGINT Sig_stop) (\<lambda>r. if r \<noteq> 0 then fail else
     andthen (sys_sigaction SIGALRM Sig_time) (\<lambda>r. if r \<noteq> 0 then fail else
     andthen (sys_sigaction SIGPIPE Sig_ign) (\<lambda>_. ret ())))"

definition unix_fork :: "bool \<Rightarrow> unit act" where
  "unix_fork console =
     (if console then ret ()
      else andthen sys_fork (\<lambda>pid. if pid < 0 then fail else andthen sys_setsid (\<lambda>_. ret ())))"

text \<open>The changes of the ids and limits of the process, from the theory Unix.\<close>

definition CONF_EPOLL_MAX_EVENTS :: int where "CONF_EPOLL_MAX_EVENTS = 32"

definition main_limits :: "int \<Rightarrow> unit act" where
  "main_limits cores k =
     (case unix_limits (\<lambda>_. k_fate k (k_calls k)) cores CONF_EPOLL_MAX_EVENTS (k_proc k) of
        None \<Rightarrow> Exit 1 k
      | Some p \<Rightarrow> Go () (k\<lparr>k_proc := p, k_calls := Suc (k_calls k)\<rparr>))"

definition main_dropuid0 :: "unit act" where
  "main_dropuid0 k =
     (case unix_dropuid0 (k_passwd k) (\<lambda>i. k_fate k (k_calls k + i)) (k_proc k) of
        None \<Rightarrow> Exit 1 k
      | Some p \<Rightarrow> Go () (k\<lparr>k_proc := p, k_calls := k_calls k + 6\<rparr>))"

section \<open>Laws of the kernel\<close>

lemma andthen_simps [simp]:
  "f k = Go a k' \<Longrightarrow> andthen f g k = g a k'"
  "f k = Exit n k' \<Longrightarrow> andthen f g k = Exit n k'"
  "f k = Blocked i k' \<Longrightarrow> andthen f g k = Blocked i k'"
  "f k = Undefined \<Longrightarrow> andthen f g k = Undefined"
  by (simp_all add: andthen_def)

lemma run_simps [simp]: "ret a k = Go a k" "fail k = Exit 1 k" "defined (Some a) k = Go a k" "defined None k = Undefined"
  by (simp_all add: ret_def fail_def defined_def)

lemma andthen_ret [simp]: "andthen (ret a) g k = g a k"
  by (simp add: andthen_def)

lemma desc_calls [simp]: "desc (k\<lparr>k_calls := n\<rparr>) = desc k"
  by (simp add: desc_def fun_eq_iff)

lemma desc_set: "desc k fd = Some d0 \<Longrightarrow> desc (set_desc fd d k) = (desc k)(fd \<mapsto> d)"
  by (auto simp: desc_def set_desc_def fun_eq_iff nth_list_update split: if_splits)

lemma free_fd_le: "free_fd k \<le> length (k_fds k)"
  by (simp add: free_fd_def length_takeWhile_le)

lemma free_fd_None: "desc k (int (free_fd k)) = None"
proof (cases "free_fd k < length (k_fds k)")
  case True
  then have "Option.is_none (k_fds k ! free_fd k)" unfolding free_fd_def using nth_length_takeWhile by blast
  then show ?thesis by (simp add: desc_def Option.is_none_def)
qed (simp add: desc_def)

lemma desc_new:
  assumes "new_desc d k = Some (k', fd)"
  shows "desc k' = (desc k)(fd \<mapsto> d)" "desc k fd = None" "0 \<le> fd"
  using assms free_fd_le [of k] free_fd_None [of k]
  by (auto simp: new_desc_def Let_def desc_def fun_eq_iff nth_list_update nth_append split: if_splits)

lemma fds_ex: "P None = False \<Longrightarrow> list_ex P (k_fds k) \<longleftrightarrow> (\<exists>fd. P (desc k fd))"
proof -
  assume none: "P None = False"
  have "(\<exists>fd. P (desc k fd)) \<longleftrightarrow> (\<exists>i < length (k_fds k). P (k_fds k ! i))"
  proof
    assume "\<exists>fd. P (desc k fd)"
    with none show "\<exists>i < length (k_fds k). P (k_fds k ! i)" by (auto simp: desc_def split: if_splits)
  next
    assume "\<exists>i < length (k_fds k). P (k_fds k ! i)"
    then obtain i where "i < length (k_fds k)" "P (k_fds k ! i)" by blast
    then have "P (desc k (int i))" by (simp add: desc_def)
    then show "\<exists>fd. P (desc k fd)" by blast
  qed
  then show ?thesis by (simp add: list_ex_length)
qed

text \<open>A kernel that refuses nothing, and the change of descriptors only.\<close>

definition granted :: "KERNEL \<Rightarrow> bool" where
  "granted k \<longleftrightarrow> (\<forall>n. k_fate k n)"

definition fds_only :: "KERNEL \<Rightarrow> KERNEL \<Rightarrow> bool" where
  "fds_only k k' \<longleftrightarrow> k'\<lparr>k_fds := [], k_calls := 0\<rparr> = k\<lparr>k_fds := [], k_calls := 0\<rparr>"

lemma fds_only_refl: "fds_only k k"
  by (simp add: fds_only_def)

lemma fds_only_trans: "fds_only k k' \<Longrightarrow> fds_only k' k'' \<Longrightarrow> fds_only k k''"
  by (simp add: fds_only_def)

lemma fds_onlyD:
  assumes "fds_only k k'"
  shows "granted k' = granted k" "k_proc k' = k_proc k" "k_passwd k' = k_passwd k" "k_threads k' = k_threads k" "k_signals k' = k_signals k"
    "k_joined k' = k_joined k" "k_daemon k' = k_daemon k" "k_ended k' = k_ended k"
  using assms by (cases k; cases k'; simp add: fds_only_def granted_def)+

lemma fds_only_ok: "fds_only k (k\<lparr>k_calls := n\<rparr>)" "fds_only k (set_desc fd d k)" "fds_only k (k\<lparr>k_fds := fds\<rparr>)"
  "new_desc d k = Some (k', fd) \<Longrightarrow> fds_only k k'"
  by (auto simp: fds_only_def set_desc_def new_desc_def Let_def)

lemma granted_call: "granted k \<Longrightarrow> f (k\<lparr>k_calls := Suc (k_calls k)\<rparr>) = Some (k', r) \<Longrightarrow> syscall f k = Go r k'"
  by (simp add: syscall_def granted_def)

definition moves :: "KERNEL \<Rightarrow> KERNEL \<Rightarrow> (int \<rightharpoonup> DESC) \<Rightarrow> bool" where
  "moves k k' D \<longleftrightarrow> fds_only k k' \<and> desc k' = D"

lemma moves_trans: "moves k k' D \<Longrightarrow> moves k' k'' D' \<Longrightarrow> moves k k'' D'"
  by (auto simp: moves_def intro: fds_only_trans)

lemma moves_refl: "moves k k (desc k)"
  by (simp add: moves_def fds_only_refl)

lemma moves_granted: "moves k k' D \<Longrightarrow> granted k \<Longrightarrow> granted k'"
  using fds_onlyD(1) by (auto simp: moves_def)

lemma call_moves:
  assumes "granted k" and "f (k\<lparr>k_calls := Suc (k_calls k)\<rparr>) = Some (k', r)" and "moves (k\<lparr>k_calls := Suc (k_calls k)\<rparr>) k' D"
  shows "syscall f k = Go r k' \<and> moves k k' D"
  using granted_call [of k f, OF assms(1,2)] assms(3) fds_only_trans [OF fds_only_ok(1)] by (auto simp: moves_def)

lemma new_moves:
  assumes "granted k"
  shows "\<exists>fd k'. syscall (new_desc d) k = Go fd k' \<and> moves k k' ((desc k)(fd \<mapsto> d)) \<and> desc k fd = None \<and> 0 \<le> fd"
proof -
  let ?k = "k\<lparr>k_calls := Suc (k_calls k)\<rparr>"
  obtain k' fd where n: "new_desc d ?k = Some (k', fd)" by (auto simp: new_desc_def Let_def)
  from desc_new [OF n] fds_only_ok(4) [OF n] have "moves ?k k' ((desc k)(fd \<mapsto> d))" "desc k fd = None" "0 \<le> fd" by (simp_all add: moves_def)
  with call_moves [of k "new_desc d", OF assms n] show ?thesis by blast
qed

lemma on_socket_moves:
  assumes "granted k" and "desc k fd = Some (Socket s)" and "f (k\<lparr>k_calls := Suc (k_calls k)\<rparr>) s = Some s'"
  shows "\<exists>k'. on_socket fd f k = Go 0 k' \<and> moves k k' ((desc k)(fd \<mapsto> Socket s'))"
proof -
  let ?k = "k\<lparr>k_calls := Suc (k_calls k)\<rparr>"
  have d: "desc ?k fd = Some (Socket s)" using assms(2) by simp
  from desc_set [OF d, of "Socket s'"] have "moves ?k (set_desc fd (Socket s') ?k) ((desc k)(fd \<mapsto> Socket s'))"
    by (simp add: moves_def fds_only_ok)
  from call_moves [OF assms(1) _ this] assms(3) d show ?thesis unfolding on_socket_def by fastforce
qed

lemma getfl_moves: "granted k \<Longrightarrow> desc k fd = Some (Socket s) \<Longrightarrow> \<exists>k'. sys_getfl fd k = Go (so_flags s) k' \<and> moves k k' (desc k)"
  unfolding sys_getfl_def 
  by (rule exI [of _ "k\<lparr>k_calls := Suc (k_calls k)\<rparr>"], rule call_moves) (simp_all add: moves_def fds_only_refl)

lemma epoll_ctl_moves:
  assumes "granted k" and "desc k epfd = Some (Epoll m)" and "desc k fd = Some (Socket s)" and "op = EPOLL_CTL_ADD \<and> m fd = None \<or> op = EPOLL_CTL_MOD \<and> m fd \<noteq> None"
  shows "\<exists>k'. sys_epoll_ctl epfd op fd events data k = Go 0 k' \<and>
    moves k k' ((desc k)(epfd \<mapsto> Epoll (m(fd \<mapsto> \<lparr>rg_events = events, rg_data = data, rg_armed = True\<rparr>))))"
proof -
  let ?k = "k\<lparr>k_calls := Suc (k_calls k)\<rparr>" and ?e = "Epoll (m(fd \<mapsto> \<lparr>rg_events = events, rg_data = data, rg_armed = True\<rparr>))"
  have d: "desc ?k epfd = Some (Epoll m)" using assms(2) by simp
  from desc_set [OF d, of ?e] have "moves ?k (set_desc epfd ?e ?k) ((desc k)(epfd \<mapsto> ?e))" by (simp add: moves_def fds_only_ok)
  from call_moves [OF assms(1) _ this] assms(3,4) d show ?thesis unfolding sys_epoll_ctl_def by fastforce
qed

lemma close_moves:
  assumes "granted k" and "desc k fd = Some d"
  shows "\<exists>k'. sys_close fd k = Go 0 k' \<and> moves k k' (\<lambda>i. if i = fd then None else map_option (forget fd) (desc k i))"
proof -
  let ?k = "k\<lparr>k_calls := Suc (k_calls k)\<rparr>"
  let ?k' = "?k\<lparr>k_fds := map (map_option (forget fd)) ((k_fds k)[nat fd := None])\<rparr>"
  have "desc ?k' = (\<lambda>i. if i = fd then None else map_option (forget fd) (desc k i))"
    using assms(2) by (auto simp: desc_def fun_eq_iff nth_list_update split: if_splits)
  then have "moves ?k ?k' (\<lambda>i. if i = fd then None else map_option (forget fd) (desc k i))" by (simp add: moves_def fds_only_ok)
  from call_moves [OF assms(1) _ this] assms(2) show ?thesis unfolding sys_close_def by fastforce
qed

text \<open>The other calls.\<close>

lemma unix_signal_ok: "granted k \<Longrightarrow> \<exists>n. unix_signal k =
    Go () (k\<lparr>k_signals := (k_signals k)(SIGINT \<mapsto> Sig_stop, SIGALRM \<mapsto> Sig_time, SIGPIPE \<mapsto> Sig_ign), k_calls := n\<rparr>)"
  by (rule exI [of _ "k_calls k + 3"]) (simp add: unix_signal_def sys_sigaction_def andthen_def syscall_def granted_def eval_nat_numeral)

lemma fork_ok: "granted k \<Longrightarrow> \<exists>n. unix_fork console k = Go () (k\<lparr>k_daemon := (\<not> console \<or> k_daemon k), k_calls := n\<rparr>)"
proof (cases console)
  case True
  then show ?thesis by (intro exI [of _ "k_calls k"]) (simp add: unix_fork_def)
next
  case False
  then show "granted k \<Longrightarrow> ?thesis" by (intro exI [of _ "k_calls k + 2"])
    (simp add: unix_fork_def sys_fork_def sys_setsid_def andthen_def syscall_def granted_def eval_nat_numeral)
qed

lemma limits_ok: "granted k \<Longrightarrow> \<exists>l n. main_limits cores k = Go () (k\<lparr>k_proc := (k_proc k)\<lparr>nofile := l\<rparr>, k_calls := n\<rparr>)"
proof (cases "ruid (k_proc k) = 0")
  case False
  then show ?thesis by (intro exI [of _ "nofile (k_proc k)"] exI [of _ "Suc (k_calls k)"]) (simp add: main_limits_def unix_limits_def Let_def)
qed (auto simp: main_limits_def unix_limits_def Let_def granted_def)

text \<open>A process of root can give up root when the user nobody exists and is not root.\<close>

definition can_drop :: "KERNEL \<Rightarrow> bool" where
  "can_drop k \<longleftrightarrow> (ruid (k_proc k) = 0 \<longrightarrow> euid (k_proc k) = 0 \<and>
     (case k_passwd k CONF_USERNAME of None \<Rightarrow> False | Some pw \<Rightarrow> pw_uid pw \<noteq> 0 \<and> pw_gid pw \<noteq> 0))"

lemma drop_ok:
  "granted k \<Longrightarrow> can_drop k \<Longrightarrow> \<exists>p n. main_dropuid0 k = Go () (k\<lparr>k_proc := p, k_calls := n\<rparr>) \<and> (ruid (k_proc k) = 0 \<longrightarrow> no_root p) \<and> (ruid (k_proc k) \<noteq> 0 \<longrightarrow> p = k_proc k)"
  by (cases "ruid (k_proc k) = 0")
    (auto simp: granted_def can_drop_def main_dropuid0_def unix_dropuid0_def setuid_def setgid_def no_root_def Let_def split: option.splits)

section \<open>Whatever the system refuses\<close>

text \<open>An action that returns or ends the program with a failure, and relates the states before and after.\<close>

definition keeps :: "(KERNEL \<Rightarrow> KERNEL \<Rightarrow> bool) \<Rightarrow> 'a act \<Rightarrow> bool" where
  "keeps R f \<longleftrightarrow> (\<forall>k. case f k of Go a k' \<Rightarrow> R k k' | Exit n k' \<Rightarrow> n = 1 \<and> R k k' | _ \<Rightarrow> False)"

locale kernel_order =
  fixes R :: "KERNEL \<Rightarrow> KERNEL \<Rightarrow> bool"
  assumes order_refl: "R k k"
    and order_trans: "R k k1 \<Longrightarrow> R k1 k2 \<Longrightarrow> R k k2"
    and order_fds: "R k (k\<lparr>k_fds := fds, k_calls := n\<rparr>)"
begin

lemma order_calls: "R k (k\<lparr>k_calls := n\<rparr>)"
  using order_fds [where k = k and fds = "k_fds k" and n = n] by simp

lemma keeps_ret: "keeps R (ret a)"
  by (simp add: keeps_def order_refl)

lemma keeps_fail: "keeps R fail"
  by (simp add: keeps_def order_refl)

lemma keeps_defined: "keeps R (defined (Some a))"
  by (simp add: keeps_def order_refl)

lemma keeps_andthen:
  assumes "keeps R f" and "\<And>a. keeps R (g a)"
  shows "keeps R (andthen f g)"
proof -
  have f: "case f k of Go a k' \<Rightarrow> R k k' | Exit n k' \<Rightarrow> n = 1 \<and> R k k' | _ \<Rightarrow> False" for k
    using assms(1) by (simp add: keeps_def)
  have g: "case g a k of Go b k' \<Rightarrow> R k k' | Exit n k' \<Rightarrow> n = 1 \<and> R k k' | _ \<Rightarrow> False" for a k
    using assms(2) by (simp add: keeps_def)
  have "case andthen f g k of Go a k' \<Rightarrow> R k k' | Exit n k' \<Rightarrow> n = 1 \<and> R k k' | _ \<Rightarrow> False" for k
  proof (cases "f k")
    case (Go a k1)
    then show ?thesis using f [of k] g [where a = a and k = k1] order_trans by (auto split: run.splits)
  qed (use f [of k] in simp_all)
  then show ?thesis by (simp add: keeps_def)
qed

lemma keeps_if: "keeps R f \<Longrightarrow> keeps R g \<Longrightarrow> keeps R (if b then f else g)"
  by simp

lemma keeps_syscall:
  assumes "\<And>k k' r. f k = Some (k', r) \<Longrightarrow> R k k'"
  shows "keeps R (syscall f)"
  unfolding keeps_def syscall_def Let_def using order_calls order_trans [OF order_calls assms] by (auto split: option.splits)

lemma order_set: "R k (set_desc fd d k)"
  using order_fds [where k = k and fds = "(k_fds k)[nat fd := Some d]" and n = "k_calls k"] by (simp add: set_desc_def)

lemma keeps_new: "keeps R (syscall (new_desc d))"
proof (rule keeps_syscall)
  show "R k k'" if "new_desc d k = Some (k', r)" for k k' r
    using that order_fds [where k = k and fds = "if free_fd k < length (k_fds k) then (k_fds k)[free_fd k := Some d] else k_fds k @ [Some d]" and n = "k_calls k"]
    by (auto simp: new_desc_def Let_def)
qed

lemma keeps_on_socket: "keeps R (on_socket fd f)"
  unfolding on_socket_def by (rule keeps_syscall) (auto intro: order_set split: option.splits DESC.splits)

lemma keeps_close: "keeps R (sys_close fd)"
  unfolding sys_close_def
proof (rule keeps_syscall)
  show "R k k'" if "map_option (\<lambda>d. (k\<lparr>k_fds := map (map_option (forget fd)) ((k_fds k)[nat fd := None])\<rparr>, 0)) (desc k fd) = Some (k', r)" for k k' and r :: int
    using that order_fds [where k = k and fds = "map (map_option (forget fd)) ((k_fds k)[nat fd := None])" and n = "k_calls k"] by auto
qed

lemma keeps_getfl: "keeps R (sys_getfl fd)"
  unfolding sys_getfl_def by (rule keeps_syscall) (auto intro: order_refl split: option.splits DESC.splits)

lemma keeps_epoll_ctl: "keeps R (sys_epoll_ctl epfd op fd events data)"
  unfolding sys_epoll_ctl_def by (rule keeps_syscall) (auto intro: order_set split: option.splits DESC.splits epoll_op.splits)

lemmas keeps_fds = keeps_ret keeps_fail keeps_defined keeps_andthen keeps_if keeps_new keeps_on_socket keeps_close keeps_getfl keeps_epoll_ctl

end

text \<open>Up to the change of ids no thread is created, and the ids stay; afterwards every thread has the ids of the process.\<close>

definition before_drop :: "KERNEL \<Rightarrow> KERNEL \<Rightarrow> bool" where
  "before_drop k k' \<longleftrightarrow> k_threads k' = k_threads k \<and> k_passwd k' = k_passwd k \<and> (\<exists>l. k_proc k' = (k_proc k)\<lparr>nofile := l\<rparr>)"

definition after_drop :: "KERNEL \<Rightarrow> KERNEL \<Rightarrow> bool" where
  "after_drop k k' \<longleftrightarrow> k_proc k' = k_proc k \<and> (\<forall>x \<in> set (k_threads k'). x \<in> set (k_threads k) \<or> snd x = k_proc k)"

lemma nofile_triv: "\<exists>l. p = p\<lparr>nofile := l\<rparr>"
  by (rule exI [of _ "nofile p"]) simp

interpretation bd: kernel_order before_drop
  by unfold_locales (auto simp: before_drop_def nofile_triv)

interpretation ad: kernel_order after_drop
  by unfold_locales (auto simp: after_drop_def)

lemma bd_signal: "keeps before_drop unix_signal"
  unfolding unix_signal_def sys_sigaction_def
  by (intro bd.keeps_fds bd.keeps_syscall) (auto simp: before_drop_def nofile_triv)

lemma bd_fork: "keeps before_drop (unix_fork console)"
  unfolding unix_fork_def sys_fork_def sys_setsid_def
  by (intro bd.keeps_fds bd.keeps_syscall) (auto simp: before_drop_def nofile_triv)

lemma bd_limits: "keeps before_drop (main_limits cores)"
  by (auto simp: keeps_def main_limits_def unix_limits_def before_drop_def nofile_triv Let_def)

lemma ad_create: "keeps after_drop (sys_pthread_create r)"
  unfolding sys_pthread_create_def by (rule ad.keeps_syscall) (auto simp: after_drop_def)

text \<open>A program that opens, gives up root and then works.\<close>

lemma drop_between:
  assumes "keeps before_drop f" and "\<And>u. keeps after_drop (g u)" and "ruid (k_proc k) = 0" and "euid (k_proc k) = 0" and "k_threads k = []"
    and "nobody_ok (k_passwd k)"
  shows "case andthen f (\<lambda>u. andthen main_dropuid0 (\<lambda>_. g u)) k of
      Go x k' \<Rightarrow> no_root (k_proc k') \<and> (\<forall>(r, p) \<in> set (k_threads k'). no_root p)
    | Exit n k' \<Rightarrow> n = 1 \<and> (\<forall>(r, p) \<in> set (k_threads k'). no_root p)
    | _ \<Rightarrow> False"
proof -
  have f: "case f k of Go a k' \<Rightarrow> before_drop k k' | Exit n k' \<Rightarrow> n = 1 \<and> before_drop k k' | _ \<Rightarrow> False"
    using assms(1) unfolding keeps_def by blast
  show ?thesis
  proof (cases "f k")
    case (Exit n k1)
    with f assms(5) show ?thesis by (simp add: before_drop_def)
  next
    case (Go u k1)
    with f have k1: "k_threads k1 = []" "ruid (k_proc k1) = 0" "euid (k_proc k1) = 0" "nobody_ok (k_passwd k1)"
      using assms(3-6) by (auto simp: before_drop_def)
    let ?ok = "\<lambda>i. k_fate k1 (k_calls k1 + i)"
    show ?thesis
    proof (cases "unix_dropuid0 (k_passwd k1) ?ok (k_proc k1)")
      case None
      with Go k1(1) show ?thesis by (simp add: andthen_def main_dropuid0_def)
    next
      case (Some p)
      from dropped [OF Some k1(2,3)] k1(4) have p: "no_root p" by blast
      let ?k2 = "k1\<lparr>k_proc := p, k_calls := k_calls k1 + 6\<rparr>"
      have "andthen f (\<lambda>u. andthen main_dropuid0 (\<lambda>_. g u)) k = g u ?k2" using Go Some by (simp add: andthen_def main_dropuid0_def)
      moreover have "case g u ?k2 of Go a k' \<Rightarrow> after_drop ?k2 k' | Exit n k' \<Rightarrow> n = 1 \<and> after_drop ?k2 k' | _ \<Rightarrow> False"
        using assms(2) [of u] unfolding keeps_def by blast
      ultimately show ?thesis using p k1(1) by (auto simp: after_drop_def split: run.splits)
    qed
  qed (use f in simp_all)
qed

end
