(* ===== verification/Cstring.thy ===== *)
theory Cstring
  imports Strings
begin

text \<open>
  The C library calls on strings that the web server uses: \<open>strchr\<close> as the split it is used for,
  \<open>strncmp\<close>, \<open>strcasecmp\<close>, \<open>snprintf\<close> into a bounded buffer, and \<open>sscanf\<close> with the format \<open>%2x\<close>; and
  the rest of \<^verbatim>\<open>src/src/shr/str.c\<close>: dates and sizes in readable form.
\<close>

section \<open>Searching and comparing\<close>

text \<open>\<open>strchr\<close> followed by writing a zero at the place found: the text before it and the text behind it.\<close>

definition cut_at :: "UCHAR \<Rightarrow> bytes \<Rightarrow> (bytes \<times> bytes) option" where
  "cut_at c s =
     (case dropWhile (\<lambda>x. x \<noteq> c) s of [] \<Rightarrow> None | _ # t \<Rightarrow> Some (takeWhile (\<lambda>x. x \<noteq> c) s, t))"

text \<open>The same with \<open>strstr\<close>: the text before the first occurrence and the text behind it.\<close>

definition cut_str :: "bytes \<Rightarrow> bytes \<Rightarrow> (bytes \<times> bytes) option" where
  "cut_str search s =
     (case strstr s search of None \<Rightarrow> None
      | Some q \<Rightarrow> Some (take (length s - length q) s, drop (length search) q))"

definition strncmp_eq :: "bytes \<Rightarrow> bytes \<Rightarrow> nat \<Rightarrow> bool" where
  "strncmp_eq s t n \<longleftrightarrow> take n s = take n t"

definition tolower :: "UCHAR \<Rightarrow> UCHAR" where
  "tolower c = (if 65 \<le> c \<and> c \<le> 90 then c + 32 else c)"

definition strcasecmp_eq :: "bytes \<Rightarrow> bytes \<Rightarrow> bool" where
  "strcasecmp_eq s t \<longleftrightarrow> map tolower s = map tolower t"

text \<open>A buffer of \<open>n\<close> bytes after \<open>snprintf\<close>.\<close>

definition snprintf :: "nat \<Rightarrow> bytes \<Rightarrow> bytes" where
  "snprintf n s = take (n - 1) s"

definition CRLF :: bytes where
  "CRLF = [13, 10]"

section \<open>Scanning two hexadecimal digits\<close>

text \<open>
  \<open>sscanf (s, "%2x", &hex)\<close> skips white space, then reads at most two characters: a sign and a digit, or one or
  two digits.  A lone prefix \<open>0x\<close> is not a number.  The result is 0 when nothing matches and \<open>EOF\<close> at the end
  of the string; \<open>hex\<close> keeps its value in both cases.
\<close>

datatype scanned = Matched UCHAR | Mismatch | Eof

definition isspace :: "UCHAR \<Rightarrow> bool" where
  "isspace c \<longleftrightarrow> 9 \<le> c \<and> c \<le> 13 \<or> c = 32"

definition hexval :: "UCHAR \<Rightarrow> UCHAR option" where
  "hexval c =
     (if 48 \<le> c \<and> c \<le> 57 then Some (c - 48)
      else if 65 \<le> c \<and> c \<le> 70 then Some (c - 55)
      else if 97 \<le> c \<and> c \<le> 102 then Some (c - 87)
      else None)"

fun scan_digits :: "bytes \<Rightarrow> scanned" where
  "scan_digits [] = Eof"
| "scan_digits (c # s) =
     (if c = 43 \<or> c = 45 then
        (case s of [] \<Rightarrow> Mismatch
         | d # _ \<Rightarrow> (case hexval d of None \<Rightarrow> Mismatch | Some v \<Rightarrow> Matched (if c = 45 then - v else v)))
      else case hexval c of None \<Rightarrow> Mismatch
         | Some v \<Rightarrow> (case s of [] \<Rightarrow> Matched v
             | d # _ \<Rightarrow> (if c = 48 \<and> (d = 88 \<or> d = 120) then Mismatch
                 else case hexval d of None \<Rightarrow> Matched v | Some w \<Rightarrow> Matched (16 * v + w))))"

definition sscanf_2x :: "bytes \<Rightarrow> scanned" where
  "sscanf_2x s = scan_digits (dropWhile isspace s)"

section \<open>Dates\<close>

text \<open>
  \<open>gmtime_r\<close>: the proleptic Gregorian date of a day number, counted in eras of 400 years that begin on the first of
  March; it fails when the year does not fit an \<open>int\<close>.
\<close>

definition civil :: "int \<Rightarrow> int \<times> int \<times> int" where
  "civil days =
     (let z = days + 719468;
          era = z div 146097;
          doe = z mod 146097;
          yoe = (doe - doe div 1460 + doe div 36524 - doe div 146096) div 365;
          doy = doe - (365 * yoe + yoe div 4 - yoe div 100);
          mp = (5 * doy + 2) div 153;
          d = doy - (153 * mp + 2) div 5 + 1;
          m = (if mp < 10 then mp + 3 else mp - 9)
      in (yoe + era * 400 + (if m \<le> 2 then 1 else 0), m, d))"

definition two_digits :: "int \<Rightarrow> bytes" where
  "two_digits n = [of_int (48 + n div 10), of_int (48 + n mod 10)]"

definition day_name :: "int \<Rightarrow> string" where
  "day_name d =
     (if d = 0 then ''Thu'' else if d = 1 then ''Fri'' else if d = 2 then ''Sat'' else if d = 3 then ''Sun''
      else if d = 4 then ''Mon'' else if d = 5 then ''Tue'' else ''Wed'')"

definition month_name :: "int \<Rightarrow> string" where
  "month_name m =
     (if m = 1 then ''Jan'' else if m = 2 then ''Feb'' else if m = 3 then ''Mar'' else if m = 4 then ''Apr''
      else if m = 5 then ''May'' else if m = 6 then ''Jun'' else if m = 7 then ''Jul'' else if m = 8 then ''Aug''
      else if m = 9 then ''Sep'' else if m = 10 then ''Oct'' else if m = 11 then ''Nov'' else ''Dec'')"

definition epoch :: bytes where
  "epoch = lit ''Thu, 01 Jan 1970 00:00:00 GMT''"

definition strftime :: "time_t \<Rightarrow> bytes" where
  "strftime t =
     (let days = t div 86400; s = t mod 86400; (y, m, d) = civil days in
      lit (day_name (days mod 7)) @ lit '', '' @ two_digits d @ lit '' '' @ lit (month_name m) @ lit '' '' @
      long_digits y @ lit '' '' @ two_digits (s div 3600) @ lit '':'' @ two_digits (s div 60 mod 60) @ lit '':'' @
      two_digits (s mod 60) @ lit '' GMT'')"

text \<open>
  \<open>str_gmttime\<close> tells \<open>strftime\<close> that the buffer has \<open>BUF_SIZE\<close> bytes whatever its size is: a date that does not fit
  the buffer is written beyond it.
\<close>

definition str_gmttime :: "nat \<Rightarrow> time_t \<Rightarrow> bytes option" where
  "str_gmttime siz timestamp =
     (if - 2147483648 \<le> fst (civil (timestamp div 86400)) - 1900 \<and> fst (civil (timestamp div 86400)) - 1900 \<le> 2147483647 then
        let date = strftime timestamp in
        if BUF_SIZE \<le> length date then Some (snprintf siz epoch)
        else if siz \<le> length date then None
        else Some date
      else Some (snprintf siz epoch))"

definition str_GMTtime :: "nat \<Rightarrow> time_t \<Rightarrow> bytes option" where
  "str_GMTtime siz now = (if now > 0 then str_gmttime siz now else Some (snprintf siz epoch))"

definition str_prettySize :: "nat \<Rightarrow> nat \<Rightarrow> bytes" where
  "str_prettySize siz filesize =
     (if filesize > 1073741824 then snprintf siz (nat_digits (filesize div 1073741824) @ lit '' GiB'')
      else if filesize > 1048576 then snprintf siz (nat_digits (filesize div 1048576) @ lit '' MiB'')
      else if filesize > 1024 then snprintf siz (nat_digits (filesize div 1024) @ lit '' KiB'')
      else snprintf siz (nat_digits filesize @ lit '' B''))"

section \<open>Laws\<close>

lemma cut_at_split: "c \<notin> set a \<Longrightarrow> cut_at c (a @ c # b) = Some (a, b)"
  by (induction a) (auto simp: cut_at_def split: list.splits)

lemma cut_at_None: "cut_at c s = None \<longleftrightarrow> c \<notin> set s"
proof (cases "c \<in> set s")
  case True
  then obtain a b where "s = a @ c # b" "c \<notin> set a" by (metis split_list_first)
  with True show ?thesis by (simp add: cut_at_split)
next
  case False
  then have "dropWhile (\<lambda>x. x \<noteq> c) s = []" by (auto simp: dropWhile_eq_Nil_conv)
  with False show ?thesis by (simp add: cut_at_def del: dropWhile_eq_Nil_conv)
qed

lemma cut_at_Some: "cut_at c s = Some (a, b) \<longleftrightarrow> s = a @ c # b \<and> c \<notin> set a"
proof (cases "c \<in> set s")
  case True
  then obtain u v where s: "s = u @ c # v" "c \<notin> set u" by (metis split_list_first)
  then have "cut_at c s = Some (u, v)" by (simp add: cut_at_split)
  moreover have "s = a @ c # b \<Longrightarrow> c \<notin> set a \<Longrightarrow> cut_at c s = Some (a, b)" by (simp add: cut_at_split)
  ultimately show ?thesis using s by (metis option.inject prod.inject)
next
  case False
  then have "cut_at c s = None" by (simp add: cut_at_None)
  moreover have "s \<noteq> a @ c # b" using False by auto
  ultimately show ?thesis by simp
qed

lemma cut_at_length: "cut_at c s = Some (a, b) \<Longrightarrow> length a < length s \<and> length b < length s"
  by (simp add: cut_at_Some)

lemma strstr_suffix: "strstr p search = Some q \<Longrightarrow> \<exists>a t. p = a @ q \<and> q = search @ t"
proof (induction p)
  case (Cons c p)
  show ?case
  proof (cases "take (length search) (c # p) = search")
    case True
    then have "c # p = search @ drop (length search) (c # p)" by (metis append_take_drop_id)
    with True Cons.prems show ?thesis by (metis append_Nil option.inject strstr.simps(2))
  next
    case False
    with Cons.prems have "strstr p search = Some q" by (metis strstr.simps(2))
    from Cons.IH [OF this] show ?thesis by (metis append_Cons)
  qed
qed (auto split: if_splits)

lemma cut_str_Some: "cut_str search s = Some (a, b) \<Longrightarrow> s = a @ search @ b"
  by (auto simp: cut_str_def split: option.splits dest!: strstr_suffix)

lemma cut_str_length: "cut_str search s = Some (a, b) \<Longrightarrow> search \<noteq> [] \<Longrightarrow> length b < length s"
  by (auto dest: cut_str_Some)

lemma strstr_first: "search \<noteq> [] \<Longrightarrow> hd search \<notin> set a \<Longrightarrow> strstr (a @ search @ b) search = Some (search @ b)"
proof (induction a)
  case Nil
  then show ?case by (cases search) auto
next
  case (Cons c a)
  then show ?case by (cases search) auto
qed

lemma cut_str_first: "search \<noteq> [] \<Longrightarrow> hd search \<notin> set a \<Longrightarrow> cut_str search (a @ search @ b) = Some (a, b)"
  by (simp add: cut_str_def strstr_first)

text \<open>Dates from 1970 to the end of the year 9999 fit a buffer of 32 bytes.\<close>

definition date_ok :: "time_t \<Rightarrow> bool" where
  "date_ok t \<longleftrightarrow> 0 \<le> t \<and> t < 253402300800"

lemma civil_year:
  assumes "0 \<le> days" and "days \<le> 2932896"
  shows "0 \<le> fst (civil days) \<and> fst (civil days) \<le> 10001"
proof -
  define z where "z = days + 719468"
  define doe where "doe = z mod 146097"
  have era: "0 \<le> z div 146097" "z div 146097 \<le> 24" using assms by (simp_all add: z_def)
  have doe: "0 \<le> doe" "doe \<le> 146096" by (simp_all add: doe_def)
  have lo: "0 \<le> doe - doe div 1460 + doe div 36524 - doe div 146096"
  proof -
    have "doe div 1460 \<le> doe" using doe by (simp add: div_le_dividend flip: zdiv_int)
    moreover have "doe div 146096 \<le> doe div 36524" using doe by (intro zdiv_mono2) simp_all
    ultimately show ?thesis by simp
  qed
  have hi: "doe - doe div 1460 + doe div 36524 - doe div 146096 \<le> 146100"
  proof -
    have "doe div 36524 \<le> 4" "0 \<le> doe div 1460" "0 \<le> doe div 146096" using doe by simp_all
    then show ?thesis using doe by simp
  qed
  have bound: "0 \<le> x div 365 \<and> x div 365 \<le> 400" if "0 \<le> x" "x \<le> 146100" for x :: int using that by auto
  have "0 \<le> (doe - doe div 1460 + doe div 36524 - doe div 146096) div 365"
    "(doe - doe div 1460 + doe div 36524 - doe div 146096) div 365 \<le> 400"
    using bound [OF lo hi] by blast+
  note year = this
  have sum: "0 \<le> a + e * 400 + (if P then 1 else 0) \<and> a + e * 400 + (if P then 1 else 0) \<le> 10001"
    if "0 \<le> a" "a \<le> 400" "0 \<le> e" "e \<le> 24" for a e :: int and P using that by auto
  show ?thesis unfolding civil_def Let_def z_def [symmetric] doe_def [symmetric] fst_conv by (rule sum [OF year era])
qed

lemma length_two_digits [simp]: "length (two_digits n) = 2"
  and length_day_name [simp]: "length (day_name d) = 3"
  and length_month_name [simp]: "length (month_name m) = 3"
  by (simp_all add: two_digits_def day_name_def month_name_def)

lemma strftime_length: "length (strftime t) = 25 + length (long_digits (fst (civil (t div 86400))))"
  by (simp add: strftime_def Let_def case_prod_unfold)

lemma str_gmttime_ok:
  assumes "date_ok t"
  shows "\<exists>d. str_gmttime 32 t = Some d \<and> length d \<le> 31"
proof -
  have "0 \<le> t div 86400" "t div 86400 \<le> 2932896" using assms by (auto simp: date_ok_def pos_imp_zdiv_nonneg_iff)
  from civil_year [OF this] have y: "0 \<le> fst (civil (t div 86400))" "fst (civil (t div 86400)) \<le> 10001" by simp_all
  have "length (nat_digits (nat (fst (civil (t div 86400))))) \<le> 5" by (rule nat_digits_length) (use y in auto)
  then have "length (strftime t) \<le> 30" using y by (simp add: strftime_length long_digits_def)
  with y show ?thesis by (simp add: str_gmttime_def Let_def)
qed

lemma str_GMTtime_ok: "date_ok now \<Longrightarrow> \<exists>d. str_GMTtime 32 now = Some d \<and> length d \<le> 31"
  by (simp add: str_GMTtime_def str_gmttime_ok snprintf_def)

end
