(* ===== verification/Files.thy ===== *)
theory Files
  imports Cstring
begin

text \<open>
  The tests of \<^verbatim>\<open>src/src/shr/file.c\<close> on a file system, given by what \<open>lstat\<close> reports of a path and by the
  bytes that reading an open file delivers (\<open>None\<close> when it cannot be opened).  Both stand for the operating
  system; \<open>fs_ok\<close> is what it documents: the size is that of the contents and fits the type \<open>off_t\<close>.
\<close>

datatype st_mode = S_IFREG | S_IFDIR | S_IFLNK | S_IFOTHER

record STAT =
  st_kind :: st_mode
  st_size :: nat
  st_mtime :: time_t

record FS =
  lstat :: "bytes \<Rightarrow> STAT option"
  file_data :: "bytes \<Rightarrow> bytes option"

definition file_isdir :: "FS \<Rightarrow> bytes \<Rightarrow> bool" where
  "file_isdir fs dirname = (case lstat fs dirname of None \<Rightarrow> False | Some st \<Rightarrow> st_kind st = S_IFDIR)"

definition file_isreg :: "FS \<Rightarrow> bytes \<Rightarrow> bool" where
  "file_isreg fs filename = (case lstat fs filename of None \<Rightarrow> False | Some st \<Rightarrow> st_kind st = S_IFREG)"

definition file_islink :: "FS \<Rightarrow> bytes \<Rightarrow> bool" where
  "file_islink fs filename = (case lstat fs filename of None \<Rightarrow> False | Some st \<Rightarrow> st_kind st = S_IFLNK)"

definition file_size :: "FS \<Rightarrow> bytes \<Rightarrow> nat" where
  "file_size fs filename = (case lstat fs filename of None \<Rightarrow> 0 | Some st \<Rightarrow> st_size st)"

definition file_mod :: "FS \<Rightarrow> bytes \<Rightarrow> time_t" where
  "file_mod fs filename = (case lstat fs filename of None \<Rightarrow> - 1 | Some st \<Rightarrow> st_mtime st)"

definition OFF_MAX :: nat where
  "OFF_MAX = 2 ^ 63 - 1"

definition fs_ok :: "FS \<Rightarrow> bool" where
  "fs_ok fs \<longleftrightarrow>
     (\<forall>f. file_size fs f \<le> OFF_MAX) \<and>
     (\<forall>f bs. file_data fs f = Some bs \<longrightarrow> length bs = file_size fs f)"

text \<open>A directory with a page, for examples.\<close>

definition ex_fs :: FS where
  "ex_fs =
     \<lparr>lstat = (\<lambda>f. if f = lit ''/w/a.txt'' then Some \<lparr>st_kind = S_IFREG, st_size = 5, st_mtime = 0\<rparr>
                   else if f = lit ''/w/../i'' then Some \<lparr>st_kind = S_IFREG, st_size = 2, st_mtime = 0\<rparr>
                   else if f = lit ''/w/'' \<or> f = lit ''/w/..'' then Some \<lparr>st_kind = S_IFDIR, st_size = 0, st_mtime = 0\<rparr>
                   else None),
      file_data = (\<lambda>f. if f = lit ''/w/a.txt'' then Some (lit ''hello'')
                   else if f = lit ''/w/../i'' then Some (lit ''hi'') else if f = lit ''/w/'' \<or> f = lit ''/w/..'' then Some [] else None)\<rparr>"

lemma ex_fs_ok: "fs_ok ex_fs"
  by (simp add: fs_ok_def ex_fs_def file_size_def OFF_MAX_def)

end
