(* ===== verification/Mime.thy ===== *)
theory Mime
  imports Files Hash
begin

text \<open>
  MIME types, \<^verbatim>\<open>src/src/web/mime.c\<close>.  The database is a list of tuples and, once \<open>mime_hash\<close> has run, a hash
  table over them.  The server is built with \<open>MAGIC\<close>: a suffix that is not known is looked up with libmagic, a
  parameter here, and the answer is added to the database.
\<close>

type_synonym libmagic = "bytes \<Rightarrow> bytes option"

record MDB =
  m_list :: "(bytes \<times> bytes) list"
  m_hash :: "bytes HASH option"

abbreviation (input) MIME_KEYLEN :: nat where "MIME_KEYLEN \<equiv> 8"
abbreviation (input) MIME_VALLEN :: nat where "MIME_VALLEN \<equiv> 50"

definition mime_init :: MDB where
  "mime_init = \<lparr>m_list = [], m_hash = None\<rparr>"

text \<open>A full list ends the program.  \<open>strncpy\<close> cuts at the sizes of the tuple, which \<open>myalloc\<close> cleared.\<close>

definition mime_add :: "MDB \<Rightarrow> bytes \<Rightarrow> bytes \<Rightarrow> MDB option" where
  "mime_add mime key val =
     (let k = take MIME_KEYLEN key; v = take MIME_VALLEN val in
      if int (length (m_list mime)) = LONG_MAX then None
      else Some (mime\<lparr>m_list := m_list mime @ [(k, v)],
                      m_hash := map_option (\<lambda>h. fst (hash_put h k (Some v))) (m_hash mime)\<rparr>))"

definition mime_types :: "(string \<times> string) list" where
  "mime_types =
    [(''___'', ''application/octet-stream; charset=binary''),
     (''7z'', ''application/x-7z-compressed; charset=binary''),
     (''asf'', ''video/x-ms-asf; charset=binary''),
     (''asx'', ''video/x-ms-asf; charset=binary''),
     (''avi'', ''video/x-msvideo; charset=binary''),
     (''bz2'', ''application/x-bzip2; charset=binary''),
     (''css'', ''text/css''),
     (''deb'', ''application/x-debian-package; charset=binary''),
     (''divx'', ''video/x-msvideo; charset=binary''),
     (''dsc'', ''text/plain; charset=utf-8''),
     (''gif'', ''image/gif; charset=binary''),
     (''gpg'', ''application/pgp-signature; charset=utf-8''),
     (''gz'', ''application/x-gzip; charset=binary''),
     (''html'', ''text/html; charset=utf-8''),
     (''ico'', ''image/x-ico; charset=binary''),
     (''iso'', ''application/x-iso9660-image; charset=binary''),
     (''js'', ''application/x-javascript''),
     (''jpg'', ''image/jpeg''),
     (''jpeg'', ''image/jpeg''),
     (''m3u'', ''text/plain; charset=utf-8''),
     (''m4v'', ''video/mp4; charset=binary''),
     (''mkv'', ''video/x-matroska; charset=binary''),
     (''mov'', ''video/quicktime; charset=binary''),
     (''mp3'', ''audio/mpeg; charset=binary''),
     (''mp4'', ''video/mp4; charset=binary''),
     (''mpeg'', ''video/mpeg; charset=binary''),
     (''mpg'', ''video/mpeg; charset=binary''),
     (''nfo'', ''text/plain; charset=utf-8''),
     (''ogg'', ''application/ogg; charset=binary''),
     (''ogm'', ''application/ogg; charset=binary''),
     (''pdf'', ''application/pdf; charset=binary''),
     (''pl'', ''text/x-perl; charset=utf-8''),
     (''png'', ''image/png; charset=binary''),
     (''rar'', ''application/x-rar; charset=binary''),
     (''rss'', ''application/rss+xml; charset=utf-8''),
     (''txt'', ''text/plain; charset=utf-8''),
     (''wmv'', ''video/x-ms-asf; charset=binary''),
     (''woff'', ''application/font-woff''),
     (''xml'', ''application/xml; charset=utf-8''),
     (''zip'', ''application/zip; charset=binary''),
     (''zsync'', ''application/octet-stream'')]"

fun mime_add_all :: "MDB \<Rightarrow> (string \<times> string) list \<Rightarrow> MDB option" where
  "mime_add_all mime [] = Some mime"
| "mime_add_all mime ((k, v) # ts) = do { mime' \<leftarrow> mime_add mime (lit k) (lit v); mime_add_all mime' ts }"

definition mime_load :: "MDB \<Rightarrow> MDB option" where
  "mime_load mime = mime_add_all mime mime_types"

definition mime_hash :: "MDB \<Rightarrow> MDB" where
  "mime_hash mime =
     (if length (m_list mime) < 1 then mime
      else mime\<lparr>m_hash := Some (fold (\<lambda>(k, v) h. fst (hash_put h k (Some v))) (m_list mime)
                                   (hash_init (length (m_list mime) + 10)))\<rparr>)"

text \<open>The suffix behind the last dot.  A number is cut off and the search repeated; more than five characters are
  no suffix.\<close>

function mime_extension :: "bytes \<Rightarrow> bytes option" where
  "mime_extension filename =
     (if 46 \<notin> set filename then None
      else let key = last_label filename in
        if str_isNumber key then mime_extension (take (length filename - length key - 1) filename)
        else if length key > 5 then None
        else Some key)"
  by pat_completeness auto
termination
  by (relation "measure length") (auto intro!: diff_less length_pos_if_in_set)

declare mime_extension.simps [simp del]

definition mime_get :: "MDB \<Rightarrow> bytes \<Rightarrow> bytes option" where
  "mime_get mime key = (case m_hash mime of None \<Rightarrow> None | Some h \<Rightarrow> hash_get h key)"

definition mime_magic :: "FS \<Rightarrow> libmagic \<Rightarrow> MDB \<Rightarrow> bytes \<Rightarrow> bytes \<Rightarrow> MDB option" where
  "mime_magic fs magic mime filename key =
     (if \<not> file_isreg fs filename then Some mime
      else case magic filename of None \<Rightarrow> Some mime | Some m \<Rightarrow> mime_add mime key m)"

definition mime_find :: "FS \<Rightarrow> libmagic \<Rightarrow> MDB \<Rightarrow> bytes \<Rightarrow> (MDB \<times> bytes option) option" where
  "mime_find fs magic mime filename =
     (let filecopy = snprintf BUF_SIZE filename in
      case mime_extension filecopy of None \<Rightarrow> Some (mime, mime_get mime (lit ''___''))
      | Some key \<Rightarrow>
         (case mime_get mime key of Some m \<Rightarrow> Some (mime, Some m)
          | None \<Rightarrow> do {
              mime' \<leftarrow> mime_magic fs magic mime filename key;
              case mime_get mime' key of Some m \<Rightarrow> Some (mime', Some m)
              | None \<Rightarrow> Some (mime', mime_get mime' (lit ''___''))
            }))"

section \<open>The database is never full and always has an answer\<close>

definition mime_ok :: "MDB \<Rightarrow> bool" where
  "mime_ok mime \<longleftrightarrow> (\<exists>h. m_hash mime = Some h \<and> hash_ok h \<and>
     distinct (map fst (m_list mime)) \<and> (\<forall>t \<in> set (m_list mime). length (fst t) \<le> 5 \<and> length (snd t) \<le> 50) \<and>
     hash_get h = map_of (m_list mime) \<and> lit ''___'' \<in> fst ` set (m_list mime))"

lemma short_keys:
  fixes ks :: "bytes list"
  assumes "distinct ks" and "\<forall>k \<in> set ks. length k \<le> 5"
  shows "int (length ks) < LONG_MAX"
proof -
  let ?A = "{k :: bytes. set k \<subseteq> UNIV \<and> length k \<le> 5}"
  have "length ks = card (set ks)" using assms(1) by (simp add: distinct_card)
  also have "\<dots> \<le> card ?A" by (rule card_mono [OF finite_lists_length_le]) (use assms(2) in auto)
  also have "\<dots> = (\<Sum>i\<le>5. 256 ^ i)" by (subst card_lists_length_le) (simp_all add: card_word)
  also have "{..5} = {0, 1, 2, 3, 4, 5 :: nat}" by auto
  finally show ?thesis by simp
qed

lemma hash_put_room_list:
  assumes "hash_ok h" and "hash_get h = map_of ts" and "distinct (map fst ts)"
    and "\<forall>t \<in> set ts. length (fst t) \<le> 5"
  shows "hash_ok (fst (hash_put h k (Some v))) \<and> hash_get (fst (hash_put h k (Some v))) = (map_of ts)(k \<mapsto> v)"
proof -
  have "card (dom (hash_get h)) = length (map fst ts)"
    using distinct_card [OF assms(3)] by (simp add: assms(2) dom_map_of_conv_image_fst)
  moreover have "int (length (map fst ts)) < LONG_MAX" by (rule short_keys [OF assms(3)]) (use assms(4) in auto)
  ultimately have "snd (hash_put h k (Some v))" by (intro hm1000.hput_room assms(1)) simp
  then show ?thesis using hm1000.hget_put [OF assms(1)] hm1000.hinv_put [OF assms(1)] assms(2) by simp
qed

lemma map_of_snoc: "k \<notin> fst ` set ts \<Longrightarrow> (map_of ts)(k \<mapsto> v) = map_of (ts @ [(k, v)])"
  using map_add_comm [of "[k \<mapsto> v]" "map_of ts"] by (simp add: dom_map_of_conv_image_fst)

lemma mime_add_ok:
  assumes "mime_ok mime" and "mime_get mime key = None" and "length key \<le> 5"
  shows "\<exists>mime'. mime_add mime key val = Some mime' \<and> mime_ok mime' \<and> mime_get mime' key = Some (take 50 val)"
proof -
  obtain h where h: "m_hash mime = Some h" "hash_ok h" "distinct (map fst (m_list mime))"
      "\<forall>t \<in> set (m_list mime). length (fst t) \<le> 5 \<and> length (snd t) \<le> 50"
      "hash_get h = map_of (m_list mime)" "lit ''___'' \<in> fst ` set (m_list mime)"
    using assms(1) unfolding mime_ok_def by (elim exE conjE) (rule that)
  have new: "key \<notin> fst ` set (m_list mime)" using assms(2) h by (simp add: mime_get_def map_of_eq_None_iff)
  have room: "int (length (m_list mime)) < LONG_MAX" using short_keys [OF h(3)] h(4) by simp
  have k: "take 8 key = key" using assms(3) by simp
  have put: "hash_ok (fst (hash_put h key (Some (take 50 val)))) \<and>
      hash_get (fst (hash_put h key (Some (take 50 val)))) = (map_of (m_list mime))(key \<mapsto> take 50 val)"
    by (rule hash_put_room_list) (use h in auto)
  have "(map_of (m_list mime))(key \<mapsto> take 50 val) = map_of (m_list mime @ [(key, take 50 val)])"
    by (rule map_of_snoc [OF new])
  with put new h room k assms(3) show ?thesis
    by (simp add: mime_add_def mime_ok_def mime_get_def Let_def del: map_of_append)
qed

lemma mime_extension_length: "mime_extension f = Some key \<Longrightarrow> length key \<le> 5"
proof (induction f rule: mime_extension.induct)
  case (1 f)
  from 1(2) show ?case
    by (subst (asm) mime_extension.simps) (auto simp: Let_def split: if_splits intro: 1(1))
qed

lemma mime_get_length: "mime_ok mime \<Longrightarrow> mime_get mime key = Some t \<Longrightarrow> length t \<le> 50"
  unfolding mime_ok_def mime_get_def by (fastforce dest: map_of_SomeD)

lemma mime_default: "mime_ok mime \<Longrightarrow> \<exists>t. mime_get mime (lit ''___'') = Some t"
  unfolding mime_ok_def mime_get_def by (auto simp: map_of_eq_None_iff simp del: lit_Cons simp flip: not_None_eq)

lemma mime_default_ok:
  "mime_ok mime \<Longrightarrow> \<exists>mime' t. Some (mime, mime_get mime (lit ''___'')) = Some (mime', Some t) \<and> mime_ok mime' \<and> length t \<le> 50"
  using mime_default [of mime] mime_get_length [of mime "lit ''___''"] by auto

lemma mime_magic_ok:
  assumes "mime_ok mime" and "mime_get mime key = None" and "length key \<le> 5"
  shows "\<exists>mime'. mime_magic fs magic mime filename key = Some mime' \<and> mime_ok mime'"
  using mime_add_ok [OF assms] assms(1) by (auto simp: mime_magic_def split: option.split)

text \<open>Every lookup gives a type of at most fifty characters and keeps the database in order.\<close>

lemma mime_find_ok:
  assumes "mime_ok mime"
  shows "\<exists>mime' t. mime_find fs magic mime filename = Some (mime', Some t) \<and> mime_ok mime' \<and> length t \<le> 50"
proof (cases "mime_extension (snprintf BUF_SIZE filename)")
  case None
  then show ?thesis using mime_default_ok [OF assms] by (simp add: mime_find_def Let_def)
next
  case (Some key)
  show ?thesis
  proof (cases "mime_get mime key")
    case None
    obtain mime' where m: "mime_magic fs magic mime filename key = Some mime'" "mime_ok mime'"
      using mime_magic_ok [OF assms None mime_extension_length [OF Some]] by blast
    show ?thesis using Some None m mime_default_ok [OF m(2)] mime_get_length [OF m(2), of key]
      by (cases "mime_get mime' key") (auto simp: mime_find_def Let_def)
  next
    case (Some t)
    then show ?thesis using \<open>mime_extension _ = Some key\<close> assms mime_get_length [OF assms Some]
      by (simp add: mime_find_def Let_def)
  qed
qed

section \<open>The start of the server\<close>

definition tuple_of :: "string \<times> string \<Rightarrow> bytes \<times> bytes" where
  "tuple_of t = (lit (fst t), lit (snd t))"

lemma mime_add_all_list:
  "m_hash mime = None \<Longrightarrow> int (length (m_list mime) + length ts) < LONG_MAX \<Longrightarrow>
   \<forall>t \<in> set ts. length (fst t) \<le> 8 \<and> length (snd t) \<le> 50 \<Longrightarrow>
   mime_add_all mime ts = Some (mime\<lparr>m_list := m_list mime @ map tuple_of ts\<rparr>)"
  by (induction mime ts rule: mime_add_all.induct) (auto simp: mime_add_def Let_def tuple_of_def)

lemma fold_hash_put:
  "hash_ok h \<Longrightarrow> hash_get h = map_of us \<Longrightarrow> distinct (map fst (us @ ts)) \<Longrightarrow>
   \<forall>t \<in> set (us @ ts). length (fst t) \<le> 5 \<Longrightarrow>
   hash_ok (fold (\<lambda>(k, v) h. fst (hash_put h k (Some v))) ts h) \<and>
   hash_get (fold (\<lambda>(k, v) h. fst (hash_put h k (Some v))) ts h) = map_of (us @ ts)"
proof (induction ts arbitrary: h us)
  case (Cons t ts)
  obtain k v where t: "t = (k, v)" by (cases t)
  have put: "hash_ok (fst (hash_put h k (Some v))) \<and> hash_get (fst (hash_put h k (Some v))) = (map_of us)(k \<mapsto> v)"
    by (rule hash_put_room_list) (use Cons.prems in auto)
  moreover have "(map_of us)(k \<mapsto> v) = map_of (us @ [(k, v)])"
    by (rule map_of_snoc) (use Cons.prems(3) t in auto)
  ultimately show ?case using Cons.IH [of "fst (hash_put h k (Some v))" "us @ [(k, v)]"] Cons.prems t
    by (simp del: map_of_append)
qed simp

lemma chr_inj: "inj chr"
proof (rule injI)
  fix a b
  assume "chr a = chr b"
  then have "unat (word_of_nat (of_char a) :: UCHAR) = unat (word_of_nat (of_char b) :: UCHAR)"
    by (simp only: chr_def of_nat_of_char)
  moreover have "(of_char a :: nat) < 2 ^ LENGTH(8)" "(of_char b :: nat) < 2 ^ LENGTH(8)" by simp_all
  ultimately have "(of_char a :: nat) = of_char b" by (simp only: unat_of_nat mod_less)
  then show "a = b" by simp
qed

lemma lit_inj: "lit a = lit b \<longleftrightarrow> a = b"
  by (simp add: lit_def inj_map_eq_map chr_inj)

lemma mime_types_ok:
  "distinct (map fst mime_types)" "\<forall>t \<in> set mime_types. length (fst t) \<le> 5 \<and> length (snd t) \<le> 50" "length mime_types = 41"
  "''___'' \<in> fst ` set mime_types"
  by (simp_all add: mime_types_def)

lemma mime_start_ok:
  "\<exists>mime. mime_load mime_init = Some mime \<and> mime_ok (mime_hash mime) \<and>
     mime_get (mime_hash mime) = map_of (map tuple_of mime_types)"
proof -
  let ?ts = "map tuple_of mime_types"
  have load: "mime_load mime_init = Some \<lparr>m_list = ?ts, m_hash = None\<rparr>"
    unfolding mime_load_def by (subst mime_add_all_list) (use mime_types_ok in \<open>fastforce simp: mime_init_def\<close>)+
  have keys: "map fst ?ts = map lit (map fst mime_types)" by (simp add: tuple_of_def)
  have d: "distinct (map fst ?ts)"
    unfolding keys by (subst distinct_map) (simp only: mime_types_ok inj_on_def lit_inj, simp)
  have short: "\<forall>t \<in> set ?ts. length (fst t) \<le> 5 \<and> length (snd t) \<le> 50"
    using mime_types_ok(2) by (auto simp: tuple_of_def)
  let ?h = "fold (\<lambda>(k, v) h. fst (hash_put h k (Some v))) ?ts (hash_init 51)"
  have h: "hash_ok ?h \<and> hash_get ?h = map_of ([] @ ?ts)"
    by (rule fold_hash_put) (use d short in \<open>auto simp: hash_ok_init hash_get_init fun_eq_iff\<close>)
  have us: "lit ''___'' \<in> fst ` set ?ts" using mime_types_ok(4) by (force simp: tuple_of_def simp del: lit_Cons)
  have hash: "mime_hash \<lparr>m_list = ?ts, m_hash = None\<rparr> = \<lparr>m_list = ?ts, m_hash = Some ?h\<rparr>"
    by (simp only: mime_hash_def MDB.simps length_map mime_types_ok(3)) simp
  have "mime_ok \<lparr>m_list = ?ts, m_hash = Some ?h\<rparr>"
    unfolding mime_ok_def using h d short us by (simp only: MDB.simps append_Nil) blast
  then show ?thesis using load h hash by (simp add: mime_get_def fun_eq_iff)
qed

end
