(* ===== verification/Response.thy ===== *)
theory Response
  imports Mime
begin

text \<open>
  The queue of answers of a connection, \<^verbatim>\<open>src/src/web/response.c\<close>, and the connection itself,
  \<^verbatim>\<open>src/src/web/node_tcp.c\<close>.  A queue only grows at its end and is worked off from its front, so it is modelled as
  the sequence that the linked list implements (\<open>list_refines_sequence\<close>); a \<open>RESPONSE\<close> pointer is its position.
  \<open>sent\<close> is not a field of the program: it records the bytes the kernel has accepted for the connection.
\<close>

datatype RESPONSE =
    R_MEMORY (send_buf: bytes) (send_size: nat) (send_offset: nat)
  | R_FILE (r_filename: bytes) (f_offset: nat) (f_stop: nat)

datatype rtype = RESPONSE_FROM_MEMORY | RESPONSE_FROM_FILE

datatype pipeline = NODE_READY | NODE_SEND_INIT | NODE_SEND_DATA | NODE_SEND_STOP | NODE_SHUTDOWN

datatype keep = HTTP_UNDEF | HTTP_CLOSE | HTTP_KEEPALIVE

abbreviation (input) BUF_OFF1 :: nat where "BUF_OFF1 \<equiv> 1023"
abbreviation (input) DATE_SIZE :: nat where "DATE_SIZE \<equiv> 32"

section \<open>Answers\<close>

definition resp_put :: "RESPONSE list \<Rightarrow> rtype \<Rightarrow> RESPONSE list \<times> nat option" where
  "resp_put rs type =
     (if length rs > 100 then (rs, None)
      else (rs @ [case type of RESPONSE_FROM_MEMORY \<Rightarrow> R_MEMORY [] 0 0 | RESPONSE_FROM_FILE \<Rightarrow> R_FILE [] 0 0],
            Some (length rs)))"

text \<open>The answers of a queue that is sent are deleted at its front.\<close>

definition resp_del :: "RESPONSE list \<Rightarrow> RESPONSE list" where
  "resp_del rs = tl rs"

text \<open>\<open>vsnprintf\<close> cuts the text at the size of the buffer.\<close>

definition resp_set_memory :: "RESPONSE list \<Rightarrow> nat \<Rightarrow> bytes \<Rightarrow> RESPONSE list \<times> nat" where
  "resp_set_memory rs r text =
     (let buf = snprintf BUF_SIZE text in
      (rs[r := R_MEMORY buf (length buf) (send_offset (rs ! r))], length buf))"

section \<open>Connections\<close>

record TCP_NODE =
  recv_buf :: bytes
  keepalive :: keep
  pipeline :: pipeline
  response :: "RESPONSE list"
  sent :: bytes

definition node_put :: TCP_NODE where
  "node_put = \<lparr>recv_buf = [], keepalive = HTTP_UNDEF, pipeline = NODE_READY, response = [], sent = []\<rparr>"

definition node_status :: "TCP_NODE \<Rightarrow> pipeline \<Rightarrow> TCP_NODE" where
  "node_status n status = n\<lparr>pipeline := status\<rparr>"

definition node_clearRecvBuf :: "TCP_NODE \<Rightarrow> TCP_NODE" where
  "node_clearRecvBuf n = n\<lparr>recv_buf := []\<rparr>"

text \<open>Only what fits is copied.  A buffer that is more than full would make the size of the copy negative.\<close>

definition node_appendBuffer :: "TCP_NODE \<Rightarrow> bytes \<Rightarrow> TCP_NODE option" where
  "node_appendBuffer n buffer =
     (if length (recv_buf n) > BUF_OFF1 then None
      else let buf_free = BUF_OFF1 - length (recv_buf n);
               buf_copy = (if length buffer > buf_free then buf_free else length buffer) in
        if buf_copy = 0 then Some n
        else Some (n\<lparr>recv_buf := recv_buf n @ take buf_copy buffer\<rparr>))"

section \<open>What a queue will send\<close>

text \<open>The bytes of an answer that are still to be sent, given the contents of the files.\<close>

fun pending :: "FS \<Rightarrow> RESPONSE \<Rightarrow> bytes" where
  "pending fs (R_MEMORY buf siz off) = drop off (take siz buf)"
| "pending fs (R_FILE f off stop) = drop off (take (stop + 1) (the (file_data fs f)))"

definition queued :: "FS \<Rightarrow> RESPONSE list \<Rightarrow> bytes" where
  "queued fs rs = concat (map (pending fs) rs)"

text \<open>An answer that can be sent: its text is complete, or its range lies within a file that can be read.\<close>

fun resp_ok :: "FS \<Rightarrow> RESPONSE \<Rightarrow> bool" where
  "resp_ok fs (R_MEMORY buf siz off) \<longleftrightarrow> siz = length buf \<and> siz \<le> BUF_OFF1 \<and> off \<le> siz"
| "resp_ok fs (R_FILE f off stop) \<longleftrightarrow>
     (\<exists>bs. file_data fs f = Some bs \<and> off \<le> stop \<and> stop < length bs) \<and> length f \<le> BUF_OFF1"

lemma queued_simps [simp]:
  "queued fs [] = []" "queued fs (r # rs) = pending fs r @ queued fs rs"
  "queued fs (rs @ rs') = queued fs rs @ queued fs rs'"
  by (simp_all add: queued_def)

lemma resp_put_length: "length (fst (resp_put rs t)) \<le> 101 \<longleftrightarrow> length rs \<le> 101"
  by (simp add: resp_put_def)

lemma node_appendBuffer_ok:
  "length (recv_buf n) \<le> BUF_OFF1 \<Longrightarrow>
   \<exists>b. node_appendBuffer n buffer = Some (n\<lparr>recv_buf := b\<rparr>) \<and> length b \<le> BUF_OFF1 \<and>
     b = take BUF_OFF1 (recv_buf n @ buffer)"
  by (auto simp: node_appendBuffer_def Let_def)

end
