(* ===== verification/Http.thy ===== *)
theory Http
  imports Response
begin

text \<open>
  The HTTP parser of the web server, \<^verbatim>\<open>src/src/web/http.c\<close>: from the bytes received on a connection to the queue of
  answers.  A site is what the server is configured with and what it finds outside: the directory, the name of the index
  file, the file system, libmagic, and whether \<open>char\<close> is signed.  Strings are the bytes before their terminating zero;
  \<open>None\<close> means that memory is accessed out of bounds.  \<open>size_t\<close> has 64 bits.
\<close>

record SITE =
  home :: bytes
  index_file :: bytes
  site_fs :: FS
  magic :: libmagic
  char_signed :: bool

definition size_add :: "nat \<Rightarrow> nat \<Rightarrow> nat" where
  "size_add a b = (a + b) mod 2 ^ 64"

section \<open>Decoding the request\<close>

text \<open>The loop of \<open>http_urlDecode\<close>: \<open>room\<close> is what is left of the destination, \<open>hex\<close> the variable that \<open>sscanf\<close> keeps
  when it runs into the end of the string.  The text written, or \<open>None\<close> for a broken URL.\<close>

fun urlDecode_loop :: "nat \<Rightarrow> UCHAR \<Rightarrow> bytes \<Rightarrow> bytes option" where
  "urlDecode_loop 0 hex p = Some []"
| "urlDecode_loop (Suc room) hex [] = Some []"
| "urlDecode_loop (Suc room) hex (c # p) =
     (if c = chr CHR ''+'' then map_option ((#) (chr CHR '' '')) (urlDecode_loop room hex p)
      else if c = chr CHR ''%'' then
        (if length (c # p) \<le> 2 then None
         else case sscanf_2x p of
             Mismatch \<Rightarrow> None
           | Eof \<Rightarrow> map_option ((#) hex) (urlDecode_loop room hex (drop 2 p))
           | Matched v \<Rightarrow> map_option ((#) v) (urlDecode_loop room v (drop 2 p)))
      else map_option ((#) c) (urlDecode_loop room hex p))"

definition http_urlDecode :: "bytes \<Rightarrow> nat \<Rightarrow> bytes option" where
  "http_urlDecode src dstlen =
     (if dstlen = 0 then None else if src = [] then None else urlDecode_loop dstlen 0 src)"

text \<open>The header lines.  Values are stored under their names; a later line replaces an earlier one.\<close>

definition header_line :: "bytes HASH \<Rightarrow> bytes \<Rightarrow> bytes HASH option" where
  "header_line hash line =
     (case cut_at (chr CHR '':'') line of None \<Rightarrow> None
      | Some (var, val) \<Rightarrow> Some (fst (hash_put hash var (Some (dropWhile (\<lambda>c. c = chr CHR '' '') val)))))"

function header_loop :: "bytes HASH \<Rightarrow> bytes \<Rightarrow> bytes HASH option" where
  "header_loop hash p =
     (case cut_str CRLF p of None \<Rightarrow> Some hash
      | Some (line, rest) \<Rightarrow> (case header_line hash line of None \<Rightarrow> None | Some hash' \<Rightarrow> header_loop hash' rest))"
  by pat_completeness auto
termination
  by (relation "measure (\<lambda>(_, p). length p)") (auto dest: cut_str_length simp: CRLF_def)

declare header_loop.simps [simp del]

definition http_hashHeader :: "bytes \<Rightarrow> bytes HASH option option" where
  "http_hashHeader head = do {
     head_counter \<leftarrow> str_count head CRLF;
     if head_counter \<ge> 100 then Some None
     else if head_counter \<le> 0 then Some None
     else Some (header_loop (hash_init head_counter) head)
   }"

text \<open>A header that could not be read is a null pointer, on which \<open>hash_get\<close> finds nothing.\<close>

definition header_get :: "bytes HASH option \<Rightarrow> string \<Rightarrow> bytes option" where
  "header_get head name = (case head of None \<Rightarrow> None | Some h \<Rightarrow> hash_get h (lit name))"

definition http_action :: "bytes \<Rightarrow> bool" where
  "http_action p_cmd = strncmp_eq p_cmd (lit ''GET'') 3"

definition http_proto :: "bytes \<Rightarrow> bool" where
  "http_proto p_proto =
     (if strncmp_eq p_proto (lit ''HTTP/1.1'') 8 then True
      else if strncmp_eq p_proto (lit ''HTTP/1.0'') 8 then True else False)"

text \<open>The decoded path; the inner \<open>None\<close> is a refused one.  A path that fills its buffer would not be terminated.\<close>

definition http_resource :: "SITE \<Rightarrow> bytes \<Rightarrow> bytes option option" where
  "http_resource w p_url =
     (case http_urlDecode p_url BUF_SIZE of None \<Rightarrow> Some None
      | Some dst \<Rightarrow>
        if BUF_SIZE \<le> length dst then None
        else let resource = cstr dst in
          if resource = [] \<or> hd resource \<noteq> chr CHR ''/'' then Some None
          else if strstr resource (lit ''../'') \<noteq> None then Some None
          else if \<not> str_isValidUTF8 (char_signed w) resource then Some None
          else Some (Some resource))"

definition http_filename :: "SITE \<Rightarrow> bytes \<Rightarrow> bytes option" where
  "http_filename w resource =
     (let filename = snprintf BUF_SIZE (home w @ resource) in
      if file_isreg (site_fs w) filename then Some filename
      else if file_isdir (site_fs w) filename then
        (let path = home w @ resource @ lit ''/'' @ index_file w; filename = snprintf BUF_SIZE path in
         if length path \<ge> BUF_SIZE then None
         else if file_isreg (site_fs w) filename then Some filename
         else None)
      else None)"

definition http_keepalive :: "bytes HASH option \<Rightarrow> keep \<times> bytes" where
  "http_keepalive head =
     (case header_get head ''Connection'' of None \<Rightarrow> (HTTP_UNDEF, [])
      | Some v \<Rightarrow>
         if strcasecmp_eq v (lit ''keep-alive'') then (HTTP_KEEPALIVE, lit ''Connection: keep-alive'' @ CRLF)
         else if strcasecmp_eq v (lit ''close'') then (HTTP_CLOSE, lit ''Connection: close'' @ CRLF)
         else (HTTP_UNDEF, []))"

text \<open>The date of the file, and whether the client's copy is older.\<close>

definition http_resource_modified :: "SITE \<Rightarrow> bytes \<Rightarrow> bytes HASH option \<Rightarrow> (bytes \<times> bool) option" where
  "http_resource_modified w filename head = do {
     lastmodified \<leftarrow> str_gmttime DATE_SIZE (file_mod (site_fs w) filename);
     case header_get head ''If-Modified-Since'' of None \<Rightarrow> Some (lastmodified, True)
     | Some v \<Rightarrow> Some (lastmodified, v \<noteq> lastmodified)
   }"

definition http_range_detected :: "bytes HASH option \<Rightarrow> bytes option" where
  "http_range_detected head = map_option (take BUF_OFF1) (header_get head ''Range'')"

definition http_range_prepare :: "bytes \<Rightarrow> bytes option" where
  "http_range_prepare p_range = (if strncmp_eq p_range (lit ''bytes='') 6 then Some (drop 6 p_range) else None)"

definition http_range_multipart :: "bytes \<Rightarrow> bool" where
  "http_range_multipart p_range \<longleftrightarrow> chr CHR '','' \<in> set p_range"

definition http_size_simple :: "SITE \<Rightarrow> bytes \<Rightarrow> nat" where
  "http_size_simple w filename = file_size (site_fs w) filename"

section \<open>Ranges\<close>

text \<open>The numbers of a range.  \<open>atol\<close> saturates.\<close>

definition range_number :: "bytes \<Rightarrow> nat \<Rightarrow> nat option" where
  "range_number p dflt =
     (if p = [] then Some dflt else if str_isNumber p then Some (nat (strtol p)) else None)"

definition http_range_simple ::
    "RESPONSE list \<Rightarrow> nat \<Rightarrow> bytes \<Rightarrow> nat \<Rightarrow> bytes \<Rightarrow> nat \<Rightarrow> RESPONSE list \<times> nat \<times> bool" where
  "http_range_simple rs r filename filesize p_range content_length =
     (if filesize = 0 then (rs, content_length, False)
      else let rtext = take BUF_OFF1 p_range;
               name = take BUF_OFF1 filename;
               rs1 = rs[r := R_FILE name (f_offset (rs ! r)) (f_stop (rs ! r))] in
        case cut_at (chr CHR ''-'') rtext of None \<Rightarrow> (rs1, content_length, False)
        | Some (p_start, p_stop) \<Rightarrow>
          (case range_number p_start 0 of None \<Rightarrow> (rs1, content_length, False)
           | Some range_start \<Rightarrow>
             (case range_number p_stop (filesize - 1) of None \<Rightarrow> (rs1, content_length, False)
              | Some range_stop \<Rightarrow>
                if range_start \<ge> filesize then (rs1, content_length, False)
                else if range_stop < range_start then (rs1, content_length, False)
                else let range_stop' = (if range_stop \<ge> filesize then filesize - 1 else range_stop) in
                  (rs[r := R_FILE name range_start range_stop'],
                   size_add content_length (range_stop' + 1 - range_start), True))))"

section \<open>Answers\<close>

definition LOG_NAME :: bytes where
  "LOG_NAME = lit ''tumbleweed''"

definition not_found :: bytes where
  "not_found = lit (''<!DOCTYPE html>'' @ ''<html lang=\"en\" xml:lang=\"en\">'' @ ''<head>'' @
     ''<meta http-equiv=\"Content-Type\" content=\"text/html; charset=utf-8\" />'' @
     ''<title>Not found</title>'' @ ''</head>'' @ ''<body>'' @ ''<h1>Not found</h1>'' @ ''</body>'' @ ''</html>'')"

definition line :: "string \<Rightarrow> bytes \<Rightarrow> bytes" where
  "line name val = lit name @ val @ CRLF"

text \<open>A full queue drops the answer silently.\<close>

definition http_404 :: "time_t \<Rightarrow> RESPONSE list \<Rightarrow> bytes \<Rightarrow> RESPONSE list option" where
  "http_404 now rs keep =
     (case resp_put rs RESPONSE_FROM_MEMORY of (rs1, None) \<Rightarrow> Some rs1
      | (rs1, Some r) \<Rightarrow> do {
          datebuf \<leftarrow> str_GMTtime DATE_SIZE now;
          Some (fst (resp_set_memory rs1 r
            (line ''HTTP/1.1 404 Not found'' [] @ line ''Date: '' datebuf @ line ''Server: '' LOG_NAME @
             line ''Content-Length: '' (nat_digits (length not_found)) @
             line ''Content-Type: text/html; charset=utf-8'' [] @ keep @ CRLF @ not_found)))
        })"

definition http_304 :: "time_t \<Rightarrow> RESPONSE list \<Rightarrow> bytes \<Rightarrow> RESPONSE list option" where
  "http_304 now rs keep =
     (case resp_put rs RESPONSE_FROM_MEMORY of (rs1, None) \<Rightarrow> Some rs1
      | (rs1, Some r) \<Rightarrow> do {
          datebuf \<leftarrow> str_GMTtime DATE_SIZE now;
          Some (fst (resp_set_memory rs1 r
            (line ''HTTP/1.1 304 Not Modified'' [] @ line ''Date: '' datebuf @ line ''Server: '' LOG_NAME @ keep @ CRLF)))
        })"

definition head_200 :: "bytes \<Rightarrow> nat \<Rightarrow> bytes \<Rightarrow> bytes \<Rightarrow> bytes \<Rightarrow> bytes" where
  "head_200 datebuf filesize mimetype lastmodified keep =
     line ''HTTP/1.1 200 OK'' [] @ line ''Date: '' datebuf @ line ''Server: '' LOG_NAME @
     line ''Content-Length: '' (nat_digits filesize) @ line ''Content-Type: '' mimetype @
     line ''Last-Modified: '' lastmodified @ line ''Accept-Ranges: bytes'' [] @ keep @ CRLF"

definition http_200 ::
    "time_t \<Rightarrow> RESPONSE list \<Rightarrow> bytes \<Rightarrow> nat \<Rightarrow> bytes \<Rightarrow> bytes \<Rightarrow> RESPONSE list option" where
  "http_200 now rs lastmodified filesize keep mimetype =
     (case resp_put rs RESPONSE_FROM_MEMORY of (rs1, None) \<Rightarrow> Some rs1
      | (rs1, Some r) \<Rightarrow> do {
          datebuf \<leftarrow> str_GMTtime DATE_SIZE now;
          Some (fst (resp_set_memory rs1 r (head_200 datebuf filesize mimetype lastmodified keep)))
        })"

definition http_body :: "RESPONSE list \<Rightarrow> bytes \<Rightarrow> nat \<Rightarrow> RESPONSE list" where
  "http_body rs filename filesize =
     (if filesize = 0 then rs
      else case resp_put rs RESPONSE_FROM_FILE of (rs1, None) \<Rightarrow> rs1
        | (rs1, Some r) \<Rightarrow> rs1[r := R_FILE (take BUF_OFF1 filename) 0 (filesize - 1)])"

definition content_range :: "RESPONSE \<Rightarrow> nat \<Rightarrow> bytes" where
  "content_range r_file filesize =
     line ''Content-Range: bytes '' (nat_digits (f_offset r_file) @ lit ''-'' @ nat_digits (f_stop r_file) @ lit ''/'' @ nat_digits filesize)"

definition http_206_simple ::
    "time_t \<Rightarrow> RESPONSE list \<Rightarrow> nat \<Rightarrow> nat \<Rightarrow> bytes \<Rightarrow> nat \<Rightarrow> nat \<Rightarrow> bytes \<Rightarrow> bytes \<Rightarrow> RESPONSE list option" where
  "http_206_simple now rs r_head r_file lastmodified filesize content_length keep mimetype = do {
     datebuf \<leftarrow> str_GMTtime DATE_SIZE now;
     Some (fst (resp_set_memory rs r_head
       (line ''HTTP/1.1 206 OK'' [] @ line ''Date: '' datebuf @ line ''Server: '' LOG_NAME @
        line ''Content-Length: '' (nat_digits content_length) @ content_range (rs ! r_file) filesize @
        line ''Content-Type: '' mimetype @ line ''Last-Modified: '' lastmodified @ keep @ CRLF)))
   }"

definition http_206_complex ::
    "time_t \<Rightarrow> RESPONSE list \<Rightarrow> nat \<Rightarrow> bytes \<Rightarrow> nat \<Rightarrow> bytes \<Rightarrow> bytes \<Rightarrow> RESPONSE list option" where
  "http_206_complex now rs r_head lastmodified content_length boundary keep = do {
     datebuf \<leftarrow> str_GMTtime DATE_SIZE now;
     Some (fst (resp_set_memory rs r_head
       (line ''HTTP/1.1 206 Partial Content'' [] @ line ''Server: '' LOG_NAME @ line ''Date: '' datebuf @
        line ''Content-Type: multipart/byteranges; boundary='' boundary @
        line ''Content-Length: '' (nat_digits content_length) @ line ''Last-Modified: '' lastmodified @ keep @ CRLF)))
   }"

definition http_206_boundary_head ::
    "RESPONSE list \<Rightarrow> nat \<Rightarrow> nat \<Rightarrow> nat \<Rightarrow> bytes \<Rightarrow> bytes \<Rightarrow> nat \<Rightarrow> RESPONSE list \<times> nat" where
  "http_206_boundary_head rs r_head r_file filesize mimetype boundary content_size =
     (let (rs1, k) = resp_set_memory rs r_head
        (line ''--'' boundary @ line ''Content-Type: '' mimetype @ content_range (rs ! r_file) filesize @ CRLF) in
      (rs1, size_add content_size k))"

definition http_newline :: "RESPONSE list \<Rightarrow> nat \<Rightarrow> nat \<Rightarrow> RESPONSE list \<times> nat" where
  "http_newline rs r content_size = (let (rs1, k) = resp_set_memory rs r CRLF in (rs1, size_add content_size k))"

definition http_206_boundary_finish :: "RESPONSE list \<Rightarrow> nat \<Rightarrow> nat \<Rightarrow> bytes \<Rightarrow> RESPONSE list \<times> nat" where
  "http_206_boundary_finish rs r content_length boundary =
     (let (rs1, k) = resp_set_memory rs r (lit ''--'' @ boundary @ lit ''--'' @ CRLF) in (rs1, size_add content_length k))"

definition alphanum :: bytes where
  "alphanum = lit ''0123456789abcdefghijklmnopqrstuvwxyz''"

text \<open>\<open>rand\<close> is the random source of the model.  The last character is replaced by the terminating zero.\<close>

fun random_chars :: "nat \<Rightarrow> rng \<Rightarrow> bytes \<times> rng" where
  "random_chars 0 g = ([], g)"
| "random_chars (Suc n) g =
     (let (x, g1) = random g; (cs, g2) = random_chars n g1 in (alphanum ! (x mod 36) # cs, g2))"

definition http_random :: "nat \<Rightarrow> rng \<Rightarrow> bytes \<times> rng" where
  "http_random siz g = (let (cs, g') = random_chars siz g in (take (siz - 1) cs, g'))"

function http_range_complex ::
    "bytes \<Rightarrow> nat \<Rightarrow> bytes \<Rightarrow> bytes \<Rightarrow> RESPONSE list \<Rightarrow> bytes \<Rightarrow> nat \<Rightarrow> RESPONSE list \<times> nat \<times> bool" where
  "http_range_complex filename filesize mimetype boundary rs p_range content_length =
     (case resp_put rs RESPONSE_FROM_MEMORY of (rs1, None) \<Rightarrow> (rs1, content_length, False)
      | (rs1, Some r_head) \<Rightarrow>
     (case resp_put rs1 RESPONSE_FROM_FILE of (rs2, None) \<Rightarrow> (rs2, content_length, False)
      | (rs2, Some r_file) \<Rightarrow>
     (case resp_put rs2 RESPONSE_FROM_MEMORY of (rs3, None) \<Rightarrow> (rs3, content_length, False)
      | (rs3, Some r_bottom) \<Rightarrow>
        let rtext = take BUF_OFF1 p_range;
            p_start = (case cut_at (chr CHR '','') rtext of None \<Rightarrow> rtext | Some (a, _) \<Rightarrow> a) in
        (case http_range_simple rs3 r_file filename filesize p_start content_length of
           (rs4, len1, False) \<Rightarrow> (rs4, len1, False)
         | (rs4, len1, True) \<Rightarrow>
           let (rs5, len2) = http_206_boundary_head rs4 r_head r_file filesize mimetype boundary len1;
               (rs6, len3) = http_newline rs5 r_bottom len2 in
           (case cut_at (chr CHR '','') rtext of None \<Rightarrow> (rs6, len3, True)
            | Some (_, p_next) \<Rightarrow> http_range_complex filename filesize mimetype boundary rs6 p_next len3)))))"
  by pat_completeness auto
termination
  by (relation "measure (\<lambda>(_, _, _, _, _, p, _). length p)") (auto dest!: cut_at_length)

declare http_range_complex.simps [simp del]

section \<open>One request\<close>

text \<open>The answer to a range request that begins with \<open>bytes=\<close>: a single range, or several in parts of a
  multipart message.  The flag is \<open>False\<close> where the connection is shut down.\<close>

definition answer_single ::
    "time_t \<Rightarrow> RESPONSE list \<Rightarrow> bytes \<Rightarrow> nat \<Rightarrow> bytes \<Rightarrow> bytes \<Rightarrow> bytes \<Rightarrow> bytes \<Rightarrow> (RESPONSE list \<times> bool) option" where
  "answer_single now rs filename filesize lastmodified mimetype keep p_range =
     (case resp_put rs RESPONSE_FROM_MEMORY of (rs1, None) \<Rightarrow> Some (rs1, False)
      | (rs1, Some r_head) \<Rightarrow>
     (case resp_put rs1 RESPONSE_FROM_FILE of (rs2, None) \<Rightarrow> Some (rs2, False)
      | (rs2, Some r_file) \<Rightarrow>
     (case http_range_simple rs2 r_file filename filesize p_range 0 of
        (rs3, content_length, False) \<Rightarrow> Some (rs3, False)
      | (rs3, content_length, True) \<Rightarrow> do {
          rs4 \<leftarrow> http_206_simple now rs3 r_head r_file lastmodified filesize content_length keep mimetype;
          Some (rs4, True)
        })))"

definition answer_multi ::
    "time_t \<Rightarrow> rng \<Rightarrow> RESPONSE list \<Rightarrow> bytes \<Rightarrow> nat \<Rightarrow> bytes \<Rightarrow> bytes \<Rightarrow> bytes \<Rightarrow> bytes \<Rightarrow> (RESPONSE list \<times> rng \<times> bool) option" where
  "answer_multi now g rs filename filesize lastmodified mimetype keep p_range =
     (let (boundary, g1) = http_random 12 g in
      case resp_put rs RESPONSE_FROM_MEMORY of (rs1, None) \<Rightarrow> Some (rs1, g1, False)
      | (rs1, Some r_head) \<Rightarrow>
     (case resp_put rs1 RESPONSE_FROM_MEMORY of (rs2, None) \<Rightarrow> Some (rs2, g1, False)
      | (rs2, Some r_zsyncbug) \<Rightarrow>
     (case http_range_complex filename filesize mimetype boundary rs2 p_range 0 of
        (rs3, content_length, False) \<Rightarrow> Some (rs3, g1, False)
      | (rs3, content_length, True) \<Rightarrow>
     (case resp_put rs3 RESPONSE_FROM_MEMORY of (rs4, None) \<Rightarrow> Some (rs4, g1, False)
      | (rs4, Some r_bottom) \<Rightarrow>
          (let (rs5, content_length) = http_206_boundary_finish rs4 r_bottom content_length boundary in do {
             rs6 \<leftarrow> http_206_complex now rs5 r_head lastmodified content_length boundary keep;
             let (rs7, _) = http_newline rs6 r_zsyncbug content_length;
             Some (rs7, g1, True)
           })))))"

text \<open>The part of \<open>http_read\<close> that serves a file.\<close>

definition http_file ::
    "SITE \<Rightarrow> time_t \<Rightarrow> MDB \<Rightarrow> rng \<Rightarrow> TCP_NODE \<Rightarrow> bytes \<Rightarrow> bytes \<Rightarrow> bytes HASH option \<Rightarrow> (TCP_NODE \<times> MDB \<times> rng) option" where
  "http_file w now mime g n filename keep p_head = do {
     let filesize = http_size_simple w filename;
     (mime1, found) \<leftarrow> mime_find (site_fs w) (magic w) mime filename;
     mimetype \<leftarrow> found;
     (lastmodified, modified) \<leftarrow> http_resource_modified w filename p_head;
     if \<not> modified then do { rs \<leftarrow> http_304 now (response n) keep; Some (n\<lparr>response := rs\<rparr>, mime1, g) }
     else case Option.bind (http_range_detected p_head) http_range_prepare of
       None \<Rightarrow> do {
         rs \<leftarrow> http_200 now (response n) lastmodified filesize keep mimetype;
         Some (n\<lparr>response := http_body rs filename filesize\<rparr>, mime1, g)
       }
     | Some p_range \<Rightarrow>
         if \<not> http_range_multipart p_range then do {
           (rs, ok) \<leftarrow> answer_single now (response n) filename filesize lastmodified mimetype keep p_range;
           Some (n\<lparr>response := rs, pipeline := (if ok then pipeline n else NODE_SHUTDOWN)\<rparr>, mime1, g)
         }
         else do {
           (rs, g1, ok) \<leftarrow> answer_multi now g (response n) filename filesize lastmodified mimetype keep p_range;
           Some (n\<lparr>response := rs, pipeline := (if ok then pipeline n else NODE_SHUTDOWN)\<rparr>, mime1, g1)
         }
   }"

text \<open>\<open>http_read\<close> up to its label \<open>END\<close>.\<close>

definition http_answer ::
    "SITE \<Rightarrow> time_t \<Rightarrow> MDB \<Rightarrow> rng \<Rightarrow> TCP_NODE \<Rightarrow> bytes \<Rightarrow> bytes \<Rightarrow> bytes \<Rightarrow> bytes HASH option \<Rightarrow> (TCP_NODE \<times> MDB \<times> rng) option" where
  "http_answer w now mime g n p_cmd p_url p_proto p_head =
     (let stop = Some (node_status n NODE_SHUTDOWN, mime, g) in
      if \<not> http_proto p_proto then stop
      else if \<not> http_action p_cmd then stop
      else do {
        res \<leftarrow> http_resource w p_url;
        case res of None \<Rightarrow> stop
        | Some resource \<Rightarrow>
          (let (k, keep) = http_keepalive p_head; n = n\<lparr>keepalive := k\<rparr> in
           case http_filename w resource of
             None \<Rightarrow> do { rs \<leftarrow> http_404 now (response n) keep; Some (n\<lparr>response := rs\<rparr>, mime, g) }
           | Some filename \<Rightarrow> http_file w now mime g n filename keep p_head)
      })"

text \<open>The pieces of a complete request: command, path, protocol and header lines.  A missing piece ends the
  connection.\<close>

definition http_split :: "bytes \<Rightarrow> (bytes \<times> bytes \<times> bytes \<times> bytes) option" where
  "http_split text = do {
     (p_cmd, r1) \<leftarrow> cut_at (chr CHR '' '') text;
     (url, r2) \<leftarrow> cut_at (chr CHR '' '') r1;
     let p_url = (case cut_at (chr CHR ''?'') url of None \<Rightarrow> url | Some (u, _) \<Rightarrow> u);
     (p_proto, p_head) \<leftarrow> cut_str CRLF r2;
     Some (p_cmd, p_url, p_proto, p_head)
   }"

text \<open>The first request of the receive buffer and what follows it; \<open>None\<close> while it is incomplete.\<close>

definition next_request :: "bytes \<Rightarrow> (bytes \<times> bytes) option" where
  "next_request buf =
     (case cut_str (CRLF @ CRLF) (cstr buf) of None \<Rightarrow> None
      | Some (text, _) \<Rightarrow> Some (text @ CRLF, drop (length text + 4) buf))"

definition http_read_one ::
    "SITE \<Rightarrow> time_t \<Rightarrow> MDB \<Rightarrow> rng \<Rightarrow> TCP_NODE \<Rightarrow> bytes \<Rightarrow> (TCP_NODE \<times> MDB \<times> rng) option" where
  "http_read_one w now mime g n text =
     (case http_split text of None \<Rightarrow> Some (node_status n NODE_SHUTDOWN, mime, g)
      | Some (p_cmd, p_url, p_proto, p_head) \<Rightarrow> do {
          head \<leftarrow> http_hashHeader p_head;
          http_answer w now mime g n p_cmd p_url p_proto head
        })"

lemma http_file_recv:
  "http_file w now mime g n filename keep p_head = Some (n', mime', g') \<Longrightarrow> recv_buf n' = recv_buf n \<and> sent n' = sent n"
  by (auto simp: http_file_def Let_def split: if_splits option.splits bind_splits prod.splits)

lemma http_answer_recv:
  "http_answer w now mime g n p_cmd p_url p_proto p_head = Some (n', mime', g') \<Longrightarrow>
   recv_buf n' = recv_buf n \<and> sent n' = sent n"
  by (auto simp: http_answer_def Let_def node_status_def split: if_splits option.splits bind_splits prod.splits dest: http_file_recv)

lemma http_read_one_recv:
  "http_read_one w now mime g n text = Some (n', mime', g') \<Longrightarrow> recv_buf n' = recv_buf n \<and> sent n' = sent n"
  by (auto simp: http_read_one_def node_status_def dest: http_answer_recv split: option.splits bind_splits)


text \<open>The buffer is copied to one of the same size, which has to keep a terminating zero.  Requests that arrived together
  are answered in one call: \<open>http_read\<close> calls \<open>http_buf\<close> again at its label \<open>END\<close>.\<close>

lemma next_request_shorter: "next_request buf = Some (text, rest) \<Longrightarrow> length rest < length buf"
  using cut_str_length [of "CRLF @ CRLF" "cstr buf"] length_cstr [of buf]
  by (fastforce simp: next_request_def CRLF_def split: option.splits)

function http_buf :: "SITE \<Rightarrow> time_t \<Rightarrow> MDB \<Rightarrow> rng \<Rightarrow> TCP_NODE \<Rightarrow> (TCP_NODE \<times> MDB \<times> rng) option" where
  "http_buf w now mime g n =
     (if length (recv_buf n) \<le> 14 then Some (n, mime, g)
      else if length (recv_buf n) \<ge> BUF_SIZE then None
      else case next_request (recv_buf n) of None \<Rightarrow> Some (n, mime, g)
        | Some (text, rest) \<Rightarrow>
          (case http_read_one w now mime g (n\<lparr>recv_buf := rest\<rparr>) text of None \<Rightarrow> None
           | Some (n1, mime1, g1) \<Rightarrow>
               if pipeline n1 \<noteq> NODE_SHUTDOWN \<and> recv_buf n1 \<noteq> [] then http_buf w now mime1 g1 n1
               else Some (n1, mime1, g1)))"
  by pat_completeness auto
termination
  by (relation "measure (\<lambda>(_, _, _, _, n). length (recv_buf n))")
     (auto dest!: http_read_one_recv next_request_shorter)

declare http_buf.simps [simp del]

end
