(* ===== verification/Tcp.thy ===== *)
theory Tcp
  imports Http
begin

text \<open>
  Sending, \<^verbatim>\<open>src/src/web/send_tcp.c\<close>, and the event loop of the web server, \<^verbatim>\<open>src/src/web/tcp.c\<close>.

  The results of the system calls are given: a socket has the results its \<open>send\<close> and \<open>sendfile\<close> calls will deliver,
  in order, and says whether \<open>setsockopt\<close> accepts the cork.  A call that is still in a loop when the results end has not
  returned: it is \<open>None\<close>, as is a call of \<open>fail\<close>.  The server runs; the global \<open>status\<close> stays \<open>RUMBLE\<close>.
\<close>

datatype SENDRES = Sent nat | WouldBlock | Broken

record SOCK =
  cork_ok :: bool
  results :: "SENDRES list"

section \<open>Sending the queue\<close>

text \<open>
  One pass through the loops of \<open>send_mem\<close> and \<open>send_file\<close> on the first answer of the queue, with the result of its system
  call: the connection, and whether the function returns.  The kernel takes no more than it is offered.  The file is opened
  in every pass; a file that cannot be opened ends the program.  \<open>sendfile\<close> sends nothing beyond the end of the file and advances
  the offset.
\<close>

fun mem_pass :: "TCP_NODE \<Rightarrow> SENDRES \<Rightarrow> (TCP_NODE \<times> bool) option" where
  "mem_pass n WouldBlock = Some (n, True)"
| "mem_pass n Broken = Some (node_status n NODE_SHUTDOWN, True)"
| "mem_pass n (Sent k) =
     (case response n of R_MEMORY buf siz off # rest \<Rightarrow>
        let bytes_todo = siz - off; bytes_sent = min k bytes_todo;
            n1 = n\<lparr>response := R_MEMORY buf siz (off + bytes_sent) # rest,
                   sent := sent n @ take bytes_sent (drop off buf)\<rparr> in
        if off + bytes_sent \<ge> siz then Some (n1\<lparr>response := resp_del (response n1)\<rparr>, True)
        else Some (n1, False)
      | _ \<Rightarrow> None)"

definition file_pass :: "FS \<Rightarrow> TCP_NODE \<Rightarrow> SENDRES \<Rightarrow> (TCP_NODE \<times> bool) option" where
  "file_pass fs n res =
     (case response n of R_FILE filename off stop # rest \<Rightarrow>
        (case file_data fs filename of None \<Rightarrow> None
         | Some bs \<Rightarrow>
           (case res of
              WouldBlock \<Rightarrow> Some (n, True)
            | Broken \<Rightarrow> Some (node_status n NODE_SHUTDOWN, True)
            | Sent k \<Rightarrow>
              let bytes_todo = stop + 1 - off; chunk = take (min k bytes_todo) (drop off bs);
                  n1 = n\<lparr>response := R_FILE filename (off + length chunk) stop # rest, sent := sent n @ chunk\<rparr> in
              if off + length chunk > stop then Some (n1\<lparr>response := resp_del (response n1)\<rparr>, True)
              else Some (n1, False)))
      | _ \<Rightarrow> None)"

fun send_loop ::
    "(TCP_NODE \<Rightarrow> SENDRES \<Rightarrow> (TCP_NODE \<times> bool) option) \<Rightarrow> TCP_NODE \<Rightarrow> SENDRES list \<Rightarrow> (TCP_NODE \<times> SENDRES list) option" where
  "send_loop pass n [] = None"
| "send_loop pass n (r # rs) =
     (case pass n r of None \<Rightarrow> None
      | Some (n1, ret) \<Rightarrow> if ret then Some (n1, rs) else send_loop pass n1 rs)"

definition send_mem :: "TCP_NODE \<Rightarrow> SENDRES list \<Rightarrow> (TCP_NODE \<times> SENDRES list) option" where
  "send_mem n rs = send_loop mem_pass n rs"

definition send_file :: "FS \<Rightarrow> TCP_NODE \<Rightarrow> SENDRES list \<Rightarrow> (TCP_NODE \<times> SENDRES list) option" where
  "send_file fs n rs = send_loop (file_pass fs) n rs"

definition send_first :: "FS \<Rightarrow> TCP_NODE \<Rightarrow> SENDRES list \<Rightarrow> (TCP_NODE \<times> SENDRES list) option" where
  "send_first fs n rs =
     (case response n of R_MEMORY _ _ _ # _ \<Rightarrow> send_mem n rs | _ \<Rightarrow> send_file fs n rs)"

lemma send_loop_shorter: "send_loop pass n rs = Some (n', rs') \<Longrightarrow> length rs' < length rs"
  by (induction rs arbitrary: n) (auto split: option.splits if_splits, metis less_SucI)

lemma send_first_shorter: "send_first fs n rs = Some (n', rs') \<Longrightarrow> length rs' < length rs"
  unfolding send_first_def send_mem_def send_file_def
  by (simp split: list.splits RESPONSE.splits add: send_loop_shorter)

function send_data_loop :: "FS \<Rightarrow> TCP_NODE \<Rightarrow> SENDRES list \<Rightarrow> (TCP_NODE \<times> SENDRES list) option" where
  "send_data_loop fs n rs =
     (if response n = [] then Some (node_status n NODE_SEND_STOP, rs)
      else case send_first fs n rs of None \<Rightarrow> None
        | Some (n1, rs1) \<Rightarrow>
            if pipeline n1 = NODE_SHUTDOWN then Some (n1, rs1) else send_data_loop fs n1 rs1)"
  by pat_completeness auto
termination
  by (relation "measure (\<lambda>(_, _, rs). length rs)") (auto dest: send_first_shorter)

declare send_data_loop.simps [simp del]

definition send_cork_start :: "SOCK \<Rightarrow> TCP_NODE \<Rightarrow> TCP_NODE option" where
  "send_cork_start s n =
     (if pipeline n \<noteq> NODE_SEND_INIT then Some n
      else if \<not> cork_ok s then None
      else Some (node_status n NODE_SEND_DATA))"

definition send_data :: "FS \<Rightarrow> SOCK \<Rightarrow> TCP_NODE \<Rightarrow> TCP_NODE option" where
  "send_data fs s n =
     (if pipeline n \<noteq> NODE_SEND_DATA then Some n
      else map_option fst (send_data_loop fs n (results s)))"

definition send_cork_stop :: "SOCK \<Rightarrow> TCP_NODE \<Rightarrow> TCP_NODE option" where
  "send_cork_stop s n =
     (if pipeline n \<noteq> NODE_SEND_STOP then Some n
      else if \<not> cork_ok s then None
      else Some (node_status n (case keepalive n of HTTP_KEEPALIVE \<Rightarrow> NODE_READY | _ \<Rightarrow> NODE_SHUTDOWN)))"

text \<open>The cases of the switch fall through.\<close>

definition send_tcp :: "FS \<Rightarrow> SOCK \<Rightarrow> TCP_NODE \<Rightarrow> TCP_NODE option" where
  "send_tcp fs s n =
     (case pipeline n of
        NODE_SEND_INIT \<Rightarrow> do { n1 \<leftarrow> send_cork_start s n; n2 \<leftarrow> send_data fs s n1; send_cork_stop s n2 }
      | NODE_SEND_DATA \<Rightarrow> do { n2 \<leftarrow> send_data fs s n; send_cork_stop s n2 }
      | NODE_SEND_STOP \<Rightarrow> send_cork_stop s n
      | _ \<Rightarrow> Some n)"

definition http_send :: "FS \<Rightarrow> SOCK \<Rightarrow> TCP_NODE \<Rightarrow> TCP_NODE option" where
  "http_send fs s n =
     (if pipeline n = NODE_SHUTDOWN then Some n else send_tcp fs s (node_status n NODE_SEND_INIT))"

section \<open>Events of a connection\<close>

datatype RECVRES = Received bytes | PeerClosed | RecvAgain | ConnReset | RecvFailed

definition tcp_buffer ::
    "SITE \<Rightarrow> time_t \<Rightarrow> MDB \<Rightarrow> rng \<Rightarrow> SOCK \<Rightarrow> TCP_NODE \<Rightarrow> bytes \<Rightarrow> (TCP_NODE \<times> MDB \<times> rng) option" where
  "tcp_buffer w now mime g s n buffer = do {
     n1 \<leftarrow> node_appendBuffer n buffer;
     if pipeline n1 \<noteq> NODE_READY then None
     else if length (recv_buf n1) \<ge> BUF_OFF1 then Some (node_status n1 NODE_SHUTDOWN, mime, g)
     else do {
       (n2, mime1, g1) \<leftarrow> http_buf w now mime g n1;
       n3 \<leftarrow> http_send (site_fs w) s n2;
       Some (n3, mime1, g1)
     }
   }"

definition tcp_input ::
    "SITE \<Rightarrow> time_t \<Rightarrow> MDB \<Rightarrow> rng \<Rightarrow> SOCK \<Rightarrow> TCP_NODE \<Rightarrow> RECVRES \<Rightarrow> (TCP_NODE \<times> MDB \<times> rng) option" where
  "tcp_input w now mime g s n res =
     (case res of
        RecvAgain \<Rightarrow> Some (n, mime, g)
      | ConnReset \<Rightarrow> Some (node_status n NODE_SHUTDOWN, mime, g)
      | RecvFailed \<Rightarrow> Some (n, mime, g)
      | PeerClosed \<Rightarrow> Some (node_status n NODE_SHUTDOWN, mime, g)
      | Received buffer \<Rightarrow> tcp_buffer w now mime g s n buffer)"

definition tcp_output :: "SITE \<Rightarrow> SOCK \<Rightarrow> TCP_NODE \<Rightarrow> TCP_NODE option" where
  "tcp_output w s n =
     (case pipeline n of
        NODE_SEND_INIT \<Rightarrow> send_tcp (site_fs w) s n
      | NODE_SEND_DATA \<Rightarrow> send_tcp (site_fs w) s n
      | NODE_SEND_STOP \<Rightarrow> send_tcp (site_fs w) s n
      | _ \<Rightarrow> Some n)"

section \<open>The server\<close>

text \<open>
  The list of connections, keyed by the address of the list item that epoll hands back.  A descriptor is registered with
  \<open>EPOLLONESHOT\<close>: after one event it is disarmed until \<open>tcp_rearm\<close>, so no two threads handle the same connection.
  \<open>armed\<close> is what the kernel waits for.
\<close>

datatype tcp_mode = TCP_INPUT | TCP_OUTPUT

record CONN =
  c_node :: TCP_NODE
  armed :: "tcp_mode option"

record SERVER =
  conns :: "ptr \<rightharpoonup> CONN"
  next_item :: ptr
  s_mime :: MDB
  s_rng :: rng

definition tcp_start :: "MDB \<Rightarrow> rng \<Rightarrow> SERVER" where
  "tcp_start mime g = \<lparr>conns = Map.empty, next_item = 0, s_mime = mime, s_rng = g\<rparr>"

text \<open>\<open>accept\<close> until it would block; any other error ends the program.\<close>

datatype ACCEPT = Accepted | AcceptFailed

fun tcp_newconn :: "SERVER \<Rightarrow> ACCEPT list \<Rightarrow> SERVER option" where
  "tcp_newconn v [] = Some v"
| "tcp_newconn v (AcceptFailed # as) = None"
| "tcp_newconn v (Accepted # as) =
     tcp_newconn (v\<lparr>conns := (conns v)(next_item v \<mapsto> \<lparr>c_node = node_put, armed = Some TCP_INPUT\<rparr>),
                    next_item := Suc (next_item v)\<rparr>) as"

definition node_shutdown :: "SERVER \<Rightarrow> ptr \<Rightarrow> SERVER" where
  "node_shutdown v p = v\<lparr>conns := (conns v)(p := None)\<rparr>"

definition tcp_rearm :: "SERVER \<Rightarrow> ptr \<Rightarrow> tcp_mode \<Rightarrow> SERVER option" where
  "tcp_rearm v p mode =
     map_option (\<lambda>c. v\<lparr>conns := (conns v)(p \<mapsto> c\<lparr>armed := Some mode\<rparr>)\<rparr>) (conns v p)"

definition tcp_gate :: "SERVER \<Rightarrow> ptr \<Rightarrow> SERVER option" where
  "tcp_gate v p = do {
     c \<leftarrow> conns v p;
     case pipeline (c_node c) of
       NODE_SHUTDOWN \<Rightarrow> Some (node_shutdown v p)
     | NODE_READY \<Rightarrow> tcp_rearm v p TCP_INPUT
     | _ \<Rightarrow> tcp_rearm v p TCP_OUTPUT
   }"

datatype epoll = Connect "ACCEPT list" | Readable ptr RECVRES SOCK | Writable ptr SOCK | Hangup ptr

definition put_node :: "SERVER \<Rightarrow> ptr \<Rightarrow> TCP_NODE \<Rightarrow> SERVER" where
  "put_node v p n = v\<lparr>conns := (conns v)(p \<mapsto> \<lparr>c_node = n, armed = None\<rparr>)\<rparr>"

text \<open>One event of \<open>tcp_worker\<close>.  The kernel disarmed the descriptor when it reported the event.\<close>

definition tcp_worker :: "SITE \<Rightarrow> time_t \<Rightarrow> SERVER \<Rightarrow> epoll \<Rightarrow> SERVER option" where
  "tcp_worker w now v ev =
     (case ev of
        Connect as \<Rightarrow> tcp_newconn v as
      | Readable p res s \<Rightarrow> do {
          c \<leftarrow> conns v p;
          (n, mime, g) \<leftarrow> tcp_input w now (s_mime v) (s_rng v) s (c_node c) res;
          tcp_gate (put_node (v\<lparr>s_mime := mime, s_rng := g\<rparr>) p n) p
        }
      | Writable p s \<Rightarrow> do {
          c \<leftarrow> conns v p;
          n \<leftarrow> tcp_output w s (c_node c);
          tcp_gate (put_node v p n) p
        }
      | Hangup p \<Rightarrow> do {
          c \<leftarrow> conns v p;
          tcp_gate (put_node v p (c_node c)) p
        })"

end
