(* ===== verification/Delivery.thy ===== *)
theory Delivery
  imports Tcp
begin

text \<open>
  What sending delivers.  The two loops of \<^verbatim>\<open>src/src/web/send_tcp.c\<close> share a contract, the locale \<open>sending\<close>: one pass
  never loses or repeats a byte, whatever the kernel accepts of what it is offered, and it ends the answer or leaves less to
  send.  The queue is then delivered in order, and a queue of any length is done after finitely many results that make progress.
\<close>

definition total :: "FS \<Rightarrow> TCP_NODE \<Rightarrow> bytes" where
  "total fs n = sent n @ queued fs (response n)"

definition work :: "FS \<Rightarrow> RESPONSE list \<Rightarrow> nat" where
  "work fs rs = sum_list (map (\<lambda>r. length (pending fs r) + 1) rs)"

fun advances :: "SENDRES \<Rightarrow> bool" where
  "advances (Sent k) = (0 < k)"
| "advances _ = False"

definition progress :: "SENDRES list \<Rightarrow> nat" where
  "progress rs = length (filter advances rs)"

definition queue_ok :: "FS \<Rightarrow> RESPONSE list \<Rightarrow> bool" where
  "queue_ok fs rs = list_all (resp_ok fs) rs"

lemma queue_ok_simps [simp]:
  "queue_ok fs []" "queue_ok fs (r # rs) \<longleftrightarrow> resp_ok fs r \<and> queue_ok fs rs"
  "queue_ok fs (rs @ rs') \<longleftrightarrow> queue_ok fs rs \<and> queue_ok fs rs'"
  by (simp_all add: queue_ok_def)

lemma work_simps [simp]: "work fs [] = 0" "work fs (r # rs) = Suc (length (pending fs r) + work fs rs)"
  by (simp_all add: work_def)

lemma progress_simps [simp]:
  "progress [] = 0" "progress (r # rs) = (if advances r then Suc (progress rs) else progress rs)"
  by (simp_all add: progress_def)

text \<open>What one call for the first answer does: nothing but send, and the connection breaks only when the kernel says so.\<close>

definition sends :: "FS \<Rightarrow> TCP_NODE \<Rightarrow> TCP_NODE \<Rightarrow> bool" where
  "sends fs n n' \<longleftrightarrow> total fs n' = total fs n \<and> recv_buf n' = recv_buf n \<and> keepalive n' = keepalive n \<and>
     queue_ok fs (response n')"

lemma sends_refl: "queue_ok fs (response n) \<Longrightarrow> sends fs n n"
  and sends_trans: "sends fs n n1 \<Longrightarrow> sends fs n1 n2 \<Longrightarrow> sends fs n n2"
  by (simp_all add: sends_def)

locale sending =
  fixes fs :: FS and pass :: "TCP_NODE \<Rightarrow> SENDRES \<Rightarrow> (TCP_NODE \<times> bool) option" and mine :: "RESPONSE \<Rightarrow> bool"
  assumes pass_blocked: "response n = r # rest \<Longrightarrow> mine r \<Longrightarrow> resp_ok fs r \<Longrightarrow> pass n WouldBlock = Some (n, True)"
    and pass_broken: "response n = r # rest \<Longrightarrow> mine r \<Longrightarrow> resp_ok fs r \<Longrightarrow>
      pass n Broken = Some (node_status n NODE_SHUTDOWN, True)"
    and pass_sent: "response n = r # rest \<Longrightarrow> mine r \<Longrightarrow> queue_ok fs (r # rest) \<Longrightarrow>
      (\<exists>n1. pass n (Sent k) = Some (n1, True) \<and> sends fs n n1 \<and> pipeline n1 = pipeline n \<and> response n1 = rest) \<or>
      (\<exists>n1 r1. pass n (Sent k) = Some (n1, False) \<and> sends fs n n1 \<and> pipeline n1 = pipeline n \<and>
         response n1 = r1 # rest \<and> mine r1 \<and> length (pending fs r1) + min k 1 \<le> length (pending fs r))"
begin

lemma loop_sends:
  assumes "response n = r # rest" and "mine r" and "queue_ok fs (r # rest)" and "send_loop pass n rs = Some (n', rs')"
  shows "sends fs n n' \<and> (pipeline n' = pipeline n \<or> pipeline n' = NODE_SHUTDOWN \<and> Broken \<in> set rs) \<and> set rs' \<subseteq> set rs \<and>
    (pipeline n' = pipeline n \<longrightarrow> work fs (response n') + progress rs \<le> work fs (response n) + progress rs')"
  using assms
proof (induction rs arbitrary: n r)
  case (Cons res rs)
  note r = Cons.prems(1,2) and ok = Cons.prems(3)
  have ok1: "resp_ok fs r" and q: "queue_ok fs (response n)" using ok r by simp_all
  show ?case
  proof (cases res)
    case WouldBlock
    with Cons.prems pass_blocked [OF r ok1] q show ?thesis by (auto simp: sends_refl)
  next
    case Broken
    with Cons.prems pass_broken [OF r ok1] show ?thesis
      by (auto simp: sends_def total_def node_status_def)
  next
    case (Sent k)
    from pass_sent [OF r ok, of k] show ?thesis
    proof (elim disjE exE conjE)
      fix n1
      assume p: "pass n (Sent k) = Some (n1, True)" "sends fs n n1" "pipeline n1 = pipeline n" "response n1 = rest"
      with Cons.prems Sent show ?thesis by auto
    next
      fix n1 r1
      assume p: "pass n (Sent k) = Some (n1, False)" "sends fs n n1" "pipeline n1 = pipeline n"
        "response n1 = r1 # rest" "mine r1" "length (pending fs r1) + min k 1 \<le> length (pending fs r)"
      have q1: "queue_ok fs (r1 # rest)" using p(2,4) by (simp add: sends_def)
      have "send_loop pass n1 rs = Some (n', rs')" using Cons.prems(4) p(1) Sent by simp
      from Cons.IH [OF p(4,5) q1 this] sends_trans [OF p(2)] p r Sent show ?thesis by auto
    qed
  qed
qed simp

lemma loop_returns:
  assumes "response n = r # rest" and "mine r" and "queue_ok fs (r # rest)"
    and "work fs (response n) \<le> progress rs \<or> Broken \<in> set rs"
  shows "\<exists>n' rs'. send_loop pass n rs = Some (n', rs') \<and>
    (pipeline n' = pipeline n \<longrightarrow> work fs (response n') \<le> progress rs' \<or> Broken \<in> set rs' \<or> pipeline n = NODE_SHUTDOWN)"
  using assms
proof (induction rs arbitrary: n r)
  case (Cons res rs)
  note r = Cons.prems(1,2) and ok = Cons.prems(3)
  have ok1: "resp_ok fs r" using ok by simp
  show ?case
  proof (cases res)
    case WouldBlock
    with Cons.prems pass_blocked [OF r ok1] show ?thesis by auto
  next
    case Broken
    with Cons.prems pass_broken [OF r ok1] show ?thesis by (auto simp: node_status_def)
  next
    case (Sent k)
    from pass_sent [OF r ok, of k] show ?thesis
    proof (elim disjE exE conjE)
      fix n1
      assume "pass n (Sent k) = Some (n1, True)" "response n1 = rest" "sends fs n n1"
      with Cons.prems Sent show ?thesis by (auto split: if_splits)
    next
      fix n1 r1
      assume p: "pass n (Sent k) = Some (n1, False)" "sends fs n n1" "pipeline n1 = pipeline n"
        "response n1 = r1 # rest" "mine r1" "length (pending fs r1) + min k 1 \<le> length (pending fs r)"
      have q1: "queue_ok fs (r1 # rest)" using p(2,4) by (simp add: sends_def)
      have "work fs (response n1) \<le> progress rs \<or> Broken \<in> set rs" using Cons.prems p(4,6) Sent by (auto split: if_splits)
      from Cons.IH [OF p(4,5) q1 this] p Sent show ?thesis by auto
    qed
  qed
qed simp

end

fun is_mem :: "RESPONSE \<Rightarrow> bool" where
  "is_mem (R_MEMORY _ _ _) = True"
| "is_mem (R_FILE _ _ _) = False"

lemma mem_pass_sent:
  assumes "response n = r # rest" and "is_mem r" and "queue_ok fs (r # rest)"
  shows "(\<exists>n1. mem_pass n (Sent k) = Some (n1, True) \<and> sends fs n n1 \<and> pipeline n1 = pipeline n \<and> response n1 = rest) \<or>
    (\<exists>n1 r1. mem_pass n (Sent k) = Some (n1, False) \<and> sends fs n n1 \<and> pipeline n1 = pipeline n \<and>
       response n1 = r1 # rest \<and> is_mem r1 \<and> length (pending fs r1) + min k 1 \<le> length (pending fs r))"
proof -
  obtain buf siz off where r: "r = R_MEMORY buf siz off" using assms(2) by (cases r) auto
  have ok: "siz = length buf" "off \<le> siz" "siz \<le> 1023" "queue_ok fs rest" using assms(3) r by simp_all
  have split: "take m (drop off buf) @ drop (off + m) buf = drop off buf" for m
    by (metis append_take_drop_id drop_drop add.commute)
  show ?thesis
  proof (cases "siz - off \<le> k")
    case True
    then show ?thesis using assms(1) r ok
      by (simp add: Let_def resp_del_def sends_def total_def min_def)
  next
    case False
    then have "mem_pass n (Sent k) = Some (n\<lparr>response := R_MEMORY buf siz (off + k) # rest, sent := sent n @ take k (drop off buf)\<rparr>, False)"
      using assms(1) r ok by (simp add: Let_def min_def)
    moreover have "sends fs n (n\<lparr>response := R_MEMORY buf siz (off + k) # rest, sent := sent n @ take k (drop off buf)\<rparr>)"
      using False assms(1) r ok split [of k] by (simp add: sends_def total_def)
    ultimately show ?thesis using False r ok by (auto simp: min_def)
  qed
qed

lemma file_pass_sent:
  assumes "response n = r # rest" and "\<not> is_mem r" and "queue_ok fs (r # rest)"
  shows "(\<exists>n1. file_pass fs n (Sent k) = Some (n1, True) \<and> sends fs n n1 \<and> pipeline n1 = pipeline n \<and> response n1 = rest) \<or>
    (\<exists>n1 r1. file_pass fs n (Sent k) = Some (n1, False) \<and> sends fs n n1 \<and> pipeline n1 = pipeline n \<and>
       response n1 = r1 # rest \<and> \<not> is_mem r1 \<and> length (pending fs r1) + min k 1 \<le> length (pending fs r))"
proof -
  obtain f off stop where r: "r = R_FILE f off stop" using assms(2) by (cases r) auto
  obtain bs where ok: "file_data fs f = Some bs" "off \<le> stop" "stop < length bs" "queue_ok fs rest" "length f \<le> 1023"
    using assms(3) r by auto
  let ?m = "min k (stop + 1 - off)"
  have len: "length (take ?m (drop off bs)) = ?m" using ok by simp
  have split: "take m (drop off bs) @ drop (off + m) (take (stop + 1) bs) = drop off (take (stop + 1) bs)" if "off + m \<le> stop + 1" for m
  proof -
    have "take m (drop off bs) = take m (drop off (take (stop + 1) bs))" using that by (simp add: drop_take min_def)
    then show ?thesis by (metis append_take_drop_id drop_drop add.commute)
  qed
  show ?thesis
  proof (cases "stop + 1 - off \<le> k")
    case True
    then show ?thesis using assms(1) r ok split [of "stop + 1 - off"] len
      by (simp add: file_pass_def Let_def resp_del_def sends_def total_def min_def)
  next
    case False
    then have "file_pass fs n (Sent k) = Some (n\<lparr>response := R_FILE f (off + k) stop # rest, sent := sent n @ take k (drop off bs)\<rparr>, False)"
      using assms(1) r ok by (auto simp: file_pass_def Let_def min_def)
    moreover have "sends fs n (n\<lparr>response := R_FILE f (off + k) stop # rest, sent := sent n @ take k (drop off bs)\<rparr>)"
      using False assms(1) r ok split [of k] by (simp add: sends_def total_def)
    ultimately show ?thesis using False r ok by (auto simp: min_def)
  qed
qed

interpretation from_mem: sending fs mem_pass is_mem for fs
  by unfold_locales (rule mem_pass_sent | simp)+

interpretation from_file: sending fs "file_pass fs" "\<lambda>r. \<not> is_mem r" for fs
proof unfold_locales
  fix n :: TCP_NODE and r rest
  assume a: "response n = r # rest" "\<not> is_mem r" "resp_ok fs r"
  then show "file_pass fs n WouldBlock = Some (n, True)" "file_pass fs n Broken = Some (node_status n NODE_SHUTDOWN, True)"
    by (cases r; auto simp: file_pass_def)+
qed (rule file_pass_sent)

lemma send_first_sends:
  assumes "response n = r # rest" and "queue_ok fs (response n)" and "send_first fs n rs = Some (n', rs')"
  shows "sends fs n n' \<and> (pipeline n' = pipeline n \<or> pipeline n' = NODE_SHUTDOWN \<and> Broken \<in> set rs) \<and> set rs' \<subseteq> set rs \<and>
    (pipeline n' = pipeline n \<longrightarrow> work fs (response n') + progress rs \<le> work fs (response n) + progress rs')"
proof (cases "is_mem r")
  case True
  then have "send_loop mem_pass n rs = Some (n', rs')"
    using assms by (cases r) (simp_all add: send_first_def send_mem_def)
  with assms True show ?thesis by (intro from_mem.loop_sends) simp_all
next
  case False
  then have "send_loop (file_pass fs) n rs = Some (n', rs')"
    using assms by (cases r) (simp_all add: send_first_def send_file_def)
  with assms False show ?thesis by (intro from_file.loop_sends) simp_all
qed

lemma send_first_returns:
  assumes "response n = r # rest" and "queue_ok fs (response n)" and "work fs (response n) \<le> progress rs \<or> Broken \<in> set rs"
  shows "\<exists>n' rs'. send_first fs n rs = Some (n', rs') \<and>
    (pipeline n' = pipeline n \<longrightarrow> work fs (response n') \<le> progress rs' \<or> Broken \<in> set rs' \<or> pipeline n = NODE_SHUTDOWN)"
proof (cases "is_mem r")
  case True
  then have "send_first fs n rs = send_loop mem_pass n rs"
    using assms by (cases r) (simp_all add: send_first_def send_mem_def)
  with from_mem.loop_returns [of n r rest] assms True show ?thesis by simp
next
  case False
  then have "send_first fs n rs = send_loop (file_pass fs) n rs"
    using assms by (cases r) (simp_all add: send_first_def send_file_def)
  with from_file.loop_returns [of n r rest] assms False show ?thesis by simp
qed

lemma send_data_loop_sends:
  assumes "queue_ok fs (response n)" and "pipeline n = NODE_SEND_DATA" and "send_data_loop fs n rs = Some (n', rs')"
  shows "sends fs n n' \<and>
    (pipeline n' = NODE_SEND_STOP \<and> response n' = [] \<or> pipeline n' = NODE_SHUTDOWN \<and> Broken \<in> set rs)"
  using assms
proof (induction fs n rs rule: send_data_loop.induct)
  case (1 fs n rs)
  show ?case
  proof (cases "response n")
    case Nil
    with 1 have "n' = node_status n NODE_SEND_STOP" by (simp add: send_data_loop.simps)
    with Nil show ?thesis by (simp add: sends_def total_def node_status_def)
  next
    case (Cons r rest)
    from "1.prems"(3) Cons obtain n1 rs1 where f: "send_first fs n rs = Some (n1, rs1)"
      by (subst (asm) send_data_loop.simps) (auto split: option.splits)
    note s = send_first_sends [OF Cons "1.prems"(1) f]
    show ?thesis
    proof (cases "pipeline n1 = NODE_SHUTDOWN")
      case True
      with "1.prems"(3) Cons f have "n' = n1" by (subst (asm) send_data_loop.simps) simp
      with s True "1.prems"(2) show ?thesis by auto
    next
      case False
      with "1.prems"(3) Cons f have "send_data_loop fs n1 rs1 = Some (n', rs')"
        by (subst (asm) send_data_loop.simps) simp
      with "1.IH" [of "(n1, rs1)" n1 rs1] Cons f False s "1.prems"(2) sends_trans [of fs n n1 n'] show ?thesis
        by (auto simp: sends_def)
    qed
  qed
qed

lemma send_data_loop_returns:
  assumes "queue_ok fs (response n)" and "pipeline n = NODE_SEND_DATA"
    and "work fs (response n) \<le> progress rs \<or> Broken \<in> set rs"
  shows "\<exists>n' rs'. send_data_loop fs n rs = Some (n', rs')"
  using assms
proof (induction fs n rs rule: send_data_loop.induct)
  case (1 fs n rs)
  show ?case
  proof (cases "response n")
    case Nil
    then show ?thesis by (simp add: send_data_loop.simps)
  next
    case (Cons r rest)
    from send_first_returns [OF Cons "1.prems"(1,3)] obtain n1 rs1 where
      f: "send_first fs n rs = Some (n1, rs1)" and
      p: "pipeline n1 = pipeline n \<longrightarrow> work fs (response n1) \<le> progress rs1 \<or> Broken \<in> set rs1 \<or> pipeline n = NODE_SHUTDOWN"
      by (elim exE conjE) (rule that)
    note s = send_first_sends [OF Cons "1.prems"(1) f]
    show ?thesis
    proof (cases "pipeline n1 = NODE_SHUTDOWN")
      case True
      with Cons f show ?thesis by (subst send_data_loop.simps) simp
    next
      case False
      with "1.IH" [of "(n1, rs1)" n1 rs1] Cons f s p "1.prems"(2) have "\<exists>n' rs'. send_data_loop fs n1 rs1 = Some (n', rs')"
        by (auto simp: sends_def)
      with Cons f False show ?thesis by (subst send_data_loop.simps) simp
    qed
  qed
qed

section \<open>A whole answer\<close>

text \<open>The state after the queue was worked off.\<close>

definition next_state :: "TCP_NODE \<Rightarrow> pipeline" where
  "next_state n = (if keepalive n = HTTP_KEEPALIVE then NODE_READY else NODE_SHUTDOWN)"

lemma send_tcp_spec:
  assumes "queue_ok fs (response n)" and "pipeline n = NODE_SEND_INIT" and "send_tcp fs s n = Some n'"
  shows "sends fs n n' \<and> (pipeline n' = next_state n \<and> response n' = [] \<or> pipeline n' = NODE_SHUTDOWN \<and> Broken \<in> set (results s))"
proof -
  let ?n = "node_status n NODE_SEND_DATA"
  obtain n2 rs2 where d: "send_data_loop fs ?n (results s) = Some (n2, rs2)" and c: "send_cork_stop s n2 = Some n'"
    using assms(2,3)
    by (auto simp: send_tcp_def send_cork_start_def send_data_def node_status_def split: bind_splits if_splits)
  have "sends fs ?n n2 \<and> (pipeline n2 = NODE_SEND_STOP \<and> response n2 = [] \<or> pipeline n2 = NODE_SHUTDOWN \<and> Broken \<in> set (results s))"
    by (rule send_data_loop_sends [OF _ _ d]) (use assms in \<open>simp_all add: node_status_def\<close>)
  with c show ?thesis
    by (auto simp: send_cork_stop_def sends_def total_def node_status_def next_state_def split: if_splits keep.splits)
qed

lemma send_tcp_returns:
  assumes "queue_ok fs (response n)" and "pipeline n = NODE_SEND_INIT" and "cork_ok s"
    and "work fs (response n) \<le> progress (results s) \<or> Broken \<in> set (results s)"
  shows "\<exists>n'. send_tcp fs s n = Some n'"
proof -
  have "\<exists>n' rs'. send_data_loop fs (node_status n NODE_SEND_DATA) (results s) = Some (n', rs')"
    by (rule send_data_loop_returns) (use assms in \<open>simp_all add: node_status_def\<close>)
  with assms show ?thesis
    by (auto simp: send_tcp_def send_cork_start_def send_data_def send_cork_stop_def node_status_def)
qed

section \<open>Properties\<close>

text \<open>
  C11: Sending is exact.  Whatever pieces the kernel takes and however often it refuses, the bytes sent and the bytes still
  queued are together the bytes that were to be sent, in order.  Once the kernel has taken enough pieces, or broke the connection, the function
  returns, and without a break everything is sent, the queue is empty and the connection is ready again or closed, as the
  client asked.
\<close>

theorem send_exact:
  assumes "queue_ok fs (response n)" and "pipeline n = NODE_SEND_INIT" and "cork_ok s"
    and "work fs (response n) \<le> progress (results s) \<or> Broken \<in> set (results s)"
  shows "\<exists>n'. send_tcp fs s n = Some n' \<and>
    sent n' @ queued fs (response n') = sent n @ queued fs (response n) \<and>
    (pipeline n' = NODE_SHUTDOWN \<or> pipeline n' = NODE_READY \<and> response n' = []) \<and>
    (Broken \<notin> set (results s) \<longrightarrow> sent n' = sent n @ queued fs (response n) \<and> response n' = [] \<and>
       pipeline n' = (if keepalive n = HTTP_KEEPALIVE then NODE_READY else NODE_SHUTDOWN))"
proof -
  obtain n' where n': "send_tcp fs s n = Some n'" using send_tcp_returns [OF assms] by blast
  from send_tcp_spec [OF assms(1,2) n'] n' show ?thesis
    by (auto simp: sends_def total_def next_state_def split: if_splits)
qed

theorem send_exact_witness:
  "\<exists>n'. send_tcp ex_fs \<lparr>cork_ok = True, results = [Sent 1, WouldBlock, Sent 1, Sent 2, Sent 3, Sent 4, Sent 5, Sent 6, Sent 7]\<rparr>
      \<lparr>recv_buf = [], keepalive = HTTP_CLOSE, pipeline = NODE_SEND_INIT,
       response = [R_MEMORY [7] 1 0, R_FILE (lit ''/w/a.txt'') 1 3], sent = []\<rparr> = Some n' \<and>
    sent n' @ queued ex_fs (response n') = [] @ queued ex_fs [R_MEMORY [7] 1 0, R_FILE (lit ''/w/a.txt'') 1 3] \<and>
    sent n' = [7] @ lit ''ell'' \<and> pipeline n' = NODE_SHUTDOWN"
proof -
  let ?n = "\<lparr>recv_buf = [], keepalive = HTTP_CLOSE, pipeline = NODE_SEND_INIT,
       response = [R_MEMORY [7] 1 0, R_FILE (lit ''/w/a.txt'') 1 3], sent = []\<rparr>"
  let ?s = "\<lparr>cork_ok = True, results = [Sent 1, WouldBlock, Sent 1, Sent 2, Sent 3, Sent 4, Sent 5, Sent 6, Sent 7]\<rparr>"
  have q: "queue_ok ex_fs (response ?n)" "work ex_fs (response ?n) \<le> progress (results ?s) \<or> Broken \<in> set (results ?s)"
    "queued ex_fs (response ?n) = [7] @ lit ''ell''"
    by (simp_all add: ex_fs_def)
  from send_exact [OF q(1) _ _ q(2)] show ?thesis using q(3) by auto
qed

end
