(* ===== verification/Http_Inv.thy ===== *)
theory Http_Inv
  imports Delivery
begin

text \<open>
  What the HTTP parser puts into the queue.  Every answer can be sent: texts fit their buffers and ranges lie within files that
  exist, so \<open>queue_ok\<close> is kept.  The hypothesis \<open>site_ok\<close> is what the server relies on: regular files can be read and have
  dates between 1970 and 9999.
\<close>

definition site_ok :: "SITE \<Rightarrow> bool" where
  "site_ok w \<longleftrightarrow> fs_ok (site_fs w) \<and>
     (\<forall>f. file_isreg (site_fs w) f \<longrightarrow> file_data (site_fs w) f \<noteq> None \<and> date_ok (file_mod (site_fs w) f))"

definition mem :: "bytes \<Rightarrow> RESPONSE" where
  "mem text = R_MEMORY text (length text) 0"

definition resp_inv :: "FS \<Rightarrow> RESPONSE list \<Rightarrow> bool" where
  "resp_inv fs rs \<longleftrightarrow> queue_ok fs rs \<and> length rs \<le> 101"

lemma length_CRLF [simp]: "length CRLF = 2"
  by (simp add: CRLF_def)

lemma length_line [simp]: "length (line name val) = length name + length val + 2"
  by (simp add: line_def)

lemma length_LOG_NAME [simp]: "length LOG_NAME = 10"
  by (simp add: LOG_NAME_def)

lemma pending_mem [simp]: "pending fs (mem t) = t"
  and resp_ok_mem [simp]: "resp_ok fs (mem t) \<longleftrightarrow> length t \<le> 1023"
  by (simp_all add: mem_def)

lemma resp_put_cases:
  "resp_put rs t =
     (if 100 < length rs then (rs, None)
      else (rs @ [case t of RESPONSE_FROM_MEMORY \<Rightarrow> mem [] | RESPONSE_FROM_FILE \<Rightarrow> R_FILE [] 0 0], Some (length rs)))"
  by (simp add: resp_put_def mem_def split: rtype.split)

lemma resp_set_mem:
  "length text \<le> 1023 \<Longrightarrow> r < length rs \<Longrightarrow> send_offset (rs ! r) = 0 \<Longrightarrow>
   resp_set_memory rs r text = (rs[r := mem text], length text)"
  by (simp add: resp_set_memory_def snprintf_def mem_def)

lemma send_offset_mem [simp]: "send_offset (mem t) = 0"
  by (simp add: mem_def)

lemma size_digits: "n \<le> OFF_MAX \<Longrightarrow> length (nat_digits n) \<le> 20"
  by (rule nat_digits_length) (auto simp: OFF_MAX_def)

lemma size_add_digits: "length (nat_digits (size_add a b)) \<le> 20"
proof (rule nat_digits_length)
  have "size_add a b < 2 ^ 64" by (simp add: size_add_def)
  also have "(2 :: nat) ^ 64 \<le> 10 ^ 20" by simp
  finally show "size_add a b < 10 ^ 20" .
qed simp

section \<open>Answers without a body, and whole files\<close>

lemma http_keepalive_length: "length (snd (http_keepalive head)) \<le> 24"
  by (auto simp: http_keepalive_def split: option.split)

lemma http_404_ok:
  assumes "date_ok now" and "resp_inv fs rs" and "length keep \<le> 24"
  shows "\<exists>rs'. http_404 now rs keep = Some rs' \<and> resp_inv fs rs'"
proof -
  obtain d where d: "str_GMTtime 32 now = Some d" "length d \<le> 31" using str_GMTtime_ok [OF assms(1)] by blast
  have nf: "length not_found \<le> 200" by (simp add: not_found_def)
  have "length (nat_digits (length not_found)) \<le> 3" by (rule nat_digits_length) (use nf in auto)
  then show ?thesis using assms d nf
    by (simp add: http_404_def resp_put_cases resp_set_mem resp_inv_def nth_append list_update_append)
qed

lemma http_304_ok:
  assumes "date_ok now" and "resp_inv fs rs" and "length keep \<le> 24"
  shows "\<exists>rs'. http_304 now rs keep = Some rs' \<and> resp_inv fs rs'"
proof -
  obtain d where d: "str_GMTtime 32 now = Some d" "length d \<le> 31" using str_GMTtime_ok [OF assms(1)] by blast
  then show ?thesis using assms
    by (simp add: http_304_def resp_put_cases resp_set_mem resp_inv_def nth_append list_update_append)
qed

lemma head_200_length:
  "length d \<le> 31 \<Longrightarrow> length lm \<le> 31 \<Longrightarrow> length mt \<le> 50 \<Longrightarrow> length keep \<le> 24 \<Longrightarrow> n \<le> OFF_MAX \<Longrightarrow>
   length (head_200 d n mt lm keep) \<le> 1023"
  using size_digits [of n] by (simp add: head_200_def)

lemma http_200_exact:
  assumes "str_GMTtime 32 now = Some d" and "length d \<le> 31" and "length rs \<le> 100"
    and "length lm \<le> 31" and "length mt \<le> 50" and "length keep \<le> 24" and "n \<le> OFF_MAX"
  shows "http_200 now rs lm n keep mt = Some (rs @ [mem (head_200 d n mt lm keep)])"
  using assms head_200_length [OF assms(2,4,5,6,7)]
  by (simp add: http_200_def resp_put_cases resp_set_mem nth_append list_update_append)

lemma http_200_ok:
  assumes "date_ok now" and "resp_inv fs rs" and "length lm \<le> 31" and "length mt \<le> 50" and "length keep \<le> 24" and "n \<le> OFF_MAX"
  shows "\<exists>rs'. http_200 now rs lm n keep mt = Some rs' \<and> resp_inv fs rs'"
proof -
  obtain d where d: "str_GMTtime 32 now = Some d" "length d \<le> 31" using str_GMTtime_ok [OF assms(1)] by blast
  show ?thesis
  proof (cases "100 < length rs")
    case True
    then show ?thesis using assms(2) by (simp add: http_200_def resp_put_cases)
  next
    case False
    then show ?thesis using http_200_exact [OF d _ assms(3-6)] head_200_length [OF d(2) assms(3-6)] assms(2)
      by (simp add: resp_inv_def)
  qed
qed

text \<open>What is known of a file that is served.\<close>

definition served :: "FS \<Rightarrow> bytes \<Rightarrow> nat \<Rightarrow> bool" where
  "served fs f n \<longleftrightarrow> (\<exists>bs. file_data fs f = Some bs \<and> length bs = n) \<and> n \<le> OFF_MAX \<and> length f \<le> 1023"

lemma http_body_exact:
  "length rs \<le> 100 \<Longrightarrow> length f \<le> 1023 \<Longrightarrow>
   http_body rs f n = (if n = 0 then rs else rs @ [R_FILE f 0 (n - 1)])"
  by (simp add: http_body_def resp_put_cases)

lemma http_body_ok: "served fs f n \<Longrightarrow> resp_inv fs rs \<Longrightarrow> resp_inv fs (http_body rs f n)"
  by (auto simp: http_body_def resp_put_cases resp_inv_def served_def)

section \<open>Ranges\<close>

lemma http_range_simple_cases:
  assumes "http_range_simple rs r f n p len = (rs', len', ok)"
  shows "length rs' = length rs \<and>
    (ok \<longrightarrow> (\<exists>a b. a \<le> b \<and> b < n \<and> rs' = rs[r := R_FILE (take 1023 f) a b] \<and> len' = size_add len (b + 1 - a)))"
  using assms
  apply (auto simp: http_range_simple_def Let_def split: if_splits option.splits prod.splits)
  subgoal for _ _ a _ by (rule exI [of _ a], rule exI [of _ "n - Suc 0"]) auto
  subgoal for _ _ a b by (rule exI [of _ a], rule exI [of _ b]) auto
  done

lemma content_range_length: "b < n \<Longrightarrow> a \<le> b \<Longrightarrow> n \<le> OFF_MAX \<Longrightarrow> length (content_range (R_FILE f a b) n) \<le> 90"
  using size_digits [of a] size_digits [of b] size_digits [of n] by (simp add: content_range_def)

definition head_206 :: "bytes \<Rightarrow> nat \<Rightarrow> RESPONSE \<Rightarrow> nat \<Rightarrow> bytes \<Rightarrow> bytes \<Rightarrow> bytes \<Rightarrow> bytes" where
  "head_206 d len r n mt lm keep =
     line ''HTTP/1.1 206 OK'' [] @ line ''Date: '' d @ line ''Server: '' LOG_NAME @
     line ''Content-Length: '' (nat_digits len) @ content_range r n @
     line ''Content-Type: '' mt @ line ''Last-Modified: '' lm @ keep @ CRLF"

lemma answer_single_done:
  assumes "str_GMTtime 32 now = Some d" and "length d \<le> 31" and "served fs f n"
    and "length lm \<le> 31" and "length mt \<le> 50" and "length keep \<le> 24" and "length rs < 100" and "a \<le> b" and "b < n"
    and "http_range_simple (rs @ [mem [], R_FILE [] 0 0]) (Suc (length rs)) f n p 0 =
      ((rs @ [mem [], R_FILE [] 0 0])[Suc (length rs) := R_FILE (take 1023 f) a b], size_add 0 (b + 1 - a), True)"
  shows "answer_single now rs f n lm mt keep p =
      Some (rs @ [mem (head_206 d (b + 1 - a) (R_FILE f a b) n mt lm keep), R_FILE f a b], True)"
    and "length (head_206 d (b + 1 - a) (R_FILE f a b) n mt lm keep) \<le> 1023"
proof -
  have small: "size_add 0 (b + 1 - a) = b + 1 - a" using assms(3,9) by (auto simp: served_def OFF_MAX_def size_add_def)
  have f: "take 1023 f = f" using assms(3) by (simp add: served_def)
  let ?h = "head_206 d (b + 1 - a) (R_FILE f a b) n mt lm keep" and ?rs1 = "rs @ [mem [], R_FILE f a b]"
  have rs1: "(rs @ [mem [], R_FILE [] 0 0])[Suc (length rs) := R_FILE (take 1023 f) a b] = ?rs1"
    by (simp add: list_update_append f)
  have "length (nat_digits (b + 1 - a)) \<le> 20" using size_add_digits [of 0 "b + 1 - a"] small by simp
  moreover have "length (content_range (R_FILE f a b) n) \<le> 90"
    using content_range_length assms(3,8,9) by (simp add: served_def)
  ultimately show h: "length ?h \<le> 1023" using assms by (simp add: head_206_def)
  have "http_206_simple now ?rs1 (length rs) (Suc (length rs)) lm n (b + 1 - a) keep mt = Some (rs @ [mem ?h, R_FILE f a b])"
    using assms(1) h unfolding http_206_simple_def
    by (simp add: nth_append head_206_def resp_set_mem list_update_append)
  then show "answer_single now rs f n lm mt keep p = Some (rs @ [mem ?h, R_FILE f a b], True)"
    using assms(7) assms(10) [unfolded rs1 small] by (simp add: answer_single_def resp_put_cases)
qed

lemma answer_single_exact:
  assumes "str_GMTtime 32 now = Some d" and "length d \<le> 31" and "served fs f n"
    and "length lm \<le> 31" and "length mt \<le> 50" and "length keep \<le> 24"
  shows "\<exists>rs' ok. answer_single now rs f n lm mt keep p = Some (rs', ok) \<and>
    (ok \<longrightarrow> (\<exists>a b. a \<le> b \<and> b < n \<and> length rs < 100 \<and>
       rs' = rs @ [mem (head_206 d (b + 1 - a) (R_FILE f a b) n mt lm keep), R_FILE f a b] \<and>
       length (head_206 d (b + 1 - a) (R_FILE f a b) n mt lm keep) \<le> 1023))"
proof (cases "length rs < 100")
  case False
  then show ?thesis by (auto simp: answer_single_def resp_put_cases)
next
  case True
  let ?rs = "rs @ [mem [], R_FILE [] 0 0]"
  obtain rs1 len ok where r: "http_range_simple ?rs (Suc (length rs)) f n p 0 = (rs1, len, ok)" by (metis prod_cases3)
  note c = http_range_simple_cases [OF r]
  show ?thesis
  proof (cases ok)
    case False
    then show ?thesis using True r c by (auto simp: answer_single_def resp_put_cases)
  next
    case ok: True
    with c obtain a b where ab: "a \<le> b" "b < n" "rs1 = ?rs[Suc (length rs) := R_FILE (take 1023 f) a b]"
      "len = size_add 0 (b + 1 - a)" by blast
    note fin = answer_single_done [OF assms True ab(1,2) r [unfolded ab(3,4) eqTrueI [OF ok]]]
    show ?thesis using ab(1,2) True fin by blast
  qed
qed

text \<open>The parts of a multipart answer: each range adds its head, the piece of the file and a line end, and counts all of them.\<close>

lemma size_add_add: "size_add (size_add a b) c = size_add a (b + c)"
  by (simp add: size_add_def mod_add_left_eq add.assoc)

lemma pending_file: "served fs f n \<Longrightarrow> a \<le> b \<Longrightarrow> b < n \<Longrightarrow> length (pending fs (R_FILE f a b)) = b + 1 - a"
  by (auto simp: served_def)

lemma range_part:
  assumes "served fs f n" and "length mt \<le> 50" and "length boundary \<le> 11" and "a \<le> b" and "b < n"
  shows "\<exists>t. length t \<le> 1023 \<and>
    http_206_boundary_head (rs @ [mem [], R_FILE f a b, mem []]) (length rs) (Suc (length rs)) n mt boundary len =
      (rs @ [mem t, R_FILE f a b, mem []], size_add len (length t))"
proof -
  let ?t = "line ''--'' boundary @ line ''Content-Type: '' mt @ content_range (R_FILE f a b) n @ CRLF"
  have "length (content_range (R_FILE f a b) n) \<le> 90"
    using content_range_length assms by (simp add: served_def)
  then have "length ?t \<le> 1023" using assms by simp
  then show ?thesis
    by (intro exI [of _ ?t]) (simp add: http_206_boundary_head_def nth_append resp_set_mem list_update_append)
qed

lemma http_newline_last:
  "http_newline (rs @ [x, y, mem []]) (length rs + 2) len = (rs @ [x, y, mem CRLF], size_add len 2)"
  by (simp add: http_newline_def resp_set_mem nth_append list_update_append)

lemma http_range_complex_ok:
  assumes "served fs f n" and "length mt \<le> 50" and "length boundary \<le> 11" and "length rs \<le> 101"
    and "http_range_complex f n mt boundary rs p len = (rs', len', ok)"
  shows "length rs' \<le> 101 \<and>
    (ok \<longrightarrow> (\<exists>new. rs' = rs @ new \<and> queue_ok fs new \<and> len' = size_add len (length (queued fs new))))"
  using assms
proof (induction "length p" arbitrary: rs p len rule: less_induct)
  case less
  have f: "take 1023 f = f" using less.prems(1) by (simp add: served_def)
  show ?case
  proof (cases "length rs \<le> 98")
    case False
    then show ?thesis using less.prems(4,5) by (subst (asm) http_range_complex.simps) (auto simp: resp_put_cases split: if_splits)
  next
    case True
    let ?p = "case cut_at (chr CHR '','') (take 1023 p) of None \<Rightarrow> take 1023 p | Some (a, _) \<Rightarrow> a"
    let ?rs3 = "rs @ [mem [], R_FILE [] 0 0, mem []]"
    obtain rs4 len1 ok1 where r: "http_range_simple ?rs3 (Suc (length rs)) f n ?p len = (rs4, len1, ok1)" by (metis prod_cases3)
    note c = http_range_simple_cases [OF r]
    show ?thesis
    proof (cases ok1)
      case False
      then show ?thesis using less.prems(5) True r c
        by (subst (asm) http_range_complex.simps) (simp add: resp_put_cases Let_def)
    next
      case ok1: True
      with c obtain a b where ab: "a \<le> b" "b < n" "rs4 = ?rs3[Suc (length rs) := R_FILE (take 1023 f) a b]"
        "len1 = size_add len (b + 1 - a)" by blast
      have rs4: "rs4 = rs @ [mem [], R_FILE f a b, mem []]" using ab(3) f by (simp add: list_update_append)
      obtain t where t: "length t \<le> 1023"
        "http_206_boundary_head rs4 (length rs) (Suc (length rs)) n mt boundary len1 =
           (rs @ [mem t, R_FILE f a b, mem []], size_add len1 (length t))"
        using range_part [OF less.prems(1-3) ab(1,2), of rs len1] rs4 by blast
      let ?new = "[mem t, R_FILE f a b, mem CRLF]"
      let ?len = "size_add (size_add len1 (length t)) 2"
      have new: "queue_ok fs ?new" "?len = size_add len (length (queued fs ?new))"
        using t(1) ab less.prems(1) pending_file [OF less.prems(1) ab(1,2)]
        by (auto simp: served_def size_add_add ac_simps simp del: pending.simps)
      note step = ok1 True r t(2) http_newline_last [of rs "mem t" "R_FILE f a b" "size_add len1 (length t)"]
      show ?thesis
      proof (cases "cut_at (chr CHR '','') (take 1023 p)")
        case None
        with less.prems(5) step have "rs' = rs @ ?new \<and> len' = ?len"
          by (subst (asm) http_range_complex.simps) (simp add: resp_put_cases Let_def)
        with new True show ?thesis by (auto intro!: exI [of _ ?new])
      next
        case (Some ab')
        then obtain p' where p': "cut_at (chr CHR '','') (take 1023 p) = Some (fst ab', p')" by (cases ab') simp
        have rec: "http_range_complex f n mt boundary (rs @ ?new) p' ?len = (rs', len', ok)"
          using less.prems(5) step p'
          by (subst (asm) http_range_complex.simps) (simp add: resp_put_cases Let_def)
        have shorter: "length p' < length p" using cut_at_length [OF p'] by simp
        have IH: "length rs' \<le> 101 \<and> (ok \<longrightarrow> (\<exists>more. rs' = (rs @ ?new) @ more \<and> queue_ok fs more \<and>
            len' = size_add ?len (length (queued fs more))))"
          by (rule less.hyps [OF shorter less.prems(1-3) _ rec]) (use True in simp)
        have "\<exists>all. rs' = rs @ all \<and> queue_ok fs all \<and> len' = size_add len (length (queued fs all))" if complete: ok
        proof -
          obtain more where m: "rs' = (rs @ ?new) @ more" "queue_ok fs more" "len' = size_add ?len (length (queued fs more))"
            using IH complete by blast
          have "len' = size_add len (length (queued fs ?new) + length (queued fs more))"
            unfolding m(3) new(2) by (rule size_add_add)
          then show ?thesis using m(1,2) new(1) by (intro exI [of _ "?new @ more"]) (simp add: ac_simps del: pending.simps)
        qed
        with IH show ?thesis by blast
      qed
    qed
  qed
qed

lemma random_chars_length: "length (fst (random_chars n g)) = n"
  by (induction n arbitrary: g) (simp_all add: Let_def case_prod_unfold)

lemma http_random_length: "length (fst (http_random 12 g)) = 11"
  using random_chars_length [of 12 g] by (simp add: http_random_def Let_def case_prod_unfold)

definition head_multi :: "bytes \<Rightarrow> nat \<Rightarrow> bytes \<Rightarrow> bytes \<Rightarrow> bytes \<Rightarrow> bytes" where
  "head_multi d len boundary lm keep =
     line ''HTTP/1.1 206 Partial Content'' [] @ line ''Server: '' LOG_NAME @ line ''Date: '' d @
     line ''Content-Type: multipart/byteranges; boundary='' boundary @
     line ''Content-Length: '' (nat_digits len) @ line ''Last-Modified: '' lm @ keep @ CRLF"

text \<open>The head announces two bytes less than the body has: the line end behind the head is not counted.\<close>

lemma answer_multi_exact:
  assumes "str_GMTtime 32 now = Some d" and "length d \<le> 31" and "served fs f n" and "length rs \<le> 101"
    and "length lm \<le> 31" and "length mt \<le> 50" and "length keep \<le> 24"
  shows "\<exists>rs' g' ok. answer_multi now g rs f n lm mt keep p = Some (rs', g', ok) \<and> length rs' \<le> 101 \<and>
    (ok \<longrightarrow> (\<exists>parts len. rs' = rs @ mem (head_multi d len (fst (http_random 12 g)) lm keep) # mem CRLF # parts \<and>
       length (head_multi d len (fst (http_random 12 g)) lm keep) \<le> 1023 \<and> queue_ok fs parts \<and>
       len = length (queued fs parts) mod 2 ^ 64))"
proof (cases "length rs < 100")
  case False
  then show ?thesis using assms(4) by (auto simp: answer_multi_def resp_put_cases case_prod_unfold Let_def)
next
  case True
  obtain boundary g1 where b: "http_random 12 g = (boundary, g1)" by (metis prod.exhaust)
  have bl: "length boundary = 11" using http_random_length [of g] b by simp
  let ?rs2 = "rs @ [mem [], mem []]"
  obtain rs3 len ok where r: "http_range_complex f n mt boundary ?rs2 p 0 = (rs3, len, ok)" by (metis prod_cases3)
  have c: "length rs3 \<le> 101 \<and> (ok \<longrightarrow> (\<exists>new. rs3 = ?rs2 @ new \<and> queue_ok fs new \<and> len = size_add 0 (length (queued fs new))))"
    by (rule http_range_complex_ok [OF assms(3,6) _ _ r]) (use bl True in simp_all)
  note put = b r resp_put_cases answer_multi_def Let_def
  consider "\<not> ok" | "ok" "length rs3 = 101" | "ok" "length rs3 \<le> 100" using c by linarith
  then show ?thesis
  proof cases
    case 1
    then have "answer_multi now g rs f n lm mt keep p = Some (rs3, g1, False)" using True by (simp add: put)
    then show ?thesis using c by (intro exI [of _ rs3] exI [of _ g1] exI [of _ False]) simp
  next
    case 2
    then have "answer_multi now g rs f n lm mt keep p = Some (rs3, g1, False)" using True by (simp add: put)
    then show ?thesis using c by (intro exI [of _ rs3] exI [of _ g1] exI [of _ False]) simp
  next
    case 3
    obtain new where new: "rs3 = ?rs2 @ new" "queue_ok fs new" "len = size_add 0 (length (queued fs new))"
      using c 3(1) by blast
    let ?fin = "lit ''--'' @ boundary @ lit ''--'' @ CRLF"
    let ?len = "size_add len (length ?fin)"
    let ?head = "head_multi d ?len boundary lm keep"
    have head: "length ?head \<le> 1023"
      using size_add_digits [of len "length ?fin"] assms bl by (simp add: head_multi_def)
    have "http_206_boundary_finish (rs3 @ [mem []]) (length rs3) len boundary = (rs3 @ [mem ?fin], ?len)"
      using bl by (simp add: http_206_boundary_finish_def resp_set_mem nth_append list_update_append)
    moreover have "http_206_complex now (rs3 @ [mem ?fin]) (length rs) lm ?len boundary keep =
        Some (rs @ [mem ?head, mem []] @ new @ [mem ?fin])"
      using assms(1) head unfolding new(1) http_206_complex_def
      by (simp add: head_multi_def resp_set_mem nth_append list_update_append del: lit_Cons)
    moreover have "http_newline (rs @ [mem ?head, mem []] @ new @ [mem ?fin]) (Suc (length rs)) ?len =
        (rs @ [mem ?head, mem CRLF] @ new @ [mem ?fin], size_add ?len 2)"
      by (simp add: http_newline_def resp_set_mem nth_append list_update_append)
    ultimately have "answer_multi now g rs f n lm mt keep p = Some (rs @ mem ?head # mem CRLF # (new @ [mem ?fin]), g1, True)"
      using 3 True by (simp add: put del: lit_Cons)
    moreover have "queue_ok fs (new @ [mem ?fin])" using new(2) bl by simp
    moreover have "?len = length (queued fs (new @ [mem ?fin])) mod 2 ^ 64"
      unfolding new(3) size_add_add by (simp add: size_add_def)
    moreover have "length (rs @ mem ?head # mem CRLF # (new @ [mem ?fin])) \<le> 101" using 3(2) new(1) by simp
    ultimately show ?thesis using head b by (metis fst_conv)
  qed
qed

section \<open>Paths\<close>

text \<open>Characters other than the plus sign and the percent sign stand for themselves.\<close>

lemma urlDecode_plain:
  "chr CHR ''+'' \<notin> set p \<Longrightarrow> chr CHR ''%'' \<notin> set p \<Longrightarrow> length p \<le> room \<Longrightarrow> urlDecode_loop room hex p = Some p"
  by (induction room hex p rule: urlDecode_loop.induct) auto

text \<open>The encoding that clients use: letters and digits, and a few marks, for themselves, anything else in hexadecimal.\<close>

definition url_encode :: "bytes \<Rightarrow> bytes" where
  "url_encode s =
     concat (map (\<lambda>c. if host_char c \<or> c = chr CHR ''/'' then [c]
                       else [chr CHR ''%'', hex_digit (drop_bit 4 c), hex_digit (c AND 15)]) s)"

lemma nibble_cases:
  assumes "(d :: UCHAR) < 16"
  obtains k where "k < (16 :: nat)" and "d = of_nat k"
proof (rule that [of "unat d"])
  show "unat d < 16" using assms by (simp add: word_less_nat_alt)
qed simp

lemma hex_digit_scanned:
  assumes "(d :: UCHAR) < 16"
  shows "hexval (hex_digit d) = Some d \<and> \<not> isspace (hex_digit d) \<and> hex_digit d \<notin> {43, 45, 88, 120}"
proof -
  obtain k where k: "k < (16 :: nat)" "d = of_nat k" by (rule nibble_cases [OF assms])
  from k(1) have "k \<in> {0, 1, 2, 3, 4, 5, 6, 7, 8, 9, 10, 11, 12, 13, 14, 15}"
    by (auto simp: less_Suc_eq numeral_eq_Suc)
  then show ?thesis unfolding k(2) by (elim insertE) (simp_all add: hexval_def hex_digit_def isspace_def)
qed

lemma nibbles: "drop_bit 4 (c :: UCHAR) < 16" "c AND 15 < 16" "16 * drop_bit 4 c + (c AND 15) = c"
proof -
  have mask: "c AND 15 = take_bit 4 c" using take_bit_eq_mask [of 4 c] by (simp add: mask_eq_exp_minus_1)
  have "unat c div 16 < 16" by (rule less_mult_imp_div_less) simp
  then show "drop_bit 4 c < 16" by (simp add: word_less_nat_alt drop_bit_eq_div unat_div)
  show "c AND 15 < 16" unfolding mask by (simp add: word_less_nat_alt take_bit_eq_mod unat_mod)
  have "push_bit 4 (drop_bit 4 c) + take_bit 4 c = c" by (rule bits_ident)
  then show "16 * drop_bit 4 c + (c AND 15) = c" unfolding mask by (simp add: push_bit_eq_mult mult.commute)
qed

lemma scan_encoded: "sscanf_2x (hex_digit (drop_bit 4 c) # hex_digit (c AND 15) # rest) = Matched c"
  using hex_digit_scanned [OF nibbles(1), of c] hex_digit_scanned [OF nibbles(2), of c] nibbles(3) [of c]
  by (simp add: sscanf_2x_def)

lemma host_char_plain: "host_char c \<or> c = chr CHR ''/'' \<Longrightarrow> c \<noteq> chr CHR ''+'' \<and> c \<noteq> chr CHR ''%''"
  by (auto simp: host_char_def chr_def)

lemma urlDecode_encode: "length s \<le> room \<Longrightarrow> urlDecode_loop room hex (url_encode s) = Some s"
proof (induction s arbitrary: room hex)
  case Nil
  then show ?case by (cases room) (simp_all add: url_encode_def)
next
  case (Cons c s)
  then obtain r where room: "room = Suc r" "length s \<le> r" by (cases room) auto
  note IH = Cons.IH [OF room(2), unfolded url_encode_def]
  show ?case
  proof (cases "host_char c \<or> c = chr CHR ''/''")
    case True
    then show ?thesis using room IH host_char_plain [OF True] by (simp add: url_encode_def)
  next
    case False
    moreover have "chr CHR ''%'' \<noteq> chr CHR ''+''" by (simp add: chr_def)
    ultimately show ?thesis using room IH by (simp add: url_encode_def scan_encoded)
  qed
qed

section \<open>One request\<close>

lemma http_filename_served:
  assumes "site_ok w" and "http_filename w resource = Some f"
  shows "served (site_fs w) f (http_size_simple w f) \<and> date_ok (file_mod (site_fs w) f)"
proof -
  have f: "file_isreg (site_fs w) f" "length f \<le> 1023"
    using assms(2) by (auto simp: http_filename_def Let_def snprintf_def split: if_splits)
  then obtain bs where "file_data (site_fs w) f = Some bs" using assms(1) by (auto simp: site_ok_def)
  with f assms(1) show ?thesis by (auto simp: site_ok_def served_def fs_ok_def http_size_simple_def)
qed

lemma urlDecode_loop_length: "urlDecode_loop room hex p = Some q \<Longrightarrow> length q \<le> length p"
  by (induction room hex p arbitrary: q rule: urlDecode_loop.induct)
     (fastforce split: if_splits scanned.splits)+

lemma http_resource_total:
  assumes "length p_url < BUF_SIZE"
  shows "http_resource w p_url \<noteq> None"
proof (cases "http_urlDecode p_url BUF_SIZE")
  case (Some dst)
  then have "length dst \<le> length p_url" by (auto simp: http_urlDecode_def split: if_splits dest: urlDecode_loop_length)
  with Some assms show ?thesis by (simp add: http_resource_def Let_def)
qed (simp add: http_resource_def)

text \<open>An answer keeps the queue in order, or the connection is shut down and nothing of the queue is sent.\<close>

definition answered :: "SITE \<Rightarrow> TCP_NODE \<Rightarrow> (TCP_NODE \<times> MDB \<times> rng) option \<Rightarrow> bool" where
  "answered w n r \<longleftrightarrow> (\<exists>n' mime' g'. r = Some (n', mime', g') \<and> mime_ok mime' \<and> recv_buf n' = recv_buf n \<and> sent n' = sent n \<and>
     (pipeline n' = NODE_SHUTDOWN \<or> pipeline n' = pipeline n \<and> resp_inv (site_fs w) (response n')))"

lemma answered_response:
  "mime_ok mime \<Longrightarrow> resp_inv (site_fs w) rs \<Longrightarrow> answered w n (Some (n\<lparr>response := rs\<rparr>, mime, g))"
  by (auto simp: answered_def)

lemma answered_stop: "mime_ok mime \<Longrightarrow> answered w n (Some (node_status n NODE_SHUTDOWN, mime, g))"
  by (auto simp: answered_def node_status_def)

lemma http_file_ok:
  assumes "served (site_fs w) f (http_size_simple w f)" and "date_ok (file_mod (site_fs w) f)" and "date_ok now"
    and "mime_ok mime" and "resp_inv (site_fs w) (response n)" and "length keep \<le> 24"
  shows "answered w n (http_file w now mime g n f keep head)"
proof -
  let ?n = "http_size_simple w f"
  obtain d where d: "str_GMTtime 32 now = Some d" "length d \<le> 31" using str_GMTtime_ok [OF assms(3)] by blast
  obtain lm where lm: "str_gmttime 32 (file_mod (site_fs w) f) = Some lm" "length lm \<le> 31"
    using str_gmttime_ok [OF assms(2)] by blast
  obtain mime1 mt where m: "mime_find (site_fs w) (magic w) mime f = Some (mime1, Some mt)" "mime_ok mime1" "length mt \<le> 50"
    using mime_find_ok [OF assms(4)] by blast
  obtain modified where mod: "http_resource_modified w f head = Some (lm, modified)"
    by (cases "header_get head ''If-Modified-Since''") (use lm in \<open>simp_all add: http_resource_modified_def\<close>)
  have n: "?n \<le> OFF_MAX" and rs: "length (response n) \<le> 101" using assms(1,5) by (simp_all add: served_def resp_inv_def)
  note defs = http_file_def Let_def m(1) mod
  consider (old) "\<not> modified"
    | (whole) "modified" "Option.bind (http_range_detected head) http_range_prepare = None"
    | (single) p where "modified" "Option.bind (http_range_detected head) http_range_prepare = Some p" "\<not> http_range_multipart p"
    | (multi) p where "modified" "Option.bind (http_range_detected head) http_range_prepare = Some p" "http_range_multipart p"
    by (cases "Option.bind (http_range_detected head) http_range_prepare") blast+
  then show ?thesis
  proof cases
    case old
    obtain rs' where "http_304 now (response n) keep = Some rs'" "resp_inv (site_fs w) rs'"
      using http_304_ok [OF assms(3,5,6)] by blast
    with old m(2) show ?thesis by (simp add: defs answered_response)
  next
    case whole
    obtain rs' where "http_200 now (response n) lm ?n keep mt = Some rs'" "resp_inv (site_fs w) rs'"
      using http_200_ok [OF assms(3,5) lm(2) m(3) assms(6) n] by blast
    with whole m(2) http_body_ok [OF assms(1)] show ?thesis by (simp add: defs answered_response)
  next
    case single
    obtain rs' ok where s: "answer_single now (response n) f ?n lm mt keep p = Some (rs', ok)"
      "ok \<longrightarrow> (\<exists>a b. a \<le> b \<and> b < ?n \<and> length (response n) < 100 \<and>
         rs' = response n @ [mem (head_206 d (b + 1 - a) (R_FILE f a b) ?n mt lm keep), R_FILE f a b] \<and>
         length (head_206 d (b + 1 - a) (R_FILE f a b) ?n mt lm keep) \<le> 1023)"
      using answer_single_exact [OF d assms(1) lm(2) m(3) assms(6), of "response n" p] by blast
    have "resp_inv (site_fs w) rs'" if ok using s(2) that assms(1,5) by (auto simp: resp_inv_def served_def)
    with single s(1) m(2) show ?thesis by (auto simp: defs answered_def)
  next
    case multi
    obtain rs' g' ok where s: "answer_multi now g (response n) f ?n lm mt keep p = Some (rs', g', ok)" "length rs' \<le> 101"
      "ok \<longrightarrow> (\<exists>parts len. rs' = response n @ mem (head_multi d len (fst (http_random 12 g)) lm keep) # mem CRLF # parts \<and>
         length (head_multi d len (fst (http_random 12 g)) lm keep) \<le> 1023 \<and> queue_ok (site_fs w) parts \<and>
         len = length (queued (site_fs w) parts) mod 2 ^ 64)"
      using answer_multi_exact [OF d assms(1) rs lm(2) m(3) assms(6), of g p] by blast
    have "resp_inv (site_fs w) rs'" if ok using s(2,3) that assms(5) by (auto simp: resp_inv_def)
    with multi s(1) m(2) show ?thesis by (auto simp: defs answered_def)
  qed
qed

lemma http_answer_ok:
  assumes "site_ok w" and "date_ok now" and "mime_ok mime" and "resp_inv (site_fs w) (response n)" and "length p_url < BUF_SIZE"
  shows "answered w n (http_answer w now mime g n p_cmd p_url p_proto p_head)"
proof (cases "http_proto p_proto \<and> http_action p_cmd")
  case False
  then show ?thesis using answered_stop [OF assms(3)] by (auto simp: http_answer_def Let_def)
next
  case True
  obtain res where res: "http_resource w p_url = Some res" using http_resource_total [OF assms(5)] by blast
  obtain k keep where k: "http_keepalive p_head = (k, keep)" by (metis prod.exhaust)
  have keep: "length keep \<le> 24" using http_keepalive_length [of p_head] k by simp
  have ans: "answered w (n\<lparr>keepalive := k\<rparr>) r \<Longrightarrow> answered w n r" for r by (auto simp: answered_def)
  show ?thesis
  proof (cases res)
    case None
    then show ?thesis using True res answered_stop [OF assms(3)] by (simp add: http_answer_def Let_def)
  next
    case (Some resource)
    show ?thesis
    proof (cases "http_filename w resource")
      case None
      obtain rs' where "http_404 now (response n) keep = Some rs'" "resp_inv (site_fs w) rs'"
        using http_404_ok [OF assms(2,4) keep] by blast
      then show ?thesis using True res Some k None answered_response [OF assms(3), of w rs' "n\<lparr>keepalive := k\<rparr>" g]
        by (auto simp: http_answer_def Let_def intro!: ans)
    next
      case found: (Some f)
      have "answered w (n\<lparr>keepalive := k\<rparr>) (http_file w now mime g (n\<lparr>keepalive := k\<rparr>) f keep p_head)"
        by (rule http_file_ok) (use http_filename_served [OF assms(1) found] assms keep in auto)
      then show ?thesis using True res Some k found by (auto simp: http_answer_def Let_def intro!: ans)
    qed
  qed
qed

section \<open>The receive buffer\<close>

lemma http_split_url: "http_split text = Some (p_cmd, p_url, p_proto, p_head) \<Longrightarrow> length p_url < length text"
  by (auto simp: http_split_def Let_def split: bind_splits option.splits dest!: cut_at_length)

lemma http_hashHeader_total: "http_hashHeader head \<noteq> None"
  using count_loop_total [of CRLF 0 head] by (auto simp: http_hashHeader_def str_count_def CRLF_def)

lemma next_request_length: "next_request buf = Some (text, rest) \<Longrightarrow> length text \<le> length buf"
  using length_cstr [of buf] by (fastforce simp: next_request_def split: option.splits dest!: cut_str_Some)

lemma http_read_one_ok:
  assumes "site_ok w" and "date_ok now" and "mime_ok mime" and "resp_inv (site_fs w) (response n)" and "length text \<le> BUF_SIZE"
  shows "answered w n (http_read_one w now mime g n text)"
proof (cases "http_split text")
  case None
  then show ?thesis using answered_stop [OF assms(3)] by (simp add: http_read_one_def)
next
  case (Some r)
  then obtain p_cmd p_url p_proto p_head where s: "http_split text = Some (p_cmd, p_url, p_proto, p_head)" by (cases r) auto
  obtain head where h: "http_hashHeader p_head = Some head" using http_hashHeader_total by fast
  have "length p_url < BUF_SIZE" using http_split_url [OF s] assms(5) by simp
  from http_answer_ok [OF assms(1-4) this] show ?thesis by (simp add: http_read_one_def s h)
qed

text \<open>Parsing ends for every buffer, leaves at most what it was given and a queue that can be sent.\<close>

lemma http_buf_ok:
  assumes "site_ok w" and "date_ok now" and "mime_ok mime" and "resp_inv (site_fs w) (response n)"
    and "length (recv_buf n) < BUF_SIZE" and "pipeline n = NODE_READY"
  shows "\<exists>n' mime' g'. http_buf w now mime g n = Some (n', mime', g') \<and> mime_ok mime' \<and> sent n' = sent n \<and>
    length (recv_buf n') \<le> length (recv_buf n) \<and>
    (pipeline n' = NODE_SHUTDOWN \<or> pipeline n' = NODE_READY \<and> resp_inv (site_fs w) (response n'))"
  using assms(3-6)
proof (induction "length (recv_buf n)" arbitrary: mime g n rule: less_induct)
  case less
  show ?case
  proof (cases "length (recv_buf n) \<le> 14 \<or> next_request (recv_buf n) = None")
    case True
    then show ?thesis using less.prems by (subst http_buf.simps) auto
  next
    case False
    then obtain req rest where t: "next_request (recv_buf n) = Some (req, rest)" by auto
    note rest = next_request_shorter [OF t] and len = next_request_length [OF t]
    have "answered w (n\<lparr>recv_buf := rest\<rparr>) (http_read_one w now mime g (n\<lparr>recv_buf := rest\<rparr>) req)"
      by (rule http_read_one_ok [OF assms(1,2)]) (use less.prems len in auto)
    then obtain n1 mime1 g1 where r: "http_read_one w now mime g (n\<lparr>recv_buf := rest\<rparr>) req = Some (n1, mime1, g1)"
      "mime_ok mime1" "recv_buf n1 = rest" "sent n1 = sent n"
      "pipeline n1 = NODE_SHUTDOWN \<or> pipeline n1 = pipeline n \<and> resp_inv (site_fs w) (response n1)"
      unfolding answered_def by auto
    show ?thesis
    proof (cases "pipeline n1 \<noteq> NODE_SHUTDOWN \<and> rest \<noteq> []")
      case True
      have "\<exists>n' mime' g'. http_buf w now mime1 g1 n1 = Some (n', mime', g') \<and> mime_ok mime' \<and> sent n' = sent n1 \<and>
          length (recv_buf n') \<le> length (recv_buf n1) \<and>
          (pipeline n' = NODE_SHUTDOWN \<or> pipeline n' = NODE_READY \<and> resp_inv (site_fs w) (response n'))"
        by (rule less.hyps) (use True r rest less.prems in auto)
      then show ?thesis using True False t r rest less.prems(3) by (subst http_buf.simps) auto
    next
      case stop: False
      then show ?thesis using False t r rest less.prems(3,4) by (subst http_buf.simps) auto
    qed
  qed
qed

section \<open>A range of two numbers\<close>

lemma range_number_digits: "y \<le> OFF_MAX \<Longrightarrow> range_number (nat_digits y) k = Some y"
  using nat_digits_ne [of y] nat_digits_digits [of _ y] strtol_digits [of y]
  by (auto simp: range_number_def str_isNumber_def list_all_iff OFF_MAX_def)

lemma digits_no_dash: "chr CHR ''-'' \<notin> set (nat_digits y)"
  using nat_digits_digits [of "chr CHR ''-''" y] by (auto simp: isdigit_def chr_def)

lemma cut_range:
  assumes "length a \<le> 20" and "chr CHR ''-'' \<notin> set a" and "y \<le> OFF_MAX"
  shows "cut_at (chr CHR ''-'') (take 1023 (a @ lit ''-'' @ nat_digits y)) = Some (a, nat_digits y)"
proof -
  have "take 1023 (a @ lit ''-'' @ nat_digits y) = a @ lit ''-'' @ nat_digits y"
    using assms(1) size_digits [OF assms(3)] by simp
  with cut_at_split [OF assms(2)] show ?thesis by simp
qed

lemma range_simple_exact:
  assumes "length a \<le> 20" and "chr CHR ''-'' \<notin> set a" and "range_number a 0 = Some x"
    and "x \<le> y" and "x < n" and "y \<le> OFF_MAX"
  shows "http_range_simple rs r f n (a @ lit ''-'' @ nat_digits y) len =
    (rs[r := R_FILE (take 1023 f) x (min y (n - 1))], size_add len (min y (n - 1) + 1 - x), True)"
  using assms(3,4,5) cut_range [OF assms(1,2,6)] range_number_digits [OF assms(6)]
  by (auto simp: http_range_simple_def Let_def min_def simp del: lit_Cons)

section \<open>Properties\<close>

text \<open>
  C21: A single range.  For a range of two numbers that begins within the file, the answer is a head whose
  Content-Length and Content-Range say exactly what follows, and then those bytes of the file; an end beyond the file is moved to the
  last byte.  A range without a start is not the last bytes of the file, as it is in HTTP, but the first.
\<close>

theorem range_exact:
  assumes "date_ok now" and "length lm < DATE_SIZE" and "length mt \<le> MIME_VALLEN" and "length keep \<le> 24" and "length rs < 100"
    and "file_data fs f = Some bs" and "length f \<le> BUF_OFF1" and "length bs \<le> OFF_MAX"
    and "x \<le> y" and "x < length bs" and "y \<le> OFF_MAX" and "stop = min y (length bs - 1)"
    and "start = nat_digits x \<or> start = [] \<and> x = 0"
  shows "\<exists>rs' d. answer_single now rs f (length bs) lm mt keep (start @ lit ''-'' @ nat_digits y) = Some (rs', True) \<and>
    str_GMTtime DATE_SIZE now = Some d \<and> length (take (stop + 1 - x) (drop x bs)) = stop + 1 - x \<and>
    queued fs rs' = queued fs rs @ head_206 d (stop + 1 - x) (R_FILE f x stop) (length bs) mt lm keep @ take (stop + 1 - x) (drop x bs)"
proof -
  obtain d where d: "str_GMTtime 32 now = Some d" "length d \<le> 31" using str_GMTtime_ok [OF assms(1)] by blast
  have a: "length start \<le> 20" "chr CHR ''-'' \<notin> set start" "range_number start 0 = Some x"
    using assms(13) size_digits [of x] digits_no_dash [of x] range_number_digits [of x 0] range_number_def [of "[]"] assms(8,10)
    by auto
  have ser: "served fs f (length bs)" using assms(6,7,8) by (simp add: served_def)
  have lm: "length lm \<le> 31" and ab: "x \<le> stop" "stop < length bs" using assms(2,9,10,12) by auto
  note sent = answer_single_done [OF d ser lm assms(3-5) ab range_simple_exact [OF a assms(9-11), folded assms(12)]]
  have "take (stop + 1 - x) (drop x bs) = drop x (take (stop + 1) bs)" by (simp add: drop_take)
  then show ?thesis using sent(1) d(1) ab assms(6) by (intro exI conjI) (auto simp del: lit_Cons)
qed

theorem range_exact_witness:
  "\<exists>rs' d. answer_single 1 [] (lit ''/w/a.txt'') (length (lit ''hello'')) epoch (lit ''text/plain'') [] (nat_digits 1 @ lit ''-'' @ nat_digits 9) =
      Some (rs', True) \<and>
    str_GMTtime DATE_SIZE 1 = Some d \<and> length (take (4 + 1 - 1) (drop 1 (lit ''hello''))) = 4 + 1 - 1 \<and>
    queued ex_fs rs' = queued ex_fs [] @ head_206 d (4 + 1 - 1) (R_FILE (lit ''/w/a.txt'') 1 4) (length (lit ''hello'')) (lit ''text/plain'') epoch [] @
      take (4 + 1 - 1) (drop 1 (lit ''hello''))"
  by (rule range_exact) (simp_all add: date_ok_def ex_fs_def OFF_MAX_def epoch_def)

text \<open>
  C39: Several ranges.  The parts of a multipart answer are all announced in the Content-Length of the head, but the
  line end that follows the head is counted as part of the body by the client and not by the server: the body has two bytes more
  than the head says, whatever the ranges are.
\<close>

theorem multipart_length:
  assumes "date_ok now" and "length lm < DATE_SIZE" and "length mt \<le> MIME_VALLEN" and "length keep \<le> 24" and "length rs \<le> 100"
    and "file_data fs f = Some bs" and "length f \<le> BUF_OFF1" and "length bs \<le> OFF_MAX"
    and "answer_multi now g rs f (length bs) lm mt keep p = Some (rs', g', True)"
  shows "\<exists>d len body. rs' = rs @ mem (head_multi d len (fst (http_random 12 g)) lm keep) # body \<and>
    queue_ok fs body \<and> 2 \<le> length (queued fs body) \<and> len = (length (queued fs body) - 2) mod 2 ^ 64"
proof -
  obtain d where d: "str_GMTtime 32 now = Some d" "length d \<le> 31" using str_GMTtime_ok [OF assms(1)] by blast
  have ser: "served fs f (length bs)" using assms(6-8) by (simp add: served_def)
  have lm: "length lm \<le> 31" and rs: "length rs \<le> 101" using assms(2,5) by simp_all
  obtain parts len where p: "rs' = rs @ mem (head_multi d len (fst (http_random 12 g)) lm keep) # mem CRLF # parts"
      "queue_ok fs parts" "len = length (queued fs parts) mod 2 ^ 64"
    using answer_multi_exact [OF d ser rs lm assms(3,4), of g p] assms(9) by auto
  then show ?thesis by (intro exI [of _ d] exI [of _ len] exI [of _ "mem CRLF # parts"]) simp
qed

text \<open>Two ranges of the example file.\<close>

definition accepted :: "bytes \<Rightarrow> nat \<Rightarrow> bytes \<Rightarrow> bool" where
  "accepted f n p \<longleftrightarrow> (\<forall>rs r len. snd (snd (http_range_simple rs r f n p len)))"

lemma set_memory_length [simp]: "length (fst (resp_set_memory rs r t)) = length rs"
  by (simp add: resp_set_memory_def Let_def)

lemma newline_length [simp]: "length (fst (http_newline rs r len)) = length rs"
  and boundary_head_length [simp]: "length (fst (http_206_boundary_head rs r r' n mt b len)) = length rs"
  by (simp_all add: http_newline_def http_206_boundary_head_def Let_def case_prod_unfold)

lemma complex_step:
  assumes "length rs \<le> 98" and "cut_at (chr CHR '','') (take 1023 p) = c"
    and "accepted f n (case c of None \<Rightarrow> take 1023 p | Some (a, _) \<Rightarrow> a)"
  shows "\<exists>rs1 len1. length rs1 = length rs + 3 \<and> http_range_complex f n mt b rs p len =
    (case c of None \<Rightarrow> (rs1, len1, True) | Some (_, q) \<Rightarrow> http_range_complex f n mt b rs1 q len1)"
proof -
  let ?p = "case c of None \<Rightarrow> take 1023 p | Some (a, _) \<Rightarrow> a"
  let ?rs3 = "rs @ [mem [], R_FILE [] 0 0, mem []]"
  obtain rs4 len4 where r: "http_range_simple ?rs3 (Suc (length rs)) f n ?p len = (rs4, len4, True)"
    using assms(3) unfolding accepted_def by (metis (full_types) prod.exhaust_sel)
  have l4: "length rs4 = length rs + 3" using http_range_simple_cases [OF r] by simp
  obtain rs5 len5 where h: "http_206_boundary_head rs4 (length rs) (Suc (length rs)) n mt b len4 = (rs5, len5)" by (metis prod.exhaust)
  obtain rs6 len6 where e: "http_newline rs5 (length rs + 2) len5 = (rs6, len6)" by (metis prod.exhaust)
  have "length rs6 = length rs5" using newline_length [of rs5 "length rs + 2" len5] by (simp only: e fst_conv)
  also have "\<dots> = length rs4"
    using boundary_head_length [of rs4 "length rs" "Suc (length rs)" n mt b len4] by (simp only: h fst_conv)
  finally have "length rs6 = length rs + 3" using l4 by simp
  then show ?thesis using assms(1,2) r h e
    by (intro exI [of _ rs6] exI [of _ len6]) (subst http_range_complex.simps, auto simp: resp_put_cases Let_def split: option.split)
qed

lemma ex_accepted: "accepted (lit ''/w/a.txt'') (length (lit ''hello'')) (lit ''0-0'')" "accepted (lit ''/w/a.txt'') (length (lit ''hello'')) (lit ''2-3'')"
proof -
  have "range_number (lit ''0'') 0 = Some 0" "range_number (lit ''2'') 0 = Some 2" "nat_digits 0 = lit ''0''" "nat_digits 3 = lit ''3''"
    by (simp_all add: range_number_def str_isNumber_def isdigit_def strtol_def chr_def nat_digits.simps)
  with range_simple_exact [of "lit ''0''" 0 0] range_simple_exact [of "lit ''2''" 2 3]
  show "accepted (lit ''/w/a.txt'') (length (lit ''hello'')) (lit ''0-0'')" "accepted (lit ''/w/a.txt'') (length (lit ''hello'')) (lit ''2-3'')"
    by (simp_all add: accepted_def OFF_MAX_def chr_def)
qed

lemma ex_multi:
  "\<exists>rs' g'. answer_multi 1 ex_rng [] (lit ''/w/a.txt'') (length (lit ''hello'')) epoch (lit ''text/plain'') [] (lit ''0-0,2-3'') = Some (rs', g', True)"
proof -
  let ?f = "lit ''/w/a.txt''" and ?n = "length (lit ''hello'')" and ?mt = "lit ''text/plain''"
  obtain b g1 where b: "http_random 12 ex_rng = (b, g1)" by (metis prod.exhaust)
  have c1: "cut_at (chr CHR '','') (take 1023 (lit ''0-0,2-3'')) = Some (lit ''0-0'', lit ''2-3'')"
    using cut_at_split [of "chr CHR '',''" "lit ''0-0''" "lit ''2-3''"] by (simp add: chr_def)
  have c2: "cut_at (chr CHR '','') (take 1023 (lit ''2-3'')) = None" by (simp add: cut_at_None chr_def)
  have two: "\<exists>rs1 len1. length rs1 = length rs + 6 \<and> http_range_complex ?f ?n ?mt b rs (lit ''0-0,2-3'') len = (rs1, len1, True)"
    if rs: "length rs \<le> 90" for rs len
  proof -
    obtain rs1 len1 where 1: "length rs1 = length rs + 3"
      "http_range_complex ?f ?n ?mt b rs (lit ''0-0,2-3'') len = http_range_complex ?f ?n ?mt b rs1 (lit ''2-3'') len1"
      using complex_step [OF _ c1, of rs ?f ?n ?mt b len] ex_accepted(1) rs by auto
    obtain rs2 len2 where "length rs2 = length rs1 + 3" "http_range_complex ?f ?n ?mt b rs1 (lit ''2-3'') len1 = (rs2, len2, True)"
      using complex_step [OF _ c2, of rs1 ?f ?n ?mt b len1] ex_accepted(2) rs 1(1) by auto
    with 1 show ?thesis by auto
  qed
  obtain rs3 len where r: "length rs3 = 8" "http_range_complex ?f ?n ?mt b [mem [], mem []] (lit ''0-0,2-3'') 0 = (rs3, len, True)"
    using two [of "[mem [], mem []]" 0] by auto
  obtain d where d: "str_GMTtime 32 1 = Some d" using str_GMTtime_ok [of 1] by (auto simp: date_ok_def)
  show ?thesis using r d b
    by (simp add: answer_multi_def resp_put_cases Let_def case_prod_unfold http_206_complex_def del: lit_Cons length_lit)
qed

theorem multipart_length_witness:
  "\<exists>rs' g' d len body. answer_multi 1 ex_rng [] (lit ''/w/a.txt'') (length (lit ''hello'')) epoch (lit ''text/plain'') [] (lit ''0-0,2-3'') = Some (rs', g', True) \<and>
    rs' = [] @ mem (head_multi d len (fst (http_random 12 ex_rng)) epoch []) # body \<and>
    queue_ok ex_fs body \<and> 2 \<le> length (queued ex_fs body) \<and> len = (length (queued ex_fs body) - 2) mod 2 ^ 64"
proof -
  obtain rs' g' where a: "answer_multi 1 ex_rng [] (lit ''/w/a.txt'') (length (lit ''hello'')) epoch (lit ''text/plain'') [] (lit ''0-0,2-3'') = Some (rs', g', True)"
    using ex_multi by blast
  have "\<exists>d len body. rs' = [] @ mem (head_multi d len (fst (http_random 12 ex_rng)) epoch []) # body \<and>
    queue_ok ex_fs body \<and> 2 \<le> length (queued ex_fs body) \<and> len = (length (queued ex_fs body) - 2) mod 2 ^ 64"
    by (rule multipart_length [OF _ _ _ _ _ _ _ _ a]) (simp_all add: date_ok_def ex_fs_def OFF_MAX_def epoch_def)
  with a show ?thesis by blast
qed

text \<open>
  Paths survive their encoding.  \<open>http_urlDecode\<close> gives back every path that was encoded with the percent notation and
  fits the destination, whatever bytes it consists of.
\<close>

theorem url_roundtrip:
  assumes "s \<noteq> []" and "length s \<le> dstlen"
  shows "http_urlDecode (url_encode s) dstlen = Some s"
proof -
  have "url_encode s \<noteq> []" "0 < dstlen" using assms by (cases s; simp add: url_encode_def)+
  then show ?thesis using assms urlDecode_encode [OF assms(2), of 0] by (simp add: http_urlDecode_def)
qed

theorem url_roundtrip_witness: "http_urlDecode (url_encode [47, 32, 200]) 10 = Some [47, 32, 200]"
  by (rule url_roundtrip) simp_all

end
