(* ===== verification/Web.thy ===== *)
theory Web
  imports Http_Inv
begin

text \<open>
  The web server as a whole: its states under any order of connections, received data and hangups, and what a client
  gets.  The kernel reports an event of a connection only for what it is armed for; \<open>event_ok\<close> says so, that \<open>accept\<close>
  and \<open>setsockopt\<close> succeed, and that the peer takes the whole answer sooner or later or breaks the connection.
\<close>

definition takes_all :: "FS \<Rightarrow> SOCK \<Rightarrow> TCP_NODE \<Rightarrow> bool" where
  "takes_all fs s n \<longleftrightarrow> work fs (response n) \<le> progress (results s) \<or> Broken \<in> set (results s)"

definition answer_taken :: "SITE \<Rightarrow> time_t \<Rightarrow> SERVER \<Rightarrow> SOCK \<Rightarrow> TCP_NODE \<Rightarrow> bytes \<Rightarrow> bool" where
  "answer_taken w now v s n buffer =
     (case node_appendBuffer n buffer of None \<Rightarrow> True
      | Some n1 \<Rightarrow> (case http_buf w now (s_mime v) (s_rng v) n1 of None \<Rightarrow> True
          | Some (n2, _, _) \<Rightarrow> takes_all (site_fs w) s n2))"

definition event_ok :: "SITE \<Rightarrow> time_t \<Rightarrow> SERVER \<Rightarrow> epoll \<Rightarrow> bool" where
  "event_ok w now v ev =
     (case ev of
        Connect as \<Rightarrow> AcceptFailed \<notin> set as
      | Readable p res s \<Rightarrow>
          (case conns v p of None \<Rightarrow> False
           | Some c \<Rightarrow> armed c = Some TCP_INPUT \<and> cork_ok s \<and>
               (case res of Received buffer \<Rightarrow> answer_taken w now v s (c_node c) buffer | _ \<Rightarrow> True))
      | Writable p s \<Rightarrow>
          (case conns v p of None \<Rightarrow> False | Some c \<Rightarrow> armed c = Some TCP_OUTPUT)
      | Hangup p \<Rightarrow>
          (case conns v p of None \<Rightarrow> False | Some c \<Rightarrow> armed c \<noteq> None))"

inductive web_reached :: "SITE \<Rightarrow> SERVER \<Rightarrow> bool" for w where
  web_start: "mime_load mime_init = Some mime \<Longrightarrow> web_reached w (tcp_start (mime_hash mime) g)"
| web_event: "web_reached w v \<Longrightarrow> date_ok now \<Longrightarrow> event_ok w now v ev \<Longrightarrow> tcp_worker w now v ev = Some v' \<Longrightarrow> web_reached w v'"

section \<open>The invariant\<close>

text \<open>Between two events a connection waits for input with an empty queue and room in its buffer.\<close>

definition conn_ok :: "CONN \<Rightarrow> bool" where
  "conn_ok c \<longleftrightarrow> armed c = Some TCP_INPUT \<and> pipeline (c_node c) = NODE_READY \<and> response (c_node c) = [] \<and>
     length (recv_buf (c_node c)) < BUF_OFF1"

definition server_ok :: "SERVER \<Rightarrow> bool" where
  "server_ok v \<longleftrightarrow> mime_ok (s_mime v) \<and> (\<forall>p c. conns v p = Some c \<longrightarrow> conn_ok c)"

lemma server_okI:
  "mime_ok (s_mime v) \<Longrightarrow> (\<And>p c. conns v p = Some c \<Longrightarrow> conn_ok c) \<Longrightarrow> server_ok v"
  by (simp add: server_ok_def)

lemma server_okD: "server_ok v \<Longrightarrow> conns v p = Some c \<Longrightarrow> conn_ok c"
  by (simp add: server_ok_def)

lemma tcp_newconn_ok:
  "server_ok v \<Longrightarrow> AcceptFailed \<notin> set as \<Longrightarrow> \<exists>v'. tcp_newconn v as = Some v' \<and> server_ok v'"
proof (induction v as rule: tcp_newconn.induct)
  case (3 v as)
  then show ?case by (simp add: server_ok_def conn_ok_def node_put_def)
qed simp_all

text \<open>After its handler a connection is closed or ready for the next request: no other state is left for \<open>tcp_gate\<close>.\<close>

definition node_done :: "TCP_NODE \<Rightarrow> bool" where
  "node_done n \<longleftrightarrow> pipeline n = NODE_SHUTDOWN \<or>
     pipeline n = NODE_READY \<and> response n = [] \<and> length (recv_buf n) < BUF_OFF1"

lemma gate_ok:
  assumes "server_ok v" and "node_done n" and "mime_ok mime"
  shows "\<exists>v'. tcp_gate (put_node (v\<lparr>s_mime := mime, s_rng := g\<rparr>) p n) p = Some v' \<and> server_ok v'"
  using assms(2) unfolding node_done_def
proof (elim disjE conjE)
  assume "pipeline n = NODE_SHUTDOWN"
  then show ?thesis using assms(1,3) by (simp add: tcp_gate_def put_node_def node_shutdown_def server_ok_def)
next
  assume "pipeline n = NODE_READY" "response n = []" "length (recv_buf n) < BUF_OFF1"
  then show ?thesis using assms(1,3) by (simp add: tcp_gate_def put_node_def tcp_rearm_def server_ok_def conn_ok_def)
qed

lemma http_send_done:
  assumes "pipeline n = NODE_SHUTDOWN \<or> pipeline n = NODE_READY \<and> queue_ok fs (response n)"
    and "length (recv_buf n) < BUF_OFF1" and "cork_ok s" and "takes_all fs s n"
  shows "\<exists>n'. http_send fs s n = Some n' \<and> node_done n'"
proof (cases "pipeline n = NODE_SHUTDOWN")
  case True
  then show ?thesis by (simp add: http_send_def node_done_def)
next
  case False
  let ?n = "node_status n NODE_SEND_INIT"
  have n: "queue_ok fs (response ?n)" "pipeline ?n = NODE_SEND_INIT" "recv_buf ?n = recv_buf n"
    using assms(1) False by (simp_all add: node_status_def)
  obtain n' where n': "send_tcp fs s ?n = Some n'"
    using send_tcp_returns [OF n(1,2) assms(3)] assms(4) by (auto simp: takes_all_def node_status_def)
  from send_tcp_spec [OF n(1,2) n'] have "node_done n'"
    using assms(2) n(3) by (auto simp: node_done_def next_state_def sends_def split: if_splits)
  with n' False show ?thesis by (simp add: http_send_def)
qed

lemma tcp_buffer_ok:
  assumes "site_ok w" and "date_ok now" and "mime_ok (s_mime v)" and "conn_ok c" and "cork_ok s"
    and "answer_taken w now v s (c_node c) buffer"
  shows "\<exists>n mime g. tcp_buffer w now (s_mime v) (s_rng v) s (c_node c) buffer = Some (n, mime, g) \<and> node_done n \<and> mime_ok mime"
proof -
  obtain b where b: "node_appendBuffer (c_node c) buffer = Some (c_node c\<lparr>recv_buf := b\<rparr>)" "length b \<le> BUF_OFF1"
    using node_appendBuffer_ok [of "c_node c" buffer] assms(4) by (auto simp: conn_ok_def)
  let ?n = "c_node c\<lparr>recv_buf := b\<rparr>"
  have ready: "pipeline ?n = NODE_READY" using assms(4) by (simp add: conn_ok_def)
  show ?thesis
  proof (cases "length b \<ge> BUF_OFF1")
    case True
    then show ?thesis using b ready assms(3) by (simp add: tcp_buffer_def node_done_def node_status_def)
  next
    case False
    have "\<exists>n' mime' g'. http_buf w now (s_mime v) (s_rng v) ?n = Some (n', mime', g') \<and> mime_ok mime' \<and> sent n' = sent ?n \<and>
      length (recv_buf n') \<le> length (recv_buf ?n) \<and>
      (pipeline n' = NODE_SHUTDOWN \<or> pipeline n' = NODE_READY \<and> resp_inv (site_fs w) (response n'))"
      by (rule http_buf_ok [OF assms(1-3)]) (use assms(4) False in \<open>simp_all add: conn_ok_def resp_inv_def\<close>)
    then obtain n2 mime2 g2 where r: "http_buf w now (s_mime v) (s_rng v) ?n = Some (n2, mime2, g2)" "mime_ok mime2"
      "length (recv_buf n2) \<le> length b"
      "pipeline n2 = NODE_SHUTDOWN \<or> pipeline n2 = NODE_READY \<and> resp_inv (site_fs w) (response n2)"
      by auto
    have "\<exists>n'. http_send (site_fs w) s n2 = Some n' \<and> node_done n'"
      by (rule http_send_done) (use assms(5,6) b r False in \<open>auto simp: resp_inv_def answer_taken_def\<close>)
    then show ?thesis using b ready r False by (auto simp: tcp_buffer_def)
  qed
qed

lemma tcp_input_ok:
  assumes "site_ok w" and "date_ok now" and "mime_ok (s_mime v)" and "conn_ok c" and "cork_ok s"
    and "\<And>buffer. res = Received buffer \<Longrightarrow> answer_taken w now v s (c_node c) buffer"
  shows "\<exists>n mime g. tcp_input w now (s_mime v) (s_rng v) s (c_node c) res = Some (n, mime, g) \<and> node_done n \<and> mime_ok mime"
proof (cases res)
  case (Received buffer)
  then show ?thesis using tcp_buffer_ok [OF assms(1-5)] assms(6) by (simp add: tcp_input_def)
qed (use assms(3,4) in \<open>simp_all add: tcp_input_def node_done_def node_status_def conn_ok_def\<close>)

lemma tcp_worker_ok:
  assumes "site_ok w" and "date_ok now" and "server_ok v" and "event_ok w now v ev"
  shows "\<exists>v'. tcp_worker w now v ev = Some v' \<and> server_ok v'"
proof (cases ev)
  case (Connect as)
  then show ?thesis using tcp_newconn_ok assms(3,4) by (simp add: tcp_worker_def event_ok_def)
next
  case (Readable p res s)
  then obtain c where c: "conns v p = Some c" "cork_ok s"
    and res: "case res of Received buffer \<Rightarrow> answer_taken w now v s (c_node c) buffer | _ \<Rightarrow> True"
    using assms(4) by (auto simp: event_ok_def split: option.splits)
  have taken: "\<And>buffer. res = Received buffer \<Longrightarrow> answer_taken w now v s (c_node c) buffer" using res by simp
  have m: "mime_ok (s_mime v)" using assms(3) by (simp add: server_ok_def)
  obtain n mime g where r: "tcp_input w now (s_mime v) (s_rng v) s (c_node c) res = Some (n, mime, g)" "node_done n" "mime_ok mime"
    using tcp_input_ok [OF assms(1,2) m server_okD [OF assms(3) c(1)] c(2) taken] by blast
  with gate_ok [OF assms(3) r(2,3)] Readable c show ?thesis by (simp add: tcp_worker_def)
next
  case (Writable p s)
  then obtain c where "conns v p = Some c" "armed c = Some TCP_OUTPUT"
    using assms(4) by (auto simp: event_ok_def split: option.splits)
  with server_okD [OF assms(3)] show ?thesis by (force simp: conn_ok_def)
next
  case (Hangup p)
  then obtain c where c: "conns v p = Some c" using assms(4) by (auto simp: event_ok_def split: option.splits)
  have "node_done (c_node c)" "mime_ok (s_mime v)"
    using server_okD [OF assms(3) c] assms(3) by (simp_all add: conn_ok_def node_done_def server_ok_def)
  from gate_ok [OF assms(3) this, of "s_rng v" p] Hangup c show ?thesis by (simp add: tcp_worker_def)
qed

lemma web_reached_ok: "web_reached w v \<Longrightarrow> site_ok w \<Longrightarrow> server_ok v"
proof (induction rule: web_reached.induct)
  case (web_start mime g)
  then show ?case using mime_start_ok by (auto simp: server_ok_def tcp_start_def)
next
  case (web_event v now ev v')
  then show ?case using tcp_worker_ok [of w now v ev] by auto
qed

section \<open>A complete request\<close>

text \<open>A request without options, and with the line that keeps the connection open.\<close>

definition get_request :: "bytes \<Rightarrow> bool \<Rightarrow> bytes" where
  "get_request url alive =
     lit ''GET '' @ url @ lit '' HTTP/1.1'' @ CRLF @ (if alive then lit ''Connection: keep-alive'' @ CRLF else []) @ CRLF"

definition url_ok :: "bytes \<Rightarrow> bool" where
  "url_ok url \<longleftrightarrow> {0, 10, 13, chr CHR '' '', chr CHR ''?''} \<inter> set url = {} \<and> length url \<le> 900"

lemma strstr_skip: "search \<noteq> [] \<Longrightarrow> hd search \<notin> set a \<Longrightarrow> strstr (a @ p) search = strstr p search"
  by (induction a) (auto simp: neq_Nil_conv)

lemma next_request_get:
  assumes "url_ok url"
  shows "next_request (get_request url alive) =
    Some (lit ''GET '' @ url @ lit '' HTTP/1.1'' @ CRLF @ (if alive then lit ''Connection: keep-alive'' @ CRLF else []), [])"
proof -
  let ?a = "lit ''GET '' @ url @ lit '' HTTP/1.1''"
  have no: "hd (CRLF @ CRLF) \<notin> set ?a" "0 \<notin> set ?a" using assms by (auto simp: url_ok_def CRLF_def chr_def)
  let ?h = "lit ''Connection: keep-alive''"
  have h: "13 \<notin> set ?h" "0 \<notin> set ?h" by (simp_all add: chr_def)
  have zero: "0 \<notin> set (get_request url alive)" using no(2) h(2) by (simp add: get_request_def CRLF_def)
  have cut: "cut_str (CRLF @ CRLF) (get_request url alive) =
      Some (?a @ (if alive then CRLF @ ?h else []), [])"
  proof (cases alive)
    case False
    then show ?thesis using cut_str_first [OF _ no(1), of "[]"] by (simp add: get_request_def CRLF_def)
  next
    case True
    have "strstr (?a @ CRLF @ ?h @ CRLF @ CRLF) (CRLF @ CRLF) = strstr (CRLF @ ?h @ CRLF @ CRLF) (CRLF @ CRLF)"
      by (rule strstr_skip [OF _ no(1)]) (simp add: CRLF_def)
    also have "\<dots> = strstr (?h @ CRLF @ CRLF) (CRLF @ CRLF)" by (simp add: CRLF_def chr_def)
    also have "\<dots> = Some (CRLF @ CRLF)"
      using strstr_first [of "CRLF @ CRLF" ?h "[]"] h(1) by (simp add: CRLF_def)
    finally show ?thesis using True by (simp add: cut_str_def get_request_def del: lit_Cons)
  qed
  show ?thesis unfolding next_request_def cstr_no_zero [OF zero] cut
    by (simp add: get_request_def del: lit_Cons)
qed

lemma http_split_get:
  assumes "url_ok url"
  shows "http_split (lit ''GET '' @ url @ lit '' HTTP/1.1'' @ CRLF @ head) = Some (lit ''GET'', url, lit ''HTTP/1.1'', head)"
proof -
  have req: "lit ''GET '' @ url @ lit '' HTTP/1.1'' @ CRLF @ head =
      lit ''GET'' @ chr CHR '' '' # url @ chr CHR '' '' # lit ''HTTP/1.1'' @ CRLF @ head" by simp
  have 1: "cut_at (chr CHR '' '') (lit ''GET'' @ chr CHR '' '' # r) = Some (lit ''GET'', r)" for r
    by (rule cut_at_split) (simp add: chr_def)
  have 2: "cut_at (chr CHR '' '') (url @ chr CHR '' '' # r) = Some (url, r)" for r
    by (rule cut_at_split) (use assms in \<open>simp add: url_ok_def\<close>)
  have 3: "cut_str CRLF (lit ''HTTP/1.1'' @ CRLF @ head) = Some (lit ''HTTP/1.1'', head)"
    by (rule cut_str_first) (simp_all add: CRLF_def chr_def)
  have 4: "cut_at (chr CHR ''?'') url = None" using assms by (simp add: cut_at_None url_ok_def)
  show ?thesis unfolding req http_split_def 1 by (simp add: 2 3 4 del: lit_Cons)
qed

definition alive_line :: bytes where
  "alive_line = lit ''Connection: keep-alive'' @ CRLF"

definition alive_head :: "bool \<Rightarrow> bytes HASH option" where
  "alive_head alive =
     (if alive then Some (fst (hash_put (hash_init 1) (lit ''Connection'') (Some (lit ''keep-alive'')))) else None)"

lemma cut_str_nil: "search \<noteq> [] \<Longrightarrow> cut_str search [] = None"
  by (simp add: cut_str_def)

lemma cut_alive_line: "cut_str CRLF alive_line = Some (lit ''Connection: keep-alive'', [])"
  using cut_str_first [of CRLF "lit ''Connection: keep-alive''" "[]"] by (simp add: alive_line_def CRLF_def chr_def)

lemma header_line_alive:
  "header_line h (lit ''Connection: keep-alive'') = Some (fst (hash_put h (lit ''Connection'') (Some (lit ''keep-alive''))))"
proof -
  have line: "lit ''Connection: keep-alive'' = lit ''Connection'' @ chr CHR '':'' # lit '' keep-alive''" by simp
  have "cut_at (chr CHR '':'') (lit ''Connection: keep-alive'') = Some (lit ''Connection'', lit '' keep-alive'')"
    unfolding line by (rule cut_at_split) (simp add: chr_def)
  moreover have "dropWhile (\<lambda>c. c = chr CHR '' '') (lit '' keep-alive'') = lit ''keep-alive''" by (simp add: chr_def)
  ultimately show ?thesis by (simp add: header_line_def del: lit_Cons)
qed

lemma count_alive_line: "str_count alive_line CRLF = Some 1"
proof -
  have "strstr alive_line CRLF = Some CRLF"
    using strstr_first [of CRLF "lit ''Connection: keep-alive''" "[]"] by (simp add: alive_line_def CRLF_def chr_def)
  then show ?thesis unfolding str_count_def
    by (subst count_loop.simps) (simp add: count_loop.simps CRLF_def)
qed

lemma hashHeader_alive: "http_hashHeader (if alive then alive_line else []) = Some (alive_head alive)"
proof (cases alive)
  case True
  have crlf: "CRLF \<noteq> []" by (simp add: CRLF_def)
  have "header_loop (hash_init 1) alive_line = alive_head True"
    by (simp add: header_loop.simps [of _ alive_line] cut_alive_line header_line_alive header_loop.simps [of _ "[]"]
        cut_str_nil crlf alive_head_def del: lit_Cons)
  with True show ?thesis by (simp add: http_hashHeader_def count_alive_line)
next
  case False
  then show ?thesis by (simp add: http_hashHeader_def str_count_def count_loop.simps CRLF_def alive_head_def)
qed

lemma alive_head_get:
  "header_get (alive_head alive) name = (if alive \<and> name = ''Connection'' then Some (lit ''keep-alive'') else None)"
proof (cases alive)
  case True
  let ?h = "hash_init 1 :: bytes HASH" and ?k = "lit ''Connection''" and ?v = "lit ''keep-alive''"
  have ok: "hash_ok ?h" by (simp add: hash_ok_init)
  have dom: "dom (hash_get ?h) = {}" by (auto simp: hash_get_init)
  have "snd (hash_put ?h ?k (Some ?v))" by (rule hm1000.hput_room [OF ok]) (unfold dom, simp)
  from hm1000.hget_put [OF ok this] have "hash_get (fst (hash_put ?h ?k (Some ?v))) = (hash_get ?h)(?k \<mapsto> ?v)" .
  then show ?thesis using True by (simp add: header_get_def alive_head_def hash_get_init lit_inj del: lit_Cons One_nat_def)
qed (simp add: header_get_def alive_head_def)

lemma keepalive_alive:
  "http_keepalive (alive_head alive) = (if alive then (HTTP_KEEPALIVE, alive_line) else (HTTP_UNDEF, []))"
  by (simp add: http_keepalive_def alive_head_get alive_line_def strcasecmp_eq_def del: lit_Cons)

text \<open>Serving a whole file.\<close>

definition whole_file :: "bytes \<Rightarrow> bytes \<Rightarrow> nat \<Rightarrow> RESPONSE list" where
  "whole_file head f n = (if n = 0 then [mem head] else [mem head, R_FILE f 0 (n - 1)])"

lemma http_file_whole:
  assumes "served (site_fs w) f (http_size_simple w f)" and "str_GMTtime 32 now = Some d" and "length d \<le> 31"
    and "str_gmttime 32 (file_mod (site_fs w) f) = Some lm" and "length lm \<le> 31"
    and "mime_find (site_fs w) (magic w) mime f = Some (mime1, Some mt)" and "length mt \<le> 50"
    and "response n = []" and "length keep \<le> 24"
    and "header_get head ''If-Modified-Since'' = None" and "header_get head ''Range'' = None"
  shows "http_file w now mime g n f keep head =
    Some (n\<lparr>response := whole_file (head_200 d (http_size_simple w f) mt lm keep) f (http_size_simple w f)\<rparr>, mime1, g)"
proof -
  have f: "http_size_simple w f \<le> OFF_MAX" "length f \<le> 1023" using assms(1) by (simp_all add: served_def)
  note exact = http_200_exact [OF assms(2,3) _ assms(5,7,9) f(1)] http_body_exact [OF _ f(2)]
  show ?thesis using assms(4,6,8,10,11)
    by (simp add: http_file_def Let_def http_resource_modified_def http_range_detected_def exact whole_file_def)
qed

lemma whole_file_sent:
  assumes "file_data fs f = Some bs" and "length head \<le> 1023" and "length f \<le> 1023"
  shows "queued fs (whole_file head f (length bs)) = head @ bs" and "queue_ok fs (whole_file head f (length bs))"
    and "work fs (whole_file head f (length bs)) \<le> length head + length bs + 2"
  using assms by (auto simp: whole_file_def)

lemma http_send_whole:
  assumes "pipeline n = NODE_READY" and "queue_ok fs (response n)" and "cork_ok s" and "Broken \<notin> set (results s)"
    and "work fs (response n) \<le> progress (results s)"
  shows "\<exists>n'. http_send fs s n = Some n' \<and> sent n' = sent n @ queued fs (response n) \<and> response n' = [] \<and>
    recv_buf n' = recv_buf n \<and> pipeline n' = next_state n"
proof -
  let ?n = "node_status n NODE_SEND_INIT"
  have n: "queue_ok fs (response ?n)" "pipeline ?n = NODE_SEND_INIT" using assms(2) by (simp_all add: node_status_def)
  obtain n' where n': "send_tcp fs s ?n = Some n'"
    using send_tcp_returns [OF n assms(3)] assms(5) by (auto simp: node_status_def)
  from send_tcp_spec [OF n n'] n' assms(1,4) show ?thesis
    by (auto simp: http_send_def sends_def total_def next_state_def node_status_def)
qed

lemma http_buf_get:
  assumes "url_ok url" and "http_resource w url = Some (Some resource)" and "http_filename w resource = Some f"
    and "n = n0\<lparr>recv_buf := get_request url alive\<rparr>"
    and "http_file w now mime g (n0\<lparr>recv_buf := [], keepalive := (if alive then HTTP_KEEPALIVE else HTTP_UNDEF)\<rparr>) f
      (if alive then alive_line else []) (alive_head alive) = Some (n1, mime1, g1)"
  shows "http_buf w now mime g n = Some (n1, mime1, g1)"
proof -
  have len: "14 < length (get_request url alive)" "length (get_request url alive) < BUF_SIZE"
    using assms(1) by (auto simp: get_request_def url_ok_def)
  have one: "http_read_one w now mime g (n0\<lparr>recv_buf := []\<rparr>)
      (lit ''GET '' @ url @ lit '' HTTP/1.1'' @ CRLF @ (if alive then alive_line else [])) = Some (n1, mime1, g1)"
    unfolding http_read_one_def http_split_get [OF assms(1)] using assms(2,3,5) hashHeader_alive [of alive]
    by (cases alive) (simp_all add: http_answer_def http_proto_def http_action_def strncmp_eq_def keepalive_alive del: lit_Cons)
  have "recv_buf n1 = []" using http_file_recv [OF assms(5)] by simp
  then show ?thesis using len one next_request_get [OF assms(1), of alive, folded alive_line_def]
    by (subst http_buf.simps) (simp add: assms(4) del: lit_Cons)
qed

section \<open>An example\<close>

definition ex_site :: SITE where
  "ex_site = \<lparr>home = lit ''/w'', index_file = lit ''i'', site_fs = ex_fs, magic = (\<lambda>_. None), char_signed = True\<rparr>"

definition ex_sock :: "nat \<Rightarrow> SOCK" where
  "ex_sock k = \<lparr>cork_ok = True, results = replicate k (Sent 1)\<rparr>"

lemma ex_site_ok: "site_ok ex_site"
  by (auto simp: site_ok_def ex_site_def ex_fs_ok) (auto simp: ex_fs_def file_isreg_def file_mod_def date_ok_def split: if_splits)

lemma progress_replicate: "progress (replicate k (Sent (Suc 0))) = k"
  by (induction k) simp_all

lemma ex_filename: "http_filename ex_site (lit ''/a.txt'') = Some (lit ''/w/a.txt'')"
  by (simp add: http_filename_def Let_def ex_site_def ex_fs_def file_isreg_def snprintf_def)

lemma ex_resource: "http_resource ex_site (lit ''/a.txt'') = Some (Some (lit ''/a.txt''))"
proof -
  have "http_urlDecode (lit ''/a.txt'') BUF_SIZE = Some (lit ''/a.txt'')"
    using urlDecode_plain [of "lit ''/a.txt''" BUF_SIZE 0] by (simp add: http_urlDecode_def chr_def)
  then show ?thesis by (simp add: http_resource_def Let_def ex_site_def utf8_signed chr_def del: str_isValidUTF8.simps)
qed

lemma ex_data: "file_data (site_fs ex_site) (lit ''/w/a.txt'') = Some (lit ''hello'')"
  by (simp add: ex_site_def ex_fs_def)

section \<open>Properties\<close>

text \<open>
  C3: The web server never fails as long as its system calls succeed and its files can be read.  In every state the server can reach, by any order of new connections, received
  data, broken connections and hangups, the handler of the next event returns: no buffer is overrun, none of the calls of
  \<open>fail\<close> is reached.  This holds for events as in \<open>event_ok\<close> (no \<open>accept\<close> fails but with EAGAIN, the cork option can be set, epoll reports only what a connection is armed for, and the peer takes the whole answer sooner or later or
  breaks the connection) and for directories as in \<open>site_ok\<close> (every regular file can be read, has the size \<open>lstat\<close> reports and a date before the year 10000); a file that cannot be read, or another error of \<open>accept\<close>, does end the server.  Afterwards every connection waits for input with an empty queue; the server never waits for
  a connection to become writable.
\<close>

theorem web_safe:
  assumes "site_ok w" and "web_reached w v" and "date_ok now" and "event_ok w now v ev"
  shows "\<exists>v'. tcp_worker w now v ev = Some v' \<and>
    (\<forall>p c. conns v' p = Some c \<longrightarrow> armed c = Some TCP_INPUT \<and> pipeline (c_node c) = NODE_READY \<and>
       response (c_node c) = [] \<and> length (recv_buf (c_node c)) < BUF_OFF1)"
  using tcp_worker_ok [OF assms(1,3) web_reached_ok [OF assms(2,1)] assms(4)]
  by (auto simp: server_ok_def conn_ok_def)

theorem web_safe_witness:
  "\<exists>v'. tcp_worker ex_site 1 (tcp_start (mime_hash (the (mime_load mime_init))) ex_rng) (Connect [Accepted, Accepted]) = Some v' \<and>
    (\<forall>p c. conns v' p = Some c \<longrightarrow> armed c = Some TCP_INPUT \<and> pipeline (c_node c) = NODE_READY \<and>
       response (c_node c) = [] \<and> length (recv_buf (c_node c)) < BUF_OFF1)"
proof (rule web_safe [OF ex_site_ok])
  show "web_reached ex_site (tcp_start (mime_hash (the (mime_load mime_init))) ex_rng)"
    using mime_start_ok by (auto intro: web_start)
qed (simp_all add: date_ok_def event_ok_def)

text \<open>
  C8: A request for a file is answered with the file.  When the bytes of a GET request arrive on an idle connection, the
  server sends exactly the head with the size, type and date of the file, and then the contents of the file; the connection is
  ready for the next request if the client asked to keep it alive and is closed otherwise.  This holds however the kernel splits what
  it takes.
\<close>

theorem http_get_exact:
  assumes "site_ok w" and "date_ok now" and "mime_ok mime" and "url_ok url"
    and "http_resource w url = Some (Some resource)" and "http_filename w resource = Some f"
    and "file_data (site_fs w) f = Some bs"
    and "pipeline n = NODE_READY" and "recv_buf n = []" and "response n = []"
    and "cork_ok s" and "Broken \<notin> set (results s)" and "1025 + length bs \<le> progress (results s)"
  shows "\<exists>d lm mt n' mime' g'. tcp_buffer w now mime g s n (get_request url alive) = Some (n', mime', g') \<and>
    str_GMTtime DATE_SIZE now = Some d \<and> str_gmttime DATE_SIZE (file_mod (site_fs w) f) = Some lm \<and>
    mime_find (site_fs w) (magic w) mime f = Some (mime', Some mt) \<and>
    sent n' = sent n @ head_200 d (length bs) mt lm (if alive then lit ''Connection: keep-alive'' @ CRLF else []) @ bs \<and>
    response n' = [] \<and> recv_buf n' = [] \<and> pipeline n' = (if alive then NODE_READY else NODE_SHUTDOWN)"
proof -
  obtain d where d: "str_GMTtime 32 now = Some d" "length d \<le> 31" using str_GMTtime_ok [OF assms(2)] by blast
  note sf = http_filename_served [OF assms(1,6)]
  obtain lm where lm: "str_gmttime 32 (file_mod (site_fs w) f) = Some lm" "length lm \<le> 31"
    using str_gmttime_ok sf by blast
  obtain mime1 mt where m: "mime_find (site_fs w) (magic w) mime f = Some (mime1, Some mt)" "length mt \<le> 50"
    using mime_find_ok [OF assms(3)] by blast
  have size: "http_size_simple w f = length bs" "length f \<le> 1023" "length bs \<le> OFF_MAX"
    using sf assms(7) by (auto simp: served_def)
  let ?keep = "if alive then alive_line else []" and ?k = "if alive then HTTP_KEEPALIVE else HTTP_UNDEF"
  let ?head = "head_200 d (length bs) mt lm ?keep"
  let ?n1 = "n\<lparr>recv_buf := [], keepalive := ?k, response := whole_file ?head f (length bs)\<rparr>"
  have keep: "length ?keep \<le> 24" by (simp add: alive_line_def)
  have head: "length ?head \<le> 1023" by (rule head_200_length [OF d(2) lm(2) m(2) keep size(3)])
  have ser: "served (site_fs w) f (http_size_simple w f)" using sf by simp
  have serve: "http_file w now mime g (n\<lparr>recv_buf := [], keepalive := ?k\<rparr>) f ?keep (alive_head alive) = Some (?n1, mime1, g)"
    by (subst http_file_whole [OF ser d lm m]) (use assms(10) keep in \<open>simp_all add: alive_head_get size\<close>)
  have buf: "http_buf w now mime g (n\<lparr>recv_buf := get_request url alive\<rparr>) = Some (?n1, mime1, g)"
    by (rule http_buf_get [OF assms(4,5,6) _ serve]) simp
  have len: "length (get_request url alive) < BUF_OFF1" "get_request url alive \<noteq> []"
    using assms(4) by (auto simp: get_request_def url_ok_def)
  have append: "node_appendBuffer n (get_request url alive) = Some (n\<lparr>recv_buf := get_request url alive\<rparr>)"
    using len assms(9) by (simp add: node_appendBuffer_def Let_def)
  note q = whole_file_sent [OF assms(7) head size(2)]
  have "\<exists>n'. http_send (site_fs w) s ?n1 = Some n' \<and> sent n' = sent ?n1 @ queued (site_fs w) (response ?n1) \<and> response n' = [] \<and>
      recv_buf n' = recv_buf ?n1 \<and> pipeline n' = next_state ?n1"
    by (rule http_send_whole) (use assms(8,11,12,13) q(2,3) head in simp_all)
  then obtain n' where n': "http_send (site_fs w) s ?n1 = Some n'" "sent n' = sent n @ ?head @ bs" "response n' = []"
      "recv_buf n' = []" "pipeline n' = (if alive then NODE_READY else NODE_SHUTDOWN)"
    by (auto simp: q(1) next_state_def)
  have "tcp_buffer w now mime g s n (get_request url alive) = Some (n', mime1, g)"
    using len assms(8) by (simp add: tcp_buffer_def append buf n'(1))
  with d(1) lm(1) m(1) n'(2-5) show ?thesis by (simp add: alive_line_def del: lit_Cons)
qed

theorem http_get_exact_witness:
  "\<exists>d lm mt n' mime' g'. tcp_buffer ex_site 1 (mime_hash (the (mime_load mime_init))) ex_rng (ex_sock 1030) node_put
     (get_request (lit ''/a.txt'') True) = Some (n', mime', g') \<and>
    str_GMTtime DATE_SIZE 1 = Some d \<and> str_gmttime DATE_SIZE (file_mod (site_fs ex_site) (lit ''/w/a.txt'')) = Some lm \<and>
    mime_find (site_fs ex_site) (magic ex_site) (mime_hash (the (mime_load mime_init))) (lit ''/w/a.txt'') = Some (mime', Some mt) \<and>
    sent n' = sent node_put @ head_200 d (length (lit ''hello'')) mt lm (if True then lit ''Connection: keep-alive'' @ CRLF else []) @ lit ''hello'' \<and>
    response n' = [] \<and> recv_buf n' = [] \<and> pipeline n' = (if True then NODE_READY else NODE_SHUTDOWN)"
proof (rule http_get_exact [OF ex_site_ok _ _ _ ex_resource ex_filename ex_data])
  show "mime_ok (mime_hash (the (mime_load mime_init)))" using mime_start_ok by auto
qed (simp_all add: date_ok_def url_ok_def chr_def node_put_def ex_sock_def progress_replicate)

text \<open>
  C34: A request that arrives in pieces is not answered.  When the first bytes of a request do not contain its end, the parser
  waits for the rest, but the connection is then sent an empty queue and closed, unless an earlier request asked to keep
  it alive.
\<close>

theorem partial_request_closed:
  assumes "pipeline n = NODE_READY" and "response n = []" and "keepalive n \<noteq> HTTP_KEEPALIVE" and "cork_ok s"
    and "length (recv_buf n @ buffer) < BUF_OFF1" and "next_request (recv_buf n @ buffer) = None"
  shows "\<exists>n'. tcp_buffer w now mime g s n buffer = Some (n', mime, g) \<and> pipeline n' = NODE_SHUTDOWN \<and> sent n' = sent n"
proof -
  let ?n = "n\<lparr>recv_buf := recv_buf n @ buffer\<rparr>"
  have append: "node_appendBuffer n buffer = Some ?n"
    using assms(5) by (auto simp: node_appendBuffer_def Let_def)
  have buf: "http_buf w now mime g ?n = Some (?n, mime, g)" using assms(5,6) by (subst http_buf.simps) simp
  have "\<exists>n'. send_data_loop (site_fs w) (?n\<lparr>pipeline := NODE_SEND_DATA\<rparr>) (results s) = Some (n'\<lparr>pipeline := NODE_SEND_STOP\<rparr>, results s) \<and> n' = ?n"
    using assms(2) by (simp add: send_data_loop.simps node_status_def)
  then have "http_send (site_fs w) s ?n = Some (?n\<lparr>pipeline := NODE_SHUTDOWN\<rparr>)"
    using assms(1,3,4)
    by (simp add: http_send_def send_tcp_def send_cork_start_def send_data_def send_cork_stop_def node_status_def split: keep.split)
  then show ?thesis using assms(1,5) by (simp add: tcp_buffer_def append buf)
qed

theorem partial_request_closed_witness:
  "\<exists>n'. tcp_buffer ex_site 1 mime_init ex_rng (ex_sock 0) node_put (lit ''GET /a.txt HTTP/1.1'' @ CRLF) = Some (n', mime_init, ex_rng) \<and>
    pipeline n' = NODE_SHUTDOWN \<and> sent n' = sent node_put"
  by (rule partial_request_closed)
     (simp_all add: node_put_def ex_sock_def next_request_def cstr_def cut_str_def CRLF_def chr_def)

text \<open>
  C40: What the check of paths excludes.  A path that is accepted begins with a slash and does not contain two dots and a
  slash; but the path of two dots alone is accepted, and the index file of the directory above the one that is served is
  delivered.
\<close>

theorem path_check:
  assumes "file_isdir (site_fs w) (home w @ lit ''/..'')" and "file_isreg (site_fs w) (home w @ lit ''/../'' @ index_file w)"
    and "length (home w @ lit ''/../'' @ index_file w) < BUF_SIZE"
  shows "(\<forall>url r. http_resource w url = Some (Some r) \<longrightarrow> r \<noteq> [] \<and> hd r = chr CHR ''/'' \<and> strstr r (lit ''../'') = None) \<and>
    http_resource w (lit ''/..'') = Some (Some (lit ''/..'')) \<and>
    http_filename w (lit ''/..'') = Some (home w @ lit ''/../'' @ index_file w)"
proof (intro conjI allI impI)
  fix url r
  assume "http_resource w url = Some (Some r)"
  then show "r \<noteq> []" "hd r = chr CHR ''/''" "strstr r (lit ''../'') = None"
    by (auto simp: http_resource_def Let_def simp del: lit_Cons split: option.splits if_splits)
next
  have "http_urlDecode (lit ''/..'') BUF_SIZE = Some (lit ''/..'')"
    using urlDecode_plain [of "lit ''/..''" BUF_SIZE 0] by (simp add: http_urlDecode_def chr_def)
  then show "http_resource w (lit ''/..'') = Some (Some (lit ''/..''))"
    by (simp add: http_resource_def Let_def chr_def utf8_n_def char_lt_0x80_def)
next
  have "\<not> file_isreg (site_fs w) (home w @ lit ''/..'')"
    using assms(1) by (auto simp: file_isdir_def file_isreg_def split: option.splits)
  moreover have path: "lit ''/..'' @ lit ''/'' @ x = lit ''/../'' @ x" for x by simp
  ultimately show "http_filename w (lit ''/..'') = Some (home w @ lit ''/../'' @ index_file w)"
    using assms by (simp add: http_filename_def Let_def snprintf_def path del: lit_Cons)
qed

theorem path_check_witness:
  "http_resource ex_site (lit ''/..'') = Some (Some (lit ''/..'')) \<and>
   http_filename ex_site (lit ''/..'') = Some (home ex_site @ lit ''/../'' @ index_file ex_site)"
  using path_check [of ex_site] by (simp add: ex_site_def ex_fs_def file_isdir_def file_isreg_def chr_def)

end
