(* ===== verification/Conf.thy ===== *)
theory Conf
  imports Daemon Web
begin

text \<open>
  The command lines: \<^verbatim>\<open>src/src/p2p/conf.c\<close> and \<^verbatim>\<open>src/src/web/conf.c\<close>.  \<open>fail\<close> and \<open>conf_usage\<close> end the program: \<open>None\<close>.
  The options are read with \<open>getopt\<close> of the C library, which moves operands behind the options.
\<close>

section \<open>Reading options\<close>

text \<open>
  \<open>f c\<close> says whether the option \<open>c\<close> exists and takes an argument.  \<open>getopt_arg\<close> reads the options of one word: the argument is the rest of the
  word, or the next word.  An unknown option and a missing argument are reported as a question mark.
\<close>

fun getopt_arg :: "(UCHAR \<Rightarrow> bool option) \<Rightarrow> bytes \<Rightarrow> bytes list \<Rightarrow> (UCHAR \<times> bytes) list \<times> bytes list" where
  "getopt_arg f [] rest = ([], rest)"
| "getopt_arg f (c # cs) rest =
     (case f c of
        None \<Rightarrow> (let (os, rest) = getopt_arg f cs rest in ((63, []) # os, rest))
      | Some False \<Rightarrow> (let (os, rest) = getopt_arg f cs rest in ((c, []) # os, rest))
      | Some True \<Rightarrow>
          if cs \<noteq> [] then ([(c, cs)], rest)
          else (case rest of [] \<Rightarrow> ([(63, [])], []) | a # rest \<Rightarrow> ([(c, a)], rest)))"

lemma getopt_arg_length: "getopt_arg f cs rest = (os, rest') \<Longrightarrow> length rest' \<le> length rest"
  by (induction cs arbitrary: os) (auto split: option.splits bool.splits prod.splits list.splits if_splits)

function getopt :: "(UCHAR \<Rightarrow> bool option) \<Rightarrow> bytes list \<Rightarrow> (UCHAR \<times> bytes) list \<times> bytes list" where
  "getopt f [] = ([], [])"
| "getopt f (a # rest) =
     (if a = [45, 45] then ([], rest)
      else if 1 < length a \<and> hd a = 45 then
        let (os, rest) = getopt_arg f (tl a) rest;
            (os', operands) = getopt f rest
        in (os @ os', operands)
      else let (os, operands) = getopt f rest in (os, a # operands))"
  by pat_completeness auto
termination
proof (relation "measure (\<lambda>(f, argv). length argv)", goal_cases)
  case (2 f a rest p os rest')
  then have "getopt_arg f (tl a) rest = (os, rest')" by simp
  from getopt_arg_length [OF this] show ?case by simp
qed simp_all

text \<open>The option string: a letter, and a colon behind those that take an argument.\<close>

fun optstring :: "bytes \<Rightarrow> UCHAR \<Rightarrow> bool option" where
  "optstring [] c = None"
| "optstring (x # s) c =
     (if x = c \<and> x \<noteq> 58 then Some (s \<noteq> [] \<and> hd s = 58) else optstring s c)"

section \<open>The daemon\<close>

record LOG =
  log_verbosely :: bool
  log_console :: bool

definition log_init :: LOG where
  "log_init = \<lparr>log_verbosely = True, log_console = True\<rparr>"

definition conf_defaults :: "WORLD \<Rightarrow> bytes \<Rightarrow> CONF" where
  "conf_defaults W node_id =
     \<lparr>c_realm = lit ''open.p2p'', c_bootstrap_node = BOOTSTRAP_MCAST (w_ver W), c_bootstrap_mode = BOOTSTRAP_LOCAL,
      c_bootstrap_lazy = [lit ''dht.transmissionbt.com'', lit ''router.bittorrent.com'', lit ''router.utorrent.com''],
      c_node_id = node_id, c_bool_realm = False, c_p2p_port = 6881, c_dns_port = 6853, c_announce_port = 8080,
      c_bootstrap_port = 6881, c_key = [], c_bool_encryption = False\<rparr>"

abbreviation (input) snprintf_s :: "bytes \<Rightarrow> bytes" where "snprintf_s s \<equiv> take (BUF_SIZE - 1) s"

text \<open>One turn of the loop over the options.\<close>

definition conf_option :: "WORLD \<Rightarrow> CONF \<times> LOG \<Rightarrow> UCHAR \<times> bytes \<Rightarrow> (CONF \<times> LOG) option" where
  "conf_option W = (\<lambda>(conf, log) (opt, optarg).
     if opt = chr (CHR ''a'') then Some (conf\<lparr>c_announce_port := nat (str_safe_port optarg)\<rparr>, log)
     else if opt = chr (CHR ''d'') then Some (conf, log\<lparr>log_console := False\<rparr>)
     else if opt = chr (CHR ''h'') then None
     else if opt = chr (CHR ''k'') then
       Some (if w_polarssl W then conf\<lparr>c_key := snprintf_s optarg, c_bool_encryption := True\<rparr> else conf, log)
     else if opt = chr (CHR ''l'') then Some (conf\<lparr>c_bootstrap_mode := BOOTSTRAP_LAZY\<rparr>, log)
     else if opt = chr (CHR ''n'') then Some (conf\<lparr>c_node_id := w_sha1 W optarg\<rparr>, log)
     else if opt = chr (CHR ''p'') then Some (conf\<lparr>c_p2p_port := nat (str_safe_port optarg)\<rparr>, log)
     else if opt = chr (CHR ''P'') then Some (conf\<lparr>c_dns_port := nat (str_safe_port optarg)\<rparr>, log)
     else if opt = chr (CHR ''q'') then Some (conf, log\<lparr>log_verbosely := False\<rparr>)
     else if opt = chr (CHR ''r'') then Some (conf\<lparr>c_realm := snprintf_s optarg, c_bool_realm := True\<rparr>, log)
     else if opt = chr (CHR ''x'') then Some (conf\<lparr>c_bootstrap_node := snprintf_s optarg, c_bootstrap_mode := BOOTSTRAP_HOST\<rparr>, log)
     else if opt = chr (CHR ''y'') then Some (conf\<lparr>c_bootstrap_port := nat (str_safe_port optarg)\<rparr>, log)
     else None)"

text \<open>A loop whose body may end the program.\<close>

fun each :: "('s \<Rightarrow> 'a \<Rightarrow> 's option) \<Rightarrow> 'a list \<Rightarrow> 's \<Rightarrow> 's option" where
  "each f [] s = Some s"
| "each f (x # xs) s = do { s \<leftarrow> f s x; each f xs s }"

definition conf_init :: "WORLD \<Rightarrow> int \<Rightarrow> bytes list \<Rightarrow> rng \<Rightarrow> (CONF \<times> ID list \<times> LOG \<times> rng) option" where
  "conf_init W cores argv g = do {
     let (node_id, g) = rand_urandom g SHA1_SIZE;
     let (opts, operands) = getopt (optstring (lit ''a:dhk:ln:p:P:qr:x:y:'')) argv;
     (conf, log) \<leftarrow> each (conf_option W) opts (conf_defaults W node_id, log_init);
     ids \<leftarrow> each (\<lambda>ids hostname. id_put W ids hostname (c_node_id conf) (c_realm conf) (c_bool_realm conf)) operands [];
     if ids = [] then None
     else if c_p2p_port conf = 0 then None
     else if c_dns_port conf = 0 then None
     else if c_dns_port conf = c_p2p_port conf then None
     else if c_bootstrap_port conf = 0 then None
     else if c_announce_port conf = 0 then None
     else if cores < 1 \<or> 128 < cores then None
     else Some (conf, ids, log, g)
   }"

section \<open>The web server\<close>

text \<open>The environment: \<open>HOME\<close>, \<open>PWD\<close> and whether the user is root.\<close>

record ENV =
  e_HOME :: "bytes option"
  e_PWD :: "bytes option"
  e_root :: bool

record WCONF =
  wc_home :: bytes
  wc_file :: bytes
  wc_port :: nat

definition conf_home_from_env :: "ENV \<Rightarrow> bytes" where
  "conf_home_from_env env =
     (case e_HOME env of
        Some h \<Rightarrow> if e_root env then lit ''/var/www'' else snprintf_s (h @ lit ''/Public'')
      | None \<Rightarrow> lit ''/var/www'')"

definition conf_home_from_arg :: "ENV \<Rightarrow> bytes \<Rightarrow> bytes" where
  "conf_home_from_arg env p =
     (if p \<noteq> [] \<and> hd p = 47 then snprintf_s p
      else case e_PWD env of Some w \<Rightarrow> snprintf_s (w @ 47 # p) | None \<Rightarrow> lit ''/var/www'')"

definition web_conf_option :: "WCONF \<times> LOG \<Rightarrow> UCHAR \<times> bytes \<Rightarrow> (WCONF \<times> LOG) option" where
  "web_conf_option = (\<lambda>(conf, log) (opt, optarg).
     if opt = chr (CHR ''d'') then Some (conf, log\<lparr>log_console := False\<rparr>)
     else if opt = chr (CHR ''h'') then None
     else if opt = chr (CHR ''i'') then Some (conf\<lparr>wc_file := snprintf_s optarg\<rparr>, log)
     else if opt = chr (CHR ''p'') then Some (conf\<lparr>wc_port := nat (str_safe_port optarg)\<rparr>, log)
     else if opt = chr (CHR ''q'') then Some (conf, log\<lparr>log_verbosely := False\<rparr>)
     else None)"

definition web_conf_init :: "ENV \<Rightarrow> FS \<Rightarrow> int \<Rightarrow> bytes list \<Rightarrow> (WCONF \<times> LOG) option" where
  "web_conf_init env fs cores argv = do {
     let conf = \<lparr>wc_home = conf_home_from_env env, wc_file = lit ''index.html'', wc_port = (if e_root env then 80 else 8080)\<rparr>;
     let (opts, operands) = getopt (optstring (lit ''dhi:p:q'')) argv;
     (conf, log) \<leftarrow> each web_conf_option opts (conf, log_init);
     let conf = fold (\<lambda>a conf. conf\<lparr>wc_home := conf_home_from_arg env a\<rparr>) operands conf;
     if wc_port conf = 0 then None
     else if cores < 1 \<or> 128 < cores then None
     else if \<not> file_isdir fs (wc_home conf) then None
     else if \<not> str_isValidFilename (wc_file conf) then None
     else Some (conf, log)
   }"

section \<open>What the program starts with\<close>

lemma each_inv:
  assumes "\<And>s x s'. I s \<Longrightarrow> f s x = Some s' \<Longrightarrow> I s'" and "each f xs s = Some s'" and "I s"
  shows "I s'"
  using assms(2,3) by (induction xs arbitrary: s) (auto simp: bind_eq_Some_conv' intro: assms(1))

text \<open>The host names and the operands.\<close>

lemma getopt_operands: "getopt f argv = (os, operands) \<Longrightarrow> length operands \<le> length argv"
proof (induction f argv arbitrary: os operands rule: getopt.induct)
  case (2 f a rest)
  show ?case
  proof (cases "a = [45, 45]")
    case F: False
    show ?thesis
    proof (cases "1 < length a \<and> hd a = 45")
      case True
      obtain os1 r where r: "getopt_arg f (tl a) rest = (os1, r)" by fastforce
      obtain os2 ops where o: "getopt f r = (os2, ops)" by fastforce
      have "length ops \<le> length r" using "2.IH"(1) [OF F True refl r [symmetric]] o by blast
      then show ?thesis using "2.prems" F True r o getopt_arg_length [OF r] by simp
    next
      case False
      obtain os2 ops where o: "getopt f rest = (os2, ops)" by fastforce
      have "length ops \<le> length rest" using "2.IH"(2) [OF F False] o by blast
      then show ?thesis using "2.prems" F False o by auto
    qed
  qed (use "2.prems" in auto)
qed simp

definition conf_inv :: "CONF \<Rightarrow> bool" where
  "conf_inv c \<longleftrightarrow> conf_ok c \<and> length (c_realm c) < BUF_SIZE \<and> length (c_bootstrap_node c) < BUF_SIZE \<and>
     c_p2p_port c \<le> 65535 \<and> c_dns_port c \<le> 65535 \<and> c_bootstrap_port c \<le> 65535 \<and> c_announce_port c \<le> 65535"

lemma port_le: "nat (str_safe_port s) \<le> 65535"
  using str_safe_port_range [of s] by linarith

lemma if_SomeE: "(if b then x else y) = Some z \<Longrightarrow> (x = Some z \<Longrightarrow> P) \<Longrightarrow> (y = Some z \<Longrightarrow> P) \<Longrightarrow> P"
  by (cases b) auto

lemma conf_inv_updates:
  assumes "conf_inv c" and "n \<le> 65535"
  shows "conf_inv (c\<lparr>c_announce_port := n\<rparr>)" "conf_inv (c\<lparr>c_p2p_port := n\<rparr>)" "conf_inv (c\<lparr>c_dns_port := n\<rparr>)" "conf_inv (c\<lparr>c_bootstrap_port := n\<rparr>)"
    "conf_inv (c\<lparr>c_key := s, c_bool_encryption := b\<rparr>)" "conf_inv (c\<lparr>c_bootstrap_mode := BOOTSTRAP_LAZY\<rparr>)"
    "length k = SHA1_SIZE \<Longrightarrow> conf_inv (c\<lparr>c_node_id := k\<rparr>)" "length s < BUF_SIZE \<Longrightarrow> conf_inv (c\<lparr>c_realm := s, c_bool_realm := b\<rparr>)"
    "length s < BUF_SIZE \<Longrightarrow> conf_inv (c\<lparr>c_bootstrap_node := s, c_bootstrap_mode := BOOTSTRAP_HOST\<rparr>)"
  using assms by (simp_all add: conf_inv_def conf_ok_def)

lemma conf_option_inv:
  assumes "sha1_law W" and "conf_inv conf" and "conf_option W (conf, log) (opt, optarg) = Some (conf', log')"
  shows "conf_inv conf'"
proof -
  have l: "length (w_sha1 W optarg) = SHA1_SIZE" "length (snprintf_s optarg) < BUF_SIZE" using assms(1) by (simp_all add: sha1_law_def)
  note u = conf_inv_updates [OF assms(2) port_le [of optarg]]
  have k: "conf_inv (if w_polarssl W then conf\<lparr>c_key := snprintf_s optarg, c_bool_encryption := True\<rparr> else conf)"
    using u(5) assms(2) by (cases "w_polarssl W") (simp_all only: if_True if_False)
  note r = k assms(2) u(1-6) u(7) [OF l(1)] u(8,9) [OF l(2)]
  from assms(3) show ?thesis unfolding conf_option_def prod.case
    by (elim if_SomeE) (simp_all only: option.inject prod.inject option.distinct, (drule conjunct1, erule subst, rule r)+)
qed

definition names_inv :: "WORLD \<Rightarrow> CONF \<Rightarrow> ID list \<Rightarrow> bool" where
  "names_inv W conf ids \<longleftrightarrow> (\<forall>i \<in> set ids. length (id_host_id i) = SHA1_SIZE \<and> id_host_id i \<noteq> c_node_id conf \<and>
     str_valid_hostname (id_hostname i) (length (id_hostname i)))"

lemma id_put_inv:
  assumes "sha1_law W" and "length (c_node_id conf) = SHA1_SIZE" and "names_inv W conf ids"
    and "id_put W ids hostname (c_node_id conf) realm b = Some ids'"
  shows "names_inv W conf ids'"
proof -
  let ?h = "\<lparr>id_hostname = take (BUF_SIZE - 1) hostname, id_host_id = id_hostid W hostname realm b, id_time_announce_host = 0\<rparr>"
  have l: "length (id_hostid W hostname realm b) = SHA1_SIZE" by (rule id_hostid_length [OF assms(1)])
  from assms(4) have v: "str_valid_hostname hostname (length hostname)" "memcmp (id_host_id ?h) (take SHA1_SIZE (c_node_id conf)) \<noteq> 0" "ids' = ids @ [?h]"
    by (auto simp: id_put_def Let_def split: if_splits)
  have "id_host_id ?h \<noteq> c_node_id conf" using v(2) l assms(2) by (auto simp: memcmp_eq_0_iff)
  moreover have "str_valid_hostname (id_hostname ?h) (length (id_hostname ?h))"
    using v(1) by (auto simp: str_valid_hostname_def list_all_iff dest: in_set_takeD)
  ultimately show ?thesis using assms(3) l v(3) by (simp add: names_inv_def)
qed

lemma each_length:
  assumes "\<And>s x s'. f s x = Some s' \<Longrightarrow> length s' = Suc (length s)" and "each f xs s = Some s'"
  shows "length s' = length s + length xs"
  using assms(2) by (induction xs arbitrary: s) (auto simp: bind_eq_Some_conv' dest: assms(1))

text \<open>What the checks of conf_init establish.\<close>

lemma conf_inits:
  assumes "sha1_law W" and "rng_ok g" and "conf_init W cores argv g = Some (conf, ids, log, g')"
  shows "conf_ok conf \<and> rng_ok g' \<and> (length argv \<le> ID_MAX \<longrightarrow> names_ok ids) \<and> ids \<noteq> [] \<and> names_inv W conf ids \<and>
    {c_p2p_port conf, c_dns_port conf, c_bootstrap_port conf, c_announce_port conf} \<subseteq> {1..65535} \<and> c_dns_port conf \<noteq> c_p2p_port conf \<and>
    length (c_realm conf) < BUF_SIZE \<and> length (c_bootstrap_node conf) < BUF_SIZE \<and> 1 \<le> cores \<and> cores \<le> 128"
proof -
  let ?put = "\<lambda>ids hostname. id_put W ids hostname (c_node_id conf) (c_realm conf) (c_bool_realm conf)"
  obtain opts operands where o: "getopt (optstring (lit ''a:dhk:ln:p:P:qr:x:y:'')) argv = (opts, operands)" by fastforce
  let ?d = "conf_defaults W (fst (rand_urandom g SHA1_SIZE))"
  from assms(3) have e: "each (conf_option W) opts (?d, log_init) = Some (conf, log)" "each ?put operands [] = Some ids"
    "g' = snd (rand_urandom g SHA1_SIZE)" and
    c: "ids \<noteq> []" "c_p2p_port conf \<noteq> 0" "c_dns_port conf \<noteq> 0" "c_dns_port conf \<noteq> c_p2p_port conf" "c_bootstrap_port conf \<noteq> 0"
      "c_announce_port conf \<noteq> 0" "1 \<le> cores" "cores \<le> 128"
    unfolding conf_init_def o by (auto simp: bind_eq_Some_conv' split: prod.splits if_splits)
  have "length (fst (rand_urandom g SHA1_SIZE)) = SHA1_SIZE" using assms(2) by (simp add: rng_ok_def rand_urandom_def)
  then have "conf_inv ?d" by (simp add: conf_inv_def conf_ok_def conf_defaults_def BOOTSTRAP_MCAST_def split: ipver.split)
  then have "conf_inv (fst (conf, log))"
    by (intro each_inv [where I = "\<lambda>s. conf_inv (fst s)", OF _ e(1)]) (auto dest: conf_option_inv [OF assms(1)])
  then have i: "conf_inv conf" by simp
  then have n: "length (c_node_id conf) = SHA1_SIZE" by (simp add: conf_inv_def conf_ok_def)
  have names: "names_inv W conf ids"
    by (rule each_inv [where I = "names_inv W conf", OF id_put_inv [OF assms(1) n] e(2)]) (simp_all add: names_inv_def)
  have "length ids' = Suc (length s)" if "?put s x = Some ids'" for s x ids' using that by (auto simp: id_put_def Let_def split: if_splits)
  from each_length [OF this e(2)] have "length ids = length operands" by simp
  then have "length argv \<le> ID_MAX \<longrightarrow> names_ok ids" using names getopt_operands [OF o] by (auto simp: names_ok_def names_inv_def)
  with i c names assms(2) e(3) show ?thesis by (auto simp: conf_inv_def)
qed

text \<open>
  C25: What the daemon starts with.  Whenever conf_init returns, whatever the command line is, the configuration is valid in the sense the rest of the program relies on: the node id has 20 bytes, the ports are
  between 1 and 65535 and those of the two sockets differ, strings fit their buffers, there is at least one host name, and every host name
  is made of valid characters and has an identifier of 20 bytes that is not the one of the node.
\<close>

theorem conf_valid:
  assumes "sha1_law W" and "rng_ok g" and "conf_init W cores argv g = Some (conf, ids, log, g')"
  shows "conf_ok conf \<and> rng_ok g' \<and> (length argv \<le> ID_MAX \<longrightarrow> names_ok ids) \<and> ids \<noteq> [] \<and> names_inv W conf ids \<and>
    {c_p2p_port conf, c_dns_port conf, c_bootstrap_port conf, c_announce_port conf} \<subseteq> {1..65535} \<and> c_dns_port conf \<noteq> c_p2p_port conf \<and>
    length (c_realm conf) < BUF_SIZE \<and> length (c_bootstrap_node conf) < BUF_SIZE \<and> 1 \<le> cores \<and> cores \<le> 128"
  by (rule conf_inits [OF assms])

text \<open>A world for the examples, with functions in place of the libraries.\<close>

definition ex_world :: WORLD where
  "ex_world = \<lparr>w_ver = IPV4, w_polarssl = False, w_sha1 = (\<lambda>x. take SHA1_SIZE (x @ replicate SHA1_SIZE 0)), w_sha2 = (\<lambda>x. replicate 32 0),
     w_setkey = (\<lambda>k. True), w_encrypt = (\<lambda>k iv x. Some x), w_decrypt = (\<lambda>k iv x. Some x), w_getaddrinfo = (\<lambda>n p. Some [ex_ip]),
     w_join = (\<lambda>t. True), w_verbose = False\<rparr>"

lemma ex_sha1: "sha1_law ex_world"
  by (auto simp: sha1_law_def ex_world_def min_def)

definition ex_argv :: "bytes list" where
  "ex_argv = [lit ''host.p2p'', lit ''-lq'', lit ''-rhome'']"

lemma ex_getopt: "getopt (optstring (lit ''a:dhk:ln:p:P:qr:x:y:'')) ex_argv =
    ([(chr (CHR ''l''), []), (chr (CHR ''q''), []), (chr (CHR ''r''), lit ''home'')], [lit ''host.p2p''])"
  by (simp add: ex_argv_def chr_def)

definition ex_home :: CONF where
  "ex_home = (conf_defaults ex_world (replicate 20 0))\<lparr>c_bootstrap_mode := BOOTSTRAP_LAZY, c_realm := lit ''home'', c_bool_realm := True\<rparr>"

lemma ex_conf_init: "\<exists>ids. ids \<noteq> [] \<and>
    conf_init ex_world 4 ex_argv ex_rng = Some (ex_home, ids, log_init\<lparr>log_verbosely := False\<rparr>, snd (rand_urandom ex_rng 20))"
proof -
  have "str_valid_hostname (lit ''host.p2p'') (length (lit ''host.p2p''))" by (simp add: str_valid_hostname_def host_char_def chr_def)
  moreover have "id_hostid ex_world (lit ''host.p2p'') (lit ''home'') True ! 2 \<noteq> replicate 20 0 ! 2"
    by (simp add: id_hostid_def ex_world_def chr_def)
  then have "id_hostid ex_world (lit ''host.p2p'') (lit ''home'') True \<noteq> replicate 20 0" by metis
  ultimately have "id_put ex_world [] (lit ''host.p2p'') (replicate 20 0) (lit ''home'') True \<noteq> None"
    by (simp add: id_put_def memcmp_eq_0_iff id_hostid_length [OF ex_sha1] del: lit_Cons)
  then obtain ids where ids: "id_put ex_world [] (lit ''host.p2p'') (replicate 20 0) (lit ''home'') True = Some ids" by blast
  then have ne: "ids \<noteq> []" by (auto simp: id_put_def Let_def simp del: lit_Cons split: if_splits)
  have r: "rand_urandom ex_rng 20 = (replicate 20 0, snd (rand_urandom ex_rng 20))" by (simp add: rand_urandom_def ex_rng_def)
  have i: "each (\<lambda>ids hostname. id_put ex_world ids hostname (c_node_id ex_home) (c_realm ex_home) (c_bool_realm ex_home)) [lit ''host.p2p''] [] = Some ids"
    using ids by (simp add: ex_home_def conf_defaults_def del: lit_Cons)
  have p: "c_p2p_port ex_home = 6881" "c_dns_port ex_home = 6853" "c_bootstrap_port ex_home = 6881" "c_announce_port ex_home = 8080"
    by (simp_all add: ex_home_def conf_defaults_def)
  have o: "each (conf_option ex_world) [(chr (CHR ''l''), []), (chr (CHR ''q''), []), (chr (CHR ''r''), lit ''home'')]
      (conf_defaults ex_world (replicate 20 0), log_init) = Some (ex_home, log_init\<lparr>log_verbosely := False\<rparr>)"
    by (simp add: conf_option_def conf_defaults_def ex_home_def log_init_def chr_def)
  have "conf_init ex_world 4 ex_argv ex_rng = Some (ex_home, ids, log_init\<lparr>log_verbosely := False\<rparr>, snd (rand_urandom ex_rng 20))"
    unfolding conf_init_def by (subst r, subst ex_getopt) (simp only: prod.case Let_def o i p bind.bind_lunit, simp add: ne)
  with ne show ?thesis by blast
qed

theorem conf_valid_witness:
  "\<exists>conf ids log g'. conf_init ex_world 4 ex_argv ex_rng = Some (conf, ids, log, g') \<and> conf_ok conf \<and> names_ok ids \<and> ids \<noteq> [] \<and>
     c_realm conf = lit ''home''"
proof -
  obtain ids where init: "conf_init ex_world 4 ex_argv ex_rng = Some (ex_home, ids, log_init\<lparr>log_verbosely := False\<rparr>, snd (rand_urandom ex_rng 20))"
    using ex_conf_init by blast
  have "rng_ok ex_rng" by (simp add: rng_ok_def ex_rng_def)
  moreover have "length ex_argv \<le> ID_MAX" by (simp add: ex_argv_def)
  moreover have "c_realm ex_home = lit ''home''" by (simp add: ex_home_def del: lit_Cons)
  ultimately show ?thesis using conf_valid [OF ex_sha1 _ init] init by blast
qed

definition web_inv :: "WCONF \<Rightarrow> bool" where
  "web_inv c \<longleftrightarrow> wc_port c \<le> 65535 \<and> length (wc_file c) < BUF_SIZE"

lemma web_option_inv:
  assumes "web_inv conf" and "web_conf_option (conf, log) (opt, optarg) = Some (conf', log')"
  shows "web_inv conf'"
proof -
  have "web_inv (conf\<lparr>wc_file := snprintf_s optarg\<rparr>)" "web_inv (conf\<lparr>wc_port := nat (str_safe_port optarg)\<rparr>)"
    using assms(1) port_le [of optarg] by (simp_all add: web_inv_def)
  note r = this assms(1)
  from assms(2) show ?thesis unfolding web_conf_option_def prod.case
    by (elim if_SomeE) (simp_all only: option.inject prod.inject option.distinct, (drule conjunct1, erule subst, rule r)+)
qed

text \<open>
  What the web server starts with.  Whenever its conf_init returns, the directory it serves exists, the index file is a plain name without a slash, and the port is between 1 and 65535.
\<close>

theorem web_conf_valid:
  assumes "web_conf_init env fs cores argv = Some (conf, log)"
  shows "wc_port conf \<in> {1..65535} \<and> file_isdir fs (wc_home conf) \<and> 47 \<notin> set (wc_file conf) \<and> length (wc_file conf) < BUF_SIZE \<and> 1 \<le> cores \<and> cores \<le> 128"
proof -
  obtain opts operands where o: "getopt (optstring (lit ''dhi:p:q'')) argv = (opts, operands)" by fastforce
  let ?d = "\<lparr>wc_home = conf_home_from_env env, wc_file = lit ''index.html'', wc_port = (if e_root env then 80 else 8080)\<rparr>"
  let ?home = "\<lambda>a conf. conf\<lparr>wc_home := conf_home_from_arg env a\<rparr>"
  from assms obtain c where e: "each web_conf_option opts (?d, log_init) = Some (c, log)" "conf = fold ?home operands c" and
    t: "wc_port conf \<noteq> 0" "1 \<le> cores" "cores \<le> 128" "file_isdir fs (wc_home conf)" "str_isValidFilename (wc_file conf)"
    unfolding web_conf_init_def o by (auto simp: bind_eq_Some_conv' Let_def simp del: lit_Cons split: prod.splits if_splits)
  have d: "web_inv (fst (?d, log_init))" by (simp add: web_inv_def)
  have "web_inv (fst (c, log))"
    by (rule each_inv [where I = "\<lambda>s. web_inv (fst s)", OF _ e(1) d]) (auto dest: web_option_inv)
  moreover have "wc_port (fold ?home as x) = wc_port x \<and> wc_file (fold ?home as x) = wc_file x" for as and x :: WCONF
    by (induction as arbitrary: x) simp_all
  ultimately have "web_inv conf" unfolding e(2) by (simp add: web_inv_def)
  moreover have "47 \<notin> set (wc_file conf)" using t(5) by (auto simp: str_isValidFilename_def list_all_iff host_char_def)
  ultimately show ?thesis using t by (auto simp: web_inv_def)
qed

end
