(* ===== verification/Shutdown.thy ===== *)
theory Shutdown
  imports Invariant
begin

text \<open>
  The end of \<open>main\<close> in \<^verbatim>\<open>src/src/p2p/torrentkino.c\<close>, after the sockets are closed: \<open>cache_free\<close>, \<open>val_free\<close>, \<open>nbhd_free\<close>, \<open>tdb_free\<close> and \<open>tkn_free\<close>
  release the databases.  The functions after them release one structure each that nothing refers to any more.  \<open>None\<close> is a use of freed memory.
\<close>

section \<open>Operations\<close>

text \<open>\<open>cache_clean\<close> and \<open>val_clean\<close> delete the target that \<open>list->item\<close> points to as long as there is one.\<close>

partial_function (option) cache_clean :: "CACHE \<Rightarrow> CACHE option" where
  "cache_clean cache =
     (case l_item (ch_list cache) of None \<Rightarrow> Some cache
      | Some p \<Rightarrow> (case cache_del cache (Some p) of None \<Rightarrow> None | Some cache' \<Rightarrow> cache_clean cache'))"

definition cache_free :: "CACHE \<Rightarrow> CACHE option" where
  "cache_free cache = do {
     cache \<leftarrow> cache_clean cache;
     (L, _) \<leftarrow> list_clear (ch_list cache);
     L \<leftarrow> list_free L;
     Some (cache\<lparr>ch_list := L\<rparr>)
   }"

partial_function (option) val_clean :: "VALUE \<Rightarrow> VALUE option" where
  "val_clean value =
     (case l_item (v_list value) of None \<Rightarrow> Some value
      | Some p \<Rightarrow> (case val_del value (Some p) of None \<Rightarrow> None | Some value' \<Rightarrow> val_clean value'))"

definition val_free :: "VALUE \<Rightarrow> VALUE option" where
  "val_free value = do {
     value \<leftarrow> val_clean value;
     (L, _) \<leftarrow> list_clear (v_list value);
     L \<leftarrow> list_free L;
     Some (value\<lparr>v_list := L\<rparr>)
   }"

text \<open>\<open>list_clear\<close> of the nodes of a bucket frees the nodes; a node that is freed twice is not there the second time.\<close>

fun nodes_clear :: "node_mem \<Rightarrow> ptr list \<Rightarrow> node_mem option" where
  "nodes_clear mem [] = Some mem"
| "nodes_clear mem (p # ps) = (case mem p of None \<Rightarrow> None | Some _ \<Rightarrow> nodes_clear (mem(p := None)) ps)"

fun bckt_free :: "node_mem \<Rightarrow> BUCK list \<Rightarrow> node_mem option" where
  "bckt_free mem [] = Some mem"
| "bckt_free mem (b # bs) = do { mem \<leftarrow> nodes_clear mem (b_nodes b); bckt_free mem bs }"

definition nbhd_free :: "NBHD \<Rightarrow> node_mem option" where
  "nbhd_free nb = bckt_free (nb_mem nb) (nb_bucket nb)"

text \<open>All of them, in the order of \<open>main\<close>.\<close>

definition main_frees :: "MAIN \<Rightarrow> unit option" where
  "main_frees m = do {
     _ \<leftarrow> cache_free (s_cache m);
     _ \<leftarrow> val_free (s_value m);
     _ \<leftarrow> nbhd_free (s_nbhd m);
     _ \<leftarrow> tdb_free (s_tdb m);
     _ \<leftarrow> tkn_free (s_token m);
     Some ()
   }"

section \<open>What is released\<close>

text \<open>The pointer \<open>list->item\<close> is at the front, where \<open>list_start\<close> leaves it.\<close>

definition rewound :: "'a LIST \<Rightarrow> bool" where
  "rewound L = (case l_item L of None \<Rightarrow> True | Some p \<Rightarrow> (case l_mem L p of None \<Rightarrow> False | Some it \<Rightarrow> i_prev it = None))"

lemma rewound_dlc:
  assumes "dl L xs"
  shows "rewound L \<longleftrightarrow> dlc L xs"
proof (cases "l_item L")
  case None
  then show ?thesis using assms by (auto simp: rewound_def dlc_def dl_def)
next
  case (Some p)
  then have "p \<in> fst ` set xs" using assms by (simp add: dl_def)
  then obtain ys v zs where xs: "xs = ys @ (p, v) # zs" by (metis in_fst_split)
  have "l_mem L p = Some \<lparr>i_val = v, i_next = first zs None, i_prev = final ys None\<rparr>" using assms xs by (simp add: dl_def)
  then have r: "rewound L \<longleftrightarrow> final ys None = None" by (simp add: rewound_def Some)
  show ?thesis
  proof (cases ys rule: rev_cases)
    case Nil
    then show ?thesis using r assms xs Some by (simp add: dlc_def)
  next
    case (snoc us u)
    have "fst u \<noteq> p" "first us (Some (fst u)) \<noteq> Some p"
      using assms xs snoc by (cases us; auto simp: dl_def)+
    with snoc show ?thesis using r xs Some by (simp add: dlc_def)
  qed
qed

lemma cache_clean_all: "cache_st v cache xs ts \<Longrightarrow> dlc (ch_list cache) xs \<Longrightarrow>
    \<exists>cache'. cache_clean cache = Some cache' \<and> cache_st v cache' [] [] \<and> dlc (ch_list cache') []"
proof (induction xs arbitrary: cache ts)
  case Nil
  then have "ts = []" using stock_length by (fastforce simp: cache_st_def)
  with Nil show ?case by (subst cache_clean.simps) (simp add: dlc_def)
next
  case (Cons x xs)
  obtain p q where x: "x = (p, q)" by (cases x)
  obtain a bs where ts: "ts = a # bs" using stock_length [OF Cons.prems(1) [unfolded cache_st_def]] by (cases ts) auto
  have i: "l_item (ch_list cache) = Some p" using Cons.prems(2) by (simp add: dlc_def x)
  from cache_del_ok [of v cache "[]" p q xs "[]" a bs] Cons.prems x ts obtain c1 where
    "cache_del cache (Some p) = Some c1" "dlc (ch_list c1) xs" "cache_st v c1 xs bs" by (auto simp: del_safe_def)
  with Cons.IH [of c1 bs] i show ?case by (subst cache_clean.simps) simp
qed

lemma cache_free_all:
  assumes "cache_st v cache xs ts" and "dlc (ch_list cache) xs"
  shows "\<exists>cache'. cache_free cache = Some cache' \<and> ch_mem cache' = Map.empty \<and> l_mem (ch_list cache') = Map.empty"
proof -
  from cache_clean_all [OF assms] obtain c where c: "cache_clean cache = Some c" "cache_st v c [] []" "dlc (ch_list c) []" by blast
  have "ch_mem c = Map.empty" using c(2) by (auto simp: cache_st_def stock_def shelf_def)
  with c(1) list_clear_dl [OF dlc_dl [OF c(3)]] list_free_dlc show ?thesis by (fastforce simp: cache_free_def)
qed

lemma val_clean_all: "val_sh v V xs ts \<Longrightarrow> dlc (v_list V) xs \<Longrightarrow>
    \<exists>V'. val_clean V = Some V' \<and> val_sh v V' [] [] \<and> dlc (v_list V') []"
proof (induction xs arbitrary: V ts)
  case Nil
  then have "ts = []" using holds_length by (fastforce simp: val_sh_def)
  with Nil show ?case by (subst val_clean.simps) (simp add: dlc_def)
next
  case (Cons x xs)
  obtain p q where x: "x = (p, q)" by (cases x)
  have i: "l_item (v_list V) = Some p" using Cons.prems(2) by (simp add: dlc_def x)
  from val_del_ok [of v V "[]" p q xs ts] Cons.prems x obtain c1 where
    "val_del V (Some p) = Some c1" "dlc (v_list c1) xs" "val_sh v c1 xs (drop 1 ts)" by (auto simp: del_safe_def)
  with Cons.IH [of c1 "drop 1 ts"] i show ?case by (subst val_clean.simps) simp
qed

lemma val_free_all:
  assumes "val_sh v V xs ts" and "dlc (v_list V) xs"
  shows "\<exists>V'. val_free V = Some V' \<and> v_mem V' = Map.empty \<and> l_mem (v_list V') = Map.empty"
proof -
  from val_clean_all [OF assms] obtain c where c: "val_clean V = Some c" "val_sh v c [] []" "dlc (v_list c) []" by blast
  have "v_mem c = Map.empty" using c(2) by (auto simp: val_sh_def shelf_def)
  with c(1) list_clear_dl [OF dlc_dl [OF c(3)]] list_free_dlc show ?thesis by (fastforce simp: val_free_def)
qed

lemma nodes_clear_all: "distinct ps \<Longrightarrow> set ps \<subseteq> dom mem \<Longrightarrow> nodes_clear mem ps = Some (mem |` (- set ps))"
proof (induction ps arbitrary: mem)
  case (Cons p ps)
  obtain n where n: "mem p = Some n" using Cons.prems(2) by auto
  have "distinct ps" "set ps \<subseteq> dom (mem(p := None))" using Cons.prems by auto
  note rest = Cons.IH [OF this]
  have "(mem(p := None)) |` (- set ps) = mem |` (- set (p # ps))" by (rule ext) (simp add: restrict_map_def)
  then show ?case unfolding nodes_clear.simps n option.case rest by simp
qed (simp add: restrict_map_def)

lemma bckt_free_all: "distinct (all_nodes bs) \<Longrightarrow> set (all_nodes bs) \<subseteq> dom mem \<Longrightarrow> bckt_free mem bs = Some (mem |` (- set (all_nodes bs)))"
proof (induction bs arbitrary: mem)
  case (Cons b bs)
  let ?m = "mem |` (- set (b_nodes b))"
  have "nodes_clear mem (b_nodes b) = Some ?m" using Cons.prems by (simp add: nodes_clear_all)
  moreover have "set (all_nodes bs) \<subseteq> dom ?m" using Cons.prems by (auto simp: subset_iff)
  moreover have "?m |` (- set (all_nodes bs)) = mem |` (- set (all_nodes (b # bs)))" by (auto simp: restrict_map_def fun_eq_iff)
  moreover have "distinct (all_nodes bs)" using Cons.prems(1) by simp
  ultimately show ?case using Cons.IH [of ?m] by simp
qed (simp add: restrict_map_def)

lemma nbhd_free_all:
  assumes "nbhd_ok nb"
  shows "nbhd_free nb = Some Map.empty"
proof -
  have d: "distinct (all_nodes (nb_bucket nb))" "dom (nb_mem nb) = set (all_nodes (nb_bucket nb))"
    using assms by (simp_all add: nbhd_ok_def buckets_ok_def nodes_ok_def)
  then have "nb_mem nb |` (- set (all_nodes (nb_bucket nb))) = Map.empty" by (auto simp: restrict_map_def fun_eq_iff)
  with bckt_free_all [OF d(1)] d(2) show ?thesis by (simp add: nbhd_free_def)
qed

text \<open>With the pointer elsewhere the first deletion already follows it into the target that was freed.\<close>

lemma not_rewound_split:
  assumes "dl L xs" and "\<not> rewound L"
  obtains ys p v zs where "xs = ys @ (p, v) # zs" "l_item L = Some p" "\<not> del_safe L xs p"
proof (cases "l_item L")
  case None
  with assms(2) show ?thesis by (simp add: rewound_def)
next
  case (Some p)
  then have "p \<in> fst ` set xs" using assms(1) by (simp add: dl_def)
  then obtain ys v zs where xs: "xs = ys @ (p, v) # zs" by (metis in_fst_split)
  have "\<not> dlc L xs" using assms rewound_dlc by blast
  with assms(1) Some have "\<not> del_safe L xs p" by (auto simp: del_safe_def dlc_def)
  with that xs Some show ?thesis by blast
qed

lemma cache_free_stale:
  assumes "cache_st v cache xs ts" and "\<not> rewound (ch_list cache)"
  shows "cache_free cache = None"
proof -
  have d: "dl (ch_list cache) xs" using assms(1) stock_dl by (auto simp: cache_st_def)
  from not_rewound_split [OF d assms(2)] obtain ys p q zs where
    x: "xs = ys @ (p, q) # zs" "l_item (ch_list cache) = Some p" "\<not> del_safe (ch_list cache) xs p" .
  have "list_del (ch_list cache) (Some p) = None" using list_del_dangling d x by metis
  then have "cache_del cache (Some p) = None" by (auto simp: cache_del_def Let_def split: bind_splits)
  with x(2) show ?thesis by (simp add: cache_free_def cache_clean.simps)
qed

text \<open>
  The cache is released exactly when \<open>list->item\<close> is at its front.  After the first target the list grows with \<open>list_ins\<close> in front of that pointer, which stays where it is until the
  next search, expiry or renewal; when the program ends before that, \<open>cache_clean\<close> deletes a target in the middle, and \<open>list_del\<close> follows the pointer into it.
\<close>

theorem cache_free_exact:
  assumes "cache_rep v cache ts"
  shows "(case cache_free cache of None \<Rightarrow> \<not> rewound (ch_list cache)
    | Some cache' \<Rightarrow> rewound (ch_list cache) \<and> ch_mem cache' = Map.empty \<and> l_mem (ch_list cache') = Map.empty)"
proof -
  from assms obtain xs where s: "cache_st v cache xs ts" by (auto simp: cache_rep_def)
  then have d: "dl (ch_list cache) xs" using stock_dl by (auto simp: cache_st_def)
  show ?thesis
  proof (cases "rewound (ch_list cache)")
    case True
    with rewound_dlc [OF d] cache_free_all [OF s] True show ?thesis by auto
  next
    case False
    with cache_free_stale [OF s False] show ?thesis by simp
  qed
qed

text \<open>Two new targets are enough.\<close>

theorem cache_free_exact_witness:
  "\<exists>c1 c2 p q. cache_prepare cache_init (replicate 20 1) = Some (c1, p) \<and> cache_prepare c1 (replicate 20 2) = Some (c2, q) \<and> cache_free c2 = None"
proof -
  let ?k = "replicate 20 (1 :: UCHAR)" and ?l = "replicate 20 (2 :: UCHAR)"
  from cache_init_rep [of IPV4] obtain xs where "cache_st IPV4 cache_init xs []" by (auto simp: cache_rep_def)
  from cache_prepare_ok [OF this, of ?k] obtain c1 p ys where
    c1: "cache_prepare cache_init ?k = Some (c1, Some p)" "cache_st IPV4 c1 ys (with_entry ?k [])" "cache_find c1 ?k = Some p" by auto
  have e: "with_entry ?k [] = [(?k, [], 0, 0)]" by (simp add: with_entry_def)
  have none: "cache_find c1 ?l = None" using cache_find_iff [OF c1(2), of ?l] e by simp
  from cache_prepare_ok [OF c1(2), of ?l] obtain c2 q zs where
    c2: "cache_prepare c1 ?l = Some (c2, Some q)" "cache_st IPV4 c2 zs (with_entry ?l (with_entry ?k []))" unfolding e by auto
  have "cache_rep IPV4 c2 (with_entry ?l (with_entry ?k []))" using c2(2) by (auto simp: cache_rep_def with_entry_def)
  note x = cache_free_exact [OF this]
  have L: "ch_list c1 = \<lparr>l_mem = [0 \<mapsto> \<lparr>i_val = 0, i_next = None, i_prev = None\<rparr>], l_brk = 1, l_item = Some 0, l_size = 1\<rparr>"
    using c1(1) by (auto simp: cache_prepare_def cache_find_def cache_init_def hash_get_init tgt_c_alloc_def list_start_def list_ins_def list_put_def
      list_init_def list_size_def item_alloc_def Let_def)
  have "\<not> rewound (ch_list c2)"
    using c2(1) by (auto simp: cache_prepare_def none L tgt_c_alloc_def list_start_def list_ins_def list_put_def walk_prev.simps
      item_alloc_def list_size_def set_next_def set_prev_def list_prev_def rewound_def Let_def)
  with x c1(1) c2(1) show ?thesis by (auto split: option.splits)
qed

lemma main_frees_ok:
  assumes "main_ok W k m" and "rewound (ch_list (s_cache m))" and "rewound (v_list (s_value m))"
  shows "main_frees m = Some ()"
proof -
  obtain cs xs where c: "cache_st (w_ver W) (s_cache m) xs cs" using main_okD(4) [OF assms(1)] by (auto simp: cache_rep_def)
  then have "dl (ch_list (s_cache m)) xs" using stock_dl by (auto simp: cache_st_def)
  with assms(2) have cl: "dlc (ch_list (s_cache m)) xs" by (simp add: rewound_dlc)
  obtain vs ys where v: "val_sh (w_ver W) (s_value m) ys vs" using main_okD(3) [OF assms(1)] by (auto simp: val_rep_def)
  then have "dl (v_list (s_value m)) ys" by (simp add: val_sh_def shelf_def)
  with assms(3) have vl: "dlc (v_list (s_value m)) ys" by (simp add: rewound_dlc)
  have n: "nbhd_ok (s_nbhd m)" using main_okD(6) [OF assms(1)] by (auto simp: nb_part_def)
  obtain ts where t: "tids (s_tdb m) ts" using main_okD(7) [OF assms(1)] by (auto simp: tdb_part_def)
  obtain ks where k: "tokens (s_token m) ks" using main_okD(8) [OF assms(1)] by (auto simp: tkn_part_def)
  from cache_free_all [OF c cl] val_free_all [OF v vl] nbhd_free_all [OF n] tdb_free_all [OF t] tkn_free_all [OF k]
  show ?thesis by (auto simp: main_frees_def)
qed

end
