(* ===== verification/Udp_Start.thy ===== *)
theory Udp_Start
  imports System Conf Shutdown
begin

text \<open>
  The daemon from its command line to its end: \<open>main\<close> of \<^verbatim>\<open>src/src/p2p/torrentkino.c\<close>, the sockets of
  \<^verbatim>\<open>src/src/p2p/udp.c\<close> and the threads of \<^verbatim>\<open>src/src/p2p/worker.c\<close>, over the kernel of the theory System.
\<close>

section \<open>Sockets\<close>

record UDP =
  u_addr :: IP
  u_sockfd :: int
  u_epollfd :: int
  u_multicast :: bool
  u_type :: udp_type

definition udp_init :: UDP where
  "udp_init = \<lparr>u_addr = \<lparr>ip_addr = [], ip_port = [0, 0], ip_rest = 0\<rparr>, u_sockfd = - 1, u_epollfd = 0, u_multicast = False, u_type = udp_p2p_worker\<rparr>"

text \<open>Joining and leaving the multicast group; the answer of the system is the one the theory Cron uses.\<close>

definition sys_membership :: "bool \<Rightarrow> int \<Rightarrow> bool \<Rightarrow> int act" where
  "sys_membership joins fd start k =
     (case desc k fd of
        Some (Socket s) \<Rightarrow> if joins then Go 0 (set_desc fd (Socket (s\<lparr>so_member := start\<rparr>)) k) else Go (- 1) k
      | _ \<Rightarrow> Go (- 1) k)"

definition udp_membership :: "WORLD \<Rightarrow> time_t \<Rightarrow> UDP \<Rightarrow> bool \<Rightarrow> bool \<Rightarrow> UDP act" where
  "udp_membership W now udp enabled start =
     (if \<not> enabled then ret udp
      else andthen (sys_membership (w_join W now) (u_sockfd udp) start)
        (\<lambda>r. ret (if r \<noteq> 0 then udp else udp\<lparr>u_multicast := start\<rparr>)))"

definition udp_nonblocking :: "int \<Rightarrow> int act" where
  "udp_nonblocking sock =
     andthen (sys_getfl sock) (\<lambda>opts. if opts < 0 then ret (- 1) else
     andthen (sys_setfl sock (opts OR O_NONBLOCK)) (\<lambda>r. if r < 0 then ret (- 1) else ret 1))"

definition udp_event :: "UDP \<Rightarrow> UDP act" where
  "udp_event udp =
     andthen sys_epoll_create (\<lambda>epollfd. if epollfd = - 1 then fail else
     andthen (sys_epoll_ctl epollfd EPOLL_CTL_ADD (u_sockfd udp) {E_IN, E_ET, E_ONESHOT} (u_sockfd udp)) (\<lambda>r. if r = - 1 then fail else
     ret (udp\<lparr>u_epollfd := epollfd\<rparr>)))"

text \<open>The address any of the family, with the port in network byte order.\<close>

definition any_addr :: "ipver \<Rightarrow> nat \<Rightarrow> IP" where
  "any_addr v port = \<lparr>ip_addr = replicate (IP_SIZE v) 0, ip_port = htons (of_nat port), ip_rest = 0\<rparr>"

definition udp_start :: "WORLD \<Rightarrow> CONF \<Rightarrow> time_t \<Rightarrow> UDP \<Rightarrow> nat \<Rightarrow> bool \<Rightarrow> UDP act" where
  "udp_start W conf now udp port multicast =
     andthen (sys_socket (w_ver W) SOCK_DGRAM) (\<lambda>fd. if fd < 0 then fail else
     andthen (udp_membership W now (udp\<lparr>u_sockfd := fd, u_addr := any_addr (w_ver W) port\<rparr>) multicast True) (\<lambda>udp.
     let udp = udp\<lparr>u_type := (if port = c_p2p_port conf then udp_p2p_worker else udp_dns_worker)\<rparr> in
     andthen (if w_ver W = IPV6 then sys_v6only fd else ret 0) (\<lambda>r. if r = - 1 then fail else
     andthen (sys_bind fd (u_addr udp)) (\<lambda>r. if r \<noteq> 0 then fail else
     andthen (udp_nonblocking fd) (\<lambda>r. if r < 0 then fail else
     udp_event udp)))))"

definition udp_stop :: "WORLD \<Rightarrow> time_t \<Rightarrow> UDP \<Rightarrow> bool \<Rightarrow> UDP act" where
  "udp_stop W now udp multicast =
     andthen (udp_membership W now udp multicast False) (\<lambda>udp.
     andthen (sys_close (u_sockfd udp)) (\<lambda>r. if r \<noteq> 0 then fail else
     andthen (sys_close (u_epollfd udp)) (\<lambda>r. if r \<noteq> 0 then fail else
     ret udp)))"

section \<open>Threads\<close>

definition daemon_work_start :: "UDP \<Rightarrow> UDP \<Rightarrow> unit act" where
  "daemon_work_start udp dns =
     andthen (sys_pthread_create (Udp_thread (u_sockfd udp))) (\<lambda>r. if r \<noteq> 0 then fail else
     andthen (sys_pthread_create (Udp_thread (u_sockfd dns))) (\<lambda>r. if r \<noteq> 0 then fail else
     andthen (sys_pthread_create (Udp_client (u_sockfd udp))) (\<lambda>r. if r \<noteq> 0 then fail else
     ret ())))"

fun work_stop :: "nat list \<Rightarrow> unit act" where
  "work_stop [] = ret ()"
| "work_stop (i # is) = andthen (sys_pthread_join i) (\<lambda>r. if r \<noteq> 0 then fail else work_stop is)"

section \<open>The program\<close>

text \<open>
  \<open>main\<close> up to the start of the threads.  \<open>daemon_start\<close> builds the databases, which do not depend on the system calls; it takes the numbers of the sockets.
\<close>

definition daemon_main_start :: "WORLD \<Rightarrow> int \<Rightarrow> bytes list \<Rightarrow> time_t \<Rightarrow> rng \<Rightarrow> (MAIN \<times> UDP \<times> UDP) act" where
  "daemon_main_start W cores argv now g =
     (case conf_init W cores argv g of
        None \<Rightarrow> fail
      | Some (conf, ids, log, g) \<Rightarrow>
          andthen unix_signal (\<lambda>_.
          andthen (unix_fork (log_console log)) (\<lambda>_.
          andthen (main_limits cores) (\<lambda>_.
          andthen (udp_start W conf now udp_init (c_p2p_port conf) True) (\<lambda>udp.
          andthen (udp_start W conf now udp_init (c_dns_port conf) False) (\<lambda>dns.
          andthen main_dropuid0 (\<lambda>_.
          andthen (defined (daemon_start W conf ids (u_sockfd udp) (u_sockfd dns) now g)) (\<lambda>m.
          andthen (daemon_work_start udp dns) (\<lambda>_.
          ret (m, udp, dns))))))))))"

text \<open>\<open>main\<close> after it has started the threads: it waits for them, closes the sockets and releases the databases.\<close>

definition daemon_main_stop :: "WORLD \<Rightarrow> time_t \<Rightarrow> UDP \<Rightarrow> UDP \<Rightarrow> MAIN \<Rightarrow> int act" where
  "daemon_main_stop W now udp dns m =
     andthen (work_stop [0, 1, 2]) (\<lambda>_.
     andthen (udp_stop W now dns False) (\<lambda>_.
     andthen (udp_stop W now udp True) (\<lambda>_.
     andthen (defined (main_frees m)) (\<lambda>_.
     ret 0))))"

section \<open>The loop of a thread\<close>

definition udp_rearm :: "UDP \<Rightarrow> int \<Rightarrow> unit act" where
  "udp_rearm udp sockfd =
     andthen (sys_epoll_ctl (u_epollfd udp) EPOLL_CTL_MOD sockfd {E_ET, E_IN, E_ONESHOT} sockfd) (\<lambda>r. if r = - 1 then fail else ret ())"

text \<open>An event as \<open>epoll_wait\<close> reports it, and the datagrams that can be read then.\<close>

record EVENT =
  ev_in :: bool
  ev_fd :: int
  ev_recv :: "RECV list"

fun udp_worker :: "WORLD \<Rightarrow> UDP \<Rightarrow> EVENT list \<Rightarrow> MAIN \<Rightarrow> MAIN act" where
  "udp_worker W udp [] m = ret m"
| "udp_worker W udp (e # es) m =
     (if ev_in e then
        andthen (defined (udp_input W (u_type udp) m (ev_recv e))) (\<lambda>m.
        andthen (udp_rearm udp (ev_fd e)) (\<lambda>_. udp_worker W udp es m))
      else udp_worker W udp es m)"

datatype waited = W_timeout time_t | W_events "EVENT list" | W_interrupted | W_failed

text \<open>What \<open>epoll_wait\<close> reports of one-shot entries is disarmed.\<close>

definition disarmed :: "int \<Rightarrow> EVENT list \<Rightarrow> KERNEL \<Rightarrow> KERNEL" where
  "disarmed epfd es k =
     (case desc k epfd of
        Some (Epoll m) \<Rightarrow> set_desc epfd (Epoll (\<lambda>fd. map_option
          (\<lambda>r. if fd \<in> ev_fd ` set es \<and> E_ONESHOT \<in> rg_events r then r\<lparr>rg_armed := False\<rparr> else r) (m fd))) k
      | _ \<Rightarrow> k)"

text \<open>One turn of the loop of \<open>udp_thread\<close>, from the return of \<open>epoll_wait\<close> on; the second result says whether the loop goes on.\<close>

definition udp_turn :: "WORLD \<Rightarrow> UDP \<Rightarrow> waited \<Rightarrow> MAIN \<Rightarrow> (MAIN \<times> bool) act" where
  "udp_turn W udp wt m k =
     (let k = (case wt of W_events es \<Rightarrow> disarmed (u_epollfd udp) es k | _ \<Rightarrow> k) in
      if \<not> s_rumble m then Go (m, False) k
      else (case wt of
         W_failed \<Rightarrow> fail k
       | W_interrupted \<Rightarrow> Go (m, True) k
       | W_timeout now \<Rightarrow> andthen (defined (udp_cron W (u_type udp) m now)) (\<lambda>m. ret (m, True)) k
       | W_events es \<Rightarrow> andthen (udp_worker W udp es m) (\<lambda>m. ret (m, True)) k))"

end
