(* ===== verification/Udp_Run.thy ===== *)
theory Udp_Run
  imports Udp_Start
begin

text \<open>
  What the daemon does to the system: the sockets it opens, the ids its threads run with, and the registration with epoll that
  the loop of a thread keeps up.
\<close>

section \<open>Opening and closing sockets\<close>

text \<open>The socket of a running daemon, and its entry in the epoll instance.\<close>

definition open_socket :: "WORLD \<Rightarrow> time_t \<Rightarrow> nat \<Rightarrow> bool \<Rightarrow> SOCKET" where
  "open_socket W now port multicast = (new_socket (w_ver W) SOCK_DGRAM)
     \<lparr>so_flags := 2 OR O_NONBLOCK, so_addr := Some (any_addr (w_ver W) port), so_v6only := (w_ver W = IPV6), so_member := multicast \<and> w_join W now\<rparr>"

definition armed_entry :: "eflag set \<Rightarrow> int \<Rightarrow> REG" where
  "armed_entry events fd = \<lparr>rg_events = events, rg_data = fd, rg_armed = True\<rparr>"

lemma nonblocking_flags: "(2 :: int) OR O_NONBLOCK = 2050"
  by (simp add: O_NONBLOCK_def)

lemma any_addr_port: "ip_sin_to_port (any_addr v port) = of_nat port"
  by (simp add: ip_sin_to_port_def any_addr_def ntohs_htons)

lemma port_less_1024: "port \<le> 65535 \<Longrightarrow> (of_nat port :: 16 word) < 1024 \<longleftrightarrow> port < 1024"
  by (simp add: word_less_nat_alt unat_of_nat)

lemma membership_moves:
  assumes "desc k (u_sockfd udp) = Some (Socket s)"
  shows "\<exists>k'. udp_membership W now udp enabled start k = Go (if enabled \<and> w_join W now then udp\<lparr>u_multicast := start\<rparr> else udp) k' \<and>
    moves k k' (if enabled \<and> w_join W now then (desc k)(u_sockfd udp \<mapsto> Socket (s\<lparr>so_member := start\<rparr>)) else desc k)"
proof (cases "enabled \<and> w_join W now")
  case True
  let ?k = "set_desc (u_sockfd udp) (Socket (s\<lparr>so_member := start\<rparr>)) k"
  have "sys_membership (w_join W now) (u_sockfd udp) start k = Go 0 ?k" using True assms by (simp add: sys_membership_def)
  moreover have "moves k ?k ((desc k)(u_sockfd udp \<mapsto> Socket (s\<lparr>so_member := start\<rparr>)))"
    using desc_set [OF assms] by (simp add: moves_def fds_only_ok)
  ultimately show ?thesis using True by (simp add: udp_membership_def)
next
  case False
  then show ?thesis using assms by (auto simp: udp_membership_def andthen_def sys_membership_def moves_refl)
qed

lemma nonblocking_moves:
  assumes "granted k" and "desc k fd = Some (Socket s)" and "so_flags s = 2"
  shows "\<exists>k'. udp_nonblocking fd k = Go 1 k' \<and> moves k k' ((desc k)(fd \<mapsto> Socket (s\<lparr>so_flags := 2 OR O_NONBLOCK\<rparr>)))"
proof -
  from getfl_moves [OF assms(1,2)] obtain k1 where k1: "sys_getfl fd k = Go 2 k1" "moves k k1 (desc k)" using assms(3) by auto
  have "desc k1 = desc k" using k1(2) by (simp add: moves_def)
  with on_socket_moves [OF moves_granted [OF k1(2) assms(1)], of fd s "\<lambda>_ s. Some (s\<lparr>so_flags := 2 OR O_NONBLOCK\<rparr>)"] assms(2) obtain k2 where
    "sys_setfl fd (2 OR O_NONBLOCK) k1 = Go 0 k2" "moves k1 k2 ((desc k)(fd \<mapsto> Socket (s\<lparr>so_flags := 2 OR O_NONBLOCK\<rparr>)))"
    unfolding sys_setfl_def by auto
  with k1 moves_trans show ?thesis unfolding udp_nonblocking_def by fastforce
qed

lemma epoll_new_moves:
  assumes "granted k" and "desc k fd = Some (Socket s)"
  shows "\<exists>ep k1 k2. sys_epoll_create k = Go ep k1 \<and> sys_epoll_ctl ep EPOLL_CTL_ADD fd events fd k1 = Go 0 k2 \<and> desc k ep = None \<and> 0 \<le> ep \<and>
    moves k k2 ((desc k)(ep \<mapsto> Epoll [fd \<mapsto> armed_entry events fd]))"
proof -
  from new_moves [OF assms(1), of "Epoll Map.empty"] obtain ep k1 where
    k1: "sys_epoll_create k = Go ep k1" "moves k k1 ((desc k)(ep \<mapsto> Epoll Map.empty))" "desc k ep = None" "0 \<le> ep"
    unfolding sys_epoll_create_def by blast
  then have d: "desc k1 = (desc k)(ep \<mapsto> Epoll Map.empty)" by (simp add: moves_def)
  then have "desc k1 ep = Some (Epoll Map.empty)" "desc k1 fd = Some (Socket s)" using assms(2) k1(3) by auto
  from epoll_ctl_moves [OF moves_granted [OF k1(2) assms(1)] this, of EPOLL_CTL_ADD events fd] obtain k2 where
    k2: "sys_epoll_ctl ep EPOLL_CTL_ADD fd events fd k1 = Go 0 k2" "moves k1 k2 ((desc k)(ep \<mapsto> Epoll [fd \<mapsto> armed_entry events fd]))"
    unfolding d armed_entry_def by auto
  with k1 moves_trans [OF k1(2) k2(2)] show ?thesis by blast
qed

lemma event_moves:
  assumes "granted k" and "desc k (u_sockfd udp) = Some (Socket s)"
  shows "\<exists>ep k'. udp_event udp k = Go (udp\<lparr>u_epollfd := ep\<rparr>) k' \<and> desc k ep = None \<and>
    moves k k' ((desc k)(ep \<mapsto> Epoll [u_sockfd udp \<mapsto> armed_entry {E_IN, E_ET, E_ONESHOT} (u_sockfd udp)]))"
proof -
  from epoll_new_moves [OF assms, of "{E_IN, E_ET, E_ONESHOT}"] obtain ep k1 k2 where
    k: "sys_epoll_create k = Go ep k1" "sys_epoll_ctl ep EPOLL_CTL_ADD (u_sockfd udp) {E_IN, E_ET, E_ONESHOT} (u_sockfd udp) k1 = Go 0 k2"
      "desc k ep = None" "0 \<le> ep" "moves k k2 ((desc k)(ep \<mapsto> Epoll [u_sockfd udp \<mapsto> armed_entry {E_IN, E_ET, E_ONESHOT} (u_sockfd udp)]))" by blast
  then have "udp_event udp k = Go (udp\<lparr>u_epollfd := ep\<rparr>) k2" by (simp add: udp_event_def)
  with k(3,5) show ?thesis by blast
qed

text \<open>No other socket has the port, and the process may use it.\<close>

definition port_free :: "KERNEL \<Rightarrow> sock_type \<Rightarrow> nat \<Rightarrow> bool" where
  "port_free k t port \<longleftrightarrow> (\<forall>fd. \<not> takes_port t (of_nat port) (desc k fd)) \<and> (port < 1024 \<longrightarrow> euid (k_proc k) = 0)"

lemma bind_moves:
  assumes "granted k" and "desc k fd = Some (Socket s)" and "so_addr s = None" and "port \<le> 65535" and "port_free k (so_type s) port"
  shows "\<exists>k'. sys_bind fd (any_addr v port) k = Go 0 k' \<and> moves k k' ((desc k)(fd \<mapsto> Socket (s\<lparr>so_addr := Some (any_addr v port)\<rparr>)))"
proof -
  have "takes_port t p None = False" for t p by (simp add: takes_port_def)
  from fds_ex [of "takes_port (so_type s) (of_nat port)" k, OF this] have "\<not> list_ex (takes_port (so_type s) (of_nat port)) (k_fds k)"
    using assms(5) by (auto simp: port_free_def)
  then show ?thesis unfolding sys_bind_def using assms(5)
    by (intro on_socket_moves [OF assms(1,2)]) (auto simp: any_addr_port assms(3) port_less_1024 [OF assms(4)] port_free_def)
qed

lemma v6only_moves:
  assumes "granted k" and "desc k fd = Some (Socket s)" and "so_addr s = None" and "so_family s = v" and "\<not> so_v6only s"
  shows "\<exists>k'. (if v = IPV6 then sys_v6only fd else ret 0) k = Go 0 k' \<and> moves k k' ((desc k)(fd \<mapsto> Socket (s\<lparr>so_v6only := (v = IPV6)\<rparr>)))"
proof (cases "v = IPV6")
  case True
  then show ?thesis unfolding sys_v6only_def using assms(3,4) by (simp, intro on_socket_moves [OF assms(1,2)]) simp
next
  case False
  have "s\<lparr>so_v6only := False\<rparr> = s" using assms(5) by simp
  with False assms(2) moves_refl [of k] show ?thesis by (simp add: map_upd_triv)
qed

definition listening :: "(int \<rightharpoonup> DESC) \<Rightarrow> UDP \<Rightarrow> SOCKET \<Rightarrow> (int \<rightharpoonup> DESC)" where
  "listening D udp s = D(u_sockfd udp \<mapsto> Socket s, u_epollfd udp \<mapsto> Epoll [u_sockfd udp \<mapsto> armed_entry {E_IN, E_ET, E_ONESHOT} (u_sockfd udp)])"

lemma udp_start_moves:
  assumes "granted k" and "port \<le> 65535" and "port_free k SOCK_DGRAM port" and "\<not> u_multicast udp0"
  shows "\<exists>udp k'. udp_start W conf now udp0 port mc k = Go udp k' \<and> moves k k' (listening (desc k) udp (open_socket W now port mc)) \<and>
    desc k (u_sockfd udp) = None \<and> desc k (u_epollfd udp) = None \<and> u_sockfd udp \<noteq> u_epollfd udp \<and>
    u_type udp = (if port = c_p2p_port conf then udp_p2p_worker else udp_dns_worker) \<and> u_multicast udp = (mc \<and> w_join W now)"
proof -
  let ?v = "w_ver W" and ?j = "mc \<and> w_join W now" and ?a = "any_addr (w_ver W) port"
  let ?s = "new_socket ?v SOCK_DGRAM" let ?s1 = "?s\<lparr>so_member := ?j\<rparr>" let ?s2 = "?s1\<lparr>so_v6only := (?v = IPV6)\<rparr>" let ?s3 = "?s2\<lparr>so_addr := Some ?a\<rparr>"
  have simps: "?s\<lparr>so_member := False\<rparr> = ?s" by (simp add: new_socket_def)
  from new_moves [OF assms(1), of "Socket ?s"] obtain fd k1 where
    k1: "sys_socket ?v SOCK_DGRAM k = Go fd k1" "moves k k1 ((desc k)(fd \<mapsto> Socket ?s))" "desc k fd = None" "0 \<le> fd"
    unfolding sys_socket_def by blast
  let ?u = "udp0\<lparr>u_sockfd := fd, u_addr := ?a\<rparr>"
  let ?u1 = "if ?j then ?u\<lparr>u_multicast := True\<rparr> else ?u"
  have d1: "desc k1 = (desc k)(fd \<mapsto> Socket ?s)" using k1(2) by (simp add: moves_def)
  with membership_moves [of k1 ?u ?s W now mc True] obtain k2 where
    k2: "udp_membership W now ?u mc True k1 = Go ?u1 k2" "moves k1 k2 ((desc k)(fd \<mapsto> Socket ?s1))" by (cases ?j) (auto simp: simps)
  note m2 = moves_trans [OF k1(2) k2(2)]
  then have d2: "desc k2 fd = Some (Socket ?s1)" "desc k2 = (desc k)(fd \<mapsto> Socket ?s1)" by (simp_all add: moves_def)
  from v6only_moves [OF moves_granted [OF m2 assms(1)] d2(1), of ?v] obtain k3 where
    k3: "(if ?v = IPV6 then sys_v6only fd else ret 0) k2 = Go 0 k3" "moves k2 k3 ((desc k)(fd \<mapsto> Socket ?s2))"
    using d2(2) by (auto simp: new_socket_def)
  note m3 = moves_trans [OF m2 k3(2)]
  then have d3: "desc k3 fd = Some (Socket ?s2)" "desc k3 = (desc k)(fd \<mapsto> Socket ?s2)" and p3: "k_proc k3 = k_proc k"
    by (auto simp: moves_def dest: fds_onlyD)
  have "port_free k3 SOCK_DGRAM port" using assms(3) d3(2) p3 by (auto simp: port_free_def takes_port_def new_socket_def)
  then obtain k4 where k4: "sys_bind fd ?a k3 = Go 0 k4" "moves k3 k4 ((desc k)(fd \<mapsto> Socket ?s3))"
    using bind_moves [OF moves_granted [OF m3 assms(1)] d3(1) _ assms(2), of ?v] d3(2) by (auto simp: new_socket_def)
  note m4 = moves_trans [OF m3 k4(2)]
  then have d4: "desc k4 fd = Some (Socket ?s3)" "desc k4 = (desc k)(fd \<mapsto> Socket ?s3)" by (simp_all add: moves_def)
  from nonblocking_moves [OF moves_granted [OF m4 assms(1)] d4(1)] obtain k5 where
    k5: "udp_nonblocking fd k4 = Go 1 k5" "moves k4 k5 ((desc k)(fd \<mapsto> Socket (open_socket W now port mc)))"
    using d4(2) by (auto simp: new_socket_def open_socket_def)
  note m5 = moves_trans [OF m4 k5(2)]
  define u1 where "u1 = ?u1"
  define u where "u = u1\<lparr>u_type := (if port = c_p2p_port conf then udp_p2p_worker else udp_dns_worker)\<rparr>"
  have u: "u_sockfd u = fd" "u_type u = (if port = c_p2p_port conf then udp_p2p_worker else udp_dns_worker)" "u_multicast u = ?j"
    using assms(4) by (auto simp: u_def u1_def)
  have d5: "desc k5 (u_sockfd u) = Some (Socket (open_socket W now port mc))" "desc k5 = (desc k)(fd \<mapsto> Socket (open_socket W now port mc))"
    using m5 u(1) by (simp_all add: moves_def)
  from event_moves [OF moves_granted [OF m5 assms(1)] d5(1)] obtain ep k6 where
    k6: "udp_event u k5 = Go (u\<lparr>u_epollfd := ep\<rparr>) k6" "desc k5 ep = None"
      "moves k5 k6 (listening (desc k) (u\<lparr>u_epollfd := ep\<rparr>) (open_socket W now port mc))"
    unfolding listening_def using d5(2) u(1) by auto
  have "u_addr u1 = ?a" by (simp add: u1_def)
  then have "udp_start W conf now udp0 port mc k = Go (u\<lparr>u_epollfd := ep\<rparr>) k6"
    unfolding udp_start_def using k1(1,4) k2(1) [folded u1_def] k3(1) k4(1) k5(1) k6(1) unfolding u_def by (simp add: Let_def split del: if_split)
  moreover have "desc k ep = None" "fd \<noteq> ep" using k6(2) d5(2) by (auto split: if_splits)
  ultimately show ?thesis using k1(3) moves_trans [OF m5 k6(3)] u
    by (intro exI [of _ "u\<lparr>u_epollfd := ep\<rparr>"] exI [of _ k6]) simp
qed

text \<open>A descriptor is closed in a table in which no epoll instance knows it.\<close>

lemma close_plain:
  assumes "granted k" and "desc k fd = Some d" and "\<forall>i m. desc k i = Some (Epoll m) \<longrightarrow> m fd = None"
  shows "\<exists>k'. sys_close fd k = Go 0 k' \<and> moves k k' ((desc k)(fd := None))"
proof -
  have "map_option (forget fd) (desc k i) = desc k i" for i
    using assms(3) by (cases "desc k i"; cases "the (desc k i)") (auto simp: fun_upd_idem)
  then have "(\<lambda>i. if i = fd then None else map_option (forget fd) (desc k i)) = (desc k)(fd := None)" by auto
  with close_moves [OF assms(1,2)] show ?thesis by simp
qed

lemma udp_stop_moves:
  assumes "granted k" and "desc k = D(u_sockfd udp \<mapsto> Socket s, u_epollfd udp \<mapsto> Epoll [u_sockfd udp \<mapsto> r])"
    and "D (u_sockfd udp) = None" and "D (u_epollfd udp) = None" and "u_sockfd udp \<noteq> u_epollfd udp"
    and "\<forall>i m. D i = Some (Epoll m) \<longrightarrow> m (u_sockfd udp) = None \<and> m (u_epollfd udp) = None"
  shows "\<exists>udp' k'. udp_stop W now udp mc k = Go udp' k' \<and> moves k k' D"
proof -
  let ?fd = "u_sockfd udp" and ?ep = "u_epollfd udp" and ?j = "mc \<and> w_join W now"
  let ?s = "if ?j then s\<lparr>so_member := False\<rparr> else s" and ?u = "if ?j then udp\<lparr>u_multicast := False\<rparr> else udp"
  have d: "desc k ?fd = Some (Socket s)" using assms(2,5) by simp
  from membership_moves [OF d, of W now mc False] obtain k1 where
    k1: "udp_membership W now udp mc False k = Go ?u k1" "moves k k1 (D(?fd \<mapsto> Socket ?s, ?ep \<mapsto> Epoll [?fd \<mapsto> r]))"
    using assms(2,5) by (cases ?j) (auto simp: fun_upd_twist)
  then have d1: "desc k1 = D(?fd \<mapsto> Socket ?s, ?ep \<mapsto> Epoll [?fd \<mapsto> r])" by (simp add: moves_def)
  have "map_option (forget ?fd) (D i) = D i" for i
    using assms(6) by (cases "D i"; cases "the (D i)") (auto simp: fun_upd_idem)
  then have "(\<lambda>i. if i = ?fd then None else map_option (forget ?fd) (desc k1 i)) = D(?ep \<mapsto> Epoll Map.empty)"
    using assms(3,5) by (auto simp: d1 fun_eq_iff)
  with close_moves [OF moves_granted [OF k1(2) assms(1)], of ?fd "Socket ?s"] d1 assms(5) obtain k2 where
    k2: "sys_close ?fd k1 = Go 0 k2" "moves k1 k2 (D(?ep \<mapsto> Epoll Map.empty))" by auto
  note m2 = moves_trans [OF k1(2) k2(2)]
  then have d2: "desc k2 = D(?ep \<mapsto> Epoll Map.empty)" by (simp add: moves_def)
  have "\<forall>i m. desc k2 i = Some (Epoll m) \<longrightarrow> m ?ep = None" using assms(6) by (auto simp: d2 split: if_splits)
  from close_plain [OF moves_granted [OF m2 assms(1)] _ this, of "Epoll Map.empty"] assms(4) obtain k3 where
    k3: "sys_close ?ep k2 = Go 0 k3" "moves k2 k3 D" by (auto simp: d2 fun_upd_idem)
  have "u_sockfd ?u = ?fd" "u_epollfd ?u = ?ep" by simp_all
  then have "udp_stop W now udp mc k = Go ?u k3" unfolding udp_stop_def using k1(1) k2(1) k3(1) by (simp split del: if_split)
  with moves_trans [OF m2 k3(2)] show ?thesis by blast
qed

section \<open>From the command line to the threads\<close>

lemma work_start_ok: "granted k \<Longrightarrow> \<exists>n. daemon_work_start udp dns k = Go () (k\<lparr>k_threads := k_threads k @
    map (\<lambda>r. (r, k_proc k)) [Udp_thread (u_sockfd udp), Udp_thread (u_sockfd dns), Udp_client (u_sockfd udp)], k_calls := n\<rparr>)"
  by (rule exI [of _ "k_calls k + 3"]) (simp add: daemon_work_start_def sys_pthread_create_def andthen_def syscall_def granted_def eval_nat_numeral)

text \<open>A process as the shell starts it: its descriptors are terminals, it has no other threads.\<close>

definition fresh :: "KERNEL \<Rightarrow> bool" where
  "fresh k \<longleftrightarrow> (\<forall>fd d. desc k fd = Some d \<longrightarrow> d = Terminal) \<and> k_threads k = [] \<and> k_ended k = {}"

definition both_listening :: "WORLD \<Rightarrow> CONF \<Rightarrow> time_t \<Rightarrow> (int \<rightharpoonup> DESC) \<Rightarrow> UDP \<Rightarrow> UDP \<Rightarrow> (int \<rightharpoonup> DESC)" where
  "both_listening W conf now D udp dns =
     listening (listening D udp (open_socket W now (c_p2p_port conf) True)) dns (open_socket W now (c_dns_port conf) False)"

definition four_new :: "(int \<rightharpoonup> DESC) \<Rightarrow> UDP \<Rightarrow> UDP \<Rightarrow> bool" where
  "four_new D udp dns \<longleftrightarrow> distinct [u_sockfd udp, u_epollfd udp, u_sockfd dns, u_epollfd dns] \<and>
     (\<forall>fd \<in> {u_sockfd udp, u_epollfd udp, u_sockfd dns, u_epollfd dns}. D fd = None)"

lemma sockets_ok:
  assumes "granted k" and "fresh k" and "c_p2p_port conf \<le> 65535" and "c_dns_port conf \<le> 65535" and "c_dns_port conf \<noteq> c_p2p_port conf"
    and "c_p2p_port conf < 1024 \<or> c_dns_port conf < 1024 \<longrightarrow> euid (k_proc k) = 0"
  shows "\<exists>udp k1 dns k2. udp_start W conf now udp_init (c_p2p_port conf) True k = Go udp k1 \<and>
    udp_start W conf now udp_init (c_dns_port conf) False k1 = Go dns k2 \<and>
    moves k k2 (both_listening W conf now (desc k) udp dns) \<and> four_new (desc k) udp dns \<and>
    u_type udp = udp_p2p_worker \<and> u_type dns = udp_dns_worker \<and> u_multicast udp = w_join W now"
proof -
  have i: "\<not> u_multicast udp_init" by (simp add: udp_init_def)
  have none: "\<not> takes_port t p (desc k fd)" for t p fd
    using assms(2) by (auto simp: fresh_def takes_port_def split: option.splits DESC.splits)
  then have "port_free k SOCK_DGRAM (c_p2p_port conf)" using assms(6) by (simp add: port_free_def)
  from udp_start_moves [OF assms(1,3) this i, of W conf now True] obtain udp k1 where
    k1: "udp_start W conf now udp_init (c_p2p_port conf) True k = Go udp k1"
      "moves k k1 (listening (desc k) udp (open_socket W now (c_p2p_port conf) True))"
      "desc k (u_sockfd udp) = None" "desc k (u_epollfd udp) = None" "u_sockfd udp \<noteq> u_epollfd udp"
      "u_type udp = udp_p2p_worker" "u_multicast udp = w_join W now" by auto
  then have d1: "desc k1 = listening (desc k) udp (open_socket W now (c_p2p_port conf) True)" "k_proc k1 = k_proc k"
    by (auto simp: moves_def dest: fds_onlyD)
  have "(of_nat (c_dns_port conf) :: 16 word) \<noteq> of_nat (c_p2p_port conf)"
    using assms(3-5) by (simp add: word_unat_eq_iff unat_of_nat)
  then have "port_free k1 SOCK_DGRAM (c_dns_port conf)" using none assms(6) d1(2)
    by (auto simp: port_free_def d1(1) listening_def takes_port_def open_socket_def new_socket_def any_addr_port)
  from udp_start_moves [OF moves_granted [OF k1(2) assms(1)] assms(4) this i, of W conf now False] assms(5) obtain dns k2 where
    k2: "udp_start W conf now udp_init (c_dns_port conf) False k1 = Go dns k2"
      "moves k1 k2 (both_listening W conf now (desc k) udp dns)"
      "desc k1 (u_sockfd dns) = None" "desc k1 (u_epollfd dns) = None" "u_sockfd dns \<noteq> u_epollfd dns" "u_type dns = udp_dns_worker"
    unfolding both_listening_def d1(1) by auto
  have "four_new (desc k) udp dns" unfolding four_new_def
    using k1(3-5) k2(3-5) by (auto simp: d1(1) listening_def split: if_splits)
  with k1 k2 moves_trans [OF k1(2) k2(2)] show ?thesis by blast
qed

lemma granted_upd [simp]: "granted (k\<lparr>k_calls := n\<rparr>) = granted k" "granted (k\<lparr>k_signals := a\<rparr>) = granted k" "granted (k\<lparr>k_daemon := b\<rparr>) = granted k"
  "granted (k\<lparr>k_proc := p\<rparr>) = granted k" "granted (k\<lparr>k_threads := t\<rparr>) = granted k" "granted (k\<lparr>k_ended := e\<rparr>) = granted k"
  by (simp_all add: granted_def)

lemma desc_upd [simp]: "desc (k\<lparr>k_signals := a\<rparr>) = desc k" "desc (k\<lparr>k_daemon := b\<rparr>) = desc k" "desc (k\<lparr>k_proc := p\<rparr>) = desc k"
  "desc (k\<lparr>k_threads := t\<rparr>) = desc k" "desc (k\<lparr>k_joined := j\<rparr>) = desc k" "desc (k\<lparr>k_ended := e\<rparr>) = desc k"
  by (simp_all add: desc_def fun_eq_iff)

text \<open>The state of the system when the threads of the daemon run.\<close>

definition daemon_up :: "WORLD \<Rightarrow> CONF \<Rightarrow> time_t \<Rightarrow> KERNEL \<Rightarrow> UDP \<Rightarrow> UDP \<Rightarrow> KERNEL \<Rightarrow> bool" where
  "daemon_up W conf now k0 udp dns k \<longleftrightarrow> granted k \<and> desc k = both_listening W conf now (desc k0) udp dns \<and> four_new (desc k0) udp dns \<and>
     u_type udp = udp_p2p_worker \<and> u_type dns = udp_dns_worker \<and>
     k_signals k SIGINT = Some Sig_stop \<and> k_signals k SIGPIPE = Some Sig_ign \<and> k_ended k = {} \<and>
     map fst (k_threads k) = [Udp_thread (u_sockfd udp), Udp_thread (u_sockfd dns), Udp_client (u_sockfd udp)] \<and>
     (\<forall>(r, p) \<in> set (k_threads k). if ruid (k_proc k0) = 0 then no_root p else ruid p = ruid (k_proc k0) \<and> euid p = euid (k_proc k0))"

lemma start_sockets:
  assumes "daemon_start W conf ids fd fd' now g = Some m"
  shows "s_dns_sockfd m = fd'" "s_multicast m = w_join W now" "s_rumble m"
  using assms by (auto simp: daemon_start_def udp_multicast_def p2p_init_def split: bind_splits if_splits)

lemma main_start_up:
  assumes "sha1_law W" and "rng_ok g" and "0 \<le> now" and "conf_init W cores argv g = Some (conf, ids, log, g')" and "length argv \<le> ID_MAX"
    and "granted k" and "fresh k" and "can_drop k" and "c_p2p_port conf < 1024 \<or> c_dns_port conf < 1024 \<longrightarrow> euid (k_proc k) = 0"
  shows "\<exists>m udp dns k'. daemon_main_start W cores argv now g k = Go (m, udp, dns) k' \<and> daemon_up W conf now k udp dns k' \<and>
    daemon_start W conf ids (u_sockfd udp) (u_sockfd dns) now g' = Some m \<and> u_multicast udp = w_join W now"
proof -
  have cv: "conf_ok conf" "rng_ok g'" "names_ok ids" "c_p2p_port conf \<le> 65535" "c_dns_port conf \<le> 65535" "c_dns_port conf \<noteq> c_p2p_port conf"
    using conf_inits [OF assms(1,2,4)] assms(5) by auto
  from unix_signal_ok [OF assms(6)] obtain n1 where
    k1: "unix_signal k = Go () (k\<lparr>k_signals := (k_signals k)(SIGINT \<mapsto> Sig_stop, SIGALRM \<mapsto> Sig_time, SIGPIPE \<mapsto> Sig_ign), k_calls := n1\<rparr>)"
      (is "_ = Go () ?k1") by blast
  from fork_ok [of ?k1 "log_console log"] assms(6) obtain n2 where
    k2: "unix_fork (log_console log) ?k1 = Go () (?k1\<lparr>k_daemon := (\<not> log_console log \<or> k_daemon ?k1), k_calls := n2\<rparr>)" (is "_ = Go () ?k2") by auto
  from limits_ok [of ?k2 cores] assms(6) obtain l n3 where
    k3: "main_limits cores ?k2 = Go () (?k2\<lparr>k_proc := (k_proc ?k2)\<lparr>nofile := l\<rparr>, k_calls := n3\<rparr>)" (is "_ = Go () ?k3") by auto
  have "granted ?k3" "fresh ?k3" "desc ?k3 = desc k" "euid (k_proc ?k3) = euid (k_proc k)" using assms(6,7) by (simp_all add: fresh_def)
  with sockets_ok [of ?k3 conf W now] cv(4-6) assms(9) obtain udp k4 dns k5 where
    k4: "udp_start W conf now udp_init (c_p2p_port conf) True ?k3 = Go udp k4" and
    k5: "udp_start W conf now udp_init (c_dns_port conf) False k4 = Go dns k5"
      "moves ?k3 k5 (both_listening W conf now (desc k) udp dns)" "four_new (desc k) udp dns"
      "u_type udp = udp_p2p_worker" "u_type dns = udp_dns_worker" "u_multicast udp = w_join W now" by auto
  have d5: "desc k5 = both_listening W conf now (desc k) udp dns" "granted k5" "k_proc k5 = (k_proc k)\<lparr>nofile := l\<rparr>" "k_passwd k5 = k_passwd k"
    "k_threads k5 = []" "k_signals k5 = k_signals ?k3" "k_ended k5 = {}"
    using k5(2) assms(6,7) fds_onlyD [of ?k3 k5] by (simp_all add: moves_def fresh_def)
  then have "can_drop k5" using assms(8) by (simp add: can_drop_def)
  from drop_ok [OF d5(2) this] d5(3) obtain p n6 where
    k6: "main_dropuid0 k5 = Go () (k5\<lparr>k_proc := p, k_calls := n6\<rparr>)" "if ruid (k_proc k) = 0 then no_root p else p = (k_proc k)\<lparr>nofile := l\<rparr>" by auto
  from start_ok [OF cv(1,3,2) assms(3)] obtain m where m: "daemon_start W conf ids (u_sockfd udp) (u_sockfd dns) now g' = Some m" by blast
  from work_start_ok [of "k5\<lparr>k_proc := p, k_calls := n6\<rparr>" udp dns] d5(2) obtain n7 where
    k7: "daemon_work_start udp dns (k5\<lparr>k_proc := p, k_calls := n6\<rparr>) = Go () (k5\<lparr>k_proc := p, k_threads := map (\<lambda>r. (r, p))
      [Udp_thread (u_sockfd udp), Udp_thread (u_sockfd dns), Udp_client (u_sockfd udp)], k_calls := n7\<rparr>)" (is "_ = Go () ?k7") using d5(5) by auto
  have "daemon_main_start W cores argv now g k = Go (m, udp, dns) ?k7"
    unfolding daemon_main_start_def assms(4) option.case prod.case using k1 k2 k3 k4 k5(1) k6(1) k7 m by simp
  moreover have "daemon_up W conf now k udp dns ?k7"
    unfolding daemon_up_def using d5 k5(3-5) k6(2) by (auto split: if_splits)
  ultimately show ?thesis using m k5(6) by blast
qed

section \<open>The end\<close>

lemma join_ok: "granted k \<Longrightarrow> n < length (k_threads k) \<Longrightarrow> n \<in> k_ended k \<Longrightarrow>
    sys_pthread_join n k = Go 0 (k\<lparr>k_joined := Suc (k_joined k), k_calls := Suc (k_calls k)\<rparr>)"
  by (simp add: sys_pthread_join_def syscall_def granted_def)

lemma work_stop_ok:
  "granted k \<Longrightarrow> \<forall>i \<in> set is. i < length (k_threads k) \<and> i \<in> k_ended k \<Longrightarrow>
   \<exists>n. work_stop is k = Go () (k\<lparr>k_joined := k_joined k + length is, k_calls := n\<rparr>)"
proof (induction "is" arbitrary: k)
  case Nil
  then show ?case by (intro exI [of _ "k_calls k"]) simp
next
  case (Cons i "is")
  let ?k = "k\<lparr>k_joined := Suc (k_joined k), k_calls := Suc (k_calls k)\<rparr>"
  have "granted ?k" "\<forall>i \<in> set is. i < length (k_threads ?k) \<and> i \<in> k_ended ?k" using Cons.prems by (simp_all add: granted_def)
  from Cons.IH [OF this] obtain n where "work_stop is ?k = Go () (k\<lparr>k_joined := k_joined k + length (i # is), k_calls := n\<rparr>)" by auto
  with join_ok [of k i] Cons.prems show ?case by auto
qed

text \<open>As long as one of the threads has not ended, \<open>work_stop\<close> does not return.\<close>

lemma work_stop_waits:
  "granted k \<Longrightarrow> \<forall>i \<in> set is. i < length (k_threads k) \<Longrightarrow> \<not> set is \<subseteq> k_ended k \<Longrightarrow>
   \<exists>i k'. work_stop is k = Blocked i k' \<and> i \<in> set is \<and> i \<notin> k_ended k"
proof (induction "is" arbitrary: k)
  case (Cons i "is")
  show ?case
  proof (cases "i \<in> k_ended k")
    case False
    then have "sys_pthread_join i k = Blocked i k" using Cons.prems(2) by (simp add: sys_pthread_join_def)
    with False show ?thesis by auto
  next
    case True
    let ?k = "k\<lparr>k_joined := Suc (k_joined k), k_calls := Suc (k_calls k)\<rparr>"
    have "granted ?k" "\<forall>i \<in> set is. i < length (k_threads ?k)" "\<not> set is \<subseteq> k_ended ?k" using Cons.prems True by (simp_all add: granted_def)
    from Cons.IH [OF this] obtain j k' where "work_stop is ?k = Blocked j k'" "j \<in> set is" "j \<notin> k_ended k" by auto
    with join_ok [of k i] Cons.prems True show ?thesis by auto
  qed
qed simp

text \<open>Both sockets are open and registered, armed or not.\<close>

definition attached :: "(int \<rightharpoonup> DESC) \<Rightarrow> UDP \<Rightarrow> UDP \<Rightarrow> (int \<rightharpoonup> DESC) \<Rightarrow> bool" where
  "attached D udp dns E \<longleftrightarrow> (\<exists>s1 r1 s2 r2. E = D(u_sockfd udp \<mapsto> Socket s1, u_epollfd udp \<mapsto> Epoll [u_sockfd udp \<mapsto> r1],
     u_sockfd dns \<mapsto> Socket s2, u_epollfd dns \<mapsto> Epoll [u_sockfd dns \<mapsto> r2]))"

lemma main_stop_ok:
  assumes "granted k" and "attached D udp dns (desc k)" and "four_new D udp dns" and "length (k_threads k) = 3"
    and "\<forall>fd d. D fd = Some d \<longrightarrow> d = Terminal" and "{0, 1, 2} \<subseteq> k_ended k" and "main_frees m = Some ()"
  shows "\<exists>k'. daemon_main_stop W now' udp dns m k = Go 0 k' \<and> desc k' = D \<and> k_joined k' = k_joined k + 3"
proof -
  have three: "k_joined k + length [0, 1, 2 :: nat] = k_joined k + 3" by simp
  have "\<forall>i \<in> set [0, 1, 2]. i < length (k_threads k) \<and> i \<in> k_ended k" using assms(4,6) by simp
  from work_stop_ok [OF assms(1) this, unfolded three] obtain n where
    k1: "work_stop [0, 1, 2] k = Go () (k\<lparr>k_joined := k_joined k + 3, k_calls := n\<rparr>)" (is "_ = Go () ?k1") by blast
  from assms(2) obtain s1 r1 s2 r2 where a: "desc k = D(u_sockfd udp \<mapsto> Socket s1, u_epollfd udp \<mapsto> Epoll [u_sockfd udp \<mapsto> r1],
    u_sockfd dns \<mapsto> Socket s2, u_epollfd dns \<mapsto> Epoll [u_sockfd dns \<mapsto> r2])" by (auto simp: attached_def)
  let ?D1 = "D(u_sockfd udp \<mapsto> Socket s1, u_epollfd udp \<mapsto> Epoll [u_sockfd udp \<mapsto> r1])"
  have g1: "granted ?k1" using assms(1) by (simp add: granted_def)
  have d1: "desc ?k1 = ?D1(u_sockfd dns \<mapsto> Socket s2, u_epollfd dns \<mapsto> Epoll [u_sockfd dns \<mapsto> r2])" using a by simp
  have new: "?D1 (u_sockfd dns) = None" "?D1 (u_epollfd dns) = None" "u_sockfd dns \<noteq> u_epollfd dns"
    "\<forall>i m. ?D1 i = Some (Epoll m) \<longrightarrow> m (u_sockfd dns) = None \<and> m (u_epollfd dns) = None"
    using assms(3,5) by (auto simp: four_new_def split: if_splits)
  from udp_stop_moves [OF g1 d1 new] obtain dns' k2 where
    k2: "udp_stop W now' dns False ?k1 = Go dns' k2" "moves ?k1 k2 ?D1" by blast
  then have d2: "desc k2 = ?D1" "granted k2" "k_joined k2 = k_joined k + 3" using g1 fds_onlyD by (auto simp: moves_def)
  have old: "D (u_sockfd udp) = None" "D (u_epollfd udp) = None" "u_sockfd udp \<noteq> u_epollfd udp"
    "\<forall>i m. D i = Some (Epoll m) \<longrightarrow> m (u_sockfd udp) = None \<and> m (u_epollfd udp) = None"
    using assms(3,5) by (auto simp: four_new_def)
  from udp_stop_moves [OF d2(2,1) old] obtain udp' k3 where
    k3: "udp_stop W now' udp True k2 = Go udp' k3" "moves k2 k3 D" by blast
  have "daemon_main_stop W now' udp dns m k = Go 0 k3" unfolding daemon_main_stop_def using k1 k2(1) k3(1) assms(7) by simp
  moreover have "desc k3 = D" "k_joined k3 = k_joined k + 3" using k3(2) d2(3) fds_onlyD(6) by (auto simp: moves_def)
  ultimately show ?thesis by blast
qed

lemma main_stop_waits:
  assumes "granted k" and "length (k_threads k) = 3" and "\<not> {0, 1, 2} \<subseteq> k_ended k"
  shows "\<exists>i < 3. i \<notin> k_ended k \<and> (\<exists>k'. daemon_main_stop W now udp dns m k = Blocked i k')"
proof -
  have "\<forall>i \<in> set [0, 1, 2]. i < length (k_threads k)" using assms(2) by simp
  from work_stop_waits [OF assms(1) this] assms(3) obtain i k' where
    "work_stop [0, 1, 2] k = Blocked i k'" "i \<in> {0, 1, 2}" "i \<notin> k_ended k" by auto
  then show ?thesis unfolding daemon_main_stop_def by auto
qed

section \<open>The loop\<close>

text \<open>Datagrams that are safe one after the other.\<close>

fun recvs_safe :: "WORLD \<Rightarrow> udp_type \<Rightarrow> MAIN \<Rightarrow> RECV list \<Rightarrow> bool" where
  "recvs_safe W type m [] = True"
| "recvs_safe W type m (r # rs) =
     (event_safe W m (Datagram type r) \<and> (case handle W m (Datagram type r) of None \<Rightarrow> True | Some m' \<Rightarrow> recvs_safe W type m' rs))"

lemma reached_trans: "reached W m1 k m2 \<Longrightarrow> reached W m0 n m1 \<Longrightarrow> reached W m0 (n + k) m2"
  by (induction rule: reached.induct) (auto intro: reached_step)

lemma reached_one: "event_safe W m e \<Longrightarrow> handle W m e = Some m' \<Longrightarrow> reached W m 1 m'"
  using reached_step [OF reached_start] by simp

lemma input_reached:
  assumes "recvs_safe W type m rs" and "main_ok W (k + length rs * event_cost) m" and "sha1_law W"
  shows "\<exists>m' n. udp_input W type m rs = Some m' \<and> reached W m n m' \<and> n \<le> length rs"
  using assms(1,2)
proof (induction rs arbitrary: m)
  case Nil
  then show ?case using reached_start by auto
next
  case (Cons r rs)
  let ?e = "Datagram type r"
  have "main_ok W ((k + length rs * event_cost) + event_cost) m" using Cons.prems(2) by (simp add: algebra_simps)
  from handle_ok [OF this assms(3)] Cons.prems(1) obtain m1 where
    m1: "handle W m ?e = Some m1" "main_ok W (k + length rs * event_cost) m1" by (auto simp: algebra_simps)
  with Cons.prems(1) have s: "recvs_safe W type m1 rs" "event_safe W m ?e" by auto
  show ?case
  proof (cases "s_rumble m \<and> rc_data r \<noteq> []")
    case True
    then have "udp_datagram W type m r = Some m1" using m1(1) by (auto simp: handle_def split: bind_splits)
    moreover from Cons.IH [OF s(1) m1(2)] obtain m' n where "udp_input W type m1 rs = Some m'" "reached W m1 n m'" "n \<le> length rs" by blast
    ultimately show ?thesis using True reached_trans [OF _ reached_one [OF s(2) m1(1)]] by (auto intro!: exI [of _ "Suc n"])
  next
    case False
    then have "udp_input W type m (r # rs) = Some m" by auto
    then show ?thesis using reached_start by (metis le0)
  qed
qed

text \<open>The socket of a thread is registered and armed.\<close>

definition ready :: "KERNEL \<Rightarrow> UDP \<Rightarrow> bool" where
  "ready k udp \<longleftrightarrow> (\<exists>s. desc k (u_sockfd udp) = Some (Socket s)) \<and>
     desc k (u_epollfd udp) = Some (Epoll [u_sockfd udp \<mapsto> armed_entry {E_IN, E_ET, E_ONESHOT} (u_sockfd udp)])"

lemma up_ready:
  assumes "desc k = both_listening W conf now D udp dns" and "four_new D udp dns"
  shows "ready k udp" "ready k dns"
  using assms(2) unfolding ready_def assms(1) by (auto simp: both_listening_def listening_def four_new_def)

lemma disarmed_moves:
  assumes "ready k udp" and "ev_fd e = u_sockfd udp"
  shows "moves k (disarmed (u_epollfd udp) [e] k)
    ((desc k)(u_epollfd udp \<mapsto> Epoll [u_sockfd udp \<mapsto> (armed_entry {E_IN, E_ET, E_ONESHOT} (u_sockfd udp))\<lparr>rg_armed := False\<rparr>]))"
proof -
  let ?e = "armed_entry {E_IN, E_ET, E_ONESHOT} (u_sockfd udp)"
  have d: "desc k (u_epollfd udp) = Some (Epoll [u_sockfd udp \<mapsto> ?e])" using assms(1) by (simp add: ready_def)
  have "disarmed (u_epollfd udp) [e] k = set_desc (u_epollfd udp) (Epoll [u_sockfd udp \<mapsto> ?e\<lparr>rg_armed := False\<rparr>]) k"
    unfolding disarmed_def d using assms(2) by (auto simp: armed_entry_def intro!: arg_cong [where f = "\<lambda>m. set_desc (u_epollfd udp) (Epoll m) k"])
  with desc_set [OF d] show ?thesis by (simp add: moves_def fds_only_ok)
qed

lemma rearm_moves:
  assumes "granted k" and "desc k (u_sockfd udp) = Some (Socket s)" and "desc k (u_epollfd udp) = Some (Epoll [u_sockfd udp \<mapsto> r])"
  shows "\<exists>k'. udp_rearm udp (u_sockfd udp) k = Go () k' \<and>
    moves k k' ((desc k)(u_epollfd udp \<mapsto> Epoll [u_sockfd udp \<mapsto> armed_entry {E_IN, E_ET, E_ONESHOT} (u_sockfd udp)]))"
proof -
  have set: "{E_ET, E_IN, E_ONESHOT} = {E_IN, E_ET, E_ONESHOT}" by auto
  from epoll_ctl_moves [OF assms(1,3,2), of EPOLL_CTL_MOD "{E_ET, E_IN, E_ONESHOT}" "u_sockfd udp"] obtain k' where
    "sys_epoll_ctl (u_epollfd udp) EPOLL_CTL_MOD (u_sockfd udp) {E_ET, E_IN, E_ONESHOT} (u_sockfd udp) k = Go 0 k'"
    "moves k k' ((desc k)(u_epollfd udp \<mapsto> Epoll [u_sockfd udp \<mapsto> armed_entry {E_IN, E_ET, E_ONESHOT} (u_sockfd udp)]))"
    unfolding armed_entry_def set by auto
  then show ?thesis by (auto simp: udp_rearm_def)
qed

text \<open>What a thread is told: nothing, or that its socket can be read.\<close>

definition turn_ok :: "WORLD \<Rightarrow> UDP \<Rightarrow> MAIN \<Rightarrow> waited \<Rightarrow> bool" where
  "turn_ok W udp m wt = (case wt of
     W_failed \<Rightarrow> False
   | W_events es \<Rightarrow> (case es of [e] \<Rightarrow> ev_in e \<and> ev_fd e = u_sockfd udp \<and> recvs_safe W (u_type udp) m (ev_recv e) | _ \<Rightarrow> False)
   | _ \<Rightarrow> True)"

fun turn_size :: "waited \<Rightarrow> nat" where
  "turn_size (W_events es) = length (concat (map ev_recv es))"
| "turn_size _ = 1"

lemma turn_reached:
  assumes "granted k" and "ready k udp" and "turn_ok W udp m wt" and "main_ok W (j + turn_size wt * event_cost) m" and "sha1_law W" and "s_rumble m"
  shows "\<exists>m' k' n. udp_turn W udp wt m k = Go (m', True) k' \<and> moves k k' (desc k) \<and> reached W m n m' \<and> n \<le> turn_size wt"
proof (cases wt)
  case (W_timeout now)
  from handle_ok [where e = "Timeout (u_type udp) now", OF _ assms(5)] assms(4) W_timeout obtain m' where
    m': "handle W m (Timeout (u_type udp) now) = Some m'" by (auto simp: event_safe_def)
  from reached_one [OF _ m'] have "reached W m 1 m'" by (simp add: event_safe_def)
  with m' W_timeout assms(6) moves_refl [of k] show ?thesis by (auto simp: udp_turn_def handle_def intro!: exI [of _ "1 :: nat"])
next
  case (W_events es)
  then obtain e where e: "es = [e]" "ev_in e" "ev_fd e = u_sockfd udp" "recvs_safe W (u_type udp) m (ev_recv e)"
    using assms(3) by (auto simp: turn_ok_def split: list.splits)
  let ?k = "disarmed (u_epollfd udp) [e] k"
  note d = disarmed_moves [OF assms(2) e(3)]
  from assms(2) obtain s where s: "desc k (u_sockfd udp) = Some (Socket s)"
    "desc k (u_epollfd udp) = Some (Epoll [u_sockfd udp \<mapsto> armed_entry {E_IN, E_ET, E_ONESHOT} (u_sockfd udp)])" by (auto simp: ready_def)
  then have ne: "u_sockfd udp \<noteq> u_epollfd udp" by auto
  from rearm_moves [OF moves_granted [OF d assms(1)], of udp s] d s ne obtain k' where
    k': "udp_rearm udp (u_sockfd udp) ?k = Go () k'" "moves ?k k' (desc k)"
    by (auto simp: moves_def map_upd_triv)
  from input_reached [OF e(4) _ assms(5), of j] assms(4) W_events e(1) obtain m' n where
    m': "udp_input W (u_type udp) m (ev_recv e) = Some m'" "reached W m n m'" "n \<le> length (ev_recv e)" by auto
  have "udp_turn W udp wt m k = Go (m', True) k'" using W_events e k'(1) m'(1) assms(6) by (simp add: udp_turn_def)
  with moves_trans [OF d k'(2)] m'(2,3) W_events e(1) show ?thesis by auto
next
  case W_interrupted
  then show ?thesis using assms(6) moves_refl [of k] reached_start by (auto simp: udp_turn_def intro!: exI [of _ "0 :: nat"])
next
  case W_failed
  then show ?thesis using assms(3) by (simp add: turn_ok_def)
qed

lemma disarmed_attached:
  assumes "attached D udp dns (desc k)" and "four_new D udp dns" and "u \<in> {udp, dns}"
  shows "attached D udp dns (desc (disarmed (u_epollfd u) es k)) \<and> fds_only k (disarmed (u_epollfd u) es k)"
proof -
  from assms(1) obtain s1 r1 s2 r2 where a: "desc k = D(u_sockfd udp \<mapsto> Socket s1, u_epollfd udp \<mapsto> Epoll [u_sockfd udp \<mapsto> r1],
    u_sockfd dns \<mapsto> Socket s2, u_epollfd dns \<mapsto> Epoll [u_sockfd dns \<mapsto> r2])" by (auto simp: attached_def)
  note n = assms(2) [unfolded four_new_def]
  from a n assms(3) obtain r where d: "desc k (u_epollfd u) = Some (Epoll [u_sockfd u \<mapsto> r])" by auto
  obtain r' where "disarmed (u_epollfd u) es k = set_desc (u_epollfd u) (Epoll [u_sockfd u \<mapsto> r']) k"
  proof
    let ?r = "if u_sockfd u \<in> ev_fd ` set es \<and> E_ONESHOT \<in> rg_events r then r\<lparr>rg_armed := False\<rparr> else r"
    show "disarmed (u_epollfd u) es k = set_desc (u_epollfd u) (Epoll [u_sockfd u \<mapsto> ?r]) k"
      unfolding disarmed_def d by (auto intro!: arg_cong [where f = "\<lambda>m. set_desc (u_epollfd u) (Epoll m) k"])
  qed
  moreover have "attached D udp dns ((desc k)(u_epollfd u \<mapsto> Epoll [u_sockfd u \<mapsto> r']))" for r'
  proof (cases "u = udp")
    case True
    have "(desc k)(u_epollfd u \<mapsto> Epoll [u_sockfd u \<mapsto> r']) = D(u_sockfd udp \<mapsto> Socket s1, u_epollfd udp \<mapsto> Epoll [u_sockfd udp \<mapsto> r'],
      u_sockfd dns \<mapsto> Socket s2, u_epollfd dns \<mapsto> Epoll [u_sockfd dns \<mapsto> r2])" using n by (auto simp: a True fun_eq_iff)
    then show ?thesis unfolding attached_def by blast
  next
    case False
    then have "u = dns" using assms(3) by simp
    then have "(desc k)(u_epollfd u \<mapsto> Epoll [u_sockfd u \<mapsto> r']) = D(u_sockfd udp \<mapsto> Socket s1, u_epollfd udp \<mapsto> Epoll [u_sockfd udp \<mapsto> r1],
      u_sockfd dns \<mapsto> Socket s2, u_epollfd dns \<mapsto> Epoll [u_sockfd dns \<mapsto> r'])" by (simp add: a)
    then show ?thesis unfolding attached_def by blast
  qed
  ultimately show ?thesis using desc_set [OF d] fds_only_ok(2) by metis
qed

lemma turn_stopped:
  assumes "\<not> s_rumble m" and "attached D udp dns (desc k)" and "four_new D udp dns" and "u \<in> {udp, dns}"
  shows "\<exists>k'. udp_turn W u wt m k = Go (m, False) k' \<and> attached D udp dns (desc k') \<and> fds_only k k'"
  using assms(1,2) disarmed_attached [OF assms(2-4)] fds_only_refl by (cases wt) (auto simp: udp_turn_def)

section \<open>Runs\<close>

text \<open>
  The turns of both threads, the first requests and signals, in any order; the number bounds the events that are handled.  A thread ends when its turn says so, the third one
  when it has sent the first requests; a thread that has ended does nothing any more.
\<close>

definition thread_ends :: "nat \<Rightarrow> KERNEL \<Rightarrow> KERNEL" where
  "thread_ends i k = k\<lparr>k_ended := insert i (k_ended k)\<rparr>"

inductive daemon_runs :: "WORLD \<Rightarrow> UDP \<Rightarrow> UDP \<Rightarrow> MAIN \<Rightarrow> KERNEL \<Rightarrow> nat \<Rightarrow> MAIN \<Rightarrow> KERNEL \<Rightarrow> bool" for W udp dns m0 k0 where
  dr_start: "daemon_runs W udp dns m0 k0 0 m0 k0"
| dr_turn: "daemon_runs W udp dns m0 k0 n m k \<Longrightarrow> (i, u) \<in> {(0, udp), (1, dns)} \<Longrightarrow> i \<notin> k_ended k \<Longrightarrow> turn_ok W u m wt \<Longrightarrow>
    udp_turn W u wt m k = Go (m', b) k' \<Longrightarrow> daemon_runs W udp dns m0 k0 (n + turn_size wt) m' (if b then k' else thread_ends i k')"
| dr_client: "daemon_runs W udp dns m0 k0 n m k \<Longrightarrow> 2 \<notin> k_ended k \<Longrightarrow> udp_client W (u_type udp) m = Some m' \<Longrightarrow>
    daemon_runs W udp dns m0 k0 (Suc n) m' (thread_ends 2 k)"
| dr_signal: "daemon_runs W udp dns m0 k0 n m k \<Longrightarrow> daemon_runs W udp dns m0 k0 (Suc n) (m\<lparr>s_rumble := False\<rparr>) k"

text \<open>Two states of the kernel that differ in descriptors, in the number of calls and in the threads that have ended.\<close>

definition runs_only :: "KERNEL \<Rightarrow> KERNEL \<Rightarrow> bool" where
  "runs_only k k' \<longleftrightarrow> fds_only k (k'\<lparr>k_ended := k_ended k\<rparr>)"

lemma runs_only_refl: "runs_only k k"
  by (simp add: runs_only_def fds_only_refl)

lemma runs_only_fds: "runs_only k k1 \<Longrightarrow> fds_only k1 k2 \<Longrightarrow> runs_only k k2"
  by (cases k; cases k1; cases k2) (simp add: runs_only_def fds_only_def)

lemma runs_only_ends: "runs_only k k1 \<Longrightarrow> runs_only k (thread_ends i k1)"
  by (simp add: runs_only_def thread_ends_def)

lemma runs_onlyD:
  assumes "runs_only k k'"
  shows "granted k' = granted k" "k_threads k' = k_threads k"
  using fds_onlyD(1,4) [OF assms [unfolded runs_only_def]] by simp_all

lemma thread_ends_simps [simp]: "k_ended (thread_ends i k) = insert i (k_ended k)" "desc (thread_ends i k) = desc k" "granted (thread_ends i k) = granted k"
  by (simp_all add: thread_ends_def)

lemma both_attached: "attached D udp dns (both_listening W conf now D udp dns)"
  unfolding attached_def both_listening_def listening_def by blast

text \<open>What a run keeps.\<close>

definition run_inv :: "WORLD \<Rightarrow> CONF \<Rightarrow> time_t \<Rightarrow> (int \<rightharpoonup> DESC) \<Rightarrow> UDP \<Rightarrow> UDP \<Rightarrow> MAIN \<Rightarrow> KERNEL \<Rightarrow> nat \<Rightarrow> MAIN \<Rightarrow> KERNEL \<Rightarrow> bool" where
  "run_inv W conf now D udp dns m0 k0 n m k \<longleftrightarrow> (\<exists>n' \<le> n. reached W m0 n' m) \<and> runs_only k0 k \<and> attached D udp dns (desc k) \<and>
     (s_rumble m \<longrightarrow> desc k = both_listening W conf now D udp dns \<and> k_ended k \<inter> {0, 1} = {})"

lemma send_udp_rumble: "s_rumble (send_udp m sa raw) = s_rumble m"
  by (simp add: send_udp_def)

lemma send_aes_rumble: "send_aes W m sa raw = Some m' \<Longrightarrow> s_rumble m' = s_rumble m"
  unfolding send_aes_def by (auto simp: send_udp_rumble Let_def split: option.splits prod.splits bind_splits sum.splits)

lemma send_dict_rumble: "send_dict W m sa d = Some m' \<Longrightarrow> s_rumble m' = s_rumble m"
  unfolding send_dict_def by (auto simp: send_udp_rumble dest: send_aes_rumble split: if_splits bind_splits)

lemma send_ping_rumble: "send_ping W m sa tid = Some m' \<Longrightarrow> s_rumble m' = s_rumble m"
  unfolding send_ping_def by (rule send_dict_rumble)

lemma put_rumble: "main_tdb_put m type = Some (m', ti) \<Longrightarrow> s_rumble m' = s_rumble m"
  by (auto simp: main_tdb_put_def bind_eq_Some_conv')

lemma ping_rumble: "ping_addresses W m i as = Some m' \<Longrightarrow> s_rumble m' = s_rumble m"
proof (induction i arbitrary: m as)
  case (Suc i)
  show ?case
  proof (cases as)
    case (Cons a as')
    from Suc.prems obtain m1 ti tid m2 where "main_tdb_put m (if c_bootstrap_node (s_conf m) = BOOTSTRAP_MCAST (w_ver W) then P2P_PING_MULTICAST else P2P_PING) = Some (m1, ti)"
      "send_ping W m1 a tid = Some m2" "ping_addresses W m2 i as' = Some m'" unfolding Cons ping_addresses.simps by (auto split: bind_splits)
    with put_rumble send_ping_rumble Suc.IH show ?thesis by metis
  qed (use Suc.prems in simp)
qed simp

lemma this_rumble: "p2p_bootstrap_this W m node port = Some m' \<Longrightarrow> s_rumble m' = s_rumble m"
  by (auto simp: p2p_bootstrap_this_def dest: ping_rumble split: option.splits)

lemma each_rumble: "bootstrap_each W m nodes = Some m' \<Longrightarrow> s_rumble m' = s_rumble m"
  by (induction W m nodes rule: bootstrap_each.induct) (auto simp: bind_eq_Some_conv' dest: this_rumble)

lemma client_rumble: "udp_client W type m = Some m' \<Longrightarrow> s_rumble m' = s_rumble m"
  by (auto simp: udp_client_def p2p_bootstrap_def Let_def dest: this_rumble each_rumble split: if_splits)

lemma run_invD:
  assumes "run_inv W conf now D udp dns m0 k0 n m k"
  obtains n' where "n' \<le> n" "reached W m0 n' m" "runs_only k0 k" "attached D udp dns (desc k)"
    "s_rumble m \<longrightarrow> desc k = both_listening W conf now D udp dns \<and> k_ended k \<inter> {0, 1} = {}"
  using assms by (auto simp: run_inv_def)

lemma runs_inv:
  assumes "daemon_runs W udp dns m0 k0 n m k" and "main_ok W (n * event_cost) m0" and "sha1_law W"
    and "granted k0" and "desc k0 = both_listening W conf now D udp dns" and "four_new D udp dns" and "k_ended k0 = {}"
  shows "run_inv W conf now D udp dns m0 k0 n m k"
  using assms(1,2)
proof (induction rule: daemon_runs.induct)
  case dr_start
  then show ?case unfolding run_inv_def using assms(5,7) both_attached reached_start runs_only_refl by auto
next
  case (dr_turn n m k i u wt m' b k')
  have "main_ok W (n * event_cost) m0" by (rule main_ok_mono [OF dr_turn.prems]) simp
  from dr_turn.IH [OF this] obtain n' where i: "n' \<le> n" "reached W m0 n' m" "runs_only k0 k" "attached D udp dns (desc k)"
    "s_rumble m \<longrightarrow> desc k = both_listening W conf now D udp dns \<and> k_ended k \<inter> {0, 1} = {}" by (rule run_invD)
  have u: "u \<in> {udp, dns}" using dr_turn.hyps(2) by auto
  show ?case
  proof (cases "s_rumble m")
    case True
    have "main_ok W (0 + turn_size wt * event_cost + n' * event_cost) m0"
      by (rule main_ok_mono [OF dr_turn.prems]) (use i(1) in \<open>simp add: add_mult_distrib\<close>)
    from reached_ok [OF i(2) this assms(3)] have ok: "main_ok W (0 + turn_size wt * event_cost) m" .
    have d: "desc k = both_listening W conf now D udp dns" "ready k u" "granted k" "k_ended k \<inter> {0, 1} = {}"
      using i(3,5) True up_ready [of k W conf now D udp dns] assms(4,6) u runs_onlyD(1) by auto
    from turn_reached [OF d(3,2) dr_turn.hyps(4) ok assms(3) True] dr_turn.hyps(5) obtain l where
      l: "b" "moves k k' (desc k)" "reached W m l m'" "l \<le> turn_size wt" by auto
    moreover from reached_trans [OF l(3) i(2)] have "reached W m0 (n' + l) m'" .
    moreover have "fds_only k k'" using l(2) by (simp add: moves_def)
    moreover from this have "k_ended k' = k_ended k" by (rule fds_onlyD)
    ultimately show ?thesis unfolding run_inv_def using i(1) d(1,4) both_attached runs_only_fds [OF i(3), of k']
      by (auto simp: moves_def intro!: exI [of _ "n' + l"])
  next
    case False
    from turn_stopped [OF False i(4) assms(6) u, of W wt] dr_turn.hyps(5) have
      t: "m' = m" "\<not> b" "attached D udp dns (desc k')" "fds_only k k'" by auto
    with False i(1,2) runs_only_ends [OF runs_only_fds [OF i(3) t(4)]] show ?thesis unfolding run_inv_def by (auto intro!: exI [of _ n'])
  qed
next
  case (dr_client n m k m')
  have "main_ok W (n * event_cost) m0" by (rule main_ok_mono [OF dr_client.prems]) simp
  from dr_client.IH [OF this] obtain n' where i: "n' \<le> n" "reached W m0 n' m" "runs_only k0 k" "attached D udp dns (desc k)"
    "s_rumble m \<longrightarrow> desc k = both_listening W conf now D udp dns \<and> k_ended k \<inter> {0, 1} = {}" by (rule run_invD)
  have "reached W m0 (Suc n') m'" by (rule reached_step [OF i(2), of "Client (u_type udp)"]) (use dr_client.hyps(3) in \<open>simp_all add: event_safe_def handle_def\<close>)
  moreover have "s_rumble m' \<longrightarrow> s_rumble m" using client_rumble [OF dr_client.hyps(3)] by simp
  ultimately show ?case unfolding run_inv_def using i runs_only_ends by (auto intro!: exI [of _ "Suc n'"])
next
  case (dr_signal n m k)
  have "main_ok W (n * event_cost) m0" by (rule main_ok_mono [OF dr_signal.prems]) simp
  from dr_signal.IH [OF this] obtain n' where i: "n' \<le> n" "reached W m0 n' m" "runs_only k0 k" "attached D udp dns (desc k)"
    by (rule run_invD)
  have "reached W m0 (Suc n') (m\<lparr>s_rumble := False\<rparr>)" by (rule reached_step [OF i(2), of Signal]) (simp_all add: event_safe_def handle_def)
  with i show ?case unfolding run_inv_def by (auto intro!: exI [of _ "Suc n'"])
qed

text \<open>Once the program has been told to stop, every thread that has not ended does so with its next step.\<close>

lemma stop_turn:
  assumes "daemon_runs W udp dns m0 k0 n m k" and "\<not> s_rumble m" and "(i, u) \<in> {(0, udp), (1, dns)}"
  shows "\<exists>n' k'. n' \<le> Suc n \<and> daemon_runs W udp dns m0 k0 n' m k' \<and> k_ended k' = insert i (k_ended k)"
proof (cases "i \<in> k_ended k")
  case True
  then show ?thesis using assms(1) by (intro exI [of _ n] exI [of _ k]) auto
next
  case False
  have t: "udp_turn W u W_interrupted m k = Go (m, False) k" using assms(2) by (simp add: udp_turn_def)
  have "turn_ok W u m W_interrupted" by (simp add: turn_ok_def)
  from dr_turn [OF assms(1,3) False this t] show ?thesis
    by (intro exI [of _ "Suc n"] exI [of _ "thread_ends i k"]) simp
qed

lemma stop_client:
  assumes "daemon_runs W udp dns m0 k0 n m k" and "main_ok W event_cost m" and "sha1_law W"
  shows "\<exists>n' m' k'. n' \<le> Suc n \<and> daemon_runs W udp dns m0 k0 n' m' k' \<and> k_ended k' = insert 2 (k_ended k)"
proof (cases "2 \<in> k_ended k")
  case True
  then show ?thesis using assms(1) by (intro exI [of _ n] exI [of _ m] exI [of _ k]) auto
next
  case False
  from handle_ok [where e = "Client (u_type udp)" and k = 0, OF _ assms(3)] assms(2) obtain m' where "udp_client W (u_type udp) m = Some m'"
    by (auto simp: event_safe_def handle_def)
  from dr_client [OF assms(1) False this] show ?thesis
    by (intro exI [of _ "Suc n"] exI [of _ m'] exI [of _ "thread_ends 2 k"]) simp
qed

lemma stop_all:
  assumes "daemon_runs W udp dns m0 k0 n m k" and "\<not> s_rumble m" and "main_ok W event_cost m" and "sha1_law W"
  shows "\<exists>n' m' k'. n' \<le> n + 3 \<and> daemon_runs W udp dns m0 k0 n' m' k' \<and> {0, 1, 2} \<subseteq> k_ended k'"
proof -
  from stop_turn [OF assms(1,2), of 0 udp] obtain n1 k1 where
    1: "n1 \<le> Suc n" "daemon_runs W udp dns m0 k0 n1 m k1" "k_ended k1 = insert 0 (k_ended k)" by auto
  from stop_turn [OF 1(2) assms(2), of 1 dns] obtain n2 k2 where
    2: "n2 \<le> Suc n1" "daemon_runs W udp dns m0 k0 n2 m k2" "k_ended k2 = insert 1 (k_ended k1)" by auto
  from stop_client [OF 2(2) assms(3,4)] obtain n3 m3 k3 where
    3: "n3 \<le> Suc n2" "daemon_runs W udp dns m0 k0 n3 m3 k3" "k_ended k3 = insert 2 (k_ended k2)" by blast
  then show ?thesis using 1 2 by (intro exI [of _ n3] exI [of _ m3] exI [of _ k3]) auto
qed

section \<open>Refused calls\<close>

lemma bd_membership: "keeps before_drop (udp_membership W now udp enabled start)"
proof -
  have "keeps before_drop (sys_membership joins fd start)" for joins fd
    using bd.order_refl bd.order_set by (auto simp: keeps_def sys_membership_def split: option.splits DESC.splits)
  then show ?thesis unfolding udp_membership_def by (intro bd.keeps_fds)
qed

lemma bd_udp_start: "keeps before_drop (udp_start W conf now udp port mc)"
  unfolding udp_start_def udp_nonblocking_def udp_event_def sys_socket_def sys_v6only_def sys_bind_def sys_setfl_def sys_epoll_create_def Let_def
  by (intro bd.keeps_fds bd_membership)

lemma ad_work_start: "keeps after_drop (daemon_work_start udp dns)"
  unfolding daemon_work_start_def by (intro ad.keeps_fds ad_create)

text \<open>The part of \<open>main\<close> before the privileges are dropped, and the rest.\<close>

lemma main_start_crew:
  assumes "sha1_law W" and "rng_ok g" and "0 \<le> now" and "length argv \<le> ID_MAX"
    and "ruid (k_proc k) = 0" and "euid (k_proc k) = 0" and "k_threads k = []" and "nobody_ok (k_passwd k)"
  shows "case daemon_main_start W cores argv now g k of
      Go x k' \<Rightarrow> no_root (k_proc k') \<and> (\<forall>(r, p) \<in> set (k_threads k'). no_root p)
    | Exit n k' \<Rightarrow> n = 1 \<and> (\<forall>(r, p) \<in> set (k_threads k'). no_root p)
    | _ \<Rightarrow> False"
proof (cases "conf_init W cores argv g")
  case None
  then show ?thesis using assms(7) by (simp add: daemon_main_start_def)
next
  case (Some c)
  obtain conf ids log g' where c: "c = (conf, ids, log, g')" by (cases c) auto
  have cv: "conf_ok conf" "rng_ok g'" "names_ok ids" using conf_inits [OF assms(1,2) Some [unfolded c]] assms(4) by auto
  let ?open = "andthen unix_signal (\<lambda>_. andthen (unix_fork (log_console log)) (\<lambda>_. andthen (main_limits cores) (\<lambda>_.
    andthen (udp_start W conf now udp_init (c_p2p_port conf) True) (\<lambda>udp.
    andthen (udp_start W conf now udp_init (c_dns_port conf) False) (\<lambda>dns. ret (udp, dns))))))"
  let ?work = "\<lambda>(udp, dns). andthen (defined (daemon_start W conf ids (u_sockfd udp) (u_sockfd dns) now g')) (\<lambda>m.
    andthen (daemon_work_start udp dns) (\<lambda>_. ret (m, udp, dns)))"
  have main: "daemon_main_start W cores argv now g k = andthen ?open (\<lambda>u. andthen main_dropuid0 (\<lambda>_. ?work u)) k"
    by (simp add: daemon_main_start_def Some c andthen_def split: run.split)
  have o: "keeps before_drop ?open" by (intro bd.keeps_fds bd_signal bd_fork bd_limits bd_udp_start)
  have w: "keeps after_drop (?work u)" for u
  proof -
    obtain udp dns where u: "u = (udp, dns)" by (cases u)
    from start_ok [OF cv(1,3,2) assms(3), of W "u_sockfd udp" "u_sockfd dns"] obtain m where
      "daemon_start W conf ids (u_sockfd udp) (u_sockfd dns) now g' = Some m" by blast
    then show ?thesis unfolding u by (auto intro!: ad.keeps_fds ad_work_start)
  qed
  show ?thesis unfolding main by (rule drop_between [OF o w assms(5-8)])
qed

end
