(* ===== verification/Lifecycle.thy ===== *)
theory Lifecycle
  imports Udp_Run
begin

text \<open>
  The life of the daemon, from its command line to its end: what it has set up when its threads start, that its sockets are ready after every turn of a
  thread, that it never works as root, and that it gives back what it opened.
\<close>


text \<open>A process of root, and a kernel that refuses nothing.\<close>

definition ex_kernel :: "PROC \<Rightarrow> KERNEL" where
  "ex_kernel p = \<lparr>k_fds = [Some Terminal, Some Terminal, Some Terminal], k_proc = p, k_passwd = (\<lambda>_. Some \<lparr>pw_uid = 65534, pw_gid = 65534, pw_dir = lit ''/''\<rparr>),
     k_signals = Map.empty, k_daemon = False, k_threads = [], k_ended = {}, k_joined = 0, k_fate = (\<lambda>_. True), k_calls = 0\<rparr>"

lemma ex_kernel_ok: "granted (ex_kernel ex_root)" "fresh (ex_kernel ex_root)" "can_drop (ex_kernel ex_root)" "k_proc (ex_kernel p) = p"
proof -
  have "desc (ex_kernel ex_root) fd = Some d \<Longrightarrow> d = Terminal" for fd d
    by (cases "nat fd"; cases "nat fd - 1") (auto simp: desc_def ex_kernel_def nth_Cons split: if_splits nat.splits)
  then show "fresh (ex_kernel ex_root)" by (auto simp: fresh_def) (simp_all add: ex_kernel_def)
qed (simp_all add: granted_def can_drop_def ex_kernel_def ex_root_def)

lemma ex_line:
  "rng_ok ex_rng" "(0 :: time_t) \<le> 0" "length ex_argv \<le> ID_MAX" "c_p2p_port ex_home < 1024 \<or> c_dns_port ex_home < 1024 \<longrightarrow> euid (k_proc (ex_kernel ex_root)) = 0"
  by (simp_all add: rng_ok_def ex_rng_def ex_argv_def ex_home_def conf_defaults_def)


text \<open>
  C2: The daemon stays ready, as long as the system reports only what it should.  When the kernel refuses no call, in every state that the threads reach, and whatever one of them is told next out of a timeout, an interrupted wait or one event EPOLLIN for its own socket with
  datagrams that are not one of the recorded exceptions (\<open>turn_ok\<close>), the turn of the loop returns with all invariants intact, and both sockets are again registered and armed: no datagram that
  arrives later goes unnoticed.  Once the program has been told to stop, the turn ends the loop.  A failed wait ends the program, and an event without EPOLLIN leaves the socket disarmed for good (\<open>udp_deaf\<close>): both are outside this
  property.
\<close>

theorem daemon_stays_ready:
  assumes "sha1_law W" and "rng_ok g" and "0 \<le> now" and "conf_init W cores argv g = Some (conf, ids, log, g')" and "length argv \<le> ID_MAX"
    and "granted k" and "fresh k" and "can_drop k" and "c_p2p_port conf < 1024 \<or> c_dns_port conf < 1024 \<longrightarrow> euid (k_proc k) = 0"
    and "daemon_main_start W cores argv now g k = Go (m0, udp, dns) k0" and "daemon_runs W udp dns m0 k0 n m k1"
    and "u \<in> {udp, dns}" and "turn_ok W u m wt" and "int ((n + turn_size wt) * event_cost) + 1 < LONG_MAX"
  shows "\<exists>m' k2. udp_turn W u wt m k1 = Go (m', s_rumble m) k2 \<and> main_ok W 0 m' \<and> (s_rumble m \<longrightarrow> ready k2 udp \<and> ready k2 dns)"
proof -
  from main_start_up [OF assms(1-9)] assms(10) have s: "daemon_up W conf now k udp dns k0"
    "daemon_start W conf ids (u_sockfd udp) (u_sockfd dns) now g' = Some m0" by auto
  then have up: "granted k0" "desc k0 = both_listening W conf now (desc k) udp dns" "four_new (desc k) udp dns" "k_ended k0 = {}" by (auto simp: daemon_up_def)
  have cv: "conf_ok conf" "rng_ok g'" "names_ok ids" using conf_inits [OF assms(1,2,4)] assms(5) by auto
  have ok: "main_ok W (n * event_cost + turn_size wt * event_cost) m0"
    using start_ok [OF cv(1,3,2) assms(3), of W "u_sockfd udp" "u_sockfd dns"] s(2) assms(14) by (auto simp: algebra_simps)
  have "main_ok W (n * event_cost) m0" by (rule main_ok_mono [OF ok]) simp
  from runs_inv [OF assms(11) this assms(1) up] obtain n' where i: "n' \<le> n" "reached W m0 n' m" "runs_only k0 k1" "attached (desc k) udp dns (desc k1)"
    "s_rumble m \<longrightarrow> desc k1 = both_listening W conf now (desc k) udp dns \<and> k_ended k1 \<inter> {0, 1} = {}" by (rule run_invD)
  have "main_ok W (0 + turn_size wt * event_cost + n' * event_cost) m0" by (rule main_ok_mono [OF ok]) (use i(1) in simp)
  from reached_ok [OF i(2) this assms(1)] have m: "main_ok W (0 + turn_size wt * event_cost) m" .
  show ?thesis
  proof (cases "s_rumble m")
    case True
    then have d: "desc k1 = both_listening W conf now (desc k) udp dns" "ready k1 u" "granted k1"
      using i(3,5) up_ready [of k1 W conf now "desc k" udp dns] up(1,3) assms(12) runs_onlyD(1) by auto
    from turn_reached [OF d(3,2) assms(13) m assms(1) True] obtain m' k2 l where
      t: "udp_turn W u wt m k1 = Go (m', True) k2" "moves k1 k2 (desc k1)" "reached W m l m'" "l \<le> turn_size wt" by blast
    have "main_ok W (0 + l * event_cost) m" by (rule main_ok_mono [OF m]) (use t(4) in simp)
    from reached_ok [OF t(3) this assms(1)] have "main_ok W 0 m'" .
    moreover have "ready k2 udp" "ready k2 dns" using up_ready [of k2 W conf now "desc k" udp dns] t(2) d(1) up(3) by (auto simp: moves_def)
    ultimately show ?thesis using t(1) True by auto
  next
    case False
    from turn_stopped [OF False i(4) up(3) assms(12), of W wt] main_ok_mono [OF m, of 0] False show ?thesis by auto
  qed
qed

theorem daemon_stays_ready_witness:
  "\<exists>m udp dns k0 m' k2. daemon_main_start ex_world 4 ex_argv 0 ex_rng (ex_kernel ex_root) = Go (m, udp, dns) k0 \<and>
     udp_turn ex_world udp (W_timeout 5) m k0 = Go (m', True) k2 \<and> main_ok ex_world 0 m' \<and> ready k2 udp \<and> ready k2 dns"
proof -
  obtain ids where init: "conf_init ex_world 4 ex_argv ex_rng = Some (ex_home, ids, log_init\<lparr>log_verbosely := False\<rparr>, snd (rand_urandom ex_rng 20))"
    using ex_conf_init by blast
  from main_start_up [OF ex_sha1 ex_line(1,2) init ex_line(3) ex_kernel_ok(1-3) ex_line(4)] obtain m udp dns k0 where
    s: "daemon_main_start ex_world 4 ex_argv 0 ex_rng (ex_kernel ex_root) = Go (m, udp, dns) k0" "s_rumble m" using start_sockets(3) by blast
  from daemon_stays_ready [OF ex_sha1 ex_line(1,2) init ex_line(3) ex_kernel_ok(1-3) ex_line(4) s(1) dr_start, of udp "W_timeout 5"] s show ?thesis
    by (auto simp: turn_ok_def)
qed

text \<open>
  C26: The daemon never works as root.  Started by root, on a system whose user nobody is not root, and whatever calls the system refuses (among them setenv, setgid, setuid and the two attempts to become root again), main either gets to its threads or ends with a
  failure, and every thread that has been created until then has no user or group id of root; so has the process when it goes on.
\<close>

theorem daemon_unprivileged:
  assumes "sha1_law W" and "rng_ok g" and "0 \<le> now" and "length argv \<le> ID_MAX" and "ruid (k_proc k) = 0" and "euid (k_proc k) = 0" and "k_threads k = []"
    and "nobody_ok (k_passwd k)"
  shows "case daemon_main_start W cores argv now g k of
      Go x k' \<Rightarrow> no_root (k_proc k') \<and> (\<forall>(r, p) \<in> set (k_threads k'). no_root p)
    | Exit n k' \<Rightarrow> n = 1 \<and> (\<forall>(r, p) \<in> set (k_threads k'). no_root p)
    | _ \<Rightarrow> False"
  by (rule main_start_crew [OF assms])

text \<open>The calls up to the change of the group succeed; setuid is refused.\<close>

theorem daemon_unprivileged_witness:
  "case daemon_main_start ex_world 4 ex_argv 0 ex_rng ((ex_kernel ex_root)\<lparr>k_fate := (\<lambda>n. n < 19)\<rparr>) of
      Go x k' \<Rightarrow> no_root (k_proc k') | Exit n k' \<Rightarrow> n = 1 \<and> (\<forall>(r, p) \<in> set (k_threads k'). no_root p) | _ \<Rightarrow> False"
proof -
  let ?k = "(ex_kernel ex_root)\<lparr>k_fate := (\<lambda>n. n < 19)\<rparr>"
  have k: "ruid (k_proc ?k) = 0" "euid (k_proc ?k) = 0" "k_threads ?k = []" "nobody_ok (k_passwd ?k)"
    by (simp_all add: ex_kernel_def ex_root_def nobody_ok_def)
  from daemon_unprivileged [OF ex_sha1 ex_line(1-3) k, of 4] show ?thesis by (auto split: run.splits)
qed

text \<open>
  An event without data makes the daemon deaf.  When epoll reports a socket without EPOLLIN, an error condition for example, udp_worker only logs it: the one-shot registration is not renewed.  The socket stays disarmed
  however often the thread wakes up afterwards, and no datagram is read any more, although the program goes on.
\<close>

theorem udp_deaf:
  assumes "ready k udp" and "s_rumble m" and "ev_fd e = u_sockfd udp" and "\<not> ev_in e"
  shows "\<exists>k'. udp_turn W udp (W_events [e]) m k = Go (m, True) k' \<and>
    desc k' (u_epollfd udp) = Some (Epoll [u_sockfd udp \<mapsto> (armed_entry {E_IN, E_ET, E_ONESHOT} (u_sockfd udp))\<lparr>rg_armed := False\<rparr>]) \<and>
    (\<forall>m1 wt m2 b k2. wt = W_interrupted \<or> (\<exists>now. wt = W_timeout now) \<longrightarrow> udp_turn W udp wt m1 k' = Go (m2, b) k2 \<longrightarrow> k2 = k')"
proof -
  let ?k = "disarmed (u_epollfd udp) [e] k"
  have "udp_turn W udp (W_events [e]) m k = Go (m, True) ?k" using assms(2,4) by (simp add: udp_turn_def)
  moreover have "desc ?k (u_epollfd udp) = Some (Epoll [u_sockfd udp \<mapsto> (armed_entry {E_IN, E_ET, E_ONESHOT} (u_sockfd udp))\<lparr>rg_armed := False\<rparr>])"
    using disarmed_moves [OF assms(1,3)] by (simp add: moves_def)
  moreover have "k2 = ?k" if "wt = W_interrupted \<or> (\<exists>now. wt = W_timeout now)" "udp_turn W udp wt m1 ?k = Go (m2, b) k2" for m1 wt m2 b k2
    using that by (auto simp: udp_turn_def Let_def andthen_def defined_def split: if_splits option.splits)
  ultimately show ?thesis by blast
qed

theorem udp_deaf_witness:
  "\<exists>m udp dns k0 k'. daemon_main_start ex_world 4 ex_argv 0 ex_rng (ex_kernel ex_root) = Go (m, udp, dns) k0 \<and>
     udp_turn ex_world udp (W_events [\<lparr>ev_in = False, ev_fd = u_sockfd udp, ev_recv = []\<rparr>]) m k0 = Go (m, True) k' \<and> \<not> ready k' udp"
proof -
  obtain ids where init: "conf_init ex_world 4 ex_argv ex_rng = Some (ex_home, ids, log_init\<lparr>log_verbosely := False\<rparr>, snd (rand_urandom ex_rng 20))"
    using ex_conf_init by blast
  from main_start_up [OF ex_sha1 ex_line(1,2) init ex_line(3) ex_kernel_ok(1-3) ex_line(4)] obtain m udp dns k0 where
    s: "daemon_main_start ex_world 4 ex_argv 0 ex_rng (ex_kernel ex_root) = Go (m, udp, dns) k0" "s_rumble m"
      "daemon_up ex_world ex_home 0 (ex_kernel ex_root) udp dns k0" using start_sockets(3) by blast
  then have rd: "ready k0 udp" using up_ready(1) by (auto simp: daemon_up_def)
  let ?e = "\<lparr>ev_in = False, ev_fd = u_sockfd udp, ev_recv = []\<rparr>"
  from udp_deaf [OF rd s(2), of ?e ex_world] obtain k' where
    "udp_turn ex_world udp (W_events [?e]) m k0 = Go (m, True) k'"
    "desc k' (u_epollfd udp) = Some (Epoll [u_sockfd udp \<mapsto> (armed_entry {E_IN, E_ET, E_ONESHOT} (u_sockfd udp))\<lparr>rg_armed := False\<rparr>])" by auto
  moreover from this(2) have "\<not> ready k' udp" by (auto simp: ready_def armed_entry_def dest: fun_cong [of _ _ "u_sockfd udp"])
  ultimately show ?thesis using s(1) by blast
qed

end
