(* ===== verification/Web_Threads.thy ===== *)
theory Web_Threads
  imports Web List_Steps
begin

text \<open>
  The threads of the web server (\<open>tcp_thread\<close> and what it calls in \<^verbatim>\<open>src/src/web/tcp.c\<close> and
  \<^verbatim>\<open>node_tcp.c\<close>, the mutexes of \<^verbatim>\<open>src/src/shr/thrd.c\<close>).  Any number of threads take steps in any order.  The list of connections is
  changed one memory access at a time (List_Steps), as are the two counters of \<^verbatim>\<open>worker.c\<close>; so is the allocation and release of the connections.
  The work on the data of a connection, between the event and \<open>tcp_gate\<close>, touches what belongs to that connection, and the table of mime types.  The table is read without a lock; a new type is
  added under \<open>_main->mime->mutex\<close> (\<^verbatim>\<open>mime.c\<close>), which readers do not take, and \<open>hash_put\<close> moves the pairs of a bucket with \<open>realloc\<close>.  So the work has its points of its own: the
  lookups, the addition, and the lookup after it; an addition while another thread is between its lookups is \<open>Wrong\<close>.
  \<open>Wrong\<close> is what the program must not do: follow a pointer that is null or may have been freed, free twice, unlock what it does not hold, or call \<open>fail\<close>.
\<close>

section \<open>State\<close>

datatype mutex = Work_mutex | Tcp_node | Mime_mutex

datatype ev_kind = EPOLLIN | EPOLLOUT | EPOLLHUP

text \<open>The entries of the array \<open>events\<close>: the listening socket, or a connection by the address of its list item.\<close>

datatype task = New_conn | Event ptr ev_kind

datatype pc =
    T_start | T_id_load | T_id_store nat | T_id_unblock
  | T_wait
  | T_enter | T_inc_load | T_inc_store int | T_inc_unblock
  | T_tasks | T_accept
  | T_handle ptr ev_kind | T_mime_block ptr TCP_NODE MDB rng | T_mime_add ptr TCP_NODE MDB rng | T_mime_unblock ptr TCP_NODE rng | T_again ptr TCP_NODE rng
  | T_put_block ptr | T_put_run ptr "ptr put_pc" | T_put_got ptr "ptr option"
  | T_gate ptr | T_shut ptr | T_shut_block ptr ptr | T_disconnect ptr ptr | T_release ptr ptr | T_del_run ptr del_pc
  | T_leave | T_dec_load | T_dec_store int | T_dec_unblock
  | T_exit

record THREAD =
  t_num :: nat
  t_tasks :: "task list"
  t_pc :: pc

text \<open>
  The list \<open>_main->node\<close>, whose items point to the nodes; the memory of the nodes, with the responses that wait in them; the nodes whose \<open>connfd\<close> is open; what epoll waits for, by item;
  the owners of the mutexes; \<open>id\<close> and \<open>active\<close> of \<open>_main->work\<close>.
\<close>

record SYS =
  y_list :: "ptr LIST"
  y_nodes :: "ptr \<rightharpoonup> TCP_NODE"
  y_brk :: ptr
  y_conns :: "ptr set"
  y_armed :: "ptr \<rightharpoonup> tcp_mode"
  y_lock :: "mutex \<rightharpoonup> nat"
  y_id :: nat
  y_active :: int
  y_mime :: MDB
  y_rng :: rng
  y_rumble :: bool
  y_threads :: "THREAD list"

definition threads_start :: "nat \<Rightarrow> MDB \<Rightarrow> rng \<Rightarrow> SYS" where
  "threads_start k mime g =
     \<lparr>y_list = list_init, y_nodes = Map.empty, y_brk = 0, y_conns = {}, y_armed = Map.empty, y_lock = Map.empty, y_id = 0, y_active = 0,
      y_mime = mime, y_rng = g, y_rumble = True, y_threads = replicate k \<lparr>t_num = 0, t_tasks = [], t_pc = T_start\<rparr>\<rparr>"

section \<open>Steps\<close>

datatype outcome = Next SYS | Waits mutex | Finished | Wrong

text \<open>What the system calls of a step return.\<close>

datatype WAITRES = Events "task list" | Interrupted | WaitFailed

record INPUT =
  in_wait :: WAITRES
  in_accept :: "ACCEPT option"
  in_recv :: RECVRES
  in_sock :: SOCK
  in_now :: time_t

definition goto :: "SYS \<Rightarrow> nat \<Rightarrow> pc \<Rightarrow> SYS" where
  "goto c i q = c\<lparr>y_threads := (y_threads c)[i := (y_threads c ! i)\<lparr>t_pc := q\<rparr>]\<rparr>"

definition with_tasks :: "SYS \<Rightarrow> nat \<Rightarrow> task list \<Rightarrow> SYS" where
  "with_tasks c i ts = c\<lparr>y_threads := (y_threads c)[i := (y_threads c ! i)\<lparr>t_tasks := ts\<rparr>]\<rparr>"

definition mutex_block :: "SYS \<Rightarrow> nat \<Rightarrow> mutex \<Rightarrow> pc \<Rightarrow> outcome" where
  "mutex_block c i m q =
     (case y_lock c m of None \<Rightarrow> Next (goto (c\<lparr>y_lock := (y_lock c)(m \<mapsto> i)\<rparr>) i q) | Some _ \<Rightarrow> Waits m)"

definition mutex_unblock :: "SYS \<Rightarrow> nat \<Rightarrow> mutex \<Rightarrow> pc \<Rightarrow> outcome" where
  "mutex_unblock c i m q =
     (if y_lock c m = Some i then Next (goto (c\<lparr>y_lock := (y_lock c)(m := None)\<rparr>) i q) else Wrong)"

fun task_items :: "task list \<Rightarrow> ptr list" where
  "task_items [] = []"
| "task_items (New_conn # ts) = task_items ts"
| "task_items (Event p k # ts) = p # task_items ts"

text \<open>\<open>epoll_wait\<close> disarms what it reports.\<close>

definition disarm :: "SYS \<Rightarrow> task list \<Rightarrow> SYS" where
  "disarm c ts = c\<lparr>y_armed := y_armed c |` (- set (task_items ts))\<rparr>"

definition wait_step :: "INPUT \<Rightarrow> nat \<Rightarrow> SYS \<Rightarrow> outcome" where
  "wait_step x i c =
     (case in_wait x of
        Events ts \<Rightarrow>
          if \<not> y_rumble c then Next (goto (disarm c ts) i T_exit)
          else if ts = [] then Next c
          else Next (goto (with_tasks (disarm c ts) i ts) i T_enter)
      | Interrupted \<Rightarrow> Next (if y_rumble c then c else goto c i T_exit)
      | WaitFailed \<Rightarrow> if y_rumble c then Wrong else Next (goto c i T_exit))"

text \<open>The node an item points to.\<close>

definition node_of :: "SYS \<Rightarrow> ptr \<Rightarrow> (ptr \<times> TCP_NODE) option" where
  "node_of c p = do { n \<leftarrow> payload (y_list c) p; t \<leftarrow> y_nodes c n; Some (n, t) }"

definition event_handler :: "SITE \<Rightarrow> INPUT \<Rightarrow> SYS \<Rightarrow> TCP_NODE \<Rightarrow> ev_kind \<Rightarrow> (TCP_NODE \<times> MDB \<times> rng) option" where
  "event_handler w x c t k =
     (case k of
        EPOLLIN \<Rightarrow> if y_rumble c then tcp_input w (in_now x) (y_mime c) (y_rng c) (in_sock x) t (in_recv x)
                   else Some (t, y_mime c, y_rng c)
      | EPOLLOUT \<Rightarrow> map_option (\<lambda>t. (t, y_mime c, y_rng c)) (tcp_output w (in_sock x) t)
      | EPOLLHUP \<Rightarrow> Some (t, y_mime c, y_rng c))"

definition task_step :: "nat \<Rightarrow> SYS \<Rightarrow> outcome" where
  "task_step i c =
     (case t_tasks (y_threads c ! i) of
        [] \<Rightarrow> Next (goto c i T_leave)
      | New_conn # ts \<Rightarrow> Next (goto (with_tasks c i ts) i T_accept)
      | Event p k # ts \<Rightarrow>
          (case node_of c p of None \<Rightarrow> Wrong | Some _ \<Rightarrow> Next (goto (with_tasks c i ts) i (T_handle p k))))"

text \<open>
  The handler up to the point where \<open>mime_magic\<close> wants to add a type, or to its end when every suffix is known.  It computes with the table as it finds it; should it have to add something, it
  keeps its results and asks for the mutex.
\<close>

definition handle_step :: "SITE \<Rightarrow> INPUT \<Rightarrow> nat \<Rightarrow> SYS \<Rightarrow> ptr \<Rightarrow> ev_kind \<Rightarrow> outcome" where
  "handle_step w x i c p k =
     (case node_of c p of None \<Rightarrow> Wrong
      | Some (n, t) \<Rightarrow>
          (case event_handler w x c t k of None \<Rightarrow> Wrong
           | Some (t', mime, g) \<Rightarrow>
               if mime = y_mime c then Next (goto (c\<lparr>y_nodes := (y_nodes c)(n \<mapsto> t'), y_rng := g\<rparr>) i (T_gate p))
               else Next (goto c i (T_mime_block p t' mime g))))"

text \<open>The points of the program between the first lookup of a handler and its last one.\<close>

fun in_handler :: "pc \<Rightarrow> bool" where
  "in_handler (T_handle p k) = True"
| "in_handler (T_mime_block p t mime g) = True"
| "in_handler (T_mime_add p t mime g) = True"
| "in_handler (T_mime_unblock p t g) = True"
| "in_handler (T_again p t g) = True"
| "in_handler _ = False"

text \<open>\<open>mime_add\<close> under the mutex.  A thread that is in a handler may have loaded the address of the pairs which \<open>realloc\<close> now frees.\<close>

definition mime_add_step :: "nat \<Rightarrow> SYS \<Rightarrow> ptr \<Rightarrow> TCP_NODE \<Rightarrow> MDB \<Rightarrow> rng \<Rightarrow> outcome" where
  "mime_add_step i c p t mime g =
     (if list_ex (\<lambda>j. j \<noteq> i \<and> in_handler (t_pc (y_threads c ! j))) [0..<length (y_threads c)] then Wrong
      else Next (goto (c\<lparr>y_mime := mime\<rparr>) i (T_mime_unblock p t g)))"

text \<open>The lookup after the addition, and the rest of the handler.\<close>

definition again_step :: "nat \<Rightarrow> SYS \<Rightarrow> ptr \<Rightarrow> TCP_NODE \<Rightarrow> rng \<Rightarrow> outcome" where
  "again_step i c p t g =
     (case node_of c p of None \<Rightarrow> Wrong
      | Some (n, _) \<Rightarrow> Next (goto (c\<lparr>y_nodes := (y_nodes c)(n \<mapsto> t), y_rng := g\<rparr>) i (T_gate p)))"

definition accept_step :: "INPUT \<Rightarrow> nat \<Rightarrow> SYS \<Rightarrow> outcome" where
  "accept_step x i c =
     (case in_accept x of
        None \<Rightarrow> Next (goto c i T_tasks)
      | Some AcceptFailed \<Rightarrow> Wrong
      | Some Accepted \<Rightarrow>
          Next (goto (c\<lparr>y_nodes := (y_nodes c)(y_brk c \<mapsto> node_put), y_brk := Suc (y_brk c), y_conns := insert (y_brk c) (y_conns c)\<rparr>) i (T_put_block (y_brk c))))"

definition put_run_step :: "nat \<Rightarrow> SYS \<Rightarrow> ptr \<Rightarrow> ptr put_pc \<Rightarrow> outcome" where
  "put_run_step i c n q =
     (case q of Put_ret r \<Rightarrow> mutex_unblock c i Tcp_node (T_put_got n r)
      | _ \<Rightarrow> (case put_step q (y_list c) of None \<Rightarrow> Wrong
          | Some (q', L) \<Rightarrow> Next (goto (c\<lparr>y_list := L\<rparr>) i (T_put_run n q'))))"

text \<open>
  Without a place in the list the node is freed and the socket is taken off the watchlist, where it is not: \<open>node_disconnect\<close> then ends the program.
\<close>

definition put_got_step :: "nat \<Rightarrow> SYS \<Rightarrow> ptr \<Rightarrow> ptr option \<Rightarrow> outcome" where
  "put_got_step i c n r =
     (case r of
        None \<Rightarrow> if y_rumble c then Wrong else Next (goto (c\<lparr>y_nodes := (y_nodes c)(n := None), y_conns := y_conns c - {n}\<rparr>) i T_tasks)
      | Some p \<Rightarrow> (case node_of c p of None \<Rightarrow> Wrong
          | Some _ \<Rightarrow> Next (goto (c\<lparr>y_armed := (y_armed c)(p \<mapsto> TCP_INPUT)\<rparr>) i T_accept)))"

definition gate_step :: "nat \<Rightarrow> SYS \<Rightarrow> ptr \<Rightarrow> outcome" where
  "gate_step i c p =
     (case node_of c p of None \<Rightarrow> Wrong
      | Some (n, t) \<Rightarrow>
          (case pipeline t of
             NODE_SHUTDOWN \<Rightarrow> Next (goto c i (T_shut p))
           | NODE_READY \<Rightarrow> Next (goto (c\<lparr>y_armed := (y_armed c)(p \<mapsto> TCP_INPUT)\<rparr>) i T_tasks)
           | _ \<Rightarrow> Next (goto (c\<lparr>y_armed := (y_armed c)(p \<mapsto> TCP_OUTPUT)\<rparr>) i T_tasks)))"

definition del_run_step :: "nat \<Rightarrow> SYS \<Rightarrow> ptr \<Rightarrow> del_pc \<Rightarrow> outcome" where
  "del_run_step i c p q =
     (case q of Del_ret _ \<Rightarrow> mutex_unblock c i Tcp_node T_tasks
      | _ \<Rightarrow> (case del_step q (y_list c) of None \<Rightarrow> Wrong
          | Some (q', L) \<Rightarrow> Next (goto (c\<lparr>y_list := L\<rparr>) i (T_del_run p q'))))"

definition thread_step :: "SITE \<Rightarrow> INPUT \<Rightarrow> nat \<Rightarrow> SYS \<Rightarrow> outcome" where
  "thread_step w x i c =
     (case t_pc (y_threads c ! i) of
        T_start \<Rightarrow> mutex_block c i Work_mutex T_id_load
      | T_id_load \<Rightarrow> Next (goto c i (T_id_store (y_id c)))
      | T_id_store n \<Rightarrow>
          Next (c\<lparr>y_id := Suc n, y_threads := (y_threads c)[i := (y_threads c ! i)\<lparr>t_num := n, t_pc := T_id_unblock\<rparr>]\<rparr>)
      | T_id_unblock \<Rightarrow> mutex_unblock c i Work_mutex T_wait
      | T_wait \<Rightarrow> wait_step x i c
      | T_enter \<Rightarrow> mutex_block c i Work_mutex T_inc_load
      | T_inc_load \<Rightarrow> Next (goto c i (T_inc_store (y_active c)))
      | T_inc_store n \<Rightarrow> Next (goto (c\<lparr>y_active := n + 1\<rparr>) i T_inc_unblock)
      | T_inc_unblock \<Rightarrow> mutex_unblock c i Work_mutex T_tasks
      | T_tasks \<Rightarrow> task_step i c
      | T_accept \<Rightarrow> accept_step x i c
      | T_handle p k \<Rightarrow> handle_step w x i c p k
      | T_mime_block p t mime g \<Rightarrow> mutex_block c i Mime_mutex (T_mime_add p t mime g)
      | T_mime_add p t mime g \<Rightarrow> mime_add_step i c p t mime g
      | T_mime_unblock p t g \<Rightarrow> mutex_unblock c i Mime_mutex (T_again p t g)
      | T_again p t g \<Rightarrow> again_step i c p t g
      | T_put_block n \<Rightarrow> mutex_block c i Tcp_node (T_put_run n (Put_size n))
      | T_put_run n q \<Rightarrow> put_run_step i c n q
      | T_put_got n r \<Rightarrow> put_got_step i c n r
      | T_gate p \<Rightarrow> gate_step i c p
      | T_shut p \<Rightarrow> (case payload (y_list c) p of None \<Rightarrow> Wrong | Some n \<Rightarrow> Next (goto c i (T_shut_block p n)))
      | T_shut_block p n \<Rightarrow> mutex_block c i Tcp_node (T_disconnect p n)
      | T_disconnect p n \<Rightarrow>
          (case y_nodes c n of None \<Rightarrow> Wrong | Some _ \<Rightarrow> Next (goto (c\<lparr>y_armed := (y_armed c)(p := None), y_conns := y_conns c - {n}\<rparr>) i (T_release p n)))
      | T_release p n \<Rightarrow>
          (case y_nodes c n of None \<Rightarrow> Wrong
           | Some _ \<Rightarrow> Next (goto (c\<lparr>y_nodes := (y_nodes c)(n := None)\<rparr>) i (T_del_run p (Del_null (Some p)))))
      | T_del_run p q \<Rightarrow> del_run_step i c p q
      | T_leave \<Rightarrow> mutex_block c i Work_mutex T_dec_load
      | T_dec_load \<Rightarrow> Next (goto c i (T_dec_store (y_active c)))
      | T_dec_store n \<Rightarrow> Next (goto (c\<lparr>y_active := n - 1\<rparr>) i T_dec_unblock)
      | T_dec_unblock \<Rightarrow> mutex_unblock c i Work_mutex T_wait
      | T_exit \<Rightarrow> Finished)"

text \<open>
  What the surroundings guarantee: the kernel reports a connection only for what it is armed for, and once; \<open>accept\<close> and the cork option do not fail, and the peer takes the
  answer sooner or later or breaks the connection.
\<close>

definition tasks_ok :: "SYS \<Rightarrow> task list \<Rightarrow> bool" where
  "tasks_ok c ts \<longleftrightarrow> distinct (task_items ts) \<and>
     (\<forall>p k. Event p k \<in> set ts \<longrightarrow> (case y_armed c p of None \<Rightarrow> False
        | Some TCP_INPUT \<Rightarrow> k \<noteq> EPOLLOUT | Some TCP_OUTPUT \<Rightarrow> k \<noteq> EPOLLIN))"

text \<open>
  A request for a file whose suffix is not in the table is handled alone: no other thread is in a handler when the addition is found to be necessary, and none enters one before it is made.
  Nothing in the code ensures this.
\<close>

fun adding :: "pc \<Rightarrow> bool" where
  "adding (T_mime_block p t mime g) = True"
| "adding (T_mime_add p t mime g) = True"
| "adding _ = False"

definition alone :: "SYS \<Rightarrow> nat \<Rightarrow> (pc \<Rightarrow> bool) \<Rightarrow> bool" where
  "alone c i P \<longleftrightarrow> (\<forall>j < length (y_threads c). j \<noteq> i \<longrightarrow> \<not> P (t_pc (y_threads c ! j)))"

definition mime_alone :: "SITE \<Rightarrow> INPUT \<Rightarrow> nat \<Rightarrow> SYS \<Rightarrow> bool" where
  "mime_alone w x i c \<longleftrightarrow>
     (\<forall>p k ts. t_pc (y_threads c ! i) = T_tasks \<longrightarrow> t_tasks (y_threads c ! i) = Event p k # ts \<longrightarrow> alone c i adding) \<and>
     (\<forall>p k n t t' mime g. t_pc (y_threads c ! i) = T_handle p k \<longrightarrow> node_of c p = Some (n, t) \<longrightarrow> event_handler w x c t k = Some (t', mime, g) \<longrightarrow>
        mime \<noteq> y_mime c \<longrightarrow> alone c i in_handler)"

definition input_ok :: "SITE \<Rightarrow> INPUT \<Rightarrow> nat \<Rightarrow> SYS \<Rightarrow> bool" where
  "input_ok w x i c \<longleftrightarrow>
     date_ok (in_now x) \<and> cork_ok (in_sock x) \<and> in_wait x \<noteq> WaitFailed \<and> in_accept x \<noteq> Some AcceptFailed \<and> int (y_brk c) < LONG_MAX \<and>
     (\<forall>ts. in_wait x = Events ts \<longrightarrow> tasks_ok c ts) \<and> mime_alone w x i c \<and>
     (\<forall>p n t buffer. t_pc (y_threads c ! i) = T_handle p EPOLLIN \<longrightarrow> node_of c p = Some (n, t) \<longrightarrow> in_recv x = Received buffer \<longrightarrow>
        answer_taken w (in_now x) (tcp_start (y_mime c) (y_rng c)) (in_sock x) t buffer)"

inductive threads_reached :: "SITE \<Rightarrow> nat \<Rightarrow> SYS \<Rightarrow> bool" for w k where
  thr_start: "mime_load mime_init = Some mime \<Longrightarrow> threads_reached w k (threads_start k (mime_hash mime) g)"
| thr_step: "threads_reached w k c \<Longrightarrow> i < k \<Longrightarrow> input_ok w x i c \<Longrightarrow> thread_step w x i c = Next c' \<Longrightarrow> threads_reached w k c'"
| thr_signal: "threads_reached w k c \<Longrightarrow> threads_reached w k (c\<lparr>y_rumble := False\<rparr>)"

end
