(* ===== verification/Threads_Inv.thy ===== *)
theory Threads_Inv
  imports Web_Threads
begin

text \<open>
  The invariant of the threads of the web server.  \<open>locks_ok\<close>: a mutex belongs to the thread that is in its section.  \<open>pc_ok\<close>: what a thread relies on at
  each point of its program; inside a section of the list this is that the rest of the operation, run alone, leaves a well-formed list.
  \<open>apart\<close>: no two threads own the same connection, and no thread is in a handler while another one is about to add a mime type.  A step of one thread changes only what it owns (\<open>local_step\<close>), so the
  others are not disturbed (\<open>other_thread\<close>), and every step is \<open>fine\<close>: it keeps the invariant or waits for a mutex that another thread
  holds.
\<close>

section \<open>Mutual exclusion\<close>

fun section_of :: "pc \<Rightarrow> mutex option" where
  "section_of T_id_load = Some Work_mutex"
| "section_of (T_id_store n) = Some Work_mutex"
| "section_of T_id_unblock = Some Work_mutex"
| "section_of T_inc_load = Some Work_mutex"
| "section_of (T_inc_store a) = Some Work_mutex"
| "section_of T_inc_unblock = Some Work_mutex"
| "section_of T_dec_load = Some Work_mutex"
| "section_of (T_dec_store a) = Some Work_mutex"
| "section_of T_dec_unblock = Some Work_mutex"
| "section_of (T_mime_add p t mime g) = Some Mime_mutex"
| "section_of (T_mime_unblock p t g) = Some Mime_mutex"
| "section_of (T_put_run n q) = Some Tcp_node"
| "section_of (T_disconnect p n) = Some Tcp_node"
| "section_of (T_release p n) = Some Tcp_node"
| "section_of (T_del_run p d) = Some Tcp_node"
| "section_of _ = None"

definition locks_ok :: "SYS \<Rightarrow> bool" where
  "locks_ok c \<longleftrightarrow> (\<forall>m i. y_lock c m = Some i \<longleftrightarrow> i < length (y_threads c) \<and> section_of (t_pc (y_threads c ! i)) = Some m)"

lemma goto_simps [simp]:
  "y_threads (goto c i q) = (y_threads c)[i := (y_threads c ! i)\<lparr>t_pc := q\<rparr>]"
  "y_list (goto c i q) = y_list c" "y_nodes (goto c i q) = y_nodes c" "y_brk (goto c i q) = y_brk c" "y_armed (goto c i q) = y_armed c"
  "y_lock (goto c i q) = y_lock c" "y_id (goto c i q) = y_id c" "y_active (goto c i q) = y_active c" "y_mime (goto c i q) = y_mime c"
  "y_rng (goto c i q) = y_rng c" "y_rumble (goto c i q) = y_rumble c" "y_conns (goto c i q) = y_conns c"
  by (simp_all add: goto_def)

lemma with_tasks_simps [simp]:
  "y_threads (with_tasks c i ts) = (y_threads c)[i := (y_threads c ! i)\<lparr>t_tasks := ts\<rparr>]"
  "y_list (with_tasks c i ts) = y_list c" "y_nodes (with_tasks c i ts) = y_nodes c" "y_brk (with_tasks c i ts) = y_brk c"
  "y_armed (with_tasks c i ts) = y_armed c" "y_lock (with_tasks c i ts) = y_lock c" "y_id (with_tasks c i ts) = y_id c"
  "y_active (with_tasks c i ts) = y_active c" "y_mime (with_tasks c i ts) = y_mime c" "y_rng (with_tasks c i ts) = y_rng c"
  "y_rumble (with_tasks c i ts) = y_rumble c" "y_conns (with_tasks c i ts) = y_conns c"
  by (simp_all add: with_tasks_def)

lemma disarm_simps [simp]:
  "y_threads (disarm c ts) = y_threads c" "y_list (disarm c ts) = y_list c" "y_nodes (disarm c ts) = y_nodes c" "y_brk (disarm c ts) = y_brk c"
  "y_armed (disarm c ts) = y_armed c |` (- set (task_items ts))" "y_lock (disarm c ts) = y_lock c" "y_id (disarm c ts) = y_id c"
  "y_active (disarm c ts) = y_active c" "y_mime (disarm c ts) = y_mime c" "y_rng (disarm c ts) = y_rng c" "y_rumble (disarm c ts) = y_rumble c"
  "y_conns (disarm c ts) = y_conns c"
  by (simp_all add: disarm_def)

text \<open>A step changes one thread; it takes a lock, gives one back or stays in its section.\<close>

definition lock_shape :: "SYS \<Rightarrow> nat \<Rightarrow> SYS \<Rightarrow> bool" where
  "lock_shape c i c' \<longleftrightarrow>
     (\<exists>t'. y_threads c' = (y_threads c)[i := t'] \<and>
       (let s = section_of (t_pc (y_threads c ! i)); s' = section_of (t_pc t') in
        s = s' \<and> y_lock c' = y_lock c \<or>
        (\<exists>m. s = None \<and> s' = Some m \<and> y_lock c m = None \<and> y_lock c' = (y_lock c)(m \<mapsto> i)) \<or>
        (\<exists>m. s = Some m \<and> s' = None \<and> y_lock c m = Some i \<and> y_lock c' = (y_lock c)(m := None))))"

lemma lock_shape_same:
  "i < length (y_threads c) \<Longrightarrow> y_threads c' = (y_threads c)[i := t'] \<Longrightarrow> section_of (t_pc t') = section_of (t_pc (y_threads c ! i)) \<Longrightarrow>
   y_lock c' = y_lock c \<Longrightarrow> lock_shape c i c'"
  by (auto simp: lock_shape_def)

lemma lock_shape_refl: "i < length (y_threads c) \<Longrightarrow> lock_shape c i c"
  by (rule lock_shape_same [where t' = "y_threads c ! i"]) simp_all

lemma lock_shape_block:
  "mutex_block c i m q = Next c' \<Longrightarrow> i < length (y_threads c) \<Longrightarrow> section_of (t_pc (y_threads c ! i)) = None \<Longrightarrow> section_of q = Some m \<Longrightarrow>
   lock_shape c i c'"
  unfolding lock_shape_def by (rule exI [of _ "(y_threads c ! i)\<lparr>t_pc := q\<rparr>"]) (auto simp: mutex_block_def split: option.splits)

lemma lock_shape_unblock:
  "mutex_unblock c i m q = Next c' \<Longrightarrow> i < length (y_threads c) \<Longrightarrow> section_of (t_pc (y_threads c ! i)) = Some m \<Longrightarrow> section_of q = None \<Longrightarrow>
   lock_shape c i c'"
  unfolding lock_shape_def by (rule exI [of _ "(y_threads c ! i)\<lparr>t_pc := q\<rparr>"]) (auto simp: mutex_unblock_def split: if_splits)

lemma locks_shape: "locks_ok c \<Longrightarrow> i < length (y_threads c) \<Longrightarrow> lock_shape c i c' \<Longrightarrow> locks_ok c'"
  unfolding lock_shape_def locks_ok_def Let_def
  by (elim exE conjE disjE) (auto simp: nth_list_update, (metis option.distinct(1) option.inject)+)

lemma put_run_cases:
  assumes "put_run_step i c n q = Next c'"
  obtains r where "q = Put_ret r" "mutex_unblock c i Tcp_node (T_put_got n r) = Next c'"
  | q' L where "\<not> put_done q" "put_step q (y_list c) = Some (q', L)" "c' = goto (c\<lparr>y_list := L\<rparr>) i (T_put_run n q')"
  using assms by (cases q) (auto simp: put_run_step_def put_done_def split: option.splits prod.splits)

lemma del_run_cases:
  assumes "del_run_step i c p q = Next c'"
  obtains r where "q = Del_ret r" "mutex_unblock c i Tcp_node T_tasks = Next c'"
  | q' L where "\<not> del_done q" "del_step q (y_list c) = Some (q', L)" "c' = goto (c\<lparr>y_list := L\<rparr>) i (T_del_run p q')"
  using assms by (cases q) (auto simp: del_run_step_def split: option.splits prod.splits)

lemma thread_step_shape:
  assumes "i < length (y_threads c)" and "thread_step w x i c = Next c'"
  shows "lock_shape c i c'"
proof (cases "t_pc (y_threads c ! i)")
  case (T_put_run n q)
  then have "put_run_step i c n q = Next c'" using assms(2) by (simp add: thread_step_def)
  then show ?thesis
    by (cases rule: put_run_cases) (use assms(1) T_put_run in \<open>auto intro: lock_shape_unblock lock_shape_same\<close>)
next
  case (T_del_run p q)
  then have "del_run_step i c p q = Next c'" using assms(2) by (simp add: thread_step_def)
  then show ?thesis
    by (cases rule: del_run_cases) (use assms(1) T_del_run in \<open>auto intro: lock_shape_unblock lock_shape_same\<close>)
qed (use assms in \<open>auto simp: thread_step_def wait_step_def task_step_def handle_step_def mime_add_step_def again_step_def accept_step_def put_got_step_def gate_step_def
    intro: lock_shape_block lock_shape_unblock lock_shape_same lock_shape_refl
    split: if_splits option.splits WAITRES.splits task.splits list.splits ACCEPT.splits pipeline.splits prod.splits\<close>)

section \<open>The invariant\<close>

text \<open>A connection that waits for a request (\<open>conn_ok\<close> of Web, without the registration).\<close>

definition node_idle :: "TCP_NODE \<Rightarrow> bool" where
  "node_idle t \<longleftrightarrow> pipeline t = NODE_READY \<and> response t = [] \<and> length (recv_buf t) < BUF_OFF1"

definition idle :: "SYS \<Rightarrow> ptr \<Rightarrow> bool" where
  "idle c p \<longleftrightarrow> (\<exists>n t. node_of c p = Some (n, t) \<and> node_idle t)"

definition proper :: "'a LIST \<Rightarrow> bool" where
  "proper L \<longleftrightarrow> (\<exists>xs. dlc L xs)"

text \<open>The node a thread has allocated for a new connection, and the items that it alone works on.\<close>

fun new_node :: "pc \<Rightarrow> ptr option" where
  "new_node (T_put_block n) = Some n"
| "new_node (T_put_run n q) = Some n"
| "new_node (T_put_got n r) = Some n"
| "new_node _ = None"

fun pc_item :: "pc \<Rightarrow> ptr option" where
  "pc_item (T_put_run n q) = put_item q"
| "pc_item (T_put_got n r) = r"
| "pc_item (T_handle p k) = Some p"
| "pc_item (T_mime_block p t mime g) = Some p"
| "pc_item (T_mime_add p t mime g) = Some p"
| "pc_item (T_mime_unblock p t g) = Some p"
| "pc_item (T_again p t g) = Some p"
| "pc_item (T_gate p) = Some p"
| "pc_item (T_shut p) = Some p"
| "pc_item (T_shut_block p n) = Some p"
| "pc_item (T_disconnect p n) = Some p"
| "pc_item (T_release p n) = Some p"
| "pc_item (T_del_run p d) = Some p"
| "pc_item _ = None"

definition owned :: "THREAD \<Rightarrow> ptr set" where
  "owned t = set_option (pc_item (t_pc t)) \<union> set (task_items (t_tasks t))"

text \<open>What a thread relies on at each point of its program.\<close>

fun pc_ok :: "SYS \<Rightarrow> pc \<Rightarrow> bool" where
  "pc_ok c (T_id_store n) \<longleftrightarrow> n = y_id c"
| "pc_ok c (T_inc_store a) \<longleftrightarrow> a = y_active c"
| "pc_ok c (T_dec_store a) \<longleftrightarrow> a = y_active c"
| "pc_ok c (T_put_block n) \<longleftrightarrow> y_nodes c n = Some node_put \<and> n \<notin> ran (payload (y_list c))"
| "pc_ok c (T_put_run n q) \<longleftrightarrow> y_nodes c n = Some node_put \<and>
     (case put_item q of None \<Rightarrow> n \<notin> ran (payload (y_list c)) \<and> q \<in> {Put_size n, Put_alloc n} | Some p \<Rightarrow> payload (y_list c) p = Some n) \<and>
     (\<exists>p L. put_exec q (y_list c) = Some (Put_ret (Some p), L) \<and> proper L)"
| "pc_ok c (T_put_got n r) \<longleftrightarrow> (\<exists>p. r = Some p \<and> payload (y_list c) p = Some n \<and> y_nodes c n = Some node_put)"
| "pc_ok c (T_handle p k) \<longleftrightarrow> k \<noteq> EPOLLOUT \<and> (\<exists>n t. node_of c p = Some (n, t) \<and> node_idle t)"
| "pc_ok c (T_mime_block p t mime g) \<longleftrightarrow> node_of c p \<noteq> None \<and> node_done t \<and> mime_ok mime"
| "pc_ok c (T_mime_add p t mime g) \<longleftrightarrow> node_of c p \<noteq> None \<and> node_done t \<and> mime_ok mime"
| "pc_ok c (T_mime_unblock p t g) \<longleftrightarrow> node_of c p \<noteq> None \<and> node_done t"
| "pc_ok c (T_again p t g) \<longleftrightarrow> node_of c p \<noteq> None \<and> node_done t"
| "pc_ok c (T_gate p) \<longleftrightarrow> (\<exists>n t. node_of c p = Some (n, t) \<and> node_done t)"
| "pc_ok c (T_shut p) \<longleftrightarrow> node_of c p \<noteq> None"
| "pc_ok c (T_shut_block p n) \<longleftrightarrow> payload (y_list c) p = Some n \<and> y_nodes c n \<noteq> None"
| "pc_ok c (T_disconnect p n) \<longleftrightarrow> payload (y_list c) p = Some n \<and> y_nodes c n \<noteq> None \<and> proper (y_list c)"
| "pc_ok c (T_release p n) \<longleftrightarrow> payload (y_list c) p = Some n \<and> y_nodes c n \<noteq> None \<and> proper (y_list c)"
| "pc_ok c (T_del_run p q) \<longleftrightarrow> del_item q \<in> {None, Some p} \<and> (\<forall>n. payload (y_list c) p = Some n \<longrightarrow> y_nodes c n = None) \<and>
     (del_item q = None \<longrightarrow> payload (y_list c) p = None) \<and> (\<exists>r L. del_exec q (y_list c) = Some (Del_ret r, L) \<and> proper L)"
| "pc_ok c _ \<longleftrightarrow> True"

lemma pc_ok_cong:
  "y_list c' = y_list c \<Longrightarrow> y_nodes c' = y_nodes c \<Longrightarrow> y_id c' = y_id c \<Longrightarrow> y_active c' = y_active c \<Longrightarrow> pc_ok c' q = pc_ok c q"
  by (cases q) (simp_all add: node_of_def cong: option.case_cong)

definition thread_ok :: "SYS \<Rightarrow> THREAD \<Rightarrow> bool" where
  "thread_ok c t \<longleftrightarrow> pc_ok c (t_pc t) \<and> distinct (task_items (t_tasks t)) \<and> set_option (pc_item (t_pc t)) \<inter> set (task_items (t_tasks t)) = {} \<and>
     (\<forall>p k. Event p k \<in> set (t_tasks t) \<longrightarrow> idle c p \<and> k \<noteq> EPOLLOUT) \<and>
     owned t \<inter> dom (y_armed c) = {} \<and> owned t \<subseteq> {..<l_brk (y_list c)}"

definition apart :: "THREAD \<Rightarrow> THREAD \<Rightarrow> bool" where
  "apart t u \<longleftrightarrow> owned t \<inter> owned u = {} \<and> set_option (new_node (t_pc t)) \<inter> set_option (new_node (t_pc u)) = {} \<and>
     (adding (t_pc t) \<longrightarrow> \<not> in_handler (t_pc u)) \<and> (adding (t_pc u) \<longrightarrow> \<not> in_handler (t_pc t))"

text \<open>The shared memory: addresses are given out once, no two items share a node, and only idle connections are armed.\<close>

definition shared_ok :: "SYS \<Rightarrow> bool" where
  "shared_ok c \<longleftrightarrow>
     mime_ok (y_mime c) \<and> (y_lock c Tcp_node = None \<longrightarrow> proper (y_list c)) \<and>
     dom (payload (y_list c)) \<subseteq> {..<l_brk (y_list c)} \<and> inj_on (payload (y_list c)) (dom (payload (y_list c))) \<and>
     ran (payload (y_list c)) \<union> dom (y_nodes c) \<subseteq> {..<y_brk c} \<and>
     (\<forall>p m. y_armed c p = Some m \<longrightarrow> m = TCP_INPUT \<and> idle c p)"

definition sys_ok :: "SYS \<Rightarrow> bool" where
  "sys_ok c \<longleftrightarrow> locks_ok c \<and> shared_ok c \<and> (\<forall>t \<in> set (y_threads c). thread_ok c t) \<and>
     (\<forall>i < length (y_threads c). \<forall>j < length (y_threads c). i \<noteq> j \<longrightarrow> apart (y_threads c ! i) (y_threads c ! j))"

text \<open>The nodes of a thread, and that those of two threads are different.\<close>

definition foot :: "SYS \<Rightarrow> THREAD \<Rightarrow> ptr set" where
  "foot c t = set_option (new_node (t_pc t)) \<union> {n. \<exists>p \<in> owned t. payload (y_list c) p = Some n}"

lemma new_node_payload:
  assumes "pc_ok c q" and "new_node q = Some n" and "payload (y_list c) p = Some n" and "inj_on (payload (y_list c)) (dom (payload (y_list c)))"
  shows "pc_item q = Some p"
  using assms by (cases q) (auto simp: ran_def inj_on_def dom_def split: option.splits)

lemma foot_apart:
  assumes "pc_ok c (t_pc t)" and "pc_ok c (t_pc u)" and "apart t u" and "inj_on (payload (y_list c)) (dom (payload (y_list c)))"
  shows "foot c t \<inter> foot c u = {}"
proof (rule equals0I)
  fix n assume "n \<in> foot c t \<inter> foot c u"
  then consider "new_node (t_pc t) = Some n" "new_node (t_pc u) = Some n"
    | p where "new_node (t_pc t) = Some n" "p \<in> owned u" "payload (y_list c) p = Some n"
    | p where "new_node (t_pc u) = Some n" "p \<in> owned t" "payload (y_list c) p = Some n"
    | p q where "p \<in> owned t" "q \<in> owned u" "payload (y_list c) p = Some n" "payload (y_list c) q = Some n"
    by (auto simp: foot_def)
  then show False
  proof cases
    case 4
    then have "p = q" using assms(4) by (auto simp: inj_on_def dom_def)
    with 4 assms(3) show False by (auto simp: apart_def)
  qed (use assms new_node_payload [OF assms(1)] new_node_payload [OF assms(2)] in \<open>auto simp: apart_def owned_def\<close>)
qed

section \<open>Steps of one thread leave the others alone\<close>

lemma node_of_eq: "payload (y_list c') p = payload (y_list c) p \<Longrightarrow> (\<And>n. payload (y_list c) p = Some n \<Longrightarrow> y_nodes c' n = y_nodes c n) \<Longrightarrow> node_of c' p = node_of c p"
  by (cases "payload (y_list c) p") (simp_all add: node_of_def)

lemma pc_ok_frame:
  assumes "pc_ok c q"
    and "\<And>p n. pc_item q = Some p \<Longrightarrow> payload (y_list c) p = Some n \<Longrightarrow> payload (y_list c') p = Some n \<and> y_nodes c' n = y_nodes c n"
    and "\<And>n. new_node q = Some n \<Longrightarrow> y_nodes c' n = y_nodes c n \<and> (n \<notin> ran (payload (y_list c)) \<longrightarrow> n \<notin> ran (payload (y_list c')))"
    and "section_of q = Some Tcp_node \<Longrightarrow> y_list c' = y_list c"
    and "section_of q = Some Work_mutex \<Longrightarrow> y_id c' = y_id c \<and> y_active c' = y_active c"
  shows "pc_ok c' q"
  using assms by (cases q) (auto simp: node_of_def bind_eq_Some_conv' split: option.splits)

text \<open>When a thread may get to a point of a handler.\<close>

definition admits :: "SYS \<Rightarrow> nat \<Rightarrow> pc \<Rightarrow> bool" where
  "admits c i q \<longleftrightarrow> (in_handler q \<longrightarrow> in_handler (t_pc (y_threads c ! i)) \<or> alone c i adding) \<and>
     (adding q \<longrightarrow> adding (t_pc (y_threads c ! i)) \<or> alone c i in_handler)"

lemma adding_handler: "adding q \<Longrightarrow> in_handler q"
  by (cases q) simp_all

lemma admits_other [simp]: "\<not> in_handler q \<Longrightarrow> admits c i q"
  by (auto simp: admits_def dest: adding_handler)

lemma admits_same [simp]: "in_handler (t_pc (y_threads c ! i)) \<Longrightarrow> \<not> adding q \<Longrightarrow> admits c i q"
  "adding (t_pc (y_threads c ! i)) \<Longrightarrow> admits c i q"
  "t_pc (y_threads c ! i) = q \<Longrightarrow> admits c i q"
  by (auto simp: admits_def dest: adding_handler)

text \<open>What a step of a thread may change: its own items and nodes and those it has just allocated.\<close>

definition local_step :: "SYS \<Rightarrow> nat \<Rightarrow> SYS \<Rightarrow> THREAD \<Rightarrow> bool" where
  "local_step c i c' t' \<longleftrightarrow> (let t = y_threads c ! i in
     y_threads c' = (y_threads c)[i := t'] \<and>
     l_brk (y_list c) \<le> l_brk (y_list c') \<and>
     (\<forall>p. p \<notin> owned t \<longrightarrow> p < l_brk (y_list c) \<longrightarrow> payload (y_list c') p = payload (y_list c) p) \<and>
     (\<forall>n. n \<notin> foot c t \<longrightarrow> n < y_brk c \<longrightarrow> y_nodes c' n = y_nodes c n) \<and>
     ran (payload (y_list c')) \<subseteq> ran (payload (y_list c)) \<union> set_option (new_node (t_pc t)) \<and>
     owned t' \<subseteq> owned t \<union> dom (y_armed c) \<union> {l_brk (y_list c)..} \<and>
     set_option (new_node (t_pc t')) \<subseteq> set_option (new_node (t_pc t)) \<union> {y_brk c..} \<and>
     dom (y_armed c') \<subseteq> dom (y_armed c) \<union> owned t \<and>
     (y_list c' = y_list c \<or> y_lock c Tcp_node = Some i) \<and>
     (y_id c' = y_id c \<and> y_active c' = y_active c \<or> y_lock c Work_mutex = Some i) \<and> admits c i (t_pc t'))"

lemma local_stepD:
  assumes "local_step c i c' t'"
  shows "y_threads c' = (y_threads c)[i := t']" "l_brk (y_list c) \<le> l_brk (y_list c')"
    "p \<notin> owned (y_threads c ! i) \<Longrightarrow> p < l_brk (y_list c) \<Longrightarrow> payload (y_list c') p = payload (y_list c) p"
    "n \<notin> foot c (y_threads c ! i) \<Longrightarrow> n < y_brk c \<Longrightarrow> y_nodes c' n = y_nodes c n"
    "ran (payload (y_list c')) \<subseteq> ran (payload (y_list c)) \<union> set_option (new_node (t_pc (y_threads c ! i)))"
    "owned t' \<subseteq> owned (y_threads c ! i) \<union> dom (y_armed c) \<union> {l_brk (y_list c)..}"
    "set_option (new_node (t_pc t')) \<subseteq> set_option (new_node (t_pc (y_threads c ! i))) \<union> {y_brk c..}"
    "dom (y_armed c') \<subseteq> dom (y_armed c) \<union> owned (y_threads c ! i)"
    "y_list c' = y_list c \<or> y_lock c Tcp_node = Some i"
    "y_id c' = y_id c \<and> y_active c' = y_active c \<or> y_lock c Work_mutex = Some i" "admits c i (t_pc t')"
  using assms by (simp_all add: local_step_def Let_def)

lemma section_owner: "locks_ok c \<Longrightarrow> j < length (y_threads c) \<Longrightarrow> section_of (t_pc (y_threads c ! j)) = Some m \<Longrightarrow> y_lock c m = Some j"
  by (simp add: locks_ok_def)

lemma sys_ok_thread: "sys_ok c \<Longrightarrow> i < length (y_threads c) \<Longrightarrow> thread_ok c (y_threads c ! i)"
  by (simp add: sys_ok_def)

lemma task_items_event: "p \<in> set (task_items ts) \<longleftrightarrow> (\<exists>k. Event p k \<in> set ts)"
  by (induction ts rule: task_items.induct) auto

lemma other_thread:
  assumes "shared_ok c" and "locks_ok c" and "i < length (y_threads c)" and "j < length (y_threads c)" and "i \<noteq> j"
    and "thread_ok c (y_threads c ! i)" and "thread_ok c (y_threads c ! j)" and "apart (y_threads c ! i) (y_threads c ! j)"
    and "local_step c i c' t'"
  shows "thread_ok c' (y_threads c ! j)"
proof -
  let ?t = "y_threads c ! i" and ?u = "y_threads c ! j"
  have inj: "inj_on (payload (y_list c)) (dom (payload (y_list c)))" using assms(1) by (simp add: shared_ok_def)
  have f: "foot c ?t \<inter> foot c ?u = {}" by (rule foot_apart [OF _ _ assms(8) inj]) (use assms(6,7) in \<open>simp_all add: thread_ok_def\<close>)
  have item: "payload (y_list c') p = payload (y_list c) p \<and> y_nodes c' n = y_nodes c n"
    if "p \<in> owned ?u" "payload (y_list c) p = Some n" for p n
  proof -
    have "p < l_brk (y_list c)" "n < y_brk c" using that(2) assms(1) by (auto simp: shared_ok_def ran_def)
    moreover have "p \<notin> owned ?t" "n \<notin> foot c ?t" using that assms(8) f by (auto simp: apart_def foot_def)
    ultimately show ?thesis using local_stepD(3,4) [OF assms(9)] by simp
  qed
  have node: "node_of c' p = node_of c p" if "p \<in> owned ?u" "payload (y_list c) p \<noteq> None" for p
    using item [OF that(1)] that(2) by (auto intro!: node_of_eq)
  have pend: "y_nodes c' n = y_nodes c n \<and> (n \<notin> ran (payload (y_list c)) \<longrightarrow> n \<notin> ran (payload (y_list c')))"
    if "new_node (t_pc ?u) = Some n" for n
  proof -
    have "n < y_brk c" using that assms(1,7) by (cases "t_pc ?u") (auto simp: thread_ok_def shared_ok_def)
    moreover have "n \<notin> foot c ?t" "n \<notin> set_option (new_node (t_pc ?t))" using that assms(8) f by (auto simp: apart_def foot_def)
    ultimately show ?thesis using local_stepD(4,5) [OF assms(9)] by auto
  qed
  have "pc_ok c' (t_pc ?u)"
  proof (rule pc_ok_frame [of c])
    show "section_of (t_pc ?u) = Some Tcp_node \<Longrightarrow> y_list c' = y_list c"
      "section_of (t_pc ?u) = Some Work_mutex \<Longrightarrow> y_id c' = y_id c \<and> y_active c' = y_active c"
      using section_owner [OF assms(2,4)] assms(5) local_stepD(9,10) [OF assms(9)] by auto
  qed (use assms(7) item pend in \<open>auto simp: thread_ok_def owned_def\<close>)
  moreover have "idle c' p" if "Event p k \<in> set (t_tasks ?u)" for p k
  proof -
    have p: "idle c p" "p \<in> owned ?u" using that assms(7) by (auto simp: thread_ok_def owned_def task_items_event)
    then have "payload (y_list c) p \<noteq> None" by (auto simp: idle_def node_of_def bind_eq_Some_conv')
    from node [OF p(2) this] p(1) show ?thesis by (simp add: idle_def)
  qed
  moreover have o: "owned ?u \<inter> dom (y_armed c) = {}" "owned ?u \<subseteq> {..<l_brk (y_list c)}" "owned ?t \<inter> owned ?u = {}"
    using assms(7,8) by (simp_all add: thread_ok_def apart_def)
  have "owned ?u \<inter> dom (y_armed c') = {}" using o(1,3) local_stepD(8) [OF assms(9)] by blast
  moreover have "owned ?u \<subseteq> {..<l_brk (y_list c')}" using o(2) local_stepD(2) [OF assms(9)] by auto
  ultimately show ?thesis using assms(7) unfolding thread_ok_def by simp
qed

lemma sys_ok_step:
  assumes "sys_ok c" and "i < length (y_threads c)" and "local_step c i c' t'" and "lock_shape c i c'" and "shared_ok c'" and "thread_ok c' t'"
  shows "sys_ok c'"
proof -
  let ?t = "y_threads c ! i"
  have T: "y_threads c' = (y_threads c)[i := t']" using assms(3) by (simp add: local_step_def Let_def)
  have ok: "shared_ok c" "locks_ok c" using assms(1) by (simp_all add: sys_ok_def)
  have others: "thread_ok c (y_threads c ! j)" "apart ?t (y_threads c ! j)" if "j < length (y_threads c)" "j \<noteq> i" for j
    using that assms(1,2) by (simp_all add: sys_ok_def)
  have thr: "thread_ok c' (y_threads c' ! j)" if "j < length (y_threads c)" for j
    using other_thread [OF ok assms(2) that _ sys_ok_thread [OF assms(1,2)] _ _ assms(3)] others [OF that] assms(2,6) T
    by (cases "j = i") simp_all
  have apart: "apart t' (y_threads c ! j)" if j: "j < length (y_threads c)" "j \<noteq> i" for j
  proof -
    let ?u = "y_threads c ! j"
    have u: "owned ?u \<inter> dom (y_armed c) = {}" "owned ?u \<subseteq> {..<l_brk (y_list c)}" "owned ?t \<inter> owned ?u = {}"
      "set_option (new_node (t_pc ?t)) \<inter> set_option (new_node (t_pc ?u)) = {}"
      using others [OF j] by (simp_all add: thread_ok_def apart_def)
    have n: "set_option (new_node (t_pc ?u)) \<subseteq> {..<y_brk c}"
      using others(1) [OF j] ok(1) by (cases "t_pc ?u") (auto simp: thread_ok_def shared_ok_def)
    have above: "{k..} \<inter> {..<k} = {}" for k :: nat by auto
    have "owned t' \<inter> owned ?u = {}" using u(1-3) local_stepD(6) [OF assms(3)] above [of "l_brk (y_list c)"] by blast
    moreover have "set_option (new_node (t_pc t')) \<inter> set_option (new_node (t_pc ?u)) = {}"
      using u(4) n local_stepD(7) [OF assms(3)] above [of "y_brk c"] by blast
    moreover have "(adding (t_pc t') \<longrightarrow> \<not> in_handler (t_pc ?u)) \<and> (adding (t_pc ?u) \<longrightarrow> \<not> in_handler (t_pc t'))"
      using others(2) [OF j] local_stepD(11) [OF assms(3)] j by (auto simp: apart_def admits_def alone_def)
    ultimately show ?thesis by (simp add: apart_def)
  qed
  have sym: "apart t u = apart u t" for t u by (auto simp: apart_def)
  have "\<forall>j < length (y_threads c'). \<forall>k < length (y_threads c'). j \<noteq> k \<longrightarrow> apart (y_threads c' ! j) (y_threads c' ! k)"
    using assms(1,2) apart sym by (auto simp: sys_ok_def T nth_list_update)
  moreover have "locks_ok c'" by (rule locks_shape [OF ok(2) assms(2,4)])
  ultimately show ?thesis using assms(5) thr T by (auto simp: sys_ok_def in_set_conv_nth)
qed

section \<open>Every step keeps the invariant\<close>

text \<open>Steps that leave the memory as it is.\<close>

definition same_memory :: "SYS \<Rightarrow> SYS \<Rightarrow> bool" where
  "same_memory c c' \<longleftrightarrow> y_list c' = y_list c \<and> y_nodes c' = y_nodes c \<and> y_brk c' = y_brk c \<and> y_armed c' = y_armed c \<and> y_mime c' = y_mime c"

lemma idle_same: "same_memory c c' \<Longrightarrow> idle c' = idle c"
  by (simp add: same_memory_def idle_def node_of_def fun_eq_iff)

lemma quiet_step:
  assumes "sys_ok c" and "i < length (y_threads c)" and "same_memory c c'" and "lock_shape c i c'" and "y_threads c' = (y_threads c)[i := t']"
    and "t_tasks t' = t_tasks (y_threads c ! i) \<or> (\<exists>a. t_tasks (y_threads c ! i) = a # t_tasks t')"
    and "set_option (pc_item (t_pc t')) \<subseteq> set_option (pc_item (t_pc (y_threads c ! i)))"
    and "set_option (new_node (t_pc t')) \<subseteq> set_option (new_node (t_pc (y_threads c ! i)))"
    and "pc_ok c' (t_pc t')" and "y_lock c' Tcp_node = None \<Longrightarrow> proper (y_list c)"
    and "y_id c' = y_id c \<and> y_active c' = y_active c \<or> y_lock c Work_mutex = Some i" and "admits c i (t_pc t')"
  shows "sys_ok c'"
proof -
  let ?t = "y_threads c ! i"
  have m: "y_list c' = y_list c" "y_nodes c' = y_nodes c" "y_brk c' = y_brk c" "y_armed c' = y_armed c" "y_mime c' = y_mime c"
    using assms(3) by (simp_all add: same_memory_def)
  have tasks: "set (t_tasks t') \<subseteq> set (t_tasks ?t)" "set (task_items (t_tasks t')) \<subseteq> set (task_items (t_tasks ?t))"
    "distinct (task_items (t_tasks ?t)) \<Longrightarrow> distinct (task_items (t_tasks t'))"
  proof -
    show "set (t_tasks t') \<subseteq> set (t_tasks ?t)" using assms(6) by auto
    then show "set (task_items (t_tasks t')) \<subseteq> set (task_items (t_tasks ?t))" unfolding subset_iff task_items_event by blast
    show "distinct (task_items (t_tasks t'))" if "distinct (task_items (t_tasks ?t))"
      using assms(6)
    proof
      assume "\<exists>a. t_tasks ?t = a # t_tasks t'"
      then obtain a where "t_tasks ?t = a # t_tasks t'" by blast
      with that show ?thesis by (cases a) auto
    qed (use that in simp)
  qed
  have owned: "owned t' \<subseteq> owned ?t" using assms(7) tasks(2) by (auto simp: owned_def)
  have t: "distinct (task_items (t_tasks ?t))" "set_option (pc_item (t_pc ?t)) \<inter> set (task_items (t_tasks ?t)) = {}"
    "\<forall>p k. Event p k \<in> set (t_tasks ?t) \<longrightarrow> idle c p \<and> k \<noteq> EPOLLOUT" "owned ?t \<inter> dom (y_armed c) = {}" "owned ?t \<subseteq> {..<l_brk (y_list c)}"
    using sys_ok_thread [OF assms(1,2)] by (simp_all add: thread_ok_def)
  have "thread_ok c' t'" unfolding thread_ok_def m idle_same [OF assms(3)]
    using assms(9) tasks(3) [OF t(1)] t(3) tasks(1) by (intro conjI) (use t(2,4,5) assms(7) tasks(2) owned in blast)+
  moreover have "shared_ok c'" using assms(1,10) by (simp add: sys_ok_def shared_ok_def m idle_same [OF assms(3)])
  moreover have "local_step c i c' t'" using assms(5,8,11,12) owned by (auto simp: local_step_def Let_def m)
  ultimately show ?thesis using sys_ok_step [OF assms(1,2) _ assms(4)] by blast
qed

text \<open>Taking a mutex and giving it back.\<close>

definition fine :: "SYS \<Rightarrow> outcome \<Rightarrow> bool" where
  "fine c r \<longleftrightarrow> (case r of Next c' \<Rightarrow> sys_ok c' | Waits m \<Rightarrow> y_lock c m \<noteq> None | Finished \<Rightarrow> True | Wrong \<Rightarrow> False)"

lemma fine_block:
  assumes "sys_ok c" and "i < length (y_threads c)" and "section_of (t_pc (y_threads c ! i)) = None" and "section_of q = Some m"
    and "set_option (pc_item q) \<subseteq> set_option (pc_item (t_pc (y_threads c ! i)))"
    and "set_option (new_node q) \<subseteq> set_option (new_node (t_pc (y_threads c ! i)))"
    and "y_lock c m = None \<Longrightarrow> pc_ok c q" and "admits c i q"
  shows "fine c (mutex_block c i m q)"
proof (cases "y_lock c m")
  case None
  let ?c = "goto (c\<lparr>y_lock := (y_lock c)(m \<mapsto> i)\<rparr>) i q"
  have b: "mutex_block c i m q = Next ?c" using None by (simp add: mutex_block_def)
  have ok: "pc_ok ?c q = pc_ok c q" by (rule pc_ok_cong) simp_all
  have "sys_ok ?c"
  proof (rule quiet_step [OF assms(1,2), where t' = "(y_threads c ! i)\<lparr>t_pc := q\<rparr>"])
    show "lock_shape c i ?c" by (rule lock_shape_block [OF b assms(2-4)])
    show "y_lock ?c Tcp_node = None \<Longrightarrow> proper (y_list c)" using assms(1) by (auto simp: sys_ok_def shared_ok_def split: if_splits)
  qed (use assms(5-8) None ok in \<open>simp_all add: same_memory_def\<close>)
  then show ?thesis by (simp add: b fine_def)
qed (simp add: mutex_block_def fine_def)

lemma fine_unblock:
  assumes "sys_ok c" and "i < length (y_threads c)" and "section_of (t_pc (y_threads c ! i)) = Some m" and "section_of q = None"
    and "set_option (pc_item q) \<subseteq> set_option (pc_item (t_pc (y_threads c ! i)))"
    and "set_option (new_node q) \<subseteq> set_option (new_node (t_pc (y_threads c ! i)))"
    and "pc_ok c q" and "m = Tcp_node \<Longrightarrow> proper (y_list c)" and "admits c i q"
  shows "fine c (mutex_unblock c i m q)"
proof -
  let ?c = "goto (c\<lparr>y_lock := (y_lock c)(m := None)\<rparr>) i q"
  have l: "y_lock c m = Some i" using section_owner [OF _ assms(2,3)] assms(1) by (simp add: sys_ok_def)
  then have b: "mutex_unblock c i m q = Next ?c" by (simp add: mutex_unblock_def)
  have ok: "pc_ok ?c q = pc_ok c q" by (rule pc_ok_cong) simp_all
  have "sys_ok ?c"
  proof (rule quiet_step [OF assms(1,2), where t' = "(y_threads c ! i)\<lparr>t_pc := q\<rparr>"])
    show "lock_shape c i ?c" by (rule lock_shape_unblock [OF b assms(2-4)])
    show "y_lock ?c Tcp_node = None \<Longrightarrow> proper (y_list c)" using assms(1,8) by (auto simp: sys_ok_def shared_ok_def split: if_splits)
  qed (use assms(5-7,9) ok in \<open>simp_all add: same_memory_def\<close>)
  then show ?thesis by (simp add: b fine_def)
qed

text \<open>Steps to another point of the program.\<close>

lemma fine_goto:
  assumes "sys_ok c" and "i < length (y_threads c)" and "section_of q = section_of (t_pc (y_threads c ! i))"
    and "set_option (pc_item q) \<subseteq> set_option (pc_item (t_pc (y_threads c ! i)))"
    and "set_option (new_node q) \<subseteq> set_option (new_node (t_pc (y_threads c ! i)))"
    and "pc_ok c q" and "ts = t_tasks (y_threads c ! i) \<or> (\<exists>a. t_tasks (y_threads c ! i) = a # ts)" and "admits c i q"
  shows "sys_ok (goto (with_tasks c i ts) i q)"
proof (rule quiet_step [OF assms(1,2)])
  let ?t = "(y_threads c ! i)\<lparr>t_tasks := ts, t_pc := q\<rparr>" and ?c = "goto (with_tasks c i ts) i q"
  show T: "y_threads ?c = (y_threads c)[i := ?t]" using assms(2) by simp
  show "lock_shape c i ?c" by (rule lock_shape_same [OF assms(2) T]) (use assms(3) in simp_all)
  show "pc_ok ?c (t_pc ?t)" using assms(6) pc_ok_cong [of ?c c] by simp
  show "y_lock ?c Tcp_node = None \<Longrightarrow> proper (y_list c)" using assms(1) by (simp add: sys_ok_def shared_ok_def)
qed (use assms(4,5,7,8) in \<open>simp_all add: same_memory_def\<close>)

lemma with_same_tasks: "goto (with_tasks c i (t_tasks (y_threads c ! i))) i q = goto c i q"
  by (cases "i < length (y_threads c)") (simp_all add: goto_def with_tasks_def)

lemmas fine_goto' = fine_goto [where ts = "t_tasks (y_threads c ! i)" and c = c and i = i for c i, unfolded with_same_tasks]

text \<open>The counters change under the mutex.\<close>

lemma counted:
  assumes "sys_ok c" and "i < length (y_threads c)" and "section_of (t_pc (y_threads c ! i)) = Some Work_mutex" and "section_of q = Some Work_mutex"
    and "same_memory c c'" and "y_lock c' = y_lock c" and "y_threads c' = (y_threads c)[i := (y_threads c ! i)\<lparr>t_num := k, t_pc := q\<rparr>]"
    and "pc_item q = None" and "new_node q = None" and "pc_ok c' q" and "\<not> in_handler q"
  shows "sys_ok c'"
proof (rule quiet_step [OF assms(1,2,5) _ assms(7)])
  show "lock_shape c i c'" by (rule lock_shape_same [OF assms(2,7)]) (use assms(3,4,6) in simp_all)
  show "y_id c' = y_id c \<and> y_active c' = y_active c \<or> y_lock c Work_mutex = Some i"
    using section_owner [OF _ assms(2,3)] assms(1) by (simp add: sys_ok_def)
  show "y_lock c' Tcp_node = None \<Longrightarrow> proper (y_list c)" using assms(1,6) by (simp add: sys_ok_def shared_ok_def)
qed (use assms(8-11) in simp_all)

text \<open>Steps that change the memory.\<close>

lemma sharedD:
  assumes "shared_ok c"
  shows "mime_ok (y_mime c)" "y_lock c Tcp_node = None \<Longrightarrow> proper (y_list c)" "payload (y_list c) p = Some n \<Longrightarrow> p < l_brk (y_list c)"
    "payload (y_list c) p = Some n \<Longrightarrow> payload (y_list c) q = Some n \<Longrightarrow> p = q" "payload (y_list c) p = Some n \<Longrightarrow> n < y_brk c"
    "y_nodes c n = Some t \<Longrightarrow> n < y_brk c" "y_armed c p = Some m \<Longrightarrow> m = TCP_INPUT" "y_armed c p = Some m \<Longrightarrow> idle c p"
  using assms by (auto simp: shared_ok_def inj_on_def dom_def ran_def)

lemma threadD:
  assumes "thread_ok c t"
  shows "pc_ok c (t_pc t)" "distinct (task_items (t_tasks t))" "pc_item (t_pc t) = Some p \<Longrightarrow> p \<notin> set (task_items (t_tasks t))"
    "Event p k \<in> set (t_tasks t) \<Longrightarrow> idle c p" "Event p k \<in> set (t_tasks t) \<Longrightarrow> k \<noteq> EPOLLOUT"
    "p \<in> owned t \<Longrightarrow> y_armed c p = None" "p \<in> owned t \<Longrightarrow> p < l_brk (y_list c)"
  using assms by (auto simp: thread_ok_def)

lemma idle_node: "idle c p \<longleftrightarrow> (\<exists>n t. payload (y_list c) p = Some n \<and> y_nodes c n = Some t \<and> node_idle t)"
  by (auto simp: idle_def node_of_def bind_eq_Some_conv')

lemma idle_below: "shared_ok c \<Longrightarrow> idle c p \<Longrightarrow> p < l_brk (y_list c)"
  by (auto simp: idle_node dest: sharedD(3))

lemma idle_keep:
  "idle c p \<Longrightarrow> (\<And>n. payload (y_list c) p = Some n \<Longrightarrow> payload (y_list c') p = Some n \<and> y_nodes c' n = y_nodes c n) \<Longrightarrow> idle c' p"
  by (auto simp: idle_node)

lemma shared_okI:
  assumes "mime_ok (y_mime c)" and "y_lock c Tcp_node = None \<Longrightarrow> proper (y_list c)"
    and "\<And>p n. payload (y_list c) p = Some n \<Longrightarrow> p < l_brk (y_list c) \<and> n < y_brk c"
    and "\<And>p q n. payload (y_list c) p = Some n \<Longrightarrow> payload (y_list c) q = Some n \<Longrightarrow> p = q"
    and "\<And>n t. y_nodes c n = Some t \<Longrightarrow> n < y_brk c"
    and "\<And>p m. y_armed c p = Some m \<Longrightarrow> m = TCP_INPUT \<and> idle c p"
  shows "shared_ok c"
proof -
  have "inj_on (payload (y_list c)) (dom (payload (y_list c)))" by (rule inj_onI) (auto intro: assms(4))
  then show ?thesis using assms(1,2,3,5,6) by (auto simp: shared_ok_def ran_def)
qed

lemma thread_okI:
  assumes "pc_ok c (t_pc t)" and "distinct (task_items (t_tasks t))" and "\<And>p. pc_item (t_pc t) = Some p \<Longrightarrow> p \<notin> set (task_items (t_tasks t))"
    and "\<And>p k. Event p k \<in> set (t_tasks t) \<Longrightarrow> idle c p \<and> k \<noteq> EPOLLOUT"
    and "\<And>p. p \<in> owned t \<Longrightarrow> y_armed c p = None \<and> p < l_brk (y_list c)"
  shows "thread_ok c t"
  using assms unfolding thread_ok_def by (auto simp: set_eq_iff dom_def dest!: assms(5))

lemma thread_ok_next:
  assumes "thread_ok c t" and "t_tasks t' = t_tasks t \<or> (\<exists>a. t_tasks t = a # t_tasks t')" and "pc_ok c' (t_pc t')"
    and "\<And>q. q \<in> set (task_items (t_tasks t')) \<Longrightarrow> idle c q \<Longrightarrow> idle c' q"
    and "\<And>q. q \<in> set (task_items (t_tasks t')) \<Longrightarrow> y_armed c q = None \<Longrightarrow> y_armed c' q = None"
    and "\<And>q. pc_item (t_pc t') = Some q \<Longrightarrow> q \<notin> set (task_items (t_tasks t')) \<and> y_armed c' q = None \<and> q < l_brk (y_list c')"
    and "l_brk (y_list c) \<le> l_brk (y_list c')"
  shows "thread_ok c' t'"
proof (rule thread_okI)
  note th = threadD [OF assms(1)]
  have sub: "set (t_tasks t') \<subseteq> set (t_tasks t)" using assms(2) by auto
  show "distinct (task_items (t_tasks t'))"
    using assms(2)
  proof
    assume "\<exists>a. t_tasks t = a # t_tasks t'"
    then obtain a where "t_tasks t = a # t_tasks t'" by blast
    with th(2) show ?thesis by (cases a) auto
  qed (use th(2) in simp)
  show "idle c' p \<and> k \<noteq> EPOLLOUT" if "Event p k \<in> set (t_tasks t')" for p k
  proof -
    have "Event p k \<in> set (t_tasks t)" "p \<in> set (task_items (t_tasks t'))" using that sub task_items_event by auto
    with th(4,5) assms(4) show ?thesis by blast
  qed
  show "y_armed c' p = None \<and> p < l_brk (y_list c')" if "p \<in> owned t'" for p
  proof (cases "p \<in> set (task_items (t_tasks t'))")
    case True
    moreover have "set (task_items (t_tasks t')) \<subseteq> set (task_items (t_tasks t))" using sub unfolding subset_iff task_items_event by blast
    ultimately have "p \<in> owned t" by (auto simp: owned_def)
    with th(6,7) assms(5) [OF True] assms(7) show ?thesis by fastforce
  next
    case False
    with that assms(6) show ?thesis by (auto simp: owned_def)
  qed
qed (use assms(3,6) in auto)

lemma wait_events:
  assumes "sys_ok c" and "i < length (y_threads c)" and "t_pc (y_threads c ! i) = T_wait" and "tasks_ok c ts"
  shows "sys_ok (goto (with_tasks (disarm c ts) i ts) i T_enter)" and "sys_ok (goto (disarm c ts) i T_exit)"
proof -
  let ?t = "y_threads c ! i"
  have sh: "shared_ok c" using assms(1) by (simp add: sys_ok_def)
  note th = sys_ok_thread [OF assms(1,2)]
  have armed: "y_armed c p \<noteq> None \<and> idle c p \<and> k \<noteq> EPOLLOUT \<and> p < l_brk (y_list c)" if "Event p k \<in> set ts" for p k
  proof -
    from that assms(4) obtain m where m: "y_armed c p = Some m" "m = TCP_INPUT \<longrightarrow> k \<noteq> EPOLLOUT"
      by (auto simp: tasks_ok_def split: option.splits tcp_mode.splits)
    with sharedD(7,8) [OF sh m(1)] idle_below [OF sh] show ?thesis by simp
  qed
  have idle: "idle (goto (with_tasks (disarm c ts) i ts) i q) = idle c" "idle (goto (disarm c ts) i q) = idle c" for q
    by (simp_all add: idle_node fun_eq_iff)
  show "sys_ok (goto (with_tasks (disarm c ts) i ts) i T_enter)" (is "sys_ok ?c")
  proof (rule sys_ok_step [OF assms(1,2)])
    let ?t' = "?t\<lparr>t_tasks := ts, t_pc := T_enter\<rparr>"
    show "lock_shape c i ?c" by (rule lock_shape_same [OF assms(2), where t' = ?t']) (use assms(2,3) in simp_all)
    show "local_step c i ?c ?t'"
      using assms(2,3) armed by (auto simp: local_step_def Let_def owned_def task_items_event restrict_map_def dom_def split: if_splits)
    show "shared_ok ?c"
      using sh unfolding shared_ok_def idle by (auto simp: restrict_map_def split: if_splits)
    show "thread_ok ?c ?t'"
      by (rule thread_okI) (use assms(4) armed in \<open>auto simp: tasks_ok_def idle owned_def task_items_event restrict_map_def\<close>)
  qed
  show "sys_ok (goto (disarm c ts) i T_exit)" (is "sys_ok ?c")
  proof (rule sys_ok_step [OF assms(1,2)])
    let ?t' = "?t\<lparr>t_pc := T_exit\<rparr>"
    show "lock_shape c i ?c" by (rule lock_shape_same [OF assms(2), where t' = ?t']) (use assms(2,3) in simp_all)
    show "local_step c i ?c ?t'"
      using assms(2,3) by (auto simp: local_step_def Let_def owned_def restrict_map_def dom_def split: if_splits)
    show "shared_ok ?c"
      using sh unfolding shared_ok_def idle by (auto simp: restrict_map_def split: if_splits)
    show "thread_ok ?c ?t'"
      by (rule thread_okI) (use threadD [OF th] in \<open>auto simp: idle owned_def restrict_map_def\<close>)
  qed
qed

lemma event_begun:
  assumes "sys_ok c" and "i < length (y_threads c)" and "t_pc (y_threads c ! i) = T_tasks" and "t_tasks (y_threads c ! i) = Event p k # ts"
    and "alone c i adding"
  shows "sys_ok (goto (with_tasks c i ts) i (T_handle p k))" (is "sys_ok ?c")
proof (rule sys_ok_step [OF assms(1,2)])
  let ?t = "y_threads c ! i" and ?t' = "(y_threads c ! i)\<lparr>t_tasks := ts, t_pc := T_handle p k\<rparr>"
  have sh: "shared_ok c" using assms(1) by (simp add: sys_ok_def)
  note th = threadD [OF sys_ok_thread [OF assms(1,2)]]
  have idle: "idle ?c = idle c" by (simp add: idle_node fun_eq_iff)
  have p: "idle c p" "k \<noteq> EPOLLOUT" "p \<in> owned ?t" "p \<notin> set (task_items ts)"
    using assms(4) th(2) th(4,5) [of p k] by (auto simp: owned_def)
  show "lock_shape c i ?c" by (rule lock_shape_same [OF assms(2), where t' = ?t']) (use assms(2,3) in simp_all)
  show "local_step c i ?c ?t'"
    using assms(2-5) by (auto simp: local_step_def Let_def owned_def admits_def)
  show "shared_ok ?c" using sh by (simp add: shared_ok_def idle)
  show "thread_ok ?c ?t'"
    by (rule thread_ok_next [OF sys_ok_thread [OF assms(1,2)]]) (use assms(4) th(6,7) p idle in \<open>auto simp: idle_def node_of_def\<close>)
qed

lemma event_done:
  assumes "sys_ok c" and "i < length (y_threads c)" and "pc_item (t_pc (y_threads c ! i)) = Some p" and "section_of (t_pc (y_threads c ! i)) = None"
    and "node_of c p = Some (n, t)" and "node_done t'"
  shows "sys_ok (goto (c\<lparr>y_nodes := (y_nodes c)(n \<mapsto> t'), y_rng := g\<rparr>) i (T_gate p))" (is "sys_ok ?c")
proof (rule sys_ok_step [OF assms(1,2)])
  let ?t = "y_threads c ! i" and ?t' = "(y_threads c ! i)\<lparr>t_pc := T_gate p\<rparr>"
  have sh: "shared_ok c" using assms(1) by (simp add: sys_ok_def)
  note th = threadD [OF sys_ok_thread [OF assms(1,2)]]
  have p: "payload (y_list c) p = Some n" "y_nodes c n = Some t" "p \<in> owned ?t" "p \<notin> set (task_items (t_tasks ?t))"
    using assms(3,5) th(3) by (auto simp: node_of_def bind_eq_Some_conv' owned_def)
  have idle: "idle ?c q" if "idle c q" "q \<noteq> p" for q
    by (rule idle_keep [OF that(1)]) (use that(2) sharedD(4) [OF sh] p(1) in auto)
  have armed: "idle ?c q" if "y_armed c q = Some m" for q m
    by (rule idle [OF sharedD(8) [OF sh that]]) (use that th(6) [OF p(3)] in auto)
  show "lock_shape c i ?c" by (rule lock_shape_same [OF assms(2), where t' = ?t']) (use assms(2,4) in simp_all)
  show "local_step c i ?c ?t'"
    using assms(2,3) p by (auto simp: local_step_def Let_def owned_def foot_def)
  show "shared_ok ?c"
    by (rule shared_okI) (use sharedD(1-7) [OF sh] p armed in \<open>auto split: if_splits\<close>)
  show "thread_ok ?c ?t'"
    by (rule thread_ok_next [OF sys_ok_thread [OF assms(1,2)]]) (use assms(6) th(6,7) p idle in \<open>auto simp: node_of_def\<close>)
qed

lemma mime_added:
  assumes "sys_ok c" and "i < length (y_threads c)" and "t_pc (y_threads c ! i) = T_mime_add p t mime g"
  shows "sys_ok (goto (c\<lparr>y_mime := mime\<rparr>) i (T_mime_unblock p t g))" (is "sys_ok ?c")
proof (rule sys_ok_step [OF assms(1,2)])
  let ?t = "y_threads c ! i" and ?t' = "(y_threads c ! i)\<lparr>t_pc := T_mime_unblock p t g\<rparr>"
  have sh: "shared_ok c" using assms(1) by (simp add: sys_ok_def)
  note th = threadD [OF sys_ok_thread [OF assms(1,2)]]
  have idle: "idle ?c = idle c" by (simp add: idle_node fun_eq_iff)
  have p: "p \<in> owned ?t" "p \<notin> set (task_items (t_tasks ?t))" using assms(3) th(3) by (auto simp: owned_def)
  show "lock_shape c i ?c" by (rule lock_shape_same [OF assms(2), where t' = ?t']) (use assms(2,3) in simp_all)
  show "local_step c i ?c ?t'"
    using assms(2,3) by (auto simp: local_step_def Let_def owned_def)
  show "shared_ok ?c" using sh th(1) assms(3) by (simp add: shared_ok_def idle)
  show "thread_ok ?c ?t'"
    by (rule thread_ok_next [OF sys_ok_thread [OF assms(1,2)]]) (use assms(3) th(1,6,7) p idle in \<open>auto simp: node_of_def\<close>)
qed

lemma accepted:
  assumes "sys_ok c" and "i < length (y_threads c)" and "t_pc (y_threads c ! i) = T_accept"
  shows "sys_ok (goto (c\<lparr>y_nodes := (y_nodes c)(y_brk c \<mapsto> node_put), y_brk := Suc (y_brk c), y_conns := insert (y_brk c) (y_conns c)\<rparr>) i (T_put_block (y_brk c)))" (is "sys_ok ?c")
proof (rule sys_ok_step [OF assms(1,2)])
  let ?t = "y_threads c ! i" and ?t' = "(y_threads c ! i)\<lparr>t_pc := T_put_block (y_brk c)\<rparr>"
  have sh: "shared_ok c" using assms(1) by (simp add: sys_ok_def)
  note th = threadD [OF sys_ok_thread [OF assms(1,2)]]
  have idle: "idle ?c q" if "idle c q" for q
    by (rule idle_keep [OF that(1)]) (use sharedD(5) [OF sh] in auto)
  have fresh: "y_brk c \<notin> ran (payload (y_list c))" using sharedD(5) [OF sh] by (auto simp: ran_def)
  show "lock_shape c i ?c" by (rule lock_shape_same [OF assms(2), where t' = ?t']) (use assms(2,3) in simp_all)
  show "local_step c i ?c ?t'" using assms(2,3) by (auto simp: local_step_def Let_def owned_def)
  show "shared_ok ?c"
    by (rule shared_okI) (use sharedD [OF sh] idle in \<open>auto split: if_splits intro: less_SucI\<close>)
  show "thread_ok ?c ?t'"
    by (rule thread_okI) (use assms(3) th(2,4-7) fresh idle in \<open>auto simp: owned_def\<close>)
qed

lemma rearmed:
  assumes "sys_ok c" and "i < length (y_threads c)" and "pc_item (t_pc (y_threads c ! i)) = Some p" and "section_of (t_pc (y_threads c ! i)) = None"
    and "idle c p" and "q = T_tasks \<or> q = T_accept"
  shows "sys_ok (goto (c\<lparr>y_armed := (y_armed c)(p \<mapsto> TCP_INPUT)\<rparr>) i q)" (is "sys_ok ?c")
proof (rule sys_ok_step [OF assms(1,2)])
  let ?t = "y_threads c ! i" and ?t' = "(y_threads c ! i)\<lparr>t_pc := q\<rparr>"
  have sh: "shared_ok c" using assms(1) by (simp add: sys_ok_def)
  note th = threadD [OF sys_ok_thread [OF assms(1,2)]]
  have q: "pc_item q = None" "new_node q = None" "section_of q = None" "pc_ok ?c q" "\<not> in_handler q" using assms(6) by auto
  have p: "p \<in> owned ?t" "p \<notin> set (task_items (t_tasks ?t))" using assms(3) th(3) by (auto simp: owned_def)
  have idle: "idle ?c = idle c" by (simp add: idle_node fun_eq_iff)
  show "lock_shape c i ?c" by (rule lock_shape_same [OF assms(2), where t' = ?t']) (use assms(2,4) q in simp_all)
  show "local_step c i ?c ?t'" using assms(2) p q by (auto simp: local_step_def Let_def owned_def)
  show "shared_ok ?c"
    by (rule shared_okI) (use sharedD [OF sh] idle assms(5) in \<open>auto split: if_splits\<close>)
  show "thread_ok ?c ?t'"
    by (rule thread_okI) (use th(2,4-7) idle p q in \<open>auto simp: owned_def\<close>)
qed

lemma released:
  assumes "sys_ok c" and "i < length (y_threads c)" and "t_pc (y_threads c ! i) = T_release p n"
  shows "sys_ok (goto (c\<lparr>y_nodes := (y_nodes c)(n := None)\<rparr>) i (T_del_run p (Del_null (Some p))))" (is "sys_ok ?c")
proof (rule sys_ok_step [OF assms(1,2)])
  let ?t = "y_threads c ! i" and ?t' = "(y_threads c ! i)\<lparr>t_pc := T_del_run p (Del_null (Some p))\<rparr>"
  have sh: "shared_ok c" using assms(1) by (simp add: sys_ok_def)
  note th = threadD [OF sys_ok_thread [OF assms(1,2)]]
  have p: "payload (y_list c) p = Some n" "proper (y_list c)" "p \<in> owned ?t" "p \<notin> set (task_items (t_tasks ?t))"
    using assms(3) th(1) th(3) by (auto simp: owned_def)
  have idle: "idle ?c q" if "idle c q" "q \<noteq> p" for q
    by (rule idle_keep [OF that(1)]) (use that(2) sharedD(4) [OF sh] p(1) in auto)
  have armed: "idle ?c q" if "y_armed c q = Some m" for q m
    by (rule idle [OF sharedD(8) [OF sh that]]) (use that th(6) [OF p(3)] in auto)
  have del: "\<exists>r L. del_exec (Del_null (Some p)) (y_list c) = Some (Del_ret r, L) \<and> proper L"
  proof -
    from p(2) obtain xs where xs: "dlc (y_list c) xs" by (auto simp: proper_def)
    then have "p \<in> fst ` set xs" using p(1) by (auto simp: dlc_def dl_def payload_def)
    then obtain ys v zs where "xs = ys @ (p, v) # zs" by (metis in_fst_split)
    with list_del_dlc [of "y_list c" ys p v zs] xs list_del_steps show ?thesis by (fastforce simp: proper_def)
  qed
  show "lock_shape c i ?c" by (rule lock_shape_same [OF assms(2), where t' = ?t']) (use assms(2,3) in simp_all)
  show "local_step c i ?c ?t'" using assms(2,3) p by (auto simp: local_step_def Let_def owned_def foot_def)
  show "shared_ok ?c"
    by (rule shared_okI) (use sharedD(1-7) [OF sh] p armed in \<open>auto split: if_splits\<close>)
  show "thread_ok ?c ?t'"
    by (rule thread_ok_next [OF sys_ok_thread [OF assms(1,2)]]) (use th(6,7) p idle del in auto)
qed

lemma del_ran:
  assumes "sys_ok c" and "i < length (y_threads c)" and "t_pc (y_threads c ! i) = T_del_run p q" and "del_step q (y_list c) = Some (q', L)"
  shows "sys_ok (goto (c\<lparr>y_list := L\<rparr>) i (T_del_run p q'))" (is "sys_ok ?c")
proof (rule sys_ok_step [OF assms(1,2)])
  let ?t = "y_threads c ! i" and ?t' = "(y_threads c ! i)\<lparr>t_pc := T_del_run p q'\<rparr>"
  have sh: "shared_ok c" and lk: "locks_ok c" using assms(1) by (simp_all add: sys_ok_def)
  note th = threadD [OF sys_ok_thread [OF assms(1,2)]]
  have p: "del_item q \<in> {None, Some p}" "p \<in> owned ?t" "p \<notin> set (task_items (t_tasks ?t))"
    using assms(3) th(1) th(3) by (auto simp: owned_def)
  have lock: "y_lock c Tcp_node = Some i" using section_owner [OF lk assms(2)] assms(3) by simp
  have nd: "\<not> del_done q" using assms(4) by auto
  have run: "\<exists>r L'. del_exec q' L = Some (Del_ret r, L') \<and> proper L'"
    using th(1) assms(3) exec_step [of del_done q del_step, OF nd assms(4)] by auto
  have item: "del_item q' \<in> {None, Some p}" using del_step_item [OF assms(4)] p(1) by auto
  have brk: "l_brk L = l_brk (y_list c)" using del_step_payload [OF assms(4)] by simp
  have pay: "payload L q = payload (y_list c) q" if "q \<noteq> p" for q
    using del_step_payload [OF assms(4)] p(1) that by auto
  have sub: "payload (y_list c) q = Some n" if "payload L q = Some n" for q n
    using del_step_payload [OF assms(4)] that by (auto split: if_splits)
  have freed: "payload L p = None" if "del_item q' = None"
  proof (cases "del_item q = None")
    case True
    then have "payload (y_list c) p = None" using th(1) assms(3) by simp
    with sub show ?thesis by (metis not_None_eq)
  next
    case False
    with that del_step_item [OF assms(4)] p(1) have "q = Del_free p" by auto
    with del_step_free assms(4) show ?thesis by blast
  qed
  have idle: "idle ?c q" if "idle c q" "q \<noteq> p" for q
    by (rule idle_keep [OF that(1)]) (use that(2) pay in auto)
  have armed: "idle ?c q" if "y_armed c q = Some m" for q m
    by (rule idle [OF sharedD(8) [OF sh that]]) (use that th(6) [OF p(2)] in auto)
  show "lock_shape c i ?c" by (rule lock_shape_same [OF assms(2), where t' = ?t']) (use assms(2,3) in simp_all)
  have "ran (payload L) \<subseteq> ran (payload (y_list c))" using sub unfolding ran_def by blast
  moreover have "owned ?t' = owned ?t" using assms(3) by (simp add: owned_def)
  moreover have "payload L q = payload (y_list c) q" if "q \<notin> owned ?t" for q using pay p(2) that by metis
  ultimately show "local_step c i ?c ?t'" using assms(2) lock brk by (auto simp: local_step_def Let_def)
  show "shared_ok ?c"
    by (rule shared_okI) (use sharedD(1,7) [OF sh] armed lock brk in \<open>auto dest!: sub dest: sharedD(3-6) [OF sh]\<close>)
  show "thread_ok ?c ?t'"
    by (rule thread_ok_next [OF sys_ok_thread [OF assms(1,2)]]) (use th(1,6,7) assms(3) p idle run item brk freed in \<open>auto dest: sub\<close>)
qed

lemma put_ran:
  assumes "sys_ok c" and "i < length (y_threads c)" and "t_pc (y_threads c ! i) = T_put_run n q" and "put_step q (y_list c) = Some (q', L)"
  shows "sys_ok (goto (c\<lparr>y_list := L\<rparr>) i (T_put_run n q'))" (is "sys_ok ?c")
proof (rule sys_ok_step [OF assms(1,2)])
  let ?t = "y_threads c ! i" and ?t' = "(y_threads c ! i)\<lparr>t_pc := T_put_run n q'\<rparr>"
  have sh: "shared_ok c" and lk: "locks_ok c" using assms(1) by (simp_all add: sys_ok_def)
  note th = threadD [OF sys_ok_thread [OF assms(1,2)]]
  have n: "y_nodes c n = Some node_put" using assms(3) th(1) by simp
  have lock: "y_lock c Tcp_node = Some i" using section_owner [OF lk assms(2)] assms(3) by simp
  have nd: "\<not> put_done q" using assms(4) by (auto simp: put_done_def split: put_pc.splits)
  have run: "\<exists>p L'. put_exec q' L = Some (Put_ret (Some p), L') \<and> proper L'"
    using th(1) assms(3) exec_step [of put_done q put_step, OF nd assms(4)] by auto
  from put_step_payload [OF assms(4)] consider
    (link) "payload L = payload (y_list c)" "l_brk L = l_brk (y_list c)" "put_item q' = put_item q"
      "put_item q' = None \<longrightarrow> q' \<in> {Put_size n, Put_alloc n}"
    | (alloc) "payload L = (payload (y_list c))(l_brk (y_list c) \<mapsto> n)" "l_brk L = Suc (l_brk (y_list c))" "put_item q' = Some (l_brk (y_list c))"
      "n \<notin> ran (payload (y_list c))" "put_item q = None"
  proof (elim disjE exE conjE)
    fix v assume "q = Put_size v" "L = y_list c" "q' = Put_alloc v"
    then show thesis using link th(1) assms(3) by simp
  next
    fix v assume "q = Put_size v" "L = y_list c" "q' = Put_ret None"
    then show thesis using run by (simp add: exec_final)
  next
    fix v assume "q = Put_alloc v" "put_item q' = Some (l_brk (y_list c))" "payload L = (payload (y_list c))(l_brk (y_list c) \<mapsto> v)" "l_brk L = Suc (l_brk (y_list c))"
    then show thesis using alloc th(1) assms(3) by simp
  next
    fix p assume "put_item q = Some p" "put_item q' = Some p" "payload L = payload (y_list c)" "l_brk L = l_brk (y_list c)"
    then show thesis using link by simp
  qed
  note cases = this
  have pay: "payload L q = payload (y_list c) q" if "q < l_brk (y_list c)" for q
    using cases that by cases auto
  have idle: "idle ?c q" if "idle c q" for q
    by (rule idle_keep [OF that]) (use pay idle_below [OF sh that] in auto)
  show "lock_shape c i ?c" by (rule lock_shape_same [OF assms(2), where t' = ?t']) (use assms(2,3) in simp_all)
  show "local_step c i ?c ?t'"
    using cases
  proof cases
    case link
    then show ?thesis using assms(2,3) lock by (auto simp: local_step_def Let_def owned_def)
  next
    case alloc
    then show ?thesis using assms(2,3) lock by (auto simp: local_step_def Let_def owned_def ran_def split: if_splits)
  qed
  show "shared_ok ?c"
    using cases
  proof cases
    case link
    then show ?thesis by (intro shared_okI) (use sharedD [OF sh] idle lock in auto)
  next
    case alloc
    then show ?thesis
      by (intro shared_okI) (use sharedD [OF sh] idle lock n in \<open>auto simp: ran_def intro: less_SucI split: if_splits\<close>)
  qed
  show "thread_ok ?c ?t'"
  proof (rule thread_ok_next [OF sys_ok_thread [OF assms(1,2)]])
    show "pc_ok ?c (t_pc ?t')" using cases by cases (use th(1) assms(3) n run in \<open>auto split: option.splits\<close>)
    have fresh: "y_armed c (l_brk (y_list c)) = None" "l_brk (y_list c) \<notin> owned ?t"
      using sharedD(8) [OF sh] idle_below [OF sh] th(7) by (metis less_irrefl not_None_eq)+
    show "p \<notin> set (task_items (t_tasks ?t')) \<and> y_armed ?c p = None \<and> p < l_brk (y_list ?c)" if "pc_item (t_pc ?t') = Some p" for p
      using cases
    proof cases
      case link
      with that assms(3) have "pc_item (t_pc ?t) = Some p" by simp
      with th(3,6,7) link show ?thesis by (auto simp: owned_def)
    next
      case alloc
      with that fresh show ?thesis by (auto simp: owned_def)
    qed
    show "l_brk (y_list c) \<le> l_brk (y_list ?c)" using cases by cases auto
  qed (use idle in auto)
qed

section \<open>No thread goes wrong\<close>

lemma list_short:
  assumes "shared_ok c" and "dlc (y_list c) xs"
  shows "length xs \<le> y_brk c"
proof -
  have d: "dom (payload (y_list c)) = fst ` set xs" "distinct (map fst xs)" using assms(2) by (auto simp: dlc_def dl_def payload_def dom_def)
  have "length xs = card (dom (payload (y_list c)))" using d distinct_card [of "map fst xs"] by simp
  also have "\<dots> = card (payload (y_list c) ` dom (payload (y_list c)))"
    by (rule card_image [symmetric]) (use assms(1) in \<open>simp add: shared_ok_def\<close>)
  also have "\<dots> \<le> card (Some ` {..<y_brk c})"
    by (rule card_mono) (use sharedD(5) [OF assms(1)] in auto)
  also have "\<dots> = y_brk c" by (simp add: card_image)
  finally show ?thesis .
qed

lemma put_starts:
  assumes "shared_ok c" and "proper (y_list c)" and "int (y_brk c) < LONG_MAX"
  shows "\<exists>p L. put_exec (Put_size n) (y_list c) = Some (Put_ret (Some p), L) \<and> proper L"
proof -
  from assms(2) obtain xs where xs: "dlc (y_list c) xs" by (auto simp: proper_def)
  have "int (length xs) < LONG_MAX" using list_short [OF assms(1) xs] assms(3) by linarith
  from list_put_dlc [OF xs this, of n] list_put_steps show ?thesis by (fastforce simp: proper_def)
qed

lemma handler_ok:
  assumes "site_ok w" and "shared_ok c" and "input_ok w x i c" and "t_pc (y_threads c ! i) = T_handle p k" and "k \<noteq> EPOLLOUT"
    and "node_of c p = Some (n, t)" and "node_idle t"
  shows "\<exists>t' mime g. event_handler w x c t k = Some (t', mime, g) \<and> node_done t' \<and> mime_ok mime"
proof (cases "k = EPOLLIN \<and> y_rumble c")
  case True
  let ?v = "tcp_start (y_mime c) (y_rng c)"
  have v: "s_mime ?v = y_mime c" "Tcp.s_rng ?v = y_rng c" by (simp_all add: tcp_start_def)
  have "\<exists>n mime g. tcp_input w (in_now x) (s_mime ?v) (Tcp.s_rng ?v) (in_sock x) (c_node \<lparr>c_node = t, armed = Some TCP_INPUT\<rparr>) (in_recv x) = Some (n, mime, g) \<and>
      node_done n \<and> mime_ok mime"
    by (rule tcp_input_ok [OF assms(1)])
      (use assms(2,3,4,6,7) sharedD(1) [OF assms(2)] True in \<open>auto simp: input_ok_def v conn_ok_def node_idle_def\<close>)
  then show ?thesis using True by (simp add: event_handler_def v)
next
  case False
  then show ?thesis using assms(5,7) sharedD(1) [OF assms(2)]
    by (cases k) (auto simp: event_handler_def node_idle_def node_done_def)
qed

lemma thread_fine:
  assumes "site_ok w" and "sys_ok c" and "i < length (y_threads c)" and "input_ok w x i c"
  shows "fine c (thread_step w x i c)"
proof -
  let ?t = "y_threads c ! i"
  have sh: "shared_ok c" using assms(2) by (simp add: sys_ok_def)
  note th = threadD [OF sys_ok_thread [OF assms(2,3)]]
  note go = fine_goto' [OF assms(2,3)] and block = fine_block [OF assms(2,3)] and unblock = fine_unblock [OF assms(2,3)]
  show ?thesis
  proof (cases "t_pc ?t")
    case T_wait
    then show ?thesis
      using wait_events [OF assms(2,3)] assms(2,4) go [of T_exit]
      by (auto simp: thread_step_def wait_step_def fine_def input_ok_def split: WAITRES.splits)
  next
    case T_tasks
    show ?thesis
    proof (cases "t_tasks ?t")
      case Nil
      then show ?thesis using T_tasks go [of T_leave] by (simp add: thread_step_def task_step_def fine_def)
    next
      case (Cons a ts)
      show ?thesis
      proof (cases a)
        case New_conn
        then show ?thesis using T_tasks Cons fine_goto [OF assms(2,3), of T_accept ts] by (simp add: thread_step_def task_step_def fine_def)
      next
        case (Event p k)
        then have e: "t_tasks ?t = Event p k # ts" "idle c p" using Cons th(4) by auto
        then have "node_of c p \<noteq> None" "alone c i adding" using T_tasks assms(4) by (auto simp: idle_def input_ok_def mime_alone_def)
        with event_begun [OF assms(2,3) T_tasks e(1)] T_tasks e(1) show ?thesis
          by (auto simp: thread_step_def task_step_def fine_def)
      qed
    qed
  next
    case (T_handle p k)
    then obtain n t where n: "k \<noteq> EPOLLOUT" "node_of c p = Some (n, t)" "node_idle t" using th(1) by auto
    from handler_ok [OF assms(1) sh assms(4) T_handle n] obtain t' mime g where
      h: "event_handler w x c t k = Some (t', mime, g)" "node_done t'" "mime_ok mime" by blast
    show ?thesis
    proof (cases "mime = y_mime c")
      case True
      with event_done [OF assms(2,3), of p n t t' g] T_handle n h show ?thesis by (simp add: thread_step_def handle_step_def fine_def)
    next
      case False
      then have "alone c i in_handler" using assms(4) T_handle n(2) h(1) by (auto simp: input_ok_def mime_alone_def)
      then have "admits c i (T_mime_block p t' mime g)" using T_handle by (simp add: admits_def)
      with go [of "T_mime_block p t' mime g"] T_handle n h False show ?thesis by (simp add: thread_step_def handle_step_def fine_def)
    qed
  next
    case (T_mime_block p t mime g)
    then show ?thesis using th(1) block [of "T_mime_add p t mime g" Mime_mutex] by (simp add: thread_step_def)
  next
    case (T_mime_unblock p t g)
    then show ?thesis using th(1) unblock [of Mime_mutex "T_again p t g"] by (simp add: thread_step_def)
  next
    case (T_mime_add p t mime g)
    have "\<not> in_handler (t_pc (y_threads c ! j))" if "j < length (y_threads c)" "j \<noteq> i" for j
      using assms(2,3) that T_mime_add by (auto simp: sys_ok_def apart_def)
    with mime_added [OF assms(2,3) T_mime_add] T_mime_add show ?thesis
      by (auto simp: thread_step_def mime_add_step_def fine_def list_ex_iff)
  next
    case (T_again p t g)
    then obtain n u where "node_of c p = Some (n, u)" "node_done t" using th(1) by auto
    with event_done [OF assms(2,3), of p n u t g] T_again show ?thesis by (simp add: thread_step_def again_step_def fine_def)
  next
    case T_accept
    then show ?thesis
      using accepted [OF assms(2,3)] assms(4) go [of T_tasks]
      by (auto simp: thread_step_def accept_step_def fine_def input_ok_def split: option.splits ACCEPT.splits)
  next
    case (T_put_run n q)
    have nd: "pc_ok c (T_put_run n q)" using th(1) T_put_run by simp
    show ?thesis
    proof (cases "put_done q")
      case True
      then obtain r where q: "q = Put_ret r" by (auto simp: put_done_def split: put_pc.splits)
      with nd have "\<exists>p. r = Some p \<and> proper (y_list c) \<and> payload (y_list c) p = Some n \<and> y_nodes c n = Some node_put"
        by (auto simp: exec_final)
      with q show ?thesis using T_put_run unblock [of Tcp_node "T_put_got n r"] by (auto simp: thread_step_def put_run_step_def)
    next
      case False
      then obtain q' L where q: "put_step q (y_list c) = Some (q', L)" using nd exec_defined [of put_step put_done q "y_list c"] by auto
      then have "put_run_step i c n q = Next (goto (c\<lparr>y_list := L\<rparr>) i (T_put_run n q'))"
        using False by (auto simp: put_run_step_def split: put_pc.splits)
      with put_ran [OF assms(2,3) T_put_run q] T_put_run show ?thesis by (simp add: thread_step_def fine_def)
    qed
  next
    case (T_put_got n r)
    then obtain p where p: "r = Some p" "node_of c p = Some (n, node_put)" using th(1) by (auto simp: node_of_def)
    then have "idle c p" by (simp add: idle_def node_idle_def node_put_def)
    with rearmed [OF assms(2,3), of p T_accept] p T_put_got show ?thesis by (simp add: thread_step_def put_got_step_def fine_def)
  next
    case (T_gate p)
    then obtain n t where t: "node_of c p = Some (n, t)" "node_done t" using th(1) by auto
    show ?thesis
    proof (cases "pipeline t = NODE_SHUTDOWN")
      case True
      with t T_gate go [of "T_shut p"] show ?thesis by (simp add: thread_step_def gate_step_def fine_def)
    next
      case False
      with t have "pipeline t = NODE_READY" "idle c p" by (auto simp: node_done_def idle_def node_idle_def)
      with rearmed [OF assms(2,3), of p T_tasks] t T_gate show ?thesis by (simp add: thread_step_def gate_step_def fine_def)
    qed
  next
    case (T_del_run p q)
    have nd: "pc_ok c (T_del_run p q)" using th(1) T_del_run by simp
    show ?thesis
    proof (cases "del_done q")
      case True
      then obtain r where q: "q = Del_ret r" by auto
      with nd have "proper (y_list c)" by (auto simp: exec_final)
      with q show ?thesis using T_del_run unblock [of Tcp_node T_tasks] by (auto simp: thread_step_def del_run_step_def)
    next
      case False
      then obtain q' L where q: "del_step q (y_list c) = Some (q', L)" using nd exec_defined [of del_step del_done q "y_list c"] by auto
      then have "del_run_step i c p q = Next (goto (c\<lparr>y_list := L\<rparr>) i (T_del_run p q'))"
        using False by (auto simp: del_run_step_def split: del_pc.splits)
      with del_ran [OF assms(2,3) T_del_run q] T_del_run show ?thesis by (simp add: thread_step_def fine_def)
    qed
  next
    case (T_put_block n)
    have "pc_ok c (T_put_run n (Put_size n))" if "y_lock c Tcp_node = None"
      using th(1) T_put_block put_starts [OF sh sharedD(2) [OF sh that]] assms(4) by (simp add: input_ok_def)
    with T_put_block block [of "T_put_run n (Put_size n)" Tcp_node] show ?thesis by (simp add: thread_step_def)
  next
    case (T_shut p)
    then obtain n t where "payload (y_list c) p = Some n" "y_nodes c n = Some t" using th(1) by (auto simp: node_of_def bind_eq_Some_conv')
    with T_shut go [of "T_shut_block p n"] show ?thesis by (simp add: thread_step_def fine_def)
  next
    case (T_shut_block p n)
    have "pc_ok c (T_disconnect p n)" if "y_lock c Tcp_node = None" using th(1) T_shut_block sharedD(2) [OF sh that] by simp
    with T_shut_block block [of "T_disconnect p n" Tcp_node] show ?thesis by (simp add: thread_step_def)
  next
    case (T_disconnect p n)
    then have ok: "pc_ok c (T_disconnect p n)" and "y_armed c p = None" using th(1) th(6) [of p] by (simp_all add: owned_def)
    then have same: "(y_armed c)(p := None) = y_armed c" by (simp add: fun_upd_idem)
    let ?c = "goto (c\<lparr>y_armed := (y_armed c)(p := None), y_conns := y_conns c - {n}\<rparr>) i (T_release p n)"
    have "sys_ok ?c"
    proof (rule quiet_step [OF assms(2,3), where t' = "?t\<lparr>t_pc := T_release p n\<rparr>"])
      show "lock_shape c i ?c" by (rule lock_shape_same [OF assms(3), where t' = "?t\<lparr>t_pc := T_release p n\<rparr>"]) (use T_disconnect in simp_all)
      show "pc_ok ?c (t_pc (?t\<lparr>t_pc := T_release p n\<rparr>))" using ok by simp
      show "y_lock ?c Tcp_node = None \<Longrightarrow> proper (y_list c)" using ok by simp
    qed (use T_disconnect in \<open>simp_all add: same_memory_def same\<close>)
    with T_disconnect ok show ?thesis by (auto simp: thread_step_def fine_def)
  next
    case (T_release p n)
    then show ?thesis using th(1) released [OF assms(2,3)] by (auto simp: thread_step_def fine_def)
  next
    case (T_id_store n)
    then show ?thesis
      using counted [OF assms(2,3), of T_id_unblock "c\<lparr>y_id := Suc n, y_threads := (y_threads c)[i := ?t\<lparr>t_num := n, t_pc := T_id_unblock\<rparr>]\<rparr>" n] by (simp add: thread_step_def fine_def same_memory_def)
  next
    case (T_inc_store n)
    then show ?thesis
      using counted [OF assms(2,3), of T_inc_unblock "goto (c\<lparr>y_active := n + 1\<rparr>) i T_inc_unblock" "t_num ?t"] by (simp add: thread_step_def fine_def same_memory_def)
  next
    case (T_dec_store n)
    then show ?thesis
      using counted [OF assms(2,3), of T_dec_unblock "goto (c\<lparr>y_active := n - 1\<rparr>) i T_dec_unblock" "t_num ?t"] by (simp add: thread_step_def fine_def same_memory_def)
  qed (auto simp: thread_step_def fine_def intro!: block [unfolded fine_def] unblock [unfolded fine_def] go)
qed

end
