(* ===== verification/Thread_Safety.thy ===== *)
theory Thread_Safety
  imports Threads_Inv
begin

text \<open>
  What holds of the web server under every schedule of its threads: no thread goes wrong or waits for one that cannot go on, the counters of the workers are exact, and at the end
  all memory of the connections is released (\<open>node_free\<close> of \<^verbatim>\<open>src/src/web/node_tcp.c\<close>).
\<close>

lemma signal_ok: "sys_ok (c\<lparr>y_rumble := False\<rparr>) = sys_ok c"
proof -
  let ?c = "c\<lparr>y_rumble := False\<rparr>"
  have "idle ?c = idle c" "pc_ok ?c = pc_ok c" by (simp add: idle_node fun_eq_iff, rule ext, rule pc_ok_cong, simp_all)
  then show ?thesis by (simp add: sys_ok_def locks_ok_def shared_ok_def thread_ok_def)
qed

lemma payload_init: "payload list_init = Map.empty"
  by (simp add: payload_def list_init_def fun_eq_iff)

lemma start_sys_ok: "mime_ok mime \<Longrightarrow> sys_ok (threads_start k mime g)"
  using list_init_dlc
  by (auto simp: threads_start_def sys_ok_def locks_ok_def shared_ok_def thread_ok_def apart_def owned_def proper_def payload_init)

lemma step_threads: "thread_step w x i c = Next c' \<Longrightarrow> i < length (y_threads c) \<Longrightarrow> length (y_threads c') = length (y_threads c)"
  using thread_step_shape [of i c w x c'] by (auto simp: lock_shape_def)

lemma reached_sys_ok: "threads_reached w k c \<Longrightarrow> site_ok w \<Longrightarrow> sys_ok c \<and> length (y_threads c) = k"
proof (induction rule: threads_reached.induct)
  case (thr_start mime g)
  then show ?case using mime_start_ok start_sys_ok by (auto simp: threads_start_def)
next
  case (thr_step c i x c')
  then show ?case using thread_fine [of w c i x] step_threads [of w x i c c'] by (simp add: fine_def)
next
  case (thr_signal c)
  then show ?case by (simp add: signal_ok)
qed

section \<open>Counters\<close>

text \<open>The threads that have their number, and those between the two changes of \<open>active\<close>.\<close>

fun started :: "pc \<Rightarrow> bool" where
  "started T_start = False"
| "started T_id_load = False"
| "started (T_id_store n) = False"
| "started _ = True"

fun busy :: "pc \<Rightarrow> bool" where
  "busy T_start = False"
| "busy T_id_load = False"
| "busy (T_id_store n) = False"
| "busy T_id_unblock = False"
| "busy T_wait = False"
| "busy T_enter = False"
| "busy T_inc_load = False"
| "busy (T_inc_store a) = False"
| "busy T_dec_unblock = False"
| "busy T_exit = False"
| "busy _ = True"

definition workers :: "THREAD list \<Rightarrow> nat" where
  "workers T = sum_list (map (\<lambda>t. of_bool (busy (t_pc t))) T)"

definition count_ok :: "SYS \<Rightarrow> bool" where
  "count_ok c \<longleftrightarrow> y_active c = int (workers (y_threads c)) \<and>
     (\<forall>i < length (y_threads c). started (t_pc (y_threads c ! i)) \<longrightarrow> t_num (y_threads c ! i) < y_id c \<and>
       (\<forall>j < length (y_threads c). started (t_pc (y_threads c ! j)) \<longrightarrow> i \<noteq> j \<longrightarrow> t_num (y_threads c ! i) \<noteq> t_num (y_threads c ! j)))"

lemma workers_update:
  assumes "i < length T"
  shows "int (workers (T[i := t'])) = int (workers T) - of_bool (busy (t_pc (T ! i))) + of_bool (busy (t_pc t'))"
proof -
  have "of_bool (busy (t_pc (T ! i))) \<le> workers T" unfolding workers_def
    using assms by (intro elem_le_sum_list [of i "map _ T", simplified nth_map length_map]) simp
  then show ?thesis using assms by (simp add: workers_def map_update sum_list_update)
qed

definition count_shape :: "SYS \<Rightarrow> nat \<Rightarrow> SYS \<Rightarrow> bool" where
  "count_shape c i c' \<longleftrightarrow> (let t = y_threads c ! i in
     \<exists>t'. y_threads c' = (y_threads c)[i := t'] \<and>
       y_active c' = y_active c - of_bool (busy (t_pc t)) + of_bool (busy (t_pc t')) \<and>
       (y_id c' = y_id c \<and> t_num t' = t_num t \<and> started (t_pc t') = started (t_pc t) \<or>
        y_id c' = Suc (y_id c) \<and> t_num t' = y_id c \<and> started (t_pc t')))"

lemma count_keep: "count_ok c \<Longrightarrow> i < length (y_threads c) \<Longrightarrow> count_shape c i c' \<Longrightarrow> count_ok c'"
proof -
  assume ok: "count_ok c" and i: "i < length (y_threads c)" and "count_shape c i c'"
  then obtain t' where T: "y_threads c' = (y_threads c)[i := t']"
    and a: "y_active c' = y_active c - of_bool (busy (t_pc (y_threads c ! i))) + of_bool (busy (t_pc t'))"
    and d: "y_id c' = y_id c \<and> t_num t' = t_num (y_threads c ! i) \<and> started (t_pc t') = started (t_pc (y_threads c ! i)) \<or>
      y_id c' = Suc (y_id c) \<and> t_num t' = y_id c \<and> started (t_pc t')"
    by (auto simp: count_shape_def Let_def)
  have "y_active c' = int (workers (y_threads c'))" using ok a workers_update [OF i, of t'] by (simp add: count_ok_def T)
  then show "count_ok c'" using d ok i
    by (elim disjE conjE) (auto simp: count_ok_def T nth_list_update less_SucI)
qed

lemma count_same:
  "i < length (y_threads c) \<Longrightarrow> y_threads c' = (y_threads c)[i := t'] \<Longrightarrow> y_active c' = y_active c \<Longrightarrow> y_id c' = y_id c \<Longrightarrow>
   t_num t' = t_num (y_threads c ! i) \<Longrightarrow> started (t_pc t') = started (t_pc (y_threads c ! i)) \<Longrightarrow> busy (t_pc t') = busy (t_pc (y_threads c ! i)) \<Longrightarrow>
   count_shape c i c'"
  by (auto simp: count_shape_def Let_def)

lemma count_block:
  "mutex_block c i m q = Next c' \<Longrightarrow> i < length (y_threads c) \<Longrightarrow> started q = started (t_pc (y_threads c ! i)) \<Longrightarrow>
   busy q = busy (t_pc (y_threads c ! i)) \<Longrightarrow> count_shape c i c'"
  by (rule count_same [where t' = "(y_threads c ! i)\<lparr>t_pc := q\<rparr>"]) (auto simp: mutex_block_def split: option.splits)

lemma count_unblock:
  "mutex_unblock c i m q = Next c' \<Longrightarrow> i < length (y_threads c) \<Longrightarrow> started q = started (t_pc (y_threads c ! i)) \<Longrightarrow>
   busy q = busy (t_pc (y_threads c ! i)) \<Longrightarrow> count_shape c i c'"
  by (rule count_same [where t' = "(y_threads c ! i)\<lparr>t_pc := q\<rparr>"]) (auto simp: mutex_unblock_def split: if_splits)

lemma count_refl: "i < length (y_threads c) \<Longrightarrow> count_shape c i c"
  by (rule count_same [where t' = "y_threads c ! i"]) simp_all

lemma thread_step_count:
  assumes "i < length (y_threads c)" and "thread_step w x i c = Next c'" and "pc_ok c (t_pc (y_threads c ! i))"
  shows "count_shape c i c'"
proof (cases "t_pc (y_threads c ! i)")
  case (T_put_run n q)
  then have "put_run_step i c n q = Next c'" using assms(2) by (simp add: thread_step_def)
  then show ?thesis
    by (cases rule: put_run_cases) (use assms(1) T_put_run in \<open>auto intro: count_unblock count_same\<close>)
next
  case (T_del_run p q)
  then have "del_run_step i c p q = Next c'" using assms(2) by (simp add: thread_step_def)
  then show ?thesis
    by (cases rule: del_run_cases) (use assms(1) T_del_run in \<open>auto intro: count_unblock count_same\<close>)
next
  case (T_id_store n)
  then show ?thesis using assms by (auto simp: thread_step_def count_shape_def Let_def)
next
  case (T_inc_store n)
  then show ?thesis using assms by (auto simp: thread_step_def count_shape_def Let_def)
next
  case (T_dec_store n)
  then show ?thesis using assms by (auto simp: thread_step_def count_shape_def Let_def)
qed (use assms in \<open>auto simp: thread_step_def wait_step_def task_step_def handle_step_def mime_add_step_def again_step_def accept_step_def put_got_step_def gate_step_def
    intro: count_block count_unblock count_same count_refl
    split: if_splits option.splits WAITRES.splits task.splits list.splits ACCEPT.splits pipeline.splits prod.splits\<close>)

section \<open>No node is lost\<close>

text \<open>Every node is in the list or belongs to the thread that is about to put it there.\<close>

definition leak_ok :: "SYS \<Rightarrow> bool" where
  "leak_ok c \<longleftrightarrow> (\<forall>n \<in> dom (y_nodes c). n \<in> ran (payload (y_list c)) \<or>
     (\<exists>i < length (y_threads c). new_node (t_pc (y_threads c ! i)) = Some n))"

definition leak_shape :: "SYS \<Rightarrow> nat \<Rightarrow> SYS \<Rightarrow> bool" where
  "leak_shape c i c' \<longleftrightarrow> (\<exists>t'. y_threads c' = (y_threads c)[i := t'] \<and>
     (\<forall>n \<in> dom (y_nodes c').
        (n \<in> dom (y_nodes c) \<or> new_node (t_pc t') = Some n) \<and>
        (n \<in> ran (payload (y_list c)) \<longrightarrow> n \<in> ran (payload (y_list c'))) \<and>
        (new_node (t_pc (y_threads c ! i)) = Some n \<longrightarrow> n \<in> ran (payload (y_list c')) \<or> new_node (t_pc t') = Some n)))"

lemma leak_keep:
  assumes "leak_ok c" and "i < length (y_threads c)" and "leak_shape c i c'"
  shows "leak_ok c'"
proof -
  from assms(3) obtain t' where T: "y_threads c' = (y_threads c)[i := t']" and
    n: "\<And>n. n \<in> dom (y_nodes c') \<Longrightarrow> (n \<in> dom (y_nodes c) \<or> new_node (t_pc t') = Some n) \<and>
        (n \<in> ran (payload (y_list c)) \<longrightarrow> n \<in> ran (payload (y_list c'))) \<and>
        (new_node (t_pc (y_threads c ! i)) = Some n \<longrightarrow> n \<in> ran (payload (y_list c')) \<or> new_node (t_pc t') = Some n)"
    unfolding leak_shape_def by blast
  show ?thesis unfolding leak_ok_def
  proof
    fix m assume m: "m \<in> dom (y_nodes c')"
    have here: "new_node (t_pc t') = Some m \<Longrightarrow> \<exists>j < length (y_threads c'). new_node (t_pc (y_threads c' ! j)) = Some m"
      using assms(2) by (intro exI [of _ i]) (simp add: T)
    have "\<exists>j < length (y_threads c'). new_node (t_pc (y_threads c' ! j)) = Some m"
      if "j < length (y_threads c)" "new_node (t_pc (y_threads c ! j)) = Some m" "j \<noteq> i" for j
      using that by (intro exI [of _ j]) (simp add: T)
    with n [OF m] assms(1) here show "m \<in> ran (payload (y_list c')) \<or> (\<exists>j < length (y_threads c'). new_node (t_pc (y_threads c' ! j)) = Some m)"
      unfolding leak_ok_def by metis
  qed
qed

lemma leak_same:
  "i < length (y_threads c) \<Longrightarrow> y_threads c' = (y_threads c)[i := t'] \<Longrightarrow> dom (y_nodes c') \<subseteq> dom (y_nodes c) \<Longrightarrow> y_list c' = y_list c \<Longrightarrow>
   new_node (t_pc t') = new_node (t_pc (y_threads c ! i)) \<Longrightarrow> leak_shape c i c'"
  unfolding leak_shape_def by (rule exI [of _ t']) auto

lemma leak_block:
  "mutex_block c i m q = Next c' \<Longrightarrow> i < length (y_threads c) \<Longrightarrow> new_node q = new_node (t_pc (y_threads c ! i)) \<Longrightarrow> leak_shape c i c'"
  by (rule leak_same [where t' = "(y_threads c ! i)\<lparr>t_pc := q\<rparr>"]) (auto simp: mutex_block_def split: option.splits)

lemma leak_unblock:
  "mutex_unblock c i m q = Next c' \<Longrightarrow> i < length (y_threads c) \<Longrightarrow> new_node q = new_node (t_pc (y_threads c ! i)) \<Longrightarrow> leak_shape c i c'"
  by (rule leak_same [where t' = "(y_threads c ! i)\<lparr>t_pc := q\<rparr>"]) (auto simp: mutex_unblock_def split: if_splits)

lemma leak_refl: "i < length (y_threads c) \<Longrightarrow> leak_shape c i c"
  by (rule leak_same [where t' = "y_threads c ! i"]) simp_all

lemma thread_step_leak:
  assumes "i < length (y_threads c)" and "thread_step w x i c = Next c'" and "pc_ok c (t_pc (y_threads c ! i))"
    and "dom (payload (y_list c)) \<subseteq> {..<l_brk (y_list c)}"
  shows "leak_shape c i c'"
proof (cases "t_pc (y_threads c ! i)")
  case (T_put_run n q)
  then have "put_run_step i c n q = Next c'" using assms(2) by (simp add: thread_step_def)
  then show ?thesis
  proof (cases rule: put_run_cases)
    case (1 r)
    then show ?thesis using assms(1) T_put_run by (auto intro: leak_unblock)
  next
    case (2 q' L)
    have "payload (y_list c) (l_brk (y_list c)) = None" using assms(4) by auto
    then have "ran (payload (y_list c)) \<subseteq> ran (payload L)"
      using put_step_payload [OF 2(2)] by (elim disjE exE conjE) (simp_all add: ran_map_upd subset_insertI)
    then show ?thesis using assms(1) T_put_run unfolding leak_shape_def 2(3)
      by (intro exI [of _ "(y_threads c ! i)\<lparr>t_pc := T_put_run n q'\<rparr>"]) auto
  qed
next
  case (T_del_run p q)
  then have "del_run_step i c p q = Next c'" using assms(2) by (simp add: thread_step_def)
  then show ?thesis
  proof (cases rule: del_run_cases)
    case (1 r)
    then show ?thesis using assms(1) T_del_run by (auto intro: leak_unblock)
  next
    case (2 q' L)
    have "n \<in> ran (payload L)" if "n \<in> ran (payload (y_list c))" "y_nodes c n \<noteq> None" for n
    proof -
      from that(1) obtain r where r: "payload (y_list c) r = Some n" by (auto simp: ran_def)
      with that(2) assms(3) T_del_run have "r \<noteq> p" by auto
      then have "payload L r = Some n" using del_step_payload [OF 2(2)] assms(3) T_del_run r by auto
      then show ?thesis by (auto simp: ran_def)
    qed
    then show ?thesis using assms(1) T_del_run unfolding leak_shape_def 2(3)
      by (intro exI [of _ "(y_threads c ! i)\<lparr>t_pc := T_del_run p q'\<rparr>"]) auto
  qed
next
  case T_accept
  then show ?thesis using assms by (auto simp: thread_step_def accept_step_def leak_shape_def intro: leak_same split: option.splits ACCEPT.splits)
next
  case (T_put_got n r)
  then obtain p where p: "r = Some p" "payload (y_list c) p = Some n" using assms(3) by auto
  then have "n \<in> ran (payload (y_list c))" by (auto simp: ran_def)
  with assms(1,2) T_put_got p show ?thesis unfolding leak_shape_def
    by (auto simp: thread_step_def put_got_step_def split: option.splits)
qed (use assms in \<open>auto simp: thread_step_def wait_step_def task_step_def handle_step_def mime_add_step_def again_step_def gate_step_def node_of_def bind_eq_Some_conv'
    intro: leak_block leak_unblock leak_same leak_refl
    split: if_splits option.splits WAITRES.splits task.splits list.splits pipeline.splits prod.splits\<close>)

text \<open>An item in the list has a node, unless it is being deleted.\<close>

definition live_ok :: "SYS \<Rightarrow> bool" where
  "live_ok c \<longleftrightarrow> (\<forall>p n. payload (y_list c) p = Some n \<longrightarrow> y_nodes c n = None \<longrightarrow>
     (\<exists>i < length (y_threads c). \<exists>q. t_pc (y_threads c ! i) = T_del_run p q))"

definition live_shape :: "SYS \<Rightarrow> nat \<Rightarrow> SYS \<Rightarrow> bool" where
  "live_shape c i c' \<longleftrightarrow> (\<exists>t'. y_threads c' = (y_threads c)[i := t'] \<and>
     (\<forall>p n. payload (y_list c') p = Some n \<longrightarrow> y_nodes c' n = None \<longrightarrow> (\<exists>q. t_pc t' = T_del_run p q) \<or>
        payload (y_list c) p = Some n \<and> y_nodes c n = None \<and> (\<nexists>q. t_pc (y_threads c ! i) = T_del_run p q)))"

lemma live_keep:
  assumes "live_ok c" and "i < length (y_threads c)" and "live_shape c i c'"
  shows "live_ok c'"
proof -
  from assms(3) obtain t' where T: "y_threads c' = (y_threads c)[i := t']" and
    n: "\<And>p n. payload (y_list c') p = Some n \<Longrightarrow> y_nodes c' n = None \<Longrightarrow> (\<exists>q. t_pc t' = T_del_run p q) \<or>
        payload (y_list c) p = Some n \<and> y_nodes c n = None \<and> (\<nexists>q. t_pc (y_threads c ! i) = T_del_run p q)"
    unfolding live_shape_def by blast
  show ?thesis unfolding live_ok_def
  proof (intro allI impI)
    fix p m assume m: "payload (y_list c') p = Some m" "y_nodes c' m = None"
    show "\<exists>j < length (y_threads c'). \<exists>q. t_pc (y_threads c' ! j) = T_del_run p q"
    proof (cases "\<exists>q. t_pc t' = T_del_run p q")
      case True
      then show ?thesis using assms(2) by (intro exI [of _ i]) (simp add: T)
    next
      case False
      with n [OF m] obtain j q where j: "j < length (y_threads c)" "t_pc (y_threads c ! j) = T_del_run p q" "j \<noteq> i"
        using assms(1) unfolding live_ok_def by metis
      then show ?thesis by (intro exI [of _ j]) (simp add: T)
    qed
  qed
qed

lemma live_same:
  "i < length (y_threads c) \<Longrightarrow> y_threads c' = (y_threads c)[i := t'] \<Longrightarrow> dom (y_nodes c) \<subseteq> dom (y_nodes c') \<Longrightarrow> y_list c' = y_list c \<Longrightarrow>
   section_of (t_pc (y_threads c ! i)) \<noteq> Some Tcp_node \<or> t_pc t' = t_pc (y_threads c ! i) \<or> \<not> (\<exists>p q. t_pc (y_threads c ! i) = T_del_run p q) \<Longrightarrow>
   live_shape c i c'"
  unfolding live_shape_def by (rule exI [of _ t']) (auto dest!: subsetD)

lemma live_block: "mutex_block c i m q = Next c' \<Longrightarrow> i < length (y_threads c) \<Longrightarrow> section_of (t_pc (y_threads c ! i)) = None \<Longrightarrow> live_shape c i c'"
  by (rule live_same [where t' = "(y_threads c ! i)\<lparr>t_pc := q\<rparr>"]) (auto simp: mutex_block_def split: option.splits)

lemma live_unblock:
  "mutex_unblock c i m q = Next c' \<Longrightarrow> i < length (y_threads c) \<Longrightarrow> \<not> (\<exists>p q. t_pc (y_threads c ! i) = T_del_run p q) \<Longrightarrow> live_shape c i c'"
  by (rule live_same [where t' = "(y_threads c ! i)\<lparr>t_pc := q\<rparr>"]) (auto simp: mutex_unblock_def split: if_splits)

lemma live_refl: "i < length (y_threads c) \<Longrightarrow> live_shape c i c"
  by (rule live_same [where t' = "y_threads c ! i"]) simp_all

lemma thread_step_live:
  assumes "i < length (y_threads c)" and "thread_step w x i c = Next c'" and "pc_ok c (t_pc (y_threads c ! i))"
    and "inj_on (payload (y_list c)) (dom (payload (y_list c)))"
  shows "live_shape c i c'"
proof (cases "t_pc (y_threads c ! i)")
  case (T_put_run n q)
  then have "put_run_step i c n q = Next c'" using assms(2) by (simp add: thread_step_def)
  then show ?thesis
  proof (cases rule: put_run_cases)
    case (1 r)
    then show ?thesis using assms(1) T_put_run by (auto intro: live_unblock)
  next
    case (2 q' L)
    have "payload (y_list c) p = Some m" if "payload L p = Some m" "y_nodes c m = None" for p m
      using put_step_payload [OF 2(2)] that assms(3) T_put_run by (auto split: if_splits)
    then show ?thesis using assms(1) T_put_run unfolding live_shape_def 2(3)
      by (intro exI [of _ "(y_threads c ! i)\<lparr>t_pc := T_put_run n q'\<rparr>"]) auto
  qed
next
  case (T_del_run p q)
  then have "del_run_step i c p q = Next c'" using assms(2) by (simp add: thread_step_def)
  then show ?thesis
  proof (cases rule: del_run_cases)
    case (1 r)
    then have "payload (y_list c) p = None" using assms(3) T_del_run by simp
    then show ?thesis using assms(1) T_del_run 1(2) unfolding live_shape_def
      by (intro exI [of _ "(y_threads c ! i)\<lparr>t_pc := T_tasks\<rparr>"]) (auto simp: mutex_unblock_def split: if_splits)
  next
    case (2 q' L)
    have "payload (y_list c) r = Some m" if "payload L r = Some m" for r m
      using del_step_payload [OF 2(2)] that by (auto split: if_splits)
    then show ?thesis using assms(1) T_del_run unfolding live_shape_def 2(3)
      by (intro exI [of _ "(y_threads c ! i)\<lparr>t_pc := T_del_run p q'\<rparr>"]) auto
  qed
next
  case (T_release p n)
  have "r = p" if "payload (y_list c) r = Some n" for r using that assms(3,4) T_release by (auto simp: inj_on_def dom_def)
  then show ?thesis using assms(1,2) T_release unfolding live_shape_def
    by (intro exI [of _ "(y_threads c ! i)\<lparr>t_pc := T_del_run p (Del_null (Some p))\<rparr>"]) (auto simp: thread_step_def split: option.splits if_splits)
qed (use assms in \<open>auto simp: thread_step_def wait_step_def task_step_def handle_step_def mime_add_step_def again_step_def accept_step_def put_got_step_def gate_step_def node_of_def bind_eq_Some_conv'
    intro: live_block live_unblock live_same live_refl
    split: if_splits option.splits WAITRES.splits ACCEPT.splits task.splits list.splits pipeline.splits prod.splits\<close>)

text \<open>An open connection belongs to a node; a node that is about to be released has been disconnected.\<close>

definition open_ok :: "SYS \<Rightarrow> bool" where
  "open_ok c \<longleftrightarrow> y_conns c \<subseteq> dom (y_nodes c) \<and>
     (\<forall>i < length (y_threads c). \<forall>p n. t_pc (y_threads c ! i) = T_release p n \<longrightarrow> n \<notin> y_conns c)"

lemma open_same:
  "i < length (y_threads c) \<Longrightarrow> y_threads c' = (y_threads c)[i := t'] \<Longrightarrow> y_conns c' = y_conns c \<Longrightarrow> dom (y_nodes c) \<subseteq> dom (y_nodes c') \<Longrightarrow>
   \<forall>p n. t_pc t' \<noteq> T_release p n \<Longrightarrow> open_ok c \<Longrightarrow> open_ok c'"
  unfolding open_ok_def by (intro conjI) (blast, auto simp: nth_list_update)

lemma open_block:
  "mutex_block c i m q = Next c' \<Longrightarrow> i < length (y_threads c) \<Longrightarrow> \<forall>p n. q \<noteq> T_release p n \<Longrightarrow> open_ok c \<Longrightarrow> open_ok c'"
  by (rule open_same [where t' = "(y_threads c ! i)\<lparr>t_pc := q\<rparr>"]) (auto simp: mutex_block_def split: option.splits)

lemma open_unblock:
  "mutex_unblock c i m q = Next c' \<Longrightarrow> i < length (y_threads c) \<Longrightarrow> \<forall>p n. q \<noteq> T_release p n \<Longrightarrow> open_ok c \<Longrightarrow> open_ok c'"
  by (rule open_same [where t' = "(y_threads c ! i)\<lparr>t_pc := q\<rparr>"]) (auto simp: mutex_unblock_def split: if_splits)

lemma thread_step_open:
  assumes "i < length (y_threads c)" and "thread_step w x i c = Next c'" and "sys_ok c" and "open_ok c"
  shows "open_ok c'"
proof -
  note th = threadD [OF sys_ok_thread [OF assms(3,1)]]
  have pc: "pc_ok c (t_pc (y_threads c ! i))" using th(1) .
  have rel: "n \<in> dom (y_nodes c)" if "j < length (y_threads c)" "t_pc (y_threads c ! j) = T_release p n" for j p n
    using sys_ok_thread [OF assms(3) that(1)] that(2) by (auto simp: thread_ok_def)
  have below: "n < y_brk c" if "n \<in> dom (y_nodes c)" for n using assms(3) that by (auto simp: sys_ok_def shared_ok_def)
  show ?thesis
  proof (cases "t_pc (y_threads c ! i)")
    case (T_put_run n q)
    then have "put_run_step i c n q = Next c'" using assms(2) by (simp add: thread_step_def)
    then show ?thesis
      by (cases rule: put_run_cases) (use assms(1,4) T_put_run in \<open>auto intro: open_unblock open_same [where t' = "(y_threads c ! i)\<lparr>t_pc := T_put_run n q'\<rparr>" for q']\<close>)
  next
    case (T_del_run p q)
    then have "del_run_step i c p q = Next c'" using assms(2) by (simp add: thread_step_def)
    then show ?thesis
      by (cases rule: del_run_cases) (use assms(1,4) T_del_run in \<open>auto intro: open_unblock open_same [where t' = "(y_threads c ! i)\<lparr>t_pc := T_del_run p q'\<rparr>" for q']\<close>)
  next
    case T_accept
    have new: "y_brk c \<noteq> n" if "j < length (y_threads c)" "t_pc (y_threads c ! j) = T_release p n" for j p n
      using below [OF rel [OF that]] by simp
    show ?thesis using assms(1,2,4) T_accept new
      by (auto simp: thread_step_def accept_step_def open_ok_def nth_list_update split: option.splits ACCEPT.splits if_splits) blast+
  next
    case (T_put_got n r)
    then show ?thesis using assms(1,2,4) pc
      by (auto simp: thread_step_def put_got_step_def open_ok_def nth_list_update split: option.splits if_splits)
  next
    case (T_disconnect p n)
    then show ?thesis using assms(1,2,4) by (auto simp: thread_step_def open_ok_def nth_list_update split: option.splits if_splits)
  next
    case (T_release p n)
    then show ?thesis using assms(1,2,4) by (auto simp: thread_step_def open_ok_def nth_list_update split: option.splits if_splits)
  qed (use assms(1,2,4) in \<open>auto simp: thread_step_def wait_step_def task_step_def handle_step_def mime_add_step_def again_step_def gate_step_def node_of_def bind_eq_Some_conv'
      intro: open_block open_unblock open_same
      split: if_splits option.splits WAITRES.splits task.splits list.splits pipeline.splits prod.splits\<close>)
qed

lemma reached_open: "threads_reached w k c \<Longrightarrow> site_ok w \<Longrightarrow> open_ok c"
proof (induction rule: threads_reached.induct)
  case (thr_start mime g)
  then show ?case by (simp add: threads_start_def open_ok_def)
next
  case (thr_step c i x c')
  then have "i < length (y_threads c)" "sys_ok c" using reached_sys_ok by auto
  with thr_step thread_step_open show ?case by blast
next
  case (thr_signal c)
  then show ?case by (simp add: open_ok_def)
qed

lemma reached_counts: "threads_reached w k c \<Longrightarrow> site_ok w \<Longrightarrow> count_ok c \<and> leak_ok c \<and> live_ok c"
proof (induction rule: threads_reached.induct)
  case (thr_start mime g)
  have "workers (replicate k \<lparr>t_num = 0, t_tasks = [], t_pc = T_start\<rparr>) = 0" by (induction k) (simp_all add: workers_def)
  then show ?case by (simp add: threads_start_def count_ok_def leak_ok_def live_ok_def payload_init)
next
  case (thr_step c i x c')
  then have i: "i < length (y_threads c)" and ok: "sys_ok c" using reached_sys_ok by auto
  have pc: "pc_ok c (t_pc (y_threads c ! i))" by (rule threadD(1) [OF sys_ok_thread [OF ok i]])
  have "dom (payload (y_list c)) \<subseteq> {..<l_brk (y_list c)}" "inj_on (payload (y_list c)) (dom (payload (y_list c)))"
    using ok by (simp_all add: sys_ok_def shared_ok_def)
  with thr_step i pc show ?case
    using count_keep [OF _ i thread_step_count [OF i _ pc]] leak_keep [OF _ i thread_step_leak [OF i _ pc]]
      live_keep [OF _ i thread_step_live [OF i _ pc]] by blast
next
  case (thr_signal c)
  then show ?case by (simp add: count_ok_def leak_ok_def live_ok_def)
qed

section \<open>The end\<close>

text \<open>
  \<open>node_free\<close>, after the threads have been joined: every connection goes through \<open>node_status\<close> and \<open>node_shutdown\<close>.  The instance of epoll is closed by then and \<open>status\<close> is no longer
  \<open>RUMBLE\<close>, so the failing \<open>epoll_ctl\<close> of \<open>node_disconnect\<close> is ignored; the connection is closed, the responses that wait in the node are released with it
  (\<open>resp_free\<close>, \<open>myfree\<close>), and the item leaves the list.  \<open>None\<close> is a use of freed memory.
\<close>

record NODES =
  f_list :: "ptr LIST"
  f_nodes :: "ptr \<rightharpoonup> TCP_NODE"
  f_conns :: "ptr set"

definition node_shutdown_free :: "NODES \<Rightarrow> ptr \<Rightarrow> NODES option" where
  "node_shutdown_free f p = do {
     n \<leftarrow> payload (f_list f) p;
     t \<leftarrow> f_nodes f n;
     (L, _) \<leftarrow> list_del (f_list f) (Some p);
     Some \<lparr>f_list = L, f_nodes = (f_nodes f)(n := None), f_conns = f_conns f - {n}\<rparr>
   }"

partial_function (option) node_free :: "NODES \<Rightarrow> NODES option" where
  "node_free f = do {
     (L, i) \<leftarrow> list_start (f_list f);
     let f = f\<lparr>f_list := L\<rparr>;
     case i of None \<Rightarrow> do { L \<leftarrow> list_free (f_list f); Some (f\<lparr>f_list := L\<rparr>) }
     | Some p \<Rightarrow> do { f \<leftarrow> node_shutdown_free f p; node_free f }
   }"

definition sys_nodes :: "SYS \<Rightarrow> NODES" where
  "sys_nodes c = \<lparr>f_list = y_list c, f_nodes = y_nodes c, f_conns = y_conns c\<rparr>"

lemma node_free_all:
  assumes "dlc (f_list f) xs" and "distinct (map snd xs)" and "dom (f_nodes f) = snd ` set xs" and "f_conns f \<subseteq> dom (f_nodes f)"
  shows "\<exists>L. node_free f = Some \<lparr>f_list = L, f_nodes = Map.empty, f_conns = {}\<rparr> \<and> dlc L []"
  using assms
proof (induction xs arbitrary: f)
  case Nil
  then have e: "list_start (f_list f) = Some (f_list f, None)" "f_nodes f = Map.empty" "f_conns f = {}"
    using dlc_start_same by (auto simp: list_start_dl dlc_def dl_def list_start_def)
  moreover have "list_free (f_list f) = Some (f_list f)" using Nil(1) by (subst list_free.simps) (simp add: dlc_def dl_def)
  ultimately show ?case using Nil(1) by (subst node_free.simps) (cases f, simp)
next
  case (Cons x xs)
  obtain p n where x: "x = (p, n)" by fastforce
  have start: "list_start (f_list f) = Some (f_list f, Some p)"
    using list_start_dl [OF dlc_dl [OF Cons.prems(1)]] dlc_start_same [OF Cons.prems(1)] x by simp
  have pay: "payload (f_list f) p = Some n" using Cons.prems(1) x by (simp add: dlc_def dl_def payload_def)
  obtain t where t: "f_nodes f n = Some t" using Cons.prems(3) x by (metis domD image_eqI list.set_intros(1) snd_conv)
  obtain L where L: "list_del (f_list f) (Some p) = Some (L, first xs None)" "dlc L xs"
    using list_del_dlc [of "f_list f" "[]" p n xs] Cons.prems(1) x by auto
  let ?f = "\<lparr>f_list = L, f_nodes = (f_nodes f)(n := None), f_conns = f_conns f - {n}\<rparr>"
  have "dom (f_nodes ?f) = snd ` set xs" "f_conns ?f \<subseteq> dom (f_nodes ?f)" using Cons.prems(2-4) x by auto
  moreover have "distinct (map snd xs)" using Cons.prems(2) by simp
  moreover have "dlc (f_list ?f) xs" using L(2) by simp
  ultimately obtain L' where "node_free ?f = Some \<lparr>f_list = L', f_nodes = Map.empty, f_conns = {}\<rparr>" "dlc L' []"
    using Cons.IH [of ?f] by blast
  then show ?case using start pay t L(1) by (subst node_free.simps) (simp add: node_shutdown_free_def)
qed

lemma payload_items: "dlc L xs \<Longrightarrow> payload L = map_of xs"
proof
  fix p assume "dlc L xs"
  then have d: "seg (l_mem L) None xs None" "distinct (map fst xs)" "dom (l_mem L) = fst ` set xs" by (simp_all add: dlc_def dl_def)
  show "payload L p = map_of xs p"
  proof (cases "p \<in> fst ` set xs")
    case True
    then obtain ys v zs where xs: "xs = ys @ (p, v) # zs" by (metis in_fst_split)
    then have "map_of xs p = Some v" using map_of_split [of ys p v zs] d(2) by simp
    moreover have "l_mem L p = Some \<lparr>i_val = v, i_next = first zs None, i_prev = final ys None\<rparr>" using d(1) xs by simp
    ultimately show ?thesis by (simp add: payload_def)
  next
    case False
    then have "map_of xs p = None" by (simp add: map_of_eq_None_iff)
    with False d(3) show ?thesis by (auto simp: payload_def)
  qed
qed

lemma all_exited:
  assumes "threads_reached w k c" and "site_ok w" and "\<forall>t \<in> set (y_threads c). t_pc t = T_exit"
  shows "\<exists>L. node_free (sys_nodes c) = Some \<lparr>f_list = L, f_nodes = Map.empty, f_conns = {}\<rparr> \<and> dlc L []"
proof -
  have ok: "sys_ok c" "leak_ok c" "live_ok c" using reached_sys_ok [OF assms(1,2)] reached_counts [OF assms(1,2)] by auto
  then have sh: "shared_ok c" and lk: "locks_ok c" by (simp_all add: sys_ok_def)
  have exit: "t_pc (y_threads c ! i) = T_exit" if "i < length (y_threads c)" for i using assms(3) that by simp
  have "y_lock c Tcp_node = None"
  proof (rule ccontr)
    assume "y_lock c Tcp_node \<noteq> None"
    then obtain i where "i < length (y_threads c)" "section_of (t_pc (y_threads c ! i)) = Some Tcp_node" using lk by (auto simp: locks_ok_def)
    with exit show False by simp
  qed
  from sharedD(2) [OF sh this] obtain xs where xs: "dlc (y_list c) xs" by (auto simp: proper_def)
  note pay = payload_items [OF xs]
  have d: "distinct (map fst xs)" using xs by (simp add: dlc_def dl_def)
  have "distinct (map snd xs)"
  proof (rule distinct_map [THEN iffD2], intro conjI inj_onI)
    show "distinct xs" using d by (simp add: distinct_map)
    fix x y assume "x \<in> set xs" "y \<in> set xs" "snd x = snd y"
    then have "map_of xs (fst x) = Some (snd x)" "map_of xs (fst y) = Some (snd x)" using d by (metis map_of_is_SomeI prod.collapse)+
    with sharedD(4) [OF sh] pay have "fst x = fst y" by metis
    with \<open>snd x = snd y\<close> show "x = y" by (simp add: prod_eq_iff)
  qed
  moreover have "dom (y_nodes c) = snd ` set xs"
  proof
    show "dom (y_nodes c) \<subseteq> snd ` set xs"
    proof
      fix n assume "n \<in> dom (y_nodes c)"
      with ok(2) exit pay have "n \<in> ran (map_of xs)" by (auto simp: leak_ok_def)
      then show "n \<in> snd ` set xs" by (force simp: ran_def dest: map_of_SomeD)
    qed
    show "snd ` set xs \<subseteq> dom (y_nodes c)"
    proof
      fix n assume "n \<in> snd ` set xs"
      then obtain p where "map_of xs p = Some n" using d by (metis imageE map_of_is_SomeI prod.collapse)
      with ok(3) exit pay show "n \<in> dom (y_nodes c)" by (fastforce simp: live_ok_def)
    qed
  qed
  moreover have "y_conns c \<subseteq> dom (y_nodes c)" using reached_open [OF assms(1,2)] by (simp add: open_ok_def)
  ultimately show ?thesis using node_free_all [of "sys_nodes c" xs] xs by (simp add: sys_nodes_def)
qed

lemma section_moves:
  assumes "fine c (thread_step w x j c)" and "section_of (t_pc (y_threads c ! j)) = Some m"
  shows "\<exists>c'. thread_step w x j c = Next c'"
proof (cases "t_pc (y_threads c ! j)")
  case (T_put_run n q)
  then show ?thesis using assms(1)
    by (auto simp: thread_step_def put_run_step_def mutex_unblock_def fine_def split: put_pc.splits option.splits if_splits prod.splits)
next
  case (T_del_run p q)
  then show ?thesis using assms(1)
    by (auto simp: thread_step_def del_run_step_def mutex_unblock_def fine_def split: del_pc.splits option.splits if_splits prod.splits)
qed (use assms in \<open>auto simp: thread_step_def mutex_unblock_def mime_add_step_def fine_def split: if_splits option.splits\<close>)

lemma waits_outside: "thread_step w x i c = Waits m \<Longrightarrow> section_of (t_pc (y_threads c ! i)) = None"
  by (cases "t_pc (y_threads c ! i)")
    (auto simp: thread_step_def mutex_unblock_def mime_add_step_def put_run_step_def del_run_step_def split: if_splits option.splits put_pc.splits del_pc.splits prod.splits)

section \<open>Properties\<close>

text \<open>
  C4: The threads of the web server are safe under every schedule in which a request for a file of an unknown suffix is handled alone.  In any state that any number of threads reach, interleaved at the level of single memory accesses to the
  shared list and the counters, the next step of any thread is defined: it follows no null or freed pointer, frees nothing twice, adds no mime type while another thread may be reading the table, and does not end the program.  If it has to wait
  for a mutex, another thread holds it and can go on.  No connection is worked on by two threads at a time; when the mutex of the list is free the list is well-formed;
  and \<open>active\<close> counts exactly the threads that handle events, whose numbers are all different.  The surroundings are those of \<open>input_ok\<close>: accept, setsockopt and the wait succeed, epoll reports a connection only for what it is armed for, the
  peer takes the answer or breaks the connection, and (\<open>mime_alone\<close>) while a handler is about to add a mime type no other thread is in a handler; the code does not ensure the last one, since
  readers of the table take no lock (\<open>mime_race\<close>).
\<close>

theorem web_threads_safe:
  assumes "site_ok w" and "threads_reached w k c" and "i < k" and "input_ok w x i c"
  shows "thread_step w x i c \<noteq> Wrong \<and>
    (\<forall>m. thread_step w x i c = Waits m \<longrightarrow>
       (\<exists>j < k. j \<noteq> i \<and> y_lock c m = Some j \<and> (\<forall>y. input_ok w y j c \<longrightarrow> (\<exists>c'. thread_step w y j c = Next c')))) \<and>
    (\<forall>j < k. j \<noteq> i \<longrightarrow> owned (y_threads c ! i) \<inter> owned (y_threads c ! j) = {}) \<and>
    (y_lock c Tcp_node = None \<longrightarrow> (\<exists>xs. dlc (y_list c) xs)) \<and> count_ok c"
proof -
  have ok: "sys_ok c" and k: "length (y_threads c) = k" using reached_sys_ok [OF assms(2,1)] by auto
  have fine: "fine c (thread_step w y j c)" if "j < k" "input_ok w y j c" for j y
    using thread_fine [OF assms(1) ok] that k by simp
  have waits: "\<exists>j < k. j \<noteq> i \<and> y_lock c m = Some j \<and> (\<forall>y. input_ok w y j c \<longrightarrow> (\<exists>c'. thread_step w y j c = Next c'))"
    if "thread_step w x i c = Waits m" for m
  proof -
    from fine [OF assms(3,4)] that obtain j where j: "y_lock c m = Some j" by (auto simp: fine_def)
    with ok k have "j < k" "section_of (t_pc (y_threads c ! j)) = Some m" by (auto simp: sys_ok_def locks_ok_def)
    with j waits_outside [OF that] section_moves fine show ?thesis by (metis option.distinct(1))
  qed
  have "\<forall>j < k. j \<noteq> i \<longrightarrow> owned (y_threads c ! i) \<inter> owned (y_threads c ! j) = {}"
    using ok k assms(3) by (auto simp: sys_ok_def apart_def)
  moreover have "y_lock c Tcp_node = None \<longrightarrow> (\<exists>xs. dlc (y_list c) xs)" using ok by (auto simp: sys_ok_def shared_ok_def proper_def)
  moreover have "thread_step w x i c \<noteq> Wrong" using fine [OF assms(3,4)] by (auto simp: fine_def)
  ultimately show ?thesis using waits reached_counts [OF assms(2,1)] by blast
qed

definition ex_input :: INPUT where
  "ex_input = \<lparr>in_wait = Interrupted, in_accept = None, in_recv = PeerClosed, in_sock = ex_sock 0, in_now = 1\<rparr>"

definition ex_threads :: SYS where
  "ex_threads = threads_start 2 (mime_hash (the (mime_load mime_init))) ex_rng"

lemma ex_threads_reached: "threads_reached ex_site 2 ex_threads"
  unfolding ex_threads_def using mime_start_ok by (auto intro: thr_start)

text \<open>A closed connection adds no mime type.\<close>

lemma closed_alone:
  assumes "in_recv x = PeerClosed" and "\<And>j. j < length (y_threads c) \<Longrightarrow> j \<noteq> i \<Longrightarrow> \<not> adding (t_pc (y_threads c ! j))"
  shows "mime_alone w x i c"
  using assms by (auto simp: mime_alone_def alone_def event_handler_def tcp_input_def split: ev_kind.splits if_splits)

lemma ex_input_ok: "y_brk c = 0 \<Longrightarrow> \<forall>t \<in> set (y_threads c). \<not> adding (t_pc t) \<Longrightarrow> input_ok ex_site ex_input i c"
  by (auto simp: input_ok_def ex_input_def date_ok_def ex_sock_def intro!: closed_alone)

text \<open>The second thread waits while the first one holds the mutex.\<close>

theorem web_threads_safe_witness:
  "\<exists>c. threads_reached ex_site 2 c \<and> thread_step ex_site ex_input 1 c = Waits Work_mutex \<and>
     (\<exists>c'. thread_step ex_site ex_input 0 c = Next c')"
proof -
  let ?c = "goto (ex_threads\<lparr>y_lock := [Work_mutex \<mapsto> 0]\<rparr>) 0 T_id_load"
  have z: "y_brk ex_threads = 0" "y_lock ex_threads = Map.empty" "y_threads ex_threads = replicate 2 \<lparr>t_num = 0, t_tasks = [], t_pc = T_start\<rparr>"
    by (simp_all add: ex_threads_def threads_start_def)
  have "thread_step ex_site ex_input 0 ex_threads = Next ?c" by (simp add: thread_step_def mutex_block_def z)
  from thr_step [OF ex_threads_reached _ ex_input_ok this] z have r: "threads_reached ex_site 2 ?c" by simp
  have ok: "input_ok ex_site ex_input i ?c" for i by (rule ex_input_ok) (use z in \<open>auto simp: numeral_2_eq_2\<close>)
  moreover have w: "thread_step ex_site ex_input 1 ?c = Waits Work_mutex" by (simp add: thread_step_def mutex_block_def z numeral_2_eq_2)
  moreover from web_threads_safe [OF ex_site_ok r, of 1 ex_input] ok w z
  have "\<exists>c'. thread_step ex_site ex_input 0 ?c = Next c'" by auto
  ultimately show ?thesis using r by blast
qed

text \<open>
  C31: Nothing is lost at the end.  When the program has been told to stop and all threads have left their loops, with whatever connections and unhandled events there are, node_free closes and releases every connection
  exactly once, follows no freed pointer and leaves no node and no open connection behind.
\<close>

theorem web_threads_release:
  assumes "site_ok w" and "threads_reached w k c" and "\<forall>t \<in> set (y_threads c). t_pc t = T_exit"
  shows "\<exists>L. node_free (sys_nodes c) = Some \<lparr>f_list = L, f_nodes = Map.empty, f_conns = {}\<rparr> \<and> dlc L []"
  by (rule all_exited [OF assms(2,1,3)])

text \<open>One thread that accepts a connection and is then told to stop.\<close>

fun run_one :: "SITE \<Rightarrow> INPUT list \<Rightarrow> SYS \<Rightarrow> SYS option" where
  "run_one w [] c = Some c"
| "run_one w (x # xs) c = (case thread_step w x 0 c of Next c' \<Rightarrow> run_one w xs c' | _ \<Rightarrow> None)"

definition ex_accept :: INPUT where
  "ex_accept = ex_input\<lparr>in_wait := Events [New_conn], in_accept := Some Accepted\<rparr>"

lemma run_one_reached:
  assumes "threads_reached ex_site (Suc 0) c" and "run_one ex_site xs c = Some c'" and "set xs \<subseteq> {ex_input, ex_accept}" and "int (y_brk c + length xs) < LONG_MAX"
  shows "threads_reached ex_site (Suc 0) c'"
  using assms
proof (induction xs arbitrary: c)
  case (Cons x xs)
  then obtain c1 where c1: "thread_step ex_site x 0 c = Next c1" "run_one ex_site xs c1 = Some c'" by (auto split: outcome.splits)
  have "length (y_threads c) = 1" using reached_sys_ok [OF Cons.prems(1) ex_site_ok] by simp
  then have x: "input_ok ex_site x 0 c" using Cons.prems(3,4)
    by (auto simp: input_ok_def ex_input_def ex_accept_def date_ok_def ex_sock_def tasks_ok_def intro!: closed_alone)
  have "y_brk c1 \<le> Suc (y_brk c)" using c1(1)
    by (cases "t_pc (y_threads c ! 0)") (auto simp: thread_step_def wait_step_def task_step_def handle_step_def mime_add_step_def again_step_def accept_step_def put_run_step_def put_got_step_def gate_step_def
        del_run_step_def mutex_block_def mutex_unblock_def split: if_splits option.splits WAITRES.splits task.splits list.splits ACCEPT.splits
        put_pc.splits del_pc.splits pipeline.splits prod.splits)
  then show ?case using Cons.IH [OF thr_step [OF Cons.prems(1) _ x c1(1)] c1(2)] Cons.prems(3,4) by simp
qed simp

lemmas ex_run_simps = thread_step_def threads_start_def mutex_block_def mutex_unblock_def numeral_eq_Suc goto_def with_tasks_def disarm_def wait_step_def
  task_step_def handle_step_def mime_add_step_def again_step_def accept_step_def put_run_step_def put_got_step_def node_of_def payload_def list_init_def item_alloc_def ex_input_def ex_accept_def

lemma ex_run:
  "\<exists>c. run_one ex_site (replicate 4 ex_input @ ex_accept # replicate 5 ex_input @ ex_accept # replicate 14 ex_input) (threads_start (Suc 0) mime g) = Some c \<and>
     (\<exists>d ts. y_threads c = [\<lparr>t_num = d, t_tasks = ts, t_pc = T_wait\<rparr>]) \<and> y_nodes c 0 = Some node_put \<and> y_brk c = 1"
  by (simp add: ex_run_simps)

theorem web_threads_release_witness:
  "\<exists>c L. threads_reached ex_site 1 c \<and> y_nodes c 0 = Some node_put \<and> node_free (sys_nodes c) = Some \<lparr>f_list = L, f_nodes = Map.empty, f_conns = {}\<rparr>"
proof -
  let ?m = "mime_hash (the (mime_load mime_init))"
  have start: "threads_reached ex_site (Suc 0) (threads_start (Suc 0) ?m ex_rng)" using mime_start_ok by (auto intro: thr_start)
  from ex_run obtain c d ts where c: "run_one ex_site (replicate 4 ex_input @ ex_accept # replicate 5 ex_input @ ex_accept # replicate 14 ex_input)
      (threads_start (Suc 0) ?m ex_rng) = Some c" "y_threads c = [\<lparr>t_num = d, t_tasks = ts, t_pc = T_wait\<rparr>]" "y_nodes c 0 = Some node_put" "y_brk c = 1" by blast
  let ?c = "c\<lparr>y_rumble := False\<rparr>"
  have "threads_reached ex_site (Suc 0) c"
    by (rule run_one_reached [OF start c(1)]) (auto simp: threads_start_def)
  then have r: "threads_reached ex_site (Suc 0) ?c" by (rule thr_signal)
  have i: "input_ok ex_site ex_input 0 ?c" using c(2,4) by (auto simp: input_ok_def ex_input_def date_ok_def ex_sock_def intro!: closed_alone)
  have "thread_step ex_site ex_input 0 ?c = Next (goto ?c 0 T_exit)" using c(2) by (simp add: thread_step_def wait_step_def ex_input_def)
  from thr_step [OF r _ i this] have e: "threads_reached ex_site 1 (goto ?c 0 T_exit)" by simp
  from web_threads_release [OF ex_site_ok e] c(2) obtain L where "node_free (sys_nodes (goto ?c 0 T_exit)) = Some \<lparr>f_list = L, f_nodes = Map.empty, f_conns = {}\<rparr>" by auto
  with e c(3) show ?thesis by (intro exI [of _ "goto ?c 0 T_exit"] exI [of _ L]) simp
qed

end
