(* ===== verification/Web_Start.thy ===== *)
theory Web_Start
  imports Lifecycle Thread_Safety
begin

text \<open>
  The web server from its command line to its end: \<open>main\<close> of \<^verbatim>\<open>src/src/web/tumbleweed.c\<close>, the listening socket of
  \<^verbatim>\<open>src/src/web/tcp.c\<close> and the threads of \<^verbatim>\<open>src/src/web/worker.c\<close>, over the kernel of the theory System.
\<close>

section \<open>The listening socket\<close>

record TCP =
  tc_addr :: IP
  tc_sockfd :: int
  tc_epollfd :: int

definition tcp_init :: TCP where
  "tcp_init = \<lparr>tc_addr = \<lparr>ip_addr = [], ip_port = [0, 0], ip_rest = 0\<rparr>, tc_sockfd = - 1, tc_epollfd = 0\<rparr>"

definition tcp_nonblocking :: "int \<Rightarrow> int act" where
  "tcp_nonblocking sock =
     andthen (sys_getfl sock) (\<lambda>opts. if opts < 0 then ret (- 1) else
     andthen (sys_setfl sock (opts OR O_NONBLOCK)) (\<lambda>r. if r < 0 then ret (- 1) else ret 1))"

definition tcp_event :: "TCP \<Rightarrow> TCP act" where
  "tcp_event tcp =
     andthen sys_epoll_create (\<lambda>epollfd. if epollfd = - 1 then fail else
     andthen (sys_epoll_ctl epollfd EPOLL_CTL_ADD (tc_sockfd tcp) {E_IN, E_ET} (tc_sockfd tcp)) (\<lambda>r. if r = - 1 then fail else
     ret (tcp\<lparr>tc_epollfd := epollfd\<rparr>)))"

definition SOMAXCONN :: int where "SOMAXCONN = 4096"

definition tcp_open :: "WCONF \<Rightarrow> TCP \<Rightarrow> TCP act" where
  "tcp_open conf tcp =
     andthen (sys_socket IPV6 SOCK_STREAM) (\<lambda>fd. if fd < 0 then fail else
     let tcp = tcp\<lparr>tc_sockfd := fd, tc_addr := any_addr IPV6 (wc_port conf)\<rparr> in
     andthen (sys_reuseaddr fd) (\<lambda>r. if r = - 1 then fail else
     andthen (sys_bind fd (tc_addr tcp)) (\<lambda>r. if r \<noteq> 0 then fail else
     andthen (tcp_nonblocking fd) (\<lambda>r. if r < 0 then fail else
     andthen (sys_listen fd (SOMAXCONN * 8)) (\<lambda>r. if r \<noteq> 0 then fail else
     tcp_event tcp)))))"


section \<open>Threads\<close>

definition number_of_threads :: "int \<Rightarrow> nat" where
  "number_of_threads cores = nat (if cores > 2 then cores else 2)"

fun web_work_start :: "nat \<Rightarrow> unit act" where
  "web_work_start 0 = ret ()"
| "web_work_start (Suc n) = andthen (sys_pthread_create Tcp_thread) (\<lambda>r. if r \<noteq> 0 then fail else web_work_start n)"

section \<open>The program\<close>

text \<open>\<open>main\<close> up to the start of the threads, and the state in which they start.\<close>

definition web_main_start :: "ENV \<Rightarrow> FS \<Rightarrow> int \<Rightarrow> bytes list \<Rightarrow> rng \<Rightarrow> (TCP \<times> SYS) act" where
  "web_main_start env fs cores argv g =
     (case web_conf_init env fs cores argv of
        None \<Rightarrow> fail
      | Some (conf, log) \<Rightarrow>
          andthen unix_signal (\<lambda>_.
          andthen (unix_fork (log_console log)) (\<lambda>_.
          andthen (main_limits cores) (\<lambda>_.
          andthen (defined (mime_load mime_init)) (\<lambda>mime.
          andthen (tcp_open conf tcp_init) (\<lambda>tcp.
          andthen main_dropuid0 (\<lambda>_.
          andthen (web_work_start (number_of_threads cores)) (\<lambda>_.
          ret (tcp, threads_start (number_of_threads cores) (mime_hash mime) g)))))))))"




section \<open>What it does to the system\<close>








section \<open>The whole program\<close>

lemma loaded: "\<exists>mime. mime_load mime_init = Some mime"
  using mime_start_ok by blast








text \<open>Refused calls: the threads of the web server never have the rights of root.\<close>

lemma bd_tcp_open: "keeps before_drop (tcp_open conf tcp)"
  unfolding tcp_open_def tcp_nonblocking_def tcp_event_def sys_socket_def sys_reuseaddr_def sys_bind_def sys_setfl_def sys_listen_def sys_epoll_create_def Let_def
  by (intro bd.keeps_fds)

lemma ad_web_work: "keeps after_drop (web_work_start n)"
proof (induction n)
  case 0
  show ?case unfolding web_work_start.simps by (rule ad.keeps_ret)
next
  case (Suc n)
  show ?case unfolding web_work_start.simps by (intro ad.keeps_fds ad_create Suc.IH)
qed

theorem web_unprivileged:
  assumes "ruid (k_proc k) = 0" and "euid (k_proc k) = 0" and "k_threads k = []" and "nobody_ok (k_passwd k)"
  shows "case web_main_start env fs cores argv g k of
      Go x k' \<Rightarrow> no_root (k_proc k') \<and> (\<forall>(r, p) \<in> set (k_threads k'). no_root p)
    | Exit n k' \<Rightarrow> n = 1 \<and> (\<forall>(r, p) \<in> set (k_threads k'). no_root p)
    | _ \<Rightarrow> False"
proof (cases "web_conf_init env fs cores argv")
  case None
  then show ?thesis using assms(3) by (simp add: web_main_start_def)
next
  case (Some c)
  obtain conf log where c: "c = (conf, log)" by (cases c)
  obtain mime where mime: "mime_load mime_init = Some mime" using loaded by blast
  let ?n = "number_of_threads cores"
  let ?open = "andthen unix_signal (\<lambda>_. andthen (unix_fork (log_console log)) (\<lambda>_. andthen (main_limits cores) (\<lambda>_.
    andthen (defined (Some mime)) (\<lambda>mime. andthen (tcp_open conf tcp_init) (\<lambda>tcp. ret (tcp, mime))))))"
  let ?work = "\<lambda>(tcp, mime). andthen (web_work_start ?n) (\<lambda>_. ret (tcp, threads_start ?n (mime_hash mime) g))"
  have main: "web_main_start env fs cores argv g k = andthen ?open (\<lambda>u. andthen main_dropuid0 (\<lambda>_. ?work u)) k"
    by (simp add: web_main_start_def Some c mime andthen_def split: run.split)
  have "keeps before_drop ?open" by (intro bd.keeps_fds bd_signal bd_fork bd_limits bd_tcp_open)
  moreover have "keeps after_drop (?work u)" for u by (cases u) (auto intro!: ad.keeps_fds ad_web_work)
  ultimately show ?thesis unfolding main by (rule drop_between [OF _ _ assms])
qed

end
