(* ===== verification/Ben_Mem.thy ===== *)
theory Ben_Mem
  imports Bencode Lists
begin

text \<open>
  The release of Bencode objects (\<open>ben_free\<close> and what it calls in \<^verbatim>\<open>src/src/p2p/ben.c\<close>) on a memory of objects.  A node points to a string, or to a list whose
  items point to nodes or to tuples of nodes; freeing what is not allocated is undefined, as is following such a pointer.  The functions call each other along the
  pointers, so they carry fuel.
\<close>

section \<open>Memory\<close>

datatype BENV = V_str "ptr option" | V_int int | V_dict "ptr option" | V_list "ptr option"

datatype OBJ = O_ben BENV | O_tuple "ptr option" "ptr option" | O_list "ptr option LIST" | O_str ptr nat | O_buf bytes

type_synonym mem_objs = "ptr \<rightharpoonup> OBJ"

definition myfree :: "ptr option \<Rightarrow> mem_objs \<Rightarrow> mem_objs option" where
  "myfree a h = (case a of None \<Rightarrow> Some h | Some p \<Rightarrow> if h p = None then None else Some (h(p := None)))"

definition str_free :: "ptr \<Rightarrow> mem_objs \<Rightarrow> mem_objs option" where
  "str_free q h = (case h q of
     Some (O_str b i) \<Rightarrow> do { h \<leftarrow> myfree (Some b) h; myfree (Some q) h }
   | _ \<Rightarrow> None)"

definition list_at :: "mem_objs \<Rightarrow> ptr \<Rightarrow> ptr option LIST option" where
  "list_at h l = (case h l of Some (O_list L) \<Rightarrow> Some L | _ \<Rightarrow> None)"

text \<open>The list of a dictionary or of a list: the union has the same pointer for both.\<close>

fun items_of :: "BENV \<Rightarrow> ptr option" where
  "items_of (V_dict d) = d"
| "items_of (V_list l) = l"
| "items_of _ = None"

section \<open>Release\<close>

text \<open>The argument \<open>rec\<close> is the recursive call of \<open>ben_free_r\<close>.\<close>

definition ben_free_with :: "(ptr option \<Rightarrow> mem_objs \<Rightarrow> mem_objs option) \<Rightarrow> ptr option \<Rightarrow> mem_objs \<Rightarrow> mem_objs option" where
  "ben_free_with rec node h =
     (case node of None \<Rightarrow> Some h
      | Some p \<Rightarrow> do { h \<leftarrow> rec node h; myfree node h })"

definition tuple_free :: "(ptr option \<Rightarrow> mem_objs \<Rightarrow> mem_objs option) \<Rightarrow> ptr option \<Rightarrow> mem_objs \<Rightarrow> mem_objs option" where
  "tuple_free rec t h =
     (case t of None \<Rightarrow> None
      | Some q \<Rightarrow> (case h q of
          Some (O_tuple key val) \<Rightarrow> do {
            h \<leftarrow> ben_free_with rec key h;
            h \<leftarrow> ben_free_with rec val h;
            myfree t h
          }
        | _ \<Rightarrow> None))"

definition ben_free_item :: "(ptr option \<Rightarrow> mem_objs \<Rightarrow> mem_objs option) \<Rightarrow> ptr \<Rightarrow> ptr \<Rightarrow> mem_objs \<Rightarrow> (ptr option \<times> mem_objs) option" where
  "ben_free_item rec node i h =
     (case h node of
        Some (O_ben v) \<Rightarrow>
          (case items_of v of None \<Rightarrow> Some (None, h)
           | Some l \<Rightarrow> do {
               L \<leftarrow> list_at h l;
               it \<leftarrow> l_mem L i;
               h \<leftarrow> (case v of
                      V_dict _ \<Rightarrow> tuple_free rec (i_val it) h
                    | _ \<Rightarrow> do { h \<leftarrow> rec (i_val it) h; myfree (i_val it) h });
               L \<leftarrow> list_at h l;
               L \<leftarrow> set_val L i None;
               (L, item) \<leftarrow> list_del L (Some i);
               Some (item, h(l \<mapsto> O_list L))
             })
      | _ \<Rightarrow> None)"

primrec free_items :: "nat \<Rightarrow> (ptr option \<Rightarrow> mem_objs \<Rightarrow> mem_objs option) \<Rightarrow> ptr \<Rightarrow> ptr option \<Rightarrow> mem_objs \<Rightarrow> mem_objs option" where
  "free_items 0 rec node item h = None"
| "free_items (Suc n) rec node item h =
     (case item of None \<Rightarrow> Some h
      | Some i \<Rightarrow> do {
          (item, h) \<leftarrow> ben_free_item rec node i h;
          free_items n rec node item h
        })"

primrec ben_free_r :: "nat \<Rightarrow> ptr option \<Rightarrow> mem_objs \<Rightarrow> mem_objs option" where
  "ben_free_r 0 node h = None"
| "ben_free_r (Suc n) node h =
     (case node of None \<Rightarrow> Some h
      | Some p \<Rightarrow> (case h p of
          Some (O_ben v) \<Rightarrow>
            (case v of
               V_str s \<Rightarrow> (case s of None \<Rightarrow> Some h | Some q \<Rightarrow> str_free q h)
             | V_int i \<Rightarrow> Some h
             | _ \<Rightarrow> (case items_of v of None \<Rightarrow> Some h
                 | Some l \<Rightarrow> do {
                     L \<leftarrow> list_at h l;
                     (L, item) \<leftarrow> list_start L;
                     h \<leftarrow> free_items n (ben_free_r n) p item (h(l \<mapsto> O_list L));
                     L \<leftarrow> list_at h l;
                     L \<leftarrow> list_free L;
                     myfree (Some l) h
                   }))
        | _ \<Rightarrow> None))"

definition ben_free :: "nat \<Rightarrow> ptr option \<Rightarrow> mem_objs \<Rightarrow> mem_objs option" where
  "ben_free n = ben_free_with (ben_free_r n)"

section \<open>Ownership\<close>

text \<open>The objects that make up a value.\<close>

inductive owns :: "mem_objs \<Rightarrow> BEN \<Rightarrow> ptr \<Rightarrow> ptr set \<Rightarrow> bool"
  and owns_all :: "mem_objs \<Rightarrow> BEN list \<Rightarrow> ptr list \<Rightarrow> ptr set \<Rightarrow> bool"
  and owns_tuples :: "mem_objs \<Rightarrow> (bytes \<times> BEN) list \<Rightarrow> ptr list \<Rightarrow> ptr set \<Rightarrow> bool" for h where
  own_int: "h p = Some (O_ben (V_int i)) \<Longrightarrow> owns h (BEN_INT i) p {p}"
| own_str: "h p = Some (O_ben (V_str (Some q))) \<Longrightarrow> h q = Some (O_str b (length s)) \<Longrightarrow> h b = Some (O_buf (s @ [0])) \<Longrightarrow>
    owns h (BEN_STR s) p {p, q, b}"
| own_list: "h p = Some (O_ben (V_list (Some l))) \<Longrightarrow> h l = Some (O_list L) \<Longrightarrow> dlc L xs \<Longrightarrow> map snd xs = map Some vs \<Longrightarrow>
    owns_all h ts vs G \<Longrightarrow> p \<notin> G \<Longrightarrow> l \<notin> G \<Longrightarrow> owns h (BEN_LIST ts) p (insert p (insert l G))"
| own_dict: "h p = Some (O_ben (V_dict (Some l))) \<Longrightarrow> h l = Some (O_list L) \<Longrightarrow> dlc L xs \<Longrightarrow> map snd xs = map Some vs \<Longrightarrow>
    owns_tuples h ts vs G \<Longrightarrow> p \<notin> G \<Longrightarrow> l \<notin> G \<Longrightarrow> owns h (BEN_DICT ts) p (insert p (insert l G))"
| all_nil: "owns_all h [] [] {}"
| all_cons: "owns h t v F \<Longrightarrow> owns_all h ts vs G \<Longrightarrow> F \<inter> G = {} \<Longrightarrow> owns_all h (t # ts) (v # vs) (F \<union> G)"
| tup_nil: "owns_tuples h [] [] {}"
| tup_cons: "h v = Some (O_tuple (Some a) (Some b)) \<Longrightarrow> owns h (BEN_STR k) a F \<Longrightarrow> owns h t b G \<Longrightarrow> owns_tuples h ts vs H \<Longrightarrow>
    v \<notin> F \<union> G \<union> H \<Longrightarrow> F \<inter> G = {} \<Longrightarrow> (F \<union> G) \<inter> H = {} \<Longrightarrow> owns_tuples h ((k, t) # ts) (v # vs) (insert v (F \<union> G \<union> H))"

definition agree :: "mem_objs \<Rightarrow> mem_objs \<Rightarrow> ptr set \<Rightarrow> bool" where
  "agree h h' F \<longleftrightarrow> (\<forall>q \<in> F. h' q = h q)"

lemma owns_root: "owns h t p F \<Longrightarrow> p \<in> F \<and> (\<exists>v. h p = Some (O_ben v))"
  by (cases rule: owns.cases) auto

lemma dlc_first: "dlc L ((i, v) # xs) \<Longrightarrow> \<exists>it. l_mem L i = Some it \<and> i_val it = v"
  by (auto simp: dlc_def dl_def)

text \<open>What is left when a set of objects has been freed.\<close>

definition freed :: "mem_objs \<Rightarrow> ptr set \<Rightarrow> mem_objs" where
  "freed h F = h |` (- F)"

lemma freed_apply [simp]: "freed h F q = (if q \<in> F then None else h q)"
  by (simp add: freed_def)

lemma myfree_root: "p \<in> F \<Longrightarrow> h p \<noteq> None \<Longrightarrow> myfree (Some p) (freed h (F - {p})) = Some (freed h F)"
  by (auto simp: myfree_def fun_eq_iff)

text \<open>The item at the front is released and unlinked.\<close>

lemma item_unlinked:
  assumes "h l = Some (O_list L)" and "dlc L ((i, w) # xs)"
  shows "\<exists>L'. (do { L \<leftarrow> list_at h l; L \<leftarrow> set_val L i None; (L, item) \<leftarrow> list_del L (Some i); Some (item, h(l \<mapsto> O_list L)) }) =
    Some (first xs None, h(l \<mapsto> O_list L')) \<and> dlc L' xs"
proof -
  from set_val_dlc [of L "[]" i w xs None] assms(2) obtain L1 where L1: "set_val L i None = Some L1" "dlc L1 ((i, None) # xs)" by auto
  from list_del_dlc [of L1 "[]" i None xs] L1(2) obtain L2 where "list_del L1 (Some i) = Some (L2, first xs None)" "dlc L2 xs" by auto
  with L1(1) assms(1) show ?thesis by (auto simp: list_at_def)
qed

lemma list_item_freed:
  assumes "h node = Some (O_ben (V_list (Some l)))" and "h l = Some (O_list L)" and "dlc L ((i, Some v) # xs)"
    and "v \<in> F" and "h v \<noteq> None" and "l \<notin> F"
  shows "\<exists>L'. dlc L' xs \<and> (\<forall>rec. rec (Some v) h = Some (freed h (F - {v})) \<longrightarrow>
    ben_free_item rec node i h = Some (first xs None, (freed h F)(l \<mapsto> O_list L')))"
proof -
  from dlc_first [OF assms(3)] obtain it where it: "l_mem L i = Some it" "i_val it = Some v" by blast
  have "freed h F l = Some (O_list L)" using assms(2,6) by simp
  from item_unlinked [of "freed h F", OF this assms(3)] it show ?thesis
    by (auto simp: ben_free_item_def assms(1,2) list_at_def myfree_root [of v F h, OF assms(4,5)])
qed

lemma dict_item_freed:
  assumes "h node = Some (O_ben (V_dict (Some l)))" and "h l = Some (O_list L)" and "dlc L ((i, Some v) # xs)" and "l \<notin> F"
  shows "\<exists>L'. dlc L' xs \<and> (\<forall>rec. tuple_free rec (Some v) h = Some (freed h F) \<longrightarrow>
    ben_free_item rec node i h = Some (first xs None, (freed h F)(l \<mapsto> O_list L')))"
proof -
  from dlc_first [OF assms(3)] obtain it where it: "l_mem L i = Some it" "i_val it = Some v" by blast
  have "freed h F l = Some (O_list L)" using assms(2,4) by simp
  from item_unlinked [of "freed h F", OF this assms(3)] it show ?thesis by (auto simp: ben_free_item_def assms(1,2) list_at_def)
qed

text \<open>A tuple with its key and its value.\<close>

lemma tuple_freed:
  assumes "h v = Some (O_tuple (Some a) (Some b))" and "a \<in> F" and "b \<in> G" and "h a \<noteq> None" and "h b \<noteq> None" and "F \<inter> G = {}" and "v \<notin> F \<union> G"
    and "rec (Some a) h = Some (freed h (F - {a}))" and "rec (Some b) (freed h F) = Some (freed (freed h F) (G - {b}))"
  shows "tuple_free rec (Some v) h = Some (freed h (insert v (F \<union> G)))"
proof -
  have b: "freed h F b \<noteq> None" using assms(3,5,6) by auto
  have v: "freed (freed h F) G v \<noteq> None" using assms(1,7) by simp
  have "(freed (freed h F) G)(v := None) = freed h (insert v (F \<union> G))" by (auto simp: fun_eq_iff)
  with v have "myfree (Some v) (freed (freed h F) G) = Some (freed h (insert v (F \<union> G)))" by (simp add: myfree_def)
  moreover have "ben_free_with rec (Some a) h = Some (freed h F)" by (simp add: ben_free_with_def assms(8) myfree_root [of a F h, OF assms(2,4)])
  moreover have "ben_free_with rec (Some b) (freed h F) = Some (freed (freed h F) G)"
    by (simp add: ben_free_with_def assms(9) myfree_root [of b G "freed h F", OF assms(3) b])
  ultimately show ?thesis by (simp add: tuple_free_def assms(1))
qed

text \<open>With enough fuel.\<close>

definition frees :: "mem_objs \<Rightarrow> ptr \<Rightarrow> ptr set \<Rightarrow> bool" where
  "frees h p F \<longleftrightarrow> (\<exists>n. \<forall>m \<ge> n. ben_free_r m (Some p) h = Some (freed h (F - {p})))"

definition frees_items :: "mem_objs \<Rightarrow> ptr \<Rightarrow> ptr \<Rightarrow> (ptr \<times> ptr option) list \<Rightarrow> ptr set \<Rightarrow> bool" where
  "frees_items h node l xs G \<longleftrightarrow> (\<exists>n. \<forall>m \<ge> n. \<forall>j \<ge> n. \<exists>L'. free_items m (ben_free_r j) node (first xs None) h = Some ((freed h G)(l \<mapsto> O_list L')) \<and> dlc L' [])"

text \<open>Two phases: the front item, then the rest.\<close>

lemma frees_items_Cons:
  assumes "\<forall>j \<ge> n1. ben_free_item (ben_free_r j) node i h = Some (first xs None, (freed h F)(l \<mapsto> O_list L1))"
    and "frees_items ((freed h F)(l \<mapsto> O_list L1)) node l xs G" and "l \<notin> G"
  shows "frees_items h node l ((i, w) # xs) (F \<union> G)"
proof -
  let ?h = "(freed h F)(l \<mapsto> O_list L1)"
  from assms(2) obtain n2 where n2: "\<forall>m \<ge> n2. \<forall>j \<ge> n2. \<exists>L'. free_items m (ben_free_r j) node (first xs None) ?h = Some ((freed ?h G)(l \<mapsto> O_list L')) \<and> dlc L' []"
    unfolding frees_items_def by blast
  have eq: "(freed ?h G)(l \<mapsto> O_list L') = (freed h (F \<union> G))(l \<mapsto> O_list L')" for L' by (auto simp: fun_eq_iff)
  have "\<exists>L'. free_items m (ben_free_r j) node (first ((i, w) # xs) None) h = Some ((freed h (F \<union> G))(l \<mapsto> O_list L')) \<and> dlc L' []"
    if m: "m \<ge> Suc (max n1 n2)" and j: "j \<ge> Suc (max n1 n2)" for m j
  proof -
    obtain m' where m': "m = Suc m'" "m' \<ge> n2" using m by (cases m) auto
    from assms(1) j have "ben_free_item (ben_free_r j) node i h = Some (first xs None, ?h)" by simp
    moreover from n2 m'(2) j have "\<exists>L'. free_items m' (ben_free_r j) node (first xs None) ?h = Some ((freed ?h G)(l \<mapsto> O_list L')) \<and> dlc L' []" by simp
    ultimately show ?thesis unfolding m'(1) eq by simp
  qed
  then show ?thesis unfolding frees_items_def by blast
qed

lemma frees_items_Nil: "h l = Some (O_list L) \<Longrightarrow> dlc L [] \<Longrightarrow> frees_items h node l [] {}"
  unfolding frees_items_def
proof (intro exI [of _ 1] allI impI)
  fix m j :: nat
  assume "h l = Some (O_list L)" "dlc L []" "1 \<le> m"
  then show "\<exists>L'. free_items m (ben_free_r j) node (first [] None) h = Some ((freed h {})(l \<mapsto> O_list L')) \<and> dlc L' []"
    by (cases m) (auto simp: fun_eq_iff intro!: exI [of _ L])
qed

text \<open>A node with a list of items.\<close>

lemma frees_node:
  assumes "h p = Some (O_ben v)" and "v = V_list (Some l) \<or> v = V_dict (Some l)" and "h l = Some (O_list L)" and "dlc L xs"
    and "frees_items h p l xs G" and "p \<notin> G" and "l \<notin> G"
  shows "frees h p (insert p (insert l G))"
proof -
  from assms(5) obtain n where n: "\<forall>m \<ge> n. \<forall>j \<ge> n. \<exists>L'. free_items m (ben_free_r j) p (first xs None) h = Some ((freed h G)(l \<mapsto> O_list L')) \<and> dlc L' []"
    unfolding frees_items_def by blast
  have L: "L\<lparr>l_item := first xs None\<rparr> = L" "list_start L = Some (L, first xs None)" "h(l \<mapsto> O_list L) = h"
    using assms(3,4) list_start_dl [of L xs] by (auto simp: dlc_def map_upd_triv)
  have "ben_free_r m (Some p) h = Some (freed h (insert p (insert l G) - {p}))" if m: "m \<ge> Suc n" for m
  proof -
    obtain m' where m': "m = Suc m'" "m' \<ge> n" using m by (cases m) auto
    with n obtain L' where L': "free_items m' (ben_free_r m') p (first xs None) h = Some ((freed h G)(l \<mapsto> O_list L'))" "dlc L' []" by blast
    from list_free_dlc [OF L'(2)] obtain L'' where L'': "list_free L' = Some L''" by blast
    have "((freed h G)(l \<mapsto> O_list L'))(l := None) = freed h (insert p (insert l G) - {p})"
      using assms(1-3,6) by (auto simp: fun_eq_iff)
    then have "myfree (Some l) ((freed h G)(l \<mapsto> O_list L')) = Some (freed h (insert p (insert l G) - {p}))" by (simp add: myfree_def)
    then show ?thesis using assms(2) by (auto simp: m'(1) assms(1,3) list_at_def L L' L'')
  qed
  then show ?thesis unfolding frees_def by blast
qed

lemma agree_sub: "agree h h' F \<Longrightarrow> G \<subseteq> F \<Longrightarrow> agree h h' G"
  by (auto simp: agree_def)

lemma agree_freed: "agree h h' (F \<union> G) \<Longrightarrow> F \<inter> G = {} \<Longrightarrow> l \<notin> G \<Longrightarrow> agree h ((freed h' F)(l \<mapsto> x)) G"
  by (auto simp: agree_def)

lemma release:
  "owns h t p F \<Longrightarrow> agree h h' F \<Longrightarrow> frees h' p F"
  "owns_all h ts vs G \<Longrightarrow> agree h h' G \<Longrightarrow> h' node = Some (O_ben (V_list (Some l))) \<Longrightarrow> h' l = Some (O_list L) \<Longrightarrow> dlc L xs \<Longrightarrow>
    map snd xs = map Some vs \<Longrightarrow> node \<notin> G \<Longrightarrow> l \<notin> G \<Longrightarrow> frees_items h' node l xs G"
  "owns_tuples h us vs G \<Longrightarrow> agree h h' G \<Longrightarrow> h' node = Some (O_ben (V_dict (Some l))) \<Longrightarrow> h' l = Some (O_list L) \<Longrightarrow> dlc L xs \<Longrightarrow>
    map snd xs = map Some vs \<Longrightarrow> node \<notin> G \<Longrightarrow> l \<notin> G \<Longrightarrow> frees_items h' node l xs G"
proof (induction arbitrary: h' and h' node l L xs and h' node l L xs rule: owns_owns_all_owns_tuples.inducts)
  case (own_int p i)
  then have "ben_free_r m (Some p) h' = Some (freed h' ({p} - {p}))" if "m \<ge> 1" for m
    using that by (cases m) (auto simp: agree_def fun_eq_iff)
  then show ?case unfolding frees_def by blast
next
  case (own_str p q b s)
  then have h: "h' p = Some (O_ben (V_str (Some q)))" "h' q = Some (O_str b (length s))" "h' b = Some (O_buf (s @ [0]))" by (auto simp: agree_def)
  then have "ben_free_r m (Some p) h' = Some (freed h' ({p, q, b} - {p}))" if "m \<ge> 1" for m
    using that by (cases m) (auto simp: str_free_def myfree_def fun_eq_iff)
  then show ?case unfolding frees_def by blast
next
  case (own_list p l L xs vs ts G)
  have a: "agree h h' G" "h' p = Some (O_ben (V_list (Some l)))" "h' l = Some (O_list L)" using own_list by (auto simp: agree_def)
  show ?case by (rule frees_node [OF a(2) _ a(3) own_list.hyps(1) own_list.IH(4) [OF a own_list.hyps] own_list.hyps(3,4)]) simp
next
  case (own_dict p l L xs vs ts G)
  have a: "agree h h' G" "h' p = Some (O_ben (V_dict (Some l)))" "h' l = Some (O_list L)" using own_dict by (auto simp: agree_def)
  show ?case by (rule frees_node [OF a(2) _ a(3) own_dict.hyps(1) own_dict.IH(4) [OF a own_dict.hyps] own_dict.hyps(3,4)]) simp
next
  case all_nil
  then show ?case using frees_items_Nil by simp
next
  case (all_cons t v F ts vs G)
  then obtain i xs' where xs: "xs = (i, Some v) # xs'" "map snd xs' = map Some vs" by (cases xs) auto
  have v: "v \<in> F" "h' v \<noteq> None" using owns_root [OF all_cons.IH(1)] all_cons.prems(1) by (auto simp: agree_def)
  have nf: "node \<notin> F" "l \<notin> F" "node \<notin> G" "l \<notin> G" "node \<noteq> l" using all_cons.prems(2,3,6,7) by auto
  from all_cons.IH(2) [OF agree_sub [OF all_cons.prems(1)]] obtain n where n: "\<forall>m \<ge> n. ben_free_r m (Some v) h' = Some (freed h' (F - {v}))"
    unfolding frees_def by blast
  from list_item_freed [OF all_cons.prems(2,3) all_cons.prems(4) [unfolded xs(1)] v nf(2)] obtain L1 where
    L1: "dlc L1 xs'" "\<forall>j \<ge> n. ben_free_item (ben_free_r j) node i h' = Some (first xs' None, (freed h' F)(l \<mapsto> O_list L1))" using n by blast
  have "frees_items ((freed h' F)(l \<mapsto> O_list L1)) node l xs' G"
    by (rule all_cons.IH(4) [OF agree_freed [OF all_cons.prems(1) all_cons.hyps(1) nf(4)] _ _ L1(1) xs(2) nf(3,4)])
      (use all_cons.prems(2) nf in simp_all)
  from frees_items_Cons [OF L1(2) this nf(4)] show ?case unfolding xs(1) .
next
  case tup_nil
  then show ?case using frees_items_Nil by simp
next
  case (tup_cons v a b k F t G ts vs H)
  then obtain i xs' where xs: "xs = (i, Some v) # xs'" "map snd xs' = map Some vs" by (cases xs) auto
  let ?F = "insert v (F \<union> G)"
  have ab: "a \<in> F" "b \<in> G" "h' a \<noteq> None" "h' b \<noteq> None" "h' v = Some (O_tuple (Some a) (Some b))"
    using owns_root [OF tup_cons.IH(2)] owns_root [OF tup_cons.IH(4)] tup_cons.IH(1) tup_cons.prems(1) by (auto simp: agree_def)
  have nf: "node \<notin> ?F" "l \<notin> ?F" "node \<notin> H" "l \<notin> H" "node \<noteq> l" using tup_cons.prems(2,3,6,7) by auto
  have "agree h h' F" by (rule agree_sub [OF tup_cons.prems(1)]) auto
  from tup_cons.IH(3) [OF this] obtain n1 where n1: "\<forall>m \<ge> n1. ben_free_r m (Some a) h' = Some (freed h' (F - {a}))" unfolding frees_def by blast
  have "agree h (freed h' F) G" using tup_cons.prems(1) tup_cons.hyps(2) by (auto simp: agree_def)
  from tup_cons.IH(5) [OF this] obtain n2 where
    n2: "\<forall>m \<ge> n2. ben_free_r m (Some b) (freed h' F) = Some (freed (freed h' F) (G - {b}))" unfolding frees_def by blast
  have "v \<notin> F \<union> G" using tup_cons.hyps(1) by auto
  then have "tuple_free (ben_free_r j) (Some v) h' = Some (freed h' ?F)" if "j \<ge> max n1 n2" for j
    using that n1 n2 by (intro tuple_freed [OF ab(5,1,2,3,4) tup_cons.hyps(2)]) auto
  with dict_item_freed [OF tup_cons.prems(2,3) tup_cons.prems(4) [unfolded xs(1)] nf(2)] obtain L1 where
    L1: "dlc L1 xs'" "\<forall>j \<ge> max n1 n2. ben_free_item (ben_free_r j) node i h' = Some (first xs' None, (freed h' ?F)(l \<mapsto> O_list L1))" by blast
  have un: "insert v (F \<union> G \<union> H) = ?F \<union> H" "?F \<inter> H = {}" using tup_cons.hyps(1,3) by auto
  have "frees_items ((freed h' ?F)(l \<mapsto> O_list L1)) node l xs' H"
    by (rule tup_cons.IH(7) [OF agree_freed [OF tup_cons.prems(1) [unfolded un(1)] un(2) nf(4)] _ _ L1(1) xs(2) nf(3,4)])
      (use tup_cons.prems(2) nf in simp_all)
  from frees_items_Cons [OF L1(2) this nf(4)] show ?case unfolding xs(1) un(1) .
qed

section \<open>Everything is released once\<close>

text \<open>
  ben_free releases exactly the objects of the value.  On a memory that holds a value it returns, frees each of its nodes, strings, tuples and lists once and
  touches nothing else; a second call for the same value is undefined.
\<close>

theorem ben_free_exact:
  assumes "owns h t p F"
  shows "\<exists>n. \<forall>m \<ge> n. ben_free m (Some p) h = Some (freed h F) \<and> ben_free m (Some p) (freed h F) = None"
proof -
  have p: "p \<in> F" "h p \<noteq> None" using owns_root [OF assms] by auto
  from release(1) [OF assms, of h] obtain n where n: "\<forall>m \<ge> n. ben_free_r m (Some p) h = Some (freed h (F - {p}))"
    by (auto simp: agree_def frees_def)
  have "ben_free m (Some p) h = Some (freed h F)" if "m \<ge> n" for m
    using n that by (simp add: ben_free_def ben_free_with_def myfree_root [of p F h, OF p])
  moreover have "ben_free m (Some p) (freed h F) = None" for m using p(1) by (cases m) (simp_all add: ben_free_def ben_free_with_def)
  ultimately show ?thesis by blast
qed

text \<open>A list with a number, and a buffer that belongs to somebody else.\<close>

theorem ben_free_exact_witness:
  "\<exists>(L :: ptr option LIST) h m. list_put list_init (Some 2) = Some (L, Some 0) \<and>
     h = [0 \<mapsto> O_ben (V_list (Some 1)), 1 \<mapsto> O_list L, 2 \<mapsto> O_ben (V_int 7), 9 \<mapsto> O_buf [5]] \<and> ben_free m (Some 0) h = Some [9 \<mapsto> O_buf [5]]"
proof -
  from list_put_dlc [OF list_init_dlc, of "Some (2 :: ptr)"] obtain L where
    L: "list_put list_init (Some (2 :: ptr)) = Some (L, Some 0)" "dlc L [(0, Some 2)]" by (auto simp: list_init_def)
  let ?h = "[0 \<mapsto> O_ben (V_list (Some 1)), 1 \<mapsto> O_list L, 2 \<mapsto> O_ben (V_int 7), 9 \<mapsto> O_buf [5]]"
  have "owns ?h (BEN_INT 7) 2 {2}" by (rule own_int) simp
  from all_cons [OF this all_nil] have "owns_all ?h [BEN_INT 7] [2] ({2} \<union> {})" by simp
  from own_list [OF _ _ L(2) _ this, of 0 1] have "owns ?h (BEN_LIST [BEN_INT 7]) 0 {0, 1, 2}" by simp
  from ben_free_exact [OF this] obtain n where "ben_free n (Some 0) ?h = Some (freed ?h {0, 1, 2})" by blast
  moreover have "freed ?h {0, 1, 2} = [9 \<mapsto> O_buf [5]]" by (auto simp: fun_eq_iff)
  ultimately show ?thesis using L(1) by auto
qed

end
