(* ===== verification/File_Io.thy ===== *)
theory File_Io
  imports Files
begin

text \<open>
  Reading and writing whole files, the rest of \<^verbatim>\<open>src/src/shr/file.c\<close>.  The library calls may fail: \<open>STDIO\<close> says which of them succeed and how
  many bytes a transfer moves at most.  Opening for writing empties the file, whatever happens later.
\<close>

record STDIO =
  io_open :: bool
  io_seek :: bool
  io_count :: nat
  io_close :: bool
  io_time :: time_t

definition put_file :: "FS \<Rightarrow> bytes \<Rightarrow> time_t \<Rightarrow> bytes \<Rightarrow> FS" where
  "put_file fs f now bs = fs\<lparr>lstat := (lstat fs)(f := Some \<lparr>st_kind = S_IFREG, st_size = length bs, st_mtime = now\<rparr>), file_data := (file_data fs)(f := Some bs)\<rparr>"

definition file_mkdir :: "(bytes \<Rightarrow> bool) \<Rightarrow> time_t \<Rightarrow> FS \<Rightarrow> bytes \<Rightarrow> FS \<times> bool" where
  "file_mkdir mkdir now fs dirname =
     (if \<not> file_isdir fs dirname then
        if mkdir dirname then (fs\<lparr>lstat := (lstat fs)(dirname := Some \<lparr>st_kind = S_IFDIR, st_size = 0, st_mtime = now\<rparr>)\<rparr>, True)
        else (fs, False)
      else (fs, True))"

text \<open>The buffer has one more byte than was asked for, and it is zero.\<close>

definition file_load :: "FS \<Rightarrow> STDIO \<Rightarrow> bytes \<Rightarrow> nat \<Rightarrow> nat \<Rightarrow> bytes option" where
  "file_load fs io filename offset sz =
     (case file_data fs filename of
        None \<Rightarrow> None
      | Some bs \<Rightarrow>
          if \<not> io_open io then None
          else if \<not> io_seek io then None
          else let buffer = take (min sz (io_count io)) (drop offset bs) in
            if sz \<noteq> length buffer then None
            else if \<not> io_close io then None
            else Some (buffer @ [0]))"

definition file_write :: "FS \<Rightarrow> STDIO \<Rightarrow> bytes \<Rightarrow> bytes \<Rightarrow> nat \<Rightarrow> FS \<times> int" where
  "file_write fs io filename buffer sz =
     (if \<not> io_open io then (fs, - 1)
      else let out = take (min sz (io_count io)) buffer; fs = put_file fs filename (io_time io) out in
        if sz \<noteq> length out then (fs, - 2)
        else if \<not> io_close io then (fs, - 3)
        else (fs, int sz))"

text \<open>The result is unsigned: the errors are the largest numbers of 64 bits.\<close>

definition file_append :: "FS \<Rightarrow> STDIO \<Rightarrow> bytes \<Rightarrow> bytes \<Rightarrow> nat \<Rightarrow> FS \<times> nat" where
  "file_append fs io filename buffer sz =
     (if \<not> io_open io then (fs, 2 ^ 64 - 1)
      else let out = take (min sz (io_count io)) buffer;
               old = (case file_data fs filename of None \<Rightarrow> [] | Some bs \<Rightarrow> bs);
               fs = put_file fs filename (io_time io) (old @ out) in
        if sz \<noteq> length out then (fs, 2 ^ 64 - 2)
        else if \<not> io_close io then (fs, 2 ^ 64 - 3)
        else (fs, sz))"

section \<open>Properties\<close>

lemma put_file_simps [simp]:
  "file_data (put_file fs f now bs) f = Some bs" "file_size (put_file fs f now bs) f = length bs" "file_isreg (put_file fs f now bs) f"
  "g \<noteq> f \<Longrightarrow> file_data (put_file fs f now bs) g = file_data fs g"
  by (simp_all add: put_file_def file_size_def file_isreg_def)

lemma put_file_ok: "fs_ok fs \<Longrightarrow> length bs \<le> OFF_MAX \<Longrightarrow> fs_ok (put_file fs f now bs)"
  by (auto simp: fs_ok_def put_file_def file_size_def)

text \<open>
  What was written is read back.  When file_write reports the size, loading the file gives the bytes of the buffer, followed by whatever has been appended since, and no other file has changed.
\<close>

theorem file_roundtrip:
  assumes "file_write fs io f buffer sz = (fs1, int sz)" and "file_append fs1 io' f extra n = (fs2, n)" and "n < 2 ^ 64 - 3"
    and "io_open io''" and "io_seek io''" and "io_close io''" and "io_count io'' = sz + n"
  shows "file_load fs2 io'' f 0 (sz + n) = Some (take sz buffer @ take n extra @ [0]) \<and> file_size fs2 f = sz + n \<and>
    (\<forall>g. g \<noteq> f \<longrightarrow> file_data fs2 g = file_data fs g)"
proof -
  let ?out = "take (min sz (io_count io)) buffer" and ?app = "take (min n (io_count io')) extra"
  from assms(1) have w: "sz = length ?out" "fs1 = put_file fs f (io_time io) ?out"
    by (auto simp: file_write_def Let_def split: if_splits)
  from assms(2,3) have a: "n = length ?app" "fs2 = put_file fs1 f (io_time io') (?out @ ?app)"
    by (auto simp: file_append_def Let_def w(2) split: if_splits)
  from w(1) have o: "?out = take sz buffer" by simp
  from a(1) have p: "?app = take n extra" by simp
  have "length (?out @ ?app) = sz + n" using w(1) a(1) by simp
  moreover from this have "file_load fs2 io'' f 0 (sz + n) = Some ((?out @ ?app) @ [0])"
    unfolding a(2) using assms(4-7) by (simp add: file_load_def Let_def)
  ultimately show ?thesis unfolding o p using a(2) w(2) o p by simp
qed

theorem file_roundtrip_witness:
  "\<exists>fs1 fs2 io. file_write ex_fs io (lit ''/w/n'') [1, 2] 2 = (fs1, 2) \<and> file_append fs1 io (lit ''/w/n'') [3] 1 = (fs2, 1) \<and>
     file_load fs2 io (lit ''/w/n'') 0 3 = Some [1, 2, 3, 0]"
proof -
  let ?io = "\<lparr>io_open = True, io_seek = True, io_count = 3, io_close = True, io_time = 0\<rparr>" and ?f = "lit ''/w/n''"
  obtain fs1 where w: "file_write ex_fs ?io ?f [1, 2] 2 = (fs1, int 2)" by (simp add: file_write_def Let_def)
  obtain fs2 where a: "file_append fs1 ?io ?f [3] 1 = (fs2, 1)" by (simp add: file_append_def Let_def)
  from file_roundtrip [OF w a, of ?io] w a show ?thesis by auto
qed

end
