(* ===== verification/Spec2Isabelle.thy ===== *)
theory Spec2Isabelle
  imports Dht Naming Sha1 Race Mime_Race Web_Start Ben_Mem File_Io
begin

text \<open>
  A verification of Torrentkino, a distributed hash table that answers DNS queries, and of the programs around it.

  \<^bold>\<open>The program.\<close>  The repository builds three things under \<^verbatim>\<open>src/src\<close>.  The daemon (\<^verbatim>\<open>p2p\<close>, \<^verbatim>\<open>dns/dns.c\<close>) is a Kademlia node: it keeps a routing table, the
  addresses other nodes announced to it, a cache of what it looked up, the tokens it handed out and the transactions and searches it has
  open; datagrams on one socket and the clock drive these databases, and a second socket takes DNS queries for host names, which are
  answered from the cache, from the own table or by a search in the network.  The name service module (\<^verbatim>\<open>nss\<close>, \<^verbatim>\<open>dns/client.c\<close>) is loaded by
  the C library and asks the daemon.  Tumbleweed (\<^verbatim>\<open>web\<close>) is a web server for static files with epoll, pipelining and byte ranges.  They share the
  containers and helpers of \<^verbatim>\<open>shr\<close>.

  \<^bold>\<open>Conventions.\<close>  One theory models one source file or a small group, with the names of the source.  A \<open>struct\<close> is a record, stateful functions take and return the
  record they change.  Bytes are \<open>8 word\<close>, and numbers that the code lets wrap are words or have the modulus written out.  A function that the source makes undefined (memory
  that is freed or out of bounds, a null pointer), that does not return or that ends the program with \<open>fail\<close> yields \<open>None\<close> (in Bencode
  \<open>Inl\<close> of a reason); a result \<open>Some\<close> therefore states that the code returns and is memory safe.  IPv4 and IPv6, a compile time choice in the source, are the parameter \<open>ipver\<close>.  Time and random
  numbers are arguments.

  \<^bold>\<open>Containers and helpers.\<close>
  \<^item> Prelude: bytes, C string functions, randomness, and lemmas that everything shares.
  \<^item> Lists (\<^verbatim>\<open>shr/list.c\<close>): the doubly linked ring on an explicit memory of items with allocation and release.  Any defined sequence of
    operations implements an abstract sequence with a cursor, and \<open>list_del_exact\<close> says exactly when deleting reads freed memory.  The locales \<open>sweeper\<close> and \<open>walker\<close> are the contracts of
    loops that delete while they walk; every expiry of the program interprets one of them.
  \<^item> Hash (\<^verbatim>\<open>shr/hash.c\<close>): djb2 and buckets that grow.  The locale \<open>hash_map\<close> is a finite map, and \<open>index\<close>, which extends it, keeps a list and its hash table in
    step; both are interpreted for the tables of the program.
  \<^item> Strings, Cstring (\<^verbatim>\<open>shr/str.c\<close>, \<^verbatim>\<open>p2p/hex.c\<close>), Inet (\<^verbatim>\<open>shr/ip.c\<close>), Files, File_Io (\<^verbatim>\<open>shr/file.c\<close>), Times (\<^verbatim>\<open>p2p/time.c\<close>), Unix (\<^verbatim>\<open>shr/unix.c\<close>).
    Unix shows that root is given up for good when \<open>unix_dropuid0\<close> returns, whichever of its six calls the system refuses.
  \<^item> Sha1 (\<^verbatim>\<open>ext/sha1-linus.c\<close>, \<^verbatim>\<open>p2p/sha1.c\<close>): the optimised rounds, the circular schedule and the buffering, and the algorithm of FIPS 180-4, which they implement.
  \<^item> Bencode (\<^verbatim>\<open>p2p/ben.c\<close>): encoder, decoder and validator over a buffer whose every read is checked.  Round trip, completeness of the validator, safety of decoding
    what it accepts, and the input on which the decoder never returns.  The recursive functions carry fuel; \<open>ben_fuel\<close>, the length of the input, is proved to be enough.
    Ben_Mem puts values on a memory of objects: \<open>ben_free\<close> releases each object of a value once and nothing else, given enough fuel.

  \<^bold>\<open>Databases of the daemon.\<close>
  \<^item> Node_Udp, Bucket, Neighbourhood, Table (\<^verbatim>\<open>p2p/node_udp.c\<close>, \<^verbatim>\<open>bucket.c\<close>, \<^verbatim>\<open>neighbourhood.c\<close>): the routing table.  No sequence of operations breaks the invariant of
    buckets, nodes and index; splitting ends after at most 160 splits; the table is bounded.
  \<^item> Mru, Value, Value_Db (\<^verbatim>\<open>p2p/value.c\<close>) and Cache, Cache_Db (\<^verbatim>\<open>p2p/cache.c\<close>): announced addresses and cached results.  What both do with the nodes of a target is
    in Mru; the operations refine abstract tables, with the conditions under which a stale list pointer is followed.  The locale \<open>renewal\<close> is what the cache asks of the searches it starts.
  \<^item> Token (\<^verbatim>\<open>p2p/token.c\<close>): only issued tokens that have not expired are accepted.  Lookup (\<^verbatim>\<open>p2p/lookup.c\<close>): searches, sorted by distance.  Transaction (\<^verbatim>\<open>p2p/transaction.c\<close>): open
    requests by their id.
  \<^item> Aes (\<^verbatim>\<open>p2p/aes.c\<close>), Identity (\<^verbatim>\<open>p2p/identity.c\<close>), Dns (\<^verbatim>\<open>dns/dns.c\<close>): encryption of datagrams, the own host names, DNS messages.  A name in a message is a pointer into the
    buffer of a message that lies in a frame of \<open>r_parse\<close> or in a search; one of the properties is about a pointer that outlives its frame.

  \<^bold>\<open>The daemon as a whole.\<close>  State has the record \<open>MAIN\<close> of everything the program keeps, with what it sent, and \<open>WORLD\<close> for what is outside: the libraries, the name service and the
  multicast option.  Send, P2p, Cron and Resolver are the message constructors, the handlers of datagrams, the periodic work and the DNS front end (\<^verbatim>\<open>p2p/send_udp.c\<close>, \<^verbatim>\<open>p2p.c\<close>, \<^verbatim>\<open>resolver.c\<close>).  Daemon is the start of \<^verbatim>\<open>torrentkino.c\<close> and
  the loop of \<^verbatim>\<open>udp.c\<close>, with datagrams, timeouts and first requests as events in any order; Conf (\<^verbatim>\<open>p2p/conf.c\<close>, \<^verbatim>\<open>web/conf.c\<close>) is the command line.
  Invariant, Cron_Inv and Resolver_Inv show that every handler returns and keeps \<open>main_ok\<close>, the conjunction of the invariants of all databases.
  The counter of unanswered pings, an \<open>int\<close>, is added to modulo \<open>2 ^ 32\<close>; by \<open>paced_fits\<close> that makes no difference before the clock reads \<open>240 * INT_MAX\<close> seconds.
  \<open>main_ok W k\<close> also says that at least \<open>k\<close> more list items can be allocated before a counter of the
  source overflows at \<open>LONG_MAX\<close>; \<open>event_cost\<close> bounds what one event uses, so that \<open>daemon_safe\<close> covers nearly a million million events.  \<open>event_safe\<close> lists the inputs on which
  the code is known to fail, each with a theorem or a finding.  Protocol and Dht compose daemons:
  a ping and its answer, and an announcement that a third node finds.

  \<^bold>\<open>Names.\<close>  Client is the resolver and the name service module; its network is a function.  Naming puts the daemon's \<open>r_parse\<close> in its place: \<open>nss_resolves\<close> follows a
  host name from the C library through both programs and back.

  \<^bold>\<open>The web server.\<close>  Mime, Response, Http and Tcp model \<^verbatim>\<open>web/mime.c\<close>, \<^verbatim>\<open>response.c\<close>, \<^verbatim>\<open>node_tcp.c\<close>, \<^verbatim>\<open>http.c\<close>, \<^verbatim>\<open>send_tcp.c\<close> and \<^verbatim>\<open>tcp.c\<close>, over a file system (\<open>FS\<close>), libmagic and the results of
  the socket calls as parameters.  A transfer is a loop over the results the kernel will give; Delivery proves once, in a locale that is interpreted for memory and for
  files, that what arrives is exactly what was queued and that the loop ends when the kernel accepts enough.  Http_Inv gives the exact answers to whole and range requests and
  the invariant of the queue; Web has the event loop with its connections, in which no event gets stuck, and the functional correctness of a GET request.

  \<^bold>\<open>Threads.\<close>  List_Steps takes \<open>list_put\<close> and \<open>list_del\<close> apart into single memory accesses; run alone they are the operations of Lists.  Web_Threads has any number of threads of
  \<open>tcp_thread\<close> with both mutexes of \<^verbatim>\<open>web/worker.c\<close> and the one of \<^verbatim>\<open>web/mime.c\<close> (\<^verbatim>\<open>shr/thrd.c\<close>), interleaved at every access to the list of connections and to the counters, as a step function on \<open>SYS\<close>; what a
  thread does with the data of one connection is one step, and adding a mime type is another, which goes wrong when any other thread is inside a handler: readers of the mime table take no lock.  That this does not happen is an assumption (\<open>mime_alone\<close>);
  Mime_Race shows, one memory access at a time, what the code does otherwise.  Threads_Inv is the invariant: who holds which mutex, which connection belongs to which thread, what a thread in the middle of a list operation has
  done so far.  Thread_Safety shows that no step goes wrong or waits for a thread that cannot go on, and that all memory is released at the end.  Race shows what the daemon risks, whose DNS
  thread does not take the mutex: two interleaved \<open>list_put\<close> calls lose an item.

  \<^bold>\<open>Start and end.\<close>  System is the kernel as far as the programs use it outside their loops: descriptors, sockets, epoll entries, signals, ids, threads; any call may be refused, \<open>fail\<close> is a
  result, and so is \<open>Blocked\<close>, for a \<open>pthread_join\<close> whose thread has not ended.  The locale \<open>kernel_order\<close> is the contract of actions that keep a relation on the kernel whatever is refused; it is interpreted for the time before and after root is given up.  Udp_Start is \<open>main\<close> of
  \<^verbatim>\<open>torrentkino.c\<close> with the rest of \<^verbatim>\<open>udp.c\<close> and \<^verbatim>\<open>worker.c\<close>, and the turn of a thread with the one-shot registration of its socket; Udp_Run and Lifecycle
  show that the daemon gets from an accepted command line to its threads, that every turn leaves both sockets armed, that nothing runs as root, that \<open>main\<close> waits for its threads, that these end after a signal, and that it then ends with all descriptors closed.  Shutdown is the release of the databases before that: it is
  complete when \<open>list->item\<close> of the cache and of the values is at the front, and \<open>cache_free\<close> reads freed memory exactly when it is not.
  Web_Start does the same for \<^verbatim>\<open>tumbleweed.c\<close>.

  \<^bold>\<open>Assumptions on code outside the sources.\<close>  \<open>sha1_law\<close>: a hash has 20 bytes (proved for the built-in one: \<open>built_in_sha1\<close>).  \<open>polarssl_laws\<close>: CBC decryption inverts encryption, on whole blocks.  \<open>fs_ok\<close> and
  \<open>site_ok\<close>: a regular file has the size \<open>lstat\<close> reports, can be read and has a date between the years 1970 and 9999.  \<open>rng_ok\<close>: the random device gives as many bytes as asked for.  \<open>event_ok\<close>, \<open>input_ok\<close> and
  \<open>turn_ok\<close>: the kernel reports an event only for what a descriptor is registered for, \<open>accept\<close> and the cork option succeed, and the peer takes the answer sooner or later or breaks the connection.  \<open>nobody_ok\<close>: the user nobody of the system is not root.  \<open>granted\<close>: the
  system refuses no call, where a theorem says that the program starts.  Each is satisfied by the instance of a witness.

  \<^bold>\<open>Not modelled.\<close>  The threads of the daemon are interleaved turn by turn, not access by access: that \<open>r_parse\<close> and \<open>p2p_bootstrap\<close> run without the mutex is a finding, and no theorem about single accesses
  would hold.  Logging and printing, allocation (\<open>myalloc\<close> crashes when memory runs out) and
  functions that only release one block.  \<^verbatim>\<open>web/str.c\<close> repeats \<^verbatim>\<open>shr/str.c\<close>.  Packaging and init scripts.
\<close>

section \<open>Examples\<close>

text \<open>A node that knows nobody, with functions in place of the libraries, for the witnesses.\<close>

definition ex_conf :: "UCHAR \<Rightarrow> CONF" where
  "ex_conf c = \<lparr>c_realm = [], c_bootstrap_node = lit ''192.0.2.1'', c_bootstrap_mode = BOOTSTRAP_HOST, c_bootstrap_lazy = [], c_node_id = replicate 20 c,
     c_bool_realm = False, c_p2p_port = 6881, c_dns_port = 5353, c_announce_port = 8080, c_bootstrap_port = 6881, c_key = [], c_bool_encryption = False\<rparr>"

definition ex_start :: "UCHAR \<Rightarrow> MAIN" where
  "ex_start c = the (daemon_start ex_world (ex_conf c) [] 3 4 0 ex_rng)"

lemma ex_rng_ok: "rng_ok ex_rng"
  by (simp add: rng_ok_def ex_rng_def)

lemma ex_conf_ok: "conf_ok (ex_conf c)" "names_ok []"
  by (simp_all add: conf_ok_def ex_conf_def names_ok_def)

lemma ex_start_ok: "daemon_start ex_world (ex_conf c) [] 3 4 0 ex_rng = Some (ex_start c)" "int k + 1 < LONG_MAX \<Longrightarrow> main_ok ex_world k (ex_start c)"
  using start_ok [OF ex_conf_ok(1) [of c] ex_conf_ok(2) ex_rng_ok, of 0 ex_world 3 4] by (auto simp: ex_start_def)

lemmas ex_start_simps = start_fields [OF ex_start_ok(1)]

section \<open>The running program\<close>

text \<open>
  C1: The daemon never gets stuck on safe events.  From any valid configuration it starts; then, as long as the datagrams, queries, timeouts and signals that arrive, in any order and up to
  nearly a million million of them, are not among the exceptions of \<open>event_safe\<close>, the handler of the next one, which is none of them either, returns with the invariants of all databases intact.  The exceptions are inputs on which
  the code does fail: a datagram that ends in an unterminated number, an announcement with a short token or for a node that a stale cursor points to, an answer to a search for a DNS client, and a query for
  a name longer than 42 bytes.
\<close>

theorem daemon_safe:
  assumes "conf_ok conf" and "names_ok ids" and "rng_ok g" and "0 \<le> now" and "sha1_law W"
    and "daemon_start W conf ids sockfd dns_sockfd now g = Some m0" and "reached W m0 n m"
    and "int (Suc n * event_cost) + 1 < LONG_MAX" and "event_safe W m e"
  shows "\<exists>m'. handle W m e = Some m' \<and> main_ok W 0 m'"
proof -
  from start_ok [OF assms(1-4), of W sockfd dns_sockfd] assms(6)
  have "main_ok W (0 + event_cost + n * event_cost) m0" using assms(8) by (simp add: algebra_simps)
  from handle_ok [OF reached_ok [OF assms(7) this assms(5)] assms(5,9)] show ?thesis .
qed

text \<open>A ping that arrives right after the start.\<close>

definition ex_ping :: RECV where
  "ex_ping = \<lparr>rc_data = ben_enc_rec (ping_packet (replicate 20 2) [1, 2, 3, 4]), rc_from = ex_ip, rc_now = 5, rc_cron = 5, rc_self = 0, rc_junk = ex_msg\<rparr>"

lemma ex_ping_safe: "event_safe ex_world (ex_start 1) (Datagram udp_p2p_worker ex_ping)"
proof -
  let ?p = "ping_packet (replicate 20 2) [1, 2, 3, 4]"
  let ?x = "ben_enc_rec ?p"
  have l: "length ?x \<le> UDP_BUF"
    using digits_size [of 1] digits_size [of 2] digits_size [of 4] digits_size [of 20] by (simp add: ping_packet_def lit_def)
  then have t: "take UDP_BUF ?x = ?x" "min (length ?x) UDP_BUF = length ?x" by simp_all
  have "ints_le LONG_MAX ?p" by (simp add: ping_packet_def)
  moreover have "int (length ?x) < LONG_MAX" by (rule packet_size(1)) simp_all
  ultimately have dec: "ben_dec (udp_buffer ?x) (length ?x) = Inr (Some ?p)"
    using ben_dec_enc [of ?p "replicate (Suc UDP_BUF - length ?x) 0"] unfolding ben_enc_Some udp_buffer_def by blast
  have "\<not> open_ended (udp_buffer ?x) (length ?x) 0" by (simp add: open_ended_def udp_buffer_def ping_packet_def isdigit_def)
  moreover have "packet_safe val_init tdb_init (Some ?p)"
    by (simp add: packet_safe_def announce_safe_def reply_safe_def ping_packet_def chr_def tdb_item_def tdb_init_def hash_get_init)
  ultimately show ?thesis
    by (simp add: event_safe_def ex_ping_def t dec ex_ip_ok datagram_safe_def encrypted_def ex_world_def bencode_safe_def ex_start_simps Let_def)
qed

theorem daemon_safe_witness:
  "\<exists>m'. handle ex_world (ex_start 1) (Datagram udp_p2p_worker ex_ping) = Some m' \<and> main_ok ex_world 0 m'"
  by (rule daemon_safe [OF ex_conf_ok(1) [of 1] ex_conf_ok(2) ex_rng_ok _ ex_sha1 ex_start_ok(1) reached_start _ ex_ping_safe]) simp_all

text \<open>
  C9: There is always a token to give out.  In every state the daemon reaches, the token database is not empty, so a get_peers request can be answered:
  expiry never removes the last token before the next one has been created.
\<close>

theorem token_always:
  assumes "conf_ok conf" and "names_ok ids" and "rng_ok g" and "0 \<le> now" and "sha1_law W"
    and "daemon_start W conf ids sockfd dns_sockfd now g = Some m0" and "reached W m0 n m" and "int (n * event_cost) + 1 < LONG_MAX"
  shows "\<exists>token. tkn_read (s_token m) = Some token \<and> length token = TOKEN_SIZE"
proof -
  from start_ok [OF assms(1-4), of W sockfd dns_sockfd] assms(6)
  have "main_ok W (0 + n * event_cost) m0" using assms(8) by (simp add: algebra_simps)
  from main_tkn_read [OF reached_ok [OF assms(7) this assms(5)]] show ?thesis .
qed

theorem token_always_witness:
  "\<exists>m token. handle ex_world (ex_start 1) (Datagram udp_p2p_worker ex_ping) = Some m \<and> tkn_read (s_token m) = Some token \<and> length token = TOKEN_SIZE"
proof -
  have "main_ok ex_world (0 + event_cost) (ex_start 1)" by (rule ex_start_ok(2)) simp
  from handle_ok [OF this ex_sha1 ex_ping_safe] obtain m where
    m: "handle ex_world (ex_start 1) (Datagram udp_p2p_worker ex_ping) = Some m" by blast
  have "reached ex_world (ex_start 1) (Suc 0) m" by (rule reached_step [OF reached_start ex_ping_safe m])
  from token_always [OF ex_conf_ok(1) [of 1] ex_conf_ok(2) ex_rng_ok _ ex_sha1 ex_start_ok(1) this] m show ?thesis by auto
qed

section \<open>Two nodes\<close>

text \<open>
  C7: A ping is answered and the answer is recognised.  Node a opens a transaction and sends a ping; node b, which is any other node in any state, parses
  that datagram and sends exactly one, and when a parses that, the transaction is closed, so the same answer is not accepted twice,
  and if b is in the routing table of a it now counts as alive, with the address the answer came from.
\<close>

theorem ping_roundtrip:
  assumes "main_ok W (Suc (Suc k)) a" and "main_ok W (Suc j) b" and "plain W a" and "plain W b" and "me a \<noteq> me b"
    and "ip_ok (w_ver W) addr_a" and "ip_ok (w_ver W) addr_b" and "\<not> ip_is_linklocal (w_ver W) addr_a" and "\<not> ip_is_linklocal (w_ver W) addr_b"
  shows "\<exists>a1 ti tid a2 x b' y a3. main_tdb_put a P2P_PING = Some (a1, ti) \<and> tdb_tid (s_tdb a1) ti = Some tid \<and>
    send_ping W a1 addr_b tid = Some a2 \<and> s_out a2 = s_out a @ [(addr_b, x)] \<and>
    p2p_parse W b (x @ rest) (length x) addr_a now = Some b' \<and> s_out b' = s_out b @ [(addr_a, y)] \<and>
    p2p_parse W a2 (y @ rest') (length y) addr_b now' = Some a3 \<and> s_out a3 = s_out a2 \<and> tdb_item (s_tdb a3) tid = None \<and>
    (\<forall>q n. nb_mem (s_nbhd a3) q = Some n \<and> n_id n = me b \<longrightarrow> pinged n = 0 \<and> c_addr n = addr_b)"
proof -
  from tdb_put_item [OF assms(1)] obtain a1 p tid where
    a1: "main_tdb_put a P2P_PING = Some (a1, Some p)" "main_ok W (Suc k) a1" "tdb_tid (s_tdb a1) (Some p) = Some tid" "length tid = TID_SIZE"
      "tdb_item (s_tdb a1) tid = Some p" "tdb_type (s_tdb a1) (Some p) = Some P2P_PING" "s_conf a1 = s_conf a" "s_sockfd a1 = s_sockfd a" "s_out a1 = s_out a"
    by blast
  have pl: "plain W a1" using assms(3) a1(7,8) by (simp add: plain_def)
  note ids = main_okD(1) [OF a1(2)] main_okD(1) [OF assms(2)]
  let ?x = "ben_enc_rec (ping_packet (me a) tid)" and ?y = "ben_enc_rec (pong_packet (me b) tid)"
  let ?a2 = "a1\<lparr>s_out := s_out a @ [(addr_b, ?x)]\<rparr>"
  have a2: "send_ping W a1 addr_b tid = Some ?a2" using send_ping_out [OF pl ids(1) a1(4)] a1(7,9) by simp
  have "length (me a) = SHA1_SIZE" using ids(1) a1(7) by simp
  from ping_answered_ok [OF assms(2,4,8,6) this assms(5) a1(4), of rest now] obtain b' where
    b': "p2p_parse W b (?x @ rest) (length ?x) addr_a now = Some b'" "s_out b' = s_out b @ [(addr_a, ?y)]" by blast
  have ok2: "main_ok W (Suc k) ?a2" using a1(2) by (simp add: main_ok_def)
  have e: "\<not> encrypted W (s_conf ?a2) addr_b" using assms(3) a1(7) by (auto simp: plain_def encrypted_def)
  have ne: "me b \<noteq> me ?a2" using assms(5) a1(7) by simp
  from pong_accepted_ok [OF ok2 e assms(9,7) ids(2) ne a1(4), of p rest' now'] a1(5,6) obtain a3 where
    "p2p_parse W ?a2 (?y @ rest') (length ?y) addr_b now' = Some a3" "tdb_item (s_tdb a3) tid = None" "s_out a3 = s_out ?a2"
      "\<forall>q n. nb_mem (s_nbhd a3) q = Some n \<and> n_id n = me b \<longrightarrow> pinged n = 0 \<and> c_addr n = addr_b" by auto
  with a1(1,3) a2 b' show ?thesis
    by (intro exI [of _ a1] exI [of _ "Some p"] exI [of _ tid] exI [of _ ?a2] exI [of _ ?x] exI [of _ b'] exI [of _ ?y] exI [of _ a3]) simp
qed

theorem ping_roundtrip_witness:
  "\<exists>a1 ti tid a2 x b' y a3. main_tdb_put (ex_start 1) P2P_PING = Some (a1, ti) \<and> tdb_tid (s_tdb a1) ti = Some tid \<and>
    send_ping ex_world a1 ex_ip tid = Some a2 \<and> s_out a2 = [(ex_ip, x)] \<and>
    p2p_parse ex_world (ex_start 2) (x @ [0]) (length x) ex_ip 5 = Some b' \<and> s_out b' = [(ex_ip, y)] \<and>
    p2p_parse ex_world a2 (y @ [0]) (length y) ex_ip 6 = Some a3 \<and> tdb_item (s_tdb a3) tid = None"
proof -
  have v: "w_ver ex_world = IPV4" by (simp add: ex_world_def)
  have "main_ok ex_world (Suc (Suc 0)) (ex_start 1)" "main_ok ex_world (Suc 0) (ex_start 2)" by (rule ex_start_ok(2), simp)+
  moreover have "plain ex_world (ex_start c)" for c by (simp add: plain_def ex_start_simps ex_world_def)
  moreover have "me (ex_start 1) \<noteq> me (ex_start 2)" by (simp add: ex_start_simps ex_conf_def replicate_eq_replicate)
  ultimately show ?thesis
    using ping_roundtrip [of ex_world 0 "ex_start 1" 0 "ex_start 2" ex_ip ex_ip "[0]" 5 "[0]" 6] ex_ip_ok
    by (simp add: v ip_is_linklocal_def ex_start_simps) blast
qed

text \<open>
  C6: What is announced is found.  Node a announces an address to node b with a token that b accepts; then node c asks b for the target.  The datagrams are those the nodes build, and b is in any state in which it has a place for the
  target and does not run into the stale list pointer.  Then b acknowledges the announcement, and answers c with one message whose values start with the address of a,
  with the port a announced, and whose token is one b can read back.
\<close>

theorem announced_is_found:
  assumes "main_ok W (Suc (Suc k)) b" and "plain W a" and "plain W b" and "plain W c"
    and "val_rep (w_ver W) (me b) (s_value b) ts" and "has_place target ts" and "\<not> val_stale (s_value b) target (me a)"
    and "length (me a) = SHA1_SIZE" and "length (me c) = SHA1_SIZE" and "me a \<noteq> me b" and "me c \<noteq> me b" and "length target = SHA1_SIZE"
    and "length token = TOKEN_SIZE" and "tkn_validate (s_token b) token" and "1 \<le> c_announce_port (s_conf a)" and "c_announce_port (s_conf a) \<le> 65535"
    and "ip_ok (w_ver W) addr_a" and "ip_ok (w_ver W) addr_c" and "\<not> ip_is_linklocal (w_ver W) addr_a" and "\<not> ip_is_linklocal (w_ver W) addr_c"
    and "length tid = TID_SIZE" and "length tid' = TID_SIZE"
  shows "\<exists>x b1 y b2 tok ps. send_announce_request W a addr_b tid target token TOKEN_SIZE = Some (a\<lparr>s_out := s_out a @ [(addr_b, x)]\<rparr>) \<and>
    p2p_parse W b (x @ rest) (length x) addr_a now = Some b1 \<and>
    s_out b1 = s_out b @ [(ip_merge_port_to_sin addr_a (of_nat (c_announce_port (s_conf a))), ben_enc_rec (pong_packet (me b) tid))] \<and>
    send_get_peers_request W c addr_b target tid' = Some (c\<lparr>s_out := s_out c @ [(addr_b, y)]\<rparr>) \<and>
    p2p_parse W b1 (y @ rest') (length y) addr_c now' = Some b2 \<and>
    s_out b2 = s_out b1 @ [(addr_c, ben_enc_rec (values_packet (me b) tok
      (ip_sin_to_tuple (ip_merge_port_to_sin addr_a (of_nat (c_announce_port (s_conf a)))) # ps) tid'))] \<and>
    tkn_read (s_token b) = Some tok"
proof -
  let ?port = "c_announce_port (s_conf a)"
  let ?x = "ben_enc_rec (query_packet ''announce_peer'' (announce_args (me a) target ?port token) tid)"
  let ?y = "ben_enc_rec (query_packet ''get_peers'' (peers_args (me c) target) tid')"
  let ?n = "fresh_node (me a) addr_a (int ?port) now"
  have send: "send_announce_request W a addr_b tid target token TOKEN_SIZE = Some (a\<lparr>s_out := s_out a @ [(addr_b, ?x)]\<rparr>)"
    using send_announce_out [OF assms(2,8,21,12), of addr_b token] assms(13) by simp
  have ask: "send_get_peers_request W c addr_b target tid' = Some (c\<lparr>s_out := s_out c @ [(addr_b, ?y)]\<rparr>)"
    by (rule send_peers_out [OF assms(4,9,22,12)])
  from announce_parsed [OF assms(1,3,5-8,10,12-16,17,19,21), of rest now] obtain b1 where
    b1: "p2p_parse W b (?x @ rest) (length ?x) addr_a now = Some b1" "main_ok W (Suc k) b1" "s_conf b1 = s_conf b" "s_sockfd b1 = s_sockfd b" "s_token b1 = s_token b"
      "s_out b1 = s_out b @ [(ip_merge_port_to_sin addr_a (of_nat ?port), ben_enc_rec (pong_packet (me b) tid))]"
      "val_rep (w_ver W) (me b) (s_value b1) (announce (me b) target ?n ts)" by blast
  from announced_first [OF assms(6), of "me b" ?n] obtain ns where ns: "map_of (announce (me b) target ?n ts) target = Some (?n # ns)" by blast
  have "plain W b1" "val_rep (w_ver W) (me b1) (s_value b1) (announce (me b) target ?n ts)" "me c \<noteq> me b1"
    using assms(3,11) b1(3,4,7) by (simp_all add: plain_def)
  from peers_parsed [OF b1(2) this(1,2) ns _ assms(9) this(3) assms(12,18,20,22), of rest' now'] obtain b2 tok where
    b2: "p2p_parse W b1 (?y @ rest') (length ?y) addr_c now' = Some b2" "tkn_read (s_token b1) = Some tok"
      "s_out b2 = s_out b1 @ [(addr_c, ben_enc_rec (values_packet (me b1) tok (map nv_pair (take 8 (?n # ns))) tid'))]" by blast
  have "map nv_pair (take 8 (?n # ns)) = ip_sin_to_tuple (ip_merge_port_to_sin addr_a (of_nat ?port)) # map nv_pair (take 7 ns)"
    by (simp add: fresh_node_def take_Cons')
  with send ask b1(1,3,5,6) b2 show ?thesis
    by (intro exI [of _ ?x] exI [of _ b1] exI [of _ ?y] exI [of _ b2] exI [of _ tok] exI [of _ "map nv_pair (take 7 ns)"]) simp
qed

theorem announced_is_found_witness:
  "\<exists>token x b1 y b2 tok ps. send_announce_request ex_world (ex_start 1) ex_ip [1, 2, 3, 4] (replicate 20 9) token TOKEN_SIZE = Some ((ex_start 1)\<lparr>s_out := [(ex_ip, x)]\<rparr>) \<and>
     p2p_parse ex_world (ex_start 2) (x @ [0]) (length x) ex_ip 5 = Some b1 \<and>
     send_get_peers_request ex_world (ex_start 3) ex_ip (replicate 20 9) [5, 6, 7, 8] = Some ((ex_start 3)\<lparr>s_out := [(ex_ip, y)]\<rparr>) \<and>
     p2p_parse ex_world b1 (y @ [0]) (length y) ex_ip 6 = Some b2 \<and>
     s_out b2 = s_out b1 @ [(ex_ip, ben_enc_rec (values_packet (replicate 20 2) tok (ip_sin_to_tuple (ip_merge_port_to_sin ex_ip 8080) # ps) [5, 6, 7, 8]))]"
proof -
  obtain token where t: "length token = TOKEN_SIZE" "tkn_validate (s_token (ex_start 2)) token" using start_token [OF ex_start_ok(1) ex_rng_ok] by blast
  have v: "w_ver ex_world = IPV4" by (simp add: ex_world_def)
  have ok: "main_ok ex_world (Suc (Suc 0)) (ex_start 2)" by (rule ex_start_ok(2)) simp
  have pl: "plain ex_world (ex_start c)" for c by (simp add: plain_def ex_start_simps ex_world_def)
  have me: "me (ex_start c) = replicate 20 c" "c_announce_port (s_conf (ex_start c)) = 8080" for c by (simp_all add: ex_start_simps ex_conf_def)
  have rep: "val_rep (w_ver ex_world) (me (ex_start 2)) (s_value (ex_start 2)) []" "has_place (replicate 20 9) []"
    "\<not> val_stale (s_value (ex_start 2)) (replicate 20 9) (me (ex_start 1))"
    by (simp_all add: ex_start_simps val_init_rep has_place_def val_init_not_stale)
  from announced_is_found [OF ok pl pl pl rep, of 3 token ex_ip ex_ip "[1, 2, 3, 4]" "[5, 6, 7, 8]" ex_ip "[0]" 5 "[0]" 6] t ex_ip_ok
  show ?thesis by (simp add: me v ip_is_linklocal_def replicate_eq_replicate ex_start_simps(8)) blast
qed

section \<open>Transactions\<close>

text \<open>
  C22: Expiry ends.  tdb_expire walks the list of transactions while the announcements it sends for finished searches are appended to that very list; in every state
  that satisfies the invariant it returns nevertheless, the invariant still holds and only transactions, random numbers and
  sent datagrams have changed.
\<close>

theorem tdb_expire_terminates:
  assumes "main_ok W (k + 8) m"
  shows "\<exists>m'. tdb_expire W m now = Some m' \<and> main_ok W (k + 8) m' \<and> same_but_search m m'"
  by (rule tdb_expire_ok [OF assms])

theorem tdb_expire_terminates_witness:
  "\<exists>m'. tdb_expire ex_world (ex_start 1) 100 = Some m' \<and> s_nbhd m' = nbhd_init"
proof -
  have "main_ok ex_world (0 + 8) (ex_start 1)" by (rule ex_start_ok(2)) simp
  from tdb_expire_terminates [OF this, of 100] show ?thesis by (auto simp: same_but_search_def ex_start_simps)
qed

text \<open>
  C29: A reply is matched once.  tdb_put stores a transaction that is found by its id and has the type it was opened with; once tdb_del has closed it, its id
  is unknown again and the other transactions are the same as before.
\<close>

theorem transaction_matched_once:
  assumes "tids T xs" and "int (length xs) < LONG_MAX"
  shows "\<exists>T' p g' tid. tdb_put T type now g = Some (T', Some p, g') \<and> tdb_tid T' (Some p) = Some tid \<and> tdb_item T' tid = Some p \<and>
    tdb_type T' (Some p) = Some type \<and> (\<forall>i. i \<noteq> tid \<longrightarrow> tdb_item T' i = tdb_item T i) \<and>
    (\<exists>T''. tdb_del T' (Some p) = Some T'' \<and> tids T'' xs \<and> tdb_item T'' tid = None \<and> (\<forall>i. i \<noteq> tid \<longrightarrow> tdb_item T'' i = tdb_item T i))"
proof -
  let ?t = "new_tid T type now g"
  from tdb_put_tids [OF assms, of type now g] obtain T' p where
    T': "tdb_put T type now g = Some (T', Some p, snd (tdb_create_random_id T g))" "tids T' (xs @ (p, ?t) # [])"
      "hash_get (td_hash T') = (hash_get (td_hash T))(t_id ?t \<mapsto> p)" by blast
  from tdb_del_tids [OF T'(2)] obtain T'' where
    T'': "tdb_del T' (Some p) = Some T''" "tids T'' (xs @ [])" "hash_get (td_hash T'') = (hash_get (td_hash T'))(t_id ?t := None)" by blast
  have "tdb_type T' (Some p) = Some type" using tid_access(1) [OF T'(2)] by (simp add: new_tid_def)
  with T' T'' tid_access(3) [OF T'(2)] show ?thesis by (simp add: tdb_item_def)
qed

theorem transaction_matched_once_witness:
  "\<exists>T' p g' tid T''. tdb_put tdb_init P2P_PING 5 ex_rng = Some (T', Some p, g') \<and> tdb_tid T' (Some p) = Some tid \<and> tdb_item T' tid = Some p \<and>
     tdb_del T' (Some p) = Some T'' \<and> tdb_item T'' tid = None"
  using transaction_matched_once [OF tids_init, of P2P_PING 5 ex_rng] by fastforce

section \<open>Names\<close>

text \<open>
  C12: The DNS front end is safe for short names.  Any datagram on the DNS socket whose name, if it has one, is not longer than 42 bytes is handled without
  writing behind the response buffer, for address and for service queries, from the cache, from the own table or with a new
  search, and the invariants of the program hold afterwards.
\<close>

theorem dns_query_safe:
  assumes "main_ok W (k + 9) m" and "sha1_law W" and "query_safe self junk (d @ 0 # rest) (length d)"
  shows "\<exists>m'. r_parse W self junk m (d @ 0 # rest) (length d) from = Some m' \<and> main_ok W k m'"
  by (rule r_parse_ok [OF assms])

lemma ex_query_safe: "query_safe 0 ex_msg (ex_query @ 0 # []) (length ex_query)"
  by code_simp

theorem dns_query_safe_witness:
  "\<exists>m'. r_parse ex_world 0 ex_msg (ex_start 1) (ex_query @ [0]) (length ex_query) ex_ip = Some m' \<and> main_ok ex_world 0 m'"
proof -
  have "main_ok ex_world (0 + 9) (ex_start 1)" by (rule ex_start_ok(2)) simp
  from dns_query_safe [OF this ex_sha1 ex_query_safe, of ex_ip] show ?thesis by simp
qed

text \<open>
  C10: Name resolution end to end.  A program asks the C library for a host of the domain p2p that the daemon has in its cache.  The module's query is decoded by the daemon, the daemon's
  answer is read by the module, and the caller gets exactly the addresses of the eight most recent entries, in order, in a host entry that lies inside its
  buffer without overlaps, or is asked to try again with a larger one; the newer interface gives the same addresses as a chained list.  The answer must fit the daemon's response buffer, and the caller's array must have room behind the name for a dot.
\<close>

theorem nss_resolves:
  assumes "cache_rep (w_ver W) (s_cache m) ts" and "sha1_law W"
    and "map_of ts (id_hostid W host (c_realm (s_conf m)) (c_bool_realm (s_conf m))) = Some e" and "fst e \<noteq> []"
    and "nss_valid host" and "labels_ok host" and "length host < 192"
    and "reply_size (w_ver W) host (length (given_out (w_ver W) e)) \<le> UDP_BUF" and "\<not> ip_is_linklocal (w_ver W) from"
    and "length stack = 65536" and "0 < room"
  shows "(if buflen < hostent_size (w_ver W) host (length (given_out (w_ver W) e))
    then nss_tk_hostent (w_ver W) pid stack (daemon_net W self junk m from) room host buflen = Some (NSS_STATUS_TRYAGAIN, None)
    else \<exists>he. nss_tk_hostent (w_ver W) pid stack (daemon_net W self junk m from) room host buflen = Some (NSS_STATUS_SUCCESS, Some he) \<and>
      hostent_for (w_ver W) host (given_out (w_ver W) e) buflen he) \<and>
    (length host + 1 + length (given_out (w_ver W) e) * 40 \<le> buflen \<longrightarrow>
      (\<exists>ts. nss_tk_gaih_tuple (w_ver W) pid stack (daemon_net W self junk m from) room host buflen = Some (NSS_STATUS_SUCCESS, ts) \<and>
         tuples_for (given_out (w_ver W) e) ts))"
proof -
  have ne: "given_out (w_ver W) e \<noteq> []" using assms(4) by (simp add: given_out_def)
  note r = name_resolved [OF assms]
  show ?thesis using hostent_small [OF ne _ r(1) assms(5)] hostent_filled [OF r(2,3) ne _ r(1) assms(5)]
    gaih_filled [OF ne _ r(1) assms(5)] by simp
qed

text \<open>The daemon that has one address for every host.\<close>

definition ex_hashed :: WORLD where
  "ex_hashed = ex_world\<lparr>w_sha1 := (\<lambda>x. replicate 20 1)\<rparr>"

lemma ex_host: "nss_valid (lit ''host.p2p'')" "labels_ok (lit ''host.p2p'')"
  by (simp_all add: nss_valid_def NSS_DOMAIN_def str_valid_hostname_def str_valid_tld_def host_char_def lit_def chr_def last_label.simps labels_ok.simps)

theorem nss_resolves_witness:
  "\<exists>m he. nss_tk_hostent IPV4 7 (replicate 65536 0) (daemon_net ex_hashed 0 ex_msg m ex_ip) 1 (lit ''host.p2p'') 1000 =
     Some (NSS_STATUS_SUCCESS, Some he) \<and> hostent_for IPV4 (lit ''host.p2p'') [[192, 0, 2, 1]] 1000 he"
proof -
  from ex_cache obtain cache where c: "cache_rep IPV4 cache [(replicate 20 1, [fresh_pair [192, 0, 2, 1, 26, 225] 100], 1900, 340)]" by blast
  let ?m = "(ex_start 1)\<lparr>s_cache := cache\<rparr>"
  have w: "w_ver ex_hashed = IPV4" "sha1_law ex_hashed" by (simp_all add: ex_hashed_def ex_world_def sha1_law_def)
  have i: "id_hostid ex_hashed (lit ''host.p2p'') (c_realm (s_conf ?m)) (c_bool_realm (s_conf ?m)) = replicate 20 1"
    by (simp add: id_hostid_def ex_start_simps ex_conf_def ex_hashed_def)
  have l: "length (lit ''host.p2p'') = 8" by (simp add: lit_def)
  have g: "given_out IPV4 ([fresh_pair [192, 0, 2, 1, 26, 225] 100], 1900, 340) = [[192, 0, 2, 1]]" by (simp add: given_out_def fresh_pair_def)
  have s: "reply_size IPV4 (lit ''host.p2p'') 1 \<le> UDP_BUF" "\<not> 1000 < hostent_size IPV4 (lit ''host.p2p'') 1"
    unfolding reply_size_def hostent_size_def l by simp_all
  have n: "\<not> ip_is_linklocal IPV4 ex_ip" by (simp add: ip_is_linklocal_def)
  let ?e = "([fresh_pair [192, 0, 2, 1, 26, 225] 100], 1900, 340)"
  have "map_of [(replicate 20 1, ?e)] (id_hostid ex_hashed (lit ''host.p2p'') (c_realm (s_conf ?m)) (c_bool_realm (s_conf ?m))) = Some ?e"
    unfolding i by simp
  from nss_resolves [of ex_hashed ?m, unfolded w(1), OF _ w(2) this _ ex_host, of ex_ip "replicate 65536 0" 1 1000 7 0 ex_msg] c g s n l
  show ?thesis by (auto simp del: lit_Cons)
qed

text \<open>
  C35: An answer that comes late uses a name that is gone.  A search for a DNS client keeps a copy of the message that \<open>r_parse\<close> has decoded on its stack, with the pointer to the
  name as it was.  In any later state in which the search is open and a peer answers with an address that the cache takes, the reply to the client reads the name through that pointer, in a frame that no longer
  exists, and is not defined; had the copy been given a pointer to its own buffer, the same answer would be sent.
\<close>

theorem dns_late_answer:
  assumes "main_ok W (k + 9) m" and "length target = SHA1_SIZE"
    and "p_decode_query (Frame self) junk (d @ 0 # rest) (length d) = Some (1, msg)" and "12 \<le> length d" and "length (cstr (qName_buffer msg)) \<le> 42"
    and "length node_id = SHA1_SIZE" and "length token \<le> TOKEN_SIZE_MAX" and "ip_ok (w_ver W) from" and "length a = IP_SIZE_META_PAIR (w_ver W)"
  shows "\<exists>m1 p. r_lookup_remote W m target P2P_GET_PEERS caller msg = Some m1 \<and> main_ok W k m1 \<and> s_cache m1 = s_cache m \<and>
    searching m1 p target (Some (caller, msg)) \<and>
    (\<forall>m2 msg2. main_ok W k m2 \<and> searching m2 p target (Some (caller, msg2)) \<and> msg2 \<in> {msg, own_name p msg} \<and>
        \<not> cache_stale (w_ver W) (s_cache m2) target [a] (clock m2) (MAIN.s_rng m2) \<longrightarrow>
      (p2p_get_peers_get_values W m2 [BEN_STR a] node_id (Some p) token from = None \<longleftrightarrow> msg2 = msg))"
proof -
  from start_search_tid [OF assms(1,2)] obtain m1 p where
    m1: "r_lookup_remote W m target P2P_GET_PEERS caller msg = Some m1" "main_ok W k m1" "same_but_search m m1" "searching m1 p target (Some (caller, msg))"
    unfolding r_lookup_remote_def by blast
  have q: "fst (qName (question msg)) = Frame self" using p_decode_query_safe [OF assms(4), of "Frame self" junk rest] assms(3) by auto
  have "p2p_get_peers_get_values W m2 [BEN_STR a] node_id (Some p) token from = None \<longleftrightarrow> msg2 = msg"
    if "main_ok W k m2" "searching m2 p target (Some (caller, msg2))" "msg2 \<in> {msg, own_name p msg}"
      "\<not> cache_stale (w_ver W) (s_cache m2) target [a] (clock m2) (MAIN.s_rng m2)" for m2 msg2
    using late_answer [OF that(1,2) assms(6-9) that(4)] that(3) assms(5) q own_name_at own_name_neq [OF q, of p] by (auto simp: q)
  with m1 show ?thesis by (auto simp: same_but_search_def)
qed

theorem dns_late_answer_witness:
  "\<exists>msg m1 p. p_decode_query (Frame 0) ex_msg (ex_query @ [0]) (length ex_query) = Some (1, msg) \<and>
     r_lookup_remote ex_world (ex_start 1) (replicate 20 7) P2P_GET_PEERS ex_ip msg = Some m1 \<and>
     p2p_get_peers_get_values ex_world m1 [BEN_STR [192, 0, 2, 2, 26, 225]] (replicate 20 2) (Some p) [7] ex_ip = None"
proof -
  obtain msg where msg: "p_decode_query (Frame 0) ex_msg (ex_query @ 0 # []) (length ex_query) = Some (1, msg)" "qName_buffer msg = [97, 0]"
    using ex_query_decoded by auto
  have l: "12 \<le> length ex_query" "length (cstr (qName_buffer msg)) \<le> 42" by (simp_all add: ex_query_def msg(2) cstr_def)
  have "main_ok ex_world (0 + 9) (ex_start 1)" by (rule ex_start_ok(2)) simp
  moreover have "ip_ok (w_ver ex_world) ex_ip" "length [192, 0, 2, 2, 26, 225 :: UCHAR] = IP_SIZE_META_PAIR (w_ver ex_world)"
    using ex_ip_ok by (simp_all add: ex_world_def IP_SIZE_META_PAIR_def)
  ultimately obtain m1 p where m1: "r_lookup_remote ex_world (ex_start 1) (replicate 20 7) P2P_GET_PEERS ex_ip msg = Some m1" "main_ok ex_world 0 m1"
    "s_cache m1 = s_cache (ex_start 1)" "searching m1 p (replicate 20 7) (Some (ex_ip, msg))"
    and late: "\<forall>m2 msg2. main_ok ex_world 0 m2 \<and> searching m2 p (replicate 20 7) (Some (ex_ip, msg2)) \<and> msg2 \<in> {msg, own_name p msg} \<and>
        \<not> cache_stale (w_ver ex_world) (s_cache m2) (replicate 20 7) [[192, 0, 2, 2, 26, 225]] (clock m2) (MAIN.s_rng m2) \<longrightarrow>
      (p2p_get_peers_get_values ex_world m2 [BEN_STR [192, 0, 2, 2, 26, 225]] (replicate 20 2) (Some p) [7] ex_ip = None \<longleftrightarrow> msg2 = msg)"
    using dns_late_answer [OF _ _ msg(1) l, of ex_world 0 "ex_start 1" "replicate 20 7" "replicate 20 2" "[7]" ex_ip "[192, 0, 2, 2, 26, 225]" ex_ip]
    by (elim exE conjE meta_impE) (simp_all del: replicate.simps)
  have "s_cache m1 = cache_init" using m1(3) by (simp add: ex_start_simps)
  with late [rule_format, of m1 msg] m1 msg(1) show ?thesis by (simp only: init_not_stale) blast
qed

text \<open>
  The own host names.  id_put accepts exactly the names of valid characters whose identifier is not the one of the node, and appends a record with that identifier,
  which has 20 bytes; within one realm two names share it only if their SHA-1 hashes are equal.
\<close>

theorem id_put_exact:
  assumes "sha1_law W" and "length node_id = SHA1_SIZE"
  shows "id_put W ids hostname node_id realm b =
      (if str_valid_hostname hostname (length hostname) \<and> id_hostid W hostname realm b \<noteq> node_id
       then Some (ids @ [\<lparr>id_hostname = take (BUF_SIZE - 1) hostname, id_host_id = id_hostid W hostname realm b, id_time_announce_host = 0\<rparr>])
       else None) \<and>
    length (id_hostid W hostname realm b) = SHA1_SIZE \<and>
    (id_hostid W hostname realm b = id_hostid W other realm b \<longleftrightarrow> w_sha1 W hostname = w_sha1 W other)"
  using id_hostid_length [OF assms(1)] id_hostid_inj [OF assms(1)] assms(2) by (simp add: id_put_def memcmp_eq_0_iff)

theorem id_put_exact_witness:
  "id_put ex_world [] (lit ''host'') (replicate 20 1) [] False =
     Some [\<lparr>id_hostname = lit ''host'', id_host_id = lit ''host'' @ replicate 16 0, id_time_announce_host = 0\<rparr>]"
proof -
  have i: "id_hostid ex_world (lit ''host'') [] False = lit ''host'' @ replicate 16 0" by (simp add: id_hostid_def ex_world_def)
  have "hd (lit ''host'' @ replicate 16 0) \<noteq> hd (replicate 20 1)" by (simp add: chr_def)
  then have "lit ''host'' @ replicate 16 0 \<noteq> replicate 20 1" by metis
  moreover have "str_valid_hostname (lit ''host'') (length (lit ''host''))" by (simp add: str_valid_hostname_def host_char_def chr_def)
  ultimately show ?thesis
    using id_put_exact [OF ex_sha1, of "replicate 20 1" "[]" "lit ''host''" "[]" False "[]"] i by simp
qed

text \<open>What the program assumes of SHA-1 holds of the built-in one.\<close>

theorem built_in_sha1: "length junk = 64 \<Longrightarrow> sha1_law (W\<lparr>w_sha1 := sha1_hash junk\<rparr>)"
  by (simp add: sha1_law_def sha1_hash_length)

section \<open>Encryption\<close>

text \<open>
  Encryption is transparent.  With what PolarSSL promises, every packet of one to 1456 bytes can be encrypted, the result fits the buffer and is a whole number of
  blocks, and decrypting it with the same salt and key gives the packet back, followed by the zero bytes of its padding.
\<close>

theorem aes_roundtrip:
  assumes "polarssl_laws W" and "length iv = AES_IV_SIZE" and "0 < length packet" and "length packet \<le> AES_MSG_SIZE"
  shows "\<exists>cipher k. aes_encrypt W packet iv key = Some cipher \<and> k < AES_BLOCK_SIZE \<and> length cipher = length packet + k \<and>
    length cipher mod AES_BLOCK_SIZE = 0 \<and> length cipher \<le> AES_MSG_SIZE \<and>
    aes_decrypt W cipher iv key = Some (Some (packet @ replicate k 0))"
  by (rule aes_roundtrip_ok [OF assms])

theorem aes_roundtrip_witness:
  "\<exists>cipher k. aes_encrypt ex_world (lit ''de'') (replicate 16 0) [1] = Some cipher \<and> length cipher = 2 + k \<and>
     aes_decrypt ex_world cipher (replicate 16 0) [1] = Some (Some (lit ''de'' @ replicate k 0))"
proof -
  have "polarssl_laws ex_world" by (simp add: polarssl_laws_def cbc_inverts_def ex_world_def)
  from aes_roundtrip [OF this, of "replicate 16 0" "lit ''de''" "[1]"] show ?thesis by fastforce
qed

end
